(* ===== verification/Prelude.thy ===== *)
theory Prelude
  imports Complex_Main "HOL-Library.Word" "HOL-Library.Multiset"
begin

text \<open>
  Shared vocabulary of the development: the C scalar types, the PostgreSQL error
  values, doubles as the comparisons of C see them, little-endian bytes, and the
  generic list lemmas that several components use.
\<close>

unbundle bit_operations_syntax

named_theorems layout_simps \<open>sizes and offsets of the on-disk structures\<close>
named_theorems codec_simps \<open>round-trip equations of the byte codecs\<close>

type_synonym u8 = "8 word"
type_synonym u16 = "16 word"
type_synonym u32 = "32 word"
type_synonym u64 = "64 word"
type_synonym bytes = "u8 list"

section \<open>Errors\<close>

text \<open>
  \<open>ereport(ERROR, ...)\<close> and \<open>elog(ERROR, ...)\<close> leave the function by a non-local exit.
  A fallible function returns \<open>Inl\<close> of the error code and the message.
\<close>

datatype errcode =
    ERRCODE_PROGRAM_LIMIT_EXCEEDED
  | ERRCODE_DATA_CORRUPTED
  | ERRCODE_DATA_EXCEPTION
  | ERRCODE_INVALID_PARAMETER_VALUE
  | ERRCODE_INVALID_BINARY_REPRESENTATION
  | ERRCODE_INVALID_TEXT_REPRESENTATION
  | ERRCODE_FEATURE_NOT_SUPPORTED
  | ERRCODE_INDEX_CORRUPTED
  | ERRCODE_NULL_VALUE_NOT_ALLOWED
  | ERRCODE_ARRAY_SUBSCRIPT_ERROR
  | ERRCODE_DATATYPE_MISMATCH
  | ERRCODE_PROTOCOL_VIOLATION
  | ERRCODE_INTERNAL_ERROR

datatype pg_error = Ereport errcode string

type_synonym 'a res = "pg_error + 'a"

abbreviation elog :: "string \<Rightarrow> 'a res" where
  "elog msg \<equiv> Inl (Ereport ERRCODE_INTERNAL_ERROR msg)"

definition bindE :: "'a res \<Rightarrow> ('a \<Rightarrow> 'b res) \<Rightarrow> 'b res" where
  "bindE m k = (case m of Inl e \<Rightarrow> Inl e | Inr x \<Rightarrow> k x)"

lemma bindE_simps [simp]:
  "bindE (Inl e) k = Inl e"
  "bindE (Inr x) k = k x"
  by (simp_all add: bindE_def)

lemma bindE_Inr_iff: "bindE m k = Inr y \<longleftrightarrow> (\<exists>x. m = Inr x \<and> k x = Inr y)"
  by (cases m) auto

text \<open>A loop over a list whose body may fail.\<close>

fun foldE :: "('a \<Rightarrow> 's \<Rightarrow> 's res) \<Rightarrow> 'a list \<Rightarrow> 's \<Rightarrow> 's res" where
  "foldE g [] s = Inr s"
| "foldE g (x # xs) s = bindE (g x s) (foldE g xs)"

text \<open>An invariant of such a loop whose body never fails.\<close>

lemma foldE_invariant:
  assumes "I s" "\<And>x s. x \<in> set xs \<Longrightarrow> I s \<Longrightarrow> \<exists>s'. g x s = Inr s' \<and> I s'"
  shows "\<exists>s'. foldE g xs s = Inr s' \<and> I s'"
  using assms
proof (induction xs arbitrary: s)
  case (Cons x xs)
  obtain s' where s': "g x s = Inr s'" "I s'" using Cons.prems(2) [OF _ Cons.prems(1), of x] by auto
  show ?case using Cons.IH [OF s'(2)] Cons.prems(2) s'(1) by simp
qed simp

definition is_ok :: "'a res \<Rightarrow> bool" where
  "is_ok r = (case r of Inl _ \<Rightarrow> False | Inr _ \<Rightarrow> True)"

lemma is_ok_simps [simp]: "is_ok (Inr x)" "\<not> is_ok (Inl e)"
  by (simp_all add: is_ok_def)

lemma is_ok_iff: "is_ok r \<longleftrightarrow> (\<exists>x. r = Inr x)"
  by (cases r) auto

section \<open>Doubles under comparison\<close>

text \<open>
  The values of a C \<open>double\<close>, up to the sign of zero, which no comparison sees. Every
  ordered comparison with a NaN is false and \<open>!=\<close> is true, as IEEE 754 requires.
\<close>

datatype cdouble = NaN | NegInf | Fin rat | PosInf

fun dless :: "cdouble \<Rightarrow> cdouble \<Rightarrow> bool" where
  "dless NaN _ = False"
| "dless _ NaN = False"
| "dless NegInf y = (y \<noteq> NegInf)"
| "dless (Fin a) (Fin b) = (a < b)"
| "dless (Fin a) PosInf = True"
| "dless (Fin a) NegInf = False"
| "dless PosInf _ = False"

fun dneq :: "cdouble \<Rightarrow> cdouble \<Rightarrow> bool" where
  "dneq NaN _ = True"
| "dneq _ NaN = True"
| "dneq x y = (x \<noteq> y)"

definition dmin :: "cdouble \<Rightarrow> cdouble \<Rightarrow> cdouble" where
  \<comment> \<open>PostgreSQL's \<open>Min(x, y)\<close> macro: \<open>x < y ? x : y\<close>\<close>
  "dmin x y = (if dless x y then x else y)"

lemma dless_irrefl [simp]: "\<not> dless x x"
  by (cases x) auto

lemma dless_asym: "dless x y \<Longrightarrow> \<not> dless y x"
  by (cases x; cases y) auto

lemma dless_trans: "dless x y \<Longrightarrow> dless y z \<Longrightarrow> dless x z"
  by (cases x; cases y; cases z) auto

lemma dless_total: "x \<noteq> NaN \<Longrightarrow> y \<noteq> NaN \<Longrightarrow> dless x y \<or> x = y \<or> dless y x"
  by (cases x; cases y) auto

lemma dneq_iff: "x \<noteq> NaN \<Longrightarrow> y \<noteq> NaN \<Longrightarrow> dneq x y \<longleftrightarrow> x \<noteq> y"
  by (cases x; cases y) auto

lemma dless_not_NaN: "dless x y \<Longrightarrow> x \<noteq> NaN \<and> y \<noteq> NaN"
  by (cases x; cases y) auto

text \<open>
  The two shapes the comparisons of the extension have: a double first, ties broken by an
  integer, in ascending and in descending direction.
\<close>

definition lex_less :: "cdouble \<Rightarrow> 'i::linorder \<Rightarrow> cdouble \<Rightarrow> 'i \<Rightarrow> bool" where
  "lex_less d i e j = (if dneq d e then dless d e else i < j)"

lemma lex_less_asym: "lex_less d i e j \<Longrightarrow> d \<noteq> NaN \<Longrightarrow> e \<noteq> NaN \<Longrightarrow> \<not> lex_less e j d i"
  by (auto simp: lex_less_def dneq_iff dest: dless_asym)

lemma lex_less_total:
  "d \<noteq> NaN \<Longrightarrow> e \<noteq> NaN \<Longrightarrow> lex_less d i e j \<or> (d = e \<and> i = j) \<or> lex_less e j d i"
  using dless_total [of d e] by (auto simp: lex_less_def dneq_iff)

lemma lex_less_negtrans:
  assumes "d \<noteq> NaN" "e \<noteq> NaN" "f \<noteq> NaN" "\<not> lex_less d i e j" "\<not> lex_less e j f k"
  shows "\<not> lex_less d i f k"
proof -
  have "e = d \<and> j \<le> i \<or> dless e d" using assms dless_total [of d e]
    by (auto simp: lex_less_def dneq_iff split: if_splits)
  moreover have "f = e \<and> k \<le> j \<or> dless f e" using assms dless_total [of e f]
    by (auto simp: lex_less_def dneq_iff split: if_splits)
  ultimately have "f = d \<and> k \<le> i \<or> dless f d" using dless_trans by auto
  then show ?thesis using assms dless_asym by (auto simp: lex_less_def dneq_iff)
qed

section \<open>Heap tuple identifiers\<close>

record ItemPointerData =
  ip_blkid :: u32
  ip_posid :: u16

section \<open>Alignment and allocation sizes\<close>

definition MaxAllocSize :: nat where "MaxAllocSize = 1073741823"

definition BLCKSZ :: nat where "BLCKSZ = 8192"

definition MAXALIGN :: "nat \<Rightarrow> nat" where
  "MAXALIGN n = (n + 7) div 8 * 8"

lemma MAXALIGN_ge: "n \<le> MAXALIGN n"
  by (simp add: MAXALIGN_def)

lemma MAXALIGN_lt: "MAXALIGN n < n + 8"
  by (simp add: MAXALIGN_def)

lemma MAXALIGN_dvd [simp]: "8 dvd MAXALIGN n"
  by (simp add: MAXALIGN_def)

lemma MAXALIGN_idem: "8 dvd n \<Longrightarrow> MAXALIGN n = n"
  by (auto simp: MAXALIGN_def dvd_def)

lemma MAXALIGN_mono: "a \<le> b \<Longrightarrow> MAXALIGN a \<le> MAXALIGN b"
  by (simp add: MAXALIGN_def div_le_mono)

lemma word_less_succ: "g \<noteq> 0xFFFFFFFF \<Longrightarrow> g < g + 1" for g :: u32
proof -
  assume "g \<noteq> 0xFFFFFFFF"
  then have "unat g \<noteq> unat (0xFFFFFFFF :: u32)" by (metis word_unat_eq_iff)
  moreover have "unat g < 2 ^ 32" using unsigned_less [of g] by simp
  ultimately show ?thesis by (simp add: word_less_nat_alt unat_word_ariths)
qed

section \<open>Little-endian 16-bit values in memory\<close>

definition put_u16 :: "u16 \<Rightarrow> bytes" where
  "put_u16 v = [ucast v, ucast (drop_bit 8 v)]"

definition get_u16 :: "u8 \<Rightarrow> u8 \<Rightarrow> u16" where
  "get_u16 lo hi = ucast lo OR push_bit 8 (ucast hi)"

lemma length_put_u16 [simp]: "length (put_u16 v) = 2"
  by (simp add: put_u16_def)

lemma get_put_u16 [codec_simps]: "get_u16 (ucast v) (ucast (drop_bit 8 v)) = v"
  unfolding get_u16_def
  by (rule bit_word_eqI)
    (auto simp: bit_or_iff bit_push_bit_iff bit_drop_bit_eq bit_ucast_iff not_le)

definition put_u32 :: "u32 \<Rightarrow> bytes" where
  "put_u32 v = [ucast v, ucast (drop_bit 8 v), ucast (drop_bit 16 v), ucast (drop_bit 24 v)]"

definition get_u32 :: "u8 \<Rightarrow> u8 \<Rightarrow> u8 \<Rightarrow> u8 \<Rightarrow> u32" where
  "get_u32 a b c d = ucast a OR push_bit 8 (ucast b) OR push_bit 16 (ucast c) OR push_bit 24 (ucast d)"

lemma length_put_u32 [simp]: "length (put_u32 v) = 4"
  by (simp add: put_u32_def)

lemma get_put_u32 [codec_simps]:
  "get_u32 (ucast v) (ucast (drop_bit 8 v)) (ucast (drop_bit 16 v)) (ucast (drop_bit 24 v)) = v"
proof (rule bit_word_eqI)
  fix n assume "n < LENGTH(32)"
  then consider "n < 8" | "8 \<le> n" "n < 16" | "16 \<le> n" "n < 24" | "24 \<le> n" "n < 32"
    by force
  then show "bit (get_u32 (ucast v) (ucast (drop_bit 8 v)) (ucast (drop_bit 16 v)) (ucast (drop_bit 24 v))) n
      = bit v n"
    by cases (auto simp: get_u32_def bit_or_iff bit_push_bit_iff bit_drop_bit_eq bit_ucast_iff)
qed

text \<open>Fields of a structure at a byte offset.\<close>

definition u16_at :: "bytes \<Rightarrow> nat \<Rightarrow> u16" where
  "u16_at bs i = get_u16 (bs ! i) (bs ! (i + 1))"

definition u32_at :: "bytes \<Rightarrow> nat \<Rightarrow> u32" where
  "u32_at bs i = get_u32 (bs ! i) (bs ! (i + 1)) (bs ! (i + 2)) (bs ! (i + 3))"

lemma u16_at_put [codec_simps]: "i = length pre \<Longrightarrow> u16_at (pre @ put_u16 v @ post) i = v"
  by (simp add: u16_at_def put_u16_def nth_append get_put_u16)

lemma u32_at_put [codec_simps]: "i = length pre \<Longrightarrow> u32_at (pre @ put_u32 v @ post) i = v"
  by (simp add: u32_at_def put_u32_def nth_append get_put_u32)

text \<open>An array of 16-bit values.\<close>

fun u16s :: "bytes \<Rightarrow> u16 list" where
  "u16s (a # b # bs) = get_u16 a b # u16s bs"
| "u16s _ = []"

fun pairs :: "'a list \<Rightarrow> ('a \<times> 'a) list" where
  "pairs (x # y # zs) = (x, y) # pairs zs"
| "pairs _ = []"

lemma u16s_put [codec_simps]: "u16s (put_u16 v @ bs) = v # u16s bs"
  by (simp add: put_u16_def get_put_u16)

lemma u16s_concat [codec_simps]: "u16s (concat (map put_u16 vs)) = vs"
  by (induction vs) (simp_all add: u16s_put)

lemma length_concat_put_u16 [simp]: "length (concat (map put_u16 vs)) = 2 * length vs"
  by (induction vs) simp_all

lemma length_concat_put_u16_comp [simp]: "length (concat (map (put_u16 \<circ> f) xs)) = 2 * length xs"
  by (induction xs) simp_all

lemma length_u16s [simp]: "length (u16s bs) = length bs div 2"
  by (induction bs rule: u16s.induct) auto

lemma length_pairs [simp]: "length (pairs xs) = length xs div 2"
  by (induction xs rule: pairs.induct) auto

section \<open>Lists\<close>

definition swap :: "'a list \<Rightarrow> nat \<Rightarrow> nat \<Rightarrow> 'a list" where
  "swap xs i j = xs[i := xs ! j, j := xs ! i]"

lemma length_swap [simp]: "length (swap xs i j) = length xs"
  by (simp add: swap_def)

lemma nth_swap:
  "i < length xs \<Longrightarrow> j < length xs \<Longrightarrow> k < length xs \<Longrightarrow>
   swap xs i j ! k = (if k = i then xs ! j else if k = j then xs ! i else xs ! k)"
  by (auto simp: swap_def nth_list_update)

lemma mset_swap_eq: "i < length xs \<Longrightarrow> j < length xs \<Longrightarrow> mset (swap xs i j) = mset xs"
  using mset_swap [of j xs i] by (simp add: swap_def)

lemma take_swap: "i < n \<Longrightarrow> j < n \<Longrightarrow> n \<le> length xs \<Longrightarrow> take n (swap xs i j) = swap (take n xs) i j"
  by (simp add: swap_def take_update_swap)

lemma mset_take_swap:
  "i < n \<Longrightarrow> j < n \<Longrightarrow> n \<le> length xs \<Longrightarrow> mset (take n (swap xs i j)) = mset (take n xs)"
  by (simp add: take_swap mset_swap_eq)

lemma drop_swap: "i < n \<Longrightarrow> j < n \<Longrightarrow> drop n (swap xs i j) = drop n xs"
  by (simp add: swap_def)

lemma set_take_nth: "i < n \<Longrightarrow> n \<le> length xs \<Longrightarrow> xs ! i \<in> set (take n xs)"
  by (metis dual_order.strict_trans2 length_take min.absorb2 nth_mem nth_take)

end
