(* ===== verification/Array_Heap.thy ===== *)
theory Array_Heap
  imports Prelude
begin

text \<open>
  The binary heap that the extension open-codes over C arrays in seven places. An array is
  a list, of which the first \<open>n\<close> cells are live; \<open>before x y\<close> says that \<open>x\<close> must be
  nearer to the root than \<open>y\<close>. The sift loops are the C loops; the components instantiate
  them with their own comparison. The locale \<open>heap_order\<close> is the contract a comparison has
  to meet (a strict weak order on the admissible keys), and proves once what the heap
  operations then guarantee.
\<close>

section \<open>The loops\<close>

definition parent :: "nat \<Rightarrow> nat" where
  "parent i = (i - 1) div 2"

lemma parent_less [simp]: "0 < i \<Longrightarrow> parent i < i"
  by (auto simp: parent_def)

lemma parent_le: "parent i \<le> i"
  by (auto simp: parent_def)

lemma parent_bound [simp]: "j < n \<Longrightarrow> parent j < n"
  using parent_le [of j] by simp

lemma parent_eq_iff: "0 < j \<Longrightarrow> parent j = i \<longleftrightarrow> j = 2 * i + 1 \<or> j = 2 * i + 2"
  by (auto simp: parent_def)

function heap_sift_up :: "('a \<Rightarrow> 'a \<Rightarrow> bool) \<Rightarrow> 'a list \<Rightarrow> nat \<Rightarrow> 'a list" where
  "heap_sift_up before h i =
     (if i > 0 \<and> before (h ! i) (h ! parent i)
      then heap_sift_up before (swap h i (parent i)) (parent i)
      else h)"
  by pat_completeness auto
termination
  by (relation "measure (\<lambda>(before, h, i). i)") auto

definition heap_best :: "('a \<Rightarrow> 'a \<Rightarrow> bool) \<Rightarrow> 'a list \<Rightarrow> nat \<Rightarrow> nat \<Rightarrow> nat" where
  "heap_best before h n i =
     (let left = 2 * i + 1; right = left + 1;
          best = (if left < n \<and> before (h ! left) (h ! i) then left else i)
      in if right < n \<and> before (h ! right) (h ! best) then right else best)"

lemma heap_best_cases:
  "heap_best before h n i = i \<or>
   (heap_best before h n i < n \<and> i < heap_best before h n i)"
  by (auto simp: heap_best_def Let_def)

function heap_sift_down :: "('a \<Rightarrow> 'a \<Rightarrow> bool) \<Rightarrow> 'a list \<Rightarrow> nat \<Rightarrow> nat \<Rightarrow> 'a list" where
  "heap_sift_down before h n i =
     (let best = heap_best before h n i
      in if best = i then h else heap_sift_down before (swap h i best) n best)"
  by pat_completeness auto
termination
proof (relation "measure (\<lambda>(before, h, n, i). n - i)")
  fix before :: "'a \<Rightarrow> 'a \<Rightarrow> bool" and h n i x
  assume "x = heap_best before h n i" "x \<noteq> i"
  then show "((before, swap h i x, n, x), before, h, n, i) \<in> measure (\<lambda>(before, h, n, i). n - i)"
    using heap_best_cases [of before h n i] by auto
qed simp

declare heap_sift_up.simps [simp del] heap_sift_down.simps [simp del]

definition heap_push :: "('a \<Rightarrow> 'a \<Rightarrow> bool) \<Rightarrow> 'a list \<Rightarrow> nat \<Rightarrow> 'a \<Rightarrow> 'a list \<times> nat" where
  "heap_push before h n x = (heap_sift_up before (h[n := x]) n, Suc n)"

definition heap_replace_root :: "('a \<Rightarrow> 'a \<Rightarrow> bool) \<Rightarrow> 'a list \<Rightarrow> nat \<Rightarrow> 'a \<Rightarrow> 'a list" where
  "heap_replace_root before h n x = heap_sift_down before (h[0 := x]) n 0"

definition heap_pop :: "('a \<Rightarrow> 'a \<Rightarrow> bool) \<Rightarrow> 'a list \<Rightarrow> nat \<Rightarrow> 'a \<times> 'a list \<times> nat" where
  "heap_pop before h n =
     (let n' = n - 1
      in (h ! 0, if n' > 0 then heap_sift_down before (h[0 := h ! n']) n' 0 else h, n'))"

section \<open>Permutation and frame facts, for any comparison\<close>

lemma heap_best_less: "i < n \<Longrightarrow> heap_best before h n i < n"
  using heap_best_cases [of before h n i] by auto

lemma heap_sift_up_frame:
  "i < n \<Longrightarrow> n \<le> length h \<Longrightarrow>
   length (heap_sift_up before h i) = length h \<and>
   mset (take n (heap_sift_up before h i)) = mset (take n h) \<and>
   drop n (heap_sift_up before h i) = drop n h"
proof (induction before h i rule: heap_sift_up.induct)
  case (1 before h i)
  have p: "parent i < n" using "1.prems" parent_le [of i] by simp
  show ?case
  proof (cases "i > 0 \<and> before (h ! i) (h ! parent i)")
    case True
    with "1.IH" "1.prems" p show ?thesis
      by (simp add: heap_sift_up.simps [of before h i] mset_take_swap drop_swap)
  qed (subst (1 2 3) heap_sift_up.simps, auto)
qed

lemma heap_sift_down_frame:
  "i < n \<Longrightarrow> n \<le> length h \<Longrightarrow>
   length (heap_sift_down before h n i) = length h \<and>
   mset (take n (heap_sift_down before h n i)) = mset (take n h) \<and>
   drop n (heap_sift_down before h n i) = drop n h"
proof (induction before h n i rule: heap_sift_down.induct)
  case (1 before h n i)
  let ?b = "heap_best before h n i"
  have b: "?b < n" using "1.prems" heap_best_less by blast
  show ?case
  proof (cases "?b = i")
    case False
    with "1.IH" [OF refl False] "1.prems" b show ?thesis
      by (simp add: heap_sift_down.simps [of before h n i] Let_def mset_take_swap drop_swap)
  qed (simp add: heap_sift_down.simps [of before h n i])
qed

lemmas heap_sift_up_length [simp] = heap_sift_up_frame [THEN conjunct1]
lemmas heap_sift_up_mset [simp] = heap_sift_up_frame [THEN conjunct2, THEN conjunct1]
lemmas heap_sift_down_length [simp] = heap_sift_down_frame [THEN conjunct1]
lemmas heap_sift_down_mset [simp] = heap_sift_down_frame [THEN conjunct2, THEN conjunct1]

lemma mset_take_Suc_update:
  "n < length h \<Longrightarrow> mset (take (Suc n) (h[n := x])) = add_mset x (mset (take n h))"
  by (simp add: take_Suc_conv_app_nth)

lemma mset_take_root_update:
  "0 < n \<Longrightarrow> n \<le> length h \<Longrightarrow>
   add_mset (h ! 0) (mset (take n (h[0 := x]))) = add_mset x (mset (take n h))"
  by (cases h; cases n) auto

lemma heap_push_mset:
  "n < length h \<Longrightarrow> mset (take (Suc n) (fst (heap_push before h n x))) = add_mset x (mset (take n h))"
  by (simp add: heap_push_def mset_take_Suc_update)

lemma heap_push_length [simp]:
  "n < length h \<Longrightarrow> length (fst (heap_push before h n x)) = length h"
  by (simp add: heap_push_def heap_sift_up_frame [of n "Suc n"])

lemma heap_push_snd [simp]: "snd (heap_push before h n x) = Suc n"
  by (simp add: heap_push_def)

lemma heap_replace_root_mset:
  "0 < n \<Longrightarrow> n \<le> length h \<Longrightarrow>
   add_mset (h ! 0) (mset (take n (heap_replace_root before h n x))) = add_mset x (mset (take n h))"
  by (simp add: heap_replace_root_def mset_take_root_update)

lemma heap_replace_root_length [simp]:
  "0 < n \<Longrightarrow> n \<le> length h \<Longrightarrow> length (heap_replace_root before h n x) = length h"
  by (simp add: heap_replace_root_def)

lemma heap_pop_mset:
  assumes "0 < n" "n \<le> length h"
  shows "add_mset (fst (heap_pop before h n))
           (mset (take (n - 1) (fst (snd (heap_pop before h n))))) = mset (take n h)"
proof -
  obtain m where n: "n = Suc m" using assms by (cases n) auto
  have "mset (take n h) = add_mset (h ! m) (mset (take m h))"
    using assms by (simp add: n take_Suc_conv_app_nth)
  then show ?thesis
    using assms mset_take_root_update [of m h "h ! m"]
    by (auto simp: heap_pop_def n Let_def)
qed

section \<open>The contract of a comparison\<close>

definition heap_inv :: "('a \<Rightarrow> 'a \<Rightarrow> bool) \<Rightarrow> 'a list \<Rightarrow> nat \<Rightarrow> bool" where
  "heap_inv before h n \<longleftrightarrow> n \<le> length h \<and> (\<forall>j. 0 < j \<and> j < n \<longrightarrow> \<not> before (h ! j) (h ! parent j))"

definition up_inv :: "('a \<Rightarrow> 'a \<Rightarrow> bool) \<Rightarrow> 'a list \<Rightarrow> nat \<Rightarrow> nat \<Rightarrow> bool" where
  "up_inv before h n i \<longleftrightarrow>
     (\<forall>j. 0 < j \<and> j < n \<and> j \<noteq> i \<longrightarrow> \<not> before (h ! j) (h ! parent j)) \<and>
     (\<forall>j. 0 < j \<and> j < n \<and> parent j = i \<and> 0 < i \<longrightarrow> \<not> before (h ! j) (h ! parent i))"

definition down_inv :: "('a \<Rightarrow> 'a \<Rightarrow> bool) \<Rightarrow> 'a list \<Rightarrow> nat \<Rightarrow> nat \<Rightarrow> bool" where
  "down_inv before h n i \<longleftrightarrow>
     (\<forall>j. 0 < j \<and> j < n \<and> parent j \<noteq> i \<longrightarrow> \<not> before (h ! j) (h ! parent j)) \<and>
     (\<forall>j. 0 < j \<and> j < n \<and> parent j = i \<and> 0 < i \<longrightarrow> \<not> before (h ! j) (h ! parent i))"

abbreviation all_ok :: "('a \<Rightarrow> bool) \<Rightarrow> 'a list \<Rightarrow> nat \<Rightarrow> bool" where
  "all_ok ok h n \<equiv> (\<forall>x\<in>set (take n h). ok x)"

lemma all_ok_mset_eq: "mset (take n h) = mset (take n h') \<Longrightarrow> all_ok ok h n = all_ok ok h' n"
  by (metis set_mset_mset)

text \<open>
  A heap of bounded capacity that has been offered the items \<open>S\<close>: the live cells hold a
  sub-multiset of \<open>S\<close>, nothing is dropped before the heap is full, and no retained item
  precedes a dropped one, i.e. (the root being the worst item) the best ones are retained.
\<close>

definition topk :: "('a \<Rightarrow> 'a \<Rightarrow> bool) \<Rightarrow> nat \<Rightarrow> 'a multiset \<Rightarrow> 'a list \<Rightarrow> nat \<Rightarrow> bool" where
  "topk before cap S h n \<longleftrightarrow>
     heap_inv before h n \<and> n \<le> cap \<and> cap \<le> length h \<and>
     (\<exists>D. S = mset (take n h) + D \<and> (D \<noteq> {#} \<longrightarrow> n = cap) \<and>
          (\<forall>d \<in># D. \<forall>x \<in> set (take n h). \<not> before x d))"

lemma topk_size: "topk before cap S h n \<Longrightarrow> n = min cap (size S)"
proof -
  assume t: "topk before cap S h n"
  then obtain D where D: "S = mset (take n h) + D" "D \<noteq> {#} \<longrightarrow> n = cap"
    by (auto simp: topk_def)
  moreover have "length (take n h) = n" "n \<le> cap" using t by (auto simp: topk_def)
  ultimately show ?thesis by (cases "D = {#}") (simp_all add: min_def)
qed

locale heap_order =
  fixes before :: "'a \<Rightarrow> 'a \<Rightarrow> bool"
    and ok :: "'a \<Rightarrow> bool"
  assumes before_asym: "ok x \<Longrightarrow> ok y \<Longrightarrow> before x y \<Longrightarrow> \<not> before y x"
    and before_negtrans:
      "ok x \<Longrightarrow> ok y \<Longrightarrow> ok z \<Longrightarrow> \<not> before x y \<Longrightarrow> \<not> before y z \<Longrightarrow> \<not> before x z"
begin

lemma before_irrefl: "ok x \<Longrightarrow> \<not> before x x"
  using before_asym by blast

lemma before_trans: "ok x \<Longrightarrow> ok y \<Longrightarrow> ok z \<Longrightarrow> before x y \<Longrightarrow> before y z \<Longrightarrow> before x z"
  using before_asym before_negtrans by blast

lemma all_ok_nth: "all_ok ok h n \<Longrightarrow> n \<le> length h \<Longrightarrow> j < n \<Longrightarrow> ok (h ! j)"
  using set_take_nth by metis

lemma sift_up_step:
  assumes inv: "up_inv before h n i" and i: "0 < i" "i < n" "n \<le> length h"
    and okh: "all_ok ok h n" and sw: "before (h ! i) (h ! parent i)"
  shows "up_inv before (swap h i (parent i)) n (parent i)"
proof -
  let ?p = "parent i" and ?h = "swap h i (parent i)"
  have p: "?p < i" using i by simp
  with i have pn: "?p < n" by simp
  note p = pn p
  have nth: "?h ! k = (if k = i then h ! ?p else if k = ?p then h ! i else h ! k)" if "k < n" for k
    using that i p by (simp add: nth_swap)
  have okn: "ok (h ! k)" if "k < n" for k using all_ok_nth okh i that by blast
  have edges: "\<not> before (h ! j) (h ! parent j)" if "0 < j" "j < n" "j \<noteq> i" for j
    using inv that by (simp add: up_inv_def)
  have grand: "\<not> before (h ! j) (h ! ?p)" if "0 < j" "j < n" "parent j = i" for j
    using inv that i by (simp add: up_inv_def)
  have pi: "\<not> before (h ! ?p) (h ! i)" using before_asym okn p i sw by blast
  have "\<not> before (?h ! j) (?h ! parent j)" if j: "0 < j" "j < n" "j \<noteq> ?p" for j
  proof (cases "j = i")
    case True
    with nth [of i] nth [of ?p] p i pi show ?thesis by simp
  next
    case False
    have pj: "parent j < j" using j by simp
    with j have pjn: "parent j < n" by simp
    note pj = pjn pj
    consider "parent j = i" | "parent j = ?p" "parent j \<noteq> i" | "parent j \<noteq> i" "parent j \<noteq> ?p" by blast
    then show ?thesis
    proof cases
      case 1
      then show ?thesis using nth [of j] nth [of i] j False i grand by simp
    next
      case 2
      have "\<not> before (h ! j) (h ! ?p)" using edges [of j] j False 2 by simp
      then have "\<not> before (h ! j) (h ! i)"
        using before_negtrans okn pi j i p by blast
      then show ?thesis using nth [of j] nth [of ?p] j False p 2 by simp
    next
      case 3
      then show ?thesis using nth [of j] nth [of "parent j"] j False pj edges [of j] by simp
    qed
  qed
  moreover have "\<not> before (?h ! j) (?h ! parent ?p)"
    if j: "0 < j" "j < n" "parent j = ?p" "0 < ?p" for j
  proof -
    have pp0: "parent ?p < ?p" using j by simp
    with p have pp: "parent ?p < n" "parent ?p \<noteq> i" "parent ?p \<noteq> ?p" by linarith+
    have e: "\<not> before (h ! ?p) (h ! parent ?p)" using edges [of ?p] p j by simp
    show ?thesis
    proof (cases "j = i")
      case True
      then show ?thesis using nth [of i] nth [of "parent ?p"] i pp e by simp
    next
      case False
      have "\<not> before (h ! j) (h ! ?p)" using edges [of j] j False by simp
      then have "\<not> before (h ! j) (h ! parent ?p)"
        using before_negtrans okn e j p pp by blast
      moreover have "j \<noteq> ?p" using j parent_less [of j] by auto
      ultimately show ?thesis using nth [of j] nth [of "parent ?p"] j False pp by simp
    qed
  qed
  ultimately show ?thesis by (simp add: up_inv_def)
qed

lemma sift_up_heap:
  "up_inv before h n i \<Longrightarrow> i < n \<Longrightarrow> n \<le> length h \<Longrightarrow> all_ok ok h n \<Longrightarrow>
   heap_inv before (heap_sift_up before h i) n"
proof (induction i arbitrary: h rule: less_induct)
  case (less i)
  show ?case
  proof (cases "i > 0 \<and> before (h ! i) (h ! parent i)")
    case True
    have p: "parent i < n" using less.prems parent_le [of i] by simp
    have "up_inv before (swap h i (parent i)) n (parent i)"
      using sift_up_step less.prems True by blast
    moreover have "all_ok ok (swap h i (parent i)) n"
      using all_ok_mset_eq [OF mset_take_swap] less.prems p by metis
    ultimately show ?thesis
      using less.IH [of "parent i"] less.prems p True
      by (simp add: heap_sift_up.simps [of before h i])
  next
    case False
    then have "heap_sift_up before h i = h" by (subst heap_sift_up.simps) auto
    then show ?thesis using less.prems False by (auto simp: heap_inv_def up_inv_def)
  qed
qed

text \<open>The child that \<open>heap_best\<close> picks is not preceded by its parent nor by its sibling.\<close>

lemma heap_best_spec:
  assumes "i < n" "n \<le> length h" "all_ok ok h n"
  defines "b \<equiv> heap_best before h n i"
  shows "b \<noteq> i \<Longrightarrow> 0 < b \<and> parent b = i \<and> before (h ! b) (h ! i)"
    and "0 < j \<Longrightarrow> j < n \<Longrightarrow> parent j = i \<Longrightarrow> \<not> before (h ! j) (h ! b)"
proof -
  let ?l = "2 * i + 1" and ?r = "2 * i + 2"
  have okn: "ok (h ! k)" if "k < n" for k using all_ok_nth assms that by blast
  show "b \<noteq> i \<Longrightarrow> 0 < b \<and> parent b = i \<and> before (h ! b) (h ! i)"
    using before_trans [of "h ! ?r" "h ! ?l" "h ! i"] okn assms(1)
    by (auto simp: b_def heap_best_def Let_def parent_eq_iff split: if_splits)
  assume j: "0 < j" "j < n" "parent j = i"
  define m where "m = (if ?l < n \<and> before (h ! ?l) (h ! i) then ?l else i)"
  have m: "m < n" using assms(1) by (simp add: m_def)
  have b: "b = (if ?r < n \<and> before (h ! ?r) (h ! m) then ?r else m)"
    by (simp add: b_def heap_best_def Let_def m_def)
  have bn: "b < n" using heap_best_less assms(1) by (simp add: b_def)
  have lm: "\<not> before (h ! ?l) (h ! m)" if "?l < n"
    using before_irrefl [OF okn, of ?l] that by (auto simp: m_def)
  have bm: "\<not> before (h ! m) (h ! b)"
    using before_asym [OF okn okn, of ?r m] before_irrefl [OF okn, of m] m by (auto simp: b)
  from j have "j = ?l \<or> j = ?r" by (simp add: parent_eq_iff)
  then show "\<not> before (h ! j) (h ! b)"
  proof
    assume "j = ?l"
    moreover from this have "\<not> before (h ! j) (h ! m)" using lm j by simp
    ultimately show ?thesis
      using before_negtrans [OF okn okn okn _ bm, of j] j m bn by blast
  next
    assume r: "j = ?r"
    with j have "\<not> before (h ! ?r) (h ! ?r)" by (simp add: before_irrefl okn)
    with j r show ?thesis by (auto simp: b)
  qed
qed

lemma sift_down_step:
  assumes inv: "down_inv before h n i" and i: "i < n" "n \<le> length h"
    and okh: "all_ok ok h n" and b: "heap_best before h n i = b" "b \<noteq> i"
  shows "down_inv before (swap h i b) n b"
proof -
  let ?h = "swap h i b"
  have bn: "b < n" using b i heap_best_less by blast
  have pb: "0 < b" "parent b = i" "before (h ! b) (h ! i)"
    using heap_best_spec(1) [OF i okh] b by auto
  have sib: "\<not> before (h ! j) (h ! b)" if "0 < j" "j < n" "parent j = i" for j
    using heap_best_spec(2) [OF i okh that] b by simp
  have nth: "?h ! k = (if k = i then h ! b else if k = b then h ! i else h ! k)" if "k < n" for k
    using that i bn by (simp add: nth_swap)
  have okn: "ok (h ! k)" if "k < n" for k using all_ok_nth okh i that by blast
  have edges: "\<not> before (h ! j) (h ! parent j)" if "0 < j" "j < n" "parent j \<noteq> i" for j
    using inv that by (simp add: down_inv_def)
  have ib: "\<not> before (h ! i) (h ! b)" using before_asym okn bn i pb by blast
  have "\<not> before (?h ! j) (?h ! parent j)" if j: "0 < j" "j < n" "parent j \<noteq> b" for j
  proof -
    have pj: "parent j < n" using j parent_less [of j] by simp
    consider "j = b" | "j = i" | "parent j = i" "j \<noteq> b" | "j \<noteq> i" "j \<noteq> b" "parent j \<noteq> i" by blast
    then show ?thesis
    proof cases
      case 1
      then show ?thesis using nth [of b] nth [of i] bn i pb ib b by simp
    next
      case 2
      then have "\<not> before (h ! b) (h ! parent i)"
        using inv pb bn j by (simp add: down_inv_def)
      then show ?thesis
        using nth [of i] nth [of "parent i"] pj less_imp_neq [OF parent_less [of i]] 2 j by simp
    next
      case 3
      have "j \<noteq> i" using 3 j parent_less [of j] by auto
      then show ?thesis using nth [of j] nth [of i] i j 3 sib by simp
    next
      case 4
      then show ?thesis using nth [of j] nth [of "parent j"] j pj edges by simp
    qed
  qed
  moreover have "\<not> before (?h ! j) (?h ! parent b)"
    if j: "0 < j" "j < n" "parent j = b" for j
  proof -
    have jb: "b < j" using j parent_less [of j] by simp
    have "i < b" using pb parent_less [of b] by simp
    with jb have "j \<noteq> i" "j \<noteq> b" by auto
    then have "?h ! j = h ! j" "?h ! i = h ! b" using nth j i by auto
    moreover have "\<not> before (h ! j) (h ! b)" using edges [of j] j b by simp
    ultimately show ?thesis using pb by simp
  qed
  ultimately show ?thesis by (simp add: down_inv_def)
qed

lemma sift_down_heap:
  "down_inv before h n i \<Longrightarrow> i < n \<Longrightarrow> n \<le> length h \<Longrightarrow> all_ok ok h n \<Longrightarrow>
   heap_inv before (heap_sift_down before h n i) n"
proof (induction "n - i" arbitrary: h i rule: less_induct)
  case less
  let ?b = "heap_best before h n i"
  have bn: "?b < n" using less.prems heap_best_less by blast
  show ?case
  proof (cases "?b = i")
    case True
    then have "heap_sift_down before h n i = h"
      by (subst heap_sift_down.simps) simp
    then show ?thesis
      using less.prems heap_best_spec(2) [OF less.prems(2,3,4)] True
      by (auto simp: heap_inv_def down_inv_def)
  next
    case False
    have "n - ?b < n - i" using heap_best_cases [of before h n i] False less.prems by auto
    moreover have "down_inv before (swap h i ?b) n ?b"
      using sift_down_step less.prems False by blast
    moreover have "all_ok ok (swap h i ?b) n"
      using all_ok_mset_eq [OF mset_take_swap] less.prems bn by metis
    ultimately show ?thesis
      using less.hyps [of ?b "swap h i ?b"] less.prems bn False
      by (simp add: heap_sift_down.simps [of before h n i] Let_def)
  qed
qed

lemma root_first:
  assumes "heap_inv before h n" "all_ok ok h n" "j < n"
  shows "\<not> before (h ! j) (h ! 0)"
  using \<open>j < n\<close>
proof (induction j rule: less_induct)
  case (less j)
  have okn: "ok (h ! k)" if "k < n" for k
    using all_ok_nth assms that by (auto simp: heap_inv_def)
  show ?case
  proof (cases "j = 0")
    case True
    then show ?thesis using before_asym okn less.prems by blast
  next
    case False
    then have p: "parent j < j" "parent j < n" using less.prems parent_less [of j] by auto
    then have "\<not> before (h ! parent j) (h ! 0)" using less.IH by blast
    moreover have "\<not> before (h ! j) (h ! parent j)"
      using assms(1) False less.prems by (simp add: heap_inv_def)
    ultimately show ?thesis
      using before_negtrans [of "h ! j" "h ! parent j" "h ! 0"] okn less.prems p False by simp
  qed
qed

lemma root_first_set:
  "heap_inv before h n \<Longrightarrow> all_ok ok h n \<Longrightarrow> x \<in> set (take n h) \<Longrightarrow> \<not> before x (h ! 0)"
  using root_first by (auto simp: in_set_conv_nth)

lemma push_heap:
  assumes "heap_inv before h n" "all_ok ok h n" "ok x" "n < length h"
  shows "heap_inv before (fst (heap_push before h n x)) (Suc n)"
proof -
  have "\<not> before (h[n := x] ! j) (h[n := x] ! parent j)" if "0 < j" "j < n" for j
  proof -
    have "parent j < n" using that by simp
    then have "parent j \<noteq> n" by simp
    then show ?thesis using assms(1) that by (simp add: heap_inv_def)
  qed
  moreover have "parent j \<noteq> n" if "0 < j" "j < Suc n" for j
    using that parent_less [OF that(1)] by linarith
  ultimately have "up_inv before (h[n := x]) (Suc n) n"
    by (auto simp: up_inv_def less_Suc_eq)
  moreover have "all_ok ok (h[n := x]) (Suc n)"
    using assms by (simp add: take_Suc_conv_app_nth)
  ultimately show ?thesis
    using sift_up_heap [of "h[n := x]" "Suc n" n] assms(4) by (simp add: heap_push_def)
qed

lemma replace_root_heap:
  assumes "heap_inv before h n" "all_ok ok h n" "ok x" "0 < n"
  shows "heap_inv before (heap_replace_root before h n x) n"
proof -
  have n: "n \<le> length h" using assms(1) by (simp add: heap_inv_def)
  have "down_inv before (h[0 := x]) n 0"
    using assms(1) n parent_less
    by (auto simp: down_inv_def heap_inv_def nth_list_update)
  moreover have "all_ok ok (h[0 := x]) n"
    using assms n set_update_subset_insert [of "take n h" 0 x]
    by (auto simp: take_update_swap)
  ultimately show ?thesis
    using sift_down_heap [of "h[0 := x]" n 0] n assms(4) by (simp add: heap_replace_root_def)
qed

lemma pop_heap:
  assumes "heap_inv before h n" "all_ok ok h n" "0 < n"
  shows "heap_inv before (fst (snd (heap_pop before h n))) (n - 1)"
proof (cases "n = 1")
  case True
  then show ?thesis by (simp add: heap_pop_def heap_inv_def Let_def)
next
  case False
  have n: "n \<le> length h" using assms(1) by (simp add: heap_inv_def)
  have "heap_inv before h (n - 1)" using assms(1) by (auto simp: heap_inv_def)
  moreover have "all_ok ok h (n - 1)"
    using assms(2) set_take_subset_set_take [of "n - 1" n h] by auto
  moreover have "ok (h ! (n - 1))"
    using all_ok_nth [OF assms(2) n] assms(3) by simp
  ultimately have "heap_inv before (heap_replace_root before h (n - 1) (h ! (n - 1))) (n - 1)"
    using False assms(3) by (intro replace_root_heap) auto
  then show ?thesis
    using False assms(3) by (simp add: heap_pop_def heap_replace_root_def Let_def)
qed

lemma pop_first:
  assumes "heap_inv before h n" "all_ok ok h n" "x \<in> set (take n h)"
  shows "\<not> before x (fst (heap_pop before h n))"
  using root_first_set [OF assms] by (simp add: heap_pop_def Let_def)

lemma topk_empty: "cap \<le> length h \<Longrightarrow> topk before cap {#} h 0"
  by (simp add: topk_def heap_inv_def)

lemma topk_all_ok: "topk before cap S h n \<Longrightarrow> \<forall>x\<in>#S. ok x \<Longrightarrow> all_ok ok h n"
  by (auto simp: topk_def dest: mset_subset_eqD)

lemma topk_push:
  assumes t: "topk before cap S h n" and okS: "\<forall>x\<in>#S. ok x" "ok x" and n: "n < cap"
  shows "topk before cap (add_mset x S) (fst (heap_push before h n x)) (Suc n)"
proof -
  let ?h = "fst (heap_push before h n x)"
  have S: "S = mset (take n h)" and len: "n < length h" using t n by (auto simp: topk_def)
  have "mset (take (Suc n) ?h) = add_mset x S" using heap_push_mset [OF len] S by simp
  moreover have "heap_inv before ?h (Suc n)"
    using push_heap [OF _ topk_all_ok [OF t okS(1)] okS(2) len] t by (simp add: topk_def)
  ultimately show ?thesis using t n len by (auto simp: topk_def)
qed

lemma topk_reject:
  assumes t: "topk before cap S h n" and okS: "\<forall>x\<in>#S. ok x" "ok x"
    and n: "n = cap" "0 < n" and worse: "\<not> before (h ! 0) x"
  shows "topk before cap (add_mset x S) h n"
proof -
  obtain D where D: "S = mset (take n h) + D" "\<forall>d \<in># D. \<forall>y \<in> set (take n h). \<not> before y d"
    using t by (auto simp: topk_def)
  have okh: "all_ok ok h n" using topk_all_ok t okS by blast
  have hi: "heap_inv before h n" "n \<le> length h" using t by (auto simp: topk_def heap_inv_def)
  have "\<not> before y x" if "y \<in> set (take n h)" for y
    using before_negtrans [OF _ _ okS(2) root_first_set [OF hi(1) okh that] worse]
      okh that all_ok_nth [OF okh hi(2) n(2)] by blast
  then have "\<forall>d \<in># add_mset x D. \<forall>y \<in> set (take n h). \<not> before y d" using D(2) by simp
  moreover have "add_mset x S = mset (take n h) + add_mset x D" using D(1) by simp
  ultimately show ?thesis using t n(1) by (simp only: topk_def) blast
qed

lemma topk_replace:
  assumes t: "topk before cap S h n" and okS: "\<forall>x\<in>#S. ok x" "ok x"
    and n: "n = cap" "0 < n" and better: "before (h ! 0) x"
  shows "topk before cap (add_mset x S) (heap_replace_root before h n x) n"
proof -
  let ?h = "heap_replace_root before h n x" and ?r = "h ! 0"
  obtain D where D: "S = mset (take n h) + D" "\<forall>d \<in># D. \<forall>y \<in> set (take n h). \<not> before y d"
    using t by (auto simp: topk_def)
  have okh: "all_ok ok h n" using topk_all_ok t okS by blast
  have hi: "heap_inv before h n" "n \<le> length h" using t by (auto simp: topk_def heap_inv_def)
  have r: "?r \<in> set (take n h)" using set_take_nth hi n by blast
  have okr: "ok ?r" using r okh by simp
  have M: "add_mset ?r (mset (take n ?h)) = add_mset x (mset (take n h))"
    by (rule heap_replace_root_mset [OF n(2) hi(2)])
  have new: "y = x \<or> y \<in> set (take n h)" if "y \<in> set (take n ?h)" for y
    using arg_cong [OF M, of "\<lambda>m. y \<in># m"] that by simp
  have xr: "\<not> before x ?r" using before_asym okr okS(2) better by blast
  have "\<not> before y d" if d: "d \<in># add_mset ?r D" and y: "y \<in> set (take n ?h)" for d y
  proof (cases "d = ?r")
    case True
    then show ?thesis using new [OF y] xr root_first_set [OF hi(1) okh] by blast
  next
    case False
    then have dD: "d \<in># D" "ok d" using d D okS by auto
    then have "\<not> before ?r d" using D r by blast
    then have "\<not> before x d" using before_negtrans [OF okS(2) okr dD(2) xr] by blast
    then show ?thesis using new [OF y] D dD by blast
  qed
  moreover have "add_mset x S = mset (take n ?h) + add_mset ?r D" using D(1) M by simp
  moreover have "heap_inv before ?h n" using replace_root_heap hi okh okS n by blast
  moreover have "cap \<le> length ?h" using t n hi by (simp add: topk_def)
  ultimately show ?thesis using n(1) unfolding topk_def by blast
qed

end

end
