(* ===== verification/Graph_Heaps.thy ===== *)
theory Graph_Heaps
  imports Array_Heap
begin

text \<open>
  The search heaps of the graph scan, \<open>src/src/pgturbohybrid_quant_internal.h\<close>: the
  frontier heap (a min-heap of nodes to expand, a max-heap of the nearest nodes found), the
  bounded result heap with its rescore counter, and the small unordered table of entry
  points. A C array is a list of its allocated cells together with the live count.
\<close>

record PgturbohybridGraphFrontierItem =
  nodeId :: u32
  distance :: cdouble

record PgturbohybridGraphResult =
  r_heaptid :: ItemPointerData
  r_nodeId :: u32
  r_distance :: cdouble
  r_exactScored :: bool

type_synonym frontier_item = PgturbohybridGraphFrontierItem
type_synonym graph_result = PgturbohybridGraphResult

definition PGTURBOHYBRID_GRAPH_MAX_ENTRY_POINTS :: nat where
  "PGTURBOHYBRID_GRAPH_MAX_ENTRY_POINTS = 16"

definition sizeof_FrontierItem :: nat where
  \<comment> \<open>a \<open>uint32\<close>, four bytes of padding, a \<open>double\<close>\<close>
  "sizeof_FrontierItem = 16"

section \<open>The frontier heap\<close>

definition PgturbohybridGraphFrontierCompare :: "frontier_item \<Rightarrow> frontier_item \<Rightarrow> int" where
  "PgturbohybridGraphFrontierCompare a b =
     (if dless (distance a) (distance b) then -1
      else if dless (distance b) (distance a) then 1
      else of_bool (nodeId b < nodeId a) - of_bool (nodeId a < nodeId b))"

definition PgturbohybridGraphFrontierLess :: "frontier_item \<Rightarrow> frontier_item \<Rightarrow> bool" where
  "PgturbohybridGraphFrontierLess a b =
     (if dneq (distance a) (distance b) then dless (distance a) (distance b)
      else nodeId a < nodeId b)"

definition PgturbohybridGraphFrontierGreater :: "frontier_item \<Rightarrow> frontier_item \<Rightarrow> bool" where
  "PgturbohybridGraphFrontierGreater a b =
     (if dneq (distance a) (distance b) then dless (distance b) (distance a)
      else nodeId b < nodeId a)"

definition frontier_before :: "bool \<Rightarrow> frontier_item \<Rightarrow> frontier_item \<Rightarrow> bool" where
  "frontier_before minHeap a b =
     (if minHeap then PgturbohybridGraphFrontierLess a b else PgturbohybridGraphFrontierGreater a b)"

definition PgturbohybridGraphFrontierHeapSiftUp ::
  "frontier_item list \<Rightarrow> nat \<Rightarrow> bool \<Rightarrow> frontier_item list" where
  "PgturbohybridGraphFrontierHeapSiftUp heap idx minHeap =
     heap_sift_up (frontier_before minHeap) heap idx"

definition PgturbohybridGraphFrontierHeapSiftDown ::
  "frontier_item list \<Rightarrow> nat \<Rightarrow> nat \<Rightarrow> bool \<Rightarrow> frontier_item list" where
  "PgturbohybridGraphFrontierHeapSiftDown heap cnt idx minHeap =
     heap_sift_down (frontier_before minHeap) heap cnt idx"

definition PgturbohybridGraphFrontierHeapPush ::
  "frontier_item list \<Rightarrow> nat \<Rightarrow> frontier_item \<Rightarrow> bool \<Rightarrow> frontier_item list \<times> nat" where
  "PgturbohybridGraphFrontierHeapPush heap cnt item minHeap =
     (PgturbohybridGraphFrontierHeapSiftUp (heap[cnt := item]) cnt minHeap, Suc cnt)"

definition PgturbohybridGraphFrontierHeapPop ::
  "frontier_item list \<Rightarrow> nat \<Rightarrow> bool \<Rightarrow> frontier_item \<times> frontier_item list \<times> nat" where
  "PgturbohybridGraphFrontierHeapPop heap cnt minHeap =
     (let item = heap ! 0; cnt = cnt - 1
      in (item,
          if cnt > 0
          then PgturbohybridGraphFrontierHeapSiftDown (heap[0 := heap ! cnt]) cnt 0 minHeap
          else heap,
          cnt))"

definition PgturbohybridGraphFrontierHeapReplaceRoot ::
  "frontier_item list \<Rightarrow> nat \<Rightarrow> frontier_item \<Rightarrow> bool \<Rightarrow> frontier_item list" where
  "PgturbohybridGraphFrontierHeapReplaceRoot heap cnt item minHeap =
     PgturbohybridGraphFrontierHeapSiftDown (heap[0 := item]) cnt 0 minHeap"

definition PgturbohybridGraphInitialFrontierCapacity :: "nat \<Rightarrow> int \<Rightarrow> int \<Rightarrow> int \<Rightarrow> int" where
  "PgturbohybridGraphInitialFrontierCapacity nodeCount searchEf entryCount maxNeighbors =
     (if nodeCount = 0 then 0
      else let capacity = max 8 (searchEf + entryCount + maxNeighbors);
               capacity = max capacity (searchEf * 2 + entryCount)
           in if capacity > int nodeCount then int nodeCount else capacity)"

definition PgturbohybridGraphArrayAllocSize :: "nat \<Rightarrow> nat \<Rightarrow> nat res" where
  "PgturbohybridGraphArrayAllocSize elemSize cnt =
     (if elemSize \<noteq> 0 \<and> cnt > MaxAllocSize div elemSize
      then Inl (Ereport ERRCODE_PROGRAM_LIMIT_EXCEEDED ''pgturbohybrid graph array is too large'')
      else Inr (elemSize * cnt))"

text \<open>
  The array is the list of the \<open>capacity\<close> allocated cells. \<open>repalloc\<close> keeps the old cells;
  \<open>junk\<close> is what the new memory happens to hold.
\<close>

definition frontier_next_capacity :: "nat \<Rightarrow> nat \<Rightarrow> nat" where
  "frontier_next_capacity capacity maxCapacity =
     (let newCapacity = (if capacity > 2147483647 div 2 then maxCapacity
                         else max 8 (capacity + capacity))
      in if newCapacity < capacity \<or> newCapacity > maxCapacity then maxCapacity else newCapacity)"

definition PgturbohybridGraphFrontierHeapPushGrowing ::
  "frontier_item \<Rightarrow> frontier_item list \<Rightarrow> nat \<Rightarrow> nat \<Rightarrow> nat \<Rightarrow> frontier_item \<Rightarrow> bool
   \<Rightarrow> (frontier_item list \<times> nat \<times> nat) res" where
  "PgturbohybridGraphFrontierHeapPushGrowing junk heap cnt capacity maxCapacity item minHeap =
     bindE
       (if cnt \<ge> capacity then
          if capacity \<ge> maxCapacity then elog ''pgturbohybrid graph frontier capacity exceeded''
          else
            let newCapacity = frontier_next_capacity capacity maxCapacity
            in bindE (PgturbohybridGraphArrayAllocSize sizeof_FrontierItem newCapacity)
                 (\<lambda>_. Inr (take newCapacity heap @ replicate (newCapacity - length heap) junk,
                           newCapacity))
        else Inr (heap, capacity))
       (\<lambda>(heap, capacity).
          let (heap, cnt) = PgturbohybridGraphFrontierHeapPush heap cnt item minHeap
          in Inr (heap, cnt, capacity))"

definition PgturbohybridGraphOfferNearest ::
  "frontier_item list \<Rightarrow> nat \<Rightarrow> nat \<Rightarrow> u32 \<Rightarrow> cdouble \<Rightarrow> bool \<times> frontier_item list \<times> nat" where
  "PgturbohybridGraphOfferNearest heap capacity cnt nid dst =
     (if capacity = 0 then (False, heap, cnt)
      else let item = \<lparr>nodeId = nid, distance = dst\<rparr>
        in if cnt < capacity
           then (True, PgturbohybridGraphFrontierHeapPush heap cnt item False)
           else if PgturbohybridGraphFrontierLess item (heap ! 0)
           then (True, PgturbohybridGraphFrontierHeapReplaceRoot heap cnt item False, cnt)
           else (False, heap, cnt))"

section \<open>The result heap\<close>

definition PgturbohybridGraphResultLess :: "graph_result \<Rightarrow> graph_result \<Rightarrow> bool" where
  "PgturbohybridGraphResultLess a b =
     (if dneq (r_distance a) (r_distance b) then dless (r_distance a) (r_distance b)
      else r_nodeId a < r_nodeId b)"

definition PgturbohybridGraphResultGreater :: "graph_result \<Rightarrow> graph_result \<Rightarrow> bool" where
  "PgturbohybridGraphResultGreater a b =
     (if dneq (r_distance a) (r_distance b) then dless (r_distance b) (r_distance a)
      else r_nodeId b < r_nodeId a)"

definition PgturbohybridGraphResultHeapSiftUp :: "graph_result list \<Rightarrow> nat \<Rightarrow> graph_result list" where
  "PgturbohybridGraphResultHeapSiftUp heap idx =
     heap_sift_up PgturbohybridGraphResultGreater heap idx"

definition PgturbohybridGraphResultHeapSiftDown ::
  "graph_result list \<Rightarrow> nat \<Rightarrow> nat \<Rightarrow> graph_result list" where
  "PgturbohybridGraphResultHeapSiftDown heap cnt idx =
     heap_sift_down PgturbohybridGraphResultGreater heap cnt idx"

definition PgturbohybridGraphResultHeapPush ::
  "graph_result list \<Rightarrow> nat \<Rightarrow> graph_result \<Rightarrow> graph_result list \<times> nat" where
  "PgturbohybridGraphResultHeapPush heap cnt item =
     (PgturbohybridGraphResultHeapSiftUp (heap[cnt := item]) cnt, Suc cnt)"

definition PgturbohybridGraphResultHeapReplaceRoot ::
  "graph_result list \<Rightarrow> nat \<Rightarrow> graph_result \<Rightarrow> graph_result list" where
  "PgturbohybridGraphResultHeapReplaceRoot heap cnt item =
     PgturbohybridGraphResultHeapSiftDown (heap[0 := item]) cnt 0"

text \<open>The scan state that \<open>PgturbohybridGraphOfferCandidate\<close> touches.\<close>

record offer_state =
  results :: "graph_result list"
  r_count :: nat
  graphRescoreCount :: int

definition PgturbohybridGraphOfferCandidate ::
  "offer_state \<Rightarrow> nat \<Rightarrow> u32 \<Rightarrow> ItemPointerData \<Rightarrow> cdouble \<Rightarrow> bool \<Rightarrow> offer_state" where
  "PgturbohybridGraphOfferCandidate st target nid tid dst exactScored =
     (if target = 0 then st
      else let item = \<lparr>r_heaptid = tid, r_nodeId = nid, r_distance = dst,
                       r_exactScored = exactScored\<rparr>
        in if r_count st < target then
             let (heap, cnt) = PgturbohybridGraphResultHeapPush (results st) (r_count st) item
             in st\<lparr>results := heap, r_count := cnt,
                   graphRescoreCount := graphRescoreCount st + (if exactScored then 1 else 0)\<rparr>
           else if PgturbohybridGraphResultLess item (results st ! 0) then
             st\<lparr>results := PgturbohybridGraphResultHeapReplaceRoot (results st) (r_count st) item,
                graphRescoreCount := graphRescoreCount st
                  - (if r_exactScored (results st ! 0) then 1 else 0)
                  + (if exactScored then 1 else 0)\<rparr>
           else st)"

section \<open>Entry points\<close>

definition PgturbohybridGraphEntryAlreadySelected :: "frontier_item list \<Rightarrow> u32 \<Rightarrow> bool" where
  "PgturbohybridGraphEntryAlreadySelected entries nid = list_ex (\<lambda>e. nodeId e = nid) entries"

fun update_entry :: "frontier_item list \<Rightarrow> frontier_item \<Rightarrow> frontier_item list option" where
  "update_entry [] entry = None"
| "update_entry (e # es) entry =
     (if nodeId e = nodeId entry
      then Some (e\<lparr>distance := dmin (distance e) (distance entry)\<rparr> # es)
      else map_option (Cons e) (update_entry es entry))"

definition worst_entry :: "frontier_item list \<Rightarrow> nat" where
  "worst_entry entries =
     fold (\<lambda>i worst. if dless (distance (entries ! worst)) (distance (entries ! i)) then i else worst)
       [1..<length entries] 0"

text \<open>Here \<open>entries\<close> is the live prefix of the fixed array of sixteen cells.\<close>

definition PgturbohybridGraphOfferDistanceEntry ::
  "frontier_item list \<Rightarrow> frontier_item \<Rightarrow> frontier_item list" where
  "PgturbohybridGraphOfferDistanceEntry entries entry =
     (case update_entry entries entry of
        Some entries' \<Rightarrow> entries'
      | None \<Rightarrow>
          if length entries < PGTURBOHYBRID_GRAPH_MAX_ENTRY_POINTS then entries @ [entry]
          else let worst = worst_entry entries
               in if dless (distance entry) (distance (entries ! worst))
                  then entries[worst := entry] else entries)"

section \<open>The comparisons meet the heap contract\<close>

lemma frontier_less_lex:
  "PgturbohybridGraphFrontierLess a b = lex_less (distance a) (nodeId a) (distance b) (nodeId b)"
  by (simp add: PgturbohybridGraphFrontierLess_def lex_less_def)

lemma dneq_sym: "dneq x y = dneq y x"
  by (cases x; cases y) auto

lemma frontier_greater_less:
  "PgturbohybridGraphFrontierGreater a b = PgturbohybridGraphFrontierLess b a"
  by (simp add: PgturbohybridGraphFrontierGreater_def PgturbohybridGraphFrontierLess_def
      dneq_sym [of "distance a"])

lemma result_less_lex:
  "PgturbohybridGraphResultLess a b = lex_less (r_distance a) (r_nodeId a) (r_distance b) (r_nodeId b)"
  by (simp add: PgturbohybridGraphResultLess_def lex_less_def)

lemma result_greater_less:
  "PgturbohybridGraphResultGreater a b = PgturbohybridGraphResultLess b a"
  by (simp add: PgturbohybridGraphResultGreater_def PgturbohybridGraphResultLess_def
      dneq_sym [of "r_distance a"])

abbreviation fr_ok :: "frontier_item \<Rightarrow> bool" where "fr_ok x \<equiv> distance x \<noteq> NaN"
abbreviation rs_ok :: "graph_result \<Rightarrow> bool" where "rs_ok x \<equiv> r_distance x \<noteq> NaN"

interpretation fr: heap_order "frontier_before minHeap" fr_ok for minHeap
proof
  fix x y z :: frontier_item
  assume xyz: "fr_ok x" "fr_ok y"
  show "frontier_before minHeap x y \<Longrightarrow> \<not> frontier_before minHeap y x"
    using xyz by (auto simp: frontier_before_def frontier_greater_less frontier_less_lex
        dest: lex_less_asym split: if_splits)
  assume "fr_ok z" "\<not> frontier_before minHeap x y" "\<not> frontier_before minHeap y z"
  then show "\<not> frontier_before minHeap x z"
    using xyz lex_less_negtrans [of "distance x" "distance y" "distance z"]
      lex_less_negtrans [of "distance z" "distance y" "distance x"]
    by (simp add: frontier_before_def frontier_greater_less frontier_less_lex split: if_splits) blast+
qed

interpretation rs: heap_order PgturbohybridGraphResultGreater rs_ok
proof
  fix x y z :: graph_result
  assume xyz: "rs_ok x" "rs_ok y"
  show "PgturbohybridGraphResultGreater x y \<Longrightarrow> \<not> PgturbohybridGraphResultGreater y x"
    using xyz by (auto simp: result_greater_less result_less_lex dest: lex_less_asym)
  assume "rs_ok z" "\<not> PgturbohybridGraphResultGreater x y" "\<not> PgturbohybridGraphResultGreater y z"
  then show "\<not> PgturbohybridGraphResultGreater x z"
    using xyz lex_less_negtrans [of "r_distance z" "r_distance y" "r_distance x"]
    by (simp add: result_greater_less result_less_lex) blast
qed

lemma frontier_push_heap_push:
  "PgturbohybridGraphFrontierHeapPush h n x m = heap_push (frontier_before m) h n x"
  by (simp add: PgturbohybridGraphFrontierHeapPush_def PgturbohybridGraphFrontierHeapSiftUp_def
      heap_push_def)

lemma frontier_replace_heap_replace:
  "PgturbohybridGraphFrontierHeapReplaceRoot h n x m = heap_replace_root (frontier_before m) h n x"
  by (simp add: PgturbohybridGraphFrontierHeapReplaceRoot_def
      PgturbohybridGraphFrontierHeapSiftDown_def heap_replace_root_def)

lemma frontier_pop_heap_pop:
  "PgturbohybridGraphFrontierHeapPop h n m = heap_pop (frontier_before m) h n"
  by (simp add: PgturbohybridGraphFrontierHeapPop_def PgturbohybridGraphFrontierHeapSiftDown_def
      heap_pop_def Let_def)

lemma result_push_heap_push:
  "PgturbohybridGraphResultHeapPush h n x = heap_push PgturbohybridGraphResultGreater h n x"
  by (simp add: PgturbohybridGraphResultHeapPush_def PgturbohybridGraphResultHeapSiftUp_def
      heap_push_def)

lemma result_replace_heap_replace:
  "PgturbohybridGraphResultHeapReplaceRoot h n x = heap_replace_root PgturbohybridGraphResultGreater h n x"
  by (simp add: PgturbohybridGraphResultHeapReplaceRoot_def PgturbohybridGraphResultHeapSiftDown_def
      heap_replace_root_def)

section \<open>Properties\<close>

lemma frontier_before_True: "frontier_before True = PgturbohybridGraphFrontierLess"
  by (simp add: frontier_before_def fun_eq_iff)

lemma frontier_before_False: "frontier_before False = PgturbohybridGraphFrontierGreater"
  by (simp add: frontier_before_def fun_eq_iff)

lemma compare_Less_iff:
  "fr_ok a \<Longrightarrow> fr_ok b \<Longrightarrow>
   (PgturbohybridGraphFrontierCompare a b < 0) = PgturbohybridGraphFrontierLess a b"
  using dless_total [of "distance a" "distance b"]
  by (auto simp: PgturbohybridGraphFrontierCompare_def PgturbohybridGraphFrontierLess_def
      dneq_iff dest: dless_asym)

text \<open>
  Popping a well-formed min-frontier returns a nearest node (no live node has a smaller
  distance, or the same distance and a smaller node id), removes exactly that item, and
  leaves a well-formed heap of one item less.
\<close>

theorem frontier_pop_nearest:
  assumes "heap_inv PgturbohybridGraphFrontierLess heap n" "0 < n"
    and "\<forall>x\<in>set (take n heap). distance x \<noteq> NaN"
    and "PgturbohybridGraphFrontierHeapPop heap n True = (item, heap', n')"
  shows "(\<forall>x\<in>set (take n heap). \<not> PgturbohybridGraphFrontierLess x item) \<and>
    mset (take n heap) = add_mset item (mset (take n' heap')) \<and>
    n' = n - 1 \<and> heap_inv PgturbohybridGraphFrontierLess heap' n'"
proof (intro conjI)
  have inv: "heap_inv (frontier_before True) heap n"
    using assms(1) by (simp add: frontier_before_True)
  have len: "n \<le> length heap" using assms(1) by (simp add: heap_inv_def)
  have pop: "heap_pop (frontier_before True) heap n = (item, heap', n')"
    using assms(4) by (simp add: frontier_pop_heap_pop)
  have n': "n' = n - 1" using pop by (simp add: heap_pop_def Let_def)
  show "\<forall>x\<in>set (take n heap). \<not> PgturbohybridGraphFrontierLess x item"
    using fr.pop_first [OF inv assms(3)] pop by (simp add: frontier_before_True)
  show "mset (take n heap) = add_mset item (mset (take n' heap'))"
    using heap_pop_mset [OF assms(2) len, of "frontier_before True"] pop n' by simp
  show "n' = n - 1" by (rule n')
  show "heap_inv PgturbohybridGraphFrontierLess heap' n'"
    using fr.pop_heap [OF inv assms(3,2)] pop n' by (simp add: frontier_before_True)
qed

fun offer_all :: "nat \<Rightarrow> (u32 \<times> cdouble) list \<Rightarrow> frontier_item list \<times> nat \<Rightarrow> frontier_item list \<times> nat" where
  "offer_all capacity [] st = st"
| "offer_all capacity ((nid, d) # xs) (heap, n) =
     (let (_, heap, n) = PgturbohybridGraphOfferNearest heap capacity n nid d
      in offer_all capacity xs (heap, n))"

definition mk_item :: "u32 \<times> cdouble \<Rightarrow> frontier_item" where
  "mk_item x = \<lparr>nodeId = fst x, distance = snd x\<rparr>"

lemma mk_item_simps [simp]: "nodeId (mk_item x) = fst x" "distance (mk_item x) = snd x"
  by (simp_all add: mk_item_def)

lemma offer_nearest_topk:
  assumes "topk PgturbohybridGraphFrontierGreater cap S h n" "0 < cap"
    and "\<forall>x\<in>#S. fr_ok x" "d \<noteq> NaN"
    and "PgturbohybridGraphOfferNearest h cap n nid d = (b, h', n')"
  shows "topk PgturbohybridGraphFrontierGreater cap (add_mset (mk_item (nid, d)) S) h' n'"
proof -
  let ?x = "mk_item (nid, d)"
  have t: "topk (frontier_before False) cap S h n" using assms(1) by (simp add: frontier_before_False)
  have okx: "fr_ok ?x" using assms by simp
  have "n \<le> cap" using t by (simp add: topk_def)
  moreover have "(PgturbohybridGraphFrontierLess ?x (h ! 0)) = frontier_before False (h ! 0) ?x"
    by (simp add: frontier_before_False frontier_greater_less)
  ultimately have "topk (frontier_before False) cap (add_mset ?x S) h' n'"
    using assms(2,5) fr.topk_push [OF t assms(3) okx] fr.topk_reject [OF t assms(3) okx]
      fr.topk_replace [OF t assms(3) okx]
    by (auto simp: PgturbohybridGraphOfferNearest_def Let_def mk_item_def
        frontier_push_heap_push frontier_replace_heap_replace heap_push_def split: if_splits)
  then show ?thesis by (simp add: frontier_before_False)
qed

lemma offer_all_topk:
  "topk PgturbohybridGraphFrontierGreater cap S h n \<Longrightarrow> 0 < cap \<Longrightarrow> \<forall>x\<in>#S. fr_ok x \<Longrightarrow>
   \<forall>(i, d)\<in>set xs. d \<noteq> NaN \<Longrightarrow> offer_all cap xs (h, n) = (h', n') \<Longrightarrow>
   topk PgturbohybridGraphFrontierGreater cap (mset (map mk_item xs) + S) h' n'"
proof (induction xs arbitrary: S h n)
  case (Cons x xs)
  obtain nid d where x: "x = (nid, d)" by (cases x)
  obtain b h1 n1 where o: "PgturbohybridGraphOfferNearest h cap n nid d = (b, h1, n1)"
    by (metis prod_cases3)
  have "d \<noteq> NaN" using Cons.prems(4) x by simp
  then have "topk PgturbohybridGraphFrontierGreater cap (add_mset (mk_item x) S) h1 n1"
    using offer_nearest_topk [OF Cons.prems(1,2,3) _ o] x by simp
  moreover have "offer_all cap xs (h1, n1) = (h', n')" using Cons.prems(5) x o by simp
  ultimately show ?case using Cons.IH [of "add_mset (mk_item x) S" h1 n1] Cons.prems \<open>d \<noteq> NaN\<close> x by simp
qed simp

text \<open>
  Offering any sequence of nodes with proper distances to an empty nearest-set of
  capacity \<open>k\<close> leaves exactly \<open>min k n\<close> of them: the multiset of the offers splits into the
  retained and the dropped items, and no dropped item is nearer than a retained one.
\<close>

theorem offer_nearest_keeps_k_nearest:
  assumes "0 < k" "k \<le> length heap" "\<forall>(i, d)\<in>set xs. d \<noteq> NaN"
    and "offer_all k xs (heap, 0) = (heap', n')"
  shows "n' = min k (length xs) \<and>
    (\<exists>dropped. mset (map mk_item xs) = mset (take n' heap') + dropped \<and>
       (\<forall>d\<in>#dropped. \<forall>x\<in>set (take n' heap'). \<not> PgturbohybridGraphFrontierLess d x))"
proof -
  have "topk PgturbohybridGraphFrontierGreater k {#} heap 0"
    using fr.topk_empty [OF assms(2), of False] by (simp add: frontier_before_False)
  from offer_all_topk [OF this assms(1) _ assms(3,4)]
  have t: "topk PgturbohybridGraphFrontierGreater k (mset (map mk_item xs)) heap' n'" by simp
  show ?thesis
    using topk_size [OF t] t by (auto simp: topk_def frontier_greater_less)
qed

theorem offer_nearest_keeps_k_nearest_witness:
  "\<exists>heap' n'. offer_all 2 [(7, Fin 3), (4, Fin 1), (9, Fin 2)] (replicate 2 (mk_item (0, NaN)), 0) = (heap', n')
     \<and> n' = 2 \<and> set heap' = {mk_item (4, Fin 1), mk_item (9, Fin 2)}"
proof -
  let ?h = "[mk_item (9, Fin 2), mk_item (4, Fin 1)]"
  have run: "offer_all 2 [(7, Fin 3), (4, Fin 1), (9, Fin 2)] (replicate 2 (mk_item (0, NaN)), 0) = (?h, 2)"
    by code_simp
  have "2 = min 2 (length [(7 :: u32, Fin 3), (4, Fin 1), (9, Fin 2)])"
    using offer_nearest_keeps_k_nearest [OF _ _ _ run] by simp
  then show ?thesis using run by (intro exI [of _ ?h] exI [of _ 2]) auto
qed

theorem frontier_pop_nearest_witness:
  "fst (PgturbohybridGraphFrontierHeapPop [mk_item (4, Fin 1), mk_item (9, Fin 2)] 2 True) = mk_item (4, Fin 1)
   \<and> \<not> PgturbohybridGraphFrontierLess (mk_item (9, Fin 2)) (mk_item (4, Fin 1))"
proof -
  let ?h = "[mk_item (4, Fin 1), mk_item (9, Fin 2)]"
  have run: "PgturbohybridGraphFrontierHeapPop ?h 2 True
      = (mk_item (4, Fin 1), [mk_item (9, Fin 2), mk_item (9, Fin 2)], 1)"
    by code_simp
  have "heap_inv PgturbohybridGraphFrontierLess ?h 2"
    by (auto simp: heap_inv_def less_2_cases_iff PgturbohybridGraphFrontierLess_def parent_def)
  then show ?thesis using run frontier_pop_nearest [OF _ _ _ run] by simp
qed

subsection \<open>The result heap\<close>

abbreviation rs_key :: "ItemPointerData \<Rightarrow> u32 \<Rightarrow> cdouble \<Rightarrow> bool \<Rightarrow> graph_result" where
  "rs_key tid nid d ex \<equiv> \<lparr>r_heaptid = tid, r_nodeId = nid, r_distance = d, r_exactScored = ex\<rparr>"

definition offer_inv :: "nat \<Rightarrow> graph_result multiset \<Rightarrow> offer_state \<Rightarrow> bool" where
  "offer_inv target S st \<longleftrightarrow>
     topk PgturbohybridGraphResultGreater target S (results st) (r_count st) \<and>
     graphRescoreCount st = int (size (filter_mset r_exactScored (mset (take (r_count st) (results st)))))"

lemma filter_count_replace:
  assumes "add_mset r M' = add_mset x M"
  shows "int (size (filter_mset P M')) =
    int (size (filter_mset P M)) - (if P r then 1 else 0) + (if P x then 1 else 0)"
  using arg_cong [OF assms, of "\<lambda>m. int (size (filter_mset P m))"] by (auto split: if_splits)

lemma offer_candidate_inv:
  assumes inv: "offer_inv target S st" and t0: "0 < target"
    and okS: "\<forall>x\<in>#S. rs_ok x" and d: "d \<noteq> NaN"
  shows "offer_inv target (add_mset (rs_key tid nid d ex) S)
           (PgturbohybridGraphOfferCandidate st target nid tid d ex)"
proof -
  let ?x = "rs_key tid nid d ex" and ?h = "results st" and ?n = "r_count st"
  have t: "topk PgturbohybridGraphResultGreater target S ?h ?n" and okx: "rs_ok ?x"
    using inv d by (auto simp: offer_inv_def)
  have le: "?n \<le> target" "target \<le> length ?h" using t by (auto simp: topk_def)
  have less: "PgturbohybridGraphResultLess ?x (?h ! 0) = PgturbohybridGraphResultGreater (?h ! 0) ?x"
    by (simp add: result_greater_less)
  consider (push) "?n < target" | (swap) "?n = target" "PgturbohybridGraphResultLess ?x (?h ! 0)"
    | (keep) "?n = target" "\<not> PgturbohybridGraphResultLess ?x (?h ! 0)"
    using le by linarith
  then show ?thesis
  proof cases
    case push
    with rs.topk_push [OF t okS okx push] heap_push_mset [of ?n ?h PgturbohybridGraphResultGreater ?x] inv le t0
    show ?thesis
      by (simp add: offer_inv_def PgturbohybridGraphOfferCandidate_def Let_def
          result_push_heap_push split_beta)
  next
    case swap
    let ?h' = "heap_replace_root PgturbohybridGraphResultGreater ?h ?n ?x"
    have M: "add_mset (?h ! 0) (mset (take ?n ?h')) = add_mset ?x (mset (take ?n ?h))"
      using heap_replace_root_mset [of ?n ?h] swap le t0 by simp
    from swap less rs.topk_replace [OF t okS okx swap(1)] filter_count_replace [OF M, of r_exactScored]
      inv t0
    show ?thesis
      by (simp add: offer_inv_def PgturbohybridGraphOfferCandidate_def Let_def
          result_replace_heap_replace)
  next
    case keep
    with less rs.topk_reject [OF t okS okx keep(1)] inv t0 show ?thesis
      by (simp add: offer_inv_def PgturbohybridGraphOfferCandidate_def Let_def)
  qed
qed

fun offer_candidates :: "nat \<Rightarrow> (ItemPointerData \<times> u32 \<times> cdouble \<times> bool) list \<Rightarrow> offer_state \<Rightarrow> offer_state" where
  "offer_candidates target [] st = st"
| "offer_candidates target ((tid, nid, d, ex) # xs) st =
     offer_candidates target xs (PgturbohybridGraphOfferCandidate st target nid tid d ex)"

abbreviation result_of :: "ItemPointerData \<times> u32 \<times> cdouble \<times> bool \<Rightarrow> graph_result" where
  "result_of \<equiv> \<lambda>(tid, nid, d, ex). rs_key tid nid d ex"

lemma offer_candidates_inv:
  "offer_inv target S st \<Longrightarrow> 0 < target \<Longrightarrow> \<forall>x\<in>#S. rs_ok x \<Longrightarrow> \<forall>(tid, nid, d, ex)\<in>set xs. d \<noteq> NaN \<Longrightarrow>
   offer_inv target (mset (map result_of xs) + S) (offer_candidates target xs st)"
proof (induction xs arbitrary: S st)
  case (Cons x xs)
  obtain tid nid d ex where x: "x = (tid, nid, d, ex)" by (metis prod_cases4)
  then have "d \<noteq> NaN" using Cons.prems(4) by simp
  with offer_candidate_inv [OF Cons.prems(1,2,3) this] Cons.prems x
    Cons.IH [of "add_mset (rs_key tid nid d ex) S"] show ?case by simp
qed simp

text \<open>
  C4. The bounded candidate heap of a scan: after any sequence of offers with proper
  distances, the retained results are the nearest \<open>min target n\<close> candidates, and the scan's
  \<open>graphRescoreCount\<close> is exactly the number of retained candidates that were scored exactly,
  however many exactly scored ones were evicted on the way.
\<close>

theorem offer_candidates_topk_and_rescore_count:
  assumes "0 < target" "target \<le> length heap" "\<forall>(tid, nid, d, ex)\<in>set xs. d \<noteq> NaN"
    and "st' = offer_candidates target xs \<lparr>results = heap, r_count = 0, graphRescoreCount = 0\<rparr>"
  shows "r_count st' = min target (length xs) \<and>
    graphRescoreCount st' = int (length (filter r_exactScored (take (r_count st') (results st')))) \<and>
    (\<exists>dropped. mset (map result_of xs) = mset (take (r_count st') (results st')) + dropped \<and>
       (\<forall>d\<in>#dropped. \<forall>x\<in>set (take (r_count st') (results st')). \<not> PgturbohybridGraphResultLess d x))"
proof -
  have "offer_inv target {#} \<lparr>results = heap, r_count = 0, graphRescoreCount = 0\<rparr>"
    using rs.topk_empty [OF assms(2)] by (simp add: offer_inv_def)
  from offer_candidates_inv [OF this assms(1) _ assms(3)]
  have inv: "offer_inv target (mset (map result_of xs)) st'" using assms(4) by simp
  then have t: "topk PgturbohybridGraphResultGreater target (mset (map result_of xs)) (results st') (r_count st')"
    by (simp add: offer_inv_def)
  have "size (filter_mset r_exactScored (mset (take (r_count st') (results st')))) =
      length (filter r_exactScored (take (r_count st') (results st')))"
    by (metis mset_filter size_mset)
  with inv topk_size [OF t] t show ?thesis
    by (auto simp: offer_inv_def topk_def result_greater_less)
qed

theorem offer_candidates_topk_and_rescore_count_witness:
  "graphRescoreCount (offer_candidates 1
      [(\<lparr>ip_blkid = 0, ip_posid = 1\<rparr>, 5, Fin 2, True), (\<lparr>ip_blkid = 0, ip_posid = 2\<rparr>, 6, Fin 1, False)]
      \<lparr>results = [rs_key \<lparr>ip_blkid = 0, ip_posid = 0\<rparr> 0 NaN False], r_count = 0, graphRescoreCount = 0\<rparr>) = 0"
proof -
  let ?xs = "[(\<lparr>ip_blkid = 0, ip_posid = 1\<rparr>, 5, Fin 2, True), (\<lparr>ip_blkid = 0, ip_posid = 2\<rparr>, 6, Fin 1, False)]"
  let ?h = "[rs_key \<lparr>ip_blkid = 0, ip_posid = 0\<rparr> 0 NaN False]"
  let ?st = "offer_candidates 1 ?xs \<lparr>results = ?h, r_count = 0, graphRescoreCount = 0\<rparr>"
  have run: "take (r_count ?st) (results ?st) = [rs_key \<lparr>ip_blkid = 0, ip_posid = 2\<rparr> 6 (Fin 1) False]"
    by code_simp
  have "graphRescoreCount ?st = int (length (filter r_exactScored (take (r_count ?st) (results ?st))))"
    using offer_candidates_topk_and_rescore_count [of 1 ?h ?xs ?st] by simp
  then show ?thesis unfolding run by simp
qed

subsection \<open>Growing the frontier\<close>

text \<open>
  Pushing onto a growing frontier array of \<open>capacity\<close> cells (at most \<open>maxCapacity\<close>):
  it fails only when the array is full at its maximum, or when the enlarged array would
  pass PostgreSQL's allocation limit; otherwise the item is added, the heap order is kept,
  and the live items still fit in the array, whose capacity stays within \<open>maxCapacity\<close>.
\<close>

theorem push_growing_safe:
  assumes inv: "heap_inv (frontier_before minHeap) heap cnt" "\<forall>x\<in>set (take cnt heap). distance x \<noteq> NaN"
    and cap: "length heap = capacity" "capacity \<le> maxCapacity" and item: "distance item \<noteq> NaN"
    and run: "PgturbohybridGraphFrontierHeapPushGrowing junk heap cnt capacity maxCapacity item minHeap = r"
  shows "case r of
      Inl e \<Rightarrow> cnt = capacity \<and> (capacity = maxCapacity \<or> maxCapacity * sizeof_FrontierItem > MaxAllocSize)
    | Inr (heap', cnt', capacity') \<Rightarrow>
        cnt' = Suc cnt \<and> cnt' \<le> capacity' \<and> length heap' = capacity' \<and>
        capacity \<le> capacity' \<and> capacity' \<le> maxCapacity \<and>
        mset (take cnt' heap') = add_mset item (mset (take cnt heap)) \<and>
        heap_inv (frontier_before minHeap) heap' cnt'"
proof -
  have le: "cnt \<le> capacity" using inv(1) cap by (simp add: heap_inv_def)
  have push: "length (fst (heap_push (frontier_before minHeap) h cnt item)) = length h \<and>
      mset (take (Suc cnt) (fst (heap_push (frontier_before minHeap) h cnt item))) =
        add_mset item (mset (take cnt heap)) \<and>
      heap_inv (frontier_before minHeap) (fst (heap_push (frontier_before minHeap) h cnt item)) (Suc cnt)"
    if "cnt < length h" "take cnt h = take cnt heap" for h
  proof -
    have nth: "h ! j = heap ! j" if "j < cnt" for j using \<open>take cnt h = take cnt heap\<close> that
      by (metis nth_take)
    then have "heap_inv (frontier_before minHeap) h cnt"
      using inv(1) \<open>cnt < length h\<close> by (simp add: heap_inv_def)
    then show ?thesis
      using fr.push_heap [of minHeap h cnt item] heap_push_mset [of cnt h] that inv(2) item by simp
  qed
  show ?thesis
  proof (cases "cnt < capacity")
    case True
    then show ?thesis using push [of heap] run cap
      by (auto simp: PgturbohybridGraphFrontierHeapPushGrowing_def frontier_push_heap_push
          split_beta Let_def)
  next
    case False
    define nc where "nc = frontier_next_capacity capacity maxCapacity"
    have nc: "capacity < nc \<and> nc \<le> maxCapacity" if "capacity < maxCapacity"
      using that by (auto simp: nc_def frontier_next_capacity_def Let_def)
    have fits: "maxCapacity * sizeof_FrontierItem > MaxAllocSize"
      if "nc > MaxAllocSize div sizeof_FrontierItem" "capacity < maxCapacity"
      using nc that by (auto simp: sizeof_FrontierItem_def MaxAllocSize_def)
    let ?h = "take nc heap @ replicate (nc - length heap) junk"
    have r: "r = (if capacity \<ge> maxCapacity then elog ''pgturbohybrid graph frontier capacity exceeded''
        else bindE (PgturbohybridGraphArrayAllocSize sizeof_FrontierItem nc)
          (\<lambda>_. let (h, c) = heap_push (frontier_before minHeap) ?h cnt item in Inr (h, c, nc)))"
      using run [symmetric] False
      by (cases "PgturbohybridGraphArrayAllocSize sizeof_FrontierItem nc")
        (simp_all add: PgturbohybridGraphFrontierHeapPushGrowing_def nc_def [symmetric]
          frontier_push_heap_push)
    show ?thesis
      using push [of ?h] nc fits le False cap
      by (auto simp: r PgturbohybridGraphArrayAllocSize_def split_beta)
  qed
qed

theorem push_growing_safe_witness:
  "heap_inv (frontier_before True) [] 0 \<and>
   PgturbohybridGraphFrontierHeapPushGrowing (mk_item (0, NaN)) [] 0 0 1 (mk_item (3, Fin 1)) True
   = Inr ([mk_item (3, Fin 1)], 1, 1) \<and> heap_inv (frontier_before True) [mk_item (3, Fin 1)] 1"
proof -
  have run: "PgturbohybridGraphFrontierHeapPushGrowing (mk_item (0, NaN)) [] 0 0 1 (mk_item (3, Fin 1)) True
   = Inr ([mk_item (3, Fin 1)], 1, 1)"
    by (simp add: PgturbohybridGraphFrontierHeapPushGrowing_def frontier_next_capacity_def
        PgturbohybridGraphArrayAllocSize_def MaxAllocSize_def sizeof_FrontierItem_def
        PgturbohybridGraphFrontierHeapPush_def PgturbohybridGraphFrontierHeapSiftUp_def
        heap_sift_up.simps)
  have "heap_inv (frontier_before True) [] 0" by (simp add: heap_inv_def)
  then show ?thesis using push_growing_safe [OF _ _ _ _ _ run] run by simp
qed

subsection \<open>The entry table\<close>

lemma update_entry_None: "update_entry es e = None \<longleftrightarrow> nodeId e \<notin> nodeId ` set es"
  by (induction es) auto

lemma update_entry_Some:
  "update_entry es e = Some es' \<Longrightarrow> distinct (map nodeId es) \<Longrightarrow>
   es' = map (\<lambda>x. if nodeId x = nodeId e then x\<lparr>distance := dmin (distance x) (distance e)\<rparr> else x) es"
proof (induction es arbitrary: es')
  case (Cons a es)
  show ?case
  proof (cases "nodeId a = nodeId e")
    case True
    with Cons.prems have "map (\<lambda>x. if nodeId x = nodeId e
        then x\<lparr>distance := dmin (distance x) (distance e)\<rparr> else x) es = es"
      by (intro map_idI) (auto simp: image_iff)
    with Cons.prems True show ?thesis by auto
  qed (use Cons in auto)
qed simp

lemma worst_fold:
  assumes "\<forall>x\<in>set es. distance x \<noteq> NaN" "k \<le> length es" "0 < k"
  shows "fold (\<lambda>i w. if dless (distance (es ! w)) (distance (es ! i)) then i else w) [1..<k] 0 < k \<and>
    (\<forall>i<k. \<not> dless (distance (es ! fold (\<lambda>i w. if dless (distance (es ! w)) (distance (es ! i))
       then i else w) [1..<k] 0)) (distance (es ! i)))"
  using assms(2,3)
proof (induction k)
  case (Suc k)
  show ?case
  proof (cases "k = 0")
    case False
    let ?w = "fold (\<lambda>i w. if dless (distance (es ! w)) (distance (es ! i)) then i else w) [1..<k] 0"
    have IH: "?w < k" "\<forall>i<k. \<not> dless (distance (es ! ?w)) (distance (es ! i))"
      using Suc False by auto
    have "\<not> dless (distance (es ! k)) (distance (es ! i))"
      if "dless (distance (es ! ?w)) (distance (es ! k))" "i < k" for i
      using IH(2) that dless_trans by blast
    then show ?thesis using IH False by (auto simp: less_Suc_eq)
  qed simp
qed simp

lemma worst_entry_spec:
  assumes "\<forall>x\<in>set es. distance x \<noteq> NaN" "es \<noteq> []"
  shows "worst_entry es < length es"
    and "x \<in> set es \<Longrightarrow> \<not> dless (distance (es ! worst_entry es)) (distance x)"
  using worst_fold [OF assms(1) order_refl] assms(2)
  by (auto simp: worst_entry_def in_set_conv_nth)

text \<open>
  The entry-point table never holds a node twice and never more than sixteen nodes.
  Offering a node that is present lowers its distance to the smaller of the two and changes
  nothing else; a new node is appended while there is room, and in a full table the worst
  of the seventeen is the one left out.
\<close>

theorem offer_distance_entry_correct:
  assumes "distinct (map nodeId entries)" "length entries \<le> PGTURBOHYBRID_GRAPH_MAX_ENTRY_POINTS"
    and "\<forall>x\<in>set entries. distance x \<noteq> NaN" "distance entry \<noteq> NaN"
    and "entries' = PgturbohybridGraphOfferDistanceEntry entries entry"
  shows "distinct (map nodeId entries') \<and> length entries' \<le> PGTURBOHYBRID_GRAPH_MAX_ENTRY_POINTS \<and>
    (if nodeId entry \<in> nodeId ` set entries
     then entries' = map (\<lambda>x. if nodeId x = nodeId entry
            then x\<lparr>distance := dmin (distance x) (distance entry)\<rparr> else x) entries
     else if length entries < PGTURBOHYBRID_GRAPH_MAX_ENTRY_POINTS then entries' = entries @ [entry]
     else \<exists>w. mset (entry # entries) = add_mset w (mset entries') \<and>
            (\<forall>x\<in>set entries'. \<not> dless (distance w) (distance x)))"
proof (cases "update_entry entries entry")
  case (Some es)
  then have mem: "nodeId entry \<in> nodeId ` set entries" using update_entry_None by force
  have e: "entries' = es" using assms(5) Some by (simp add: PgturbohybridGraphOfferDistanceEntry_def)
  have "es = map (\<lambda>x. if nodeId x = nodeId entry
      then x\<lparr>distance := dmin (distance x) (distance entry)\<rparr> else x) entries"
    using update_entry_Some Some assms(1) by blast
  moreover from this have ids: "map nodeId es = map nodeId entries" by simp
  have "distinct (map nodeId es)" "length es = length entries"
    using ids assms(1) map_eq_imp_length_eq [OF ids] by (simp_all only:)
  ultimately show ?thesis using mem e assms(2) by (simp only:) simp
next
  case None
  then have fresh: "nodeId entry \<notin> nodeId ` set entries" by (simp add: update_entry_None)
  show ?thesis
  proof (cases "length entries < PGTURBOHYBRID_GRAPH_MAX_ENTRY_POINTS")
    case True
    then show ?thesis using None fresh assms
      by (simp add: PgturbohybridGraphOfferDistanceEntry_def)
  next
    case False
    then have ne: "entries \<noteq> []" by (auto simp: PGTURBOHYBRID_GRAPH_MAX_ENTRY_POINTS_def)
    let ?w = "worst_entry entries"
    note w = worst_entry_spec [OF assms(3) ne]
    show ?thesis
    proof (cases "dless (distance entry) (distance (entries ! ?w))")
      case True
      have e: "entries' = entries[?w := entry]"
        using assms(5) None False True by (simp add: PgturbohybridGraphOfferDistanceEntry_def Let_def)
      have m: "mset (entry # entries) = add_mset (entries ! ?w) (mset entries')"
        using w(1) by (simp add: e mset_update)
      have "\<not> dless (distance (entries ! ?w)) (distance x)" if "x \<in> set entries'" for x
        using w(2) that True dless_asym set_update_subset_insert [of entries ?w entry] e by blast
      moreover have "distinct (map nodeId entries')"
        using assms(1) fresh by (simp add: e map_update distinct_list_update image_iff)
      ultimately show ?thesis using False fresh m assms(2) e by auto
    next
      case False
      then have e: "entries' = entries"
        using assms(5) None \<open>\<not> length entries < _\<close>
        by (simp add: PgturbohybridGraphOfferDistanceEntry_def Let_def)
      have "\<not> dless (distance entry) (distance x)" if "x \<in> set entries" for x
      proof
        assume "dless (distance entry) (distance x)"
        then show False using w dless_total [of "distance entry" "distance (entries ! ?w)"]
            dless_trans dless_asym False assms(3,4) that by (metis nth_mem)
      qed
      then show ?thesis using fresh assms(1,2) \<open>\<not> length entries < _\<close> e by auto
    qed
  qed
qed

theorem offer_distance_entry_correct_witness:
  "PgturbohybridGraphOfferDistanceEntry [mk_item (1, Fin 5), mk_item (2, Fin 3)] (mk_item (1, Fin 4))
   = [mk_item (1, Fin 4), mk_item (2, Fin 3)]"
  using offer_distance_entry_correct
    [of "[mk_item (1, Fin 5), mk_item (2, Fin 3)]" "mk_item (1, Fin 4)", OF _ _ _ _ refl]
  by (simp add: PGTURBOHYBRID_GRAPH_MAX_ENTRY_POINTS_def dmin_def mk_item_def)

end
