(* ===== verification/Bm25_Codec.thy ===== *)
theory Bm25_Codec
  imports Prelude
begin

text \<open>
  The BM25 postings codec of \<open>src/src/pgturbohybrid_bm25_build.c\<close> (the decoder is repeated,
  text for text, in \<open>src/src/pgturbohybrid_bm25_query.c\<close>). A chunk of postings of one term is
  written as one page item: a forty byte header and a payload in one of four encodings, with
  an optional trailer of precomputed term-frequency norms. A page item is the list of its
  bytes, and the fields of the header are read and written at their byte offsets
  (little-endian). The norms come from floating point code and are a parameter of the writer.
\<close>

record PgturbohybridBm25Posting =
  p_nodeId :: u32
  p_tf :: u16
  p_reserved :: u16

type_synonym posting = PgturbohybridBm25Posting

definition ENCODING_MASK :: u16 where "ENCODING_MASK = 0x00ff"
definition ENCODING_TFNORM_Q16 :: u16 where "ENCODING_TFNORM_Q16 = 0x8000"
definition ENCODING_DELTA_VARINT :: u16 where "ENCODING_DELTA_VARINT = 1"
definition ENCODING_DELTA16 :: u16 where "ENCODING_DELTA16 = 2"
definition ENCODING_OFFSET16 :: u16 where "ENCODING_OFFSET16 = 3"
definition ENCODING_OFFSET16_SOA :: u16 where "ENCODING_OFFSET16_SOA = 4"

definition off_payload :: nat where "off_payload = 40"
definition off_encoding :: nat where "off_encoding = 28"

section \<open>Sizes\<close>

definition PgturbohybridBm25PostingsTupleSize :: "nat \<Rightarrow> nat" where
  "PgturbohybridBm25PostingsTupleSize payloadBytes = MAXALIGN (off_payload + payloadBytes)"

definition PgturbohybridBm25LegacyPostingsTupleSize :: "nat \<Rightarrow> nat" where
  "PgturbohybridBm25LegacyPostingsTupleSize n = MAXALIGN (off_encoding + 8 * n)"

section \<open>Variable length integers\<close>

function PgturbohybridBm25VarintLen :: "u32 \<Rightarrow> nat" where
  "PgturbohybridBm25VarintLen v =
     (if v \<ge> 0x80 then Suc (PgturbohybridBm25VarintLen (drop_bit 7 v)) else 1)"
  by pat_completeness auto

function PgturbohybridBm25PutVarint :: "u32 \<Rightarrow> bytes" where
  "PgturbohybridBm25PutVarint v =
     (if v \<ge> 0x80
      then ucast ((v AND 0x7f) OR 0x80) # PgturbohybridBm25PutVarint (drop_bit 7 v)
      else [ucast v])"
  by pat_completeness auto

lemma drop_bit_7_less: "(0x80 :: u32) \<le> v \<Longrightarrow> unat (drop_bit 7 v) < unat v"
  by (simp add: drop_bit_eq_div word_le_nat_alt unat_div)

termination PgturbohybridBm25VarintLen
  by (relation "measure unat") (simp_all add: drop_bit_7_less)

termination PgturbohybridBm25PutVarint
  by (relation "measure unat") (simp_all add: drop_bit_7_less)

declare PgturbohybridBm25VarintLen.simps [simp del] PgturbohybridBm25PutVarint.simps [simp del]

fun get_varint_loop :: "nat \<Rightarrow> u32 \<Rightarrow> bytes \<Rightarrow> (u32 \<times> bytes) option" where
  "get_varint_loop shift result [] = None"
| "get_varint_loop shift result (byte # rest) =
     (if shift \<le> 28 then
        let result = result OR push_bit shift (ucast (byte AND 0x7f))
        in if byte AND 0x80 = 0 then Some (result, rest)
           else get_varint_loop (shift + 7) result rest
      else None)"

definition PgturbohybridBm25GetVarint :: "bytes \<Rightarrow> (u32 \<times> bytes) option" where
  "PgturbohybridBm25GetVarint bs = get_varint_loop 0 0 bs"

section \<open>Encoding one posting\<close>

definition PgturbohybridBm25CanUseDelta16 :: "u32 \<Rightarrow> u32 \<Rightarrow> bool" where
  "PgturbohybridBm25CanUseDelta16 prevNodeId nodeId = (nodeId \<ge> prevNodeId \<and> nodeId - prevNodeId \<le> 0xffff)"

definition PgturbohybridBm25CanUseOffset16 :: "u32 \<Rightarrow> u32 \<Rightarrow> bool" where
  "PgturbohybridBm25CanUseOffset16 firstNodeId nodeId = (nodeId \<ge> firstNodeId \<and> nodeId - firstNodeId \<le> 0xffff)"

text \<open>Each encoder appends bytes to the output and returns the new previous node id.\<close>

definition PgturbohybridBm25EncodePosting :: "u32 \<Rightarrow> u32 \<Rightarrow> u16 \<Rightarrow> (bytes \<times> u32) res" where
  "PgturbohybridBm25EncodePosting prevNodeId nodeId tf =
     (if nodeId < prevNodeId then elog ''pgturbohybrid BM25 postings are not sorted by node id''
      else Inr (PgturbohybridBm25PutVarint (nodeId - prevNodeId) @
                PgturbohybridBm25PutVarint (ucast tf), nodeId))"

definition PgturbohybridBm25EncodePostingDelta16 :: "u32 \<Rightarrow> u32 \<Rightarrow> u16 \<Rightarrow> (bytes \<times> u32) res" where
  "PgturbohybridBm25EncodePostingDelta16 prevNodeId nodeId tf =
     (if \<not> PgturbohybridBm25CanUseDelta16 prevNodeId nodeId
      then elog ''pgturbohybrid BM25 postings are not delta16 encodable''
      else Inr (put_u16 (ucast (nodeId - prevNodeId)) @ put_u16 tf, nodeId))"

definition PgturbohybridBm25EncodePostingOffset16 :: "u32 \<Rightarrow> u32 \<Rightarrow> u16 \<Rightarrow> bytes res" where
  "PgturbohybridBm25EncodePostingOffset16 firstNodeId nodeId tf =
     (if \<not> PgturbohybridBm25CanUseOffset16 firstNodeId nodeId
      then elog ''pgturbohybrid BM25 postings are not offset16 encodable''
      else Inr (put_u16 (ucast (nodeId - firstNodeId)) @ put_u16 tf))"

section \<open>Writing a chunk\<close>

fun can_use_delta16_all :: "u32 \<Rightarrow> posting list \<Rightarrow> bool" where
  "can_use_delta16_all prevNodeId [] = True"
| "can_use_delta16_all prevNodeId (p # ps) =
     (PgturbohybridBm25CanUseDelta16 prevNodeId (p_nodeId p) \<and> can_use_delta16_all (p_nodeId p) ps)"

fun varint_payload_bytes :: "u32 \<Rightarrow> posting list \<Rightarrow> nat" where
  "varint_payload_bytes prevNodeId [] = 0"
| "varint_payload_bytes prevNodeId (p # ps) =
     PgturbohybridBm25VarintLen (p_nodeId p - prevNodeId) + PgturbohybridBm25VarintLen (ucast (p_tf p))
     + varint_payload_bytes (p_nodeId p) ps"

fun encode_offset16_loop :: "u32 \<Rightarrow> posting list \<Rightarrow> bytes res" where
  "encode_offset16_loop firstNodeId [] = Inr []"
| "encode_offset16_loop firstNodeId (p # ps) =
     bindE (PgturbohybridBm25EncodePostingOffset16 firstNodeId (p_nodeId p) (p_tf p)) (\<lambda>bs.
     bindE (encode_offset16_loop firstNodeId ps) (\<lambda>rest. Inr (bs @ rest)))"

fun encode_delta16_loop :: "u32 \<Rightarrow> posting list \<Rightarrow> bytes res" where
  "encode_delta16_loop prevNodeId [] = Inr []"
| "encode_delta16_loop prevNodeId (p # ps) =
     bindE (PgturbohybridBm25EncodePostingDelta16 prevNodeId (p_nodeId p) (p_tf p)) (\<lambda>(bs, prev).
     bindE (encode_delta16_loop prev ps) (\<lambda>rest. Inr (bs @ rest)))"

fun encode_varint_loop :: "u32 \<Rightarrow> posting list \<Rightarrow> bytes res" where
  "encode_varint_loop prevNodeId [] = Inr []"
| "encode_varint_loop prevNodeId (p # ps) =
     bindE (PgturbohybridBm25EncodePosting prevNodeId (p_nodeId p) (p_tf p)) (\<lambda>(bs, prev).
     bindE (encode_varint_loop prev ps) (\<lambda>rest. Inr (bs @ rest)))"

text \<open>
  The structure-of-arrays branch writes all offsets and then all frequencies, through two
  pointers into the same payload.
\<close>

fun encode_soa_offsets :: "u32 \<Rightarrow> posting list \<Rightarrow> u16 list res" where
  "encode_soa_offsets firstNodeId [] = Inr []"
| "encode_soa_offsets firstNodeId (p # ps) =
     (if \<not> PgturbohybridBm25CanUseOffset16 firstNodeId (p_nodeId p)
      then elog ''pgturbohybrid BM25 postings are not offset16 encodable''
      else bindE (encode_soa_offsets firstNodeId ps) (\<lambda>os. Inr (ucast (p_nodeId p - firstNodeId) # os)))"

definition max_u16 :: "u16 list \<Rightarrow> u16" where
  "max_u16 xs = fold max xs 0"

record chunk_layout =
  cl_encoding :: u16
  cl_payloadBytes :: nat

definition choose_layout :: "bool \<Rightarrow> posting list \<Rightarrow> chunk_layout" where
  "choose_layout hasTfNorm postings =
     (let firstId = p_nodeId (hd postings); n = length postings;
          useOffset16 = list_all (\<lambda>p. PgturbohybridBm25CanUseOffset16 firstId (p_nodeId p)) postings;
          useDelta16 = can_use_delta16_all firstId postings;
          payloadBytes = (if useOffset16 \<or> useDelta16 then n * 2 * 2
                          else varint_payload_bytes firstId postings);
          payloadBytes = payloadBytes + (if hasTfNorm then n * 2 else 0);
          encoding = (if useOffset16
                      then (if useOffset16 \<and> hasTfNorm then ENCODING_OFFSET16_SOA else ENCODING_OFFSET16)
                      else (if useDelta16 then ENCODING_DELTA16 else ENCODING_DELTA_VARINT));
          encoding = (if hasTfNorm then encoding OR ENCODING_TFNORM_Q16 else encoding)
      in \<lparr>cl_encoding = encoding, cl_payloadBytes = payloadBytes\<rparr>)"

definition encode_data :: "bool \<Rightarrow> posting list \<Rightarrow> bytes res" where
  "encode_data hasTfNorm postings =
     (let firstId = p_nodeId (hd postings);
          useOffset16 = list_all (\<lambda>p. PgturbohybridBm25CanUseOffset16 firstId (p_nodeId p)) postings;
          useDelta16 = can_use_delta16_all firstId postings
      in if useOffset16 \<and> hasTfNorm
         then bindE (encode_soa_offsets firstId postings) (\<lambda>os.
                Inr (concat (map put_u16 os) @ concat (map put_u16 (map p_tf postings))))
         else if useOffset16 then encode_offset16_loop firstId postings
         else if useDelta16 then encode_delta16_loop firstId postings
         else encode_varint_loop firstId postings)"

text \<open>The header of \<open>PgturbohybridBm25PostingsTupleData\<close>, field by field, with its padding.\<close>

definition postings_header ::
  "u16 \<Rightarrow> u32 \<Rightarrow> u32 \<Rightarrow> u32 \<Rightarrow> u32 \<Rightarrow> u16 \<Rightarrow> u16 \<Rightarrow> u16 \<Rightarrow> u16 \<Rightarrow> u32 \<Rightarrow> bytes" where
  "postings_header n termId chunkNo firstNodeId lastNodeId maxTf encoding maxTfNormQ16 payloadBytes maxScoreFactor =
     [0x64, 0] @ put_u16 n @ put_u32 termId @ put_u32 chunkNo @ put_u32 firstNodeId @ put_u32 lastNodeId
     @ put_u32 0xffffffff @ put_u16 0 @ put_u16 maxTf @ put_u16 encoding @ put_u16 maxTfNormQ16
     @ put_u16 payloadBytes @ [0, 0] @ put_u32 maxScoreFactor"

text \<open>
  The item that is handed to the page writer: \<open>palloc0(size)\<close> zeroes the padding.
  \<open>quantize\<close> stands for \<open>PgturbohybridBm25QuantizeTfNorm\<close>, \<open>scoreFactor\<close> for the four bytes
  of the \<open>float4\<close> \<open>maxScoreFactor\<close>, both floating point computations.
\<close>

definition PgturbohybridWritePostingsChunkData ::
  "(u32 \<Rightarrow> u16 \<Rightarrow> u16) \<Rightarrow> (u16 \<Rightarrow> u32) \<Rightarrow> bool \<Rightarrow> u32 \<Rightarrow> u32 \<Rightarrow> posting list \<Rightarrow> bytes res" where
  "PgturbohybridWritePostingsChunkData quantize scoreFactor hasTfNorm termId chunkNo postings =
     (let layout = choose_layout hasTfNorm postings;
          payloadBytes = cl_payloadBytes layout;
          size = PgturbohybridBm25PostingsTupleSize payloadBytes;
          norms = (if hasTfNorm then map (\<lambda>p. quantize (p_nodeId p) (p_tf p)) postings else []);
          maxTfNormQ16 = max_u16 norms
      in bindE (encode_data hasTfNorm postings) (\<lambda>data.
         let header = postings_header (of_nat (length postings)) termId chunkNo
               (p_nodeId (hd postings)) (p_nodeId (last postings)) (max_u16 (map p_tf postings))
               (cl_encoding layout) maxTfNormQ16 (of_nat payloadBytes)
               (if hasTfNorm then scoreFactor maxTfNormQ16 else 0);
             written = header @ data @ concat (map put_u16 norms)
         in Inr (written @ replicate (size - length written) 0)))"

definition PgturbohybridBm25MaxPostingsPerChunk :: nat where
  "PgturbohybridBm25MaxPostingsPerChunk =
     (let maxItemSize = BLCKSZ div 2 - 24 - MAXALIGN 8;
          maxCount = (maxItemSize - off_payload) div
            (PgturbohybridBm25VarintLen 0xffffffff + PgturbohybridBm25VarintLen 0xffff);
          maxCount = max maxCount 1
      in min maxCount 0xffff)"

section \<open>Decoding a chunk\<close>

fun decode_legacy :: "nat \<Rightarrow> bytes \<Rightarrow> posting list" where
  "decode_legacy (Suc n) (a # b # c # d # e # f # g # h # rest) =
     \<lparr>p_nodeId = get_u32 a b c d, p_tf = get_u16 e f, p_reserved = get_u16 g h\<rparr> # decode_legacy n rest"
| "decode_legacy _ _ = []"

fun decode_offset_loop :: "u32 \<Rightarrow> u32 \<Rightarrow> bool \<Rightarrow> (u16 \<times> u16) list \<Rightarrow> posting list option" where
  "decode_offset_loop firstNodeId prevDecoded isFirst [] = Some []"
| "decode_offset_loop firstNodeId prevDecoded isFirst ((offset, tf) # rest) =
     (if isFirst \<and> offset \<noteq> 0 then None
      else let nodeId = firstNodeId + ucast offset
           in if nodeId < prevDecoded then None
              else map_option (Cons \<lparr>p_nodeId = nodeId, p_tf = tf, p_reserved = 0\<rparr>)
                     (decode_offset_loop firstNodeId nodeId False rest))"

fun decode_delta_loop :: "u32 \<Rightarrow> bool \<Rightarrow> (u16 \<times> u16) list \<Rightarrow> posting list option" where
  "decode_delta_loop prevNodeId isFirst [] = Some []"
| "decode_delta_loop prevNodeId isFirst ((delta, tf) # rest) =
     (if isFirst \<and> delta \<noteq> 0 then None
      else if 0xffffffff - prevNodeId < ucast delta then None
      else let prevNodeId = prevNodeId + ucast delta
           in map_option (Cons \<lparr>p_nodeId = prevNodeId, p_tf = tf, p_reserved = 0\<rparr>)
                (decode_delta_loop prevNodeId False rest))"

text \<open>The loop for the variable length encoding also requires that it ends at \<open>dataEnd\<close>.\<close>

fun decode_varint_loop :: "u32 \<Rightarrow> bool \<Rightarrow> nat \<Rightarrow> bytes \<Rightarrow> posting list option" where
  "decode_varint_loop prevNodeId isFirst 0 data = (if data \<noteq> [] then None else Some [])"
| "decode_varint_loop prevNodeId isFirst (Suc n) data =
     (case PgturbohybridBm25GetVarint data of
        None \<Rightarrow> None
      | Some (delta, data) \<Rightarrow>
        (case PgturbohybridBm25GetVarint data of
           None \<Rightarrow> None
         | Some (tf, data) \<Rightarrow>
             if tf > 0xffff \<or> 0xffffffff - prevNodeId < delta then None
             else if isFirst \<and> delta \<noteq> 0 then None
             else let prevNodeId = prevNodeId + delta
                  in map_option (Cons \<lparr>p_nodeId = prevNodeId, p_tf = ucast tf, p_reserved = 0\<rparr>)
                       (decode_varint_loop prevNodeId False n data)))"

definition add_norms :: "bool \<Rightarrow> bytes \<Rightarrow> posting list \<Rightarrow> posting list" where
  "add_norms hasTfNorm norms postings =
     (if hasTfNorm then map2 (\<lambda>p v. p\<lparr>p_reserved := v\<rparr>) postings (u16s norms) else postings)"

definition decode_data :: "u16 \<Rightarrow> u32 \<Rightarrow> nat \<Rightarrow> bytes \<Rightarrow> posting list option" where
  "decode_data encoding firstNodeId n data =
     (if encoding = ENCODING_OFFSET16 then
        (if length data \<noteq> n * 2 * 2 then None
         else decode_offset_loop firstNodeId firstNodeId True (pairs (u16s data)))
      else if encoding = ENCODING_OFFSET16_SOA then
        (if length data \<noteq> n * 2 * 2 then None
         else decode_offset_loop firstNodeId firstNodeId True
                (zip (u16s (take (n * 2) data)) (u16s (drop (n * 2) data))))
      else if encoding = ENCODING_DELTA16 then
        (if length data \<noteq> n * 2 * 2 then None
         else decode_delta_loop firstNodeId True (pairs (u16s data)))
      else if encoding \<noteq> ENCODING_DELTA_VARINT then None
      else decode_varint_loop firstNodeId True n data)"

definition PgturbohybridBm25DecodePostingsTuple :: "bytes \<Rightarrow> posting list option" where
  "PgturbohybridBm25DecodePostingsTuple item =
     (let n = unat (u16_at item 2);
          firstNodeId = u32_at item 12;
          payloadBytes = unat (u16_at item 32);
          encoding = u16_at item off_encoding AND ENCODING_MASK;
          hasTfNorm = (u16_at item off_encoding AND ENCODING_TFNORM_Q16 \<noteq> 0);
          tfNormBytes = (if hasTfNorm then n * 2 else 0);
          payload = take payloadBytes (drop off_payload item)
      in if PgturbohybridBm25PostingsTupleSize payloadBytes \<noteq> length item then
           (if PgturbohybridBm25LegacyPostingsTupleSize n = length item
            then Some (decode_legacy n (drop off_encoding item)) else None)
         else if tfNormBytes > payloadBytes then None
         else map_option (add_norms hasTfNorm (drop (payloadBytes - tfNormBytes) payload))
                (decode_data encoding firstNodeId n (take (payloadBytes - tfNormBytes) payload)))"

section \<open>Round trip of the variable length integers\<close>

lemma and_7f: "(x :: 'a::len word) AND 0x7f = take_bit 7 x"
  by (simp add: take_bit_eq_mask mask_eq_exp_minus_1)

lemma bit_80: "bit (0x80 :: int) n \<longleftrightarrow> n = 7"
  using bit_exp_iff [where 'a = int, of 7 n] by auto

lemma and_80_eq_0: "((x :: u8) AND 0x80 = 0) = (\<not> bit x 7)"
  unfolding bit_eq_iff [of "x AND 0x80" 0] by (auto simp: bit_and_iff bit_80 dest: spec [of _ 7])

lemma continuation_byte:
  "(ucast ((v AND 0x7f) OR 0x80) :: u8) AND 0x80 \<noteq> 0"
  "ucast ((ucast ((v AND 0x7f) OR 0x80) :: u8) AND 0x7f) = take_bit 7 (v :: u32)"
proof -
  show "(ucast ((v AND 0x7f) OR 0x80) :: u8) AND 0x80 \<noteq> 0"
    by (simp add: and_80_eq_0 bit_ucast_iff bit_or_iff bit_80)
  show "ucast ((ucast ((v AND 0x7f) OR 0x80) :: u8) AND 0x7f) = take_bit 7 v"
    unfolding and_7f
    by (rule bit_word_eqI) (auto simp: bit_ucast_iff bit_or_iff bit_take_bit_iff bit_80)
qed

lemma final_byte:
  assumes "v < (0x80 :: u32)"
  shows "(ucast v :: u8) AND 0x80 = 0" "ucast ((ucast v :: u8) AND 0x7f) = v"
proof -
  have v: "take_bit 7 v = v" using assms
    by (simp add: take_bit_eq_self_iff_drop_bit_eq_0 drop_bit_eq_div div_word_less)
  then have b: "\<not> bit v n" if "7 \<le> n" for n
    using that by (metis bit_take_bit_iff not_less)
  show "(ucast v :: u8) AND 0x80 = 0" using b by (simp add: and_80_eq_0 bit_ucast_iff)
  show "ucast ((ucast v :: u8) AND 0x7f) = v"
    unfolding and_7f
    by (rule bit_word_eqI) (use b in \<open>auto simp: bit_ucast_iff bit_take_bit_iff not_le [symmetric]\<close>)
qed

lemma or_split_7: "(r OR push_bit s (take_bit 7 v)) OR push_bit (s + 7) (drop_bit 7 v) = r OR push_bit s (v :: u32)"
proof (rule bit_word_eqI)
  fix n
  show "bit ((r OR push_bit s (take_bit 7 v)) OR push_bit (s + 7) (drop_bit 7 v)) n = bit (r OR push_bit s v) n"
    by (cases "s + 7 \<le> n") (auto simp: bit_or_iff bit_push_bit_iff bit_take_bit_iff bit_drop_bit_eq)
qed

lemma get_varint_loop_put:
  "7 dvd shift \<Longrightarrow> shift \<le> 28 \<Longrightarrow> unat v < 2 ^ (32 - shift) \<Longrightarrow>
   get_varint_loop shift r (PgturbohybridBm25PutVarint v @ rest) = Some (r OR push_bit shift v, rest)"
proof (induction v arbitrary: shift r rule: PgturbohybridBm25PutVarint.induct)
  case (1 v)
  show ?case
  proof (cases "v \<ge> 0x80")
    case True
    then have big: "128 \<le> unat v" by (simp add: word_le_nat_alt)
    have s28: "shift \<noteq> 28" using big "1.prems"(3) by auto
    have s: "shift + 7 \<le> 28" using "1.prems"(1,2) s28 by (auto elim!: dvdE)
    have "unat (drop_bit 7 v) = unat v div 128" by (simp add: drop_bit_eq_div unat_div)
    also have "\<dots> < 2 ^ (32 - (shift + 7))"
    proof -
      have "32 - shift = 7 + (32 - (shift + 7))" using s by simp
      then have "(2 :: nat) ^ (32 - shift) = 2 ^ 7 * 2 ^ (32 - (shift + 7))"
        by (simp only: power_add)
      with "1.prems"(3) have "unat v < 128 * 2 ^ (32 - (shift + 7))" by simp
      then show ?thesis by (simp add: less_mult_imp_div_less mult.commute)
    qed
    finally have d: "unat (drop_bit 7 v) < 2 ^ (32 - (shift + 7))" .
    have "7 dvd shift + 7" using "1.prems"(1) by simp
    from "1.IH" [OF True this s d] continuation_byte [of v] "1.prems"(2) True show ?thesis
      by (simp add: PgturbohybridBm25PutVarint.simps [of v] Let_def or_split_7)
  next
    case False
    then have "v < 0x80" by simp
    from final_byte [OF this] "1.prems"(2) False show ?thesis
      by (simp add: PgturbohybridBm25PutVarint.simps [of v] Let_def)
  qed
qed

lemma get_put_varint [codec_simps]:
  "PgturbohybridBm25GetVarint (PgturbohybridBm25PutVarint v @ rest) = Some (v, rest)"
  using get_varint_loop_put [of 0 v 0 rest] unsigned_less [of v]
  by (simp add: PgturbohybridBm25GetVarint_def)

lemma length_put_varint: "length (PgturbohybridBm25PutVarint v) = PgturbohybridBm25VarintLen v"
proof (induction v rule: PgturbohybridBm25PutVarint.induct)
  case (1 v)
  then show ?case
    by (simp add: PgturbohybridBm25PutVarint.simps [of v] PgturbohybridBm25VarintLen.simps [of v])
qed

section \<open>Round trip of the encodings\<close>

abbreviation plain :: "posting \<Rightarrow> posting" where
  "plain p \<equiv> \<lparr>p_nodeId = p_nodeId p, p_tf = p_tf p, p_reserved = 0\<rparr>"

abbreviation ids_sorted :: "u32 \<Rightarrow> posting list \<Rightarrow> bool" where
  "ids_sorted prev ps \<equiv> sorted (prev # map p_nodeId ps)"

lemma ucast_16_back: "d \<le> (0xffff :: u32) \<Longrightarrow> ucast (ucast d :: u16) = d"
  by (simp add: word_unat_eq_iff unsigned_ucast_eq word_le_nat_alt unsigned_take_bit_eq take_bit_nat_eq_self_iff)

lemma word_diff_add: "(a :: u32) + (b - a) = b"
  by simp

lemma no_overflow: "(a :: u32) \<le> b \<Longrightarrow> \<not> 0xffffffff - a < b - a"
proof -
  assume le: "a \<le> b"
  have "a \<le> 0xffffffff" using unsigned_less [of a, where 'a = nat] by (simp add: word_le_nat_alt)
  then show ?thesis
    using le unsigned_less [of b, where 'a = nat]
    by (simp add: word_less_nat_alt unat_sub word_le_nat_alt)
qed

lemma offset16_loop_eq:
  "list_all (\<lambda>p. PgturbohybridBm25CanUseOffset16 f (p_nodeId p)) ps \<Longrightarrow>
   encode_offset16_loop f ps =
     Inr (concat (map (\<lambda>p. put_u16 (ucast (p_nodeId p - f)) @ put_u16 (p_tf p)) ps))"
  by (induction ps) (simp_all add: PgturbohybridBm25EncodePostingOffset16_def)

lemma soa_offsets_eq:
  "list_all (\<lambda>p. PgturbohybridBm25CanUseOffset16 f (p_nodeId p)) ps \<Longrightarrow>
   encode_soa_offsets f ps = Inr (map (\<lambda>p. ucast (p_nodeId p - f)) ps)"
  by (induction ps) simp_all

lemma pairs_u16s_concat:
  "pairs (u16s (concat (map (\<lambda>p. put_u16 (f p) @ put_u16 (g p)) ps))) = map (\<lambda>p. (f p, g p)) ps"
  by (induction ps) (simp_all add: codec_simps)

lemma length_concat_pairs:
  "length (concat (map (\<lambda>p. put_u16 (f p) @ put_u16 (g p)) ps)) = 4 * length ps"
  by (induction ps) simp_all

lemma decode_offset_loop_ok:
  "list_all (\<lambda>p. PgturbohybridBm25CanUseOffset16 f (p_nodeId p)) ps \<Longrightarrow> ids_sorted prev ps \<Longrightarrow>
   (isFirst \<and> ps \<noteq> [] \<longrightarrow> p_nodeId (hd ps) = f) \<Longrightarrow>
   decode_offset_loop f prev isFirst (map (\<lambda>p. (ucast (p_nodeId p - f), p_tf p)) ps) = Some (map plain ps)"
proof (induction ps arbitrary: prev isFirst)
  case (Cons p ps)
  have "ucast (ucast (p_nodeId p - f) :: u16) = p_nodeId p - f"
    using Cons.prems(1) by (intro ucast_16_back) (simp add: PgturbohybridBm25CanUseOffset16_def)
  with Cons.IH [of "p_nodeId p" False] Cons.prems show ?case by (auto simp: not_less Let_def)
qed simp

fun deltas :: "u32 \<Rightarrow> posting list \<Rightarrow> (u16 \<times> u16) list" where
  "deltas prev [] = []"
| "deltas prev (p # ps) = (ucast (p_nodeId p - prev), p_tf p) # deltas (p_nodeId p) ps"

lemma delta16_loop_eq:
  "can_use_delta16_all prev ps \<Longrightarrow>
   \<exists>bs. encode_delta16_loop prev ps = Inr bs \<and> length bs = 4 * length ps \<and>
        pairs (u16s bs) = deltas prev ps"
proof (induction ps arbitrary: prev)
  case (Cons p ps)
  then obtain bs where "encode_delta16_loop (p_nodeId p) ps = Inr bs" "length bs = 4 * length ps"
    "pairs (u16s bs) = deltas (p_nodeId p) ps" by auto
  with Cons.prems show ?case
    by (simp add: PgturbohybridBm25EncodePostingDelta16_def codec_simps)
qed simp

lemma decode_delta_loop_ok:
  "can_use_delta16_all prev ps \<Longrightarrow> (isFirst \<and> ps \<noteq> [] \<longrightarrow> p_nodeId (hd ps) = prev) \<Longrightarrow>
   decode_delta_loop prev isFirst (deltas prev ps) = Some (map plain ps)"
proof (induction ps arbitrary: prev isFirst)
  case (Cons p ps)
  have le: "prev \<le> p_nodeId p" using Cons.prems by (simp add: PgturbohybridBm25CanUseDelta16_def)
  have "ucast (ucast (p_nodeId p - prev) :: u16) = p_nodeId p - prev"
    using Cons.prems(1) by (intro ucast_16_back) (simp add: PgturbohybridBm25CanUseDelta16_def)
  with Cons.IH [of "p_nodeId p" False] Cons.prems no_overflow [OF le] show ?case by (auto simp: Let_def)
qed simp

lemma varint_loop_eq:
  "ids_sorted prev ps \<Longrightarrow>
   \<exists>bs. encode_varint_loop prev ps = Inr bs \<and> length bs = varint_payload_bytes prev ps \<and>
     (\<forall>isFirst. (isFirst \<and> ps \<noteq> [] \<longrightarrow> p_nodeId (hd ps) = prev) \<longrightarrow>
        decode_varint_loop prev isFirst (length ps) bs = Some (map plain ps))"
proof (induction ps arbitrary: prev)
  case (Cons p ps)
  have le: "prev \<le> p_nodeId p" using Cons.prems by simp
  have "ids_sorted (p_nodeId p) ps" using Cons.prems by simp
  from Cons.IH [OF this] obtain bs where bs: "encode_varint_loop (p_nodeId p) ps = Inr bs"
    "length bs = varint_payload_bytes (p_nodeId p) ps"
    "decode_varint_loop (p_nodeId p) False (length ps) bs = Some (map plain ps)" by auto
  have tf: "\<not> (0xffff :: u32) < ucast (p_tf p)" "ucast (ucast (p_tf p) :: u32) = p_tf p"
    using unsigned_less [of "p_tf p", where 'a = nat]
    by (simp_all add: not_less word_le_nat_alt unsigned_ucast_eq unsigned_take_bit_eq take_bit_nat_eq_self word_unat_eq_iff)
  from bs le tf no_overflow [OF le] show ?case
    by (auto simp: PgturbohybridBm25EncodePosting_def length_put_varint codec_simps Let_def)
qed simp

section \<open>Sizes stay within the item and the page\<close>

lemma varint_len_le: "unat v < 2 ^ (7 * k) \<Longrightarrow> 0 < k \<Longrightarrow> PgturbohybridBm25VarintLen v \<le> k"
proof (induction v arbitrary: k rule: PgturbohybridBm25VarintLen.induct)
  case (1 v)
  show ?case
  proof (cases "v \<ge> 0x80")
    case True
    then have big: "128 \<le> unat v" by (simp add: word_le_nat_alt)
    have "k \<noteq> 1" using big "1.prems"(1) by auto
    then obtain j where k: "k = Suc j" "0 < j" using "1.prems"(2) by (cases k) auto
    have "unat (drop_bit 7 v) = unat v div 128" by (simp add: drop_bit_eq_div unat_div)
    also have "\<dots> < 2 ^ (7 * j)"
      using "1.prems"(1) k by (simp add: power_add less_mult_imp_div_less mult.commute)
    finally have "PgturbohybridBm25VarintLen (drop_bit 7 v) \<le> j" using "1.IH" True k by blast
    then show ?thesis using True k by (simp add: PgturbohybridBm25VarintLen.simps [of v])
  next
    case False
    then show ?thesis using "1.prems" by (simp add: PgturbohybridBm25VarintLen.simps [of v])
  qed
qed

lemma header_fields [codec_simps]:
  "length (postings_header n t c f l m e q p s) = off_payload"
  "u16_at (postings_header n t c f l m e q p s @ rest) 2 = n"
  "u32_at (postings_header n t c f l m e q p s @ rest) 12 = f"
  "u16_at (postings_header n t c f l m e q p s @ rest) off_encoding = e"
  "u16_at (postings_header n t c f l m e q p s @ rest) 32 = p"
  by (simp_all add: postings_header_def off_payload_def off_encoding_def u16_at_def u32_at_def
      put_u16_def put_u32_def get_put_u16 get_put_u32)

lemma encode_decode_data:
  assumes "ps \<noteq> []" "sorted (map p_nodeId ps)"
  shows "\<exists>data. encode_data h ps = Inr data \<and>
    cl_payloadBytes (choose_layout h ps) = length data + (if h then length ps * 2 else 0) \<and>
    decode_data (cl_encoding (choose_layout h ps) AND ENCODING_MASK) (p_nodeId (hd ps)) (length ps) data
      = Some (map plain ps) \<and>
    (cl_encoding (choose_layout h ps) AND ENCODING_TFNORM_Q16 \<noteq> 0) = h"
proof -
  let ?f = "p_nodeId (hd ps)"
  let ?off = "list_all (\<lambda>p. PgturbohybridBm25CanUseOffset16 ?f (p_nodeId p)) ps"
  note defs = encode_data_def choose_layout_def decode_data_def Let_def ENCODING_MASK_def
    ENCODING_TFNORM_Q16_def ENCODING_OFFSET16_def ENCODING_OFFSET16_SOA_def ENCODING_DELTA16_def
    ENCODING_DELTA_VARINT_def
  have s: "ids_sorted ?f ps" using assms by (cases ps) auto
  consider (soa) ?off h | (off) ?off "\<not> h" | (delta) "\<not> ?off" "can_use_delta16_all ?f ps"
    | (varint) "\<not> ?off" "\<not> can_use_delta16_all ?f ps" by blast
  then show ?thesis
  proof cases
    case soa
    have d: "decode_offset_loop ?f ?f True (zip (map (\<lambda>p. ucast (p_nodeId p - ?f)) ps) (map p_tf ps))
        = Some (map plain ps)"
      using decode_offset_loop_ok [OF soa(1) s, of True] by (simp add: zip_map_map zip_same_conv_map comp_def)
    show ?thesis
      using soa d by (simp add: defs soa_offsets_eq codec_simps del: map_map)
  next
    case off
    then show ?thesis
      using decode_offset_loop_ok [OF off(1) s, of True]
      by (simp add: defs offset16_loop_eq pairs_u16s_concat length_concat_pairs)
  next
    case delta
    then show ?thesis
      using delta16_loop_eq [OF delta(2)] decode_delta_loop_ok [OF delta(2), of True]
      by (auto simp: defs)
  next
    case varint
    then show ?thesis
      using varint_loop_eq [OF s] by (auto simp: defs)
  qed
qed

lemma varint_payload_le: "varint_payload_bytes prev ps \<le> 8 * length ps"
proof (induction ps arbitrary: prev)
  case (Cons p ps)
  have "PgturbohybridBm25VarintLen (p_nodeId p - prev) \<le> 5"
    using unsigned_less [of "p_nodeId p - prev", where 'a = nat] by (intro varint_len_le) auto
  moreover have "PgturbohybridBm25VarintLen (ucast (p_tf p)) \<le> 3"
    using unsigned_less [of "p_tf p", where 'a = nat]
    by (intro varint_len_le) (auto simp: unsigned_ucast_eq unsigned_take_bit_eq take_bit_nat_eq_self)
  ultimately show ?case using Cons.IH [of "p_nodeId p"] by simp
qed simp

lemma payload_le: "cl_payloadBytes (choose_layout h ps) \<le> 10 * length ps"
  using varint_payload_le [of "p_nodeId (hd ps)" ps] by (auto simp: choose_layout_def Let_def)

lemma varint_len_consts:
  "PgturbohybridBm25VarintLen 0xffffffff = 5" "PgturbohybridBm25VarintLen 0xffff = 3"
  by (simp_all add: PgturbohybridBm25VarintLen.simps)

lemma max_postings_per_chunk: "PgturbohybridBm25MaxPostingsPerChunk = 503"
  by (simp add: PgturbohybridBm25MaxPostingsPerChunk_def varint_len_consts BLCKSZ_def
      MAXALIGN_def off_payload_def)

definition PGTURBOHYBRID_GRAPH_MAX_SIZE :: nat where
  "PGTURBOHYBRID_GRAPH_MAX_SIZE = BLCKSZ - MAXALIGN 24 - MAXALIGN 8 - 4"

abbreviation decoded :: "(u32 \<Rightarrow> u16 \<Rightarrow> u16) \<Rightarrow> bool \<Rightarrow> posting \<Rightarrow> posting" where
  "decoded quantize h p \<equiv> p\<lparr>p_reserved := if h then quantize (p_nodeId p) (p_tf p) else 0\<rparr>"

lemma add_norms_decoded:
  "add_norms h (concat (map put_u16 (if h then map (\<lambda>p. q (p_nodeId p) (p_tf p)) ps else []))) (map plain ps)
   = map (decoded q h) ps"
proof (cases h)
  case True
  have "map2 (\<lambda>p v. p\<lparr>p_reserved := v\<rparr>) (map plain ps) (map (\<lambda>p. q (p_nodeId p) (p_tf p)) ps)
      = map (decoded q True) ps"
    by (induction ps) auto
  with True show ?thesis by (simp add: add_norms_def codec_simps del: map_map)
qed (simp add: add_norms_def)

lemma write_decode:
  assumes "postings \<noteq> []" "length postings \<le> PgturbohybridBm25MaxPostingsPerChunk"
    and "sorted (map p_nodeId postings)"
  shows "\<exists>item. PgturbohybridWritePostingsChunkData quantize scoreFactor hasTfNorm termId chunkNo postings = Inr item
    \<and> PgturbohybridBm25DecodePostingsTuple item = Some (map (decoded quantize hasTfNorm) postings)"
proof -
  let ?n = "length postings" and ?pb = "cl_payloadBytes (choose_layout hasTfNorm postings)"
  obtain data where data: "encode_data hasTfNorm postings = Inr data"
    "?pb = length data + (if hasTfNorm then ?n * 2 else 0)"
    "decode_data (cl_encoding (choose_layout hasTfNorm postings) AND ENCODING_MASK)
       (p_nodeId (hd postings)) ?n data = Some (map plain postings)"
    "(cl_encoding (choose_layout hasTfNorm postings) AND ENCODING_TFNORM_Q16 \<noteq> 0) = hasTfNorm"
    using encode_decode_data [OF assms(1,3)] by blast
  define norms where "norms = (if hasTfNorm then map (\<lambda>p. quantize (p_nodeId p) (p_tf p)) postings else [])"
  let ?nb = "concat (map put_u16 norms)"
  have nl: "length ?nb = (if hasTfNorm then ?n * 2 else 0)" by (simp add: norms_def)
  have n: "unat (of_nat ?n :: u16) = ?n" and pb: "unat (of_nat ?pb :: u16) = ?pb"
    using assms(2) payload_le [of hasTfNorm postings] max_postings_per_chunk
    by (simp_all add: unsigned_of_nat take_bit_nat_eq_self)
  obtain hd' where item: "PgturbohybridWritePostingsChunkData quantize scoreFactor hasTfNorm termId chunkNo postings
      = Inr (hd' @ data @ ?nb @ replicate (PgturbohybridBm25PostingsTupleSize ?pb - (off_payload + ?pb)) 0)"
    and hd': "length hd' = off_payload" "\<And>r. u16_at (hd' @ r) 2 = of_nat ?n"
      "\<And>r. u32_at (hd' @ r) 12 = p_nodeId (hd postings)"
      "\<And>r. u16_at (hd' @ r) off_encoding = cl_encoding (choose_layout hasTfNorm postings)"
      "\<And>r. u16_at (hd' @ r) 32 = of_nat ?pb"
    using data(1,2) nl header_fields
    by (auto simp: PgturbohybridWritePostingsChunkData_def Let_def norms_def [symmetric])
  have len: "off_payload + ?pb + (PgturbohybridBm25PostingsTupleSize ?pb - (off_payload + ?pb))
      = PgturbohybridBm25PostingsTupleSize ?pb"
    using MAXALIGN_ge [of "off_payload + ?pb"] by (simp add: PgturbohybridBm25PostingsTupleSize_def)
  have "PgturbohybridBm25DecodePostingsTuple
      (hd' @ data @ ?nb @ replicate (PgturbohybridBm25PostingsTupleSize ?pb - (off_payload + ?pb)) 0)
      = Some (map (decoded quantize hasTfNorm) postings)"
    using data(2,3,4) hd' n pb nl len add_norms_decoded [of hasTfNorm quantize postings]
    by (simp add: PgturbohybridBm25DecodePostingsTuple_def Let_def norms_def [symmetric])
  with item show ?thesis by blast
qed

text \<open>
  C7. Postings survive storage. Writing a non-empty chunk of at most the maximal number of
  postings, sorted by node id, succeeds, and decoding the written item gives back exactly the
  same node ids and term frequencies in the same order, together with the norms that the
  quantizer computed (or zero when norms are off), whichever of the four encodings the
  writer picks.
\<close>

theorem postings_roundtrip:
  assumes "postings \<noteq> []" "length postings \<le> PgturbohybridBm25MaxPostingsPerChunk"
    and "sorted (map p_nodeId postings)"
  shows "\<exists>item. PgturbohybridWritePostingsChunkData quantize scoreFactor hasTfNorm termId chunkNo postings = Inr item
    \<and> PgturbohybridBm25DecodePostingsTuple item = Some (map (decoded quantize hasTfNorm) postings)"
  using write_decode [OF assms] .

theorem postings_roundtrip_witness:
  "sorted (map p_nodeId [\<lparr>p_nodeId = 3, p_tf = 2, p_reserved = 0\<rparr>, \<lparr>p_nodeId = 100000, p_tf = 1, p_reserved = 0\<rparr>]) \<and>
   (\<exists>item. PgturbohybridWritePostingsChunkData (\<lambda>_ tf. tf) (\<lambda>_. 0) True 1 0
      [\<lparr>p_nodeId = 3, p_tf = 2, p_reserved = 0\<rparr>, \<lparr>p_nodeId = 100000, p_tf = 1, p_reserved = 0\<rparr>] = Inr item \<and>
    PgturbohybridBm25DecodePostingsTuple item =
      Some [\<lparr>p_nodeId = 3, p_tf = 2, p_reserved = 2\<rparr>, \<lparr>p_nodeId = 100000, p_tf = 1, p_reserved = 1\<rparr>])"
  using postings_roundtrip [of "[\<lparr>p_nodeId = 3, p_tf = 2, p_reserved = 0\<rparr>, \<lparr>p_nodeId = 100000, p_tf = 1, p_reserved = 0\<rparr>]"
      "\<lambda>_ tf. tf" "\<lambda>_. 0" True 1 0]
  by (simp add: max_postings_per_chunk)

lemma length_encode_data:
  "encode_data h ps = Inr data \<Longrightarrow>
   cl_payloadBytes (choose_layout h ps) = length data + (if h then length ps * 2 else 0)"
proof -
  have off: "encode_offset16_loop f ps = Inr bs \<Longrightarrow> length bs = 4 * length ps" for f ps bs
    by (induction ps arbitrary: bs)
      (auto simp: bindE_Inr_iff PgturbohybridBm25EncodePostingOffset16_def split: if_splits)
  have delta: "encode_delta16_loop f ps = Inr bs \<Longrightarrow> length bs = 4 * length ps" for f ps bs
    by (induction f ps arbitrary: bs rule: encode_delta16_loop.induct)
      (auto simp: bindE_Inr_iff PgturbohybridBm25EncodePostingDelta16_def split: if_splits)
  have varint: "encode_varint_loop f ps = Inr bs \<Longrightarrow> length bs = varint_payload_bytes f ps" for f ps bs
    by (induction f ps arbitrary: bs rule: encode_varint_loop.induct)
      (auto simp: bindE_Inr_iff PgturbohybridBm25EncodePosting_def length_put_varint split: if_splits)
  have soa: "encode_soa_offsets f ps = Inr os \<Longrightarrow> length os = length ps" for f ps os
    by (induction ps arbitrary: os) (auto simp: bindE_Inr_iff split: if_splits)
  assume e: "encode_data h ps = Inr data"
  then show ?thesis
    using off delta varint soa
    by (fastforce simp: encode_data_def choose_layout_def Let_def bindE_Inr_iff split: if_splits)
qed

lemma write_fits:
  assumes "length postings \<le> PgturbohybridBm25MaxPostingsPerChunk"
    and "PgturbohybridWritePostingsChunkData quantize scoreFactor hasTfNorm termId chunkNo postings = Inr item"
  shows "length item = PgturbohybridBm25PostingsTupleSize (cl_payloadBytes (choose_layout hasTfNorm postings)) \<and>
    unat (u16_at item 32) = cl_payloadBytes (choose_layout hasTfNorm postings) \<and>
    unat (u16_at item 2) = length postings \<and>
    8 dvd length item \<and> length item \<le> PGTURBOHYBRID_GRAPH_MAX_SIZE"
proof -
  let ?pb = "cl_payloadBytes (choose_layout hasTfNorm postings)"
  obtain data where data: "encode_data hasTfNorm postings = Inr data"
    using assms(2) by (auto simp: PgturbohybridWritePostingsChunkData_def Let_def bindE_Inr_iff)
  note pb = length_encode_data [OF data]
  have le: "?pb \<le> 5030" using payload_le [of hasTfNorm postings] assms(1) max_postings_per_chunk by simp
  have ge: "off_payload + ?pb \<le> PgturbohybridBm25PostingsTupleSize ?pb"
    using MAXALIGN_ge by (simp add: PgturbohybridBm25PostingsTupleSize_def)
  have len: "length item = PgturbohybridBm25PostingsTupleSize ?pb"
    using assms(2) data pb ge
    by (auto simp: PgturbohybridWritePostingsChunkData_def Let_def codec_simps split: if_splits)
  have f: "u16_at item 32 = of_nat ?pb" "u16_at item 2 = of_nat (length postings)"
    using assms(2) data
    by (auto simp: PgturbohybridWritePostingsChunkData_def Let_def codec_simps)
  have "PgturbohybridBm25PostingsTupleSize ?pb \<le> PGTURBOHYBRID_GRAPH_MAX_SIZE"
    using MAXALIGN_mono [of "off_payload + ?pb" "off_payload + 5030"] le
    by (simp add: PgturbohybridBm25PostingsTupleSize_def PGTURBOHYBRID_GRAPH_MAX_SIZE_def
        off_payload_def BLCKSZ_def MAXALIGN_def)
  then show ?thesis using len f le assms(1) max_postings_per_chunk
    by (simp add: PgturbohybridBm25PostingsTupleSize_def unsigned_of_nat take_bit_nat_eq_self)
qed

text \<open>
  C8. Whenever a chunk of at most the maximal number of postings is written, in any order of
  node ids, the bytes written are exactly the bytes allocated for the item: the payload
  length fits its 16-bit header field without truncation, the item is MAXALIGNed, and it
  fits on a page.
\<close>

theorem postings_item_fits_page:
  assumes "length postings \<le> PgturbohybridBm25MaxPostingsPerChunk"
    and "PgturbohybridWritePostingsChunkData quantize scoreFactor hasTfNorm termId chunkNo postings = Inr item"
  shows "length item = PgturbohybridBm25PostingsTupleSize (cl_payloadBytes (choose_layout hasTfNorm postings)) \<and>
    unat (u16_at item 32) = cl_payloadBytes (choose_layout hasTfNorm postings) \<and>
    unat (u16_at item 2) = length postings \<and>
    8 dvd length item \<and> length item \<le> PGTURBOHYBRID_GRAPH_MAX_SIZE"
  using write_fits [OF assms] .

theorem postings_item_fits_page_witness:
  "\<exists>item. PgturbohybridWritePostingsChunkData (\<lambda>_ tf. tf) (\<lambda>_. 0) False 1 0
      [\<lparr>p_nodeId = 3, p_tf = 2, p_reserved = 0\<rparr>] = Inr item \<and>
    unat (u16_at item 32) = 4 \<and> length item \<le> PGTURBOHYBRID_GRAPH_MAX_SIZE"
proof -
  let ?ps = "[\<lparr>p_nodeId = 3, p_tf = 2, p_reserved = 0\<rparr> :: posting]"
  obtain item where i: "PgturbohybridWritePostingsChunkData (\<lambda>_ tf. tf) (\<lambda>_. 0) False 1 0 ?ps = Inr item"
    by (simp add: PgturbohybridWritePostingsChunkData_def Let_def encode_data_def
        PgturbohybridBm25EncodePostingOffset16_def PgturbohybridBm25CanUseOffset16_def)
  then show ?thesis
    using postings_item_fits_page [OF _ i]
    by (simp add: max_postings_per_chunk choose_layout_def PgturbohybridBm25CanUseOffset16_def)
qed

section \<open>The decoder on arbitrary bytes\<close>

lemma decode_offset_loop_sorted:
  "decode_offset_loop f prev isFirst prs = Some ps \<Longrightarrow>
   length ps = length prs \<and> ids_sorted prev ps \<and>
   (isFirst \<and> ps \<noteq> [] \<longrightarrow> p_nodeId (hd ps) = f)"
proof (induction f prev isFirst prs arbitrary: ps rule: decode_offset_loop.induct)
  case (2 f prev isFirst offset tf rest)
  then show ?case by (fastforce simp: Let_def not_less split: if_splits)
qed simp

lemma add_no_wrap: "\<not> 0xffffffff - a < (d :: u32) \<Longrightarrow> a \<le> a + d"
proof -
  assume "\<not> 0xffffffff - a < d"
  moreover have "a \<le> 0xffffffff" using unsigned_less [of a, where 'a = nat] by (simp add: word_le_nat_alt)
  ultimately have "unat a + unat d < 2 ^ 32"
    by (simp add: word_less_nat_alt unat_sub word_le_nat_alt)
  then show ?thesis by (simp add: word_le_nat_alt unat_word_ariths)
qed

lemma decode_delta_loop_sorted:
  "decode_delta_loop prev isFirst prs = Some ps \<Longrightarrow>
   length ps = length prs \<and> ids_sorted prev ps \<and>
   (isFirst \<and> ps \<noteq> [] \<longrightarrow> p_nodeId (hd ps) = prev)"
proof (induction prev isFirst prs arbitrary: ps rule: decode_delta_loop.induct)
  case (2 prev isFirst delta tf rest)
  then show ?case using add_no_wrap [of prev "ucast delta"]
    by (fastforce simp: Let_def split: if_splits)
qed simp

lemma decode_varint_loop_sorted:
  "decode_varint_loop prev isFirst n data = Some ps \<Longrightarrow>
   length ps = n \<and> ids_sorted prev ps \<and>
   (isFirst \<and> ps \<noteq> [] \<longrightarrow> p_nodeId (hd ps) = prev)"
proof (induction prev isFirst n data arbitrary: ps rule: decode_varint_loop.induct)
  case (2 prev isFirst n data)
  from "2.prems" obtain delta data1 tf data2 qs where
    g: "PgturbohybridBm25GetVarint data = Some (delta, data1)"
      "PgturbohybridBm25GetVarint data1 = Some (tf, data2)"
    and ok: "\<not> (tf > 0xffff \<or> 0xffffffff - prev < delta)" "\<not> (isFirst \<and> delta \<noteq> 0)"
    and qs: "decode_varint_loop (prev + delta) False n data2 = Some qs"
      "ps = \<lparr>p_nodeId = prev + delta, p_tf = ucast tf, p_reserved = 0\<rparr> # qs"
    by (auto simp: Let_def split: option.splits if_splits)
  from "2.IH" [OF g(1) refl g(2) refl ok refl qs(1)] add_no_wrap [of prev delta] ok qs(2)
  show ?case by auto
qed (auto split: if_splits)

lemma decode_data_sorted:
  "decode_data e f n data = Some ps \<Longrightarrow>
   length ps = n \<and> sorted (map p_nodeId ps) \<and> (ps \<noteq> [] \<longrightarrow> p_nodeId (hd ps) = f)"
  using decode_offset_loop_sorted [of f f True _ ps] decode_delta_loop_sorted [of f True _ ps]
    decode_varint_loop_sorted [of f True n data ps]
  by (auto simp: decode_data_def split: if_splits)

lemma map_nodeId_norms: "length vs = length ps \<Longrightarrow>
  map p_nodeId (map2 (\<lambda>p v. p\<lparr>p_reserved := v\<rparr>) ps vs) = map p_nodeId ps"
  by (induction vs ps rule: list_induct2) auto

lemma decode_sorted:
  assumes "PgturbohybridBm25DecodePostingsTuple item = Some ps"
    and "length item = PgturbohybridBm25PostingsTupleSize (unat (u16_at item 32))"
  shows "length ps = unat (u16_at item 2) \<and> sorted (map p_nodeId ps) \<and>
    (ps \<noteq> [] \<longrightarrow> p_nodeId (hd ps) = u32_at item 12)"
proof -
  let ?n = "unat (u16_at item 2)" and ?pb = "unat (u16_at item 32)"
  let ?h = "u16_at item off_encoding AND ENCODING_TFNORM_Q16 \<noteq> 0"
  let ?tb = "if ?h then ?n * 2 else 0"
  let ?norms = "drop (?pb - ?tb) (take ?pb (drop off_payload item))"
  have pb: "?pb \<le> length item - off_payload"
    using assms(2) MAXALIGN_ge [of "off_payload + ?pb"] by (simp add: PgturbohybridBm25PostingsTupleSize_def)
  obtain qs where tb: "?tb \<le> ?pb" and ps: "ps = add_norms ?h ?norms qs"
    and "decode_data (u16_at item off_encoding AND ENCODING_MASK) (u32_at item 12) ?n
           (take (?pb - ?tb) (take ?pb (drop off_payload item))) = Some qs"
    using assms by (auto simp: PgturbohybridBm25DecodePostingsTuple_def Let_def split: if_splits)
  note qs = decode_data_sorted [OF this(3)]
  have "?h \<Longrightarrow> length (u16s ?norms) = length qs" using pb tb qs by simp
  then have "map p_nodeId ps = map p_nodeId qs"
    using map_nodeId_norms [of "u16s ?norms" qs] by (simp only: ps add_norms_def if_splits) auto
  then show ?thesis using qs by (metis hd_map length_map list.map_disc_iff)
qed

lemma length_decode_legacy: "8 * n \<le> length bs \<Longrightarrow> length (decode_legacy n bs) = n"
proof (induction n arbitrary: bs)
  case (Suc n)
  then obtain a b c d e f g h rest where "bs = a # b # c # d # e # f # g # h # rest"
    by (auto simp: Suc_le_length_iff numeral_eq_Suc)
  then show ?case using Suc by simp
qed simp



end
