(* ===== verification/Bm25_Alloc.thy ===== *)
theory Bm25_Alloc
  imports Prelude
begin

text \<open>
  Allocation sizes, capacity growth and metadata validation of the BM25 reader and writer
  (\<open>src/src/pgturbohybrid_bm25_query.c\<close>, \<open>src/src/pgturbohybrid_bm25_build.c\<close>). The build side has
  its own copies of the two size functions, which differ in the error message.
\<close>

section \<open>Sizes\<close>

definition alloc_size :: "string \<Rightarrow> nat \<Rightarrow> nat \<Rightarrow> nat res" where
  "alloc_size msg elemSize n =
     (if elemSize \<noteq> 0 \<and> n > MaxAllocSize div elemSize
      then Inl (Ereport ERRCODE_PROGRAM_LIMIT_EXCEEDED msg)
      else Inr (elemSize * n))"

definition PgturbohybridBm25ArrayAllocSize :: "nat \<Rightarrow> nat \<Rightarrow> nat res" where
  "PgturbohybridBm25ArrayAllocSize = alloc_size ''pgturbohybrid BM25 allocation request is too large''"

definition PgturbohybridBm25BuildArrayAllocSize :: "nat \<Rightarrow> nat \<Rightarrow> nat res" where
  "PgturbohybridBm25BuildArrayAllocSize = alloc_size ''pgturbohybrid BM25 build array is too large''"

text \<open>The doubling loop. The capacity it starts from is at least 1, which makes it end.\<close>

function grow_loop :: "string \<Rightarrow> nat \<Rightarrow> nat \<Rightarrow> nat res" where
  "grow_loop msg newCapacity needed =
     (if newCapacity < needed \<and> newCapacity > 0 then
        if newCapacity > (2 ^ 32 - 1) div 2 then Inl (Ereport ERRCODE_PROGRAM_LIMIT_EXCEEDED msg)
        else grow_loop msg (newCapacity + newCapacity) needed
      else Inr newCapacity)"
  by pat_completeness auto
termination by (relation "measure (\<lambda>(_, c, n). n - c)") auto

declare grow_loop.simps [simp del]

definition PgturbohybridBm25GrowCapacity32 :: "nat \<Rightarrow> nat \<Rightarrow> nat \<Rightarrow> nat res" where
  "PgturbohybridBm25GrowCapacity32 capacity needed elemSize =
     bindE (grow_loop ''pgturbohybrid BM25 array capacity is too large'' (max capacity 1) needed) (\<lambda>newCapacity.
     bindE (PgturbohybridBm25ArrayAllocSize elemSize newCapacity) (\<lambda>_. Inr newCapacity))"

definition PgturbohybridBm25BuildGrowCapacity32 :: "nat \<Rightarrow> nat \<Rightarrow> nat \<Rightarrow> nat res" where
  "PgturbohybridBm25BuildGrowCapacity32 capacity needed elemSize =
     bindE (grow_loop ''pgturbohybrid BM25 build capacity is too large'' (if capacity = 0 then 1 else capacity) needed) (\<lambda>newCapacity.
     bindE (PgturbohybridBm25BuildArrayAllocSize elemSize newCapacity) (\<lambda>_. Inr newCapacity))"

section \<open>Metadata\<close>

text \<open>The fields of the two metadata tuples the validation reads.\<close>

record bm25_meta =
  bm_docCount :: u32
  bm_termCount :: u32
  bm_docStatsStartBlkno :: u32
  bm_lexiconStartBlkno :: u32
  bm_postingsStartBlkno :: u32
  bm_blockMaxStartBlkno :: u32
  bm_deltaStartBlkno :: u32
  bm_deltaTermDirectoryBlkno :: u32

definition InvalidBlockNumber :: u32 where "InvalidBlockNumber = 0xffffffff"

definition MaxOffsetNumber :: nat where "MaxOffsetNumber = 2048"

definition MAX_NODE_COUNT_FOR_CACHE :: nat where "MAX_NODE_COUNT_FOR_CACHE = 10000000"
definition MAX_TERM_COUNT_FOR_CACHE :: nat where "MAX_TERM_COUNT_FOR_CACHE = 10000000"

definition PgturbohybridBm25ValidateBlockPointer :: "u32 \<Rightarrow> u32 \<Rightarrow> unit res" where
  "PgturbohybridBm25ValidateBlockPointer blkno nblocks =
     (if blkno \<noteq> InvalidBlockNumber \<and> blkno \<ge> nblocks
      then Inl (Ereport ERRCODE_DATA_CORRUPTED ''pgturbohybrid BM25 metadata block pointer is invalid'')
      else Inr ())"

fun validate_pointers :: "u32 list \<Rightarrow> u32 \<Rightarrow> unit res" where
  "validate_pointers [] nblocks = Inr ()"
| "validate_pointers (b # bs) nblocks =
     bindE (PgturbohybridBm25ValidateBlockPointer b nblocks) (\<lambda>_. validate_pointers bs nblocks)"

definition PgturbohybridBm25ValidateCacheMeta :: "u32 \<Rightarrow> bm25_meta \<Rightarrow> u32 \<Rightarrow> unit res" where
  "PgturbohybridBm25ValidateCacheMeta nblocks meta tqNodeCount =
     (let maxTuplesFromBlocks = unat (max nblocks 1) * MaxOffsetNumber in
      if unat tqNodeCount > MAX_NODE_COUNT_FOR_CACHE \<or> unat tqNodeCount > maxTuplesFromBlocks
      then Inl (Ereport ERRCODE_DATA_CORRUPTED ''pgturbohybrid BM25 metadata node count is invalid'')
      else if bm_docCount meta > tqNodeCount
      then Inl (Ereport ERRCODE_DATA_CORRUPTED ''pgturbohybrid BM25 metadata document count is invalid'')
      else if unat (bm_termCount meta) > MAX_TERM_COUNT_FOR_CACHE \<or> unat (bm_termCount meta) > maxTuplesFromBlocks
      then Inl (Ereport ERRCODE_DATA_CORRUPTED ''pgturbohybrid BM25 metadata term count is invalid'')
      else validate_pointers [bm_docStatsStartBlkno meta, bm_lexiconStartBlkno meta, bm_postingsStartBlkno meta,
             bm_blockMaxStartBlkno meta, bm_deltaStartBlkno meta, bm_deltaTermDirectoryBlkno meta] nblocks)"

section \<open>Growth\<close>

lemma alloc_size_Inr: "alloc_size msg sz n = Inr m \<longleftrightarrow> m = sz * n \<and> (sz = 0 \<or> n \<le> MaxAllocSize div sz)"
  by (auto simp: alloc_size_def)

lemma grow_loop_Inr:
  assumes "grow_loop msg c needed = Inr n" "0 < c"
  shows "c \<le> n \<and> needed \<le> n \<and> (\<exists>k. n = c * 2 ^ k) \<and> n < max (c + 1) (2 * needed)"
  using assms
proof (induction msg c needed rule: grow_loop.induct)
  case (1 msg c needed)
  show ?case
  proof (cases "c < needed")
    case False
    then show ?thesis using "1.prems" grow_loop.simps [of msg c needed] by (auto intro: exI [of _ 0])
  next
    case True
    then have small: "\<not> c > (2 ^ 32 - 1) div 2" and rec: "grow_loop msg (c + c) needed = Inr n"
      using "1.prems" grow_loop.simps [of msg c needed] by (auto split: if_splits)
    from "1.IH" [OF _ small rec] True "1.prems" obtain k where
      "c + c \<le> n" "needed \<le> n" "n = (c + c) * 2 ^ k" "n < max (c + c + 1) (2 * needed)" by auto
    then show ?thesis using True by (auto simp: max_def intro: exI [of _ "Suc k"])
  qed
qed

lemma grow_loop_Inl:
  assumes "grow_loop msg c needed = Inl e"
  shows "needed > 2 ^ 31"
  using assms
proof (induction msg c needed rule: grow_loop.induct)
  case (1 msg c needed)
  then show ?case using grow_loop.simps [of msg c needed] by (auto split: if_splits)
qed

lemmas alloc_defs = PgturbohybridBm25ArrayAllocSize_def PgturbohybridBm25BuildArrayAllocSize_def alloc_size_def

section \<open>Properties\<close>

text \<open>
  Growing an array: the new capacity holds what is needed, is the old one doubled some
  number of times and less than twice the need when it had to grow, and its size in bytes stays below
  PostgreSQL's allocation limit; failure happens only for more than \<open>2 ^ 31\<close> elements
  or an allocation beyond that limit.
\<close>

theorem grow_capacity_correct:
  "(\<forall>n. PgturbohybridBm25GrowCapacity32 capacity needed elemSize = Inr n \<longrightarrow>
      needed \<le> n \<and> (\<exists>k. n = max capacity 1 * 2 ^ k) \<and> n < max (max capacity 1 + 1) (2 * needed) \<and> elemSize * n \<le> MaxAllocSize) \<and>
   (\<forall>e. PgturbohybridBm25GrowCapacity32 capacity needed elemSize = Inl e \<longrightarrow>
      needed > 2 ^ 31 \<or> elemSize * max (max capacity 1) (2 * needed) > MaxAllocSize)"
proof (rule conjI; intro allI impI)
  fix n assume "PgturbohybridBm25GrowCapacity32 capacity needed elemSize = Inr n"
  then obtain msg where g: "grow_loop msg (max capacity 1) needed = Inr n" "elemSize = 0 \<or> n \<le> MaxAllocSize div elemSize"
    by (auto simp: PgturbohybridBm25GrowCapacity32_def PgturbohybridBm25ArrayAllocSize_def bindE_Inr_iff alloc_size_Inr)
  then have "elemSize * n \<le> MaxAllocSize"
    by (metis div_times_less_eq_dividend le_trans mult.commute mult_0_right mult_le_mono2 zero_le)
  then show "needed \<le> n \<and> (\<exists>k. n = max capacity 1 * 2 ^ k) \<and> n < max (max capacity 1 + 1) (2 * needed) \<and> elemSize * n \<le> MaxAllocSize"
    using grow_loop_Inr [OF g(1)] by auto
next
  fix e assume e: "PgturbohybridBm25GrowCapacity32 capacity needed elemSize = Inl e"
  let ?g = "grow_loop ''pgturbohybrid BM25 array capacity is too large'' (max capacity 1) needed"
  show "needed > 2 ^ 31 \<or> elemSize * max (max capacity 1) (2 * needed) > MaxAllocSize"
  proof (cases ?g)
    case (Inl x)
    then show ?thesis using grow_loop_Inl by blast
  next
    case (Inr n)
    then have "n > MaxAllocSize div elemSize" "elemSize > 0"
      using e by (auto simp: PgturbohybridBm25GrowCapacity32_def alloc_defs split: if_splits)
    then have "elemSize * n > MaxAllocSize" by (metis div_less_iff_less_mult mult.commute)
    moreover have "n \<le> max (max capacity 1) (2 * needed)" using grow_loop_Inr [OF Inr] by (auto simp: max_def split: if_splits)
    ultimately have "elemSize * max (max capacity 1) (2 * needed) > MaxAllocSize" by (meson less_le_trans mult_le_mono2)
    then show ?thesis ..
  qed
qed

theorem grow_capacity_correct_witness:
  "PgturbohybridBm25GrowCapacity32 16 17 16 = Inr 32 \<and> (17 :: nat) \<le> 32 \<and> 16 * 32 \<le> MaxAllocSize"
proof -
  have "PgturbohybridBm25GrowCapacity32 16 17 16 = Inr 32"
    by (simp add: PgturbohybridBm25GrowCapacity32_def alloc_defs grow_loop.simps MaxAllocSize_def)
  then show ?thesis using grow_capacity_correct [of 16 17 16] by simp
qed

lemma validate_pointers_ok: "validate_pointers bs n = Inr () \<longleftrightarrow> (\<forall>b \<in> set bs. b = InvalidBlockNumber \<or> b < n)"
  by (induction bs) (auto simp: bindE_Inr_iff PgturbohybridBm25ValidateBlockPointer_def)

text \<open>
  Metadata that passes validation is safe to size the caches from: the node and term
  counts are within the limits and the number of tuples the index can hold, the
  documents are no more than the nodes, and every block pointer is unset or inside the
  index; metadata with these properties passes.
\<close>

theorem validate_cache_meta_correct:
  "is_ok (PgturbohybridBm25ValidateCacheMeta nblocks meta tqNodeCount) \<longleftrightarrow>
     unat tqNodeCount \<le> min MAX_NODE_COUNT_FOR_CACHE (unat (max nblocks 1) * MaxOffsetNumber) \<and>
     bm_docCount meta \<le> tqNodeCount \<and>
     unat (bm_termCount meta) \<le> min MAX_TERM_COUNT_FOR_CACHE (unat (max nblocks 1) * MaxOffsetNumber) \<and>
     (\<forall>b \<in> {bm_docStatsStartBlkno meta, bm_lexiconStartBlkno meta, bm_postingsStartBlkno meta,
             bm_blockMaxStartBlkno meta, bm_deltaStartBlkno meta, bm_deltaTermDirectoryBlkno meta}.
        b = InvalidBlockNumber \<or> b < nblocks)"
  by (auto simp: PgturbohybridBm25ValidateCacheMeta_def Let_def is_ok_iff validate_pointers_ok linorder_not_less
      simp del: validate_pointers.simps)

definition demo_meta :: bm25_meta where
  "demo_meta = \<lparr>bm_docCount = 3, bm_termCount = 5, bm_docStatsStartBlkno = 1, bm_lexiconStartBlkno = 2,
     bm_postingsStartBlkno = 3, bm_blockMaxStartBlkno = InvalidBlockNumber, bm_deltaStartBlkno = InvalidBlockNumber,
     bm_deltaTermDirectoryBlkno = InvalidBlockNumber\<rparr>"

theorem validate_cache_meta_correct_witness:
  "is_ok (PgturbohybridBm25ValidateCacheMeta 4 demo_meta 3) \<and> \<not> is_ok (PgturbohybridBm25ValidateCacheMeta 3 demo_meta 3)"
  using validate_cache_meta_correct [of 4 demo_meta 3] validate_cache_meta_correct [of 3 demo_meta 3]
  by (simp add: demo_meta_def MAX_NODE_COUNT_FOR_CACHE_def MAX_TERM_COUNT_FOR_CACHE_def MaxOffsetNumber_def InvalidBlockNumber_def)

end
