(* ===== verification/Hot_Postings_Cache.thy ===== *)
theory Hot_Postings_Cache
  imports Bm25_Codec Bm25_Alloc
begin

text \<open>
  The backend-local cache of decoded postings chunks in
  \<open>src/src/pgturbohybrid_bm25_query.c\<close>: a hash table from chunk pointers to entries whose
  entries are also chained in a doubly linked list in order of use. The entries live in
  an explicit store, because the list operations write through the links of neighbouring
  entries. The module proves that the pointer structure implements a plain list of
  entries, most recently used first, with a byte budget.
\<close>

section \<open>Data\<close>

record PgturbohybridBm25HotPostingsKey =
  k_termId :: u32
  k_blkno :: u32
  k_offno :: u16

type_synonym hotkey = PgturbohybridBm25HotPostingsKey
type_synonym addr = nat

record PgturbohybridBm25HotPostingsEntry =
  he_key :: hotkey
  he_count :: u16
  he_maxTf :: u16
  he_maxTfNormQ16 :: u16
  he_maxScoreFactor :: cdouble
  he_lastNodeId :: u32
  he_nextBlkno :: u32
  he_nextOffno :: u16
  he_bytes :: nat
  he_lastUsed :: u64
  he_postings :: "posting list"
  lruPrev :: "addr option"
  lruNext :: "addr option"

type_synonym hotentry = PgturbohybridBm25HotPostingsEntry

text \<open>
  The part of \<open>PgturbohybridBm25Cache\<close> the hot postings use. \<open>hp_mem\<close> is the memory of the
  cache's context and \<open>hp_brk\<close> the address the next \<open>palloc\<close> returns. The byte counter is a
  \<open>uint64\<close>, its arithmetic is modulo \<open>2 ^ 64\<close>.
\<close>

record hotcache =
  hotPostingsHash :: "(hotkey \<rightharpoonup> addr) option"
  hotPostingsHead :: "addr option"
  hotPostingsTail :: "addr option"
  hotPostingsBytes :: nat
  hotPostingsEvictions :: u64
  hotPostingsClock :: u64
  hp_mem :: "addr \<rightharpoonup> hotentry"
  hp_brk :: addr

record PgturbohybridBm25QueryStats =
  blocksVisited :: nat
  blocksSkipped :: nat
  postingsDecoded :: nat
  hotPostingsCacheHits :: nat
  hotPostingsCacheMisses :: nat
  hotPostingsCacheBytes :: nat
  hotPostingsCacheEvictions :: u64

text \<open>
  The iterator state; \<open>it_termId\<close>, \<open>it_baseDf\<close> and \<open>it_matchBit\<close> are fields of the query term it
  points to. \<open>it_postings\<close> is the initialised part of the postings buffer, which has
  room for \<open>it_postingsCapacity\<close> postings; \<open>it_stats\<close> is \<open>None\<close> for a null statistics pointer.
\<close>

record PgturbohybridBm25PostingIterator =
  it_termId :: u32
  it_baseDf :: u32
  it_matchBit :: u64
  it_idf :: cdouble
  it_avgDocLen :: cdouble
  it_chunkLimit :: u32
  it_chunkNo :: u32
  it_blkno :: u32
  it_offno :: u16
  it_postings :: "posting list"
  it_postingsCapacity :: u16
  it_count :: u16
  it_pos :: u16
  it_maxTf :: u16
  it_maxTfNormQ16 :: u16
  it_maxScoreFactor :: cdouble
  it_lastNodeId :: u32
  it_nextBlkno :: u32
  it_nextOffno :: u16
  it_valid :: bool
  it_stats :: "PgturbohybridBm25QueryStats option"

type_synonym iter = PgturbohybridBm25PostingIterator

record hot_guc =
  hot_postings_cache_mb :: int
  hot_postings_cache_min_df :: int

section \<open>Operations\<close>

definition sizeof_hot_entry :: nat where "sizeof_hot_entry = 80"
definition sizeof_posting :: nat where "sizeof_posting = 8"

definition PgturbohybridBm25HotPostingsCacheLimitBytes :: "hot_guc \<Rightarrow> nat" where
  "PgturbohybridBm25HotPostingsCacheLimitBytes g =
     (if hot_postings_cache_mb g \<le> 0 then 0 else nat (hot_postings_cache_mb g) * 1024 * 1024)"

definition PgturbohybridBm25HotPostingsCacheEligible :: "hot_guc \<Rightarrow> bool \<Rightarrow> iter \<Rightarrow> u16 \<Rightarrow> bool" where
  "PgturbohybridBm25HotPostingsCacheEligible g has_cache it tupleEncoding =
     (let encoding = tupleEncoding AND ENCODING_MASK in
      PgturbohybridBm25HotPostingsCacheLimitBytes g > 0 \<and> has_cache \<and>
      it_baseDf it \<ge> word_of_int (hot_postings_cache_min_df g) \<and>
      (encoding = ENCODING_OFFSET16 \<or> encoding = ENCODING_OFFSET16_SOA) \<and>
      tupleEncoding AND ENCODING_TFNORM_Q16 \<noteq> 0)"

definition PgturbohybridBm25HotPostingsCacheKey :: "iter \<Rightarrow> u32 \<Rightarrow> u16 \<Rightarrow> hotkey" where
  "PgturbohybridBm25HotPostingsCacheKey it blkno offno =
     \<lparr>k_termId = it_termId it, k_blkno = blkno, k_offno = offno\<rparr>"

definition PgturbohybridBm25HotPostingsCacheHash :: "hotcache \<Rightarrow> hotcache" where
  "PgturbohybridBm25HotPostingsCacheHash c =
     (if hotPostingsHash c \<noteq> None then c else c\<lparr>hotPostingsHash := Some (\<lambda>_. None)\<rparr>)"

text \<open>Writing a field of the entry at an address.\<close>

definition upd_entry :: "addr \<Rightarrow> (hotentry \<Rightarrow> hotentry) \<Rightarrow> hotcache \<Rightarrow> hotcache" where
  "upd_entry a f c = c\<lparr>hp_mem := (hp_mem c)(a := map_option f (hp_mem c a))\<rparr>"

definition PgturbohybridBm25HotPostingsCacheLruRemove :: "hotcache \<Rightarrow> addr \<Rightarrow> hotcache" where
  "PgturbohybridBm25HotPostingsCacheLruRemove c entry =
     (case hp_mem c entry of None \<Rightarrow> c
      | Some e \<Rightarrow>
        (let c1 = (case lruPrev e of
                     Some p \<Rightarrow> upd_entry p (lruNext_update (\<lambda>_. lruNext e)) c
                   | None \<Rightarrow> c\<lparr>hotPostingsHead := lruNext e\<rparr>);
             c2 = (case lruNext e of
                     Some n \<Rightarrow> upd_entry n (lruPrev_update (\<lambda>_. lruPrev e)) c1
                   | None \<Rightarrow> c1\<lparr>hotPostingsTail := lruPrev e\<rparr>)
         in upd_entry entry (\<lambda>e. e\<lparr>lruPrev := None, lruNext := None\<rparr>) c2))"

definition PgturbohybridBm25HotPostingsCacheLruPushHead :: "hotcache \<Rightarrow> addr \<Rightarrow> hotcache" where
  "PgturbohybridBm25HotPostingsCacheLruPushHead c entry =
     (let c1 = upd_entry entry (\<lambda>e. e\<lparr>lruPrev := None, lruNext := hotPostingsHead c\<rparr>) c;
          c2 = (case hotPostingsHead c of
                  Some h \<Rightarrow> upd_entry h (lruPrev_update (\<lambda>_. Some entry)) c1
                | None \<Rightarrow> c1\<lparr>hotPostingsTail := Some entry\<rparr>)
      in c2\<lparr>hotPostingsHead := Some entry\<rparr>)"

definition PgturbohybridBm25HotPostingsCacheLruTouch :: "hotcache \<Rightarrow> addr \<Rightarrow> hotcache" where
  "PgturbohybridBm25HotPostingsCacheLruTouch c entry =
     (let clock = hotPostingsClock c + 1;
          c1 = upd_entry entry (he_lastUsed_update (\<lambda>_. clock)) (c\<lparr>hotPostingsClock := clock\<rparr>)
      in if hotPostingsHead c1 = Some entry then c1
         else PgturbohybridBm25HotPostingsCacheLruPushHead
                (PgturbohybridBm25HotPostingsCacheLruRemove c1 entry) entry)"

definition publish_stats :: "hotcache \<Rightarrow> PgturbohybridBm25QueryStats \<Rightarrow> PgturbohybridBm25QueryStats" where
  "publish_stats c s = s\<lparr>hotPostingsCacheBytes := hotPostingsBytes c,
                         hotPostingsCacheEvictions := hotPostingsEvictions c\<rparr>"

definition hot_miss :: "hotcache \<Rightarrow> iter \<Rightarrow> iter" where
  "hot_miss c it = it\<lparr>it_stats := map_option
      (\<lambda>s. publish_stats c (s\<lparr>hotPostingsCacheMisses := hotPostingsCacheMisses s + 1\<rparr>)) (it_stats it)\<rparr>"

definition hot_fill :: "hotentry \<Rightarrow> iter \<Rightarrow> iter" where
  "hot_fill e it = it\<lparr>
     it_postingsCapacity := (if it_postingsCapacity it < he_count e then he_count e else it_postingsCapacity it),
     it_postings := he_postings e,
     it_count := he_count e,
     it_lastNodeId := he_lastNodeId e,
     it_maxTf := he_maxTf e,
     it_maxTfNormQ16 := he_maxTfNormQ16 e,
     it_maxScoreFactor := he_maxScoreFactor e,
     it_nextBlkno := he_nextBlkno e,
     it_nextOffno := he_nextOffno e,
     it_blkno := he_nextBlkno e,
     it_offno := he_nextOffno e,
     it_chunkNo := it_chunkNo it + 1,
     it_valid := he_count e > 0\<rparr>"

definition PgturbohybridBm25HotPostingsCacheLookup ::
    "hot_guc \<Rightarrow> hotcache option \<Rightarrow> iter \<Rightarrow> u32 \<Rightarrow> u16 \<Rightarrow> bool \<times> hotcache option \<times> iter" where
  "PgturbohybridBm25HotPostingsCacheLookup g cache it blkno offno =
     (case cache of None \<Rightarrow> (False, cache, it)
      | Some c \<Rightarrow>
        if PgturbohybridBm25HotPostingsCacheLimitBytes g = 0 \<or>
           it_baseDf it < word_of_int (hot_postings_cache_min_df g)
        then (False, cache, it)
        else case hotPostingsHash c of
          None \<Rightarrow> (False, cache, hot_miss c it)
        | Some h \<Rightarrow>
          (case h (PgturbohybridBm25HotPostingsCacheKey it blkno offno) of
             None \<Rightarrow> (False, cache, hot_miss c it)
           | Some a \<Rightarrow>
             (case hp_mem c a of
                None \<Rightarrow> (False, cache, it)
              | Some e \<Rightarrow>
                (let it1 = hot_fill e it;
                     c1 = PgturbohybridBm25HotPostingsCacheLruTouch c a;
                     it2 = it1\<lparr>it_stats := map_option (\<lambda>s. publish_stats c1
                              (s\<lparr>hotPostingsCacheHits := hotPostingsCacheHits s + 1\<rparr>)) (it_stats it1)\<rparr>
                 in (it_valid it2, Some c1, it2)))))"

definition PgturbohybridBm25HotPostingsCacheFreeEntry :: "hotcache \<Rightarrow> addr option \<Rightarrow> bool \<Rightarrow> hotcache" where
  "PgturbohybridBm25HotPostingsCacheFreeEntry c entry countEviction =
     (case entry of None \<Rightarrow> c
      | Some a \<Rightarrow> (case hp_mem c a of None \<Rightarrow> c
         | Some e \<Rightarrow>
           (let c1 = c\<lparr>hotPostingsHash := map_option (\<lambda>h. h(he_key e := None)) (hotPostingsHash c)\<rparr>;
                c2 = PgturbohybridBm25HotPostingsCacheLruRemove c1 a;
                c3 = c2\<lparr>hotPostingsBytes := hotPostingsBytes c2 - min (hotPostingsBytes c2) (he_bytes e)\<rparr>;
                c4 = (if countEviction then c3\<lparr>hotPostingsEvictions := hotPostingsEvictions c3 + 1\<rparr> else c3)
            in c4\<lparr>hp_mem := (hp_mem c4)(a := None)\<rparr>)))"

definition PgturbohybridBm25HotPostingsCacheEvictOne :: "hotcache \<Rightarrow> hotcache" where
  "PgturbohybridBm25HotPostingsCacheEvictOne c =
     PgturbohybridBm25HotPostingsCacheFreeEntry c (hotPostingsTail c) True"

definition over_limit :: "hotcache \<Rightarrow> nat \<Rightarrow> nat \<Rightarrow> bool" where
  "over_limit c bytes limit = ((hotPostingsBytes c + bytes) mod 2 ^ 64 > limit)"

text \<open>The eviction loop; \<open>hot_evict_total\<close> below shows that the number of addresses handed out is enough fuel.\<close>

fun evict_loop :: "nat \<Rightarrow> hotcache \<Rightarrow> nat \<Rightarrow> nat \<Rightarrow> hotcache option" where
  "evict_loop 0 c bytes limit = None"
| "evict_loop (Suc fuel) c bytes limit =
     (if over_limit c bytes limit \<and> hotPostingsTail c \<noteq> None
      then evict_loop fuel (PgturbohybridBm25HotPostingsCacheEvictOne c) bytes limit
      else Some c)"

definition new_entry :: "iter \<Rightarrow> hotkey \<Rightarrow> nat \<Rightarrow> u64 \<Rightarrow> hotentry" where
  "new_entry it key bytes clock =
     \<lparr>he_key = key, he_count = it_count it, he_maxTf = it_maxTf it, he_maxTfNormQ16 = it_maxTfNormQ16 it,
      he_maxScoreFactor = it_maxScoreFactor it, he_lastNodeId = it_lastNodeId it,
      he_nextBlkno = it_nextBlkno it, he_nextOffno = it_nextOffno it, he_bytes = bytes,
      he_lastUsed = clock, he_postings = take (unat (it_count it)) (it_postings it),
      lruPrev = None, lruNext = None\<rparr>"

definition insert_entry :: "hotcache \<Rightarrow> iter \<Rightarrow> hotkey \<Rightarrow> nat \<Rightarrow> hotcache" where
  "insert_entry c it key bytes =
     (let clock = hotPostingsClock c + 1; a = hp_brk c;
          c1 = c\<lparr>hotPostingsClock := clock, hp_brk := a + 1,
                 hp_mem := (hp_mem c)(a \<mapsto> new_entry it key bytes clock),
                 hotPostingsHash := map_option (\<lambda>h. h(key \<mapsto> a)) (hotPostingsHash c)\<rparr>;
          c2 = PgturbohybridBm25HotPostingsCacheLruPushHead c1 a
      in c2\<lparr>hotPostingsBytes := (hotPostingsBytes c2 + bytes) mod 2 ^ 64\<rparr>)"

definition hot_entry_bytes :: "nat \<Rightarrow> nat res" where
  "hot_entry_bytes n = bindE (PgturbohybridBm25ArrayAllocSize sizeof_posting n)
     (\<lambda>sz. Inr (MAXALIGN sizeof_hot_entry + MAXALIGN sz))"

definition PgturbohybridBm25HotPostingsCacheStore ::
    "hot_guc \<Rightarrow> hotcache option \<Rightarrow> iter \<Rightarrow> u32 \<Rightarrow> u16 \<Rightarrow> u16 \<Rightarrow> (hotcache option \<times> iter) res" where
  "PgturbohybridBm25HotPostingsCacheStore g cache it blkno offno tupleEncoding =
     (let limitBytes = PgturbohybridBm25HotPostingsCacheLimitBytes g in
      case cache of None \<Rightarrow> Inr (cache, it)
      | Some c \<Rightarrow>
        if \<not> PgturbohybridBm25HotPostingsCacheEligible g (cache \<noteq> None) it tupleEncoding \<or> it_count it = 0
        then Inr (cache, it)
        else bindE (hot_entry_bytes (unat (it_count it))) (\<lambda>bytes.
          if bytes > limitBytes then Inr (cache, it)
          else
            (let key = PgturbohybridBm25HotPostingsCacheKey it blkno offno;
                 c1 = PgturbohybridBm25HotPostingsCacheHash c;
                 c2 = PgturbohybridBm25HotPostingsCacheFreeEntry c1 (the (hotPostingsHash c1) key) False
             in case evict_loop (hp_brk c2 + 1) c2 bytes limitBytes of
                  None \<Rightarrow> elog ''eviction does not end''
                | Some c3 \<Rightarrow>
                  if over_limit c3 bytes limitBytes then Inr (Some c3, it)
                  else let c4 = insert_entry c3 it key bytes
                       in Inr (Some c4, it\<lparr>it_stats := map_option
                            (hotPostingsCacheBytes_update (\<lambda>_. hotPostingsBytes c4)) (it_stats it)\<rparr>))))"

definition PgturbohybridBm25PublishHotPostingsCacheStats ::
    "hotcache option \<Rightarrow> PgturbohybridBm25QueryStats option \<Rightarrow> PgturbohybridBm25QueryStats option" where
  "PgturbohybridBm25PublishHotPostingsCacheStats cache stats =
     (case cache of None \<Rightarrow> stats | Some c \<Rightarrow> map_option (publish_stats c) stats)"

section \<open>The linked list as a list of addresses\<close>

definition first_of :: "addr list \<Rightarrow> addr option \<Rightarrow> addr option" where
  "first_of xs n = (case xs of [] \<Rightarrow> n | a # _ \<Rightarrow> Some a)"

definition last_of :: "addr option \<Rightarrow> addr list \<Rightarrow> addr option" where
  "last_of p xs = (if xs = [] then p else Some (last xs))"

lemma first_last_simps [simp]:
  "first_of [] n = n" "first_of (a # xs) n = Some a" "last_of p [] = p"
  "last_of p (xs @ [a]) = Some a" "last_of p (a # xs) = last_of (Some a) xs"
  "first_of (xs @ ys) n = first_of xs (first_of ys n)"
  "last_of p (xs @ ys) = last_of (last_of p xs) ys"
  by (auto simp: first_of_def last_of_def split: list.splits)

fun lseg :: "(addr \<rightharpoonup> hotentry) \<Rightarrow> addr option \<Rightarrow> addr list \<Rightarrow> addr option \<Rightarrow> bool" where
  "lseg m p [] n = True"
| "lseg m p (a # xs) n =
     (\<exists>e. m a = Some e \<and> lruPrev e = p \<and> lruNext e = first_of xs n \<and> lseg m (Some a) xs n)"

lemma lseg_append:
  "lseg m p (xs @ ys) n \<longleftrightarrow> lseg m p xs (first_of ys n) \<and> lseg m (last_of p xs) ys n"
  by (induction xs arbitrary: p) (auto simp: last_of_def)

lemma lseg_frame: "(\<And>a. a \<in> set xs \<Longrightarrow> m' a = m a) \<Longrightarrow> lseg m' p xs n = lseg m p xs n"
  by (induction xs arbitrary: p) auto

lemma lseg_frame_upd [simp]: "a \<notin> set xs \<Longrightarrow> lseg (m(a := v)) p xs n = lseg m p xs n"
  by (rule lseg_frame) auto

lemma lseg_dom: "lseg m p xs n \<Longrightarrow> a \<in> set xs \<Longrightarrow> \<exists>e. m a = Some e"
  by (induction xs arbitrary: p) auto

lemma lseg_set_prev:
  "lseg m p (a # xs) n \<Longrightarrow> a \<notin> set xs \<Longrightarrow>
   lseg (m(a := map_option (lruPrev_update (\<lambda>_. p')) (m a))) p' (a # xs) n"
  by auto

lemma lseg_set_next:
  "lseg m p (xs @ [a]) n \<Longrightarrow> a \<notin> set xs \<Longrightarrow>
   lseg (m(a := map_option (lruNext_update (\<lambda>_. n')) (m a))) p (xs @ [a]) n'"
  by (auto simp: lseg_append)

text \<open>The contents of an entry apart from its links and its time stamp never change.\<close>

definition payload :: "hotentry \<Rightarrow> hotentry" where
  "payload e = e\<lparr>lruPrev := None, lruNext := None\<rparr>"

definition entry_at :: "hotcache \<Rightarrow> addr \<Rightarrow> hotentry option" where
  "entry_at c a = map_option payload (hp_mem c a)"

lemma payload_link_simps [simp]:
  "payload (lruPrev_update f e) = payload e" "payload (lruNext_update f e) = payload e"
  "he_key (payload e) = he_key e" "he_bytes (payload e) = he_bytes e"
  "he_count (payload e) = he_count e" "he_postings (payload e) = he_postings e"
  "he_lastUsed (payload e) = he_lastUsed e"
  "payload (payload e) = payload e"
  by (cases e; simp add: payload_def)+

lemma entry_at_upd_entry:
  "entry_at (upd_entry b f c) a = (if a = b then map_option (payload \<circ> f) (hp_mem c a) else entry_at c a)"
  by (simp add: entry_at_def upd_entry_def map_option.compositionality)

lemma upd_entry_sel [simp]:
  "hotPostingsHash (upd_entry a f c) = hotPostingsHash c"
  "hotPostingsHead (upd_entry a f c) = hotPostingsHead c"
  "hotPostingsTail (upd_entry a f c) = hotPostingsTail c"
  "hotPostingsBytes (upd_entry a f c) = hotPostingsBytes c"
  "hotPostingsEvictions (upd_entry a f c) = hotPostingsEvictions c"
  "hotPostingsClock (upd_entry a f c) = hotPostingsClock c"
  "hp_brk (upd_entry a f c) = hp_brk c"
  "hp_mem (upd_entry a f c) = (hp_mem c)(a := map_option f (hp_mem c a))"
  by (simp_all add: upd_entry_def)

text \<open>The list from head to tail is \<open>xs\<close>.\<close>

definition chain :: "hotcache \<Rightarrow> addr list \<Rightarrow> bool" where
  "chain c xs \<longleftrightarrow> distinct xs \<and> lseg (hp_mem c) None xs None \<and>
     hotPostingsHead c = first_of xs None \<and> hotPostingsTail c = last_of None xs"

definition same_but_links :: "hotcache \<Rightarrow> hotcache \<Rightarrow> bool" where
  "same_but_links c c' \<longleftrightarrow> entry_at c' = entry_at c \<and> hotPostingsHash c' = hotPostingsHash c \<and>
     hotPostingsBytes c' = hotPostingsBytes c \<and> hotPostingsEvictions c' = hotPostingsEvictions c \<and>
     hotPostingsClock c' = hotPostingsClock c \<and> hp_brk c' = hp_brk c"

lemma lru_remove_links: "same_but_links c (PgturbohybridBm25HotPostingsCacheLruRemove c a)"
  by (auto simp: same_but_links_def PgturbohybridBm25HotPostingsCacheLruRemove_def Let_def entry_at_def
      fun_eq_iff option.map_comp o_def split: option.splits)

lemma lru_push_links: "same_but_links c (PgturbohybridBm25HotPostingsCacheLruPushHead c a)"
  by (auto simp: same_but_links_def PgturbohybridBm25HotPostingsCacheLruPushHead_def Let_def entry_at_def
      fun_eq_iff option.map_comp o_def split: option.splits)

lemma lru_remove_chain:
  assumes "chain c (xs @ a # ys)"
  shows "chain (PgturbohybridBm25HotPostingsCacheLruRemove c a) (xs @ ys)"
proof -
  from assms obtain e where e: "hp_mem c a = Some e" "lruPrev e = last_of None xs" "lruNext e = first_of ys None"
    and seg: "lseg (hp_mem c) None xs (Some a)" "lseg (hp_mem c) (Some a) ys None"
    and d: "distinct (xs @ a # ys)"
    and ht: "hotPostingsHead c = first_of (xs @ a # ys) None" "hotPostingsTail c = last_of None (xs @ a # ys)"
    by (auto simp: chain_def lseg_append)
  show ?thesis
  proof (cases xs rule: rev_cases)
    case Nil
    show ?thesis
    proof (cases ys)
      case Nil
      with \<open>xs = []\<close> e show ?thesis
        by (simp add: chain_def PgturbohybridBm25HotPostingsCacheLruRemove_def)
    next
      case (Cons y ys')
      with \<open>xs = []\<close> e seg d ht show ?thesis
        by (auto simp: chain_def PgturbohybridBm25HotPostingsCacheLruRemove_def)
    qed
  next
    case (snoc xs' x)
    show ?thesis
    proof (cases ys)
      case Nil
      with snoc e seg d ht show ?thesis
        by (auto simp: chain_def PgturbohybridBm25HotPostingsCacheLruRemove_def lseg_append)
    next
      case (Cons y ys')
      with snoc e seg d ht show ?thesis
        by (auto simp: chain_def PgturbohybridBm25HotPostingsCacheLruRemove_def lseg_append)
    qed
  qed
qed

lemma lru_push_chain:
  assumes "chain c xs" "a \<notin> set xs" "hp_mem c a = Some e"
  shows "chain (PgturbohybridBm25HotPostingsCacheLruPushHead c a) (a # xs)"
  using assms by (cases xs) (auto simp: chain_def PgturbohybridBm25HotPostingsCacheLruPushHead_def Let_def)


section \<open>Invariant\<close>

definition entries :: "hotcache \<Rightarrow> addr list \<Rightarrow> hotentry list" where
  "entries c xs = map (\<lambda>a. the (entry_at c a)) xs"

definition total_bytes :: "hotentry list \<Rightarrow> nat" where
  "total_bytes es = sum_list (map he_bytes es)"

definition entry_ok :: "hotentry \<Rightarrow> bool" where
  "entry_ok e \<longleftrightarrow> he_count e > 0 \<and> length (he_postings e) = unat (he_count e) \<and>
     hot_entry_bytes (unat (he_count e)) = Inr (he_bytes e)"

definition hash_ok :: "hotcache \<Rightarrow> addr list \<Rightarrow> bool" where
  "hash_ok c xs = (case hotPostingsHash c of None \<Rightarrow> xs = []
     | Some h \<Rightarrow> (\<forall>k a. h k = Some a \<longleftrightarrow> a \<in> set xs \<and> (\<exists>e. entry_at c a = Some e \<and> he_key e = k)))"

text \<open>The largest budget a setting can give: 65536 MB.\<close>

definition max_limit :: nat where "max_limit = 65536 * 1024 * 1024"

definition guc_ok :: "hot_guc \<Rightarrow> bool" where
  "guc_ok g \<longleftrightarrow> hot_postings_cache_mb g \<le> 65536"

definition hot_inv :: "hotcache \<Rightarrow> addr list \<Rightarrow> bool" where
  "hot_inv c xs \<longleftrightarrow> chain c xs \<and> dom (hp_mem c) = set xs \<and> (\<forall>a \<in> set xs. a < hp_brk c) \<and> hash_ok c xs \<and>
     hotPostingsBytes c = total_bytes (entries c xs) \<and> hotPostingsBytes c \<le> max_limit \<and>
     (\<forall>e \<in> set (entries c xs). entry_ok e)"

lemma dom_hp_mem: "dom (hp_mem c) = dom (entry_at c)"
  by (auto simp: entry_at_def dom_def)

lemma same_but_links_inv:
  "same_but_links c c' \<Longrightarrow> entries c' xs = entries c xs \<and> hash_ok c' xs = hash_ok c xs \<and> dom (hp_mem c') = dom (hp_mem c)"
  by (cases "hotPostingsHash c") (simp_all add: same_but_links_def entries_def hash_ok_def dom_hp_mem)

lemma hot_inv_entry:
  "hot_inv c xs \<Longrightarrow> a \<in> set xs \<Longrightarrow> \<exists>e. hp_mem c a = Some e \<and> entry_at c a = Some (payload e)"
proof -
  assume "hot_inv c xs" "a \<in> set xs"
  then have "a \<in> dom (hp_mem c)" by (simp add: hot_inv_def)
  then obtain e where "hp_mem c a = Some e" by blast
  then show ?thesis by (simp add: entry_at_def)
qed

lemma hot_inv_keys_distinct:
  assumes "hot_inv c xs"
  shows "distinct (map he_key (entries c xs))"
proof -
  have "inj_on (\<lambda>a. he_key (the (entry_at c a))) (set xs)"
  proof (rule inj_onI)
    fix a b assume ab: "a \<in> set xs" "b \<in> set xs" "he_key (the (entry_at c a)) = he_key (the (entry_at c b))"
    obtain h where h: "hotPostingsHash c = Some h" using assms ab by (auto simp: hot_inv_def hash_ok_def split: option.splits)
    have "h (he_key (the (entry_at c x))) = Some x" if "x \<in> set xs" for x
      using assms that hot_inv_entry [OF assms that] h by (auto simp: hot_inv_def hash_ok_def)
    from this [OF ab(1)] this [OF ab(2)] show "a = b" unfolding ab(3) by (metis option.inject)
  qed
  then show ?thesis using assms
    by (simp add: entries_def hot_inv_def chain_def distinct_map comp_def)
qed

lemma total_bytes_simps [simp]:
  "total_bytes [] = 0" "total_bytes (e # es) = he_bytes e + total_bytes es"
  "total_bytes (es @ fs) = total_bytes es + total_bytes fs"
  by (simp_all add: total_bytes_def)

lemma entries_simps [simp]:
  "entries c [] = []" "entries c (xs @ ys) = entries c xs @ entries c ys"
  "entries c (a # xs) = the (entry_at c a) # entries c xs"
  by (simp_all add: entries_def)

lemma total_bytes_mono: "total_bytes (filter P es) \<le> total_bytes es"
  by (induction es) auto

section \<open>Every operation implements the list operation\<close>

text \<open>Freeing an entry removes it from the list and returns its bytes to the budget.\<close>

lemma free_entry_inv:
  assumes inv: "hot_inv c (xs @ a # ys)"
  shows "hot_inv (PgturbohybridBm25HotPostingsCacheFreeEntry c (Some a) ev) (xs @ ys)"
    and "entries (PgturbohybridBm25HotPostingsCacheFreeEntry c (Some a) ev) (xs @ ys) = entries c (xs @ ys)"
    and "hp_brk (PgturbohybridBm25HotPostingsCacheFreeEntry c (Some a) ev) = hp_brk c"
    and "hotPostingsClock (PgturbohybridBm25HotPostingsCacheFreeEntry c (Some a) ev) = hotPostingsClock c"
    and "hotPostingsHash c \<noteq> None \<Longrightarrow> hotPostingsHash (PgturbohybridBm25HotPostingsCacheFreeEntry c (Some a) ev) \<noteq> None"
proof -
  let ?f = "PgturbohybridBm25HotPostingsCacheFreeEntry c (Some a) ev"
  obtain e where e: "hp_mem c a = Some e" "entry_at c a = Some (payload e)"
    using hot_inv_entry [OF inv, of a] by auto
  define c1 where "c1 = c\<lparr>hotPostingsHash := map_option (\<lambda>h. h(he_key e := None)) (hotPostingsHash c)\<rparr>"
  define c2 where "c2 = PgturbohybridBm25HotPostingsCacheLruRemove c1 a"
  have links: "same_but_links c1 c2" by (simp add: c2_def lru_remove_links)
  have ch: "chain c2 (xs @ ys)" using inv lru_remove_chain [of c1 xs a ys]
    by (simp add: c2_def c1_def hot_inv_def chain_def)
  have e1: "entry_at c1 = entry_at c" by (simp add: c1_def entry_at_def fun_eq_iff)
  have d: "distinct (xs @ a # ys)" using inv by (simp add: hot_inv_def chain_def)
  have f: "hp_mem ?f = (hp_mem c2)(a := None)" "hotPostingsHead ?f = hotPostingsHead c2"
    "hotPostingsTail ?f = hotPostingsTail c2" "hotPostingsHash ?f = hotPostingsHash c1"
    "hotPostingsBytes ?f = hotPostingsBytes c - min (hotPostingsBytes c) (he_bytes e)"
    "hp_brk ?f = hp_brk c" "hotPostingsClock ?f = hotPostingsClock c"
    using links e unfolding same_but_links_def
    by (simp_all add: PgturbohybridBm25HotPostingsCacheFreeEntry_def Let_def flip: c1_def c2_def) (simp_all add: c1_def)
  have ef: "entry_at ?f = (entry_at c)(a := None)"
    using links e1 f(1) by (auto simp: entry_at_def same_but_links_def fun_eq_iff)
  show ent: "entries ?f (xs @ ys) = entries c (xs @ ys)"
    using d by (auto simp: entries_def ef)
  have seg: "chain ?f (xs @ ys)" using ch d by (auto simp: chain_def f lseg_append)
  have hash: "hash_ok ?f (xs @ ys)"
  proof (cases "hotPostingsHash c")
    case None
    then show ?thesis using inv by (simp add: hot_inv_def hash_ok_def)
  next
    case (Some h)
    then have "\<forall>k b. h k = Some b \<longleftrightarrow> b \<in> set (xs @ a # ys) \<and> (\<exists>e. entry_at c b = Some e \<and> he_key e = k)"
      using inv by (simp add: hot_inv_def hash_ok_def)
    then have hk: "h k = Some b \<longleftrightarrow> b \<in> set (xs @ a # ys) \<and> (\<exists>e. entry_at c b = Some e \<and> he_key e = k)" for k b by blast
    have hf: "hotPostingsHash ?f = Some (h(he_key e := None))" using f Some by (simp add: c1_def)
    have ha: "h (he_key e) = Some a" using hk [of "he_key e" a] e by simp
    have "(h(he_key e := None)) k = Some b \<longleftrightarrow> b \<in> set (xs @ ys) \<and> (\<exists>e. entry_at ?f b = Some e \<and> he_key e = k)" for k b
      using hk [of k b] ha d e(2) by (auto simp: ef)
    then show ?thesis by (simp add: hash_ok_def hf)
  qed
  have dom: "dom (hp_mem ?f) = set (xs @ ys)" using inv d
    by (auto simp: dom_hp_mem ef hot_inv_def)
  have by1: "hotPostingsBytes ?f = total_bytes (entries c (xs @ ys))" "hotPostingsBytes ?f \<le> max_limit"
    using inv e f(5) by (auto simp: hot_inv_def)
  show "hot_inv ?f (xs @ ys)" using inv seg hash dom by1 f(6)
    unfolding hot_inv_def ent by auto
  show "hp_brk ?f = hp_brk c" "hotPostingsClock ?f = hotPostingsClock c" by (fact f)+
  show "hotPostingsHash c \<noteq> None \<Longrightarrow> hotPostingsHash ?f \<noteq> None" by (auto simp: f c1_def)
qed


text \<open>Relinking keeps the invariant as long as the same entries are on the list.\<close>

lemma total_bytes_mset: "mset xs = mset ys \<Longrightarrow> total_bytes (entries c xs) = total_bytes (entries c ys)"
proof -
  assume m: "mset xs = mset ys"
  have "total_bytes (entries c zs) = sum_mset (image_mset (\<lambda>a. he_bytes (the (entry_at c a))) (mset zs))" for zs
    by (induction zs) simp_all
  then show ?thesis using m by simp
qed

lemma hot_inv_relink:
  assumes "hot_inv c xs" "same_but_links c c'" "chain c' ys" "mset ys = mset xs"
  shows "hot_inv c' ys"
proof -
  have set: "set ys = set xs" using assms(4) by (metis set_mset_mset)
  have "hash_ok c ys = hash_ok c xs" using set assms(4) by (auto simp: hash_ok_def split: option.splits)
  moreover have "set (entries c ys) = set (entries c xs)" using set by (simp add: entries_def)
  ultimately show ?thesis
    using assms total_bytes_mset [OF assms(4)] same_but_links_inv [OF assms(2), of ys] set
    by (simp add: hot_inv_def same_but_links_def)
qed

lemma lseg_upd_payload:
  assumes "\<And>e. lruPrev (f e) = lruPrev e \<and> lruNext (f e) = lruNext e"
  shows "lseg (m(a := map_option f (m a))) p xs n = lseg m p xs n"
  using assms by (induction xs arbitrary: p) auto

lemma payload_lastUsed [simp]: "payload (he_lastUsed_update f e) = he_lastUsed_update f (payload e)"
  by (cases e) (simp add: payload_def)

lemma entry_ok_lastUsed [simp]: "entry_ok (he_lastUsed_update f e) = entry_ok e"
  by (simp add: entry_ok_def)

text \<open>Stamping an entry changes its time of use only.\<close>

definition stamp :: "u64 \<Rightarrow> addr \<Rightarrow> hotcache \<Rightarrow> hotcache" where
  "stamp t a c = upd_entry a (he_lastUsed_update (\<lambda>_. t)) (c\<lparr>hotPostingsClock := t\<rparr>)"

lemma entry_at_stamp:
  "entry_at (stamp t a c) b = (if b = a then map_option (he_lastUsed_update (\<lambda>_. t)) (entry_at c a) else entry_at c b)"
  by (simp add: stamp_def entry_at_def option.map_comp o_def)

lemma stamp_inv:
  assumes "hot_inv c xs"
  shows "hot_inv (stamp t a c) xs"
proof -
  have ent: "map he_bytes (entries (stamp t a c) xs) = map he_bytes (entries c xs)"
    using hot_inv_entry [OF assms] by (force simp: entries_def entry_at_stamp)
  have ok: "\<forall>e \<in> set (entries (stamp t a c) xs). entry_ok e"
  proof
    fix e assume "e \<in> set (entries (stamp t a c) xs)"
    then obtain b where b: "b \<in> set xs" "e = the (entry_at (stamp t a c) b)" by (auto simp: entries_def)
    then have "entry_ok (the (entry_at c b))" using assms by (auto simp: hot_inv_def entries_def)
    then show "entry_ok e" using b hot_inv_entry [OF assms b(1)] by (auto simp: entry_at_stamp)
  qed
  have h: "hash_ok (stamp t a c) xs = hash_ok c xs"
  proof -
    have "hotPostingsHash (stamp t a c) = hotPostingsHash c" by (simp add: stamp_def)
    moreover have "(\<exists>e. entry_at (stamp t a c) b = Some e \<and> he_key e = k) = (\<exists>e. entry_at c b = Some e \<and> he_key e = k)" for b k
      by (cases "entry_at c a") (auto simp: entry_at_stamp)
    ultimately show ?thesis by (cases "hotPostingsHash c") (simp_all add: hash_ok_def)
  qed
  have "chain (stamp t a c) xs" using assms by (simp add: hot_inv_def chain_def stamp_def lseg_upd_payload)
  moreover have "dom (hp_mem (stamp t a c)) = dom (hp_mem c)" by (auto simp: stamp_def)
  moreover have "hotPostingsBytes (stamp t a c) = hotPostingsBytes c" "hp_brk (stamp t a c) = hp_brk c"
    by (simp_all add: stamp_def)
  ultimately show ?thesis using assms ok ent h by (simp add: hot_inv_def total_bytes_def)
qed

lemma touch_unfold:
  "PgturbohybridBm25HotPostingsCacheLruTouch c a =
     (let c1 = stamp (hotPostingsClock c + 1) a c in
      if hotPostingsHead c1 = Some a then c1
      else PgturbohybridBm25HotPostingsCacheLruPushHead (PgturbohybridBm25HotPostingsCacheLruRemove c1 a) a)"
  by (simp add: PgturbohybridBm25HotPostingsCacheLruTouch_def stamp_def Let_def)

lemma same_but_links_trans: "same_but_links c d \<Longrightarrow> same_but_links d e \<Longrightarrow> same_but_links c e"
  by (simp add: same_but_links_def)

lemma same_but_links_refl [simp]: "same_but_links c c"
  by (simp add: same_but_links_def)

lemma touch_inv:
  assumes inv: "hot_inv c (xs @ a # ys)"
  defines "c1 \<equiv> stamp (hotPostingsClock c + 1) a c"
  shows "hot_inv (PgturbohybridBm25HotPostingsCacheLruTouch c a) (a # xs @ ys) \<and>
    same_but_links c1 (PgturbohybridBm25HotPostingsCacheLruTouch c a)"
proof -
  have inv1: "hot_inv c1 (xs @ a # ys)" using stamp_inv [OF inv] by (simp add: c1_def)
  then have ch: "chain c1 (xs @ a # ys)" by (simp add: hot_inv_def)
  show ?thesis
  proof (cases "hotPostingsHead c1 = Some a")
    case True
    then have "xs = []" using ch by (cases xs) (auto simp: chain_def)
    then show ?thesis using inv1 True by (simp add: touch_unfold Let_def flip: c1_def)
  next
    case False
    let ?r = "PgturbohybridBm25HotPostingsCacheLruRemove c1 a"
    let ?p = "PgturbohybridBm25HotPostingsCacheLruPushHead ?r a"
    have links: "same_but_links c1 ?r" "same_but_links c1 ?p"
      using lru_remove_links lru_push_links same_but_links_trans by blast+
    have "chain ?r (xs @ ys)" by (rule lru_remove_chain [OF ch])
    moreover have "a \<notin> set (xs @ ys)" using ch by (auto simp: chain_def)
    moreover have "a \<in> dom (hp_mem ?r)" using inv1 same_but_links_inv [OF links(1)] by (auto simp: hot_inv_def)
    ultimately have "chain ?p (a # xs @ ys)" using lru_push_chain by blast
    then have "hot_inv ?p (a # xs @ ys)" using hot_inv_relink [OF inv1 links(2)] by simp
    then show ?thesis using False links by (simp add: touch_unfold Let_def flip: c1_def)
  qed
qed

section \<open>The list of entries as a specification\<close>

definition lru_use :: "hotkey \<Rightarrow> u64 \<Rightarrow> hotentry list \<Rightarrow> hotentry list" where
  "lru_use k t es = map (he_lastUsed_update (\<lambda>_. t)) (filter (\<lambda>e. he_key e = k) es) @ filter (\<lambda>e. he_key e \<noteq> k) es"

function lru_evict :: "nat \<Rightarrow> nat \<Rightarrow> hotentry list \<Rightarrow> hotentry list" where
  "lru_evict need limit es =
     (if total_bytes es + need > limit \<and> es \<noteq> [] then lru_evict need limit (butlast es) else es)"
  by pat_completeness auto
termination by (relation "measure (\<lambda>(_, _, es). length es)") auto

declare lru_evict.simps [simp del]

definition lru_store :: "nat \<Rightarrow> hotentry \<Rightarrow> hotentry list \<Rightarrow> hotentry list" where
  "lru_store limit e es = e # lru_evict (he_bytes e) limit (filter (\<lambda>x. he_key x \<noteq> he_key e) es)"


lemma lru_evict_fits: "need \<le> limit \<Longrightarrow> total_bytes (lru_evict need limit es) + need \<le> limit"
  by (induction need limit es rule: lru_evict.induct) (subst lru_evict.simps, force)

lemma lru_evict_prefix: "\<exists>n. lru_evict need limit es = take n es"
proof (induction need limit es rule: lru_evict.induct)
  case (1 need limit es)
  show ?case
  proof (cases "total_bytes es + need > limit \<and> es \<noteq> []")
    case True
    with 1 obtain n where "lru_evict need limit (butlast es) = take n (butlast es)" by blast
    then show ?thesis using True by (subst lru_evict.simps) (auto simp: butlast_conv_take)
  next
    case False
    then show ?thesis by (subst lru_evict.simps) (auto intro: exI [of _ "length es"])
  qed
qed

lemma over_limit_iff:
  "hot_inv c xs \<Longrightarrow> bytes \<le> max_limit \<Longrightarrow> over_limit c bytes limit \<longleftrightarrow> total_bytes (entries c xs) + bytes > limit"
  by (auto simp: over_limit_def hot_inv_def max_limit_def)

lemma hot_evict_total:
  assumes "hot_inv c xs" "length xs < fuel" "bytes \<le> max_limit"
  shows "\<exists>c' ys. evict_loop fuel c bytes limit = Some c' \<and> hot_inv c' ys \<and>
      entries c' ys = lru_evict bytes limit (entries c xs) \<and>
      hotPostingsClock c' = hotPostingsClock c \<and> (hotPostingsHash c \<noteq> None \<longrightarrow> hotPostingsHash c' \<noteq> None)"
  using assms
proof (induction fuel arbitrary: c xs)
  case (Suc fuel)
  show ?case
  proof (cases "over_limit c bytes limit \<and> xs \<noteq> []")
    case False
    then have "lru_evict bytes limit (entries c xs) = entries c xs"
      using over_limit_iff [OF Suc.prems(1,3)] by (subst lru_evict.simps) (auto simp: entries_def)
    then show ?thesis using False Suc.prems by (auto simp: hot_inv_def chain_def last_of_def)
  next
    case True
    then obtain ys a where xs: "xs = ys @ [a]" by (cases xs rule: rev_cases) auto
    let ?c = "PgturbohybridBm25HotPostingsCacheEvictOne c"
    have tail: "hotPostingsTail c = Some a" using Suc.prems xs by (auto simp: hot_inv_def chain_def)
    then have ev: "?c = PgturbohybridBm25HotPostingsCacheFreeEntry c (Some a) True"
      by (simp add: PgturbohybridBm25HotPostingsCacheEvictOne_def)
    note f = free_entry_inv [of c ys a "[]" True, simplified, folded ev xs, OF Suc.prems(1)]
    have "lru_evict bytes limit (entries c xs) = lru_evict bytes limit (entries ?c ys)"
      using True over_limit_iff [OF Suc.prems(1,3), of limit] f(2) xs by (subst lru_evict.simps) simp
    then show ?thesis using Suc.IH [OF f(1)] Suc.prems True tail f(4,5) xs by auto
  qed
qed simp

lemma hot_inv_length: "hot_inv c xs \<Longrightarrow> length xs \<le> hp_brk c"
proof -
  assume "hot_inv c xs"
  then have "set xs \<subseteq> {..<hp_brk c}" "distinct xs" by (auto simp: hot_inv_def chain_def)
  then show ?thesis using card_mono [of "{..<hp_brk c}" "set xs"] by (simp add: distinct_card)
qed

lemma create_hash_inv:
  assumes "hot_inv c xs"
  shows "hot_inv (PgturbohybridBm25HotPostingsCacheHash c) xs"
    "entries (PgturbohybridBm25HotPostingsCacheHash c) xs = entries c xs"
    "hotPostingsHash (PgturbohybridBm25HotPostingsCacheHash c) \<noteq> None"
    "hotPostingsClock (PgturbohybridBm25HotPostingsCacheHash c) = hotPostingsClock c"
  using assms
  by (cases "hotPostingsHash c";
      auto simp: PgturbohybridBm25HotPostingsCacheHash_def hot_inv_def chain_def hash_ok_def entries_def entry_at_def)+

lemma insert_entry_inv:
  assumes inv: "hot_inv c xs" and h: "hotPostingsHash c \<noteq> None"
    and fresh: "key \<notin> he_key ` set (entries c xs)"
    and ok: "entry_ok (new_entry it key bytes (hotPostingsClock c + 1))"
    and fits: "total_bytes (entries c xs) + bytes \<le> max_limit"
  shows "hot_inv (insert_entry c it key bytes) (hp_brk c # xs) \<and>
    entries (insert_entry c it key bytes) (hp_brk c # xs) =
      new_entry it key bytes (hotPostingsClock c + 1) # entries c xs \<and>
    hotPostingsBytes (insert_entry c it key bytes) = total_bytes (entries c xs) + bytes"
proof -
  let ?a = "hp_brk c" and ?e = "new_entry it key bytes (hotPostingsClock c + 1)"
  obtain hh where hh: "hotPostingsHash c = Some hh" using h by blast
  define c1 where "c1 = c\<lparr>hotPostingsClock := hotPostingsClock c + 1, hp_brk := ?a + 1,
      hp_mem := (hp_mem c)(?a \<mapsto> ?e), hotPostingsHash := map_option (\<lambda>h. h(key \<mapsto> ?a)) (hotPostingsHash c)\<rparr>"
  define c2 where "c2 = PgturbohybridBm25HotPostingsCacheLruPushHead c1 ?a"
  let ?c = "insert_entry c it key bytes"
  have c: "?c = c2\<lparr>hotPostingsBytes := (hotPostingsBytes c2 + bytes) mod 2 ^ 64\<rparr>"
    by (simp add: insert_entry_def Let_def c1_def c2_def)
  have new: "?a \<notin> set xs" using inv by (auto simp: hot_inv_def)
  have "chain c1 xs" using inv new by (auto simp: c1_def hot_inv_def chain_def)
  then have ch: "chain c2 (?a # xs)" unfolding c2_def by (rule lru_push_chain) (use new in \<open>auto simp: c1_def\<close>)
  have links: "same_but_links c1 c2" by (simp add: c2_def lru_push_links)
  have pe: "payload ?e = ?e" by (simp add: payload_def new_entry_def)
  have e1: "entry_at c2 = (entry_at c)(?a \<mapsto> ?e)"
    using links pe by (auto simp: same_but_links_def c1_def entry_at_def fun_eq_iff)
  then have ec: "entry_at ?c = (entry_at c)(?a \<mapsto> ?e)" by (simp add: c entry_at_def fun_eq_iff)
  have ent: "entries ?c (?a # xs) = ?e # entries c xs" using new by (auto simp: entries_def ec)
  have bytes: "hotPostingsBytes ?c = total_bytes (entries c xs) + bytes"
    using links inv fits by (simp add: c same_but_links_def c1_def hot_inv_def max_limit_def)
  have eb: "he_bytes ?e = bytes" "he_key ?e = key" by (simp_all add: new_entry_def)
  have hk: "hh k = Some b \<longleftrightarrow> b \<in> set xs \<and> (\<exists>e. entry_at c b = Some e \<and> he_key e = k)" for k b
    using inv hh by (simp add: hot_inv_def hash_ok_def)
  have nokey: "he_key e \<noteq> key" if "b \<in> set xs" "entry_at c b = Some e" for b e
    using fresh that by (force simp: entries_def image_iff)
  have "(hh(key \<mapsto> ?a)) k = Some b \<longleftrightarrow> b \<in> set (?a # xs) \<and> (\<exists>e. entry_at ?c b = Some e \<and> he_key e = k)" for k b
    using hk [of k b] nokey [of b] new eb by (auto simp: ec)
  moreover have "hotPostingsHash ?c = Some (hh(key \<mapsto> ?a))" using links hh by (simp add: c same_but_links_def c1_def)
  ultimately have hash: "hash_ok ?c (?a # xs)" by (simp add: hash_ok_def)
  have "chain ?c (?a # xs)" using ch by (simp add: c chain_def)
  moreover have "dom (hp_mem ?c) = set (?a # xs)" using inv by (auto simp: dom_hp_mem ec hot_inv_def)
  moreover have "hp_brk ?c = ?a + 1" using links by (simp add: c same_but_links_def c1_def)
  moreover have "\<forall>b \<in> set (?a # xs). b < ?a + 1" using inv by (auto simp: hot_inv_def less_Suc_eq)
  ultimately show ?thesis using hash inv ok fits unfolding hot_inv_def ent bytes by (simp add: eb)
qed


lemma filter_key_split:
  "distinct (map he_key (es @ e # fs)) \<Longrightarrow>
   filter (\<lambda>x. he_key x = he_key e) (es @ e # fs) = [e] \<and>
   filter (\<lambda>x. he_key x \<noteq> he_key e) (es @ e # fs) = es @ fs"
proof -
  assume "distinct (map he_key (es @ e # fs))"
  then have "he_key e \<notin> he_key ` (set es \<union> set fs)" by auto
  then have n: "he_key x \<noteq> he_key e" if "x \<in> set es \<union> set fs" for x using that by (metis imageI)
  have "filter (\<lambda>x. he_key x = he_key e) es = []" "filter (\<lambda>x. he_key x = he_key e) fs = []"
    "filter (\<lambda>x. he_key x \<noteq> he_key e) es = es" "filter (\<lambda>x. he_key x \<noteq> he_key e) fs = fs"
    using n by (simp_all add: filter_empty_conv filter_id_conv)
  then show ?thesis by simp
qed

text \<open>A key is on the list exactly when the hash table finds it, at one place.\<close>

lemma hash_hit:
  assumes inv: "hot_inv c xs" and h: "hotPostingsHash c = Some h" "h k = Some a"
  shows "\<exists>ys zs e. xs = ys @ a # zs \<and> hp_mem c a = Some e \<and> entry_at c a = Some (payload e) \<and> he_key e = k \<and>
    filter (\<lambda>x. he_key x = k) (entries c xs) = [payload e] \<and>
    filter (\<lambda>x. he_key x \<noteq> k) (entries c xs) = entries c (ys @ zs)"
proof -
  have a: "a \<in> set xs" "\<exists>e. entry_at c a = Some e \<and> he_key e = k" using inv h by (auto simp: hot_inv_def hash_ok_def)
  then obtain e where e: "hp_mem c a = Some e" "entry_at c a = Some (payload e)" "he_key e = k"
    using hot_inv_entry [OF inv a(1)] by auto
  obtain ys zs where xs: "xs = ys @ a # zs" using a(1) by (auto simp: in_set_conv_decomp)
  have "distinct (map he_key (entries c ys @ payload e # entries c zs))"
    using hot_inv_keys_distinct [OF inv] e(2) xs by simp
  from filter_key_split [OF this] show ?thesis using xs e by auto
qed

lemma hash_miss:
  assumes inv: "hot_inv c xs" and h: "case hotPostingsHash c of None \<Rightarrow> True | Some h \<Rightarrow> h k = None"
  shows "filter (\<lambda>x. he_key x = k) (entries c xs) = [] \<and> filter (\<lambda>x. he_key x \<noteq> k) (entries c xs) = entries c xs"
proof (cases "hotPostingsHash c")
  case None
  then show ?thesis using inv by (simp add: hot_inv_def hash_ok_def)
next
  case (Some hh)
  have "he_key (the (entry_at c b)) \<noteq> k" if b: "b \<in> set xs" for b
  proof -
    obtain e where e: "entry_at c b = Some (payload e)" using hot_inv_entry [OF inv b] by blast
    have "hh k \<noteq> Some b" using h Some by simp
    then show ?thesis using inv Some b e by (auto simp: hot_inv_def hash_ok_def)
  qed
  then show ?thesis by (auto simp: entries_def filter_empty_conv filter_id_conv)
qed

lemma touch_entries:
  assumes "hot_inv c (ys @ a # zs)" "entry_at c a = Some (payload e)"
  shows "entries (PgturbohybridBm25HotPostingsCacheLruTouch c a) (a # ys @ zs) =
    he_lastUsed_update (\<lambda>_. hotPostingsClock c + 1) (payload e) # entries c (ys @ zs)"
proof -
  have "a \<notin> set (ys @ zs)" using assms(1) by (auto simp: hot_inv_def chain_def)
  moreover have "entry_at (PgturbohybridBm25HotPostingsCacheLruTouch c a) = entry_at (stamp (hotPostingsClock c + 1) a c)"
    using touch_inv [OF assms(1)] by (simp add: same_but_links_def)
  ultimately show ?thesis using assms(2) by (auto simp: entries_def entry_at_stamp)
qed

lemma free_key_inv:
  fixes k :: hotkey
  assumes inv: "hot_inv c xs" and h: "hotPostingsHash c = Some h"
  defines "c' \<equiv> PgturbohybridBm25HotPostingsCacheFreeEntry c (h k) False"
  shows "\<exists>ys. hot_inv c' ys \<and> entries c' ys = filter (\<lambda>x. he_key x \<noteq> k) (entries c xs) \<and>
    hotPostingsClock c' = hotPostingsClock c \<and> hotPostingsHash c' \<noteq> None"
proof (cases "h k")
  case None
  then show ?thesis using inv h hash_miss [OF inv, of k]
    by (auto simp: c'_def PgturbohybridBm25HotPostingsCacheFreeEntry_def)
next
  case (Some a)
  obtain ys zs e where hit: "xs = ys @ a # zs" "filter (\<lambda>x. he_key x \<noteq> k) (entries c xs) = entries c (ys @ zs)"
    using hash_hit [OF inv h Some] by blast
  from inv hit(1) have i: "hot_inv c (ys @ a # zs)" by simp
  have c': "c' = PgturbohybridBm25HotPostingsCacheFreeEntry c (Some a) False" by (simp add: c'_def Some)
  show ?thesis using free_entry_inv [OF i, of False] hit h by (auto simp flip: c' intro!: exI [of _ "ys @ zs"])
qed

lemma hot_fill_payload [simp]: "hot_fill (payload e) it = hot_fill e it"
  by (cases e) (simp add: hot_fill_def payload_def)

lemma hot_entry_bytes_ok: "hot_entry_bytes (unat (n :: u16)) = Inr (80 + MAXALIGN (8 * unat n))"
proof -
  have "unat n < 2 ^ 16" using unsigned_less [of n] by simp
  then show ?thesis by (simp add: hot_entry_bytes_def alloc_defs MaxAllocSize_def
      sizeof_posting_def sizeof_hot_entry_def MAXALIGN_def)
qed

lemma guc_ok_limit: "guc_ok g \<Longrightarrow> PgturbohybridBm25HotPostingsCacheLimitBytes g \<le> max_limit"
  by (auto simp: guc_ok_def PgturbohybridBm25HotPostingsCacheLimitBytes_def max_limit_def)

definition hot_bytes :: "iter \<Rightarrow> nat" where
  "hot_bytes it = 80 + MAXALIGN (8 * unat (it_count it))"

lemma store_refines:
  fixes blkno :: u32 and offno :: u16
  assumes inv: "hot_inv c xs" and g: "guc_ok g" and el: "PgturbohybridBm25HotPostingsCacheEligible g True it enc"
    and n: "it_count it \<noteq> 0" "unat (it_count it) \<le> length (it_postings it)"
    and fits: "hot_bytes it \<le> PgturbohybridBm25HotPostingsCacheLimitBytes g"
  defines "e \<equiv> new_entry it (PgturbohybridBm25HotPostingsCacheKey it blkno offno) (hot_bytes it) (hotPostingsClock c + 1)"
  shows "\<exists>c' it' ys. PgturbohybridBm25HotPostingsCacheStore g (Some c) it blkno offno enc = Inr (Some c', it') \<and>
    hot_inv c' ys \<and> entries c' ys = lru_store (PgturbohybridBm25HotPostingsCacheLimitBytes g) e (entries c xs) \<and>
    hotPostingsBytes c' \<le> PgturbohybridBm25HotPostingsCacheLimitBytes g \<and>
    hotPostingsClock c' = hotPostingsClock c + 1"
proof -
  let ?k = "PgturbohybridBm25HotPostingsCacheKey it blkno offno"
  let ?limit = "PgturbohybridBm25HotPostingsCacheLimitBytes g"
  have max: "?limit \<le> max_limit" by (rule guc_ok_limit [OF g])
  define c1 where "c1 = PgturbohybridBm25HotPostingsCacheHash c"
  note h1 = create_hash_inv [OF inv, folded c1_def]
  obtain h where h: "hotPostingsHash c1 = Some h" using h1(3) by blast
  define c2 where "c2 = PgturbohybridBm25HotPostingsCacheFreeEntry c1 (h ?k) False"
  obtain xs2 where i2: "hot_inv c2 xs2" "entries c2 xs2 = filter (\<lambda>x. he_key x \<noteq> ?k) (entries c xs)"
    "hotPostingsClock c2 = hotPostingsClock c" "hotPostingsHash c2 \<noteq> None"
    using free_key_inv [OF h1(1) h, of ?k] h1 by (auto simp: c2_def)
  obtain c3 xs3 where ev: "evict_loop (hp_brk c2 + 1) c2 (hot_bytes it) ?limit = Some c3"
    and i3: "hot_inv c3 xs3" "entries c3 xs3 = lru_evict (hot_bytes it) ?limit (entries c2 xs2)"
    "hotPostingsClock c3 = hotPostingsClock c" "hotPostingsHash c3 \<noteq> None"
    using hot_evict_total [OF i2(1), of "hp_brk c2 + 1" "hot_bytes it" ?limit] hot_inv_length [OF i2(1)] i2 fits max
    by auto
  have room: "total_bytes (entries c3 xs3) + hot_bytes it \<le> ?limit" using lru_evict_fits [OF fits] i3 by simp
  have "set (entries c3 xs3) \<subseteq> set (entries c2 xs2)"
    using lru_evict_prefix [of "hot_bytes it" ?limit "entries c2 xs2"] i3 by (auto dest: in_set_takeD)
  then have fresh: "?k \<notin> he_key ` set (entries c3 xs3)" using i2(2) by auto
  have "entry_ok e" using n by (simp add: entry_ok_def e_def new_entry_def hot_entry_bytes_ok hot_bytes_def word_gt_0)
  then have ok: "entry_ok (new_entry it ?k (hot_bytes it) (hotPostingsClock c3 + 1))" by (simp add: e_def i3)
  note ins = insert_entry_inv [OF i3(1,4) fresh ok order_trans [OF room max]]
  let ?c4 = "insert_entry c3 it ?k (hot_bytes it)"
  have nover: "\<not> over_limit c3 (hot_bytes it) ?limit" using over_limit_iff [OF i3(1), of "hot_bytes it" ?limit] room fits max by simp
  have clock: "hotPostingsClock ?c4 = hotPostingsClock c + 1"
    using lru_push_links by (simp add: insert_entry_def Let_def same_but_links_def i3)
  have res: "PgturbohybridBm25HotPostingsCacheStore g (Some c) it blkno offno enc = Inr (Some ?c4, it\<lparr>it_stats := map_option
        (hotPostingsCacheBytes_update (\<lambda>_. hotPostingsBytes ?c4)) (it_stats it)\<rparr>)"
    using el n fits ev nover h
    by (simp add: PgturbohybridBm25HotPostingsCacheStore_def Let_def hot_entry_bytes_ok del: evict_loop.simps
        flip: c1_def c2_def hot_bytes_def)
  have eb: "he_bytes e = hot_bytes it" "he_key e = ?k" by (simp_all add: e_def new_entry_def)
  have "entries ?c4 (hp_brk c3 # xs3) = lru_store ?limit e (entries c xs)"
    using ins i3 i2 by (simp add: lru_store_def eb) (simp add: e_def i3)
  moreover have "hot_inv ?c4 (hp_brk c3 # xs3)" "hotPostingsBytes ?c4 \<le> ?limit" using ins room by simp_all
  ultimately show ?thesis using res clock by blast
qed


lemma lookup_hit:
  assumes inv: "hot_inv c xs" and lim: "PgturbohybridBm25HotPostingsCacheLimitBytes g > 0"
    and df: "it_baseDf it \<ge> word_of_int (hot_postings_cache_min_df g)"
    and e: "e \<in> set (entries c xs)" "he_key e = PgturbohybridBm25HotPostingsCacheKey it blkno offno"
  shows "\<exists>c' it' ys. PgturbohybridBm25HotPostingsCacheLookup g (Some c) it blkno offno = (True, Some c', it') \<and>
    hot_inv c' ys \<and> entries c' ys = lru_use (he_key e) (hotPostingsClock c + 1) (entries c xs) \<and>
    hotPostingsClock c' = hotPostingsClock c + 1 \<and> it' = (hot_fill e it)\<lparr>it_stats := it_stats it'\<rparr>"
proof -
  let ?k = "he_key e"
  have ne: "filter (\<lambda>x. he_key x = ?k) (entries c xs) \<noteq> []" using e(1) by (auto simp: filter_empty_conv)
  then obtain h a where h: "hotPostingsHash c = Some h" "h ?k = Some a"
    using hash_miss [OF inv, of ?k] by (cases "hotPostingsHash c") auto
  obtain ys zs e' where hit: "xs = ys @ a # zs" "hp_mem c a = Some e'" "entry_at c a = Some (payload e')"
    "filter (\<lambda>x. he_key x = ?k) (entries c xs) = [payload e']"
    "filter (\<lambda>x. he_key x \<noteq> ?k) (entries c xs) = entries c (ys @ zs)"
    using hash_hit [OF inv h] by blast
  have "e \<in> set (filter (\<lambda>x. he_key x = ?k) (entries c xs))" using e(1) by simp
  then have ee: "e = payload e'" by (simp only: hit(4)) simp
  have "entry_ok e" using inv e(1) by (simp add: hot_inv_def)
  then have pos: "he_count e > 0" by (simp add: entry_ok_def)
  let ?c = "PgturbohybridBm25HotPostingsCacheLruTouch c a"
  have i: "hot_inv c (ys @ a # zs)" using inv hit by simp
  have inv': "hot_inv ?c (a # ys @ zs)" "hotPostingsClock ?c = hotPostingsClock c + 1"
    using touch_inv [OF i] by (simp_all add: same_but_links_def stamp_def)
  have ent: "entries ?c (a # ys @ zs) = lru_use ?k (hotPostingsClock c + 1) (entries c xs)"
    using touch_entries [OF i hit(3)] hit by (simp add: lru_use_def)
  define it' where "it' = (hot_fill e it)\<lparr>it_stats := map_option (\<lambda>s. publish_stats ?c
      (s\<lparr>hotPostingsCacheHits := hotPostingsCacheHits s + 1\<rparr>)) (it_stats it)\<rparr>"
  have "it_stats (hot_fill e it) = it_stats it" "it_valid (hot_fill e it)" using pos by (simp_all add: hot_fill_def)
  then have "PgturbohybridBm25HotPostingsCacheLookup g (Some c) it blkno offno = (True, Some ?c, it')"
    using lim df h hit e(2) ee
    by (simp add: PgturbohybridBm25HotPostingsCacheLookup_def Let_def it'_def linorder_not_less)
  moreover have "it' = (hot_fill e it)\<lparr>it_stats := it_stats it'\<rparr>" by (simp add: it'_def)
  ultimately show ?thesis using inv' ent by blast
qed

lemma lookup_miss:
  assumes "hot_inv c xs" "PgturbohybridBm25HotPostingsCacheKey it blkno offno \<notin> he_key ` set (entries c xs)"
  shows "\<exists>it'. PgturbohybridBm25HotPostingsCacheLookup g (Some c) it blkno offno = (False, Some c, it') \<and>
    it' = it\<lparr>it_stats := it_stats it'\<rparr>"
proof (cases "hotPostingsHash c")
  case None
  then show ?thesis by (auto simp: PgturbohybridBm25HotPostingsCacheLookup_def hot_miss_def)
next
  case (Some h)
  have "h (PgturbohybridBm25HotPostingsCacheKey it blkno offno) = None"
  proof (rule ccontr)
    assume "h (PgturbohybridBm25HotPostingsCacheKey it blkno offno) \<noteq> None"
    then obtain a where a: "h (PgturbohybridBm25HotPostingsCacheKey it blkno offno) = Some a" by blast
    from hash_hit [OF assms(1) Some a] obtain e where
      "filter (\<lambda>x. he_key x = PgturbohybridBm25HotPostingsCacheKey it blkno offno) (entries c xs) = [payload e]" by blast
    then have "payload e \<in> set (filter (\<lambda>x. he_key x = PgturbohybridBm25HotPostingsCacheKey it blkno offno) (entries c xs))"
      by simp
    then show False using assms(2) by (auto simp: image_iff)
  qed
  then show ?thesis using Some by (auto simp: PgturbohybridBm25HotPostingsCacheLookup_def hot_miss_def)
qed

section \<open>Order of use\<close>

text \<open>
  The caches an index scan can produce: from the empty cache, by any sequence of lookups
  and stores under any settings, with the number of operations.
\<close>

definition hot_empty :: hotcache where
  "hot_empty = \<lparr>hotPostingsHash = None, hotPostingsHead = None, hotPostingsTail = None, hotPostingsBytes = 0,
     hotPostingsEvictions = 0, hotPostingsClock = 0, hp_mem = Map.empty, hp_brk = 0\<rparr>"

inductive hot_reach :: "nat \<Rightarrow> hotcache \<Rightarrow> bool" where
  reach_init: "hot_reach 0 hot_empty"
| reach_lookup: "hot_reach n c \<Longrightarrow> PgturbohybridBm25HotPostingsCacheLookup g (Some c) it blkno offno = (b, Some c', it') \<Longrightarrow>
    hot_reach (Suc n) c'"
| reach_store: "hot_reach n c \<Longrightarrow> guc_ok g \<Longrightarrow> unat (it_count it) \<le> length (it_postings it) \<Longrightarrow>
    PgturbohybridBm25HotPostingsCacheStore g (Some c) it blkno offno enc = Inr (Some c', it') \<Longrightarrow> hot_reach (Suc n) c'"

definition used_order :: "u64 \<Rightarrow> hotentry list \<Rightarrow> bool" where
  "used_order t es \<longleftrightarrow> sorted_wrt (\<lambda>e f. he_lastUsed f < he_lastUsed e) es \<and> (\<forall>e \<in> set es. he_lastUsed e \<le> t)"

lemma hot_inv_empty: "hot_inv hot_empty []"
  by (simp add: hot_inv_def chain_def hot_empty_def hash_ok_def)

lemma used_order_cons:
  assumes "used_order t es" "t < t'" "he_lastUsed e = t'" "sorted_wrt (\<lambda>e f. he_lastUsed f < he_lastUsed e) fs" "set fs \<subseteq> set es"
  shows "used_order t' (e # fs)"
  using assms unfolding used_order_def by fastforce

lemma used_order_use:
  assumes "used_order t es" "t < t'" "distinct (map he_key es)"
  shows "used_order t' (lru_use k t' es)"
proof (cases "filter (\<lambda>e. he_key e = k) es")
  case Nil
  then have "lru_use k t' es = es" by (simp add: lru_use_def filter_empty_conv filter_id_conv)
  then show ?thesis using assms by (auto simp: used_order_def intro: order_trans [OF _ less_imp_le])
next
  case (Cons e fs)
  then have "e \<in> set (filter (\<lambda>e. he_key e = k) es)" by simp
  then have "e \<in> set es" "he_key e = k" by simp_all
  then obtain xs ys where es: "es = xs @ e # ys" by (meson split_list)
  then have f: "filter (\<lambda>e. he_key e = k) es = [e]" "filter (\<lambda>e. he_key e \<noteq> k) es = xs @ ys"
    using filter_key_split [of xs e ys] assms(3) \<open>he_key e = k\<close> by auto
  show ?thesis unfolding lru_use_def f
    using used_order_cons [OF assms(1,2), of "he_lastUsed_update (\<lambda>_. t') e" "xs @ ys"] assms(1)
    by (auto simp: used_order_def es sorted_wrt_append)
qed

lemma used_order_store:
  assumes "used_order t es" "t < t'" "he_lastUsed e = t'"
  shows "used_order t' (lru_store limit e es)"
proof -
  let ?f = "filter (\<lambda>x. he_key x \<noteq> he_key e) es"
  obtain n where n: "lru_evict (he_bytes e) limit ?f = take n ?f" using lru_evict_prefix by blast
  have "sorted_wrt (\<lambda>e f. he_lastUsed f < he_lastUsed e) (take n ?f)"
    using assms(1) by (auto simp: used_order_def intro: sorted_wrt_take sorted_wrt_filter)
  moreover have "set (take n ?f) \<subseteq> set es" by (auto dest: in_set_takeD)
  ultimately show ?thesis unfolding lru_store_def n by (rule used_order_cons [OF assms])
qed


lemma store_cases:
  assumes "PgturbohybridBm25HotPostingsCacheStore g (Some c) it blkno offno enc = Inr (Some c', it')"
  shows "c' = c \<or> PgturbohybridBm25HotPostingsCacheEligible g True it enc \<and> it_count it \<noteq> 0 \<and>
    hot_bytes it \<le> PgturbohybridBm25HotPostingsCacheLimitBytes g"
  using assms by (auto simp: PgturbohybridBm25HotPostingsCacheStore_def hot_entry_bytes_ok hot_bytes_def Let_def split: if_splits)

lemma lookup_cases:
  assumes inv: "hot_inv c xs"
    and l: "PgturbohybridBm25HotPostingsCacheLookup g (Some c) it blkno offno = (b, Some c', it')"
  shows "c' = c \<or> (\<exists>k ys. hot_inv c' ys \<and> entries c' ys = lru_use k (hotPostingsClock c + 1) (entries c xs) \<and>
    hotPostingsClock c' = hotPostingsClock c + 1)"
proof (cases "PgturbohybridBm25HotPostingsCacheKey it blkno offno \<in> he_key ` set (entries c xs)")
  case False
  then show ?thesis using lookup_miss [OF inv False, of g] l by auto
next
  case True
  then obtain e where e: "e \<in> set (entries c xs)" "he_key e = PgturbohybridBm25HotPostingsCacheKey it blkno offno" by auto
  show ?thesis
  proof (cases "PgturbohybridBm25HotPostingsCacheLimitBytes g = 0 \<or> it_baseDf it < word_of_int (hot_postings_cache_min_df g)")
    case True
    then show ?thesis using l by (auto simp: PgturbohybridBm25HotPostingsCacheLookup_def)
  next
    case False
    then have "PgturbohybridBm25HotPostingsCacheLimitBytes g > 0" "it_baseDf it \<ge> word_of_int (hot_postings_cache_min_df g)"
      by (auto simp: linorder_not_less)
    from lookup_hit [OF inv this e] show ?thesis using l by auto
  qed
qed

lemma clock_step:
  assumes "unat (t :: u64) \<le> n" "Suc n < 2 ^ 64"
  shows "t < t + 1" "unat (t + 1) \<le> Suc n"
proof -
  have "unat t + 1 < 2 ^ 64" using assms by simp
  then have "unat (t + 1) = unat t + 1" by (simp add: unat_word_ariths)
  then show "t < t + 1" "unat (t + 1) \<le> Suc n" using assms by (simp_all add: word_less_nat_alt)
qed

lemma reach_invariant:
  "hot_reach n c \<Longrightarrow> \<exists>xs. hot_inv c xs \<and>
     (n < 2 ^ 64 \<longrightarrow> used_order (hotPostingsClock c) (entries c xs) \<and> unat (hotPostingsClock c) \<le> n)"
proof (induction rule: hot_reach.induct)
  case reach_init
  then show ?case using hot_inv_empty by (intro exI [of _ "[]"]) (simp add: hot_empty_def used_order_def)
next
  case (reach_lookup n c g it blkno offno b c' it')
  then obtain xs where xs: "hot_inv c xs"
    "n < 2 ^ 64 \<longrightarrow> used_order (hotPostingsClock c) (entries c xs) \<and> unat (hotPostingsClock c) \<le> n" by blast
  from lookup_cases [OF xs(1) reach_lookup(2)] show ?case
  proof
    assume "c' = c" then show ?case using xs by auto
  next
    assume "\<exists>k ys. hot_inv c' ys \<and> entries c' ys = lru_use k (hotPostingsClock c + 1) (entries c xs) \<and>
      hotPostingsClock c' = hotPostingsClock c + 1"
    then obtain k ys where ys: "hot_inv c' ys" "entries c' ys = lru_use k (hotPostingsClock c + 1) (entries c xs)"
      "hotPostingsClock c' = hotPostingsClock c + 1" by blast
    show ?case using xs ys clock_step [of "hotPostingsClock c" n]
      used_order_use [OF _ _ hot_inv_keys_distinct [OF xs(1)], of "hotPostingsClock c" "hotPostingsClock c + 1" k]
      by (intro exI [of _ ys]) auto
  qed
next
  case (reach_store n c g it blkno offno enc c' it')
  then obtain xs where xs: "hot_inv c xs"
    "n < 2 ^ 64 \<longrightarrow> used_order (hotPostingsClock c) (entries c xs) \<and> unat (hotPostingsClock c) \<le> n" by blast
  from store_cases [OF reach_store(4)] show ?case
  proof
    assume "c' = c" then show ?case using xs by auto
  next
    assume a: "PgturbohybridBm25HotPostingsCacheEligible g True it enc \<and> it_count it \<noteq> 0 \<and>
      hot_bytes it \<le> PgturbohybridBm25HotPostingsCacheLimitBytes g"
    let ?e = "new_entry it (PgturbohybridBm25HotPostingsCacheKey it blkno offno) (hot_bytes it) (hotPostingsClock c + 1)"
    from store_refines [OF xs(1) reach_store(2), of it enc blkno offno] a reach_store(3,4)
    obtain ys where ys: "hot_inv c' ys"
      "entries c' ys = lru_store (PgturbohybridBm25HotPostingsCacheLimitBytes g) ?e (entries c xs)"
      "hotPostingsClock c' = hotPostingsClock c + 1" by auto
    have "he_lastUsed ?e = hotPostingsClock c + 1" by (simp add: new_entry_def)
    then show ?case using xs ys clock_step [of "hotPostingsClock c" n]
      used_order_store [of "hotPostingsClock c" "entries c xs" "hotPostingsClock c + 1" ?e]
      by (intro exI [of _ ys]) auto
  qed
qed


section \<open>Properties\<close>

text \<open>A concrete setting of 1 MB and an iterator over a chunk of two postings, for the witnesses.\<close>

definition demo_guc :: hot_guc where "demo_guc = \<lparr>hot_postings_cache_mb = 1, hot_postings_cache_min_df = 2\<rparr>"

definition demo_iter :: iter where
  "demo_iter = \<lparr>it_termId = 7, it_baseDf = 5, it_matchBit = 1, it_idf = Fin 1, it_avgDocLen = Fin 1,
     it_chunkLimit = 3, it_chunkNo = 1, it_blkno = 12, it_offno = 1,
     it_postings = [\<lparr>p_nodeId = 3, p_tf = 1, p_reserved = 9\<rparr>, \<lparr>p_nodeId = 8, p_tf = 2, p_reserved = 4\<rparr>],
     it_postingsCapacity = 2, it_count = 2, it_pos = 0, it_maxTf = 2, it_maxTfNormQ16 = 9, it_maxScoreFactor = Fin 1,
     it_lastNodeId = 8, it_nextBlkno = 12, it_nextOffno = 1, it_valid = True, it_stats = None\<rparr>"

definition demo_store :: "u32 \<Rightarrow> hotcache \<Rightarrow> hotcache" where
  "demo_store blkno c = (case PgturbohybridBm25HotPostingsCacheStore demo_guc (Some c) demo_iter blkno 1 0x8003 of
     Inr (Some c', _) \<Rightarrow> c' | _ \<Rightarrow> c)"

lemma demo_ok: "guc_ok demo_guc" "PgturbohybridBm25HotPostingsCacheEligible demo_guc True demo_iter 0x8003"
  "it_count demo_iter \<noteq> 0" "unat (it_count demo_iter) \<le> length (it_postings demo_iter)"
  "hot_bytes demo_iter \<le> PgturbohybridBm25HotPostingsCacheLimitBytes demo_guc"
  "PgturbohybridBm25HotPostingsCacheLimitBytes demo_guc > 0"
  "it_baseDf demo_iter \<ge> word_of_int (hot_postings_cache_min_df demo_guc)"
  by (simp_all add: guc_ok_def demo_guc_def demo_iter_def PgturbohybridBm25HotPostingsCacheEligible_def hot_bytes_def
      PgturbohybridBm25HotPostingsCacheLimitBytes_def MAXALIGN_def ENCODING_MASK_def ENCODING_OFFSET16_def
      ENCODING_OFFSET16_SOA_def ENCODING_TFNORM_Q16_def)

text \<open>
  C24. Storing a decoded chunk in the hot postings cache: whenever the chunk is eligible and
  fits into the configured budget, the pointer structure afterwards represents the new entry in front
  of the older entries with the same key removed and the least recently used ones dropped
  until the budget holds; the byte counter never exceeds the budget.
\<close>

theorem hot_store_refines_lru:
  assumes "hot_inv c xs" "guc_ok g" "PgturbohybridBm25HotPostingsCacheEligible g True it enc"
    and "it_count it \<noteq> 0" "unat (it_count it) \<le> length (it_postings it)"
    and "hot_bytes it \<le> PgturbohybridBm25HotPostingsCacheLimitBytes g"
  shows "\<exists>c' it' ys. PgturbohybridBm25HotPostingsCacheStore g (Some c) it blkno offno enc = Inr (Some c', it') \<and>
    hot_inv c' ys \<and>
    entries c' ys = lru_store (PgturbohybridBm25HotPostingsCacheLimitBytes g)
      (new_entry it (PgturbohybridBm25HotPostingsCacheKey it blkno offno) (hot_bytes it) (hotPostingsClock c + 1))
      (entries c xs) \<and>
    hotPostingsBytes c' \<le> PgturbohybridBm25HotPostingsCacheLimitBytes g"
  using store_refines [OF assms] by blast

theorem hot_store_refines_lru_witness:
  "\<exists>c' it' ys. PgturbohybridBm25HotPostingsCacheStore demo_guc (Some hot_empty) demo_iter 4 1 0x8003 = Inr (Some c', it') \<and>
    hot_inv c' ys \<and>
    entries c' ys = lru_store (PgturbohybridBm25HotPostingsCacheLimitBytes demo_guc)
      (new_entry demo_iter (PgturbohybridBm25HotPostingsCacheKey demo_iter 4 1) (hot_bytes demo_iter) (hotPostingsClock hot_empty + 1))
      (entries hot_empty []) \<and>
    hotPostingsBytes c' \<le> PgturbohybridBm25HotPostingsCacheLimitBytes demo_guc"
  by (rule hot_store_refines_lru [OF hot_inv_empty demo_ok(1-5)])

text \<open>
  C25. A lookup that hits copies the cached chunk into the iterator and moves the entry to
  the front with a fresh time stamp; a lookup that misses changes neither the cache nor
  the iterator except for the statistics.
\<close>

theorem hot_lookup_refines_lru:
  assumes "hot_inv c xs" "PgturbohybridBm25HotPostingsCacheLimitBytes g > 0"
    and "it_baseDf it \<ge> word_of_int (hot_postings_cache_min_df g)"
  shows "(\<forall>e. e \<in> set (entries c xs) \<and> he_key e = PgturbohybridBm25HotPostingsCacheKey it blkno offno \<longrightarrow>
      (\<exists>c' it' ys. PgturbohybridBm25HotPostingsCacheLookup g (Some c) it blkno offno = (True, Some c', it') \<and>
        hot_inv c' ys \<and> entries c' ys = lru_use (he_key e) (hotPostingsClock c + 1) (entries c xs) \<and>
        it' = (hot_fill e it)\<lparr>it_stats := it_stats it'\<rparr>)) \<and>
    (PgturbohybridBm25HotPostingsCacheKey it blkno offno \<notin> he_key ` set (entries c xs) \<longrightarrow>
      (\<exists>it'. PgturbohybridBm25HotPostingsCacheLookup g (Some c) it blkno offno = (False, Some c, it') \<and>
        it' = it\<lparr>it_stats := it_stats it'\<rparr>))"
proof (intro conjI allI impI)
  fix e assume "e \<in> set (entries c xs) \<and> he_key e = PgturbohybridBm25HotPostingsCacheKey it blkno offno"
  then show "\<exists>c' it' ys. PgturbohybridBm25HotPostingsCacheLookup g (Some c) it blkno offno = (True, Some c', it') \<and>
        hot_inv c' ys \<and> entries c' ys = lru_use (he_key e) (hotPostingsClock c + 1) (entries c xs) \<and>
        it' = (hot_fill e it)\<lparr>it_stats := it_stats it'\<rparr>"
    using lookup_hit [OF assms, of e blkno offno] by blast
qed (rule lookup_miss [OF assms(1)])

theorem hot_lookup_refines_lru_witness:
  "\<exists>it'. PgturbohybridBm25HotPostingsCacheLookup demo_guc (Some hot_empty) demo_iter 4 1 = (False, Some hot_empty, it') \<and>
     it' = demo_iter\<lparr>it_stats := it_stats it'\<rparr>"
  using hot_lookup_refines_lru [OF hot_inv_empty demo_ok(6,7), of 4 1] by simp

text \<open>
  What a store puts into the cache a later lookup of the same chunk returns: the
  iterator gets the same postings, counts, bounds and continuation pointer.
\<close>

theorem hot_store_then_lookup:
  assumes "hot_inv c xs" "guc_ok g" "PgturbohybridBm25HotPostingsCacheEligible g True it enc"
    and "it_count it \<noteq> 0" "unat (it_count it) = length (it_postings it)"
    and "hot_bytes it \<le> PgturbohybridBm25HotPostingsCacheLimitBytes g"
    and "it_termId it2 = it_termId it" "PgturbohybridBm25HotPostingsCacheLimitBytes g2 > 0"
    and "it_baseDf it2 \<ge> word_of_int (hot_postings_cache_min_df g2)"
  shows "\<exists>c1 it1 c2 it3. PgturbohybridBm25HotPostingsCacheStore g (Some c) it blkno offno enc = Inr (Some c1, it1) \<and>
    PgturbohybridBm25HotPostingsCacheLookup g2 (Some c1) it2 blkno offno = (True, Some c2, it3) \<and>
    it_postings it3 = it_postings it \<and> it_count it3 = it_count it \<and> it_maxTf it3 = it_maxTf it \<and>
    it_maxTfNormQ16 it3 = it_maxTfNormQ16 it \<and> it_maxScoreFactor it3 = it_maxScoreFactor it \<and>
    it_lastNodeId it3 = it_lastNodeId it \<and> it_blkno it3 = it_nextBlkno it \<and> it_offno it3 = it_nextOffno it \<and>
    it_chunkNo it3 = it_chunkNo it2 + 1 \<and> it_valid it3"
proof -
  let ?e = "new_entry it (PgturbohybridBm25HotPostingsCacheKey it blkno offno) (hot_bytes it) (hotPostingsClock c + 1)"
  obtain c1 it1 ys where st: "PgturbohybridBm25HotPostingsCacheStore g (Some c) it blkno offno enc = Inr (Some c1, it1)"
    "hot_inv c1 ys" "entries c1 ys = lru_store (PgturbohybridBm25HotPostingsCacheLimitBytes g) ?e (entries c xs)"
    using store_refines [OF assms(1-4) _ assms(6), of blkno offno] assms(5) by auto
  have e: "?e \<in> set (entries c1 ys)" "he_key ?e = PgturbohybridBm25HotPostingsCacheKey it2 blkno offno"
    using st(3) assms(7) by (simp_all add: lru_store_def new_entry_def PgturbohybridBm25HotPostingsCacheKey_def)
  obtain c2 it3 where l: "PgturbohybridBm25HotPostingsCacheLookup g2 (Some c1) it2 blkno offno = (True, Some c2, it3)"
    "it3 = (hot_fill ?e it2)\<lparr>it_stats := it_stats it3\<rparr>"
    using lookup_hit [OF st(2) assms(8,9) e] by blast
  have f: "it_postings it3 = it_postings it \<and> it_count it3 = it_count it \<and> it_maxTf it3 = it_maxTf it \<and>
    it_maxTfNormQ16 it3 = it_maxTfNormQ16 it \<and> it_maxScoreFactor it3 = it_maxScoreFactor it \<and>
    it_lastNodeId it3 = it_lastNodeId it \<and> it_blkno it3 = it_nextBlkno it \<and> it_offno it3 = it_nextOffno it \<and>
    it_chunkNo it3 = it_chunkNo it2 + 1 \<and> it_valid it3"
    by (subst (1 2 3 4 5 6 7 8 9 10) l(2)) (use assms(4,5) in \<open>simp add: hot_fill_def new_entry_def word_gt_0\<close>)
  show ?thesis using st(1) l(1) f by blast
qed

theorem hot_store_then_lookup_witness:
  "\<exists>c1 it1 c2 it3. PgturbohybridBm25HotPostingsCacheStore demo_guc (Some hot_empty) demo_iter 4 1 0x8003 = Inr (Some c1, it1) \<and>
    PgturbohybridBm25HotPostingsCacheLookup demo_guc (Some c1) demo_iter 4 1 = (True, Some c2, it3) \<and>
    it_postings it3 = it_postings demo_iter"
proof -
  have "unat (it_count demo_iter) = length (it_postings demo_iter)" by (simp add: demo_iter_def)
  from hot_store_then_lookup [OF hot_inv_empty demo_ok(1-3) this demo_ok(5) refl demo_ok(6,7), of 4 1]
  show ?thesis by blast
qed

text \<open>
  C26. In every cache a sequence of fewer than \<open>2 ^ 64\<close> lookups and stores can
  produce, the byte counter is the sum of the sizes of the live entries, and the list has a tail unless there
  is no entry. The tail, which is what eviction frees, is a live entry used longer ago than every other one.
\<close>

theorem hot_eviction_order:
  assumes "hot_reach n c" "n < 2 ^ 64"
  shows "hotPostingsBytes c = (\<Sum>x \<in> dom (hp_mem c). he_bytes (the (hp_mem c x))) \<and>
    (case hotPostingsTail c of None \<Rightarrow> dom (hp_mem c) = {}
     | Some t \<Rightarrow> (\<exists>et. hp_mem c t = Some et \<and> (\<forall>a e. hp_mem c a = Some e \<and> a \<noteq> t \<longrightarrow> he_lastUsed et < he_lastUsed e)))"
proof -
  obtain xs where inv: "hot_inv c xs" and ord: "used_order (hotPostingsClock c) (entries c xs)"
    using reach_invariant [OF assms(1)] assms(2) by blast
  have bytes: "hotPostingsBytes c = (\<Sum>x \<in> dom (hp_mem c). he_bytes (the (hp_mem c x)))"
  proof -
    have "hotPostingsBytes c = sum_list (map (\<lambda>x. he_bytes (the (entry_at c x))) xs)"
      using inv by (simp add: hot_inv_def total_bytes_def entries_def o_def)
    also have "\<dots> = (\<Sum>x \<in> set xs. he_bytes (the (entry_at c x)))"
      using inv by (simp add: hot_inv_def chain_def sum_list_distinct_conv_sum_set)
    also have "\<dots> = (\<Sum>x \<in> set xs. he_bytes (the (hp_mem c x)))"
      by (rule sum.cong) (use hot_inv_entry [OF inv] in fastforce)+
    finally show ?thesis using inv by (simp add: hot_inv_def)
  qed
  have tail: "hotPostingsTail c = last_of None xs" "dom (hp_mem c) = set xs" using inv by (simp_all add: hot_inv_def chain_def)
  show ?thesis
  proof (cases "xs = []")
    case True
    then show ?thesis using bytes tail by (simp add: last_of_def)
  next
    case False
    then obtain ys t where xs: "xs = ys @ [t]" by (metis append_butlast_last_id)
    then have t: "hotPostingsTail c = Some t" using tail(1) by (simp add: last_of_def)
    obtain et where et: "hp_mem c t = Some et" "entry_at c t = Some (payload et)" using hot_inv_entry [OF inv, of t] xs by auto
    have "he_lastUsed et < he_lastUsed e" if a: "hp_mem c a = Some e" "a \<noteq> t" for a e
    proof -
      have "a \<in> set ys" using tail(2) a xs by auto
      moreover have "entry_at c a = Some (payload e)" using a(1) by (simp add: entry_at_def)
      ultimately show ?thesis using ord xs et by (force simp: used_order_def sorted_wrt_append entries_def)
    qed
    then show ?thesis using bytes t et(1) by auto
  qed
qed

definition demo_two :: hotcache where
  "demo_two = demo_store 5 (demo_store 4 hot_empty)"

lemmas demo_defs = demo_store_def demo_iter_def demo_guc_def hot_empty_def Let_def
  PgturbohybridBm25HotPostingsCacheStore_def PgturbohybridBm25HotPostingsCacheLimitBytes_def
  PgturbohybridBm25HotPostingsCacheEligible_def PgturbohybridBm25HotPostingsCacheHash_def
  PgturbohybridBm25HotPostingsCacheFreeEntry_def PgturbohybridBm25HotPostingsCacheKey_def
  PgturbohybridBm25HotPostingsCacheLruPushHead_def hot_entry_bytes_def alloc_defs
  MaxAllocSize_def sizeof_posting_def sizeof_hot_entry_def MAXALIGN_def over_limit_def insert_entry_def
  new_entry_def upd_entry_def ENCODING_MASK_def ENCODING_OFFSET16_def ENCODING_OFFSET16_SOA_def ENCODING_TFNORM_Q16_def

lemma demo_store_reach: "hot_reach n c \<Longrightarrow> \<exists>m \<le> Suc n. hot_reach m (demo_store blkno c)"
  using reach_store [of n c demo_guc demo_iter blkno 1 "0x8003"] demo_ok
  by (auto simp: demo_store_def split: sum.splits option.splits intro: exI [of _ n])

theorem hot_eviction_order_witness:
  "\<exists>n et e. hot_reach n demo_two \<and> hotPostingsTail demo_two = Some 0 \<and> hp_mem demo_two 1 = Some e \<and>
     hp_mem demo_two 0 = Some et \<and> he_lastUsed et < he_lastUsed e"
proof -
  have t: "hotPostingsTail demo_two = Some 0" "\<exists>e. hp_mem demo_two 1 = Some e"
    by (simp_all add: demo_two_def demo_defs)
  obtain m where m: "m \<le> 1" "hot_reach m (demo_store 4 hot_empty)"
    using demo_store_reach [OF reach_init, of 4] by auto
  obtain n where n0: "n \<le> Suc m" "hot_reach n demo_two"
    using demo_store_reach [OF m(2), of 5] unfolding demo_two_def by blast
  then have n: "n \<le> 2" "hot_reach n demo_two" using m(1) by simp_all
  then have lt: "n < 2 ^ 64" by simp
  obtain e where e: "hp_mem demo_two 1 = Some e" using t by blast
  from hot_eviction_order [OF n(2) lt] show ?thesis using n(2) t(1) e by auto
qed

end
