(* ===== verification/Bm25_Boolean.thy ===== *)
theory Bm25_Boolean
  imports Prelude
begin

text \<open>
  Boolean matching of BM25 queries in \<open>src/src/pgturbohybrid_bm25_query.c\<close>: extraction of the
  scored terms of a tsquery, compilation of the query into a bit mask, and the evaluation of
  a document's bit mask of matched terms, by the mask or by walking the query items.

  A tsquery is PostgreSQL's array of query items: an operator is followed by its right
  operand, and its left operand starts \<open>left\<close> items further on.
\<close>

section \<open>Data\<close>

datatype tsoper = OP_NOT | OP_AND | OP_OR | OP_PHRASE

datatype QueryItem =
    QI_VAL bool bytes        \<comment> \<open>prefix flag and lexeme\<close>
  | QI_OPR tsoper nat        \<comment> \<open>operator and distance to the left operand\<close>
  | QI_VALSTOP

type_synonym TSQuery = "QueryItem list"

record PgturbohybridBm25QueryTerm =
  qt_term :: bytes
  qt_termLen :: nat
  qt_termHash :: u64
  qt_matchBit :: u64
  qt_qitemIndex :: nat

type_synonym qterm = PgturbohybridBm25QueryTerm

datatype PgturbohybridBm25QueryShape =
    QUERY_EMPTY | QUERY_SINGLE | QUERY_PURE_OR | QUERY_PURE_AND | QUERY_MIXED

datatype PgturbohybridBm25BooleanEvalMode =
    BOOLEAN_EVAL_NONE | BOOLEAN_EVAL_SINGLE | BOOLEAN_EVAL_MASK | BOOLEAN_EVAL_TREE

record PgturbohybridBm25QueryEval =
  ev_shape :: PgturbohybridBm25QueryShape
  ev_mode :: PgturbohybridBm25BooleanEvalMode
  ev_requiredMask :: u64

section \<open>Operations\<close>

definition hash_step :: "u8 \<Rightarrow> u64 \<Rightarrow> u64" where
  "hash_step b h = (h XOR ucast b) * 1099511628211"

definition PgturbohybridBm25HashTerm :: "bytes \<Rightarrow> u64" where
  "PgturbohybridBm25HashTerm term = fold hash_step term 1469598103934665603"

fun find_index :: "('a \<Rightarrow> bool) \<Rightarrow> 'a list \<Rightarrow> nat option" where
  "find_index P [] = None"
| "find_index P (x # xs) = (if P x then Some 0 else map_option Suc (find_index P xs))"

definition PgturbohybridBm25FindQueryTerm :: "qterm list \<Rightarrow> bytes \<Rightarrow> nat option" where
  "PgturbohybridBm25FindQueryTerm terms term =
     (let termHash = PgturbohybridBm25HashTerm term in
      find_index (\<lambda>t. qt_termLen t = length term \<and> qt_termHash t = termHash \<and> qt_term t = term) terms)"

definition PgturbohybridBm25FindQueryTermByItem :: "qterm list \<Rightarrow> nat \<Rightarrow> nat option" where
  "PgturbohybridBm25FindQueryTermByItem terms qitemIndex = find_index (\<lambda>t. qt_qitemIndex t = qitemIndex) terms"

text \<open>The recursion depth is bounded by the fuel; \<open>eval_flatten\<close> shows that the item count is enough.\<close>

fun PgturbohybridBm25EvalTsQueryItem :: "nat \<Rightarrow> TSQuery \<Rightarrow> nat \<Rightarrow> qterm list \<Rightarrow> u64 \<Rightarrow> bool res" where
  "PgturbohybridBm25EvalTsQueryItem 0 items idx terms matchedTerms = elog ''recursion too deep''"
| "PgturbohybridBm25EvalTsQueryItem (Suc fuel) items idx terms matchedTerms =
     (if idx \<ge> length items then elog ''query item out of range'' else
      case items ! idx of
        QI_VAL prefix term \<Rightarrow>
          Inr (case (case PgturbohybridBm25FindQueryTermByItem terms idx of
                       None \<Rightarrow> PgturbohybridBm25FindQueryTerm terms term
                     | Some t \<Rightarrow> Some t) of
                 None \<Rightarrow> False
               | Some termNo \<Rightarrow> matchedTerms AND qt_matchBit (terms ! termNo) \<noteq> 0)
      | QI_OPR oper left \<Rightarrow>
          (case oper of
             OP_NOT \<Rightarrow> Inr True
           | OP_OR \<Rightarrow>
               bindE (PgturbohybridBm25EvalTsQueryItem fuel items (idx + left) terms matchedTerms)
                 (\<lambda>l. if l then Inr True
                      else PgturbohybridBm25EvalTsQueryItem fuel items (idx + 1) terms matchedTerms)
           | _ \<Rightarrow>
               bindE (PgturbohybridBm25EvalTsQueryItem fuel items (idx + left) terms matchedTerms)
                 (\<lambda>l. if \<not> l then Inr False
                      else PgturbohybridBm25EvalTsQueryItem fuel items (idx + 1) terms matchedTerms))
      | QI_VALSTOP \<Rightarrow>
          Inl (Ereport ERRCODE_FEATURE_NOT_SUPPORTED ''pgturbohybrid BM25 encountered an unsupported tsquery operator''))"

definition eval_tree :: "TSQuery \<Rightarrow> qterm list \<Rightarrow> u64 \<Rightarrow> bool res" where
  "eval_tree query terms matchedTerms =
     PgturbohybridBm25EvalTsQueryItem (length query) query 0 terms matchedTerms"

definition PgturbohybridBm25MatchedQuery ::
    "TSQuery \<Rightarrow> qterm list \<Rightarrow> PgturbohybridBm25QueryEval option \<Rightarrow> u64 \<Rightarrow> bool res" where
  "PgturbohybridBm25MatchedQuery query terms eval matchedTerms =
     (if length query = 0 then Inr False else
      case eval of
        None \<Rightarrow> eval_tree query terms matchedTerms
      | Some e \<Rightarrow>
          if ev_mode e = BOOLEAN_EVAL_SINGLE then Inr (matchedTerms AND ev_requiredMask e \<noteq> 0)
          else if ev_mode e = BOOLEAN_EVAL_MASK \<and> ev_shape e = QUERY_PURE_OR
          then Inr (matchedTerms AND ev_requiredMask e \<noteq> 0)
          else if ev_mode e = BOOLEAN_EVAL_MASK \<and> ev_shape e = QUERY_PURE_AND
          then Inr (matchedTerms AND ev_requiredMask e = ev_requiredMask e)
          else eval_tree query terms matchedTerms)"

fun is_oper :: "tsoper \<Rightarrow> QueryItem \<Rightarrow> bool" where
  "is_oper oper (QI_OPR oper' left) = (oper' = oper)"
| "is_oper oper _ = False"

definition PgturbohybridBm25QueryHasOperator :: "TSQuery \<Rightarrow> tsoper \<Rightarrow> bool" where
  "PgturbohybridBm25QueryHasOperator query oper = list_ex (is_oper oper) query"

definition PgturbohybridBm25QueryHasPhrase :: "TSQuery option \<Rightarrow> bool" where
  "PgturbohybridBm25QueryHasPhrase query =
     (case query of None \<Rightarrow> False | Some q \<Rightarrow> PgturbohybridBm25QueryHasOperator q OP_PHRASE)"

definition required_mask :: "qterm list \<Rightarrow> u64" where
  "required_mask terms = fold (\<lambda>t m. m OR qt_matchBit t) terms 0"

definition PgturbohybridBm25CompileQueryEval :: "TSQuery \<Rightarrow> qterm list \<Rightarrow> PgturbohybridBm25QueryEval" where
  "PgturbohybridBm25CompileQueryEval query terms =
     (let hasOr = PgturbohybridBm25QueryHasOperator query OP_OR;
          hasAnd = PgturbohybridBm25QueryHasOperator query OP_AND;
          mask = required_mask terms in
      if length terms = 0 then
        \<lparr>ev_shape = QUERY_EMPTY, ev_mode = BOOLEAN_EVAL_NONE, ev_requiredMask = mask\<rparr>
      else if length terms = 1 \<and> \<not> hasOr \<and> \<not> hasAnd then
        \<lparr>ev_shape = QUERY_SINGLE, ev_mode = BOOLEAN_EVAL_SINGLE, ev_requiredMask = mask\<rparr>
      else if hasOr \<and> \<not> hasAnd then
        \<lparr>ev_shape = QUERY_PURE_OR, ev_mode = BOOLEAN_EVAL_MASK, ev_requiredMask = mask\<rparr>
      else if hasAnd \<and> \<not> hasOr then
        \<lparr>ev_shape = QUERY_PURE_AND, ev_mode = BOOLEAN_EVAL_MASK, ev_requiredMask = mask\<rparr>
      else
        \<lparr>ev_shape = QUERY_MIXED, ev_mode = BOOLEAN_EVAL_TREE, ev_requiredMask = mask\<rparr>)"

definition add_term :: "nat \<Rightarrow> bytes \<Rightarrow> qterm list \<Rightarrow> qterm list res" where
  "add_term idx term out =
     (if PgturbohybridBm25FindQueryTerm out term \<noteq> None then Inr out
      else if length out \<ge> 64
      then Inl (Ereport ERRCODE_PROGRAM_LIMIT_EXCEEDED ''turbohybrid BM25 queries currently support at most 64 terms'')
      else Inr (out @ [\<lparr>qt_term = term, qt_termLen = length term, qt_termHash = PgturbohybridBm25HashTerm term,
                         qt_matchBit = push_bit (length out) 1, qt_qitemIndex = idx\<rparr>]))"

fun PgturbohybridBm25CollectPositiveTerms ::
    "nat \<Rightarrow> TSQuery \<Rightarrow> nat \<Rightarrow> bool \<Rightarrow> qterm list \<Rightarrow> (nat \<times> qterm list) res" where
  "PgturbohybridBm25CollectPositiveTerms 0 items idx negated out = elog ''recursion too deep''"
| "PgturbohybridBm25CollectPositiveTerms (Suc fuel) items idx negated out =
     (if idx \<ge> length items then Inr (idx, out) else
      case items ! idx of
        QI_VAL prefix term \<Rightarrow>
          if prefix
          then Inl (Ereport ERRCODE_FEATURE_NOT_SUPPORTED ''pgturbohybrid BM25 prefix tsquery terms are not supported yet'')
          else if negated then Inr (idx + 1, out)
          else bindE (add_term idx term out) (\<lambda>out'. Inr (idx + 1, out'))
      | QI_OPR OP_NOT left \<Rightarrow> PgturbohybridBm25CollectPositiveTerms fuel items (idx + 1) (\<not> negated) out
      | _ \<Rightarrow>
          bindE (PgturbohybridBm25CollectPositiveTerms fuel items (idx + 1) negated out)
            (\<lambda>(next, out'). PgturbohybridBm25CollectPositiveTerms fuel items next negated out'))"

definition PgturbohybridBm25ExtractTerms :: "TSQuery \<Rightarrow> qterm list res" where
  "PgturbohybridBm25ExtractTerms query =
     (if length query > 0
      then bindE (PgturbohybridBm25CollectPositiveTerms (length query) query 0 False []) (\<lambda>(_, out). Inr out)
      else Inr [])"

definition is_digit :: "u8 \<Rightarrow> bool" where "is_digit c = (48 \<le> c \<and> c \<le> 57)"
definition is_alpha :: "u8 \<Rightarrow> bool" where "is_alpha c = (97 \<le> c \<and> c \<le> 122 \<or> 65 \<le> c \<and> c \<le> 90)"

text \<open>The loop of \<open>PgturbohybridBm25TermLooksIdentifier\<close>: \<open>None\<close> is the early \<open>return true\<close>.\<close>

fun identifier_loop :: "bytes \<Rightarrow> bool \<Rightarrow> bool \<Rightarrow> (bool \<times> bool) option" where
  "identifier_loop [] hasAlpha hasDigit = Some (hasAlpha, hasDigit)"
| "identifier_loop (c # cs) hasAlpha hasDigit =
     (if is_digit c then identifier_loop cs hasAlpha True
      else if is_alpha c then identifier_loop cs True hasDigit
      else if c = 95 \<or> c = 45 then None
      else identifier_loop cs hasAlpha hasDigit)"

definition PgturbohybridBm25TermLooksIdentifier :: "bytes \<Rightarrow> bool" where
  "PgturbohybridBm25TermLooksIdentifier term =
     (if length term \<ge> 16 then True else
      case identifier_loop term False False of
        None \<Rightarrow> True
      | Some (hasAlpha, hasDigit) \<Rightarrow> length term \<ge> 6 \<and> hasAlpha \<and> hasDigit)"

section \<open>Query trees\<close>

text \<open>
  The tree a query array stands for, its layout, and the meaning of a tree for a document:
  a NOT branch does not constrain and a phrase is the conjunction of its operands.
\<close>

datatype tsq = TVal bool bytes | TNot tsq | TAnd tsq tsq | TOr tsq tsq | TPhrase tsq tsq

fun flatten :: "tsq \<Rightarrow> TSQuery" where
  "flatten (TVal p t) = [QI_VAL p t]"
| "flatten (TNot q) = QI_OPR OP_NOT 1 # flatten q"
| "flatten (TAnd l r) = QI_OPR OP_AND (1 + length (flatten r)) # flatten r @ flatten l"
| "flatten (TOr l r) = QI_OPR OP_OR (1 + length (flatten r)) # flatten r @ flatten l"
| "flatten (TPhrase l r) = QI_OPR OP_PHRASE (1 + length (flatten r)) # flatten r @ flatten l"

fun matches :: "tsq \<Rightarrow> (bytes \<Rightarrow> bool) \<Rightarrow> bool" where
  "matches (TVal p t) D = D t"
| "matches (TNot q) D = True"
| "matches (TAnd l r) D = (matches l D \<and> matches r D)"
| "matches (TOr l r) D = (matches l D \<or> matches r D)"
| "matches (TPhrase l r) D = (matches l D \<and> matches r D)"

text \<open>The operands of positive polarity in the order of the array.\<close>

fun positives :: "bool \<Rightarrow> tsq \<Rightarrow> bytes list" where
  "positives neg (TVal p t) = (if neg then [] else [t])"
| "positives neg (TNot q) = positives (\<not> neg) q"
| "positives neg (TAnd l r) = positives neg r @ positives neg l"
| "positives neg (TOr l r) = positives neg r @ positives neg l"
| "positives neg (TPhrase l r) = positives neg r @ positives neg l"

fun no_prefix :: "tsq \<Rightarrow> bool" where
  "no_prefix (TVal p t) = (\<not> p)"
| "no_prefix (TNot q) = no_prefix q"
| "no_prefix (TAnd l r) = (no_prefix l \<and> no_prefix r)"
| "no_prefix (TOr l r) = (no_prefix l \<and> no_prefix r)"
| "no_prefix (TPhrase l r) = (no_prefix l \<and> no_prefix r)"

text \<open>No NOT below a NOT.\<close>

fun no_not :: "tsq \<Rightarrow> bool" where
  "no_not (TVal p t) = True"
| "no_not (TNot q) = False"
| "no_not (TAnd l r) = (no_not l \<and> no_not r)"
| "no_not (TOr l r) = (no_not l \<and> no_not r)"
| "no_not (TPhrase l r) = (no_not l \<and> no_not r)"

fun flat_not :: "tsq \<Rightarrow> bool" where
  "flat_not (TVal p t) = True"
| "flat_not (TNot q) = no_not q"
| "flat_not (TAnd l r) = (flat_not l \<and> flat_not r)"
| "flat_not (TOr l r) = (flat_not l \<and> flat_not r)"
| "flat_not (TPhrase l r) = (flat_not l \<and> flat_not r)"

section \<open>Term lists\<close>

lemma find_index_None: "find_index P xs = None \<longleftrightarrow> (\<forall>x \<in> set xs. \<not> P x)"
  by (induction xs) auto

lemma find_index_Some: "find_index P xs = Some i \<Longrightarrow> i < length xs \<and> P (xs ! i)"
  by (induction xs arbitrary: i) (auto split: if_splits)

definition term_ok :: "TSQuery \<Rightarrow> qterm list \<Rightarrow> nat \<Rightarrow> bool" where
  "term_ok items terms i \<longleftrightarrow>
     (let t = terms ! i in qt_termLen t = length (qt_term t) \<and> qt_termHash t = PgturbohybridBm25HashTerm (qt_term t) \<and>
       qt_matchBit t = push_bit i 1 \<and> qt_qitemIndex t < length items \<and>
       (\<exists>p. items ! qt_qitemIndex t = QI_VAL p (qt_term t)))"

text \<open>Distinct lexemes, bit \<open>i\<close> for term \<open>i\<close>, at most 64 of them.\<close>

definition terms_ok :: "TSQuery \<Rightarrow> qterm list \<Rightarrow> bool" where
  "terms_ok items terms \<longleftrightarrow> distinct (map qt_term terms) \<and> length terms \<le> 64 \<and>
     (\<forall>i < length terms. term_ok items terms i)"

lemma terms_ok_fields:
  "terms_ok items terms \<Longrightarrow> t \<in> set terms \<Longrightarrow>
   qt_termLen t = length (qt_term t) \<and> qt_termHash t = PgturbohybridBm25HashTerm (qt_term t)"
  by (auto simp: terms_ok_def term_ok_def Let_def in_set_conv_nth)

lemma find_term_None:
  "terms_ok items terms \<Longrightarrow> PgturbohybridBm25FindQueryTerm terms term = None \<longleftrightarrow> term \<notin> qt_term ` set terms"
  using terms_ok_fields [of items terms]
  by (auto simp: PgturbohybridBm25FindQueryTerm_def find_index_None)

lemma find_term_Some:
  "PgturbohybridBm25FindQueryTerm terms term = Some i \<Longrightarrow> i < length terms \<and> qt_term (terms ! i) = term"
  by (auto simp: PgturbohybridBm25FindQueryTerm_def dest: find_index_Some)

lemma and_push_bit_1: "n < 64 \<Longrightarrow> (m :: u64) AND push_bit n 1 \<noteq> 0 \<longleftrightarrow> bit m n"
  by (simp add: and_exp_eq_0_iff_not_bit)

lemma u64_eq_iff: "(a :: u64) = b \<longleftrightarrow> (\<forall>n. bit a n = bit b n)"
  by (auto intro: bit_word_eqI)

lemma ex_set_conv_ex_nth: "(\<exists>x \<in> set xs. P x) \<longleftrightarrow> (\<exists>i < length xs. P (xs ! i))"
  by (metis in_set_conv_nth)

text \<open>The bit mask of the terms a document has.\<close>

definition doc_mask :: "qterm list \<Rightarrow> (bytes \<Rightarrow> bool) \<Rightarrow> u64" where
  "doc_mask terms D = required_mask (filter (\<lambda>t. D (qt_term t)) terms)"

lemma bit_fold_or: "bit (fold (\<lambda>t m. m OR qt_matchBit t) ts m) j \<longleftrightarrow> bit m j \<or> (\<exists>t \<in> set ts. bit (qt_matchBit t) j)"
  by (induction ts arbitrary: m) (auto simp: bit_or_iff)

lemma bit_required_mask: "bit (required_mask ts) j \<longleftrightarrow> (\<exists>t \<in> set ts. bit (qt_matchBit t) j)"
  by (simp add: required_mask_def bit_fold_or)

lemma term_bit:
  assumes "terms_ok items terms" "i < length terms"
  shows "bit (qt_matchBit (terms ! i)) j \<longleftrightarrow> j = i"
proof -
  have "i < 64" "qt_matchBit (terms ! i) = push_bit i 1" using assms by (auto simp: terms_ok_def term_ok_def Let_def)
  then show ?thesis by (auto simp: bit_exp_iff)
qed

lemma bit_doc_mask:
  assumes "terms_ok items terms"
  shows "bit (doc_mask terms D) j \<longleftrightarrow> j < length terms \<and> D (qt_term (terms ! j))"
  unfolding doc_mask_def bit_required_mask
  using term_bit [OF assms] by (auto simp: in_set_conv_nth)


section \<open>Evaluation by walking the items\<close>

lemma flatten_not_Nil [simp]: "flatten q \<noteq> []"
  by (cases q) auto

text \<open>An operand finds its own term, by its position or by its lexeme.\<close>

lemma operand_lookup:
  assumes ok: "terms_ok items terms" and item: "items ! idx = QI_VAL p term"
  shows "(case (case PgturbohybridBm25FindQueryTermByItem terms idx of None \<Rightarrow> PgturbohybridBm25FindQueryTerm terms term
            | Some t \<Rightarrow> Some t) of None \<Rightarrow> False | Some n \<Rightarrow> doc_mask terms D AND qt_matchBit (terms ! n) \<noteq> 0)
    \<longleftrightarrow> term \<in> qt_term ` set terms \<and> D term"
proof -
  have bit: "doc_mask terms D AND qt_matchBit (terms ! n) \<noteq> 0 \<longleftrightarrow> D (qt_term (terms ! n))" if "n < length terms" for n
  proof -
    have "n < 64" "qt_matchBit (terms ! n) = push_bit n 1" using ok that by (auto simp: terms_ok_def term_ok_def Let_def)
    then show ?thesis using and_push_bit_1 [of n] bit_doc_mask [OF ok, of D n] that by simp
  qed
  show ?thesis
  proof (cases "PgturbohybridBm25FindQueryTermByItem terms idx")
    case None
    then show ?thesis
    proof (cases "PgturbohybridBm25FindQueryTerm terms term")
      case (Some n)
      then show ?thesis using None bit [of n] find_term_Some [OF Some] by (auto intro: image_eqI [of _ _ "terms ! n"])
    qed (use None find_term_None [OF ok, of "term"] in simp)
  next
    case (Some n)
    then have "n < length terms" "qt_qitemIndex (terms ! n) = idx"
      by (auto simp: PgturbohybridBm25FindQueryTermByItem_def dest: find_index_Some)
    moreover from this have "qt_term (terms ! n) = term" using ok item by (auto simp: terms_ok_def term_ok_def Let_def)
    ultimately show ?thesis using Some bit [of n] by (auto intro: image_eqI [of _ _ "terms ! n"])
  qed
qed

lemma eval_flatten:
  assumes ok: "terms_ok items terms"
  shows "items = pre @ flatten q @ post \<Longrightarrow> length (flatten q) \<le> fuel \<Longrightarrow>
    PgturbohybridBm25EvalTsQueryItem fuel items (length pre) terms (doc_mask terms D) =
      Inr (matches q (\<lambda>t. t \<in> qt_term ` set terms \<and> D t))"
proof (induction q arbitrary: pre post fuel)
  case (TVal p t)
  then obtain f where f: "fuel = Suc f" by (cases fuel) auto
  have it: "items ! length pre = QI_VAL p t" using TVal by (simp add: nth_append)
  show ?case using TVal f it operand_lookup [OF ok it] by simp
next
  case (TNot q)
  then obtain f where f: "fuel = Suc f" by (cases fuel) auto
  then show ?case using TNot by (simp add: nth_append)
next
  case (TAnd l r)
  then obtain f where f: "fuel = Suc f" by (cases fuel) auto
  note L = TAnd.IH(1) [of "pre @ QI_OPR OP_AND (1 + length (flatten r)) # flatten r" post f]
  note R = TAnd.IH(2) [of "pre @ [QI_OPR OP_AND (1 + length (flatten r))]" "flatten l @ post" f]
  show ?case using L R TAnd.prems f by (simp add: nth_append add.assoc)
next
  case (TOr l r)
  then obtain f where f: "fuel = Suc f" by (cases fuel) auto
  note L = TOr.IH(1) [of "pre @ QI_OPR OP_OR (1 + length (flatten r)) # flatten r" post f]
  note R = TOr.IH(2) [of "pre @ [QI_OPR OP_OR (1 + length (flatten r))]" "flatten l @ post" f]
  show ?case using L R TOr.prems f by (simp add: nth_append add.assoc)
next
  case (TPhrase l r)
  then obtain f where f: "fuel = Suc f" by (cases fuel) auto
  note L = TPhrase.IH(1) [of "pre @ QI_OPR OP_PHRASE (1 + length (flatten r)) # flatten r" post f]
  note R = TPhrase.IH(2) [of "pre @ [QI_OPR OP_PHRASE (1 + length (flatten r))]" "flatten l @ post" f]
  show ?case using L R TPhrase.prems f by (simp add: nth_append add.assoc)
qed

text \<open>A tree of positive operands that were all extracted is decided by the document alone.\<close>

lemma matches_cong:
  "no_not q \<Longrightarrow> (\<And>t. t \<in> set (positives False q) \<Longrightarrow> D t = E t) \<Longrightarrow> matches q D = matches q E"
  by (induction q) auto

lemma matches_cong_flat:
  "flat_not q \<Longrightarrow> (\<And>t. t \<in> set (positives False q) \<Longrightarrow> D t = E t) \<Longrightarrow> matches q D = matches q E"
  by (induction q) auto

lemma positives_negated: "no_not q \<Longrightarrow> positives True q = []"
  by (induction q) auto

section \<open>Extraction\<close>

definition snoc_new :: "'a \<Rightarrow> 'a list \<Rightarrow> 'a list" where
  "snoc_new x xs = (if x \<in> set xs then xs else xs @ [x])"

lemma fold_snoc_new_set [simp]: "set (fold snoc_new ys xs) = set xs \<union> set ys"
  by (induction ys arbitrary: xs) (auto simp: snoc_new_def)

lemma fold_snoc_new_length: "length xs \<le> length (fold snoc_new ys xs)"
proof (induction ys arbitrary: xs)
  case (Cons y ys)
  have "length xs \<le> length (snoc_new y xs)" by (simp add: snoc_new_def)
  also have "\<dots> \<le> length (fold snoc_new ys (snoc_new y xs))" by (rule Cons.IH)
  finally show ?case by simp
qed simp

lemma add_term_ok:
  assumes ok: "terms_ok items out" and "idx < length items" "items ! idx = QI_VAL p term"
    and "length (snoc_new term (map qt_term out)) \<le> 64"
  shows "\<exists>out'. add_term idx term out = Inr out' \<and> terms_ok items out' \<and> map qt_term out' = snoc_new term (map qt_term out)"
proof (cases "PgturbohybridBm25FindQueryTerm out term")
  case None
  then have new: "term \<notin> qt_term ` set out" using find_term_None [OF ok] by simp
  then have "length out < 64" using assms(4) by (simp add: snoc_new_def)
  then show ?thesis using ok assms None new
    by (auto simp: add_term_def terms_ok_def term_ok_def Let_def nth_append snoc_new_def less_Suc_eq)
next
  case (Some i)
  then have "term \<in> qt_term ` set out" using find_term_None [OF ok, of "term"] by simp
  then show ?thesis using ok Some by (simp add: add_term_def snoc_new_def)
qed

lemma collect_pair:
  assumes "items ! idx = QI_OPR oper left" "oper \<noteq> OP_NOT" "idx < length items"
    and "PgturbohybridBm25CollectPositiveTerms f items (idx + 1) neg out = Inr (i1, out1)"
    and "PgturbohybridBm25CollectPositiveTerms f items i1 neg out1 = Inr (i2, out2)"
  shows "PgturbohybridBm25CollectPositiveTerms (Suc f) items idx neg out = Inr (i2, out2)"
  using assms by (cases oper) auto

definition collects :: "TSQuery \<Rightarrow> tsq \<Rightarrow> bool" where
  "collects items q \<longleftrightarrow> (\<forall>pre post fuel neg out. items = pre @ flatten q @ post \<longrightarrow> length (flatten q) \<le> fuel \<longrightarrow>
     no_prefix q \<longrightarrow> terms_ok items out \<longrightarrow> length (fold snoc_new (positives neg q) (map qt_term out)) \<le> 64 \<longrightarrow>
     (\<exists>out'. PgturbohybridBm25CollectPositiveTerms fuel items (length pre) neg out = Inr (length pre + length (flatten q), out') \<and>
       terms_ok items out' \<and> map qt_term out' = fold snoc_new (positives neg q) (map qt_term out)))"

lemma collects_binary:
  assumes l: "collects items l" and r: "collects items r" and oper: "oper \<noteq> OP_NOT"
    and q: "flatten q = QI_OPR oper (1 + length (flatten r)) # flatten r @ flatten l"
      "no_prefix q \<Longrightarrow> no_prefix l \<and> no_prefix r" "\<And>neg. positives neg q = positives neg r @ positives neg l"
  shows "collects items q"
  unfolding collects_def
proof (intro allI impI)
  fix pre post fuel neg out
  assume items: "items = pre @ flatten q @ post" and fuel: "length (flatten q) \<le> fuel" and "no_prefix q"
    and ok: "terms_ok items out" and len: "length (fold snoc_new (positives neg q) (map qt_term out)) \<le> 64"
  then obtain f where f: "fuel = Suc f" using q by (cases fuel) auto
  let ?op = "QI_OPR oper (1 + length (flatten r))"
  have it: "items ! length pre = ?op" "length pre < length items" using items q by (simp_all add: nth_append)
  have lenr: "length (fold snoc_new (positives neg r) (map qt_term out)) \<le> 64"
    using len fold_snoc_new_length [of "fold snoc_new (positives neg r) (map qt_term out)" "positives neg l"] by (simp add: q(3))
  have "items = (pre @ [?op]) @ flatten r @ (flatten l @ post)" using items q by simp
  from r [unfolded collects_def, rule_format, OF this, of f out neg] obtain out1 where
    o1: "PgturbohybridBm25CollectPositiveTerms f items (length pre + 1) neg out = Inr (length pre + 1 + length (flatten r), out1)"
    "terms_ok items out1" "map qt_term out1 = fold snoc_new (positives neg r) (map qt_term out)"
    using ok lenr fuel f q \<open>no_prefix q\<close> by auto
  have "items = (pre @ ?op # flatten r) @ flatten l @ post" using items q by simp
  from l [unfolded collects_def, rule_format, OF this, of f out1 neg] obtain out2 where
    o2: "PgturbohybridBm25CollectPositiveTerms f items (length pre + 1 + length (flatten r)) neg out1 =
        Inr (length pre + 1 + length (flatten r) + length (flatten l), out2)"
    "terms_ok items out2" "map qt_term out2 = fold snoc_new (positives neg q) (map qt_term out)"
    using o1 len fuel f q \<open>no_prefix q\<close> by (auto simp: add.assoc)
  from collect_pair [OF it(1) oper it(2) o1(1) o2(1)]
  show "\<exists>out'. PgturbohybridBm25CollectPositiveTerms fuel items (length pre) neg out = Inr (length pre + length (flatten q), out') \<and>
       terms_ok items out' \<and> map qt_term out' = fold snoc_new (positives neg q) (map qt_term out)"
    using o2 f q by (simp add: add.assoc)
qed

lemma collects_val: "collects items (TVal p t)"
  unfolding collects_def
proof (intro allI impI)
  fix pre post fuel neg out
  assume a: "items = pre @ flatten (TVal p t) @ post" "length (flatten (TVal p t)) \<le> fuel" "no_prefix (TVal p t)"
    "terms_ok items out" "length (fold snoc_new (positives neg (TVal p t)) (map qt_term out)) \<le> 64"
  then obtain f where f: "fuel = Suc f" by (cases fuel) auto
  have it: "items ! length pre = QI_VAL p t" "length pre < length items" using a by (simp_all add: nth_append)
  show "\<exists>out'. PgturbohybridBm25CollectPositiveTerms fuel items (length pre) neg out = Inr (length pre + length (flatten (TVal p t)), out') \<and>
       terms_ok items out' \<and> map qt_term out' = fold snoc_new (positives neg (TVal p t)) (map qt_term out)"
  proof (cases neg)
    case False
    with a have "length (snoc_new t (map qt_term out)) \<le> 64" by simp
    from add_term_ok [OF a(4) it(2,1) this] show ?thesis using False it f a(3) by auto
  qed (use it f a in simp)
qed

lemma collects_not:
  assumes "collects items q"
  shows "collects items (TNot q)"
  unfolding collects_def
proof (intro allI impI)
  fix pre post fuel neg out
  assume a: "items = pre @ flatten (TNot q) @ post" "length (flatten (TNot q)) \<le> fuel" "no_prefix (TNot q)"
    "terms_ok items out" "length (fold snoc_new (positives neg (TNot q)) (map qt_term out)) \<le> 64"
  then obtain f where f: "fuel = Suc f" by (cases fuel) auto
  have "items = (pre @ [QI_OPR OP_NOT 1]) @ flatten q @ post" using a by simp
  from assms [unfolded collects_def, rule_format, OF this, of f out "\<not> neg"]
  show "\<exists>out'. PgturbohybridBm25CollectPositiveTerms fuel items (length pre) neg out = Inr (length pre + length (flatten (TNot q)), out') \<and>
       terms_ok items out' \<and> map qt_term out' = fold snoc_new (positives neg (TNot q)) (map qt_term out)"
    using a f by (simp add: nth_append)
qed

lemma collect_flatten: "collects items q"
proof (induction q)
  case (TAnd l r) show ?case by (rule collects_binary [OF TAnd, of OP_AND]) simp_all
next
  case (TOr l r) show ?case by (rule collects_binary [OF TOr, of OP_OR]) simp_all
next
  case (TPhrase l r) show ?case by (rule collects_binary [OF TPhrase, of OP_PHRASE]) simp_all
qed (simp_all add: collects_val collects_not)

text \<open>Extraction that succeeds has seen no prefix operand and at most 64 terms.\<close>

lemma add_term_inv:
  assumes "terms_ok items out" "idx < length items" "items ! idx = QI_VAL p term" "add_term idx term out = Inr out'"
  shows "terms_ok items out' \<and> map qt_term out' = snoc_new term (map qt_term out)"
proof -
  have "length (snoc_new term (map qt_term out)) \<le> 64"
    using assms(1,4) find_term_None [OF assms(1), of "term"]
    by (auto simp: add_term_def snoc_new_def terms_ok_def split: if_splits)
  from add_term_ok [OF assms(1-3) this] assms(4) show ?thesis by auto
qed

lemma collect_inv:
  assumes "items = pre @ flatten q @ post" "terms_ok items out"
    and "PgturbohybridBm25CollectPositiveTerms fuel items (length pre) neg out = Inr (i, out')"
  shows "no_prefix q \<and> i = length pre + length (flatten q) \<and> terms_ok items out' \<and>
    map qt_term out' = fold snoc_new (positives neg q) (map qt_term out)"
  using assms
proof (induction q arbitrary: pre post fuel neg out i out')
  case (TVal p t)
  then obtain f where f: "fuel = Suc f" by (cases fuel) auto
  have it: "items ! length pre = QI_VAL p t" "length pre < length items" using TVal by (simp_all add: nth_append)
  show ?case using TVal.prems f it add_term_inv [OF TVal.prems(2) it(2,1)]
    by (auto simp: bindE_Inr_iff split: if_splits)
next
  case (TNot q)
  then obtain f where f: "fuel = Suc f" by (cases fuel) auto
  then show ?case using TNot.IH [of "pre @ [QI_OPR OP_NOT 1]" post out f "\<not> neg"] TNot.prems by (simp add: nth_append)
next
  case (TAnd l r)
  let ?pre = "pre @ [QI_OPR OP_AND (1 + length (flatten r))]"
  from TAnd.prems obtain f i1 out1 where f: "fuel = Suc f"
    "PgturbohybridBm25CollectPositiveTerms f items (length ?pre) neg out = Inr (i1, out1)"
    "PgturbohybridBm25CollectPositiveTerms f items i1 neg out1 = Inr (i, out')"
    by (cases fuel) (auto simp: nth_append bindE_Inr_iff)
  note R = TAnd.IH(2) [OF _ TAnd.prems(2) f(2), of "flatten l @ post"]
  show ?case using R TAnd.IH(1) [of "?pre @ flatten r" post out1 f neg i out'] TAnd.prems f by auto
next
  case (TOr l r)
  let ?pre = "pre @ [QI_OPR OP_OR (1 + length (flatten r))]"
  from TOr.prems obtain f i1 out1 where f: "fuel = Suc f"
    "PgturbohybridBm25CollectPositiveTerms f items (length ?pre) neg out = Inr (i1, out1)"
    "PgturbohybridBm25CollectPositiveTerms f items i1 neg out1 = Inr (i, out')"
    by (cases fuel) (auto simp: nth_append bindE_Inr_iff)
  note R = TOr.IH(2) [OF _ TOr.prems(2) f(2), of "flatten l @ post"]
  show ?case using R TOr.IH(1) [of "?pre @ flatten r" post out1 f neg i out'] TOr.prems f by auto
next
  case (TPhrase l r)
  let ?pre = "pre @ [QI_OPR OP_PHRASE (1 + length (flatten r))]"
  from TPhrase.prems obtain f i1 out1 where f: "fuel = Suc f"
    "PgturbohybridBm25CollectPositiveTerms f items (length ?pre) neg out = Inr (i1, out1)"
    "PgturbohybridBm25CollectPositiveTerms f items i1 neg out1 = Inr (i, out')"
    by (cases fuel) (auto simp: nth_append bindE_Inr_iff)
  note R = TPhrase.IH(2) [OF _ TPhrase.prems(2) f(2), of "flatten l @ post"]
  show ?case using R TPhrase.IH(1) [of "?pre @ flatten r" post out1 f neg i out'] TPhrase.prems f by auto
qed

text \<open>The distinct positive operands of a query.\<close>

definition query_terms :: "tsq \<Rightarrow> bytes list" where
  "query_terms q = fold snoc_new (positives False q) []"

lemma extract_terms:
  assumes "no_prefix q" "length (query_terms q) \<le> 64"
  shows "\<exists>terms. PgturbohybridBm25ExtractTerms (flatten q) = Inr terms \<and> terms_ok (flatten q) terms \<and>
    map qt_term terms = query_terms q"
proof -
  have "terms_ok (flatten q) []" by (simp add: terms_ok_def)
  from collect_flatten [of "flatten q" q, unfolded collects_def, rule_format, of "[]" "[]" "length (flatten q)" "[]" False]
  show ?thesis using assms \<open>terms_ok (flatten q) []\<close>
    by (auto simp: PgturbohybridBm25ExtractTerms_def query_terms_def)
qed


section \<open>Masks\<close>

lemma has_operator_simps [simp]:
  "PgturbohybridBm25QueryHasOperator (x # xs) op \<longleftrightarrow> is_oper op x \<or> PgturbohybridBm25QueryHasOperator xs op"
  "PgturbohybridBm25QueryHasOperator [] op \<longleftrightarrow> False"
  "PgturbohybridBm25QueryHasOperator (xs @ ys) op \<longleftrightarrow>
     PgturbohybridBm25QueryHasOperator xs op \<or> PgturbohybridBm25QueryHasOperator ys op"
  by (auto simp: PgturbohybridBm25QueryHasOperator_def)

lemma or_tree_matches:
  assumes "\<not> PgturbohybridBm25QueryHasOperator (flatten q) OP_AND" "\<not> PgturbohybridBm25QueryHasOperator (flatten q) OP_PHRASE"
    and "\<not> PgturbohybridBm25QueryHasOperator (flatten q) OP_NOT"
  shows "matches q D \<longleftrightarrow> (\<exists>t \<in> set (positives False q). D t)"
  using assms by (induction q) auto

lemma and_tree_matches:
  assumes "\<not> PgturbohybridBm25QueryHasOperator (flatten q) OP_OR" "flat_not q"
  shows "matches q D \<longleftrightarrow> (\<forall>t \<in> set (positives False q). D t)"
  using assms by (induction q) (auto simp: positives_negated)

lemma mask_any:
  assumes "terms_ok items terms"
  shows "doc_mask terms D AND required_mask terms \<noteq> 0 \<longleftrightarrow> (\<exists>t \<in> qt_term ` set terms. D t)"
proof -
  have "doc_mask terms D AND required_mask terms = 0 \<longleftrightarrow> (\<forall>j. \<not> (bit (doc_mask terms D) j \<and> bit (required_mask terms) j))"
    by (simp add: u64_eq_iff bit_and_iff)
  moreover have "bit (required_mask terms) j \<longleftrightarrow> j < length terms" for j
    using bit_doc_mask [OF assms, of "\<lambda>_. True"] by (simp add: doc_mask_def)
  ultimately show ?thesis using bit_doc_mask [OF assms, of D] by (simp add: all_set_conv_all_nth ex_set_conv_ex_nth) blast
qed

lemma mask_all:
  assumes "terms_ok items terms"
  shows "doc_mask terms D AND required_mask terms = required_mask terms \<longleftrightarrow> (\<forall>t \<in> qt_term ` set terms. D t)"
proof -
  have "doc_mask terms D AND required_mask terms = required_mask terms \<longleftrightarrow>
      (\<forall>j. bit (required_mask terms) j \<longrightarrow> bit (doc_mask terms D) j)"
    by (auto simp: u64_eq_iff bit_and_iff)
  moreover have "bit (required_mask terms) j \<longleftrightarrow> j < length terms" for j
    using bit_doc_mask [OF assms, of "\<lambda>_. True"] by (simp add: doc_mask_def)
  ultimately show ?thesis using bit_doc_mask [OF assms, of D] by (simp add: all_set_conv_all_nth)
qed

text \<open>
  The queries the compiled mask decides exactly: no NOT below a NOT, and a pure disjunction has
  neither a phrase nor a NOT in it.
\<close>

definition mask_exact :: "tsq \<Rightarrow> bool" where
  "mask_exact q \<longleftrightarrow> flat_not q \<and>
     (PgturbohybridBm25QueryHasOperator (flatten q) OP_OR \<and> \<not> PgturbohybridBm25QueryHasOperator (flatten q) OP_AND \<longrightarrow>
      \<not> PgturbohybridBm25QueryHasOperator (flatten q) OP_PHRASE \<and> \<not> PgturbohybridBm25QueryHasOperator (flatten q) OP_NOT)"

lemma tree_correct:
  assumes "terms_ok (flatten q) terms" "flat_not q" "qt_term ` set terms = set (positives False q)"
  shows "eval_tree (flatten q) terms (doc_mask terms D) = Inr (matches q D)"
proof -
  have "matches q (\<lambda>t. t \<in> qt_term ` set terms \<and> D t) = matches q D"
    by (rule matches_cong_flat [OF assms(2)]) (simp add: assms(3))
  then show ?thesis unfolding eval_tree_def
    using eval_flatten [OF assms(1), of "[]" q "[]" "length (flatten q)" D] by simp
qed

lemma compiled_correct:
  assumes ok: "terms_ok (flatten q) terms" and terms: "qt_term ` set terms = set (positives False q)"
    and q: "mask_exact q"
  shows "PgturbohybridBm25MatchedQuery (flatten q) terms (Some (PgturbohybridBm25CompileQueryEval (flatten q) terms))
      (doc_mask terms D) = Inr (matches q D)"
proof -
  let ?or = "PgturbohybridBm25QueryHasOperator (flatten q) OP_OR"
  let ?and = "PgturbohybridBm25QueryHasOperator (flatten q) OP_AND"
  note tree = tree_correct [OF ok _ terms, of D]
  consider (empty) "terms = []" | (single) "length terms = 1" "\<not> ?or" "\<not> ?and" | (disj) "terms \<noteq> []" "?or" "\<not> ?and"
    | (conj) "terms \<noteq> []" "?and" "\<not> ?or" | (mixed) "terms \<noteq> []" "?and" "?or" | (phrase) "terms \<noteq> []" "length terms \<noteq> 1" "\<not> ?and" "\<not> ?or"
    by blast
  then show ?thesis
  proof cases
    case empty
    then show ?thesis using tree q by (simp add: PgturbohybridBm25MatchedQuery_def PgturbohybridBm25CompileQueryEval_def mask_exact_def)
  next
    case single
    then obtain t where "terms = [t]" by (metis One_nat_def length_0_conv length_Suc_conv)
    moreover have "matches q D \<longleftrightarrow> (\<forall>t \<in> qt_term ` set terms. D t)"
      using and_tree_matches [OF single(2), of D] q terms by (simp add: mask_exact_def)
    ultimately show ?thesis using single mask_any [OF ok, of D]
      by (simp add: PgturbohybridBm25MatchedQuery_def PgturbohybridBm25CompileQueryEval_def)
  next
    case disj
    then show ?thesis using mask_any [OF ok, of D] or_tree_matches [OF disj(3), of D] q terms
      by (auto simp: PgturbohybridBm25MatchedQuery_def PgturbohybridBm25CompileQueryEval_def mask_exact_def Let_def)
  next
    case conj
    then show ?thesis using mask_all [OF ok, of D] and_tree_matches [OF conj(3), of D] q terms
      by (auto simp: PgturbohybridBm25MatchedQuery_def PgturbohybridBm25CompileQueryEval_def mask_exact_def Let_def)
  next
    case mixed
    then show ?thesis using tree q
      by (simp add: PgturbohybridBm25MatchedQuery_def PgturbohybridBm25CompileQueryEval_def mask_exact_def)
  next
    case phrase
    then show ?thesis using tree q
      by (simp add: PgturbohybridBm25MatchedQuery_def PgturbohybridBm25CompileQueryEval_def mask_exact_def)
  qed
qed


section \<open>Properties\<close>

lemma set_query_terms: "set (query_terms q) = set (positives False q)"
  by (simp add: query_terms_def)

lemma terms_set: "map qt_term terms = query_terms q \<Longrightarrow> qt_term ` set terms = set (positives False q)"
  by (metis set_map set_query_terms)

text \<open>
  Term extraction succeeds exactly for queries without prefix operands and with at
  most 64 distinct positive operands. It returns them in the order of their first
  occurrence, without duplicates, term \<open>i\<close> carrying bit \<open>i\<close> of the match mask.
\<close>

theorem extract_terms_correct:
  "(is_ok (PgturbohybridBm25ExtractTerms (flatten q)) \<longleftrightarrow> no_prefix q \<and> length (query_terms q) \<le> 64) \<and>
   (\<forall>terms. PgturbohybridBm25ExtractTerms (flatten q) = Inr terms \<longrightarrow>
      map qt_term terms = query_terms q \<and> distinct (map qt_term terms) \<and>
      (\<forall>i < length terms. qt_matchBit (terms ! i) = push_bit i 1))"
proof -
  have inv: "no_prefix q \<and> terms_ok (flatten q) terms \<and> map qt_term terms = query_terms q"
    if ex: "PgturbohybridBm25ExtractTerms (flatten q) = Inr terms" for terms
  proof -
    obtain i where "PgturbohybridBm25CollectPositiveTerms (length (flatten q)) (flatten q) 0 False [] = Inr (i, terms)"
      using ex by (cases "PgturbohybridBm25CollectPositiveTerms (length (flatten q)) (flatten q) 0 False []")
        (auto simp: PgturbohybridBm25ExtractTerms_def)
    moreover have "terms_ok (flatten q) []" by (simp add: terms_ok_def)
    ultimately show ?thesis using collect_inv [of "flatten q" "[]" q "[]" "[]" "length (flatten q)" False i terms]
      by (simp add: query_terms_def)
  qed
  have "length (query_terms q) \<le> 64" if "PgturbohybridBm25ExtractTerms (flatten q) = Inr terms" for terms
    using inv [OF that] by (metis length_map terms_ok_def)
  then show ?thesis using inv extract_terms [of q] by (auto simp: is_ok_iff terms_ok_def term_ok_def Let_def)
qed

theorem extract_terms_correct_witness:
  "\<exists>terms. PgturbohybridBm25ExtractTerms (flatten (TAnd (TVal False [97]) (TNot (TVal False [98])))) = Inr terms \<and>
     map qt_term terms = [[97]]"
proof -
  let ?q = "TAnd (TVal False [97 :: u8]) (TNot (TVal False [98]))"
  have "query_terms ?q = [[97]]" by (simp add: query_terms_def snoc_new_def)
  then show ?thesis using extract_terms_correct [of ?q] by (auto simp: is_ok_iff)
qed

lemma matched_tree: "PgturbohybridBm25MatchedQuery (flatten q) terms None m = eval_tree (flatten q) terms m"
  by (simp add: PgturbohybridBm25MatchedQuery_def)

text \<open>
  C27. For every query the mask decides exactly, the compiled evaluator and the walk over the query items
  both accept a document's match mask exactly when the document satisfies the query, NOT
  branches not constraining and phrases read as conjunctions.
\<close>

theorem matched_query_correct:
  assumes "no_prefix q" "length (query_terms q) \<le> 64" "mask_exact q"
  shows "\<exists>terms. PgturbohybridBm25ExtractTerms (flatten q) = Inr terms \<and>
    (\<forall>D. PgturbohybridBm25MatchedQuery (flatten q) terms (Some (PgturbohybridBm25CompileQueryEval (flatten q) terms))
           (doc_mask terms D) = Inr (matches q D) \<and>
         PgturbohybridBm25MatchedQuery (flatten q) terms None (doc_mask terms D) = Inr (matches q D))"
proof -
  obtain terms where t: "PgturbohybridBm25ExtractTerms (flatten q) = Inr terms" "terms_ok (flatten q) terms"
    "map qt_term terms = query_terms q" using extract_terms [OF assms(1,2)] by blast
  have "flat_not q" using assms(3) by (simp add: mask_exact_def)
  then show ?thesis
    using t compiled_correct [OF t(2) terms_set [OF t(3)] assms(3)] tree_correct [OF t(2) _ terms_set [OF t(3)]]
    by (intro exI [of _ terms]) (simp add: matched_tree)
qed

theorem matched_query_correct_witness:
  "\<exists>terms. PgturbohybridBm25ExtractTerms (flatten (TAnd (TVal False [97]) (TOr (TVal False [98]) (TVal False [99])))) = Inr terms \<and>
    PgturbohybridBm25MatchedQuery (flatten (TAnd (TVal False [97]) (TOr (TVal False [98]) (TVal False [99])))) terms
      (Some (PgturbohybridBm25CompileQueryEval (flatten (TAnd (TVal False [97]) (TOr (TVal False [98]) (TVal False [99])))) terms))
      (doc_mask terms (\<lambda>t. t \<in> {[97], [99]})) = Inr True"
proof -
  let ?q = "TAnd (TVal False [97 :: u8]) (TOr (TVal False [98]) (TVal False [99]))"
  have q: "no_prefix ?q" "length (query_terms ?q) \<le> 64" "mask_exact ?q"
    by (simp_all add: query_terms_def snoc_new_def mask_exact_def)
  have "matches ?q (\<lambda>t. t \<in> {[97], [99]})" by simp
  then show ?thesis using matched_query_correct [OF q] by metis
qed

text \<open>
  C28. The compiled evaluator does not treat a phrase like a conjunction when the query is a
  disjunction: for \<open>(a <-> b) | c\<close> it accepts a document that has only the lexeme \<open>a\<close>,
  which the walk over the query items rejects.
\<close>

theorem phrase_in_disjunction_diverges:
  "\<exists>terms. PgturbohybridBm25ExtractTerms (flatten (TOr (TPhrase (TVal False [97]) (TVal False [98])) (TVal False [99]))) = Inr terms \<and>
    PgturbohybridBm25MatchedQuery (flatten (TOr (TPhrase (TVal False [97]) (TVal False [98])) (TVal False [99]))) terms
      (Some (PgturbohybridBm25CompileQueryEval (flatten (TOr (TPhrase (TVal False [97]) (TVal False [98])) (TVal False [99]))) terms))
      (doc_mask terms (\<lambda>t. t = [97])) = Inr True \<and>
    PgturbohybridBm25MatchedQuery (flatten (TOr (TPhrase (TVal False [97]) (TVal False [98])) (TVal False [99]))) terms None
      (doc_mask terms (\<lambda>t. t = [97])) = Inr False"
proof -
  let ?q = "TOr (TPhrase (TVal False [97 :: u8]) (TVal False [98])) (TVal False [99])"
  have q: "no_prefix ?q" "length (query_terms ?q) \<le> 64" "flat_not ?q"
    by (simp_all add: query_terms_def snoc_new_def)
  obtain terms where t: "PgturbohybridBm25ExtractTerms (flatten ?q) = Inr terms" "terms_ok (flatten ?q) terms"
    "map qt_term terms = query_terms ?q" using extract_terms [OF q(1,2)] by (elim exE conjE) (rule that)
  have "qt_term ` set terms = {[99], [98], [97]}" using terms_set [OF t(3)] by auto
  then have "\<exists>t \<in> qt_term ` set terms. t = [97]" by simp
  then have "doc_mask terms (\<lambda>t. t = [97]) AND required_mask terms \<noteq> 0" "terms \<noteq> []"
    using mask_any [OF t(2), of "\<lambda>t. t = [97]"] by (simp, force)
  then have "PgturbohybridBm25MatchedQuery (flatten ?q) terms (Some (PgturbohybridBm25CompileQueryEval (flatten ?q) terms))
      (doc_mask terms (\<lambda>t. t = [97])) = Inr True"
    by (simp add: PgturbohybridBm25MatchedQuery_def PgturbohybridBm25CompileQueryEval_def)
  moreover have "PgturbohybridBm25MatchedQuery (flatten ?q) terms None (doc_mask terms (\<lambda>t. t = [97])) = Inr False"
    unfolding matched_tree tree_correct [OF t(2) q(3) terms_set [OF t(3)]] by simp
  ultimately show ?thesis using t(1) by blast
qed

end
