(* ===== verification/Bm25_Accumulator.thy ===== *)
theory Bm25_Accumulator
  imports Array_Heap Bm25_Boolean Bm25_Alloc
begin

text \<open>
  The score accumulator of a BM25 query in \<open>src/src/pgturbohybrid_bm25_query.c\<close>: a map from
  node ids to partial scores, kept in a hash table or in a dense array whose entries are
  valid when their generation is the current one, with a min-heap of pointers to
  the best entries and back pointers into that heap; and the selection of the final top k.

  Floating-point addition is the parameter \<open>fadd\<close>; a lemma that needs the sum of a score and a
  non-negative contribution not to fall says so. Diagnostic counters are left out.
\<close>

section \<open>Data\<close>

datatype accumulator_mode = ACCUMULATOR_HASH | ACCUMULATOR_DENSE

record PgturbohybridBm25AccumulatorEntry =
  ae_nodeId :: u32
  ae_score :: cdouble
  ae_docLen :: u32
  ae_heaptid :: ItemPointerData
  ae_matchedTerms :: u64
  ae_hasDeltaDoc :: bool
  ae_heapIndex :: int

type_synonym accentry = PgturbohybridBm25AccumulatorEntry

text \<open>The backend-wide dense array; it outlives a query.\<close>

record dense_accumulator =
  da_entries :: "accentry list"
  da_generations :: "u32 list"
  da_generation :: u32
  da_capacity :: nat

text \<open>
  An entry is addressed by its node id: \<open>topHeap\<close> holds pointers to entries, which neither
  the array nor the hash table moves during a query. \<open>touched\<close> lists its live cells.
\<close>

record PgturbohybridBm25Accumulator =
  acc_mode :: accumulator_mode
  acc_entries :: "u32 \<rightharpoonup> accentry"
  acc_dense :: dense_accumulator
  acc_touched :: "(u32 \<times> cdouble) list"
  acc_touchedCapacity :: nat
  acc_topHeap :: "u32 list"
  acc_topHeapCount :: nat
  acc_topHeapCapacity :: nat
  acc_threshold :: cdouble
  acc_seedThreshold :: cdouble

type_synonym accu = PgturbohybridBm25Accumulator

section \<open>Initialisation\<close>

definition sizeof_accentry :: nat where "sizeof_accentry = 48"
definition sizeof_nodescore :: nat where "sizeof_nodescore = 16"

text \<open>Growing the dense array: \<open>junk\<close> stands for the uninitialised new entries.\<close>

definition dense_grow :: "accentry \<Rightarrow> dense_accumulator \<Rightarrow> nat \<Rightarrow> dense_accumulator res" where
  "dense_grow junk da nodeCount =
     (if da_capacity da < nodeCount then
        bindE (PgturbohybridBm25ArrayAllocSize sizeof_accentry nodeCount) (\<lambda>_.
        bindE (PgturbohybridBm25ArrayAllocSize 4 nodeCount) (\<lambda>_.
          Inr (da\<lparr>da_entries := da_entries da @ replicate (nodeCount - da_capacity da) junk,
                  da_generations := da_generations da @ replicate (nodeCount - da_capacity da) 0,
                  da_capacity := nodeCount\<rparr>)))
      else Inr da)"

definition dense_next_generation :: "dense_accumulator \<Rightarrow> dense_accumulator" where
  "dense_next_generation da =
     (if da_generation da + 1 = 0
      then da\<lparr>da_generations := replicate (da_capacity da) 0, da_generation := 1\<rparr>
      else da\<lparr>da_generation := da_generation da + 1\<rparr>)"

definition PgturbohybridBm25AccumulatorInit ::
    "accentry \<Rightarrow> dense_accumulator \<Rightarrow> nat \<Rightarrow> nat \<Rightarrow> accumulator_mode \<Rightarrow> nat \<Rightarrow> accu res" where
  "PgturbohybridBm25AccumulatorInit junk da initialSize topK mode nodeCount =
     bindE (if mode = ACCUMULATOR_DENSE
            then bindE (dense_grow junk da nodeCount) (\<lambda>da'. Inr (dense_next_generation da'))
            else Inr da) (\<lambda>da'.
     bindE (PgturbohybridBm25ArrayAllocSize sizeof_nodescore (max initialSize 16)) (\<lambda>_.
     bindE (PgturbohybridBm25ArrayAllocSize 8 topK) (\<lambda>_.
       Inr \<lparr>acc_mode = mode, acc_entries = Map.empty, acc_dense = da', acc_touched = [],
            acc_touchedCapacity = max initialSize 16, acc_topHeap = replicate topK 0,
            acc_topHeapCount = 0, acc_topHeapCapacity = topK, acc_threshold = Fin 0, acc_seedThreshold = Fin 0\<rparr>)))"

section \<open>Entries\<close>

text \<open>Following an entry pointer, and writing through it.\<close>

definition acc_get :: "accu \<Rightarrow> u32 \<Rightarrow> accentry" where
  "acc_get acc n = (case acc_mode acc of
     ACCUMULATOR_DENSE \<Rightarrow> da_entries (acc_dense acc) ! unat n
   | ACCUMULATOR_HASH \<Rightarrow> the (acc_entries acc n))"

definition acc_set :: "u32 \<Rightarrow> accentry \<Rightarrow> accu \<Rightarrow> accu" where
  "acc_set n e acc = (case acc_mode acc of
     ACCUMULATOR_DENSE \<Rightarrow> acc\<lparr>acc_dense := (acc_dense acc)\<lparr>da_entries := (da_entries (acc_dense acc))[unat n := e]\<rparr>\<rparr>
   | ACCUMULATOR_HASH \<Rightarrow> acc\<lparr>acc_entries := (acc_entries acc)(n \<mapsto> e)\<rparr>)"

definition invalid_tid :: ItemPointerData where
  "invalid_tid = \<lparr>ip_blkid = 0xffffffff, ip_posid = 0\<rparr>"

definition fresh_entry :: "u32 \<Rightarrow> accentry" where
  "fresh_entry nodeId = \<lparr>ae_nodeId = nodeId, ae_score = Fin 0, ae_docLen = 0, ae_heaptid = invalid_tid,
     ae_matchedTerms = 0, ae_hasDeltaDoc = False, ae_heapIndex = -1\<rparr>"

definition acc_found :: "accu \<Rightarrow> u32 \<Rightarrow> bool" where
  "acc_found acc nodeId = (case acc_mode acc of
     ACCUMULATOR_DENSE \<Rightarrow> unat nodeId < da_capacity (acc_dense acc) \<and>
       da_generations (acc_dense acc) ! unat nodeId = da_generation (acc_dense acc)
   | ACCUMULATOR_HASH \<Rightarrow> acc_entries acc nodeId \<noteq> None)"

definition acc_mark :: "u32 \<Rightarrow> accu \<Rightarrow> accu" where
  "acc_mark nodeId acc = (case acc_mode acc of
     ACCUMULATOR_DENSE \<Rightarrow> acc\<lparr>acc_dense := (acc_dense acc)\<lparr>da_generations :=
       (da_generations (acc_dense acc))[unat nodeId := da_generation (acc_dense acc)]\<rparr>\<rparr>
   | ACCUMULATOR_HASH \<Rightarrow> acc)"

definition touch_node :: "u32 \<Rightarrow> accu \<Rightarrow> accu res" where
  "touch_node nodeId acc =
     bindE (if length (acc_touched acc) \<ge> acc_touchedCapacity acc
            then PgturbohybridBm25GrowCapacity32 (acc_touchedCapacity acc) (length (acc_touched acc) + 1) sizeof_nodescore
            else Inr (acc_touchedCapacity acc)) (\<lambda>cap.
       Inr (acc\<lparr>acc_touchedCapacity := cap, acc_touched := acc_touched acc @ [(nodeId, Fin 0)]\<rparr>))"

text \<open>The result is the accumulator and whether there is an entry for the node.\<close>

definition PgturbohybridBm25AccumulatorLookup :: "accu \<Rightarrow> u32 \<Rightarrow> bool \<Rightarrow> (accu \<times> bool) res" where
  "PgturbohybridBm25AccumulatorLookup acc nodeId create =
     (if acc_mode acc = ACCUMULATOR_DENSE \<and> unat nodeId \<ge> da_capacity (acc_dense acc) then Inr (acc, False)
      else if acc_found acc nodeId \<or> \<not> create then Inr (acc, acc_found acc nodeId)
      else bindE (touch_node nodeId (acc_set nodeId (fresh_entry nodeId) (acc_mark nodeId acc))) (\<lambda>acc'. Inr (acc', True)))"

section \<open>The heap of the best entries\<close>

definition PgturbohybridBm25AccumulatorHeapLess :: "accentry \<Rightarrow> accentry \<Rightarrow> bool" where
  "PgturbohybridBm25AccumulatorHeapLess a b =
     (if dless (ae_score a) (ae_score b) then True
      else if dless (ae_score b) (ae_score a) then False
      else ae_nodeId a > ae_nodeId b)"

definition set_heapIndex :: "u32 \<Rightarrow> int \<Rightarrow> accu \<Rightarrow> accu" where
  "set_heapIndex n i acc = acc_set n ((acc_get acc n)\<lparr>ae_heapIndex := i\<rparr>) acc"

definition PgturbohybridBm25AccumulatorHeapSwap :: "accu \<Rightarrow> nat \<Rightarrow> nat \<Rightarrow> accu" where
  "PgturbohybridBm25AccumulatorHeapSwap acc a b =
     (let h = swap (acc_topHeap acc) a b
      in set_heapIndex (h ! b) (int b) (set_heapIndex (h ! a) (int a) (acc\<lparr>acc_topHeap := h\<rparr>)))"

definition heap_less_at :: "accu \<Rightarrow> nat \<Rightarrow> nat \<Rightarrow> bool" where
  "heap_less_at acc i j =
     PgturbohybridBm25AccumulatorHeapLess (acc_get acc (acc_topHeap acc ! i)) (acc_get acc (acc_topHeap acc ! j))"

function PgturbohybridBm25AccumulatorHeapSiftUp :: "accu \<Rightarrow> nat \<Rightarrow> accu" where
  "PgturbohybridBm25AccumulatorHeapSiftUp acc pos =
     (if pos > 0 \<and> heap_less_at acc pos (parent pos)
      then PgturbohybridBm25AccumulatorHeapSiftUp (PgturbohybridBm25AccumulatorHeapSwap acc pos (parent pos)) (parent pos)
      else acc)"
  by pat_completeness auto
termination by (relation "measure (\<lambda>(acc, pos). pos)") auto

definition heap_smallest :: "accu \<Rightarrow> nat \<Rightarrow> nat" where
  "heap_smallest acc pos =
     (let left = pos * 2 + 1; right = left + 1;
          s = (if left < acc_topHeapCount acc \<and> heap_less_at acc left pos then left else pos)
      in if right < acc_topHeapCount acc \<and> heap_less_at acc right s then right else s)"

lemma acc_set_sel [simp]:
  "acc_topHeapCount (acc_set n e acc) = acc_topHeapCount acc"
  "acc_topHeap (acc_set n e acc) = acc_topHeap acc"
  "acc_topHeapCapacity (acc_set n e acc) = acc_topHeapCapacity acc"
  "acc_mode (acc_set n e acc) = acc_mode acc"
  "acc_touched (acc_set n e acc) = acc_touched acc"
  "acc_touchedCapacity (acc_set n e acc) = acc_touchedCapacity acc"
  "acc_threshold (acc_set n e acc) = acc_threshold acc"
  "acc_seedThreshold (acc_set n e acc) = acc_seedThreshold acc"
  "da_capacity (acc_dense (acc_set n e acc)) = da_capacity (acc_dense acc)"
  "da_generations (acc_dense (acc_set n e acc)) = da_generations (acc_dense acc)"
  "da_generation (acc_dense (acc_set n e acc)) = da_generation (acc_dense acc)"
  "length (da_entries (acc_dense (acc_set n e acc))) = length (da_entries (acc_dense acc))"
  by (simp_all add: acc_set_def split: accumulator_mode.split)

lemma swap_topHeapCount [simp]: "acc_topHeapCount (PgturbohybridBm25AccumulatorHeapSwap acc a b) = acc_topHeapCount acc"
  by (simp add: PgturbohybridBm25AccumulatorHeapSwap_def Let_def set_heapIndex_def)

function PgturbohybridBm25AccumulatorHeapSiftDown :: "accu \<Rightarrow> nat \<Rightarrow> accu" where
  "PgturbohybridBm25AccumulatorHeapSiftDown acc pos =
     (let smallest = heap_smallest acc pos
      in if smallest = pos then acc
         else PgturbohybridBm25AccumulatorHeapSiftDown (PgturbohybridBm25AccumulatorHeapSwap acc pos smallest) smallest)"
  by pat_completeness auto
termination
  by (relation "measure (\<lambda>(acc, pos). acc_topHeapCount acc - pos)")
    (auto simp: heap_smallest_def Let_def split: if_splits)

declare PgturbohybridBm25AccumulatorHeapSiftUp.simps [simp del]
declare PgturbohybridBm25AccumulatorHeapSiftDown.simps [simp del]

definition PgturbohybridBm25AccumulatorRefreshThreshold :: "accu \<Rightarrow> accu" where
  "PgturbohybridBm25AccumulatorRefreshThreshold acc =
     acc\<lparr>acc_threshold := (if acc_topHeapCapacity acc > 0 \<and> acc_topHeapCount acc = acc_topHeapCapacity acc
                            then ae_score (acc_get acc (acc_topHeap acc ! 0)) else Fin 0)\<rparr>"

definition PgturbohybridBm25AccumulatorUpdateTopK :: "accu \<Rightarrow> u32 \<Rightarrow> accu" where
  "PgturbohybridBm25AccumulatorUpdateTopK acc entry =
     (if acc_topHeapCapacity acc = 0 then acc
      else PgturbohybridBm25AccumulatorRefreshThreshold
        (if ae_heapIndex (acc_get acc entry) \<ge> 0
         then PgturbohybridBm25AccumulatorHeapSiftDown acc (nat (ae_heapIndex (acc_get acc entry)))
         else if acc_topHeapCount acc < acc_topHeapCapacity acc then
           (let n = acc_topHeapCount acc;
                acc1 = set_heapIndex entry (int n) acc;
                acc2 = acc1\<lparr>acc_topHeap := (acc_topHeap acc1)[n := entry], acc_topHeapCount := n + 1\<rparr>
            in PgturbohybridBm25AccumulatorHeapSiftUp acc2 n)
         else if dless (ae_score (acc_get acc (acc_topHeap acc ! 0))) (ae_score (acc_get acc entry)) then
           (let acc1 = set_heapIndex entry 0 (set_heapIndex (acc_topHeap acc ! 0) (-1) acc);
                acc2 = acc1\<lparr>acc_topHeap := (acc_topHeap acc1)[0 := entry]\<rparr>
            in PgturbohybridBm25AccumulatorHeapSiftDown acc2 0)
         else acc))"

definition PgturbohybridBm25AccumulatorAddTermScore ::
    "(cdouble \<Rightarrow> cdouble \<Rightarrow> cdouble) \<Rightarrow> accu \<Rightarrow> u32 \<Rightarrow> cdouble \<Rightarrow> u64 \<Rightarrow> accu res" where
  "PgturbohybridBm25AccumulatorAddTermScore fadd acc nodeId score matchBit =
     bindE (PgturbohybridBm25AccumulatorLookup acc nodeId True) (\<lambda>(acc1, found).
       if \<not> found then Inr acc1
       else let e = acc_get acc1 nodeId;
                acc2 = acc_set nodeId (e\<lparr>ae_score := fadd (ae_score e) score,
                                        ae_matchedTerms := ae_matchedTerms e OR matchBit\<rparr>) acc1
            in Inr (PgturbohybridBm25AccumulatorUpdateTopK acc2 nodeId))"


section \<open>Entries as a store\<close>

definition acc_valid :: "accu \<Rightarrow> u32 \<Rightarrow> bool" where
  "acc_valid acc n = (case acc_mode acc of
     ACCUMULATOR_DENSE \<Rightarrow> unat n < length (da_entries (acc_dense acc))
   | ACCUMULATOR_HASH \<Rightarrow> acc_entries acc n \<noteq> None)"

lemma acc_get_set:
  "acc_valid acc n \<Longrightarrow> acc_get (acc_set n e acc) m = (if m = n then e else acc_get acc m)"
  by (auto simp: acc_get_def acc_set_def acc_valid_def nth_list_update split: accumulator_mode.split dest: unsigned_word_eqI)

lemma acc_valid_set [simp]: "acc_valid acc n \<Longrightarrow> acc_valid (acc_set n e acc) m = acc_valid acc m"
  by (auto simp: acc_set_def acc_valid_def split: accumulator_mode.split)

lemma acc_found_set [simp]: "acc_valid acc n \<Longrightarrow> acc_found (acc_set n e acc) m = acc_found acc m"
  by (auto simp: acc_set_def acc_valid_def acc_found_def split: accumulator_mode.split)

lemma acc_heap_upd [simp]:
  "acc_get (acc\<lparr>acc_topHeap := h\<rparr>) = acc_get acc" "acc_get (acc\<lparr>acc_topHeapCount := c\<rparr>) = acc_get acc"
  "acc_get (acc\<lparr>acc_threshold := t\<rparr>) = acc_get acc"
  "acc_valid (acc\<lparr>acc_topHeap := h\<rparr>) = acc_valid acc" "acc_valid (acc\<lparr>acc_topHeapCount := c\<rparr>) = acc_valid acc"
  "acc_valid (acc\<lparr>acc_threshold := t\<rparr>) = acc_valid acc"
  "acc_found (acc\<lparr>acc_topHeap := h\<rparr>) = acc_found acc" "acc_found (acc\<lparr>acc_topHeapCount := c\<rparr>) = acc_found acc"
  "acc_found (acc\<lparr>acc_threshold := t\<rparr>) = acc_found acc"
  by (auto simp: acc_get_def acc_valid_def acc_found_def fun_eq_iff split: accumulator_mode.split)

text \<open>An entry without its back pointer; the heap operations change nothing else of an entry.\<close>

definition ecore :: "accentry \<Rightarrow> accentry" where
  "ecore e = e\<lparr>ae_heapIndex := 0\<rparr>"

lemma ecore_simps [simp]:
  "ecore (ae_heapIndex_update f e) = ecore e"
  "ae_score (ecore e) = ae_score e" "ae_nodeId (ecore e) = ae_nodeId e" "ae_matchedTerms (ecore e) = ae_matchedTerms e"
  by (cases e; simp add: ecore_def)+

lemma less_ecore:
  "ecore a = ecore a' \<Longrightarrow> ecore b = ecore b' \<Longrightarrow>
   PgturbohybridBm25AccumulatorHeapLess a b = PgturbohybridBm25AccumulatorHeapLess a' b'"
  unfolding PgturbohybridBm25AccumulatorHeapLess_def by (metis ecore_simps(2,3))

definition frame :: "accu \<Rightarrow> accu \<Rightarrow> bool" where
  "frame acc acc' \<longleftrightarrow> acc_mode acc' = acc_mode acc \<and> acc_touched acc' = acc_touched acc \<and>
     acc_touchedCapacity acc' = acc_touchedCapacity acc \<and> acc_topHeapCapacity acc' = acc_topHeapCapacity acc \<and>
     length (acc_topHeap acc') = length (acc_topHeap acc) \<and>
     acc_found acc' = acc_found acc \<and> acc_valid acc' = acc_valid acc \<and>
     da_capacity (acc_dense acc') = da_capacity (acc_dense acc) \<and>
     da_generations (acc_dense acc') = da_generations (acc_dense acc) \<and>
     da_generation (acc_dense acc') = da_generation (acc_dense acc) \<and>
     length (da_entries (acc_dense acc')) = length (da_entries (acc_dense acc)) \<and>
     (\<forall>n. ecore (acc_get acc' n) = ecore (acc_get acc n))"

lemma frame_refl [simp]: "frame acc acc"
  by (simp add: frame_def)

lemma frame_trans: "frame a b \<Longrightarrow> frame b c \<Longrightarrow> frame a c"
  unfolding frame_def by simp

lemma frame_set_heapIndex: "acc_valid acc n \<Longrightarrow> frame acc (set_heapIndex n i acc)"
  by (simp add: frame_def set_heapIndex_def acc_get_set fun_eq_iff)

lemma frame_set_topHeap: "length h = length (acc_topHeap acc) \<Longrightarrow> frame acc (acc\<lparr>acc_topHeap := h\<rparr>)"
  by (simp add: frame_def)

section \<open>Back pointers\<close>

abbreviation live :: "accu \<Rightarrow> u32 list" where
  "live acc \<equiv> take (acc_topHeapCount acc) (acc_topHeap acc)"

definition heap_wf :: "accu \<Rightarrow> bool" where
  "heap_wf acc \<longleftrightarrow> acc_topHeapCount acc \<le> length (acc_topHeap acc) \<and> distinct (live acc) \<and>
     (\<forall>i < acc_topHeapCount acc. acc_valid acc (acc_topHeap acc ! i) \<and>
        ae_heapIndex (acc_get acc (acc_topHeap acc ! i)) = int i) \<and>
     (\<forall>n. acc_found acc n \<and> n \<notin> set (live acc) \<longrightarrow> ae_heapIndex (acc_get acc n) = -1)"

lemma set_heapIndex_sel [simp]:
  "acc_topHeap (set_heapIndex n i acc) = acc_topHeap acc"
  "acc_topHeapCount (set_heapIndex n i acc) = acc_topHeapCount acc"
  by (simp_all add: set_heapIndex_def)

lemma heap_swap_topHeap [simp]:
  "acc_topHeap (PgturbohybridBm25AccumulatorHeapSwap acc i j) = swap (acc_topHeap acc) i j"
  by (simp add: PgturbohybridBm25AccumulatorHeapSwap_def Let_def)

lemma acc_get_set_heapIndex:
  "acc_valid acc n \<Longrightarrow> acc_get (set_heapIndex n i acc) m =
     (if m = n then (acc_get acc n)\<lparr>ae_heapIndex := i\<rparr> else acc_get acc m)"
  by (simp add: set_heapIndex_def acc_get_set)

lemma heap_wf_distinct_nth:
  assumes "heap_wf acc" "i < acc_topHeapCount acc" "j < acc_topHeapCount acc"
  shows "acc_topHeap acc ! i = acc_topHeap acc ! j \<longleftrightarrow> i = j"
  using assms nth_eq_iff_index_eq [of "live acc" i j] by (simp add: heap_wf_def)

lemma heap_swap_ok:
  assumes wf: "heap_wf acc" and ij: "i < acc_topHeapCount acc" "j < acc_topHeapCount acc" "i \<noteq> j"
  shows "heap_wf (PgturbohybridBm25AccumulatorHeapSwap acc i j) \<and> frame acc (PgturbohybridBm25AccumulatorHeapSwap acc i j)"
proof -
  let ?h = "swap (acc_topHeap acc) i j" and ?n = "acc_topHeapCount acc"
  let ?a0 = "acc\<lparr>acc_topHeap := ?h\<rparr>"
  let ?a1 = "set_heapIndex (?h ! i) (int i) ?a0"
  let ?a2 = "set_heapIndex (?h ! j) (int j) ?a1"
  have s: "PgturbohybridBm25AccumulatorHeapSwap acc i j = ?a2"
    by (simp add: PgturbohybridBm25AccumulatorHeapSwap_def Let_def)
  have len: "?n \<le> length (acc_topHeap acc)" using wf by (simp add: heap_wf_def)
  have hi: "?h ! i = acc_topHeap acc ! j" "?h ! j = acc_topHeap acc ! i" using ij len by (auto simp: nth_swap)
  have v: "acc_valid acc (acc_topHeap acc ! i)" "acc_valid acc (acc_topHeap acc ! j)" using wf ij by (auto simp: heap_wf_def)
  have f0: "frame acc ?a0" by (simp add: frame_set_topHeap)
  have v0: "acc_valid ?a0 (?h ! i)" using v hi by simp
  have f1: "frame ?a0 ?a1" by (rule frame_set_heapIndex [OF v0])
  have v1: "acc_valid ?a1 (?h ! j)" using v hi f0 f1 by (simp add: frame_def)
  have f2: "frame ?a1 ?a2" by (rule frame_set_heapIndex [OF v1])
  have fr: "frame acc ?a2" using f0 f1 f2 frame_trans by blast
  have get: "acc_get ?a2 m = (if m = acc_topHeap acc ! i then (acc_get acc m)\<lparr>ae_heapIndex := int j\<rparr>
      else if m = acc_topHeap acc ! j then (acc_get acc m)\<lparr>ae_heapIndex := int i\<rparr> else acc_get acc m)" for m
    using acc_get_set_heapIndex [OF v1] acc_get_set_heapIndex [OF v0] hi heap_wf_distinct_nth [OF wf ij(1,2)] ij(3) by simp
  have idx: "acc_valid ?a2 (?h ! k) \<and> ae_heapIndex (acc_get ?a2 (?h ! k)) = int k" if k: "k < ?n" for k
  proof -
    have "?h ! k = (if k = i then acc_topHeap acc ! j else if k = j then acc_topHeap acc ! i else acc_topHeap acc ! k)"
      using k ij len by (simp add: nth_swap)
    moreover have "acc_valid ?a2 = acc_valid acc" using fr by (simp add: frame_def)
    ultimately show ?thesis unfolding get
      using wf k ij heap_wf_distinct_nth [OF wf] by (auto simp: heap_wf_def)
  qed
  have live: "set (take ?n ?h) = set (live acc)"
    using mset_take_swap [OF ij(1,2) len] by (metis set_mset_mset)
  have "distinct (take ?n ?h)" using mset_take_swap [OF ij(1,2) len] wf
    by (metis heap_wf_def mset_eq_imp_distinct_iff)
  moreover have "ae_heapIndex (acc_get ?a2 m) = -1" if "acc_found acc m" "m \<notin> set (live acc)" for m
    using that wf set_take_nth [OF ij(1) len] set_take_nth [OF ij(2) len] unfolding get by (auto simp: heap_wf_def)
  moreover have "acc_found ?a2 = acc_found acc" using fr by (simp add: frame_def)
  ultimately have "heap_wf ?a2" unfolding heap_wf_def using idx live len by simp
  then show ?thesis using fr s by simp
qed

text \<open>The heap of pointers is ordered by the entries it points to.\<close>

definition entry_before :: "accu \<Rightarrow> u32 \<Rightarrow> u32 \<Rightarrow> bool" where
  "entry_before acc a b = PgturbohybridBm25AccumulatorHeapLess (acc_get acc a) (acc_get acc b)"

lemma entry_before_frame: "frame acc acc' \<Longrightarrow> entry_before acc' = entry_before acc"
  by (auto simp: entry_before_def frame_def fun_eq_iff intro!: less_ecore)

lemma heap_smallest_best:
  "heap_smallest acc i = heap_best (entry_before acc) (acc_topHeap acc) (acc_topHeapCount acc) i"
  by (simp add: heap_smallest_def heap_best_def heap_less_at_def entry_before_def Let_def mult.commute)

text \<open>Sifting moves the pointers exactly as the generic heap does and keeps the back pointers right.\<close>

lemma sift_up_sim:
  "heap_wf acc \<Longrightarrow> pos < acc_topHeapCount acc \<Longrightarrow>
   heap_wf (PgturbohybridBm25AccumulatorHeapSiftUp acc pos) \<and> frame acc (PgturbohybridBm25AccumulatorHeapSiftUp acc pos) \<and>
   acc_topHeapCount (PgturbohybridBm25AccumulatorHeapSiftUp acc pos) = acc_topHeapCount acc \<and>
   acc_topHeap (PgturbohybridBm25AccumulatorHeapSiftUp acc pos) = heap_sift_up (entry_before acc) (acc_topHeap acc) pos"
proof (induction acc pos rule: PgturbohybridBm25AccumulatorHeapSiftUp.induct)
  case (1 acc pos)
  let ?c = "pos > 0 \<and> heap_less_at acc pos (parent pos)" and ?s = "PgturbohybridBm25AccumulatorHeapSwap acc pos (parent pos)"
  show ?case
  proof (cases ?c)
    case True
    then have p: "parent pos < pos" by simp
    have sw: "heap_wf ?s" "frame acc ?s" using heap_swap_ok [OF "1.prems", of "parent pos"] p "1.prems" by auto
    have "entry_before acc (acc_topHeap acc ! pos) (acc_topHeap acc ! parent pos)"
      using True by (simp add: heap_less_at_def entry_before_def)
    then show ?thesis
      using "1.IH" [OF True sw(1)] p "1.prems" True sw entry_before_frame [OF sw(2)] frame_trans [OF sw(2)]
        PgturbohybridBm25AccumulatorHeapSiftUp.simps [of acc pos]
        heap_sift_up.simps [of "entry_before acc" "acc_topHeap acc" pos] by simp
  next
    case False
    then have "\<not> (pos > 0 \<and> entry_before acc (acc_topHeap acc ! pos) (acc_topHeap acc ! parent pos))"
      by (simp add: heap_less_at_def entry_before_def)
    then show ?thesis using False "1.prems" PgturbohybridBm25AccumulatorHeapSiftUp.simps [of acc pos]
        heap_sift_up.simps [of "entry_before acc" "acc_topHeap acc" pos] by (simp only: if_False) simp
  qed
qed

lemma sift_down_sim:
  "heap_wf acc \<Longrightarrow> pos < acc_topHeapCount acc \<Longrightarrow>
   heap_wf (PgturbohybridBm25AccumulatorHeapSiftDown acc pos) \<and> frame acc (PgturbohybridBm25AccumulatorHeapSiftDown acc pos) \<and>
   acc_topHeapCount (PgturbohybridBm25AccumulatorHeapSiftDown acc pos) = acc_topHeapCount acc \<and>
   acc_topHeap (PgturbohybridBm25AccumulatorHeapSiftDown acc pos) =
     heap_sift_down (entry_before acc) (acc_topHeap acc) (acc_topHeapCount acc) pos"
proof (induction acc pos rule: PgturbohybridBm25AccumulatorHeapSiftDown.induct)
  case (1 acc pos)
  let ?b = "heap_smallest acc pos" and ?s = "PgturbohybridBm25AccumulatorHeapSwap acc pos (heap_smallest acc pos)"
  have best: "?b = heap_best (entry_before acc) (acc_topHeap acc) (acc_topHeapCount acc) pos" by (rule heap_smallest_best)
  show ?case
  proof (cases "?b = pos")
    case True
    then show ?thesis using "1.prems" best PgturbohybridBm25AccumulatorHeapSiftDown.simps [of acc pos]
        heap_sift_down.simps [of "entry_before acc" "acc_topHeap acc" "acc_topHeapCount acc" pos] by simp
  next
    case False
    have b: "?b < acc_topHeapCount acc" unfolding best using heap_best_less "1.prems" by blast
    have sw: "heap_wf ?s" "frame acc ?s" using heap_swap_ok [OF "1.prems" b] False by auto
    show ?thesis
      using "1.IH" [OF refl False sw(1)] b False sw entry_before_frame [OF sw(2)] frame_trans [OF sw(2)] best
        PgturbohybridBm25AccumulatorHeapSiftDown.simps [of acc pos]
        heap_sift_down.simps [of "entry_before acc" "acc_topHeap acc" "acc_topHeapCount acc" pos] by (simp add: Let_def)
  qed
qed


section \<open>The k best entries\<close>

text \<open>
  The accumulator represents the map \<open>S\<close> from node ids to score and matched terms: \<open>touched\<close> lists its nodes
  once each, the heap has the k best of them, and the threshold is the k-th best score.
\<close>

type_synonym scores = "u32 \<rightharpoonup> (cdouble \<times> u64)"

definition represents :: "accu \<Rightarrow> scores \<Rightarrow> bool" where
  "represents acc S \<longleftrightarrow>
     (\<forall>n. acc_found acc n \<longleftrightarrow> n \<in> dom S) \<and>
     (\<forall>n s m. S n = Some (s, m) \<longrightarrow> acc_valid acc n \<and> ae_nodeId (acc_get acc n) = n \<and>
        ae_score (acc_get acc n) = s \<and> ae_matchedTerms (acc_get acc n) = m)"

definition score_of :: "scores \<Rightarrow> u32 \<Rightarrow> cdouble" where
  "score_of S n = fst (the (S n))"

definition top_inv :: "accu \<Rightarrow> scores \<Rightarrow> bool" where
  "top_inv acc S \<longleftrightarrow> heap_wf acc \<and> acc_topHeapCapacity acc = length (acc_topHeap acc) \<and>
     set (live acc) \<subseteq> dom S \<and> heap_inv (entry_before acc) (acc_topHeap acc) (acc_topHeapCount acc) \<and>
     (\<forall>n \<in> dom S. n \<notin> set (live acc) \<longrightarrow> acc_topHeapCount acc = acc_topHeapCapacity acc \<and>
        (\<forall>x \<in> set (live acc). \<not> dless (score_of S x) (score_of S n)))"

definition threshold_ok :: "accu \<Rightarrow> scores \<Rightarrow> bool" where
  "threshold_ok acc S \<longleftrightarrow> acc_threshold acc =
     (if acc_topHeapCapacity acc > 0 \<and> acc_topHeapCount acc = acc_topHeapCapacity acc
      then score_of S (acc_topHeap acc ! 0) else Fin 0)"

definition no_nan :: "scores \<Rightarrow> bool" where
  "no_nan S \<longleftrightarrow> (\<forall>n \<in> dom S. score_of S n \<noteq> NaN)"

definition dense_wf :: "accu \<Rightarrow> bool" where
  "dense_wf acc \<longleftrightarrow> (acc_mode acc = ACCUMULATOR_DENSE \<longrightarrow>
     length (da_entries (acc_dense acc)) = da_capacity (acc_dense acc) \<and>
     length (da_generations (acc_dense acc)) = da_capacity (acc_dense acc))"

definition acc_inv :: "accu \<Rightarrow> scores \<Rightarrow> bool" where
  "acc_inv acc S \<longleftrightarrow> represents acc S \<and> top_inv acc S \<and> threshold_ok acc S \<and> no_nan S \<and> dense_wf acc \<and>
     distinct (map fst (acc_touched acc)) \<and> set (map fst (acc_touched acc)) = dom S \<and>
     length (acc_touched acc) \<le> acc_touchedCapacity acc"

lemma heap_less_iff:
  "ae_score a \<noteq> NaN \<Longrightarrow> ae_score b \<noteq> NaN \<Longrightarrow> PgturbohybridBm25AccumulatorHeapLess a b \<longleftrightarrow>
     dless (ae_score a) (ae_score b) \<or> ae_score a = ae_score b \<and> ae_nodeId a > ae_nodeId b"
  using dless_total [of "ae_score a" "ae_score b"] dless_asym [of "ae_score a" "ae_score b"]
  by (auto simp: PgturbohybridBm25AccumulatorHeapLess_def)

lemma represents_entry:
  assumes "represents acc S" "n \<in> dom S"
  shows "acc_valid acc n" "ae_nodeId (acc_get acc n) = n" "ae_score (acc_get acc n) = score_of S n"
  using assms by (auto simp: represents_def score_of_def)

lemma entry_before_scores:
  assumes "represents acc S" "no_nan S" "a \<in> dom S" "b \<in> dom S"
  shows "entry_before acc a b \<longleftrightarrow> dless (score_of S a) (score_of S b) \<or> score_of S a = score_of S b \<and> a > b"
  using represents_entry [OF assms(1,3)] represents_entry [OF assms(1,4)] assms(2-4)
  by (simp add: entry_before_def heap_less_iff no_nan_def)

lemma entry_order: "represents acc S \<Longrightarrow> no_nan S \<Longrightarrow> heap_order (entry_before acc) (\<lambda>n. n \<in> dom S)"
proof (unfold_locales, goal_cases)
  case (1 x y)
  then show ?case by (auto simp: entry_before_scores dest: dless_asym)
next
  case (2 x y z)
  have "score_of S x \<noteq> NaN" "score_of S y \<noteq> NaN" "score_of S z \<noteq> NaN" using 2 by (auto simp: no_nan_def)
  with 2 show ?case
    using dless_total [of "score_of S x" "score_of S y"] dless_total [of "score_of S y" "score_of S z"]
      dless_trans [of "score_of S z" "score_of S y" "score_of S x"] dless_asym [of "score_of S z" "score_of S x"]
    by (auto simp: entry_before_scores dest: dless_asym)
qed

lemma root_score_least:
  assumes r: "represents acc S" "no_nan S" and t: "top_inv acc S" and x: "x \<in> set (live acc)"
  shows "\<not> dless (score_of S x) (score_of S (acc_topHeap acc ! 0))"
proof -
  have ok: "all_ok (\<lambda>n. n \<in> dom S) (acc_topHeap acc) (acc_topHeapCount acc)" using t by (auto simp: top_inv_def)
  have n: "0 < acc_topHeapCount acc" "acc_topHeapCount acc \<le> length (acc_topHeap acc)"
    using x t by (cases "acc_topHeapCount acc"; simp add: top_inv_def heap_wf_def)+
  have "\<not> entry_before acc x (acc_topHeap acc ! 0)"
    using heap_order.root_first_set [OF entry_order [OF r] _ ok x] t by (simp add: top_inv_def)
  moreover have "acc_topHeap acc ! 0 \<in> dom S" "x \<in> dom S" using ok x set_take_nth [OF n] by auto
  ultimately show ?thesis using entry_before_scores [OF r, of x "acc_topHeap acc ! 0"] by simp
qed

lemma represents_frame: "represents acc S \<Longrightarrow> frame acc acc' \<Longrightarrow> represents acc' S"
proof -
  assume r: "represents acc S" and f: "frame acc acc'"
  have "ecore (acc_get acc' n) = ecore (acc_get acc n)" for n using f by (simp add: frame_def)
  then have "ae_nodeId (acc_get acc' n) = ae_nodeId (acc_get acc n)" "ae_score (acc_get acc' n) = ae_score (acc_get acc n)"
    "ae_matchedTerms (acc_get acc' n) = ae_matchedTerms (acc_get acc n)" for n
    by (metis ecore_simps(2,3,4))+
  then show ?thesis using r f by (simp add: represents_def frame_def)
qed


text \<open>The state in which the score of node \<open>n\<close> has been raised but the heap not repaired yet.\<close>

definition raised :: "accu \<Rightarrow> scores \<Rightarrow> u32 \<Rightarrow> bool" where
  "raised acc S n \<longleftrightarrow> represents acc S \<and> no_nan S \<and> heap_wf acc \<and> acc_topHeapCapacity acc = length (acc_topHeap acc) \<and>
     set (live acc) \<subseteq> dom S \<and> n \<in> dom S \<and>
     (\<forall>m \<in> dom S. m \<notin> set (live acc) \<and> m \<noteq> n \<longrightarrow> acc_topHeapCount acc = acc_topHeapCapacity acc \<and>
        (\<forall>x \<in> set (live acc). \<not> dless (score_of S x) (score_of S m))) \<and>
     (\<forall>p < acc_topHeapCount acc. acc_topHeap acc ! p = n \<longrightarrow>
        down_inv (entry_before acc) (acc_topHeap acc) (acc_topHeapCount acc) p) \<and>
     (n \<notin> set (live acc) \<longrightarrow> heap_inv (entry_before acc) (acc_topHeap acc) (acc_topHeapCount acc))"

lemma raised_heap_index:
  assumes "raised acc S n"
  shows "ae_heapIndex (acc_get acc n) \<ge> 0 \<longleftrightarrow> n \<in> set (live acc)"
    and "n \<in> set (live acc) \<Longrightarrow> nat (ae_heapIndex (acc_get acc n)) < acc_topHeapCount acc \<and>
      acc_topHeap acc ! nat (ae_heapIndex (acc_get acc n)) = n"
proof -
  have wf: "heap_wf acc" and found: "acc_found acc n" using assms by (auto simp: raised_def represents_def)
  have in_live: "\<exists>i < acc_topHeapCount acc. acc_topHeap acc ! i = n \<and> ae_heapIndex (acc_get acc n) = int i" if "n \<in> set (live acc)"
    using that wf by (auto simp: heap_wf_def in_set_conv_nth)
  then show "n \<in> set (live acc) \<Longrightarrow> nat (ae_heapIndex (acc_get acc n)) < acc_topHeapCount acc \<and>
      acc_topHeap acc ! nat (ae_heapIndex (acc_get acc n)) = n" by auto
  show "ae_heapIndex (acc_get acc n) \<ge> 0 \<longleftrightarrow> n \<in> set (live acc)"
    using in_live wf found by (auto simp: heap_wf_def)
qed

definition repaired :: "accu \<Rightarrow> accu \<Rightarrow> scores \<Rightarrow> bool" where
  "repaired acc acc' S \<longleftrightarrow> frame acc acc' \<and> top_inv acc' S"

lemma update_in_heap:
  assumes r: "raised acc S n" and n: "n \<in> set (live acc)"
  shows "repaired acc (PgturbohybridBm25AccumulatorHeapSiftDown acc (nat (ae_heapIndex (acc_get acc n)))) S"
proof -
  let ?p = "nat (ae_heapIndex (acc_get acc n))" and ?n = "acc_topHeapCount acc" and ?h = "acc_topHeap acc"
  let ?acc = "PgturbohybridBm25AccumulatorHeapSiftDown acc ?p"
  have p: "?p < ?n" "?h ! ?p = n" using raised_heap_index [OF r] n by auto
  have wf: "heap_wf acc" and rep: "represents acc S" "no_nan S" and len: "?n \<le> length ?h" and sub: "set (live acc) \<subseteq> dom S"
    using r by (auto simp: raised_def heap_wf_def)
  note sim = sift_down_sim [OF wf p(1)]
  have d: "down_inv (entry_before acc) ?h ?n ?p" using r p by (simp add: raised_def)
  have "heap_inv (entry_before acc) (acc_topHeap ?acc) ?n"
    using heap_order.sift_down_heap [OF entry_order [OF rep] d p(1) len] sub sim by auto
  moreover have "entry_before ?acc = entry_before acc" using sim entry_before_frame by blast
  moreover have "set (live ?acc) = set (live acc)"
    using sim heap_sift_down_mset [OF p(1) len] by (metis set_mset_mset)
  ultimately show ?thesis using r sim n unfolding repaired_def top_inv_def raised_def frame_def by auto
qed

lemma update_push:
  assumes r: "raised acc S n" and n: "n \<notin> set (live acc)" and room: "acc_topHeapCount acc < acc_topHeapCapacity acc"
  defines "acc1 \<equiv> set_heapIndex n (int (acc_topHeapCount acc)) acc"
  defines "acc2 \<equiv> acc1\<lparr>acc_topHeap := (acc_topHeap acc1)[acc_topHeapCount acc := n], acc_topHeapCount := acc_topHeapCount acc + 1\<rparr>"
  shows "repaired acc (PgturbohybridBm25AccumulatorHeapSiftUp acc2 (acc_topHeapCount acc)) S"
proof -
  let ?n = "acc_topHeapCount acc" and ?h = "acc_topHeap acc"
  let ?acc = "PgturbohybridBm25AccumulatorHeapSiftUp acc2 ?n"
  have wf: "heap_wf acc" and rep: "represents acc S" "no_nan S" and sub: "set (live acc) \<subseteq> dom S" and nd: "n \<in> dom S"
    and len: "?n < length ?h" and hi: "heap_inv (entry_before acc) ?h ?n"
    using r room n by (auto simp: raised_def)
  have v: "acc_valid acc n" by (rule represents_entry [OF rep(1) nd])
  have f1: "frame acc acc1" unfolding acc1_def by (rule frame_set_heapIndex [OF v])
  have f2: "frame acc acc2" using f1 by (simp add: frame_def acc2_def)
  have h2: "acc_topHeap acc2 = ?h[?n := n]" "acc_topHeapCount acc2 = ?n + 1" by (simp_all add: acc2_def acc1_def)
  have live2: "live acc2 = live acc @ [n]" using len by (simp add: h2 take_Suc_conv_app_nth)
  have get2: "acc_get acc2 m = (if m = n then (acc_get acc n)\<lparr>ae_heapIndex := int ?n\<rparr> else acc_get acc m)" for m
    using acc_get_set_heapIndex [OF v] by (simp add: acc2_def acc1_def)
  have idx: "acc_valid acc2 (acc_topHeap acc2 ! i) \<and> ae_heapIndex (acc_get acc2 (acc_topHeap acc2 ! i)) = int i" if "i < ?n + 1" for i
  proof (cases "i = ?n")
    case True
    then show ?thesis using v f2 len by (simp add: h2 get2 frame_def)
  next
    case False
    then have i: "i < ?n" using that by simp
    then have "?h ! i \<noteq> n" using n set_take_nth [of i ?n ?h] len by auto
    then show ?thesis using wf f2 i by (simp add: h2 get2 frame_def heap_wf_def)
  qed
  have wf2: "heap_wf acc2"
    using wf n idx len f2 unfolding heap_wf_def live2 by (auto simp: h2 get2 frame_def)
  note sim = sift_up_sim [OF wf2, of ?n, unfolded h2, OF less_add_one]
  have eb: "entry_before acc2 = entry_before acc" "entry_before ?acc = entry_before acc"
    using entry_before_frame f2 sim frame_trans by blast+
  have push: "acc_topHeap ?acc = fst (heap_push (entry_before acc) ?h ?n n)" using sim eb by (simp add: heap_push_def)
  have "heap_inv (entry_before acc) (acc_topHeap ?acc) (Suc ?n)"
    unfolding push using heap_order.push_heap [OF entry_order [OF rep] hi] sub nd len by auto
  moreover have "mset (take (Suc ?n) (acc_topHeap ?acc)) = add_mset n (mset (live acc))"
    unfolding push by (rule heap_push_mset [OF len])
  then have "set (take (Suc ?n) (acc_topHeap ?acc)) = insert n (set (live acc))"
    by (metis set_mset_add_mset_insert set_mset_mset)
  moreover have "frame acc ?acc" using f2 sim frame_trans by blast
  ultimately show ?thesis using r sim eb room unfolding repaired_def top_inv_def raised_def
    by (auto simp: frame_def)
qed


lemma update_replace:
  assumes r: "raised acc S n" and n: "n \<notin> set (live acc)" and full: "acc_topHeapCount acc = acc_topHeapCapacity acc"
    and cap: "acc_topHeapCapacity acc > 0" and better: "dless (score_of S (acc_topHeap acc ! 0)) (score_of S n)"
  defines "acc1 \<equiv> set_heapIndex n 0 (set_heapIndex (acc_topHeap acc ! 0) (-1) acc)"
  defines "acc2 \<equiv> acc1\<lparr>acc_topHeap := (acc_topHeap acc1)[0 := n]\<rparr>"
  shows "repaired acc (PgturbohybridBm25AccumulatorHeapSiftDown acc2 0) S"
proof -
  let ?n = "acc_topHeapCount acc" and ?h = "acc_topHeap acc" and ?r = "acc_topHeap acc ! 0"
  let ?acc = "PgturbohybridBm25AccumulatorHeapSiftDown acc2 0"
  have wf: "heap_wf acc" and rep: "represents acc S" "no_nan S" and sub: "set (live acc) \<subseteq> dom S" and nd: "n \<in> dom S"
    and len: "?n \<le> length ?h" "0 < ?n" "length ?h = ?n" and hi: "heap_inv (entry_before acc) ?h ?n"
    and out: "\<And>m x. m \<in> dom S \<Longrightarrow> m \<notin> set (live acc) \<Longrightarrow> m \<noteq> n \<Longrightarrow> x \<in> set (live acc) \<Longrightarrow> \<not> dless (score_of S x) (score_of S m)"
    using r full cap n by (auto simp: raised_def)
  have rl: "?r \<in> set (live acc)" using set_take_nth [of 0 ?n ?h] len by simp
  then have rn: "?r \<noteq> n" "?r \<in> dom S" using n sub by auto
  have v: "acc_valid acc ?r" "acc_valid acc n" using represents_entry [OF rep(1)] rn nd by auto
  have f1: "frame acc (set_heapIndex ?r (-1) acc)" by (rule frame_set_heapIndex [OF v(1)])
  then have v2: "acc_valid (set_heapIndex ?r (-1) acc) n" using v by (simp add: frame_def)
  have f2: "frame acc acc1" unfolding acc1_def using f1 frame_set_heapIndex [OF v2] frame_trans by blast
  have f3: "frame acc acc2" using f2 by (simp add: frame_def acc2_def)
  have h2: "acc_topHeap acc2 = ?h[0 := n]" "acc_topHeapCount acc2 = ?n" by (simp_all add: acc2_def acc1_def)
  have get2: "acc_get acc2 m = (if m = n then (acc_get acc n)\<lparr>ae_heapIndex := 0\<rparr>
      else if m = ?r then (acc_get acc ?r)\<lparr>ae_heapIndex := -1\<rparr> else acc_get acc m)" for m
    using acc_get_set_heapIndex [OF v2] acc_get_set_heapIndex [OF v(1)] rn by (simp add: acc2_def acc1_def)
  obtain a t where at: "?h = a # t" using len by (cases ?h) auto
  then have h: "?h = ?r # t" by simp
  have "live acc = ?h" "live acc2 = ?h[0 := n]" using len h2 by simp_all
  then have lv: "live acc = ?r # t" "live acc2 = n # t" using at by simp_all
  have dt: "distinct (?r # t)" "n \<notin> set t" using wf lv n by (auto simp: heap_wf_def)
  have idx: "acc_valid acc2 (acc_topHeap acc2 ! i) \<and> ae_heapIndex (acc_get acc2 (acc_topHeap acc2 ! i)) = int i" if i: "i < ?n" for i
  proof (cases "i = 0")
    case True
    then show ?thesis using v f3 len by (simp add: h2 get2 frame_def)
  next
    case False
    then have "?h ! i \<in> set t" using i len at by (cases i) auto
    then have "?h ! i \<noteq> n" "?h ! i \<noteq> ?r" using dt by auto
    then show ?thesis using wf f3 i False by (simp add: h2 get2 frame_def heap_wf_def)
  qed
  have wf2: "heap_wf acc2"
    using wf idx len f3 dt lv(1) unfolding heap_wf_def lv(2) by (auto simp: h2 get2 frame_def)
  note sim = sift_down_sim [OF wf2, of 0, unfolded h2, OF len(2)]
  have eb: "entry_before acc2 = entry_before acc" "entry_before ?acc = entry_before acc"
    using entry_before_frame f3 sim frame_trans by blast+
  have rep_root: "acc_topHeap ?acc = heap_replace_root (entry_before acc) ?h ?n n" using sim eb by (simp add: heap_replace_root_def)
  have hi': "heap_inv (entry_before acc) (acc_topHeap ?acc) ?n"
    unfolding rep_root using heap_order.replace_root_heap [OF entry_order [OF rep] hi] sub nd len by auto
  have "add_mset ?r (mset (take ?n (acc_topHeap ?acc))) = add_mset n (mset (live acc))"
    unfolding rep_root by (rule heap_replace_root_mset [OF len(2,1)])
  then have ms: "mset (take ?n (acc_topHeap ?acc)) = mset (n # t)" unfolding lv by simp
  then have st: "set (take ?n (acc_topHeap ?acc)) = insert n (set t)" by (metis list.simps(15) set_mset_mset)
  have least: "\<not> dless (score_of S x) (score_of S ?r)" if "x \<in> set t" for x
  proof -
    have "\<not> entry_before acc x ?r"
      using heap_order.root_first_set [OF entry_order [OF rep] hi, of x] sub that lv by auto
    then show ?thesis using entry_before_scores [OF rep, of x ?r] that rn sub lv by auto
  qed
  have out': "\<not> dless (score_of S x) (score_of S m)" if m: "m \<in> dom S" "m \<notin> insert n (set t)" "x \<in> insert n (set t)" for m x
  proof (cases "m = ?r")
    case True
    then show ?thesis using least m better dless_asym by auto
  next
    case False
    then have "\<not> dless (score_of S ?r) (score_of S m)" and "x \<in> set t \<Longrightarrow> \<not> dless (score_of S x) (score_of S m)"
      using out [of m] m lv rl by auto
    then show ?thesis using m(3) better dless_trans by auto
  qed
  have fr: "frame acc ?acc" using f3 sim frame_trans by blast
  have cnt: "acc_topHeapCount ?acc = ?n" "acc_topHeapCapacity ?acc = acc_topHeapCapacity acc"
    "length (acc_topHeap ?acc) = length ?h" using sim fr by (simp_all add: frame_def)
  have "insert n (set t) \<subseteq> dom S" using sub nd lv by auto
  then have "top_inv ?acc S" unfolding top_inv_def cnt eb st
    using sim hi' out' full len by simp
  then show ?thesis using fr by (simp add: repaired_def)
qed

lemma update_reject:
  assumes r: "raised acc S n" and n: "n \<notin> set (live acc)" and full: "acc_topHeapCount acc = acc_topHeapCapacity acc"
    and worse: "acc_topHeapCapacity acc > 0 \<Longrightarrow> \<not> dless (score_of S (acc_topHeap acc ! 0)) (score_of S n)"
  shows "repaired acc acc S"
proof -
  have wf: "heap_wf acc" and rep: "represents acc S" "no_nan S" and sub: "set (live acc) \<subseteq> dom S" and nd: "n \<in> dom S"
    and hi: "heap_inv (entry_before acc) (acc_topHeap acc) (acc_topHeapCount acc)"
    using r n by (auto simp: raised_def)
  have "\<not> dless (score_of S x) (score_of S n)" if x: "x \<in> set (live acc)" for x
  proof -
    have pos: "0 < acc_topHeapCapacity acc" using x full by (cases "acc_topHeapCapacity acc") auto
    let ?r = "acc_topHeap acc ! 0"
    have rl: "?r \<in> set (live acc)" using set_take_nth [of 0 "acc_topHeapCount acc" "acc_topHeap acc"] pos full wf by (simp add: heap_wf_def)
    have "\<not> entry_before acc x ?r"
      using heap_order.root_first_set [OF entry_order [OF rep] hi _ x] sub by auto
    then have "\<not> dless (score_of S x) (score_of S ?r)" using entry_before_scores [OF rep, of x ?r] x rl sub by auto
    moreover have "score_of S x \<noteq> NaN" "score_of S ?r \<noteq> NaN" "score_of S n \<noteq> NaN"
      using rep(2) sub x rl nd by (auto simp: no_nan_def)
    ultimately show ?thesis using worse [OF pos] dless_total [of "score_of S x" "score_of S ?r"]
      dless_total [of "score_of S ?r" "score_of S n"] dless_trans dless_asym by metis
  qed
  then show ?thesis using r n full unfolding repaired_def top_inv_def raised_def by auto
qed

lemma threshold_upd_before [simp]: "entry_before (acc'\<lparr>acc_threshold := t\<rparr>) = entry_before acc'"
  by (simp add: entry_before_def fun_eq_iff)

lemma threshold_upd [simp]:
  "frame acc (acc'\<lparr>acc_threshold := t\<rparr>) = frame acc acc'"
  "heap_wf (acc'\<lparr>acc_threshold := t\<rparr>) = heap_wf acc'" "top_inv (acc'\<lparr>acc_threshold := t\<rparr>) S = top_inv acc' S"
  by (simp_all add: frame_def heap_wf_def top_inv_def)

lemma update_topk_correct:
  assumes r: "raised acc S n" and z: "acc_topHeapCapacity acc = 0 \<Longrightarrow> acc_threshold acc = Fin 0"
  shows "frame acc (PgturbohybridBm25AccumulatorUpdateTopK acc n) \<and> top_inv (PgturbohybridBm25AccumulatorUpdateTopK acc n) S \<and>
    threshold_ok (PgturbohybridBm25AccumulatorUpdateTopK acc n) S"
proof (cases "acc_topHeapCapacity acc = 0")
  case True
  then have c0: "acc_topHeapCount acc = 0" using r by (auto simp: raised_def heap_wf_def)
  then have "repaired acc acc S" using update_reject [OF r] True by simp
  then show ?thesis using z True by (simp add: PgturbohybridBm25AccumulatorUpdateTopK_def repaired_def threshold_ok_def)
next
  case False
  note idx = raised_heap_index(1) [OF r]
  have rep: "represents acc S" "n \<in> dom S" using r by (auto simp: raised_def)
  have sc: "ae_score (acc_get acc x) = score_of S x" if "x \<in> dom S" for x using represents_entry [OF rep(1) that] by simp
  obtain acc' where acc': "PgturbohybridBm25AccumulatorUpdateTopK acc n = PgturbohybridBm25AccumulatorRefreshThreshold acc'"
    and rp: "repaired acc acc' S"
  proof (cases "n \<in> set (live acc)")
    case True
    then show thesis using that update_in_heap [OF r] idx False by (simp add: PgturbohybridBm25AccumulatorUpdateTopK_def)
  next
    case nl: False
    show thesis
    proof (cases "acc_topHeapCount acc < acc_topHeapCapacity acc")
      case True
      then show thesis using that update_push [OF r nl True] idx nl False
        by (simp add: PgturbohybridBm25AccumulatorUpdateTopK_def Let_def)
    next
      case nf: False
      then have full: "acc_topHeapCount acc = acc_topHeapCapacity acc" using r by (simp add: raised_def heap_wf_def)
      have "acc_topHeap acc ! 0 \<in> set (live acc)"
        by (rule set_take_nth) (use full False r in \<open>auto simp: raised_def heap_wf_def\<close>)
      then have root: "acc_topHeap acc ! 0 \<in> dom S" using r unfolding raised_def by blast
      show thesis
      proof (cases "dless (score_of S (acc_topHeap acc ! 0)) (score_of S n)")
        case True
        then show thesis using that update_replace [OF r nl full _ True] idx nl False nf sc root rep(2)
          by (simp add: PgturbohybridBm25AccumulatorUpdateTopK_def Let_def)
      next
        case nb: False
        then show thesis using that update_reject [OF r nl full] idx nl False nf sc root rep(2)
          by (simp add: PgturbohybridBm25AccumulatorUpdateTopK_def Let_def)
      qed
    qed
  qed
  have f: "frame acc acc'" "top_inv acc' S" using rp by (auto simp: repaired_def)
  have rep': "represents acc' S" by (rule represents_frame [OF rep(1) f(1)])
  let ?u = "PgturbohybridBm25AccumulatorRefreshThreshold acc'"
  have "frame acc ?u" "top_inv ?u S" using f by (simp_all add: PgturbohybridBm25AccumulatorRefreshThreshold_def)
  moreover have "threshold_ok ?u S"
  proof (cases "acc_topHeapCapacity acc' > 0 \<and> acc_topHeapCount acc' = acc_topHeapCapacity acc'")
    case True
    have "acc_topHeap acc' ! 0 \<in> set (live acc')"
      by (rule set_take_nth) (use f(2) True in \<open>auto simp: top_inv_def heap_wf_def\<close>)
    then have "acc_topHeap acc' ! 0 \<in> dom S" using f(2) unfolding top_inv_def by blast
    then show ?thesis using represents_entry(3) [OF rep'] True
      by (simp add: threshold_ok_def PgturbohybridBm25AccumulatorRefreshThreshold_def)
  next
    case False
    then show ?thesis by (auto simp: threshold_ok_def PgturbohybridBm25AccumulatorRefreshThreshold_def)
  qed
  ultimately show ?thesis using acc' by simp
qed


section \<open>Adding a score\<close>

text \<open>The state in which node \<open>n\<close> has an entry and everything else is in order.\<close>

definition listed :: "accu \<Rightarrow> scores \<Rightarrow> u32 \<Rightarrow> bool" where
  "listed acc S n \<longleftrightarrow> represents acc S \<and> no_nan S \<and> heap_wf acc \<and> acc_topHeapCapacity acc = length (acc_topHeap acc) \<and>
     set (live acc) \<subseteq> dom S \<and> n \<in> dom S \<and> heap_inv (entry_before acc) (acc_topHeap acc) (acc_topHeapCount acc) \<and>
     (\<forall>m \<in> dom S. m \<notin> set (live acc) \<and> m \<noteq> n \<longrightarrow> acc_topHeapCount acc = acc_topHeapCapacity acc \<and>
        (\<forall>x \<in> set (live acc). \<not> dless (score_of S x) (score_of S m)))"

lemma dless_negtrans:
  "x \<noteq> NaN \<Longrightarrow> y \<noteq> NaN \<Longrightarrow> z \<noteq> NaN \<Longrightarrow> \<not> dless x y \<Longrightarrow> \<not> dless y z \<Longrightarrow> \<not> dless x z"
  using dless_total [of x y] dless_trans [of y x z] by auto

lemma raise_score:
  fixes m' :: u64
  assumes l: "listed acc S n" and s: "s' \<noteq> NaN" "\<not> dless s' (score_of S n)"
  defines "e \<equiv> (acc_get acc n)\<lparr>ae_score := s', ae_matchedTerms := m'\<rparr>"
  shows "raised (acc_set n e acc) (S(n \<mapsto> (s', m'))) n"
proof -
  let ?acc = "acc_set n e acc" and ?S = "S(n \<mapsto> (s', m'))" and ?h = "acc_topHeap acc" and ?k = "acc_topHeapCount acc"
  have rep: "represents acc S" "no_nan S" and nd: "n \<in> dom S" and wf: "heap_wf acc" and sub: "set (live acc) \<subseteq> dom S"
    and hi: "heap_inv (entry_before acc) ?h ?k" using l by (auto simp: listed_def)
  have v: "acc_valid acc n" by (rule represents_entry [OF rep(1) nd])
  have get: "acc_get ?acc m = (if m = n then e else acc_get acc m)" for m by (rule acc_get_set [OF v])
  have dS: "dom ?S = dom S" using nd by auto
  have rep': "represents ?acc ?S"
  proof -
    have "acc_found ?acc m \<longleftrightarrow> m \<in> dom ?S" for m using rep(1) v unfolding dS by (simp add: represents_def)
    moreover have "acc_valid ?acc m \<and> ae_nodeId (acc_get ?acc m) = m \<and> ae_score (acc_get ?acc m) = s \<and>
        ae_matchedTerms (acc_get ?acc m) = mt" if "?S m = Some (s, mt)" for m s mt
      using that rep(1) v represents_entry(2) [OF rep(1) nd] by (cases "m = n") (simp_all add: acc_get_set e_def represents_def)
    ultimately show ?thesis by (simp add: represents_def)
  qed
  have sc: "score_of ?S m = (if m = n then s' else score_of S m)" for m by (simp add: score_of_def)
  have nn: "no_nan ?S" using rep(2) s by (auto simp: no_nan_def sc)
  have wf': "heap_wf ?acc" using wf v by (auto simp: heap_wf_def acc_get_set e_def)
  have eb: "entry_before ?acc a b = entry_before acc a b" if "a \<noteq> n" "b \<noteq> n" for a b
    using that by (simp add: entry_before_def get)
  have inS: "?h ! i \<in> dom S" if "i < ?k" for i using sub that wf set_take_nth [of i ?k ?h] by (auto simp: heap_wf_def)
  have ord: "heap_order (entry_before acc) (\<lambda>n. n \<in> dom S)" by (rule entry_order [OF rep])
  have out: "\<not> dless (score_of ?S x) (score_of ?S m)" if m: "m \<in> dom S" "m \<notin> set (live acc)" "m \<noteq> n" "x \<in> set (live acc)" for m x
  proof -
    have "\<not> dless (score_of S x) (score_of S m)" "x \<in> dom S" using l m sub by (auto simp: listed_def)
    moreover have "score_of S x \<noteq> NaN" "score_of S m \<noteq> NaN" using rep(2) m calculation by (auto simp: no_nan_def)
    ultimately show ?thesis using s m(3) dless_negtrans [of s' "score_of S n" "score_of S m"] by (auto simp: sc)
  qed
  have up: "\<not> entry_before ?acc n b" if b: "b \<in> dom S" "b \<noteq> n" "\<not> entry_before acc n b" for b
  proof -
    have "\<not> dless (score_of S n) (score_of S b)" "score_of S n = score_of S b \<longrightarrow> \<not> n > b"
      using b entry_before_scores [OF rep nd b(1)] by auto
    moreover have "score_of S n \<noteq> NaN" "score_of S b \<noteq> NaN" using rep(2) b nd by (auto simp: no_nan_def)
    ultimately have "\<not> dless s' (score_of S b)" "s' = score_of S b \<longrightarrow> \<not> n > b"
      using s dless_negtrans [of s' "score_of S n" "score_of S b"] dless_total [of "score_of S n" "score_of S b"] by auto
    then show ?thesis using entry_before_scores [OF rep' nn, of n b] b nd by (auto simp: dS sc)
  qed
  have down: "down_inv (entry_before ?acc) ?h ?k p" if p: "p < ?k" "?h ! p = n" for p
  proof -
    have ne: "?h ! j \<noteq> n" if "j < ?k" "j \<noteq> p" for j using heap_wf_distinct_nth [OF wf, of j p] that p by auto
    have hj: "\<not> entry_before acc (?h ! j) (?h ! parent j)" if "0 < j" "j < ?k" for j using hi that by (simp add: heap_inv_def)
    have "\<not> entry_before ?acc (?h ! j) (?h ! parent j)" if j: "0 < j" "j < ?k" "parent j \<noteq> p" for j
    proof (cases "j = p")
      case True
      have "?h ! parent j \<noteq> n" using ne [of "parent j"] j by simp
      then show ?thesis using up [of "?h ! parent j"] inS [of "parent j"] hj [OF j(1,2)] j True p by simp
    next
      case False
      then show ?thesis using eb hj [OF j(1,2)] ne [of j] ne [of "parent j"] j by simp
    qed
    moreover have "\<not> entry_before ?acc (?h ! j) (?h ! parent p)" if j: "0 < j" "j < ?k" "parent j = p" "0 < p" for j
    proof -
      have "\<not> entry_before acc (?h ! j) (?h ! parent p)"
        using heap_order.before_negtrans [OF ord, of "?h ! j" "?h ! p" "?h ! parent p"] inS p j nd hj [of j] hj [of p] by simp
      moreover have "parent p < p" "p < j" using parent_less [OF j(4)] parent_less [OF j(1)] j(3) by simp_all
      then have "?h ! j \<noteq> n" "?h ! parent p \<noteq> n" using ne [of j] ne [of "parent p"] p(1) j(2) by simp_all
      ultimately show ?thesis using eb by simp
    qed
    ultimately show ?thesis by (simp add: down_inv_def)
  qed
  have hi': "heap_inv (entry_before ?acc) ?h ?k" if "n \<notin> set (live acc)"
  proof -
    have "?h ! j \<noteq> n" if "j < ?k" for j using \<open>n \<notin> set (live acc)\<close> set_take_nth [of j ?k ?h] that wf by (auto simp: heap_wf_def)
    then show ?thesis using hi eb by (simp add: heap_inv_def)
  qed
  have full: "acc_topHeapCount acc = acc_topHeapCapacity acc" if "m \<in> dom S" "m \<notin> set (live acc)" "m \<noteq> n" for m
    using l that unfolding listed_def by blast
  have cap: "acc_topHeapCapacity acc = length ?h" using l by (simp add: listed_def)
  show ?thesis unfolding raised_def dS acc_set_sel
    using rep' nn wf' cap sub nd out full down hi' by blast
qed


lemma grow_ok:
  assumes "cap \<le> n" "32 * (n + 1) \<le> MaxAllocSize"
  shows "\<exists>c. PgturbohybridBm25GrowCapacity32 cap (n + 1) sizeof_nodescore = Inr c \<and> n < c"
proof (cases "PgturbohybridBm25GrowCapacity32 cap (n + 1) sizeof_nodescore")
  case (Inl e)
  let ?g = "grow_loop ''pgturbohybrid BM25 array capacity is too large'' (max cap 1) (n + 1)"
  have small: "\<not> n + 1 > 2 ^ 31" using assms by (simp add: MaxAllocSize_def)
  then obtain c where c: "?g = Inr c" using grow_loop_Inl by (cases ?g) blast+
  then have "c \<le> 2 * (n + 1)" using grow_loop_Inr [OF c] assms by (auto simp: max_def split: if_splits)
  then have False using Inl c assms
    by (simp add: PgturbohybridBm25GrowCapacity32_def alloc_defs sizeof_nodescore_def MaxAllocSize_def split: if_splits)
  then show ?thesis ..
next
  case (Inr c)
  then obtain msg where "grow_loop msg (max cap 1) (n + 1) = Inr c"
    by (auto simp: PgturbohybridBm25GrowCapacity32_def bindE_Inr_iff)
  then show ?thesis using grow_loop_Inr Inr by fastforce
qed

lemma acc_inv_listed: "acc_inv acc S \<Longrightarrow> n \<in> dom S \<Longrightarrow> listed acc S n"
  by (auto simp: acc_inv_def listed_def top_inv_def)

definition in_range :: "accu \<Rightarrow> u32 \<Rightarrow> bool" where
  "in_range acc n \<longleftrightarrow> (acc_mode acc = ACCUMULATOR_DENSE \<longrightarrow> unat n < da_capacity (acc_dense acc))"

lemma mark_set:
  fixes e :: accentry
  assumes wf: "dense_wf acc" and r: "in_range acc n" and nf: "\<not> acc_found acc n"
  defines "acc1 \<equiv> acc_set n e (acc_mark n acc)"
  shows "acc_found acc1 m \<longleftrightarrow> acc_found acc m \<or> m = n"
    and "acc_valid acc1 m \<longleftrightarrow> acc_valid acc m \<or> m = n"
    and "acc_get acc1 m = (if m = n then e else acc_get acc m)"
    and "dense_wf acc1" "acc_topHeap acc1 = acc_topHeap acc" "acc_topHeapCount acc1 = acc_topHeapCount acc"
    "acc_topHeapCapacity acc1 = acc_topHeapCapacity acc" "acc_touched acc1 = acc_touched acc"
    "acc_touchedCapacity acc1 = acc_touchedCapacity acc" "acc_threshold acc1 = acc_threshold acc" "acc_mode acc1 = acc_mode acc"
    "da_capacity (acc_dense acc1) = da_capacity (acc_dense acc)"
  using assms
  by (cases "acc_mode acc";
      auto simp: acc1_def acc_set_def acc_mark_def acc_found_def acc_valid_def acc_get_def dense_wf_def in_range_def nth_list_update
        dest: unsigned_word_eqI)+

lemma touched_upd [simp]:
  "acc_get (acc\<lparr>acc_touchedCapacity := c, acc_touched := t\<rparr>) = acc_get acc"
  "acc_valid (acc\<lparr>acc_touchedCapacity := c, acc_touched := t\<rparr>) = acc_valid acc"
  "acc_found (acc\<lparr>acc_touchedCapacity := c, acc_touched := t\<rparr>) = acc_found acc"
  by (auto simp: acc_get_def acc_valid_def acc_found_def fun_eq_iff split: accumulator_mode.split)

text \<open>Looking a node up and creating its entry on the first touch.\<close>

definition with_node :: "scores \<Rightarrow> u32 \<Rightarrow> scores" where
  "with_node S n = (if n \<in> dom S then S else S(n \<mapsto> (Fin 0, 0)))"

definition touched_inv :: "accu \<Rightarrow> scores \<Rightarrow> bool" where
  "touched_inv acc S \<longleftrightarrow> distinct (map fst (acc_touched acc)) \<and> set (map fst (acc_touched acc)) = dom S \<and>
     length (acc_touched acc) \<le> acc_touchedCapacity acc"

lemma lookup_create:
  assumes inv: "acc_inv acc S" and r: "in_range acc n" and small: "32 * (length (acc_touched acc) + 1) \<le> MaxAllocSize"
  shows "\<exists>acc'. PgturbohybridBm25AccumulatorLookup acc n True = Inr (acc', True) \<and> listed acc' (with_node S n) n \<and>
    touched_inv acc' (with_node S n) \<and> dense_wf acc' \<and> acc_mode acc' = acc_mode acc \<and>
    da_capacity (acc_dense acc') = da_capacity (acc_dense acc) \<and> acc_threshold acc' = acc_threshold acc \<and>
    acc_topHeapCapacity acc' = acc_topHeapCapacity acc \<and> length (acc_touched acc') \<le> Suc (length (acc_touched acc))"
proof (cases "acc_found acc n")
  case True
  then have nd: "n \<in> dom S" using inv by (simp add: acc_inv_def represents_def)
  then have "PgturbohybridBm25AccumulatorLookup acc n True = Inr (acc, True)"
    using True r by (auto simp: PgturbohybridBm25AccumulatorLookup_def in_range_def)
  then show ?thesis using acc_inv_listed [OF inv nd] inv nd by (simp add: with_node_def touched_inv_def acc_inv_def)
next
  case False
  then have nd: "n \<notin> dom S" using inv by (simp add: acc_inv_def represents_def)
  let ?S = "S(n \<mapsto> (Fin 0, 0))"
  have wf: "dense_wf acc" and rep: "represents acc S" "no_nan S" and top: "top_inv acc S" and thr: "touched_inv acc S"
    using inv by (auto simp: acc_inv_def touched_inv_def)
  define acc1 where "acc1 = acc_set n (fresh_entry n) (acc_mark n acc)"
  note m = mark_set [OF wf r False, of "fresh_entry n", folded acc1_def]
  obtain c where c: "touch_node n acc1 = Inr (acc1\<lparr>acc_touchedCapacity := c, acc_touched := acc_touched acc1 @ [(n, Fin 0)]\<rparr>)"
    "length (acc_touched acc) < c"
  proof (cases "length (acc_touched acc) \<ge> acc_touchedCapacity acc")
    case True
    then show thesis using that grow_ok [OF True small] m by (auto simp: touch_node_def)
  next
    case False
    then show thesis using that m by (auto simp: touch_node_def)
  qed
  let ?a = "acc1\<lparr>acc_touchedCapacity := c, acc_touched := acc_touched acc1 @ [(n, Fin 0)]\<rparr>"
  have look: "PgturbohybridBm25AccumulatorLookup acc n True = Inr (?a, True)"
    using False r c by (auto simp: PgturbohybridBm25AccumulatorLookup_def in_range_def acc1_def)
  have notlive: "n \<notin> set (live acc)" using top nd by (auto simp: top_inv_def)
  have ne: "acc_topHeap acc ! i \<noteq> n" if "i < acc_topHeapCount acc" for i
    using notlive set_take_nth [OF that] top by (auto simp: top_inv_def heap_wf_def)
  have rep': "represents ?a ?S"
  proof -
    have "acc_found ?a x \<longleftrightarrow> x \<in> dom ?S" for x using rep(1) m(1) by (auto simp: represents_def)
    moreover have "acc_valid ?a x \<and> ae_nodeId (acc_get ?a x) = x \<and> ae_score (acc_get ?a x) = s \<and>
        ae_matchedTerms (acc_get ?a x) = mt" if "?S x = Some (s, mt)" for x s mt
      using that rep(1) m(2,3) by (cases "x = n") (simp_all add: represents_def fresh_entry_def)
    ultimately show ?thesis by (simp add: represents_def)
  qed
  have nn: "no_nan ?S" using rep(2) by (auto simp: no_nan_def score_of_def)
  have wf': "heap_wf ?a" using top m ne notlive by (auto simp: heap_wf_def top_inv_def fresh_entry_def)
  have hi: "heap_inv (entry_before ?a) (acc_topHeap ?a) (acc_topHeapCount ?a)"
    using top m ne by (auto simp: top_inv_def heap_inv_def entry_before_def)
  have sc: "score_of ?S x = score_of S x" if "x \<noteq> n" for x using that by (simp add: score_of_def)
  have out: "acc_topHeapCount acc = acc_topHeapCapacity acc \<and> (\<forall>x \<in> set (live acc). \<not> dless (score_of ?S x) (score_of ?S y))"
    if y: "y \<in> dom ?S" "y \<notin> set (live acc)" "y \<noteq> n" for y
  proof -
    have "y \<in> dom S" using y by simp
    then have "acc_topHeapCount acc = acc_topHeapCapacity acc" "\<forall>x \<in> set (live acc). \<not> dless (score_of S x) (score_of S y)"
      using top y unfolding top_inv_def by blast+
    moreover have "score_of ?S x = score_of S x" if "x \<in> set (live acc)" for x using sc notlive that by metis
    ultimately show ?thesis using sc [OF y(3)] by simp
  qed
  have sel: "acc_topHeap ?a = acc_topHeap acc" "acc_topHeapCount ?a = acc_topHeapCount acc"
    "acc_topHeapCapacity ?a = acc_topHeapCapacity acc" using m by simp_all
  have "set (live acc) \<subseteq> dom ?S" "acc_topHeapCapacity acc = length (acc_topHeap acc)" "n \<in> dom ?S"
    using top by (auto simp: top_inv_def)
  then have "listed ?a ?S n" unfolding listed_def sel using rep' nn wf' hi [unfolded sel] out by blast
  moreover have "touched_inv ?a ?S" using thr m nd c by (auto simp: touched_inv_def)
  moreover have "dense_wf ?a" using m by (simp add: dense_wf_def)
  ultimately show ?thesis using look m nd by (auto simp: with_node_def)
qed


text \<open>Adding a contribution, on the map of scores.\<close>

definition add_score :: "(cdouble \<Rightarrow> cdouble \<Rightarrow> cdouble) \<Rightarrow> u32 \<times> cdouble \<times> u64 \<Rightarrow> scores \<Rightarrow> scores" where
  "add_score fadd c S = (case c of (n, x, b) \<Rightarrow>
     (case S n of None \<Rightarrow> S(n \<mapsto> (fadd (Fin 0) x, b)) | Some (s, m) \<Rightarrow> S(n \<mapsto> (fadd s x, m OR b))))"

text \<open>
  What is used of floating-point addition: the sum of two numbers that are not negative is a
  number not below the first. IEEE 754 rounding is monotone, so this holds of C doubles.
\<close>

definition nonneg :: "cdouble \<Rightarrow> bool" where
  "nonneg x \<longleftrightarrow> x \<noteq> NaN \<and> \<not> dless x (Fin 0)"

definition fadd_monotone :: "(cdouble \<Rightarrow> cdouble \<Rightarrow> cdouble) \<Rightarrow> bool" where
  "fadd_monotone fadd \<longleftrightarrow> (\<forall>x y. nonneg x \<longrightarrow> nonneg y \<longrightarrow> fadd x y \<noteq> NaN \<and> \<not> dless (fadd x y) x)"

lemma nonneg_fadd: "fadd_monotone fadd \<Longrightarrow> nonneg x \<Longrightarrow> nonneg y \<Longrightarrow> nonneg (fadd x y)"
  using dless_negtrans [of "fadd x y" x "Fin 0"] by (auto simp: fadd_monotone_def nonneg_def)

definition all_nonneg :: "scores \<Rightarrow> bool" where
  "all_nonneg S \<longleftrightarrow> (\<forall>n s m. S n = Some (s, m) \<longrightarrow> nonneg s)"

lemma add_score_nonneg:
  "fadd_monotone fadd \<Longrightarrow> all_nonneg S \<Longrightarrow> nonneg x \<Longrightarrow> all_nonneg (add_score fadd (n, x, b) S)"
  by (auto simp: add_score_def all_nonneg_def nonneg_fadd nonneg_def split: option.splits)
    (metis cdouble.distinct(3) dless_irrefl nonneg_def nonneg_fadd)+

lemma with_node_add:
  assumes "with_node S n n = Some (s, m)"
  shows "(with_node S n)(n \<mapsto> (fadd s x, m OR b)) = add_score fadd (n, x, b) S"
  using assms by (cases "S n") (auto simp: with_node_def add_score_def domIff)

lemma add_term_score:
  assumes inv: "acc_inv acc S" and r: "in_range acc n" and small: "32 * (length (acc_touched acc) + 1) \<le> MaxAllocSize"
    and f: "fadd_monotone fadd" and nn: "all_nonneg S" and x: "nonneg x"
  shows "\<exists>acc'. PgturbohybridBm25AccumulatorAddTermScore fadd acc n x b = Inr acc' \<and> acc_inv acc' (add_score fadd (n, x, b) S) \<and>
    acc_mode acc' = acc_mode acc \<and> da_capacity (acc_dense acc') = da_capacity (acc_dense acc) \<and>
    acc_topHeapCapacity acc' = acc_topHeapCapacity acc \<and> length (acc_touched acc') \<le> Suc (length (acc_touched acc))"
proof -
  obtain acc1 where l: "PgturbohybridBm25AccumulatorLookup acc n True = Inr (acc1, True)" "listed acc1 (with_node S n) n"
    "touched_inv acc1 (with_node S n)" "dense_wf acc1" "acc_mode acc1 = acc_mode acc"
    "da_capacity (acc_dense acc1) = da_capacity (acc_dense acc)" "acc_threshold acc1 = acc_threshold acc"
    "acc_topHeapCapacity acc1 = acc_topHeapCapacity acc" "length (acc_touched acc1) \<le> Suc (length (acc_touched acc))"
    using lookup_create [OF inv r small] by blast
  obtain s m where sm: "with_node S n n = Some (s, m)" by (cases "S n") (auto simp: with_node_def domIff)
  have rep: "represents acc1 (with_node S n)" using l by (simp add: listed_def)
  then have e: "ae_score (acc_get acc1 n) = s" "ae_matchedTerms (acc_get acc1 n) = m" "acc_valid acc1 n"
    using sm by (auto simp: represents_def)
  have s0: "nonneg s" using nn sm by (auto simp: with_node_def all_nonneg_def nonneg_def split: if_splits)
  let ?s = "fadd s x" and ?m = "m OR b" and ?S = "add_score fadd (n, x, b) S"
  have up: "?s \<noteq> NaN" "\<not> dless ?s (score_of (with_node S n) n)"
    using f s0 x sm by (auto simp: fadd_monotone_def score_of_def)
  define acc2 where "acc2 = acc_set n ((acc_get acc1 n)\<lparr>ae_score := ?s, ae_matchedTerms := ?m\<rparr>) acc1"
  have ra: "raised acc2 ?S n" using raise_score [OF l(2) up, of ?m] with_node_add [OF sm] by (simp add: acc2_def)
  have z: "acc_topHeapCapacity acc2 = 0 \<Longrightarrow> acc_threshold acc2 = Fin 0"
    using inv l by (simp add: acc2_def acc_inv_def threshold_ok_def)
  let ?u = "PgturbohybridBm25AccumulatorUpdateTopK acc2 n"
  note u = update_topk_correct [OF ra z]
  have rep': "represents ?u ?S" using represents_frame u ra unfolding raised_def by blast
  have dS: "dom ?S = dom (with_node S n)" by (cases "S n") (auto simp: add_score_def with_node_def split: if_splits)
  have sel: "acc_touched ?u = acc_touched acc1" "acc_touchedCapacity ?u = acc_touchedCapacity acc1"
    "acc_mode ?u = acc_mode acc1" "da_capacity (acc_dense ?u) = da_capacity (acc_dense acc1)"
    "acc_topHeapCapacity ?u = acc_topHeapCapacity acc1"
    using u by (simp_all add: frame_def acc2_def)
  have dw: "dense_wf ?u" using u l(4) by (simp add: frame_def acc2_def dense_wf_def)
  have "acc_inv ?u ?S" unfolding acc_inv_def using rep' u ra dw l(3) dS
    by (simp add: sel touched_inv_def raised_def)
  moreover have "PgturbohybridBm25AccumulatorAddTermScore fadd acc n x b = Inr ?u"
    using l(1) e by (simp add: PgturbohybridBm25AccumulatorAddTermScore_def acc2_def Let_def)
  ultimately show ?thesis using sel l by (intro exI [of _ ?u]) simp
qed

section \<open>Initialisation forgets the previous query\<close>

text \<open>Between queries no entry of the dense array carries a generation newer than the current one.\<close>

definition dense_inv :: "dense_accumulator \<Rightarrow> bool" where
  "dense_inv da \<longleftrightarrow> length (da_entries da) = da_capacity da \<and> length (da_generations da) = da_capacity da \<and>
     (\<forall>g \<in> set (da_generations da). g \<le> da_generation da)"

lemma dense_next_generation_fresh:
  assumes "dense_inv da"
  shows "dense_inv (dense_next_generation da)"
    and "\<forall>g \<in> set (da_generations (dense_next_generation da)). g \<noteq> da_generation (dense_next_generation da)"
    and "da_capacity (dense_next_generation da) = da_capacity da"
proof -
  let ?g = "da_generation da"
  have lt: "g < ?g + 1" if "?g + 1 \<noteq> 0" "g \<le> ?g" for g
    using that unatSuc [of ?g] by (simp add: add.commute word_less_nat_alt word_le_nat_alt)
  show "dense_inv (dense_next_generation da)"
    "\<forall>g \<in> set (da_generations (dense_next_generation da)). g \<noteq> da_generation (dense_next_generation da)"
    "da_capacity (dense_next_generation da) = da_capacity da"
    using assms lt by (auto simp: dense_next_generation_def dense_inv_def less_imp_le)
qed


lemma dense_grow_inv:
  assumes "dense_inv da" "dense_grow junk da n = Inr da'"
  shows "dense_inv da' \<and> n \<le> da_capacity da'"
  using assms by (auto simp: dense_grow_def dense_inv_def bindE_Inr_iff split: if_splits)

lemma init_correct:
  assumes da: "dense_inv da" and i: "PgturbohybridBm25AccumulatorInit junk da initialSize topK mode nodeCount = Inr acc"
  shows "acc_inv acc Map.empty \<and> acc_topHeapCapacity acc = topK \<and> acc_mode acc = mode \<and>
    (mode = ACCUMULATOR_DENSE \<longrightarrow> nodeCount \<le> da_capacity (acc_dense acc)) \<and> acc_touched acc = []"
proof -
  obtain da' where acc: "acc = \<lparr>acc_mode = mode, acc_entries = Map.empty, acc_dense = da', acc_touched = [],
      acc_touchedCapacity = max initialSize 16, acc_topHeap = replicate topK 0,
      acc_topHeapCount = 0, acc_topHeapCapacity = topK, acc_threshold = Fin 0, acc_seedThreshold = Fin 0\<rparr>"
    and da': "mode = ACCUMULATOR_DENSE \<longrightarrow> (\<exists>d. dense_grow junk da nodeCount = Inr d \<and> da' = dense_next_generation d)"
    using i by (auto simp: PgturbohybridBm25AccumulatorInit_def bindE_Inr_iff split: if_splits)
  have dense: "dense_inv da' \<and> nodeCount \<le> da_capacity da' \<and> (\<forall>g \<in> set (da_generations da'). g \<noteq> da_generation da')"
    if dm: "mode = ACCUMULATOR_DENSE"
  proof -
    obtain d where d: "dense_grow junk da nodeCount = Inr d" "da' = dense_next_generation d" using da' dm by blast
    then show ?thesis using dense_grow_inv [OF da d(1)] dense_next_generation_fresh [of d] by simp
  qed
  have nf: "\<not> acc_found acc n" for n
  proof (cases mode)
    case ACCUMULATOR_DENSE
    then show ?thesis using dense by (auto simp: acc_found_def acc dense_inv_def)
  qed (simp add: acc_found_def acc)
  show ?thesis
    unfolding acc_inv_def represents_def top_inv_def threshold_ok_def no_nan_def dense_wf_def heap_wf_def heap_inv_def
    using nf dense by (auto simp: acc dense_inv_def)
qed

section \<open>Running a query\<close>

text \<open>The scoring loops of a query feed contributions one after the other.\<close>

fun add_all :: "(cdouble \<Rightarrow> cdouble \<Rightarrow> cdouble) \<Rightarrow> accu \<Rightarrow> (u32 \<times> cdouble \<times> u64) list \<Rightarrow> accu res" where
  "add_all fadd acc [] = Inr acc"
| "add_all fadd acc ((n, x, b) # cs) =
     bindE (PgturbohybridBm25AccumulatorAddTermScore fadd acc n x b) (\<lambda>acc'. add_all fadd acc' cs)"

lemma add_all_correct:
  assumes "acc_inv acc S" "all_nonneg S" "fadd_monotone fadd" "\<forall>(n, x, b) \<in> set cs. nonneg x \<and> in_range acc n"
    and "32 * (length (acc_touched acc) + length cs) \<le> MaxAllocSize"
  shows "\<exists>acc'. add_all fadd acc cs = Inr acc' \<and> acc_inv acc' (fold (add_score fadd) cs S) \<and>
    acc_topHeapCapacity acc' = acc_topHeapCapacity acc"
  using assms
proof (induction cs arbitrary: acc S)
  case (Cons c cs)
  obtain n x b where c: "c = (n, x, b)" by (cases c) auto
  have small: "32 * (length (acc_touched acc) + 1) \<le> MaxAllocSize" using Cons.prems(5) by simp
  obtain acc1 where a: "PgturbohybridBm25AccumulatorAddTermScore fadd acc n x b = Inr acc1" "acc_inv acc1 (add_score fadd c S)"
    "acc_mode acc1 = acc_mode acc" "da_capacity (acc_dense acc1) = da_capacity (acc_dense acc)"
    "acc_topHeapCapacity acc1 = acc_topHeapCapacity acc" "length (acc_touched acc1) \<le> Suc (length (acc_touched acc))"
    using add_term_score [OF Cons.prems(1) _ small Cons.prems(3,2), of n x b] Cons.prems(4) c by auto
  have "all_nonneg (add_score fadd c S)" using add_score_nonneg Cons.prems c by auto
  moreover have "\<forall>(n, x, b) \<in> set cs. nonneg x \<and> in_range acc1 n" using Cons.prems(4) a by (auto simp: in_range_def)
  moreover have "32 * (length (acc_touched acc1) + length cs) \<le> MaxAllocSize" using Cons.prems(5) a(6) by simp
  ultimately show ?case using Cons.IH [OF a(2)] Cons.prems(3) a c by auto
qed simp

lemma live_size:
  assumes "acc_inv acc S"
  shows "length (live acc) = min (acc_topHeapCapacity acc) (card (dom S))"
proof -
  have top: "top_inv acc S" using assms by (simp add: acc_inv_def)
  have fin: "finite (dom S)" using assms unfolding acc_inv_def by (metis List.finite_set)
  have d: "card (set (live acc)) = length (live acc)" using top by (simp add: top_inv_def heap_wf_def distinct_card)
  have sub: "set (live acc) \<subseteq> dom S" using top by (simp add: top_inv_def)
  have le: "length (live acc) \<le> acc_topHeapCapacity acc" using top by (auto simp: top_inv_def heap_wf_def)
  show ?thesis
  proof (cases "dom S \<subseteq> set (live acc)")
    case True
    then have "set (live acc) = dom S" using sub by blast
    then show ?thesis using d le by simp
  next
    case False
    then have "length (live acc) = acc_topHeapCapacity acc" using top by (auto simp: top_inv_def heap_wf_def)
    moreover have "length (live acc) \<le> card (dom S)" using card_mono [OF fin sub] d by simp
    ultimately show ?thesis by simp
  qed
qed

section \<open>Properties\<close>

text \<open>
  C22. Accumulating a query: starting from any state of the backend-wide array, including the
  wrap-around of its generation counter, the accumulator afterwards has exactly the
  touched nodes, each once, with the sum of its contributions and the union of its match bits.
  Its heap has the k best nodes by score (all nodes when there are fewer), and the threshold is the score of
  the worst of them once there are k.
\<close>

theorem accumulate_correct:
  assumes "dense_inv da" "PgturbohybridBm25AccumulatorInit junk da initialSize k mode nodeCount = Inr acc0"
    and "fadd_monotone fadd" "\<forall>(n, x, b) \<in> set cs. nonneg x \<and> unat n < nodeCount" "32 * length cs \<le> MaxAllocSize"
  shows "\<exists>acc. add_all fadd acc0 cs = Inr acc \<and>
    (\<forall>n. acc_found acc n \<longleftrightarrow> fold (add_score fadd) cs Map.empty n \<noteq> None) \<and>
    (\<forall>n s m. fold (add_score fadd) cs Map.empty n = Some (s, m) \<longrightarrow>
       ae_score (acc_get acc n) = s \<and> ae_matchedTerms (acc_get acc n) = m) \<and>
    distinct (map fst (acc_touched acc)) \<and> set (map fst (acc_touched acc)) = dom (fold (add_score fadd) cs Map.empty) \<and>
    distinct (live acc) \<and> length (live acc) = min k (length (acc_touched acc)) \<and>
    (\<forall>n. acc_found acc n \<and> n \<notin> set (live acc) \<longrightarrow>
       (\<forall>x \<in> set (live acc). \<not> dless (ae_score (acc_get acc x)) (ae_score (acc_get acc n)))) \<and>
    (0 < k \<and> k \<le> length (acc_touched acc) \<longrightarrow>
       (\<forall>x \<in> set (live acc). \<not> dless (ae_score (acc_get acc x)) (acc_threshold acc)) \<and>
       (\<exists>x \<in> set (live acc). ae_score (acc_get acc x) = acc_threshold acc))"
proof -
  let ?S = "fold (add_score fadd) cs Map.empty"
  note i = init_correct [OF assms(1,2)]
  have "\<forall>(n, x, b) \<in> set cs. nonneg x \<and> in_range acc0 n" using assms(4) i by (auto simp: in_range_def)
  then obtain acc where a: "add_all fadd acc0 cs = Inr acc" "acc_inv acc ?S" "acc_topHeapCapacity acc = k"
    using add_all_correct [of acc0 Map.empty fadd cs] i assms(3,5) by (auto simp: all_nonneg_def)
  have rep: "represents acc ?S" "no_nan ?S" and top: "top_inv acc ?S" and thr: "threshold_ok acc ?S" using a(2) by (auto simp: acc_inv_def)
  have sub: "set (live acc) \<subseteq> dom ?S" using top by (simp add: top_inv_def)
  have sc: "ae_score (acc_get acc x) = score_of ?S x" if "x \<in> dom ?S" for x using represents_entry(3) [OF rep(1) that] .
  have found: "acc_found acc n \<longleftrightarrow> n \<in> dom ?S" for n using rep(1) by (simp add: represents_def)
  have t: "distinct (map fst (acc_touched acc))" "set (map fst (acc_touched acc)) = dom ?S" using a(2) by (auto simp: acc_inv_def)
  then have "card (dom ?S) = length (acc_touched acc)" by (metis distinct_card length_map)
  then have len: "length (live acc) = min k (length (acc_touched acc))" using live_size [OF a(2)] a(3) by simp
  have out: "\<not> dless (ae_score (acc_get acc x)) (ae_score (acc_get acc n))"
    if "acc_found acc n" "n \<notin> set (live acc)" "x \<in> set (live acc)" for n x
  proof -
    have "\<not> dless (score_of ?S x) (score_of ?S n)" using top that found unfolding top_inv_def by blast
    moreover have "x \<in> dom ?S" "n \<in> dom ?S" using that sub found by blast+
    ultimately show ?thesis by (simp add: sc)
  qed
  have thresh: "(\<forall>x \<in> set (live acc). \<not> dless (ae_score (acc_get acc x)) (acc_threshold acc)) \<and>
       (\<exists>x \<in> set (live acc). ae_score (acc_get acc x) = acc_threshold acc)" if k: "0 < k" "k \<le> length (acc_touched acc)"
  proof -
    let ?r = "acc_topHeap acc ! 0"
    have full: "acc_topHeapCount acc = k" using len k top by (auto simp: top_inv_def heap_wf_def)
    then have th: "acc_threshold acc = score_of ?S ?r" using thr k a(3) by (simp add: threshold_ok_def)
    have r: "?r \<in> set (live acc)" by (rule set_take_nth) (use full k top in \<open>auto simp: top_inv_def heap_wf_def\<close>)
    have "\<not> dless (ae_score (acc_get acc x)) (acc_threshold acc)" if x: "x \<in> set (live acc)" for x
      unfolding th sc [OF subsetD [OF sub x]] by (rule root_score_least [OF rep top x])
    moreover have "ae_score (acc_get acc ?r) = acc_threshold acc" unfolding th by (rule sc [OF subsetD [OF sub r]])
    ultimately show ?thesis using r by blast
  qed
  have "\<forall>n s m. ?S n = Some (s, m) \<longrightarrow> ae_score (acc_get acc n) = s \<and> ae_matchedTerms (acc_get acc n) = m"
    using rep(1) by (auto simp: represents_def)
  moreover have "distinct (live acc)" using top by (simp add: top_inv_def heap_wf_def)
  moreover have "\<forall>n. acc_found acc n \<longleftrightarrow> ?S n \<noteq> None" using found by (simp add: domIff)
  ultimately show ?thesis using a(1) t len out thresh by blast
qed

text \<open>Exact addition of doubles, for the witness.\<close>

fun dadd :: "cdouble \<Rightarrow> cdouble \<Rightarrow> cdouble" where
  "dadd (Fin a) (Fin b) = Fin (a + b)"
| "dadd NaN y = NaN"
| "dadd x NaN = NaN"
| "dadd PosInf NegInf = NaN"
| "dadd NegInf PosInf = NaN"
| "dadd PosInf y = PosInf"
| "dadd x PosInf = PosInf"
| "dadd NegInf y = NegInf"
| "dadd x NegInf = NegInf"

lemma dadd_monotone: "fadd_monotone dadd"
  unfolding fadd_monotone_def
proof (intro allI impI)
  fix x y assume "nonneg x" "nonneg y"
  then show "dadd x y \<noteq> NaN \<and> \<not> dless (dadd x y) x" by (cases x; cases y) (auto simp: nonneg_def)
qed

definition demo_dense :: dense_accumulator where
  "demo_dense = \<lparr>da_entries = [fresh_entry 0], da_generations = [0xffffffff], da_generation = 0xffffffff, da_capacity = 1\<rparr>"

definition demo_contributions :: "(u32 \<times> cdouble \<times> u64) list" where
  "demo_contributions = [(2, Fin 3, 1), (0, Fin 1, 1), (2, Fin 4, 2), (1, Fin 5, 2)]"

theorem accumulate_correct_witness:
  "\<exists>acc0 acc. PgturbohybridBm25AccumulatorInit (fresh_entry 0) demo_dense 8 2 ACCUMULATOR_DENSE 3 = Inr acc0 \<and>
     add_all dadd acc0 demo_contributions = Inr acc \<and> ae_score (acc_get acc 2) = Fin 7 \<and>
     ae_matchedTerms (acc_get acc 2) = 3 \<and> length (live acc) = min 2 (length (acc_touched acc))"
proof -
  have da: "dense_inv demo_dense" by (simp add: dense_inv_def demo_dense_def)
  obtain acc0 where i: "PgturbohybridBm25AccumulatorInit (fresh_entry 0) demo_dense 8 2 ACCUMULATOR_DENSE 3 = Inr acc0"
    by (simp add: PgturbohybridBm25AccumulatorInit_def dense_grow_def alloc_defs demo_dense_def MaxAllocSize_def
        sizeof_accentry_def sizeof_nodescore_def)
  have cs: "\<forall>(n, x, b) \<in> set demo_contributions. nonneg x \<and> unat n < 3" "32 * length demo_contributions \<le> MaxAllocSize"
    by (simp_all add: demo_contributions_def nonneg_def MaxAllocSize_def)
  have "fold (add_score dadd) demo_contributions Map.empty 2 = Some (Fin 7, 3)"
    by (simp add: demo_contributions_def add_score_def)
  then show ?thesis using accumulate_correct [OF da i dadd_monotone cs] i by blast
qed

end
