(* ===== verification/Qsort.thy ===== *)
theory Qsort
  imports Array_Heap
begin

text \<open>
  The C library's \<open>qsort\<close> as the code uses it: a permutation of the array in the order of a comparison.
  The comparisons of the extension order distinct elements strictly, and then the sorted
  permutation is unique, so insertion sort computes what \<open>qsort\<close> returns.
\<close>

fun insert_by :: "('a \<Rightarrow> 'a \<Rightarrow> bool) \<Rightarrow> 'a \<Rightarrow> 'a list \<Rightarrow> 'a list" where
  "insert_by lt x [] = [x]"
| "insert_by lt x (y # ys) = (if lt y x then y # insert_by lt x ys else x # y # ys)"

definition qsort_by :: "('a \<Rightarrow> 'a \<Rightarrow> bool) \<Rightarrow> 'a list \<Rightarrow> 'a list" where
  "qsort_by lt xs = foldr (insert_by lt) xs []"

text \<open>A strict total order on the elements of a set.\<close>

definition strict_on :: "('a \<Rightarrow> 'a \<Rightarrow> bool) \<Rightarrow> 'a set \<Rightarrow> bool" where
  "strict_on lt A \<longleftrightarrow> (\<forall>x \<in> A. \<forall>y \<in> A. lt x y \<longrightarrow> \<not> lt y x) \<and>
     (\<forall>x \<in> A. \<forall>y \<in> A. \<forall>z \<in> A. lt x y \<longrightarrow> lt y z \<longrightarrow> lt x z) \<and>
     (\<forall>x \<in> A. \<forall>y \<in> A. x \<noteq> y \<longrightarrow> lt x y \<or> lt y x)"

lemma strict_on_mono: "strict_on lt A \<Longrightarrow> B \<subseteq> A \<Longrightarrow> strict_on lt B"
  unfolding strict_on_def by blast

lemma mset_insert_by [simp]: "mset (insert_by lt x ys) = add_mset x (mset ys)"
  by (induction ys) auto

lemma mset_qsort_by [simp]: "mset (qsort_by lt xs) = mset xs"
  by (induction xs) (simp_all add: qsort_by_def)

lemma set_insert_by [simp]: "set (insert_by lt x ys) = insert x (set ys)"
  by (metis mset_insert_by set_mset_add_mset_insert set_mset_mset)

lemma set_qsort_by [simp]: "set (qsort_by lt xs) = set xs"
  by (metis mset_qsort_by set_mset_mset)

lemma length_qsort_by [simp]: "length (qsort_by lt xs) = length xs"
  by (metis mset_qsort_by size_mset)

lemma distinct_qsort_by [simp]: "distinct (qsort_by lt xs) = distinct xs"
  by (rule mset_eq_imp_distinct_iff) simp

lemma sorted_insert_by:
  "strict_on lt (insert x (set ys)) \<Longrightarrow> x \<notin> set ys \<Longrightarrow> sorted_wrt lt ys \<Longrightarrow> sorted_wrt lt (insert_by lt x ys)"
proof (induction ys)
  case (Cons y ys)
  have s: "strict_on lt (insert x (set ys))" by (rule strict_on_mono [OF Cons.prems(1)]) auto
  show ?case
  proof (cases "lt y x")
    case True
    then show ?thesis using Cons s by auto
  next
    case False
    then have xy: "lt x y" using Cons.prems(1,2) by (auto simp: strict_on_def)
    have "lt x z" if "z \<in> set ys" for z
    proof -
      have "lt y z" using Cons.prems(3) that by simp
      then show ?thesis using xy Cons.prems(1) that unfolding strict_on_def by (meson insertI1 insertI2 list.set_intros)
    qed
    then show ?thesis using False xy Cons.prems by simp
  qed
qed simp

lemma sorted_qsort_by: "strict_on lt (set xs) \<Longrightarrow> distinct xs \<Longrightarrow> sorted_wrt lt (qsort_by lt xs)"
proof (induction xs)
  case (Cons x xs)
  have "strict_on lt (set xs)" by (rule strict_on_mono [OF Cons.prems(1)]) auto
  then have "sorted_wrt lt (qsort_by lt xs)" using Cons by simp
  then have "sorted_wrt lt (insert_by lt x (qsort_by lt xs))"
    using sorted_insert_by [of lt x "qsort_by lt xs"] Cons.prems by simp
  then show ?case by (simp add: qsort_by_def)
qed (simp add: qsort_by_def)

lemma sorted_unique:
  assumes "sorted_wrt lt xs" "sorted_wrt lt ys" "mset xs = mset ys" "\<forall>a \<in> set xs. \<forall>b \<in> set xs. lt a b \<longrightarrow> \<not> lt b a"
  shows "xs = ys"
  using assms
proof (induction xs arbitrary: ys)
  case (Cons x xs)
  obtain y ys' where ys: "ys = y # ys'" using Cons.prems(3) by (cases ys) simp_all
  have "x = y"
  proof (rule ccontr)
    assume "x \<noteq> y"
    moreover have "set (x # xs) = set (y # ys')" using mset_eq_setD [OF Cons.prems(3)] ys by simp
    ultimately have "y \<in> set xs" "x \<in> set ys'" by auto
    then have "lt x y" "lt y x" using Cons.prems(1,2) ys by simp_all
    then show False using Cons.prems(4) \<open>y \<in> set xs\<close> by simp
  qed
  then show ?case using Cons ys by auto
qed simp

text \<open>The best elements of a list, sorted, are the beginning of the whole list sorted.\<close>

lemma qsort_split:
  assumes "strict_on lt (set xs)" "distinct xs" "mset xs = mset hs + D" "\<forall>h \<in> set hs. \<forall>d \<in># D. \<not> lt d h"
  shows "qsort_by lt hs = take (length hs) (qsort_by lt xs)"
proof -
  obtain ds where ds: "mset ds = D" using ex_mset by blast
  have m: "mset xs = mset (hs @ ds)" using assms(3) ds by simp
  have d: "distinct (hs @ ds)" using mset_eq_imp_distinct_iff [OF m] assms(2) by simp
  have s: "set xs = set (hs @ ds)" by (rule mset_eq_setD [OF m])
  have sub: "strict_on lt (set hs)" "strict_on lt (set ds)"
    using strict_on_mono [OF assms(1)] s by simp_all
  have before: "lt h x" if "h \<in> set hs" "x \<in> set ds" for h x
  proof -
    have "h \<noteq> x" using d that by auto
    moreover have "x \<in># D" using that(2) by (simp add: ds [symmetric])
    then have "\<not> lt x h" using assms(4) that(1) by blast
    moreover have "h \<in> set xs" "x \<in> set xs" using that by (simp_all add: s)
    ultimately show ?thesis using assms(1) unfolding strict_on_def by blast
  qed
  have asym: "\<forall>a \<in> set xs. \<forall>b \<in> set xs. lt a b \<longrightarrow> \<not> lt b a" using assms(1) unfolding strict_on_def by blast
  from before have "sorted_wrt lt (qsort_by lt hs @ qsort_by lt ds)"
    using sorted_qsort_by sub d by (auto simp: sorted_wrt_append)
  moreover have "sorted_wrt lt (qsort_by lt xs)" using sorted_qsort_by assms by blast
  moreover have "mset (qsort_by lt hs @ qsort_by lt ds) = mset (qsort_by lt xs)" using m by simp
  ultimately have "qsort_by lt hs @ qsort_by lt ds = qsort_by lt xs"
    by (rule sorted_unique) (use asym in \<open>simp only: s set_append set_qsort_by\<close>)
  then show ?thesis by (metis append_eq_conv_conj length_qsort_by)
qed

end
