(* ===== verification/Bm25_Select.thy ===== *)
theory Bm25_Select
  imports Bm25_Accumulator Qsort
begin

text \<open>
  Selection of the results of a BM25 query in \<open>src/src/pgturbohybrid_bm25_query.c\<close>: the accumulated nodes that
  match the boolean query, best score first, either by sorting all of them or through a heap of
  the k best. Both ways return the same list.
\<close>

section \<open>Comparisons and the heap\<close>

text \<open>A \<open>PgturbohybridBm25NodeScore\<close> is the pair of its node id and its score.\<close>

type_synonym nodescore = "u32 \<times> cdouble"

definition PgturbohybridBm25ScoreCompare :: "nodescore \<Rightarrow> nodescore \<Rightarrow> int" where
  "PgturbohybridBm25ScoreCompare a b =
     (if dless (snd b) (snd a) then -1
      else if dless (snd a) (snd b) then 1
      else of_bool (fst a > fst b) - of_bool (fst a < fst b))"

definition PgturbohybridBm25NodeScoreHeapLess :: "nodescore \<Rightarrow> nodescore \<Rightarrow> bool" where
  "PgturbohybridBm25NodeScoreHeapLess a b =
     (if dless (snd a) (snd b) then True
      else if dless (snd b) (snd a) then False
      else fst a > fst b)"

definition PgturbohybridBm25NodeScoreHeapSiftUp :: "nodescore list \<Rightarrow> nat \<Rightarrow> nodescore list" where
  "PgturbohybridBm25NodeScoreHeapSiftUp = heap_sift_up PgturbohybridBm25NodeScoreHeapLess"

definition PgturbohybridBm25NodeScoreHeapSiftDown :: "nodescore list \<Rightarrow> nat \<Rightarrow> nat \<Rightarrow> nodescore list" where
  "PgturbohybridBm25NodeScoreHeapSiftDown = heap_sift_down PgturbohybridBm25NodeScoreHeapLess"

section \<open>Selection\<close>

text \<open>
  \<open>matched\<close> is the boolean test of a match mask, \<open>PgturbohybridBm25MatchedQuery\<close> of the query.
  A touched node is a candidate when it still has an entry and passes the test.
\<close>

definition candidate :: "accu \<Rightarrow> (u64 \<Rightarrow> bool res) \<Rightarrow> u32 \<Rightarrow> nodescore option res" where
  "candidate acc matched nodeId =
     bindE (PgturbohybridBm25AccumulatorLookup acc nodeId False) (\<lambda>(_, found).
       if \<not> found then Inr None
       else bindE (matched (ae_matchedTerms (acc_get acc nodeId))) (\<lambda>ok.
         Inr (if ok then Some (ae_nodeId (acc_get acc nodeId), ae_score (acc_get acc nodeId)) else None)))"

fun full_sort_loop :: "accu \<Rightarrow> (u64 \<Rightarrow> bool res) \<Rightarrow> nodescore list \<Rightarrow> nodescore list res" where
  "full_sort_loop acc matched [] = Inr []"
| "full_sort_loop acc matched (t # ts) =
     bindE (candidate acc matched (fst t)) (\<lambda>c.
     bindE (full_sort_loop acc matched ts) (\<lambda>out.
       Inr (case c of None \<Rightarrow> out | Some e \<Rightarrow> (fst t, snd e) # out)))"

definition offer_final :: "nat \<Rightarrow> nodescore list \<Rightarrow> nat \<Rightarrow> nodescore \<Rightarrow> nodescore list \<times> nat" where
  "offer_final k heap heapCount c =
     (if heapCount < k
      then (PgturbohybridBm25NodeScoreHeapSiftUp (heap[heapCount := c]) heapCount, heapCount + 1)
      else if PgturbohybridBm25ScoreCompare c (heap ! 0) < 0
      then (PgturbohybridBm25NodeScoreHeapSiftDown (heap[0 := c]) heapCount 0, heapCount)
      else (heap, heapCount))"

fun heap_select_loop :: "accu \<Rightarrow> (u64 \<Rightarrow> bool res) \<Rightarrow> nat \<Rightarrow> nodescore list \<Rightarrow> nodescore list \<Rightarrow> nat \<Rightarrow>
    (nodescore list \<times> nat) res" where
  "heap_select_loop acc matched k [] heap heapCount = Inr (heap, heapCount)"
| "heap_select_loop acc matched k (t # ts) heap heapCount =
     bindE (candidate acc matched (fst t)) (\<lambda>c.
       case c of None \<Rightarrow> heap_select_loop acc matched k ts heap heapCount
       | Some e \<Rightarrow> (case offer_final k heap heapCount e of (heap', n') \<Rightarrow> heap_select_loop acc matched k ts heap' n'))"

definition score_before :: "nodescore \<Rightarrow> nodescore \<Rightarrow> bool" where
  "score_before a b = (PgturbohybridBm25ScoreCompare a b < 0)"

definition PgturbohybridBm25SelectFinalTopK ::
    "bool \<Rightarrow> accu \<Rightarrow> (u64 \<Rightarrow> bool res) \<Rightarrow> nat \<Rightarrow> (accu \<times> nat) res" where
  "PgturbohybridBm25SelectFinalTopK force_full_sort acc matched k =
     (if k = 0 then Inr (acc\<lparr>acc_touched := []\<rparr>, 0)
      else if force_full_sort then
        bindE (full_sort_loop acc matched (acc_touched acc)) (\<lambda>out.
          Inr (acc\<lparr>acc_touched := if length out > 1 then qsort_by score_before out else out\<rparr>, min k (length out)))
      else
        bindE (PgturbohybridBm25ArrayAllocSize sizeof_nodescore k) (\<lambda>_.
        bindE (heap_select_loop acc matched k (acc_touched acc) (replicate k (0, Fin 0)) 0) (\<lambda>(heap, heapCount).
          Inr (acc\<lparr>acc_touched := if heapCount > 1 then qsort_by score_before (take heapCount heap)
                                    else take heapCount heap\<rparr>, heapCount))))"

section \<open>The order\<close>

lemma score_before_iff: "score_before a b = PgturbohybridBm25NodeScoreHeapLess b a"
  by (auto simp: score_before_def PgturbohybridBm25ScoreCompare_def PgturbohybridBm25NodeScoreHeapLess_def of_bool_def)

lemma node_heap_less_iff:
  "snd a \<noteq> NaN \<Longrightarrow> snd b \<noteq> NaN \<Longrightarrow> PgturbohybridBm25NodeScoreHeapLess a b \<longleftrightarrow>
     dless (snd a) (snd b) \<or> snd a = snd b \<and> fst a > fst b"
  using dless_total [of "snd a" "snd b"] dless_asym [of "snd a" "snd b"]
  by (auto simp: PgturbohybridBm25NodeScoreHeapLess_def)

interpretation ns: heap_order PgturbohybridBm25NodeScoreHeapLess "\<lambda>x. snd x \<noteq> NaN"
proof (unfold_locales, goal_cases)
  case (1 x y)
  then have "dless (snd x) (snd y) \<or> snd x = snd y \<and> fst y < fst x" using node_heap_less_iff [of x y] by blast
  then have "\<not> (dless (snd y) (snd x) \<or> snd y = snd x \<and> fst x < fst y)"
    using dless_asym dless_irrefl less_asym by metis
  then show ?case using 1 node_heap_less_iff [of y x] by blast
next
  case (2 x y z)
  then show ?case
    using dless_total [of "snd x" "snd y"] dless_total [of "snd y" "snd z"]
      dless_trans [of "snd z" "snd y" "snd x"] dless_asym [of "snd z" "snd x"]
    by (auto simp: node_heap_less_iff)
qed

lemma strict_score_before: "\<forall>x \<in> A. snd x \<noteq> NaN \<Longrightarrow> strict_on score_before A"
  unfolding strict_on_def score_before_iff
proof (intro conjI ballI impI)
  fix x y assume a: "\<forall>x \<in> A. snd x \<noteq> NaN" "x \<in> A" "y \<in> A"
  then show "PgturbohybridBm25NodeScoreHeapLess y x \<Longrightarrow> \<not> PgturbohybridBm25NodeScoreHeapLess x y"
    using ns.before_asym [of y x] by simp
  show "x \<noteq> y \<Longrightarrow> PgturbohybridBm25NodeScoreHeapLess y x \<or> PgturbohybridBm25NodeScoreHeapLess x y"
  proof -
    assume "x \<noteq> y"
    then have "snd x = snd y \<Longrightarrow> fst x < fst y \<or> fst y < fst x" using prod_eqI [of x y] linorder_neqE by blast
    then show ?thesis using a dless_total [of "snd x" "snd y"] by (auto simp: node_heap_less_iff)
  qed
  fix z assume "z \<in> A" "PgturbohybridBm25NodeScoreHeapLess y x" "PgturbohybridBm25NodeScoreHeapLess z y"
  then show "PgturbohybridBm25NodeScoreHeapLess z x" using a ns.before_trans [of z y x] by simp
qed

section \<open>Candidates\<close>

text \<open>The candidates of a query: the touched nodes whose match mask passes, with their scores.\<close>

definition candidates :: "accu \<Rightarrow> (u64 \<Rightarrow> bool) \<Rightarrow> nodescore list" where
  "candidates acc test = map (\<lambda>t. (fst t, ae_score (acc_get acc (fst t))))
     (filter (\<lambda>t. test (ae_matchedTerms (acc_get acc (fst t)))) (acc_touched acc))"

lemma candidate_eq:
  assumes inv: "acc_inv acc S" and t: "t \<in> set (acc_touched acc)" and m: "\<And>b. matched b = Inr (f b)"
  shows "candidate acc matched (fst t) =
    Inr (if f (ae_matchedTerms (acc_get acc (fst t))) then Some (fst t, ae_score (acc_get acc (fst t))) else None)"
proof -
  have nd: "fst t \<in> dom S" using inv t unfolding acc_inv_def by (metis image_eqI set_map)
  have rep: "represents acc S" using inv by (simp add: acc_inv_def)
  have found: "acc_found acc (fst t)" using rep nd by (simp add: represents_def)
  have "PgturbohybridBm25AccumulatorLookup acc (fst t) False = Inr (acc, True)"
    using found by (auto simp: PgturbohybridBm25AccumulatorLookup_def acc_found_def)
  then show ?thesis using m represents_entry(2) [OF rep nd] by (simp add: candidate_def)
qed

lemma full_sort_loop_eq:
  assumes "acc_inv acc S" "\<And>b. matched b = Inr (f b)" "set ts \<subseteq> set (acc_touched acc)"
  shows "full_sort_loop acc matched ts = Inr (map (\<lambda>t. (fst t, ae_score (acc_get acc (fst t))))
     (filter (\<lambda>t. f (ae_matchedTerms (acc_get acc (fst t)))) ts))"
  using assms(3)
proof (induction ts)
  case (Cons t ts)
  then show ?case using candidate_eq [where matched = matched and f = f and t = t, OF assms(1) _ assms(2)] by simp
qed simp

lemma heap_select_loop_topk:
  assumes inv: "acc_inv acc S" and m: "\<And>b. matched b = Inr (f b)" and k: "0 < k"
    and "set ts \<subseteq> set (acc_touched acc)" "topk PgturbohybridBm25NodeScoreHeapLess k M heap n" "\<forall>x \<in># M. snd x \<noteq> NaN"
  shows "\<exists>heap' n'. heap_select_loop acc matched k ts heap n = Inr (heap', n') \<and>
    topk PgturbohybridBm25NodeScoreHeapLess k (M + mset (map (\<lambda>t. (fst t, ae_score (acc_get acc (fst t))))
      (filter (\<lambda>t. f (ae_matchedTerms (acc_get acc (fst t)))) ts))) heap' n'"
  using assms(4-6)
proof (induction ts arbitrary: M heap n)
  case (Cons t ts)
  let ?e = "(fst t, ae_score (acc_get acc (fst t)))"
  have t: "t \<in> set (acc_touched acc)" using Cons.prems by simp
  note c = candidate_eq [where matched = matched and f = f, OF inv t m]
  have "fst t \<in> dom S" using inv t unfolding acc_inv_def by (metis image_eqI set_map)
  then have e: "snd ?e \<noteq> NaN" using inv represents_entry(3) [of acc S "fst t"] by (auto simp: acc_inv_def no_nan_def)
  show ?case
  proof (cases "f (ae_matchedTerms (acc_get acc (fst t)))")
    case False
    then show ?thesis using Cons c by simp
  next
    case True
    obtain heap1 n1 where o: "offer_final k heap n ?e = (heap1, n1)" by fastforce
    have "topk PgturbohybridBm25NodeScoreHeapLess k (add_mset ?e M) heap1 n1"
    proof (cases "n < k")
      case room: True
      then have "heap1 = fst (heap_push PgturbohybridBm25NodeScoreHeapLess heap n ?e)" "n1 = Suc n"
        using o by (auto simp: offer_final_def heap_push_def PgturbohybridBm25NodeScoreHeapSiftUp_def)
      then show ?thesis using ns.topk_push [OF Cons.prems(2,3) e room] by simp
    next
      case False
      then have nk: "n = k" using Cons.prems(2) by (simp add: topk_def)
      show ?thesis
      proof (cases "score_before ?e (heap ! 0)")
        case better: True
        then have "heap1 = heap_replace_root PgturbohybridBm25NodeScoreHeapLess heap n ?e" "n1 = n"
          using o False by (auto simp: offer_final_def heap_replace_root_def PgturbohybridBm25NodeScoreHeapSiftDown_def score_before_def)
        then show ?thesis using ns.topk_replace [OF Cons.prems(2,3) e nk] k nk better by (simp add: score_before_iff)
      next
        case worse: False
        then have "heap1 = heap" "n1 = n" using o False by (auto simp: offer_final_def score_before_def)
        then show ?thesis using ns.topk_reject [OF Cons.prems(2,3) e nk] k nk worse by (simp add: score_before_iff)
      qed
    qed
    moreover have "\<forall>x \<in># add_mset ?e M. snd x \<noteq> NaN" using Cons.prems(3) e by simp
    ultimately show ?thesis using Cons.IH [of "add_mset ?e M" heap1 n1] Cons.prems(1) c True o by simp
  qed
qed simp

lemma candidates_distinct: "acc_inv acc S \<Longrightarrow> distinct (candidates acc f)"
proof -
  assume "acc_inv acc S"
  then have d: "distinct (map fst (acc_touched acc))" by (simp add: acc_inv_def)
  have "map fst (candidates acc f) = map fst (filter (\<lambda>t. f (ae_matchedTerms (acc_get acc (fst t)))) (acc_touched acc))"
    by (simp add: candidates_def comp_def)
  then have "distinct (map fst (candidates acc f))" using distinct_map_filter [OF d] by simp
  then show ?thesis by (simp add: distinct_map)
qed

lemma candidates_no_nan: "acc_inv acc S \<Longrightarrow> x \<in> set (candidates acc f) \<Longrightarrow> snd x \<noteq> NaN"
proof -
  assume inv: "acc_inv acc S" and "x \<in> set (candidates acc f)"
  then obtain t where t: "t \<in> set (acc_touched acc)" "x = (fst t, ae_score (acc_get acc (fst t)))" by (auto simp: candidates_def)
  then have "fst t \<in> dom S" using inv unfolding acc_inv_def by (metis image_eqI set_map)
  then show ?thesis using t inv represents_entry(3) [of acc S "fst t"] by (auto simp: acc_inv_def no_nan_def)
qed

lemma sort_short: "length xs \<le> 1 \<Longrightarrow> qsort_by lt xs = xs"
  by (cases xs; cases "tl xs") (simp_all add: qsort_by_def)

section \<open>Properties\<close>

text \<open>
  C23. The final selection through the bounded heap returns the same results as sorting all
  candidates: the k best of the touched nodes that match the query, best
  score first and lower node id first on ties.
\<close>

theorem select_final_topk_equiv:
  assumes "acc_inv acc S" "\<And>b. matched b = Inr (f b)" "0 < k" "16 * k \<le> MaxAllocSize"
  shows "\<exists>acc1 acc2 n. PgturbohybridBm25SelectFinalTopK False acc matched k = Inr (acc1, n) \<and>
    PgturbohybridBm25SelectFinalTopK True acc matched k = Inr (acc2, n) \<and>
    take n (acc_touched acc1) = take k (qsort_by score_before (candidates acc f)) \<and>
    take n (acc_touched acc2) = take k (qsort_by score_before (candidates acc f)) \<and>
    n = min k (length (candidates acc f))"
proof -
  let ?c = "candidates acc f"
  have nn: "\<forall>x \<in> set ?c. snd x \<noteq> NaN" using candidates_no_nan [OF assms(1)] by blast
  have "topk PgturbohybridBm25NodeScoreHeapLess k {#} (replicate k (0, Fin 0)) 0" by (rule ns.topk_empty) simp
  from heap_select_loop_topk [where matched = matched and f = f, OF assms(1-3) subset_refl this] obtain heap n where
    h: "heap_select_loop acc matched k (acc_touched acc) (replicate k (0, Fin 0)) 0 = Inr (heap, n)"
    and t: "topk PgturbohybridBm25NodeScoreHeapLess k (mset ?c) heap n" by (auto simp: candidates_def)
  have n: "n = min k (length ?c)" using topk_size [OF t] by simp
  obtain D where D: "mset ?c = mset (take n heap) + D" "\<forall>d \<in># D. \<forall>x \<in> set (take n heap). \<not> PgturbohybridBm25NodeScoreHeapLess x d"
    and len: "n \<le> length heap" using t by (auto simp: topk_def)
  have "\<forall>h \<in> set (take n heap). \<forall>d \<in># D. \<not> score_before d h" using D(2) by (simp add: score_before_iff)
  from qsort_split [OF strict_score_before [OF nn] candidates_distinct [OF assms(1)] D(1) this]
  have top: "qsort_by score_before (take n heap) = take n (qsort_by score_before ?c)" using len by simp
  have alloc: "PgturbohybridBm25ArrayAllocSize sizeof_nodescore k = Inr (16 * k)"
    using assms(4) by (auto simp: alloc_defs sizeof_nodescore_def MaxAllocSize_def)
  have full: "full_sort_loop acc matched (acc_touched acc) = Inr ?c"
    using full_sort_loop_eq [where matched = matched and f = f, OF assms(1,2) subset_refl] by (simp add: candidates_def)
  have tk: "take n (qsort_by score_before ?c) = take k (qsort_by score_before ?c)" using n by (simp add: min_def)
  have s1: "(if n > 1 then qsort_by score_before (take n heap) else take n heap) = qsort_by score_before (take n heap)"
    using sort_short [of "take n heap"] len by auto
  have s2: "(if length ?c > 1 then qsort_by score_before ?c else ?c) = qsort_by score_before ?c" using sort_short [of ?c] by auto
  have r1: "PgturbohybridBm25SelectFinalTopK False acc matched k = Inr (acc\<lparr>acc_touched := qsort_by score_before (take n heap)\<rparr>, n)"
    using h alloc assms(3) s1 by (simp add: PgturbohybridBm25SelectFinalTopK_def)
  have r2: "PgturbohybridBm25SelectFinalTopK True acc matched k = Inr (acc\<lparr>acc_touched := qsort_by score_before ?c\<rparr>, n)"
    using full assms(3) s2 n by (simp add: PgturbohybridBm25SelectFinalTopK_def)
  have "take n (qsort_by score_before (take n heap)) = take k (qsort_by score_before ?c)" unfolding top tk [symmetric] by simp
  then show ?thesis using r1 r2 tk n by (intro exI conjI) (assumption | simp)+
qed

theorem select_final_topk_equiv_witness:
  "\<exists>acc acc1 acc2 n. acc_touched acc \<noteq> [] \<and> PgturbohybridBm25SelectFinalTopK False acc (\<lambda>b. Inr (b \<noteq> 1)) 2 = Inr (acc1, n) \<and>
     PgturbohybridBm25SelectFinalTopK True acc (\<lambda>b. Inr (b \<noteq> 1)) 2 = Inr (acc2, n) \<and>
     take n (acc_touched acc1) = take n (acc_touched acc2)"
proof -
  obtain acc0 where i: "PgturbohybridBm25AccumulatorInit (fresh_entry 0) demo_dense 8 2 ACCUMULATOR_HASH 3 = Inr acc0"
    by (simp add: PgturbohybridBm25AccumulatorInit_def alloc_defs MaxAllocSize_def sizeof_nodescore_def)
  have da: "dense_inv demo_dense" by (simp add: dense_inv_def demo_dense_def)
  note i0 = init_correct [OF da i]
  have cs: "\<forall>(n, x, b) \<in> set demo_contributions. nonneg x \<and> in_range acc0 n"
    "32 * (length (acc_touched acc0) + length demo_contributions) \<le> MaxAllocSize"
    using i0 by (simp_all add: demo_contributions_def nonneg_def in_range_def MaxAllocSize_def)
  obtain acc where a: "acc_inv acc (fold (add_score dadd) demo_contributions Map.empty)"
    using add_all_correct [OF i0 [THEN conjunct1] _ dadd_monotone cs] by (auto simp: all_nonneg_def)
  have "fold (add_score dadd) demo_contributions Map.empty 2 \<noteq> None" by (simp add: demo_contributions_def add_score_def)
  then have "2 \<in> set (map fst (acc_touched acc))" using a unfolding acc_inv_def by (metis domIff)
  then have ne: "acc_touched acc \<noteq> []" by auto
  have "16 * (2 :: nat) \<le> MaxAllocSize" by (simp add: MaxAllocSize_def)
  from select_final_topk_equiv [where matched = "\<lambda>b. Inr (b \<noteq> 1)" and f = "\<lambda>b. b \<noteq> 1" and k = 2, OF a refl _ this]
  show ?thesis using ne by (metis zero_less_numeral)
qed

end
