(* ===== verification/Bm25_Iterator.thy ===== *)
theory Bm25_Iterator
  imports Hot_Postings_Cache
begin

text \<open>
  The posting iterator of the BM25 scan (\<open>src/src/pgturbohybrid_bm25_query.c\<close>): it follows the
  chain of postings chunks of a term through the pages of the index, reading each chunk
  from the hot postings cache or from its page, skips postings of dead or empty documents,
  and seeks to a node id. The module proves that the iterator always stops, whatever the
  pages hold, and that on well formed pages it enumerates exactly the stored postings of
  live documents, with or without the cache.
\<close>

declare evict_loop.simps [simp del]

section \<open>Pages\<close>

text \<open>
  A page: the fields of its opaque area (the block that follows in its chain, the kind with the
  last graph operation in its upper byte, and the page id) and its
  items; an item is \<open>None\<close> when its line pointer is unused. Offset numbers count from 1.
\<close>

record pg_page =
  page_nextblkno :: u32
  pageKind :: u16
  page_id :: u16
  page_items :: "bytes option list"

definition PGTURBOHYBRID_GRAPH_PAGE_ID :: u16 where "PGTURBOHYBRID_GRAPH_PAGE_ID = 0x5459"
definition PAGE_KIND_BM25_POSTINGS :: u16 where "PAGE_KIND_BM25_POSTINGS = 10"
definition PAGE_KIND_MASK :: u16 where "PAGE_KIND_MASK = 0x00ff"
definition POSTINGS_TUPLE_TYPE :: u8 where "POSTINGS_TUPLE_TYPE = 0x64"

definition PgturbohybridBm25PageIsKind :: "pg_page \<Rightarrow> u16 \<Rightarrow> bool" where
  "PgturbohybridBm25PageIsKind page kind \<longleftrightarrow>
     page_id page = PGTURBOHYBRID_GRAPH_PAGE_ID \<and> pageKind page AND PAGE_KIND_MASK = kind"

text \<open>
  What an iterator reads and does not change: the settings, the index pages by block number
  (reading a block past the end of the file is an error of the buffer manager), and the
  document arrays of the cache.
\<close>

record iter_env =
  env_guc :: hot_guc
  env_pages :: "u32 \<rightharpoonup> pg_page"
  env_docLens :: "u32 list"
  env_liveNodes :: "bool list"
  env_nodeCount :: u32

text \<open>The value of a \<open>float4\<close> from its IEEE 754 bits.\<close>

definition float4_of_bits :: "u32 \<Rightarrow> cdouble" where
  "float4_of_bits w =
     (let s = (if bit w 31 then -1 else 1 :: rat);
          e = unat (take_bit 8 (drop_bit 23 w));
          m = unat (take_bit 23 w)
      in if e = 255 then (if m \<noteq> 0 then NaN else if bit w 31 then NegInf else PosInf)
         else if e = 0 then Fin (s * of_nat m / 2 ^ 149)
         else Fin (s * of_nat (2 ^ 23 + m) * 2 ^ e / 2 ^ 150))"

section \<open>Loading a chunk\<close>

record chunk =
  ck_count :: u16
  ck_lastNodeId :: u32
  ck_maxTf :: u16
  ck_maxTfNormQ16 :: u16
  ck_maxScoreFactor :: cdouble
  ck_nextBlkno :: u32
  ck_nextOffno :: u16
  ck_encoding :: u16
  ck_postings :: "posting list"

definition valid_pointer :: "u32 \<Rightarrow> u16 \<Rightarrow> bool" where
  "valid_pointer blkno offno \<longleftrightarrow> blkno \<noteq> InvalidBlockNumber \<and> offno \<noteq> 0 \<and> unat offno \<le> MaxOffsetNumber"

text \<open>The header fields of an item; \<open>ps\<close> are its decoded postings, none when its count is 0.\<close>

definition chunk_of :: "bytes \<Rightarrow> posting list \<Rightarrow> chunk" where
  "chunk_of item ps =
     \<lparr>ck_count = u16_at item 2, ck_lastNodeId = u32_at item 16,
      ck_maxTf = (if u16_at item 26 = 0 then max_u16 (map p_tf ps) else u16_at item 26),
      ck_maxTfNormQ16 = (if u16_at item 30 = 0 then max_u16 (map p_reserved ps) else u16_at item 30),
      ck_maxScoreFactor = float4_of_bits (u32_at item 36),
      ck_nextBlkno = u32_at item 20, ck_nextOffno = u16_at item 24,
      ck_encoding = u16_at item off_encoding, ck_postings = ps\<rparr>"

definition corrupted :: "string \<Rightarrow> 'a res" where
  "corrupted msg = Inl (Ereport ERRCODE_DATA_CORRUPTED msg)"

text \<open>The item a chunk pointer names; \<open>None\<close> when its line pointer is unused.\<close>

definition page_item :: "(u32 \<rightharpoonup> pg_page) \<Rightarrow> u32 \<Rightarrow> u16 \<Rightarrow> bytes option res" where
  "page_item pages blkno offno =
     (case pages blkno of
        None \<Rightarrow> elog ''could not read block''
      | Some page \<Rightarrow>
        if \<not> PgturbohybridBm25PageIsKind page PAGE_KIND_BM25_POSTINGS \<or> unat offno > length (page_items page)
        then corrupted ''pgturbohybrid BM25 postings pointer is invalid''
        else Inr (page_items page ! (unat offno - 1)))"

definition check_tuple :: "u32 \<Rightarrow> bytes \<Rightarrow> unit res" where
  "check_tuple termId item =
     (if item ! 0 \<noteq> POSTINGS_TUPLE_TYPE \<or> u32_at item 4 \<noteq> termId
      then corrupted ''pgturbohybrid BM25 postings tuple is invalid'' else Inr ())"

definition decode_tuple :: "bytes \<Rightarrow> posting list res" where
  "decode_tuple item = (case PgturbohybridBm25DecodePostingsTuple item of
      None \<Rightarrow> corrupted ''pgturbohybrid BM25 postings payload is invalid'' | Some ps \<Rightarrow> Inr ps)"

definition read_chunk :: "(u32 \<rightharpoonup> pg_page) \<Rightarrow> u32 \<Rightarrow> u32 \<Rightarrow> u16 \<Rightarrow> chunk option res" where
  "read_chunk pages termId blkno offno =
     bindE (page_item pages blkno offno) (\<lambda>i.
       case i of
         None \<Rightarrow> Inr None
       | Some item \<Rightarrow>
         bindE (check_tuple termId item) (\<lambda>_.
         bindE (if u16_at item 2 = 0 then Inr [] else decode_tuple item) (\<lambda>ps.
         Inr (Some (chunk_of item ps)))))"

definition fill_chunk :: "chunk \<Rightarrow> iter \<Rightarrow> iter" where
  "fill_chunk ck it = it\<lparr>
     it_count := ck_count ck,
     it_lastNodeId := ck_lastNodeId ck,
     it_maxTf := ck_maxTf ck,
     it_maxTfNormQ16 := ck_maxTfNormQ16 ck,
     it_maxScoreFactor := ck_maxScoreFactor ck,
     it_nextBlkno := ck_nextBlkno ck,
     it_nextOffno := ck_nextOffno ck,
     it_postingsCapacity := (if it_postingsCapacity it < ck_count ck then ck_count ck else it_postingsCapacity it),
     it_postings := (if ck_count ck > 0 then ck_postings ck else it_postings it),
     it_stats := map_option (\<lambda>s. s\<lparr>blocksVisited := blocksVisited s + 1\<rparr>) (it_stats it),
     it_blkno := ck_nextBlkno ck,
     it_offno := ck_nextOffno ck,
     it_chunkNo := it_chunkNo it + 1,
     it_valid := ck_count ck > 0\<rparr>"

type_synonym cursor = "bool \<times> hotcache option \<times> iter"

definition PgturbohybridBm25IteratorLoadChunk :: "iter_env \<Rightarrow> hotcache option \<Rightarrow> iter \<Rightarrow> cursor res" where
  "PgturbohybridBm25IteratorLoadChunk env cache it0 =
     (let currentBlkno = it_blkno it0;
          currentOffno = it_offno it0;
          it = it0\<lparr>it_valid := False, it_count := 0, it_pos := 0\<rparr>
      in if it_chunkNo it \<ge> it_chunkLimit it \<or> \<not> valid_pointer currentBlkno currentOffno
         then Inr (False, cache, it)
         else case PgturbohybridBm25HotPostingsCacheLookup (env_guc env) cache it currentBlkno currentOffno of
           (hit, cache1, it1) \<Rightarrow>
             if hit then Inr (True, cache1, it1)
             else bindE (read_chunk (env_pages env) (it_termId it) currentBlkno currentOffno) (\<lambda>r.
               case r of
                 None \<Rightarrow> Inr (False, cache1, it1)
               | Some ck \<Rightarrow>
                 bindE (if it_postingsCapacity it1 < ck_count ck
                        then PgturbohybridBm25ArrayAllocSize sizeof_posting (unat (ck_count ck)) else Inr 0) (\<lambda>_.
                 bindE (PgturbohybridBm25HotPostingsCacheStore (env_guc env) cache1 (fill_chunk ck it1)
                          currentBlkno currentOffno (ck_encoding ck)) (\<lambda>(cache2, it2).
                 Inr (it_valid it2, cache2, it2)))))"

section \<open>Moving\<close>

definition count_stat :: "((nat \<Rightarrow> nat) \<Rightarrow> PgturbohybridBm25QueryStats \<Rightarrow> PgturbohybridBm25QueryStats) \<Rightarrow> iter \<Rightarrow> iter" where
  "count_stat upd it = it\<lparr>it_stats := map_option (upd Suc) (it_stats it)\<rparr>"

definition node_live :: "iter_env \<Rightarrow> u32 \<Rightarrow> bool" where
  "node_live env nodeId \<longleftrightarrow> nodeId < env_nodeCount env \<and> env_docLens env ! unat nodeId \<noteq> 0 \<and>
     env_liveNodes env ! unat nodeId"

text \<open>The loops that step over postings of the current chunk.\<close>

function skip_postings :: "(posting \<Rightarrow> bool) \<Rightarrow> iter \<Rightarrow> iter" where
  "skip_postings skip it =
     (if it_pos it < it_count it \<and> skip (it_postings it ! unat (it_pos it))
      then skip_postings skip (count_stat postingsDecoded_update (it\<lparr>it_pos := it_pos it + 1\<rparr>))
      else it)"
  by pat_completeness auto
termination
proof (relation "measure (\<lambda>(_, it). unat (it_count it) - unat (it_pos it))")
  fix skip :: "posting \<Rightarrow> bool" and it :: iter
  assume "it_pos it < it_count it \<and> skip (it_postings it ! unat (it_pos it))"
  then have l: "unat (it_pos it) < unat (it_count it)" by (simp add: word_less_nat_alt)
  moreover have "unat (it_count it) < 2 ^ 16" using unsigned_less [of "it_count it", where ?'a = nat] by simp
  ultimately have "unat (it_pos it + 1) = unat (it_pos it) + 1" by (simp add: unat_word_ariths)
  then show "((skip, count_stat postingsDecoded_update (it\<lparr>it_pos := it_pos it + 1\<rparr>)), skip, it)
      \<in> measure (\<lambda>(_, it). unat (it_count it) - unat (it_pos it))"
    using l by (simp add: count_stat_def)
qed simp

declare skip_postings.simps [simp del]

text \<open>
  The outer loops load one chunk per round. Their fuel is the number of chunks the iterator
  may still load; \<open>seek_total\<close> shows that it never runs out.
\<close>

definition loads_left :: "iter \<Rightarrow> nat" where
  "loads_left it = unat (it_chunkLimit it) - unat (it_chunkNo it)"

definition out_of_fuel :: "'a res" where
  "out_of_fuel = elog ''posting iterator does not stop''"

fun advance_loop :: "nat \<Rightarrow> iter_env \<Rightarrow> hotcache option \<Rightarrow> iter \<Rightarrow> cursor res" where
  "advance_loop 0 env cache it = out_of_fuel"
| "advance_loop (Suc fuel) env cache it =
     (let it1 = (if it_valid it then skip_postings (\<lambda>p. \<not> node_live env (p_nodeId p)) it else it)
      in if it_valid it1 \<and> it_pos it1 < it_count it1 then Inr (True, cache, it1)
         else bindE (PgturbohybridBm25IteratorLoadChunk env cache it1) (\<lambda>(ok, cache2, it2).
                if ok then advance_loop fuel env cache2 it2 else Inr (False, cache2, it2)))"

definition PgturbohybridBm25IteratorAdvanceValid :: "iter_env \<Rightarrow> hotcache option \<Rightarrow> iter \<Rightarrow> cursor res" where
  "PgturbohybridBm25IteratorAdvanceValid env cache it = advance_loop (Suc (loads_left it)) env cache it"

fun seek_loop :: "nat \<Rightarrow> iter_env \<Rightarrow> hotcache option \<Rightarrow> iter \<Rightarrow> u32 \<Rightarrow> cursor res" where
  "seek_loop 0 env cache it target = out_of_fuel"
| "seek_loop (Suc fuel) env cache it target =
     (if \<not> it_valid it then Inr (False, cache, it)
      else if it_lastNodeId it < target then
        bindE (PgturbohybridBm25IteratorLoadChunk env cache (count_stat blocksSkipped_update it)) (\<lambda>(ok, cache2, it2).
          if ok then seek_loop fuel env cache2 it2 target else Inr (False, cache2, it2))
      else PgturbohybridBm25IteratorAdvanceValid env cache (skip_postings (\<lambda>p. p_nodeId p < target) it))"

definition PgturbohybridBm25IteratorSeekTo ::
    "iter_env \<Rightarrow> hotcache option \<Rightarrow> iter \<Rightarrow> u32 \<Rightarrow> cursor res" where
  "PgturbohybridBm25IteratorSeekTo env cache it target = seek_loop (Suc (loads_left it)) env cache it target"

definition PgturbohybridBm25IteratorNodeId :: "iter \<Rightarrow> u32" where
  "PgturbohybridBm25IteratorNodeId it =
     (if \<not> it_valid it \<or> it_pos it \<ge> it_count it then 0xffffffff
      else p_nodeId (it_postings it ! unat (it_pos it)))"

definition PgturbohybridBm25IteratorSeekExact ::
    "iter_env \<Rightarrow> hotcache option \<Rightarrow> iter \<Rightarrow> u32 \<Rightarrow> (posting option \<times> hotcache option \<times> iter) res" where
  "PgturbohybridBm25IteratorSeekExact env cache it target =
     bindE (PgturbohybridBm25IteratorSeekTo env cache it target) (\<lambda>(ok, cache1, it1).
       if \<not> ok then Inr (None, cache1, it1)
       else if PgturbohybridBm25IteratorNodeId it1 \<noteq> target then Inr (None, cache1, it1)
       else Inr (Some (it_postings it1 ! unat (it_pos it1)), cache1, it1))"

definition PgturbohybridBm25IteratorAdvancePast ::
    "iter_env \<Rightarrow> hotcache option \<Rightarrow> iter \<Rightarrow> u32 \<Rightarrow> cursor res" where
  "PgturbohybridBm25IteratorAdvancePast env cache it nodeId =
     (if nodeId = 0xffffffff then Inr (False, cache, it)
      else PgturbohybridBm25IteratorSeekTo env cache it (nodeId + 1))"

text \<open>The fields of a query term the iterator reads.\<close>

record iter_term =
  t_termId :: u32
  t_baseDf :: u32
  t_deltaDf :: u32
  t_matchBit :: u64
  t_hasLexicon :: bool
  t_postingsChunkCount :: u32
  t_postingsBlkno :: u32
  t_postingsOffno :: u16

definition iter_zero :: "iter_term \<Rightarrow> cdouble \<Rightarrow> cdouble \<Rightarrow> PgturbohybridBm25QueryStats option \<Rightarrow> iter" where
  "iter_zero t idf avgDocLen stats =
     \<lparr>it_termId = t_termId t, it_baseDf = t_baseDf t, it_matchBit = t_matchBit t, it_idf = idf,
      it_avgDocLen = avgDocLen, it_chunkLimit = max (t_postingsChunkCount t) 1, it_chunkNo = 0,
      it_blkno = t_postingsBlkno t, it_offno = t_postingsOffno t, it_postings = [], it_postingsCapacity = 0,
      it_count = 0, it_pos = 0, it_maxTf = 0, it_maxTfNormQ16 = 0, it_maxScoreFactor = Fin 0,
      it_lastNodeId = 0, it_nextBlkno = 0, it_nextOffno = 0, it_valid = False, it_stats = stats\<rparr>"

definition PgturbohybridBm25IteratorInit ::
    "iter_env \<Rightarrow> hotcache option \<Rightarrow> iter_term \<Rightarrow> cdouble \<Rightarrow> cdouble \<Rightarrow> PgturbohybridBm25QueryStats option \<Rightarrow> cursor res" where
  "PgturbohybridBm25IteratorInit env cache t idf avgDocLen stats =
     bindE (PgturbohybridBm25IteratorLoadChunk env cache (iter_zero t idf avgDocLen stats)) (\<lambda>(ok, cache1, it1).
       if \<not> ok then Inr (False, cache1, it1)
       else PgturbohybridBm25IteratorAdvanceValid env cache1 it1)"

definition PgturbohybridBm25IteratorClose :: "iter \<Rightarrow> iter" where
  "PgturbohybridBm25IteratorClose it = it\<lparr>it_postings := [], it_postingsCapacity := 0, it_valid := False\<rparr>"


section \<open>Stored chunks\<close>

lemma decode_length:
  assumes "PgturbohybridBm25DecodePostingsTuple item = Some ps"
  shows "length ps = unat (u16_at item 2)"
proof (cases "PgturbohybridBm25PostingsTupleSize (unat (u16_at item 32)) = length item")
  case True
  then show ?thesis using decode_sorted [OF assms] by simp
next
  case False
  then show ?thesis using assms length_decode_legacy [of "unat (u16_at item 2)" "drop off_encoding item"]
    by (auto simp: PgturbohybridBm25DecodePostingsTuple_def Let_def PgturbohybridBm25LegacyPostingsTupleSize_def
       off_encoding_def MAXALIGN_def split: if_splits)
qed

lemma decode_tuple_length: "decode_tuple item = Inr ps \<Longrightarrow> length ps = unat (u16_at item 2)"
  using decode_length [of item] by (auto simp: decode_tuple_def corrupted_def split: option.splits)

lemma read_chunk_length:
  assumes "read_chunk pages t b n = Inr (Some ck)"
  shows "length (ck_postings ck) = unat (ck_count ck)"
proof -
  obtain item ps where i: "(if u16_at item 2 = 0 then Inr [] else decode_tuple item) = Inr ps" "ck = chunk_of item ps"
    using assms unfolding read_chunk_def bindE_Inr_iff by (auto simp: bindE_Inr_iff simp del: if_splits split: option.splits)
  show ?thesis
  proof (cases "u16_at item 2 = 0")
    case True
    then show ?thesis using i by (simp add: chunk_of_def)
  next
    case False
    then show ?thesis using i decode_tuple_length [of item ps] by (simp add: chunk_of_def)
  qed
qed

section \<open>The cache under the iterator\<close>

text \<open>A cache in a consistent state whose entries all satisfy a property of their contents.\<close>

definition cache_sat :: "(hotentry \<Rightarrow> bool) \<Rightarrow> hotcache option \<Rightarrow> bool" where
  "cache_sat P cache = (case cache of None \<Rightarrow> True | Some c \<Rightarrow> \<exists>xs. hot_inv c xs \<and> (\<forall>e \<in> set (entries c xs). P e))"

lemma cache_sat_use:
  assumes "\<And>e t. P e \<Longrightarrow> P (he_lastUsed_update (\<lambda>_. t) e)" "\<forall>e \<in> set es. P e"
  shows "\<forall>e \<in> set (lru_use k t es). P e"
  using assms by (auto simp: lru_use_def)

lemma set_lru_store: "set (lru_store limit e es) \<subseteq> insert e (set es)"
  using lru_evict_prefix [of "he_bytes e" limit "filter (\<lambda>x. he_key x \<noteq> he_key e) es"]
  by (auto simp: lru_store_def dest!: in_set_takeD)

lemma lookup_sat:
  assumes P: "\<And>e t. P e \<Longrightarrow> P (he_lastUsed_update (\<lambda>_. t) e)" and sat: "cache_sat P cache"
    and l: "PgturbohybridBm25HotPostingsCacheLookup g cache it b n = (hit, cache', it')"
  shows "cache_sat P cache' \<and>
    (if hit then \<exists>e. P e \<and> entry_ok e \<and> he_key e = PgturbohybridBm25HotPostingsCacheKey it b n \<and>
        it' = (hot_fill e it)\<lparr>it_stats := it_stats it'\<rparr>
     else it' = it\<lparr>it_stats := it_stats it'\<rparr>)"
proof (cases cache)
  case None
  then show ?thesis using l by (auto simp: PgturbohybridBm25HotPostingsCacheLookup_def cache_sat_def)
next
  case (Some c)
  then obtain xs where xs: "hot_inv c xs" "\<forall>e \<in> set (entries c xs). P e" using sat by (auto simp: cache_sat_def)
  let ?k = "PgturbohybridBm25HotPostingsCacheKey it b n"
  show ?thesis
  proof (cases "PgturbohybridBm25HotPostingsCacheLimitBytes g = 0 \<or> it_baseDf it < word_of_int (hot_postings_cache_min_df g)")
    case True
    then show ?thesis using l sat Some by (auto simp: PgturbohybridBm25HotPostingsCacheLookup_def)
  next
    case False
    then have on: "PgturbohybridBm25HotPostingsCacheLimitBytes g > 0"
      "it_baseDf it \<ge> word_of_int (hot_postings_cache_min_df g)" by (auto simp: linorder_not_less)
    show ?thesis
    proof (cases "?k \<in> he_key ` set (entries c xs)")
      case True
      then obtain e where e: "e \<in> set (entries c xs)" "he_key e = ?k" by auto
      from lookup_hit [OF xs(1) on e] obtain c1 it1 ys where
        h: "PgturbohybridBm25HotPostingsCacheLookup g (Some c) it b n = (True, Some c1, it1)" "hot_inv c1 ys"
        "entries c1 ys = lru_use (he_key e) (hotPostingsClock c + 1) (entries c xs)"
        "it1 = (hot_fill e it)\<lparr>it_stats := it_stats it1\<rparr>" by blast
      have eq: "hit = True" "cache' = Some c1" "it' = it1" using h(1) l Some by auto
      have "cache_sat P cache'"
        using h(2,3) cache_sat_use [where P = P, OF P xs(2)] by (auto simp: cache_sat_def eq(2))
      moreover have "P e" "entry_ok e" using e(1) xs by (auto simp: hot_inv_def)
      ultimately show ?thesis using e(2) h(4) unfolding eq by auto
    next
      case False
      from lookup_miss [OF xs(1) False, of g] obtain it1 where
        m: "PgturbohybridBm25HotPostingsCacheLookup g (Some c) it b n = (False, Some c, it1)"
        "it1 = it\<lparr>it_stats := it_stats it1\<rparr>" by blast
      have eq: "hit = False" "cache' = cache" "it' = it1" using m(1) l Some by auto
      show ?thesis using sat m(2) unfolding eq by simp
    qed
  qed
qed

lemma store_iter:
  assumes "PgturbohybridBm25HotPostingsCacheStore g cache it b n enc = Inr r"
  shows "snd r = it\<lparr>it_stats := it_stats (snd r)\<rparr>"
  using assms
  unfolding PgturbohybridBm25HotPostingsCacheStore_def Let_def bindE_def
  by (simp split: if_split_asm option.split_asm sum.split_asm) auto

lemma store_sat:
  fixes b :: u32 and n :: u16
  assumes sat: "cache_sat P cache" and g: "guc_ok g" and len: "unat (it_count it) \<le> length (it_postings it)"
    and new: "\<And>t. it_count it \<noteq> 0 \<Longrightarrow>
      P (new_entry it (PgturbohybridBm25HotPostingsCacheKey it b n) (hot_bytes it) t)"
  shows "\<exists>cache' it'. PgturbohybridBm25HotPostingsCacheStore g cache it b n enc = Inr (cache', it') \<and>
    cache_sat P cache' \<and> it' = it\<lparr>it_stats := it_stats it'\<rparr>"
proof (cases cache)
  case None
  then show ?thesis by (simp add: PgturbohybridBm25HotPostingsCacheStore_def cache_sat_def)
next
  case (Some c)
  then obtain xs where xs: "hot_inv c xs" "\<forall>e \<in> set (entries c xs). P e" using sat by (auto simp: cache_sat_def)
  show ?thesis
  proof (cases "PgturbohybridBm25HotPostingsCacheEligible g True it enc \<and> it_count it \<noteq> 0 \<and>
      hot_bytes it \<le> PgturbohybridBm25HotPostingsCacheLimitBytes g")
    case True
    let ?e = "new_entry it (PgturbohybridBm25HotPostingsCacheKey it b n) (hot_bytes it) (hotPostingsClock c + 1)"
    from store_refines [OF xs(1) g _ _ len, of enc b n] True obtain c' it' ys where
      s: "PgturbohybridBm25HotPostingsCacheStore g (Some c) it b n enc = Inr (Some c', it')" "hot_inv c' ys"
      "entries c' ys = lru_store (PgturbohybridBm25HotPostingsCacheLimitBytes g) ?e (entries c xs)" by blast
    have "cache_sat P (Some c')" using s(2,3) xs(2) new True set_lru_store by (fastforce simp: cache_sat_def)
    moreover have "it' = it\<lparr>it_stats := it_stats it'\<rparr>" using store_iter [OF s(1)] by simp
    ultimately show ?thesis using s(1) Some by blast
  next
    case False
    then have "PgturbohybridBm25HotPostingsCacheStore g cache it b n enc = Inr (cache, it)"
      using Some by (auto simp: PgturbohybridBm25HotPostingsCacheStore_def hot_entry_bytes_ok hot_bytes_def Let_def)
    then show ?thesis using sat by force
  qed
qed

section \<open>The iterator stops\<close>

text \<open>
  For any contents of the pages and any consistent cache, a load that delivers a chunk uses
  up one of the loads the chunk limit allows, and no load runs into the fuel error.
\<close>

definition sane :: "iter_env \<Rightarrow> hotcache option \<Rightarrow> bool" where
  "sane env cache \<longleftrightarrow> guc_ok (env_guc env) \<and> cache_sat (\<lambda>_. True) cache"

lemma alloc_postings_ok: "PgturbohybridBm25ArrayAllocSize sizeof_posting (unat (n :: u16)) = Inr (8 * unat n)"
  using unsigned_less [of n, where ?'a = nat]
  by (simp add: PgturbohybridBm25ArrayAllocSize_def alloc_size_def sizeof_posting_def MaxAllocSize_def)

lemma fill_chunk_buffer:
  assumes "length (ck_postings ck) = unat (ck_count ck)"
  shows "unat (it_count (fill_chunk ck it)) \<le> length (it_postings (fill_chunk ck it))"
  using assms by (simp add: fill_chunk_def word_gt_0)

definition entry_chunk :: "hotentry \<Rightarrow> chunk \<Rightarrow> bool" where
  "entry_chunk e ck \<longleftrightarrow> he_count e = ck_count ck \<and> he_lastNodeId e = ck_lastNodeId ck \<and> he_maxTf e = ck_maxTf ck \<and>
     he_maxTfNormQ16 e = ck_maxTfNormQ16 ck \<and> he_maxScoreFactor e = ck_maxScoreFactor ck \<and>
     he_nextBlkno e = ck_nextBlkno ck \<and> he_nextOffno e = ck_nextOffno ck \<and> he_postings e = ck_postings ck"

definition coherent :: "(u32 \<rightharpoonup> pg_page) \<Rightarrow> hotentry \<Rightarrow> bool" where
  "coherent pages e \<longleftrightarrow> (\<exists>ck. entry_chunk e ck \<and>
     read_chunk pages (k_termId (he_key e)) (k_blkno (he_key e)) (k_offno (he_key e)) = Inr (Some ck))"

lemma coherent_stamp: "coherent pages e \<Longrightarrow> coherent pages (he_lastUsed_update (\<lambda>_. t) e)"
  by (simp add: coherent_def entry_chunk_def)

lemma sat_weaken: "cache_sat P cache \<Longrightarrow> cache_sat (\<lambda>_. True) cache"
  by (auto simp: cache_sat_def split: option.splits)

text \<open>The iterator after a load, apart from its statistics.\<close>

definition loaded :: "iter \<Rightarrow> chunk \<Rightarrow> iter \<Rightarrow> bool" where
  "loaded it ck it' \<longleftrightarrow> it_termId it' = it_termId it \<and> it_chunkLimit it' = it_chunkLimit it \<and>
     it_baseDf it' = it_baseDf it \<and> it_matchBit it' = it_matchBit it \<and> it_idf it' = it_idf it \<and>
     it_avgDocLen it' = it_avgDocLen it \<and>
     it_chunkNo it' = it_chunkNo it + 1 \<and> it_pos it' = 0 \<and> it_count it' = ck_count ck \<and>
     it_lastNodeId it' = ck_lastNodeId ck \<and> it_blkno it' = ck_nextBlkno ck \<and> it_offno it' = ck_nextOffno ck \<and>
     it_maxTf it' = ck_maxTf ck \<and> it_maxTfNormQ16 it' = ck_maxTfNormQ16 ck \<and>
     it_maxScoreFactor it' = ck_maxScoreFactor ck \<and>
     it_valid it' = (ck_count ck > 0) \<and> (ck_count ck > 0 \<longrightarrow> it_postings it' = ck_postings ck)"

lemma load_chunk_outcome:
  assumes g: "guc_ok (env_guc env)" and sat: "cache_sat P cache"
    and P: "\<forall>e t. P e \<longrightarrow> P (he_lastUsed_update (\<lambda>_. t) e)"
    and new: "\<forall>e ck. entry_chunk e ck \<and>
      he_key e = PgturbohybridBm25HotPostingsCacheKey it (it_blkno it) (it_offno it) \<and>
      read_chunk (env_pages env) (it_termId it) (it_blkno it) (it_offno it) = Inr (Some ck) \<longrightarrow> P e"
  shows "(it_chunkNo it \<ge> it_chunkLimit it \<or> \<not> valid_pointer (it_blkno it) (it_offno it)) \<and>
      PgturbohybridBm25IteratorLoadChunk env cache it = Inr (False, cache, it\<lparr>it_valid := False, it_count := 0, it_pos := 0\<rparr>) \<or>
    it_chunkNo it < it_chunkLimit it \<and> valid_pointer (it_blkno it) (it_offno it) \<and>
      ((\<exists>e ck cache' it'. P e \<and> entry_chunk e ck \<and> entry_ok e \<and>
          he_key e = PgturbohybridBm25HotPostingsCacheKey it (it_blkno it) (it_offno it) \<and>
          PgturbohybridBm25IteratorLoadChunk env cache it = Inr (True, cache', it') \<and> loaded it ck it' \<and> cache_sat P cache') \<or>
       (\<exists>e. read_chunk (env_pages env) (it_termId it) (it_blkno it) (it_offno it) = Inl e \<and>
          PgturbohybridBm25IteratorLoadChunk env cache it = Inl e) \<or>
       (\<exists>cache' it'. read_chunk (env_pages env) (it_termId it) (it_blkno it) (it_offno it) = Inr None \<and>
          PgturbohybridBm25IteratorLoadChunk env cache it = Inr (False, cache', it') \<and> cache_sat P cache') \<or>
       (\<exists>ck cache' it'. read_chunk (env_pages env) (it_termId it) (it_blkno it) (it_offno it) = Inr (Some ck) \<and>
          PgturbohybridBm25IteratorLoadChunk env cache it = Inr (ck_count ck > 0, cache', it') \<and> loaded it ck it' \<and>
          cache_sat P cache'))"
proof (cases "it_chunkNo it \<ge> it_chunkLimit it \<or> \<not> valid_pointer (it_blkno it) (it_offno it)")
  case True
  then show ?thesis by (auto simp: PgturbohybridBm25IteratorLoadChunk_def Let_def)
next
  case False
  then have ok: "it_chunkNo it < it_chunkLimit it" "valid_pointer (it_blkno it) (it_offno it)" by auto
  define it0 where "it0 = it\<lparr>it_valid := False, it_count := 0, it_pos := 0\<rparr>"
  obtain hit cache1 it1 where
    l: "PgturbohybridBm25HotPostingsCacheLookup (env_guc env) cache it0 (it_blkno it) (it_offno it) = (hit, cache1, it1)"
    by (metis prod_cases3)
  have P': "\<And>e t. P e \<Longrightarrow> P (he_lastUsed_update (\<lambda>_. t) e)" using P by blast
  note look = lookup_sat [where P = P, OF P' sat l]
  let ?r = "read_chunk (env_pages env) (it_termId it) (it_blkno it) (it_offno it)"
  have key: "PgturbohybridBm25HotPostingsCacheKey it0 b n = PgturbohybridBm25HotPostingsCacheKey it b n" for b n
    by (simp add: it0_def PgturbohybridBm25HotPostingsCacheKey_def)
  have load: "PgturbohybridBm25IteratorLoadChunk env cache it = (if hit then Inr (True, cache1, it1) else
      bindE ?r (\<lambda>r. case r of None \<Rightarrow> Inr (False, cache1, it1)
        | Some ck \<Rightarrow> bindE (PgturbohybridBm25HotPostingsCacheStore (env_guc env) cache1 (fill_chunk ck it1)
             (it_blkno it) (it_offno it) (ck_encoding ck)) (\<lambda>(cache2, it2). Inr (it_valid it2, cache2, it2))))"
    using ok l unfolding PgturbohybridBm25IteratorLoadChunk_def it0_def Let_def
    by (auto simp: alloc_postings_ok intro!: arg_cong [where f = "bindE ?r"] ext split: option.splits)
  show ?thesis
  proof (cases hit)
    case True
    then obtain e where e: "P e" "entry_ok e" "he_key e = PgturbohybridBm25HotPostingsCacheKey it (it_blkno it) (it_offno it)"
      "it1 = (hot_fill e it0)\<lparr>it_stats := it_stats it1\<rparr>" using look key by auto
    define ck where "ck = \<lparr>ck_count = he_count e, ck_lastNodeId = he_lastNodeId e, ck_maxTf = he_maxTf e,
      ck_maxTfNormQ16 = he_maxTfNormQ16 e, ck_maxScoreFactor = he_maxScoreFactor e, ck_nextBlkno = he_nextBlkno e,
      ck_nextOffno = he_nextOffno e, ck_encoding = 0, ck_postings = he_postings e\<rparr>"
    have "entry_chunk e ck" by (simp add: entry_chunk_def ck_def)
    moreover have "loaded it ck it1"
      by (subst e(4)) (simp add: loaded_def hot_fill_def ck_def it0_def)
    ultimately show ?thesis using e(1-3) True load look ok by auto
  next
    case miss: False
    then have it1: "it1 = it0\<lparr>it_stats := it_stats it1\<rparr>" and c1: "cache_sat P cache1" using look by auto
    show ?thesis
    proof (cases ?r)
      case (Inl e)
      then show ?thesis using miss load ok by simp
    next
      case (Inr r)
      show ?thesis
      proof (cases r)
        case None
        then show ?thesis using Inr miss load ok c1 by auto
      next
        case (Some ck)
        note rd = Inr [unfolded Some]
        note len = read_chunk_length [OF rd]
        let ?it = "fill_chunk ck it1"
        have fields: "it_count ?it = ck_count ck" "ck_count ck \<noteq> 0 \<Longrightarrow> it_postings ?it = ck_postings ck"
          by (simp_all add: fill_chunk_def word_gt_0)
        have new': "P (new_entry ?it (PgturbohybridBm25HotPostingsCacheKey ?it (it_blkno it) (it_offno it)) (hot_bytes ?it) t)"
          if "it_count ?it \<noteq> 0" for t
        proof (rule new [rule_format, OF conjI [OF _ conjI [OF _ rd]]])
          show "entry_chunk (new_entry ?it (PgturbohybridBm25HotPostingsCacheKey ?it (it_blkno it) (it_offno it)) (hot_bytes ?it) t) ck"
            using that fields len by (auto simp: entry_chunk_def new_entry_def) (simp_all add: fill_chunk_def)
          show "he_key (new_entry ?it (PgturbohybridBm25HotPostingsCacheKey ?it (it_blkno it) (it_offno it)) (hot_bytes ?it) t)
              = PgturbohybridBm25HotPostingsCacheKey it (it_blkno it) (it_offno it)"
            by (subst it1) (simp add: new_entry_def PgturbohybridBm25HotPostingsCacheKey_def fill_chunk_def it0_def)
        qed
        obtain cache2 it2 where st: "PgturbohybridBm25HotPostingsCacheStore (env_guc env) cache1 ?it
            (it_blkno it) (it_offno it) (ck_encoding ck) = Inr (cache2, it2)" "cache_sat P cache2"
            "it2 = ?it\<lparr>it_stats := it_stats it2\<rparr>"
          using store_sat [OF c1 g fill_chunk_buffer [OF len] new'] by blast
        have "loaded it ck it2" by (subst st(3), subst it1) (simp add: loaded_def fill_chunk_def it0_def)
        moreover have "it_valid it2 = (ck_count ck > 0)" by (subst st(3)) (simp add: fill_chunk_def)
        ultimately show ?thesis using rd miss load ok st by auto
      qed
    qed
  qed
qed

lemma read_chunk_fuel: "read_chunk pages t b n \<noteq> out_of_fuel"
  by (auto simp: read_chunk_def page_item_def check_tuple_def decode_tuple_def corrupted_def out_of_fuel_def
      bindE_def split: option.splits sum.splits if_splits)

lemma chunkNo_step:
  assumes "it_chunkNo it < it_chunkLimit it" "it_chunkNo it' = it_chunkNo it + 1" "it_chunkLimit it' = it_chunkLimit it"
  shows "Suc (loads_left it') = loads_left it"
proof -
  have l: "unat (it_chunkNo it) < unat (it_chunkLimit it)" using assms(1) by (simp add: word_less_nat_alt)
  moreover have "unat (it_chunkLimit it) < 2 ^ 32" using unsigned_less [of "it_chunkLimit it", where ?'a = nat] by simp
  ultimately have "unat (it_chunkNo it + 1) = unat (it_chunkNo it) + 1" by (simp add: unat_word_ariths)
  then show ?thesis using l assms by (simp add: loads_left_def)
qed

lemma loaded_loads: "loaded it ck it' \<Longrightarrow> it_chunkNo it < it_chunkLimit it \<Longrightarrow> Suc (loads_left it') = loads_left it"
  using chunkNo_step [of it it'] by (simp add: loaded_def)

lemma load_progress:
  assumes "sane env cache"
  shows "case PgturbohybridBm25IteratorLoadChunk env cache it of
      Inl e \<Rightarrow> Inl e \<noteq> out_of_fuel
    | Inr (ok, cache', it') \<Rightarrow> sane env cache' \<and> (ok \<longrightarrow> Suc (loads_left it') = loads_left it)"
proof -
  have "guc_ok (env_guc env)" "cache_sat (\<lambda>_. True) cache" using assms by (simp_all add: sane_def)
  from load_chunk_outcome [OF this, of it, simplified] show ?thesis
    using loaded_loads read_chunk_fuel [of "env_pages env" "it_termId it" "it_blkno it" "it_offno it"] assms
    by (elim disjE conjE exE) (auto simp: sane_def out_of_fuel_def)
qed

lemma skip_postings_pos:
  "\<exists>p st. skip_postings skip it = it\<lparr>it_pos := p, it_stats := st\<rparr> \<and>
     (\<not> p < it_count it \<or> \<not> skip (it_postings it ! unat p))"
proof (induction skip it rule: skip_postings.induct)
  case (1 skip it)
  show ?case
  proof (cases "it_pos it < it_count it \<and> skip (it_postings it ! unat (it_pos it))")
    case True
    then have s: "skip_postings skip it =
        skip_postings skip (count_stat postingsDecoded_update (it\<lparr>it_pos := it_pos it + 1\<rparr>))"
      by (subst skip_postings.simps) simp
    from 1 [OF True] show ?thesis by (simp add: s) (auto simp: count_stat_def)
  next
    case False
    then have s: "skip_postings skip it = it" by (subst skip_postings.simps) auto
    have "it = it\<lparr>it_pos := it_pos it, it_stats := it_stats it\<rparr>" by simp
    then show ?thesis using False unfolding s by blast
  qed
qed

lemma loads_left_simps [simp]:
  "loads_left (it_pos_update f it) = loads_left it" "loads_left (it_stats_update g it) = loads_left it"
  "loads_left (count_stat upd it) = loads_left it" "loads_left (skip_postings skip it) = loads_left it"
  using skip_postings_pos [of skip it] by (auto simp: loads_left_def count_stat_def)

text \<open>What the loops promise on every input.\<close>

definition stops :: "iter_env \<Rightarrow> cursor res \<Rightarrow> bool" where
  "stops env r = (case r of Inl e \<Rightarrow> Inl e \<noteq> (out_of_fuel :: cursor res)
     | Inr (ok, cache, it) \<Rightarrow> sane env cache \<and>
        (ok \<longrightarrow> it_valid it \<and> it_pos it < it_count it \<and> node_live env (PgturbohybridBm25IteratorNodeId it)))"

lemma advance_stops:
  "sane env cache \<Longrightarrow> loads_left it < fuel \<Longrightarrow> stops env (advance_loop fuel env cache it)"
proof (induction fuel env cache it rule: advance_loop.induct)
  case (2 fuel env cache it)
  define it1 where "it1 = (if it_valid it then skip_postings (\<lambda>p. \<not> node_live env (p_nodeId p)) it else it)"
  have ll: "loads_left it1 = loads_left it" by (simp add: it1_def)
  show ?case
  proof (cases "it_valid it1 \<and> it_pos it1 < it_count it1")
    case True
    then have "it_valid it" by (auto simp: it1_def split: if_splits)
    then have "node_live env (PgturbohybridBm25IteratorNodeId it1)"
      using True skip_postings_pos [of "\<lambda>p. \<not> node_live env (p_nodeId p)" it]
      by (auto simp: it1_def PgturbohybridBm25IteratorNodeId_def)
    then show ?thesis using True "2.prems" by (simp add: stops_def Let_def flip: it1_def)
  next
    case False
    note p = load_progress [OF "2.prems"(1), of it1]
    show ?thesis
    proof (cases "PgturbohybridBm25IteratorLoadChunk env cache it1")
      case (Inl e)
      then show ?thesis using False p by (auto simp: stops_def Let_def simp flip: it1_def)
    next
      case (Inr r)
      obtain ok c2 it2 where r: "r = (ok, c2, it2)" by (metis prod_cases3)
      show ?thesis using "2.IH" [OF it1_def _ r [symmetric], of c2 it2] "2.prems" False p Inr ll
        by (cases ok) (auto simp: r stops_def Let_def simp flip: it1_def)
    qed
  qed
qed simp

lemma seek_stops:
  "sane env cache \<Longrightarrow> loads_left it < fuel \<Longrightarrow> stops env (seek_loop fuel env cache it target)"
proof (induction fuel arbitrary: cache it)
  case (Suc fuel)
  note p = load_progress [OF Suc.prems(1), of "count_stat blocksSkipped_update it"]
  show ?case
  proof (cases "it_valid it \<and> it_lastNodeId it < target")
    case True
    show ?thesis
    proof (cases "PgturbohybridBm25IteratorLoadChunk env cache (count_stat blocksSkipped_update it)")
      case (Inl e)
      then show ?thesis using True p by (auto simp: stops_def)
    next
      case (Inr r)
      obtain ok c2 it2 where r: "r = (ok, c2, it2)" by (metis prod_cases3)
      show ?thesis using Suc.IH [of c2 it2] Suc.prems True p Inr
        by (cases ok) (auto simp: r stops_def)
    qed
  next
    case False
    then show ?thesis using Suc.prems
      by (auto simp: stops_def [of env "Inr (False, cache, it)"] PgturbohybridBm25IteratorAdvanceValid_def
          simp del: advance_loop.simps intro!: advance_stops)
  qed
qed simp

section \<open>The iterator enumerates the stored postings\<close>

text \<open>
  The chunks of a term as the pages hold them: at most \<open>k\<close> of them, from a pointer on. A
  stored chunk is not empty and its header names its last node id.
\<close>

definition chunk_ok :: "chunk \<Rightarrow> bool" where
  "chunk_ok ck \<longleftrightarrow> ck_count ck \<noteq> 0 \<and> ck_lastNodeId ck = p_nodeId (last (ck_postings ck))"

fun stored_chunks :: "(u32 \<rightharpoonup> pg_page) \<Rightarrow> u32 \<Rightarrow> nat \<Rightarrow> u32 \<Rightarrow> u16 \<Rightarrow> chunk list option" where
  "stored_chunks pages t 0 b n = Some []"
| "stored_chunks pages t (Suc k) b n =
     (if \<not> valid_pointer b n then Some []
      else case read_chunk pages t b n of
             Inr (Some ck) \<Rightarrow> if chunk_ok ck
               then map_option (Cons ck) (stored_chunks pages t k (ck_nextBlkno ck) (ck_nextOffno ck)) else None
           | _ \<Rightarrow> None)"

definition ahead :: "iter_env \<Rightarrow> iter \<Rightarrow> chunk list option" where
  "ahead env it = stored_chunks (env_pages env) (it_termId it) (loads_left it) (it_blkno it) (it_offno it)"

definition all_postings :: "chunk list \<Rightarrow> posting list" where
  "all_postings cks = concat (map ck_postings cks)"

definition in_chunk :: "iter \<Rightarrow> posting list" where
  "in_chunk it = (if it_valid it then drop (unat (it_pos it)) (it_postings it) else [])"

definition rest :: "iter_env \<Rightarrow> iter \<Rightarrow> posting list" where
  "rest env it = in_chunk it @ all_postings (the (ahead env it))"

definition ascending :: "posting list \<Rightarrow> bool" where
  "ascending ps = sorted_wrt (<) (map p_nodeId ps)"

definition cgood :: "iter_env \<Rightarrow> hotcache option \<Rightarrow> bool" where
  "cgood env cache \<longleftrightarrow> guc_ok (env_guc env) \<and> cache_sat (coherent (env_pages env)) cache"

definition buffer_ok :: "iter \<Rightarrow> bool" where
  "buffer_ok it \<longleftrightarrow> (it_valid it \<longrightarrow> length (it_postings it) = unat (it_count it) \<and> it_count it \<noteq> 0 \<and>
     it_lastNodeId it = p_nodeId (last (it_postings it)))"

definition loadable :: "iter_env \<Rightarrow> iter \<Rightarrow> bool" where
  "loadable env it \<longleftrightarrow> ahead env it \<noteq> None \<and> ascending (rest env it) \<and> buffer_ok it"

definition started :: "iter_env \<Rightarrow> iter \<Rightarrow> bool" where
  "started env it \<longleftrightarrow> loadable env it \<and> (\<not> it_valid it \<longrightarrow> ahead env it = Some [])"

lemma ascending_append: "ascending (xs @ ys) \<Longrightarrow> ascending ys"
  by (simp add: ascending_def sorted_wrt_append)

lemma ascending_dropWhile: "ascending xs \<Longrightarrow> ascending (dropWhile f xs)"
  by (metis ascending_append takeWhile_dropWhile_id)

lemma chunkNo_loads: "loads_left it \<noteq> 0 \<longleftrightarrow> it_chunkNo it < it_chunkLimit it"
  by (auto simp: loads_left_def word_less_nat_alt)

lemma loaded_entry: "entry_chunk e ck \<Longrightarrow> entry_chunk e ck' \<Longrightarrow> loaded it ck it' = loaded it ck' it'"
  by (simp add: loaded_def entry_chunk_def)

lemma load_end:
  assumes "ahead env it = Some []"
  shows "PgturbohybridBm25IteratorLoadChunk env cache it = Inr (False, cache, it\<lparr>it_valid := False, it_count := 0, it_pos := 0\<rparr>)"
proof -
  have "loads_left it = 0 \<or> \<not> valid_pointer (it_blkno it) (it_offno it)"
    using assms by (cases "loads_left it")
      (auto simp: ahead_def split: if_splits sum.splits option.splits)
  then have "it_chunkNo it \<ge> it_chunkLimit it \<or> \<not> valid_pointer (it_blkno it) (it_offno it)"
    using chunkNo_loads [of it] by auto
  then show ?thesis by (auto simp: PgturbohybridBm25IteratorLoadChunk_def Let_def)
qed

lemma ahead_Cons:
  assumes "ahead env it = Some (ck # cks)"
  shows "it_chunkNo it < it_chunkLimit it" "valid_pointer (it_blkno it) (it_offno it)"
    "read_chunk (env_pages env) (it_termId it) (it_blkno it) (it_offno it) = Inr (Some ck)" "chunk_ok ck"
    "stored_chunks (env_pages env) (it_termId it) (loads_left it - 1) (ck_nextBlkno ck) (ck_nextOffno ck) = Some cks"
  using assms chunkNo_loads [of it]
  by (cases "loads_left it"; auto simp: ahead_def split: if_splits sum.splits option.splits)+

lemma load_next:
  assumes cg: "cgood env cache" and a: "ahead env it = Some (ck # cks)"
  shows "\<exists>cache' it'. PgturbohybridBm25IteratorLoadChunk env cache it = Inr (True, cache', it') \<and> loaded it ck it' \<and>
    cgood env cache' \<and> ahead env it' = Some cks"
proof -
  note ac = ahead_Cons [OF a]
  have g: "guc_ok (env_guc env)" and sat: "cache_sat (coherent (env_pages env)) cache" using cg by (simp_all add: cgood_def)
  have "\<exists>cache' it'. PgturbohybridBm25IteratorLoadChunk env cache it = Inr (True, cache', it') \<and> loaded it ck it' \<and>
      cache_sat (coherent (env_pages env)) cache'"
  proof -
    have new: "\<forall>e ck. entry_chunk e ck \<and>
        he_key e = PgturbohybridBm25HotPostingsCacheKey it (it_blkno it) (it_offno it) \<and>
        read_chunk (env_pages env) (it_termId it) (it_blkno it) (it_offno it) = Inr (Some ck) \<longrightarrow> coherent (env_pages env) e"
      by (auto simp: coherent_def PgturbohybridBm25HotPostingsCacheKey_def)
    have stamp: "\<forall>e t. coherent (env_pages env) e \<longrightarrow> coherent (env_pages env) (he_lastUsed_update (\<lambda>_. t) e)"
      using coherent_stamp by blast
    from load_chunk_outcome [OF g sat stamp new] ac(1-4) show ?thesis
    proof (elim disjE conjE exE, goal_cases)
      case (3 e ck' cache' it')
      then have "entry_chunk e ck" by (auto simp: coherent_def entry_chunk_def PgturbohybridBm25HotPostingsCacheKey_def)
      then show ?case using 3 loaded_entry by blast
    qed (auto simp: chunk_ok_def word_gt_0)
  qed
  then obtain cache' it' where l: "PgturbohybridBm25IteratorLoadChunk env cache it = Inr (True, cache', it')"
    "loaded it ck it'" "cache_sat (coherent (env_pages env)) cache'" by blast
  have "Suc (loads_left it') = loads_left it" using loaded_loads [OF l(2) ac(1)] .
  then have "loads_left it' = loads_left it - 1" by simp
  then have "ahead env it' = Some cks" using ac(5) l(2) by (auto simp: ahead_def loaded_def)
  then show ?thesis using l g by (auto simp: cgood_def)
qed

lemma loaded_started:
  assumes l: "loaded it ck it'" and rd: "read_chunk pages t b n = Inr (Some ck)" "chunk_ok ck"
    and a: "ahead env it' = Some cks" and asc: "ascending (all_postings (ck # cks))"
  shows "started env it'" "rest env it' = all_postings (ck # cks)" "it_valid it'" "in_chunk it' = [] \<longrightarrow> \<not> it_valid it'"
proof -
  have p: "it_valid it'" "it_postings it' = ck_postings ck" "it_pos it' = 0" "it_count it' = ck_count ck"
    "it_lastNodeId it' = ck_lastNodeId ck" using l rd(2) by (auto simp: loaded_def chunk_ok_def word_gt_0)
  then show r: "rest env it' = all_postings (ck # cks)" by (simp add: rest_def a all_postings_def in_chunk_def)
  show "it_valid it'" by (rule p)
  have "ck_postings ck \<noteq> []" using read_chunk_length [OF rd(1)] rd(2) by (auto simp: chunk_ok_def unat_eq_zero)
  then show "in_chunk it' = [] \<longrightarrow> \<not> it_valid it'" using p by (simp add: in_chunk_def)
  show "started env it'"
    using p r a asc rd read_chunk_length [OF rd(1)]
    by (simp add: started_def loadable_def buffer_ok_def chunk_ok_def)
qed

lemma ahead_pos [simp]:
  "ahead env (it_pos_update f it) = ahead env it" "ahead env (it_stats_update g it) = ahead env it"
  "ahead env (count_stat upd it) = ahead env it"
  "ahead env (it_valid_update h it) = ahead env it" "ahead env (it_count_update j it) = ahead env it"
  by (simp_all add: ahead_def count_stat_def loads_left_def)

lemma unat_pos_step:
  assumes "it_pos it < it_count it" shows "unat (it_pos it + 1) = Suc (unat (it_pos it))"
proof -
  have "unat (it_pos it) < unat (it_count it)" using assms by (simp add: word_less_nat_alt)
  moreover have "unat (it_count it) < 2 ^ 16" using unsigned_less [of "it_count it", where ?'a = nat] by simp
  ultimately show ?thesis by (simp add: unat_word_ariths)
qed

lemma skip_postings_drop:
  assumes "length (it_postings it) = unat (it_count it)"
  shows "drop (unat (it_pos (skip_postings skip it))) (it_postings it) = dropWhile skip (drop (unat (it_pos it)) (it_postings it))"
  using assms
proof (induction skip it rule: skip_postings.induct)
  case (1 skip it)
  show ?case
  proof (cases "it_pos it < it_count it \<and> skip (it_postings it ! unat (it_pos it))")
    case True
    then have s: "skip_postings skip it =
        skip_postings skip (count_stat postingsDecoded_update (it\<lparr>it_pos := it_pos it + 1\<rparr>))"
      by (subst skip_postings.simps) simp
    have "unat (it_pos it) < length (it_postings it)" using True 1(2) by (simp add: word_less_nat_alt)
    then have "drop (unat (it_pos it)) (it_postings it) =
        it_postings it ! unat (it_pos it) # drop (Suc (unat (it_pos it))) (it_postings it)"
      by (simp add: Cons_nth_drop_Suc)
    then show ?thesis using 1 True unat_pos_step [of it] by (simp add: s count_stat_def)
  next
    case False
    then have s: "skip_postings skip it = it" by (subst skip_postings.simps) auto
    show ?thesis
    proof (cases "it_pos it < it_count it")
      case True
      then have "unat (it_pos it) < length (it_postings it)" using 1(2) by (simp add: word_less_nat_alt)
      then have "drop (unat (it_pos it)) (it_postings it) =
          it_postings it ! unat (it_pos it) # drop (Suc (unat (it_pos it))) (it_postings it)"
        by (simp add: Cons_nth_drop_Suc)
      then show ?thesis using False True by (simp add: s)
    next
      case F: False
      then show ?thesis using 1(2) by (simp add: s word_less_nat_alt)
    qed
  qed
qed

lemma skip_postings_good:
  fixes skip :: "posting \<Rightarrow> bool"
  assumes v: "it_valid it" and a: "ahead env it = Some cks" and b: "buffer_ok it"
  defines "it1 \<equiv> skip_postings skip it"
  shows "it_valid it1" "ahead env it1 = Some cks" "buffer_ok it1" "in_chunk it1 = dropWhile skip (in_chunk it)"
    "it_pos it1 < it_count it1 \<longleftrightarrow> in_chunk it1 \<noteq> []"
proof -
  obtain p st where it1: "it1 = it\<lparr>it_pos := p, it_stats := st\<rparr>" using skip_postings_pos it1_def by blast
  show "it_valid it1" "ahead env it1 = Some cks" "buffer_ok it1" using v a b by (simp_all add: it1 buffer_ok_def)
  have len: "length (it_postings it) = unat (it_count it)" using b v by (simp add: buffer_ok_def)
  show "in_chunk it1 = dropWhile skip (in_chunk it)"
    using skip_postings_drop [OF len, of skip] v unfolding it1_def [symmetric] by (simp add: it1 in_chunk_def)
  show "it_pos it1 < it_count it1 \<longleftrightarrow> in_chunk it1 \<noteq> []"
    using v len by (simp add: it1 in_chunk_def word_less_nat_alt not_le)
qed

lemma in_chunk_invalid [simp]: "\<not> it_valid it \<Longrightarrow> in_chunk it = []"
  by (simp add: in_chunk_def)

lemma node_id_hd:
  assumes "in_chunk it \<noteq> []" "buffer_ok it"
  shows "PgturbohybridBm25IteratorNodeId it = p_nodeId (hd (in_chunk it))"
    "it_postings it ! unat (it_pos it) = hd (in_chunk it)"
proof -
  have "it_valid it" using assms in_chunk_invalid by blast
  then have "unat (it_pos it) < length (it_postings it)" "length (it_postings it) = unat (it_count it)"
    using assms by (auto simp: in_chunk_def buffer_ok_def)
  then show "PgturbohybridBm25IteratorNodeId it = p_nodeId (hd (in_chunk it))"
    "it_postings it ! unat (it_pos it) = hd (in_chunk it)"
    using \<open>it_valid it\<close> by (auto simp: PgturbohybridBm25IteratorNodeId_def in_chunk_def hd_drop_conv_nth word_le_nat_alt)
qed

text \<open>An iterator that a move has left in place: either exhausted or on a live posting.\<close>

definition placed :: "iter_env \<Rightarrow> iter \<Rightarrow> bool" where
  "placed env it \<longleftrightarrow> started env it \<and>
     (in_chunk it = [] \<longrightarrow> \<not> it_valid it) \<and> (in_chunk it \<noteq> [] \<longrightarrow> node_live env (p_nodeId (hd (in_chunk it))))"

abbreviation dead :: "iter_env \<Rightarrow> posting \<Rightarrow> bool" where
  "dead env p \<equiv> \<not> node_live env (p_nodeId p)"

definition same_term :: "iter \<Rightarrow> iter \<Rightarrow> bool" where
  "same_term it it' \<longleftrightarrow> it_termId it' = it_termId it \<and> it_matchBit it' = it_matchBit it \<and> it_idf it' = it_idf it \<and>
     it_avgDocLen it' = it_avgDocLen it"

lemma same_term_trans: "same_term a b \<Longrightarrow> same_term b c \<Longrightarrow> same_term a c"
  by (simp add: same_term_def)

lemma loaded_same_term: "loaded it ck it' \<Longrightarrow> same_term it it'"
  by (simp add: loaded_def same_term_def)

lemma skip_same_term: "same_term it (skip_postings skip it)"
  using skip_postings_pos [of skip it] by (auto simp: same_term_def)

lemma advance_good:
  "cgood env cache \<Longrightarrow> loadable env it \<Longrightarrow> loads_left it < fuel \<Longrightarrow>
   \<exists>cache' it'. advance_loop fuel env cache it = Inr (rest env it' \<noteq> [], cache', it') \<and> cgood env cache' \<and>
     placed env it' \<and> rest env it' = dropWhile (dead env) (rest env it) \<and> same_term it it'"
proof (induction fuel arbitrary: cache it)
  case (Suc fuel)
  obtain cks where cks: "ahead env it = Some cks" using Suc.prems by (auto simp: loadable_def)
  define it1 where "it1 = (if it_valid it then skip_postings (dead env) it else it)"
  have st: "same_term it it1" by (simp add: it1_def skip_same_term) (simp add: same_term_def)
  have i1: "ahead env it1 = Some cks" "buffer_ok it1" "in_chunk it1 = dropWhile (dead env) (in_chunk it)"
    "it_valid it1 \<and> it_pos it1 < it_count it1 \<longleftrightarrow> in_chunk it1 \<noteq> []" "loads_left it1 = loads_left it"
    using skip_postings_good [OF _ cks, of "dead env"] Suc.prems(2) cks
    by (cases "it_valid it"; simp add: it1_def loadable_def)+
  show ?case
  proof (cases "in_chunk it1 = []")
    case False
    then have r: "rest env it1 = dropWhile (dead env) (rest env it)"
      using i1 by (simp add: rest_def cks) (metis dropWhile_append3 dropWhile_append1 dropWhile_eq_Nil_conv)
    have "\<not> dead env (hd (in_chunk it1))" using False i1(3) by (metis hd_dropWhile)
    moreover have "started env it1"
      using False i1 r Suc.prems(2) ascending_dropWhile by (auto simp: started_def loadable_def in_chunk_def)
    ultimately have "placed env it1" using False by (simp add: placed_def)
    moreover have "rest env it1 \<noteq> []" using False by (simp add: rest_def)
    moreover have "advance_loop (Suc fuel) env cache it = Inr (True, cache, it1)"
      using False i1(4) by (simp add: Let_def flip: it1_def)
    ultimately show ?thesis using r Suc.prems(1) st by auto
  next
    case True
    then have r: "dropWhile (dead env) (rest env it) = dropWhile (dead env) (all_postings cks)"
      using i1(3) by (simp add: rest_def cks dropWhile_append)
    have asc: "ascending (all_postings cks)"
      using Suc.prems(2) ascending_append by (auto simp: loadable_def rest_def cks)
    have step: "advance_loop (Suc fuel) env cache it =
        bindE (PgturbohybridBm25IteratorLoadChunk env cache it1) (\<lambda>(ok, cache2, it2).
          if ok then advance_loop fuel env cache2 it2 else Inr (False, cache2, it2))"
      using True i1(4) by (auto simp: Let_def simp flip: it1_def)
    show ?thesis
    proof (cases cks)
      case Nil
      let ?it = "it1\<lparr>it_valid := False, it_count := 0, it_pos := 0\<rparr>"
      have a: "ahead env ?it = Some []" using i1(1) Nil by (simp add: ahead_def loads_left_def)
      have "rest env ?it = []" using a by (simp add: rest_def all_postings_def)
      moreover have "placed env ?it"
        using a by (simp add: placed_def started_def loadable_def rest_def in_chunk_def all_postings_def ascending_def buffer_ok_def)
      moreover have "same_term it ?it" using st by (simp add: same_term_def)
      moreover have "dropWhile (dead env) (rest env it) = []" using r Nil by (simp add: all_postings_def)
      ultimately show ?thesis using step load_end [of env it1 cache] i1(1) Nil Suc.prems(1)
        by (intro exI [of _ cache] exI [of _ ?it]) (simp del: advance_loop.simps dropWhile_eq_Nil_conv)
    next
      case (Cons ck cks')
      obtain cache2 it2 where l: "PgturbohybridBm25IteratorLoadChunk env cache it1 = Inr (True, cache2, it2)"
        "loaded it1 ck it2" "cgood env cache2" "ahead env it2 = Some cks'"
        using load_next [OF Suc.prems(1), of it1 ck cks'] i1(1) Cons by blast
      note ac = ahead_Cons [OF i1(1) [unfolded Cons]]
      note ls = loaded_started [OF l(2) ac(3,4) l(4) asc [unfolded Cons]]
      have "loads_left it2 < fuel"
        using loaded_loads [OF l(2) ac(1)] Suc.prems(3) i1(5) by simp
      from Suc.IH [OF l(3) _ this] ls obtain cache3 it3 where
        "advance_loop fuel env cache2 it2 = Inr (rest env it3 \<noteq> [], cache3, it3)" "cgood env cache3"
        "placed env it3" "rest env it3 = dropWhile (dead env) (rest env it2)" "same_term it2 it3"
        by (auto simp: started_def)
      moreover have "same_term it it3" using st loaded_same_term [OF l(2)] same_term_trans calculation(5) by blast
      ultimately show ?thesis using step l(1) r ls(2) Cons
        by (intro exI [of _ cache3] exI [of _ it3]) (simp del: advance_loop.simps dropWhile_eq_Nil_conv)
    qed
  qed
qed simp


text \<open>
  A seek drops the postings below the target; on an ascending list the postings of dead
  documents can be filtered out before or after.
\<close>

definition live_rest :: "iter_env \<Rightarrow> iter \<Rightarrow> posting list" where
  "live_rest env it = filter (\<lambda>p. node_live env (p_nodeId p)) (rest env it)"

lemma filter_dropWhile_not: "filter P (dropWhile (\<lambda>x. \<not> P x) xs) = filter P xs"
  by (induction xs) auto

lemma ascending_Cons: "ascending (x # xs) \<longleftrightarrow> (\<forall>y \<in> set xs. p_nodeId x < p_nodeId y) \<and> ascending xs"
  by (simp add: ascending_def)

lemma ascending_last: "ascending xs \<Longrightarrow> p \<in> set xs \<Longrightarrow> p_nodeId p \<le> p_nodeId (last xs)"
  by (induction xs) (auto simp: ascending_Cons intro: less_imp_le)

lemma dropWhile_below_none: "\<forall>y \<in> set xs. (t :: u32) \<le> p_nodeId y \<Longrightarrow> dropWhile (\<lambda>p. p_nodeId p < t) xs = xs"
  by (cases xs) auto

lemma filter_dropWhile_below:
  "ascending xs \<Longrightarrow> filter P (dropWhile (\<lambda>p. p_nodeId p < t) xs) = dropWhile (\<lambda>p. p_nodeId p < t) (filter P xs)"
proof (induction xs)
  case (Cons x xs)
  show ?case
  proof (cases "p_nodeId x < t")
    case False
    then have "\<forall>y \<in> set (filter P xs). t \<le> p_nodeId y" using Cons.prems by (auto simp: ascending_Cons)
    then show ?thesis using False dropWhile_below_none [of "filter P xs" t] by simp
  qed (use Cons in \<open>auto simp: ascending_Cons\<close>)
qed simp

lemma in_chunk_below:
  assumes "buffer_ok it" "ascending (in_chunk it)" "it_lastNodeId it < t"
  shows "\<forall>p \<in> set (in_chunk it). p_nodeId p < t"
proof (cases "in_chunk it = []")
  case False
  then have "it_valid it" using in_chunk_invalid by blast
  moreover from this have "last (in_chunk it) = last (it_postings it)" using False by (auto simp: in_chunk_def)
  ultimately have "p_nodeId (last (in_chunk it)) < t" using assms by (simp add: buffer_ok_def)
  moreover have "p_nodeId p \<le> p_nodeId (last (in_chunk it))" if "p \<in> set (in_chunk it)" for p
    using ascending_last [OF assms(2) that] .
  ultimately show ?thesis by (meson order_le_less_trans)
qed simp

lemma seek_good:
  "cgood env cache \<Longrightarrow> started env it \<Longrightarrow> (in_chunk it = [] \<longrightarrow> \<not> it_valid it) \<Longrightarrow> loads_left it < fuel \<Longrightarrow>
   \<exists>cache' it'. seek_loop fuel env cache it target = Inr (rest env it' \<noteq> [], cache', it') \<and> cgood env cache' \<and>
     placed env it' \<and> rest env it' = dropWhile (dead env) (dropWhile (\<lambda>p. p_nodeId p < target) (rest env it)) \<and>
     same_term it it'"
proof (induction fuel arbitrary: cache it)
  case (Suc fuel)
  obtain cks where cks: "ahead env it = Some cks" and b: "buffer_ok it" and asc: "ascending (in_chunk it)"
      "ascending (all_postings cks)"
    using Suc.prems(2) ascending_append
    by (fastforce simp: started_def loadable_def rest_def ascending_def sorted_wrt_append)
  show ?case
  proof (cases "it_valid it")
    case False
    then have "cks = []" using Suc.prems(2) cks by (simp add: started_def)
    then have "rest env it = []" using False by (simp add: rest_def cks all_postings_def)
    then show ?thesis using False Suc.prems by (auto simp: placed_def same_term_def)
  next
    case v: True
    show ?thesis
    proof (cases "it_lastNodeId it < target")
      case True
      let ?it = "count_stat blocksSkipped_update it"
      have a: "ahead env ?it = Some cks" by (simp add: cks)
      have st: "same_term it ?it" by (simp add: same_term_def count_stat_def)
      have r: "dropWhile (\<lambda>p. p_nodeId p < target) (rest env it) = dropWhile (\<lambda>p. p_nodeId p < target) (all_postings cks)"
        using in_chunk_below [OF b asc(1) True] by (simp add: rest_def cks dropWhile_append2)
      have step: "seek_loop (Suc fuel) env cache it target = bindE (PgturbohybridBm25IteratorLoadChunk env cache ?it)
          (\<lambda>(ok, cache2, it2). if ok then seek_loop fuel env cache2 it2 target else Inr (False, cache2, it2))"
        using v True by simp
      show ?thesis
      proof (cases cks)
        case Nil
        let ?it2 = "?it\<lparr>it_valid := False, it_count := 0, it_pos := 0\<rparr>"
        have "rest env ?it2 = []" using a Nil by (simp add: rest_def all_postings_def)
        moreover have "placed env ?it2"
          using a Nil by (simp add: placed_def started_def loadable_def rest_def all_postings_def ascending_def buffer_ok_def)
        moreover have "same_term it ?it2" using st by (simp add: same_term_def)
        moreover have "dropWhile (\<lambda>p. p_nodeId p < target) (rest env it) = []" using r Nil by (simp add: all_postings_def)
        ultimately show ?thesis using step load_end [of env ?it cache] a Nil Suc.prems(1)
          by (intro exI [of _ cache] exI [of _ ?it2]) (simp del: seek_loop.simps dropWhile_eq_Nil_conv)
      next
        case (Cons ck cks')
        obtain cache2 it2 where l: "PgturbohybridBm25IteratorLoadChunk env cache ?it = Inr (True, cache2, it2)"
          "loaded ?it ck it2" "cgood env cache2" "ahead env it2 = Some cks'"
          using load_next [OF Suc.prems(1), of ?it ck cks'] a Cons by blast
        note ac = ahead_Cons [OF a [unfolded Cons]]
        note ls = loaded_started [OF l(2) ac(3,4) l(4) asc(2) [unfolded Cons]]
        have "loads_left it2 < fuel"
          using loaded_loads [OF l(2) ac(1)] Suc.prems(4) by simp
        from Suc.IH [OF l(3) ls(1,4) this] obtain cache3 it3 where
          "seek_loop fuel env cache2 it2 target = Inr (rest env it3 \<noteq> [], cache3, it3)" "cgood env cache3"
          "placed env it3" "rest env it3 = dropWhile (dead env) (dropWhile (\<lambda>p. p_nodeId p < target) (rest env it2))"
          "same_term it2 it3" by blast
        moreover have "same_term it it3" using st loaded_same_term [OF l(2)] same_term_trans calculation(5) by blast
        ultimately show ?thesis using step l(1) r ls(2) Cons
          by (intro exI [of _ cache3] exI [of _ it3]) (simp del: seek_loop.simps dropWhile_eq_Nil_conv)
      qed
    next
      case False
      let ?it = "skip_postings (\<lambda>p. p_nodeId p < target) it"
      note sk = skip_postings_good [OF v cks b, of "\<lambda>p. p_nodeId p < target"]
      have ne: "in_chunk it \<noteq> []" using v Suc.prems(3) by blast
      then have "last (in_chunk it) = last (it_postings it)" using v by (auto simp: in_chunk_def)
      then have "\<not> p_nodeId (last (in_chunk it)) < target" using b v False by (simp add: buffer_ok_def)
      then have "dropWhile (\<lambda>p. p_nodeId p < target) (in_chunk it @ all_postings cks) =
          dropWhile (\<lambda>p. p_nodeId p < target) (in_chunk it) @ all_postings cks"
        using dropWhile_append1 [OF last_in_set [OF ne], of "\<lambda>p. p_nodeId p < target"] by simp
      then have r: "rest env ?it = dropWhile (\<lambda>p. p_nodeId p < target) (rest env it)"
        using sk by (simp add: rest_def cks)
      have "loadable env ?it"
        using sk r ascending_dropWhile Suc.prems(2) by (auto simp: loadable_def started_def)
      from advance_good [OF Suc.prems(1) this lessI] r show ?thesis
        using v False same_term_trans [OF skip_same_term]
        by (auto simp: PgturbohybridBm25IteratorAdvanceValid_def simp del: advance_loop.simps)
    qed
  qed
qed simp

section \<open>The interface of a posting cursor\<close>

text \<open>
  What the scans rely on: a cursor stands for an ascending list of postings, a seek drops
  the postings below its target, and the cursor shows the first one left. The cursors of a
  query share one cache, whose state the seeks thread through.
\<close>

locale posting_cursor =
  fixes seek :: "'c \<Rightarrow> 'i \<Rightarrow> u32 \<Rightarrow> (bool \<times> 'c \<times> 'i) res"
    and node :: "'i \<Rightarrow> u32"
    and current :: "'i \<Rightarrow> posting"
    and cok :: "'c \<Rightarrow> bool"
    and iok :: "'i \<Rightarrow> bool"
    and left :: "'i \<Rightarrow> posting list"
    and tag :: "'i \<Rightarrow> 't"
  assumes seek_law: "cok c \<Longrightarrow> iok i \<Longrightarrow> \<exists>c' i'. seek c i t = Inr (left i' \<noteq> [], c', i') \<and> cok c' \<and> iok i' \<and>
      left i' = dropWhile (\<lambda>p. p_nodeId p < t) (left i) \<and> tag i' = tag i"
    and node_law: "iok i \<Longrightarrow> left i \<noteq> [] \<Longrightarrow> node i = p_nodeId (hd (left i)) \<and> current i = hd (left i)"
    and node_end: "iok i \<Longrightarrow> left i = [] \<Longrightarrow> node i = 0xffffffff"
    and left_ascending: "iok i \<Longrightarrow> ascending (left i)"
begin

definition posting_of :: "u32 \<Rightarrow> 'i \<Rightarrow> posting option" where
  "posting_of t i = find (\<lambda>p. p_nodeId p = t) (left i)"

lemma find_dropWhile:
  "ascending ps \<Longrightarrow> (t :: u32) \<le> u \<Longrightarrow> find (\<lambda>p. p_nodeId p = u) (dropWhile (\<lambda>p. p_nodeId p < t) ps) = find (\<lambda>p. p_nodeId p = u) ps"
  by (induction ps) (auto simp: ascending_Cons)

lemma find_first:
  "ascending ps \<Longrightarrow> find (\<lambda>p. p_nodeId p = t) ps =
    (case dropWhile (\<lambda>p. p_nodeId p < t) ps of [] \<Rightarrow> None | p # _ \<Rightarrow> if p_nodeId p = t then Some p else None)"
proof (induction ps)
  case (Cons p ps)
  have "find (\<lambda>p. p_nodeId p = t) ps = None" if "t < p_nodeId p"
    using Cons.prems that by (fastforce simp: find_None_iff ascending_Cons)
  then show ?case using Cons by (auto simp: ascending_Cons not_less_iff_gr_or_eq)
qed simp

text \<open>A seek finds the posting of a node, and keeps every posting at or above its target.\<close>

lemma seek_exact:
  assumes "cok c" "iok i"
  shows "\<exists>ok c' i'. seek c i t = Inr (ok, c', i') \<and> cok c' \<and> iok i' \<and> tag i' = tag i \<and>
    (ok \<and> node i' = t \<longrightarrow> posting_of t i = Some (current i')) \<and> (\<not> (ok \<and> node i' = t) \<longrightarrow> posting_of t i = None) \<and>
    (\<forall>u \<ge> t. posting_of u i' = posting_of u i)"
proof -
  obtain c' i' where s: "seek c i t = Inr (left i' \<noteq> [], c', i')" "cok c'" "iok i'"
    "left i' = dropWhile (\<lambda>p. p_nodeId p < t) (left i)" "tag i' = tag i" using seek_law [OF assms] by blast
  have f: "posting_of t i = (case left i' of [] \<Rightarrow> None | p # _ \<Rightarrow> if p_nodeId p = t then Some p else None)"
    using find_first [OF left_ascending [OF assms(2)]] by (simp add: posting_of_def s(4))
  have k: "\<forall>u \<ge> t. posting_of u i' = posting_of u i"
    using find_dropWhile [OF left_ascending [OF assms(2)]] by (simp add: posting_of_def s(4))
  show ?thesis
  proof (cases "left i'")
    case Nil
    then show ?thesis using s(1-3,5) f k by auto
  next
    case (Cons p ps)
    then show ?thesis using s(1-3,5) f k node_law [OF s(3)] by auto
  qed
qed

end

lemma placed_live_rest:
  assumes "placed env it"
  shows "ascending (live_rest env it)"
    "live_rest env it \<noteq> [] \<Longrightarrow> PgturbohybridBm25IteratorNodeId it = p_nodeId (hd (live_rest env it)) \<and>
       it_postings it ! unat (it_pos it) = hd (live_rest env it)"
    "live_rest env it = [] \<Longrightarrow> PgturbohybridBm25IteratorNodeId it = 0xffffffff"
    "live_rest env it \<noteq> [] \<longleftrightarrow> rest env it \<noteq> []"
proof -
  have b: "buffer_ok it" "ascending (rest env it)" using assms by (auto simp: placed_def started_def loadable_def)
  show "ascending (live_rest env it)" using b(2) by (simp add: live_rest_def ascending_def sorted_wrt_map sorted_wrt_filter)
  have inv: "in_chunk it = [] \<Longrightarrow> \<not> it_valid it \<and> rest env it = []"
    using assms by (auto simp: placed_def started_def rest_def all_postings_def)
  have live: "in_chunk it \<noteq> [] \<Longrightarrow> live_rest env it \<noteq> [] \<and> hd (live_rest env it) = hd (in_chunk it)"
    using assms by (cases "in_chunk it") (auto simp: placed_def live_rest_def rest_def)
  show "live_rest env it \<noteq> [] \<longleftrightarrow> rest env it \<noteq> []" using inv live by (cases "in_chunk it = []") (auto simp: live_rest_def rest_def)
  show "PgturbohybridBm25IteratorNodeId it = p_nodeId (hd (live_rest env it)) \<and>
       it_postings it ! unat (it_pos it) = hd (live_rest env it)" if "live_rest env it \<noteq> []"
    using that inv live node_id_hd [OF _ b(1)] by (cases "in_chunk it = []") (auto simp: live_rest_def)
  show "PgturbohybridBm25IteratorNodeId it = 0xffffffff" if "live_rest env it = []"
    using that inv live by (cases "in_chunk it = []") (auto simp: PgturbohybridBm25IteratorNodeId_def)
qed

lemma seek_live:
  assumes "cgood env cache" "placed env it"
  shows "\<exists>cache' it'. PgturbohybridBm25IteratorSeekTo env cache it t = Inr (live_rest env it' \<noteq> [], cache', it') \<and>
    cgood env cache' \<and> placed env it' \<and> live_rest env it' = dropWhile (\<lambda>p. p_nodeId p < t) (live_rest env it) \<and>
    same_term it it'"
proof -
  have st: "started env it" "in_chunk it = [] \<longrightarrow> \<not> it_valid it" using assms(2) by (simp_all add: placed_def)
  from seek_good [OF assms(1) st lessI, of t, folded PgturbohybridBm25IteratorSeekTo_def] obtain cache' it' where
    s: "PgturbohybridBm25IteratorSeekTo env cache it t = Inr (rest env it' \<noteq> [], cache', it')" "cgood env cache'"
    "placed env it'" "rest env it' = dropWhile (dead env) (dropWhile (\<lambda>p. p_nodeId p < t) (rest env it))" "same_term it it'"
    by blast
  have "ascending (rest env it)" using st by (simp add: started_def loadable_def)
  then have "live_rest env it' = dropWhile (\<lambda>p. p_nodeId p < t) (live_rest env it)"
    by (simp add: live_rest_def s(4) filter_dropWhile_not filter_dropWhile_below)
  then show ?thesis using s placed_live_rest(4) [OF s(3)] by auto
qed

definition iter_tag :: "iter \<Rightarrow> u32 \<times> u64 \<times> cdouble \<times> cdouble" where
  "iter_tag it = (it_termId it, it_matchBit it, it_idf it, it_avgDocLen it)"

lemma same_term_tag: "same_term it it' \<longleftrightarrow> iter_tag it' = iter_tag it"
  by (auto simp: same_term_def iter_tag_def)

interpretation pc: posting_cursor "PgturbohybridBm25IteratorSeekTo env" PgturbohybridBm25IteratorNodeId
    "\<lambda>it. it_postings it ! unat (it_pos it)" "cgood env" "placed env" "live_rest env" iter_tag
  for env
  by unfold_locales (use seek_live [of env] placed_live_rest [of env] in \<open>auto simp: same_term_tag\<close>)

section \<open>Starting\<close>

lemma init_good:
  assumes cg: "cgood env cache"
    and st: "stored_chunks (env_pages env) (t_termId t) (unat (max (t_postingsChunkCount t) 1))
               (t_postingsBlkno t) (t_postingsOffno t) = Some cks"
    and asc: "ascending (all_postings cks)"
  shows "\<exists>cache' it'. PgturbohybridBm25IteratorInit env cache t idf avgDocLen stats =
      Inr (filter (\<lambda>p. node_live env (p_nodeId p)) (all_postings cks) \<noteq> [], cache', it') \<and> cgood env cache' \<and>
    placed env it' \<and> live_rest env it' = filter (\<lambda>p. node_live env (p_nodeId p)) (all_postings cks) \<and>
    iter_tag it' = (t_termId t, t_matchBit t, idf, avgDocLen)"
proof -
  let ?it = "iter_zero t idf avgDocLen stats" and ?live = "\<lambda>p. node_live env (p_nodeId p)"
  have a: "ahead env ?it = Some cks" using st by (simp add: ahead_def iter_zero_def loads_left_def)
  have tag: "iter_tag ?it = (t_termId t, t_matchBit t, idf, avgDocLen)" by (simp add: iter_tag_def iter_zero_def)
  show ?thesis
  proof (cases cks)
    case Nil
    let ?it2 = "?it\<lparr>it_valid := False, it_count := 0, it_pos := 0\<rparr>"
    have "placed env ?it2" "live_rest env ?it2 = []"
      using a Nil by (simp_all add: placed_def started_def loadable_def rest_def all_postings_def ascending_def
          buffer_ok_def live_rest_def)
    moreover have "iter_tag ?it2 = iter_tag ?it" by (simp add: iter_tag_def)
    ultimately show ?thesis using load_end [of env ?it cache] a Nil cg tag
      by (intro exI [of _ cache] exI [of _ ?it2]) (simp add: PgturbohybridBm25IteratorInit_def all_postings_def)
  next
    case (Cons ck cks')
    obtain cache1 it1 where l: "PgturbohybridBm25IteratorLoadChunk env cache ?it = Inr (True, cache1, it1)"
      "loaded ?it ck it1" "cgood env cache1" "ahead env it1 = Some cks'"
      using load_next [OF cg, of ?it ck cks'] a Cons by blast
    note ac = ahead_Cons [OF a [unfolded Cons]]
    note ls = loaded_started [OF l(2) ac(3,4) l(4) asc [unfolded Cons]]
    from ls(1) have "loadable env it1" by (simp add: started_def)
    from advance_good [OF l(3) this lessI, folded PgturbohybridBm25IteratorAdvanceValid_def] obtain cache2 it2 where
      av: "PgturbohybridBm25IteratorAdvanceValid env cache1 it1 = Inr (rest env it2 \<noteq> [], cache2, it2)" "cgood env cache2"
      "placed env it2" "rest env it2 = dropWhile (dead env) (rest env it1)" "same_term it1 it2" by blast
    have lr: "live_rest env it2 = filter ?live (all_postings cks)"
      using av(4) ls(2) Cons by (simp add: live_rest_def filter_dropWhile_not)
    have "iter_tag it2 = iter_tag ?it"
      using same_term_trans [OF loaded_same_term [OF l(2)] av(5)] by (simp add: same_term_tag)
    moreover have "PgturbohybridBm25IteratorInit env cache t idf avgDocLen stats = Inr (rest env it2 \<noteq> [], cache2, it2)"
      using l(1) av(1) by (simp add: PgturbohybridBm25IteratorInit_def)
    ultimately show ?thesis using av(2,3) lr placed_live_rest(4) [OF av(3)] tag
      by (intro exI [of _ cache2] exI [of _ it2]) (simp del: filter_empty_conv)
  qed
qed

section \<open>Properties\<close>

text \<open>A page with one chunk of two postings, of which the second belongs to a deleted document.\<close>

definition demo_item :: bytes where
  "demo_item = postings_header 2 7 0 3 4 2 ENCODING_OFFSET16 0 8 0 @ [0, 0, 2, 0, 1, 0, 1, 0]"

definition demo_env :: iter_env where
  "demo_env = \<lparr>env_guc = demo_guc,
     env_pages = [12 \<mapsto> \<lparr>page_nextblkno = InvalidBlockNumber, pageKind = PAGE_KIND_BM25_POSTINGS, page_id = PGTURBOHYBRID_GRAPH_PAGE_ID,
                         page_items = [Some demo_item]\<rparr>],
     env_docLens = [1, 1, 1, 1, 1], env_liveNodes = [True, True, True, True, False], env_nodeCount = 5\<rparr>"

definition demo_term :: iter_term where
  "demo_term = \<lparr>t_termId = 7, t_baseDf = 2, t_deltaDf = 0, t_matchBit = 1, t_hasLexicon = True,
     t_postingsChunkCount = 1, t_postingsBlkno = 12, t_postingsOffno = 1\<rparr>"

definition demo_postings :: "posting list" where
  "demo_postings = [\<lparr>p_nodeId = 3, p_tf = 2, p_reserved = 0\<rparr>, \<lparr>p_nodeId = 4, p_tf = 1, p_reserved = 0\<rparr>]"

lemma demo_decode: "PgturbohybridBm25DecodePostingsTuple demo_item = Some demo_postings"
  by (simp add: PgturbohybridBm25DecodePostingsTuple_def demo_item_def demo_postings_def codec_simps off_payload_def
      PgturbohybridBm25PostingsTupleSize_def MAXALIGN_def ENCODING_OFFSET16_def ENCODING_TFNORM_Q16_def
      ENCODING_MASK_def decode_data_def add_norms_def get_u16_def)

lemma demo_read: "\<exists>ck. read_chunk (env_pages demo_env) 7 12 1 = Inr (Some ck) \<and> chunk_ok ck \<and>
    ck_postings ck = demo_postings \<and> ck_nextBlkno ck = InvalidBlockNumber"
proof -
  have f: "demo_item ! 0 = 0x64" "u32_at demo_item 4 = 7" "u16_at demo_item 2 = 2" "u32_at demo_item 16 = 4"
    "u32_at demo_item 20 = 0xffffffff"
    by (simp_all add: demo_item_def postings_header_def u16_at_def u32_at_def put_u16_def put_u32_def get_u16_def get_u32_def)
  then show ?thesis using demo_decode
    by (simp add: read_chunk_def page_item_def check_tuple_def decode_tuple_def demo_env_def
        PgturbohybridBm25PageIsKind_def PAGE_KIND_BM25_POSTINGS_def PAGE_KIND_MASK_def POSTINGS_TUPLE_TYPE_def chunk_ok_def chunk_of_def demo_postings_def InvalidBlockNumber_def)
qed

lemma demo_stored: "\<exists>cks. stored_chunks (env_pages demo_env) (t_termId demo_term)
    (unat (max (t_postingsChunkCount demo_term) 1)) (t_postingsBlkno demo_term) (t_postingsOffno demo_term) = Some cks \<and>
    all_postings cks = demo_postings"
  using demo_read
  by (auto simp: demo_term_def valid_pointer_def InvalidBlockNumber_def MaxOffsetNumber_def all_postings_def)

lemma demo_ascending: "ascending demo_postings"
  by (simp add: ascending_def demo_postings_def)

lemma demo_live: "filter (\<lambda>p. node_live demo_env (p_nodeId p)) demo_postings = [\<lparr>p_nodeId = 3, p_tf = 2, p_reserved = 0\<rparr>]"
  by (simp add: demo_postings_def node_live_def demo_env_def)

lemma demo_cgood: "cgood demo_env (Some hot_empty)"
  using hot_inv_empty demo_ok(1) by (auto simp: cgood_def cache_sat_def demo_env_def)

text \<open>
  Seeking an iterator always stops, whatever the index pages contain: also when a corrupt
  chain of chunks runs in a cycle. The number of chunks the lexicon entry announces bounds
  the loads, so neither loop runs out of its fuel; and when a move reports success, the
  iterator stands inside its buffer on a posting of a live document.
\<close>

theorem posting_iterator_stops:
  assumes "guc_ok (env_guc env)" "hot_inv c xs"
  shows "stops env (PgturbohybridBm25IteratorSeekTo env (Some c) it target) \<and>
    stops env (PgturbohybridBm25IteratorAdvanceValid env (Some c) it)"
proof -
  have "sane env (Some c)" using assms by (auto simp: sane_def cache_sat_def)
  then show ?thesis
    using seek_stops [OF _ lessI] advance_stops [OF _ lessI]
    by (simp add: PgturbohybridBm25IteratorSeekTo_def PgturbohybridBm25IteratorAdvanceValid_def del: seek_loop.simps advance_loop.simps)
qed

theorem posting_iterator_stops_witness:
  "stops demo_env (PgturbohybridBm25IteratorSeekTo demo_env (Some hot_empty) demo_iter 4) \<and>
    stops demo_env (PgturbohybridBm25IteratorAdvanceValid demo_env (Some hot_empty) demo_iter)"
  by (rule posting_iterator_stops [OF _ hot_inv_empty]) (simp add: demo_env_def demo_ok)

text \<open>
  C30. Opening an iterator on a term whose chunks are well formed succeeds, and the iterator
  then stands for exactly the stored postings of the live documents, in order, over all
  chunks of the chain; the contents of the hot postings cache make no difference as long as
  its entries agree with the pages.
\<close>

theorem iterator_init_enumerates:
  assumes "cgood env cache"
    and "stored_chunks (env_pages env) (t_termId t) (unat (max (t_postingsChunkCount t) 1))
               (t_postingsBlkno t) (t_postingsOffno t) = Some cks"
    and "ascending (all_postings cks)"
  shows "\<exists>cache' it'. PgturbohybridBm25IteratorInit env cache t idf avgDocLen stats =
      Inr (filter (\<lambda>p. node_live env (p_nodeId p)) (all_postings cks) \<noteq> [], cache', it') \<and> cgood env cache' \<and>
    placed env it' \<and> live_rest env it' = filter (\<lambda>p. node_live env (p_nodeId p)) (all_postings cks)"
  using init_good [OF assms] by blast

theorem iterator_init_enumerates_witness:
  "\<exists>cache' it'. PgturbohybridBm25IteratorInit demo_env (Some hot_empty) demo_term (Fin 1) (Fin 1) None = Inr (True, cache', it') \<and>
    live_rest demo_env it' = [\<lparr>p_nodeId = 3, p_tf = 2, p_reserved = 0\<rparr>]"
proof -
  obtain cks where c: "stored_chunks (env_pages demo_env) (t_termId demo_term)
    (unat (max (t_postingsChunkCount demo_term) 1)) (t_postingsBlkno demo_term) (t_postingsOffno demo_term) = Some cks"
    "all_postings cks = demo_postings" using demo_stored by blast
  then show ?thesis
    using iterator_init_enumerates [OF demo_cgood c(1), of "Fin 1" "Fin 1" None] demo_ascending demo_live by auto
qed

text \<open>
  A seek finds the first posting of a live document whose node id is not below the target,
  and drops nothing behind it: the iterator stands for the rest of its postings from the
  target on, shows the first of them, and shows the largest node id when none is left.
\<close>

theorem seek_finds_first_live:
  assumes "cgood env cache" "placed env it"
  shows "\<exists>cache' it'. PgturbohybridBm25IteratorSeekTo env cache it target = Inr (live_rest env it' \<noteq> [], cache', it') \<and>
    cgood env cache' \<and> placed env it' \<and>
    live_rest env it' = dropWhile (\<lambda>p. p_nodeId p < target) (live_rest env it) \<and>
    PgturbohybridBm25IteratorNodeId it' = (case live_rest env it' of [] \<Rightarrow> 0xffffffff | p # _ \<Rightarrow> p_nodeId p)"
proof -
  obtain cache' it' where s: "PgturbohybridBm25IteratorSeekTo env cache it target = Inr (live_rest env it' \<noteq> [], cache', it')"
    "cgood env cache'" "placed env it'" "live_rest env it' = dropWhile (\<lambda>p. p_nodeId p < target) (live_rest env it)"
    using pc.seek_law [OF assms] by blast
  have "PgturbohybridBm25IteratorNodeId it' = (case live_rest env it' of [] \<Rightarrow> 0xffffffff | p # _ \<Rightarrow> p_nodeId p)"
    using pc.node_law [OF s(3)] pc.node_end [OF s(3)] by (cases "live_rest env it'") auto
  then show ?thesis using s by blast
qed

theorem seek_finds_first_live_witness:
  "\<exists>cache it cache' it'. live_rest demo_env it = [\<lparr>p_nodeId = 3, p_tf = 2, p_reserved = 0\<rparr>] \<and>
    PgturbohybridBm25IteratorSeekTo demo_env cache it 2 = Inr (True, cache', it') \<and> PgturbohybridBm25IteratorNodeId it' = 3"
proof -
  obtain cks where c: "stored_chunks (env_pages demo_env) (t_termId demo_term)
    (unat (max (t_postingsChunkCount demo_term) 1)) (t_postingsBlkno demo_term) (t_postingsOffno demo_term) = Some cks"
    "all_postings cks = demo_postings" using demo_stored by blast
  then obtain cache it where i: "cgood demo_env cache" "placed demo_env it"
    "live_rest demo_env it = [\<lparr>p_nodeId = 3, p_tf = 2, p_reserved = 0\<rparr>]"
    using init_good [OF demo_cgood c(1), of "Fin 1" "Fin 1" None] demo_ascending demo_live by auto
  from seek_finds_first_live [OF i(1,2), of 2] i(3) obtain cache' it' where
    "PgturbohybridBm25IteratorSeekTo demo_env cache it 2 = Inr (True, cache', it')" "PgturbohybridBm25IteratorNodeId it' = 3"
    by auto
  then show ?thesis using i(3) by blast
qed

end
