(* ===== verification/Bm25_Scan.thy ===== *)
theory Bm25_Scan
  imports Bm25_Iterator Bm25_Accumulator
begin

text \<open>
  The scoring loops of a BM25 query (\<open>src/src/pgturbohybrid_bm25_query.c\<close>): the score of a posting, the
  exhaustive document-at-a-time loop over the chunks of a term, and the scan of a pure
  conjunction that is driven by its rarest term. The module proves that the exhaustive loop adds one
  contribution per stored posting of a live document, and that the driven scan scores
  exactly the documents every term of the conjunction contains.
\<close>

section \<open>Floating point\<close>

text \<open>
  The operations of C doubles the scores use. They are parameters: nothing below depends on
  how they round. \<open>demo_fpu\<close> is a concrete instance on the rationals for the witnesses.
\<close>

record fpu =
  f_add :: "cdouble \<Rightarrow> cdouble \<Rightarrow> cdouble"
  f_sub :: "cdouble \<Rightarrow> cdouble \<Rightarrow> cdouble"
  f_mul :: "cdouble \<Rightarrow> cdouble \<Rightarrow> cdouble"
  f_div :: "cdouble \<Rightarrow> cdouble \<Rightarrow> cdouble"
  f_log :: "cdouble \<Rightarrow> cdouble"
  f_of_u64 :: "u64 \<Rightarrow> cdouble"

definition dmax :: "cdouble \<Rightarrow> cdouble \<Rightarrow> cdouble" where
  \<comment> \<open>PostgreSQL's \<open>Max(x, y)\<close> macro: \<open>x > y ? x : y\<close>\<close>
  "dmax x y = (if dless y x then x else y)"

definition of_u16 :: "u16 \<Rightarrow> cdouble" where "of_u16 w = Fin (of_nat (unat w))"
definition of_u32 :: "u32 \<Rightarrow> cdouble" where "of_u32 w = Fin (of_nat (unat w))"

section \<open>Scores\<close>

record score_meta =
  sm_reserved2 :: u16
  sm_docCount :: u32
  sm_deltaDocCount :: u32
  sm_totalDocLen :: u64
  sm_deltaTotalDocLen :: u64
  sm_k1 :: cdouble
  sm_b :: cdouble

definition META_FLAG_TFNORM_Q16 :: u16 where "META_FLAG_TFNORM_Q16 = 1"

definition PgturbohybridBm25PostingScore :: "fpu \<Rightarrow> score_meta \<Rightarrow> cdouble \<Rightarrow> cdouble \<Rightarrow> u16 \<Rightarrow> u32 \<Rightarrow> cdouble" where
  "PgturbohybridBm25PostingScore f meta idf avgDocLen tf docLen =
     (let norm = f_mul f (sm_k1 meta)
            (f_add f (f_sub f (Fin 1) (sm_b meta))
               (f_div f (f_mul f (sm_b meta) (dmax (of_u32 docLen) (Fin 1))) (dmax avgDocLen (Fin 1))))
      in f_mul f idf (f_div f (f_mul f (of_u16 tf) (f_add f (sm_k1 meta) (Fin 1))) (f_add f (of_u16 tf) norm)))"

definition PgturbohybridBm25PostingPrecomputedScore :: "fpu \<Rightarrow> score_meta \<Rightarrow> cdouble \<Rightarrow> u16 \<Rightarrow> cdouble" where
  "PgturbohybridBm25PostingPrecomputedScore f meta idf tfNormQ16 =
     (let scale = dmax (f_add f (sm_k1 meta) (Fin 1)) (Fin 1)
      in f_mul f (f_mul f idf scale) (f_div f (of_u16 tfNormQ16) (Fin 65535)))"

definition PgturbohybridBm25PostingScoreDecoded ::
    "fpu \<Rightarrow> score_meta \<Rightarrow> cdouble \<Rightarrow> cdouble \<Rightarrow> posting \<Rightarrow> u32 \<Rightarrow> cdouble" where
  "PgturbohybridBm25PostingScoreDecoded f meta idf avgDocLen p docLen =
     (if sm_reserved2 meta AND META_FLAG_TFNORM_Q16 \<noteq> 0
      then PgturbohybridBm25PostingPrecomputedScore f meta idf (p_reserved p)
      else PgturbohybridBm25PostingScore f meta idf avgDocLen (p_tf p) docLen)"

definition PgturbohybridBm25BlockUpperBound :: "fpu \<Rightarrow> score_meta \<Rightarrow> cdouble \<Rightarrow> cdouble \<Rightarrow> u16 \<Rightarrow> cdouble" where
  "PgturbohybridBm25BlockUpperBound f meta idf avgDocLen maxTf = PgturbohybridBm25PostingScore f meta idf avgDocLen maxTf 1"

definition corpusDocCount :: "fpu \<Rightarrow> score_meta \<Rightarrow> cdouble" where
  "corpusDocCount f meta = dmax (f_add f (of_u32 (sm_docCount meta)) (of_u32 (sm_deltaDocCount meta))) (Fin 1)"

definition corpusAvgDocLen :: "fpu \<Rightarrow> score_meta \<Rightarrow> cdouble" where
  "corpusAvgDocLen f meta =
     f_div f (f_add f (f_of_u64 f (sm_totalDocLen meta)) (f_of_u64 f (sm_deltaTotalDocLen meta))) (corpusDocCount f meta)"

definition term_df :: "iter_term \<Rightarrow> u32" where
  "term_df t = t_baseDf t + t_deltaDf t"

definition term_idf :: "fpu \<Rightarrow> score_meta \<Rightarrow> u32 \<Rightarrow> cdouble" where
  "term_idf f meta df =
     f_log f (f_add f (Fin 1) (f_div f (f_add f (f_sub f (corpusDocCount f meta) (of_u32 df)) (Fin (1 / 2)))
                                      (f_add f (of_u32 df) (Fin (1 / 2)))))"

text \<open>The contribution of a posting, as the loops compute it.\<close>

definition posting_score :: "fpu \<Rightarrow> score_meta \<Rightarrow> iter_env \<Rightarrow> iter_term \<Rightarrow> posting \<Rightarrow> cdouble" where
  "posting_score f meta env t p =
     PgturbohybridBm25PostingScoreDecoded f meta (term_idf f meta (term_df t)) (corpusAvgDocLen f meta) p
       (env_docLens env ! unat (p_nodeId p))"

section \<open>The exhaustive loop\<close>

fun daat_postings :: "fpu \<Rightarrow> score_meta \<Rightarrow> iter_env \<Rightarrow> iter_term \<Rightarrow> posting list \<Rightarrow> accu \<Rightarrow> accu res" where
  "daat_postings f meta env t [] acc = Inr acc"
| "daat_postings f meta env t (p # ps) acc =
     (if \<not> node_live env (p_nodeId p) then daat_postings f meta env t ps acc
      else bindE (PgturbohybridBm25AccumulatorAddTermScore (f_add f) acc (p_nodeId p) (posting_score f meta env t p) (t_matchBit t))
             (daat_postings f meta env t ps))"

text \<open>The loop over the chunks of a term; its counter runs to the chunk limit.\<close>

fun daat_chunks :: "fpu \<Rightarrow> score_meta \<Rightarrow> iter_env \<Rightarrow> iter_term \<Rightarrow> nat \<Rightarrow> u32 \<Rightarrow> u16 \<Rightarrow> accu \<Rightarrow> accu res" where
  "daat_chunks f meta env t 0 blkno offno acc = Inr acc"
| "daat_chunks f meta env t (Suc n) blkno offno acc =
     (if \<not> valid_pointer blkno offno then Inr acc
      else bindE (page_item (env_pages env) blkno offno) (\<lambda>i.
        case i of
          None \<Rightarrow> Inr acc
        | Some item \<Rightarrow>
          bindE (check_tuple (t_termId t) item) (\<lambda>_.
          bindE (decode_tuple item) (\<lambda>ps.
          bindE (daat_postings f meta env t ps acc) (\<lambda>acc'.
          daat_chunks f meta env t n (u32_at item 20) (u16_at item 24) acc')))))"

fun daat_terms :: "fpu \<Rightarrow> score_meta \<Rightarrow> iter_env \<Rightarrow> iter_term list \<Rightarrow> accu \<Rightarrow> accu res" where
  "daat_terms f meta env [] acc = Inr acc"
| "daat_terms f meta env (t # ts) acc =
     (if \<not> t_hasLexicon t then daat_terms f meta env ts acc
      else bindE (daat_chunks f meta env t (unat (max (t_postingsChunkCount t) 1)) (t_postingsBlkno t) (t_postingsOffno t) acc)
             (daat_terms f meta env ts))"

section \<open>The scan of a conjunction\<close>

definition PgturbohybridBm25KthScore :: "accu \<Rightarrow> int \<Rightarrow> cdouble" where
  "PgturbohybridBm25KthScore acc k =
     (let threshold = acc_seedThreshold acc
      in if k \<le> 0 \<or> acc_topHeapCount acc < unat (word_of_int k :: u32) then threshold
         else dmax (acc_threshold acc) threshold)"

text \<open>The guard in front of adding a candidate with a complete score.\<close>

definition competitive :: "accu \<Rightarrow> int \<Rightarrow> cdouble \<Rightarrow> cdouble \<Rightarrow> bool" where
  "competitive acc k threshold score \<longleftrightarrow> length (acc_touched acc) < unat (word_of_int k :: u32) \<or> dless threshold score"

text \<open>The term with the fewest documents; \<open>None\<close> when a term has no lexicon entry.\<close>

fun choose_driver :: "nat \<Rightarrow> iter_term list \<Rightarrow> nat option \<Rightarrow> u32 \<Rightarrow> nat option option" where
  "choose_driver termNo [] driver driverDf = Some driver"
| "choose_driver termNo (t # ts) driver driverDf =
     (if \<not> t_hasLexicon t then None
      else if term_df t < driverDf then choose_driver (Suc termNo) ts (Some termNo) (term_df t)
      else choose_driver (Suc termNo) ts driver driverDf)"

text \<open>
  Opening the iterators, in order. \<open>None\<close>: one of them has no posting of a live document.
\<close>

fun init_iterators ::
    "fpu \<Rightarrow> score_meta \<Rightarrow> iter_env \<Rightarrow> iter_term list \<Rightarrow> hotcache option \<Rightarrow> (iter list option \<times> hotcache option) res" where
  "init_iterators f meta env [] cache = Inr (Some [], cache)"
| "init_iterators f meta env (t # ts) cache =
     bindE (PgturbohybridBm25IteratorInit env cache t (term_idf f meta (term_df t)) (corpusAvgDocLen f meta) None) (\<lambda>(ok, cache1, it).
       if \<not> ok then Inr (None, cache1)
       else bindE (init_iterators f meta env ts cache1) (\<lambda>(its, cache2).
              Inr (map_option (Cons it) its, cache2)))"

definition iter_score :: "fpu \<Rightarrow> score_meta \<Rightarrow> iter_env \<Rightarrow> iter \<Rightarrow> posting \<Rightarrow> cdouble" where
  "iter_score f meta env it p =
     PgturbohybridBm25PostingScoreDecoded f meta (it_idf it) (it_avgDocLen it) p (env_docLens env ! unat (p_nodeId p))"

text \<open>Verifying a candidate of the driver against the other terms; stops at the first that lacks it.\<close>

fun and_verify :: "fpu \<Rightarrow> score_meta \<Rightarrow> iter_env \<Rightarrow> nat \<Rightarrow> u32 \<Rightarrow> nat list \<Rightarrow> cdouble \<Rightarrow> hotcache option \<Rightarrow> iter list \<Rightarrow>
    (cdouble option \<times> hotcache option \<times> iter list) res" where
  "and_verify f meta env driver nodeId [] score cache its = Inr (Some score, cache, its)"
| "and_verify f meta env driver nodeId (termNo # later) score cache its =
     (if termNo = driver then and_verify f meta env driver nodeId later score cache its
      else bindE (PgturbohybridBm25IteratorSeekExact env cache (its ! termNo) nodeId) (\<lambda>(posting, cache1, it1).
        case posting of
          None \<Rightarrow> Inr (None, cache1, its[termNo := it1])
        | Some p \<Rightarrow> and_verify f meta env driver nodeId later (f_add f score (iter_score f meta env it1 p))
                      cache1 (its[termNo := it1])))"

text \<open>Adding a verified candidate, unless it cannot reach the best \<open>k\<close>.\<close>

definition and_offer :: "fpu \<Rightarrow> u64 \<Rightarrow> int \<Rightarrow> cdouble \<Rightarrow> accu \<Rightarrow> u32 \<Rightarrow> cdouble option \<Rightarrow> accu res" where
  "and_offer f requiredMask k threshold acc nodeId verified =
     (case verified of
        Some score \<Rightarrow> if competitive acc k threshold score
          then PgturbohybridBm25AccumulatorAddTermScore (f_add f) acc nodeId score requiredMask else Inr acc
      | None \<Rightarrow> Inr acc)"

type_synonym and_state = "hotcache option \<times> iter list \<times> accu"

text \<open>One candidate of the driver: the state after it and whether the loop goes on.\<close>

definition and_step :: "fpu \<Rightarrow> score_meta \<Rightarrow> iter_env \<Rightarrow> u64 \<Rightarrow> int \<Rightarrow> nat \<Rightarrow> and_state \<Rightarrow> (bool \<times> and_state) res" where
  "and_step f meta env requiredMask k driver st =
     (case st of (cache, its, acc) \<Rightarrow>
        let it = its ! driver; nodeId = PgturbohybridBm25IteratorNodeId it; threshold = PgturbohybridBm25KthScore acc k
        in if \<not> it_valid it \<or> nodeId = 0xffffffff then Inr (False, st)
           else
             let score = iter_score f meta env it (it_postings it ! unat (it_pos it))
             in bindE (and_verify f meta env driver nodeId [0 ..< length its] score cache its) (\<lambda>(verified, cache1, its1).
                bindE (and_offer f requiredMask k threshold acc nodeId verified) (\<lambda>acc1.
                bindE (PgturbohybridBm25IteratorAdvancePast env cache1 (its1 ! driver) nodeId) (\<lambda>(ok, cache2, it2).
                Inr (ok, cache2, its1[driver := it2], acc1)))))"

text \<open>The loop; \<open>None\<close> would mean that it never ends.\<close>

partial_function (option) and_loop ::
    "fpu \<Rightarrow> score_meta \<Rightarrow> iter_env \<Rightarrow> u64 \<Rightarrow> int \<Rightarrow> nat \<Rightarrow> and_state \<Rightarrow> and_state res option" where
  "and_loop f meta env requiredMask k driver st =
     (case and_step f meta env requiredMask k driver st of
        Inl e \<Rightarrow> Some (Inl e)
      | Inr (go, st') \<Rightarrow> if go then and_loop f meta env requiredMask k driver st' else Some (Inr st'))"

definition PgturbohybridBm25ScoreBaseAndRarestDriver ::
    "fpu \<Rightarrow> score_meta \<Rightarrow> iter_env \<Rightarrow> iter_term list \<Rightarrow> PgturbohybridBm25QueryEval option \<Rightarrow> int \<Rightarrow> hotcache option \<Rightarrow> accu \<Rightarrow>
     (bool \<times> hotcache option \<times> accu) res option" where
  "PgturbohybridBm25ScoreBaseAndRarestDriver f meta env terms eval k cache acc =
     (if eval = None \<or> ev_shape (the eval) \<noteq> QUERY_PURE_AND \<or> length terms \<le> 1 then Some (Inr (False, cache, acc))
      else case choose_driver 0 terms None 0xffffffff of
        None \<Rightarrow> Some (Inr (True, cache, acc))
      | Some None \<Rightarrow> Some (Inr (True, cache, acc))
      | Some (Some driver) \<Rightarrow>
        (case init_iterators f meta env terms cache of
           Inl e \<Rightarrow> Some (Inl e)
         | Inr (None, cache1) \<Rightarrow> Some (Inr (True, cache1, acc))
         | Inr (Some its, cache1) \<Rightarrow>
             map_option (map_sum id (\<lambda>(cache2, its2, acc2). (True, cache2, acc2)))
               (and_loop f meta env (ev_requiredMask (the eval)) k driver (cache1, its, acc))))"

section \<open>The exhaustive loop adds every posting\<close>

definition contributions :: "fpu \<Rightarrow> score_meta \<Rightarrow> iter_env \<Rightarrow> iter_term \<Rightarrow> posting list \<Rightarrow> (u32 \<times> cdouble \<times> u64) list" where
  "contributions f meta env t ps =
     map (\<lambda>p. (p_nodeId p, posting_score f meta env t p, t_matchBit t)) (filter (\<lambda>p. node_live env (p_nodeId p)) ps)"

lemma add_all_append: "add_all fadd acc (xs @ ys) = bindE (add_all fadd acc xs) (\<lambda>a. add_all fadd a ys)"
proof (induction xs arbitrary: acc)
  case (Cons x xs)
  then show ?case by (cases x; cases "PgturbohybridBm25AccumulatorAddTermScore fadd acc (fst x) (fst (snd x)) (snd (snd x))") auto
qed simp

lemma daat_postings_eq: "daat_postings f meta env t ps acc = add_all (f_add f) acc (contributions f meta env t ps)"
  by (induction ps arbitrary: acc) (auto simp: contributions_def bindE_def split: sum.splits)

lemma read_chunk_nonempty:
  assumes "read_chunk pages t b n = Inr (Some ck)" "ck_count ck \<noteq> 0"
  shows "\<exists>item ps. page_item pages b n = Inr (Some item) \<and> check_tuple t item = Inr () \<and> decode_tuple item = Inr ps \<and>
    ck = chunk_of item ps"
proof -
  obtain item ps where i: "page_item pages b n = Inr (Some item)" "check_tuple t item = Inr ()"
    "(if u16_at item 2 = 0 then Inr [] else decode_tuple item) = Inr ps" "ck = chunk_of item ps"
    using assms(1) unfolding read_chunk_def bindE_Inr_iff by (auto simp: bindE_Inr_iff simp del: if_splits split: option.splits)
  have "u16_at item 2 \<noteq> 0" using assms(2) i(4) by (simp add: chunk_of_def)
  then show ?thesis using i by auto
qed

lemma daat_chunks_eq:
  assumes "stored_chunks (env_pages env) (t_termId t) n b off = Some cks"
  shows "daat_chunks f meta env t n b off acc = add_all (f_add f) acc (contributions f meta env t (all_postings cks))"
  using assms
proof (induction n arbitrary: b off cks acc)
  case 0
  then show ?case by (simp add: all_postings_def contributions_def)
next
  case (Suc n)
  show ?case
  proof (cases "valid_pointer b off")
    case False
    then show ?thesis using Suc.prems by (simp add: all_postings_def contributions_def)
  next
    case True
    then obtain ck cks' where c: "read_chunk (env_pages env) (t_termId t) b off = Inr (Some ck)" "chunk_ok ck"
      "stored_chunks (env_pages env) (t_termId t) n (ck_nextBlkno ck) (ck_nextOffno ck) = Some cks'" "cks = ck # cks'"
      using Suc.prems by (auto split: if_splits sum.splits option.splits)
    obtain item ps where i: "page_item (env_pages env) b off = Inr (Some item)" "check_tuple (t_termId t) item = Inr ()"
      "decode_tuple item = Inr ps" "ck = chunk_of item ps"
      using read_chunk_nonempty [OF c(1)] c(2) by (auto simp: chunk_ok_def)
    have ck: "ck_postings ck = ps" "ck_nextBlkno ck = u32_at item 20" "ck_nextOffno ck = u16_at item 24"
      using i(4) by (simp_all add: chunk_of_def)
    have "contributions f meta env t (all_postings cks) =
        contributions f meta env t ps @ contributions f meta env t (all_postings cks')"
      by (simp add: c(4) all_postings_def contributions_def ck)
    then show ?thesis using True i(1-3) c(3) Suc.IH 
      by (auto simp: ck add_all_append daat_postings_eq bindE_def split: sum.splits)
  qed
qed

lemma daat_terms_eq:
  assumes "\<forall>t \<in> set terms. t_hasLexicon t \<longrightarrow>
    stored_chunks (env_pages env) (t_termId t) (unat (max (t_postingsChunkCount t) 1)) (t_postingsBlkno t) (t_postingsOffno t)
      = Some (chunks t)"
  shows "daat_terms f meta env terms acc = add_all (f_add f) acc
    (concat (map (\<lambda>t. contributions f meta env t (all_postings (chunks t))) (filter t_hasLexicon terms)))"
  using assms
proof (induction f meta env terms acc rule: daat_terms.induct)
  case (2 f meta env t ts acc)
  show ?case
  proof (cases "t_hasLexicon t")
    case True
    then have "stored_chunks (env_pages env) (t_termId t) (unat (max (t_postingsChunkCount t) 1)) (t_postingsBlkno t)
      (t_postingsOffno t) = Some (chunks t)" using "2.prems" by simp
    then show ?thesis using True 2
      by (auto simp: daat_chunks_eq add_all_append bindE_def split: sum.splits)
  qed (use 2 in simp)
qed simp

section \<open>The scan of a conjunction scores the intersection\<close>

text \<open>
  The specification: the score of a node in a conjunction, from the posting each term has
  for it, and the accumulation of the candidates in order, each under the guard.
\<close>

definition posting_at :: "u32 \<Rightarrow> posting list \<Rightarrow> posting option" where
  "posting_at n ps = find (\<lambda>p. p_nodeId p = n) ps"

fun sum_terms :: "fpu \<Rightarrow> (nat \<Rightarrow> posting \<Rightarrow> cdouble) \<Rightarrow> (nat \<Rightarrow> posting option) \<Rightarrow> nat \<Rightarrow> nat list \<Rightarrow> cdouble \<Rightarrow> cdouble option" where
  "sum_terms f sc post driver [] s = Some s"
| "sum_terms f sc post driver (i # is) s =
     (if i = driver then sum_terms f sc post driver is s
      else case post i of None \<Rightarrow> None | Some p \<Rightarrow> sum_terms f sc post driver is (f_add f s (sc i p)))"

definition conj_score :: "fpu \<Rightarrow> (nat \<Rightarrow> posting \<Rightarrow> cdouble) \<Rightarrow> (nat \<Rightarrow> posting list) \<Rightarrow> nat \<Rightarrow> nat \<Rightarrow> u32 \<Rightarrow> cdouble option" where
  "conj_score f sc pl n driver node =
     (case posting_at node (pl driver) of None \<Rightarrow> None
      | Some p \<Rightarrow> sum_terms f sc (\<lambda>i. posting_at node (pl i)) driver [0 ..< n] (sc driver p))"

fun and_spec :: "fpu \<Rightarrow> u64 \<Rightarrow> int \<Rightarrow> (u32 \<Rightarrow> cdouble option) \<Rightarrow> u32 list \<Rightarrow> accu \<Rightarrow> accu res" where
  "and_spec f rm k score [] acc = Inr acc"
| "and_spec f rm k score (n # ns) acc =
     bindE (and_offer f rm k (PgturbohybridBm25KthScore acc k) acc n (score n)) (and_spec f rm k score ns)"

lemma sum_terms_none: "sum_terms f sc post driver is s = None \<longleftrightarrow> (\<exists>i \<in> set is. i \<noteq> driver \<and> post i = None)"
  by (induction f sc post driver "is" s rule: sum_terms.induct) (auto split: option.splits)

lemma sum_terms_cong:
  "(\<And>i. i \<in> set is \<Longrightarrow> post i = post' i) \<Longrightarrow> (\<And>i p. i \<in> set is \<Longrightarrow> sc i p = sc' i p) \<Longrightarrow>
   sum_terms f sc post driver is s = sum_terms f sc' post' driver is s"
  by (induction "is" arbitrary: s) (auto split: option.splits)

lemma and_spec_cong: "(\<And>n. n \<in> set ns \<Longrightarrow> score n = score' n) \<Longrightarrow> and_spec f rm k score ns acc = and_spec f rm k score' ns acc"
proof (induction ns arbitrary: acc)
  case (Cons n ns)
  then have "and_spec f rm k score ns = and_spec f rm k score' ns" by auto
  then show ?case using Cons.prems [of n] by simp
qed simp

lemma and_spec_none: "(\<And>n. n \<in> set ns \<Longrightarrow> score n = None) \<Longrightarrow> and_spec f rm k score ns acc = Inr acc"
  by (induction ns) (auto simp: and_offer_def)

lemma pc_posting_of: "pc.posting_of env n it = posting_at n (live_rest env it)"
  by (simp add: pc.posting_of_def posting_at_def)

lemma iter_score_tag: "iter_tag it' = iter_tag it \<Longrightarrow> iter_score f meta env it' = iter_score f meta env it"
  by (rule ext) (simp add: iter_score_def iter_tag_def)

definition its_good :: "iter_env \<Rightarrow> iter list \<Rightarrow> bool" where
  "its_good env its \<longleftrightarrow> (\<forall>it \<in> set its. placed env it)"

text \<open>Iterators that moved on without losing a posting from node \<open>n\<close> on.\<close>

definition its_later :: "iter_env \<Rightarrow> u32 \<Rightarrow> iter list \<Rightarrow> iter list \<Rightarrow> bool" where
  "its_later env n its its' \<longleftrightarrow> length its' = length its \<and>
     (\<forall>i < length its. iter_tag (its' ! i) = iter_tag (its ! i) \<and>
        (\<forall>u \<ge> n. posting_at u (live_rest env (its' ! i)) = posting_at u (live_rest env (its ! i))))"

lemma its_later_refl [simp]: "its_later env n its its"
  by (simp add: its_later_def)

lemma its_later_trans: "its_later env n a b \<Longrightarrow> its_later env n b c \<Longrightarrow> its_later env n a c"
  by (simp add: its_later_def)

lemma seek_exact_spec:
  assumes "cgood env cache" "placed env it"
  shows "\<exists>cache' it'. PgturbohybridBm25IteratorSeekExact env cache it n = Inr (posting_at n (live_rest env it), cache', it') \<and>
    cgood env cache' \<and> placed env it' \<and> iter_tag it' = iter_tag it \<and>
    (\<forall>u \<ge> n. posting_at u (live_rest env it') = posting_at u (live_rest env it))"
proof -
  obtain ok cache' it' where s: "PgturbohybridBm25IteratorSeekTo env cache it n = Inr (ok, cache', it')" "cgood env cache'"
    "placed env it'" "iter_tag it' = iter_tag it"
    "ok \<and> PgturbohybridBm25IteratorNodeId it' = n \<longrightarrow> posting_at n (live_rest env it) = Some (it_postings it' ! unat (it_pos it'))"
    "\<not> (ok \<and> PgturbohybridBm25IteratorNodeId it' = n) \<longrightarrow> posting_at n (live_rest env it) = None"
    "\<forall>u \<ge> n. posting_at u (live_rest env it') = posting_at u (live_rest env it)"
    using pc.seek_exact [OF assms, of n, unfolded pc_posting_of] by blast
  then have "PgturbohybridBm25IteratorSeekExact env cache it n = Inr (posting_at n (live_rest env it), cache', it')"
    by (auto simp: PgturbohybridBm25IteratorSeekExact_def)
  then show ?thesis using s by blast
qed

lemma and_verify_spec:
  assumes "cgood env cache" "its_good env its" "\<forall>i \<in> set is. i < length its"
  shows "\<exists>cache' its'. and_verify f meta env driver n is s cache its =
      Inr (sum_terms f (\<lambda>i. iter_score f meta env (its ! i)) (\<lambda>i. posting_at n (live_rest env (its ! i))) driver is s, cache', its') \<and>
    cgood env cache' \<and> its_good env its' \<and> its_later env n its its' \<and> (driver < length its \<longrightarrow> its' ! driver = its ! driver)"
  using assms
proof (induction "is" arbitrary: s cache its)
  case (Cons i "is")
  show ?case
  proof (cases "i = driver")
    case True
    then show ?thesis using Cons.IH [OF Cons.prems(1,2), of s] Cons.prems(3) by auto
  next
    case False
    have i: "i < length its" "placed env (its ! i)" using Cons.prems by (auto simp: its_good_def)
    obtain cache1 it1 where sk: "PgturbohybridBm25IteratorSeekExact env cache (its ! i) n =
        Inr (posting_at n (live_rest env (its ! i)), cache1, it1)" "cgood env cache1" "placed env it1"
      "iter_tag it1 = iter_tag (its ! i)" "\<forall>u \<ge> n. posting_at u (live_rest env it1) = posting_at u (live_rest env (its ! i))"
      using seek_exact_spec [OF Cons.prems(1) i(2)] by blast
    let ?its = "its[i := it1]"
    have g: "its_good env ?its" using Cons.prems(2) sk(3) by (auto simp: its_good_def dest!: subsetD [OF set_update_subset_insert])
    have later: "its_later env n its ?its" using sk(4,5) i(1) by (auto simp: its_later_def nth_list_update)
    have d: "driver < length its \<longrightarrow> ?its ! driver = its ! driver" using False by simp
    show ?thesis
    proof (cases "posting_at n (live_rest env (its ! i))")
      case None
      then show ?thesis using False sk g later d by auto
    next
      case (Some p)
      let ?s = "f_add f s (iter_score f meta env (its ! i) p)"
      have eq: "sum_terms f (\<lambda>j. iter_score f meta env (?its ! j)) (\<lambda>j. posting_at n (live_rest env (?its ! j))) driver is ?s =
          sum_terms f (\<lambda>j. iter_score f meta env (its ! j)) (\<lambda>j. posting_at n (live_rest env (its ! j))) driver is ?s"
        using later Cons.prems(3) by (intro sum_terms_cong) (auto simp: its_later_def intro: fun_cong [OF iter_score_tag])
      have "\<forall>j \<in> set is. j < length ?its" using Cons.prems(3) by simp
      from Cons.IH [OF sk(2) g this, of ?s] obtain cache2 its2 where
        "and_verify f meta env driver n is ?s cache1 ?its =
          Inr (sum_terms f (\<lambda>j. iter_score f meta env (its ! j)) (\<lambda>j. posting_at n (live_rest env (its ! j))) driver is ?s, cache2, its2)"
        "cgood env cache2" "its_good env its2" "its_later env n ?its its2" "driver < length its \<longrightarrow> its2 ! driver = ?its ! driver"
        unfolding eq by auto
      then show ?thesis using False sk(1) Some d its_later_trans [OF later] iter_score_tag [OF sk(4)]
        by (intro exI [of _ cache2] exI [of _ its2]) auto
    qed
  qed
qed simp

text \<open>The score of a node in terms of the iterators.\<close>

abbreviation its_score :: "fpu \<Rightarrow> score_meta \<Rightarrow> iter_env \<Rightarrow> iter list \<Rightarrow> nat \<Rightarrow> u32 \<Rightarrow> cdouble option" where
  "its_score f meta env its driver \<equiv>
     conj_score f (\<lambda>i. iter_score f meta env (its ! i)) (\<lambda>i. live_rest env (its ! i)) (length its) driver"

lemma its_later_score:
  assumes "its_later env n its its'" "driver < length its" "n \<le> u"
  shows "its_score f meta env its' driver u = its_score f meta env its driver u"
proof -
  have "posting_at u (live_rest env (its' ! driver)) = posting_at u (live_rest env (its ! driver))"
    "iter_score f meta env (its' ! driver) = iter_score f meta env (its ! driver)"
    using assms by (simp_all add: its_later_def iter_score_tag [of "its' ! driver" "its ! driver"])
  moreover have "sum_terms f (\<lambda>i. iter_score f meta env (its' ! i)) (\<lambda>i. posting_at u (live_rest env (its' ! i))) driver [0 ..< length its'] s =
      sum_terms f (\<lambda>i. iter_score f meta env (its ! i)) (\<lambda>i. posting_at u (live_rest env (its ! i))) driver [0 ..< length its] s" for s
  proof -
    have l: "length its' = length its" using assms(1) by (simp add: its_later_def)
    show ?thesis unfolding l
    proof (rule sum_terms_cong)
      fix i assume "i \<in> set [0 ..< length its]"
      then have i: "i < length its" by simp
      show "posting_at u (live_rest env (its' ! i)) = posting_at u (live_rest env (its ! i))"
        using assms i by (simp add: its_later_def)
      show "iter_score f meta env (its' ! i) p = iter_score f meta env (its ! i) p" for p
        using assms(1) i by (simp add: its_later_def iter_score_tag [of "its' ! i" "its ! i"])
    qed
  qed
  ultimately show ?thesis by (simp add: conj_score_def split: option.splits)
qed

lemma live_not_max: "node_live env n \<Longrightarrow> n \<noteq> 0xffffffff"
proof -
  assume "node_live env n"
  then have "n < env_nodeCount env" by (simp add: node_live_def)
  then have "n < - 1" using word_order.extremum [of "env_nodeCount env"] by (rule less_le_trans)
  moreover have "(0xffffffff :: u32) = - 1" by simp
  ultimately show ?thesis by (metis less_irrefl)
qed

lemma below_succ: "(n :: u32) \<noteq> 0xffffffff \<Longrightarrow> m < n + 1 \<longleftrightarrow> m \<le> n"
proof -
  assume "n \<noteq> 0xffffffff"
  then have "n < n + 1" using inc_less_eq_self_iff_eq [of n] by (auto simp: not_le [symmetric])
  then show ?thesis using inc_le [of n m] by (auto simp: not_le [symmetric] less_le_trans)
qed

lemma its_good_nth: "its_good env its \<Longrightarrow> i < length its \<Longrightarrow> placed env (its ! i)"
  by (simp add: its_good_def)

lemma its_good_update: "its_good env its \<Longrightarrow> placed env it \<Longrightarrow> its_good env (its[i := it])"
  by (auto simp: its_good_def dest!: subsetD [OF set_update_subset_insert])

lemma advance_past_spec:
  assumes "cgood env cache" "placed env it" "live_rest env it = p # ps"
  shows "\<exists>cache' it'. PgturbohybridBm25IteratorAdvancePast env cache it (p_nodeId p) = Inr (ps \<noteq> [], cache', it') \<and>
    cgood env cache' \<and> placed env it' \<and> iter_tag it' = iter_tag it \<and> live_rest env it' = ps"
proof -
  have asc: "ascending (p # ps)" using pc.left_ascending [OF assms(2)] assms(3) by simp
  have "p \<in> set (live_rest env it)" using assms(3) by simp
  then have live: "node_live env (p_nodeId p)" by (auto simp: live_rest_def)
  note nm = live_not_max [OF live]
  have drop: "dropWhile (\<lambda>q. p_nodeId q < p_nodeId p + 1) (p # ps) = ps"
    using asc by (cases ps) (auto simp: below_succ [OF nm] ascending_Cons)
  obtain cache' it' where s: "PgturbohybridBm25IteratorSeekTo env cache it (p_nodeId p + 1) = Inr (live_rest env it' \<noteq> [], cache', it')"
    "cgood env cache'" "placed env it'" "live_rest env it' = dropWhile (\<lambda>q. p_nodeId q < p_nodeId p + 1) (live_rest env it)"
    "iter_tag it' = iter_tag it" using pc.seek_law [OF assms(1,2)] by blast
  then have "live_rest env it' = ps" using drop assms(3) by simp
  then show ?thesis using s nm by (auto simp: PgturbohybridBm25IteratorAdvancePast_def)
qed

lemma and_loop_end:
  assumes "its_good env its" "driver < length its" "live_rest env (its ! driver) = []"
  shows "and_loop f meta env rm k driver (cache, its, acc) = Some (Inr (cache, its, acc))"
proof -
  have "PgturbohybridBm25IteratorNodeId (its ! driver) = 0xffffffff"
    using pc.node_end [OF its_good_nth [OF assms(1,2)] assms(3)] .
  then have "and_step f meta env rm k driver (cache, its, acc) = Inr (False, cache, its, acc)"
    by (simp add: and_step_def Let_def)
  then show ?thesis by (subst and_loop.simps) simp
qed

lemma and_step_spec:
  assumes cg: "cgood env cache" and g: "its_good env its" and d: "driver < length its"
    and r: "live_rest env (its ! driver) = p # ps"
  shows "\<exists>cache' its'. and_step f meta env rm k driver (cache, its, acc) = map_sum id (\<lambda>acc'. (ps \<noteq> [], cache', its', acc'))
      (and_offer f rm k (PgturbohybridBm25KthScore acc k) acc (p_nodeId p) (its_score f meta env its driver (p_nodeId p))) \<and>
    cgood env cache' \<and> its_good env its' \<and> its_later env (p_nodeId p + 1) its its' \<and> live_rest env (its' ! driver) = ps"
proof -
  let ?n = "p_nodeId p" and ?it = "its ! driver"
  define add where "add = and_offer f rm k (PgturbohybridBm25KthScore acc k) acc ?n (its_score f meta env its driver ?n)"
  have pl: "placed env ?it" by (rule its_good_nth [OF g d])
  have node: "PgturbohybridBm25IteratorNodeId ?it = ?n" "it_postings ?it ! unat (it_pos ?it) = p"
    using pc.node_law [OF pl] r by simp_all
  have "p \<in> set (live_rest env ?it)" using r by simp
  then have nm: "?n \<noteq> 0xffffffff" using live_not_max [of env ?n] by (auto simp: live_rest_def)
  have valid: "it_valid ?it" using node(1) nm by (auto simp: PgturbohybridBm25IteratorNodeId_def split: if_splits)
  obtain cache1 its1 where v: "and_verify f meta env driver ?n [0 ..< length its] (iter_score f meta env ?it p) cache its =
      Inr (sum_terms f (\<lambda>i. iter_score f meta env (its ! i)) (\<lambda>i. posting_at ?n (live_rest env (its ! i))) driver [0 ..< length its]
             (iter_score f meta env ?it p), cache1, its1)"
    "cgood env cache1" "its_good env its1" "its_later env ?n its its1" "its1 ! driver = ?it"
    using and_verify_spec [OF cg g, of "[0 ..< length its]" f meta driver ?n "iter_score f meta env ?it p"] d by auto
  have sc: "its_score f meta env its driver ?n =
      sum_terms f (\<lambda>i. iter_score f meta env (its ! i)) (\<lambda>i. posting_at ?n (live_rest env (its ! i))) driver [0 ..< length its]
             (iter_score f meta env ?it p)"
    using r by (simp add: conj_score_def posting_at_def)
  obtain cache2 it2 where a: "PgturbohybridBm25IteratorAdvancePast env cache1 ?it ?n = Inr (ps \<noteq> [], cache2, it2)"
    "cgood env cache2" "placed env it2" "iter_tag it2 = iter_tag ?it" "live_rest env it2 = ps"
    using advance_past_spec [OF v(2) pl r] by blast
  let ?its = "its1[driver := it2]"
  have l: "length its1 = length its" using v(4) by (simp add: its_later_def)
  have "its_later env (?n + 1) its ?its"
  proof -
    have "posting_at u (p # ps) = posting_at u ps" if "?n + 1 \<le> u" for u
      using that below_succ [OF nm, of u] by (auto simp: posting_at_def not_less [symmetric])
    moreover have "?n \<le> u" if "?n + 1 \<le> u" for u
      using that below_succ [OF nm, of ?n] less_imp_le less_le_trans by blast
    ultimately show ?thesis using v(4) a(4,5) r d l by (auto simp: its_later_def nth_list_update)
  qed
  moreover have "its_good env ?its" by (rule its_good_update [OF v(3) a(3)])
  moreover have "live_rest env (?its ! driver) = ps" using a(5) d l by simp
  moreover have "and_step f meta env rm k driver (cache, its, acc) = map_sum id (\<lambda>acc'. (ps \<noteq> [], cache2, ?its, acc')) add"
  proof -
    have "and_step f meta env rm k driver (cache, its, acc) =
        bindE add (\<lambda>acc1. Inr (ps \<noteq> [], cache2, ?its, acc1))"
      using v(1,5) a(1) nm valid by (simp add: and_step_def Let_def node add_def sc)
    then show ?thesis by (cases add) auto
  qed
  ultimately show ?thesis using a(2) unfolding add_def by blast
qed

lemma and_loop_spec:
  assumes "cgood env cache" "its_good env its" "driver < length its" "live_rest env (its ! driver) = ps" "ps \<noteq> []"
  shows "\<exists>cache' its'. and_loop f meta env rm k driver (cache, its, acc) =
      Some (map_sum id (\<lambda>acc'. (cache', its', acc')) (and_spec f rm k (its_score f meta env its driver) (map p_nodeId ps) acc)) \<and>
    cgood env cache'"
  using assms
proof (induction ps arbitrary: cache its acc)
  case (Cons p ps)
  define add where "add = and_offer f rm k (PgturbohybridBm25KthScore acc k) acc (p_nodeId p)
    (its_score f meta env its driver (p_nodeId p))"
  obtain cache1 its1 where st: "and_step f meta env rm k driver (cache, its, acc) = map_sum id (\<lambda>acc'. (ps \<noteq> [], cache1, its1, acc')) add"
    "cgood env cache1" "its_good env its1" "its_later env (p_nodeId p + 1) its its1" "live_rest env (its1 ! driver) = ps"
    using and_step_spec [OF Cons.prems(1-4), where f = f and meta = meta and acc = acc and k = k and rm = rm]
    unfolding add_def by blast
  have spec: "and_spec f rm k (its_score f meta env its driver) (map p_nodeId (p # ps)) acc =
      bindE add (and_spec f rm k (its_score f meta env its driver) (map p_nodeId ps))" by (simp add: add_def)
  show ?case
  proof (cases add)
    case (Inl e)
    then have "and_loop f meta env rm k driver (cache, its, acc) = Some (Inl e)" using st(1) by (subst and_loop.simps) simp
    then show ?thesis using Inl spec Cons.prems(1) by auto
  next
    case (Inr acc1)
    show ?thesis
    proof (cases "ps = []")
      case True
      then have "and_loop f meta env rm k driver (cache, its, acc) = Some (Inr (cache1, its1, acc1))"
        using st(1) Inr by (subst and_loop.simps) simp
      then show ?thesis using Inr True spec st(2) by auto
    next
      case False
      have step: "and_loop f meta env rm k driver (cache, its, acc) = and_loop f meta env rm k driver (cache1, its1, acc1)"
        using st(1) Inr False by (subst and_loop.simps) simp
      have "its_score f meta env its1 driver u = its_score f meta env its driver u" if "u \<in> set (map p_nodeId ps)" for u
      proof (rule its_later_score [OF st(4) Cons.prems(3)])
        have "ascending (p # ps)" using pc.left_ascending [OF its_good_nth [OF Cons.prems(2,3)]] Cons.prems(4) by simp
        then have "p_nodeId p < u" using that by (auto simp: ascending_Cons)
        then show "p_nodeId p + 1 \<le> u" by (rule inc_le)
      qed
      then have eq: "and_spec f rm k (its_score f meta env its1 driver) (map p_nodeId ps) acc1 =
          and_spec f rm k (its_score f meta env its driver) (map p_nodeId ps) acc1" by (rule and_spec_cong)
      have "driver < length its1" using st(4) Cons.prems(3) by (simp add: its_later_def)
      from Cons.IH [OF st(2,3) this st(5) False, of acc1] show ?thesis
        unfolding eq step spec by (simp add: Inr)
    qed
  qed
qed simp

section \<open>Opening the iterators of a conjunction\<close>

definition live_postings :: "iter_env \<Rightarrow> chunk list \<Rightarrow> posting list" where
  "live_postings env cks = filter (\<lambda>p. node_live env (p_nodeId p)) (all_postings cks)"

definition stored :: "iter_env \<Rightarrow> iter_term \<Rightarrow> chunk list \<Rightarrow> bool" where
  "stored env t cks \<longleftrightarrow> ascending (all_postings cks) \<and>
     stored_chunks (env_pages env) (t_termId t) (unat (max (t_postingsChunkCount t) 1)) (t_postingsBlkno t) (t_postingsOffno t) = Some cks"

lemma init_iterators_spec:
  assumes "cgood env cache" "list_all2 (stored env) terms cks"
  shows "\<exists>cache'. cgood env cache' \<and>
    (if \<exists>c \<in> set cks. live_postings env c = [] then init_iterators f meta env terms cache = Inr (None, cache')
     else \<exists>its. init_iterators f meta env terms cache = Inr (Some its, cache') \<and> its_good env its \<and> length its = length terms \<and>
       (\<forall>i < length terms. live_rest env (its ! i) = live_postings env (cks ! i) \<and>
          iter_tag (its ! i) = (t_termId (terms ! i), t_matchBit (terms ! i), term_idf f meta (term_df (terms ! i)), corpusAvgDocLen f meta)))"
  using assms
proof (induction terms arbitrary: cks cache)
  case Nil
  then show ?case by (auto simp: its_good_def)
next
  case (Cons t terms)
  then obtain c cs where cks: "cks = c # cs" and c: "stored env t c" and cs: "list_all2 (stored env) terms cs"
    by (auto simp: list_all2_Cons1)
  obtain cache1 it where i: "PgturbohybridBm25IteratorInit env cache t (term_idf f meta (term_df t)) (corpusAvgDocLen f meta) None =
      Inr (live_postings env c \<noteq> [], cache1, it)" "cgood env cache1" "placed env it" "live_rest env it = live_postings env c"
      "iter_tag it = (t_termId t, t_matchBit t, term_idf f meta (term_df t), corpusAvgDocLen f meta)"
    using init_good [OF Cons.prems(1), of t c "term_idf f meta (term_df t)" "corpusAvgDocLen f meta" None] c
    unfolding stored_def live_postings_def by blast
  from Cons.IH [OF i(2) cs] obtain cache2 where ih: "cgood env cache2"
    "if \<exists>c \<in> set cs. live_postings env c = [] then init_iterators f meta env terms cache1 = Inr (None, cache2)
     else \<exists>its. init_iterators f meta env terms cache1 = Inr (Some its, cache2) \<and> its_good env its \<and> length its = length terms \<and>
       (\<forall>i < length terms. live_rest env (its ! i) = live_postings env (cs ! i) \<and>
          iter_tag (its ! i) = (t_termId (terms ! i), t_matchBit (terms ! i), term_idf f meta (term_df (terms ! i)), corpusAvgDocLen f meta))"
    by blast
  consider (here) "live_postings env c = []" | (later) "live_postings env c \<noteq> []" "\<exists>c \<in> set cs. live_postings env c = []"
    | (all) "live_postings env c \<noteq> []" "\<not> (\<exists>c \<in> set cs. live_postings env c = [])" by blast
  then show ?case
  proof cases
    case here
    then show ?thesis using i(1,2) by (intro exI [of _ cache1]) (simp add: cks)
  next
    case later
    then show ?thesis using i(1) ih by (intro exI [of _ cache2]) (simp add: cks)
  next
    case all
    then obtain its where its: "init_iterators f meta env terms cache1 = Inr (Some its, cache2)" "its_good env its" "length its = length terms"
       "\<forall>i < length terms. live_rest env (its ! i) = live_postings env (cs ! i) \<and>
          iter_tag (its ! i) = (t_termId (terms ! i), t_matchBit (terms ! i), term_idf f meta (term_df (terms ! i)), corpusAvgDocLen f meta)"
      using ih(2) by auto
    have "init_iterators f meta env (t # terms) cache = Inr (Some (it # its), cache2)" using i(1) all its(1) by simp
    moreover have "its_good env (it # its)" using its(2) i(3) by (simp add: its_good_def)
    moreover have "\<forall>j < length (t # terms). live_rest env ((it # its) ! j) = live_postings env (cks ! j) \<and>
        iter_tag ((it # its) ! j) = (t_termId ((t # terms) ! j), t_matchBit ((t # terms) ! j),
          term_idf f meta (term_df ((t # terms) ! j)), corpusAvgDocLen f meta)"
      using its(4) i(4,5) by (auto simp: cks less_Suc_eq_0_disj)
    ultimately show ?thesis using all its(3) ih(1) by (auto simp: cks)
  qed
qed

lemma choose_driver_spec:
  assumes "\<forall>t \<in> set terms. t_hasLexicon t"
  shows "\<exists>r. choose_driver n terms d df = Some r \<and>
    (r = d \<and> (\<forall>t \<in> set terms. df \<le> term_df t) \<or>
     (\<exists>i < length terms. r = Some (n + i) \<and> term_df (terms ! i) < df \<and> (\<forall>t \<in> set terms. term_df (terms ! i) \<le> term_df t)))"
  using assms
proof (induction terms arbitrary: n d df)
  case (Cons t ts)
  show ?case
  proof (cases "term_df t < df")
    case True
    obtain r where r: "choose_driver (Suc n) ts (Some n) (term_df t) = Some r"
      "r = Some n \<and> (\<forall>x \<in> set ts. term_df t \<le> term_df x) \<or>
       (\<exists>i < length ts. r = Some (Suc n + i) \<and> term_df (ts ! i) < term_df t \<and> (\<forall>x \<in> set ts. term_df (ts ! i) \<le> term_df x))"
      using Cons.IH [of "Suc n" "Some n" "term_df t"] Cons.prems by auto
    from r(2) have "\<exists>i < length (t # ts). r = Some (n + i) \<and> term_df ((t # ts) ! i) < df \<and>
        (\<forall>x \<in> set (t # ts). term_df ((t # ts) ! i) \<le> term_df x)"
    proof
      assume "r = Some n \<and> (\<forall>x \<in> set ts. term_df t \<le> term_df x)"
      then show ?thesis using True by (intro exI [of _ 0]) auto
    next
      assume "\<exists>i < length ts. r = Some (Suc n + i) \<and> term_df (ts ! i) < term_df t \<and> (\<forall>x \<in> set ts. term_df (ts ! i) \<le> term_df x)"
      then obtain i where "i < length ts" "r = Some (Suc n + i)" "term_df (ts ! i) < term_df t" "\<forall>x \<in> set ts. term_df (ts ! i) \<le> term_df x"
        by blast
      then show ?thesis using True by (intro exI [of _ "Suc i"]) auto
    qed
    then show ?thesis using True r(1) Cons.prems by auto
  next
    case False
    obtain r where r: "choose_driver (Suc n) ts d df = Some r"
      "r = d \<and> (\<forall>x \<in> set ts. df \<le> term_df x) \<or>
       (\<exists>i < length ts. r = Some (Suc n + i) \<and> term_df (ts ! i) < df \<and> (\<forall>x \<in> set ts. term_df (ts ! i) \<le> term_df x))"
      using Cons.IH [of "Suc n" d df] Cons.prems by auto
    have c: "choose_driver n (t # ts) d df = Some r" using False r(1) Cons.prems by simp
    from r(2) show ?thesis
    proof
      assume "r = d \<and> (\<forall>x \<in> set ts. df \<le> term_df x)"
      then show ?thesis using c False by (intro exI [of _ r]) (simp add: not_less)
    next
      assume "\<exists>i < length ts. r = Some (Suc n + i) \<and> term_df (ts ! i) < df \<and> (\<forall>x \<in> set ts. term_df (ts ! i) \<le> term_df x)"
      then obtain i where "i < length ts" "r = Some (Suc n + i)" "term_df (ts ! i) < df" "\<forall>x \<in> set ts. term_df (ts ! i) \<le> term_df x"
        by blast
      then have "Suc i < length (t # ts) \<and> r = Some (n + Suc i) \<and> term_df ((t # ts) ! Suc i) < df \<and>
          (\<forall>x \<in> set (t # ts). term_df ((t # ts) ! Suc i) \<le> term_df x)" using False by auto
      then show ?thesis using c by blast
    qed
  qed
qed simp

text \<open>The score of a node under a conjunction of terms, from the stored postings.\<close>

definition terms_score :: "fpu \<Rightarrow> score_meta \<Rightarrow> iter_env \<Rightarrow> iter_term list \<Rightarrow> chunk list list \<Rightarrow> nat \<Rightarrow> u32 \<Rightarrow> cdouble option" where
  "terms_score f meta env terms cks =
     conj_score f (\<lambda>i. posting_score f meta env (terms ! i)) (\<lambda>i. live_postings env (cks ! i)) (length terms)"

lemma conj_score_cong:
  assumes "\<And>i. i < n \<Longrightarrow> pl i = pl' i" "\<And>i p. i < n \<Longrightarrow> sc i p = sc' i p" "driver < n"
  shows "conj_score f sc pl n driver = conj_score f sc' pl' n driver"
proof
  fix u
  have "sum_terms f sc (\<lambda>i. posting_at u (pl i)) driver [0 ..< n] s = sum_terms f sc' (\<lambda>i. posting_at u (pl' i)) driver [0 ..< n] s" for s
    using assms by (intro sum_terms_cong) auto
  then show "conj_score f sc pl n driver u = conj_score f sc' pl' n driver u"
    using assms by (simp add: conj_score_def split: option.splits)
qed

lemma terms_score_none:
  assumes "list_all2 (stored env) terms cks" "\<exists>c \<in> set cks. live_postings env c = []"
  shows "terms_score f meta env terms cks driver u = None"
proof -
  obtain i where i: "i < length terms" "live_postings env (cks ! i) = []"
    using assms by (auto simp: in_set_conv_nth list_all2_lengthD)
  show ?thesis
  proof (cases "i = driver")
    case True
    then show ?thesis using i by (simp add: terms_score_def conj_score_def posting_at_def)
  next
    case False
    have "sum_terms f (\<lambda>i. posting_score f meta env (terms ! i)) (\<lambda>i. posting_at u (live_postings env (cks ! i))) driver
        [0 ..< length terms] s = None" for s
      unfolding sum_terms_none using i False by (intro bexI [of _ i]) (auto simp: posting_at_def)
    then show ?thesis by (simp add: terms_score_def conj_score_def split: option.splits)
  qed
qed

lemma and_driver_good:
  assumes cg: "cgood env cache" and st: "list_all2 (stored env) terms cks" and lex: "\<forall>t \<in> set terms. t_hasLexicon t"
    and ev: "ev_shape ev = QUERY_PURE_AND" "length terms > 1" and df: "\<exists>t \<in> set terms. term_df t < 0xffffffff"
  shows "\<exists>driver cache'. driver < length terms \<and> (\<forall>t \<in> set terms. term_df (terms ! driver) \<le> term_df t) \<and> cgood env cache' \<and>
    PgturbohybridBm25ScoreBaseAndRarestDriver f meta env terms (Some ev) k cache acc =
      Some (map_sum id (\<lambda>acc'. (True, cache', acc'))
        (and_spec f (ev_requiredMask ev) k (terms_score f meta env terms cks driver)
           (map p_nodeId (live_postings env (cks ! driver))) acc))"
proof -
  obtain driver where d: "driver < length terms" "\<forall>t \<in> set terms. term_df (terms ! driver) \<le> term_df t"
    and cd: "choose_driver 0 terms None 0xffffffff = Some (Some driver)"
    using choose_driver_spec [OF lex, of 0 None "0xffffffff"] df by (auto simp: not_le [symmetric])
  obtain cache1 where c1: "cgood env cache1"
    "if \<exists>c \<in> set cks. live_postings env c = [] then init_iterators f meta env terms cache = Inr (None, cache1)
     else \<exists>its. init_iterators f meta env terms cache = Inr (Some its, cache1) \<and> its_good env its \<and> length its = length terms \<and>
       (\<forall>i < length terms. live_rest env (its ! i) = live_postings env (cks ! i) \<and>
          iter_tag (its ! i) = (t_termId (terms ! i), t_matchBit (terms ! i), term_idf f meta (term_df (terms ! i)), corpusAvgDocLen f meta))"
    using init_iterators_spec [OF cg st] by blast
  let ?score = "terms_score f meta env terms cks driver" and ?ns = "map p_nodeId (live_postings env (cks ! driver))"
  have unfold: "PgturbohybridBm25ScoreBaseAndRarestDriver f meta env terms (Some ev) k cache acc =
     (case init_iterators f meta env terms cache of
           Inl e \<Rightarrow> Some (Inl e)
         | Inr (None, cache1) \<Rightarrow> Some (Inr (True, cache1, acc))
         | Inr (Some its, cache1) \<Rightarrow>
             map_option (map_sum id (\<lambda>(cache2, its2, acc2). (True, cache2, acc2)))
               (and_loop f meta env (ev_requiredMask ev) k driver (cache1, its, acc)))"
    using ev cd by (auto simp: PgturbohybridBm25ScoreBaseAndRarestDriver_def split: sum.splits option.splits)
  show ?thesis
  proof (cases "\<exists>c \<in> set cks. live_postings env c = []")
    case True
    then have "and_spec f (ev_requiredMask ev) k ?score ?ns acc = Inr acc"
      using terms_score_none [OF st] by (intro and_spec_none) blast
    then show ?thesis using True c1 d unfold by (intro exI [of _ driver] exI [of _ cache1]) simp
  next
    case False
    then obtain its where its: "init_iterators f meta env terms cache = Inr (Some its, cache1)" "its_good env its" "length its = length terms"
       "\<forall>i < length terms. live_rest env (its ! i) = live_postings env (cks ! i) \<and>
          iter_tag (its ! i) = (t_termId (terms ! i), t_matchBit (terms ! i), term_idf f meta (term_df (terms ! i)), corpusAvgDocLen f meta)"
      using c1(2) by auto
    have dl: "driver < length its" using d its(3) by simp
    have "cks ! driver \<in> set cks" using d(1) list_all2_lengthD [OF st] by simp
    then have ne: "live_postings env (cks ! driver) \<noteq> []" using False by blast
    have sc: "its_score f meta env its driver = ?score"
      unfolding terms_score_def its(3) using its(4) d(1)
      by (intro conj_score_cong) (auto simp: iter_score_def posting_score_def iter_tag_def)
    obtain cache2 its2 where "and_loop f meta env (ev_requiredMask ev) k driver (cache1, its, acc) =
        Some (map_sum id (\<lambda>acc'. (cache2, its2, acc')) (and_spec f (ev_requiredMask ev) k ?score ?ns acc))" "cgood env cache2"
      using and_loop_spec [OF c1(1) its(2) dl _ ne, of f meta "ev_requiredMask ev" k acc] its(4) d(1) unfolding sc by auto
    then have "PgturbohybridBm25ScoreBaseAndRarestDriver f meta env terms (Some ev) k cache acc =
        Some (map_sum id (\<lambda>acc'. (True, cache2, acc')) (and_spec f (ev_requiredMask ev) k ?score ?ns acc))"
      using unfold its(1) by (simp add: sum.map_comp o_def id_def)
    then show ?thesis using d \<open>cgood env cache2\<close> by blast
  qed
qed

section \<open>Properties\<close>

fun dneg :: "cdouble \<Rightarrow> cdouble" where
  "dneg NaN = NaN" | "dneg NegInf = PosInf" | "dneg PosInf = NegInf" | "dneg (Fin a) = Fin (- a)"

fun dlift :: "(rat \<Rightarrow> rat \<Rightarrow> rat) \<Rightarrow> cdouble \<Rightarrow> cdouble \<Rightarrow> cdouble" where
  "dlift g (Fin a) (Fin b) = Fin (g a b)" | "dlift g x y = NaN"

definition demo_fpu :: fpu where
  "demo_fpu = \<lparr>f_add = dadd, f_sub = (\<lambda>x y. dadd x (dneg y)), f_mul = dlift (*), f_div = dlift (/),
     f_log = (\<lambda>_. Fin 1), f_of_u64 = (\<lambda>w. Fin (of_nat (unat w)))\<rparr>"

definition demo_meta :: score_meta where
  "demo_meta = \<lparr>sm_reserved2 = 0, sm_docCount = 5, sm_deltaDocCount = 0, sm_totalDocLen = 5, sm_deltaTotalDocLen = 0,
     sm_k1 = Fin (6 / 5), sm_b = Fin (3 / 4)\<rparr>"

definition demo_acc :: accu where
  "demo_acc = \<lparr>acc_mode = ACCUMULATOR_HASH, acc_entries = Map.empty,
     acc_dense = \<lparr>da_entries = [], da_generations = [], da_generation = 0, da_capacity = 0\<rparr>, acc_touched = [],
     acc_touchedCapacity = 16, acc_topHeap = [0], acc_topHeapCount = 0, acc_topHeapCapacity = 1, acc_threshold = Fin 0,
     acc_seedThreshold = Fin 0\<rparr>"

lemma demo_stored_term: "\<exists>cks. stored demo_env demo_term cks \<and> live_postings demo_env cks = [\<lparr>p_nodeId = 3, p_tf = 2, p_reserved = 0\<rparr>]"
  using demo_stored demo_ascending demo_live by (auto simp: stored_def live_postings_def)



text \<open>
  C31. The scan of a pure conjunction always ends and is exact: driven by the term with the
  fewest documents, it offers to the accumulator, in node order, exactly the documents
  that occur among the live postings of every term, each with the sum of the scores of its
  postings; a document that one term lacks is never scored. The result does not depend on
  what the hot postings cache holds.
\<close>

theorem and_driver_scores_intersection:
  assumes "cgood env cache" "list_all2 (stored env) terms cks" "\<forall>t \<in> set terms. t_hasLexicon t"
    and "ev_shape ev = QUERY_PURE_AND" "length terms > 1" "\<exists>t \<in> set terms. term_df t < 0xffffffff"
  shows "\<exists>driver cache'. driver < length terms \<and> (\<forall>t \<in> set terms. term_df (terms ! driver) \<le> term_df t) \<and>
    PgturbohybridBm25ScoreBaseAndRarestDriver f meta env terms (Some ev) k cache acc =
      Some (map_sum id (\<lambda>acc'. (True, cache', acc'))
        (and_spec f (ev_requiredMask ev) k (terms_score f meta env terms cks driver)
           (map p_nodeId (live_postings env (cks ! driver))) acc)) \<and>
    (\<forall>n. terms_score f meta env terms cks driver n \<noteq> None \<longleftrightarrow>
       (\<forall>c \<in> set cks. n \<in> p_nodeId ` set (live_postings env c)))"
proof -
  have len: "length cks = length terms" using list_all2_lengthD [OF assms(2)] by simp
  have at: "posting_at n ps \<noteq> None \<longleftrightarrow> n \<in> p_nodeId ` set ps" for n ps
    using find_None_iff [of "\<lambda>p. p_nodeId p = n" ps] by (auto simp: posting_at_def)
  have iff: "terms_score f meta env terms cks driver n \<noteq> None \<longleftrightarrow> (\<forall>c \<in> set cks. n \<in> p_nodeId ` set (live_postings env c))"
    if d: "driver < length terms" for driver n
  proof -
    have "terms_score f meta env terms cks driver n \<noteq> None \<longleftrightarrow>
        (\<forall>i < length terms. posting_at n (live_postings env (cks ! i)) \<noteq> None)"
      using d by (cases "posting_at n (live_postings env (cks ! driver))")
        (auto simp: terms_score_def conj_score_def sum_terms_none simp flip: not_None_eq)
    also have "\<dots> \<longleftrightarrow> (\<forall>c \<in> set cks. n \<in> p_nodeId ` set (live_postings env c))"
      unfolding at by (simp add: all_set_conv_all_nth len)
    finally show ?thesis .
  qed
  show ?thesis using and_driver_good [OF assms, of f meta k acc] iff by blast
qed

theorem and_driver_scores_intersection_witness:
  "\<exists>driver cks cache'. PgturbohybridBm25ScoreBaseAndRarestDriver demo_fpu demo_meta demo_env [demo_term, demo_term]
      (Some \<lparr>ev_shape = QUERY_PURE_AND, ev_mode = BOOLEAN_EVAL_MASK, ev_requiredMask = 1\<rparr>) 1 (Some hot_empty) demo_acc =
      Some (map_sum id (\<lambda>acc'. (True, cache', acc'))
        (and_spec demo_fpu 1 1 (terms_score demo_fpu demo_meta demo_env [demo_term, demo_term] cks driver) [3] demo_acc)) \<and>
    terms_score demo_fpu demo_meta demo_env [demo_term, demo_term] cks driver 3 \<noteq> None"
proof -
  let ?ts = "[demo_term, demo_term]"
  let ?ev = "\<lparr>ev_shape = QUERY_PURE_AND, ev_mode = BOOLEAN_EVAL_MASK, ev_requiredMask = 1\<rparr>"
  obtain c where c: "stored demo_env demo_term c" "live_postings demo_env c = [\<lparr>p_nodeId = 3, p_tf = 2, p_reserved = 0\<rparr>]"
    using demo_stored_term by blast
  have st: "list_all2 (stored demo_env) ?ts [c, c]" using c(1) by simp
  have t: "\<forall>t \<in> set ?ts. t_hasLexicon t" "\<exists>t \<in> set ?ts. term_df t < 0xffffffff"
    by (simp_all add: demo_term_def term_df_def)
  have "ev_shape ?ev = QUERY_PURE_AND" "length ?ts > 1" by simp_all
  note w = and_driver_scores_intersection [OF demo_cgood st t(1) this t(2), of demo_fpu demo_meta 1 demo_acc]
  then obtain driver cache' where d: "driver < length ?ts"
    "PgturbohybridBm25ScoreBaseAndRarestDriver demo_fpu demo_meta demo_env ?ts (Some ?ev) 1 (Some hot_empty) demo_acc =
      Some (map_sum id (\<lambda>acc'. (True, cache', acc'))
        (and_spec demo_fpu (ev_requiredMask ?ev) 1 (terms_score demo_fpu demo_meta demo_env ?ts [c, c] driver)
           (map p_nodeId (live_postings demo_env ([c, c] ! driver))) demo_acc))"
    "terms_score demo_fpu demo_meta demo_env ?ts [c, c] driver 3 \<noteq> None \<longleftrightarrow>
       (\<forall>x \<in> set [c, c]. 3 \<in> p_nodeId ` set (live_postings demo_env x))" by blast
  have "map p_nodeId (live_postings demo_env ([c, c] ! driver)) = [3]" using d(1) c(2) by (cases driver) auto
  then have "PgturbohybridBm25ScoreBaseAndRarestDriver demo_fpu demo_meta demo_env ?ts (Some ?ev) 1 (Some hot_empty) demo_acc =
      Some (map_sum id (\<lambda>acc'. (True, cache', acc'))
        (and_spec demo_fpu 1 1 (terms_score demo_fpu demo_meta demo_env ?ts [c, c] driver) [3] demo_acc))" using d(2) by simp
  moreover have "terms_score demo_fpu demo_meta demo_env ?ts [c, c] driver 3 \<noteq> None" unfolding d(3) using c(2) by simp
  ultimately show ?thesis by blast
qed

end
