(* ===== verification/Bm25_Wand.thy ===== *)
theory Bm25_Wand
  imports Bm25_Scan Qsort
begin

text \<open>
  The WAND scan of \<open>src/src/pgturbohybrid_bm25_query.c\<close>: the order of the active iterators, the score bounds
  of their current chunks, the bounds of the fused score, and the scan itself. The module proves that the
  incremental reordering is a full sort, that the search in the dense candidates is exact,
  that every scan ends, and that a scan drops the chunks behind the current ones once the
  bounds of the current ones fall to the threshold.
\<close>

section \<open>Bounds\<close>

definition PgturbohybridBm25IteratorUpperBound :: "fpu \<Rightarrow> score_meta \<Rightarrow> iter \<Rightarrow> cdouble" where
  "PgturbohybridBm25IteratorUpperBound f meta it =
     (if sm_reserved2 meta AND META_FLAG_TFNORM_Q16 \<noteq> 0 \<and> it_maxTfNormQ16 it > 0
      then (if dless (Fin 0) (it_maxScoreFactor it) then f_mul f (it_idf it) (it_maxScoreFactor it)
            else PgturbohybridBm25PostingPrecomputedScore f meta (it_idf it) (it_maxTfNormQ16 it))
      else PgturbohybridBm25BlockUpperBound f meta (it_idf it) (it_avgDocLen it) (it_maxTf it))"

definition PgturbohybridBm25NormalizeSaturating :: "fpu \<Rightarrow> cdouble \<Rightarrow> cdouble" where
  "PgturbohybridBm25NormalizeSaturating f score =
     (if dless score (Fin 0) \<or> score = Fin 0 then Fin 0 else f_div f score (f_add f score (Fin 1)))"

record PgturbohybridBm25FusedScoreBoundDenseEntry =
  de_nodeId :: u32
  de_contribution :: cdouble

record PgturbohybridBm25FusedScoreBoundContext =
  fb_enabled :: bool
  fb_alpha :: cdouble
  fb_kthScore :: cdouble
  fb_maxDenseContribution :: cdouble
  fb_dense :: "PgturbohybridBm25FusedScoreBoundDenseEntry list option"
  fb_denseCount :: u32

type_synonym fused_bound = PgturbohybridBm25FusedScoreBoundContext

text \<open>The binary search; its bounds are array indices below \<open>denseCount\<close>.\<close>

function dense_search :: "PgturbohybridBm25FusedScoreBoundDenseEntry list \<Rightarrow> u32 \<Rightarrow> nat \<Rightarrow> nat \<Rightarrow> cdouble" where
  "dense_search dense nodeId left right =
     (if left < right then
        let mid = left + (right - left) div 2; midNode = de_nodeId (dense ! mid)
        in if midNode = nodeId then de_contribution (dense ! mid)
           else if midNode < nodeId then dense_search dense nodeId (mid + 1) right
           else dense_search dense nodeId left mid
      else Fin 0)"
  by pat_completeness auto
termination by (relation "measure (\<lambda>(_, _, l, r). r - l)") auto

declare dense_search.simps [simp del]

definition PgturbohybridBm25DenseContributionForBound :: "fused_bound option \<Rightarrow> u32 \<Rightarrow> cdouble" where
  "PgturbohybridBm25DenseContributionForBound bound nodeId =
     (case bound of None \<Rightarrow> Fin 0
      | Some b \<Rightarrow> if \<not> fb_enabled b then Fin 0
          else case fb_dense b of None \<Rightarrow> Fin 0 | Some dense \<Rightarrow> dense_search dense nodeId 0 (unat (fb_denseCount b)))"

definition fused_max :: "fpu \<Rightarrow> fused_bound \<Rightarrow> cdouble \<Rightarrow> cdouble \<Rightarrow> cdouble" where
  "fused_max f b denseContribution bm25UpperBound =
     f_add f denseContribution
       (f_mul f (f_sub f (Fin 1) (fb_alpha b)) (PgturbohybridBm25NormalizeSaturating f bm25UpperBound))"

definition PgturbohybridBm25FusedScoreBoundCanPruneCandidate :: "fpu \<Rightarrow> fused_bound option \<Rightarrow> u32 \<Rightarrow> cdouble \<Rightarrow> bool" where
  "PgturbohybridBm25FusedScoreBoundCanPruneCandidate f bound nodeId bm25UpperBound =
     (case bound of None \<Rightarrow> False
      | Some b \<Rightarrow> fb_enabled b \<and>
          dless (fused_max f b (PgturbohybridBm25DenseContributionForBound bound nodeId) bm25UpperBound) (fb_kthScore b))"

definition PgturbohybridBm25FusedScoreBoundCanPruneUnknownTail :: "fpu \<Rightarrow> fused_bound option \<Rightarrow> cdouble \<Rightarrow> bool" where
  "PgturbohybridBm25FusedScoreBoundCanPruneUnknownTail f bound bm25UpperBound =
     (case bound of None \<Rightarrow> False
      | Some b \<Rightarrow> fb_enabled b \<and> dless (fused_max f b (fb_maxDenseContribution b) bm25UpperBound) (fb_kthScore b))"

section \<open>The active iterators\<close>

text \<open>
  The array of active iterators holds pointers into the array of iterators; here they are
  indices. \<open>active_less\<close> is \<open>PgturbohybridBm25ActiveIteratorCompare(a, b) < 0\<close>.
\<close>

definition PgturbohybridBm25ActiveIteratorCompare :: "iter \<Rightarrow> iter \<Rightarrow> int" where
  "PgturbohybridBm25ActiveIteratorCompare ia ib =
     (let nodeA = PgturbohybridBm25IteratorNodeId ia; nodeB = PgturbohybridBm25IteratorNodeId ib
      in if nodeA < nodeB then -1 else if nodeA > nodeB then 1
         else of_bool (it_termId ia > it_termId ib) - of_bool (it_termId ia < it_termId ib))"

definition active_less :: "iter list \<Rightarrow> nat \<Rightarrow> nat \<Rightarrow> bool" where
  "active_less its a b \<longleftrightarrow> PgturbohybridBm25ActiveIteratorCompare (its ! a) (its ! b) < 0"

definition PgturbohybridBm25SortActiveInitial :: "iter list \<Rightarrow> nat list \<Rightarrow> nat list" where
  "PgturbohybridBm25SortActiveInitial its active = (if length active \<le> 1 then active else qsort_by (active_less its) active)"

definition still_active :: "iter list \<Rightarrow> nat \<Rightarrow> bool" where
  "still_active its a \<longleftrightarrow> it_valid (its ! a) \<and> PgturbohybridBm25IteratorNodeId (its ! a) \<noteq> 0xffffffff"

text \<open>Moving the larger elements left of \<open>j\<close> one place up; the result is the place for \<open>x\<close>.\<close>

fun shift_up :: "iter list \<Rightarrow> nat \<Rightarrow> nat list \<Rightarrow> nat \<Rightarrow> nat list \<times> nat" where
  "shift_up its x xs 0 = (xs, 0)"
| "shift_up its x xs (Suc j) =
     (if active_less its x (xs ! j) then shift_up its x (xs[Suc j := xs ! j]) j else (xs, Suc j))"

definition insert_at :: "iter list \<Rightarrow> nat list \<Rightarrow> nat \<Rightarrow> nat list" where
  "insert_at its xs i = (let x = xs ! i; (ys, j) = shift_up its x xs i in if j \<noteq> i then ys[j := x] else ys)"

definition PgturbohybridBm25RefreshActiveOrder :: "iter list \<Rightarrow> nat list \<Rightarrow> nat list" where
  "PgturbohybridBm25RefreshActiveOrder its active =
     (let compacted = filter (still_active its) active
      in fold (\<lambda>i xs. insert_at its xs i) [1 ..< length compacted] compacted)"

section \<open>The scan\<close>

record wand_state =
  w_cache :: "hotcache option"
  w_its :: "iter list"
  w_active :: "nat list"
  w_acc :: accu
  w_used :: bool

text \<open>The first position at which the summed bounds can beat the threshold.\<close>

fun find_pivot :: "fpu \<Rightarrow> score_meta \<Rightarrow> iter list \<Rightarrow> accu \<Rightarrow> int \<Rightarrow> cdouble \<Rightarrow> cdouble \<Rightarrow> nat \<Rightarrow> nat list \<Rightarrow> nat option" where
  "find_pivot f meta its acc k threshold upperBound i [] = None"
| "find_pivot f meta its acc k threshold upperBound i (a # as) =
     (let ub = f_add f upperBound (PgturbohybridBm25IteratorUpperBound f meta (its ! a))
      in if competitive acc k threshold ub then Some i else find_pivot f meta its acc k threshold ub (Suc i) as)"

text \<open>The bound of a candidate: the iterators in front, up to the first behind the pivot.\<close>

fun candidate_bound :: "fpu \<Rightarrow> score_meta \<Rightarrow> iter list \<Rightarrow> u32 \<Rightarrow> cdouble \<Rightarrow> nat list \<Rightarrow> cdouble" where
  "candidate_bound f meta its pivotNode ub [] = ub"
| "candidate_bound f meta its pivotNode ub (a # as) =
     (if PgturbohybridBm25IteratorNodeId (its ! a) > pivotNode then ub
      else candidate_bound f meta its pivotNode (f_add f ub (PgturbohybridBm25IteratorUpperBound f meta (its ! a))) as)"

definition advance_matching :: "iter_env \<Rightarrow> u32 \<Rightarrow> nat list \<Rightarrow> hotcache option \<times> iter list \<Rightarrow> (hotcache option \<times> iter list) res" where
  "advance_matching env pivotNode = foldE (\<lambda>a (cache, its).
     if PgturbohybridBm25IteratorNodeId (its ! a) = pivotNode
     then bindE (PgturbohybridBm25IteratorAdvancePast env cache (its ! a) pivotNode) (\<lambda>(_, cache1, it1).
            Inr (cache1, its[a := it1]))
     else Inr (cache, its))"

definition seek_active :: "iter_env \<Rightarrow> u32 \<Rightarrow> nat list \<Rightarrow> hotcache option \<times> iter list \<Rightarrow> (hotcache option \<times> iter list) res" where
  "seek_active env target = foldE (\<lambda>a (cache, its).
     bindE (PgturbohybridBm25IteratorSeekTo env cache (its ! a) target) (\<lambda>(_, cache1, it1). Inr (cache1, its[a := it1])))"

text \<open>Scoring the pivot: score, matched terms, and whether any term matched.\<close>

type_synonym pivot_state = "(cdouble \<times> u64 \<times> bool) \<times> hotcache option \<times> iter list"

definition score_pivot :: "fpu \<Rightarrow> score_meta \<Rightarrow> iter_env \<Rightarrow> u32 \<Rightarrow> nat list \<Rightarrow> pivot_state \<Rightarrow> pivot_state res" where
  "score_pivot f meta env pivotNode = foldE (\<lambda>a ((score, matchedTerms, matched), cache, its).
     bindE (PgturbohybridBm25IteratorSeekTo env cache (its ! a) pivotNode) (\<lambda>(ok, cache1, it1).
       Inr (if ok \<and> PgturbohybridBm25IteratorNodeId it1 = pivotNode
            then (f_add f score (iter_score f meta env it1 (it_postings it1 ! unat (it_pos it1))),
                  matchedTerms OR it_matchBit it1, True)
            else (score, matchedTerms, matched), cache1, its[a := it1])))"

record wand_query =
  wq_query :: TSQuery
  wq_terms :: "qterm list"
  wq_eval :: "PgturbohybridBm25QueryEval option"

definition with_order :: "hotcache option \<times> iter list \<Rightarrow> wand_state \<Rightarrow> wand_state" where
  "with_order ci w = w\<lparr>w_cache := fst ci, w_its := snd ci, w_active := PgturbohybridBm25RefreshActiveOrder (snd ci) (w_active w)\<rparr>"

text \<open>A pivot all iterators in front have reached: prune it by the fused bound or score it.\<close>

definition wand_candidate :: "fpu \<Rightarrow> score_meta \<Rightarrow> iter_env \<Rightarrow> wand_query \<Rightarrow> fused_bound option \<Rightarrow> int \<Rightarrow> cdouble \<Rightarrow> u32 \<Rightarrow>
    wand_state \<Rightarrow> wand_state res" where
  "wand_candidate f meta env q fusedBound k threshold pivotNode w =
     (let bound = candidate_bound f meta (w_its w) pivotNode (Fin 0) (w_active w)
      in if PgturbohybridBm25FusedScoreBoundCanPruneCandidate f fusedBound pivotNode bound
         then bindE (advance_matching env pivotNode (w_active w) (w_cache w, w_its w)) (\<lambda>ci. Inr (with_order ci w))
         else bindE (score_pivot f meta env pivotNode (w_active w) ((Fin 0, 0, False), w_cache w, w_its w))
           (\<lambda>((score, matchedTerms, matched), cache1, its1).
              bindE (if matched then PgturbohybridBm25MatchedQuery (wq_query q) (wq_terms q) (wq_eval q) matchedTerms else Inr False)
                (\<lambda>hit.
              bindE (if hit \<and> competitive (w_acc w) k threshold score
                     then PgturbohybridBm25AccumulatorAddTermScore (f_add f) (w_acc w) pivotNode score matchedTerms
                     else Inr (w_acc w)) (\<lambda>acc1.
              bindE (advance_matching env pivotNode (w_active w) (cache1, its1)) (\<lambda>ci.
              Inr (with_order ci (w\<lparr>w_acc := acc1, w_used := w_used w \<or> hit\<rparr>)))))))"

text \<open>One round of the loop: the state after it and whether the loop goes on.\<close>

definition wand_step :: "fpu \<Rightarrow> score_meta \<Rightarrow> iter_env \<Rightarrow> wand_query \<Rightarrow> fused_bound option \<Rightarrow> int \<Rightarrow> wand_state \<Rightarrow>
    (bool \<times> wand_state) res" where
  "wand_step f meta env q fusedBound k w =
     (let its = w_its w; active = w_active w; threshold = PgturbohybridBm25KthScore (w_acc w) k
      in if active = [] then Inr (False, w)
         else case find_pivot f meta its (w_acc w) k threshold (Fin 0) 0 active of
           None \<Rightarrow> Inr (False, w)
         | Some pivot \<Rightarrow>
           let pivotNode = PgturbohybridBm25IteratorNodeId (its ! (active ! pivot))
           in if pivotNode = 0xffffffff then Inr (False, w)
              else if PgturbohybridBm25IteratorNodeId (its ! (active ! 0)) = pivotNode
              then bindE (wand_candidate f meta env q fusedBound k threshold pivotNode w) (\<lambda>w'. Inr (True, w'))
              else bindE (seek_active env pivotNode (take pivot active) (w_cache w, its)) (\<lambda>ci.
                     Inr (True, with_order ci w)))"

partial_function (option) wand_loop ::
    "fpu \<Rightarrow> score_meta \<Rightarrow> iter_env \<Rightarrow> wand_query \<Rightarrow> fused_bound option \<Rightarrow> int \<Rightarrow> wand_state \<Rightarrow> wand_state res option" where
  "wand_loop f meta env q fusedBound k w =
     (case wand_step f meta env q fusedBound k w of
        Inl e \<Rightarrow> Some (Inl e)
      | Inr (go, w') \<Rightarrow> if go then wand_loop f meta env q fusedBound k w' else Some (Inr w'))"

text \<open>Opening the iterators; those without a posting of a live document are closed and dropped.\<close>

fun wand_init :: "fpu \<Rightarrow> score_meta \<Rightarrow> iter_env \<Rightarrow> iter_term list \<Rightarrow> hotcache option \<Rightarrow> (iter list \<times> hotcache option) res" where
  "wand_init f meta env [] cache = Inr ([], cache)"
| "wand_init f meta env (t # ts) cache =
     (if \<not> t_hasLexicon t then wand_init f meta env ts cache
      else bindE (PgturbohybridBm25IteratorInit env cache t (term_idf f meta (term_df t)) (corpusAvgDocLen f meta) None)
        (\<lambda>(ok, cache1, it).
          bindE (wand_init f meta env ts cache1) (\<lambda>(its, cache2).
          Inr (if ok then it # its else its, cache2))))"

definition PgturbohybridBm25ScoreBaseWand ::
    "fpu \<Rightarrow> score_meta \<Rightarrow> iter_env \<Rightarrow> wand_query \<Rightarrow> iter_term list \<Rightarrow> fused_bound option \<Rightarrow> int \<Rightarrow> hotcache option \<Rightarrow> accu \<Rightarrow>
     wand_state res option" where
  "PgturbohybridBm25ScoreBaseWand f meta env q terms fusedBound k cache acc =
     (case wand_init f meta env terms cache of
        Inl e \<Rightarrow> Some (Inl e)
      | Inr (its, cache1) \<Rightarrow>
          wand_loop f meta env q fusedBound k
            \<lparr>w_cache = cache1, w_its = its, w_active = PgturbohybridBm25SortActiveInitial its [0 ..< length its],
             w_acc = acc, w_used = False\<rparr>)"

section \<open>Reordering is sorting\<close>

lemma active_less_iff: "active_less its a b \<longleftrightarrow>
    PgturbohybridBm25IteratorNodeId (its ! a) < PgturbohybridBm25IteratorNodeId (its ! b) \<or>
    PgturbohybridBm25IteratorNodeId (its ! a) = PgturbohybridBm25IteratorNodeId (its ! b) \<and> it_termId (its ! a) < it_termId (its ! b)"
  by (auto simp: active_less_def PgturbohybridBm25ActiveIteratorCompare_def Let_def)

lemma active_less_trans: "active_less its a b \<Longrightarrow> active_less its b c \<Longrightarrow> active_less its a c"
  by (auto simp: active_less_iff)

lemma active_less_asym: "active_less its a b \<Longrightarrow> \<not> active_less its b a"
  by (auto simp: active_less_iff)

definition terms_distinct :: "iter list \<Rightarrow> nat list \<Rightarrow> bool" where
  "terms_distinct its active = distinct (map (\<lambda>a. it_termId (its ! a)) active)"

lemma active_less_total: "terms_distinct its active \<Longrightarrow> a \<in> set active \<Longrightarrow> b \<in> set active \<Longrightarrow> a \<noteq> b \<Longrightarrow>
    active_less its a b \<or> active_less its b a"
  by (force simp: active_less_iff terms_distinct_def distinct_map inj_on_def)

lemma active_strict: "terms_distinct its active \<Longrightarrow> strict_on (active_less its) (set active)"
  unfolding strict_on_def
  by (intro conjI ballI impI) (blast dest: active_less_asym active_less_trans active_less_total)+

lemma shift_up_spec:
  "j < length xs \<Longrightarrow> shift_up its x xs j = (ys, j') \<Longrightarrow>
   j' \<le> j \<and> length ys = length xs \<and> ys[j' := x] = take j' xs @ x # drop j' (take j xs) @ drop (Suc j) xs \<and>
   (j' = 0 \<or> \<not> active_less its x (xs ! (j' - 1))) \<and> (\<forall>m. j' \<le> m \<and> m < j \<longrightarrow> active_less its x (xs ! m)) \<and> (j' = j \<longrightarrow> ys = xs)"
proof (induction j arbitrary: xs)
  case 0
  then show ?case by (cases xs) auto
next
  case (Suc j)
  show ?case
  proof (cases "active_less its x (xs ! j)")
    case False
    then show ?thesis using Suc.prems by (auto simp: upd_conv_take_nth_drop)
  next
    case True
    let ?xs = "xs[Suc j := xs ! j]"
    have ih: "j' \<le> j" "length ys = length xs" "ys[j' := x] = take j' ?xs @ x # drop j' (take j ?xs) @ drop (Suc j) ?xs"
      "j' = 0 \<or> \<not> active_less its x (?xs ! (j' - 1))" "\<forall>m. j' \<le> m \<and> m < j \<longrightarrow> active_less its x (?xs ! m)"
      using Suc.IH [of ?xs] Suc.prems True by simp_all
    have "drop (Suc j) ?xs = xs ! j # drop (Suc (Suc j)) xs"
      using Suc.prems(1) by (simp add: drop_update_swap upd_conv_take_nth_drop)
    moreover have "drop j' (take (Suc j) xs) = drop j' (take j xs) @ [xs ! j]"
      using ih(1) Suc.prems(1) by (simp add: take_Suc_conv_app_nth)
    ultimately have "ys[j' := x] = take j' xs @ x # drop j' (take (Suc j) xs) @ drop (Suc (Suc j)) xs"
      using ih(1,3) by simp
    moreover have "\<forall>m. j' \<le> m \<and> m < Suc j \<longrightarrow> active_less its x (xs ! m)"
      using ih(5) True by (auto simp: less_Suc_eq)
    ultimately show ?thesis using ih by auto
  qed
qed

lemma insert_at_spec:
  assumes i: "i < length xs" and srt: "sorted_wrt (active_less its) (take i xs)" and d: "distinct xs" "terms_distinct its xs"
  shows "mset (insert_at its xs i) = mset xs" "length (insert_at its xs i) = length xs"
    "sorted_wrt (active_less its) (take (Suc i) (insert_at its xs i))" "drop (Suc i) (insert_at its xs i) = drop (Suc i) xs"
proof -
  let ?x = "xs ! i"
  obtain ys j where sh: "shift_up its ?x xs i = (ys, j)" by fastforce
  note sp = shift_up_spec [OF i sh]
  have ins: "insert_at its xs i = take j xs @ ?x # drop j (take i xs) @ drop (Suc i) xs"
    using sp by (auto simp: insert_at_def sh Let_def)
  have split: "xs = take j xs @ drop j (take i xs) @ ?x # drop (Suc i) xs"
    using sp i by (metis append.assoc append_take_drop_id id_take_nth_drop min.absorb1 take_take)
  show "mset (insert_at its xs i) = mset xs" unfolding ins by (subst (5) split) simp
  then show len: "length (insert_at its xs i) = length xs" by (metis size_mset)
  have pre: "take (Suc i) (insert_at its xs i) = take j xs @ ?x # drop j (take i xs)"
    using sp i unfolding ins by (simp add: min_def Suc_diff_le)
  show "drop (Suc i) (insert_at its xs i) = drop (Suc i) xs" using sp i unfolding ins by (simp add: Suc_diff_le)
  have s: "sorted_wrt (active_less its) (take j xs @ drop j (take i xs))"
    using srt sp by (metis append_take_drop_id min.absorb1 take_take)
  have lo: "active_less its a ?x" if a: "a \<in> set (take j xs)" for a
  proof -
    obtain m where m: "m < j" "a = xs ! m" using a sp i by (auto simp: in_set_conv_nth)
    have "\<not> active_less its ?x (xs ! (j - 1))" using sp m by auto
    moreover have "xs ! (j - 1) \<noteq> ?x" using d(1) m sp i by (auto simp: nth_eq_iff_index_eq)
    ultimately have l: "active_less its (xs ! (j - 1)) ?x"
      using active_less_total [OF d(2), of "xs ! (j - 1)" ?x] m sp i by auto
    show ?thesis
    proof (cases "m = j - 1")
      case False
      then have "active_less its (take i xs ! m) (take i xs ! (j - 1))"
        using m sp i by (intro sorted_wrt_nth_less [OF srt]) auto
      moreover have "j - 1 < i" using m sp by linarith
      ultimately have "active_less its (xs ! m) (xs ! (j - 1))" using m sp by simp
      then show ?thesis using active_less_trans [OF _ l] m by blast
    qed (use l m in simp)
  qed
  have hi: "active_less its ?x b" if b: "b \<in> set (drop j (take i xs))" for b
  proof -
    obtain m where "m < i - j" "b = xs ! (j + m)" using b sp i by (auto simp: in_set_conv_nth)
    then show ?thesis using sp by auto
  qed
  show "sorted_wrt (active_less its) (take (Suc i) (insert_at its xs i))"
    unfolding pre using s lo hi by (auto simp: sorted_wrt_append)
qed

lemma refresh_fold:
  assumes "distinct xs" "terms_distinct its xs" "n \<le> length xs"
  defines "ys \<equiv> fold (\<lambda>i xs. insert_at its xs i) [1 ..< n] xs"
  shows "mset ys = mset xs \<and> sorted_wrt (active_less its) (take n ys)"
  using assms(3) unfolding ys_def
proof (induction n)
  case (Suc n)
  show ?case
  proof (cases "n = 0")
    case True
    then show ?thesis by (cases xs) auto
  next
    case False
    let ?ys = "fold (\<lambda>i xs. insert_at its xs i) [1 ..< n] xs"
    have ih: "mset ?ys = mset xs" "sorted_wrt (active_less its) (take n ?ys)" using Suc by simp_all
    have "length ?ys = length xs" "distinct ?ys" using ih(1) assms(1) by (metis size_mset, metis mset_eq_imp_distinct_iff)
    moreover have "terms_distinct its ?ys" using ih(1) assms(2) unfolding terms_distinct_def
      by (metis mset_eq_imp_distinct_iff mset_map)
    ultimately have "mset (insert_at its ?ys n) = mset ?ys" "sorted_wrt (active_less its) (take (Suc n) (insert_at its ?ys n))"
      using insert_at_spec [of n ?ys its] ih(2) Suc.prems by simp_all
    then show ?thesis using ih(1) False by simp
  qed
qed simp

lemma refresh_sorted:
  assumes "distinct active" "terms_distinct its active"
  shows "mset (PgturbohybridBm25RefreshActiveOrder its active) = mset (filter (still_active its) active)"
    "sorted_wrt (active_less its) (PgturbohybridBm25RefreshActiveOrder its active)"
proof -
  let ?xs = "filter (still_active its) active"
  let ?ys = "PgturbohybridBm25RefreshActiveOrder its active"
  have "distinct ?xs" "terms_distinct its ?xs" using assms by (auto simp: terms_distinct_def distinct_map_filter)
  from refresh_fold [OF this order_refl] have r: "mset ?ys = mset ?xs" "sorted_wrt (active_less its) (take (length ?xs) ?ys)"
    by (simp_all add: PgturbohybridBm25RefreshActiveOrder_def Let_def)
  then show "mset ?ys = mset ?xs" by blast
  then have "length ?ys = length ?xs" by (metis size_mset)
  then show "sorted_wrt (active_less its) ?ys" using r(2) by simp
qed

section \<open>The search in the dense candidates\<close>

lemma dense_search_spec:
  assumes "sorted_wrt (<) (map de_nodeId dense)" "right \<le> length dense"
  shows "(\<forall>i. left \<le> i \<and> i < right \<and> de_nodeId (dense ! i) = n \<longrightarrow> dense_search dense n left right = de_contribution (dense ! i)) \<and>
    ((\<forall>i. left \<le> i \<and> i < right \<longrightarrow> de_nodeId (dense ! i) \<noteq> n) \<longrightarrow> dense_search dense n left right = Fin 0)"
  using assms
proof (induction dense n left right rule: dense_search.induct)
  case (1 dense n left right)
  let ?mid = "left + (right - left) div 2"
  have lt: "de_nodeId (dense ! i) < de_nodeId (dense ! j)" if "i < j" "j < length dense" for i j
    using sorted_wrt_nth_less [OF 1(3), of i j] that by simp
  show ?case
  proof (cases "left < right")
    case False
    then show ?thesis by (auto simp: dense_search.simps [of dense n left right])
  next
    case True
    have mid: "left \<le> ?mid" "?mid < right" using True by linarith+
    consider (eq) "de_nodeId (dense ! ?mid) = n" | (lo) "de_nodeId (dense ! ?mid) < n" | (hi) "n < de_nodeId (dense ! ?mid)" by force
    then show ?thesis
    proof cases
      case eq
      have s: "dense_search dense n left right = de_contribution (dense ! ?mid)"
        using eq True by (simp add: dense_search.simps [of dense n left right] Let_def)
      have "i = ?mid" if "i < right" "de_nodeId (dense ! i) = n" for i
        using lt [of i ?mid] lt [of ?mid i] that mid 1(4) eq by (cases i ?mid rule: linorder_cases) auto
      then show ?thesis unfolding s using eq mid by blast
    next
      case lo
      then have s: "dense_search dense n left right = dense_search dense n (?mid + 1) right"
        using True by (subst dense_search.simps) (auto simp: Let_def)
      have "?mid + 1 \<le> i" if "i < right" "de_nodeId (dense ! i) = n" for i
        using lt [of i ?mid] that mid 1(4) lo by (cases i ?mid rule: linorder_cases) auto
      then show ?thesis using 1(1) [OF True refl refl] lo 1(3,4) mid unfolding s by auto
    next
      case hi
      then have s: "dense_search dense n left right = dense_search dense n left ?mid"
        using True by (subst dense_search.simps) (auto simp: Let_def)
      have "i < ?mid" if "i < right" "de_nodeId (dense ! i) = n" for i
        using lt [of ?mid i] that mid 1(4) hi by (cases i ?mid rule: linorder_cases) auto
      then show ?thesis using 1(2) [OF True refl refl] hi 1(3,4) mid unfolding s by auto
    qed
  qed
qed

section \<open>The scan ends\<close>

text \<open>
  The state of a scan on well formed chunks: the active iterators are distinct, have postings
  left and stand in ascending order of their nodes.
\<close>

definition wand_inv :: "iter_env \<Rightarrow> wand_state \<Rightarrow> bool" where
  "wand_inv env w \<longleftrightarrow> cgood env (w_cache w) \<and> its_good env (w_its w) \<and> distinct (w_active w) \<and>
     terms_distinct (w_its w) (w_active w) \<and> set (w_active w) \<subseteq> {..<length (w_its w)} \<and>
     (\<forall>a \<in> set (w_active w). live_rest env (w_its w ! a) \<noteq> []) \<and> sorted_wrt (active_less (w_its w)) (w_active w)"

definition postings_left :: "iter_env \<Rightarrow> iter list \<Rightarrow> nat" where
  "postings_left env its = sum_list (map (\<lambda>it. length (live_rest env it)) its)"

text \<open>Iterators that have only moved forward.\<close>

definition moved :: "iter_env \<Rightarrow> iter list \<Rightarrow> iter list \<Rightarrow> bool" where
  "moved env its its' \<longleftrightarrow> length its' = length its \<and> its_good env its' \<and>
     (\<forall>i < length its. iter_tag (its' ! i) = iter_tag (its ! i) \<and>
        length (live_rest env (its' ! i)) \<le> length (live_rest env (its ! i)))"

lemma moved_refl: "its_good env its \<Longrightarrow> moved env its its"
  by (simp add: moved_def)

lemma moved_trans: "moved env a b \<Longrightarrow> moved env b c \<Longrightarrow> moved env a c"
  unfolding moved_def by (metis le_trans)

lemma moved_update:
  assumes "its_good env its" "a < length its" "placed env it" "iter_tag it = iter_tag (its ! a)"
    "length (live_rest env it) \<le> length (live_rest env (its ! a))"
  shows "moved env its (its[a := it])"
  using assms its_good_update [OF assms(1,3)] by (auto simp: moved_def nth_list_update)

lemma sum_list_less:
  "length xs = length ys \<Longrightarrow> (\<And>i. i < length xs \<Longrightarrow> xs ! i \<le> (ys ! i :: nat)) \<Longrightarrow> j < length xs \<Longrightarrow> xs ! j < ys ! j \<Longrightarrow>
   sum_list xs < sum_list ys"
proof (induction xs ys arbitrary: j rule: list_induct2)
  case (Cons x xs y ys)
  have le: "xs ! i \<le> ys ! i" if "i < length xs" for i using Cons.prems(1) [of "Suc i"] that by simp
  have "x \<le> y" using Cons.prems(1) [of 0] by simp
  have "sum_list xs \<le> sum_list ys" using le Cons.hyps by (intro sum_list_mono2) auto
  then show ?case using Cons.prems \<open>x \<le> y\<close> Cons.IH [OF le] by (cases j) (auto intro: add_le_less_mono add_less_le_mono)
qed simp

lemma moved_less:
  assumes "moved env its its'" "j < length its" "length (live_rest env (its' ! j)) < length (live_rest env (its ! j))"
  shows "postings_left env its' < postings_left env its"
  unfolding postings_left_def using assms by (intro sum_list_less [of _ _ j]) (auto simp: moved_def)

lemma dropWhile_length: "length (dropWhile P xs) \<le> length xs"
  by (induction xs) auto

lemma seek_moves:
  assumes "cgood env cache" "its_good env its" "a < length its"
  shows "\<exists>ok cache' it'. PgturbohybridBm25IteratorSeekTo env cache (its ! a) t = Inr (ok, cache', it') \<and> cgood env cache' \<and>
    moved env its (its[a := it']) \<and> live_rest env it' = dropWhile (\<lambda>p. p_nodeId p < t) (live_rest env (its ! a))"
proof -
  obtain cache' it' where s: "PgturbohybridBm25IteratorSeekTo env cache (its ! a) t = Inr (live_rest env it' \<noteq> [], cache', it')"
    "cgood env cache'" "placed env it'" "live_rest env it' = dropWhile (\<lambda>p. p_nodeId p < t) (live_rest env (its ! a))"
    "iter_tag it' = iter_tag (its ! a)"
    using pc.seek_law [OF assms(1) its_good_nth [OF assms(2,3)], of t] by blast
  then have "moved env its (its[a := it'])"
    using moved_update [OF assms(2,3) s(3,5)] dropWhile_length by metis
  then show ?thesis using s by blast
qed

lemma seek_active_moves:
  assumes "cgood env cache" "its_good env its" "set as \<subseteq> {..<length its}"
  shows "\<exists>cache' its'. seek_active env t as (cache, its) = Inr (cache', its') \<and> cgood env cache' \<and> moved env its its' \<and>
    (\<forall>a \<in> set as. length (live_rest env (its' ! a)) \<le> length (dropWhile (\<lambda>p. p_nodeId p < t) (live_rest env (its ! a))))"
  using assms
proof (induction as arbitrary: cache its)
  case Nil
  then show ?case by (simp add: seek_active_def moved_refl)
next
  case (Cons a as)
  then obtain ok cache1 it1 where s: "PgturbohybridBm25IteratorSeekTo env cache (its ! a) t = Inr (ok, cache1, it1)"
    "cgood env cache1" "moved env its (its[a := it1])" "live_rest env it1 = dropWhile (\<lambda>p. p_nodeId p < t) (live_rest env (its ! a))"
    using seek_moves [OF Cons.prems(1,2), of a t] by auto
  have "its_good env (its[a := it1])" "set as \<subseteq> {..<length (its[a := it1])}" using s(3) Cons.prems(3) by (auto simp: moved_def)
  from Cons.IH [OF s(2) this] obtain cache2 its2 where
    r: "seek_active env t as (cache1, its[a := it1]) = Inr (cache2, its2)" "cgood env cache2" "moved env (its[a := it1]) its2"
    "\<forall>b \<in> set as. length (live_rest env (its2 ! b)) \<le> length (dropWhile (\<lambda>p. p_nodeId p < t) (live_rest env (its[a := it1] ! b)))" by blast
  have a: "a < length its" using Cons.prems(3) by simp
  have la: "length (live_rest env (its2 ! a)) \<le> length (dropWhile (\<lambda>p. p_nodeId p < t) (live_rest env (its ! a)))"
    using r(3) a s(4) by (auto simp: moved_def dest: spec [of _ a])
  have "length (live_rest env (its2 ! b)) \<le> length (dropWhile (\<lambda>p. p_nodeId p < t) (live_rest env (its ! b)))" if "b \<in> set (a # as)" for b
    using that la r(4) by (cases "b = a") auto
  then show ?case using s(1) r(1,2) moved_trans [OF s(3) r(3)] by (auto simp: seek_active_def)
qed

lemma advance_matching_moves:
  assumes "cgood env cache" "its_good env its" "set as \<subseteq> {..<length its}" "\<forall>a \<in> set as. node_live env n"
  shows "\<exists>cache' its'. advance_matching env n as (cache, its) = Inr (cache', its') \<and> cgood env cache' \<and> moved env its its' \<and>
    (\<forall>a \<in> set as. live_rest env (its ! a) \<noteq> [] \<and> PgturbohybridBm25IteratorNodeId (its ! a) = n \<longrightarrow>
       length (live_rest env (its' ! a)) < length (live_rest env (its ! a)))"
  using assms
proof (induction as arbitrary: cache its)
  case Nil
  then show ?case by (simp add: advance_matching_def moved_refl)
next
  case (Cons a as)
  have a: "a < length its" "placed env (its ! a)" using Cons.prems(2,3) its_good_nth by auto
  have nm: "n \<noteq> 0xffffffff" using Cons.prems(4) live_not_max by auto
  let ?step = "if PgturbohybridBm25IteratorNodeId (its ! a) = n
     then bindE (PgturbohybridBm25IteratorAdvancePast env cache (its ! a) n) (\<lambda>(_, cache1, it1). Inr (cache1, its[a := it1]))
     else Inr (cache, its)"
  have "\<exists>cache1 its1. ?step = Inr (cache1, its1) \<and> cgood env cache1 \<and> moved env its its1 \<and>
      (\<forall>b. b \<noteq> a \<longrightarrow> its1 ! b = its ! b) \<and>
      (live_rest env (its ! a) \<noteq> [] \<and> PgturbohybridBm25IteratorNodeId (its ! a) = n \<longrightarrow>
       length (live_rest env (its1 ! a)) < length (live_rest env (its ! a)))"
  proof (cases "PgturbohybridBm25IteratorNodeId (its ! a) = n")
    case True
    then have "live_rest env (its ! a) \<noteq> []" using pc.node_end [OF a(2)] nm by auto
    then obtain p ps where p: "live_rest env (its ! a) = p # ps" by (cases "live_rest env (its ! a)") auto
    then have "p_nodeId p = n" using True pc.node_law [OF a(2)] by simp
    then obtain cache1 it1 where "PgturbohybridBm25IteratorAdvancePast env cache (its ! a) n = Inr (ps \<noteq> [], cache1, it1)" "cgood env cache1"
      "placed env it1" "iter_tag it1 = iter_tag (its ! a)" "live_rest env it1 = ps"
      using advance_past_spec [OF Cons.prems(1) a(2) p] by blast
    then show ?thesis using True a p moved_update [OF Cons.prems(2) a(1), of it1]
      by (intro exI [of _ cache1] exI [of _ "its[a := it1]"]) simp
  next
    case False
    then show ?thesis using Cons.prems(1,2) moved_refl by auto
  qed
  then obtain cache1 its1 where st: "?step = Inr (cache1, its1)" "cgood env cache1" "moved env its its1" "\<forall>b. b \<noteq> a \<longrightarrow> its1 ! b = its ! b"
    "live_rest env (its ! a) \<noteq> [] \<and> PgturbohybridBm25IteratorNodeId (its ! a) = n \<longrightarrow>
       length (live_rest env (its1 ! a)) < length (live_rest env (its ! a))" by blast
  have "its_good env its1" "set as \<subseteq> {..<length its1}" "\<forall>b \<in> set as. node_live env n"
    using st(3) Cons.prems(3,4) by (auto simp: moved_def)
  from Cons.IH [OF st(2) this] obtain cache2 its2 where
    r: "advance_matching env n as (cache1, its1) = Inr (cache2, its2)" "cgood env cache2" "moved env its1 its2"
    "\<forall>b \<in> set as. live_rest env (its1 ! b) \<noteq> [] \<and> PgturbohybridBm25IteratorNodeId (its1 ! b) = n \<longrightarrow>
       length (live_rest env (its2 ! b)) < length (live_rest env (its1 ! b))" by blast
  have "length (live_rest env (its2 ! a)) \<le> length (live_rest env (its1 ! a))" using r(3) st(3) a(1) by (simp add: moved_def)
  then have "length (live_rest env (its2 ! b)) < length (live_rest env (its ! b))"
    if "b \<in> set (a # as)" "live_rest env (its ! b) \<noteq> []" "PgturbohybridBm25IteratorNodeId (its ! b) = n" for b
    using that st(4,5) r(4) by (cases "b = a") auto
  moreover have "advance_matching env n (a # as) (cache, its) = Inr (cache2, its2)"
    using st(1) r(1) by (simp add: advance_matching_def)
  ultimately show ?case using r(2) moved_trans [OF st(3) r(3)] by blast
qed

lemma node_of_rest:
  "placed env it \<Longrightarrow> PgturbohybridBm25IteratorNodeId it = (case live_rest env it of [] \<Rightarrow> 0xffffffff | p # _ \<Rightarrow> p_nodeId p)"
  using pc.node_law [of env it] pc.node_end [of env it] by (cases "live_rest env it") auto

text \<open>Seeking to a node no active iterator has passed leaves their postings in place.\<close>

lemma score_pivot_moves:
  assumes "cgood env cache" "its_good env its" "set as \<subseteq> {..<length its}" "\<forall>a \<in> set as. n \<le> PgturbohybridBm25IteratorNodeId (its ! a)"
  shows "\<exists>sc cache' its'. score_pivot f meta env n as (s0, cache, its) = Inr (sc, cache', its') \<and> cgood env cache' \<and>
    moved env its its' \<and> (\<forall>i < length its. live_rest env (its' ! i) = live_rest env (its ! i))"
  using assms
proof (induction as arbitrary: s0 cache its)
  case Nil
  then show ?case by (cases s0) (simp add: score_pivot_def moved_refl)
next
  case (Cons a as)
  then obtain ok cache1 it1 where s: "PgturbohybridBm25IteratorSeekTo env cache (its ! a) n = Inr (ok, cache1, it1)"
    "cgood env cache1" "moved env its (its[a := it1])" "live_rest env it1 = dropWhile (\<lambda>p. p_nodeId p < n) (live_rest env (its ! a))"
    using seek_moves [OF Cons.prems(1,2), of a n] by auto
  have a: "a < length its" "placed env (its ! a)" using Cons.prems(2,3) its_good_nth by auto
  have "n \<le> PgturbohybridBm25IteratorNodeId (its ! a)" using Cons.prems(4) by simp
  then have "live_rest env it1 = live_rest env (its ! a)"
    using node_of_rest [OF a(2)] s(4) by (cases "live_rest env (its ! a)") auto
  then have lr: "\<forall>i < length its. live_rest env (its[a := it1] ! i) = live_rest env (its ! i)"
    using a(1) by (simp add: nth_list_update)
  have g: "its_good env (its[a := it1])" "set as \<subseteq> {..<length (its[a := it1])}" using s(3) Cons.prems(3) by (auto simp: moved_def)
  have n: "\<forall>b \<in> set as. n \<le> PgturbohybridBm25IteratorNodeId (its[a := it1] ! b)"
  proof
    fix b assume b: "b \<in> set as"
    then have "b < length its" "placed env (its ! b)" "placed env (its[a := it1] ! b)"
      using Cons.prems(2,3) g its_good_nth by auto
    then show "n \<le> PgturbohybridBm25IteratorNodeId (its[a := it1] ! b)"
      using node_of_rest lr Cons.prems(4) b by (metis list.set_intros(2))
  qed
  obtain sc1 where step: "score_pivot f meta env n (a # as) (s0, cache, its) = score_pivot f meta env n as (sc1, cache1, its[a := it1])"
    using s(1) by (cases s0) (auto simp: score_pivot_def)
  from Cons.IH [OF s(2) g n, of sc1] obtain sc cache' its' where
    "score_pivot f meta env n as (sc1, cache1, its[a := it1]) = Inr (sc, cache', its')" "cgood env cache'"
    "moved env (its[a := it1]) its'" "\<forall>i < length its. live_rest env (its' ! i) = live_rest env (its[a := it1] ! i)" by auto
  then show ?case using step lr moved_trans [OF s(3)]
    by (intro exI [of _ sc] exI [of _ cache'] exI [of _ its']) simp
qed

lemma moved_terms_distinct:
  assumes "moved env its its'" "terms_distinct its as" "set as \<subseteq> {..<length its}"
  shows "terms_distinct its' as"
proof -
  have "map (\<lambda>a. it_termId (its' ! a)) as = map (\<lambda>a. it_termId (its ! a)) as"
    using assms(1,3) by (auto simp: moved_def iter_tag_def)
  then show ?thesis using assms(2) unfolding terms_distinct_def by (rule ssubst)
qed

lemma with_order_inv:
  assumes inv: "wand_inv env w" and cg: "cgood env cache" and mv: "moved env (w_its w) its"
  shows "wand_inv env (with_order (cache, its) w)"
proof -
  let ?act = "PgturbohybridBm25RefreshActiveOrder its (w_active w)"
  have act: "distinct (w_active w)" "terms_distinct its (w_active w)" "set (w_active w) \<subseteq> {..<length its}"
    using inv mv moved_terms_distinct [OF mv] by (auto simp: wand_inv_def moved_def)
  note r = refresh_sorted [OF act(1,2)]
  have set: "set ?act = set (filter (still_active its) (w_active w))" using r(1) by (metis set_mset_mset)
  have "distinct ?act" using r(1) act(1) by (metis distinct_filter mset_eq_imp_distinct_iff)
  moreover have "terms_distinct its ?act"
    using r(1) act(2) unfolding terms_distinct_def
    by (metis distinct_map_filter mset_eq_imp_distinct_iff mset_map)
  moreover have "live_rest env (its ! a) \<noteq> []" if "a \<in> set ?act" for a
  proof -
    have "still_active its a" "placed env (its ! a)" using that set act(3) mv its_good_nth by (auto simp: moved_def)
    then show ?thesis using pc.node_end by (auto simp: still_active_def)
  qed
  ultimately show ?thesis using cg mv r(2) set act(3) by (auto simp: wand_inv_def with_order_def moved_def)
qed

lemma find_pivot_range:
  "find_pivot f meta its acc k threshold ub i as = Some j \<Longrightarrow> i \<le> j \<and> j < i + length as"
proof (induction as arbitrary: ub i)
  case (Cons a as)
  show ?case using Cons.prems Cons.IH [of _ "Suc i"] by (fastforce simp: Let_def split: if_splits)
qed simp

lemma active_nodes:
  assumes "wand_inv env w" "i < length (w_active w)"
  shows "w_active w ! i < length (w_its w)" "placed env (w_its w ! (w_active w ! i))"
    "node_live env (PgturbohybridBm25IteratorNodeId (w_its w ! (w_active w ! i)))"
    "PgturbohybridBm25IteratorNodeId (w_its w ! (w_active w ! 0)) \<le> PgturbohybridBm25IteratorNodeId (w_its w ! (w_active w ! i))"
proof -
  have m: "w_active w ! i \<in> set (w_active w)" using assms(2) by simp
  then show l: "w_active w ! i < length (w_its w)" using assms(1) by (auto simp: wand_inv_def)
  then show p: "placed env (w_its w ! (w_active w ! i))" using assms(1) its_good_nth by (auto simp: wand_inv_def)
  obtain q qs where q: "live_rest env (w_its w ! (w_active w ! i)) = q # qs"
    using assms(1) m by (cases "live_rest env (w_its w ! (w_active w ! i))") (auto simp: wand_inv_def)
  then have "q \<in> set (live_rest env (w_its w ! (w_active w ! i)))" by simp
  then have "node_live env (p_nodeId q)" by (simp add: live_rest_def)
  then show "node_live env (PgturbohybridBm25IteratorNodeId (w_its w ! (w_active w ! i)))" using node_of_rest [OF p] q by simp
  show "PgturbohybridBm25IteratorNodeId (w_its w ! (w_active w ! 0)) \<le> PgturbohybridBm25IteratorNodeId (w_its w ! (w_active w ! i))"
  proof (cases "i = 0")
    case False
    then have "active_less (w_its w) (w_active w ! 0) (w_active w ! i)"
      using assms by (intro sorted_wrt_nth_less) (auto simp: wand_inv_def)
    then show ?thesis by (auto simp: active_less_iff)
  qed simp
qed

lemma wand_candidate_progress:
  assumes inv: "wand_inv env w" and ne: "w_active w \<noteq> []"
    and pn: "PgturbohybridBm25IteratorNodeId (w_its w ! (w_active w ! 0)) = pivotNode"
    and r: "wand_candidate f meta env q fb k threshold pivotNode w = Inr w'"
  shows "wand_inv env w' \<and> postings_left env (w_its w') < postings_left env (w_its w)"
proof -
  let ?its = "w_its w" and ?act = "w_active w"
  have cg: "cgood env (w_cache w)" "its_good env ?its" "set ?act \<subseteq> {..<length ?its}" using inv by (auto simp: wand_inv_def)
  have live: "\<forall>a \<in> set ?act. node_live env pivotNode" using active_nodes(3) [OF inv, of 0] ne pn by simp
  have a0: "?act ! 0 \<in> set ?act" using ne by simp
  have low: "\<forall>a \<in> set ?act. pivotNode \<le> PgturbohybridBm25IteratorNodeId (?its ! a)"
    using active_nodes(4) [OF inv] pn by (auto simp: in_set_conv_nth)
  have l0: "?act ! 0 < length ?its" using active_nodes(1) [OF inv, of 0] ne by simp
  have r0: "live_rest env (?its ! (?act ! 0)) \<noteq> []" using inv a0 by (auto simp: wand_inv_def)
  have adv: "\<exists>cache' its'. advance_matching env pivotNode ?act (cache, its) = Inr (cache', its') \<and> cgood env cache' \<and>
      moved env ?its its' \<and> postings_left env its' < postings_left env ?its"
    if g: "cgood env cache" "moved env ?its its" "\<forall>i < length ?its. live_rest env (its ! i) = live_rest env (?its ! i)" for cache its
  proof -
    have i: "its_good env its" "set ?act \<subseteq> {..<length its}" "length its = length ?its" using g(2) cg(3) by (auto simp: moved_def)
    obtain cache' its' where a: "advance_matching env pivotNode ?act (cache, its) = Inr (cache', its')" "cgood env cache'" "moved env its its'"
      "\<forall>a \<in> set ?act. live_rest env (its ! a) \<noteq> [] \<and> PgturbohybridBm25IteratorNodeId (its ! a) = pivotNode \<longrightarrow>
         length (live_rest env (its' ! a)) < length (live_rest env (its ! a))"
      using advance_matching_moves [OF g(1) i(1,2) live] by blast
    have e0: "live_rest env (its ! (?act ! 0)) = live_rest env (?its ! (?act ! 0))" using g(3) l0 by blast
    have "PgturbohybridBm25IteratorNodeId (its ! (?act ! 0)) = pivotNode"
      using node_of_rest [of env "its ! (?act ! 0)"] node_of_rest [of env "?its ! (?act ! 0)"] e0 pn
        its_good_nth [OF i(1)] its_good_nth [OF cg(2)] l0 i(3) by simp
    then have "length (live_rest env (its' ! (?act ! 0))) < length (live_rest env (?its ! (?act ! 0)))"
      using a(4) a0 r0 e0 by auto
    then show ?thesis using a(1,2) moved_less [OF moved_trans [OF g(2) a(3)] l0] moved_trans [OF g(2) a(3)] by blast
  qed
  show ?thesis
  proof (cases "PgturbohybridBm25FusedScoreBoundCanPruneCandidate f fb pivotNode (candidate_bound f meta ?its pivotNode (Fin 0) ?act)")
    case True
    obtain cache' its' where a: "advance_matching env pivotNode ?act (w_cache w, ?its) = Inr (cache', its')" "cgood env cache'"
      "moved env ?its its'" "postings_left env its' < postings_left env ?its"
      using adv [OF cg(1) moved_refl [OF cg(2)]] by blast
    then have "w' = with_order (cache', its') w" using r True by (simp add: wand_candidate_def)
    then show ?thesis using with_order_inv [OF inv a(2,3)] a(4) by (simp add: with_order_def)
  next
    case False
    obtain sc mt m cache1 its1 where s: "score_pivot f meta env pivotNode ?act ((Fin 0, 0, False), w_cache w, ?its) = Inr ((sc, mt, m), cache1, its1)"
      "cgood env cache1" "moved env ?its its1" "\<forall>i < length ?its. live_rest env (its1 ! i) = live_rest env (?its ! i)"
      using score_pivot_moves [OF cg low, of f meta "(Fin 0, 0, False)"] by (metis prod_cases3)
    obtain cache' its' where a: "advance_matching env pivotNode ?act (cache1, its1) = Inr (cache', its')" "cgood env cache'"
      "moved env ?its its'" "postings_left env its' < postings_left env ?its" using adv [OF s(2-4)] by blast
    have "\<exists>acc1 u. w' = with_order (cache', its') (w\<lparr>w_acc := acc1, w_used := u\<rparr>)"
      using r False s(1) a(1) by (auto simp: wand_candidate_def bindE_Inr_iff)
    then obtain acc1 u where w': "w' = with_order (cache', its') (w\<lparr>w_acc := acc1, w_used := u\<rparr>)" by blast
    have "wand_inv env (w\<lparr>w_acc := acc1, w_used := u\<rparr>)" using inv by (simp add: wand_inv_def)
    then show ?thesis using with_order_inv [of env "w\<lparr>w_acc := acc1, w_used := u\<rparr>" cache' its'] a(2,3,4) w'
      by (simp add: with_order_def)
  qed
qed

lemma wand_step_progress:
  assumes inv: "wand_inv env w" and r: "wand_step f meta env q fb k w = Inr (True, w')"
  shows "wand_inv env w' \<and> postings_left env (w_its w') < postings_left env (w_its w)"
proof -
  let ?its = "w_its w" and ?act = "w_active w"
  have ne: "?act \<noteq> []" using r by (auto simp: wand_step_def Let_def)
  obtain pivot where pv: "find_pivot f meta ?its (w_acc w) k (PgturbohybridBm25KthScore (w_acc w) k) (Fin 0) 0 ?act = Some pivot"
    using r ne by (auto simp: wand_step_def Let_def split: option.splits)
  have pl: "pivot < length ?act" using find_pivot_range [OF pv] by simp
  let ?n = "PgturbohybridBm25IteratorNodeId (?its ! (?act ! pivot))"
  note an = active_nodes [OF inv pl]
  have nm: "?n \<noteq> 0xffffffff" by (rule live_not_max [OF an(3)])
  show ?thesis
  proof (cases "PgturbohybridBm25IteratorNodeId (?its ! (?act ! 0)) = ?n")
    case True
    then have "wand_candidate f meta env q fb k (PgturbohybridBm25KthScore (w_acc w) k) ?n w = Inr w'"
      using r ne pv nm by (auto simp: wand_step_def Let_def bindE_Inr_iff)
    then show ?thesis using wand_candidate_progress [OF inv ne True] by blast
  next
    case False
    have cg: "cgood env (w_cache w)" "its_good env ?its" "set (take pivot ?act) \<subseteq> {..<length ?its}"
      using inv by (auto simp: wand_inv_def dest: in_set_takeD)
    obtain cache' its' where s: "seek_active env ?n (take pivot ?act) (w_cache w, ?its) = Inr (cache', its')" "cgood env cache'"
      "moved env ?its its'"
      "\<forall>a \<in> set (take pivot ?act). length (live_rest env (its' ! a)) \<le> length (dropWhile (\<lambda>p. p_nodeId p < ?n) (live_rest env (?its ! a)))"
      using seek_active_moves [OF cg] by blast
    have w': "w' = with_order (cache', its') w" using r ne pv nm False s(1) by (auto simp: wand_step_def Let_def)
    have "pivot \<noteq> 0" using False by (cases pivot) auto
    then have a0: "?act ! 0 \<in> set (take pivot ?act)" using pl by (simp add: set_take_nth)
    have l0: "?act ! 0 < length ?its" "placed env (?its ! (?act ! 0))" using active_nodes [OF inv, of 0] ne by simp_all
    have lt: "PgturbohybridBm25IteratorNodeId (?its ! (?act ! 0)) < ?n" using an(4) False by simp
    obtain p ps where p: "live_rest env (?its ! (?act ! 0)) = p # ps"
      using inv ne by (cases "live_rest env (?its ! (?act ! 0))") (auto simp: wand_inv_def)
    have "p_nodeId p < ?n" using lt node_of_rest [OF l0(2)] p by simp
    then have "length (dropWhile (\<lambda>p. p_nodeId p < ?n) (live_rest env (?its ! (?act ! 0)))) < length (live_rest env (?its ! (?act ! 0)))"
      using dropWhile_length [of "\<lambda>p. p_nodeId p < ?n" ps] by (simp add: p)
    then have "length (live_rest env (its' ! (?act ! 0))) < length (live_rest env (?its ! (?act ! 0)))"
      using s(4) a0 le_less_trans by blast
    then have "postings_left env its' < postings_left env ?its" by (rule moved_less [OF s(3) l0(1)])
    then show ?thesis using with_order_inv [OF inv s(2,3)] w' by (simp add: with_order_def)
  qed
qed

lemma wand_loop_ends: "wand_inv env w \<Longrightarrow> \<exists>r. wand_loop f meta env q fb k w = Some r"
proof (induction "postings_left env (w_its w)" arbitrary: w rule: less_induct)
  case less
  show ?case
  proof (cases "wand_step f meta env q fb k w")
    case (Inl e)
    then show ?thesis by (subst wand_loop.simps) simp
  next
    case (Inr r)
    obtain go w' where gw: "r = (go, w')" by fastforce
    show ?thesis
    proof (cases go)
      case True
      then have st: "wand_step f meta env q fb k w = Inr (True, w')" using Inr gw by simp
      then have "\<exists>r. wand_loop f meta env q fb k w' = Some r" using less wand_step_progress [OF less.prems st] by blast
      then show ?thesis using st by (subst wand_loop.simps) simp
    next
      case False
      then show ?thesis using Inr gw by (subst wand_loop.simps) simp
    qed
  qed
qed

lemma wand_init_inv:
  assumes "cgood env cache" "\<forall>t \<in> set terms. t_hasLexicon t \<longrightarrow> (\<exists>cks. stored env t cks)" "distinct (map t_termId terms)"
  shows "\<exists>its cache'. wand_init f meta env terms cache = Inr (its, cache') \<and> cgood env cache' \<and> its_good env its \<and>
    (\<forall>it \<in> set its. live_rest env it \<noteq> []) \<and> distinct (map it_termId its) \<and> it_termId ` set its \<subseteq> t_termId ` set terms"
  using assms
proof (induction terms arbitrary: cache)
  case Nil
  then show ?case by (simp add: its_good_def)
next
  case (Cons t ts)
  show ?case
  proof (cases "t_hasLexicon t")
    case False
    have "\<forall>t \<in> set ts. t_hasLexicon t \<longrightarrow> (\<exists>cks. stored env t cks)" "distinct (map t_termId ts)" using Cons.prems(2,3) by auto
    from Cons.IH [OF Cons.prems(1) this] obtain its cache' where "wand_init f meta env ts cache = Inr (its, cache')" "cgood env cache'"
      "its_good env its" "\<forall>it \<in> set its. live_rest env it \<noteq> []" "distinct (map it_termId its)" "it_termId ` set its \<subseteq> t_termId ` set ts" by blast
    then show ?thesis using False by (intro exI [of _ its] exI [of _ cache']) auto
  next
    case True
    then obtain cks where c: "stored env t cks" using Cons.prems(2) by auto
    let ?idf = "term_idf f meta (term_df t)" and ?avg = "corpusAvgDocLen f meta"
    obtain cache1 it where i: "PgturbohybridBm25IteratorInit env cache t ?idf ?avg None = Inr (live_postings env cks \<noteq> [], cache1, it)"
      "cgood env cache1" "placed env it" "live_rest env it = live_postings env cks" "iter_tag it = (t_termId t, t_matchBit t, ?idf, ?avg)"
      using init_good [OF Cons.prems(1), of t cks ?idf ?avg None] c unfolding stored_def live_postings_def by blast
    obtain its cache2 where ih: "wand_init f meta env ts cache1 = Inr (its, cache2)" "cgood env cache2" "its_good env its"
      "\<forall>it \<in> set its. live_rest env it \<noteq> []" "distinct (map it_termId its)" "it_termId ` set its \<subseteq> t_termId ` set ts"
      using Cons.IH [OF i(2)] Cons.prems(2,3) by auto
    let ?its = "if live_postings env cks \<noteq> [] then it # its else its"
    have "wand_init f meta env (t # ts) cache = Inr (?its, cache2)" using True i(1) ih(1) by simp
    moreover have "it_termId it = t_termId t" using i(5) by (simp add: iter_tag_def)
    moreover have "t_termId t \<notin> t_termId ` set ts" using Cons.prems(3) by simp
    ultimately show ?thesis using ih i(3,4)
      by (intro exI [of _ ?its] exI [of _ cache2]) (auto simp: its_good_def)
  qed
qed

lemma sort_active_inv:
  assumes "cgood env cache" "its_good env its" "\<forall>it \<in> set its. live_rest env it \<noteq> []" "distinct (map it_termId its)"
  shows "wand_inv env \<lparr>w_cache = cache, w_its = its, w_active = PgturbohybridBm25SortActiveInitial its [0 ..< length its],
    w_acc = acc, w_used = False\<rparr>"
proof -
  let ?as = "[0 ..< length its]" and ?act = "PgturbohybridBm25SortActiveInitial its [0 ..< length its]"
  have td: "terms_distinct its ?as"
  proof -
    have "map (\<lambda>a. it_termId (its ! a)) ?as = map it_termId its" by (rule nth_equalityI) simp_all
    then show ?thesis using assms(4) unfolding terms_distinct_def by (rule ssubst)
  qed
  have m: "mset ?act = mset ?as" by (simp add: PgturbohybridBm25SortActiveInitial_def)
  then have set: "set ?act = {0 ..< length its}" using mset_eq_setD [OF m] by simp
  have "terms_distinct its ?act" using m td unfolding terms_distinct_def by (metis mset_eq_imp_distinct_iff mset_map)
  moreover have "distinct ?act" using m by (metis distinct_upt mset_eq_imp_distinct_iff)
  moreover have "sorted_wrt (active_less its) ?act"
  proof (cases "length its \<le> 1")
    case True
    then show ?thesis by (cases its) (auto simp: PgturbohybridBm25SortActiveInitial_def)
  next
    case False
    have "strict_on (active_less its) (set ?as)"
      by (rule active_strict [OF td])
    then show ?thesis using False by (simp add: PgturbohybridBm25SortActiveInitial_def sorted_qsort_by)
  qed
  ultimately show ?thesis using assms set by (auto simp: wand_inv_def)
qed

section \<open>Properties\<close>

text \<open>
  Reordering the active iterators after a move is a full sort: the entries that still have
  a posting, each once, in ascending order of node and term id, exactly as sorting
  them from scratch would give, although the code only shifts the entries that moved.
\<close>

theorem refresh_active_is_sort:
  assumes "distinct active" "distinct (map (\<lambda>a. it_termId (its ! a)) active)"
  shows "PgturbohybridBm25RefreshActiveOrder its active = qsort_by (active_less its) (filter (still_active its) active)"
proof -
  let ?xs = "filter (still_active its) active"
  have td: "terms_distinct its active" using assms(2) by (simp add: terms_distinct_def)
  note r = refresh_sorted [OF assms(1) td]
  have "strict_on (active_less its) (set active)"
    by (rule active_strict [OF td])
  then have "strict_on (active_less its) (set ?xs)" by (rule strict_on_mono) auto
  then have "sorted_wrt (active_less its) (qsort_by (active_less its) ?xs)" using assms(1) by (intro sorted_qsort_by) auto
  then show ?thesis using r active_less_asym by (intro sorted_unique [where lt = "active_less its"]) auto
qed

theorem refresh_active_is_sort_witness:
  "PgturbohybridBm25RefreshActiveOrder [demo_iter, demo_iter\<lparr>it_termId := 3, it_pos := 1\<rparr>, demo_iter\<lparr>it_termId := 5, it_valid := False\<rparr>] [1, 0, 2]
    = [0, 1]"
proof -
  let ?its = "[demo_iter, demo_iter\<lparr>it_termId := 3, it_pos := 1\<rparr>, demo_iter\<lparr>it_termId := 5, it_valid := False\<rparr>]"
  have d: "distinct [1, 0, 2 :: nat]" "distinct (map (\<lambda>a. it_termId (?its ! a)) [1, 0, 2])" by (simp_all add: demo_iter_def)
  show ?thesis unfolding refresh_active_is_sort [OF d]
    by (simp add: qsort_by_def active_less_iff still_active_def PgturbohybridBm25IteratorNodeId_def demo_iter_def
        word_le_nat_alt)
qed

text \<open>
  The search for the dense contribution of a node is exact: on the array of dense
  candidates sorted by node id it returns the contribution of the node's entry, and zero
  when the node is not among them.
\<close>

theorem dense_contribution_exact:
  assumes "fb_enabled b" "fb_dense b = Some dense" "unat (fb_denseCount b) = length dense"
    and "sorted_wrt (<) (map de_nodeId dense)"
  shows "PgturbohybridBm25DenseContributionForBound (Some b) nodeId =
    (case find (\<lambda>e. de_nodeId e = nodeId) dense of None \<Rightarrow> Fin 0 | Some e \<Rightarrow> de_contribution e)"
proof -
  have e: "PgturbohybridBm25DenseContributionForBound (Some b) nodeId = dense_search dense nodeId 0 (length dense)"
    using assms by (simp add: PgturbohybridBm25DenseContributionForBound_def)
  note sp = dense_search_spec [OF assms(4) order_refl, of 0 nodeId]
  show ?thesis
  proof (cases "find (\<lambda>e. de_nodeId e = nodeId) dense")
    case None
    then have "\<forall>i. 0 \<le> i \<and> i < length dense \<longrightarrow> de_nodeId (dense ! i) \<noteq> nodeId" by (simp add: find_None_iff)
    then show ?thesis using sp None e by simp
  next
    case (Some x)
    then obtain i where "i < length dense" "de_nodeId (dense ! i) = nodeId" "x = dense ! i" by (auto simp: find_Some_iff)
    then show ?thesis using sp Some e by simp
  qed
qed

theorem dense_contribution_exact_witness:
  "PgturbohybridBm25DenseContributionForBound (Some \<lparr>fb_enabled = True, fb_alpha = Fin 0, fb_kthScore = Fin 1,
      fb_maxDenseContribution = Fin 1, fb_dense = Some [\<lparr>de_nodeId = 2, de_contribution = Fin 5\<rparr>, \<lparr>de_nodeId = 9, de_contribution = Fin 7\<rparr>],
      fb_denseCount = 2\<rparr>) 9 = Fin 7"
  by (subst dense_contribution_exact [where
        dense = "[\<lparr>de_nodeId = 2, de_contribution = Fin 5\<rparr>, \<lparr>de_nodeId = 9, de_contribution = Fin 7\<rparr>]"]) simp_all

text \<open>
  C33. The WAND scan ends on every query over well formed chunks: each round of the loop moves at
  least one iterator past a posting of a live document, whether it scores the pivot, prunes
  it by the fused bound or skips to it, and stops otherwise.
\<close>

theorem wand_scan_ends:
  assumes "cgood env cache" "\<forall>t \<in> set terms. t_hasLexicon t \<longrightarrow> (\<exists>cks. stored env t cks)" "distinct (map t_termId terms)"
  shows "\<exists>r. PgturbohybridBm25ScoreBaseWand f meta env q terms fusedBound k cache acc = Some r"
proof -
  obtain its cache' where i: "wand_init f meta env terms cache = Inr (its, cache')" "cgood env cache'" "its_good env its"
    "\<forall>it \<in> set its. live_rest env it \<noteq> []" "distinct (map it_termId its)" using wand_init_inv [OF assms] by blast
  show ?thesis using wand_loop_ends [OF sort_active_inv [OF i(2-5)]] i(1)
    by (simp add: PgturbohybridBm25ScoreBaseWand_def)
qed

theorem wand_scan_ends_witness:
  "\<exists>r. PgturbohybridBm25ScoreBaseWand demo_fpu demo_meta demo_env \<lparr>wq_query = [], wq_terms = [], wq_eval = None\<rparr>
     [demo_term] None 1 (Some hot_empty) demo_acc = Some r"
  by (rule wand_scan_ends [OF demo_cgood]) (use demo_stored_term in auto)

section \<open>Chunks behind the current ones\<close>

text \<open>
  A term with two chunks: two documents with one occurrence each, then one document with nine.
  All documents have length 1.
\<close>

definition item1 :: bytes where
  "item1 = [0x64, 0] @ put_u16 2 @ put_u32 7 @ put_u32 0 @ put_u32 1 @ put_u32 2 @ put_u32 12 @ put_u16 2 @ put_u16 1
     @ put_u16 ENCODING_OFFSET16 @ put_u16 0 @ put_u16 8 @ [0, 0] @ put_u32 0 @ [0, 0, 1, 0, 1, 0, 1, 0]"

definition item2 :: bytes where
  "item2 = [0x64, 0] @ put_u16 1 @ put_u32 7 @ put_u32 1 @ put_u32 3 @ put_u32 3 @ put_u32 0xffffffff @ put_u16 0 @ put_u16 9
     @ put_u16 ENCODING_OFFSET16 @ put_u16 0 @ put_u16 4 @ [0, 0] @ put_u32 0 @ [0, 0, 9, 0, 0, 0, 0, 0]"

definition two_env :: iter_env where
  "two_env = demo_env\<lparr>env_pages := [12 \<mapsto> \<lparr>page_nextblkno = InvalidBlockNumber, pageKind = PAGE_KIND_BM25_POSTINGS, page_id = PGTURBOHYBRID_GRAPH_PAGE_ID,
     page_items = [Some item1, Some item2]\<rparr>]\<rparr>"

definition two_term :: iter_term where
  "two_term = demo_term\<lparr>t_baseDf := 3, t_postingsChunkCount := 2\<rparr>"

definition chunk1 :: chunk where
  "chunk1 = \<lparr>ck_count = 2, ck_lastNodeId = 2, ck_maxTf = 1, ck_maxTfNormQ16 = 0, ck_maxScoreFactor = Fin 0, ck_nextBlkno = 12,
     ck_nextOffno = 2, ck_encoding = 3, ck_postings = [\<lparr>p_nodeId = 1, p_tf = 1, p_reserved = 0\<rparr>, \<lparr>p_nodeId = 2, p_tf = 1, p_reserved = 0\<rparr>]\<rparr>"

definition chunk2 :: chunk where
  "chunk2 = \<lparr>ck_count = 1, ck_lastNodeId = 3, ck_maxTf = 9, ck_maxTfNormQ16 = 0, ck_maxScoreFactor = Fin 0, ck_nextBlkno = 0xffffffff,
     ck_nextOffno = 0, ck_encoding = 3, ck_postings = [\<lparr>p_nodeId = 3, p_tf = 9, p_reserved = 0\<rparr>]\<rparr>"

lemma two_fields:
  "item1 ! 0 = 0x64" "item2 ! 0 = 0x64"
  "u32_at item1 4 = 7" "u16_at item1 2 = 2" "u32_at item1 12 = 1" "u32_at item1 16 = 2"
  "u32_at item1 20 = 12" "u16_at item1 24 = 2" "u16_at item1 26 = 1" "u16_at item1 28 = 3"
  "u16_at item1 30 = 0" "u16_at item1 32 = 8" "u32_at item1 36 = 0"
  "u32_at item2 4 = 7" "u16_at item2 2 = 1" "u32_at item2 12 = 3" "u32_at item2 16 = 3"
  "u32_at item2 20 = 0xffffffff" "u16_at item2 24 = 0" "u16_at item2 26 = 9" "u16_at item2 28 = 3"
  "u16_at item2 30 = 0" "u16_at item2 32 = 4" "u32_at item2 36 = 0"
  by (simp_all add: item1_def item2_def u16_at_def u32_at_def put_u16_def put_u32_def get_u16_def get_u32_def ENCODING_OFFSET16_def)

lemma two_payload:
  "length item1 = 48" "drop 40 item1 = [0, 0, 1, 0, 1, 0, 1, 0]"
  "length item2 = 48" "drop 40 item2 = [0, 0, 9, 0, 0, 0, 0, 0]"
  by (simp_all add: item1_def item2_def put_u16_def put_u32_def)

lemma two_decode:
  "PgturbohybridBm25DecodePostingsTuple item1 = Some (ck_postings chunk1)"
  "PgturbohybridBm25DecodePostingsTuple item2 = Some (ck_postings chunk2)"
  by (simp_all add: PgturbohybridBm25DecodePostingsTuple_def two_fields two_payload off_encoding_def off_payload_def
      PgturbohybridBm25PostingsTupleSize_def MAXALIGN_def ENCODING_OFFSET16_def ENCODING_TFNORM_Q16_def
      ENCODING_MASK_def decode_data_def add_norms_def get_u16_def chunk1_def chunk2_def)

lemma two_read:
  "read_chunk (env_pages two_env) 7 12 1 = Inr (Some chunk1)"
  "read_chunk (env_pages two_env) 7 12 2 = Inr (Some chunk2)"
  using two_fields two_decode
  by (simp_all add: read_chunk_def page_item_def check_tuple_def decode_tuple_def two_env_def
      PgturbohybridBm25PageIsKind_def PAGE_KIND_BM25_POSTINGS_def PAGE_KIND_MASK_def POSTINGS_TUPLE_TYPE_def
      chunk_of_def off_encoding_def float4_of_bits_def max_u16_def chunk1_def chunk2_def)

lemma two_stored: "stored two_env two_term [chunk1, chunk2]"
proof -
  have "stored_chunks (env_pages two_env) 7 (Suc (Suc 0)) 12 1 = Some [chunk1, chunk2]"
    using two_read by (simp add: valid_pointer_def InvalidBlockNumber_def MaxOffsetNumber_def)
      (simp add: chunk1_def chunk2_def chunk_ok_def)
  moreover have n: "unat (max (t_postingsChunkCount two_term) 1) = Suc (Suc 0)" by (simp add: two_term_def)
  moreover have "ascending (all_postings [chunk1, chunk2])" by (simp add: ascending_def all_postings_def chunk1_def chunk2_def)
  ultimately show ?thesis unfolding stored_def n by (simp add: two_term_def demo_term_def del: stored_chunks.simps)
qed

text \<open>The iterator on the first chunk, at each of its postings.\<close>

definition two_iter :: "fpu \<Rightarrow> u16 \<Rightarrow> iter" where
  "two_iter f pos = \<lparr>it_termId = 7, it_baseDf = 3, it_matchBit = 1, it_idf = term_idf f demo_meta 3, it_avgDocLen = corpusAvgDocLen f demo_meta,
     it_chunkLimit = 2, it_chunkNo = 1, it_blkno = 12, it_offno = 2, it_postings = ck_postings chunk1, it_postingsCapacity = 2, it_count = 2,
     it_pos = pos, it_maxTf = 1, it_maxTfNormQ16 = 0, it_maxScoreFactor = Fin 0, it_lastNodeId = 2, it_nextBlkno = 12,
     it_nextOffno = 2, it_valid = True, it_stats = None\<rparr>"

lemma two_load: "PgturbohybridBm25IteratorLoadChunk two_env None
    (iter_zero two_term (term_idf f demo_meta 3) (corpusAvgDocLen f demo_meta) None) = Inr (True, None, two_iter f 0)"
  using two_read(1)
  by (simp add: PgturbohybridBm25IteratorLoadChunk_def iter_zero_def two_term_def demo_term_def valid_pointer_def
      InvalidBlockNumber_def MaxOffsetNumber_def PgturbohybridBm25HotPostingsCacheLookup_def alloc_postings_ok
      PgturbohybridBm25HotPostingsCacheStore_def fill_chunk_def two_iter_def)
    (simp add: chunk1_def)

lemma two_live: "node_live two_env 1" "node_live two_env 2" "node_live two_env 3"
  by (simp_all add: node_live_def two_env_def demo_env_def)

lemma two_advance:
  "PgturbohybridBm25IteratorAdvanceValid two_env None (two_iter f 0) = Inr (True, None, two_iter f 0)"
  "PgturbohybridBm25IteratorAdvanceValid two_env None (two_iter f 1) = Inr (True, None, two_iter f 1)"
  using two_live
  by (simp_all add: PgturbohybridBm25IteratorAdvanceValid_def)
    (simp_all add: two_iter_def skip_postings.simps chunk1_def)

lemma two_seek:
  "PgturbohybridBm25IteratorSeekTo two_env None (two_iter f 0) 1 = Inr (True, None, two_iter f 0)"
  "PgturbohybridBm25IteratorSeekTo two_env None (two_iter f 0) 2 = Inr (True, None, two_iter f 1)"
proof -
  have "skip_postings (\<lambda>p. p_nodeId p < 1) (two_iter f 0) = two_iter f 0"
    by (subst skip_postings.simps) (simp add: two_iter_def chunk1_def)
  moreover have "skip_postings (\<lambda>p. p_nodeId p < 2) (two_iter f 0) = two_iter f 1"
    by (subst skip_postings.simps, simp add: two_iter_def chunk1_def count_stat_def, subst skip_postings.simps) simp
  ultimately show "PgturbohybridBm25IteratorSeekTo two_env None (two_iter f 0) 1 = Inr (True, None, two_iter f 0)"
    "PgturbohybridBm25IteratorSeekTo two_env None (two_iter f 0) 2 = Inr (True, None, two_iter f 1)"
    using two_advance by (simp_all add: PgturbohybridBm25IteratorSeekTo_def two_iter_def)
qed

definition two_query :: wand_query where
  "two_query = \<lparr>wq_query = [QI_VAL False []], wq_terms = [],
     wq_eval = Some \<lparr>ev_shape = QUERY_SINGLE, ev_mode = BOOLEAN_EVAL_SINGLE, ev_requiredMask = 1\<rparr>\<rparr>"

text \<open>
  The score of a term in a document of length 1 with \<open>tf\<close> occurrences, in the arithmetic \<open>f\<close>; the bound of the
  first chunk is by definition the score of its documents.
\<close>

definition two_score :: "fpu \<Rightarrow> u16 \<Rightarrow> cdouble" where
  "two_score f tf = PgturbohybridBm25PostingScore f demo_meta (term_idf f demo_meta 3) (corpusAvgDocLen f demo_meta) tf 1"

lemma two_scores:
  "iter_score f demo_meta two_env (two_iter f 0) \<lparr>p_nodeId = 1, p_tf = 1, p_reserved = 0\<rparr> = two_score f 1"
  "PgturbohybridBm25IteratorUpperBound f demo_meta (two_iter f pos) = two_score f 1"
  "n \<in> {1, 2, 3} \<Longrightarrow> posting_score f demo_meta two_env two_term \<lparr>p_nodeId = n, p_tf = tf, p_reserved = 0\<rparr> = two_score f tf"
  by (auto simp: iter_score_def posting_score_def PgturbohybridBm25IteratorUpperBound_def PgturbohybridBm25BlockUpperBound_def
      PgturbohybridBm25PostingScoreDecoded_def META_FLAG_TFNORM_Q16_def demo_meta_def two_score_def two_iter_def two_env_def demo_env_def
      two_term_def demo_term_def term_df_def)

text \<open>The arithmetic: adding to zero is exact, a document of the first chunk has a positive score, and nine occurrences score more than one.\<close>

definition two_arithmetic :: "fpu \<Rightarrow> rat \<Rightarrow> rat \<Rightarrow> bool" where
  "two_arithmetic f x y \<longleftrightarrow> (\<forall>a. f_add f (Fin 0) (Fin a) = Fin a) \<and> two_score f 1 = Fin x \<and> two_score f 9 = Fin y \<and> 0 < x \<and> x < y"

text \<open>Exact arithmetic is one, whatever the logarithm, as long as it is positive above one: the scores are \<open>L\<close> and \<open>33 / 17 * L\<close>.\<close>

lemma exact_two_arithmetic:
  assumes "\<forall>a b. f_add f (Fin a) (Fin b) = Fin (a + b) \<and> f_sub f (Fin a) (Fin b) = Fin (a - b) \<and>
     f_mul f (Fin a) (Fin b) = Fin (a * b) \<and> (b \<noteq> 0 \<longrightarrow> f_div f (Fin a) (Fin b) = Fin (a / b))"
    and "f_of_u64 f 5 = Fin 5" "f_of_u64 f 0 = Fin 0" "f_log f (Fin (12 / 7)) = Fin L" "0 < L"
  shows "two_arithmetic f L (33 / 17 * L)"
proof -
  have "corpusAvgDocLen f demo_meta = Fin 1" "term_idf f demo_meta 3 = Fin L"
    using assms by (simp_all add: corpusAvgDocLen_def corpusDocCount_def term_idf_def demo_meta_def of_u32_def dmax_def)
  then show ?thesis using assms
    by (simp add: two_arithmetic_def two_score_def PgturbohybridBm25PostingScore_def demo_meta_def of_u32_def of_u16_def dmax_def Let_def)
qed

lemmas accumulate_defs = PgturbohybridBm25AccumulatorAddTermScore_def PgturbohybridBm25AccumulatorLookup_def acc_found_def touch_node_def
  acc_set_def acc_get_def acc_mark_def fresh_entry_def PgturbohybridBm25AccumulatorUpdateTopK_def demo_acc_def Let_def
  set_heapIndex_def PgturbohybridBm25AccumulatorRefreshThreshold_def PgturbohybridBm25AccumulatorHeapSiftUp.simps

lemma two_add:
  assumes "fadd (Fin 0) (Fin x) = Fin x"
  shows "\<exists>acc1. PgturbohybridBm25AccumulatorAddTermScore fadd demo_acc 1 (Fin x) 1 = Inr acc1 \<and> acc_touched acc1 = [(1, Fin 0)] \<and>
    ae_score (acc_get acc1 1) = Fin x \<and> acc_threshold acc1 = Fin x \<and> acc_topHeapCount acc1 = 1 \<and> acc_seedThreshold acc1 = Fin 0 \<and>
    acc_topHeap acc1 = [1]"
  using assms by (simp add: accumulate_defs)

lemma sift_down_single: "acc_topHeapCount acc = 1 \<Longrightarrow> PgturbohybridBm25AccumulatorHeapSiftDown acc 0 = acc"
  by (subst PgturbohybridBm25AccumulatorHeapSiftDown.simps) (simp add: heap_smallest_def Let_def)

lemma two_add_all:
  assumes "\<And>a. fadd (Fin 0) (Fin a) = Fin a" "0 < x" "x < y"
  shows "\<exists>acc. add_all fadd demo_acc [(1, Fin x, 1), (2, Fin x, 1), (3, Fin y, 1)] = Inr acc \<and>
    acc_topHeapCount acc = 1 \<and> acc_topHeap acc = [3] \<and> ae_score (acc_get acc 3) = Fin y"
  using assms by (simp add: accumulate_defs sift_down_single)

lemma two_init: "wand_init f demo_meta two_env [two_term] None = Inr ([two_iter f 0], None)"
proof -
  have "t_hasLexicon two_term" "term_df two_term = 3" by (simp_all add: two_term_def demo_term_def term_df_def)
  then show ?thesis using two_load two_advance(1) by (simp add: PgturbohybridBm25IteratorInit_def)
qed

lemma two_node: "PgturbohybridBm25IteratorNodeId (two_iter f 0) = 1" "PgturbohybridBm25IteratorNodeId (two_iter f 1) = 2"
  by (simp_all add: PgturbohybridBm25IteratorNodeId_def two_iter_def chunk1_def word_le_nat_alt)

lemma two_current: "it_postings (two_iter f 0) ! unat (it_pos (two_iter f 0)) = \<lparr>p_nodeId = 1, p_tf = 1, p_reserved = 0\<rparr>"
  "it_matchBit (two_iter f 0) = 1" "it_valid (two_iter f pos)"
  by (simp_all add: two_iter_def chunk1_def)

lemma two_first_round:
  assumes f: "two_arithmetic f x y" and "PgturbohybridBm25AccumulatorAddTermScore (f_add f) demo_acc 1 (Fin x) 1 = Inr acc1"
  shows "wand_step f demo_meta two_env two_query None 1
      \<lparr>w_cache = None, w_its = [two_iter f 0], w_active = [0], w_acc = demo_acc, w_used = False\<rparr> =
    Inr (True, \<lparr>w_cache = None, w_its = [two_iter f 1], w_active = [0], w_acc = acc1, w_used = True\<rparr>)"
proof -
  have refresh: "PgturbohybridBm25RefreshActiveOrder [two_iter f 1] [0] = [0]"
    using two_node(2) two_current(3) [of f 1] by (simp add: PgturbohybridBm25RefreshActiveOrder_def still_active_def)
  have match: "PgturbohybridBm25MatchedQuery (wq_query two_query) (wq_terms two_query) (wq_eval two_query) 1 = Inr True"
    by (simp add: PgturbohybridBm25MatchedQuery_def two_query_def)
  have comp: "competitive demo_acc 1 x y" for x y by (simp add: competitive_def demo_acc_def)
  have fa: "f_add f (Fin 0) (Fin a) = Fin a" "two_score f 1 = Fin x" for a using f by (simp_all add: two_arithmetic_def)
  have "score_pivot f demo_meta two_env 1 [0] ((Fin 0, 0, False), None, [two_iter f 0]) = Inr ((Fin x, 1, True), None, [two_iter f 0])"
    using two_seek(1) two_node(1) two_current two_scores(1) by (simp add: score_pivot_def fa)
  moreover have "advance_matching two_env 1 [0] (None, [two_iter f 0]) = Inr (None, [two_iter f 1])"
    using two_seek(2) two_node(1) by (simp add: advance_matching_def PgturbohybridBm25IteratorAdvancePast_def)
  ultimately have "wand_candidate f demo_meta two_env two_query None 1 t 1
      \<lparr>w_cache = None, w_its = [two_iter f 0], w_active = [0], w_acc = demo_acc, w_used = False\<rparr> =
    Inr \<lparr>w_cache = None, w_its = [two_iter f 1], w_active = [0], w_acc = acc1, w_used = True\<rparr>" for t
    using match refresh assms(2) comp
    by (simp add: wand_candidate_def PgturbohybridBm25FusedScoreBoundCanPruneCandidate_def with_order_def)
  then show ?thesis using two_node(1) comp by (simp add: wand_step_def Let_def)
qed

lemma two_second_round:
  assumes f: "two_arithmetic f x y"
    and "acc_touched acc1 = [(1, Fin 0)]" "acc_threshold acc1 = Fin x" "acc_topHeapCount acc1 = 1" "acc_seedThreshold acc1 = Fin 0"
  shows "wand_step f demo_meta two_env two_query None 1
      \<lparr>w_cache = None, w_its = [two_iter f 1], w_active = [0], w_acc = acc1, w_used = True\<rparr> =
    Inr (False, \<lparr>w_cache = None, w_its = [two_iter f 1], w_active = [0], w_acc = acc1, w_used = True\<rparr>)"
proof -
  have x: "0 < x" "f_add f (Fin 0) (two_score f 1) = Fin x" using f by (simp_all add: two_arithmetic_def)
  then have "PgturbohybridBm25KthScore acc1 1 = Fin x" using assms(2-5) by (simp add: PgturbohybridBm25KthScore_def dmax_def)
  moreover have "f_add f (Fin 0) (PgturbohybridBm25IteratorUpperBound f demo_meta (two_iter f 1)) = Fin x"
    unfolding two_scores(2) by (rule x(2))
  ultimately show ?thesis using assms(2-5) by (simp add: wand_step_def Let_def competitive_def)
qed

lemma two_exhaustive:
  assumes f: "two_arithmetic f x y"
  shows "\<exists>acc. daat_terms f demo_meta two_env [two_term] demo_acc = Inr acc \<and>
    acc_topHeapCount acc = 1 \<and> acc_topHeap acc = [3] \<and> ae_score (acc_get acc 3) = Fin y"
proof -
  have l: "t_hasLexicon two_term" "t_matchBit two_term = 1" by (simp_all add: two_term_def demo_term_def)
  have "contributions f demo_meta two_env two_term (all_postings [chunk1, chunk2]) = [(1, Fin x, 1), (2, Fin x, 1), (3, Fin y, 1)]"
    using f two_live two_scores(3) [of _ f] by (simp add: contributions_def all_postings_def chunk1_def chunk2_def l two_arithmetic_def)
  moreover have "daat_terms f demo_meta two_env [two_term] demo_acc =
    add_all (f_add f) demo_acc (contributions f demo_meta two_env two_term (all_postings [chunk1, chunk2]))"
    using daat_terms_eq [of "[two_term]" two_env "\<lambda>_. [chunk1, chunk2]" f demo_meta demo_acc] two_stored l by (simp add: stored_def)
  ultimately show ?thesis using two_add_all [of "f_add f" x y] f by (simp add: two_arithmetic_def)
qed

text \<open>
  C34. The WAND scan can miss the best document. Its stopping rule compares the threshold with
  the bounds of the chunks the iterators stand in, but stops the whole scan, so the later
  chunks of the lists are never read. In an index of one term with two chunks, documents 1 and 2
  with one occurrence and document 3 with nine, and in every arithmetic in which nine occurrences score more
  than one (exact arithmetic with any logarithm is one), the scan for the best document (\<open>k = 1\<close>) ends with
  document 1 alone, while the exhaustive scan of the same index ends with document 3 and its higher score.
\<close>

theorem wand_misses_later_chunk:
  assumes "two_arithmetic f x y"
  shows "stored two_env two_term [chunk1, chunk2] \<and>
    (\<exists>w. PgturbohybridBm25ScoreBaseWand f demo_meta two_env two_query [two_term] None 1 None demo_acc = Some (Inr w) \<and>
      map fst (acc_touched (w_acc w)) = [1] \<and> acc_topHeap (w_acc w) = [1] \<and> ae_score (acc_get (w_acc w) 1) = Fin x) \<and>
    (\<exists>acc. daat_terms f demo_meta two_env [two_term] demo_acc = Inr acc \<and> acc_topHeapCount acc = 1 \<and> acc_topHeap acc = [3] \<and>
      ae_score (acc_get acc 3) = Fin y) \<and> x < y"
proof -
  have "f_add f (Fin 0) (Fin x) = Fin x" "x < y" using assms by (simp_all add: two_arithmetic_def)
  then obtain acc1 where a: "PgturbohybridBm25AccumulatorAddTermScore (f_add f) demo_acc 1 (Fin x) 1 = Inr acc1" "acc_touched acc1 = [(1, Fin 0)]"
    "ae_score (acc_get acc1 1) = Fin x" "acc_threshold acc1 = Fin x" "acc_topHeapCount acc1 = 1" "acc_seedThreshold acc1 = Fin 0" "acc_topHeap acc1 = [1]"
    using two_add [of "f_add f" x] by blast
  let ?w = "\<lparr>w_cache = None, w_its = [two_iter f 1], w_active = [0], w_acc = acc1, w_used = True\<rparr>"
  have "wand_loop f demo_meta two_env two_query None 1 ?w = Some (Inr ?w)"
    by (subst wand_loop.simps) (simp add: two_second_round [OF assms a(2,4,5,6)])
  then have "wand_loop f demo_meta two_env two_query None 1
      \<lparr>w_cache = None, w_its = [two_iter f 0], w_active = [0], w_acc = demo_acc, w_used = False\<rparr> = Some (Inr ?w)"
    by (subst wand_loop.simps) (simp add: two_first_round [OF assms a(1)])
  then have "PgturbohybridBm25ScoreBaseWand f demo_meta two_env two_query [two_term] None 1 None demo_acc = Some (Inr ?w)"
    by (simp add: PgturbohybridBm25ScoreBaseWand_def two_init PgturbohybridBm25SortActiveInitial_def del: wand_init.simps)
  then show ?thesis using a two_stored two_exhaustive [OF assms] \<open>x < y\<close> by auto
qed

lemma demo_two_arithmetic: "two_arithmetic demo_fpu 1 (33 / 17)"
  using exact_two_arithmetic [of demo_fpu 1] by (simp add: demo_fpu_def)

theorem wand_misses_later_chunk_witness:
  "\<exists>acc. daat_terms demo_fpu demo_meta two_env [two_term] demo_acc = Inr acc \<and> acc_topHeap acc = [3] \<and>
    (\<exists>w. PgturbohybridBm25ScoreBaseWand demo_fpu demo_meta two_env two_query [two_term] None 1 None demo_acc = Some (Inr w) \<and>
      acc_topHeap (w_acc w) = [1])"
  using wand_misses_later_chunk [OF demo_two_arithmetic] by blast

end
