(* ===== verification/Bm25_Pages.thy ===== *)
theory Bm25_Pages
  imports Bm25_Iterator
begin

text \<open>
  The writer of the BM25 pages (\<open>pgturbohybrid_bm25_build.c\<close>, \<open>pgturbohybrid_graph_utils.c\<close>,
  \<open>pgturbohybrid_quant_storage.c\<close>): appending items to a chain of pages of one kind, with and
  without WAL, and writing the postings of a term as a linked list of chunks. The reader of
  these chunks is in \<open>Bm25_Iterator\<close>. Buffer locks and the WAL records themselves are left
  out: a change made through a generic WAL state reaches the page when the state is finished.
\<close>

section \<open>The page routines of PostgreSQL\<close>

text \<open>
  \<open>PageGetFreeSpace\<close>, \<open>PageAddItem\<close> and the extension of the relation by a block are
  routines of PostgreSQL: parameters, with what their documentation promises. An item is put
  behind the last line pointer or into an unused one; it fits when its MAXALIGNed size does
  not exceed the reported free space; a fresh page has room for one item of the maximal
  size; a new block is numbered by the blocks before it, or extending fails.
\<close>

record bufpage =
  bp_freeSpace :: "pg_page \<Rightarrow> nat"
  bp_addItem :: "pg_page \<Rightarrow> bytes \<Rightarrow> u16 \<times> pg_page"
  bp_extend :: "nat \<Rightarrow> u32 res"

definition put_slot :: "'a option list \<Rightarrow> nat \<Rightarrow> 'a \<Rightarrow> 'a option list" where
  "put_slot xs i x = (if i < length xs then xs[i := Some x] else xs @ [Some x])"

definition free_slot :: "'a option list \<Rightarrow> nat \<Rightarrow> bool" where
  "free_slot xs i \<longleftrightarrow> i = length xs \<or> i < length xs \<and> xs ! i = None"

definition bufpage_ok :: "bufpage \<Rightarrow> bool" where
  "bufpage_ok bp \<longleftrightarrow>
     (\<forall>p item off p'. bp_addItem bp p item = (off, p') \<and> off \<noteq> 0 \<longrightarrow>
        unat off \<le> MaxOffsetNumber \<and> free_slot (page_items p) (unat off - 1) \<and>
        p' = p\<lparr>page_items := put_slot (page_items p) (unat off - 1) item\<rparr>) \<and>
     (\<forall>p item. item \<noteq> [] \<and> 8 dvd length item \<and> length item \<le> bp_freeSpace bp p \<longrightarrow> fst (bp_addItem bp p item) \<noteq> 0) \<and>
     (\<forall>p. page_items p = [] \<longrightarrow> PGTURBOHYBRID_GRAPH_MAX_SIZE \<le> bp_freeSpace bp p) \<and>
     (\<forall>n b. bp_extend bp n = Inr b \<longrightarrow> unat b = n \<and> b \<noteq> InvalidBlockNumber)"

section \<open>Relations and pages\<close>

text \<open>An index as its pages by block number.\<close>

record relation =
  rel_pages :: "u32 \<rightharpoonup> pg_page"
  rel_nblocks :: nat

definition PGTURBOHYBRID_GRAPH_PAGE_GRAPH_OP_SHIFT :: nat where "PGTURBOHYBRID_GRAPH_PAGE_GRAPH_OP_SHIFT = 8"
definition GRAPH_OP_PAGE_INIT :: u16 where "GRAPH_OP_PAGE_INIT = 1"
definition GRAPH_OP_PAGE_LINK :: u16 where "GRAPH_OP_PAGE_LINK = 2"
definition GRAPH_OP_ELEMENT_INSERT :: u16 where "GRAPH_OP_ELEMENT_INSERT = 4"

definition on_page :: "u32 \<Rightarrow> (pg_page \<Rightarrow> pg_page) \<Rightarrow> relation \<Rightarrow> relation" where
  "on_page b g rel = rel\<lparr>rel_pages := (rel_pages rel)(b := map_option g (rel_pages rel b))\<rparr>"

text \<open>A new block is all zeros.\<close>

definition PgturbohybridGraphNewBuffer :: "bufpage \<Rightarrow> relation \<Rightarrow> (u32 \<times> relation) res" where
  "PgturbohybridGraphNewBuffer bp rel =
     bindE (bp_extend bp (rel_nblocks rel)) (\<lambda>b.
       Inr (b, rel\<lparr>rel_pages := (rel_pages rel)(b \<mapsto> \<lparr>page_nextblkno = 0, pageKind = 0, page_id = 0, page_items = []\<rparr>),
                   rel_nblocks := rel_nblocks rel + 1\<rparr>))"

definition PgturbohybridGraphInitPageKind :: "u16 \<Rightarrow> pg_page \<Rightarrow> pg_page" where
  "PgturbohybridGraphInitPageKind kind page =
     \<lparr>page_nextblkno = InvalidBlockNumber,
      pageKind = kind OR push_bit PGTURBOHYBRID_GRAPH_PAGE_GRAPH_OP_SHIFT GRAPH_OP_PAGE_INIT,
      page_id = PGTURBOHYBRID_GRAPH_PAGE_ID, page_items = []\<rparr>"

definition PgturbohybridGraphMarkPageGraphOp :: "u16 \<Rightarrow> pg_page \<Rightarrow> pg_page" where
  "PgturbohybridGraphMarkPageGraphOp graphOpKind page =
     (if page_id page \<noteq> PGTURBOHYBRID_GRAPH_PAGE_ID then page
      else page\<lparr>pageKind := (pageKind page AND PAGE_KIND_MASK) OR
             push_bit PGTURBOHYBRID_GRAPH_PAGE_GRAPH_OP_SHIFT graphOpKind\<rparr>)"

definition link_page :: "u32 \<Rightarrow> pg_page \<Rightarrow> pg_page" where
  "link_page nextblkno page = PgturbohybridGraphMarkPageGraphOp GRAPH_OP_PAGE_LINK (page\<lparr>page_nextblkno := nextblkno\<rparr>)"

definition PgturbohybridGraphAppendPage :: "bufpage \<Rightarrow> u32 option \<Rightarrow> u16 \<Rightarrow> relation \<Rightarrow> (u32 \<times> relation) res" where
  "PgturbohybridGraphAppendPage bp buf kind rel =
     bindE (PgturbohybridGraphNewBuffer bp rel) (\<lambda>(newbuf, rel1).
       let rel2 = (case buf of None \<Rightarrow> rel1 | Some b \<Rightarrow> on_page b (link_page newbuf) rel1)
       in Inr (newbuf, on_page newbuf (PgturbohybridGraphInitPageKind kind) rel2))"

section \<open>Appending an item\<close>

text \<open>
  The writer's position in one kind of pages: the buffer it holds, the first block of the
  chain, and the counter of pages, where the caller has one.
\<close>

record sink =
  sk_buf :: "u32 option"
  sk_start :: u32
  sk_pages :: "u32 option"

type_synonym store = "relation \<times> sink"
type_synonym pointer = "u32 \<times> u16"

definition bindO :: "'a res option \<Rightarrow> ('a \<Rightarrow> 'b res option) \<Rightarrow> 'b res option" where
  "bindO m k = (case m of None \<Rightarrow> None | Some (Inl e) \<Rightarrow> Some (Inl e) | Some (Inr x) \<Rightarrow> k x)"

lemma bindO_simps [simp]:
  "bindO None k = None" "bindO (Some (Inl e)) k = Some (Inl e)" "bindO (Some (Inr x)) k = k x"
  by (simp_all add: bindO_def)

definition page_at :: "relation \<Rightarrow> u32 \<Rightarrow> pg_page" where
  "page_at rel b = the (rel_pages rel b)"

text \<open>\<open>PageAddItem\<close> and the mark that both writers put on the page.\<close>

definition add_to_page :: "bufpage \<Rightarrow> u32 \<Rightarrow> bytes \<Rightarrow> relation \<Rightarrow> (pointer \<times> relation) res" where
  "add_to_page bp b item rel =
     (case bp_addItem bp (page_at rel b) item of (offno, page) \<Rightarrow>
        if offno = 0 then elog ''failed to add pgturbohybrid BM25 item''
        else Inr ((b, offno), rel\<lparr>rel_pages := (rel_pages rel)
               (b \<mapsto> PgturbohybridGraphMarkPageGraphOp GRAPH_OP_ELEMENT_INSERT page)\<rparr>))"

text \<open>The walk to the last page of a chain; \<open>None\<close> when it never ends.\<close>

partial_function (option) wal_tail :: "(u32 \<rightharpoonup> pg_page) \<Rightarrow> u16 \<Rightarrow> u32 \<Rightarrow> u32 res option" where
  "wal_tail pages kind blkno =
     (case pages blkno of
        None \<Rightarrow> Some (elog ''could not read block'')
      | Some page \<Rightarrow>
        if \<not> PgturbohybridBm25PageIsKind page kind
        then Some (elog ''unexpected pgturbohybrid BM25 page kind while appending'')
        else if page_nextblkno page = InvalidBlockNumber then Some (Inr blkno)
        else wal_tail pages kind (page_nextblkno page))"

definition PgturbohybridBm25EnsureWalTail :: "bufpage \<Rightarrow> u16 \<Rightarrow> store \<Rightarrow> store res option" where
  "PgturbohybridBm25EnsureWalTail bp kind st =
     (case st of (rel, sk) \<Rightarrow>
        case sk_buf sk of
          Some b \<Rightarrow>
            if \<not> PgturbohybridBm25PageIsKind (page_at rel b) kind
            then Some (elog ''unexpected pgturbohybrid BM25 page kind while appending'')
            else Some (Inr st)
        | None \<Rightarrow>
            if sk_start sk = InvalidBlockNumber then
              Some (bindE (PgturbohybridGraphNewBuffer bp rel) (\<lambda>(b, rel1).
                Inr (on_page b (PgturbohybridGraphInitPageKind kind) rel1, sk\<lparr>sk_buf := Some b, sk_start := b\<rparr>)))
            else bindO (wal_tail (rel_pages rel) kind (sk_start sk)) (\<lambda>b. Some (Inr (rel, sk\<lparr>sk_buf := Some b\<rparr>))))"

definition count_page :: "sink \<Rightarrow> sink" where
  "count_page sk = sk\<lparr>sk_pages := map_option (\<lambda>c. c + 1) (sk_pages sk)\<rparr>"

definition PgturbohybridBm25AddWalItem :: "bufpage \<Rightarrow> u16 \<Rightarrow> bytes \<Rightarrow> store \<Rightarrow> (pointer \<times> store) res option" where
  "PgturbohybridBm25AddWalItem bp kind item st =
     (let createdStart = (sk_start (snd st) = InvalidBlockNumber)
      in bindO (PgturbohybridBm25EnsureWalTail bp kind st) (\<lambda>(rel1, sk1).
           let sk2 = (if createdStart then count_page sk1 else sk1); b = the (sk_buf sk2)
           in Some (if bp_freeSpace bp (page_at rel1 b) < length item then
                bindE (PgturbohybridGraphNewBuffer bp rel1) (\<lambda>(newbuf, rel2).
                bindE (add_to_page bp newbuf item
                         (on_page newbuf (PgturbohybridGraphInitPageKind kind) (on_page b (link_page newbuf) rel2)))
                  (\<lambda>(q, rel3). Inr (q, rel3, count_page (sk2\<lparr>sk_buf := Some newbuf\<rparr>))))
              else bindE (add_to_page bp b item rel1) (\<lambda>(q, rel2). Inr (q, rel2, sk2)))))"

definition max_item_size :: nat where
  "max_item_size = BLCKSZ - 24 - MAXALIGN 8"

definition PgturbohybridBm25AddItem :: "bufpage \<Rightarrow> bool \<Rightarrow> u16 \<Rightarrow> bytes \<Rightarrow> store \<Rightarrow> (pointer \<times> store) res option" where
  "PgturbohybridBm25AddItem bp useWal kind item st =
     (if length item > max_item_size
      then Some (Inl (Ereport ERRCODE_PROGRAM_LIMIT_EXCEEDED ''pgturbohybrid BM25 tuple exceeds page size''))
      else if useWal then PgturbohybridBm25AddWalItem bp kind item st
      else case st of (rel, sk) \<Rightarrow>
        Some (bindE (if sk_buf sk = None \<or> bp_freeSpace bp (page_at rel (the (sk_buf sk))) < length item
               then bindE (PgturbohybridGraphAppendPage bp (sk_buf sk) kind rel) (\<lambda>(newbuf, rel1).
                      Inr (rel1, count_page (sk\<lparr>sk_buf := Some newbuf,
                         sk_start := (if sk_start sk = InvalidBlockNumber then newbuf else sk_start sk)\<rparr>)))
               else Inr st) (\<lambda>(rel1, sk1).
             bindE (add_to_page bp (the (sk_buf sk1)) item rel1) (\<lambda>(q, rel2). Inr (q, rel2, sk1)))))"

section \<open>What the rest of the index sees\<close>

text \<open>The items by pointer, the kind of each page, and the link of each page.\<close>

definition item_at :: "relation \<Rightarrow> pointer \<Rightarrow> bytes option" where
  "item_at rel q = (case rel_pages rel (fst q) of None \<Rightarrow> None
     | Some p \<Rightarrow> if snd q \<noteq> 0 \<and> unat (snd q) \<le> length (page_items p) then page_items p ! (unat (snd q) - 1) else None)"

definition page_kind :: "pg_page \<Rightarrow> u16 \<times> u16" where
  "page_kind p = (page_id p, pageKind p AND PAGE_KIND_MASK)"

definition kind_at :: "relation \<Rightarrow> u32 \<Rightarrow> (u16 \<times> u16) option" where
  "kind_at rel b = map_option page_kind (rel_pages rel b)"

definition next_at :: "relation \<Rightarrow> u32 \<Rightarrow> u32 option" where
  "next_at rel b = map_option page_nextblkno (rel_pages rel b)"

abbreviation is_kind :: "relation \<Rightarrow> u16 \<Rightarrow> u32 \<Rightarrow> bool" where
  "is_kind rel kind b \<equiv> kind_at rel b = Some (PGTURBOHYBRID_GRAPH_PAGE_ID, kind)"

definition pages_wf :: "relation \<Rightarrow> bool" where
  "pages_wf rel \<longleftrightarrow> dom (rel_pages rel) = {b. unat b < rel_nblocks rel} \<and> rel_nblocks rel < 2 ^ 32"

definition kind_ok :: "u16 \<Rightarrow> bool" where
  "kind_ok kind \<longleftrightarrow> kind AND PAGE_KIND_MASK = kind"

lemma page_is_kind: "PgturbohybridBm25PageIsKind p kind \<longleftrightarrow> page_kind p = (PGTURBOHYBRID_GRAPH_PAGE_ID, kind)"
  by (simp add: PgturbohybridBm25PageIsKind_def page_kind_def)

lemma is_kind_page: "is_kind rel kind b \<Longrightarrow> rel_pages rel b = Some (page_at rel b) \<and> PgturbohybridBm25PageIsKind (page_at rel b) kind"
  by (auto simp: kind_at_def page_is_kind page_at_def)

lemma invalid_block: "pages_wf rel \<Longrightarrow> rel_pages rel InvalidBlockNumber = None"
proof -
  assume wf: "pages_wf rel"
  then have "InvalidBlockNumber \<notin> dom (rel_pages rel)" by (simp add: pages_wf_def InvalidBlockNumber_def)
  then show ?thesis by (simp add: domIff)
qed

lemma op_bits_masked: "push_bit PGTURBOHYBRID_GRAPH_PAGE_GRAPH_OP_SHIFT op AND PAGE_KIND_MASK = 0"
proof (rule bit_word_eqI)
  fix n
  have "bit PAGE_KIND_MASK n \<Longrightarrow> n < 8"
    using bit_mask_iff [where 'a = "16 word", of 8 n] by (simp add: PAGE_KIND_MASK_def mask_eq_exp_minus_1)
  then show "bit (push_bit PGTURBOHYBRID_GRAPH_PAGE_GRAPH_OP_SHIFT op AND PAGE_KIND_MASK) n = bit (0 :: u16) n"
    by (auto simp: bit_and_iff bit_push_bit_iff PGTURBOHYBRID_GRAPH_PAGE_GRAPH_OP_SHIFT_def)
qed

lemma mark_obs [simp]:
  "page_kind (PgturbohybridGraphMarkPageGraphOp op p) = page_kind p"
  "page_nextblkno (PgturbohybridGraphMarkPageGraphOp op p) = page_nextblkno p"
  "page_items (PgturbohybridGraphMarkPageGraphOp op p) = page_items p"
  using op_bits_masked [of op]
  by (simp_all add: PgturbohybridGraphMarkPageGraphOp_def page_kind_def word_bw_assocs word_ao_dist)

lemma link_obs [simp]:
  "page_kind (link_page b p) = page_kind p" "page_nextblkno (link_page b p) = b" "page_items (link_page b p) = page_items p"
  unfolding link_page_def mark_obs by (simp_all add: page_kind_def)

lemma init_obs [simp]:
  "page_nextblkno (PgturbohybridGraphInitPageKind kind p) = InvalidBlockNumber"
  "page_items (PgturbohybridGraphInitPageKind kind p) = []"
  "kind_ok kind \<Longrightarrow> page_kind (PgturbohybridGraphInitPageKind kind p) = (PGTURBOHYBRID_GRAPH_PAGE_ID, kind)"
  using op_bits_masked [of GRAPH_OP_PAGE_INIT]
  by (simp_all add: PgturbohybridGraphInitPageKind_def page_kind_def kind_ok_def word_ao_dist)

lemma append_page:
  assumes bp: "bufpage_ok bp" and wf: "pages_wf rel" and kind: "kind_ok kind"
    and buf: "\<And>b. buf = Some b \<Longrightarrow> rel_pages rel b \<noteq> None"
    and ok: "PgturbohybridGraphAppendPage bp buf kind rel = Inr (nb, rel')"
  shows "rel_pages rel nb = None" "nb \<noteq> InvalidBlockNumber" "pages_wf rel'" "item_at rel' = item_at rel"
    "kind_at rel' = (kind_at rel)(nb \<mapsto> (PGTURBOHYBRID_GRAPH_PAGE_ID, kind))"
    "next_at rel' = (case buf of None \<Rightarrow> next_at rel | Some b \<Rightarrow> (next_at rel)(b \<mapsto> nb))(nb \<mapsto> InvalidBlockNumber)"
    "page_items (page_at rel' nb) = []" "rel_pages rel' nb \<noteq> None"
proof -
  let ?z = "\<lparr>page_nextblkno = 0, pageKind = 0, page_id = 0, page_items = []\<rparr>"
  have e: "bp_extend bp (rel_nblocks rel) = Inr nb"
    and r: "rel' = on_page nb (PgturbohybridGraphInitPageKind kind)
       ((case buf of None \<Rightarrow> id | Some b \<Rightarrow> on_page b (link_page nb))
          (rel\<lparr>rel_pages := (rel_pages rel)(nb \<mapsto> ?z), rel_nblocks := rel_nblocks rel + 1\<rparr>))"
    using ok by (auto simp: PgturbohybridGraphAppendPage_def PgturbohybridGraphNewBuffer_def bindE_Inr_iff split: option.splits)
  have nb: "unat nb = rel_nblocks rel" "nb \<noteq> InvalidBlockNumber" using bp e by (auto simp: bufpage_ok_def)
  have "nb \<notin> dom (rel_pages rel)" using wf nb(1) by (simp add: pages_wf_def)
  then show new: "rel_pages rel nb = None" "nb \<noteq> InvalidBlockNumber" using nb(2) by (simp_all add: domIff)
  have ne: "b \<noteq> nb" if "buf = Some b" for b using buf [OF that] new(1) by auto
  have pg: "rel_pages rel' = (case buf of None \<Rightarrow> rel_pages rel | Some b \<Rightarrow> (rel_pages rel)(b := map_option (link_page nb) (rel_pages rel b)))
      (nb \<mapsto> PgturbohybridGraphInitPageKind kind ?z)"
    using ne by (auto simp: r on_page_def split: option.splits)
  have n: "rel_nblocks rel' = rel_nblocks rel + 1" by (simp add: r on_page_def split: option.splits)
  have "dom (rel_pages rel') = insert nb (dom (rel_pages rel))"
    using buf by (auto simp: pg split: option.splits if_splits)
  also have "\<dots> = {b. unat b < rel_nblocks rel + 1}"
    using wf nb(1) by (auto simp: pages_wf_def less_Suc_eq word_unat_eq_iff)
  finally have d: "dom (rel_pages rel') = {b. unat b < rel_nblocks rel'}" by (simp add: n)
  have "unat nb \<noteq> unat InvalidBlockNumber" using nb(2) by (simp add: word_unat_eq_iff)
  then have "rel_nblocks rel' < 2 ^ 32" using nb(1) unsigned_less [of nb, where ?'a = nat] n by (simp add: InvalidBlockNumber_def)
  then show "pages_wf rel'" using d by (simp add: pages_wf_def)
  show "item_at rel' = item_at rel"
    using new(1) by (auto simp: fun_eq_iff item_at_def pg unat_eq_zero split: option.splits)
  show "kind_at rel' = (kind_at rel)(nb \<mapsto> (PGTURBOHYBRID_GRAPH_PAGE_ID, kind))"
    using kind by (auto simp: fun_eq_iff kind_at_def pg option.map_comp comp_def split: option.splits)
  show "next_at rel' = (case buf of None \<Rightarrow> next_at rel | Some b \<Rightarrow> (next_at rel)(b \<mapsto> nb))(nb \<mapsto> InvalidBlockNumber)"
    using buf ne by (auto simp: fun_eq_iff next_at_def pg split: option.splits)
  show "page_items (page_at rel' nb) = []" "rel_pages rel' nb \<noteq> None" by (simp_all add: page_at_def pg)
qed

lemma append_page_fails:
  "PgturbohybridGraphAppendPage bp buf kind rel = Inl e \<Longrightarrow> bp_extend bp (rel_nblocks rel) = Inl e"
  by (auto simp: PgturbohybridGraphAppendPage_def PgturbohybridGraphNewBuffer_def bindE_def split: sum.splits option.splits)

lemma put_slot_nth: "free_slot xs i \<Longrightarrow> j < length (put_slot xs i x) \<Longrightarrow>
    put_slot xs i x ! j = (if j = i then Some x else xs ! j)"
  by (auto simp: put_slot_def free_slot_def nth_append less_Suc_eq)

lemma length_put_slot: "free_slot xs i \<Longrightarrow> length (put_slot xs i x) = max (length xs) (Suc i)"
  by (auto simp: put_slot_def free_slot_def)

lemma add_to_page:
  assumes bp: "bufpage_ok bp" and wf: "pages_wf rel" and p: "rel_pages rel b = Some p"
    and fits: "8 dvd length item" "length item \<le> bp_freeSpace bp p" "item \<noteq> []"
  shows "\<exists>offno rel'. add_to_page bp b item rel = Inr ((b, offno), rel') \<and> offno \<noteq> 0 \<and> unat offno \<le> MaxOffsetNumber \<and>
    item_at rel (b, offno) = None \<and> item_at rel' = (item_at rel)((b, offno) \<mapsto> item) \<and> kind_at rel' = kind_at rel \<and>
    next_at rel' = next_at rel \<and> pages_wf rel'"
proof -
  obtain offno p' where a: "bp_addItem bp p item = (offno, p')" by (cases "bp_addItem bp p item")
  have o: "offno \<noteq> 0" using bp fits a unfolding bufpage_ok_def by (metis fst_conv)
  have s: "unat offno \<le> MaxOffsetNumber" "free_slot (page_items p) (unat offno - 1)"
    "p' = p\<lparr>page_items := put_slot (page_items p) (unat offno - 1) item\<rparr>"
    using bp a o by (auto simp: bufpage_ok_def)
  let ?rel' = "rel\<lparr>rel_pages := (rel_pages rel)(b \<mapsto> PgturbohybridGraphMarkPageGraphOp GRAPH_OP_ELEMENT_INSERT p')\<rparr>"
  have n0: "unat offno > 0" using o by (simp add: unat_gt_0)
  have pk: "page_kind p' = page_kind p" "page_nextblkno p' = page_nextblkno p" by (simp_all add: s(3) page_kind_def)
  have "add_to_page bp b item rel = Inr ((b, offno), ?rel')"
    using p a o by (simp add: add_to_page_def page_at_def)
  moreover have "item_at rel (b, offno) = None"
    using s(2) p n0 by (auto simp: item_at_def free_slot_def)
  moreover have "item_at ?rel' = (item_at rel)((b, offno) \<mapsto> item)"
  proof
    fix q :: pointer
    obtain c m where q: "q = (c, m)" by (cases q)
    show "item_at ?rel' q = ((item_at rel)((b, offno) \<mapsto> item)) q"
    proof (cases "c = b \<and> m \<noteq> 0")
      case False
      then show ?thesis using q o by (auto simp: item_at_def split: option.splits)
    next
      case True
      then have m0: "unat m > 0" by (simp add: unat_gt_0)
      have eq: "m = offno \<longleftrightarrow> unat m - 1 = unat offno - 1" using m0 n0 by (auto simp: word_unat_eq_iff)
      show ?thesis
      proof (cases "unat m \<le> length (put_slot (page_items p) (unat offno - 1) item)")
        case le: True
        show ?thesis using q True p m0 le put_slot_nth [OF s(2), of "unat m - 1" item] eq length_put_slot [OF s(2), of item]
            s(2) by (auto simp: item_at_def s(3) free_slot_def)
      next
        case gt: False
        then show ?thesis using q True p m0 n0 length_put_slot [OF s(2), of item] by (auto simp: item_at_def s(3))
      qed
    qed
  qed
  moreover have "kind_at ?rel' = kind_at rel" "next_at ?rel' = next_at rel"
    using p pk by (auto simp: kind_at_def next_at_def fun_eq_iff)
  moreover have "pages_wf ?rel'" using wf p by (auto simp: pages_wf_def)
  ultimately show ?thesis using o s(1) by blast
qed

section \<open>The chain of pages of a sink\<close>

text \<open>
  The pages a sink has written form a list, linked from its first block to the page it
  appends to; the counter of pages is the length of the list.
\<close>

abbreviation linked :: "(u32 \<Rightarrow> u32 option) \<Rightarrow> u32 list \<Rightarrow> bool" where
  "linked nx \<equiv> successively (\<lambda>a b. nx a = Some b)"

definition sink_inv :: "u16 \<Rightarrow> relation \<Rightarrow> sink \<Rightarrow> u32 list \<Rightarrow> bool" where
  "sink_inv kind rel sk path \<longleftrightarrow> pages_wf rel \<and> kind_ok kind \<and> distinct path \<and>
     (\<forall>b \<in> set path. is_kind rel kind b) \<and> linked (next_at rel) path \<and>
     (path = [] \<longrightarrow> sk_buf sk = None \<and> sk_start sk = InvalidBlockNumber) \<and>
     (path \<noteq> [] \<longrightarrow> sk_start sk = hd path \<and> (sk_buf sk = None \<or> sk_buf sk = Some (last path)) \<and>
        next_at rel (last path) = Some InvalidBlockNumber) \<and>
     (\<forall>c. sk_pages sk = Some c \<longrightarrow> c = of_nat (length path))"

lemma linked_extend:
  assumes "distinct (path @ [nb])" "linked nx path" "path \<noteq> []"
  shows "linked (nx(last path \<mapsto> nb, nb \<mapsto> e)) (path @ [nb])"
proof -
  obtain xs l where p: "path = xs @ [l]" using assms(3) by (cases path rule: rev_cases) auto
  let ?nx = "nx(l \<mapsto> nb, nb \<mapsto> e)"
  have eq: "?nx a = nx a" if "a \<in> set xs" for a using that assms(1) p by auto
  have "linked ?nx xs = linked nx xs" by (rule successively_cong) (use eq in auto)
  then have "linked ?nx xs" using assms(2) p by (simp add: successively_append_iff)
  moreover have "xs = [] \<or> ?nx (last xs) = Some l"
  proof (cases "xs = []")
    case False
    then show ?thesis using eq [of "last xs"] assms(2) p by (simp add: successively_append_iff del: fun_upd_apply)
  qed simp
  moreover have "?nx l = Some nb" using assms(1) p by auto
  ultimately have "linked ?nx ((xs @ [l]) @ [nb])" by (simp add: successively_append_iff del: fun_upd_apply)
  then show ?thesis using p by (simp del: fun_upd_apply)
qed

lemma linked_frame:
  assumes "linked nx path" "\<forall>b \<in> set path. nx' b = nx b"
  shows "linked nx' path"
proof -
  have "linked nx' path = linked nx path" by (rule successively_cong) (use assms(2) in auto)
  then show ?thesis using assms(1) by simp
qed

lemma sink_append_page:
  assumes bp: "bufpage_ok bp" and inv: "sink_inv kind rel sk path" and ready: "sk_buf sk \<noteq> None \<or> path = []"
    and ok: "PgturbohybridGraphAppendPage bp (sk_buf sk) kind rel = Inr (nb, rel1)"
  shows "sink_inv kind rel1 (count_page (sk\<lparr>sk_buf := Some nb,
        sk_start := (if sk_start sk = InvalidBlockNumber then nb else sk_start sk)\<rparr>)) (path @ [nb])"
    "item_at rel1 = item_at rel" "\<forall>b. kind_at rel b \<noteq> None \<longrightarrow> kind_at rel1 b = kind_at rel b"
    "page_items (page_at rel1 nb) = []" "rel_pages rel1 nb \<noteq> None"
proof -
  have wf: "pages_wf rel" and kind: "kind_ok kind" using inv by (simp_all add: sink_inv_def)
  have buf: "sk_buf sk = (if path = [] then None else Some (last path))" using inv ready by (auto simp: sink_inv_def)
  have in_dom: "rel_pages rel b \<noteq> None" if "sk_buf sk = Some b" for b
    using that inv buf by (auto simp: sink_inv_def kind_at_def split: if_splits)
  note a = append_page [OF bp wf kind in_dom ok]
  have nb: "kind_at rel nb = None" using a(1) by (simp add: kind_at_def)
  then have new: "nb \<notin> set path" using inv by (auto simp: sink_inv_def)
  show "item_at rel1 = item_at rel" "page_items (page_at rel1 nb) = []" "rel_pages rel1 nb \<noteq> None" using a by simp_all
  show "\<forall>b. kind_at rel b \<noteq> None \<longrightarrow> kind_at rel1 b = kind_at rel b" using nb a(5) by auto
  have k: "\<forall>b \<in> set (path @ [nb]). is_kind rel1 kind b" using inv a(5) new by (auto simp: sink_inv_def)
  have l: "linked (next_at rel1) (path @ [nb])"
  proof (cases "path = []")
    case False
    then show ?thesis
      using a(6) buf linked_extend [of path nb "next_at rel" InvalidBlockNumber] inv new
      by (simp add: sink_inv_def del: fun_upd_apply)
  qed simp
  have st: "sk_start sk = InvalidBlockNumber \<longleftrightarrow> path = []"
  proof (cases "path = []")
    case False
    then have "rel_pages rel (hd path) \<noteq> None" using inv by (auto simp: sink_inv_def kind_at_def)
    moreover have "rel_pages rel InvalidBlockNumber = None"
      using invalid_block [OF wf] .
    ultimately have "hd path \<noteq> InvalidBlockNumber" by metis
    then show ?thesis using inv False by (simp add: sink_inv_def)
  qed (use inv in \<open>simp add: sink_inv_def\<close>)
  have c: "\<forall>c. map_option (\<lambda>c. c + 1) (sk_pages sk) = Some c \<longrightarrow> c = of_nat (length (path @ [nb]))"
    using inv by (auto simp: sink_inv_def)
  show "sink_inv kind rel1 (count_page (sk\<lparr>sk_buf := Some nb,
        sk_start := (if sk_start sk = InvalidBlockNumber then nb else sk_start sk)\<rparr>)) (path @ [nb])"
    using a(3,6) kind k l c st inv new by (auto simp: sink_inv_def count_page_def hd_append)
qed

text \<open>Adding without WAL; a failure is one of extending the relation.\<close>

definition added :: "u16 \<Rightarrow> bytes \<Rightarrow> relation \<Rightarrow> u32 list \<Rightarrow> pointer \<Rightarrow> store \<Rightarrow> u32 list \<Rightarrow> bool" where
  "added kind item rel path q st' path' \<longleftrightarrow>
     sink_inv kind (fst st') (snd st') path' \<and> sk_buf (snd st') = Some (fst q) \<and>
     (path' = path \<or> path' = path @ [fst q]) \<and> path' \<noteq> [] \<and> last path' = fst q \<and>
     valid_pointer (fst q) (snd q) \<and> item_at rel q = None \<and> item_at (fst st') = (item_at rel)(q \<mapsto> item) \<and>
     (\<forall>b. kind_at rel b \<noteq> None \<longrightarrow> kind_at (fst st') b = kind_at rel b)"

definition add_outcome :: "bufpage \<Rightarrow> u16 \<Rightarrow> bytes \<Rightarrow> relation \<Rightarrow> u32 list \<Rightarrow> (pointer \<times> store) res \<Rightarrow> bool" where
  "add_outcome bp kind item rel path r \<longleftrightarrow>
     (case r of Inl e \<Rightarrow> bp_extend bp (rel_nblocks rel) = Inl e
      | Inr (q, st') \<Rightarrow> \<exists>path'. added kind item rel path q st' path')"

lemma max_size_le: "PGTURBOHYBRID_GRAPH_MAX_SIZE \<le> max_item_size"
  by (simp add: PGTURBOHYBRID_GRAPH_MAX_SIZE_def max_item_size_def MAXALIGN_def)

lemma add_current:
  assumes bp: "bufpage_ok bp" and inv: "sink_inv kind rel sk path" "path \<noteq> []" "sk_buf sk = Some (last path)"
    and fits: "8 dvd length item" "length item \<le> bp_freeSpace bp (page_at rel (last path))" "item \<noteq> []"
  shows "\<exists>q rel'. add_to_page bp (last path) item rel = Inr (q, rel') \<and> added kind item rel path q (rel', sk) path"
proof -
  have k: "is_kind rel kind (last path)" using inv by (auto simp: sink_inv_def)
  note p = is_kind_page [OF this]
  have wf: "pages_wf rel" using inv(1) by (simp add: sink_inv_def)
  obtain offno rel' where a: "add_to_page bp (last path) item rel = Inr ((last path, offno), rel')"
    "offno \<noteq> 0" "unat offno \<le> MaxOffsetNumber" "item_at rel (last path, offno) = None"
    "item_at rel' = (item_at rel)((last path, offno) \<mapsto> item)" "kind_at rel' = kind_at rel" "next_at rel' = next_at rel"
    "pages_wf rel'"
    using add_to_page [OF bp wf conjunct1 [OF p] fits] by blast
  have "rel_pages rel InvalidBlockNumber = None"
    using invalid_block [OF wf] .
  then have "last path \<noteq> InvalidBlockNumber" using p by auto
  then have "added kind item rel path (last path, offno) (rel', sk) path"
    using a inv by (simp add: added_def sink_inv_def valid_pointer_def)
  then show ?thesis using a(1) by blast
qed

lemma add_plain:
  assumes bp: "bufpage_ok bp" and inv: "sink_inv kind rel sk path" and ready: "sk_buf sk \<noteq> None \<or> path = []"
    and size: "8 dvd length item" "length item \<le> PGTURBOHYBRID_GRAPH_MAX_SIZE" "item \<noteq> []"
  shows "\<exists>r. PgturbohybridBm25AddItem bp False kind item (rel, sk) = Some r \<and> add_outcome bp kind item rel path r"
proof -
  have le: "\<not> length item > max_item_size" using size(2) max_size_le by simp
  show ?thesis
  proof (cases "sk_buf sk = None \<or> bp_freeSpace bp (page_at rel (the (sk_buf sk))) < length item")
    case True
    show ?thesis
    proof (cases "PgturbohybridGraphAppendPage bp (sk_buf sk) kind rel")
      case (Inl e)
      then show ?thesis using True le append_page_fails [OF Inl]
        by (simp add: PgturbohybridBm25AddItem_def add_outcome_def)
    next
      case (Inr x)
      obtain nb rel1 where x: "x = (nb, rel1)" by (cases x)
      note a = sink_append_page [OF bp inv ready Inr [unfolded x]]
      let ?sk1 = "count_page (sk\<lparr>sk_buf := Some nb, sk_start := (if sk_start sk = InvalidBlockNumber then nb else sk_start sk)\<rparr>)"
      have b: "sk_buf ?sk1 = Some nb" by (simp add: count_page_def)
      have f: "length item \<le> bp_freeSpace bp (page_at rel1 nb)" using bp a(4) size(2) by (auto simp: bufpage_ok_def intro: order_trans)
      obtain q rel2 where q: "add_to_page bp nb item rel1 = Inr (q, rel2)" "added kind item rel1 (path @ [nb]) q (rel2, ?sk1) (path @ [nb])"
        using add_current [OF bp a(1), of item] b size(1) f size(3) by auto
      have "added kind item rel path q (rel2, ?sk1) (path @ [nb])" using q(2) a(2,3) b by (auto simp: added_def)
      then show ?thesis using True le Inr x q(1) b
        by (auto simp: PgturbohybridBm25AddItem_def add_outcome_def)
    qed
  next
    case False
    then have b: "path \<noteq> []" "sk_buf sk = Some (last path)" using inv by (auto simp: sink_inv_def)
    obtain q rel2 where q: "add_to_page bp (last path) item rel = Inr (q, rel2)" "added kind item rel path q (rel2, sk) path"
      using add_current [OF bp inv b size(1) _ size(3)] False b by auto
    then show ?thesis using False le b by (auto simp: PgturbohybridBm25AddItem_def add_outcome_def)
  qed
qed

section \<open>The writer with WAL\<close>

lemma wal_tail_chain:
  assumes "path \<noteq> []" "\<forall>b \<in> set path. is_kind rel kind b" "linked (next_at rel) path"
    "next_at rel (last path) = Some InvalidBlockNumber" "\<forall>b \<in> set path. b \<noteq> InvalidBlockNumber"
  shows "wal_tail (rel_pages rel) kind (hd path) = Some (Inr (last path))"
  using assms
proof (induction path)
  case (Cons a path)
  have k: "rel_pages rel a = Some (page_at rel a)" "PgturbohybridBm25PageIsKind (page_at rel a) kind"
    using is_kind_page [of rel a kind] Cons.prems(2) by auto
  show ?case
  proof (cases path)
    case Nil
    then have "page_nextblkno (page_at rel a) = InvalidBlockNumber" using Cons.prems(4) k(1) by (simp add: next_at_def)
    then show ?thesis using k Nil by (subst wal_tail.simps) simp
  next
    case (Cons b bs)
    have n: "page_nextblkno (page_at rel a) = b" using Cons.prems(3) Cons k(1) by (simp add: next_at_def)
    have "wal_tail (rel_pages rel) kind (hd path) = Some (Inr (last path))" using Cons.IH Cons.prems Cons by simp
    moreover have "b \<noteq> InvalidBlockNumber" using Cons.prems(5) Cons by simp
    ultimately show ?thesis using k n Cons by (subst wal_tail.simps) simp
  qed
qed simp

lemma sink_blocks:
  assumes "sink_inv kind rel sk path" "b \<in> set path"
  shows "b \<noteq> InvalidBlockNumber" "rel_pages rel b = Some (page_at rel b)" "PgturbohybridBm25PageIsKind (page_at rel b) kind"
proof -
  have k: "is_kind rel kind b" and wf: "pages_wf rel" using assms by (simp_all add: sink_inv_def)
  show "rel_pages rel b = Some (page_at rel b)" "PgturbohybridBm25PageIsKind (page_at rel b) kind" using is_kind_page [OF k] by simp_all
  then show "b \<noteq> InvalidBlockNumber" using invalid_block [OF wf] by auto
qed

lemma wal_as_append:
  "bindE (PgturbohybridGraphNewBuffer bp rel) (\<lambda>(newbuf, rel2).
     bindE (add_to_page bp newbuf item (on_page newbuf (PgturbohybridGraphInitPageKind kind) (on_page b (link_page newbuf) rel2)))
       (k newbuf)) =
   bindE (PgturbohybridGraphAppendPage bp (Some b) kind rel) (\<lambda>(newbuf, rel1). bindE (add_to_page bp newbuf item rel1) (k newbuf))"
  by (cases "PgturbohybridGraphNewBuffer bp rel") (auto simp: PgturbohybridGraphAppendPage_def)

text \<open>The sink with the last page of its chain as its buffer.\<close>

definition at_tail :: "u32 list \<Rightarrow> sink \<Rightarrow> sink" where
  "at_tail path sk = sk\<lparr>sk_buf := (if path = [] then None else Some (last path))\<rparr>"

lemma at_tail_inv: "sink_inv kind rel sk path \<Longrightarrow> sink_inv kind rel (at_tail path sk) path"
  by (auto simp: sink_inv_def at_tail_def)

lemma ensure_wal_tail:
  assumes inv: "sink_inv kind rel sk path" and p: "path \<noteq> []"
  shows "PgturbohybridBm25EnsureWalTail bp kind (rel, sk) = Some (Inr (rel, at_tail path sk))"
proof -
  have st: "sk_start sk = hd path" "sk_buf sk = None \<or> sk_buf sk = Some (last path)" using inv p by (auto simp: sink_inv_def)
  have ne: "\<forall>b \<in> set path. b \<noteq> InvalidBlockNumber" using sink_blocks [OF inv] by blast
  have k: "PgturbohybridBm25PageIsKind (page_at rel (last path)) kind" using sink_blocks [OF inv last_in_set [OF p]] by simp
  have t: "wal_tail (rel_pages rel) kind (hd path) = Some (Inr (last path))"
    by (rule wal_tail_chain) (use inv p ne in \<open>auto simp: sink_inv_def\<close>)
  have h: "hd path \<noteq> InvalidBlockNumber" using ne p by simp
  show ?thesis
  proof (cases "sk_buf sk")
    case None
    then show ?thesis using st(1) t p h by (simp add: PgturbohybridBm25EnsureWalTail_def at_tail_def)
  next
    case (Some b)
    then have "b = last path" using st(2) by simp
    then show ?thesis using Some k p by (simp add: PgturbohybridBm25EnsureWalTail_def at_tail_def)
  qed
qed

lemma keep_start: "sk_start s = v \<Longrightarrow> s\<lparr>sk_buf := x, sk_start := v, sk_pages := c\<rparr> = s\<lparr>sk_buf := x, sk_pages := c\<rparr>"
  by (cases s) simp

lemma wal_equals_plain:
  assumes bp: "bufpage_ok bp" and inv: "sink_inv kind rel sk path" and size: "length item \<le> PGTURBOHYBRID_GRAPH_MAX_SIZE"
  shows "PgturbohybridBm25AddItem bp True kind item (rel, sk) = PgturbohybridBm25AddItem bp False kind item (rel, at_tail path sk)"
proof -
  have le: "\<not> length item > max_item_size" using size max_size_le by simp
  show ?thesis
  proof (cases "path = []")
    case False
    have h: "sk_start sk \<noteq> InvalidBlockNumber" using sink_blocks [OF inv, of "hd path"] inv False by (simp add: sink_inv_def)
    have b: "sk_buf (at_tail path sk) = Some (last path)" "sk_start (at_tail path sk) = sk_start sk" using False by (simp_all add: at_tail_def)
    show ?thesis using le h b
      by (cases "PgturbohybridGraphAppendPage bp (Some (last path)) kind rel")
        (auto simp: Let_def keep_start PgturbohybridBm25AddItem_def PgturbohybridBm25AddWalItem_def ensure_wal_tail [OF inv False] wal_as_append
          count_page_def)
  next
    case True
    then have s: "sk_buf sk = None" "sk_start sk = InvalidBlockNumber" "at_tail path sk = sk"
      using inv by (auto simp: sink_inv_def at_tail_def)
    have ready: "sk_buf sk \<noteq> None \<or> path = []" using True by simp
    show ?thesis
    proof (cases "PgturbohybridGraphNewBuffer bp rel")
      case (Inl e)
      then show ?thesis using le s
        by (simp add: PgturbohybridBm25AddItem_def PgturbohybridBm25AddWalItem_def PgturbohybridBm25EnsureWalTail_def
            PgturbohybridGraphAppendPage_def)
    next
      case (Inr x)
      obtain nb rel1 where x: "x = (nb, rel1)" by (cases x)
      let ?rel2 = "on_page nb (PgturbohybridGraphInitPageKind kind) rel1"
      have a: "PgturbohybridGraphAppendPage bp (sk_buf sk) kind rel = Inr (nb, ?rel2)"
        using Inr x s by (simp add: PgturbohybridGraphAppendPage_def)
      have "page_items (page_at ?rel2 nb) = []" using sink_append_page [OF bp inv ready a] by simp
      then have "\<not> bp_freeSpace bp (page_at ?rel2 nb) < length item"
        using bp size by (auto simp: bufpage_ok_def not_less intro: order_trans)
      then show ?thesis using le s Inr x a
        by (auto simp: PgturbohybridBm25AddItem_def PgturbohybridBm25AddWalItem_def PgturbohybridBm25EnsureWalTail_def count_page_def)
    qed
  qed
qed

lemma add_law:
  assumes bp: "bufpage_ok bp" and inv: "sink_inv kind rel sk path" and ready: "useWal \<or> sk_buf sk \<noteq> None \<or> path = []"
    and size: "8 dvd length item" "length item \<le> PGTURBOHYBRID_GRAPH_MAX_SIZE" "item \<noteq> []"
  shows "\<exists>r. PgturbohybridBm25AddItem bp useWal kind item (rel, sk) = Some r \<and> add_outcome bp kind item rel path r"
proof (cases useWal)
  case True
  have "sk_buf (at_tail path sk) \<noteq> None \<or> path = []" by (simp add: at_tail_def)
  from add_plain [OF bp at_tail_inv [OF inv] this size] show ?thesis
    using True wal_equals_plain [OF bp inv size(2)] by simp
qed (use add_plain [OF bp inv _ size] ready in simp)

section \<open>Linked items\<close>

text \<open>
  Both kinds of item lists are written the same way: an item is appended, and then the item
  before it is patched to point to it. The state is seen as a map from pointers to items;
  the new items \<open>xs\<close> stand at fresh pointers \<open>qs\<close>, each linked to the next.
\<close>

definition linked_store :: "('p \<Rightarrow> 'i \<Rightarrow> 'i) \<Rightarrow> ('p \<rightharpoonup> 'i) \<Rightarrow> ('p \<rightharpoonup> 'i) \<Rightarrow> 'p list \<Rightarrow> 'i list \<Rightarrow> bool" where
  "linked_store set_next g0 g qs xs \<longleftrightarrow> length qs = length xs \<and> distinct qs \<and> (\<forall>q \<in> set qs. g0 q = None) \<and>
     (\<forall>q. q \<notin> set qs \<longrightarrow> g q = g0 q) \<and>
     (\<forall>i < length qs. g (qs ! i) = Some (if Suc i < length qs then set_next (qs ! Suc i) (xs ! i) else xs ! i))"

lemma linked_store_Nil [simp]: "linked_store sn g0 g [] [] \<longleftrightarrow> g = g0"
  by (auto simp: linked_store_def)

lemma linked_store_snoc:
  assumes l: "linked_store sn g0 g qs xs" and new: "g q = None" and g1: "g1 = g(q \<mapsto> x)"
    and g2: "g2 = (if qs = [] then g1 else g1(last qs \<mapsto> sn q (last xs)))"
  shows "linked_store sn g0 g2 (qs @ [q]) (xs @ [x])"
proof -
  have len: "length qs = length xs" and d: "distinct qs" using l by (simp_all add: linked_store_def)
  have at: "g (qs ! i) = Some (if Suc i < length qs then sn (qs ! Suc i) (xs ! i) else xs ! i)" if "i < length qs" for i
    using l that by (simp add: linked_store_def)
  have q: "q \<notin> set qs"
  proof
    assume "q \<in> set qs"
    then obtain i where "i < length qs" "qs ! i = q" by (auto simp: in_set_conv_nth)
    then show False using at [of i] new by simp
  qed
  have g0: "g0 q = None" using l new q by (simp add: linked_store_def)
  have last: "qs \<noteq> [] \<Longrightarrow> last qs = qs ! (length qs - 1)" "xs \<noteq> [] \<Longrightarrow> last xs = xs ! (length qs - 1)"
    using len by (simp_all add: last_conv_nth)
  have "g2 ((qs @ [q]) ! i) = Some (if Suc i < length (qs @ [q]) then sn ((qs @ [q]) ! Suc i) ((xs @ [x]) ! i) else (xs @ [x]) ! i)"
    if i: "i < Suc (length qs)" for i
  proof -
    consider (mid) "Suc i < length qs" | (prev) "Suc i = length qs" | (new) "i = length qs" using i by linarith
    then show ?thesis
    proof cases
      case mid
      have ne: "qs \<noteq> []" using mid by auto
      moreover have "qs ! i \<noteq> last qs" using mid d last(1) [OF ne] nth_eq_iff_index_eq [OF d, of i "length qs - 1"] by simp
      moreover have "qs ! i \<noteq> q" using q mid by auto
      ultimately show ?thesis using at [of i] mid len by (simp add: g2 g1 nth_append)
    next
      case prev
      then have ne: "qs \<noteq> []" "xs \<noteq> []" and i: "i = length qs - 1" using len by auto
      have "qs ! i = last qs" "xs ! i = last xs" using last(1) [OF ne(1)] last(2) [OF ne(2)] i by simp_all
      then show ?thesis using prev len ne by (simp add: g2 nth_append)
    next
      case new
      have "qs \<noteq> [] \<Longrightarrow> last qs \<noteq> q" using q by auto
      then show ?thesis using new len by (cases "qs = []") (auto simp: g2 g1 nth_append)
    qed
  qed
  moreover have "g2 p = g0 p" if "p \<notin> set (qs @ [q])" for p
    using that l by (cases "qs = []") (auto simp: g2 g1 linked_store_def)
  ultimately show ?thesis using len d q g0 l by (auto simp: linked_store_def)
qed

text \<open>
  What the writers of linked items need of the pages: adding puts the item at a fresh
  pointer and changes no other item, or fails; linking changes the named item only.
\<close>

locale item_store =
  fixes get :: "'s \<Rightarrow> 'p \<Rightarrow> 'i option"
    and add :: "'i \<Rightarrow> 's \<Rightarrow> ('p \<times> 's) res option"
    and link :: "'p \<Rightarrow> 'p \<Rightarrow> 's \<Rightarrow> 's res"
    and inv :: "'s \<Rightarrow> bool"
    and fits :: "'i \<Rightarrow> bool"
    and on_kind :: "'s \<Rightarrow> 'p \<Rightarrow> bool"
    and set_next :: "'p \<Rightarrow> 'i \<Rightarrow> 'i"
    and fails :: "pg_error \<Rightarrow> bool"
  assumes add_law: "inv s \<Longrightarrow> fits x \<Longrightarrow> \<exists>r. add x s = Some r \<and>
      (case r of Inl e \<Rightarrow> fails e
       | Inr (q, s') \<Rightarrow> inv s' \<and> get s q = None \<and> get s' = (get s)(q \<mapsto> x) \<and> on_kind s' q \<and> (\<forall>p. on_kind s p \<longrightarrow> on_kind s' p))"
    and link_law: "inv s \<Longrightarrow> get s p = Some x \<Longrightarrow> fits x \<Longrightarrow> \<exists>s'. link p q s = Inr s' \<and> inv s' \<and>
      get s' = (get s)(p \<mapsto> set_next q x) \<and> (\<forall>p. on_kind s p \<longrightarrow> on_kind s' p)"
begin

lemma append_linked:
  assumes inv: "inv s" and x: "fits x" and l: "linked_store set_next g0 (get s) qs xs" and xs: "\<forall>x \<in> set xs. fits x"
    and k: "\<forall>q \<in> set qs. on_kind s q"
  shows "\<exists>r. add x s = Some r \<and>
    (case r of Inl e \<Rightarrow> fails e
     | Inr (q, s1) \<Rightarrow> \<exists>s2. (if qs = [] then s2 = s1 else link (last qs) q s1 = Inr s2) \<and> inv s2 \<and>
         linked_store set_next g0 (get s2) (qs @ [q]) (xs @ [x]) \<and> (\<forall>q \<in> set (qs @ [q]). on_kind s2 q))"
proof -
  obtain r where r: "add x s = Some r" "case r of Inl e \<Rightarrow> fails e
       | Inr (q, s') \<Rightarrow> inv s' \<and> get s q = None \<and> get s' = (get s)(q \<mapsto> x) \<and> on_kind s' q \<and> (\<forall>p. on_kind s p \<longrightarrow> on_kind s' p)"
    using add_law [OF inv x] by blast
  show ?thesis
  proof (cases r)
    case (Inr v)
    obtain q s1 where v: "v = (q, s1)" by (cases v)
    have a: "inv s1" "get s q = None" "get s1 = (get s)(q \<mapsto> x)" "on_kind s1 q" "\<forall>p. on_kind s p \<longrightarrow> on_kind s1 p"
      using r(2) Inr v by simp_all
    show ?thesis
    proof (cases "qs = []")
      case True
      then have "linked_store set_next g0 (get s1) (qs @ [q]) (xs @ [x])"
        by (intro linked_store_snoc [OF l a(2) a(3)]) simp
      then show ?thesis using r(1) Inr v a True k by auto
    next
      case False
      have len: "length qs = length xs" "length qs > 0" using l False by (auto simp: linked_store_def)
      have "xs \<noteq> []" using len by auto
      then have "last qs = qs ! (length qs - 1)" "last xs = xs ! (length qs - 1)" using False len by (simp_all add: last_conv_nth)
      then have "get s (last qs) = Some (last xs)" using l len by (auto simp: linked_store_def)
      then have "get s1 (last qs) = Some (last xs)" using a(2,3) by auto
      moreover have "fits (last xs)" using xs len by auto
      ultimately obtain s2 where s2: "link (last qs) q s1 = Inr s2" "inv s2"
        "get s2 = (get s1)(last qs \<mapsto> set_next q (last xs))" "\<forall>p. on_kind s1 p \<longrightarrow> on_kind s2 p"
        using link_law [OF a(1)] by blast
      have "linked_store set_next g0 (get s2) (qs @ [q]) (xs @ [x])"
        using s2(3) False by (intro linked_store_snoc [OF l a(2) a(3)]) simp
      then show ?thesis using r(1) Inr v a s2 False k by auto
    qed
  qed (use r in auto)
qed

end

section \<open>Patching the link of an item\<close>

text \<open>The link is the six bytes from an offset of the item on that depends on its type.\<close>

definition set_next :: "nat \<Rightarrow> pointer \<Rightarrow> bytes \<Rightarrow> bytes" where
  "set_next off next item = take off item @ put_u32 (fst next) @ put_u16 (snd next) @ drop (off + 6) item"

definition set_item :: "nat \<Rightarrow> bytes \<Rightarrow> pg_page \<Rightarrow> pg_page" where
  "set_item i item page = page\<lparr>page_items := (page_items page)[i := Some item]\<rparr>"

definition link_chunk :: "u8 \<Rightarrow> nat \<Rightarrow> relation \<Rightarrow> pointer \<Rightarrow> pointer \<Rightarrow> relation res" where
  "link_chunk tupleType off rel prev next =
     (case rel_pages rel (fst prev) of
        None \<Rightarrow> elog ''could not read block''
      | Some page \<Rightarrow>
        if unat (snd prev) \<le> length (page_items page) then
          (case page_items page ! (unat (snd prev) - 1) of
             None \<Rightarrow> Inr rel
           | Some item \<Rightarrow>
               if item ! 0 = tupleType
               then Inr (on_page (fst prev) (set_item (unat (snd prev) - 1) (set_next off next item)) rel)
               else Inr rel)
        else Inr rel)"

definition PgturbohybridLinkPostingsChunk :: "relation \<Rightarrow> pointer \<Rightarrow> pointer \<Rightarrow> relation res" where
  "PgturbohybridLinkPostingsChunk = link_chunk POSTINGS_TUPLE_TYPE 20"

definition IMPACT_TUPLE_TYPE :: u8 where "IMPACT_TUPLE_TYPE = 0x67"

definition PgturbohybridLinkImpactChunk :: "relation \<Rightarrow> pointer \<Rightarrow> pointer \<Rightarrow> relation res" where
  "PgturbohybridLinkImpactChunk = link_chunk IMPACT_TUPLE_TYPE 8"

lemma link_chunk_ok:
  assumes x: "item_at rel p = Some x" and t: "x ! 0 = tupleType"
  shows "\<exists>rel'. link_chunk tupleType off rel p q = Inr rel' \<and> item_at rel' = (item_at rel)(p \<mapsto> set_next off q x) \<and>
    kind_at rel' = kind_at rel \<and> next_at rel' = next_at rel \<and> (pages_wf rel \<longrightarrow> pages_wf rel')"
proof -
  obtain b n where p: "p = (b, n)" by (cases p)
  obtain pg where pg: "rel_pages rel b = Some pg" and n: "n \<noteq> 0" "unat n \<le> length (page_items pg)"
    "page_items pg ! (unat n - 1) = Some x"
    using x by (auto simp: p item_at_def split: option.splits if_splits)
  let ?pg' = "set_item (unat n - 1) (set_next off q x) pg"
  let ?rel' = "on_page b (set_item (unat n - 1) (set_next off q x)) rel"
  have n0: "unat n > 0" using n(1) by (simp add: unat_gt_0)
  have "item_at ?rel' = (item_at rel)(p \<mapsto> set_next off q x)"
  proof
    fix r :: pointer
    obtain c m where r: "r = (c, m)" by (cases r)
    have "m \<noteq> 0 \<Longrightarrow> unat m > 0" by (simp add: unat_gt_0)
    then have "m \<noteq> 0 \<Longrightarrow> m = n \<longleftrightarrow> unat m - 1 = unat n - 1" using n0 by (auto simp: word_unat_eq_iff)
    moreover have "m \<noteq> 0 \<Longrightarrow> unat m \<le> length (page_items pg) \<Longrightarrow>
        (page_items pg)[unat n - 1 := Some (set_next off q x)] ! (unat m - 1) =
        (if unat m - 1 = unat n - 1 then Some (set_next off q x) else page_items pg ! (unat m - 1))"
      using n(2) n0 by (simp add: nth_list_update)
    ultimately show "item_at ?rel' r = ((item_at rel)(p \<mapsto> set_next off q x)) r"
      using pg n n0 by (auto simp: r p item_at_def on_page_def set_item_def)
  qed
  moreover have "kind_at ?rel' = kind_at rel" "next_at ?rel' = next_at rel"
    using pg by (auto simp: kind_at_def next_at_def fun_eq_iff on_page_def set_item_def page_kind_def)
  moreover have "pages_wf rel \<longrightarrow> pages_wf ?rel'" using pg by (auto simp: pages_wf_def on_page_def)
  moreover have "link_chunk tupleType off rel p q = Inr ?rel'" using pg n t by (simp add: link_chunk_def p)
  ultimately show ?thesis by blast
qed

lemma sink_inv_frame:
  "sink_inv kind rel sk path \<Longrightarrow> kind_at rel' = kind_at rel \<Longrightarrow> next_at rel' = next_at rel \<Longrightarrow> pages_wf rel' \<Longrightarrow>
   sink_inv kind rel' sk path"
  by (simp add: sink_inv_def)

section \<open>The pages provide linked items\<close>

definition store_inv :: "bufpage \<Rightarrow> bool \<Rightarrow> u16 \<Rightarrow> store \<Rightarrow> bool" where
  "store_inv bp useWal kind st \<longleftrightarrow> bufpage_ok bp \<and>
     (\<exists>path. sink_inv kind (fst st) (snd st) path \<and> (useWal \<or> sk_buf (snd st) \<noteq> None \<or> path = []))"

definition item_fits :: "u8 \<Rightarrow> bytes \<Rightarrow> bool" where
  "item_fits tupleType x \<longleftrightarrow> x \<noteq> [] \<and> 8 dvd length x \<and> length x \<le> PGTURBOHYBRID_GRAPH_MAX_SIZE \<and> x ! 0 = tupleType"

definition pointer_on :: "u16 \<Rightarrow> store \<Rightarrow> pointer \<Rightarrow> bool" where
  "pointer_on kind st q \<longleftrightarrow> is_kind (fst st) kind (fst q) \<and> valid_pointer (fst q) (snd q)"

definition extend_fails :: "bufpage \<Rightarrow> pg_error \<Rightarrow> bool" where
  "extend_fails bp e \<longleftrightarrow> (\<exists>n. bp_extend bp n = Inl e)"

definition link_store :: "u8 \<Rightarrow> nat \<Rightarrow> pointer \<Rightarrow> pointer \<Rightarrow> store \<Rightarrow> store res" where
  "link_store tupleType off p q st = bindE (link_chunk tupleType off (fst st) p q) (\<lambda>rel. Inr (rel, snd st))"

lemma store_add_law:
  assumes "store_inv bp useWal kind st" "item_fits t x"
  shows "\<exists>r. PgturbohybridBm25AddItem bp useWal kind x st = Some r \<and>
      (case r of Inl e \<Rightarrow> extend_fails bp e
       | Inr (q, st') \<Rightarrow> store_inv bp useWal kind st' \<and> item_at (fst st) q = None \<and>
           item_at (fst st') = (item_at (fst st))(q \<mapsto> x) \<and> pointer_on kind st' q \<and>
           (\<forall>p. pointer_on kind st p \<longrightarrow> pointer_on kind st' p))"
proof -
  obtain rel sk where st: "st = (rel, sk)" by (cases st)
  obtain path where bp: "bufpage_ok bp" and p: "sink_inv kind rel sk path" "useWal \<or> sk_buf sk \<noteq> None \<or> path = []"
    using assms(1) by (auto simp: store_inv_def st)
  obtain r where r: "PgturbohybridBm25AddItem bp useWal kind x (rel, sk) = Some r" "add_outcome bp kind x rel path r"
    using add_law [OF bp p] assms(2) by (auto simp: item_fits_def)
  show ?thesis
  proof (cases r)
    case (Inl e)
    then show ?thesis using r by (auto simp: st add_outcome_def extend_fails_def)
  next
    case (Inr v)
    obtain q st' where v: "v = (q, st')" by (cases v)
    obtain path' where a: "added kind x rel path q st' path'" using r(2) Inr v by (auto simp: add_outcome_def)
    have "store_inv bp useWal kind st'" using a bp by (auto simp: added_def store_inv_def)
    moreover have "pointer_on kind st' q"
      using a last_in_set [of path'] by (auto simp: added_def pointer_on_def sink_inv_def)
    moreover have "\<forall>p. pointer_on kind st p \<longrightarrow> pointer_on kind st' p"
      using a by (auto simp: added_def pointer_on_def st)
    ultimately show ?thesis using r(1) Inr v a by (simp add: st added_def)
  qed
qed

lemma store_link_law:
  assumes "store_inv bp useWal kind st" "item_at (fst st) p = Some x" "item_fits t x"
  shows "\<exists>st'. link_store t off p q st = Inr st' \<and> store_inv bp useWal kind st' \<and>
      item_at (fst st') = (item_at (fst st))(p \<mapsto> set_next off q x) \<and> (\<forall>p. pointer_on kind st p \<longrightarrow> pointer_on kind st' p)"
proof -
  obtain rel sk where st: "st = (rel, sk)" by (cases st)
  obtain path where bp: "bufpage_ok bp" and p: "sink_inv kind rel sk path" "useWal \<or> sk_buf sk \<noteq> None \<or> path = []"
    using assms(1) by (auto simp: store_inv_def st)
  have x0: "x ! 0 = t" using assms(3) by (simp add: item_fits_def)
  obtain rel' where r: "link_chunk t off rel p q = Inr rel'" "item_at rel' = (item_at rel)(p \<mapsto> set_next off q x)"
    "kind_at rel' = kind_at rel" "next_at rel' = next_at rel" "pages_wf rel'"
    using link_chunk_ok [OF assms(2) x0, of off q] p(1) by (auto simp: st sink_inv_def)
  have "sink_inv kind rel' sk path" by (rule sink_inv_frame [OF p(1) r(3-5)])
  then show ?thesis using r bp p(2)
    by (intro exI [of _ "(rel', sk)"]) (auto simp: st link_store_def store_inv_def pointer_on_def)
qed

interpretation ws: item_store "\<lambda>st. item_at (fst st)" "PgturbohybridBm25AddItem bp useWal kind" "link_store t off"
    "store_inv bp useWal kind" "item_fits t" "pointer_on kind" "set_next off" "extend_fails bp"
  for bp useWal kind t off
  by unfold_locales (use store_add_law store_link_law in blast)+

section \<open>Writing the postings of a term\<close>

text \<open>
  What the writer has from the collector: the options, the floating point quantization, and
  the sorted term tuples, of which it reads node id and frequency.
\<close>

record PgturbohybridBm25TermTuple =
  tt_nodeId :: u32
  tt_tf :: u16

record collector =
  co_quantize :: "u32 \<Rightarrow> u16 \<Rightarrow> u16"
  co_scoreFactor :: "u16 \<Rightarrow> u32"
  co_hasTfNorm :: bool
  co_walLoggedWrites :: bool
  co_terms :: "PgturbohybridBm25TermTuple list"

definition tuple_postings :: "collector \<Rightarrow> u32 \<Rightarrow> u32 \<Rightarrow> posting list" where
  "tuple_postings co startIndex endIndex =
     map (\<lambda>t. \<lparr>p_nodeId = tt_nodeId t, p_tf = tt_tf t, p_reserved = 0\<rparr>)
       (take (unat endIndex - unat startIndex) (drop (unat startIndex) (co_terms co)))"

text \<open>The pointer of the item, its size, and the store after it.\<close>

definition PgturbohybridWritePostingsChunk ::
    "bufpage \<Rightarrow> collector \<Rightarrow> u32 \<Rightarrow> u32 \<Rightarrow> u32 \<Rightarrow> u32 \<Rightarrow> store \<Rightarrow> (pointer \<times> u32 \<times> store) res option" where
  "PgturbohybridWritePostingsChunk bp co termId chunkNo startIndex endIndex st =
     bindO (Some (PgturbohybridWritePostingsChunkData (co_quantize co) (co_scoreFactor co) (co_hasTfNorm co) termId chunkNo
              (tuple_postings co startIndex endIndex))) (\<lambda>item.
     bindO (PgturbohybridBm25AddItem bp (co_walLoggedWrites co) PAGE_KIND_BM25_POSTINGS item st) (\<lambda>(q, st1).
     Some (Inr (q, of_nat (length item), st1))))"

record wp_state =
  wp_first :: pointer
  wp_prev :: pointer
  wp_bytes :: u32
  wp_chunks :: u32
  wp_store :: store

definition write_round :: "bufpage \<Rightarrow> collector \<Rightarrow> u32 \<Rightarrow> u32 \<Rightarrow> u32 \<Rightarrow> wp_state \<Rightarrow> (u32 \<times> wp_state) res option" where
  "write_round bp co termId endIndex chunkStart ws =
     (let chunkEnd = min (chunkStart + of_nat PgturbohybridBm25MaxPostingsPerChunk) endIndex
      in bindO (PgturbohybridWritePostingsChunk bp co termId (wp_chunks ws) chunkStart chunkEnd (wp_store ws)) (\<lambda>(q, bytes, st1).
         bindO (Some (if fst (wp_prev ws) \<noteq> InvalidBlockNumber
                then bindE (PgturbohybridLinkPostingsChunk (fst st1) (wp_prev ws) q) (\<lambda>rel. Inr (rel, snd st1))
                else Inr st1)) (\<lambda>st2.
         Some (Inr (chunkEnd, \<lparr>wp_first = (if snd (wp_first ws) = 0 then q else wp_first ws), wp_prev = q,
           wp_bytes = wp_bytes ws + bytes, wp_chunks = wp_chunks ws + 1, wp_store = st2\<rparr>)))))"

partial_function (option) write_loop :: "bufpage \<Rightarrow> collector \<Rightarrow> u32 \<Rightarrow> u32 \<Rightarrow> u32 \<Rightarrow> wp_state \<Rightarrow> wp_state res option" where
  "write_loop bp co termId endIndex chunkStart ws =
     (if chunkStart < endIndex then
        (case write_round bp co termId endIndex chunkStart ws of
           None \<Rightarrow> None
         | Some (Inl e) \<Rightarrow> Some (Inl e)
         | Some (Inr (chunkEnd, ws')) \<Rightarrow> write_loop bp co termId endIndex chunkEnd ws')
      else Some (Inr ws))"

text \<open>The pointer of the first chunk, bytes and number of chunks, and the store.\<close>

definition PgturbohybridWritePostings ::
    "bufpage \<Rightarrow> collector \<Rightarrow> u32 \<Rightarrow> u32 \<Rightarrow> u32 \<Rightarrow> store \<Rightarrow> (pointer \<times> u32 \<times> u32 \<times> store) res option" where
  "PgturbohybridWritePostings bp co termId startIndex endIndex st =
     bindO (write_loop bp co termId endIndex startIndex
              \<lparr>wp_first = (InvalidBlockNumber, 0), wp_prev = (InvalidBlockNumber, 0), wp_bytes = 0, wp_chunks = 0, wp_store = st\<rparr>)
       (\<lambda>ws. Some (Inr (wp_first ws, wp_bytes ws, wp_chunks ws, wp_store ws)))"

section \<open>A written chunk reads back\<close>

lemma set_next_nth: "off + 6 \<le> length x \<Longrightarrow> i < off \<or> off + 6 \<le> i \<Longrightarrow> i < length x \<Longrightarrow> set_next off q x ! i = x ! i"
  by (auto simp: set_next_def nth_append)

lemma length_set_next [simp]: "off + 6 \<le> length x \<Longrightarrow> length (set_next off q x) = length x"
  by (simp add: set_next_def)

lemma set_next_fields:
  assumes "off + 6 \<le> length x"
  shows "u32_at (set_next off q x) off = fst q" "u16_at (set_next off q x) (off + 4) = snd q"
    "i + 2 \<le> off \<or> off + 6 \<le> i \<and> i + 2 \<le> length x \<Longrightarrow> u16_at (set_next off q x) i = u16_at x i"
    "i + 4 \<le> off \<or> off + 6 \<le> i \<and> i + 4 \<le> length x \<Longrightarrow> u32_at (set_next off q x) i = u32_at x i"
    "drop (off + 6) (set_next off q x) = drop (off + 6) x"
proof -
  have l: "length (take off x) = off" using assms by simp
  show "u32_at (set_next off q x) off = fst q"
    unfolding set_next_def by (rule u32_at_put) (use l in simp)
  show "u16_at (set_next off q x) (off + 4) = snd q"
    using u16_at_put [of "off + 4" "take off x @ put_u32 (fst q)" "snd q" "drop (off + 6) x"] l by (simp add: set_next_def)
  show "i + 2 \<le> off \<or> off + 6 \<le> i \<and> i + 2 \<le> length x \<Longrightarrow> u16_at (set_next off q x) i = u16_at x i"
    using assms by (auto simp: u16_at_def set_next_nth)
  show "i + 4 \<le> off \<or> off + 6 \<le> i \<and> i + 4 \<le> length x \<Longrightarrow> u32_at (set_next off q x) i = u32_at x i"
    using assms by (auto simp: u32_at_def set_next_nth)
  show "drop (off + 6) (set_next off q x) = drop (off + 6) x" using assms by (simp add: set_next_def)
qed

lemma decode_set_next:
  assumes "off_payload \<le> length x"
  shows "PgturbohybridBm25DecodePostingsTuple (set_next 20 q x) = PgturbohybridBm25DecodePostingsTuple x"
proof -
  have l: "20 + 6 \<le> length x" using assms by (simp add: off_payload_def)
  note f = set_next_fields [OF l]
  have d: "drop n (set_next 20 q x) = drop n x" if "26 \<le> n" for n
    using arg_cong [OF f(5), of "drop (n - 26)"] that by (simp add: drop_drop)
  have "u16_at (set_next 20 q x) 2 = u16_at x 2" "u32_at (set_next 20 q x) 12 = u32_at x 12"
    "u16_at (set_next 20 q x) 32 = u16_at x 32" "u16_at (set_next 20 q x) off_encoding = u16_at x off_encoding"
    "drop off_payload (set_next 20 q x) = drop off_payload x" "drop off_encoding (set_next 20 q x) = drop off_encoding x"
    "length (set_next 20 q x) = length x"
    using assms l f(3) [of 2] f(4) [of 12] f(3) [of 32] f(3) [of off_encoding] d [of off_payload] d [of off_encoding]
    by (simp_all add: off_payload_def off_encoding_def)
  then show ?thesis by (simp only: PgturbohybridBm25DecodePostingsTuple_def)
qed

lemma header_more [codec_simps]:
  "(postings_header n t c f l m e q p s @ r) ! 0 = 0x64"
  "u32_at (postings_header n t c f l m e q p s @ r) 4 = t"
  "u32_at (postings_header n t c f l m e q p s @ r) 16 = l"
  "u32_at (postings_header n t c f l m e q p s @ r) 20 = InvalidBlockNumber"
proof -
  show "u32_at (postings_header n t c f l m e q p s @ r) 20 = InvalidBlockNumber"
    using u32_at_put [of 20 "[0x64, 0] @ put_u16 n @ put_u32 t @ put_u32 c @ put_u32 f @ put_u32 l" "0xffffffff"]
    by (simp add: postings_header_def InvalidBlockNumber_def)
qed (simp_all add: postings_header_def u16_at_def u32_at_def put_u16_def put_u32_def get_put_u16 get_put_u32)

lemma written_chunk:
  assumes ps: "ps \<noteq> []" "length ps \<le> PgturbohybridBm25MaxPostingsPerChunk" "sorted (map p_nodeId ps)"
  shows "\<exists>x. PgturbohybridWritePostingsChunkData quantize scoreFactor h termId chunkNo ps = Inr x \<and> item_fits POSTINGS_TUPLE_TYPE x \<and>
    off_payload \<le> length x \<and> PgturbohybridBm25DecodePostingsTuple x = Some (map (decoded quantize h) ps) \<and>
    u32_at x 4 = termId \<and> u16_at x 2 = of_nat (length ps) \<and> u32_at x 16 = p_nodeId (last ps) \<and> u32_at x 20 = InvalidBlockNumber"
proof -
  obtain x where x: "PgturbohybridWritePostingsChunkData quantize scoreFactor h termId chunkNo ps = Inr x"
    "PgturbohybridBm25DecodePostingsTuple x = Some (map (decoded quantize h) ps)"
    using write_decode [OF ps] by blast
  note fit = write_fits [OF ps(2) x(1)]
  obtain m e q p s r where f: "x = postings_header (of_nat (length ps)) termId chunkNo (p_nodeId (hd ps)) (p_nodeId (last ps)) m e q p s @ r"
    using x(1) by (auto simp: PgturbohybridWritePostingsChunkData_def Let_def bindE_Inr_iff)
  then have "off_payload \<le> length x" by (simp add: header_fields)
  moreover from this have "x \<noteq> []" by (auto simp: off_payload_def)
  moreover have "x ! 0 = POSTINGS_TUPLE_TYPE" by (simp add: f header_more POSTINGS_TUPLE_TYPE_def)
  moreover have "u32_at x 4 = termId" "u16_at x 2 = of_nat (length ps)" "u32_at x 16 = p_nodeId (last ps)"
    "u32_at x 20 = InvalidBlockNumber" by (simp_all add: f codec_simps)
  ultimately show ?thesis using x fit by (auto simp: item_fits_def)
qed

text \<open>A chunk as the reader gets it from the linked item.\<close>

lemma read_written:
  assumes x: "off_payload \<le> length x" "PgturbohybridBm25DecodePostingsTuple x = Some (map (decoded quantize h) ps)"
    "x ! 0 = POSTINGS_TUPLE_TYPE" "u32_at x 4 = termId" "u16_at x 2 = of_nat (length ps)" "u32_at x 16 = p_nodeId (last ps)"
    and ps: "ps \<noteq> []" "length ps \<le> PgturbohybridBm25MaxPostingsPerChunk"
    and item: "item_at rel q = Some (case next of Some n \<Rightarrow> set_next 20 n x | None \<Rightarrow> x)"
    and on: "pointer_on PAGE_KIND_BM25_POSTINGS (rel, sk) q"
  shows "\<exists>ck. read_chunk (rel_pages rel) termId (fst q) (snd q) = Inr (Some ck) \<and> chunk_ok ck \<and>
    ck_postings ck = map (decoded quantize h) ps \<and> (\<forall>n. next = Some n \<longrightarrow> ck_nextBlkno ck = fst n \<and> ck_nextOffno ck = snd n)"
proof -
  let ?y = "case next of Some n \<Rightarrow> set_next 20 n x | None \<Rightarrow> x"
  have l: "20 + 6 \<le> length x" using x(1) by (simp add: off_payload_def)
  note f = set_next_fields [OF l]
  have x0: "x \<noteq> []" using l by auto
  have y: "?y ! 0 = POSTINGS_TUPLE_TYPE" "u32_at ?y 4 = termId" "u16_at ?y 2 = of_nat (length ps)"
    "u32_at ?y 16 = p_nodeId (last ps)" "PgturbohybridBm25DecodePostingsTuple ?y = Some (map (decoded quantize h) ps)"
    using x f(3) [of 2] f(4) [of 4] f(4) [of 16] decode_set_next [OF x(1)] l set_next_nth [OF l, of 0] x0
    by (auto split: option.splits)
  have n: "\<forall>n. next = Some n \<longrightarrow> u32_at ?y 20 = fst n \<and> u16_at ?y 24 = snd n" using f(1,2) by simp
  have c0: "(of_nat (length ps) :: u16) \<noteq> 0"
  proof
    assume "(of_nat (length ps) :: u16) = 0"
    then have "unat (of_nat (length ps) :: u16) = 0" by simp
    then show False using ps max_postings_per_chunk by (simp add: unsigned_of_nat take_bit_nat_eq_self)
  qed
  have "page_item (rel_pages rel) (fst q) (snd q) = Inr (Some ?y)"
    using item on is_kind_page [of rel "fst q" PAGE_KIND_BM25_POSTINGS]
    by (auto simp: page_item_def pointer_on_def item_at_def valid_pointer_def split: if_splits option.splits)
  then have "read_chunk (rel_pages rel) termId (fst q) (snd q) = Inr (Some (chunk_of ?y (map (decoded quantize h) ps)))"
    using y c0 by (simp add: read_chunk_def check_tuple_def decode_tuple_def)
  moreover have "chunk_ok (chunk_of ?y (map (decoded quantize h) ps))"
    using y c0 ps(1) by (simp add: chunk_ok_def chunk_of_def last_map)
  ultimately show ?thesis using n by (simp add: chunk_of_def)
qed

section \<open>The written list of chunks\<close>

definition chunk_item :: "collector \<Rightarrow> u32 \<Rightarrow> bytes \<Rightarrow> posting list \<Rightarrow> bool" where
  "chunk_item co termId x ps \<longleftrightarrow> ps \<noteq> [] \<and> length ps \<le> PgturbohybridBm25MaxPostingsPerChunk \<and>
     item_fits POSTINGS_TUPLE_TYPE x \<and> off_payload \<le> length x \<and>
     PgturbohybridBm25DecodePostingsTuple x = Some (map (decoded (co_quantize co) (co_hasTfNorm co)) ps) \<and>
     u32_at x 4 = termId \<and> u16_at x 2 = of_nat (length ps) \<and> u32_at x 16 = p_nodeId (last ps)"

definition written :: "bufpage \<Rightarrow> collector \<Rightarrow> u32 \<Rightarrow> (pointer \<rightharpoonup> bytes) \<Rightarrow> posting list \<Rightarrow> wp_state \<Rightarrow> pointer list \<Rightarrow>
    bytes list \<Rightarrow> posting list list \<Rightarrow> bool" where
  "written bp co termId g0 ps ws qs xs cs \<longleftrightarrow>
     store_inv bp (co_walLoggedWrites co) PAGE_KIND_BM25_POSTINGS (wp_store ws) \<and>
     linked_store (set_next 20) g0 (item_at (fst (wp_store ws))) qs xs \<and>
     (\<forall>q \<in> set qs. pointer_on PAGE_KIND_BM25_POSTINGS (wp_store ws) q) \<and>
     list_all2 (chunk_item co termId) xs cs \<and> concat cs = ps \<and>
     wp_first ws = (if qs = [] then (InvalidBlockNumber, 0) else hd qs) \<and>
     wp_prev ws = (if qs = [] then (InvalidBlockNumber, 0) else last qs) \<and>
     wp_chunks ws = of_nat (length qs)"

lemma tuple_postings_split:
  assumes "a \<le> b" "b \<le> c"
  shows "tuple_postings co a c = tuple_postings co a b @ tuple_postings co b c"
proof -
  have "unat c - unat a = (unat b - unat a) + (unat c - unat b)" "unat b = (unat b - unat a) + unat a"
    using assms by (simp_all add: word_le_nat_alt)
  then have "take (unat c - unat a) (drop (unat a) ts) =
      take (unat b - unat a) (drop (unat a) ts) @ take (unat c - unat b) (drop (unat b) ts)" for ts :: "PgturbohybridBm25TermTuple list"
    by (metis drop_drop take_add)
  then show ?thesis by (simp add: tuple_postings_def)
qed

lemma length_tuple_postings: "unat b \<le> length (co_terms co) \<Longrightarrow> length (tuple_postings co a b) = unat b - unat a"
  by (simp add: tuple_postings_def)

lemma link_postings_store:
  "bindE (PgturbohybridLinkPostingsChunk (fst st) p q) (\<lambda>rel. Inr (rel, snd st)) = link_store POSTINGS_TUPLE_TYPE 20 p q st"
  by (simp add: link_store_def PgturbohybridLinkPostingsChunk_def)

lemma list_all2_left: "list_all2 P xs ys \<Longrightarrow> x \<in> set xs \<Longrightarrow> \<exists>y \<in> set ys. P x y"
  by (induction rule: list_all2_induct) auto

lemma write_round_ok:
  assumes w: "written bp co termId g0 (tuple_postings co startIndex chunkStart) ws qs xs cs"
    and le: "startIndex \<le> chunkStart" "chunkStart < endIndex" "unat endIndex + 503 < 2 ^ 32" "unat endIndex \<le> length (co_terms co)"
    and asc: "ascending (tuple_postings co startIndex endIndex)"
  shows "\<exists>r. write_round bp co termId endIndex chunkStart ws = Some r \<and>
    (case r of Inl e \<Rightarrow> extend_fails bp e
     | Inr (chunkEnd, ws') \<Rightarrow> chunkStart < chunkEnd \<and> chunkEnd \<le> endIndex \<and>
         (\<exists>qs xs cs. written bp co termId g0 (tuple_postings co startIndex chunkEnd) ws' qs xs cs))"
proof -
  let ?stop = "min (chunkStart + of_nat PgturbohybridBm25MaxPostingsPerChunk) endIndex"
  let ?ps = "tuple_postings co chunkStart ?stop"
  let ?add = "PgturbohybridBm25AddItem bp (co_walLoggedWrites co) PAGE_KIND_BM25_POSTINGS"
  have s: "unat (chunkStart + 503) = unat chunkStart + 503"
    using le by (simp add: unat_word_ariths word_less_nat_alt)
  then have e: "chunkStart < ?stop" "?stop \<le> endIndex" "unat ?stop \<le> unat chunkStart + 503"
    using le by (auto simp: max_postings_per_chunk word_less_nat_alt word_le_nat_alt min_def)
  then have ule: "unat ?stop \<le> length (co_terms co)" using le(4) by (simp add: word_le_nat_alt)
  have len: "length ?ps = unat ?stop - unat chunkStart" by (rule length_tuple_postings [OF ule])
  have ne: "?ps \<noteq> []" "length ?ps \<le> PgturbohybridBm25MaxPostingsPerChunk"
    using len e by (auto simp: word_less_nat_alt max_postings_per_chunk simp flip: length_greater_0_conv)
  have c1: "tuple_postings co startIndex endIndex = tuple_postings co startIndex ?stop @ tuple_postings co ?stop endIndex"
    using le e by (intro tuple_postings_split) auto
  have c2: "tuple_postings co startIndex ?stop = tuple_postings co startIndex chunkStart @ ?ps"
    using le e by (intro tuple_postings_split) auto
  have srt: "sorted (map p_nodeId ?ps)"
    using asc unfolding c1 c2 ascending_def by (auto simp: sorted_wrt_append strict_sorted_imp_sorted)
  obtain x where x: "PgturbohybridWritePostingsChunkData (co_quantize co) (co_scoreFactor co) (co_hasTfNorm co) termId (wp_chunks ws) ?ps = Inr x"
    and ci: "chunk_item co termId x ?ps"
    using written_chunk [OF ne srt, of "co_quantize co" "co_scoreFactor co" "co_hasTfNorm co" termId "wp_chunks ws"] ne
    by (auto simp: chunk_item_def)
  have fx: "item_fits POSTINGS_TUPLE_TYPE x" "\<forall>x \<in> set xs. item_fits POSTINGS_TUPLE_TYPE x"
    using ci w by (auto simp: chunk_item_def written_def dest!: list_all2_left)
  note al = ws.append_linked [of bp "co_walLoggedWrites co" PAGE_KIND_BM25_POSTINGS "wp_store ws" POSTINGS_TUPLE_TYPE x 20 g0 qs xs]
  obtain r where r: "?add x (wp_store ws) = Some r"
    "case r of Inl e \<Rightarrow> extend_fails bp e
     | Inr (q, s1) \<Rightarrow> \<exists>s2. (if qs = [] then s2 = s1 else link_store POSTINGS_TUPLE_TYPE 20 (last qs) q s1 = Inr s2) \<and>
         store_inv bp (co_walLoggedWrites co) PAGE_KIND_BM25_POSTINGS s2 \<and>
         linked_store (set_next 20) g0 (item_at (fst s2)) (qs @ [q]) (xs @ [x]) \<and>
         (\<forall>q \<in> set (qs @ [q]). pointer_on PAGE_KIND_BM25_POSTINGS s2 q)"
    using al fx w by (auto simp: written_def)
  show ?thesis
  proof (cases r)
    case (Inl err)
    then show ?thesis using r x
      by (simp add: write_round_def PgturbohybridWritePostingsChunk_def Let_def)
  next
    case (Inr v)
    obtain q s1 where v: "v = (q, s1)" by (cases v)
    obtain s2 where s2: "if qs = [] then s2 = s1 else link_store POSTINGS_TUPLE_TYPE 20 (last qs) q s1 = Inr s2"
      "store_inv bp (co_walLoggedWrites co) PAGE_KIND_BM25_POSTINGS s2"
      "linked_store (set_next 20) g0 (item_at (fst s2)) (qs @ [q]) (xs @ [x])"
      "\<forall>q \<in> set (qs @ [q]). pointer_on PAGE_KIND_BM25_POSTINGS s2 q"
      using r(2) Inr v by auto
    have valid: "qs \<noteq> [] \<Longrightarrow> fst (last qs) \<noteq> InvalidBlockNumber \<and> snd (hd qs) \<noteq> 0"
      using w by (auto simp: written_def pointer_on_def valid_pointer_def)
    define ws' where "ws' = \<lparr>wp_first = (if snd (wp_first ws) = 0 then q else wp_first ws), wp_prev = q,
           wp_bytes = wp_bytes ws + of_nat (length x), wp_chunks = wp_chunks ws + 1, wp_store = s2\<rparr>"
    have "write_round bp co termId endIndex chunkStart ws = Some (Inr (?stop, ws'))"
      using r(1) Inr v x s2(1) valid w
      by (auto simp: ws'_def write_round_def PgturbohybridWritePostingsChunk_def Let_def link_postings_store written_def)
    moreover have "written bp co termId g0 (tuple_postings co startIndex ?stop) ws' (qs @ [q]) (xs @ [x]) (cs @ [?ps])"
      using s2 w ci valid by (auto simp: ws'_def written_def c2 list_all2_appendI hd_append)
    ultimately show ?thesis using e(1,2)
      by (intro exI [of _ "Inr (?stop, ws')"]) (simp del: min_less_iff_conj, blast)
  qed
qed

lemma write_loop_ok:
  assumes "written bp co termId g0 (tuple_postings co startIndex chunkStart) ws qs xs cs"
    and "startIndex \<le> chunkStart" "chunkStart \<le> endIndex" "unat endIndex + 503 < 2 ^ 32" "unat endIndex \<le> length (co_terms co)"
    and "ascending (tuple_postings co startIndex endIndex)"
  shows "\<exists>r. write_loop bp co termId endIndex chunkStart ws = Some r \<and>
    (case r of Inl e \<Rightarrow> extend_fails bp e
     | Inr ws' \<Rightarrow> \<exists>qs xs cs. written bp co termId g0 (tuple_postings co startIndex endIndex) ws' qs xs cs)"
  using assms
proof (induction "unat endIndex - unat chunkStart" arbitrary: chunkStart ws qs xs cs rule: less_induct)
  case less
  show ?case
  proof (cases "chunkStart < endIndex")
    case False
    then have "chunkStart = endIndex" using less.prems(3) by simp
    then show ?thesis using less.prems(1) by (subst write_loop.simps) auto
  next
    case True
    obtain r where r: "write_round bp co termId endIndex chunkStart ws = Some r"
      "case r of Inl e \<Rightarrow> extend_fails bp e
       | Inr (chunkEnd, ws') \<Rightarrow> chunkStart < chunkEnd \<and> chunkEnd \<le> endIndex \<and>
         (\<exists>qs xs cs. written bp co termId g0 (tuple_postings co startIndex chunkEnd) ws' qs xs cs)"
      using write_round_ok [OF less.prems(1,2) True less.prems(4-6)] by blast
    show ?thesis
    proof (cases r)
      case (Inl e)
      then show ?thesis using r True by (subst write_loop.simps) simp
    next
      case (Inr v)
      obtain chunkEnd ws' where v: "v = (chunkEnd, ws')" by (cases v)
      obtain qs' xs' cs' where c: "chunkStart < chunkEnd" "chunkEnd \<le> endIndex"
        "written bp co termId g0 (tuple_postings co startIndex chunkEnd) ws' qs' xs' cs'" using r(2) Inr v by auto
      have "unat endIndex - unat chunkEnd < unat endIndex - unat chunkStart" "startIndex \<le> chunkEnd"
        using c(1,2) less.prems(2) True by (auto simp: word_less_nat_alt word_le_nat_alt)
      from less.hyps [OF this(1) c(3) this(2) c(2) less.prems(4-6)] show ?thesis
        using r(1) Inr v True by (subst write_loop.simps) simp
    qed
  qed
qed

lemma written_length: "written bp co termId g0 ps ws qs xs cs \<Longrightarrow> length xs = length qs \<and> length cs = length qs"
  by (auto simp: written_def linked_store_def dest: list_all2_lengthD)

lemma written_stored:
  assumes w: "written bp co termId g0 ps ws qs xs cs"
  shows "k \<le> length qs \<Longrightarrow> k = 0 \<or> (b, n) = qs ! (length qs - k) \<Longrightarrow>
    \<exists>cks. stored_chunks (rel_pages (fst (wp_store ws))) termId k b n = Some cks \<and>
      all_postings cks = map (decoded (co_quantize co) (co_hasTfNorm co)) (concat (drop (length qs - k) cs))"
proof (induction k arbitrary: b n)
  case 0
  have "length cs = length qs" using written_length [OF w] by simp
  then show ?case by (simp add: all_postings_def)
next
  case (Suc k)
  let ?i = "length qs - Suc k" and ?rel = "fst (wp_store ws)"
  have len: "length xs = length qs" "length cs = length qs" and i: "?i < length qs" "Suc ?i = length qs - k"
    using written_length [OF w] Suc.prems(1) by auto
  have q: "qs ! ?i = (b, n)" using Suc.prems(2) by simp
  have ci: "chunk_item co termId (xs ! ?i) (cs ! ?i)" using w i len by (auto simp: written_def list_all2_conv_all_nth)
  then have cif: "off_payload \<le> length (xs ! ?i)" "PgturbohybridBm25DecodePostingsTuple (xs ! ?i) =
      Some (map (decoded (co_quantize co) (co_hasTfNorm co)) (cs ! ?i))" "xs ! ?i ! 0 = POSTINGS_TUPLE_TYPE"
    "u32_at (xs ! ?i) 4 = termId" "u16_at (xs ! ?i) 2 = of_nat (length (cs ! ?i))" "u32_at (xs ! ?i) 16 = p_nodeId (last (cs ! ?i))"
    "cs ! ?i \<noteq> []" "length (cs ! ?i) \<le> PgturbohybridBm25MaxPostingsPerChunk"
    by (simp_all add: chunk_item_def item_fits_def)
  have on: "pointer_on PAGE_KIND_BM25_POSTINGS (?rel, snd (wp_store ws)) (qs ! ?i)" using w i by (auto simp: written_def)
  let ?next = "if Suc ?i < length qs then Some (qs ! Suc ?i) else None"
  have "item_at ?rel (qs ! ?i) = Some (if Suc ?i < length qs then set_next 20 (qs ! Suc ?i) (xs ! ?i) else xs ! ?i)"
    using w i by (simp add: written_def linked_store_def)
  then have it: "item_at ?rel (qs ! ?i) = Some (case ?next of Some m \<Rightarrow> set_next 20 m (xs ! ?i) | None \<Rightarrow> xs ! ?i)" by simp
  obtain ck where ck: "read_chunk (rel_pages ?rel) termId b n = Inr (Some ck)" "chunk_ok ck"
    "ck_postings ck = map (decoded (co_quantize co) (co_hasTfNorm co)) (cs ! ?i)"
    "\<forall>m. ?next = Some m \<longrightarrow> ck_nextBlkno ck = fst m \<and> ck_nextOffno ck = snd m"
    using read_written [OF cif it on] q by auto
  have v: "valid_pointer b n" using on q by (simp add: pointer_on_def)
  have "k = 0 \<or> (ck_nextBlkno ck, ck_nextOffno ck) = qs ! (length qs - k)"
  proof (cases "k = 0")
    case False
    then have "length qs - k < length qs" using i by simp
    then have "?next = Some (qs ! (length qs - k))" using i(2) by simp
    with ck(4) show ?thesis by (metis prod.collapse)
  qed simp
  from Suc.IH [OF _ this] Suc.prems(1) obtain cks where r:
    "stored_chunks (rel_pages ?rel) termId k (ck_nextBlkno ck) (ck_nextOffno ck) = Some cks"
    "all_postings cks = map (decoded (co_quantize co) (co_hasTfNorm co)) (concat (drop (length qs - k) cs))" by auto
  have "drop ?i cs = cs ! ?i # drop (length qs - k) cs" using i len Cons_nth_drop_Suc [of ?i cs] by simp
  then show ?case using v ck r by (auto simp: all_postings_def)
qed

lemma length_le_concat: "\<forall>c \<in> set cs. c \<noteq> [] \<Longrightarrow> length cs \<le> length (concat cs)"
proof (induction cs)
  case (Cons c cs)
  then show ?case by (cases c) auto
qed simp

lemma write_postings_ok:
  assumes st: "store_inv bp (co_walLoggedWrites co) PAGE_KIND_BM25_POSTINGS st"
    and le: "startIndex < endIndex" "unat endIndex + 503 < 2 ^ 32" "unat endIndex \<le> length (co_terms co)"
    and asc: "ascending (tuple_postings co startIndex endIndex)"
  shows "\<exists>r. PgturbohybridWritePostings bp co termId startIndex endIndex st = Some r \<and>
    (case r of Inl e \<Rightarrow> extend_fails bp e
     | Inr ((b, n), bytes, chunkCount, st') \<Rightarrow>
         store_inv bp (co_walLoggedWrites co) PAGE_KIND_BM25_POSTINGS st' \<and>
         (\<forall>q x. item_at (fst st) q = Some x \<longrightarrow> item_at (fst st') q = Some x) \<and>
         (\<exists>cks. stored_chunks (rel_pages (fst st')) termId (unat (max chunkCount 1)) b n = Some cks \<and>
            all_postings cks = map (decoded (co_quantize co) (co_hasTfNorm co)) (tuple_postings co startIndex endIndex)))"
proof -
  let ?ps = "tuple_postings co startIndex endIndex" and ?dec = "decoded (co_quantize co) (co_hasTfNorm co)"
  let ?ws = "\<lparr>wp_first = (InvalidBlockNumber, 0), wp_prev = (InvalidBlockNumber, 0), wp_bytes = 0, wp_chunks = 0, wp_store = st\<rparr>"
  have "written bp co termId (item_at (fst st)) (tuple_postings co startIndex startIndex) ?ws [] [] []"
    using st by (simp add: written_def tuple_postings_def)
  from write_loop_ok [OF this order_refl less_imp_le [OF le(1)] le(2,3) asc] obtain r where
    r: "write_loop bp co termId endIndex startIndex ?ws = Some r"
    "case r of Inl e \<Rightarrow> extend_fails bp e
     | Inr ws' \<Rightarrow> \<exists>qs xs cs. written bp co termId (item_at (fst st)) ?ps ws' qs xs cs" by blast
  show ?thesis
  proof (cases r)
    case (Inl e)
    then show ?thesis using r by (simp add: PgturbohybridWritePostings_def)
  next
    case (Inr ws')
    obtain qs xs cs where w: "written bp co termId (item_at (fst st)) ?ps ws' qs xs cs" using r(2) Inr by auto
    have len: "length qs = length cs" and cc: "concat cs = ?ps" using w written_length [OF w] by (auto simp: written_def)
    have lps: "length ?ps = unat endIndex - unat startIndex" by (rule length_tuple_postings [OF le(3)])
    have ne: "?ps \<noteq> []" using lps le(1) by (auto simp: word_less_nat_alt simp flip: length_greater_0_conv)
    have "\<forall>c \<in> set cs. c \<noteq> []" using w by (auto simp: written_def list_all2_conv_all_nth in_set_conv_nth chunk_item_def)
    then have "length qs \<le> length ?ps" using length_le_concat [of cs] cc len by simp
    then have small: "length qs < 2 ^ 32" using lps le(2) by simp
    have qne: "qs \<noteq> []" using ne cc len by auto
    have n1: "length qs > 0" using qne by simp
    have c: "wp_chunks ws' = of_nat (length qs)" using w by (simp add: written_def)
    have uc: "unat (wp_chunks ws') = length qs" using small by (simp add: c unsigned_of_nat take_bit_nat_eq_self)
    then have mx: "unat (max (wp_chunks ws') 1) = length qs" using qne by (cases qs) (auto simp: max_def word_le_nat_alt)
    have first: "wp_first ws' = qs ! 0" using w qne by (simp add: written_def hd_conv_nth)
    obtain b n where bn: "wp_first ws' = (b, n)" by (cases "wp_first ws'")
    obtain cks where cks: "stored_chunks (rel_pages (fst (wp_store ws'))) termId (length qs) b n = Some cks" "all_postings cks = map ?dec ?ps"
      using written_stored [OF w, of "length qs" b n] first bn cc by auto
    have keep: "item_at (fst (wp_store ws')) q = Some x" if "item_at (fst st) q = Some x" for q x
    proof -
      have l: "linked_store (set_next 20) (item_at (fst st)) (item_at (fst (wp_store ws'))) qs xs" using w by (simp add: written_def)
      then have "q \<notin> set qs" using that by (auto simp: linked_store_def)
      then have "item_at (fst (wp_store ws')) q = item_at (fst st) q" using l unfolding linked_store_def by blast
      then show ?thesis using that by simp
    qed
    have inv: "store_inv bp (co_walLoggedWrites co) PAGE_KIND_BM25_POSTINGS (wp_store ws')" using w by (simp add: written_def)
    have "PgturbohybridWritePostings bp co termId startIndex endIndex st =
        Some (Inr ((b, n), wp_bytes ws', wp_chunks ws', wp_store ws'))"
      using r(1) Inr bn by (simp add: PgturbohybridWritePostings_def)
    then show ?thesis using inv keep cks mx by simp
  qed
qed

section \<open>Properties\<close>

text \<open>
  Page routines that do what PostgreSQL documents: they count the room of the page and
  append behind the last item.
\<close>

definition plain_free :: "pg_page \<Rightarrow> nat" where
  "plain_free p = PGTURBOHYBRID_GRAPH_MAX_SIZE - sum_list (map (\<lambda>i. (case i of None \<Rightarrow> 0 | Some x \<Rightarrow> MAXALIGN (length x)) + 4) (page_items p))"

definition plain_bufpage :: bufpage where
  "plain_bufpage = \<lparr>bp_freeSpace = plain_free,
     bp_addItem = (\<lambda>p item. if item = [] \<or> plain_free p < MAXALIGN (length item) then (0, p)
        else (of_nat (length (page_items p) + 1), p\<lparr>page_items := page_items p @ [Some item]\<rparr>)),
     bp_extend = (\<lambda>n. if n < 2 ^ 32 - 1 then Inr (of_nat n) else elog ''cannot extend relation'')\<rparr>"

lemma plain_free_items: "0 < plain_free p \<Longrightarrow> length (page_items p) < 2047"
proof -
  have "4 * length xs \<le> sum_list (map (\<lambda>i. (case i of None \<Rightarrow> 0 | Some x \<Rightarrow> MAXALIGN (length x)) + 4) xs)" for xs :: "bytes option list"
    by (induction xs) (auto split: option.splits)
  from this [of "page_items p"] show "0 < plain_free p \<Longrightarrow> length (page_items p) < 2047"
    by (simp add: plain_free_def PGTURBOHYBRID_GRAPH_MAX_SIZE_def BLCKSZ_def MAXALIGN_def)
qed

lemma plain_bufpage_ok: "bufpage_ok plain_bufpage"
proof -
  have 1: "unat off \<le> MaxOffsetNumber \<and> free_slot (page_items p) (unat off - 1) \<and>
      p' = p\<lparr>page_items := put_slot (page_items p) (unat off - 1) item\<rparr>"
    if "bp_addItem plain_bufpage p item = (off, p')" "off \<noteq> 0" for p item off p'
  proof -
    have f: "\<not> plain_free p < MAXALIGN (length item)" "item \<noteq> []" "off = of_nat (length (page_items p) + 1)"
      "p' = p\<lparr>page_items := page_items p @ [Some item]\<rparr>"
      using that by (auto simp: plain_bufpage_def split: if_splits)
    have "0 < length item" using f(2) by simp
    then have "0 < plain_free p" using f(1) MAXALIGN_ge [of "length item"] by linarith
    then have l: "length (page_items p) < 2047" by (rule plain_free_items)
    then have "unat off = length (page_items p) + 1" unfolding f(3)
      by (simp add: unsigned_of_nat take_bit_nat_eq_self del: of_nat_Suc of_nat_add)
    then show ?thesis using l f(4) by (simp add: MaxOffsetNumber_def free_slot_def put_slot_def)
  qed
  have 2: "fst (bp_addItem plain_bufpage p item) \<noteq> 0"
    if "item \<noteq> []" "8 dvd length item" "length item \<le> bp_freeSpace plain_bufpage p" for p item
  proof -
    have f: "length item \<le> plain_free p" using that(3) by (simp add: plain_bufpage_def)
    have "0 < length item" using that(1) by simp
    then have "length (page_items p) < 2047" using f by (intro plain_free_items) linarith
    then have "unat (of_nat (length (page_items p) + 1) :: u16) = length (page_items p) + 1"
      by (simp add: unsigned_of_nat take_bit_nat_eq_self del: of_nat_Suc of_nat_add)
    then have "(of_nat (length (page_items p) + 1) :: u16) \<noteq> 0" by (metis add_is_0 one_neq_zero unat_0)
    then show ?thesis using f that MAXALIGN_idem [OF that(2)] by (simp add: plain_bufpage_def del: of_nat_Suc of_nat_add)
  qed
  have 3: "unat b = n \<and> b \<noteq> InvalidBlockNumber" if "bp_extend plain_bufpage n = Inr b" for n b
  proof -
    have n: "n < 2 ^ 32 - 1" "b = of_nat n" using that by (auto simp: plain_bufpage_def split: if_splits)
    then have u: "unat b = n" by (simp add: unsigned_of_nat take_bit_nat_eq_self)
    then show ?thesis using n(1) by (auto simp: InvalidBlockNumber_def)
  qed
  have 4: "PGTURBOHYBRID_GRAPH_MAX_SIZE \<le> bp_freeSpace plain_bufpage p" if "page_items p = []" for p
    using that by (simp add: plain_bufpage_def plain_free_def)
  show ?thesis unfolding bufpage_ok_def using 1 2 3 4 by blast
qed

definition empty_store :: store where
  "empty_store = (\<lparr>rel_pages = Map.empty, rel_nblocks = 0\<rparr>, \<lparr>sk_buf = None, sk_start = InvalidBlockNumber, sk_pages = Some 0\<rparr>)"

lemma postings_kind_ok: "kind_ok PAGE_KIND_BM25_POSTINGS"
  by (simp add: kind_ok_def PAGE_KIND_BM25_POSTINGS_def PAGE_KIND_MASK_def)

lemma empty_sink_inv: "sink_inv PAGE_KIND_BM25_POSTINGS (fst empty_store) (snd empty_store) []"
  using postings_kind_ok by (simp add: sink_inv_def empty_store_def pages_wf_def)

lemma empty_store_inv: "store_inv plain_bufpage useWal PAGE_KIND_BM25_POSTINGS empty_store"
  using plain_bufpage_ok empty_sink_inv unfolding store_inv_def by blast

text \<open>
  C29. Writing and reading agree across the pages. Writing a term's sorted tuples succeeds
  unless the relation cannot be extended; afterwards every item that was stored before is
  unchanged, the writer is ready for the next term, and an iterator that is opened with
  the pointer and the chunk count the writer returned enumerates exactly the written
  postings of live documents, in order, over however many chunks and pages they take.
\<close>

theorem written_postings_enumerated:
  assumes "store_inv bp (co_walLoggedWrites co) PAGE_KIND_BM25_POSTINGS st"
    and "startIndex < endIndex" "unat endIndex + 503 < 2 ^ 32" "unat endIndex \<le> length (co_terms co)"
    and "ascending (tuple_postings co startIndex endIndex)"
  shows "\<exists>r. PgturbohybridWritePostings bp co termId startIndex endIndex st = Some r \<and>
    (case r of Inl e \<Rightarrow> extend_fails bp e
     | Inr ((b, n), bytes, chunkCount, st') \<Rightarrow>
         store_inv bp (co_walLoggedWrites co) PAGE_KIND_BM25_POSTINGS st' \<and>
         (\<forall>q x. item_at (fst st) q = Some x \<longrightarrow> item_at (fst st') q = Some x) \<and>
         (\<forall>env cache t. env_pages env = rel_pages (fst st') \<and> cgood env cache \<and> t_termId t = termId \<and>
            t_postingsChunkCount t = chunkCount \<and> t_postingsBlkno t = b \<and> t_postingsOffno t = n \<longrightarrow>
            (let live = filter (\<lambda>p. node_live env (p_nodeId p))
                   (map (decoded (co_quantize co) (co_hasTfNorm co)) (tuple_postings co startIndex endIndex))
             in \<exists>cache' it'. PgturbohybridBm25IteratorInit env cache t idf avgDocLen stats = Inr (live \<noteq> [], cache', it') \<and>
                  live_rest env it' = live)))"
proof -
  let ?ps = "tuple_postings co startIndex endIndex" and ?dec = "decoded (co_quantize co) (co_hasTfNorm co)"
  obtain r where r: "PgturbohybridWritePostings bp co termId startIndex endIndex st = Some r"
    "case r of Inl e \<Rightarrow> extend_fails bp e
     | Inr ((b, n), bytes, chunkCount, st') \<Rightarrow>
         store_inv bp (co_walLoggedWrites co) PAGE_KIND_BM25_POSTINGS st' \<and>
         (\<forall>q x. item_at (fst st) q = Some x \<longrightarrow> item_at (fst st') q = Some x) \<and>
         (\<exists>cks. stored_chunks (rel_pages (fst st')) termId (unat (max chunkCount 1)) b n = Some cks \<and>
            all_postings cks = map ?dec ?ps)"
    using write_postings_ok [OF assms] by blast
  have asc: "ascending (map ?dec ?ps)" using assms(5) by (simp add: ascending_def comp_def)
  show ?thesis
  proof (cases r)
    case (Inr v)
    obtain b n bytes chunkCount st' where v: "v = ((b, n), bytes, chunkCount, st')" by (cases v) auto
    obtain cks where c: "stored_chunks (rel_pages (fst st')) termId (unat (max chunkCount 1)) b n = Some cks"
      "all_postings cks = map ?dec ?ps" using r(2) Inr v by auto
    have "\<exists>cache' it'. PgturbohybridBm25IteratorInit env cache t idf avgDocLen stats =
        Inr (filter (\<lambda>p. node_live env (p_nodeId p)) (map ?dec ?ps) \<noteq> [], cache', it') \<and>
        live_rest env it' = filter (\<lambda>p. node_live env (p_nodeId p)) (map ?dec ?ps)"
      if "env_pages env = rel_pages (fst st')" "cgood env cache" "t_termId t = termId"
        "t_postingsChunkCount t = chunkCount" "t_postingsBlkno t = b" "t_postingsOffno t = n" for env cache t
    proof -
      have "stored_chunks (env_pages env) (t_termId t) (unat (max (t_postingsChunkCount t) 1)) (t_postingsBlkno t)
          (t_postingsOffno t) = Some cks" using c(1) that by simp
      from init_good [OF that(2) this, of idf avgDocLen stats] show ?thesis using c(2) asc by auto
    qed
    then show ?thesis using r Inr v by (auto simp: Let_def)
  qed (use r in auto)
qed

definition demo_collector :: collector where
  "demo_collector = \<lparr>co_quantize = (\<lambda>_ tf. tf), co_scoreFactor = (\<lambda>_. 0), co_hasTfNorm = False, co_walLoggedWrites = True,
     co_terms = [\<lparr>tt_nodeId = 3, tt_tf = 2\<rparr>, \<lparr>tt_nodeId = 4, tt_tf = 1\<rparr>]\<rparr>"

theorem written_postings_enumerated_witness:
  "\<exists>r. PgturbohybridWritePostings plain_bufpage demo_collector 7 0 2 empty_store = Some r \<and>
     (case r of Inl e \<Rightarrow> extend_fails plain_bufpage e
      | Inr ((b, n), bytes, chunkCount, st') \<Rightarrow> store_inv plain_bufpage True PAGE_KIND_BM25_POSTINGS st')"
proof -
  have ps: "tuple_postings demo_collector 0 2 = [\<lparr>p_nodeId = 3, p_tf = 2, p_reserved = 0\<rparr>, \<lparr>p_nodeId = 4, p_tf = 1, p_reserved = 0\<rparr>]"
    by (simp add: tuple_postings_def demo_collector_def)
  have asc: "ascending (tuple_postings demo_collector 0 2)" by (simp add: ps ascending_def)
  have len: "unat (2 :: u32) \<le> length (co_terms demo_collector)" and wal: "co_walLoggedWrites demo_collector"
    by (simp_all add: demo_collector_def)
  have lt: "(0 :: u32) < 2" "unat (2 :: u32) + 503 < 2 ^ 32" by simp_all
  show ?thesis
    using written_postings_enumerated [OF empty_store_inv lt len asc, of 7 "Fin 1" "Fin 1" None]
    apply (elim exE conjE)
    subgoal for r using wal by (cases r) auto
    done
qed

text \<open>
  Appending keeps the chain. From a sink whose pages form a list from its first block to
  its buffer, adding an item either fails because the relation cannot be extended, or puts
  it on the last page of the list, which grew by at most one page of the same kind; the
  item's pointer was unused, every other item and the kind of every other page are as
  before, and the page counter is the length of the list. The walk to the tail that
  writing with WAL begins with ends on every such list.
\<close>

theorem add_item_keeps_chain:
  assumes "bufpage_ok bp" "sink_inv kind rel sk path" "useWal \<or> sk_buf sk \<noteq> None \<or> path = []"
    and "8 dvd length item" "length item \<le> PGTURBOHYBRID_GRAPH_MAX_SIZE" "item \<noteq> []"
  shows "\<exists>r. PgturbohybridBm25AddItem bp useWal kind item (rel, sk) = Some r \<and>
    (case r of Inl e \<Rightarrow> bp_extend bp (rel_nblocks rel) = Inl e
     | Inr (q, rel', sk') \<Rightarrow> item_at rel q = None \<and> item_at rel' = (item_at rel)(q \<mapsto> item) \<and>
         (\<forall>b. kind_at rel b \<noteq> None \<longrightarrow> kind_at rel' b = kind_at rel b) \<and>
         (\<exists>path'. sink_inv kind rel' sk' path' \<and> (path' = path \<or> path' = path @ [fst q]) \<and> last path' = fst q))"
proof -
  obtain r where r: "PgturbohybridBm25AddItem bp useWal kind item (rel, sk) = Some r" "add_outcome bp kind item rel path r"
    using add_law [OF assms] by blast
  then show ?thesis by (intro exI [of _ r]) (cases r; auto simp: add_outcome_def added_def)
qed

theorem add_item_keeps_chain_witness:
  "\<exists>r. PgturbohybridBm25AddItem plain_bufpage True PAGE_KIND_BM25_POSTINGS (replicate 40 0) empty_store = Some r \<and>
    (case r of Inl e \<Rightarrow> bp_extend plain_bufpage 0 = Inl e
     | Inr (q, rel', sk') \<Rightarrow> item_at rel' q = Some (replicate 40 0))"
proof -
  have s: "(8 :: nat) dvd 40" "(40 :: nat) \<le> PGTURBOHYBRID_GRAPH_MAX_SIZE"
    by (simp_all add: PGTURBOHYBRID_GRAPH_MAX_SIZE_def BLCKSZ_def MAXALIGN_def)
  have "\<exists>r. PgturbohybridBm25AddItem plain_bufpage True PAGE_KIND_BM25_POSTINGS (replicate 40 0) (fst empty_store, snd empty_store) = Some r \<and>
    (case r of Inl e \<Rightarrow> bp_extend plain_bufpage (rel_nblocks (fst empty_store)) = Inl e
     | Inr (q, rel', sk') \<Rightarrow> item_at (fst empty_store) q = None \<and> item_at rel' = (item_at (fst empty_store))(q \<mapsto> replicate 40 0) \<and>
         (\<forall>b. kind_at (fst empty_store) b \<noteq> None \<longrightarrow> kind_at rel' b = kind_at (fst empty_store) b) \<and>
         (\<exists>path'. sink_inv PAGE_KIND_BM25_POSTINGS rel' sk' path' \<and> (path' = [] \<or> path' = [] @ [fst q]) \<and> last path' = fst q))"
    by (rule add_item_keeps_chain [OF plain_bufpage_ok empty_sink_inv]) (use s in auto)
  then show ?thesis by (auto simp: empty_store_def split: sum.splits)
qed

text \<open>
  Writing with WAL changes the pages exactly as writing without: for every sink, adding
  an item through the WAL path gives the same pointer, pages and position as the plain path
  does from the last page of the sink's chain.
\<close>

theorem wal_add_same_as_plain:
  assumes "bufpage_ok bp" "sink_inv kind rel sk path" "length item \<le> PGTURBOHYBRID_GRAPH_MAX_SIZE"
  shows "PgturbohybridBm25AddItem bp True kind item (rel, sk) =
    PgturbohybridBm25AddItem bp False kind item (rel, sk\<lparr>sk_buf := (if path = [] then None else Some (last path))\<rparr>)"
  using wal_equals_plain [OF assms] by (simp add: at_tail_def)

theorem wal_add_same_as_plain_witness:
  "PgturbohybridBm25AddItem plain_bufpage True PAGE_KIND_BM25_POSTINGS (replicate 40 0) empty_store =
   PgturbohybridBm25AddItem plain_bufpage False PAGE_KIND_BM25_POSTINGS (replicate 40 0) empty_store"
proof -
  have s: "length (replicate 40 (0 :: u8)) \<le> PGTURBOHYBRID_GRAPH_MAX_SIZE"
    by (simp add: PGTURBOHYBRID_GRAPH_MAX_SIZE_def BLCKSZ_def MAXALIGN_def)
  show ?thesis using wal_add_same_as_plain [OF plain_bufpage_ok empty_sink_inv s] by (simp add: empty_store_def)
qed

end
