(* ===== verification/Query_Header.thy ===== *)
theory Query_Header
  imports Prelude
begin

text \<open>
  The fixed header of a \<open>turbohybrid_query\<close> datum (\<open>pgturbohybrid_query.h\<close>) and the
  candidate budgets a scan derives from it (\<open>pgturbohybrid_am.c\<close>): the effective query, the
  number of results and the automatic branch budgets. \<open>int32\<close> fields are \<open>int\<close>; the one
  multiplication that could overflow is guarded by the code itself.
\<close>

record PgturbohybridQueryHeader =
  q_version :: u16
  q_flags :: u16
  q_fusion :: u16
  q_denseWeight :: cdouble
  q_bm25Weight :: cdouble
  q_multivectorWeight :: cdouble
  q_alpha :: cdouble
  q_rrfK :: int
  q_denseK :: int
  q_multivectorK :: int
  q_bm25K :: int
  q_finalK :: int
  q_denseKind :: u16
  q_vectorBytes :: int
  q_multivectorBytes :: int
  q_tsqueryBytes :: int
  q_multivectorDim :: int
  q_multivectorCount :: int
  q_reservedBytes :: int

type_synonym query = PgturbohybridQueryHeader

definition HAS_VECTOR :: u16 where "HAS_VECTOR = 0x0001"
definition HAS_TSQUERY :: u16 where "HAS_TSQUERY = 0x0002"
definition ALPHA_IS_SET :: u16 where "ALPHA_IS_SET = 0x0004"
definition FINAL_K_IS_SET :: u16 where "FINAL_K_IS_SET = 0x0008"
definition REQUIRE_BM25_MATCH :: u16 where "REQUIRE_BM25_MATCH = 0x0010"
definition DENSE_K_DEFAULTED :: u16 where "DENSE_K_DEFAULTED = 0x0020"
definition BM25_K_DEFAULTED :: u16 where "BM25_K_DEFAULTED = 0x0040"
definition RRF_K_DEFAULTED :: u16 where "RRF_K_DEFAULTED = 0x0080"
definition HAS_DENSE :: u16 where "HAS_DENSE = 0x0100"
definition HAS_MULTIVECTOR :: u16 where "HAS_MULTIVECTOR = 0x0200"
definition HAS_TOKEN_WEIGHTS :: u16 where "HAS_TOKEN_WEIGHTS = 0x0400"
definition HAS_TOKEN_MASK :: u16 where "HAS_TOKEN_MASK = 0x0800"
definition UNSUPPORTED_MASK :: u16 where "UNSUPPORTED_MASK = 0x7000"

lemmas flag_defs = HAS_VECTOR_def HAS_TSQUERY_def ALPHA_IS_SET_def FINAL_K_IS_SET_def REQUIRE_BM25_MATCH_def
  DENSE_K_DEFAULTED_def BM25_K_DEFAULTED_def RRF_K_DEFAULTED_def HAS_DENSE_def HAS_MULTIVECTOR_def
  HAS_TOKEN_WEIGHTS_def HAS_TOKEN_MASK_def UNSUPPORTED_MASK_def

definition FUSION_RRF :: u16 where "FUSION_RRF = 1"
definition FUSION_WEIGHTED :: u16 where "FUSION_WEIGHTED = 2"
definition FUSION_FAST_WEIGHTED :: u16 where "FUSION_FAST_WEIGHTED = 3"
definition FUSION_CALIBRATED :: u16 where "FUSION_CALIBRATED = 4"
definition FUSION_DBSF :: u16 where "FUSION_DBSF = 5"

definition has_flag :: "query \<Rightarrow> u16 \<Rightarrow> bool" where
  "has_flag q f = (q_flags q AND f \<noteq> 0)"

definition PgturbohybridQueryHasVector :: "query \<Rightarrow> bool" where
  "PgturbohybridQueryHasVector q = (has_flag q HAS_DENSE \<and> has_flag q HAS_VECTOR)"

definition PgturbohybridQueryHasMultiVector :: "query \<Rightarrow> bool" where
  "PgturbohybridQueryHasMultiVector q = (has_flag q HAS_DENSE \<and> has_flag q HAS_MULTIVECTOR)"

definition PgturbohybridQueryHasDense :: "query \<Rightarrow> bool" where
  "PgturbohybridQueryHasDense q = (PgturbohybridQueryHasVector q \<or> PgturbohybridQueryHasMultiVector q)"

definition PgturbohybridQueryHasText :: "query \<Rightarrow> bool" where
  "PgturbohybridQueryHasText q = has_flag q HAS_TSQUERY"

section \<open>Budgets\<close>

text \<open>The settings (GUC variables) and the executor limit the budget functions read.\<close>

record budget_guc =
  g_auto_budget :: bool
  g_auto_budget_limit_multiplier :: int
  g_auto_budget_quality_cap :: int
  g_auto_budget_min_dense_k :: int
  g_auto_budget_min_bm25_k :: int
  g_max_union_candidates :: int
  g_profile_latency :: bool
  g_active_limit :: int  \<comment> \<open>\<open>PgturbohybridGraphGetActiveLimitTupleTarget()\<close>\<close>

definition INT_MAX :: int where "INT_MAX = 2147483647"
definition PGTURBOHYBRID_DEFAULT_FINAL_K :: int where "PGTURBOHYBRID_DEFAULT_FINAL_K = 10"

definition PgturbohybridEffectiveFinalK :: "query \<Rightarrow> int \<Rightarrow> int" where
  "PgturbohybridEffectiveFinalK q limit =
     (if has_flag q FINAL_K_IS_SET then q_finalK q else if limit > 0 then limit else PGTURBOHYBRID_DEFAULT_FINAL_K)"

definition PgturbohybridFinalTarget :: "budget_guc \<Rightarrow> query \<Rightarrow> int \<Rightarrow> int \<Rightarrow> int" where
  "PgturbohybridFinalTarget g q mergedCount limit =
     (let target = PgturbohybridEffectiveFinalK q limit;
          activeLimit = (if g_active_limit g < 0 \<and> limit > 0 then limit else g_active_limit g);
          finalCount = (if g_max_union_candidates g > 0 then min mergedCount (g_max_union_candidates g) else mergedCount)
      in if activeLimit \<le> 0 then min finalCount target else finalCount)"

definition PgturbohybridBudgetFinalTarget :: "query \<Rightarrow> int \<Rightarrow> int" where
  "PgturbohybridBudgetFinalTarget q limit =
     (if has_flag q FINAL_K_IS_SET \<and> q_finalK q > 0 then q_finalK q
      else if limit > 0 then limit else PGTURBOHYBRID_DEFAULT_FINAL_K)"

definition PgturbohybridApplyAutoBudget :: "budget_guc \<Rightarrow> int \<Rightarrow> int \<Rightarrow> int \<Rightarrow> bool \<Rightarrow> bool \<Rightarrow> int" where
  "PgturbohybridApplyAutoBudget g requested limit minBudget defaulted branchPresent =
     (if \<not> g_auto_budget g \<or> \<not> defaulted \<or> \<not> branchPresent \<or> requested \<le> 0 \<or> limit \<le> 0 then requested
      else let m = g_auto_budget_limit_multiplier g;
               target = (if limit > INT_MAX div m then INT_MAX else limit * m);
               target1 = max target minBudget;
               target2 = (if g_auto_budget_quality_cap g > 0 then min target1 (g_auto_budget_quality_cap g) else target1)
           in min requested target2)"

definition PgturbohybridCanonicalizeLatencyQuery :: "budget_guc \<Rightarrow> int \<Rightarrow> query \<Rightarrow> query" where
  "PgturbohybridCanonicalizeLatencyQuery g limit q =
     (if \<not> g_profile_latency g then q
      else q\<lparr>q_finalK := PgturbohybridEffectiveFinalK q limit,
             q_flags := (q_flags q OR FINAL_K_IS_SET) AND NOT (DENSE_K_DEFAULTED OR BM25_K_DEFAULTED OR RRF_K_DEFAULTED)\<rparr>)"

definition PgturbohybridEffectiveQuery :: "budget_guc \<Rightarrow> int \<Rightarrow> query \<Rightarrow> query" where
  "PgturbohybridEffectiveQuery g limit q =
     (let dd = has_flag q DENSE_K_DEFAULTED;
          effective = q\<lparr>
            q_denseK := PgturbohybridApplyAutoBudget g (q_denseK q) limit (g_auto_budget_min_dense_k g) dd (PgturbohybridQueryHasVector q),
            q_multivectorK := PgturbohybridApplyAutoBudget g (q_multivectorK q) limit (g_auto_budget_min_dense_k g) dd
                                (PgturbohybridQueryHasMultiVector q),
            q_bm25K := PgturbohybridApplyAutoBudget g (q_bm25K q) limit (g_auto_budget_min_bm25_k g)
                                (has_flag q BM25_K_DEFAULTED) (has_flag q HAS_TSQUERY)\<rparr>
      in PgturbohybridCanonicalizeLatencyQuery g limit effective)"

section \<open>What the budgets promise\<close>

text \<open>
  The extension fixes the settings of the automatic budgets (\<open>pgturbohybrid_guc.c\<close>: multiplier 8,
  minimal budgets 32, cap 400); the bounds only need that multiplier and minima are positive.
\<close>

definition budget_guc_ok :: "budget_guc \<Rightarrow> bool" where
  "budget_guc_ok g \<longleftrightarrow> 1 \<le> g_auto_budget_limit_multiplier g \<and> 1 \<le> g_auto_budget_min_dense_k g \<and>
     1 \<le> g_auto_budget_min_bm25_k g"

text \<open>The least number of candidates a \<open>LIMIT\<close> leaves a branch: the limit, but no more than the cap where one is set.\<close>

definition capped_limit :: "budget_guc \<Rightarrow> int \<Rightarrow> int" where
  "capped_limit g limit = (if g_auto_budget_quality_cap g \<le> 0 then limit else min limit (g_auto_budget_quality_cap g))"

lemma auto_budget_bounds:
  assumes "1 \<le> g_auto_budget_limit_multiplier g" "limit \<le> INT_MAX" "1 \<le> minBudget"
  shows "PgturbohybridApplyAutoBudget g requested limit minBudget d b \<le> requested"
    "1 \<le> requested \<Longrightarrow> 1 \<le> PgturbohybridApplyAutoBudget g requested limit minBudget d b"
    "0 < limit \<Longrightarrow> capped_limit g limit \<le> requested \<Longrightarrow> capped_limit g limit \<le> PgturbohybridApplyAutoBudget g requested limit minBudget d b"
proof -
  let ?m = "g_auto_budget_limit_multiplier g"
  define t where "t = (if limit > INT_MAX div ?m then INT_MAX else limit * ?m)"
  have le: "0 < limit \<Longrightarrow> limit \<le> t" using assms(1,2) mult_left_mono [of 1 ?m limit] by (simp add: t_def)
  have e: "PgturbohybridApplyAutoBudget g requested limit minBudget d b =
      (if \<not> g_auto_budget g \<or> \<not> d \<or> \<not> b \<or> requested \<le> 0 \<or> limit \<le> 0 then requested
       else min requested (if g_auto_budget_quality_cap g > 0 then min (max t minBudget) (g_auto_budget_quality_cap g)
                           else max t minBudget))"
    by (simp add: PgturbohybridApplyAutoBudget_def Let_def t_def)
  show "PgturbohybridApplyAutoBudget g requested limit minBudget d b \<le> requested" unfolding e by simp
  show "1 \<le> requested \<Longrightarrow> 1 \<le> PgturbohybridApplyAutoBudget g requested limit minBudget d b"
    using assms(3) unfolding e by auto
  show "0 < limit \<Longrightarrow> capped_limit g limit \<le> requested \<Longrightarrow> capped_limit g limit \<le> PgturbohybridApplyAutoBudget g requested limit minBudget d b"
    using le unfolding e capped_limit_def by auto
qed

text \<open>The product never exceeds the range of \<open>int\<close>, so the machine multiplication is exact.\<close>

lemma auto_budget_no_overflow:
  fixes limit m :: int
  assumes "0 < m" "\<not> limit > INT_MAX div m"
  shows "limit * m \<le> INT_MAX"
proof -
  have "limit * m \<le> INT_MAX div m * m" using assms by (intro mult_right_mono) simp_all
  also have "\<dots> \<le> INT_MAX" using assms(1) minus_mod_eq_div_mult [of INT_MAX m, symmetric] pos_mod_sign [of m INT_MAX] by simp
  finally show ?thesis .
qed

text \<open>Setting one flag and clearing others leaves the rest of the flags alone.\<close>

lemma other_flags:
  fixes w f m s :: u16
  assumes "f AND (m OR s) = 0"
  shows "((w OR s) AND NOT m) AND f = w AND f"
proof (rule bit_word_eqI)
  fix n assume "n < LENGTH(16)"
  have "\<not> bit (f AND (m OR s)) n" using assms by simp
  then show "bit (((w OR s) AND NOT m) AND f) n \<longleftrightarrow> bit (w AND f) n"
    using \<open>n < LENGTH(16)\<close> by (auto simp: bit_simps)
qed

lemma set_flag:
  fixes w m s :: u16
  assumes "s AND m = 0"
  shows "((w OR s) AND NOT m) AND s = s"
proof (rule bit_word_eqI)
  fix n assume "n < LENGTH(16)"
  have "\<not> bit (s AND m) n" using assms by simp
  then show "bit (((w OR s) AND NOT m) AND s) n \<longleftrightarrow> bit s n"
    using \<open>n < LENGTH(16)\<close> by (auto simp: bit_simps)
qed

lemma effective_other_flags:
  assumes "f AND ((DENSE_K_DEFAULTED OR BM25_K_DEFAULTED OR RRF_K_DEFAULTED) OR FINAL_K_IS_SET) = 0"
  shows "has_flag (PgturbohybridEffectiveQuery g limit q) f = has_flag q f"
  using other_flags [OF assms, of "q_flags q"]
  by (simp add: has_flag_def PgturbohybridEffectiveQuery_def PgturbohybridCanonicalizeLatencyQuery_def Let_def)

lemma effective_final_k:
  "PgturbohybridEffectiveFinalK (PgturbohybridEffectiveQuery g limit q) limit = PgturbohybridEffectiveFinalK q limit"
proof -
  have "FINAL_K_IS_SET AND (DENSE_K_DEFAULTED OR BM25_K_DEFAULTED OR RRF_K_DEFAULTED) = 0" by (simp add: flag_defs)
  moreover have "FINAL_K_IS_SET \<noteq> 0" by (simp add: flag_defs)
  ultimately show ?thesis using set_flag [of FINAL_K_IS_SET _ "q_flags q"]
    by (simp add: has_flag_def PgturbohybridEffectiveQuery_def PgturbohybridCanonicalizeLatencyQuery_def Let_def
        PgturbohybridEffectiveFinalK_def del: bit.de_Morgan_disj)
qed

text \<open>
  C35. The query a scan executes never asks a branch for more candidates than the caller did and never for
  none when the caller asked for some. Below a \<open>LIMIT\<close>, a branch that was asked for at least the smaller of
  the \<open>LIMIT\<close> and the quality cap still is; with the shipped cap of 400 a defaulted budget of 1000 thus falls to
  400 under \<open>LIMIT 500\<close>, below the \<open>LIMIT\<close>. The number of results, the branches, the payload and the filter on
  lexical matches are the caller's.
\<close>

theorem effective_query_bounds:
  assumes g: "budget_guc_ok g" and l: "limit \<le> INT_MAX"
  shows "let e = PgturbohybridEffectiveQuery g limit q in
    (\<forall>f \<in> {q_denseK, q_multivectorK, q_bm25K}. f e \<le> f q \<and> (1 \<le> f q \<longrightarrow> 1 \<le> f e) \<and>
       (0 < limit \<and> capped_limit g limit \<le> f q \<longrightarrow> capped_limit g limit \<le> f e)) \<and>
    PgturbohybridEffectiveFinalK e limit = PgturbohybridEffectiveFinalK q limit \<and>
    (\<forall>p \<in> {PgturbohybridQueryHasVector, PgturbohybridQueryHasMultiVector, PgturbohybridQueryHasText,
           \<lambda>q. has_flag q REQUIRE_BM25_MATCH}. p e = p q) \<and>
    (\<forall>f \<in> {q_vectorBytes, q_multivectorBytes, q_tsqueryBytes, q_multivectorCount, q_rrfK}. f e = f q)"
proof -
  define e where "e = PgturbohybridEffectiveQuery g limit q"
  have fields: "q_denseK e = PgturbohybridApplyAutoBudget g (q_denseK q) limit (g_auto_budget_min_dense_k g)
      (has_flag q DENSE_K_DEFAULTED) (PgturbohybridQueryHasVector q)"
    "q_multivectorK e = PgturbohybridApplyAutoBudget g (q_multivectorK q) limit (g_auto_budget_min_dense_k g)
      (has_flag q DENSE_K_DEFAULTED) (PgturbohybridQueryHasMultiVector q)"
    "q_bm25K e = PgturbohybridApplyAutoBudget g (q_bm25K q) limit (g_auto_budget_min_bm25_k g)
      (has_flag q BM25_K_DEFAULTED) (has_flag q HAS_TSQUERY)"
    "q_vectorBytes e = q_vectorBytes q" "q_multivectorBytes e = q_multivectorBytes q" "q_tsqueryBytes e = q_tsqueryBytes q"
    "q_multivectorCount e = q_multivectorCount q" "q_rrfK e = q_rrfK q"
    by (simp_all add: e_def PgturbohybridEffectiveQuery_def PgturbohybridCanonicalizeLatencyQuery_def Let_def)
  have b: "1 \<le> g_auto_budget_limit_multiplier g" "1 \<le> g_auto_budget_min_dense_k g" "1 \<le> g_auto_budget_min_bm25_k g"
    using g by (simp_all add: budget_guc_ok_def)
  have "\<forall>f \<in> {q_denseK, q_multivectorK, q_bm25K}. f e \<le> f q \<and> (1 \<le> f q \<longrightarrow> 1 \<le> f e) \<and>
       (0 < limit \<and> capped_limit g limit \<le> f q \<longrightarrow> capped_limit g limit \<le> f e)"
    using auto_budget_bounds [OF b(1) l b(2)] auto_budget_bounds [OF b(1) l b(3)] by (simp add: fields)
  moreover have "has_flag e f = has_flag q f" if "f \<in> {HAS_DENSE, HAS_VECTOR, HAS_MULTIVECTOR, HAS_TSQUERY, REQUIRE_BM25_MATCH}" for f
    unfolding e_def using that by (intro effective_other_flags) (auto simp: flag_defs)
  ultimately show ?thesis using effective_final_k [of g limit q] fields
    unfolding e_def [symmetric] Let_def
    by (simp add: PgturbohybridQueryHasVector_def PgturbohybridQueryHasMultiVector_def PgturbohybridQueryHasText_def)
qed

definition demo_guc :: budget_guc where
  "demo_guc = \<lparr>g_auto_budget = True, g_auto_budget_limit_multiplier = 8, g_auto_budget_quality_cap = 400,
     g_auto_budget_min_dense_k = 32, g_auto_budget_min_bm25_k = 32, g_max_union_candidates = 100000,
     g_profile_latency = True, g_active_limit = -1\<rparr>"

definition demo_query :: query where
  "demo_query = \<lparr>q_version = 4, q_flags = 0x163, q_fusion = FUSION_RRF, q_denseWeight = Fin 1, q_bm25Weight = Fin 1,
     q_multivectorWeight = Fin 1, q_alpha = Fin 0, q_rrfK = 60, q_denseK = 100, q_multivectorK = 100, q_bm25K = 100,
     q_finalK = 0, q_denseKind = 1, q_vectorBytes = 0, q_multivectorBytes = 0, q_tsqueryBytes = 0,
     q_multivectorDim = 0, q_multivectorCount = 0, q_reservedBytes = 0\<rparr>"

theorem effective_query_bounds_witness:
  "budget_guc_ok demo_guc \<and> (let e = PgturbohybridEffectiveQuery demo_guc 500 (demo_query\<lparr>q_denseK := 1000\<rparr>) in
     400 \<le> q_denseK e \<and> q_denseK e = 400)"
proof -
  have g: "budget_guc_ok demo_guc" by (simp add: budget_guc_ok_def demo_guc_def)
  have "q_denseK (PgturbohybridEffectiveQuery demo_guc 500 (demo_query\<lparr>q_denseK := 1000\<rparr>)) = 400"
    by (simp add: PgturbohybridEffectiveQuery_def PgturbohybridCanonicalizeLatencyQuery_def demo_guc_def demo_query_def
        PgturbohybridApplyAutoBudget_def Let_def has_flag_def flag_defs PgturbohybridQueryHasVector_def INT_MAX_def)
  moreover have "capped_limit demo_guc 500 = 400" by (simp add: capped_limit_def demo_guc_def)
  ultimately show ?thesis using effective_query_bounds [OF g, of 500 "demo_query\<lparr>q_denseK := 1000\<rparr>"] g
    by (simp add: INT_MAX_def Let_def)
qed

end
