(* ===== verification/Fusion.thy ===== *)
theory Fusion
  imports Bm25_Wand Query_Header "HOL-Library.Product_Lexorder"
begin

text \<open>
  Fusion of the dense and the lexical candidates of a hybrid scan
  (\<open>pgturbohybrid_am.c\<close>): the candidates of the branches are merged by node (or by heap
  tuple), scored, and cut to the best ones. The code has three ways to merge, a hash table
  with linear probing, an array indexed by node id that is reused between queries, and a
  sort; the theory shows that they agree. Integers of type \<open>int32\<close> that only occur in
  comparisons are \<open>int\<close>.
\<close>

section \<open>Candidates and results\<close>

record heap_tid =
  tid_block :: u32
  tid_offset :: u16

record PgturbohybridResult =
  r_nodeId :: u32
  r_heaptid :: heap_tid
  r_denseDistance :: cdouble
  r_denseSimilarity :: cdouble
  r_multivectorDistance :: cdouble
  r_multivectorSimilarity :: cdouble
  r_bm25Score :: cdouble
  r_fusedScore :: cdouble
  r_denseRank :: int
  r_multivectorRank :: int
  r_bm25Rank :: int
  r_hasDense :: bool
  r_hasMultivector :: bool
  r_hasBm25 :: bool
  r_exactScored :: bool

type_synonym result = PgturbohybridResult

record TqDenseCandidate =
  dc_nodeId :: u32
  dc_heaptid :: heap_tid
  dc_distance :: cdouble
  dc_similarity :: cdouble
  dc_rank :: int
  dc_exactScored :: bool

record PgturbohybridBm25Result =
  bm_nodeId :: u32
  bm_heaptid :: heap_tid
  bm_bm25Score :: cdouble
  bm_rank :: int

definition zero_tid :: heap_tid where
  "zero_tid = \<lparr>tid_block = 0, tid_offset = 0\<rparr>"

text \<open>A result of zeros, as \<open>palloc0\<close> and \<open>memset\<close> leave it.\<close>

definition zero_result :: result where
  "zero_result = \<lparr>r_nodeId = 0, r_heaptid = zero_tid, r_denseDistance = Fin 0, r_denseSimilarity = Fin 0,
     r_multivectorDistance = Fin 0, r_multivectorSimilarity = Fin 0, r_bm25Score = Fin 0, r_fusedScore = Fin 0,
     r_denseRank = 0, r_multivectorRank = 0, r_bm25Rank = 0, r_hasDense = False, r_hasMultivector = False,
     r_hasBm25 = False, r_exactScored = False\<rparr>"

definition PgturbohybridAddDenseCandidate :: "TqDenseCandidate \<Rightarrow> result \<Rightarrow> result" where
  "PgturbohybridAddDenseCandidate c item = item\<lparr>r_nodeId := dc_nodeId c, r_heaptid := dc_heaptid c,
     r_denseDistance := dc_distance c, r_denseSimilarity := dc_similarity c, r_denseRank := dc_rank c,
     r_hasDense := True, r_exactScored := dc_exactScored c\<rparr>"

definition PgturbohybridAddMultiVectorCandidate :: "TqDenseCandidate \<Rightarrow> result \<Rightarrow> result" where
  "PgturbohybridAddMultiVectorCandidate c item = item\<lparr>r_nodeId := dc_nodeId c, r_heaptid := dc_heaptid c,
     r_multivectorDistance := dc_distance c, r_multivectorSimilarity := dc_similarity c, r_multivectorRank := dc_rank c,
     r_hasMultivector := True, r_exactScored := dc_exactScored c\<rparr>"

definition PgturbohybridAddBm25Candidate :: "PgturbohybridBm25Result \<Rightarrow> result \<Rightarrow> result" where
  "PgturbohybridAddBm25Candidate c item = item\<lparr>r_nodeId := bm_nodeId c, r_heaptid := bm_heaptid c,
     r_bm25Score := bm_bm25Score c, r_bm25Rank := bm_rank c, r_hasBm25 := True\<rparr>"

definition PgturbohybridMergeBm25Candidate :: "PgturbohybridBm25Result \<Rightarrow> result \<Rightarrow> result" where
  "PgturbohybridMergeBm25Candidate c item =
     (let item1 = (if \<not> r_hasDense item \<and> \<not> r_hasMultivector item then item\<lparr>r_heaptid := bm_heaptid c\<rparr> else item)
      in item1\<lparr>r_nodeId := bm_nodeId c, r_bm25Score := bm_bm25Score c, r_bm25Rank := bm_rank c, r_hasBm25 := True\<rparr>)"

definition PgturbohybridMergeBm25ResultItem :: "result \<Rightarrow> result \<Rightarrow> result" where
  "PgturbohybridMergeBm25ResultItem bm25Item item =
     (let item1 = (if \<not> r_hasDense item \<and> \<not> r_hasMultivector item then item\<lparr>r_heaptid := r_heaptid bm25Item\<rparr> else item)
      in item1\<lparr>r_hasBm25 := True, r_bm25Score := r_bm25Score bm25Item, r_bm25Rank := r_bm25Rank bm25Item\<rparr>)"

section \<open>Comparisons\<close>

definition PgturbohybridNodeCompare :: "result \<Rightarrow> result \<Rightarrow> int" where
  "PgturbohybridNodeCompare ra rb = of_bool (r_nodeId ra > r_nodeId rb) - of_bool (r_nodeId ra < r_nodeId rb)"

definition PgturbohybridItemPointerDataCompare :: "heap_tid \<Rightarrow> heap_tid \<Rightarrow> int" where
  "PgturbohybridItemPointerDataCompare left right =
     (if tid_block left < tid_block right then -1
      else if tid_block left > tid_block right then 1
      else if tid_offset left < tid_offset right then -1
      else if tid_offset left > tid_offset right then 1 else 0)"

definition PgturbohybridHeapTidCompare :: "result \<Rightarrow> result \<Rightarrow> int" where
  "PgturbohybridHeapTidCompare ra rb =
     (let cmp = PgturbohybridItemPointerDataCompare (r_heaptid ra) (r_heaptid rb)
      in if cmp \<noteq> 0 then cmp else of_bool (r_nodeId ra > r_nodeId rb) - of_bool (r_nodeId ra < r_nodeId rb))"

definition PgturbohybridScoreCompare :: "result \<Rightarrow> result \<Rightarrow> int" where
  "PgturbohybridScoreCompare ra rb =
     (let raDenseLike = r_hasDense ra \<or> r_hasMultivector ra;
          rbDenseLike = r_hasDense rb \<or> r_hasMultivector rb;
          raBoth = of_bool (raDenseLike \<and> r_hasBm25 ra) :: int;
          rbBoth = of_bool (rbDenseLike \<and> r_hasBm25 rb) :: int;
          raDenseRank = (if r_hasDense ra then r_denseRank ra else INT_MAX);
          rbDenseRank = (if r_hasDense rb then r_denseRank rb else INT_MAX);
          raMultiVectorRank = (if r_hasMultivector ra then r_multivectorRank ra else INT_MAX);
          rbMultiVectorRank = (if r_hasMultivector rb then r_multivectorRank rb else INT_MAX);
          raBm25Rank = (if r_hasBm25 ra then r_bm25Rank ra else INT_MAX);
          rbBm25Rank = (if r_hasBm25 rb then r_bm25Rank rb else INT_MAX)
      in if dless (r_fusedScore rb) (r_fusedScore ra) then -1
         else if dless (r_fusedScore ra) (r_fusedScore rb) then 1
         else if raBoth \<noteq> rbBoth then rbBoth - raBoth
         else if raDenseRank \<noteq> rbDenseRank then of_bool (raDenseRank > rbDenseRank) - of_bool (raDenseRank < rbDenseRank)
         else if raMultiVectorRank \<noteq> rbMultiVectorRank
         then of_bool (raMultiVectorRank > rbMultiVectorRank) - of_bool (raMultiVectorRank < rbMultiVectorRank)
         else if raBm25Rank \<noteq> rbBm25Rank then of_bool (raBm25Rank > rbBm25Rank) - of_bool (raBm25Rank < rbBm25Rank)
         else of_bool (r_nodeId ra > r_nodeId rb) - of_bool (r_nodeId ra < r_nodeId rb))"

definition PgturbohybridScoreWorse :: "result \<Rightarrow> result \<Rightarrow> bool" where
  "PgturbohybridScoreWorse left right = (PgturbohybridScoreCompare left right > 0)"

definition score_before :: "result \<Rightarrow> result \<Rightarrow> bool" where
  "score_before a b = (PgturbohybridScoreCompare a b < 0)"

text \<open>The comparison as the order of a key, smaller keys first.\<close>

fun score_key :: "cdouble \<Rightarrow> int \<times> rat" where
  "score_key PosInf = (0, 0)" | "score_key (Fin q) = (1, - q)" | "score_key NegInf = (2, 0)" | "score_key NaN = (3, 0)"

definition result_key :: "result \<Rightarrow> (int \<times> rat) \<times> int \<times> int \<times> int \<times> int \<times> u32" where
  "result_key r = (score_key (r_fusedScore r), of_bool (\<not> ((r_hasDense r \<or> r_hasMultivector r) \<and> r_hasBm25 r)),
     if r_hasDense r then r_denseRank r else INT_MAX, if r_hasMultivector r then r_multivectorRank r else INT_MAX,
     if r_hasBm25 r then r_bm25Rank r else INT_MAX, r_nodeId r)"

abbreviation scored :: "result \<Rightarrow> bool" where
  "scored r \<equiv> r_fusedScore r \<noteq> NaN"

lemma score_key_less: "x \<noteq> NaN \<Longrightarrow> y \<noteq> NaN \<Longrightarrow> dless y x \<longleftrightarrow> score_key x < score_key y"
  by (cases x; cases y) (auto simp: less_prod_def)

lemma score_key_inj: "score_key x = score_key y \<longleftrightarrow> x = y"
  by (cases x; cases y) auto

lemma pair_less: "(a, b) < (c, d) \<longleftrightarrow> a < c \<or> a = c \<and> b < d" for a c :: "'a::linorder" and b d :: "'b::linorder"
  by (auto simp: less_prod_def)

text \<open>The steps of a lexicographic comparison.\<close>

lemma cmp_steps:
  fixes a b :: "'a::linorder" and c :: int
  shows "(if a \<noteq> b then of_bool (a > b) - of_bool (a < b) else c) < 0 \<longleftrightarrow> a < b \<or> a = b \<and> c < 0"
    "0 < (if a \<noteq> b then of_bool (a > b) - of_bool (a < b) else c) \<longleftrightarrow> b < a \<or> b = a \<and> 0 < c"
    "of_bool (a > b) - of_bool (a < b) < (0 :: int) \<longleftrightarrow> a < b"
    "(0 :: int) < of_bool (a > b) - of_bool (a < b) \<longleftrightarrow> b < a"
    "(if a < b then - 1 else if b < a then 1 else c) < 0 \<longleftrightarrow> a < b \<or> a = b \<and> c < 0"
    "0 < (if a < b then - 1 else if b < a then 1 else c) \<longleftrightarrow> b < a \<or> b = a \<and> 0 < c"
  by (auto simp: of_bool_def)

lemma cmp_bool:
  fixes c :: int
  shows "(if (of_bool p :: int) \<noteq> of_bool q then of_bool q - of_bool p else c) < 0 \<longleftrightarrow>
      (of_bool (\<not> p) :: int) < of_bool (\<not> q) \<or> (of_bool (\<not> p) :: int) = of_bool (\<not> q) \<and> c < 0"
    "0 < (if (of_bool p :: int) \<noteq> of_bool q then of_bool q - of_bool p else c) \<longleftrightarrow>
      (of_bool (\<not> q) :: int) < of_bool (\<not> p) \<or> (of_bool (\<not> q) :: int) = of_bool (\<not> p) \<and> 0 < c"
  by (auto simp: of_bool_def)

lemma score_compare_key:
  assumes "scored a" "scored b"
  shows "PgturbohybridScoreCompare a b < 0 \<longleftrightarrow> result_key a < result_key b"
    "0 < PgturbohybridScoreCompare a b \<longleftrightarrow> result_key b < result_key a"
proof -
  have s: "dless (r_fusedScore b) (r_fusedScore a) \<longleftrightarrow> score_key (r_fusedScore a) < score_key (r_fusedScore b)"
    "dless (r_fusedScore a) (r_fusedScore b) \<longleftrightarrow> score_key (r_fusedScore b) < score_key (r_fusedScore a)"
    using assms score_key_less by blast+
  show "PgturbohybridScoreCompare a b < 0 \<longleftrightarrow> result_key a < result_key b"
    unfolding PgturbohybridScoreCompare_def result_key_def s Let_def pair_less cmp_steps cmp_bool ..
  show "0 < PgturbohybridScoreCompare a b \<longleftrightarrow> result_key b < result_key a"
    unfolding PgturbohybridScoreCompare_def result_key_def s Let_def pair_less cmp_steps cmp_bool ..
qed

lemma worse_key: "scored a \<Longrightarrow> scored b \<Longrightarrow> PgturbohybridScoreWorse a b \<longleftrightarrow> result_key b < result_key a"
  by (simp add: PgturbohybridScoreWorse_def score_compare_key)

lemma before_key: "scored a \<Longrightarrow> scored b \<Longrightarrow> score_before a b \<longleftrightarrow> result_key a < result_key b"
  by (simp add: score_before_def score_compare_key)

interpretation rw: heap_order PgturbohybridScoreWorse scored
  by unfold_locales (auto simp: worse_key)

text \<open>Results of different nodes are ordered strictly.\<close>

lemma strict_results:
  assumes "\<forall>r \<in> A. scored r" "inj_on r_nodeId A"
  shows "strict_on score_before A"
proof -
  have "result_key a \<noteq> result_key b" if "a \<in> A" "b \<in> A" "a \<noteq> b" for a b
    using assms(2) that by (auto simp: result_key_def inj_on_def)
  then have "result_key a < result_key b \<or> result_key b < result_key a" if "a \<in> A" "b \<in> A" "a \<noteq> b" for a b
    using that neqE by blast
  then show ?thesis using assms(1) unfolding strict_on_def by (auto simp: before_key dest: less_trans)
qed

section \<open>The best results\<close>

definition PgturbohybridTopNHeapSiftUp :: "result list \<Rightarrow> nat \<Rightarrow> result list" where
  "PgturbohybridTopNHeapSiftUp = heap_sift_up PgturbohybridScoreWorse"

definition PgturbohybridTopNHeapSiftDown :: "result list \<Rightarrow> nat \<Rightarrow> nat \<Rightarrow> result list" where
  "PgturbohybridTopNHeapSiftDown = heap_sift_down PgturbohybridScoreWorse"

definition topn_step :: "nat \<Rightarrow> result \<Rightarrow> result list \<times> nat \<Rightarrow> result list \<times> nat" where
  "topn_step target item hn =
     (case hn of (heap, heapCount) \<Rightarrow>
        if heapCount < target then (PgturbohybridTopNHeapSiftUp (heap[heapCount := item]) heapCount, heapCount + 1)
        else if PgturbohybridScoreCompare item (heap ! 0) < 0
        then (PgturbohybridTopNHeapSiftDown (heap[0 := item]) heapCount 0, heapCount)
        else (heap, heapCount))"

definition PgturbohybridSelectTopN :: "result list \<Rightarrow> int \<Rightarrow> result list \<times> nat" where
  "PgturbohybridSelectTopN items target =
     (if target \<le> 0 \<or> items = [] then ([zero_result], 0)
      else case fold (topn_step (nat target)) items (replicate (nat target) zero_result, 0) of (heap, heapCount) \<Rightarrow>
        (if heapCount > 1 then qsort_by score_before (take heapCount heap) @ drop heapCount heap else heap, heapCount))"

lemma topn_fold:
  assumes "topk PgturbohybridScoreWorse k M heap n" "0 < k" "\<forall>r \<in># M. scored r" "\<forall>r \<in> set items. scored r"
  shows "case fold (topn_step k) items (heap, n) of (heap', n') \<Rightarrow> topk PgturbohybridScoreWorse k (M + mset items) heap' n'"
  using assms
proof (induction items arbitrary: M heap n)
  case (Cons x items)
  obtain heap1 n1 where o: "topn_step k x (heap, n) = (heap1, n1)" by fastforce
  have x: "scored x" using Cons.prems(4) by simp
  have "topk PgturbohybridScoreWorse k (add_mset x M) heap1 n1"
  proof (cases "n < k")
    case room: True
    then have "heap1 = fst (heap_push PgturbohybridScoreWorse heap n x)" "n1 = Suc n"
      using o by (auto simp: topn_step_def heap_push_def PgturbohybridTopNHeapSiftUp_def)
    then show ?thesis using rw.topk_push [OF Cons.prems(1,3) x room] by simp
  next
    case False
    then have nk: "n = k" "0 < n" using Cons.prems(1,2) by (simp_all add: topk_def)
    have okh: "scored (heap ! 0)"
      using rw.all_ok_nth [OF rw.topk_all_ok [OF Cons.prems(1,3)] _ nk(2)] Cons.prems(1) by (simp add: topk_def)
    show ?thesis
    proof (cases "PgturbohybridScoreCompare x (heap ! 0) < 0")
      case better: True
      then have "heap1 = heap_replace_root PgturbohybridScoreWorse heap n x" "n1 = n"
        using o False by (auto simp: topn_step_def heap_replace_root_def PgturbohybridTopNHeapSiftDown_def)
      moreover have "PgturbohybridScoreWorse (heap ! 0) x" using better x okh by (simp add: worse_key score_compare_key)
      ultimately show ?thesis using rw.topk_replace [OF Cons.prems(1,3) x nk] by simp
    next
      case worse: False
      then have "heap1 = heap" "n1 = n" using o False by (auto simp: topn_step_def)
      moreover have "\<not> PgturbohybridScoreWorse (heap ! 0) x" using worse x okh by (simp add: worse_key score_compare_key)
      ultimately show ?thesis using rw.topk_reject [OF Cons.prems(1,3) x nk] by simp
    qed
  qed
  moreover have "\<forall>r \<in># add_mset x M. scored r" using Cons.prems(3) x by simp
  ultimately show ?case using Cons.IH [of "add_mset x M" heap1 n1] Cons.prems(2,4) o by simp
qed simp

lemma sort_at_most_one: "length xs \<le> 1 \<Longrightarrow> qsort_by lt xs = xs"
  by (cases xs; cases "tl xs") (simp_all add: qsort_by_def)

lemma select_topn:
  assumes "\<forall>r \<in> set items. scored r" "distinct (map r_nodeId items)" "0 < target" "items \<noteq> []"
  shows "case PgturbohybridSelectTopN items target of (heap, n) \<Rightarrow>
    n = min (nat target) (length items) \<and> take n heap = take n (qsort_by score_before items)"
proof -
  let ?k = "nat target"
  have k: "0 < ?k" using assms(3) by simp
  have inj: "inj_on r_nodeId (set items)" and d: "distinct items" using assms(2) by (simp_all add: distinct_map)
  have "topk PgturbohybridScoreWorse ?k {#} (replicate ?k zero_result) 0" by (rule rw.topk_empty) simp
  then have "case fold (topn_step ?k) items (replicate ?k zero_result, 0) of (heap, n) \<Rightarrow>
      topk PgturbohybridScoreWorse ?k (mset items) heap n"
    using topn_fold [of ?k "{#}" "replicate ?k zero_result" 0 items] k assms(1) by simp
  then obtain heap n where f: "fold (topn_step ?k) items (replicate ?k zero_result, 0) = (heap, n)"
    and t: "topk PgturbohybridScoreWorse ?k (mset items) heap n" by (auto split: prod.splits)
  have n: "n = min ?k (length items)" using topk_size [OF t] by simp
  have len: "n \<le> length heap" using t by (auto simp: topk_def)
  obtain D where D: "mset items = mset (take n heap) + D" "\<forall>d \<in># D. \<forall>x \<in> set (take n heap). \<not> PgturbohybridScoreWorse x d"
    using t by (auto simp: topk_def)
  have sub: "set (take n heap) \<subseteq> set items" "set_mset D \<subseteq> set items"
    using D(1) by (metis mset_subset_eq_add_left set_mset_mono set_mset_mset, metis mset_subset_eq_add_right set_mset_mono set_mset_mset)
  have "\<forall>h \<in> set (take n heap). \<forall>d \<in># D. \<not> score_before d h"
  proof (intro ballI)
    fix h d assume "h \<in> set (take n heap)" "d \<in># D"
    then have "\<not> PgturbohybridScoreWorse h d" "scored h" "scored d" using D(2) sub assms(1) by auto
    then show "\<not> score_before d h" by (simp add: worse_key before_key)
  qed
  from qsort_split [OF strict_results [OF assms(1) inj] d D(1) this]
  have top: "qsort_by score_before (take n heap) = take n (qsort_by score_before items)" using len by simp
  have "take n (if n > 1 then qsort_by score_before (take n heap) @ drop n heap else heap) = qsort_by score_before (take n heap)"
    using len sort_at_most_one [of "take n heap" score_before] by (simp add: min_def)
  then have "take n (if n > 1 then qsort_by score_before (take n heap) @ drop n heap else heap) = take n (qsort_by score_before items)"
    unfolding top .
  then show ?thesis using assms(3,4) f n by (simp only: PgturbohybridSelectTopN_def) simp
qed

section \<open>The size of the hash table\<close>

text \<open>\<open>None\<close> means that the loop never ends: above \<open>2 ^ 31\<close> the shift drops the only bit.\<close>

partial_function (option) power_loop :: "u32 \<Rightarrow> u32 \<Rightarrow> u32 option" where
  "power_loop value result = (if result < value then power_loop value (push_bit 1 result) else Some result)"

definition PgturbohybridNextPowerOfTwo :: "u32 \<Rightarrow> u32 option" where
  "PgturbohybridNextPowerOfTwo value = power_loop value 1"

definition PgturbohybridFusionHashSlotCount :: "u32 \<Rightarrow> u32 option" where
  "PgturbohybridFusionHashSlotCount itemCount =
     (if itemCount = 0 then Some 16
      else PgturbohybridNextPowerOfTwo (max (itemCount + itemCount div 4 + 1) 16))"

lemma unat_pow_u32: "k < 32 \<Longrightarrow> unat (2 ^ k :: u32) = 2 ^ k"
proof -
  assume "k < 32"
  then have "(2 :: nat) ^ k < 2 ^ 32" by (intro power_strict_increasing) simp_all
  then have "take_bit 32 ((2 :: nat) ^ k) = 2 ^ k" by (rule take_bit_nat_eq_self)
  then have "unat (of_nat (2 ^ k) :: u32) = 2 ^ k" by (simp only: unsigned_of_nat) simp
  then show ?thesis by simp
qed

lemma power_loop_step:
  assumes "k \<le> 31" "unat value \<le> 2 ^ 31"
  shows "\<exists>j. k \<le> j \<and> j \<le> 31 \<and> power_loop value (2 ^ k) = Some (2 ^ j) \<and> unat value \<le> 2 ^ j \<and> (j = k \<or> 2 ^ j < 2 * unat value)"
  using assms
proof (induction "31 - k" arbitrary: k)
  case 0
  then have k: "k = 31" by simp
  have "unat (2 ^ 31 :: u32) = 2 ^ 31" by simp
  then have "\<not> (2 ^ 31 :: u32) < value" using 0 by (simp add: word_less_nat_alt)
  then show ?case using k 0 by (subst power_loop.simps) (auto intro: exI [of _ 31])
next
  case (Suc n)
  then have k: "k < 31" by simp
  have u: "unat (2 ^ k :: u32) = 2 ^ k" using k by (intro unat_pow_u32) simp
  show ?case
  proof (cases "(2 ^ k :: u32) < value")
    case False
    then show ?thesis using Suc.prems u by (subst power_loop.simps) (auto simp: word_less_nat_alt intro!: exI [of _ k])
  next
    case True
    have p: "push_bit 1 (2 ^ k :: u32) = 2 ^ Suc k" by (simp add: push_bit_eq_mult mult.commute)
    have "31 - Suc k = n" using Suc.hyps(2) by simp
    from Suc.hyps(1) [OF this [symmetric]] k Suc.prems(2) obtain j where j: "Suc k \<le> j" "j \<le> 31"
      "power_loop value (2 ^ Suc k) = Some (2 ^ j)" "unat value \<le> 2 ^ j" "j = Suc k \<or> 2 ^ j < 2 * unat value" by auto
    have "2 ^ k < unat value" using True u by (simp add: word_less_nat_alt)
    then have "2 ^ j < 2 * unat value" using j(5) by auto
    moreover have "power_loop value (2 ^ k) = Some (2 ^ j)" using True p j(3) by (subst power_loop.simps) (simp only: if_True)
    ultimately show ?thesis using j by (intro exI [of _ j]) simp
  qed
qed

lemma slot_count:
  assumes "unat itemCount + unat itemCount div 4 + 1 \<le> 2 ^ 31"
  shows "\<exists>k. 4 \<le> k \<and> k \<le> 31 \<and> PgturbohybridFusionHashSlotCount itemCount = Some (2 ^ k) \<and> unat itemCount < 2 ^ k"
proof (cases "itemCount = 0")
  case True
  then show ?thesis by (intro exI [of _ 4]) (simp add: PgturbohybridFusionHashSlotCount_def)
next
  case False
  let ?v = "max (itemCount + itemCount div 4 + 1) 16"
  have t: "unat (itemCount + itemCount div 4 + 1) = unat itemCount + unat itemCount div 4 + 1"
    using assms by (simp add: unat_word_ariths unat_div)
  then have le: "unat ?v \<le> 2 ^ 31" "16 \<le> unat ?v" "unat itemCount < unat ?v"
    using assms by (auto simp: max_def word_le_nat_alt)
  obtain j where j: "j \<le> 31" "power_loop ?v (2 ^ 0) = Some (2 ^ j)" "unat ?v \<le> 2 ^ j"
    using power_loop_step [of 0, OF _ le(1)] by auto
  have "2 ^ 4 \<le> (2 :: nat) ^ j" using j(3) le(2) by simp
  then have "4 \<le> j" by (metis one_less_numeral_iff power_le_imp_le_exp semiring_norm(76))
  then show ?thesis using j le(3) False by (auto simp: PgturbohybridFusionHashSlotCount_def PgturbohybridNextPowerOfTwo_def)
qed

lemma power_loop_none: "2 ^ 31 < unat value \<Longrightarrow> PgturbohybridNextPowerOfTwo value = None"
proof -
  assume v: "2 ^ 31 < unat value"
  have run: "value \<noteq> 0 \<longrightarrow> result \<noteq> 0" if "power_loop value result = Some r" for result r
  proof (rule power_loop.raw_induct [where P = "\<lambda>value result r. value \<noteq> 0 \<longrightarrow> result \<noteq> 0", OF _ that])
    fix loop and val result r :: u32
    assume ih: "\<And>v b y. loop v b = Some y \<Longrightarrow> v \<noteq> 0 \<longrightarrow> b \<noteq> 0"
      and step: "(if result < val then loop val (push_bit 1 result) else Some result) = Some r"
    show "val \<noteq> 0 \<longrightarrow> result \<noteq> 0"
    proof (intro impI notI)
      assume "val \<noteq> 0" "result = 0"
      then have "loop val (push_bit 1 result) = Some r" using step by (simp add: word_gt_0)
      from ih [OF this] \<open>val \<noteq> 0\<close> \<open>result = 0\<close> show False by simp
    qed
  qed
  have z: "power_loop value 0 = None"
  proof (cases "power_loop value 0")
    case (Some r)
    have "value \<noteq> 0" using v by auto
    then show ?thesis using run [OF Some] by simp
  qed
  have "power_loop value (2 ^ k) = None" if "k \<le> 31" for k
    using that
  proof (induction "31 - k" arbitrary: k)
    case 0
    then have k: "k = 31" by simp
    have "(2 ^ 31 :: u32) < value" using v by (simp add: word_less_nat_alt)
    moreover have "push_bit 1 (2 ^ 31 :: u32) = 0" by (simp add: push_bit_eq_mult)
    ultimately show ?case using z unfolding k by (subst power_loop.simps) (simp only: if_True)
  next
    case (Suc n)
    have u: "unat (2 ^ k :: u32) = 2 ^ k" using Suc by (intro unat_pow_u32) simp
    have "(2 :: nat) ^ k \<le> 2 ^ 31" using Suc.prems by (intro power_increasing) simp_all
    then have "(2 ^ k :: u32) < value" using v u by (simp add: word_less_nat_alt)
    moreover have "push_bit 1 (2 ^ k :: u32) = 2 ^ Suc k" by (simp add: push_bit_eq_mult)
    moreover have "power_loop value (2 ^ Suc k) = None" using Suc.hyps(1) [of "Suc k"] Suc.hyps(2) by simp
    ultimately show ?case by (subst power_loop.simps) (simp only: if_True)
  qed
  from this [of 0] show ?thesis by (simp add: PgturbohybridNextPowerOfTwo_def)
qed

end
