(* ===== verification/Fusion_Merge.thy ===== *)
theory Fusion_Merge
  imports Fusion
begin

text \<open>
  Merging of the branches of a hybrid scan (\<open>pgturbohybrid_am.c\<close>): the linear-probing hash
  table keyed by node id or by heap tuple, the array of entries stamped with a generation
  that later queries reuse, and the merge of a sorted list. Each of them is shown to compute
  the map \<open>merge_map\<close> from keys to merged results.
\<close>

section \<open>The map that merging computes\<close>

text \<open>A visit of key \<open>k\<close> applies \<open>f\<close> to the result of \<open>k\<close>, which is \<open>new k\<close> at the first visit.\<close>

definition visit :: "('k \<Rightarrow> result) \<Rightarrow> 'k \<times> (result \<Rightarrow> result) \<Rightarrow> ('k \<Rightarrow> result option) \<Rightarrow> 'k \<Rightarrow> result option" where
  "visit new kf M = (case kf of (k, f) \<Rightarrow> M(k \<mapsto> f (case M k of None \<Rightarrow> new k | Some r \<Rightarrow> r)))"

definition merge_map :: "('k \<Rightarrow> result) \<Rightarrow> ('k \<times> (result \<Rightarrow> result)) list \<Rightarrow> 'k \<Rightarrow> result option" where
  "merge_map new kfs = fold (visit new) kfs Map.empty"

lemma dom_visit [simp]: "dom (visit new kf M) = insert (fst kf) (dom M)"
  by (cases kf) (simp add: visit_def)

lemma dom_fold_visit: "dom (fold (visit new) kfs M) = dom M \<union> fst ` set kfs"
  by (induction kfs arbitrary: M) auto

text \<open>
  A list holds the merged results: one entry for each key, and only those with a lexical
  match when the query demands one.
\<close>

definition wanted :: "bool \<Rightarrow> result \<Rightarrow> bool" where
  "wanted requireBm25 r = (\<not> requireBm25 \<or> r_hasBm25 r)"

definition lists_map :: "(result \<Rightarrow> 'k) \<Rightarrow> bool \<Rightarrow> ('k \<Rightarrow> result option) \<Rightarrow> result list \<Rightarrow> bool" where
  "lists_map key req M rs \<longleftrightarrow>
     distinct (map key rs) \<and> (\<forall>r. r \<in> set rs \<longleftrightarrow> M (key r) = Some r \<and> wanted req r)"

lemma lists_map_mset: "lists_map key req M rs \<Longrightarrow> lists_map key req M ss \<Longrightarrow> mset rs = mset ss"
  by (subst set_eq_iff_mset_eq_distinct [symmetric]) (auto simp: lists_map_def distinct_map)

lemma merge_map_keyed:
  assumes "merge_map new kfs k = Some r" "\<And>k. key (new k) = k" "\<And>k f r. (k, f) \<in> set kfs \<Longrightarrow> key r = k \<Longrightarrow> key (f r) = k"
  shows "key r = k"
proof -
  have "fold (visit new) kfs M k = Some r \<Longrightarrow> \<forall>k r. M k = Some r \<longrightarrow> key r = k \<Longrightarrow> key r = k" for M
    using assms(3)
  proof (induction kfs arbitrary: M)
    case (Cons kf kfs)
    obtain x f where kf: "kf = (x, f)" by (cases kf)
    have "\<forall>k r. visit new kf M k = Some r \<longrightarrow> key r = k"
      using Cons.prems(2,3) assms(2) kf by (auto simp: visit_def split: option.splits if_splits)
    then show ?case using Cons.IH Cons.prems(1,3) by simp
  qed simp
  then show ?thesis using assms(1) by (auto simp: merge_map_def)
qed

section \<open>The hash table\<close>

record PgturbohybridMergeSlot =
  sl_used :: bool
  sl_result :: result

type_synonym slots = "PgturbohybridMergeSlot list"

definition empty_slots :: "nat \<Rightarrow> slots" where
  "empty_slots n = replicate n \<lparr>sl_used = False, sl_result = zero_result\<rparr>"

definition PgturbohybridHashNodeId :: "u32 \<Rightarrow> u32" where
  "PgturbohybridHashNodeId nodeId = nodeId * 2654435761"

definition PgturbohybridHashHeapTid :: "heap_tid \<Rightarrow> u32" where
  "PgturbohybridHashHeapTid t = (tid_block t * 2654435761) XOR (ucast (tid_offset t) * 2246822519)"

text \<open>
  The probing loop that both lookups share: the slots with the found one claimed, and its
  position. It has no bound of its own, so a full table without the key is \<open>None\<close>.
\<close>

partial_function (option) probe ::
  "(result \<Rightarrow> bool) \<Rightarrow> (result \<Rightarrow> result) \<Rightarrow> u32 \<Rightarrow> slots \<Rightarrow> u32 \<Rightarrow> (slots \<times> nat) option" where
  "probe same claim m slots slotNo =
     (let slot = slots ! unat slotNo in
      if \<not> sl_used slot
      then Some (slots[unat slotNo := slot\<lparr>sl_used := True, sl_result := claim (sl_result slot)\<rparr>], unat slotNo)
      else if same (sl_result slot) then Some (slots, unat slotNo)
      else probe same claim m slots ((slotNo + 1) AND m))"

definition PgturbohybridFindMergeSlot :: "u32 \<Rightarrow> u32 \<Rightarrow> slots \<Rightarrow> (slots \<times> nat) option" where
  "PgturbohybridFindMergeSlot m nodeId slots =
     probe (\<lambda>r. r_nodeId r = nodeId) (\<lambda>r. r\<lparr>r_nodeId := nodeId\<rparr>) m slots (PgturbohybridHashNodeId nodeId AND m)"

definition PgturbohybridFindMergeSlotByHeapTid :: "u32 \<Rightarrow> heap_tid \<Rightarrow> slots \<Rightarrow> (slots \<times> nat) option" where
  "PgturbohybridFindMergeSlotByHeapTid m heaptid slots =
     probe (\<lambda>r. PgturbohybridItemPointerDataCompare (r_heaptid r) heaptid = 0) (\<lambda>r. r\<lparr>r_heaptid := heaptid\<rparr>) m slots
       (PgturbohybridHashHeapTid heaptid AND m)"

text \<open>The caller updates the result the lookup points to.\<close>

definition slot_update :: "(result \<Rightarrow> result) \<Rightarrow> slots \<times> nat \<Rightarrow> slots" where
  "slot_update f si = (case si of (slots, i) \<Rightarrow> slots[i := (slots ! i)\<lparr>sl_result := f (sl_result (slots ! i))\<rparr>])"

definition slot_results :: "bool \<Rightarrow> slots \<Rightarrow> result list" where
  "slot_results requireBm25 slots = filter (wanted requireBm25) (map sl_result (filter sl_used slots))"

section \<open>What a lookup in the table means\<close>

text \<open>
  The invariant of the table for the map \<open>M\<close>: a used slot holds the result of its key, no
  key has two slots, and the probe sequence of a key reaches its slot over used slots only.
\<close>

definition home :: "('k \<Rightarrow> u32) \<Rightarrow> nat \<Rightarrow> 'k \<Rightarrow> nat \<Rightarrow> nat" where
  "home hash n k d = (unat (hash k) + d) mod n"

definition table_inv ::
  "(result \<Rightarrow> 'k) \<Rightarrow> ('k \<Rightarrow> u32) \<Rightarrow> nat \<Rightarrow> slots \<Rightarrow> ('k \<Rightarrow> result option) \<Rightarrow> bool" where
  "table_inv key hash n slots M \<longleftrightarrow> length slots = n \<and>
     (\<forall>i < n. if sl_used (slots ! i) then M (key (sl_result (slots ! i))) = Some (sl_result (slots ! i))
              else sl_result (slots ! i) = zero_result) \<and>
     (\<forall>i < n. \<forall>j < n. sl_used (slots ! i) \<longrightarrow> sl_used (slots ! j) \<longrightarrow>
        key (sl_result (slots ! i)) = key (sl_result (slots ! j)) \<longrightarrow> i = j) \<and>
     (\<forall>k r. M k = Some r \<longrightarrow>
        (\<exists>d < n. key (sl_result (slots ! home hash n k d)) = k \<and> (\<forall>e \<le> d. sl_used (slots ! home hash n k e))))"

lemma slot_updates:
  "s\<lparr>sl_used := u, sl_result := r\<rparr> = \<lparr>sl_used = u, sl_result = r\<rparr>"
  "sl_used s \<Longrightarrow> s\<lparr>sl_result := r\<rparr> = \<lparr>sl_used = True, sl_result = r\<rparr>" for s :: PgturbohybridMergeSlot
  by (cases s; simp)+

lemma distinct_filter_nth:
  "\<forall>i < length xs. \<forall>j < length xs. P (xs ! i) \<longrightarrow> P (xs ! j) \<longrightarrow> g (xs ! i) = g (xs ! j) \<longrightarrow> i = j \<Longrightarrow>
   distinct (map g (filter P xs))"
proof (induction xs)
  case (Cons x xs)
  have "distinct (map g (filter P xs))" using Cons.prems by (intro Cons.IH) fastforce
  moreover have "g x \<noteq> g y" if y: "P x" "y \<in> set xs" "P y" for y
  proof -
    obtain j where "j < length xs" "xs ! j = y" using y(2) by (auto simp: in_set_conv_nth)
    then show ?thesis using Cons.prems [rule_format, of 0 "Suc j"] y by auto
  qed
  ultimately show ?case by auto
qed simp

lemma unat_and_mask:
  fixes x :: u32
  shows "k \<le> 31 \<Longrightarrow> unat (x AND (2 ^ k - 1)) = unat x mod 2 ^ k"
  by (simp add: take_bit_eq_mask [symmetric] mask_eq_exp_minus_1 [symmetric] unsigned_take_bit_eq)
    (simp add: take_bit_eq_mod)

lemma next_slot:
  fixes s :: u32
  assumes "k \<le> 31" "unat s = home hash (2 ^ k) x d"
  shows "unat ((s + 1) AND (2 ^ k - 1)) = home hash (2 ^ k) x (Suc d)"
proof -
  have "(2 :: nat) ^ k \<le> 2 ^ 31" using assms(1) by (intro power_increasing) simp_all
  moreover have "unat s < 2 ^ k" using assms(2) by (simp add: home_def)
  ultimately have "unat (s + 1) = unat s + 1" by (simp add: unat_word_ariths)
  then have "unat ((s + 1) AND (2 ^ k - 1)) = ((unat (hash x) + d) mod 2 ^ k + 1) mod 2 ^ k"
    using assms by (simp add: unat_and_mask home_def)
  then show ?thesis by (simp add: home_def mod_Suc_eq)
qed

text \<open>Probing stops at the first slot that is unused or holds the key.\<close>

lemma probe_stops:
  assumes "k \<le> 31" "unat s = home hash (2 ^ k) x d" "d \<le> stop"
    and "\<forall>e. d \<le> e \<and> e < stop \<longrightarrow> sl_used (slots ! home hash (2 ^ k) x e) \<and> \<not> same (sl_result (slots ! home hash (2 ^ k) x e))"
  shows "probe same claim (2 ^ k - 1) slots s = probe same claim (2 ^ k - 1) slots (of_nat (home hash (2 ^ k) x stop))"
  using assms(2-)
proof (induction "stop - d" arbitrary: d s)
  case 0
  then have "d = stop" by simp
  then have "of_nat (home hash (2 ^ k) x stop) = s" unfolding 0(2) [unfolded \<open>d = stop\<close>, symmetric] by simp
  then show ?case by simp
next
  case (Suc n)
  then have "d < stop" by simp
  then have u: "sl_used (slots ! unat s)" "\<not> same (sl_result (slots ! unat s))" using Suc.prems by auto
  have "probe same claim (2 ^ k - 1) slots s = probe same claim (2 ^ k - 1) slots ((s + 1) AND (2 ^ k - 1))"
    using u by (subst probe.simps) (simp add: Let_def)
  also have "\<dots> = probe same claim (2 ^ k - 1) slots (of_nat (home hash (2 ^ k) x stop))"
    using Suc.prems \<open>d < stop\<close> Suc.hyps(2) by (intro Suc.hyps(1) [of "Suc d"]) (auto simp: next_slot [OF assms(1)])
  finally show ?case .
qed

locale merge_key =
  fixes key :: "result \<Rightarrow> 'k" and claim :: "'k \<Rightarrow> result \<Rightarrow> result" and same :: "'k \<Rightarrow> result \<Rightarrow> bool"
    and hash :: "'k \<Rightarrow> u32"
  assumes key_claim: "key (claim k r) = k"
    and same_key: "same k r \<longleftrightarrow> key r = k"
begin

lemma unused_slot:
  assumes inv: "table_inv key hash n slots M" and fin: "finite (dom M)" and room: "card (dom M) < n"
  shows "\<exists>i < n. \<not> sl_used (slots ! i)"
proof (rule ccontr)
  assume "\<not> ?thesis"
  then have u: "\<forall>i < n. sl_used (slots ! i)" by auto
  have "inj_on (\<lambda>i. key (sl_result (slots ! i))) {..<n}" using inv u by (auto simp: table_inv_def inj_on_def)
  moreover have "(\<lambda>i. key (sl_result (slots ! i))) ` {..<n} \<subseteq> dom M" using inv u by (fastforce simp: table_inv_def)
  ultimately have "card {..<n} \<le> card (dom M)" using fin by (rule card_inj_on_le)
  then show False using room by simp
qed

text \<open>The probe sequence of a key visits every slot.\<close>

lemma home_covers: "i < n \<Longrightarrow> \<exists>d < n. home hash n k d = i"
proof -
  assume i: "i < n"
  let ?h = "unat (hash k) mod n"
  have h: "?h < n" using i by simp
  let ?d = "(i + n - ?h) mod n"
  have "home hash n k ?d = (?h + (i + n - ?h)) mod n" by (simp add: home_def mod_add_eq mod_add_left_eq mod_add_right_eq)
  also have "?h + (i + n - ?h) = i + n" using h by simp
  also have "(i + n) mod n = i" using i by simp
  finally show ?thesis using i by (intro exI [of _ ?d]) simp
qed

lemma find_slot:
  assumes inv: "table_inv key hash (2 ^ b) slots M" and fin: "finite (dom M)" and room: "card (dom M) < 2 ^ b" and b: "b \<le> 31"
  shows "\<exists>i slots'. probe (same k) (claim k) (2 ^ b - 1) slots (hash k AND (2 ^ b - 1)) = Some (slots', i) \<and> i < 2 ^ b \<and>
    (\<exists>d < 2 ^ b. home hash (2 ^ b) k d = i \<and> (\<forall>e < d. sl_used (slots ! home hash (2 ^ b) k e))) \<and>
    (if M k = None then \<not> sl_used (slots ! i) \<and> slots' = slots[i := \<lparr>sl_used = True, sl_result = claim k zero_result\<rparr>]
     else slots' = slots \<and> sl_used (slots ! i) \<and> key (sl_result (slots ! i)) = k)"
proof -
  let ?n = "2 ^ b :: nat" and ?h = "home hash (2 ^ b) k"
  let ?stop = "\<lambda>d. \<not> sl_used (slots ! ?h d) \<or> key (sl_result (slots ! ?h d)) = k"
  define d where "d = (LEAST d. ?stop d)"
  obtain i0 where "i0 < ?n" "\<not> sl_used (slots ! i0)" using unused_slot [OF inv fin room] by auto
  moreover obtain d0 where "d0 < ?n" "?h d0 = i0" using home_covers [OF \<open>i0 < ?n\<close>] by auto
  ultimately have s0: "?stop d0" "d0 < ?n" by auto
  have stop: "?stop d" and dn: "d < ?n" unfolding d_def using LeastI [of ?stop d0] Least_le [of ?stop d0] s0 by auto
  have before: "\<forall>e < d. sl_used (slots ! ?h e) \<and> key (sl_result (slots ! ?h e)) \<noteq> k"
    unfolding d_def using not_less_Least [of _ ?stop] by blast
  have hn: "?h d < ?n" by (simp add: home_def)
  have "(2 :: nat) ^ b \<le> 2 ^ 31" using b by (intro power_increasing) simp_all
  then have uh: "unat (of_nat (?h d) :: u32) = ?h d" using hn by (simp add: unat_of_nat)
  have "unat (hash k AND (2 ^ b - 1)) = ?h 0" using b by (simp add: unat_and_mask home_def)
  from probe_stops [OF b this, of d slots "same k" "claim k"] before
  have p: "probe (same k) (claim k) (2 ^ b - 1) slots (hash k AND (2 ^ b - 1)) =
      probe (same k) (claim k) (2 ^ b - 1) slots (of_nat (?h d))" by (simp add: same_key)
  show ?thesis
  proof (cases "sl_used (slots ! ?h d)")
    case True
    then have key: "key (sl_result (slots ! ?h d)) = k" using stop by simp
    have "M k \<noteq> None" using inv True key hn by (fastforce simp: table_inv_def)
    then show ?thesis unfolding p using True key hn uh dn before
      by (subst probe.simps) (auto simp: Let_def same_key intro!: exI [of _ d])
  next
    case False
    have "M k = None"
    proof (rule ccontr)
      assume "M k \<noteq> None"
      then obtain d' where d': "key (sl_result (slots ! ?h d')) = k" "\<forall>e \<le> d'. sl_used (slots ! ?h e)"
        using inv unfolding table_inv_def by (metis not_None_eq)
      then show False using before False by (metis linorder_not_le)
    qed
    moreover have "sl_result (slots ! ?h d) = zero_result" using inv False hn by (auto simp: table_inv_def split: if_splits)
    ultimately show ?thesis unfolding p using False hn uh dn before
      by (subst probe.simps) (auto simp: Let_def slot_updates intro!: exI [of _ d])
  qed
qed

lemma upsert:
  assumes inv: "table_inv key hash (2 ^ b) slots M" and fin: "finite (dom M)" and room: "card (dom M) < 2 ^ b" and b: "b \<le> 31"
    and f: "\<forall>r. key r = k \<longrightarrow> key (f r) = k"
  shows "\<exists>slots'. map_option (slot_update f) (probe (same k) (claim k) (2 ^ b - 1) slots (hash k AND (2 ^ b - 1))) = Some slots' \<and>
    table_inv key hash (2 ^ b) slots' (visit (\<lambda>k. claim k zero_result) (k, f) M)"
proof -
  obtain i slots1 d where p: "probe (same k) (claim k) (2 ^ b - 1) slots (hash k AND (2 ^ b - 1)) = Some (slots1, i)"
    and i: "i < 2 ^ b" and d: "d < 2 ^ b" "home hash (2 ^ b) k d = i" "\<forall>e < d. sl_used (slots ! home hash (2 ^ b) k e)"
    and c: "if M k = None then \<not> sl_used (slots ! i) \<and> slots1 = slots[i := \<lparr>sl_used = True, sl_result = claim k zero_result\<rparr>]
     else slots1 = slots \<and> sl_used (slots ! i) \<and> key (sl_result (slots ! i)) = k"
    using find_slot [OF inv fin room b, of k] by blast
  let ?n = "2 ^ b :: nat"
  let ?r = "f (case M k of None \<Rightarrow> claim k zero_result | Some r \<Rightarrow> r)"
  have len: "length slots = ?n" using inv by (simp add: table_inv_def)
  have held: "M k \<noteq> None \<Longrightarrow> M k = Some (sl_result (slots ! i))" using inv c i by (auto simp: table_inv_def split: if_splits)
  have su: "slot_update f (slots1, i) = slots[i := \<lparr>sl_used = True, sl_result = ?r\<rparr>]"
    using c held i len by (cases "M k") (auto simp: slot_update_def slot_updates)
  have kr: "key ?r = k" using f key_claim held c by (cases "M k") auto
  define T where "T = slots[i := \<lparr>sl_used = True, sl_result = ?r\<rparr>]"
  have T: "length T = ?n" "T ! i = \<lparr>sl_used = True, sl_result = ?r\<rparr>" "\<And>j. j \<noteq> i \<Longrightarrow> T ! j = slots ! j"
    using len i by (simp_all add: T_def)
  have other: "key (sl_result (slots ! j)) \<noteq> k" if "j < ?n" "j \<noteq> i" "sl_used (slots ! j)" for j
  proof
    assume "key (sl_result (slots ! j)) = k"
    moreover from this have "M k \<noteq> None" using inv that by (fastforce simp: table_inv_def)
    ultimately show False using inv c that i unfolding table_inv_def by (auto split: if_splits)
  qed
  have "table_inv key hash ?n T (visit (\<lambda>k. claim k zero_result) (k, f) M)"
    unfolding table_inv_def
  proof (intro conjI allI impI)
    show "length T = ?n" by (rule T(1))
  next
    fix j assume j: "j < ?n"
    show "if sl_used (T ! j) then visit (\<lambda>k. claim k zero_result) (k, f) M (key (sl_result (T ! j))) = Some (sl_result (T ! j))
      else sl_result (T ! j) = zero_result"
    proof (cases "j = i")
      case True
      then show ?thesis using T(2) kr by (simp add: visit_def)
    next
      case False
      then show ?thesis using inv other [OF j False] j T(3) [OF False] by (auto simp: table_inv_def visit_def split: if_splits)
    qed
  next
    fix j l assume "j < ?n" "l < ?n" "sl_used (T ! j)" "sl_used (T ! l)" "key (sl_result (T ! j)) = key (sl_result (T ! l))"
    then show "j = l" using other [of j] other [of l] kr T(2) T(3) [of j] T(3) [of l] inv
      by (cases "j = i"; cases "l = i") (auto simp: table_inv_def)
  next
    fix x r assume "visit (\<lambda>k. claim k zero_result) (k, f) M x = Some r"
    show "\<exists>d < ?n. key (sl_result (T ! home hash ?n x d)) = x \<and> (\<forall>e \<le> d. sl_used (T ! home hash ?n x e))"
    proof (cases "x = k")
      case True
      have "sl_used (T ! home hash ?n k e)" if "e \<le> d" for e
        using d that T(2) T(3) [of "home hash ?n k e"] by (cases "home hash ?n k e = i") (auto simp: le_less)
      then show ?thesis using True d(1,2) T(2) kr by (intro exI [of _ d]) simp
    next
      case False
      then have "M x = Some r" using \<open>visit _ _ M x = Some r\<close> by (simp add: visit_def)
      then obtain d' where d': "d' < ?n" "key (sl_result (slots ! home hash ?n x d')) = x" "\<forall>e \<le> d'. sl_used (slots ! home hash ?n x e)"
        using inv unfolding table_inv_def by blast
      have "home hash ?n x d' \<noteq> i"
      proof
        assume e: "home hash ?n x d' = i"
        then have "sl_used (slots ! i)" using d'(3) by auto
        then show False using c e d'(2) False by (auto split: if_splits)
      qed
      moreover have "sl_used (T ! home hash ?n x e)" if "e \<le> d'" for e
        using d'(3) that T(2) T(3) [of "home hash ?n x e"] by (cases "home hash ?n x e = i") auto
      ultimately show ?thesis using d' T(3) by (intro exI [of _ d']) auto
    qed
  qed
  then show ?thesis using p su by (auto simp: T_def)
qed

lemma empty_table: "table_inv key hash n (empty_slots n) Map.empty"
  by (simp add: table_inv_def empty_slots_def)

lemma table_lists:
  assumes inv: "table_inv key hash n slots M"
  shows "lists_map key req M (slot_results req slots)"
proof -
  have len: "length slots = n" using inv by (simp add: table_inv_def)
  have "distinct (map (key \<circ> sl_result) (filter sl_used slots))"
    using inv by (intro distinct_filter_nth) (auto simp: table_inv_def)
  then have "distinct (map key (slot_results req slots))"
    unfolding slot_results_def by (simp add: distinct_map_filter)
  moreover have "r \<in> set (map sl_result (filter sl_used slots)) \<longleftrightarrow> M (key r) = Some r" for r
  proof
    assume "r \<in> set (map sl_result (filter sl_used slots))"
    then obtain i where "i < n" "sl_used (slots ! i)" "sl_result (slots ! i) = r" using len by (auto simp: in_set_conv_nth)
    then show "M (key r) = Some r" using inv by (auto simp: table_inv_def)
  next
    assume m: "M (key r) = Some r"
    then obtain d where d: "d < n" "key (sl_result (slots ! home hash n (key r) d)) = key r"
      "\<forall>e \<le> d. sl_used (slots ! home hash n (key r) e)" using inv unfolding table_inv_def by blast
    define i where "i = home hash n (key r) d"
    have i: "i < n" "sl_used (slots ! i)" "key (sl_result (slots ! i)) = key r" using d by (auto simp: i_def home_def)
    then have "sl_result (slots ! i) = r" using inv m unfolding table_inv_def by (metis option.inject)
    then show "r \<in> set (map sl_result (filter sl_used slots))" using i len by (force simp: in_set_conv_nth)
  qed
  ultimately show ?thesis by (auto simp: lists_map_def slot_results_def)
qed

end

lemma item_pointer_eq: "PgturbohybridItemPointerDataCompare a b = 0 \<longleftrightarrow> a = b"
  by (cases a; cases b) (auto simp: PgturbohybridItemPointerDataCompare_def)

interpretation nk: merge_key r_nodeId "\<lambda>k r. r\<lparr>r_nodeId := k\<rparr>" "\<lambda>k r. r_nodeId r = k" PgturbohybridHashNodeId
  by unfold_locales simp_all

interpretation hk: merge_key r_heaptid "\<lambda>k r. r\<lparr>r_heaptid := k\<rparr>"
  "\<lambda>k r. PgturbohybridItemPointerDataCompare (r_heaptid r) k = 0" PgturbohybridHashHeapTid
  by unfold_locales (simp_all add: item_pointer_eq)

section \<open>The hash merge\<close>

text \<open>
  A visit of the merge: node id, heap tuple and the update. With a document key the slot is
  looked up by the heap tuple, otherwise by the node id.
\<close>

type_synonym cand_visit = "u32 \<times> heap_tid \<times> (result \<Rightarrow> result)"

definition candidate_visits ::
  "bool \<Rightarrow> TqDenseCandidate list \<Rightarrow> TqDenseCandidate list \<Rightarrow> PgturbohybridBm25Result list \<Rightarrow> cand_visit list" where
  "candidate_visits multivectorMergedAsDense dense multivector bm25 =
     map (\<lambda>c. (dc_nodeId c, dc_heaptid c,
       if multivectorMergedAsDense then PgturbohybridAddMultiVectorCandidate c else PgturbohybridAddDenseCandidate c)) dense @
     map (\<lambda>c. (dc_nodeId c, dc_heaptid c, PgturbohybridAddMultiVectorCandidate c)) multivector @
     map (\<lambda>c. (bm_nodeId c, bm_heaptid c, PgturbohybridMergeBm25Candidate c)) bm25"

definition hash_visit :: "bool \<Rightarrow> u32 \<Rightarrow> cand_visit \<Rightarrow> slots option \<Rightarrow> slots option" where
  "hash_visit useDocumentFusionKey slotMask v os = (case (os, v) of
       (None, _) \<Rightarrow> None
     | (Some slots, nodeId, heaptid, f) \<Rightarrow>
         map_option (slot_update f)
           (if useDocumentFusionKey then PgturbohybridFindMergeSlotByHeapTid slotMask heaptid slots
            else PgturbohybridFindMergeSlot slotMask nodeId slots))"

definition hash_merge :: "bool \<Rightarrow> bool \<Rightarrow> u32 \<Rightarrow> cand_visit list \<Rightarrow> result list option" where
  "hash_merge useDocumentFusionKey requireBm25 fusionCandidatesSeen visits =
     (case PgturbohybridFusionHashSlotCount fusionCandidatesSeen of
        None \<Rightarrow> None
      | Some slotCount \<Rightarrow>
          map_option (slot_results requireBm25)
            (fold (hash_visit useDocumentFusionKey (slotCount - 1)) visits (Some (empty_slots (unat slotCount)))))"

text \<open>The visits as the map sees them, by node id and by heap tuple.\<close>

definition node_visits :: "cand_visit list \<Rightarrow> (u32 \<times> (result \<Rightarrow> result)) list" where
  "node_visits vs = map (\<lambda>(n, t, f). (n, f)) vs"

definition tid_visits :: "cand_visit list \<Rightarrow> (heap_tid \<times> (result \<Rightarrow> result)) list" where
  "tid_visits vs = map (\<lambda>(n, t, f). (t, f)) vs"

definition new_node :: "u32 \<Rightarrow> result" where "new_node n = zero_result\<lparr>r_nodeId := n\<rparr>"
definition new_tid :: "heap_tid \<Rightarrow> result" where "new_tid t = zero_result\<lparr>r_heaptid := t\<rparr>"

lemma new_node_eq: "new_node = (\<lambda>n. zero_result\<lparr>r_nodeId := n\<rparr>)" and new_tid_eq: "new_tid = (\<lambda>t. zero_result\<lparr>r_heaptid := t\<rparr>)"
  by (simp_all add: fun_eq_iff new_node_def new_tid_def)

lemma fits_table:
  assumes "length kfs < n"
  shows "finite (dom (merge_map new kfs))" "card (dom (merge_map new kfs)) < n"
  using assms card_image_le [of "set kfs" fst] card_length [of kfs]
  by (auto simp: merge_map_def dom_fold_visit intro: le_less_trans)

lemma hash_fold_node:
  assumes b: "b \<le> 31" and len: "length vs < 2 ^ b"
    and keys: "\<forall>(n, t, f) \<in> set vs. \<forall>r. r_nodeId r = n \<longrightarrow> r_nodeId (f r) = n"
  shows "\<exists>slots. fold (hash_visit False (2 ^ b - 1)) vs (Some (empty_slots (2 ^ b))) = Some slots \<and>
    table_inv r_nodeId PgturbohybridHashNodeId (2 ^ b) slots (merge_map new_node (node_visits vs))"
  using len keys
proof (induction vs rule: rev_induct)
  case Nil
  then show ?case using nk.empty_table by (simp add: merge_map_def node_visits_def)
next
  case (snoc v vs)
  obtain n t f where v: "v = (n, t, f)" by (cases v)
  let ?M = "merge_map new_node (node_visits vs)"
  obtain slots where s: "fold (hash_visit False (2 ^ b - 1)) vs (Some (empty_slots (2 ^ b))) = Some slots"
    "table_inv r_nodeId PgturbohybridHashNodeId (2 ^ b) slots ?M" using snoc by auto
  have "length (node_visits vs) < 2 ^ b" using snoc.prems(1) by (simp add: node_visits_def)
  from nk.upsert [OF s(2) fits_table [OF this] b, of n f] snoc.prems(2) v
  obtain slots' where s': "map_option (slot_update f) (PgturbohybridFindMergeSlot (2 ^ b - 1) n slots) = Some slots'"
    "table_inv r_nodeId PgturbohybridHashNodeId (2 ^ b) slots' (visit new_node (n, f) ?M)"
    unfolding PgturbohybridFindMergeSlot_def new_node_eq by auto
  have "fold (hash_visit False (2 ^ b - 1)) (vs @ [v]) (Some (empty_slots (2 ^ b))) = Some slots'"
    using s(1) s'(1) by (simp add: v) (simp add: hash_visit_def)
  moreover have "merge_map new_node (node_visits (vs @ [v])) = visit new_node (n, f) ?M"
    by (simp add: merge_map_def node_visits_def v)
  ultimately show ?case using s'(2) by simp
qed

lemma hash_fold_tid:
  assumes b: "b \<le> 31" and len: "length vs < 2 ^ b"
    and keys: "\<forall>(n, t, f) \<in> set vs. \<forall>r. r_heaptid r = t \<longrightarrow> r_heaptid (f r) = t"
  shows "\<exists>slots. fold (hash_visit True (2 ^ b - 1)) vs (Some (empty_slots (2 ^ b))) = Some slots \<and>
    table_inv r_heaptid PgturbohybridHashHeapTid (2 ^ b) slots (merge_map new_tid (tid_visits vs))"
  using len keys
proof (induction vs rule: rev_induct)
  case Nil
  then show ?case using hk.empty_table by (simp add: merge_map_def tid_visits_def)
next
  case (snoc v vs)
  obtain n t f where v: "v = (n, t, f)" by (cases v)
  let ?M = "merge_map new_tid (tid_visits vs)"
  obtain slots where s: "fold (hash_visit True (2 ^ b - 1)) vs (Some (empty_slots (2 ^ b))) = Some slots"
    "table_inv r_heaptid PgturbohybridHashHeapTid (2 ^ b) slots ?M" using snoc by auto
  have "length (tid_visits vs) < 2 ^ b" using snoc.prems(1) by (simp add: tid_visits_def)
  from hk.upsert [OF s(2) fits_table [OF this] b, of t f] snoc.prems(2) v
  obtain slots' where s': "map_option (slot_update f) (PgturbohybridFindMergeSlotByHeapTid (2 ^ b - 1) t slots) = Some slots'"
    "table_inv r_heaptid PgturbohybridHashHeapTid (2 ^ b) slots' (visit new_tid (t, f) ?M)"
    unfolding PgturbohybridFindMergeSlotByHeapTid_def new_tid_eq by auto
  have "fold (hash_visit True (2 ^ b - 1)) (vs @ [v]) (Some (empty_slots (2 ^ b))) = Some slots'"
    using s(1) s'(1) by (simp add: v) (simp add: hash_visit_def)
  moreover have "merge_map new_tid (tid_visits (vs @ [v])) = visit new_tid (t, f) ?M"
    by (simp add: merge_map_def tid_visits_def v)
  ultimately show ?case using s'(2) by simp
qed

lemma candidate_keys:
  "(n, t, f) \<in> set (candidate_visits mv dense multivector bm25) \<Longrightarrow> r_nodeId r = n \<Longrightarrow> r_nodeId (f r) = n"
  "(n, t, f) \<in> set (candidate_visits mv dense multivector bm25) \<Longrightarrow> r_heaptid r = t \<Longrightarrow> r_heaptid (f r) = t"
  by (auto simp: candidate_visits_def PgturbohybridAddDenseCandidate_def PgturbohybridAddMultiVectorCandidate_def
      PgturbohybridMergeBm25Candidate_def Let_def split: if_splits)

lemma length_candidate_visits [simp]:
  "length (candidate_visits mv dense multivector bm25) = length dense + length multivector + length bm25"
  by (simp add: candidate_visits_def)

text \<open>
  The merge always ends, and its list holds exactly the merged results of the candidates.
\<close>

lemma hash_merge_ok:
  fixes dense multivector :: "TqDenseCandidate list" and bm25 :: "PgturbohybridBm25Result list" and mv :: bool
  defines "m \<equiv> length dense + length multivector + length bm25"
  defines "vs \<equiv> candidate_visits mv dense multivector bm25"
  assumes small: "m + m div 4 + 1 \<le> 2 ^ 31"
  shows "\<exists>rs. hash_merge False req (of_nat m) vs = Some rs \<and> lists_map r_nodeId req (merge_map new_node (node_visits vs)) rs"
    "\<exists>rs. hash_merge True req (of_nat m) vs = Some rs \<and> lists_map r_heaptid req (merge_map new_tid (tid_visits vs)) rs"
proof -
  have u: "unat (of_nat m :: u32) = m" using small by (simp add: unat_of_nat)
  obtain b where b: "b \<le> 31" "PgturbohybridFusionHashSlotCount (of_nat m) = Some (2 ^ b)" "m < 2 ^ b"
    using slot_count [of "of_nat m"] small unfolding u by auto
  have l: "length vs < 2 ^ b" using b(3) by (simp add: vs_def m_def)
  have n: "unat (2 ^ b :: u32) = 2 ^ b" using b(1) by (intro unat_pow_u32) simp
  have k: "\<forall>(n, t, f) \<in> set vs. \<forall>r. r_nodeId r = n \<longrightarrow> r_nodeId (f r) = n"
    "\<forall>(n, t, f) \<in> set vs. \<forall>r. r_heaptid r = t \<longrightarrow> r_heaptid (f r) = t"
    using candidate_keys unfolding vs_def by fast+
  show "\<exists>rs. hash_merge False req (of_nat m) vs = Some rs \<and> lists_map r_nodeId req (merge_map new_node (node_visits vs)) rs"
    using hash_fold_node [OF b(1) l k(1)] nk.table_lists b(2) n by (auto simp: hash_merge_def)
  show "\<exists>rs. hash_merge True req (of_nat m) vs = Some rs \<and> lists_map r_heaptid req (merge_map new_tid (tid_visits vs)) rs"
    using hash_fold_tid [OF b(1) l k(2)] hk.table_lists b(2) n by (auto simp: hash_merge_def)
qed

section \<open>The generation array\<close>

record PgturbohybridFusionArrayEntry =
  ge_generation :: u32
  ge_result :: result

record PgturbohybridFusionGenerationArrayCache =
  gc_entries :: "PgturbohybridFusionArrayEntry list option"
  gc_capacity :: u32
  gc_generation :: u32

definition empty_cache :: PgturbohybridFusionGenerationArrayCache where
  "empty_cache = \<lparr>gc_entries = None, gc_capacity = 0, gc_generation = 0\<rparr>"

definition zero_entry :: PgturbohybridFusionArrayEntry where
  "zero_entry = \<lparr>ge_generation = 0, ge_result = zero_result\<rparr>"

definition PgturbohybridGetFusionGenerationArray ::
  "u32 \<Rightarrow> PgturbohybridFusionGenerationArrayCache \<Rightarrow>
   PgturbohybridFusionArrayEntry list \<times> PgturbohybridFusionGenerationArrayCache" where
  "PgturbohybridGetFusionGenerationArray nodeCount cache =
     (case gc_entries cache of
        None \<Rightarrow> (let es = replicate (unat nodeCount) zero_entry
                 in (es, \<lparr>gc_entries = Some es, gc_capacity = nodeCount, gc_generation = 1\<rparr>))
      | Some ents \<Rightarrow>
          if gc_capacity cache < nodeCount
          then let es = replicate (unat nodeCount) zero_entry
               in (es, \<lparr>gc_entries = Some es, gc_capacity = nodeCount, gc_generation = 1\<rparr>)
          else if gc_generation cache = 0xFFFFFFFF
          then let es = replicate (unat (gc_capacity cache)) zero_entry
               in (es, cache\<lparr>gc_entries := Some es, gc_generation := 1\<rparr>)
          else (ents, cache\<lparr>gc_generation := gc_generation cache + 1\<rparr>))"

definition array_visit ::
  "u32 \<Rightarrow> u32 \<times> (result \<Rightarrow> result) \<Rightarrow> PgturbohybridFusionArrayEntry list \<times> u32 list \<Rightarrow>
   PgturbohybridFusionArrayEntry list \<times> u32 list" where
  "array_visit generation v et = (case (v, et) of ((nodeId, f), ents, touched) \<Rightarrow>
     let entry = ents ! unat nodeId;
         fresh = ge_generation entry \<noteq> generation;
         entry1 = (if fresh then \<lparr>ge_generation = generation, ge_result = zero_result\<lparr>r_nodeId := nodeId\<rparr>\<rparr> else entry)
     in (ents[unat nodeId := entry1\<lparr>ge_result := f (ge_result entry1)\<rparr>],
         if fresh then touched @ [nodeId] else touched))"

text \<open>The merge of \<open>PgturbohybridFuseGenerationArray\<close>: the merged list and the cache it leaves.\<close>

definition array_merge ::
  "bool \<Rightarrow> u32 \<Rightarrow> TqDenseCandidate list \<Rightarrow> PgturbohybridBm25Result list \<Rightarrow> PgturbohybridFusionGenerationArrayCache \<Rightarrow>
   result list \<times> PgturbohybridFusionGenerationArrayCache" where
  "array_merge requireBm25 nodeCount dense bm25 cache =
     (let (ents, cache1) = PgturbohybridGetFusionGenerationArray nodeCount cache;
          generation = gc_generation cache1;
          (ents1, touched1) = fold (array_visit generation)
             (map (\<lambda>c. (dc_nodeId c, PgturbohybridAddDenseCandidate c)) dense) (ents, []);
          (ents2, touched2) = fold (array_visit generation)
             (map (\<lambda>c. (bm_nodeId c, PgturbohybridMergeBm25Candidate c)) bm25) (ents1, touched1)
      in (filter (wanted requireBm25) (map (\<lambda>n. ge_result (ents2 ! unat n)) touched2), cache1\<lparr>gc_entries := Some ents2\<rparr>))"

definition PgturbohybridFusionNodeIdsFit :: "u32 \<Rightarrow> TqDenseCandidate list \<Rightarrow> PgturbohybridBm25Result list \<Rightarrow> bool" where
  "PgturbohybridFusionNodeIdsFit nodeCount dense bm25 \<longleftrightarrow>
     list_all (\<lambda>c. dc_nodeId c < nodeCount) dense \<and> list_all (\<lambda>c. bm_nodeId c < nodeCount) bm25"

text \<open>
  Between queries no entry is newer than the generation of the cache. During a query with
  generation \<open>g\<close> the entries stamped \<open>g\<close> are the map, and \<open>touched\<close> lists its keys.
\<close>

definition cache_inv :: "PgturbohybridFusionGenerationArrayCache \<Rightarrow> bool" where
  "cache_inv cache = (case gc_entries cache of None \<Rightarrow> True
     | Some es \<Rightarrow> length es = unat (gc_capacity cache) \<and> (\<forall>e \<in> set es. ge_generation e \<le> gc_generation cache))"

definition array_inv ::
  "u32 \<Rightarrow> nat \<Rightarrow> PgturbohybridFusionArrayEntry list \<times> u32 list \<Rightarrow> (u32 \<Rightarrow> result option) \<Rightarrow> bool" where
  "array_inv g cap et M = (case et of (es, touched) \<Rightarrow> length es = cap \<and> distinct touched \<and> set touched = dom M \<and>
     (\<forall>e \<in> set es. ge_generation e \<le> g) \<and>
     (\<forall>n. M n = (if unat n < cap \<and> ge_generation (es ! unat n) = g then Some (ge_result (es ! unat n)) else None)))"

lemma array_inv_update:
  assumes inv: "array_inv g cap (es, touched) M" and n: "unat n < cap" and E: "ge_generation E = g"
  shows "array_inv g cap (es[unat n := E], if ge_generation (es ! unat n) = g then touched else touched @ [n]) (M(n \<mapsto> ge_result E))"
proof -
  have i: "length es = cap" "distinct touched" "set touched = dom M" "\<forall>e \<in> set es. ge_generation e \<le> g"
    and M: "\<And>x. M x = (if unat x < cap \<and> ge_generation (es ! unat x) = g then Some (ge_result (es ! unat x)) else None)"
    using inv by (auto simp: array_inv_def)
  have "n \<in> dom M \<longleftrightarrow> ge_generation (es ! unat n) = g" using M [of n] n by (auto simp: domIff)
  then have t: "n \<in> set touched \<longleftrightarrow> ge_generation (es ! unat n) = g" using i(3) by simp
  have "set (if ge_generation (es ! unat n) = g then touched else touched @ [n]) = dom (M(n \<mapsto> ge_result E))"
    using t i(3) by auto
  moreover have "\<forall>e \<in> set (es[unat n := E]). ge_generation e \<le> g"
    using set_update_subset_insert [of es "unat n" E] i(4) E by auto
  moreover have "(M(n \<mapsto> ge_result E)) x = (if unat x < cap \<and> ge_generation (es[unat n := E] ! unat x) = g
      then Some (ge_result (es[unat n := E] ! unat x)) else None)" for x
  proof (cases "x = n")
    case True
    then show ?thesis using n i(1) E by simp
  next
    case False
    then have "unat x \<noteq> unat n" by (metis word_unat_eq_iff)
    then show ?thesis using False M [of x] by simp
  qed
  ultimately show ?thesis using i(1,2) t by (simp add: array_inv_def)
qed

lemma array_visit_ok:
  assumes inv: "array_inv g cap (es, touched) M" and n: "unat n < cap"
  shows "array_inv g cap (array_visit g (n, f) (es, touched)) (visit new_node (n, f) M)"
proof -
  let ?e = "es ! unat n"
  have M: "M n = (if ge_generation ?e = g then Some (ge_result ?e) else None)"
    using inv n by (simp add: array_inv_def)
  define E where "E = (if ge_generation ?e = g then ?e else \<lparr>ge_generation = g, ge_result = new_node n\<rparr>)"
  have "array_visit g (n, f) (es, touched) =
      (es[unat n := E\<lparr>ge_result := f (ge_result E)\<rparr>], if ge_generation ?e = g then touched else touched @ [n])"
    by (simp add: array_visit_def Let_def new_node_def E_def)
  moreover have "visit new_node (n, f) M = M(n \<mapsto> f (ge_result E))" using M by (simp add: visit_def E_def)
  ultimately show ?thesis using array_inv_update [OF inv n, of "E\<lparr>ge_result := f (ge_result E)\<rparr>"] by (simp add: E_def)
qed

lemma array_fold_ok:
  "array_inv g cap et M \<Longrightarrow> \<forall>v \<in> set vs. unat (fst v) < cap \<Longrightarrow>
   array_inv g cap (fold (array_visit g) vs et) (fold (visit new_node) vs M)"
proof (induction vs arbitrary: et M)
  case (Cons v vs)
  obtain n f where v: "v = (n, f)" by (cases v)
  obtain es touched where et: "et = (es, touched)" by (cases et)
  have "array_inv g cap (array_visit g v et) (visit new_node v M)"
    using array_visit_ok Cons.prems v et by simp
  then show ?case using Cons.IH Cons.prems(2) by simp
qed simp

lemma get_array_ok:
  assumes "cache_inv cache"
  shows "case PgturbohybridGetFusionGenerationArray nodeCount cache of (es, cache') \<Rightarrow>
    gc_entries cache' = Some es \<and> length es = unat (gc_capacity cache') \<and> nodeCount \<le> gc_capacity cache' \<and>
    (\<forall>e \<in> set es. ge_generation e < gc_generation cache')"
proof (cases "gc_entries cache")
  case None
  then show ?thesis by (simp add: PgturbohybridGetFusionGenerationArray_def Let_def zero_entry_def)
next
  case (Some es)
  have "ge_generation e < gc_generation cache + 1" if "e \<in> set es" "gc_generation cache \<noteq> 0xFFFFFFFF" for e
  proof -
    have "ge_generation e \<le> gc_generation cache" using assms Some that by (simp add: cache_inv_def)
    moreover have "gc_generation cache < gc_generation cache + 1" using that(2) by (rule word_less_succ)
    ultimately show ?thesis by (rule le_less_trans)
  qed
  then show ?thesis using assms Some
    by (auto simp: PgturbohybridGetFusionGenerationArray_def cache_inv_def Let_def zero_entry_def not_less)
qed

lemma array_merge_ok:
  assumes inv: "cache_inv cache" and fit: "PgturbohybridFusionNodeIdsFit nodeCount dense bm25"
  shows "case array_merge req nodeCount dense bm25 cache of (rs, cache') \<Rightarrow>
    lists_map r_nodeId req (merge_map new_node (node_visits (candidate_visits False dense [] bm25))) rs \<and> cache_inv cache'"
proof -
  obtain es cache1 where g: "PgturbohybridGetFusionGenerationArray nodeCount cache = (es, cache1)" by fastforce
  let ?g = "gc_generation cache1" and ?cap = "unat (gc_capacity cache1)"
  let ?dv = "map (\<lambda>c. (dc_nodeId c, PgturbohybridAddDenseCandidate c)) dense"
  let ?bv = "map (\<lambda>c. (bm_nodeId c, PgturbohybridMergeBm25Candidate c)) bm25"
  have c: "length es = ?cap" "nodeCount \<le> gc_capacity cache1" "\<forall>e \<in> set es. ge_generation e < ?g"
    using get_array_ok [OF inv, of nodeCount] g by auto
  have cap: "unat x < ?cap" if "x < nodeCount" for x using that c(2) by (simp add: word_less_nat_alt word_le_nat_alt)
  have "array_inv ?g ?cap (es, []) Map.empty"
  proof -
    have "ge_generation (es ! i) \<noteq> ?g" if "i < ?cap" for i using c(1,3) that by (metis less_irrefl nth_mem)
    then show ?thesis using c by (auto simp: array_inv_def)
  qed
  moreover have "\<forall>v \<in> set (?dv @ ?bv). unat (fst v) < ?cap"
    using fit cap by (auto simp: PgturbohybridFusionNodeIdsFit_def list_all_iff)
  ultimately have "array_inv ?g ?cap (fold (array_visit ?g) (?dv @ ?bv) (es, [])) (merge_map new_node (?dv @ ?bv))"
    unfolding merge_map_def by (rule array_fold_ok)
  then have i: "array_inv ?g ?cap (fold (array_visit ?g) ?bv (fold (array_visit ?g) ?dv (es, []))) (merge_map new_node (?dv @ ?bv))"
    by (simp only: fold_append comp_apply)
  obtain es1 touched1 where f1: "fold (array_visit ?g) ?dv (es, []) = (es1, touched1)" by fastforce
  obtain es2 touched2 where f: "fold (array_visit ?g) ?bv (es1, touched1) = (es2, touched2)" by fastforce
  have i2: "array_inv ?g ?cap (es2, touched2) (merge_map new_node (?dv @ ?bv))" using i unfolding f1 f .
  let ?M = "merge_map new_node (?dv @ ?bv)"
  have vs: "node_visits (candidate_visits False dense [] bm25) = ?dv @ ?bv"
    by (simp add: node_visits_def candidate_visits_def)
  define rs where "rs = map (\<lambda>n. ge_result (es2 ! unat n)) touched2"
  have am: "array_merge req nodeCount dense bm25 cache = (filter (wanted req) rs, cache1\<lparr>gc_entries := Some es2\<rparr>)"
    unfolding array_merge_def Let_def g prod.case f1 f rs_def ..
  have keyed: "r_nodeId r = n" if "?M n = Some r" for n r
  proof (rule merge_map_keyed [OF that])
    show "r_nodeId (new_node k) = k" for k by (simp add: new_node_def)
    fix k f and r :: result assume "(k, f) \<in> set (?dv @ ?bv)" "r_nodeId r = k"
    then show "r_nodeId (f r) = k"
      using candidate_keys(1) [of k _ f False dense "[]" bm25 r] by (auto simp: candidate_visits_def)
  qed
  have val: "ge_result (es2 ! unat n) = r \<longleftrightarrow> ?M n = Some r" if "n \<in> set touched2" for n r
    using i2 that by (auto simp: array_inv_def split: if_splits)
  have "r_nodeId (ge_result (es2 ! unat n)) = n" if "n \<in> set touched2" for n
    using keyed [of n "ge_result (es2 ! unat n)"] val [OF that, of "ge_result (es2 ! unat n)"] by blast
  then have ids: "map r_nodeId rs = touched2" unfolding rs_def by (simp add: comp_def cong: map_cong)
  have "lists_map r_nodeId req ?M (filter (wanted req) rs)"
  proof -
    have t: "set touched2 = dom ?M" "distinct touched2" using i2 by (auto simp: array_inv_def)
    have "r \<in> set rs \<longleftrightarrow> (\<exists>n \<in> set touched2. ge_result (es2 ! unat n) = r)" for r by (auto simp: rs_def)
    also have "\<dots> r \<longleftrightarrow> (\<exists>n \<in> set touched2. ?M n = Some r)" for r using val by (meson bex_cong)
    also have "\<dots> r \<longleftrightarrow> ?M (r_nodeId r) = Some r" for r
      using t(1) keyed by (auto simp: dom_def)
    finally show ?thesis using t(2) ids by (auto simp: lists_map_def distinct_map_filter)
  qed
  moreover have "cache_inv (cache1\<lparr>gc_entries := Some es2\<rparr>)"
    using i2 by (simp add: cache_inv_def array_inv_def)
  ultimately show ?thesis unfolding am vs by simp
qed

end
