(* ===== verification/Fusion_Score.thy ===== *)
theory Fusion_Score
  imports Fusion
begin

text \<open>
  Scoring of the merged results (\<open>pgturbohybrid_am.c\<close>). Double arithmetic, \<open>exp\<close> and
  \<open>sqrt\<close> are parameters, the records \<open>fpu\<close> and \<open>libm\<close> of the rounded operations. Which
  score a formula combines, its special cases and the order of the operations are the code's.
\<close>

record libm =
  lm_exp :: "cdouble \<Rightarrow> cdouble"
  lm_sqrt :: "cdouble \<Rightarrow> cdouble"

text \<open>Negation and \<open>fabs\<close> do not round.\<close>

definition dabs :: "cdouble \<Rightarrow> cdouble" where
  "dabs x = (case x of Fin q \<Rightarrow> Fin \<bar>q\<bar> | NaN \<Rightarrow> NaN | _ \<Rightarrow> PosInf)"

definition not_finite :: "cdouble \<Rightarrow> bool" where
  \<comment> \<open>\<open>isnan(x) || isinf(x)\<close>\<close>
  "not_finite x = (case x of Fin _ \<Rightarrow> False | _ \<Rightarrow> True)"

abbreviation of_i :: "int \<Rightarrow> cdouble" where "of_i n \<equiv> Fin (of_int n)"

section \<open>The score of one result\<close>

definition PgturbohybridRrfScore :: "fpu \<Rightarrow> query \<Rightarrow> result \<Rightarrow> cdouble" where
  "PgturbohybridRrfScore f q item =
     (let term_of = (\<lambda>has rank. if has then f_div f (Fin 1) (f_add f (of_i (q_rrfK q)) (of_i rank)) else Fin 0)
      in f_add f
           (f_add f (f_mul f (q_denseWeight q) (term_of (r_hasDense item) (r_denseRank item)))
                      (f_mul f (q_multivectorWeight q) (term_of (r_hasMultivector item) (r_multivectorRank item))))
           (f_mul f (q_bm25Weight q) (term_of (r_hasBm25 item) (r_bm25Rank item))))"

definition PgturbohybridNormalize :: "fpu \<Rightarrow> cdouble \<Rightarrow> cdouble \<Rightarrow> cdouble \<Rightarrow> cdouble" where
  "PgturbohybridNormalize f v minValue maxValue =
     (if dless maxValue minValue \<or> maxValue = minValue \<and> minValue \<noteq> NaN then (if dless (Fin 0) v then Fin 1 else Fin 0)
      else f_div f (f_sub f v minValue) (f_sub f maxValue minValue))"

definition PgturbohybridResultHasDenseLike :: "result \<Rightarrow> bool" where
  "PgturbohybridResultHasDenseLike item = (r_hasDense item \<or> r_hasMultivector item)"

definition PgturbohybridResultDenseLikeSimilarity :: "result \<Rightarrow> cdouble" where
  "PgturbohybridResultDenseLikeSimilarity item =
     (if r_hasDense item then r_denseSimilarity item else r_multivectorSimilarity item)"

definition PgturbohybridResultDenseLikeWeight :: "query \<Rightarrow> result \<Rightarrow> cdouble" where
  "PgturbohybridResultDenseLikeWeight q item =
     (if r_hasMultivector item \<and> \<not> r_hasDense item then q_multivectorWeight q else q_denseWeight q)"

definition PgturbohybridFastWeightedDenseNormalize :: "fpu \<Rightarrow> libm \<Rightarrow> cdouble \<Rightarrow> cdouble" where
  "PgturbohybridFastWeightedDenseNormalize f lm similarity =
     (if \<not> dless similarity (Fin 0) \<and> similarity \<noteq> NaN
      then f_div f (Fin 1) (f_add f (Fin 1) (lm_exp lm (dneg similarity)))
      else let expValue = lm_exp lm similarity in f_div f expValue (f_add f (Fin 1) expValue))"

definition PgturbohybridFastWeightedDenseContribution :: "fpu \<Rightarrow> libm \<Rightarrow> cdouble \<Rightarrow> cdouble \<Rightarrow> cdouble" where
  "PgturbohybridFastWeightedDenseContribution f lm alpha similarity =
     f_mul f alpha (PgturbohybridFastWeightedDenseNormalize f lm similarity)"

definition PgturbohybridClampUnit :: "cdouble \<Rightarrow> cdouble" where
  "PgturbohybridClampUnit v =
     (if not_finite v then Fin (1 / 2)
      else if dless v (Fin 0) then Fin 0
      else if dless (Fin 1) v then Fin 1 else v)"

section \<open>Distribution-based score fusion\<close>

record PgturbohybridDbsfBranchStats =
  st_count :: nat
  st_mean :: cdouble
  st_stddev :: cdouble
  st_min :: cdouble
  st_max :: cdouble
  st_degenerate :: bool

definition PgturbohybridDoubleAscendingCompare :: "cdouble \<Rightarrow> cdouble \<Rightarrow> int" where
  "PgturbohybridDoubleAscendingCompare da db = (if dless da db then -1 else if dless db da then 1 else 0)"

definition PgturbohybridMedianSorted :: "fpu \<Rightarrow> cdouble list \<Rightarrow> cdouble" where
  "PgturbohybridMedianSorted f values =
     (let count = length values; mid = count div 2
      in if count = 0 then Fin 0
         else if count mod 2 \<noteq> 0 then values ! mid
         else f_mul f (f_add f (values ! (mid - 1)) (values ! mid)) (Fin (1 / 2)))"

text \<open>The finite scores of a branch, in the order of the results.\<close>

definition branch_scores :: "bool \<Rightarrow> result list \<Rightarrow> cdouble list" where
  "branch_scores dense results =
     filter (\<lambda>x. \<not> not_finite x)
       (if dense then map PgturbohybridResultDenseLikeSimilarity (filter PgturbohybridResultHasDenseLike results)
        else map r_bm25Score (filter r_hasBm25 results))"

definition sort_doubles :: "cdouble list \<Rightarrow> cdouble list" where
  "sort_doubles = qsort_by (\<lambda>a b. PgturbohybridDoubleAscendingCompare a b < 0)"

definition min_max_step :: "cdouble \<Rightarrow> (cdouble \<times> cdouble) option \<Rightarrow> (cdouble \<times> cdouble) option" where
  "min_max_step x acc = (case acc of None \<Rightarrow> Some (x, x) | Some (lo, hi) \<Rightarrow> Some (dmin lo x, dmax hi x))"

definition zero_stats :: PgturbohybridDbsfBranchStats where
  "zero_stats = \<lparr>st_count = 0, st_mean = Fin 0, st_stddev = Fin 0, st_min = Fin 0, st_max = Fin 0, st_degenerate = False\<rparr>"

text \<open>The literal \<open>1.4826\<close> as the double nearest to it is an argument of the model.\<close>

definition PgturbohybridDbsfCollectBranch ::
  "fpu \<Rightarrow> libm \<Rightarrow> cdouble \<Rightarrow> bool \<Rightarrow> int \<Rightarrow> result list \<Rightarrow> bool \<Rightarrow> PgturbohybridDbsfBranchStats" where
  "PgturbohybridDbsfCollectBranch f lm madFactor robustMad minCandidates results dense =
     (let values = branch_scores dense results; n = length values in
      if results = [] \<or> n = 0 then zero_stats\<lparr>st_degenerate := True\<rparr>
      else
        let (lo, hi) = the (fold min_max_step values None);
            mean = f_div f (foldl (f_add f) (Fin 0) values) (of_i (int n));
            sumSq = foldl (\<lambda>s x. let delta = f_sub f x mean in f_add f s (f_mul f delta delta)) (Fin 0) values;
            stddev = (if n > 1 then lm_sqrt lm (f_div f sumSq (of_i (int n - 1))) else Fin 0);
            median = PgturbohybridMedianSorted f (sort_doubles values);
            deviations = sort_doubles (map (\<lambda>x. dabs (f_sub f x median)) (sort_doubles values));
            mean1 = (if robustMad then median else mean);
            stddev1 = (if robustMad then f_mul f madFactor (PgturbohybridMedianSorted f deviations) else stddev)
        in \<lparr>st_count = n, st_mean = mean1, st_stddev = stddev1, st_min = lo, st_max = hi,
            st_degenerate = (int n < max minCandidates 1 \<or> \<not> dless (Fin 0) stddev1 \<or> not_finite stddev1)\<rparr>)"

definition PgturbohybridDbsfNormalize :: "fpu \<Rightarrow> cdouble \<Rightarrow> cdouble \<Rightarrow> PgturbohybridDbsfBranchStats \<Rightarrow> cdouble" where
  "PgturbohybridDbsfNormalize f dbsfSigma v branch =
     (if st_degenerate branch then Fin (1 / 2)
      else let sigma = (if not_finite dbsfSigma \<or> \<not> dless (Fin 0) dbsfSigma then Fin 3 else dbsfSigma);
               lo = f_sub f (st_mean branch) (f_mul f sigma (st_stddev branch));
               hi = f_add f (st_mean branch) (f_mul f sigma (st_stddev branch))
           in if dless hi lo \<or> hi = lo \<and> lo \<noteq> NaN then Fin (1 / 2)
              else PgturbohybridClampUnit (f_div f (f_sub f v lo) (f_sub f hi lo)))"

section \<open>The scores of all results\<close>

datatype PgturbohybridHybridAdaptiveShape = NOT_HYBRID | SHAPE_FIXED | RARE_IDENTIFIER | BROAD_NATURAL_LANGUAGE | SHAPE_MIXED

record score_env =
  se_force_fusion :: u16
  se_identifier_alpha :: cdouble
  se_broad_alpha :: cdouble
  se_default_alpha :: cdouble
  se_both_bonus :: cdouble
  se_dbsf_sigma :: cdouble
  se_dbsf_mad :: bool
  se_dbsf_min_candidates :: int
  se_mad_factor :: cdouble

definition PgturbohybridCalibratedFusionAlpha :: "score_env \<Rightarrow> query \<Rightarrow> PgturbohybridHybridAdaptiveShape \<Rightarrow> cdouble" where
  "PgturbohybridCalibratedFusionAlpha env q queryShape =
     (if has_flag q ALPHA_IS_SET then PgturbohybridClampUnit (q_alpha q)
      else case queryShape of
          RARE_IDENTIFIER \<Rightarrow> PgturbohybridClampUnit (se_identifier_alpha env)
        | BROAD_NATURAL_LANGUAGE \<Rightarrow> PgturbohybridClampUnit (se_broad_alpha env)
        | _ \<Rightarrow> PgturbohybridClampUnit (se_default_alpha env))"

definition effective_fusion :: "score_env \<Rightarrow> query \<Rightarrow> u16" where
  "effective_fusion env q = (if se_force_fusion env \<noteq> 0 then se_force_fusion env else q_fusion q)"

text \<open>The bounds of a branch for the \<open>weighted\<close> mode.\<close>

definition branch_bounds :: "(result \<Rightarrow> bool) \<Rightarrow> (result \<Rightarrow> cdouble) \<Rightarrow> result list \<Rightarrow> cdouble \<times> cdouble" where
  "branch_bounds has score results =
     foldl (\<lambda>(lo, hi) r. if has r then (dmin lo (score r), dmax hi (score r)) else (lo, hi)) (PosInf, NegInf) results"

definition weighted_sum :: "fpu \<Rightarrow> cdouble \<Rightarrow> cdouble \<Rightarrow> cdouble \<Rightarrow> cdouble" where
  "weighted_sum f alpha denseNorm bm25Norm =
     f_add f (f_mul f alpha denseNorm) (f_mul f (f_sub f (Fin 1) alpha) bm25Norm)"

definition PgturbohybridScoreResults ::
  "fpu \<Rightarrow> libm \<Rightarrow> score_env \<Rightarrow> query \<Rightarrow> PgturbohybridHybridAdaptiveShape \<Rightarrow> result list \<Rightarrow> result list" where
  "PgturbohybridScoreResults f lm env q queryShape results =
     (let fusion = effective_fusion env q;
          alpha0 = (if has_flag q ALPHA_IS_SET then q_alpha q else Fin (1 / 2));
          alpha = (if fusion = FUSION_CALIBRATED then PgturbohybridCalibratedFusionAlpha env q queryShape else alpha0);
          (minDense, maxDense) = branch_bounds PgturbohybridResultHasDenseLike PgturbohybridResultDenseLikeSimilarity results;
          (minBm25, maxBm25) = branch_bounds r_hasBm25 r_bm25Score results;
          collect = PgturbohybridDbsfCollectBranch f lm (se_mad_factor env) (se_dbsf_mad env) (se_dbsf_min_candidates env) results;
          dbsfDense = collect True;
          dbsfBm25 = collect False
      in map (\<lambda>r.
           let dense = PgturbohybridResultHasDenseLike r; similarity = PgturbohybridResultDenseLikeSimilarity r;
               fastDense = (if dense then PgturbohybridFastWeightedDenseNormalize f lm similarity else Fin 0);
               fastBm25 = (if r_hasBm25 r then PgturbohybridBm25NormalizeSaturating f (r_bm25Score r) else Fin 0)
           in r\<lparr>r_fusedScore :=
             if fusion = FUSION_WEIGHTED
             then weighted_sum f alpha (if dense then PgturbohybridNormalize f similarity minDense maxDense else Fin 0)
                    (if r_hasBm25 r then PgturbohybridNormalize f (r_bm25Score r) minBm25 maxBm25 else Fin 0)
             else if fusion = FUSION_FAST_WEIGHTED then weighted_sum f alpha fastDense fastBm25
             else if fusion = FUSION_CALIBRATED
             then f_add f (weighted_sum f alpha fastDense fastBm25)
                    (if dense \<and> r_hasBm25 r then PgturbohybridClampUnit (se_both_bonus env) else Fin 0)
             else if fusion = FUSION_DBSF
             then f_add f
                    (f_mul f (PgturbohybridResultDenseLikeWeight q r)
                       (if dense then PgturbohybridDbsfNormalize f (se_dbsf_sigma env) similarity dbsfDense else Fin 0))
                    (f_mul f (q_bm25Weight q)
                       (if r_hasBm25 r then PgturbohybridDbsfNormalize f (se_dbsf_sigma env) (r_bm25Score r) dbsfBm25 else Fin 0))
             else PgturbohybridRrfScore f q r\<rparr>) results)"

section \<open>The bound that prunes lexical candidates\<close>

definition PgturbohybridDoubleDescendingCompare :: "cdouble \<Rightarrow> cdouble \<Rightarrow> int" where
  "PgturbohybridDoubleDescendingCompare da db = (if dless db da then -1 else if dless da db then 1 else 0)"

definition PgturbohybridFusedScoreBoundDenseEntryCompare ::
  "PgturbohybridBm25FusedScoreBoundDenseEntry \<Rightarrow> PgturbohybridBm25FusedScoreBoundDenseEntry \<Rightarrow> int" where
  "PgturbohybridFusedScoreBoundDenseEntryCompare da db =
     of_bool (de_nodeId da > de_nodeId db) - of_bool (de_nodeId da < de_nodeId db)"

definition zero_bound :: fused_bound where
  "zero_bound = \<lparr>fb_enabled = False, fb_alpha = Fin 0, fb_kthScore = Fin 0, fb_maxDenseContribution = Fin 0,
     fb_dense = None, fb_denseCount = 0\<rparr>"

definition PgturbohybridPrepareFastWeightedBound ::
  "fpu \<Rightarrow> libm \<Rightarrow> bool \<Rightarrow> bool \<Rightarrow> query \<Rightarrow> TqDenseCandidate list \<Rightarrow> int \<Rightarrow> fused_bound" where
  "PgturbohybridPrepareFastWeightedBound f lm boundPruning exactRescore q dense limit =
     (if \<not> boundPruning \<or> q_fusion q \<noteq> FUSION_FAST_WEIGHTED \<or> has_flag q REQUIRE_BM25_MATCH \<or> exactRescore then zero_bound
      else let finalK = PgturbohybridEffectiveFinalK q limit in
        if finalK \<le> 0 \<or> int (length dense) < finalK then zero_bound
        else let alpha = (if has_flag q ALPHA_IS_SET then q_alpha q else Fin (1 / 2));
                 contribution = (\<lambda>c. PgturbohybridFastWeightedDenseContribution f lm alpha (dc_similarity c));
                 contributions = map contribution dense
             in \<lparr>fb_enabled = True, fb_alpha = alpha,
                 fb_kthScore = qsort_by (\<lambda>a b. PgturbohybridDoubleDescendingCompare a b < 0) contributions ! (nat finalK - 1),
                 fb_maxDenseContribution = foldl dmax (hd contributions) (tl contributions),
                 fb_dense = Some (qsort_by (\<lambda>a b. PgturbohybridFusedScoreBoundDenseEntryCompare a b < 0)
                   (map (\<lambda>c. \<lparr>de_nodeId = dc_nodeId c, de_contribution = contribution c\<rparr>) dense)),
                 fb_denseCount = of_nat (length dense)\<rparr>)"

text \<open>Arithmetic without rounding, and an exponential that is positive and finite.\<close>

definition exact_fpu :: "fpu \<Rightarrow> bool" where
  "exact_fpu f \<longleftrightarrow> (\<forall>a b. f_add f (Fin a) (Fin b) = Fin (a + b) \<and> f_sub f (Fin a) (Fin b) = Fin (a - b) \<and>
     f_mul f (Fin a) (Fin b) = Fin (a * b) \<and> (b \<noteq> 0 \<longrightarrow> f_div f (Fin a) (Fin b) = Fin (a / b)))"

definition positive_exp :: "libm \<Rightarrow> bool" where
  "positive_exp lm \<longleftrightarrow> (\<forall>a. \<exists>e > 0. lm_exp lm (Fin a) = Fin e)"

lemma saturating_exact:
  assumes "exact_fpu f" "0 \<le> s"
  shows "PgturbohybridBm25NormalizeSaturating f (Fin s) = Fin (s / (s + 1))"
  using assms by (auto simp: PgturbohybridBm25NormalizeSaturating_def exact_fpu_def)

lemma saturating_mono: "0 \<le> s \<Longrightarrow> s \<le> u \<Longrightarrow> s / (s + 1) \<le> u / (u + 1)" for s u :: rat
  by (simp add: field_simps)

lemma fast_norm_exact:
  assumes "exact_fpu f" "positive_exp lm"
  shows "\<exists>n. PgturbohybridFastWeightedDenseNormalize f lm (Fin s) = Fin n \<and> 0 < n \<and> n < 1"
proof -
  obtain e where e: "e > 0" "lm_exp lm (Fin s) = Fin e" using assms(2) by (auto simp: positive_exp_def)
  obtain e' where e': "e' > 0" "lm_exp lm (Fin (- s)) = Fin e'" using assms(2) by (auto simp: positive_exp_def)
  have ne: "1 + e \<noteq> 0" "1 + e' \<noteq> 0" using e(1) e'(1) by auto
  have p: "f_add f (Fin 1) (Fin e) = Fin (1 + e)" "f_add f (Fin 1) (Fin e') = Fin (1 + e')"
    "f_div f (Fin e) (Fin (1 + e)) = Fin (e / (1 + e))" "f_div f (Fin 1) (Fin (1 + e')) = Fin (1 / (1 + e'))"
    using assms(1) ne by (simp_all only: exact_fpu_def) simp_all
  have "PgturbohybridFastWeightedDenseNormalize f lm (Fin s) = (if \<not> s < 0 then Fin (1 / (1 + e')) else Fin (e / (1 + e)))"
    unfolding PgturbohybridFastWeightedDenseNormalize_def Let_def dneg.simps e(2) e'(2) p by simp
  then obtain n where n: "n = (if \<not> s < 0 then 1 / (1 + e') else e / (1 + e))"
    "PgturbohybridFastWeightedDenseNormalize f lm (Fin s) = Fin n" by (cases "s < 0") auto
  have "0 < n" "n < 1" using e(1) e'(1) n(1) by (simp_all split: if_splits)
  then show ?thesis using n(2) by blast
qed

lemma qsort_by_Nil: "qsort_by lt [] = []" and qsort_by_Cons: "qsort_by lt (x # xs) = insert_by lt x (qsort_by lt xs)"
  by (simp_all add: qsort_by_def)

lemma descending_sorted:
  "\<forall>x \<in> set xs. x \<noteq> NaN \<Longrightarrow> sorted_wrt (\<lambda>a b. \<not> dless a b) (qsort_by (\<lambda>a b. PgturbohybridDoubleDescendingCompare a b < 0) xs)"
proof -
  define lt where "lt = (\<lambda>a b. PgturbohybridDoubleDescendingCompare a b < 0)"
  have lt: "lt a b = dless b a" for a b by (auto simp: lt_def PgturbohybridDoubleDescendingCompare_def)
  have ins: "sorted_wrt (\<lambda>a b. \<not> dless a b) (insert_by lt x ys)"
    if "sorted_wrt (\<lambda>a b. \<not> dless a b) ys" "\<forall>y \<in> insert x (set ys). y \<noteq> NaN" for x ys
    using that
  proof (induction ys)
    case (Cons y ys)
    show ?case
    proof (cases "lt y x")
      case True
      then show ?thesis using Cons dless_asym lt by auto
    next
      case False
      have "\<not> dless x z" if "z \<in> set ys" for z
      proof
        assume "dless x z"
        have "\<not> dless y z" "\<not> dless x y" using Cons.prems that False lt by auto
        then show False using \<open>dless x z\<close> dless_total [of x y] dless_trans [of y x z] Cons.prems(2) by auto
      qed
      then show ?thesis using False lt Cons.prems by auto
    qed
  qed simp
  show "\<forall>x \<in> set xs. x \<noteq> NaN \<Longrightarrow> sorted_wrt (\<lambda>a b. \<not> dless a b) (qsort_by lt xs)" for xs
    by (induction xs) (simp_all add: qsort_by_Nil qsort_by_Cons ins)
qed

lemma kth_largest:
  assumes "\<forall>x \<in> set xs. x \<noteq> NaN" "0 < k" "k \<le> length xs"
  shows "k \<le> length (filter (\<lambda>x. \<not> dless x (qsort_by (\<lambda>a b. PgturbohybridDoubleDescendingCompare a b < 0) xs ! (k - 1))) xs)"
proof -
  let ?S = "qsort_by (\<lambda>a b. PgturbohybridDoubleDescendingCompare a b < 0) xs"
  let ?P = "\<lambda>x. \<not> dless x (?S ! (k - 1))"
  have "?P (?S ! i)" if "i < k" for i
  proof (cases "i = k - 1")
    case False
    then show ?thesis using sorted_wrt_nth_less [OF descending_sorted [OF assms(1)], of i "k - 1"] that assms(3) by simp
  qed simp
  then have "\<forall>x \<in> set (take k ?S). ?P x" by (auto simp: in_set_conv_nth)
  then have "k \<le> length (filter ?P (take k ?S))" using assms(3) by (simp add: filter_True)
  also have "\<dots> \<le> length (filter ?P (take k ?S @ drop k ?S))" by (simp only: filter_append length_append)
  also have "\<dots> = size (filter_mset ?P (mset xs))" by (metis append_take_drop_id mset_filter mset_qsort_by size_mset)
  finally show ?thesis by (metis mset_filter size_mset)
qed

text \<open>Whoever is beaten by \<open>k\<close> others is not among the first \<open>k\<close>.\<close>

lemma beaten_not_top:
  assumes "strict_on lt (set xs)" "distinct xs" "B \<subseteq> set xs" "\<forall>b \<in> B. lt b x" "k \<le> card B" "x \<in> set xs"
  shows "x \<notin> set (take k (qsort_by lt xs))"
proof
  let ?S = "qsort_by lt xs"
  assume "x \<in> set (take k ?S)"
  then obtain i where i: "i < k" "i < length ?S" "?S ! i = x" by (auto simp: in_set_conv_nth)
  have "b \<in> set (take i ?S)" if b: "b \<in> B" for b
  proof -
    obtain j where j: "j < length ?S" "?S ! j = b" using assms(3) b by (metis in_set_conv_nth set_qsort_by subsetD)
    have nl: "\<not> lt x b" using assms(1,3,4,6) b unfolding strict_on_def by blast
    have "lt b x" using assms(4) b by blast
    then have "j \<noteq> i" using nl i(3) j(2) by auto
    moreover have "\<not> i < j" using sorted_wrt_nth_less [OF sorted_qsort_by [OF assms(1,2)], of i j] nl i j by auto
    ultimately show ?thesis using j by (auto simp: in_set_conv_nth intro!: exI [of _ j])
  qed
  then have "B \<subseteq> set (take i ?S)" by blast
  then have "card B \<le> card (set (take i ?S))" by (intro card_mono) simp_all
  also have "\<dots> \<le> i" by (metis card_length length_take min.bounded_iff order_refl le_trans)
  finally show False using i(1) assms(5) by simp
qed

text \<open>The score of one result in the mode \<open>fast_weighted\<close>.\<close>

definition fast_score :: "fpu \<Rightarrow> libm \<Rightarrow> cdouble \<Rightarrow> result \<Rightarrow> cdouble" where
  "fast_score f lm alpha r = weighted_sum f alpha
     (if PgturbohybridResultHasDenseLike r
      then PgturbohybridFastWeightedDenseNormalize f lm (PgturbohybridResultDenseLikeSimilarity r) else Fin 0)
     (if r_hasBm25 r then PgturbohybridBm25NormalizeSaturating f (r_bm25Score r) else Fin 0)"

lemma score_results_fast:
  assumes "effective_fusion env q = FUSION_FAST_WEIGHTED"
  shows "PgturbohybridScoreResults f lm env q shape rs = map (\<lambda>r. r\<lparr>r_fusedScore :=
    fast_score f lm (if has_flag q ALPHA_IS_SET then q_alpha q else Fin (1 / 2)) r\<rparr>) rs"
  using assms unfolding PgturbohybridScoreResults_def Let_def fast_score_def
  by (simp add: FUSION_FAST_WEIGHTED_def FUSION_WEIGHTED_def FUSION_CALIBRATED_def split: prod.splits)

text \<open>
  The results that fusion sees: those of the dense candidates, with or without a lexical
  match, and lexical ones; all their scores finite and not negative.
\<close>

definition dense_like :: "TqDenseCandidate list \<Rightarrow> result \<Rightarrow> bool" where
  "dense_like dense r \<longleftrightarrow> \<not> r_hasMultivector r \<and>
     (r_hasDense r \<longrightarrow> (\<exists>c \<in> set dense. dc_nodeId c = r_nodeId r \<and> dc_similarity c = r_denseSimilarity r)) \<and>
     (r_hasBm25 r \<longrightarrow> (\<exists>s \<ge> 0. r_bm25Score r = Fin s))"

lemma fast_score_exact:
  assumes f: "exact_fpu f" "positive_exp lm" and d: "dense_like dense r"
    and fin: "\<forall>c \<in> set dense. \<exists>s. dc_similarity c = Fin s" and a: "0 \<le> a" "a \<le> 1"
  shows "\<exists>d b. (if r_hasDense r then PgturbohybridFastWeightedDenseContribution f lm (Fin a) (r_denseSimilarity r) = Fin d else d = 0) \<and>
    (if r_hasBm25 r then \<exists>s \<ge> 0. r_bm25Score r = Fin s \<and> b = s / (s + 1) else b = 0) \<and>
    0 \<le> d \<and> 0 \<le> b \<and> fast_score f lm (Fin a) r = Fin (d + (1 - a) * b)"
proof -
  have nm: "\<not> r_hasMultivector r" using d by (simp add: dense_like_def)
  obtain n where n: "0 \<le> n" "(if r_hasDense r then PgturbohybridFastWeightedDenseNormalize f lm (r_denseSimilarity r) else Fin 0) = Fin n"
    "\<not> r_hasDense r \<longrightarrow> n = 0"
  proof (cases "r_hasDense r")
    case True
    then obtain c where "c \<in> set dense" "dc_similarity c = r_denseSimilarity r" using d by (auto simp: dense_like_def)
    then obtain s where "r_denseSimilarity r = Fin s" using fin by metis
    then show ?thesis using fast_norm_exact [OF f, of s] True that by force
  qed (use that in auto)
  obtain b where b: "0 \<le> b" "(if r_hasBm25 r then PgturbohybridBm25NormalizeSaturating f (r_bm25Score r) else Fin 0) = Fin b"
    "if r_hasBm25 r then \<exists>s \<ge> 0. r_bm25Score r = Fin s \<and> b = s / (s + 1) else b = 0"
  proof (cases "r_hasBm25 r")
    case True
    then obtain s where "s \<ge> 0" "r_bm25Score r = Fin s" using d by (auto simp: dense_like_def)
    then show ?thesis using saturating_exact [OF f(1), of s] True that [of "s / (s + 1)"] by auto
  qed (use that in auto)
  have "(if PgturbohybridResultHasDenseLike r
      then PgturbohybridFastWeightedDenseNormalize f lm (PgturbohybridResultDenseLikeSimilarity r) else Fin 0) = Fin n"
    using n(2) nm by (cases "r_hasDense r") (simp_all add: PgturbohybridResultHasDenseLike_def PgturbohybridResultDenseLikeSimilarity_def)
  then have "fast_score f lm (Fin a) r = Fin (a * n + (1 - a) * b)"
    using f(1) unfolding fast_score_def b(2) by (simp only: weighted_sum_def exact_fpu_def simp_thms)
  moreover have "r_hasDense r \<Longrightarrow> PgturbohybridFastWeightedDenseContribution f lm (Fin a) (r_denseSimilarity r) = Fin (a * n)"
    using n(2) f(1) by (simp add: PgturbohybridFastWeightedDenseContribution_def exact_fpu_def)
  ultimately show ?thesis using n(1,3) b(1,3) a
    by (intro exI [of _ "a * n"] exI [of _ b]) auto
qed

text \<open>The bound, once it is enabled.\<close>

lemma bound_enabled:
  assumes "fb_enabled (PgturbohybridPrepareFastWeightedBound f lm boundPruning exactRescore q dense limit)"
  defines "k \<equiv> PgturbohybridEffectiveFinalK q limit"
  defines "alpha \<equiv> if has_flag q ALPHA_IS_SET then q_alpha q else Fin (1 / 2)"
  defines "contribution \<equiv> \<lambda>c. PgturbohybridFastWeightedDenseContribution f lm alpha (dc_similarity c)"
  shows "0 < k" "k \<le> int (length dense)"
    "PgturbohybridPrepareFastWeightedBound f lm boundPruning exactRescore q dense limit =
      \<lparr>fb_enabled = True, fb_alpha = alpha,
       fb_kthScore = qsort_by (\<lambda>a b. PgturbohybridDoubleDescendingCompare a b < 0) (map contribution dense) ! (nat k - 1),
       fb_maxDenseContribution = foldl dmax (hd (map contribution dense)) (tl (map contribution dense)),
       fb_dense = Some (qsort_by (\<lambda>a b. PgturbohybridFusedScoreBoundDenseEntryCompare a b < 0)
         (map (\<lambda>c. \<lparr>de_nodeId = dc_nodeId c, de_contribution = contribution c\<rparr>) dense)),
       fb_denseCount = of_nat (length dense)\<rparr>"
  using assms(1) unfolding PgturbohybridPrepareFastWeightedBound_def k_def alpha_def contribution_def Let_def zero_bound_def
  by (simp_all split: if_splits)

lemma entries_sorted:
  assumes "distinct (map de_nodeId es)"
  shows "sorted_wrt (<) (map de_nodeId (qsort_by (\<lambda>a b. PgturbohybridFusedScoreBoundDenseEntryCompare a b < 0) es))"
proof -
  have lt: "(PgturbohybridFusedScoreBoundDenseEntryCompare a b < 0) = (de_nodeId a < de_nodeId b)" for a b
    unfolding PgturbohybridFusedScoreBoundDenseEntryCompare_def by (rule cmp_steps)
  have "strict_on (\<lambda>a b. PgturbohybridFusedScoreBoundDenseEntryCompare a b < 0) (set es)"
    using assms unfolding strict_on_def lt distinct_map inj_on_def by (meson less_asym less_trans linorder_neqE)
  from sorted_qsort_by [OF this] show ?thesis using assms unfolding sorted_wrt_map lt by (simp add: distinct_map)
qed

lemma find_entry:
  assumes "distinct (map de_nodeId es)" "x \<in> set es"
  shows "find (\<lambda>e. de_nodeId e = de_nodeId x) es = Some x"
  using assms by (induction es) (auto simp: image_iff)

lemma bound_contribution:
  assumes b: "fb_enabled b" "b = PgturbohybridPrepareFastWeightedBound f lm boundPruning exactRescore q dense limit"
    and dense: "distinct (map dc_nodeId dense)" "length dense < 2 ^ 32"
  shows "PgturbohybridBm25DenseContributionForBound (Some b) n =
    (case find (\<lambda>c. dc_nodeId c = n) dense of None \<Rightarrow> Fin 0
     | Some c \<Rightarrow> PgturbohybridFastWeightedDenseContribution f lm (fb_alpha b) (dc_similarity c))"
proof -
  define es where "es = map (\<lambda>c. \<lparr>de_nodeId = dc_nodeId c, de_contribution = PgturbohybridFastWeightedDenseContribution f lm (fb_alpha b) (dc_similarity c)\<rparr>) dense"
  define S where "S = qsort_by (\<lambda>a b. PgturbohybridFusedScoreBoundDenseEntryCompare a b < 0) es"
  note be = bound_enabled(3) [OF b(1) [unfolded b(2)], folded b(2)]
  have al: "fb_alpha b = (if has_flag q ALPHA_IS_SET then q_alpha q else Fin (1 / 2))" by (subst be) simp
  have S: "fb_dense b = Some S" unfolding S_def es_def al by (subst be) simp
  have len: "unat (fb_denseCount b) = length S" using dense(2) by (subst be) (simp add: S_def es_def unat_of_nat)
  have d: "distinct (map de_nodeId es)" using dense(1) by (simp add: es_def comp_def)
  then have dS: "distinct (map de_nodeId S)" unfolding S_def by (metis distinct_map distinct_qsort_by set_qsort_by)
  note ex = dense_contribution_exact [OF b(1) S len entries_sorted [OF d, folded S_def], of n]
  show ?thesis
  proof (cases "find (\<lambda>c. dc_nodeId c = n) dense")
    case None
    then have "find (\<lambda>e. de_nodeId e = n) S = None" by (auto simp: find_None_iff S_def es_def)
    then show ?thesis using ex None by simp
  next
    case (Some c)
    then have c: "c \<in> set dense" "dc_nodeId c = n" by (auto simp: find_Some_iff)
    let ?e = "\<lparr>de_nodeId = n, de_contribution = PgturbohybridFastWeightedDenseContribution f lm (fb_alpha b) (dc_similarity c)\<rparr>"
    have "?e \<in> set S" using c by (auto simp: S_def es_def)
    from find_entry [OF dS this] show ?thesis using ex Some by simp
  qed
qed

lemma pruned_not_first:
  fixes dense :: "TqDenseCandidate list" and rs :: "result list"
  assumes f: "exact_fpu f" "positive_exp lm" and fast: "effective_fusion env q = FUSION_FAST_WEIGHTED"
    and b: "b = PgturbohybridPrepareFastWeightedBound f lm boundPruning exactRescore q dense limit"
    and alpha: "has_flag q ALPHA_IS_SET \<longrightarrow> (\<exists>a. q_alpha q = Fin a \<and> 0 \<le> a \<and> a \<le> 1)"
    and dense: "distinct (map dc_nodeId dense)" "length dense < 2 ^ 32" "\<forall>c \<in> set dense. \<exists>s. dc_similarity c = Fin s"
    and rs: "distinct (map r_nodeId rs)" "\<forall>x \<in> set rs. dense_like dense x"
      "\<forall>c \<in> set dense. \<exists>x \<in> set rs. r_nodeId x = dc_nodeId c \<and> r_hasDense x"
    and r: "r \<in> set rs" "r_hasBm25 r" "r_bm25Score r = Fin s" "s \<le> u"
      "PgturbohybridBm25FusedScoreBoundCanPruneCandidate f (Some b) (r_nodeId r) (Fin u)"
  shows "r_nodeId r \<notin> r_nodeId ` set (take (nat (PgturbohybridEffectiveFinalK q limit))
    (qsort_by score_before (PgturbohybridScoreResults f lm env q shape rs)))"
proof -
  let ?k = "nat (PgturbohybridEffectiveFinalK q limit)"
  have en: "fb_enabled b" using r(5) by (simp add: PgturbohybridBm25FusedScoreBoundCanPruneCandidate_def)
  note be = bound_enabled [OF en [unfolded b], folded b]
  have ab: "fb_alpha b = (if has_flag q ALPHA_IS_SET then q_alpha q else Fin (1 / 2))" by (subst be(3)) simp
  obtain a where a: "fb_alpha b = Fin a" "0 \<le> a" "a \<le> 1"
  proof (cases "has_flag q ALPHA_IS_SET")
    case True
    then show ?thesis using alpha ab that by auto
  next
    case False
    then show ?thesis using ab that [of "1 / 2"] by simp
  qed
  define sc where "sc = (\<lambda>x. x\<lparr>r_fusedScore := fast_score f lm (Fin a) x\<rparr>)"
  have scored: "PgturbohybridScoreResults f lm env q shape rs = map sc rs"
    using score_results_fast [OF fast] by (simp add: ab [symmetric] a(1) sc_def)
  define con where "con c = PgturbohybridFastWeightedDenseContribution f lm (Fin a) (dc_similarity c)" for c :: TqDenseCandidate
  have kth: "fb_kthScore b = qsort_by (\<lambda>a b. PgturbohybridDoubleDescendingCompare a b < 0) (map con dense) ! (?k - 1)"
    by (subst be(3)) (simp add: con_def ab [symmetric] a(1) cong: map_cong)
  have conE: "\<exists>d \<ge> 0. con c = Fin d" if "c \<in> set dense" for c
  proof -
    from bspec [OF dense(3) that] obtain z where "dc_similarity c = Fin z" by (elim exE)
    moreover obtain n where "PgturbohybridFastWeightedDenseNormalize f lm (Fin z) = Fin n" "0 < n"
      using fast_norm_exact [OF f] by blast
    ultimately show ?thesis using f(1) a(2)
      by (intro exI [of _ "a * n"]) (simp add: con_def PgturbohybridFastWeightedDenseContribution_def exact_fpu_def)
  qed
  have k: "0 < ?k" "?k \<le> length dense" using be(1,2) by simp_all
  have "?k - 1 < length (qsort_by (\<lambda>a b. PgturbohybridDoubleDescendingCompare a b < 0) (map con dense))" using k by simp
  from nth_mem [OF this] have "fb_kthScore b \<in> set (map con dense)" unfolding kth by simp
  then obtain c where "c \<in> set dense" "fb_kthScore b = con c" by auto
  then obtain t where t: "fb_kthScore b = Fin t" using conE [of c] by auto
  have score: "\<exists>d b. (if r_hasDense x then \<exists>c \<in> set dense. dc_nodeId c = r_nodeId x \<and> con c = Fin d else d = 0) \<and>
      (if r_hasBm25 x then \<exists>s \<ge> 0. r_bm25Score x = Fin s \<and> b = s / (s + 1) else b = 0) \<and>
      0 \<le> d \<and> 0 \<le> b \<and> fast_score f lm (Fin a) x = Fin (d + (1 - a) * b)" if x: "x \<in> set rs" for x
  proof -
    have dx: "dense_like dense x" using rs(2) x by blast
    obtain d b where e: "if r_hasDense x then PgturbohybridFastWeightedDenseContribution f lm (Fin a) (r_denseSimilarity x) = Fin d else d = 0"
      "if r_hasBm25 x then \<exists>s \<ge> 0. r_bm25Score x = Fin s \<and> b = s / (s + 1) else b = 0"
      "0 \<le> d" "0 \<le> b" "fast_score f lm (Fin a) x = Fin (d + (1 - a) * b)"
      using fast_score_exact [OF f dx dense(3) a(2,3)] by blast
    have "r_hasDense x \<Longrightarrow> \<exists>c \<in> set dense. dc_nodeId c = r_nodeId x \<and> con c = Fin d"
      using dx e(1) by (fastforce simp: dense_like_def con_def)
    then show ?thesis using e by (intro exI [of _ d] exI [of _ b]) auto
  qed
  have same: "c = c'" if "c \<in> set dense" "c' \<in> set dense" "dc_nodeId c = dc_nodeId c'" for c c'
    using dense(1) that by (auto simp: distinct_map inj_on_def)
  \<comment> \<open>the pruned candidate scores less than the bound\<close>
  obtain v where v: "fast_score f lm (Fin a) r = Fin v" "v < t"
  proof -
    obtain d b' where e: "if r_hasDense r then \<exists>c \<in> set dense. dc_nodeId c = r_nodeId r \<and> con c = Fin d else d = 0"
      "0 \<le> s" "b' = s / (s + 1)" "fast_score f lm (Fin a) r = Fin (d + (1 - a) * b')"
      using score [OF r(1)] r(2,3) by auto
    define d0 where "d0 = PgturbohybridBm25DenseContributionForBound (Some b) (r_nodeId r)"
    have d0: "d0 = (case find (\<lambda>c. dc_nodeId c = r_nodeId r) dense of None \<Rightarrow> Fin 0 | Some c \<Rightarrow> con c)"
      unfolding d0_def con_def bound_contribution [OF en b dense(1,2)] a(1) ..
    obtain x where x: "d0 = Fin x" "d \<le> x"
    proof (cases "find (\<lambda>c. dc_nodeId c = r_nodeId r) dense")
      case None
      then have "\<not> r_hasDense r" using e(1) by (auto simp: find_None_iff)
      then show ?thesis using that [of 0] d0 None e(1) by simp
    next
      case (Some c)
      then have c: "c \<in> set dense" "dc_nodeId c = r_nodeId r" by (auto simp: find_Some_iff)
      obtain y where y: "con c = Fin y" "0 \<le> y" using conE [OF c(1)] by blast
      have "d \<le> y" using e(1) y same [OF c(1)] c(2) by (cases "r_hasDense r") fastforce+
      then show ?thesis using that [of y] d0 Some y by simp
    qed
    have "dless (fused_max f b d0 (Fin u)) (Fin t)"
      using r(5) by (simp add: PgturbohybridBm25FusedScoreBoundCanPruneCandidate_def d0_def t)
    moreover have "fused_max f b d0 (Fin u) = Fin (x + (1 - a) * (u / (u + 1)))"
      using f(1) saturating_exact [OF f(1), of u] e(2) r(4) unfolding fused_max_def a(1) x(1) by (simp add: exact_fpu_def)
    moreover have "(1 - a) * (s / (s + 1)) \<le> (1 - a) * (u / (u + 1))"
      using saturating_mono [OF e(2) r(4)] a(3) by (intro mult_left_mono) simp_all
    ultimately show ?thesis using that [OF e(4)] x(2) unfolding e(3) by simp
  qed
  \<comment> \<open>and enough dense candidates score at least the bound\<close>
  define N where "N = filter (\<lambda>c. \<not> dless (con c) (Fin t)) dense"
  have "?k \<le> length (filter (\<lambda>x. \<not> dless x (Fin t)) (map con dense))"
    using kth_largest [of "map con dense" ?k] k conE unfolding kth [symmetric] t by fastforce
  then have N: "?k \<le> length N" by (simp add: N_def filter_map comp_def)
  define B where "B = sc ` {x \<in> set rs. r_hasDense x \<and> r_nodeId x \<in> dc_nodeId ` set N}"
  have inB: "\<exists>y c. y \<in> set rs \<and> x = sc y \<and> r_hasDense y \<and> c \<in> set N \<and> r_nodeId y = dc_nodeId c" if "x \<in> B" for x
    using that by (auto simp: B_def)
  have win: "\<exists>w \<ge> t. r_fusedScore x = Fin w" if x: "x \<in> B" for x
  proof -
    obtain y c where y: "y \<in> set rs" "x = sc y" "r_hasDense y" "c \<in> set N" "r_nodeId y = dc_nodeId c" using inB [OF x] by blast
    obtain d b' where e: "\<exists>c \<in> set dense. dc_nodeId c = r_nodeId y \<and> con c = Fin d" "0 \<le> b'"
      "fast_score f lm (Fin a) y = Fin (d + (1 - a) * b')" using score [OF y(1)] y(3) by auto
    have "c \<in> set dense" "\<not> dless (con c) (Fin t)" using y(4) by (simp_all add: N_def)
    moreover obtain c' where "c' \<in> set dense" "dc_nodeId c' = r_nodeId y" "con c' = Fin d" using e(1) by blast
    ultimately have "t \<le> d" using same [of c c'] y(5) by fastforce
    moreover have "0 \<le> (1 - a) * b'" using e(2) a(3) by simp
    ultimately show ?thesis using e(3) y(2) by (simp add: sc_def)
  qed
  have "dc_nodeId ` set N \<subseteq> r_nodeId ` B"
  proof
    fix n assume "n \<in> dc_nodeId ` set N"
    then obtain c where c: "c \<in> set N" "n = dc_nodeId c" by blast
    then have "c \<in> set dense" by (simp add: N_def)
    then obtain y where "y \<in> set rs" "r_nodeId y = dc_nodeId c" "r_hasDense y" using rs(3) by blast
    then have "sc y \<in> B" "r_nodeId (sc y) = n" using c by (auto simp: B_def sc_def)
    then show "n \<in> r_nodeId ` B" by blast
  qed
  moreover have "finite B" by (simp add: B_def)
  ultimately have "card (dc_nodeId ` set N) \<le> card B" by (meson card_image_le card_mono finite_imageI order_trans)
  moreover have "distinct (map dc_nodeId N)" using dense(1) by (simp add: N_def distinct_map_filter)
  then have "card (dc_nodeId ` set N) = length N" using distinct_card by fastforce
  ultimately have cB: "?k \<le> card B" using N by simp
  \<comment> \<open>so they push it out of the first results\<close>
  let ?S = "map sc rs"
  have nid: "r_nodeId (sc x) = r_nodeId x" for x by (simp add: sc_def)
  have fin: "scored x" if "x \<in> set ?S" for x
  proof -
    obtain y where "y \<in> set rs" "x = sc y" using \<open>x \<in> set ?S\<close> by auto
    then show ?thesis using score [of y] by (auto simp: sc_def)
  qed
  have dS: "distinct (map r_nodeId ?S)" using rs(1) by (simp add: comp_def nid)
  note inj = conjunct2 [OF iffD1 [OF distinct_map dS]]
  have st: "strict_on score_before (set ?S)" "distinct ?S"
    using strict_results [OF _ inj] fin conjunct1 [OF iffD1 [OF distinct_map dS]] by blast+
  have "score_before x (sc r)" if x: "x \<in> B" for x
  proof -
    obtain w where "t \<le> w" "r_fusedScore x = Fin w" using win [OF x] by blast
    then show ?thesis using v by (simp add: score_before_def PgturbohybridScoreCompare_def sc_def)
  qed
  moreover have "B \<subseteq> set ?S" by (auto simp: B_def)
  moreover have "sc r \<in> set ?S" using r(1) by simp
  ultimately have out: "sc r \<notin> set (take ?k (qsort_by score_before ?S))" using beaten_not_top [OF st] cB by blast
  show ?thesis
  proof
    assume "r_nodeId r \<in> r_nodeId ` set (take ?k (qsort_by score_before (PgturbohybridScoreResults f lm env q shape rs)))"
    then obtain x where x: "x \<in> set (take ?k (qsort_by score_before ?S))" "r_nodeId x = r_nodeId (sc r)" by (auto simp: scored nid)
    then have "x \<in> set ?S" by (metis in_set_takeD set_qsort_by)
    then have "x = sc r" using dS x(2) \<open>sc r \<in> set ?S\<close> by (metis distinct_map inj_onD)
    then show False using out x(1) by simp
  qed
qed

lemma length_score_results: "length (PgturbohybridScoreResults f lm env q shape rs) = length rs"
  by (simp add: PgturbohybridScoreResults_def Let_def split_beta)

lemma score_results_nodes: "map r_nodeId (PgturbohybridScoreResults f lm env q shape rs) = map r_nodeId rs"
  by (simp add: PgturbohybridScoreResults_def Let_def split_beta comp_def)

text \<open>Whether a \<open>LIMIT\<close> of the executor is above the scan, as the final target decides it.\<close>

definition under_limit :: "budget_guc \<Rightarrow> int \<Rightarrow> bool" where
  "under_limit g limit \<longleftrightarrow> 0 < (if g_active_limit g < 0 \<and> limit > 0 then limit else g_active_limit g)"

lemma final_target_no_limit: "\<not> under_limit g limit \<Longrightarrow> PgturbohybridFinalTarget g q n limit \<le> PgturbohybridEffectiveFinalK q limit"
  by (auto simp: under_limit_def PgturbohybridFinalTarget_def Let_def)

lemma final_target_limit:
  "under_limit g limit \<Longrightarrow> g_max_union_candidates g \<le> 0 \<or> n \<le> g_max_union_candidates g \<Longrightarrow> PgturbohybridFinalTarget g q n limit = n"
  by (auto simp: under_limit_def PgturbohybridFinalTarget_def Let_def)


definition demo_libm :: libm where "demo_libm = \<lparr>lm_exp = (\<lambda>_. Fin 1), lm_sqrt = (\<lambda>x. x)\<rparr>"

definition demo_score_env :: score_env where
  "demo_score_env = \<lparr>se_force_fusion = 0, se_identifier_alpha = Fin 0, se_broad_alpha = Fin 1, se_default_alpha = Fin 1,
     se_both_bonus = Fin 0, se_dbsf_sigma = Fin 3, se_dbsf_mad = False, se_dbsf_min_candidates = 2, se_mad_factor = Fin 1\<rparr>"

definition fast_query :: query where
  "fast_query = demo_query\<lparr>q_fusion := FUSION_FAST_WEIGHTED, q_flags := 0x010B, q_finalK := 1\<rparr>"

definition demo_neighbour :: TqDenseCandidate where
  "demo_neighbour = \<lparr>dc_nodeId = 1, dc_heaptid = zero_tid, dc_distance = Fin 0, dc_similarity = Fin 0, dc_rank = 1, dc_exactScored = False\<rparr>"

definition demo_lexical :: PgturbohybridBm25Result where
  "demo_lexical = \<lparr>bm_nodeId = 2, bm_heaptid = zero_tid, bm_bm25Score = Fin 0, bm_rank = 1\<rparr>"

lemmas demo_candidates = demo_neighbour_def demo_lexical_def zero_result_def PgturbohybridAddDenseCandidate_def
  PgturbohybridAddBm25Candidate_def


end
