(* ===== verification/Fusion_Scan.thy ===== *)
theory Fusion_Scan
  imports Fusion_Merge Fusion_Score
begin

text \<open>
  The fusion of a hybrid scan as a whole (\<open>pgturbohybrid_am.c\<close>): the merge of a sorted list,
  the choice between the three merges, scoring and the cut to the final results. For a query
  with one dense branch and a lexical branch the three merges give the same results.
\<close>

section \<open>The merge of a sorted list\<close>

text \<open>The body of the inner loop: another item of the same key is added to the first one.\<close>

definition merge_item :: "result \<Rightarrow> result \<Rightarrow> result" where
  "merge_item other item =
     (let item1 = (if r_hasDense other
            then item\<lparr>r_hasDense := True, r_denseDistance := r_denseDistance other, r_denseSimilarity := r_denseSimilarity other,
                      r_denseRank := r_denseRank other, r_exactScored := r_exactScored other, r_heaptid := r_heaptid other\<rparr>
            else item);
          item2 = (if r_hasMultivector other
            then item1\<lparr>r_hasMultivector := True, r_multivectorDistance := r_multivectorDistance other,
                       r_multivectorSimilarity := r_multivectorSimilarity other, r_multivectorRank := r_multivectorRank other,
                       r_exactScored := r_exactScored other, r_heaptid := r_heaptid other\<rparr>
            else item1)
      in if r_hasBm25 other then PgturbohybridMergeBm25ResultItem other item2 else item2)"

fun merge_runs :: "(result \<Rightarrow> result \<Rightarrow> bool) \<Rightarrow> result \<Rightarrow> result list \<Rightarrow> result list" where
  "merge_runs same item [] = [item]"
| "merge_runs same item (other # xs) =
     (if same other item then merge_runs same (merge_item other item) xs else item # merge_runs same other xs)"

definition merge_sorted :: "bool \<Rightarrow> bool \<Rightarrow> result list \<Rightarrow> result list" where
  "merge_sorted useDocumentFusionKey requireBm25 xs =
     (case xs of [] \<Rightarrow> []
      | item # ys \<Rightarrow> filter (wanted requireBm25)
          (merge_runs (if useDocumentFusionKey then (\<lambda>a b. PgturbohybridItemPointerDataCompare (r_heaptid a) (r_heaptid b) = 0)
                       else (\<lambda>a b. r_nodeId a = r_nodeId b)) item ys))"

text \<open>
  \<open>qsort\<close> of the candidates is a parameter: any function that returns the items in an order
  the comparison accepts. It leaves the order of equal items open.
\<close>

definition cmp_order :: "('a \<Rightarrow> 'a \<Rightarrow> int) \<Rightarrow> 'a set \<Rightarrow> bool" where
  "cmp_order cmp A \<longleftrightarrow> (\<forall>a \<in> A. \<forall>b \<in> A. cmp a b < 0 \<longleftrightarrow> cmp b a > 0) \<and>
     (\<forall>a \<in> A. \<forall>b \<in> A. \<forall>c \<in> A. cmp a b \<le> 0 \<longrightarrow> cmp b c \<le> 0 \<longrightarrow> cmp a c \<le> 0)"

definition sorts :: "(('a \<Rightarrow> 'a \<Rightarrow> int) \<Rightarrow> 'a list \<Rightarrow> 'a list) \<Rightarrow> bool" where
  "sorts qs \<longleftrightarrow> (\<forall>cmp xs. cmp_order cmp (set xs) \<longrightarrow>
     mset (qs cmp xs) = mset xs \<and> sorted_wrt (\<lambda>a b. cmp a b \<le> 0) (qs cmp xs))"

definition sort_items ::
  "bool \<Rightarrow> TqDenseCandidate list \<Rightarrow> TqDenseCandidate list \<Rightarrow> PgturbohybridBm25Result list \<Rightarrow> result list" where
  "sort_items multivectorMergedAsDense dense multivector bm25 =
     map (\<lambda>c. if multivectorMergedAsDense then PgturbohybridAddMultiVectorCandidate c zero_result
              else PgturbohybridAddDenseCandidate c zero_result) dense @
     map (\<lambda>c. PgturbohybridAddMultiVectorCandidate c zero_result) multivector @
     map (\<lambda>c. PgturbohybridAddBm25Candidate c zero_result) bm25"

definition sort_merge ::
  "((result \<Rightarrow> result \<Rightarrow> int) \<Rightarrow> result list \<Rightarrow> result list) \<Rightarrow> bool \<Rightarrow> bool \<Rightarrow> result list \<Rightarrow> result list" where
  "sort_merge qs useDocumentFusionKey requireBm25 items =
     merge_sorted useDocumentFusionKey requireBm25
       (if length items > 1
        then qs (if useDocumentFusionKey then PgturbohybridHeapTidCompare else PgturbohybridNodeCompare) items else items)"

text \<open>The items of a node, merged in the order they come.\<close>

definition group_merge :: "u32 \<Rightarrow> result list \<Rightarrow> result option" where
  "group_merge n xs = (case filter (\<lambda>r. r_nodeId r = n) xs of [] \<Rightarrow> None | y # ys \<Rightarrow> Some (fold merge_item ys y))"

lemma merge_item_node [simp]: "r_nodeId (merge_item other item) = r_nodeId item"
  by (simp add: merge_item_def Let_def PgturbohybridMergeBm25ResultItem_def)

lemma merge_runs_groups:
  assumes "sorted (map r_nodeId (item # xs))"
  shows "lists_map r_nodeId False (\<lambda>n. group_merge n (item # xs)) (merge_runs (\<lambda>a b. r_nodeId a = r_nodeId b) item xs) \<and>
    (\<forall>r \<in> set (merge_runs (\<lambda>a b. r_nodeId a = r_nodeId b) item xs). r_nodeId item \<le> r_nodeId r)"
  using assms
proof (induction xs arbitrary: item)
  case Nil
  then show ?case by (auto simp: lists_map_def group_merge_def wanted_def)
next
  case (Cons other xs)
  show ?case
  proof (cases "r_nodeId other = r_nodeId item")
    case True
    have "group_merge n (merge_item other item # xs) = group_merge n (item # other # xs)" for n
      using True by (auto simp: group_merge_def)
    then show ?thesis using Cons.IH [of "merge_item other item"] Cons.prems True by simp
  next
    case False
    then have lt: "r_nodeId item < r_nodeId other" using Cons.prems by (simp add: less_le)
    have ih: "lists_map r_nodeId False (\<lambda>n. group_merge n (other # xs)) (merge_runs (\<lambda>a b. r_nodeId a = r_nodeId b) other xs)"
      "\<forall>r \<in> set (merge_runs (\<lambda>a b. r_nodeId a = r_nodeId b) other xs). r_nodeId other \<le> r_nodeId r"
      using Cons.IH [of other] Cons.prems by auto
    have "filter (\<lambda>r. r_nodeId r = r_nodeId item) (other # xs) = []"
      using lt Cons.prems by (auto simp: filter_empty_conv)
    then have "group_merge n (item # other # xs) = (if n = r_nodeId item then Some item else group_merge n (other # xs))" for n
      by (auto simp: group_merge_def)
    moreover have "group_merge (r_nodeId item) (other # xs) = None"
      using \<open>filter _ (other # xs) = []\<close> by (simp add: group_merge_def)
    ultimately show ?thesis using ih lt False unfolding lists_map_def wanted_def by (auto simp: image_iff)
  qed
qed

section \<open>One dense and one lexical branch\<close>

text \<open>The merged result of a node from its candidate in either branch.\<close>

definition add_first :: "bool \<Rightarrow> TqDenseCandidate \<Rightarrow> result \<Rightarrow> result" where
  "add_first mv c = (if mv then PgturbohybridAddMultiVectorCandidate c else PgturbohybridAddDenseCandidate c)"

lemma find_filter:
  assumes "distinct (map key cs)" "\<forall>c \<in> set cs. r_nodeId (g c) = key c"
  shows "filter (\<lambda>r. r_nodeId r = n) (map g cs) = (case find (\<lambda>c. key c = n) cs of None \<Rightarrow> [] | Some c \<Rightarrow> [g c])"
  using assms
proof (induction cs)
  case (Cons c cs)
  show ?case
  proof (cases "key c = n")
    case True
    then have "\<forall>x \<in> set cs. r_nodeId (g x) \<noteq> n" using Cons.prems by (auto simp: rev_image_eqI)
    then have "filter (\<lambda>r. r_nodeId r = n) (map g cs) = []" by (auto simp: filter_empty_conv)
    then show ?thesis using True Cons.prems(2) by simp
  next
    case False
    then show ?thesis using Cons by simp
  qed
qed simp

lemma fold_visit_find:
  assumes "distinct (map key cs)"
  shows "fold (visit new) (map (\<lambda>c. (key c, f c)) cs) M n =
    (case find (\<lambda>c. key c = n) cs of None \<Rightarrow> M n
     | Some c \<Rightarrow> Some (f c (case M n of None \<Rightarrow> new n | Some r \<Rightarrow> r)))"
  using assms
proof (induction cs arbitrary: M)
  case (Cons c cs)
  show ?case
  proof (cases "key c = n")
    case True
    then have "find (\<lambda>c. key c = n) cs = None" using Cons.prems by (auto simp: find_None_iff rev_image_eqI)
    then show ?thesis using Cons True by (simp add: visit_def)
  next
    case False
    then have "visit new (key c, f c) M n = M n" by (simp add: visit_def)
    then show ?thesis using Cons.IH [of "visit new (key c, f c) M"] Cons.prems False
      by (simp split: option.split)
  qed
qed simp

lemma two_branch_map:
  assumes "distinct (map dc_nodeId dense)" "distinct (map bm_nodeId bm25)"
  shows "merge_map new_node (node_visits (candidate_visits mv dense [] bm25)) n =
    (case find (\<lambda>c. dc_nodeId c = n) dense of
       None \<Rightarrow> map_option (\<lambda>b. PgturbohybridMergeBm25Candidate b (new_node n)) (find (\<lambda>b. bm_nodeId b = n) bm25)
     | Some c \<Rightarrow> Some (case find (\<lambda>b. bm_nodeId b = n) bm25 of
           None \<Rightarrow> add_first mv c (new_node n) | Some b \<Rightarrow> PgturbohybridMergeBm25Candidate b (add_first mv c (new_node n))))"
proof -
  have v: "node_visits (candidate_visits mv dense [] bm25) =
      map (\<lambda>c. (dc_nodeId c, add_first mv c)) dense @ map (\<lambda>b. (bm_nodeId b, PgturbohybridMergeBm25Candidate b)) bm25"
    by (simp add: node_visits_def candidate_visits_def add_first_def)
  show ?thesis unfolding v merge_map_def
    by (simp add: fold_visit_find assms split: option.split)
qed

lemma lexical_merge: "bm_nodeId b = n \<Longrightarrow>
   PgturbohybridAddBm25Candidate b zero_result = PgturbohybridMergeBm25Candidate b (new_node n)"
  by (simp add: PgturbohybridAddBm25Candidate_def PgturbohybridMergeBm25Candidate_def new_node_def zero_result_def Let_def)

lemma pair_merges:
  assumes "dc_nodeId c = n" "bm_nodeId b = n"
  shows "add_first mv c zero_result = add_first mv c (new_node n)"
    "merge_item (PgturbohybridAddBm25Candidate b zero_result) (add_first mv c zero_result) =
     PgturbohybridMergeBm25Candidate b (add_first mv c (new_node n))"
    "merge_item (add_first mv c zero_result) (PgturbohybridAddBm25Candidate b zero_result) =
     PgturbohybridMergeBm25Candidate b (add_first mv c (new_node n))"
  using assms
  by (simp_all add: add_first_def PgturbohybridAddDenseCandidate_def PgturbohybridAddMultiVectorCandidate_def
      PgturbohybridAddBm25Candidate_def PgturbohybridMergeBm25Candidate_def PgturbohybridMergeBm25ResultItem_def
      merge_item_def new_node_def zero_result_def Let_def)

lemma two_branch_groups:
  assumes "distinct (map dc_nodeId dense)" "distinct (map bm_nodeId bm25)"
    and perm: "mset xs = mset (sort_items mv dense [] bm25)"
  shows "group_merge n xs = merge_map new_node (node_visits (candidate_visits mv dense [] bm25)) n"
proof -
  let ?d = "find (\<lambda>c. dc_nodeId c = n) dense" and ?b = "find (\<lambda>b. bm_nodeId b = n) bm25"
  have items: "sort_items mv dense [] bm25 =
      map (\<lambda>c. add_first mv c zero_result) dense @ map (\<lambda>b. PgturbohybridAddBm25Candidate b zero_result) bm25"
    by (simp add: sort_items_def add_first_def)
  have ids: "\<forall>c \<in> set dense. r_nodeId (add_first mv c zero_result) = dc_nodeId c"
    "\<forall>b \<in> set bm25. r_nodeId (PgturbohybridAddBm25Candidate b zero_result) = bm_nodeId b"
    by (simp_all add: add_first_def PgturbohybridAddDenseCandidate_def PgturbohybridAddMultiVectorCandidate_def
        PgturbohybridAddBm25Candidate_def)
  have "mset (filter (\<lambda>r. r_nodeId r = n) xs) = mset (filter (\<lambda>r. r_nodeId r = n) (sort_items mv dense [] bm25))"
    by (simp only: mset_filter perm)
  also have "filter (\<lambda>r. r_nodeId r = n) (sort_items mv dense [] bm25) =
      (case ?d of None \<Rightarrow> [] | Some c \<Rightarrow> [add_first mv c zero_result]) @
      (case ?b of None \<Rightarrow> [] | Some b \<Rightarrow> [PgturbohybridAddBm25Candidate b zero_result])"
    unfolding items filter_append find_filter [OF assms(1) ids(1)] find_filter [OF assms(2) ids(2)] ..
  finally have m: "mset (filter (\<lambda>r. r_nodeId r = n) xs) = mset \<dots>" .
  define ys where "ys = filter (\<lambda>r. r_nodeId r = n) xs"
  have g: "group_merge n xs = (case ys of [] \<Rightarrow> None | y # ys \<Rightarrow> Some (fold merge_item ys y))"
    by (simp add: group_merge_def ys_def)
  note M = two_branch_map [OF assms(1,2), of mv n]
  have two: "mset ys = {#a, b#} \<Longrightarrow> ys = [a, b] \<or> ys = [b, a]" for a b
    by (cases ys; cases "tl ys") (auto simp: add_eq_conv_ex)
  have one: "mset ys = {#a#} \<Longrightarrow> ys = [a]" for a by simp
  show ?thesis
  proof (cases ?d; cases ?b)
    assume d: "?d = None" and b: "?b = None"
    then have "ys = []" using m unfolding ys_def [symmetric] by simp
    then show ?thesis using g M d b by simp
  next
    fix b assume d: "?d = None" and b: "?b = Some b"
    then have "bm_nodeId b = n" by (auto simp: find_Some_iff)
    moreover have "ys = [PgturbohybridAddBm25Candidate b zero_result]" using m one d b unfolding ys_def [symmetric] by simp
    ultimately show ?thesis using g M d b lexical_merge by simp
  next
    fix c assume d: "?d = Some c" and b: "?b = None"
    then have "dc_nodeId c = n" by (auto simp: find_Some_iff)
    moreover have "ys = [add_first mv c zero_result]" using m one d b unfolding ys_def [symmetric] by simp
    ultimately show ?thesis using g M d b pair_merges(1) [of c n "\<lparr>bm_nodeId = n, bm_heaptid = zero_tid, bm_bm25Score = Fin 0, bm_rank = 0\<rparr>"] by simp
  next
    fix c b assume d: "?d = Some c" and b: "?b = Some b"
    then have n: "dc_nodeId c = n" "bm_nodeId b = n" by (auto simp: find_Some_iff)
    have "mset ys = {#add_first mv c zero_result, PgturbohybridAddBm25Candidate b zero_result#}"
      using m d b unfolding ys_def [symmetric] by simp
    from two [OF this] show ?thesis using g M d b pair_merges(2,3) [OF n, of mv] by (elim disjE) simp_all
  qed
qed

lemma node_compare:
  "PgturbohybridNodeCompare a b < 0 \<longleftrightarrow> r_nodeId a < r_nodeId b"
  "0 < PgturbohybridNodeCompare a b \<longleftrightarrow> r_nodeId b < r_nodeId a"
  "PgturbohybridNodeCompare a b \<le> 0 \<longleftrightarrow> r_nodeId a \<le> r_nodeId b"
  by (auto simp: PgturbohybridNodeCompare_def of_bool_def)

lemma lists_map_filter: "lists_map key False M rs \<Longrightarrow> lists_map key req M (filter (wanted req) rs)"
  by (auto simp: lists_map_def wanted_def distinct_map_filter)

lemma sort_merge_ok:
  assumes "distinct (map dc_nodeId dense)" "distinct (map bm_nodeId bm25)" and qs: "sorts qs"
  shows "lists_map r_nodeId req (merge_map new_node (node_visits (candidate_visits mv dense [] bm25)))
    (sort_merge qs False req (sort_items mv dense [] bm25))"
proof -
  define items where "items = sort_items mv dense [] bm25"
  define S where "S = (if length items > 1 then qs PgturbohybridNodeCompare items else items)"
  have "mset (qs PgturbohybridNodeCompare items) = mset items \<and>
      sorted_wrt (\<lambda>a b. PgturbohybridNodeCompare a b \<le> 0) (qs PgturbohybridNodeCompare items)"
  proof -
    have "\<forall>a \<in> set items. \<forall>b \<in> set items. \<forall>c \<in> set items. r_nodeId a \<le> r_nodeId b \<longrightarrow> r_nodeId b \<le> r_nodeId c \<longrightarrow>
        r_nodeId a \<le> r_nodeId c" by (meson order_trans)
    then have "cmp_order PgturbohybridNodeCompare (set items)" unfolding cmp_order_def node_compare by blast
    then show ?thesis using qs by (simp only: sorts_def)
  qed
  moreover have "length items \<le> 1 \<Longrightarrow> sorted_wrt (\<lambda>a b. r_nodeId a \<le> r_nodeId b) items"
    by (cases items) auto
  ultimately have S: "mset S = mset items" "sorted (map r_nodeId S)"
    by (auto simp: S_def sorted_map node_compare)
  have e: "sort_merge qs False req items = (case S of [] \<Rightarrow> []
      | item # ys \<Rightarrow> filter (wanted req) (merge_runs (\<lambda>a b. r_nodeId a = r_nodeId b) item ys))"
    by (simp add: sort_merge_def merge_sorted_def S_def)
  have M: "group_merge n S = merge_map new_node (node_visits (candidate_visits mv dense [] bm25)) n" for n
    using two_branch_groups [OF assms(1,2)] S(1) by (simp add: items_def)
  define L where "L = (case S of [] \<Rightarrow> [] | item # ys \<Rightarrow> merge_runs (\<lambda>a b. r_nodeId a = r_nodeId b) item ys)"
  have "lists_map r_nodeId False (\<lambda>n. group_merge n S) L"
  proof (cases S)
    case Nil
    then show ?thesis by (simp add: L_def lists_map_def group_merge_def)
  next
    case (Cons item ys)
    then show ?thesis using merge_runs_groups [of item ys] S(2) by (simp add: L_def)
  qed
  moreover have "sort_merge qs False req items = filter (wanted req) L" unfolding e L_def by (cases S) simp_all
  ultimately show ?thesis using lists_map_filter unfolding items_def [symmetric] M by simp
qed

section \<open>The scan\<close>

record fusion_env =
  fe_hash_threshold :: int
  fe_exact_rescore :: bool
  fe_meta_nodes :: "u32 option"  \<comment> \<open>\<open>tqNodeCount\<close> of the metadata page, if it can be read\<close>

text \<open>\<open>sizeof(PgturbohybridFusionArrayEntry)\<close>: a generation, padded, and a result of 80 bytes.\<close>

definition sizeof_array_entry :: nat where "sizeof_array_entry = 88"
definition PGTURBOHYBRID_FUSION_GENERATION_ARRAY_MAX_BYTES :: nat where
  "PGTURBOHYBRID_FUSION_GENERATION_ARRAY_MAX_BYTES = 16 * 1024 * 1024"

definition PgturbohybridShouldUseGenerationArray ::
  "fusion_env \<Rightarrow> u16 \<Rightarrow> u32 \<Rightarrow> TqDenseCandidate list \<Rightarrow> PgturbohybridBm25Result list \<Rightarrow> u32 option" where
  "PgturbohybridShouldUseGenerationArray env effectiveFusion fusionCandidatesSeen dense bm25 =
     (if effectiveFusion \<noteq> FUSION_RRF \<or> fe_exact_rescore env \<or> fusionCandidatesSeen = 0 \<or>
         fe_hash_threshold env \<ge> 0 \<and> fusionCandidatesSeen < of_int (fe_hash_threshold env) then None
      else case fe_meta_nodes env of
          None \<Rightarrow> None
        | Some nodes \<Rightarrow>
            if nodes = 0 \<or> sizeof_array_entry * unat nodes > MaxAllocSize \<or>
               sizeof_array_entry * unat nodes > PGTURBOHYBRID_FUSION_GENERATION_ARRAY_MAX_BYTES then None
            else if \<not> PgturbohybridFusionNodeIdsFit nodes dense bm25 then None
            else Some nodes)"

text \<open>
  What happens to the merged results: the exact rescoring of lexical-only results (the two
  functions that read the heap are the parameter \<open>rescore\<close>), scoring (\<open>score\<close>), the cut to
  the diverse results if that is enabled (\<open>diversity\<close>) or to the best ones.
\<close>

record finalize_env =
  fz_rescore :: "result list \<Rightarrow> result list"
  fz_score :: "result list \<Rightarrow> result list"
  fz_diversity :: "int \<Rightarrow> int \<Rightarrow> result list \<Rightarrow> result list option"

definition PgturbohybridFinalizeFusedResults ::
  "finalize_env \<Rightarrow> budget_guc \<Rightarrow> query \<Rightarrow> int \<Rightarrow> bool \<Rightarrow> result list \<Rightarrow> result list \<times> int" where
  "PgturbohybridFinalizeFusedResults fz g q limit allowBm25OnlyExactRescore merged =
     (let merged1 = fz_score fz (if allowBm25OnlyExactRescore then fz_rescore fz merged else merged);
          finalCount = PgturbohybridFinalTarget g q (int (length merged)) limit
      in case fz_diversity fz (PgturbohybridBudgetFinalTarget q limit) finalCount merged1 of
           Some rs \<Rightarrow> (rs, finalCount)
         | None \<Rightarrow>
             if finalCount < int (length merged)
             then (case PgturbohybridSelectTopN merged1 finalCount of (heap, n) \<Rightarrow> (heap, int n))
             else (if length merged > 1 then qsort_by score_before merged1 else merged1, finalCount))"

text \<open>
  The fusion part of \<open>PgturbohybridCollectScanResults\<close>: the results, how many of them the
  scan returns, and the array that the next query reuses. \<open>None\<close> is a loop that never ends.
\<close>

definition fuse_scan ::
  "((result \<Rightarrow> result \<Rightarrow> int) \<Rightarrow> result list \<Rightarrow> result list) \<Rightarrow> fusion_env \<Rightarrow> finalize_env \<Rightarrow> budget_guc \<Rightarrow> query \<Rightarrow> int \<Rightarrow> u16 \<Rightarrow>
   bool \<Rightarrow> TqDenseCandidate list \<Rightarrow> TqDenseCandidate list \<Rightarrow> PgturbohybridBm25Result list \<Rightarrow>
   PgturbohybridFusionGenerationArrayCache \<Rightarrow> ((result list \<times> int) \<times> PgturbohybridFusionGenerationArrayCache) option" where
  "fuse_scan qs env fz g q limit effectiveFusion multivectorMergedAsDense dense multivector bm25 cache =
     (let fusionCandidatesSeen = (of_nat (length dense + length multivector + length bm25) :: u32);
          useDocumentFusionKey = has_flag q HAS_MULTIVECTOR;
          requireBm25 = has_flag q REQUIRE_BM25_MATCH;
          useHashTopN = (fe_hash_threshold env \<ge> 0 \<and> fusionCandidatesSeen \<ge> of_int (fe_hash_threshold env));
          nodes = (if useDocumentFusionKey then None
                   else PgturbohybridShouldUseGenerationArray env effectiveFusion fusionCandidatesSeen dense bm25)
      in case nodes of
           Some nodeCount \<Rightarrow>
             (case array_merge requireBm25 nodeCount dense bm25 cache of (merged, cache1) \<Rightarrow>
                Some (PgturbohybridFinalizeFusedResults fz g q limit False merged, cache1))
         | None \<Rightarrow>
             if useHashTopN
             then map_option (\<lambda>merged. (PgturbohybridFinalizeFusedResults fz g q limit True merged, cache))
                    (hash_merge useDocumentFusionKey requireBm25 fusionCandidatesSeen
                       (candidate_visits multivectorMergedAsDense dense multivector bm25))
             else Some (PgturbohybridFinalizeFusedResults fz g q limit True
                          (sort_merge qs useDocumentFusionKey requireBm25
                             (sort_items multivectorMergedAsDense dense multivector bm25)), cache))"

section \<open>The three merges agree\<close>

text \<open>The specification of a two-branch fusion: the merged results of all nodes, scored and sorted.\<close>

definition reference_results :: "bool \<Rightarrow> TqDenseCandidate list \<Rightarrow> PgturbohybridBm25Result list \<Rightarrow> result list" where
  "reference_results requireBm25 dense bm25 =
     filter (wanted requireBm25)
       (map (\<lambda>n. the (merge_map new_node (node_visits (candidate_visits False dense [] bm25)) n))
         (remdups (map dc_nodeId dense @ map bm_nodeId bm25)))"

definition item_score :: "fpu \<Rightarrow> libm \<Rightarrow> score_env \<Rightarrow> query \<Rightarrow> PgturbohybridHybridAdaptiveShape \<Rightarrow> result \<Rightarrow> cdouble" where
  "item_score f lm env q shape r = r_fusedScore (hd (PgturbohybridScoreResults f lm env q shape [r]))"

definition fused_reference ::
  "fpu \<Rightarrow> libm \<Rightarrow> score_env \<Rightarrow> query \<Rightarrow> PgturbohybridHybridAdaptiveShape \<Rightarrow> TqDenseCandidate list \<Rightarrow> PgturbohybridBm25Result list \<Rightarrow>
   result list" where
  "fused_reference f lm env q shape dense bm25 =
     qsort_by score_before (map (\<lambda>r. r\<lparr>r_fusedScore := item_score f lm env q shape r\<rparr>)
       (reference_results (has_flag q REQUIRE_BM25_MATCH) dense bm25))"

text \<open>Without the modes that look at the whole branch, a score depends on its result alone.\<close>

lemma scores_itemwise:
  assumes "effective_fusion env q \<noteq> FUSION_WEIGHTED" "effective_fusion env q \<noteq> FUSION_DBSF"
  shows "PgturbohybridScoreResults f lm env q shape rs = map (\<lambda>r. r\<lparr>r_fusedScore := item_score f lm env q shape r\<rparr>) rs"
  using assms unfolding item_score_def PgturbohybridScoreResults_def Let_def
  by (simp split: prod.splits)

lemma reference_lists:
  "lists_map r_nodeId req (merge_map new_node (node_visits (candidate_visits False dense [] bm25))) (reference_results req dense bm25)"
proof -
  define vs where "vs = node_visits (candidate_visits False dense [] bm25)"
  let ?ns = "remdups (map dc_nodeId dense @ map bm_nodeId bm25)"
  have dom: "dom (merge_map new_node vs) = set ?ns"
    by (auto simp: vs_def merge_map_def dom_fold_visit node_visits_def candidate_visits_def image_Un image_image split_def)
  have keyed: "r_nodeId r = n" if "merge_map new_node vs n = Some r" for n r
    using that
  proof (rule merge_map_keyed)
    show "r_nodeId (new_node k) = k" for k by (simp add: new_node_def)
    fix k f and r :: result assume "(k, f) \<in> set vs" "r_nodeId r = k"
    then show "r_nodeId (f r) = k"
      using candidate_keys(1) [of k _ f False dense "[]" bm25 r] by (auto simp: vs_def node_visits_def)
  qed
  have val: "\<exists>r. merge_map new_node vs n = Some r \<and> r_nodeId r = n" if "n \<in> set ?ns" for n
    using that keyed unfolding dom [symmetric] by blast
  define rs where "rs = map (\<lambda>n. the (merge_map new_node vs n)) ?ns"
  have "map r_nodeId rs = ?ns" unfolding rs_def using val by (force intro!: map_idI simp: comp_def)
  then have "distinct (map r_nodeId rs)" by simp
  moreover have "r \<in> set rs \<longleftrightarrow> merge_map new_node vs (r_nodeId r) = Some r" for r
  proof
    assume "r \<in> set rs"
    then obtain n where "n \<in> set ?ns" "r = the (merge_map new_node vs n)" by (auto simp: rs_def)
    then show "merge_map new_node vs (r_nodeId r) = Some r" using val [of n] by auto
  next
    assume m: "merge_map new_node vs (r_nodeId r) = Some r"
    then have "r_nodeId r \<in> set ?ns" unfolding dom [symmetric] by blast
    then show "r \<in> set rs" using m unfolding rs_def set_map by (intro image_eqI [of _ _ "r_nodeId r"]) simp_all
  qed
  ultimately show ?thesis
    unfolding vs_def [symmetric] reference_results_def rs_def [symmetric] lists_map_def by (auto simp: distinct_map_filter)
qed

text \<open>Finalizing any list of the merged results gives the reference.\<close>

lemma finalize_ok:
  fixes dense :: "TqDenseCandidate list" and bm25 :: "PgturbohybridBm25Result list" and q :: query
  defines "req \<equiv> has_flag q REQUIRE_BM25_MATCH"
  assumes mode: "effective_fusion env q \<noteq> FUSION_WEIGHTED" "effective_fusion env q \<noteq> FUSION_DBSF"
    and fz: "fz_score fz = PgturbohybridScoreResults f lm env q shape" "fz_diversity fz = (\<lambda>_ _ _. None)"
      "\<not> allow \<or> fz_rescore fz = id"
    and num: "\<forall>r \<in> set (reference_results req dense bm25). item_score f lm env q shape r \<noteq> NaN"
    and rs: "lists_map r_nodeId req (merge_map new_node (node_visits (candidate_visits False dense [] bm25))) rs"
  shows "\<exists>out. PgturbohybridFinalizeFusedResults fz g q limit allow rs =
      (out, max 0 (PgturbohybridFinalTarget g q (int (length (reference_results req dense bm25))) limit)) \<and>
    take (nat (PgturbohybridFinalTarget g q (int (length (reference_results req dense bm25))) limit)) out =
    take (nat (PgturbohybridFinalTarget g q (int (length (reference_results req dense bm25))) limit))
      (fused_reference f lm env q shape dense bm25)"
proof -
  define sc where "sc = (\<lambda>r. r\<lparr>r_fusedScore := item_score f lm env q shape r\<rparr>)"
  let ?ref = "reference_results req dense bm25"
  have ms: "mset rs = mset ?ref" using lists_map_mset [OF rs reference_lists] .
  then have len: "length rs = length ?ref" and set: "set rs = set ?ref" by (metis size_mset, metis set_mset_mset)
  have m1: "fz_score fz (if allow then fz_rescore fz rs else rs) = map sc rs"
    using fz scores_itemwise [OF mode] by (auto simp: sc_def)
  define t where "t = PgturbohybridFinalTarget g q (int (length rs)) limit"
  have tl: "t \<le> int (length rs)" by (simp add: t_def PgturbohybridFinalTarget_def Let_def min_def)
  have nid: "r_nodeId (sc r) = r_nodeId r" for r by (simp add: sc_def)
  have d: "distinct (map r_nodeId (map sc rs))" using rs by (simp add: lists_map_def comp_def nid)
  have num': "\<forall>r \<in> set (map sc rs). scored r" using num by (auto simp: set sc_def)
  note inj = conjunct2 [OF iffD1 [OF distinct_map d]]
  have st: "strict_on score_before (set (map sc rs))" "distinct (map sc rs)"
    using strict_results [OF num' inj] conjunct1 [OF iffD1 [OF distinct_map d]] by blast+
  have "mset (map sc rs) = mset (map sc ?ref)" using ms by simp
  from qsort_split [OF st, of "map sc ?ref" "{#}"] this
  have same: "qsort_by score_before (map sc rs) = fused_reference f lm env q shape dense bm25"
    unfolding fused_reference_def req_def [symmetric] sc_def [symmetric] by (simp add: len)
  have e: "PgturbohybridFinalizeFusedResults fz g q limit allow rs =
      (if t < int (length rs) then (case PgturbohybridSelectTopN (map sc rs) t of (heap, n) \<Rightarrow> (heap, int n))
       else (if length rs > 1 then qsort_by score_before (map sc rs) else map sc rs, t))"
    by (simp add: PgturbohybridFinalizeFusedResults_def Let_def m1 fz(2) t_def)
  consider "t < int (length rs)" "t \<le> 0" | "t < int (length rs)" "0 < t" | "t = int (length rs)" using tl by linarith
  then have "\<exists>out. PgturbohybridFinalizeFusedResults fz g q limit allow rs = (out, max 0 t) \<and>
      take (nat t) out = take (nat t) (qsort_by score_before (map sc rs))"
  proof cases
    case 1
    then show ?thesis unfolding e by (simp add: PgturbohybridSelectTopN_def)
  next
    case 2
    then have ne: "map sc rs \<noteq> []" by auto
    obtain heap n where h: "PgturbohybridSelectTopN (map sc rs) t = (heap, n)" by fastforce
    then show ?thesis using select_topn [OF num' d 2(2) ne] 2 unfolding e by auto
  next
    case 3
    then show ?thesis unfolding e using sort_at_most_one [of "map sc rs" score_before] by auto
  qed
  then show ?thesis unfolding same t_def len .
qed

text \<open>
  C5. For a query without a multivector branch, in the fusion modes RRF, \<open>fast_weighted\<close> and calibrated (those whose
  score of a document does not depend on the order of the merged candidates), without exact rescoring, without the
  diversity cut and when no score is a NaN: however the scan merges the dense and the lexical candidates (by a hash
  table, by the array reused between queries, or by sorting), it returns the same results in the same order, those
  of the specification, merged by node, scored, sorted and cut to the final target, in any arithmetic. No loop
  runs forever, and the reused array is left fit for the next query.
\<close>

theorem fusion_paths_agree:
  fixes dense :: "TqDenseCandidate list" and bm25 :: "PgturbohybridBm25Result list"
  assumes branches: "distinct (map dc_nodeId dense)" "distinct (map bm_nodeId bm25)" "\<not> has_flag q HAS_MULTIVECTOR"
    and small: "length dense + length bm25 + (length dense + length bm25) div 4 + 1 \<le> 2 ^ 31"
    and qs: "sorts qs" and cache: "cache_inv cache"
    and mode: "effective_fusion senv q \<noteq> FUSION_WEIGHTED" "effective_fusion senv q \<noteq> FUSION_DBSF"
    and fz: "fz_score fz = PgturbohybridScoreResults f lm senv q shape" "fz_diversity fz = (\<lambda>_ _ _. None)" "fz_rescore fz = id"
    and num: "\<forall>r \<in> set (reference_results (has_flag q REQUIRE_BM25_MATCH) dense bm25). item_score f lm senv q shape r \<noteq> NaN"
    and t: "t = PgturbohybridFinalTarget g q (int (length (reference_results (has_flag q REQUIRE_BM25_MATCH) dense bm25))) limit"
  shows "\<exists>out cache'. fuse_scan qs env fz g q limit (effective_fusion senv q) False dense [] bm25 cache = Some ((out, max 0 t), cache') \<and>
    take (nat t) out = take (nat t) (fused_reference f lm senv q shape dense bm25) \<and> cache_inv cache'"
proof -
  let ?req = "has_flag q REQUIRE_BM25_MATCH"
  let ?seen = "of_nat (length dense + length ([] :: TqDenseCandidate list) + length bm25) :: u32"
  note fin = finalize_ok [OF mode fz(1,2) disjI2 [OF fz(3)] num]
  show ?thesis
  proof (cases "PgturbohybridShouldUseGenerationArray env (effective_fusion senv q) ?seen dense bm25")
    case (Some nodes)
    then have fit: "PgturbohybridFusionNodeIdsFit nodes dense bm25"
      unfolding PgturbohybridShouldUseGenerationArray_def by (auto split: if_splits option.splits)
    obtain rs cache1 where am: "array_merge ?req nodes dense bm25 cache = (rs, cache1)" by fastforce
    have ok: "lists_map r_nodeId ?req (merge_map new_node (node_visits (candidate_visits False dense [] bm25))) rs" "cache_inv cache1"
      using array_merge_ok [OF cache fit, of ?req] am by simp_all
    show ?thesis using fin [OF ok(1), where allow = False and g = g and limit = limit] Some am ok(2) branches(3) t
      by (auto simp: fuse_scan_def Let_def)
  next
    case None
    show ?thesis
    proof (cases "fe_hash_threshold env \<ge> 0 \<and> ?seen \<ge> of_int (fe_hash_threshold env)")
      case True
      obtain rs where hm: "hash_merge False ?req ?seen (candidate_visits False dense [] bm25) = Some rs"
        "lists_map r_nodeId ?req (merge_map new_node (node_visits (candidate_visits False dense [] bm25))) rs"
        using hash_merge_ok(1) [of dense "[]" bm25 ?req False] small by auto
      show ?thesis using fin [OF hm(2), where allow = True and g = g and limit = limit] None True hm(1) branches(3) t cache
        by (auto simp: fuse_scan_def Let_def)
    next
      case False
      show ?thesis using fin [OF sort_merge_ok [OF branches(1,2) qs], where allow = True and g = g and limit = limit] None False branches(3) t cache
        by (auto simp: fuse_scan_def Let_def)
    qed
  qed
qed

text \<open>An insertion sort is such a \<open>qsort\<close>.\<close>

definition insertion_qsort :: "('a \<Rightarrow> 'a \<Rightarrow> int) \<Rightarrow> 'a list \<Rightarrow> 'a list" where
  "insertion_qsort cmp = qsort_by (\<lambda>a b. cmp a b < 0)"

lemma cmp_order_mono: "cmp_order cmp A \<Longrightarrow> B \<subseteq> A \<Longrightarrow> cmp_order cmp B"
  unfolding cmp_order_def by (meson subsetD)

lemma sorted_insert:
  assumes "sorted_wrt (\<lambda>a b. cmp a b \<le> (0 :: int)) ys" "cmp_order cmp (insert x (set ys))"
  shows "sorted_wrt (\<lambda>a b. cmp a b \<le> 0) (insert_by (\<lambda>a b. cmp a b < 0) x ys)"
  using assms
proof (induction ys)
  case (Cons y ys)
  have o: "cmp_order cmp (insert x (set ys))" by (rule cmp_order_mono [OF Cons.prems(2)]) auto
  show ?case
  proof (cases "cmp y x < 0")
    case True
    have "sorted_wrt (\<lambda>a b. cmp a b \<le> 0) (insert_by (\<lambda>a b. cmp a b < 0) x ys)" using Cons.IH Cons.prems(1) o by simp
    then show ?thesis using True Cons.prems(1) by simp
  next
    case False
    have "(cmp x y > 0 \<longleftrightarrow> cmp y x < 0)" using Cons.prems(2) by (simp add: cmp_order_def)
    then have "cmp x y \<le> 0" using False by simp
    moreover have "cmp x z \<le> 0" if "z \<in> set ys" for z
    proof -
      have "cmp y z \<le> 0" using Cons.prems(1) that by simp
      then show ?thesis using \<open>cmp x y \<le> 0\<close> conjunct2 [OF Cons.prems(2) [unfolded cmp_order_def], rule_format, of x y z] that by simp
    qed
    ultimately show ?thesis using False Cons.prems(1) by simp
  qed
qed simp

lemma insertion_sorts: "sorts insertion_qsort"
  unfolding sorts_def
proof (intro allI impI conjI)
  fix cmp :: "'a \<Rightarrow> 'a \<Rightarrow> int" and xs
  show "mset (insertion_qsort cmp xs) = mset xs" by (simp add: insertion_qsort_def)
  assume "cmp_order cmp (set xs)"
  then show "sorted_wrt (\<lambda>a b. cmp a b \<le> 0) (insertion_qsort cmp xs)"
  proof (induction xs)
    case (Cons x xs)
    have "cmp_order cmp (set xs)" by (rule cmp_order_mono [OF Cons.prems]) auto
    then have s: "sorted_wrt (\<lambda>a b. cmp a b \<le> 0) (qsort_by (\<lambda>a b. cmp a b < 0) xs)"
      using Cons.IH by (simp add: insertion_qsort_def)
    have "cmp_order cmp (insert x (set (qsort_by (\<lambda>a b. cmp a b < 0) xs)))" using Cons.prems by simp
    from sorted_insert [OF s this] show ?case unfolding insertion_qsort_def qsort_by_Cons .
  qed (simp add: insertion_qsort_def qsort_by_Nil)
qed

definition demo_finalize :: finalize_env where
  "demo_finalize = \<lparr>fz_rescore = id, fz_score = PgturbohybridScoreResults demo_fpu demo_libm demo_score_env demo_query NOT_HYBRID,
     fz_diversity = (\<lambda>_ _ _. None)\<rparr>"

lemma demo_mode: "effective_fusion demo_score_env demo_query = FUSION_RRF"
  by (simp add: effective_fusion_def demo_score_env_def demo_query_def)

lemma demo_scored: "item_score demo_fpu demo_libm demo_score_env demo_query NOT_HYBRID r \<noteq> NaN"
proof -
  have "item_score demo_fpu demo_libm demo_score_env demo_query NOT_HYBRID r = PgturbohybridRrfScore demo_fpu demo_query r"
    unfolding item_score_def PgturbohybridScoreResults_def Let_def demo_mode
    by (simp add: FUSION_RRF_def FUSION_WEIGHTED_def FUSION_FAST_WEIGHTED_def FUSION_CALIBRATED_def FUSION_DBSF_def
        split: prod.splits)
  then show ?thesis by (simp add: PgturbohybridRrfScore_def demo_fpu_def demo_query_def)
qed

theorem fusion_paths_agree_witness:
  "\<exists>out cache'. fuse_scan insertion_qsort \<lparr>fe_hash_threshold = 1, fe_exact_rescore = False, fe_meta_nodes = None\<rparr> demo_finalize
      demo_guc demo_query 0 FUSION_RRF False [demo_neighbour] [] [demo_lexical] empty_cache =
      Some ((out, max 0 (PgturbohybridFinalTarget demo_guc demo_query
        (int (length (reference_results (has_flag demo_query REQUIRE_BM25_MATCH) [demo_neighbour] [demo_lexical]))) 0)), cache') \<and>
    cache_inv cache'"
proof -
  have nm: "\<not> has_flag demo_query HAS_MULTIVECTOR" by (simp add: has_flag_def demo_query_def flag_defs)
  have ci: "cache_inv empty_cache" by (simp add: cache_inv_def empty_cache_def)
  have m: "effective_fusion demo_score_env demo_query \<noteq> FUSION_WEIGHTED" "effective_fusion demo_score_env demo_query \<noteq> FUSION_DBSF"
    unfolding demo_mode by (simp_all add: FUSION_RRF_def FUSION_WEIGHTED_def FUSION_DBSF_def)
  have fz: "fz_score demo_finalize = PgturbohybridScoreResults demo_fpu demo_libm demo_score_env demo_query NOT_HYBRID"
    "fz_diversity demo_finalize = (\<lambda>_ _ _. None)" "fz_rescore demo_finalize = id"
    by (simp_all add: demo_finalize_def)
  have one: "distinct (map dc_nodeId [demo_neighbour])" "distinct (map bm_nodeId [demo_lexical])"
    "length [demo_neighbour] + length [demo_lexical] + (length [demo_neighbour] + length [demo_lexical]) div 4 + 1 \<le> 2 ^ 31"
    by simp_all
  have num: "\<forall>r \<in> set (reference_results (has_flag demo_query REQUIRE_BM25_MATCH) [demo_neighbour] [demo_lexical]).
      item_score demo_fpu demo_libm demo_score_env demo_query NOT_HYBRID r \<noteq> NaN" using demo_scored by blast
  from fusion_paths_agree [OF one(1,2) nm one(3) insertion_sorts ci m fz num refl, of
      "\<lparr>fe_hash_threshold = 1, fe_exact_rescore = False, fe_meta_nodes = None\<rparr>" demo_guc 0]
  show ?thesis unfolding demo_mode by blast
qed

end
