(* ===== verification/Multivector.thy ===== *)
theory Multivector
  imports Prelude
begin

text \<open>
  The type \<open>turbohybrid_multivector\<close> (\<open>pgturbohybrid_multivector.c\<close>): a varlena of \<open>count\<close>
  token vectors of \<open>dim\<close> floats, with optional context offsets and field ids behind them.
  Here: the size computations, the validity check every function starts with, the accessors,
  the constructor from arrays, and the binary send and receive functions.

  Everything behind the 16-byte header is an array of 32-bit values, \<open>mv_words\<close>; floats are
  their bit patterns. \<open>Size\<close> values are \<open>nat\<close>: the lemmas on sizes show that no computation
  gets near the range of the machine type.
\<close>

record PgturbohybridMultiVector =
  mv_size :: nat  \<comment> \<open>\<open>VARSIZE_ANY\<close>, in bytes\<close>
  mv_dim :: int
  mv_count :: int
  mv_flags :: u32
  mv_words :: "u32 list"

type_synonym multivector = PgturbohybridMultiVector

definition MULTIVECTOR_MAX_DIM :: int where "MULTIVECTOR_MAX_DIM = 16000"
definition MULTIVECTOR_MAX_COUNT :: int where "MULTIVECTOR_MAX_COUNT = 4096"
definition FLAG_CONTEXTS :: u32 where "FLAG_CONTEXTS = 1"
definition FLAG_FIELDS :: u32 where "FLAG_FIELDS = 2"
definition KNOWN_FLAGS :: u32 where "KNOWN_FLAGS = 3"
definition offsetof_values :: nat where "offsetof_values = 16"

definition isfinite_bits :: "u32 \<Rightarrow> bool" where
  \<comment> \<open>\<open>isfinite\<close> of the float with these bits: the exponent is not all ones\<close>
  "isfinite_bits w = (w AND 0x7F800000 \<noteq> 0x7F800000)"

definition ensure :: "bool \<Rightarrow> errcode \<Rightarrow> string \<Rightarrow> unit res" where
  "ensure ok code msg = (if ok then Inr () else Inl (Ereport code msg))"

lemma ensure_ok [simp]: "ensure ok code msg = Inr x \<longleftrightarrow> ok"
  by (simp add: ensure_def)

lemma ensure_True [simp]: "ensure True code msg = Inr ()"
  by (simp add: ensure_def)

section \<open>Sizes\<close>

definition PgturbohybridCheckMultiVectorHeader :: "int \<Rightarrow> int \<Rightarrow> unit res" where
  "PgturbohybridCheckMultiVectorHeader cnt dm =
     bindE (ensure (0 < dm \<and> dm \<le> MULTIVECTOR_MAX_DIM) ERRCODE_DATA_EXCEPTION ''invalid multivector dimensions'') (\<lambda>_.
       ensure (0 < cnt \<and> cnt \<le> MULTIVECTOR_MAX_COUNT) ERRCODE_DATA_EXCEPTION ''invalid multivector count'')"

definition PgturbohybridMultiVectorFloatCount :: "int \<Rightarrow> int \<Rightarrow> nat res" where
  "PgturbohybridMultiVectorFloatCount cnt dm =
     bindE (PgturbohybridCheckMultiVectorHeader cnt dm) (\<lambda>_.
     bindE (ensure (nat cnt \<le> MaxAllocSize div nat dm) ERRCODE_PROGRAM_LIMIT_EXCEEDED ''multivector value is too large'') (\<lambda>_.
       Inr (nat cnt * nat dm)))"

definition PgturbohybridMultiVectorSize :: "int \<Rightarrow> int \<Rightarrow> nat res" where
  "PgturbohybridMultiVectorSize cnt dm =
     bindE (PgturbohybridMultiVectorFloatCount cnt dm) (\<lambda>floatCount.
     bindE (ensure (floatCount \<le> (MaxAllocSize - offsetof_values) div 4) ERRCODE_PROGRAM_LIMIT_EXCEEDED
              ''multivector value is too large'') (\<lambda>_.
       Inr (offsetof_values + floatCount * 4)))"

definition PgturbohybridMultiVectorExtendedSize :: "int \<Rightarrow> int \<Rightarrow> int \<Rightarrow> bool \<Rightarrow> nat res" where
  "PgturbohybridMultiVectorExtendedSize cnt dm contextCount hasFields =
     bindE (PgturbohybridMultiVectorSize cnt dm) (\<lambda>size.
     bindE (ensure (0 < contextCount \<and> contextCount \<le> cnt) ERRCODE_INVALID_PARAMETER_VALUE
              ''invalid multivector context count'') (\<lambda>_.
     bindE (ensure (nat contextCount \<le> (MaxAllocSize - size - 4) div 4) ERRCODE_PROGRAM_LIMIT_EXCEEDED
              ''multivector context metadata is too large'') (\<lambda>_.
       let size1 = size + 4 + 4 * nat contextCount in
       if hasFields
       then bindE (ensure (nat contextCount \<le> (MaxAllocSize - size1) div 4) ERRCODE_PROGRAM_LIMIT_EXCEEDED
                     ''multivector field metadata is too large'') (\<lambda>_.
              Inr (size1 + 4 * nat contextCount))
       else Inr size1)))"

definition dims_ok :: "int \<Rightarrow> int \<Rightarrow> bool" where
  "dims_ok cnt dm \<longleftrightarrow> 0 < dm \<and> dm \<le> MULTIVECTOR_MAX_DIM \<and> 0 < cnt \<and> cnt \<le> MULTIVECTOR_MAX_COUNT"

lemma header_check: "PgturbohybridCheckMultiVectorHeader cnt dm = Inr x \<longleftrightarrow> dims_ok cnt dm"
  by (auto simp: PgturbohybridCheckMultiVectorHeader_def dims_ok_def bindE_Inr_iff)

lemma floats_bound: "dims_ok cnt dm \<Longrightarrow> nat cnt * nat dm \<le> 65536000"
proof -
  assume d: "dims_ok cnt dm"
  then have "nat cnt \<le> 4096" "nat dm \<le> 16000"
    by (auto simp: dims_ok_def MULTIVECTOR_MAX_DIM_def MULTIVECTOR_MAX_COUNT_def)
  then have "nat cnt * nat dm \<le> 4096 * 16000" by (rule mult_le_mono)
  then show ?thesis by simp
qed

text \<open>The limits on \<open>dim\<close> and \<open>count\<close> are what bounds the sizes: the later limit checks never fail.\<close>

lemma float_count_ok: "dims_ok cnt dm \<Longrightarrow> PgturbohybridMultiVectorFloatCount cnt dm = Inr (nat cnt * nat dm)"
proof -
  assume d: "dims_ok cnt dm"
  then have "nat cnt \<le> MaxAllocSize div nat dm"
    using floats_bound [OF d] by (simp add: less_eq_div_iff_mult_less_eq dims_ok_def MaxAllocSize_def)
  moreover have "PgturbohybridCheckMultiVectorHeader cnt dm = Inr ()" using d header_check by blast
  ultimately show ?thesis by (simp add: PgturbohybridMultiVectorFloatCount_def)
qed

lemma float_count_err: "\<not> dims_ok cnt dm \<Longrightarrow> \<exists>e. PgturbohybridMultiVectorFloatCount cnt dm = Inl e"
  by (cases "PgturbohybridCheckMultiVectorHeader cnt dm")
    (auto simp: PgturbohybridMultiVectorFloatCount_def dest: header_check [THEN iffD1])

lemma mv_size_ok: "dims_ok cnt dm \<Longrightarrow> PgturbohybridMultiVectorSize cnt dm = Inr (16 + 4 * (nat cnt * nat dm))"
  using floats_bound [of cnt dm]
  by (simp add: PgturbohybridMultiVectorSize_def float_count_ok offsetof_values_def MaxAllocSize_def)

lemma mv_size_err: "\<not> dims_ok cnt dm \<Longrightarrow> \<exists>e. PgturbohybridMultiVectorSize cnt dm = Inl e"
  using float_count_err by (fastforce simp: PgturbohybridMultiVectorSize_def)

lemma extended_size_ok:
  assumes "dims_ok cnt dm" "0 < cc" "cc \<le> cnt"
  shows "PgturbohybridMultiVectorExtendedSize cnt dm cc hf =
    Inr (16 + 4 * (nat cnt * nat dm) + 4 + 4 * nat cc + (if hf then 4 * nat cc else 0))"
proof -
  have c: "nat cc \<le> 4096" using assms by (auto simp: dims_ok_def MULTIVECTOR_MAX_COUNT_def)
  define n where "n = nat cnt * nat dm"
  have n: "n \<le> 65536000" using floats_bound [OF assms(1)] by (simp add: n_def)
  have "nat cc \<le> (MaxAllocSize - (16 + 4 * n) - 4) div 4" "nat cc \<le> (MaxAllocSize - (16 + 4 * n + 4 + 4 * nat cc)) div 4"
    using n c by (simp_all add: less_eq_div_iff_mult_less_eq MaxAllocSize_def)
  then show ?thesis using assms
    by (simp add: PgturbohybridMultiVectorExtendedSize_def mv_size_ok Let_def n_def [symmetric])
qed

lemma extended_size_err:
  "\<not> (dims_ok cnt dm \<and> 0 < cc \<and> cc \<le> cnt) \<Longrightarrow> \<exists>e. PgturbohybridMultiVectorExtendedSize cnt dm cc hf = Inl e"
  using mv_size_err [of cnt dm] mv_size_ok [of cnt dm]
  by (cases "dims_ok cnt dm") (auto simp: PgturbohybridMultiVectorExtendedSize_def ensure_def)

section \<open>Contexts\<close>

definition validate_context :: "int \<Rightarrow> int list \<Rightarrow> int list option \<Rightarrow> nat \<Rightarrow> unit \<Rightarrow> unit res" where
  "validate_context cnt offs fids i u =
     bindE (ensure (0 \<le> offs ! i \<and> offs ! i < cnt) ERRCODE_INVALID_PARAMETER_VALUE
              ''multivector context offset is out of range'') (\<lambda>_.
     bindE (ensure (\<not> (i > 0 \<and> offs ! i \<le> offs ! (i - 1))) ERRCODE_INVALID_PARAMETER_VALUE
              ''multivector context offsets must be strictly increasing'') (\<lambda>_.
       ensure (case fids of None \<Rightarrow> True | Some ids \<Rightarrow> 0 \<le> ids ! i) ERRCODE_INVALID_PARAMETER_VALUE
         ''multivector field ids must be non-negative''))"

definition PgturbohybridMultiVectorValidateContexts :: "int \<Rightarrow> int \<Rightarrow> int list option \<Rightarrow> int list option \<Rightarrow> unit res" where
  "PgturbohybridMultiVectorValidateContexts cnt contextCount contextOffsets fieldIds =
     (case contextOffsets of
        None \<Rightarrow> Inl (Ereport ERRCODE_NULL_VALUE_NOT_ALLOWED ''multivector context offsets cannot be null'')
      | Some offs \<Rightarrow>
          bindE (ensure (0 < contextCount \<and> contextCount \<le> cnt) ERRCODE_INVALID_PARAMETER_VALUE
                   ''invalid multivector context count'') (\<lambda>_.
          bindE (ensure (offs ! 0 = 0) ERRCODE_INVALID_PARAMETER_VALUE
                   ''multivector context offsets must start at zero'') (\<lambda>_.
            foldE (validate_context cnt offs fieldIds) [0..<nat contextCount] ())))"

text \<open>What valid contexts are: a strictly increasing list of first tokens that starts with token 0.\<close>

definition contexts_ok :: "int \<Rightarrow> int list \<Rightarrow> int list option \<Rightarrow> bool" where
  "contexts_ok cnt offs fids \<longleftrightarrow> offs \<noteq> [] \<and> offs ! 0 = 0 \<and> sorted_wrt (<) offs \<and> (\<forall>x \<in> set offs. x < cnt) \<and>
     (case fids of None \<Rightarrow> True | Some ids \<Rightarrow> length ids = length offs \<and> (\<forall>x \<in> set ids. 0 \<le> x))"

lemma foldE_unit: "foldE g xs () = Inr () \<longleftrightarrow> (\<forall>x \<in> set xs. g x () = Inr ())"
  by (induction xs) (auto simp: bindE_Inr_iff)

lemma unit_res: "(r :: unit res) = Inr x \<longleftrightarrow> (\<exists>y. r = Inr y)"
  by (cases r) auto

lemma sorted_steps: "sorted_wrt (<) (xs :: int list) \<longleftrightarrow> (\<forall>i < length xs. 0 < i \<longrightarrow> xs ! (i - 1) < xs ! i)"
proof
  assume "sorted_wrt (<) xs"
  then show "\<forall>i < length xs. 0 < i \<longrightarrow> xs ! (i - 1) < xs ! i" by (auto intro: sorted_wrt_nth_less)
next
  assume st: "\<forall>i < length xs. 0 < i \<longrightarrow> xs ! (i - 1) < xs ! i"
  have "xs ! i < xs ! j" if "i < j" "j < length xs" for i j
    using that
  proof (induction j)
    case (Suc j)
    then show ?case using st [rule_format, of "Suc j"] by (cases "i = j") (auto simp: less_Suc_eq)
  qed simp
  then show "sorted_wrt (<) xs" by (simp add: sorted_wrt_iff_nth_less)
qed

lemma validate_contexts_iff:
  assumes "length offs = nat cc" "\<forall>ids. fids = Some ids \<longrightarrow> length ids = nat cc"
  shows "PgturbohybridMultiVectorValidateContexts cnt cc (Some offs) fids = Inr () \<longleftrightarrow>
    0 < cc \<and> cc \<le> cnt \<and> contexts_ok cnt offs fids"
proof -
  have step: "validate_context cnt offs fids i () = Inr () \<longleftrightarrow> 0 \<le> offs ! i \<and> offs ! i < cnt \<and> (0 < i \<longrightarrow> offs ! (i - 1) < offs ! i) \<and>
      (case fids of None \<Rightarrow> True | Some ids \<Rightarrow> 0 \<le> ids ! i)" for i
    by (auto simp: validate_context_def bindE_Inr_iff)
  have "(\<forall>i \<in> set [0..<nat cc]. validate_context cnt offs fids i () = Inr ()) \<longleftrightarrow>
      (\<forall>x \<in> set offs. 0 \<le> x \<and> x < cnt) \<and> sorted_wrt (<) offs \<and> (case fids of None \<Rightarrow> True | Some ids \<Rightarrow> \<forall>x \<in> set ids. 0 \<le> x)"
    unfolding step sorted_steps using assms by (cases fids) (auto simp: all_set_conv_all_nth)
  moreover have "(\<forall>x \<in> set offs. 0 \<le> x)" if "offs \<noteq> []" "offs ! 0 = 0" "sorted_wrt (<) offs"
  proof
    fix x assume "x \<in> set offs"
    then obtain i where "i < length offs" "x = offs ! i" by (auto simp: in_set_conv_nth)
    then show "0 \<le> x" using that sorted_wrt_nth_less [OF that(3), of 0 i] by (cases "i = 0") auto
  qed
  ultimately show ?thesis using assms unfolding PgturbohybridMultiVectorValidateContexts_def contexts_ok_def
    by (cases fids) (auto simp: bindE_Inr_iff foldE_unit)
qed

section \<open>Validity\<close>

definition float_words :: "multivector \<Rightarrow> nat" where
  "float_words mv = nat (mv_count mv) * nat (mv_dim mv)"

definition has_bit :: "multivector \<Rightarrow> u32 \<Rightarrow> bool" where
  "has_bit mv f = (mv_flags mv AND f \<noteq> 0)"

text \<open>
  The value behind \<open>PgturbohybridMultiVectorContextCountPtr\<close>, and the arrays that follow it.
\<close>

definition stored_context_count :: "multivector \<Rightarrow> int" where
  "stored_context_count mv = sint (mv_words mv ! float_words mv)"

definition stored_offsets :: "multivector \<Rightarrow> nat \<Rightarrow> int list" where
  "stored_offsets mv n = map sint (take n (drop (float_words mv + 1) (mv_words mv)))"

definition stored_fields :: "multivector \<Rightarrow> nat \<Rightarrow> int list" where
  "stored_fields mv n = map sint (take n (drop (float_words mv + 1 + n) (mv_words mv)))"

definition malformed :: "unit res" where
  "malformed = Inl (Ereport ERRCODE_DATA_EXCEPTION ''malformed multivector value'')"

definition check_finite :: "multivector \<Rightarrow> nat \<Rightarrow> unit \<Rightarrow> unit res" where
  "check_finite mv i u = ensure (isfinite_bits (mv_words mv ! i)) ERRCODE_DATA_EXCEPTION
     ''multivector cannot contain NaN or infinite values''"

definition PgturbohybridCheckMultiVector :: "multivector option \<Rightarrow> unit res" where
  "PgturbohybridCheckMultiVector p = (case p of
       None \<Rightarrow> Inl (Ereport ERRCODE_NULL_VALUE_NOT_ALLOWED ''multivector value cannot be null'')
     | Some mv \<Rightarrow>
         let actual = mv_size mv; ctx = has_bit mv FLAG_CONTEXTS; fld = has_bit mv FLAG_FIELDS in
         if actual < offsetof_values then malformed
         else if mv_flags mv AND NOT KNOWN_FLAGS \<noteq> 0 then malformed
         else if fld \<and> \<not> ctx then malformed
         else bindE (PgturbohybridMultiVectorSize (mv_count mv) (mv_dim mv)) (\<lambda>expected0.
           let contextCount = (if ctx then stored_context_count mv else 0) in
           if ctx \<and> actual < expected0 + 4 then malformed
           else bindE (if ctx then PgturbohybridMultiVectorExtendedSize (mv_count mv) (mv_dim mv) contextCount fld
                       else Inr expected0) (\<lambda>expected.
             if actual \<noteq> expected then malformed
             else bindE (PgturbohybridMultiVectorFloatCount (mv_count mv) (mv_dim mv)) (\<lambda>floatCount.
               bindE (foldE (check_finite mv) [0..<floatCount] ()) (\<lambda>_.
                 if contextCount > 0
                 then PgturbohybridMultiVectorValidateContexts (mv_count mv) contextCount
                        (Some (stored_offsets mv (nat contextCount)))
                        (if fld then Some (stored_fields mv (nat contextCount)) else None)
                 else Inr ())))))"

text \<open>The memory of a value holds what its size says.\<close>

definition mv_memory :: "multivector \<Rightarrow> bool" where
  "mv_memory mv \<longleftrightarrow> length (mv_words mv) = (mv_size mv - 16) div 4 \<and>
     mv_dim mv \<in> {- (2 ^ 31) ..< 2 ^ 31} \<and> mv_count mv \<in> {- (2 ^ 31) ..< 2 ^ 31}"

text \<open>A well-formed value, as its contents: the floats, the contexts and their fields.\<close>

definition build_mv :: "int \<Rightarrow> int \<Rightarrow> u32 list \<Rightarrow> (int list \<times> int list option) option \<Rightarrow> multivector" where
  "build_mv cnt dm floats ctx =
     (let tail = (case ctx of None \<Rightarrow> []
          | Some (offs, fids) \<Rightarrow> word_of_int (int (length offs)) # map word_of_int offs @
              (case fids of None \<Rightarrow> [] | Some ids \<Rightarrow> map word_of_int ids))
      in \<lparr>mv_size = 16 + 4 * (length floats + length tail), mv_dim = dm, mv_count = cnt,
          mv_flags = (case ctx of None \<Rightarrow> 0 | Some (_, None) \<Rightarrow> FLAG_CONTEXTS | Some (_, Some _) \<Rightarrow> FLAG_CONTEXTS OR FLAG_FIELDS),
          mv_words = floats @ tail\<rparr>)"

definition mv_contents_ok :: "int \<Rightarrow> int \<Rightarrow> u32 list \<Rightarrow> (int list \<times> int list option) option \<Rightarrow> bool" where
  "mv_contents_ok cnt dm floats ctx \<longleftrightarrow> dims_ok cnt dm \<and> length floats = nat cnt * nat dm \<and>
     (\<forall>w \<in> set floats. isfinite_bits w) \<and>
     (case ctx of None \<Rightarrow> True
      | Some (offs, fids) \<Rightarrow> contexts_ok cnt offs fids \<and> (case fids of None \<Rightarrow> True | Some ids \<Rightarrow> \<forall>x \<in> set ids. x < 2 ^ 31))"

lemma sorted_distinct_bounded:
  assumes "sorted_wrt (<) (xs :: int list)" "\<forall>x \<in> set xs. 0 \<le> x \<and> x < n"
  shows "int (length xs) \<le> n \<or> xs = []"
proof -
  have "distinct xs" using assms(1) strict_sorted_iff by (auto simp: strict_sorted_iff)
  then have "card (set xs) = length xs" by (rule distinct_card)
  moreover have "set xs \<subseteq> {0..<n}" using assms(2) by auto
  then have "card (set xs) \<le> card {0..<n}" by (intro card_mono) simp_all
  ultimately show ?thesis by (cases xs) auto
qed

lemma int32_roundtrip: "- (2 ^ 31) \<le> x \<Longrightarrow> x < 2 ^ 31 \<Longrightarrow> sint (word_of_int x :: u32) = x"
  by (simp add: signed_of_int signed_take_bit_int_eq_self)

lemma int32_nat: "int n < 2 ^ 31 \<Longrightarrow> sint (word_of_nat n :: u32) = int n"
  using int32_roundtrip [of "int n"] by simp

lemma map_int32_roundtrip:
  assumes "\<forall>x \<in> set xs. 0 \<le> x \<and> x < 2 ^ 31"
  shows "map (\<lambda>x. sint (word_of_int x :: u32)) xs = xs"
proof (rule map_idI)
  fix x assume "x \<in> set xs"
  then have "0 \<le> x" "x < 2 ^ 31" using assms by auto
  then show "sint (word_of_int x :: u32) = x" by (intro int32_roundtrip) simp_all
qed

text \<open>What valid contexts imply.\<close>

lemma contexts_okD:
  assumes "contexts_ok cnt offs fids" "dims_ok cnt dm"
  shows "\<forall>x \<in> set offs. 0 \<le> x \<and> x < 2 ^ 31" "0 < int (length offs)" "int (length offs) \<le> cnt" "int (length offs) < 2 ^ 31"
    "\<And>ids. fids = Some ids \<Longrightarrow> length ids = length offs \<and> (\<forall>x \<in> set ids. 0 \<le> x)"
proof -
  have c: "cnt \<le> 4096" using assms(2) by (simp add: dims_ok_def MULTIVECTOR_MAX_COUNT_def)
  have ne: "offs \<noteq> []" and z: "offs ! 0 = 0" and s: "sorted_wrt (<) offs" and lt: "\<forall>x \<in> set offs. x < cnt"
    using assms(1) by (simp_all add: contexts_ok_def)
  have ge: "0 \<le> x" if x: "x \<in> set offs" for x
  proof -
    obtain i where "i < length offs" "x = offs ! i" using x by (auto simp: in_set_conv_nth)
    then show ?thesis using z sorted_wrt_nth_less [OF s, of 0 i] by (cases "i = 0") auto
  qed
  show r: "\<forall>x \<in> set offs. 0 \<le> x \<and> x < 2 ^ 31" using ge lt c by fastforce
  show "0 < int (length offs)" using ne by simp
  show l: "int (length offs) \<le> cnt" using sorted_distinct_bounded [OF s, of cnt] ge lt ne by auto
  then show "int (length offs) < 2 ^ 31" using c by simp
  show "\<And>ids. fids = Some ids \<Longrightarrow> length ids = length offs \<and> (\<forall>x \<in> set ids. 0 \<le> x)"
    using assms(1) by (simp add: contexts_ok_def)
qed

lemma check_finite_all:
  "n \<le> length (mv_words mv) \<Longrightarrow> foldE (check_finite mv) [0..<n] () = Inr () \<longleftrightarrow> (\<forall>w \<in> set (take n (mv_words mv)). isfinite_bits w)"
  by (auto simp: foldE_unit check_finite_def all_set_conv_all_nth)

lemma build_parts:
  assumes "mv_contents_ok cnt dm floats (Some (offs, fids))"
  defines "mv \<equiv> build_mv cnt dm floats (Some (offs, fids))"
  shows "float_words mv = length floats" "stored_context_count mv = int (length offs)"
    "stored_offsets mv (length offs) = offs" "\<And>ids. fids = Some ids \<Longrightarrow> stored_fields mv (length offs) = ids"
    "has_bit mv FLAG_CONTEXTS" "has_bit mv FLAG_FIELDS \<longleftrightarrow> fids \<noteq> None"
proof -
  have d: "dims_ok cnt dm" "length floats = nat cnt * nat dm" and c: "contexts_ok cnt offs fids"
    using assms(1) by (simp_all add: mv_contents_ok_def)
  note cd = contexts_okD [OF c d(1)]
  show fw: "float_words mv = length floats" by (simp add: mv_def float_words_def build_mv_def d(2) Let_def)
  show "stored_context_count mv = int (length offs)"
    using cd(4) unfolding stored_context_count_def fw by (simp add: mv_def build_mv_def Let_def nth_append int32_nat)
  show "stored_offsets mv (length offs) = offs"
    using cd(1) unfolding stored_offsets_def fw by (simp add: mv_def build_mv_def Let_def map_int32_roundtrip comp_def)
  show "stored_fields mv (length offs) = ids" if i: "fids = Some ids" for ids
  proof -
    have "\<forall>x \<in> set ids. 0 \<le> x \<and> x < 2 ^ 31" using cd(5) [OF i] assms(1) i by (simp add: mv_contents_ok_def)
    then show ?thesis using cd(5) [OF i] i unfolding stored_fields_def fw
      by (simp add: mv_def build_mv_def Let_def map_int32_roundtrip comp_def)
  qed
  show "has_bit mv FLAG_CONTEXTS" "has_bit mv FLAG_FIELDS \<longleftrightarrow> fids \<noteq> None"
    by (cases fids; simp add: mv_def build_mv_def Let_def has_bit_def FLAG_CONTEXTS_def FLAG_FIELDS_def)+
qed

lemma build_check:
  assumes ok: "mv_contents_ok cnt dm floats ctx"
  shows "PgturbohybridCheckMultiVector (Some (build_mv cnt dm floats ctx)) = Inr ()"
proof -
  let ?mv = "build_mv cnt dm floats ctx"
  have d: "dims_ok cnt dm" "length floats = nat cnt * nat dm" "\<forall>w \<in> set floats. isfinite_bits w"
    using ok by (simp_all add: mv_contents_ok_def)
  have h: "mv_count ?mv = cnt" "mv_dim ?mv = dm" "take (nat cnt * nat dm) (mv_words ?mv) = floats"
    "nat cnt * nat dm \<le> length (mv_words ?mv)" "\<not> mv_size ?mv < offsetof_values"
    using d(2) by (simp_all add: build_mv_def Let_def offsetof_values_def)
  have fin: "foldE (check_finite ?mv) [0..<nat cnt * nat dm] () = Inr ()"
    using check_finite_all [OF h(4)] h(3) d(3) by simp
  have fl: "mv_flags ?mv AND NOT KNOWN_FLAGS = 0"
    by (simp add: build_mv_def Let_def KNOWN_FLAGS_def FLAG_CONTEXTS_def FLAG_FIELDS_def split: option.split prod.split)
  show ?thesis
  proof (cases ctx)
    case None
    have "\<not> has_bit ?mv FLAG_CONTEXTS" "\<not> has_bit ?mv FLAG_FIELDS" "mv_size ?mv = 16 + 4 * (nat cnt * nat dm)"
      using None d(2) by (simp_all add: has_bit_def build_mv_def Let_def)
    then show ?thesis using h fl fin mv_size_ok [OF d(1)] float_count_ok [OF d(1)]
      by (simp add: PgturbohybridCheckMultiVector_def Let_def)
  next
    case (Some c)
    obtain offs fids where c: "ctx = Some (offs, fids)" using Some by (cases c) auto
    note b = build_parts [OF ok [unfolded c], folded c]
    have co: "contexts_ok cnt offs fids" using ok c by (simp add: mv_contents_ok_def)
    note cd = contexts_okD [OF co d(1)]
    define hf where "hf = (fids \<noteq> None)"
    have sz: "mv_size ?mv = 16 + 4 * (nat cnt * nat dm) + 4 + 4 * length offs + (if hf then 4 * length offs else 0)"
      using d(2) cd(5) c by (cases fids) (simp_all add: build_mv_def Let_def hf_def)
    have ex: "PgturbohybridMultiVectorExtendedSize cnt dm (int (length offs)) hf = Inr (mv_size ?mv)"
      using extended_size_ok [OF d(1) cd(2,3), of hf] sz by simp
    have "PgturbohybridMultiVectorValidateContexts cnt (int (length offs)) (Some offs) fids = Inr ()"
      using validate_contexts_iff [of offs "int (length offs)" fids cnt] cd(2,3,5) co by auto
    moreover have "(if hf then Some (stored_fields ?mv (length offs)) else None) = fids"
      using b(4) by (cases fids) (simp_all add: hf_def)
    moreover have "has_bit ?mv FLAG_FIELDS = hf" using b(6) by (simp add: hf_def)
    moreover have "mv_size ?mv \<ge> 16 + 4 * (nat cnt * nat dm) + 4" using sz by simp
    ultimately show ?thesis using h fl fin mv_size_ok [OF d(1)] float_count_ok [OF d(1)] ex b(2,3,5) cd(2)
      by (cases hf) (simp_all add: PgturbohybridCheckMultiVector_def Let_def)
  qed
qed

lemma known_flags:
  fixes w :: u32
  assumes "w AND NOT 3 = 0"
  shows "w = (if w AND 1 \<noteq> 0 then 1 else 0) OR (if w AND 2 \<noteq> 0 then 2 else 0)"
proof -
  have "w = (w AND 3) OR (w AND NOT 3)" by (simp add: bit.conj_disj_distrib [symmetric])
  then have "w = take_bit 2 w" using assms by (simp add: take_bit_eq_mask mask_eq_exp_minus_1)
  then have "unat w = take_bit 2 (unat w)" by (metis unsigned_take_bit_eq)
  then have "unat w < 4" using take_bit_nat_less_exp [of 2 "unat w"] by simp
  then have "unat w \<in> {0, 1, 2, 3}" by auto
  then have "\<exists>k \<in> {0, 1, 2, 3 :: nat}. w = of_nat k" by (intro bexI [of _ "unat w"]) simp_all
  then show ?thesis by auto
qed

lemma words_of_ints: "map word_of_int (map sint ws) = (ws :: u32 list)"
  by (induction ws) simp_all

lemma sint_range: "sint (w :: u32) < 2 ^ 31"
  using sint_lt [of w] by simp

text \<open>The words of a value with contexts.\<close>

lemma context_words:
  assumes len: "length ws = n + 1 + c + (if hf then c else 0)"
  shows "ws = take n ws @ ws ! n # take c (drop (n + 1) ws) @ (if hf then take c (drop (n + 1 + c) ws) else [])"
proof -
  have "ws = take n ws @ ws ! n # drop (Suc n) ws" using len by (intro id_take_nth_drop) simp
  also have "drop (Suc n) ws = take c (drop (n + 1) ws) @ drop (n + 1 + c) ws" by (metis Suc_eq_plus1 append_take_drop_id drop_drop add.commute)
  also have "drop (n + 1 + c) ws = (if hf then take c (drop (n + 1 + c) ws) else [])" using len by simp
  finally show ?thesis .
qed

lemma build_mv_eqI:
  assumes "mv_words mv = floats @ word_of_int (int (length offs)) # map word_of_int offs @
      (case fids of None \<Rightarrow> [] | Some ids \<Rightarrow> map word_of_int ids)"
    and "mv_flags mv = (case fids of None \<Rightarrow> FLAG_CONTEXTS | Some _ \<Rightarrow> FLAG_CONTEXTS OR FLAG_FIELDS)"
    and "mv_size mv = 16 + 4 * length (mv_words mv)"
  shows "mv = build_mv (mv_count mv) (mv_dim mv) floats (Some (offs, fids))"
  using assms by (intro PgturbohybridMultiVector.equality) (simp_all add: build_mv_def Let_def split: option.split)

lemma check_gives_contents:
  assumes mem: "mv_memory mv" and ok: "PgturbohybridCheckMultiVector (Some mv) = Inr ()"
  shows "\<exists>floats ctx. mv_contents_ok (mv_count mv) (mv_dim mv) floats ctx \<and> mv = build_mv (mv_count mv) (mv_dim mv) floats ctx"
proof -
  let ?cnt = "mv_count mv" and ?dm = "mv_dim mv" and ?ctx = "has_bit mv FLAG_CONTEXTS" and ?fld = "has_bit mv FLAG_FIELDS"
  let ?n = "nat ?cnt * nat ?dm"
  have s0: "\<not> mv_size mv < 16" "mv_flags mv AND NOT KNOWN_FLAGS = 0" "?fld \<Longrightarrow> ?ctx"
    using ok by (auto simp: PgturbohybridCheckMultiVector_def Let_def malformed_def offsetof_values_def split: if_splits)
  have d: "dims_ok ?cnt ?dm"
  proof (rule ccontr)
    assume "\<not> dims_ok ?cnt ?dm"
    then obtain e where "PgturbohybridMultiVectorSize ?cnt ?dm = Inl e" using mv_size_err by blast
    then show False using ok by (simp add: PgturbohybridCheckMultiVector_def Let_def malformed_def split: if_splits)
  qed
  have fl: "mv_flags mv = (if ?ctx then FLAG_CONTEXTS else 0) OR (if ?fld then FLAG_FIELDS else 0)"
    unfolding has_bit_def FLAG_CONTEXTS_def FLAG_FIELDS_def by (rule known_flags [OF s0(2) [unfolded KNOWN_FLAGS_def]])
  have len: "length (mv_words mv) = (mv_size mv - 16) div 4" using mem by (simp add: mv_memory_def)
  have fw: "float_words mv = ?n" by (simp add: float_words_def)
  show ?thesis
  proof (cases ?ctx)
    case False
    have "mv_size mv = 16 + 4 * ?n" "foldE (check_finite mv) [0..<?n] () = Inr ()"
      using ok s0 False by (auto simp: PgturbohybridCheckMultiVector_def Let_def malformed_def offsetof_values_def
          mv_size_ok [OF d] float_count_ok [OF d] bindE_Inr_iff split: if_splits)
    moreover from this have "length (mv_words mv) = ?n" using len by simp
    ultimately have "mv_contents_ok ?cnt ?dm (mv_words mv) None" and "mv_size mv = mv_size (build_mv ?cnt ?dm (mv_words mv) None)"
      using d check_finite_all [of ?n mv] by (auto simp: mv_contents_ok_def build_mv_def Let_def)
    moreover have "mv_flags mv = 0" using fl False s0(3) by auto
    ultimately have "mv = build_mv ?cnt ?dm (mv_words mv) None"
      by (intro PgturbohybridMultiVector.equality) (simp_all add: build_mv_def Let_def)
    then show ?thesis using \<open>mv_contents_ok _ _ _ _\<close> by blast
  next
    case True
    let ?c = "stored_context_count mv"
    define offs where "offs = stored_offsets mv (nat ?c)"
    define fids where "fids = (if ?fld then Some (stored_fields mv (nat ?c)) else None)"
    obtain sz where e: "PgturbohybridMultiVectorExtendedSize ?cnt ?dm ?c ?fld = Inr sz" "mv_size mv = sz"
      "foldE (check_finite mv) [0..<?n] () = Inr ()"
      "0 < ?c \<longrightarrow> PgturbohybridMultiVectorValidateContexts ?cnt ?c (Some offs) fids = Inr ()"
      using ok s0 True by (auto simp: PgturbohybridCheckMultiVector_def Let_def malformed_def offsetof_values_def offs_def fids_def
          mv_size_ok [OF d] float_count_ok [OF d] bindE_Inr_iff split: if_splits)
    have c: "0 < ?c" "?c \<le> ?cnt" using extended_size_err [of ?cnt ?dm ?c ?fld] e(1) d by force+
    have sz: "mv_size mv = 16 + 4 * (?n + 1 + nat ?c + (if ?fld then nat ?c else 0))"
      using extended_size_ok [OF d c, of ?fld] e(1,2) by (auto simp: algebra_simps)
    have lw: "length (mv_words mv) = ?n + 1 + nat ?c + (if ?fld then nat ?c else 0)" using len unfolding sz by simp
    have lo: "length offs = nat ?c" using lw by (simp add: offs_def stored_offsets_def fw)
    have lf: "\<forall>ids. fids = Some ids \<longrightarrow> length ids = nat ?c" using lw by (auto simp: fids_def stored_fields_def fw)
    have co: "contexts_ok ?cnt offs fids" using validate_contexts_iff [OF lo lf] e(4) c(1) by simp
    have "mv_contents_ok ?cnt ?dm (take ?n (mv_words mv)) (Some (offs, fids))"
      using d co e(3) lw check_finite_all [of ?n mv] sint_range
      by (auto simp: mv_contents_ok_def fids_def stored_fields_def)
    moreover have "mv = build_mv ?cnt ?dm (take ?n (mv_words mv)) (Some (offs, fids))"
    proof -
      have "word_of_int (int (length offs)) = mv_words mv ! ?n" using c(1) unfolding lo by (simp add: stored_context_count_def fw)
      moreover have "map word_of_int offs = take (nat ?c) (drop (?n + 1) (mv_words mv))"
        unfolding offs_def stored_offsets_def fw by (rule words_of_ints)
      moreover have "(case fids of None \<Rightarrow> [] | Some ids \<Rightarrow> map word_of_int ids) =
          (if ?fld then take (nat ?c) (drop (?n + 1 + nat ?c) (mv_words mv)) else [])"
        unfolding fids_def stored_fields_def fw by (simp add: words_of_ints del: map_map)
      ultimately have "mv_words mv = take ?n (mv_words mv) @ word_of_int (int (length offs)) # map word_of_int offs @
          (case fids of None \<Rightarrow> [] | Some ids \<Rightarrow> map word_of_int ids)"
        using context_words [OF lw] by simp
      moreover have "mv_flags mv = (case fids of None \<Rightarrow> FLAG_CONTEXTS | Some _ \<Rightarrow> FLAG_CONTEXTS OR FLAG_FIELDS)"
        using fl True by (simp add: fids_def)
      moreover have "mv_size mv = 16 + 4 * length (mv_words mv)" using sz lw by simp
      ultimately show ?thesis by (rule build_mv_eqI)
    qed
    ultimately show ?thesis by blast
  qed
qed

text \<open>
  C19. The check that guards every function on multivectors accepts exactly the well-formed
  values: dimensions and count within the limits, finite floats, and, if the flags announce
  them, context offsets that start at token 0 and increase below the count, with one
  non-negative field id each; the size is that of these contents and nothing else follows.
\<close>

theorem check_multivector_exact:
  assumes "mv_memory mv"
  shows "PgturbohybridCheckMultiVector (Some mv) = Inr () \<longleftrightarrow>
    (\<exists>floats ctx. mv_contents_ok (mv_count mv) (mv_dim mv) floats ctx \<and> mv = build_mv (mv_count mv) (mv_dim mv) floats ctx)"
proof
  assume "\<exists>floats ctx. mv_contents_ok (mv_count mv) (mv_dim mv) floats ctx \<and> mv = build_mv (mv_count mv) (mv_dim mv) floats ctx"
  then show "PgturbohybridCheckMultiVector (Some mv) = Inr ()" using build_check by metis
next
  assume ok: "PgturbohybridCheckMultiVector (Some mv) = Inr ()"
  then show "\<exists>floats ctx. mv_contents_ok (mv_count mv) (mv_dim mv) floats ctx \<and> mv = build_mv (mv_count mv) (mv_dim mv) floats ctx"
    by (rule check_gives_contents [OF assms])
qed

definition demo_multivector :: multivector where
  \<comment> \<open>two tokens of two dimensions, (1, 2) and (-1, 0.5), each a context, with fields 3 and 0\<close>
  "demo_multivector = \<lparr>mv_size = 52, mv_dim = 2, mv_count = 2, mv_flags = 3,
     mv_words = [0x3F800000, 0x40000000, 0xBF800000, 0x3F000000, 2, 0, 1, 3, 0]\<rparr>"

lemma demo_contents: "mv_contents_ok 2 2 [0x3F800000, 0x40000000, 0xBF800000, 0x3F000000] (Some ([0, 1], Some [3, 0]))"
  by (simp add: mv_contents_ok_def dims_ok_def MULTIVECTOR_MAX_DIM_def MULTIVECTOR_MAX_COUNT_def isfinite_bits_def contexts_ok_def)

lemma demo_build:
  "build_mv 2 2 [0x3F800000, 0x40000000, 0xBF800000, 0x3F000000] (Some ([0, 1], Some [3, 0])) = demo_multivector"
  by (simp add: build_mv_def demo_multivector_def FLAG_CONTEXTS_def FLAG_FIELDS_def)

lemma demo_multivector_ok: "mv_memory demo_multivector" "PgturbohybridCheckMultiVector (Some demo_multivector) = Inr ()"
  using build_check [OF demo_contents] by (simp_all add: demo_build, simp add: mv_memory_def demo_multivector_def)

theorem check_multivector_exact_witness:
  "\<exists>floats ctx. mv_contents_ok 2 2 floats ctx \<and> demo_multivector = build_mv 2 2 floats ctx"
  using check_multivector_exact [OF demo_multivector_ok(1)] demo_multivector_ok(2)
  by (simp add: demo_multivector_def)

section \<open>Accessors\<close>

definition PgturbohybridMultiVectorHasContexts :: "multivector \<Rightarrow> bool res" where
  "PgturbohybridMultiVectorHasContexts mv =
     bindE (PgturbohybridCheckMultiVector (Some mv)) (\<lambda>_. Inr (has_bit mv FLAG_CONTEXTS))"

definition PgturbohybridMultiVectorContextCount :: "multivector \<Rightarrow> int res" where
  "PgturbohybridMultiVectorContextCount mv =
     bindE (PgturbohybridCheckMultiVector (Some mv)) (\<lambda>_.
       Inr (if has_bit mv FLAG_CONTEXTS then stored_context_count mv else 1))"

definition PgturbohybridMultiVectorContextOffsets :: "multivector \<Rightarrow> int list option res" where
  "PgturbohybridMultiVectorContextOffsets mv =
     bindE (PgturbohybridCheckMultiVector (Some mv)) (\<lambda>_.
       Inr (if has_bit mv FLAG_CONTEXTS then Some (stored_offsets mv (nat (stored_context_count mv))) else None))"

definition PgturbohybridMultiVectorContextFields :: "multivector \<Rightarrow> int list option res" where
  "PgturbohybridMultiVectorContextFields mv =
     bindE (PgturbohybridCheckMultiVector (Some mv)) (\<lambda>_.
       Inr (if has_bit mv FLAG_FIELDS then Some (stored_fields mv (nat (stored_context_count mv))) else None))"

definition PgturbohybridMultiVectorValues :: "multivector \<Rightarrow> int \<Rightarrow> u32 list res" where
  "PgturbohybridMultiVectorValues mv ordinal =
     bindE (PgturbohybridCheckMultiVector (Some mv)) (\<lambda>_.
       if ordinal < 0 \<or> ordinal \<ge> mv_count mv
       then Inl (Ereport ERRCODE_ARRAY_SUBSCRIPT_ERROR ''multivector ordinal is out of range'')
       else Inr (take (nat (mv_dim mv)) (drop (nat ordinal * nat (mv_dim mv)) (mv_words mv))))"

definition PgturbohybridCheckSameMultiVectorDims :: "multivector \<Rightarrow> multivector \<Rightarrow> unit res" where
  "PgturbohybridCheckSameMultiVectorDims a b =
     bindE (PgturbohybridCheckMultiVector (Some a)) (\<lambda>_. bindE (PgturbohybridCheckMultiVector (Some b)) (\<lambda>_.
       ensure (mv_dim a = mv_dim b) ERRCODE_DATA_EXCEPTION ''different multivector dimensions''))"

lemma build_flags:
  "has_bit (build_mv cnt dm floats ctx) FLAG_CONTEXTS \<longleftrightarrow> ctx \<noteq> None"
  "has_bit (build_mv cnt dm floats ctx) FLAG_FIELDS \<longleftrightarrow> (\<exists>offs ids. ctx = Some (offs, Some ids))"
  by (auto simp: build_mv_def Let_def has_bit_def FLAG_CONTEXTS_def FLAG_FIELDS_def split: option.splits)

lemma build_accessors:
  assumes "mv_contents_ok cnt dm floats ctx"
  defines "mv \<equiv> build_mv cnt dm floats ctx"
  shows "PgturbohybridMultiVectorContextCount mv = Inr (case ctx of None \<Rightarrow> 1 | Some (offs, _) \<Rightarrow> int (length offs))"
    "PgturbohybridMultiVectorContextOffsets mv = Inr (map_option fst ctx)"
    "PgturbohybridMultiVectorContextFields mv = Inr (case ctx of None \<Rightarrow> None | Some (_, fids) \<Rightarrow> fids)"
    "PgturbohybridMultiVectorHasContexts mv = Inr (ctx \<noteq> None)"
    "take (nat cnt * nat dm) (mv_words mv) = floats" "mv_count mv = cnt" "mv_dim mv = dm"
proof -
  note ok = build_check [OF assms(1), folded mv_def]
  show "PgturbohybridMultiVectorContextCount mv = Inr (case ctx of None \<Rightarrow> 1 | Some (offs, _) \<Rightarrow> int (length offs))"
    "PgturbohybridMultiVectorContextOffsets mv = Inr (map_option fst ctx)"
    "PgturbohybridMultiVectorContextFields mv = Inr (case ctx of None \<Rightarrow> None | Some (_, fids) \<Rightarrow> fids)"
  proof (atomize (full), cases ctx)
    case None
    then show "PgturbohybridMultiVectorContextCount mv = Inr (case ctx of None \<Rightarrow> 1 | Some (offs, _) \<Rightarrow> int (length offs)) \<and>
        PgturbohybridMultiVectorContextOffsets mv = Inr (map_option fst ctx) \<and>
        PgturbohybridMultiVectorContextFields mv = Inr (case ctx of None \<Rightarrow> None | Some (_, fids) \<Rightarrow> fids)"
      using ok by (simp add: PgturbohybridMultiVectorContextCount_def PgturbohybridMultiVectorContextOffsets_def
          PgturbohybridMultiVectorContextFields_def mv_def build_flags)
  next
    case (Some c)
    obtain offs fids where c: "ctx = Some (offs, fids)" using Some by (cases c) auto
    note b = build_parts [OF assms(1) [unfolded c], folded c, folded mv_def]
    show "PgturbohybridMultiVectorContextCount mv = Inr (case ctx of None \<Rightarrow> 1 | Some (offs, _) \<Rightarrow> int (length offs)) \<and>
        PgturbohybridMultiVectorContextOffsets mv = Inr (map_option fst ctx) \<and>
        PgturbohybridMultiVectorContextFields mv = Inr (case ctx of None \<Rightarrow> None | Some (_, fids) \<Rightarrow> fids)"
      using ok b c by (auto simp: PgturbohybridMultiVectorContextCount_def PgturbohybridMultiVectorContextOffsets_def
          PgturbohybridMultiVectorContextFields_def)
  qed
  show "PgturbohybridMultiVectorHasContexts mv = Inr (ctx \<noteq> None)"
    using ok by (simp add: PgturbohybridMultiVectorHasContexts_def mv_def build_flags)
  show "take (nat cnt * nat dm) (mv_words mv) = floats" "mv_count mv = cnt" "mv_dim mv = dm"
    using assms(1) by (simp_all add: mv_def build_mv_def Let_def mv_contents_ok_def)
qed

section \<open>Binary input and output\<close>

text \<open>
  A message is its sequence of 4-byte values. \<open>pq_getmsgint(buf, 4)\<close> and \<open>pq_getmsgfloat4\<close>
  take the next one and report a protocol violation when the message is exhausted;
  \<open>pq_getmsgend\<close> reports one when data is left.
\<close>

fun pq_getmsgint :: "u32 list \<Rightarrow> (u32 \<times> u32 list) res" where
  "pq_getmsgint [] = Inl (Ereport ERRCODE_PROTOCOL_VIOLATION ''insufficient data left in message'')"
| "pq_getmsgint (w # ws) = Inr (w, ws)"

fun pq_getmsgints :: "nat \<Rightarrow> u32 list \<Rightarrow> (u32 list \<times> u32 list) res" where
  "pq_getmsgints 0 buf = Inr ([], buf)"
| "pq_getmsgints (Suc n) buf =
     bindE (pq_getmsgint buf) (\<lambda>(w, buf1). bindE (pq_getmsgints n buf1) (\<lambda>(ws, buf2). Inr (w # ws, buf2)))"

definition pq_getmsgend :: "u32 list \<Rightarrow> unit res" where
  "pq_getmsgend buf = ensure (buf = []) ERRCODE_PROTOCOL_VIOLATION ''invalid message format''"

definition pgturbohybrid_multivector_recv :: "u32 list \<Rightarrow> multivector res" where
  "pgturbohybrid_multivector_recv buf =
     bindE (pq_getmsgint buf) (\<lambda>(formatVersion, buf1).
     bindE (ensure (sint formatVersion = 1 \<or> sint formatVersion = 2) ERRCODE_FEATURE_NOT_SUPPORTED
              ''unsupported turbohybrid_multivector binary format version'') (\<lambda>_.
     bindE (pq_getmsgint buf1) (\<lambda>(dimWord, buf2).
     bindE (pq_getmsgint buf2) (\<lambda>(countWord, buf3).
     bindE (pq_getmsgint buf3) (\<lambda>(flags, buf4).
     let dm = sint dimWord; cnt = sint countWord; hasFields = (flags AND FLAG_FIELDS \<noteq> 0) in
     bindE (PgturbohybridMultiVectorFloatCount cnt dm) (\<lambda>floatCount.
     bindE
       (if flags AND FLAG_CONTEXTS \<noteq> 0
        then bindE (pq_getmsgint buf4) (\<lambda>(contextWord, buf5).
             bindE (ensure (2 \<le> sint formatVersion) ERRCODE_FEATURE_NOT_SUPPORTED
                      ''context-aware multivector requires binary format version 2'') (\<lambda>_.
             bindE (PgturbohybridMultiVectorExtendedSize cnt dm (sint contextWord) hasFields) (\<lambda>resultSize.
             bindE (pq_getmsgints (nat (sint contextWord)) buf5) (\<lambda>(offs, buf6).
             bindE (if hasFields then pq_getmsgints (nat (sint contextWord)) buf6 else Inr ([], buf6)) (\<lambda>(fids, buf7).
               Inr (resultSize, contextWord # offs @ fids, buf7))))))
        else bindE (PgturbohybridMultiVectorSize cnt dm) (\<lambda>resultSize. Inr (resultSize, [], buf4)))
       (\<lambda>(resultSize, tail, buf8).
     bindE (pq_getmsgints floatCount buf8) (\<lambda>(floats, buf9).
     bindE (pq_getmsgend buf9) (\<lambda>_.
     let result = \<lparr>mv_size = resultSize, mv_dim = dm, mv_count = cnt, mv_flags = flags, mv_words = floats @ tail\<rparr> in
     bindE (PgturbohybridCheckMultiVector (Some result)) (\<lambda>_. Inr result))))))))))"

definition pgturbohybrid_multivector_send :: "multivector \<Rightarrow> u32 list res" where
  "pgturbohybrid_multivector_send mv =
     bindE (PgturbohybridCheckMultiVector (Some mv)) (\<lambda>_.
     bindE (PgturbohybridMultiVectorFloatCount (mv_count mv) (mv_dim mv)) (\<lambda>floatCount.
     let hasContexts = has_bit mv FLAG_CONTEXTS in
     bindE
       (if hasContexts
        then bindE (PgturbohybridMultiVectorContextCount mv) (\<lambda>contextCount.
             bindE (PgturbohybridMultiVectorContextOffsets mv) (\<lambda>contextOffsets.
             bindE (PgturbohybridMultiVectorContextFields mv) (\<lambda>fieldIds.
               Inr (word_of_int contextCount # map word_of_int (the contextOffsets) @
                    (case fieldIds of None \<Rightarrow> [] | Some ids \<Rightarrow> map word_of_int ids)))))
        else Inr [])
       (\<lambda>contexts.
       Inr ((if hasContexts then 2 else 1) # word_of_int (mv_dim mv) # word_of_int (mv_count mv) # mv_flags mv #
            contexts @ take floatCount (mv_words mv)))))"

lemma getmsgints_append [simp]: "pq_getmsgints (length ws) (ws @ buf) = Inr (ws, buf)"
  by (induction ws) auto

lemma getmsgints_exact: "n = length ws \<Longrightarrow> pq_getmsgints n (ws @ buf) = Inr (ws, buf)"
  by simp

text \<open>The words behind the floats.\<close>

definition context_tail :: "(int list \<times> int list option) option \<Rightarrow> u32 list" where
  "context_tail ctx = (case ctx of None \<Rightarrow> []
     | Some (offs, fids) \<Rightarrow> word_of_int (int (length offs)) # map word_of_int offs @
         (case fids of None \<Rightarrow> [] | Some ids \<Rightarrow> map word_of_int ids))"

definition context_flags :: "(int list \<times> int list option) option \<Rightarrow> u32" where
  "context_flags ctx = (case ctx of None \<Rightarrow> 0 | Some (_, None) \<Rightarrow> FLAG_CONTEXTS | Some (_, Some _) \<Rightarrow> FLAG_CONTEXTS OR FLAG_FIELDS)"

lemma build_mv_unfold:
  "build_mv cnt dm floats ctx = \<lparr>mv_size = 16 + 4 * (length floats + length (context_tail ctx)), mv_dim = dm, mv_count = cnt,
     mv_flags = context_flags ctx, mv_words = floats @ context_tail ctx\<rparr>"
  by (simp add: build_mv_def Let_def context_tail_def context_flags_def split: option.split prod.split)

lemma context_flag_bits:
  "context_flags ctx AND FLAG_CONTEXTS \<noteq> 0 \<longleftrightarrow> ctx \<noteq> None"
  "context_flags ctx AND FLAG_FIELDS \<noteq> 0 \<longleftrightarrow> (\<exists>offs ids. ctx = Some (offs, Some ids))"
  by (auto simp: context_flags_def FLAG_CONTEXTS_def FLAG_FIELDS_def split: option.split)

lemma send_build:
  assumes ok: "mv_contents_ok cnt dm floats ctx"
  shows "pgturbohybrid_multivector_send (build_mv cnt dm floats ctx) =
    Inr ((if ctx \<noteq> None then 2 else 1) # word_of_int dm # word_of_int cnt # context_flags ctx # context_tail ctx @ floats)"
proof -
  have d: "dims_ok cnt dm" using ok by (simp add: mv_contents_ok_def)
  note a = build_accessors [OF ok]
  have fl: "mv_flags (build_mv cnt dm floats ctx) = context_flags ctx" by (simp add: build_mv_unfold)
  show ?thesis
    unfolding pgturbohybrid_multivector_send_def build_check [OF ok] bindE_simps a(6,7) float_count_ok [OF d] Let_def a(1-3) a(5)
      build_flags fl
    by (simp add: context_tail_def split: option.split prod.split)
qed

lemma recv_build:
  assumes ok: "mv_contents_ok cnt dm floats ctx"
  shows "pgturbohybrid_multivector_recv
    ((if ctx \<noteq> None then 2 else 1) # word_of_int dm # word_of_int cnt # context_flags ctx # context_tail ctx @ floats) =
    Inr (build_mv cnt dm floats ctx)"
proof -
  have d: "dims_ok cnt dm" and n: "length floats = nat cnt * nat dm" using ok by (simp_all add: mv_contents_ok_def)
  have si: "sint (word_of_int dm :: u32) = dm" "sint (word_of_int cnt :: u32) = cnt"
    using d by (auto intro!: int32_roundtrip simp: dims_ok_def MULTIVECTOR_MAX_DIM_def MULTIVECTOR_MAX_COUNT_def)
  note chk = build_check [OF ok, unfolded build_mv_unfold]
  show ?thesis
  proof (cases ctx)
    case None
    then show ?thesis using chk si float_count_ok [OF d] mv_size_ok [OF d] getmsgints_exact [of "nat cnt * nat dm" floats "[]"] n
      by (simp add: pgturbohybrid_multivector_recv_def Let_def context_tail_def context_flags_def build_mv_unfold pq_getmsgend_def)
  next
    case (Some c)
    obtain offs fids where c: "ctx = Some (offs, fids)" using Some by (cases c) auto
    have co: "contexts_ok cnt offs fids" using ok c by (simp add: mv_contents_ok_def)
    note cd = contexts_okD [OF co d]
    define ids :: "u32 list" where "ids = (case fids of None \<Rightarrow> [] | Some ns \<Rightarrow> map word_of_int ns)"
    have hf: "context_flags ctx AND FLAG_FIELDS \<noteq> 0 \<longleftrightarrow> fids \<noteq> None" "context_flags ctx AND FLAG_CONTEXTS \<noteq> 0"
      unfolding context_flag_bits c by auto
    have t: "context_tail ctx = word_of_int (int (length offs)) # map word_of_int offs @ ids"
      by (simp add: context_tail_def c ids_def)
    have cc: "sint (word_of_int (int (length offs)) :: u32) = int (length offs)" using cd(4) by (intro int32_roundtrip) simp_all
    have il: "length ids = (if fids \<noteq> None then length offs else 0)" using cd(5) by (cases fids) (simp_all add: ids_def)
    have g1: "pq_getmsgints (length offs) (map word_of_int offs @ buf) = Inr (map word_of_int offs, buf)" for buf
      by (rule getmsgints_exact) simp
    have g2: "(if fids \<noteq> None then pq_getmsgints (length offs) (ids @ buf) else Inr ([], ids @ buf)) = Inr (ids, buf)" for buf
      using getmsgints_exact [of "length offs" ids buf] il by (cases fids) (simp_all add: ids_def)
    have g3: "pq_getmsgints (nat cnt * nat dm) floats = Inr (floats, [])" using getmsgints_exact [of _ floats "[]"] n by simp
    have ex: "PgturbohybridMultiVectorExtendedSize cnt dm (int (length offs)) (fids \<noteq> None) =
        Inr (16 + 4 * (length floats + length (context_tail ctx)))"
      using extended_size_ok [OF d cd(2,3), of "fids \<noteq> None"] il n unfolding t by simp
    have two: "sint (2 :: u32) = 2" by simp
    show ?thesis using chk
      unfolding pgturbohybrid_multivector_recv_def build_mv_unfold t
      by (simp only: c t append_Cons append_assoc pq_getmsgint.simps bindE_simps prod.case Let_def si float_count_ok [OF d]
          hf [unfolded c] simp_thms if_True two cc ex [unfolded t c] nat_int g1 g2 g3) (simp add: pq_getmsgend_def g3 t [unfolded c])
  qed
qed

text \<open>
  C36. Binary output and input are inverse: every valid multivector, with or without contexts
  and fields, is sent as a message that is received as the same value, bit for bit.
\<close>

theorem multivector_send_recv:
  assumes "mv_memory mv" "PgturbohybridCheckMultiVector (Some mv) = Inr ()"
  shows "\<exists>msg. pgturbohybrid_multivector_send mv = Inr msg \<and> pgturbohybrid_multivector_recv msg = Inr mv"
proof -
  obtain floats ctx where ok: "mv_contents_ok (mv_count mv) (mv_dim mv) floats ctx"
    and mv: "mv = build_mv (mv_count mv) (mv_dim mv) floats ctx"
    using check_gives_contents [OF assms] by blast
  show ?thesis using send_build [OF ok] recv_build [OF ok] mv by metis
qed

theorem multivector_send_recv_witness:
  "\<exists>msg. pgturbohybrid_multivector_send demo_multivector = Inr msg \<and> pgturbohybrid_multivector_recv msg = Inr demo_multivector"
  using multivector_send_recv [OF demo_multivector_ok] .

end
