(* ===== verification/Vector_Compat.thy ===== *)
theory Vector_Compat
  imports Multivector
begin

text \<open>
  Vectors of the type \<open>vector\<close> as the extension reads them
  (\<open>pgturbohybrid_vector_compat.c\<close>): the layout of the varlena and its strict and fast checks.
  The counters of checks and the catalog lookup of the type are not modelled: the type exists.
\<close>

record Vector =
  v_size :: nat  \<comment> \<open>\<open>VARSIZE_ANY\<close>, in bytes\<close>
  v_dim :: u16
  v_unused :: u16
  v_x :: "u32 list"

definition VECTOR_MAX_DIM :: int where "VECTOR_MAX_DIM = 16000"
definition VECTOR_SIZE :: "int \<Rightarrow> nat" where "VECTOR_SIZE dm = 8 + 4 * nat dm"

definition malformed_vector :: "'a res" where
  "malformed_vector = Inl (Ereport ERRCODE_DATA_EXCEPTION ''malformed vector value'')"

definition check_finite_vector :: "Vector \<Rightarrow> nat \<Rightarrow> unit \<Rightarrow> unit res" where
  "check_finite_vector v i u = ensure (isfinite_bits (v_x v ! i)) ERRCODE_DATA_EXCEPTION
     ''vector cannot contain NaN or infinite values''"

definition PgturbohybridCheckVectorInternal :: "Vector option \<Rightarrow> bool \<Rightarrow> int res" where
  "PgturbohybridCheckVectorInternal p strict = (case p of
       None \<Rightarrow> Inl (Ereport ERRCODE_NULL_VALUE_NOT_ALLOWED ''vector value cannot be null'')
     | Some v \<Rightarrow>
         let dm = sint (v_dim v) in
         if v_size v < 8 then malformed_vector
         else if dm < 1 \<or> dm > VECTOR_MAX_DIM then Inl (Ereport ERRCODE_DATA_EXCEPTION ''invalid vector dimensions'')
         else if v_unused v \<noteq> 0 then malformed_vector
         else if v_size v \<noteq> VECTOR_SIZE dm then malformed_vector
         else bindE (if strict then foldE (check_finite_vector v) [0..<nat dm] () else Inr ()) (\<lambda>_. Inr dm))"

definition PgturbohybridCheckVector :: "Vector \<Rightarrow> unit res" where
  "PgturbohybridCheckVector v = bindE (PgturbohybridCheckVectorInternal (Some v) True) (\<lambda>_. Inr ())"

definition PgturbohybridVectorDims :: "Vector \<Rightarrow> int res" where
  "PgturbohybridVectorDims v = bindE (PgturbohybridCheckVector v) (\<lambda>_. Inr (sint (v_dim v)))"

definition PgturbohybridDatumGetVector :: "Vector \<Rightarrow> Vector res" where
  "PgturbohybridDatumGetVector v = bindE (PgturbohybridCheckVector v) (\<lambda>_. Inr v)"

definition PgturbohybridVectorDimsFast :: "Vector \<Rightarrow> int res" where
  "PgturbohybridVectorDimsFast v = PgturbohybridCheckVectorInternal (Some v) False"

definition PgturbohybridCheckSameDims :: "Vector \<Rightarrow> Vector \<Rightarrow> unit res" where
  "PgturbohybridCheckSameDims a b =
     bindE (PgturbohybridVectorDims a) (\<lambda>adim. bindE (PgturbohybridVectorDims b) (\<lambda>bdim.
       ensure (adim = bdim) ERRCODE_DATA_EXCEPTION ''different vector dimensions''))"

definition PgturbohybridCheckSameDimsFast :: "Vector \<Rightarrow> Vector \<Rightarrow> unit res" where
  "PgturbohybridCheckSameDimsFast a b =
     bindE (PgturbohybridVectorDimsFast a) (\<lambda>adim. bindE (PgturbohybridVectorDimsFast b) (\<lambda>bdim.
       ensure (adim = bdim) ERRCODE_DATA_EXCEPTION ''different vector dimensions''))"

section \<open>Well-formed vectors\<close>

definition build_vector :: "u32 list \<Rightarrow> Vector" where
  "build_vector xs = \<lparr>v_size = 8 + 4 * length xs, v_dim = word_of_int (int (length xs)), v_unused = 0, v_x = xs\<rparr>"

definition vector_ok :: "u32 list \<Rightarrow> bool" where
  "vector_ok xs \<longleftrightarrow> xs \<noteq> [] \<and> length xs \<le> 16000 \<and> (\<forall>w \<in> set xs. isfinite_bits w)"

definition vector_memory :: "Vector \<Rightarrow> bool" where
  "vector_memory v \<longleftrightarrow> length (v_x v) = (v_size v - 8) div 4"

lemma int16_nat: "int n < 2 ^ 15 \<Longrightarrow> sint (word_of_int (int n) :: u16) = int n"
  by (simp add: signed_of_int signed_take_bit_int_eq_self del: of_int_of_nat_eq)

lemma build_vector_simps [simp]:
  "v_size (build_vector xs) = 8 + 4 * length xs" "v_x (build_vector xs) = xs" "v_unused (build_vector xs) = 0"
  by (simp_all add: build_vector_def)

lemma build_vector_dim: "length xs \<le> 16000 \<Longrightarrow> sint (v_dim (build_vector xs)) = int (length xs)"
  using int16_nat [of "length xs"] by (simp add: build_vector_def)

lemma check_build_vector:
  assumes "vector_ok xs"
  shows "PgturbohybridCheckVectorInternal (Some (build_vector xs)) strict = Inr (int (length xs))"
proof -
  have l: "length xs \<le> 16000" "xs \<noteq> []" "\<forall>w \<in> set xs. isfinite_bits w" using assms by (simp_all add: vector_ok_def)
  have "foldE (check_finite_vector (build_vector xs)) [0..<length xs] () = Inr ()"
    using l(3) by (auto simp: foldE_unit check_finite_vector_def)
  moreover have "0 < length xs" using l(2) by simp
  ultimately show ?thesis using l(1) build_vector_dim [OF l(1)]
    by (simp add: PgturbohybridCheckVectorInternal_def VECTOR_MAX_DIM_def VECTOR_SIZE_def Let_def)
qed

text \<open>The strict check accepts exactly the well-formed vectors.\<close>

lemma check_vector_exact:
  assumes "vector_memory v"
  shows "PgturbohybridCheckVector v = Inr () \<longleftrightarrow> vector_ok (v_x v) \<and> v = build_vector (v_x v)"
proof
  assume ok: "PgturbohybridCheckVector v = Inr ()"
  then have c: "1 \<le> sint (v_dim v)" "sint (v_dim v) \<le> 16000" "v_unused v = 0" "v_size v = 8 + 4 * nat (sint (v_dim v))"
    "foldE (check_finite_vector v) [0..<nat (sint (v_dim v))] () = Inr ()"
    by (auto simp: PgturbohybridCheckVector_def PgturbohybridCheckVectorInternal_def Let_def malformed_vector_def bindE_Inr_iff
        VECTOR_MAX_DIM_def VECTOR_SIZE_def split: if_splits)
  have l: "length (v_x v) = nat (sint (v_dim v))" using assms c(4) by (simp add: vector_memory_def)
  have "\<forall>w \<in> set (v_x v). isfinite_bits w" using c(5) unfolding l [symmetric]
    by (auto simp: foldE_unit check_finite_vector_def all_set_conv_all_nth)
  then have "vector_ok (v_x v)" using c(1,2) l by (auto simp: vector_ok_def)
  moreover have "word_of_int (int (length (v_x v))) = v_dim v" using c(1) unfolding l by simp
  then have "v = build_vector (v_x v)" using c(3,4) l by (intro Vector.equality) (simp_all add: build_vector_def)
  ultimately show "vector_ok (v_x v) \<and> v = build_vector (v_x v)" by simp
next
  assume "vector_ok (v_x v) \<and> v = build_vector (v_x v)"
  then show "PgturbohybridCheckVector v = Inr ()"
    using check_build_vector [of "v_x v" True] by (metis PgturbohybridCheckVector_def bindE_simps(2))
qed

lemma check_build [simp]: "vector_ok xs \<Longrightarrow> PgturbohybridCheckVector (build_vector xs) = Inr ()"
  by (simp add: PgturbohybridCheckVector_def check_build_vector)

lemma dims_build [simp]: "vector_ok xs \<Longrightarrow> PgturbohybridVectorDims (build_vector xs) = Inr (int (length xs))"
  by (simp add: PgturbohybridVectorDims_def build_vector_dim vector_ok_def)

lemma dims_fast_build [simp]: "vector_ok xs \<Longrightarrow> PgturbohybridVectorDimsFast (build_vector xs) = Inr (int (length xs))"
  by (simp add: PgturbohybridVectorDimsFast_def check_build_vector)

text \<open>On vectors that pass the strict check, the fast functions agree with the strict ones.\<close>

lemma fast_check_agrees:
  "PgturbohybridCheckSameDims a b = Inr () \<Longrightarrow> PgturbohybridCheckSameDimsFast a b = Inr ()"
  by (auto simp: PgturbohybridCheckSameDims_def PgturbohybridCheckSameDimsFast_def PgturbohybridVectorDims_def
      PgturbohybridVectorDimsFast_def PgturbohybridCheckVector_def PgturbohybridCheckVectorInternal_def Let_def malformed_vector_def
      bindE_Inr_iff split: if_splits)

end
