(* ===== verification/Multivector_Build.thy ===== *)
theory Multivector_Build
  imports Vector_Compat
begin

text \<open>
  Construction of multivectors by the SQL functions (\<open>pgturbohybrid_multivector.c\<close>): from an
  array of vectors, from a flat array of floats, and with context offsets and field ids; and
  back to vectors. An array argument is its number of dimensions, whether its element type is
  the expected one, and its elements, null or not, as \<open>deconstruct_array\<close> returns them.
\<close>

record 'a pg_array =
  arr_ndim :: int
  arr_typed :: bool
  arr_elements :: "'a option list"

definition array_of :: "'a list \<Rightarrow> 'a pg_array" where
  \<comment> \<open>\<open>construct_array\<close>: one dimension, or none when there are no elements\<close>
  "array_of xs = \<lparr>arr_ndim = (if xs = [] then 0 else 1), arr_typed = True, arr_elements = map Some xs\<rparr>"

definition is_array :: "'a list \<Rightarrow> 'a pg_array \<Rightarrow> bool" where
  "is_array xs a \<longleftrightarrow> arr_ndim a \<noteq> 0 \<and> arr_typed a \<and> arr_elements a = map Some xs \<and> xs \<noteq> []"

section \<open>Reading arrays\<close>

definition not_null :: "errcode \<Rightarrow> string \<Rightarrow> 'a option \<Rightarrow> 'a res" where
  "not_null code msg x = (case x of None \<Rightarrow> Inl (Ereport code msg) | Some y \<Rightarrow> Inr y)"

fun mapE :: "('a \<Rightarrow> 'b res) \<Rightarrow> 'a list \<Rightarrow> 'b list res" where
  "mapE g [] = Inr []"
| "mapE g (x # xs) = bindE (g x) (\<lambda>y. bindE (mapE g xs) (\<lambda>ys. Inr (y # ys)))"

lemma mapE_iff: "mapE g xs = Inr ys \<longleftrightarrow> list_all2 (\<lambda>x y. g x = Inr y) xs ys"
  by (induction xs arbitrary: ys) (auto simp: bindE_Inr_iff list_all2_Cons1)

definition PgturbohybridMultiVectorReadInt4Array :: "u32 pg_array option \<Rightarrow> int list res" where
  "PgturbohybridMultiVectorReadInt4Array p = (case p of
       None \<Rightarrow> Inl (Ereport ERRCODE_DATA_EXCEPTION ''array cannot be empty'')
     | Some a \<Rightarrow>
         bindE (ensure (arr_ndim a \<noteq> 0) ERRCODE_DATA_EXCEPTION ''array cannot be empty'') (\<lambda>_.
         bindE (ensure (arr_typed a) ERRCODE_DATATYPE_MISMATCH ''expected integer[] input'') (\<lambda>_.
         bindE (ensure (0 < length (arr_elements a)) ERRCODE_DATA_EXCEPTION ''array cannot be empty'') (\<lambda>_.
           mapE (\<lambda>x. bindE (not_null ERRCODE_NULL_VALUE_NOT_ALLOWED ''array cannot contain null elements'' x) (\<lambda>w. Inr (sint w)))
             (arr_elements a)))))"

definition PgturbohybridMultiVectorReadFloat4Array :: "u32 pg_array option \<Rightarrow> u32 list res" where
  "PgturbohybridMultiVectorReadFloat4Array p = (case p of
       None \<Rightarrow> Inl (Ereport ERRCODE_DATA_EXCEPTION ''array cannot be empty'')
     | Some a \<Rightarrow>
         bindE (ensure (arr_ndim a \<noteq> 0) ERRCODE_DATA_EXCEPTION ''array cannot be empty'') (\<lambda>_.
         bindE (ensure (arr_typed a) ERRCODE_DATATYPE_MISMATCH ''expected real[] input'') (\<lambda>_.
         bindE (ensure (0 < length (arr_elements a)) ERRCODE_DATA_EXCEPTION ''array cannot be empty'') (\<lambda>_.
           mapE (\<lambda>x. bindE (not_null ERRCODE_DATA_EXCEPTION ''array must contain finite non-null values'' x) (\<lambda>w.
                   bindE (ensure (isfinite_bits w) ERRCODE_DATA_EXCEPTION ''array must contain finite non-null values'') (\<lambda>_. Inr w)))
             (arr_elements a)))))"

lemma not_null_iff [simp]: "not_null code msg x = Inr y \<longleftrightarrow> x = Some y"
  by (cases x) (simp_all add: not_null_def)

lemma read_int4_iff:
  "PgturbohybridMultiVectorReadInt4Array (Some a) = Inr ns \<longleftrightarrow> (\<exists>ws. is_array ws a \<and> ns = map sint ws)"
proof -
  have "list_all2 (\<lambda>x y. \<exists>w. x = Some w \<and> sint w = y) xs ns \<longleftrightarrow> (\<exists>ws. xs = map Some ws \<and> ns = map sint (ws :: u32 list))" for xs
  proof (induction xs arbitrary: ns)
    case (Cons x xs)
    show ?case
    proof
      assume "list_all2 (\<lambda>x y. \<exists>w. x = Some w \<and> sint w = y) (x # xs) ns"
      then obtain w ms where m: "ns = sint w # ms" "x = Some w" "list_all2 (\<lambda>x y. \<exists>w. x = Some w \<and> sint w = y) xs ms"
        by (auto simp: list_all2_Cons1)
      then obtain ws where "xs = map Some ws" "ms = map sint ws" using Cons.IH by auto
      then show "\<exists>ws. x # xs = map Some ws \<and> ns = map sint ws" using m by (intro exI [of _ "w # ws"]) simp
    next
      assume "\<exists>ws. x # xs = map Some ws \<and> ns = map sint ws"
      then obtain w ws where "x = Some w" "xs = map Some ws" "ns = sint w # map sint ws" by (auto simp: Cons_eq_map_conv)
      then show "list_all2 (\<lambda>x y. \<exists>w. x = Some w \<and> sint w = y) (x # xs) ns" using Cons.IH by auto
    qed
  qed auto
  then show ?thesis
    by (auto simp: PgturbohybridMultiVectorReadInt4Array_def bindE_Inr_iff mapE_iff is_array_def)
qed

lemma read_float4_iff:
  "PgturbohybridMultiVectorReadFloat4Array (Some a) = Inr ws \<longleftrightarrow> is_array ws a \<and> (\<forall>w \<in> set ws. isfinite_bits w)"
proof -
  have "list_all2 (\<lambda>x y. x = Some y \<and> isfinite_bits y) xs ws \<longleftrightarrow> xs = map Some ws \<and> (\<forall>w \<in> set ws. isfinite_bits w)" for xs
    by (induction xs arbitrary: ws) (auto simp: list_all2_Cons1 Cons_eq_map_conv)
  then show ?thesis
    by (auto simp: PgturbohybridMultiVectorReadFloat4Array_def bindE_Inr_iff mapE_iff is_array_def)
qed

section \<open>Construction\<close>

definition store_value :: "u32 option \<Rightarrow> u32 res" where
  "store_value x =
     bindE (not_null ERRCODE_NULL_VALUE_NOT_ALLOWED ''multivector values array cannot contain null elements'' x) (\<lambda>w.
     bindE (ensure (isfinite_bits w) ERRCODE_DATA_EXCEPTION ''multivector cannot contain NaN or infinite values'') (\<lambda>_. Inr w))"

definition PgturbohybridMultiVectorBuildFromFlatArray ::
    "u32 pg_array option \<Rightarrow> int \<Rightarrow> int \<Rightarrow> int list option \<Rightarrow> int list option \<Rightarrow> multivector res" where
  "PgturbohybridMultiVectorBuildFromFlatArray p dm contextCount contextOffsets fieldIds =
     (case p of None \<Rightarrow> Inl (Ereport ERRCODE_NULL_VALUE_NOT_ALLOWED ''multivector values array cannot be null'')
      | Some a \<Rightarrow>
     let hasContexts = 0 < contextCount; hasFields = fieldIds \<noteq> None; nelems = int (length (arr_elements a)) in
     bindE (ensure (0 < dm) ERRCODE_INVALID_PARAMETER_VALUE ''multivector dimensions must be greater than zero'') (\<lambda>_.
     bindE (ensure (arr_ndim a \<noteq> 0) ERRCODE_DATA_EXCEPTION ''multivector values array cannot be empty'') (\<lambda>_.
     bindE (ensure (arr_typed a) ERRCODE_DATATYPE_MISMATCH ''expected real[] input'') (\<lambda>_.
     bindE (ensure (0 < nelems) ERRCODE_DATA_EXCEPTION ''multivector values array cannot be empty'') (\<lambda>_.
     bindE (ensure (nelems mod dm = 0) ERRCODE_DATA_EXCEPTION
              ''multivector values array length must be divisible by dimensions'') (\<lambda>_.
     let cnt = nelems div dm in
     bindE (if hasContexts
            then bindE (PgturbohybridMultiVectorValidateContexts cnt contextCount contextOffsets fieldIds) (\<lambda>_.
                   PgturbohybridMultiVectorExtendedSize cnt dm contextCount hasFields)
            else PgturbohybridMultiVectorSize cnt dm) (\<lambda>resultSize.
     bindE (mapE store_value (arr_elements a)) (\<lambda>values.
     let flags = (if hasContexts then FLAG_CONTEXTS else 0) OR (if hasFields then FLAG_FIELDS else 0);
         tail = (if hasContexts
                 then word_of_int contextCount # map word_of_int (take (nat contextCount) (the contextOffsets)) @
                   (if hasFields then map word_of_int (take (nat contextCount) (the fieldIds)) else [])
                 else []);
         result = \<lparr>mv_size = resultSize, mv_dim = dm, mv_count = cnt, mv_flags = flags, mv_words = values @ tail\<rparr> in
     bindE (PgturbohybridCheckMultiVector (Some result)) (\<lambda>_. Inr result)))))))))"

text \<open>The SQL functions; an argument is \<open>None\<close> when it is null.\<close>

definition pgturbohybrid_multivector_from_float4 :: "u32 pg_array option \<Rightarrow> int \<Rightarrow> multivector res" where
  "pgturbohybrid_multivector_from_float4 values dm =
     bindE (ensure (values \<noteq> None) ERRCODE_NULL_VALUE_NOT_ALLOWED ''multivector values array cannot be null'') (\<lambda>_.
       PgturbohybridMultiVectorBuildFromFlatArray values dm 0 None None)"

definition pgturbohybrid_multivector_from_contexts :: "u32 pg_array option \<Rightarrow> int \<Rightarrow> u32 pg_array option \<Rightarrow> multivector res" where
  "pgturbohybrid_multivector_from_contexts values dm contexts =
     bindE (ensure (values \<noteq> None \<and> contexts \<noteq> None) ERRCODE_NULL_VALUE_NOT_ALLOWED
              ''multivector values and context offsets cannot be null'') (\<lambda>_.
     bindE (PgturbohybridMultiVectorReadInt4Array contexts) (\<lambda>contextOffsets.
       PgturbohybridMultiVectorBuildFromFlatArray values dm (int (length contextOffsets)) (Some contextOffsets) None))"

definition pgturbohybrid_multivector_from_contexts_and_fields ::
    "u32 pg_array option \<Rightarrow> int \<Rightarrow> u32 pg_array option \<Rightarrow> u32 pg_array option \<Rightarrow> multivector res" where
  "pgturbohybrid_multivector_from_contexts_and_fields values dm contexts fids =
     bindE (ensure (values \<noteq> None \<and> contexts \<noteq> None \<and> fids \<noteq> None) ERRCODE_NULL_VALUE_NOT_ALLOWED
              ''multivector values, context offsets, and field ids cannot be null'') (\<lambda>_.
     bindE (PgturbohybridMultiVectorReadInt4Array contexts) (\<lambda>contextOffsets.
     bindE (PgturbohybridMultiVectorReadInt4Array fids) (\<lambda>fieldIds.
     bindE (ensure (length fieldIds = length contextOffsets) ERRCODE_ARRAY_SUBSCRIPT_ERROR
              ''field id count must match context offset count'') (\<lambda>_.
       PgturbohybridMultiVectorBuildFromFlatArray values dm (int (length contextOffsets)) (Some contextOffsets) (Some fieldIds)))))"

text \<open>The constructor from an array of vectors; the pass that checks them also finds the dimension.\<close>

definition same_dim :: "Vector option \<Rightarrow> int option \<Rightarrow> int option res" where
  "same_dim x found =
     bindE (not_null ERRCODE_NULL_VALUE_NOT_ALLOWED ''vector array cannot contain null elements'' x) (\<lambda>d.
     bindE (PgturbohybridDatumGetVector d) (\<lambda>v.
     bindE (PgturbohybridVectorDims v) (\<lambda>vectorDim.
       case found of None \<Rightarrow> Inr (Some vectorDim)
       | Some dm \<Rightarrow> bindE (ensure (vectorDim = dm) ERRCODE_DATA_EXCEPTION
                     ''all vectors in a multivector must have the same dimensions'') (\<lambda>_. Inr (Some dm)))))"

definition copy_vector :: "int \<Rightarrow> Vector option \<Rightarrow> u32 list res" where
  "copy_vector dm x = bindE (PgturbohybridDatumGetVector (the x)) (\<lambda>v. Inr (take (nat dm) (v_x v)))"

definition pgturbohybrid_multivector_constructor :: "Vector pg_array option \<Rightarrow> multivector res" where
  "pgturbohybrid_multivector_constructor p = (case p of
       None \<Rightarrow> Inl (Ereport ERRCODE_NULL_VALUE_NOT_ALLOWED ''vector array cannot be null'')
     | Some a \<Rightarrow>
         bindE (ensure (arr_ndim a \<noteq> 0) ERRCODE_DATA_EXCEPTION ''vector array cannot be empty'') (\<lambda>_.
         bindE (ensure (arr_typed a) ERRCODE_DATATYPE_MISMATCH ''expected vector[] input'') (\<lambda>_.
         bindE (ensure (0 < length (arr_elements a)) ERRCODE_DATA_EXCEPTION ''vector array cannot be empty'') (\<lambda>_.
         bindE (foldE same_dim (arr_elements a) None) (\<lambda>found.
         let dm = (case found of None \<Rightarrow> 0 | Some d \<Rightarrow> d); nelems = int (length (arr_elements a)) in
         bindE (PgturbohybridMultiVectorSize nelems dm) (\<lambda>resultSize.
         bindE (mapE (copy_vector dm) (arr_elements a)) (\<lambda>rows.
           Inr \<lparr>mv_size = resultSize, mv_dim = dm, mv_count = nelems, mv_flags = 0, mv_words = concat rows\<rparr>)))))))"

section \<open>Back to vectors\<close>

definition PgturbohybridMultiVectorSubvectorCopy :: "multivector \<Rightarrow> int \<Rightarrow> Vector res" where
  "PgturbohybridMultiVectorSubvectorCopy mv ordinal =
     bindE (PgturbohybridCheckMultiVector (Some mv)) (\<lambda>_.
     bindE (ensure (\<not> (ordinal < 0 \<or> ordinal \<ge> mv_count mv)) ERRCODE_ARRAY_SUBSCRIPT_ERROR
              ''multivector subvector ordinal is out of range'') (\<lambda>_.
     bindE (PgturbohybridMultiVectorValues mv ordinal) (\<lambda>values.
     let result = \<lparr>v_size = VECTOR_SIZE (mv_dim mv), v_dim = word_of_int (mv_dim mv), v_unused = 0, v_x = values\<rparr> in
     bindE (PgturbohybridCheckVector result) (\<lambda>_. Inr result))))"

definition pgturbohybrid_multivector_subvector :: "multivector \<Rightarrow> int \<Rightarrow> Vector res" where
  "pgturbohybrid_multivector_subvector mv ordinal =
     bindE (PgturbohybridCheckMultiVector (Some mv)) (\<lambda>_.
     bindE (ensure (\<not> (ordinal < 1 \<or> ordinal > mv_count mv)) ERRCODE_ARRAY_SUBSCRIPT_ERROR
              ''multivector subvector ordinal is out of range'') (\<lambda>_.
       PgturbohybridMultiVectorSubvectorCopy mv (ordinal - 1)))"

definition pgturbohybrid_multivector_to_vector_array :: "multivector \<Rightarrow> Vector pg_array res" where
  "pgturbohybrid_multivector_to_vector_array mv =
     bindE (PgturbohybridCheckMultiVector (Some mv)) (\<lambda>_.
     bindE (mapE (\<lambda>i. PgturbohybridMultiVectorSubvectorCopy mv (int i)) [0..<nat (mv_count mv)]) (\<lambda>vs. Inr (array_of vs)))"

definition pgturbohybrid_multivector_context_offsets :: "multivector \<Rightarrow> int pg_array res" where
  "pgturbohybrid_multivector_context_offsets mv =
     bindE (PgturbohybridMultiVectorContextOffsets mv) (\<lambda>offs.
     bindE (PgturbohybridMultiVectorContextCount mv) (\<lambda>contextCount.
       Inr (array_of (case offs of None \<Rightarrow> [0] | Some xs \<Rightarrow> map (\<lambda>i. xs ! i) [0..<nat contextCount]))))"

definition pgturbohybrid_multivector_field_ids :: "multivector \<Rightarrow> int pg_array res" where
  "pgturbohybrid_multivector_field_ids mv =
     bindE (PgturbohybridMultiVectorContextFields mv) (\<lambda>fids.
     bindE (PgturbohybridMultiVectorContextCount mv) (\<lambda>contextCount.
       Inr (array_of (map (\<lambda>i. case fids of None \<Rightarrow> 0 | Some xs \<Rightarrow> xs ! i) [0..<nat contextCount]))))"

section \<open>What the constructors build\<close>

lemma mapE_store_value: "mapE store_value xs = Inr ws \<longleftrightarrow> xs = map Some ws \<and> (\<forall>w \<in> set ws. isfinite_bits w)"
proof -
  have "list_all2 (\<lambda>x y. x = Some y \<and> isfinite_bits y) xs ws \<longleftrightarrow> xs = map Some ws \<and> (\<forall>w \<in> set ws. isfinite_bits w)"
    by (induction xs arbitrary: ws) (auto simp: list_all2_Cons1 Cons_eq_map_conv)
  moreover have "store_value x = Inr y \<longleftrightarrow> x = Some y \<and> isfinite_bits y" for x y
    by (auto simp: store_value_def bindE_Inr_iff)
  ultimately show ?thesis by (simp add: mapE_iff)
qed

definition ctx_count :: "(int list \<times> int list option) option \<Rightarrow> int" where
  "ctx_count ctx = (case ctx of None \<Rightarrow> 0 | Some (offs, _) \<Rightarrow> int (length offs))"

definition ctx_fields :: "(int list \<times> int list option) option \<Rightarrow> int list option" where
  "ctx_fields ctx = (case ctx of None \<Rightarrow> None | Some (_, fids) \<Rightarrow> fids)"

definition ctx_typed :: "(int list \<times> int list option) option \<Rightarrow> bool" where
  \<comment> \<open>the arrays of contexts have elements, as many fields as offsets, and \<open>int32\<close> fields\<close>
  "ctx_typed ctx = (case ctx of None \<Rightarrow> True
     | Some (offs, fids) \<Rightarrow> offs \<noteq> [] \<and> (case fids of None \<Rightarrow> True | Some ids \<Rightarrow> length ids = length offs \<and> (\<forall>x \<in> set ids. x < 2 ^ 31)))"

lemma divides_lengths:
  assumes "0 < dm" "int n mod dm = 0"
  shows "n = nat (int n div dm) * nat dm"
proof -
  have "int n = (int n div dm) * dm" using assms(2) by (metis div_mult_mod_eq add.right_neutral)
  then show ?thesis by (metis nat_int nat_mult_distrib pos_imp_zdiv_nonneg_iff assms(1) of_nat_0_le_iff)
qed

lemma lengths_divide:
  assumes "dims_ok cnt dm" "n = nat cnt * nat dm"
  shows "int n mod dm = 0" "int n div dm = cnt" "0 < dm" "0 < n"
  using assms by (auto simp: dims_ok_def)

lemma build_flat_ok:
  assumes ws: "is_array ws a" and ok: "mv_contents_ok cnt dm ws ctx"
  shows "PgturbohybridMultiVectorBuildFromFlatArray (Some a) dm (ctx_count ctx) (map_option fst ctx) (ctx_fields ctx) =
    Inr (build_mv cnt dm ws ctx)"
proof -
  have d: "dims_ok cnt dm" and n: "length ws = nat cnt * nat dm" and fin: "\<forall>w \<in> set ws. isfinite_bits w"
    using ok by (simp_all add: mv_contents_ok_def)
  note l = lengths_divide [OF d n]
  have a: "arr_ndim a \<noteq> 0" "arr_typed a" "arr_elements a = map Some ws" "length (arr_elements a) = length ws"
    using ws by (simp_all add: is_array_def)
  have m: "mapE store_value (map Some ws) = Inr ws" using mapE_store_value fin by blast
  note chk = build_check [OF ok, unfolded build_mv_unfold]
  show ?thesis
  proof (cases ctx)
    case None
    then show ?thesis using l a m chk mv_size_ok [OF d] n
      by (simp add: PgturbohybridMultiVectorBuildFromFlatArray_def Let_def ctx_count_def ctx_fields_def build_mv_unfold
          context_tail_def context_flags_def)
  next
    case (Some c)
    obtain offs fids where c: "ctx = Some (offs, fids)" using Some by (cases c) auto
    have co: "contexts_ok cnt offs fids" using ok c by (simp add: mv_contents_ok_def)
    note cd = contexts_okD [OF co d]
    have v: "PgturbohybridMultiVectorValidateContexts cnt (int (length offs)) (Some offs) fids = Inr ()"
      using validate_contexts_iff [of offs "int (length offs)" fids cnt] cd(2,3,5) co by auto
    have e: "PgturbohybridMultiVectorExtendedSize cnt dm (int (length offs)) (fids \<noteq> None) =
        Inr (16 + 4 * (length ws + length (context_tail ctx)))"
      using extended_size_ok [OF d cd(2,3), of "fids \<noteq> None"] cd(5) n c by (cases fids) (simp_all add: context_tail_def)
    have fl: "FLAG_CONTEXTS OR (if fids \<noteq> None then FLAG_FIELDS else 0) = context_flags ctx"
      using c by (cases fids) (simp_all add: context_flags_def)
    have tl: "word_of_int (int (length offs)) # map word_of_int offs @
        (if fids \<noteq> None then map word_of_int (take (length offs) (the fids)) else []) = context_tail ctx"
      using cd(5) c by (cases fids) (simp_all add: context_tail_def)
    have cf: "ctx_count ctx = int (length offs)" "map_option fst ctx = Some offs" "ctx_fields ctx = fids"
      by (simp_all add: c ctx_count_def ctx_fields_def)
    have tk: "take (length offs) offs = offs" by simp
    show ?thesis unfolding PgturbohybridMultiVectorBuildFromFlatArray_def Let_def cf
      using l a m chk cd(2) n
      by (simp only: option.case option.sel a(3,4) length_map l(2) v e bindE_simps m fl nat_int tk tl if_True
          ensure_True l(1,3) of_nat_0_less_iff l(4) build_mv_unfold simp_thms)
  qed
qed

lemma build_flat_only:
  assumes "PgturbohybridMultiVectorBuildFromFlatArray (Some a) dm (ctx_count ctx) (map_option fst ctx) (ctx_fields ctx) = Inr mv"
    and t: "ctx_typed ctx"
  shows "\<exists>ws. is_array ws a \<and> mv_contents_ok (int (length ws) div dm) dm ws ctx"
proof -
  obtain ws sz where r: "0 < dm" "arr_ndim a \<noteq> 0" "arr_typed a" "arr_elements a \<noteq> []" "int (length (arr_elements a)) mod dm = 0"
    "mapE store_value (arr_elements a) = Inr ws"
    and sz: "(if 0 < ctx_count ctx
      then bindE (PgturbohybridMultiVectorValidateContexts (int (length (arr_elements a)) div dm) (ctx_count ctx) (map_option fst ctx) (ctx_fields ctx))
        (\<lambda>_. PgturbohybridMultiVectorExtendedSize (int (length (arr_elements a)) div dm) dm (ctx_count ctx) (ctx_fields ctx \<noteq> None))
      else PgturbohybridMultiVectorSize (int (length (arr_elements a)) div dm) dm) = Inr sz"
    using assms(1) by (auto simp: PgturbohybridMultiVectorBuildFromFlatArray_def Let_def bindE_Inr_iff simp del: not_None_eq split del: if_split)
  have e: "arr_elements a = map Some ws" "\<forall>w \<in> set ws. isfinite_bits w" using r(6) by (simp_all add: mapE_store_value)
  let ?cnt = "int (length ws) div dm"
  have n: "length ws = nat ?cnt * nat dm" using divides_lengths [OF r(1)] r(5) e(1) by simp
  have ws: "is_array ws a" using r e by (simp add: is_array_def)
  show ?thesis
  proof (cases ctx)
    case None
    then have "PgturbohybridMultiVectorSize ?cnt dm = Inr sz" using sz e by (simp add: ctx_count_def)
    then have "dims_ok ?cnt dm" using mv_size_err by fastforce
    then show ?thesis using ws n e None by (auto simp: mv_contents_ok_def)
  next
    case (Some c)
    obtain offs fids where c: "ctx = Some (offs, fids)" using Some by (cases c) auto
    have p: "0 < int (length offs)" "\<forall>ids. fids = Some ids \<longrightarrow> length ids = length offs \<and> (\<forall>x \<in> set ids. x < 2 ^ 31)"
      using t c by (auto simp: ctx_typed_def)
    have v: "PgturbohybridMultiVectorValidateContexts ?cnt (int (length offs)) (Some offs) fids = Inr ()"
      and x: "PgturbohybridMultiVectorExtendedSize ?cnt dm (int (length offs)) (fids \<noteq> None) = Inr sz"
      using sz p(1) e(1) by (simp_all add: c ctx_count_def ctx_fields_def bindE_Inr_iff)
    have "dims_ok ?cnt dm" using extended_size_err [of ?cnt dm "int (length offs)" "fids \<noteq> None"] x by fastforce
    moreover have "contexts_ok ?cnt offs fids" using validate_contexts_iff [of offs "int (length offs)" fids ?cnt] v p(2) by auto
    ultimately show ?thesis using ws n e(2) p(2) c by (auto simp: mv_contents_ok_def split: option.split)
  qed
qed

lemma build_flat_iff:
  assumes "ctx_typed ctx"
  shows "PgturbohybridMultiVectorBuildFromFlatArray (Some a) dm (ctx_count ctx) (map_option fst ctx) (ctx_fields ctx) = Inr mv \<longleftrightarrow>
    (\<exists>ws. is_array ws a \<and> mv_contents_ok (int (length ws) div dm) dm ws ctx \<and> mv = build_mv (int (length ws) div dm) dm ws ctx)"
proof
  assume ok: "PgturbohybridMultiVectorBuildFromFlatArray (Some a) dm (ctx_count ctx) (map_option fst ctx) (ctx_fields ctx) = Inr mv"
  obtain ws where ws: "is_array ws a" "mv_contents_ok (int (length ws) div dm) dm ws ctx" using build_flat_only [OF ok assms] by blast
  show "\<exists>ws. is_array ws a \<and> mv_contents_ok (int (length ws) div dm) dm ws ctx \<and> mv = build_mv (int (length ws) div dm) dm ws ctx"
    using build_flat_ok [OF ws] ok ws by auto
next
  assume "\<exists>ws. is_array ws a \<and> mv_contents_ok (int (length ws) div dm) dm ws ctx \<and> mv = build_mv (int (length ws) div dm) dm ws ctx"
  then show "PgturbohybridMultiVectorBuildFromFlatArray (Some a) dm (ctx_count ctx) (map_option fst ctx) (ctx_fields ctx) = Inr mv"
    using build_flat_ok by blast
qed

lemma ex_read: "(\<exists>x. (\<exists>w. P w \<and> x = g w) \<and> Q x) \<longleftrightarrow> (\<exists>w. P w \<and> Q (g w))"
  by blast

lemma from_float4_iff:
  "pgturbohybrid_multivector_from_float4 (Some a) dm = Inr mv \<longleftrightarrow>
    (\<exists>ws. is_array ws a \<and> mv_contents_ok (int (length ws) div dm) dm ws None \<and> mv = build_mv (int (length ws) div dm) dm ws None)"
  using build_flat_iff [of None a dm mv]
  by (simp add: pgturbohybrid_multivector_from_float4_def ctx_typed_def ctx_count_def ctx_fields_def)

lemma from_contexts_iff:
  "pgturbohybrid_multivector_from_contexts (Some a) dm (Some c) = Inr mv \<longleftrightarrow>
    (\<exists>ws os. is_array ws a \<and> is_array os c \<and> mv_contents_ok (int (length ws) div dm) dm ws (Some (map sint os, None)) \<and>
      mv = build_mv (int (length ws) div dm) dm ws (Some (map sint os, None)))"
proof -
  have "PgturbohybridMultiVectorBuildFromFlatArray (Some a) dm (int (length os)) (Some (map sint os)) None = Inr mv \<longleftrightarrow>
      (\<exists>ws. is_array ws a \<and> mv_contents_ok (int (length ws) div dm) dm ws (Some (map sint os, None)) \<and>
        mv = build_mv (int (length ws) div dm) dm ws (Some (map sint os, None)))" if "is_array os c" for os :: "u32 list"
    using build_flat_iff [of "Some (map sint os, None)" a dm mv] that
    by (simp add: ctx_typed_def ctx_count_def ctx_fields_def is_array_def)
  moreover have "pgturbohybrid_multivector_from_contexts (Some a) dm (Some c) = Inr mv \<longleftrightarrow> (\<exists>os. is_array os c \<and>
      PgturbohybridMultiVectorBuildFromFlatArray (Some a) dm (int (length os)) (Some (map sint os)) None = Inr mv)"
    by (auto simp: pgturbohybrid_multivector_from_contexts_def bindE_Inr_iff read_int4_iff)
  ultimately show ?thesis by (simp cong: conj_cong) blast
qed

lemma from_contexts_and_fields_iff:
  "pgturbohybrid_multivector_from_contexts_and_fields (Some a) dm (Some c) (Some f) = Inr mv \<longleftrightarrow>
    (\<exists>ws os fs. is_array ws a \<and> is_array os c \<and> is_array fs f \<and>
      mv_contents_ok (int (length ws) div dm) dm ws (Some (map sint os, Some (map sint fs))) \<and>
      mv = build_mv (int (length ws) div dm) dm ws (Some (map sint os, Some (map sint fs))))"
proof -
  have "PgturbohybridMultiVectorBuildFromFlatArray (Some a) dm (int (length os)) (Some (map sint os)) (Some (map sint fs)) = Inr mv \<longleftrightarrow>
      (\<exists>ws. is_array ws a \<and> mv_contents_ok (int (length ws) div dm) dm ws (Some (map sint os, Some (map sint fs))) \<and>
        mv = build_mv (int (length ws) div dm) dm ws (Some (map sint os, Some (map sint fs))))"
    if "is_array os c" "length fs = length os" for os fs :: "u32 list"
    using build_flat_iff [of "Some (map sint os, Some (map sint fs))" a dm mv] that sint_range
    by (simp add: ctx_typed_def ctx_count_def ctx_fields_def is_array_def)
  moreover have "length fs = length os" if "mv_contents_ok cnt dm ws (Some (map sint os, Some (map sint fs)))" for cnt ws and os fs :: "u32 list"
    using that by (simp add: mv_contents_ok_def contexts_ok_def)
  moreover have "pgturbohybrid_multivector_from_contexts_and_fields (Some a) dm (Some c) (Some f) = Inr mv \<longleftrightarrow>
      (\<exists>os fs. is_array os c \<and> is_array fs f \<and> length fs = length os \<and>
      PgturbohybridMultiVectorBuildFromFlatArray (Some a) dm (int (length os)) (Some (map sint os)) (Some (map sint fs)) = Inr mv)"
    by (simp add: pgturbohybrid_multivector_from_contexts_and_fields_def bindE_Inr_iff read_int4_iff ex_read)
  ultimately show ?thesis by (simp cong: conj_cong) blast
qed

section \<open>Vectors in and out\<close>

definition rows_ok :: "nat \<Rightarrow> u32 list list \<Rightarrow> bool" where
  "rows_ok d rows \<longleftrightarrow> (\<forall>r \<in> set rows. vector_ok r \<and> length r = d)"

definition good_row :: "int \<Rightarrow> Vector option \<Rightarrow> bool" where
  "good_row dm x \<longleftrightarrow> (\<exists>q. x = Some (build_vector q) \<and> vector_ok q \<and> int (length q) = dm)"

lemma same_dim_step:
  assumes "\<And>v. x = Some v \<Longrightarrow> vector_memory v"
  shows "same_dim x (Some dm) = Inr s \<longleftrightarrow> good_row dm x \<and> s = Some dm"
    and "same_dim x None = Inr s \<longleftrightarrow> (\<exists>dm. good_row dm x \<and> s = Some dm)"
proof -
  have g: "(\<exists>q. v = build_vector q \<and> vector_ok q) \<longleftrightarrow> PgturbohybridCheckVector v = Inr ()" if "vector_memory v" for v
    using check_vector_exact [OF that] by auto
  show "same_dim x (Some dm) = Inr s \<longleftrightarrow> good_row dm x \<and> s = Some dm"
    "same_dim x None = Inr s \<longleftrightarrow> (\<exists>dm. good_row dm x \<and> s = Some dm)"
  proof (atomize (full), cases x)
    case (Some v)
    show "(same_dim x (Some dm) = Inr s \<longleftrightarrow> good_row dm x \<and> s = Some dm) \<and>
        (same_dim x None = Inr s \<longleftrightarrow> (\<exists>dm. good_row dm x \<and> s = Some dm))"
    proof (cases "PgturbohybridCheckVector v = Inr ()")
      case True
      then obtain q where q: "v = build_vector q" "vector_ok q" using g [OF assms [OF Some]] by blast
      have inj: "build_vector q = build_vector q' \<longleftrightarrow> q = q'" for q' by (metis build_vector_simps(2))
      show ?thesis using q by (auto simp: Some same_dim_def not_null_def PgturbohybridDatumGetVector_def good_row_def inj bindE_Inr_iff)
    next
      case False
      then have "\<not> good_row dm x" for dm using g [OF assms [OF Some]] by (auto simp: good_row_def Some)
      then show ?thesis using False
        by (auto simp: Some same_dim_def not_null_def PgturbohybridDatumGetVector_def bindE_Inr_iff)
    qed
  qed (simp add: same_dim_def not_null_def good_row_def)
qed

lemma same_dim_loop:
  assumes "\<forall>v. Some v \<in> set xs \<longrightarrow> vector_memory v"
  shows "foldE same_dim xs (Some dm) = Inr r \<longleftrightarrow> r = Some dm \<and> (\<forall>x \<in> set xs. good_row dm x)"
  using assms
proof (induction xs)
  case (Cons x xs)
  then have "same_dim x (Some dm) = Inr s \<longleftrightarrow> good_row dm x \<and> s = Some dm" for s by (intro same_dim_step) auto
  then show ?case using Cons by (auto simp: bindE_Inr_iff)
qed auto

lemma good_rows:
  "(\<forall>x \<in> set xs. good_row dm x) \<longleftrightarrow> (\<exists>rows. xs = map (Some \<circ> build_vector) rows \<and> (\<forall>q \<in> set rows. vector_ok q \<and> int (length q) = dm))"
proof
  assume "\<forall>x \<in> set xs. good_row dm x"
  then show "\<exists>rows. xs = map (Some \<circ> build_vector) rows \<and> (\<forall>q \<in> set rows. vector_ok q \<and> int (length q) = dm)"
  proof (induction xs)
    case (Cons x xs)
    have "good_row dm x" using Cons.prems by simp
    then obtain q where "x = Some (build_vector q)" "vector_ok q" "int (length q) = dm" unfolding good_row_def by blast
    moreover obtain rows where "xs = map (Some \<circ> build_vector) rows" "\<forall>q \<in> set rows. vector_ok q \<and> int (length q) = dm"
      using Cons.IH [OF ballI] Cons.prems by (metis list.set_intros(2))
    ultimately show ?case by (intro exI [of _ "q # rows"]) simp
  qed simp
qed (force simp: good_row_def)

lemma ex_found: "(\<exists>d. (\<exists>rows. P rows d) \<and> r = Some d) \<longleftrightarrow> (\<exists>rows d. P rows d \<and> r = Some d)"
  by blast

lemma ex_found': "(\<exists>r. (\<exists>rows d. P rows d \<and> r = Some d) \<and> Q r) \<longleftrightarrow> (\<exists>rows d. P rows d \<and> Q (Some d))"
  by blast

lemma ex_body: "(\<And>rows d. P rows d \<Longrightarrow> Q d \<longleftrightarrow> S rows d) \<Longrightarrow> (\<exists>rows d. P rows d \<and> Q d) \<longleftrightarrow> (\<exists>rows d. P rows d \<and> S rows d)"
  by blast

lemma copy_rows:
  assumes "\<forall>q \<in> set rows. vector_ok q \<and> int (length q) = dm"
  shows "mapE (copy_vector dm) (map (Some \<circ> build_vector) rows) = Inr rows"
  using assms by (induction rows) (auto simp: copy_vector_def PgturbohybridDatumGetVector_def)

lemma concat_rows: "\<forall>q \<in> set rows. length q = d \<Longrightarrow> length (concat rows) = length rows * d"
  by (induction rows) auto

text \<open>The constructor accepts exactly the non-empty arrays of well-formed vectors of one dimension.\<close>

lemma constructor_iff:
  assumes "\<forall>v. Some v \<in> set (arr_elements a) \<longrightarrow> vector_memory v"
  shows "pgturbohybrid_multivector_constructor (Some a) = Inr mv \<longleftrightarrow>
    (\<exists>rows dm. is_array (map build_vector rows) a \<and> (\<forall>q \<in> set rows. vector_ok q \<and> int (length q) = dm) \<and>
      mv_contents_ok (int (length rows)) dm (concat rows) None \<and> mv = build_mv (int (length rows)) dm (concat rows) None)"
    (is "?L \<longleftrightarrow> ?R")
proof -
  let ?rows = "\<lambda>rows dm. arr_elements a = map (Some \<circ> build_vector) rows \<and> (\<forall>q \<in> set rows. vector_ok q \<and> int (length q) = dm)"
  have found: "foldE same_dim (arr_elements a) None = Inr r \<longleftrightarrow> (\<exists>rows dm. ?rows rows dm \<and> r = Some dm)"
    if ne: "arr_elements a \<noteq> []" for r
  proof -
    obtain x xs where x: "arr_elements a = x # xs" using ne by (cases "arr_elements a") auto
    have "foldE same_dim (x # xs) None = Inr r \<longleftrightarrow> (\<exists>dm. (\<forall>y \<in> set (x # xs). good_row dm y) \<and> r = Some dm)"
      using same_dim_step(2) [of x] same_dim_loop [of xs _ r] assms x by (auto simp: bindE_Inr_iff)
    then show ?thesis unfolding x good_rows ex_found .
  qed
  have finish: "mv_contents_ok (int (length rows)) dm (concat rows) None \<longleftrightarrow> dims_ok (int (length rows)) dm"
    and sz: "dims_ok (int (length rows)) dm \<Longrightarrow> 16 + 4 * (length rows * nat dm) = mv_size (build_mv (int (length rows)) dm (concat rows) None)"
    if "\<forall>q \<in> set rows. vector_ok q \<and> int (length q) = dm" for rows dm
  proof -
    have "\<forall>q \<in> set rows. length q = nat dm" using that by auto
    then have "length (concat rows) = length rows * nat dm" by (rule concat_rows)
    then show "mv_contents_ok (int (length rows)) dm (concat rows) None \<longleftrightarrow> dims_ok (int (length rows)) dm"
      "16 + 4 * (length rows * nat dm) = mv_size (build_mv (int (length rows)) dm (concat rows) None)"
      using that by (auto simp: mv_contents_ok_def vector_ok_def build_mv_def)
  qed
  have arr: "(arr_ndim a \<noteq> 0 \<and> arr_typed a \<and> arr_elements a \<noteq> [] \<and> ?rows rows dm) \<longleftrightarrow>
      is_array (map build_vector rows) a \<and> (\<forall>q \<in> set rows. vector_ok q \<and> int (length q) = dm)" for rows dm
    by (auto simp: is_array_def)
  have "pgturbohybrid_multivector_constructor (Some a) = Inr mv \<longleftrightarrow>
      arr_ndim a \<noteq> 0 \<and> arr_typed a \<and> arr_elements a \<noteq> [] \<and> (\<exists>rows dm. ?rows rows dm \<and> dims_ok (int (length rows)) dm \<and>
        mv = build_mv (int (length rows)) dm (concat rows) None)"
  proof (cases "arr_ndim a \<noteq> 0 \<and> arr_typed a \<and> arr_elements a \<noteq> []")
    case True
    define G where "G = (\<lambda>dm. bindE (PgturbohybridMultiVectorSize (int (length (arr_elements a))) dm) (\<lambda>resultSize.
        bindE (mapE (copy_vector dm) (arr_elements a)) (\<lambda>rows'.
          Inr \<lparr>mv_size = resultSize, mv_dim = dm, mv_count = int (length (arr_elements a)), mv_flags = 0, mv_words = concat rows'\<rparr>)))"
    have body: "G dm = Inr mv \<longleftrightarrow>
        dims_ok (int (length rows)) dm \<and> mv = build_mv (int (length rows)) dm (concat rows) None" if r: "?rows rows dm" for rows dm
    proof (cases "dims_ok (int (length rows)) dm")
      case True
      show ?thesis using r copy_rows [of rows dm] mv_size_ok [OF True] sz [of rows dm, OF _ True] True
        by (auto simp: build_mv_def Let_def G_def)
    next
      case False
      then show ?thesis using mv_size_err [OF False] r by (auto simp: G_def)
    qed
    have "pgturbohybrid_multivector_constructor (Some a) = Inr mv \<longleftrightarrow>
        (\<exists>r. foldE same_dim (arr_elements a) None = Inr r \<and> G (case r of None \<Rightarrow> 0 | Some d \<Rightarrow> d) = Inr mv)"
      unfolding pgturbohybrid_multivector_constructor_def G_def Let_def using True
      by (simp add: bindE_Inr_iff [where m = "foldE same_dim (arr_elements a) None"])
    also have "\<dots> \<longleftrightarrow> (\<exists>rows dm. ?rows rows dm \<and> G dm = Inr mv)" using found True by (simp only: ex_found' option.case simp_thms)
    also have "\<dots> \<longleftrightarrow> (\<exists>rows dm. ?rows rows dm \<and> dims_ok (int (length rows)) dm \<and> mv = build_mv (int (length rows)) dm (concat rows) None)"
      using body by (intro ex_body) (simp add: conj_assoc)
    finally show ?thesis using True by blast
  qed (auto simp: pgturbohybrid_multivector_constructor_def bindE_Inr_iff)
  also have "\<dots> \<longleftrightarrow> (\<exists>rows dm. (arr_ndim a \<noteq> 0 \<and> arr_typed a \<and> arr_elements a \<noteq> [] \<and> ?rows rows dm) \<and>
      dims_ok (int (length rows)) dm \<and> mv = build_mv (int (length rows)) dm (concat rows) None)" by blast
  also have "\<dots> \<longleftrightarrow> (\<exists>rows dm. (arr_ndim a \<noteq> 0 \<and> arr_typed a \<and> arr_elements a \<noteq> [] \<and> ?rows rows dm) \<and>
      mv_contents_ok (int (length rows)) dm (concat rows) None \<and> mv = build_mv (int (length rows)) dm (concat rows) None)"
    by (intro ex_cong1 conj_cong refl) (use finish in blast)
  finally show ?thesis unfolding arr conj_assoc .
qed

text \<open>The rows of a value built from vectors are those vectors.\<close>

lemma nth_row:
  assumes "\<forall>q \<in> set rows. length q = d" "i < length rows"
  shows "take d (drop (i * d) (concat rows)) = rows ! i"
  using assms
proof (induction rows arbitrary: i)
  case (Cons r rows)
  then show ?case by (cases i) auto
qed simp

lemma subvector_of_rows:
  assumes rows: "\<forall>q \<in> set rows. vector_ok q \<and> int (length q) = dm"
    and ok: "mv_contents_ok (int (length rows)) dm (concat rows) None" and i: "i < length rows"
  shows "PgturbohybridMultiVectorSubvectorCopy (build_mv (int (length rows)) dm (concat rows) None) (int i) =
    Inr (build_vector (rows ! i))"
proof -
  let ?mv = "build_mv (int (length rows)) dm (concat rows) None"
  have q: "vector_ok (rows ! i)" "dm = int (length (rows ! i))" "\<forall>q \<in> set rows. length q = nat dm" using rows i by auto
  have v: "PgturbohybridMultiVectorValues ?mv (int i) = Inr (rows ! i)"
    using build_check [OF ok] nth_row [OF q(3) i] i
    by (simp add: PgturbohybridMultiVectorValues_def build_mv_unfold context_tail_def)
  have "\<lparr>v_size = VECTOR_SIZE dm, v_dim = word_of_int dm, v_unused = 0, v_x = rows ! i\<rparr> = build_vector (rows ! i)"
    using q(2) by (simp add: build_vector_def VECTOR_SIZE_def)
  then show ?thesis using build_check [OF ok] v q(1) i
    by (simp add: PgturbohybridMultiVectorSubvectorCopy_def Let_def) (simp add: build_mv_unfold)
qed

lemma mapE_all: "\<forall>x \<in> set xs. g x = Inr (h x) \<Longrightarrow> mapE g xs = Inr (map h xs)"
  by (induction xs) auto

text \<open>
  Vectors survive the trip through a multivector: an array of vectors that the constructor
  accepts comes back from \<open>to_vector_array\<close> element by element and bit for bit.
\<close>

theorem multivector_vectors_roundtrip:
  assumes mem: "\<forall>v. Some v \<in> set (arr_elements a) \<longrightarrow> vector_memory v"
    and built: "pgturbohybrid_multivector_constructor (Some a) = Inr mv"
  shows "\<exists>b. pgturbohybrid_multivector_to_vector_array mv = Inr b \<and> arr_elements b = arr_elements a \<and> arr_typed b \<and> arr_ndim b = 1"
proof -
  obtain rows dm where r: "is_array (map build_vector rows) a" "\<forall>q \<in> set rows. vector_ok q \<and> int (length q) = dm"
    "mv_contents_ok (int (length rows)) dm (concat rows) None" "mv = build_mv (int (length rows)) dm (concat rows) None"
    using built constructor_iff [OF mem] by blast
  have n: "nat (mv_count mv) = length rows" by (simp add: r(4) build_mv_unfold)
  have nm: "map (\<lambda>i. build_vector (rows ! i)) [0..<length rows] = map build_vector rows"
    by (rule nth_equalityI) simp_all
  have "mapE (\<lambda>i. PgturbohybridMultiVectorSubvectorCopy mv (int i)) [0..<length rows] = Inr (map build_vector rows)"
    using mapE_all [of "[0..<length rows]" "\<lambda>i. PgturbohybridMultiVectorSubvectorCopy mv (int i)" "\<lambda>i. build_vector (rows ! i)"]
      subvector_of_rows [OF r(2,3)] nm r(4) by simp
  then show ?thesis using r(1) build_check [OF r(3)] n
    by (simp add: pgturbohybrid_multivector_to_vector_array_def array_of_def is_array_def r(4) [symmetric])
qed

definition multivector_result :: "multivector res \<Rightarrow> bool" where
  "multivector_result r \<longleftrightarrow> (\<forall>mv. r = Inr mv \<longrightarrow>
     (\<exists>floats ctx. mv_contents_ok (mv_count mv) (mv_dim mv) floats ctx \<and> mv = build_mv (mv_count mv) (mv_dim mv) floats ctx))"

lemma build_result:
  assumes "mv_contents_ok cnt dm floats ctx" "mv = build_mv cnt dm floats ctx"
  shows "\<exists>floats ctx. mv_contents_ok (mv_count mv) (mv_dim mv) floats ctx \<and> mv = build_mv (mv_count mv) (mv_dim mv) floats ctx"
proof -
  have "mv_count mv = cnt" "mv_dim mv = dm" using assms(2) by (simp_all add: build_mv_unfold)
  then show ?thesis using assms by blast
qed

text \<open>The binary reader ends with the check, on a value whose memory holds what its size says.\<close>

lemma getmsgints_length: "pq_getmsgints n buf = Inr (ws, rest1) \<Longrightarrow> length ws = n"
  by (induction n arbitrary: buf ws) (auto simp: bindE_Inr_iff)

lemma recv_tail:
  assumes "(if flags AND FLAG_CONTEXTS \<noteq> 0
        then bindE (pq_getmsgint buf4) (\<lambda>(contextWord, buf5).
             bindE (ensure (2 \<le> sint formatVersion) ERRCODE_FEATURE_NOT_SUPPORTED
                      ''context-aware multivector requires binary format version 2'') (\<lambda>_.
             bindE (PgturbohybridMultiVectorExtendedSize cnt dm (sint contextWord) hasFields) (\<lambda>resultSize.
             bindE (pq_getmsgints (nat (sint contextWord)) buf5) (\<lambda>(offs, buf6).
             bindE (if hasFields then pq_getmsgints (nat (sint contextWord)) buf6 else Inr ([], buf6)) (\<lambda>(fids, buf7).
               Inr (resultSize, contextWord # offs @ fids, buf7))))))
        else bindE (PgturbohybridMultiVectorSize cnt dm) (\<lambda>resultSize. Inr (resultSize, [], buf4))) = Inr (resultSize, tail, buf8)"
  shows "resultSize = 16 + 4 * (nat cnt * nat dm) + 4 * length tail"
proof (cases "flags AND FLAG_CONTEXTS \<noteq> 0")
  case True
  then obtain cw buf5 offs buf6 fids where s: "PgturbohybridMultiVectorExtendedSize cnt dm (sint cw) hasFields = Inr resultSize"
    "pq_getmsgints (nat (sint cw)) buf5 = Inr (offs, buf6)"
    "(if hasFields then pq_getmsgints (nat (sint cw)) buf6 else Inr ([], buf6)) = Inr (fids, buf8)" "tail = cw # offs @ fids"
    using assms by (auto simp: bindE_Inr_iff)
  have ok: "dims_ok cnt dm \<and> 0 < sint cw \<and> sint cw \<le> cnt" using extended_size_err [of cnt dm "sint cw" hasFields] s(1) by fastforce
  then have "resultSize = 16 + 4 * (nat cnt * nat dm) + 4 + 4 * nat (sint cw) + (if hasFields then 4 * nat (sint cw) else 0)"
    using s(1) by (simp add: extended_size_ok)
  moreover have "length fids = (if hasFields then nat (sint cw) else 0)" using s(3) by (auto dest: getmsgints_length split: if_splits)
  ultimately show ?thesis using getmsgints_length [OF s(2)] s(4) by simp
next
  case False
  then have s: "PgturbohybridMultiVectorSize cnt dm = Inr resultSize" "tail = []" using assms by (auto simp: bindE_Inr_iff)
  then have "dims_ok cnt dm" using mv_size_err [of cnt dm] by fastforce
  then show ?thesis using s by (simp add: mv_size_ok)
qed

lemma recv_result: "multivector_result (pgturbohybrid_multivector_recv buf)"
  unfolding multivector_result_def
proof (intro allI impI)
  fix mv assume r: "pgturbohybrid_multivector_recv buf = Inr mv"
  from r obtain formatVersion dimWord countWord :: u32 and flags buf4 n resultSize tail buf8 floats buf9 and u :: unit where
    n: "PgturbohybridMultiVectorFloatCount (sint countWord) (sint dimWord) = Inr n"
    and t: "(if flags AND FLAG_CONTEXTS \<noteq> 0
        then bindE (pq_getmsgint buf4) (\<lambda>(contextWord, buf5).
             bindE (ensure (2 \<le> sint formatVersion) ERRCODE_FEATURE_NOT_SUPPORTED
                      ''context-aware multivector requires binary format version 2'') (\<lambda>_.
             bindE (PgturbohybridMultiVectorExtendedSize (sint countWord) (sint dimWord) (sint contextWord) (flags AND FLAG_FIELDS \<noteq> 0)) (\<lambda>resultSize.
             bindE (pq_getmsgints (nat (sint contextWord)) buf5) (\<lambda>(offs, buf6).
             bindE (if flags AND FLAG_FIELDS \<noteq> 0 then pq_getmsgints (nat (sint contextWord)) buf6 else Inr ([], buf6)) (\<lambda>(fids, buf7).
               Inr (resultSize, contextWord # offs @ fids, buf7))))))
        else bindE (PgturbohybridMultiVectorSize (sint countWord) (sint dimWord)) (\<lambda>resultSize. Inr (resultSize, [], buf4))) = Inr (resultSize, tail, buf8)"
    and f: "pq_getmsgints n buf8 = Inr (floats, buf9)"
    and check: "PgturbohybridCheckMultiVector (Some \<lparr>mv_size = resultSize, mv_dim = sint dimWord, mv_count = sint countWord, mv_flags = flags, mv_words = floats @ tail\<rparr>) = Inr u"
    and eq: "(Inr \<lparr>mv_size = resultSize, mv_dim = sint dimWord, mv_count = sint countWord, mv_flags = flags, mv_words = floats @ tail\<rparr> :: multivector res) = Inr mv"
    unfolding pgturbohybrid_multivector_recv_def Let_def bindE_Inr_iff split_paired_Ex prod.case by (elim exE conjE) (rule that, assumption+)
  have mv: "mv = \<lparr>mv_size = resultSize, mv_dim = sint dimWord, mv_count = sint countWord, mv_flags = flags, mv_words = floats @ tail\<rparr>" using eq by simp
  have "dims_ok (sint countWord) (sint dimWord)" using float_count_err n by fastforce
  then have "n = nat (sint countWord) * nat (sint dimWord)" using n float_count_ok by simp
  then have "length (floats @ tail) = (resultSize - 16) div 4" using recv_tail [OF t] getmsgints_length [OF f] by simp
  moreover have "sint w \<in> {- (2 ^ 31) ..< 2 ^ 31}" for w :: u32 using sint_ge [of w] sint_lt [of w] by simp
  ultimately have "mv_memory mv" by (simp add: mv_memory_def mv del: length_append)
  then show "\<exists>floats ctx. mv_contents_ok (mv_count mv) (mv_dim mv) floats ctx \<and> mv = build_mv (mv_count mv) (mv_dim mv) floats ctx"
    by (rule check_gives_contents) (simp add: mv check)
qed

text \<open>
  C37. Whatever arrays the SQL constructors are given and whatever message the binary reader reads, they never
  return a malformed value: each result is well formed, so it passes the check with which every other function starts.
\<close>

theorem multivector_constructors_typed:
  assumes "\<forall>v. Some v \<in> set (arr_elements vs) \<longrightarrow> vector_memory v"
  shows "multivector_result (pgturbohybrid_multivector_constructor (Some vs)) \<and>
    multivector_result (pgturbohybrid_multivector_from_float4 (Some a) dm) \<and>
    multivector_result (pgturbohybrid_multivector_from_contexts (Some a) dm (Some c)) \<and>
    multivector_result (pgturbohybrid_multivector_from_contexts_and_fields (Some a) dm (Some c) (Some f)) \<and>
    multivector_result (pgturbohybrid_multivector_recv buf)"
  using recv_result build_result
  unfolding multivector_result_def constructor_iff [OF assms] from_float4_iff from_contexts_iff from_contexts_and_fields_iff by blast

definition demo_vectors :: "Vector pg_array" where
  "demo_vectors = \<lparr>arr_ndim = 1, arr_typed = True,
     arr_elements = [Some (build_vector [0x3F800000, 0]), Some (build_vector [0, 0x40000000])]\<rparr>"

lemma demo_vectors_memory: "\<forall>v. Some v \<in> set (arr_elements demo_vectors) \<longrightarrow> vector_memory v"
  by (simp add: demo_vectors_def vector_memory_def)

lemma demo_vectors_built:
  "pgturbohybrid_multivector_constructor (Some demo_vectors) =
   Inr \<lparr>mv_size = 32, mv_dim = 2, mv_count = 2, mv_flags = 0, mv_words = [0x3F800000, 0, 0, 0x40000000]\<rparr>"
  unfolding constructor_iff [OF demo_vectors_memory]
  by (intro exI [of _ "[[0x3F800000, 0], [0, 0x40000000]]"] exI [of _ 2])
    (simp add: demo_vectors_def is_array_def vector_ok_def isfinite_bits_def mv_contents_ok_def dims_ok_def build_mv_def
      MULTIVECTOR_MAX_DIM_def MULTIVECTOR_MAX_COUNT_def)

theorem multivector_vectors_roundtrip_witness:
  "\<exists>b. pgturbohybrid_multivector_to_vector_array
     \<lparr>mv_size = 32, mv_dim = 2, mv_count = 2, mv_flags = 0, mv_words = [0x3F800000, 0, 0, 0x40000000]\<rparr> = Inr b \<and>
     arr_elements b = arr_elements demo_vectors"
  using multivector_vectors_roundtrip [OF demo_vectors_memory demo_vectors_built] by blast

theorem multivector_constructors_typed_witness:
  "multivector_result (Inr \<lparr>mv_size = 32, mv_dim = 2, mv_count = 2, mv_flags = 0, mv_words = [0x3F800000, 0, 0, 0x40000000]\<rparr>)"
  using multivector_constructors_typed [OF demo_vectors_memory] demo_vectors_built by simp

end
