(* ===== verification/Multivector_Sim.thy ===== *)
theory Multivector_Sim
  imports Multivector_Build Bm25_Scan
begin

text \<open>
  Late-interaction scores of multivectors (\<open>pgturbohybrid_multivector.c\<close>): the plain and the
  blocked maximum-similarity sum, the symmetric average, and the variants weighted by query
  token, split by context, and weighted by field. The kernels are those of a scalar build; the
  dot product of a kernel is a parameter where the C code passes it as a function pointer.
  The operations of doubles are the parameters of \<open>fpu\<close>, so equalities hold however they round.
\<close>

type_synonym dotp = "u32 list \<Rightarrow> u32 list \<Rightarrow> int \<Rightarrow> cdouble"
type_synonym block_dotp = "u32 list \<Rightarrow> u32 list \<Rightarrow> int \<Rightarrow> int \<Rightarrow> cdouble list"

definition BLOCKED_SCALAR_Q :: nat where "BLOCKED_SCALAR_Q = 8"

text \<open>\<open>values + ordinal * dim\<close>: the floats from this token on.\<close>

definition row :: "multivector \<Rightarrow> nat \<Rightarrow> u32 list" where
  "row mv i = drop (i * nat (mv_dim mv)) (mv_words mv)"

definition TqDotProductF32Scalar :: "fpu \<Rightarrow> dotp" where
  "TqDotProductF32Scalar f a b dm =
     foldl (\<lambda>result i. f_add f result (f_mul f (float4_of_bits (a ! i)) (float4_of_bits (b ! i)))) (Fin 0) [0..<nat dm]"

definition keep_best :: "cdouble \<Rightarrow> cdouble \<Rightarrow> cdouble" where
  \<comment> \<open>\<open>if (dot > best) best = dot\<close>\<close>
  "keep_best best dot = (if dless best dot then dot else best)"

definition best_dot :: "dotp \<Rightarrow> multivector \<Rightarrow> multivector \<Rightarrow> nat \<Rightarrow> nat list \<Rightarrow> cdouble" where
  "best_dot dot query doc qi tokens =
     foldl (\<lambda>best di. keep_best best (dot (row query qi) (row doc di) (mv_dim query))) NegInf tokens"

definition TqMultiVectorMaxSimWithDot :: "fpu \<Rightarrow> dotp \<Rightarrow> multivector \<Rightarrow> multivector \<Rightarrow> cdouble res" where
  "TqMultiVectorMaxSimWithDot f dot query doc =
     bindE (PgturbohybridCheckSameMultiVectorDims query doc) (\<lambda>_.
       Inr (foldl (\<lambda>score qi. f_add f score (best_dot dot query doc qi [0..<nat (mv_count doc)]))
              (Fin 0) [0..<nat (mv_count query)]))"

text \<open>The blocked form: eight query tokens share one pass over the document.\<close>

definition block_token :: "dotp \<Rightarrow> multivector \<Rightarrow> multivector \<Rightarrow> nat \<Rightarrow> nat \<Rightarrow> cdouble list \<Rightarrow> nat \<Rightarrow> cdouble list" where
  "block_token dot query doc qb blockCount best di =
     foldl (\<lambda>best qi. best[qi := keep_best (best ! qi) (dot (row query (qb + qi)) (row doc di) (mv_dim query))])
       best [0..<blockCount]"

function maxsim_blocks :: "fpu \<Rightarrow> dotp \<Rightarrow> multivector \<Rightarrow> multivector \<Rightarrow> nat \<Rightarrow> cdouble \<Rightarrow> cdouble" where
  "maxsim_blocks f dot query doc qb score =
     (if qb < nat (mv_count query)
      then let blockCount = min (nat (mv_count query) - qb) BLOCKED_SCALAR_Q;
               best = foldl (block_token dot query doc qb blockCount) (replicate blockCount NegInf) [0..<nat (mv_count doc)]
           in maxsim_blocks f dot query doc (qb + BLOCKED_SCALAR_Q)
                (foldl (\<lambda>score qi. f_add f score (best ! qi)) score [0..<blockCount])
      else score)"
  by auto
termination
  by (relation "measure (\<lambda>(f, dot, query, doc, qb, score). nat (mv_count query) - qb)") (auto simp: BLOCKED_SCALAR_Q_def)

declare maxsim_blocks.simps [simp del]

definition TqMultiVectorMaxSimBlockedWithDot :: "fpu \<Rightarrow> dotp \<Rightarrow> multivector \<Rightarrow> multivector \<Rightarrow> cdouble res" where
  "TqMultiVectorMaxSimBlockedWithDot f dot query doc =
     bindE (PgturbohybridCheckSameMultiVectorDims query doc) (\<lambda>_. Inr (maxsim_blocks f dot query doc 0 (Fin 0)))"

definition TqMultiVectorMaxSimScalar :: "fpu \<Rightarrow> multivector \<Rightarrow> multivector \<Rightarrow> cdouble res" where
  "TqMultiVectorMaxSimScalar f = TqMultiVectorMaxSimWithDot f (TqDotProductF32Scalar f)"

definition TqMultiVectorMaxSimBlockedScalar :: "fpu \<Rightarrow> multivector \<Rightarrow> multivector \<Rightarrow> cdouble res" where
  "TqMultiVectorMaxSimBlockedScalar f = TqMultiVectorMaxSimBlockedWithDot f (TqDotProductF32Scalar f)"

definition TqMultiVectorMaxSim :: "fpu \<Rightarrow> bool \<Rightarrow> multivector \<Rightarrow> multivector \<Rightarrow> cdouble res" where
  "TqMultiVectorMaxSim f force_scalar =
     (if force_scalar then TqMultiVectorMaxSimScalar f else TqMultiVectorMaxSimBlockedScalar f)"

lemma foldl_updates:
  assumes "n \<le> length xs"
  shows "foldl (\<lambda>xs i. xs[i := g i (xs ! i)]) xs [0..<n] = map (\<lambda>i. g i (xs ! i)) [0..<n] @ drop n xs"
  using assms
proof (induction n)
  case (Suc n)
  have "drop n xs = xs ! n # drop (Suc n) xs" using Suc.prems by (simp add: Cons_nth_drop_Suc)
  then show ?case using Suc by (simp add: nth_append list_update_append)
qed simp

text \<open>One pass over the document finds the best dot product of every token of the block.\<close>

lemma block_pass:
  "foldl (block_token dot query doc qb n) (map h [0..<n]) tokens =
   map (\<lambda>qi. foldl (\<lambda>best di. keep_best best (dot (row query (qb + qi)) (row doc di) (mv_dim query))) (h qi) tokens) [0..<n]"
proof (induction tokens arbitrary: h)
  case (Cons di tokens)
  have "block_token dot query doc qb n (map h [0..<n]) di =
      map (\<lambda>qi. keep_best (h qi) (dot (row query (qb + qi)) (row doc di) (mv_dim query))) [0..<n]"
    unfolding block_token_def by (subst foldl_updates) (auto intro!: map_cong)
  then show ?case by (simp only: foldl_Cons Cons.IH)
qed simp

lemma block_best:
  "foldl (block_token dot query doc qb n) (replicate n NegInf) tokens = map (\<lambda>qi. best_dot dot query doc (qb + qi) tokens) [0..<n]"
  using block_pass [of dot query doc qb n "\<lambda>_. NegInf" tokens] by (simp add: best_dot_def map_replicate_const)

lemma foldl_shift: "foldl (\<lambda>s i. g s (h (qb + i))) s [0..<n] = foldl (\<lambda>s i. g s (h i)) s [qb..<qb + n]"
  by (induction n) simp_all

lemma blocks_eq:
  "maxsim_blocks f dot query doc qb score =
   foldl (\<lambda>score qi. f_add f score (best_dot dot query doc qi [0..<nat (mv_count doc)])) score [qb..<nat (mv_count query)]"
proof (induction "nat (mv_count query) - qb" arbitrary: qb score rule: less_induct)
  case less
  let ?n = "nat (mv_count query)" and ?step = "\<lambda>score qi. f_add f score (best_dot dot query doc qi [0..<nat (mv_count doc)])"
  show ?case
  proof (cases "qb < ?n")
    case True
    define m where "m = min (?n - qb) BLOCKED_SCALAR_Q"
    have m: "m \<le> ?n - qb" "qb + m = ?n \<or> qb + m = qb + BLOCKED_SCALAR_Q" using True by (auto simp: m_def min_def)
    have split: "[qb..<?n] = [qb..<qb + m] @ [qb + m..<?n]" 
      using upt_add_eq_append [of qb "qb + m" "?n - (qb + m)"] m(1) True by simp
    have tail: "[qb + BLOCKED_SCALAR_Q..<?n] = [qb + m..<?n]" using m(2) by (auto simp: m_def)
    let ?best = "foldl (block_token dot query doc qb m) (replicate m NegInf) [0..<nat (mv_count doc)]"
    have sum: "foldl (\<lambda>score qi. f_add f score (?best ! qi)) score [0..<m] = foldl ?step score [qb..<qb + m]"
      unfolding block_best foldl_shift [of "f_add f" "\<lambda>qi. best_dot dot query doc qi [0..<nat (mv_count doc)]" qb score m, symmetric]
      by (rule foldl_cong) simp_all
    have "maxsim_blocks f dot query doc qb score = maxsim_blocks f dot query doc (qb + BLOCKED_SCALAR_Q) (foldl ?step score [qb..<qb + m])"
      using True by (subst maxsim_blocks.simps) (simp only: Let_def m_def [symmetric] sum if_True)
    also have "\<dots> = foldl ?step (foldl ?step score [qb..<qb + m]) [qb + BLOCKED_SCALAR_Q..<?n]"
      using True by (intro less.hyps) (simp add: BLOCKED_SCALAR_Q_def)
    finally show ?thesis unfolding split tail foldl_append .
  qed (simp add: maxsim_blocks.simps)
qed

text \<open>
  C38. The blocked kernel returns exactly what the plain double loop returns, error or score, for
  every dot product and every rounding of the additions: the order of the additions is the same.
\<close>

theorem maxsim_blocked_equiv:
  "TqMultiVectorMaxSimBlockedWithDot f dot query doc = TqMultiVectorMaxSimWithDot f dot query doc"
  by (simp add: TqMultiVectorMaxSimBlockedWithDot_def TqMultiVectorMaxSimWithDot_def blocks_eq)

lemma maxsim_any: "TqMultiVectorMaxSim f force = TqMultiVectorMaxSimScalar f"
  by (simp add: TqMultiVectorMaxSim_def TqMultiVectorMaxSimBlockedScalar_def TqMultiVectorMaxSimScalar_def
      maxsim_blocked_equiv fun_eq_iff)

section \<open>The symmetric average\<close>

definition TqDotProductF32BlockScalar :: "fpu \<Rightarrow> block_dotp" where
  "TqDotProductF32BlockScalar f queryValues docValues dm blockCount =
     map (\<lambda>qi. TqDotProductF32Scalar f (drop (qi * nat dm) queryValues) docValues dm) [0..<nat blockCount]"

definition offer_dots :: "nat \<Rightarrow> nat \<Rightarrow> cdouble list \<Rightarrow> nat \<Rightarrow> cdouble list \<times> cdouble list \<Rightarrow> cdouble list \<times> cdouble list" where
  "offer_dots ab blockCount dots bi =
     (\<lambda>bests. foldl (\<lambda>(bestA, bestB) ai.
        (bestA[ab + ai := keep_best (bestA ! (ab + ai)) (dots ! ai)], bestB[bi := keep_best (bestB ! bi) (dots ! ai)]))
        bests [0..<blockCount])"

definition symmetric_block ::
    "dotp \<Rightarrow> block_dotp \<Rightarrow> multivector \<Rightarrow> multivector \<Rightarrow> nat \<Rightarrow> nat \<Rightarrow> cdouble list \<times> cdouble list \<Rightarrow> cdouble list \<times> cdouble list" where
  "symmetric_block dot blockDot a b ab blockCount bests =
     foldl (\<lambda>bests bi.
        let dots = (if blockCount = 1 then [dot (row a ab) (row b bi) (mv_dim a)]
                    else blockDot (row a ab) (row b bi) (mv_dim a) (int blockCount))
        in offer_dots ab blockCount dots bi bests) bests [0..<nat (mv_count b)]"

function symmetric_blocks ::
    "dotp \<Rightarrow> block_dotp \<Rightarrow> multivector \<Rightarrow> multivector \<Rightarrow> nat \<Rightarrow> cdouble list \<times> cdouble list \<Rightarrow> cdouble list \<times> cdouble list" where
  "symmetric_blocks dot blockDot a b ab bests =
     (if ab < nat (mv_count a)
      then symmetric_blocks dot blockDot a b (ab + BLOCKED_SCALAR_Q)
             (symmetric_block dot blockDot a b ab (min (nat (mv_count a) - ab) BLOCKED_SCALAR_Q) bests)
      else bests)"
  by auto
termination
  by (relation "measure (\<lambda>(dot, blockDot, a, b, ab, bests). nat (mv_count a) - ab)") (auto simp: BLOCKED_SCALAR_Q_def)

declare symmetric_blocks.simps [simp del]

definition TqMultiVectorSymmetricMaxSimAverageWithDotUnchecked ::
    "fpu \<Rightarrow> dotp \<Rightarrow> block_dotp \<Rightarrow> multivector \<Rightarrow> multivector \<Rightarrow> cdouble" where
  "TqMultiVectorSymmetricMaxSimAverageWithDotUnchecked f dot blockDot a b =
     (let (bestA, bestB) = symmetric_blocks dot blockDot a b 0
            (replicate (nat (mv_count a)) NegInf, replicate (nat (mv_count b)) NegInf);
          sumA = foldl (\<lambda>s ai. f_add f s (bestA ! ai)) (Fin 0) [0..<nat (mv_count a)];
          sumB = foldl (\<lambda>s bi. f_add f s (bestB ! bi)) (Fin 0) [0..<nat (mv_count b)]
      in f_mul f (Fin (1 / 2)) (f_add f (f_div f sumA (Fin (of_int (mv_count a)))) (f_div f sumB (Fin (of_int (mv_count b))))))"

definition TqMultiVectorSymmetricMaxSimAverageWithDot ::
    "fpu \<Rightarrow> dotp \<Rightarrow> block_dotp \<Rightarrow> multivector \<Rightarrow> multivector \<Rightarrow> cdouble res" where
  "TqMultiVectorSymmetricMaxSimAverageWithDot f dot blockDot a b =
     bindE (PgturbohybridCheckSameMultiVectorDims a b) (\<lambda>_.
       Inr (TqMultiVectorSymmetricMaxSimAverageWithDotUnchecked f dot blockDot a b))"

definition TqMultiVectorSymmetricMaxSimAverage :: "fpu \<Rightarrow> multivector \<Rightarrow> multivector \<Rightarrow> cdouble res" where
  "TqMultiVectorSymmetricMaxSimAverage f =
     TqMultiVectorSymmetricMaxSimAverageWithDot f (TqDotProductF32Scalar f) (TqDotProductF32BlockScalar f)"

text \<open>The best dot products after the first \<open>n\<close> tokens of \<open>a\<close>: of each of them, and of each token of \<open>b\<close>.\<close>

definition best_a :: "dotp \<Rightarrow> multivector \<Rightarrow> multivector \<Rightarrow> nat \<Rightarrow> nat list \<Rightarrow> cdouble" where
  "best_a dot a b ai bis = foldl (\<lambda>best bi. keep_best best (dot (row a ai) (row b bi) (mv_dim a))) NegInf bis"

definition best_b :: "dotp \<Rightarrow> multivector \<Rightarrow> multivector \<Rightarrow> nat list \<Rightarrow> nat \<Rightarrow> cdouble" where
  "best_b dot a b ais bi = foldl (\<lambda>best ai. keep_best best (dot (row a ai) (row b bi) (mv_dim a))) NegInf ais"

definition block_agrees :: "dotp \<Rightarrow> block_dotp \<Rightarrow> multivector \<Rightarrow> multivector \<Rightarrow> bool" where
  \<comment> \<open>the block kernel computes the dot products of the tokens that follow each other\<close>
  "block_agrees dot blockDot a b \<longleftrightarrow> (\<forall>ab n bi. blockDot (row a ab) (row b bi) (mv_dim a) (int n) =
     map (\<lambda>i. dot (row a (ab + i)) (row b bi) (mv_dim a)) [0..<n])"

lemma scalar_block_agrees: "block_agrees (TqDotProductF32Scalar f) (TqDotProductF32BlockScalar f) a b"
  by (auto simp: block_agrees_def TqDotProductF32BlockScalar_def row_def algebra_simps)

lemma offer_dots_result:
  assumes "ab + n \<le> length A" "bi < length B" "length ds = n"
  shows "offer_dots ab n ds bi (A, B) =
    (map (\<lambda>i. if ab \<le> i \<and> i < ab + n then keep_best (A ! i) (ds ! (i - ab)) else A ! i) [0..<length A],
     B[bi := foldl keep_best (B ! bi) ds])"
proof -
  have "foldl (\<lambda>(bestA, bestB) ai. (bestA[ab + ai := keep_best (bestA ! (ab + ai)) (ds ! ai)], bestB[bi := keep_best (bestB ! bi) (ds ! ai)]))
      (A, B) [0..<m] =
    (map (\<lambda>i. if ab \<le> i \<and> i < ab + m then keep_best (A ! i) (ds ! (i - ab)) else A ! i) [0..<length A],
     B[bi := foldl keep_best (B ! bi) (take m ds)])" if "m \<le> n" for m
    using that
  proof (induction m)
    case 0
    have "A = map (\<lambda>i. if ab \<le> i \<and> i < ab then keep_best (A ! i) (ds ! (i - ab)) else A ! i) [0..<length A]"
      by (rule nth_equalityI) auto
    then show ?case by simp
  next
    case (Suc m)
    let ?A = "\<lambda>m. map (\<lambda>i. if ab \<le> i \<and> i < ab + m then keep_best (A ! i) (ds ! (i - ab)) else A ! i) [0..<length A]"
    have tk: "take (Suc m) ds = take m ds @ [ds ! m]" using Suc.prems assms(3) by (simp add: take_Suc_conv_app_nth)
    have a: "(?A m)[ab + m := keep_best (?A m ! (ab + m)) (ds ! m)] = ?A (Suc m)"
    proof (rule nth_equalityI)
      fix i assume "i < length ((?A m)[ab + m := keep_best (?A m ! (ab + m)) (ds ! m)])"
      then show "(?A m)[ab + m := keep_best (?A m ! (ab + m)) (ds ! m)] ! i = ?A (Suc m) ! i"
        using Suc.prems assms(1) by (cases "i = ab + m") (auto simp: nth_list_update)
    qed simp
    have b: "(B[bi := x])[bi := keep_best (B[bi := x] ! bi) (ds ! m)] = B[bi := keep_best x (ds ! m)]" for x
      using assms(2) by simp
    show ?case unfolding upt_Suc_append [OF le0] foldl_append Suc.IH [OF Suc_leD [OF Suc.prems]] foldl_Cons foldl_Nil prod.case a b tk ..
  qed
  from this [of n] show ?thesis using assms(3) by (simp add: offer_dots_def)
qed

lemma best_b_append: "best_b dot a b (xs @ ys) bi = foldl keep_best (best_b dot a b xs bi) (map (\<lambda>ai. dot (row a ai) (row b bi) (mv_dim a)) ys)"
  by (simp add: best_b_def foldl_map)

text \<open>A block of tokens of \<open>a\<close>: the bests of its tokens start empty, those of \<open>b\<close> hold the tokens before it.\<close>

lemma symmetric_block_result:
  assumes agree: "block_agrees dot blockDot a b" and n: "ab + n \<le> length A" "0 < n" and fresh: "\<forall>i. ab \<le> i \<and> i < ab + n \<longrightarrow> A ! i = NegInf"
  shows "symmetric_block dot blockDot a b ab n (A, map (best_b dot a b [0..<ab]) [0..<nat (mv_count b)]) =
    (map (\<lambda>i. if ab \<le> i \<and> i < ab + n then best_a dot a b i [0..<nat (mv_count b)] else A ! i) [0..<length A],
     map (best_b dot a b [0..<ab + n]) [0..<nat (mv_count b)])"
proof -
  let ?ds = "\<lambda>bi. map (\<lambda>i. dot (row a (ab + i)) (row b bi) (mv_dim a)) [0..<n]"
  define body where "body = (\<lambda>bests bi. let dots = (if n = 1 then [dot (row a ab) (row b bi) (mv_dim a)]
      else blockDot (row a ab) (row b bi) (mv_dim a) (int n)) in offer_dots ab n dots bi bests)"
  have dots: "(if n = 1 then [dot (row a ab) (row b bi) (mv_dim a)] else blockDot (row a ab) (row b bi) (mv_dim a) (int n)) = ?ds bi" for bi
    using agree [unfolded block_agrees_def, rule_format, of ab bi n] by simp
  have ext: "foldl keep_best (best_b dot a b [0..<ab] bi) (?ds bi) = best_b dot a b [0..<ab + n] bi" for bi
  proof -
    have "[0..<ab + n] = [0..<ab] @ map ((+) ab) [0..<n]" by (induction n) simp_all
    then show ?thesis by (simp only: best_b_append map_map comp_def)
  qed
  have "foldl body (A, map (best_b dot a b [0..<ab]) [0..<nat (mv_count b)]) [0..<m] =
      (map (\<lambda>i. if ab \<le> i \<and> i < ab + n then best_a dot a b i [0..<m] else A ! i) [0..<length A],
       map (\<lambda>bi. if bi < m then best_b dot a b [0..<ab + n] bi else best_b dot a b [0..<ab] bi) [0..<nat (mv_count b)])"
    if "m \<le> nat (mv_count b)" for m
    using that
  proof (induction m)
    case 0
    have "A = map (\<lambda>i. if ab \<le> i \<and> i < ab + n then best_a dot a b i [0..<0] else A ! i) [0..<length A]"
      using fresh by (intro nth_equalityI) (auto simp: best_a_def)
    then show ?case by simp
  next
    case (Suc m)
    let ?A = "map (\<lambda>i. if ab \<le> i \<and> i < ab + n then best_a dot a b i [0..<m] else A ! i) [0..<length A]"
    let ?B = "map (\<lambda>bi. if bi < m then best_b dot a b [0..<ab + n] bi else best_b dot a b [0..<ab] bi) [0..<nat (mv_count b)]"
    have "body (?A, ?B) m = offer_dots ab n (?ds m) m (?A, ?B)" by (simp only: body_def dots Let_def)
    also have "\<dots> = (map (\<lambda>i. if ab \<le> i \<and> i < ab + n then keep_best (?A ! i) (?ds m ! (i - ab)) else ?A ! i) [0..<length ?A],
        ?B[m := foldl keep_best (?B ! m) (?ds m)])"
      using n Suc.prems by (intro offer_dots_result) simp_all
    also have "map (\<lambda>i. if ab \<le> i \<and> i < ab + n then keep_best (?A ! i) (?ds m ! (i - ab)) else ?A ! i) [0..<length ?A] =
        map (\<lambda>i. if ab \<le> i \<and> i < ab + n then best_a dot a b i [0..<Suc m] else A ! i) [0..<length A]"
      using n by (auto simp: best_a_def)
    also have "?B[m := foldl keep_best (?B ! m) (?ds m)] =
        map (\<lambda>bi. if bi < Suc m then best_b dot a b [0..<ab + n] bi else best_b dot a b [0..<ab] bi) [0..<nat (mv_count b)]"
      using Suc.prems ext by (intro nth_equalityI) (auto simp: nth_list_update)
    finally show ?case using Suc by simp
  qed
  from this [of "nat (mv_count b)"] show ?thesis unfolding symmetric_block_def body_def by (simp cong: map_cong)
qed

lemma symmetric_blocks_done: "nat (mv_count a) \<le> ab \<Longrightarrow> symmetric_blocks dot blockDot a b ab bests = bests"
  by (simp add: symmetric_blocks.simps)

lemma symmetric_blocks_result:
  assumes agree: "block_agrees dot blockDot a b" and "ab \<le> nat (mv_count a)"
  shows "symmetric_blocks dot blockDot a b ab
      (map (\<lambda>i. if i < ab then best_a dot a b i [0..<nat (mv_count b)] else NegInf) [0..<nat (mv_count a)],
       map (best_b dot a b [0..<ab]) [0..<nat (mv_count b)]) =
    (map (\<lambda>i. best_a dot a b i [0..<nat (mv_count b)]) [0..<nat (mv_count a)],
     map (best_b dot a b [0..<nat (mv_count a)]) [0..<nat (mv_count b)])"
  using assms(2)
proof (induction "nat (mv_count a) - ab" arbitrary: ab rule: less_induct)
  case less
  show ?case
  proof (cases "ab < nat (mv_count a)")
    case True
    define n where "n = min (nat (mv_count a) - ab) BLOCKED_SCALAR_Q"
    have n: "ab + n \<le> nat (mv_count a)" "0 < n" using True by (auto simp: n_def BLOCKED_SCALAR_Q_def)
    let ?A = "\<lambda>k. map (\<lambda>i. if i < k then best_a dot a b i [0..<nat (mv_count b)] else NegInf) [0..<nat (mv_count a)]"
    have "symmetric_block dot blockDot a b ab n (?A ab, map (best_b dot a b [0..<ab]) [0..<nat (mv_count b)]) =
        (?A (ab + n), map (best_b dot a b [0..<ab + n]) [0..<nat (mv_count b)])"
      using n by (subst symmetric_block_result [OF agree]) auto
    moreover have "symmetric_blocks dot blockDot a b (ab + BLOCKED_SCALAR_Q) bests = symmetric_blocks dot blockDot a b (ab + n) bests" for bests
      using True by (cases "nat (mv_count a) - ab \<le> BLOCKED_SCALAR_Q") (simp_all add: n_def symmetric_blocks_done)
    ultimately show ?thesis
      using True less.hyps [of "ab + n"] n by (subst symmetric_blocks.simps) (simp add: n_def [symmetric])
  qed (use less.prems in \<open>simp add: symmetric_blocks.simps\<close>)
qed

lemma replicate_bests: "replicate n NegInf = map (best_b dot a b [0..<0]) [0..<n]"
  by (rule nth_equalityI) (simp_all add: best_b_def)

text \<open>
  The symmetric average, which finds the best matches of both values in one blocked pass,
  is the mean of the two average maximum similarities, \<open>a\<close> against \<open>b\<close> and \<open>b\<close> against \<open>a\<close>.
\<close>

theorem symmetric_average_correct:
  assumes agree: "block_agrees dot blockDot a b" and comm: "\<And>x y. dot x y (mv_dim a) = dot y x (mv_dim b)"
    and ok: "PgturbohybridCheckSameMultiVectorDims a b = Inr ()"
  shows "\<exists>ab ba. TqMultiVectorMaxSimWithDot f dot a b = Inr ab \<and> TqMultiVectorMaxSimWithDot f dot b a = Inr ba \<and>
    TqMultiVectorSymmetricMaxSimAverageWithDot f dot blockDot a b =
      Inr (f_mul f (Fin (1 / 2)) (f_add f (f_div f ab (Fin (of_int (mv_count a)))) (f_div f ba (Fin (of_int (mv_count b))))))"
proof -
  have ok': "PgturbohybridCheckSameMultiVectorDims b a = Inr ()" using ok
    by (auto simp: PgturbohybridCheckSameMultiVectorDims_def bindE_Inr_iff)
  have b: "best_b dot a b [0..<nat (mv_count a)] bi = best_dot dot b a bi [0..<nat (mv_count a)]" for bi
    by (simp add: best_b_def best_dot_def comm)
  have blocks: "symmetric_blocks dot blockDot a b 0 (replicate (nat (mv_count a)) NegInf, replicate (nat (mv_count b)) NegInf) =
      (map (\<lambda>i. best_a dot a b i [0..<nat (mv_count b)]) [0..<nat (mv_count a)],
       map (best_b dot a b [0..<nat (mv_count a)]) [0..<nat (mv_count b)])"
    using symmetric_blocks_result [OF agree, of 0] by (simp add: replicate_bests [of _ dot a b] map_replicate_const)
  have sum: "foldl (\<lambda>s i. f_add f s (map h [0..<n] ! i)) s [0..<n] = foldl (\<lambda>s i. f_add f s (h i)) s [0..<n]" for h s n
    by (rule foldl_cong) simp_all
  show ?thesis
    unfolding TqMultiVectorMaxSimWithDot_def TqMultiVectorSymmetricMaxSimAverageWithDot_def ok ok' bindE_simps
      TqMultiVectorSymmetricMaxSimAverageWithDotUnchecked_def blocks Let_def prod.case sum b
    by (simp add: best_a_def best_dot_def)
qed

section \<open>Weights, contexts and fields\<close>

definition dfinite :: "cdouble \<Rightarrow> bool" where
  "dfinite x \<longleftrightarrow> x \<noteq> NaN \<and> x \<noteq> PosInf \<and> x \<noteq> NegInf"

definition range_step ::
    "fpu \<Rightarrow> multivector \<Rightarrow> multivector \<Rightarrow> nat list \<Rightarrow> u32 list option \<Rightarrow> bool list option \<Rightarrow> nat \<Rightarrow> cdouble \<Rightarrow> cdouble res" where
  "range_step f query doc tokens queryWeights queryMask qi score =
     (let weight = (case queryWeights of None \<Rightarrow> Fin 1 | Some ws \<Rightarrow> float4_of_bits (ws ! qi)) in
      if (case queryMask of None \<Rightarrow> False | Some m \<Rightarrow> m ! qi) then Inr score
      else if \<not> dfinite weight \<or> dless weight (Fin 0)
      then Inl (Ereport ERRCODE_DATA_EXCEPTION ''query token weights must be finite non-negative values'')
      else if weight = Fin 0 then Inr score
      else Inr (f_add f score (f_mul f weight (best_dot (TqDotProductF32Scalar f) query doc qi tokens))))"

definition TqMultiVectorMaxSimTokenRangeWeighted ::
    "fpu \<Rightarrow> multivector \<Rightarrow> multivector \<Rightarrow> int \<Rightarrow> int \<Rightarrow> u32 list option \<Rightarrow> bool list option \<Rightarrow> cdouble res" where
  "TqMultiVectorMaxSimTokenRangeWeighted f query doc startToken endToken queryWeights queryMask =
     bindE (PgturbohybridCheckSameMultiVectorDims query doc) (\<lambda>_.
     bindE (ensure (\<not> (startToken < 0 \<or> endToken > mv_count doc \<or> startToken \<ge> endToken)) ERRCODE_DATA_EXCEPTION
              ''invalid multivector context token range'') (\<lambda>_.
       foldE (range_step f query doc [nat startToken..<nat endToken] queryWeights queryMask) [0..<nat (mv_count query)] (Fin 0)))"

definition TqMultiVectorMaxSimTokenRange :: "fpu \<Rightarrow> multivector \<Rightarrow> multivector \<Rightarrow> int \<Rightarrow> int \<Rightarrow> cdouble res" where
  "TqMultiVectorMaxSimTokenRange f query doc startToken endToken =
     TqMultiVectorMaxSimTokenRangeWeighted f query doc startToken endToken None None"

definition TqMultiVectorMaxSimWeighted ::
    "fpu \<Rightarrow> bool \<Rightarrow> multivector \<Rightarrow> multivector \<Rightarrow> u32 list option \<Rightarrow> bool list option \<Rightarrow> cdouble res" where
  "TqMultiVectorMaxSimWeighted f force query doc queryWeights queryMask =
     (if queryWeights = None \<and> queryMask = None then TqMultiVectorMaxSim f force query doc
      else TqMultiVectorMaxSimTokenRangeWeighted f query doc 0 (mv_count doc) queryWeights queryMask)"

definition context_stop :: "multivector \<Rightarrow> int list \<Rightarrow> int \<Rightarrow> nat \<Rightarrow> int" where
  "context_stop doc offsets contextCount ci = (if int ci + 1 < contextCount then offsets ! (ci + 1) else mv_count doc)"

definition context_step ::
    "fpu \<Rightarrow> multivector \<Rightarrow> multivector \<Rightarrow> int list \<Rightarrow> int \<Rightarrow> u32 list option \<Rightarrow> bool list option \<Rightarrow> nat \<Rightarrow> cdouble \<Rightarrow> cdouble res" where
  "context_step f query doc offsets contextCount queryWeights queryMask ci best =
     bindE (TqMultiVectorMaxSimTokenRangeWeighted f query doc (offsets ! ci) (context_stop doc offsets contextCount ci) queryWeights queryMask)
       (\<lambda>score. Inr (keep_best best score))"

definition TqMultiVectorMaxSimContextLevel :: "fpu \<Rightarrow> bool \<Rightarrow> multivector \<Rightarrow> multivector \<Rightarrow> cdouble res" where
  "TqMultiVectorMaxSimContextLevel f force query doc =
     bindE (PgturbohybridCheckSameMultiVectorDims query doc) (\<lambda>_.
     bindE (PgturbohybridMultiVectorHasContexts doc) (\<lambda>has.
       if \<not> has then TqMultiVectorMaxSim f force query doc
       else bindE (PgturbohybridMultiVectorContextOffsets doc) (\<lambda>offsets.
            bindE (PgturbohybridMultiVectorContextCount doc) (\<lambda>contextCount.
              foldE (context_step f query doc (the offsets) contextCount None None) [0..<nat contextCount] NegInf))))"

definition TqMultiVectorMaxSimContextLevelWeighted ::
    "fpu \<Rightarrow> bool \<Rightarrow> multivector \<Rightarrow> multivector \<Rightarrow> u32 list option \<Rightarrow> bool list option \<Rightarrow> cdouble res" where
  "TqMultiVectorMaxSimContextLevelWeighted f force query doc queryWeights queryMask =
     (if queryWeights = None \<and> queryMask = None then TqMultiVectorMaxSimContextLevel f force query doc
      else bindE (PgturbohybridCheckSameMultiVectorDims query doc) (\<lambda>_.
           bindE (PgturbohybridMultiVectorHasContexts doc) (\<lambda>has.
             if \<not> has then TqMultiVectorMaxSimWeighted f force query doc queryWeights queryMask
             else bindE (PgturbohybridMultiVectorContextOffsets doc) (\<lambda>offsets.
                  bindE (PgturbohybridMultiVectorContextCount doc) (\<lambda>contextCount.
                    foldE (context_step f query doc (the offsets) contextCount queryWeights queryMask) [0..<nat contextCount] NegInf)))))"

definition field_context ::
    "fpu \<Rightarrow> multivector \<Rightarrow> multivector \<Rightarrow> int list \<Rightarrow> int list option \<Rightarrow> int \<Rightarrow> int \<Rightarrow> nat \<Rightarrow> cdouble \<Rightarrow> cdouble res" where
  "field_context f query doc offsets docFields contextCount fieldId ci fieldBest =
     (let docField = (case docFields of None \<Rightarrow> 0 | Some ids \<Rightarrow> ids ! ci) in
      if docField \<noteq> fieldId then Inr fieldBest
      else context_step f query doc offsets contextCount None None ci fieldBest)"

definition field_step ::
    "fpu \<Rightarrow> multivector \<Rightarrow> multivector \<Rightarrow> int list \<Rightarrow> int list option \<Rightarrow> int \<Rightarrow> int \<times> u32 \<Rightarrow> cdouble \<Rightarrow> cdouble res" where
  "field_step f query doc offsets docFields contextCount = (\<lambda>(fieldId, weight) total.
     bindE (ensure (isfinite_bits weight) ERRCODE_DATA_EXCEPTION ''field weights must be finite'') (\<lambda>_.
     bindE (foldE (field_context f query doc offsets docFields contextCount fieldId) [0..<nat contextCount] NegInf) (\<lambda>fieldBest.
       Inr (if dless NegInf fieldBest then f_add f total (f_mul f (float4_of_bits weight) fieldBest) else total))))"

definition TqMultiVectorMaxSimFieldWeighted ::
    "fpu \<Rightarrow> bool \<Rightarrow> multivector \<Rightarrow> multivector \<Rightarrow> int list option \<Rightarrow> u32 list option \<Rightarrow> int \<Rightarrow> cdouble res" where
  "TqMultiVectorMaxSimFieldWeighted f force query doc fieldIds weights fieldCount =
     bindE (PgturbohybridCheckSameMultiVectorDims query doc) (\<lambda>_.
     bindE (ensure (fieldIds \<noteq> None \<and> weights \<noteq> None \<and> 0 < fieldCount) ERRCODE_INVALID_PARAMETER_VALUE
              ''field weighted MaxSim requires at least one field weight'') (\<lambda>_.
     let pairs = zip (take (nat fieldCount) (the fieldIds)) (take (nat fieldCount) (the weights)) in
     bindE (PgturbohybridMultiVectorHasContexts doc) (\<lambda>has.
       if \<not> has
       then (case find (\<lambda>(fieldId, _). fieldId = 0) pairs of
               None \<Rightarrow> Inr (Fin 0)
             | Some (_, weight) \<Rightarrow>
                 bindE (TqMultiVectorMaxSim f force query doc) (\<lambda>score. Inr (f_mul f (float4_of_bits weight) score)))
       else bindE (PgturbohybridMultiVectorContextOffsets doc) (\<lambda>offsets.
            bindE (PgturbohybridMultiVectorContextFields doc) (\<lambda>docFields.
            bindE (PgturbohybridMultiVectorContextCount doc) (\<lambda>contextCount.
              foldE (field_step f query doc (the offsets) docFields contextCount) pairs (Fin 0)))))))"

subsection \<open>Contexts partition the document\<close>

definition context_tokens :: "int \<Rightarrow> int list \<Rightarrow> nat \<Rightarrow> nat list" where
  "context_tokens cnt offs ci = [nat (offs ! ci)..<nat (if ci + 1 < length offs then offs ! (ci + 1) else cnt)]"

definition token_sum :: "fpu \<Rightarrow> multivector \<Rightarrow> multivector \<Rightarrow> nat list \<Rightarrow> cdouble" where
  "token_sum f query doc tokens =
     foldl (\<lambda>score qi. f_add f score (f_mul f (Fin 1) (best_dot (TqDotProductF32Scalar f) query doc qi tokens)))
       (Fin 0) [0..<nat (mv_count query)]"

lemma upt_join: "a \<le> b \<Longrightarrow> b \<le> c \<Longrightarrow> [a..<b] @ [b..<c] = [a..<c]" for a b c :: nat
  using upt_add_eq_append [of a b "c - b"] by simp

lemma concat_ranges:
  assumes "sorted_wrt (<) (x # xs)" "\<forall>y \<in> set (x # xs). 0 \<le> y \<and> y < cnt"
  shows "concat (map (context_tokens cnt (x # xs)) [0..<length (x # xs)]) = [nat x..<nat cnt]"
  using assms
proof (induction xs arbitrary: x)
  case Nil
  then show ?case by (simp add: context_tokens_def)
next
  case (Cons y ys)
  have shift: "context_tokens cnt (x # y # ys) (Suc i) = context_tokens cnt (y # ys) i" for i
    by (simp add: context_tokens_def)
  have "[0..<length (x # y # ys)] = 0 # map Suc [0..<length (y # ys)]" by (simp add: upt_conv_Cons map_Suc_upt del: upt_Suc)
  then have "concat (map (context_tokens cnt (x # y # ys)) [0..<length (x # y # ys)]) =
      context_tokens cnt (x # y # ys) 0 @ concat (map (context_tokens cnt (y # ys)) [0..<length (y # ys)])"
    by (simp add: shift comp_def del: upt_Suc)
  also have "concat (map (context_tokens cnt (y # ys)) [0..<length (y # ys)]) = [nat y..<nat cnt]"
    using Cons.prems by (intro Cons.IH) simp_all
  also have "context_tokens cnt (x # y # ys) 0 = [nat x..<nat y]" by (simp add: context_tokens_def)
  also have "[nat x..<nat y] @ [nat y..<nat cnt] = [nat x..<nat cnt]" using Cons.prems by (intro upt_join) auto
  finally show ?case .
qed

lemma foldE_ok: "\<forall>x \<in> set xs. \<forall>s. g x s = Inr (h s x) \<Longrightarrow> foldE g xs s = Inr (foldl h s xs)"
  by (induction xs arbitrary: s) auto

lemma token_range_sum:
  assumes "PgturbohybridCheckSameMultiVectorDims query doc = Inr ()" "0 \<le> s" "s < t" "t \<le> mv_count doc"
  shows "TqMultiVectorMaxSimTokenRangeWeighted f query doc s t None None = Inr (token_sum f query doc [nat s..<nat t])"
  using assms by (simp add: TqMultiVectorMaxSimTokenRangeWeighted_def token_sum_def foldE_ok [where h = "\<lambda>score qi.
        f_add f score (f_mul f (Fin 1) (best_dot (TqDotProductF32Scalar f) query doc qi [nat s..<nat t]))"] range_step_def dfinite_def)

text \<open>
  C39. On a well-formed document with contexts the context-level score is the best, over the
  contexts, of the similarity sum against the tokens of that context alone; the contexts
  partition the document's tokens, none is empty, and no range check fails.
\<close>

theorem context_maxsim_correct:
  assumes ok: "mv_contents_ok cnt dm floats (Some (offs, fids))" and doc: "doc = build_mv cnt dm floats (Some (offs, fids))"
    and same: "PgturbohybridCheckSameMultiVectorDims query doc = Inr ()"
  shows "TqMultiVectorMaxSimContextLevel f force query doc =
      Inr (foldl keep_best NegInf (map (\<lambda>ci. token_sum f query doc (context_tokens cnt offs ci)) [0..<length offs])) \<and>
    concat (map (context_tokens cnt offs) [0..<length offs]) = [0..<nat cnt] \<and>
    (\<forall>ci < length offs. context_tokens cnt offs ci \<noteq> [])"
proof -
  have co: "contexts_ok cnt offs fids" and d: "dims_ok cnt dm" using ok by (simp_all add: mv_contents_ok_def)
  note cd = contexts_okD [OF co d]
  have lt: "\<forall>y \<in> set offs. 0 \<le> y \<and> y < cnt" and st: "sorted_wrt (<) offs" and z: "offs ! 0 = 0" "offs \<noteq> []"
    using cd(1) co by (auto simp: contexts_ok_def)
  note a = build_accessors [OF ok, folded doc]
  have range: "offs ! ci < (if ci + 1 < length offs then offs ! (ci + 1) else cnt) \<and>
      (if ci + 1 < length offs then offs ! (ci + 1) else cnt) \<le> cnt \<and> 0 \<le> offs ! ci" if "ci < length offs" for ci
    using that lt sorted_wrt_nth_less [OF st, of ci "ci + 1"] by (auto simp: all_set_conv_all_nth intro: less_imp_le)
  have step: "context_step f query doc offs (int (length offs)) None None ci best =
      Inr (keep_best best (token_sum f query doc (context_tokens cnt offs ci)))" if ci: "ci < length offs" for ci best
  proof -
    have "context_stop doc offs (int (length offs)) ci = (if ci + 1 < length offs then offs ! (ci + 1) else cnt)"
      by (auto simp: context_stop_def a(6))
    then show ?thesis using token_range_sum [OF same, of "offs ! ci" "if ci + 1 < length offs then offs ! (ci + 1) else cnt" f] range [OF ci]
      unfolding context_step_def context_tokens_def by (simp only: a(6) bindE_simps)
  qed
  have "TqMultiVectorMaxSimContextLevel f force query doc =
      foldE (context_step f query doc offs (int (length offs)) None None) [0..<length offs] NegInf"
    by (simp add: TqMultiVectorMaxSimContextLevel_def same a)
  also have "\<dots> = Inr (foldl (\<lambda>best ci. keep_best best (token_sum f query doc (context_tokens cnt offs ci))) NegInf [0..<length offs])"
    using step by (intro foldE_ok) simp
  finally have "TqMultiVectorMaxSimContextLevel f force query doc =
      Inr (foldl keep_best NegInf (map (\<lambda>ci. token_sum f query doc (context_tokens cnt offs ci)) [0..<length offs]))"
    by (simp add: foldl_map)
  moreover have "concat (map (context_tokens cnt offs) [0..<length offs]) = [0..<nat cnt]"
  proof -
    obtain xs where xs: "offs = 0 # xs" using z by (cases offs) auto
    show ?thesis using concat_ranges [of 0 xs cnt] st lt unfolding xs by simp
  qed
  moreover have "context_tokens cnt offs ci \<noteq> []" if ci: "ci < length offs" for ci
    unfolding context_tokens_def using range [OF ci] by (cases "ci + 1 < length offs") (simp_all add: not_le nat_less_iff)
  ultimately show ?thesis by blast
qed

text \<open>A query and a document with two contexts, for the witnesses.\<close>

definition demo_query_mv :: multivector where
  "demo_query_mv = build_mv 1 2 [0x3F800000, 0x3F800000] None"

lemma demo_same_dims: "PgturbohybridCheckSameMultiVectorDims demo_query_mv demo_multivector = Inr ()"
proof -
  have "mv_contents_ok 1 2 [0x3F800000, 0x3F800000] None"
    by (simp add: mv_contents_ok_def dims_ok_def MULTIVECTOR_MAX_DIM_def MULTIVECTOR_MAX_COUNT_def isfinite_bits_def)
  then show ?thesis using build_check [OF demo_contents] build_check [of 1 2 "[0x3F800000, 0x3F800000]" None]
    by (simp add: PgturbohybridCheckSameMultiVectorDims_def demo_build demo_query_mv_def)
      (simp add: build_mv_def demo_multivector_def)
qed

theorem context_maxsim_correct_witness:
  "\<exists>s. TqMultiVectorMaxSimContextLevel demo_fpu False demo_query_mv demo_multivector = Inr s \<and>
     concat (map (context_tokens 2 [0, 1]) [0..<length [0 :: int, 1]]) = [0..<nat 2]"
  using context_maxsim_correct [OF demo_contents demo_build [symmetric] demo_same_dims] by blast

lemma demo_dot_comm: "TqDotProductF32Scalar demo_fpu x y (mv_dim demo_query_mv) = TqDotProductF32Scalar demo_fpu y x (mv_dim demo_multivector)"
proof -
  have m: "dlift (*) a b = dlift (*) b a" for a b by (cases a; cases b) (simp_all add: mult.commute)
  show ?thesis by (simp add: TqDotProductF32Scalar_def demo_fpu_def demo_query_mv_def build_mv_def demo_multivector_def m [of "float4_of_bits (x ! _)"])
qed

theorem symmetric_average_correct_witness:
  "\<exists>s. TqMultiVectorSymmetricMaxSimAverage demo_fpu demo_query_mv demo_multivector = Inr s"
  using symmetric_average_correct [OF scalar_block_agrees demo_dot_comm demo_same_dims, of demo_fpu]
  unfolding TqMultiVectorSymmetricMaxSimAverage_def by blast

end
