(* ===== verification/Query_Value.thy ===== *)
theory Query_Value
  imports Query_Header Multivector_Sim
begin

text \<open>
  The varlena behind a \<open>turbohybrid_query\<close> (\<open>pgturbohybrid_query.c\<close>): the header, then the
  dense vector, the multivector, the text query, the token weights and the token mask, each
  aligned to 8 bytes. Here: the offsets, the getters, the validation of a value, and the SQL
  constructor that builds one. The payload is the memory behind the 112-byte header. A
  \<open>tsquery\<close> is an opaque byte string.
\<close>

record query_value =
  qv_size :: nat  \<comment> \<open>\<open>VARSIZE_ANY\<close>\<close>
  qv_hdr :: query
  qv_payload :: bytes

definition QUERY_VERSION :: u16 where "QUERY_VERSION = 4"
definition sizeof_header :: nat where "sizeof_header = 112"

definition DENSE_QUERY_NONE :: u16 where "DENSE_QUERY_NONE = 0"
definition DENSE_QUERY_VECTOR :: u16 where "DENSE_QUERY_VECTOR = 1"
definition DENSE_QUERY_MULTIVECTOR :: u16 where "DENSE_QUERY_MULTIVECTOR = 2"

section \<open>Values in memory\<close>

text \<open>The four-byte length word of a varlena, and the image of a vector and a multivector.\<close>

definition vl_word :: "nat \<Rightarrow> u32" where "vl_word n = word_of_nat (4 * n)"
definition vl_size :: "u32 \<Rightarrow> nat" where "vl_size w = unat w div 4"

definition put_u32s :: "u32 list \<Rightarrow> bytes" where "put_u32s ws = concat (map put_u32 ws)"

fun u32s :: "bytes \<Rightarrow> u32 list" where
  "u32s (a # b # c # d # bs) = get_u32 a b c d # u32s bs"
| "u32s _ = []"

definition vector_bytes :: "Vector \<Rightarrow> bytes" where
  "vector_bytes v = put_u32 (vl_word (v_size v)) @ put_u16 (v_dim v) @ put_u16 (v_unused v) @ put_u32s (v_x v)"

definition read_vector :: "bytes \<Rightarrow> Vector" where
  "read_vector bs = (let size = vl_size (u32_at bs 0) in
     \<lparr>v_size = size, v_dim = u16_at bs 4, v_unused = u16_at bs 6, v_x = u32s (take (size - 8) (drop 8 bs))\<rparr>)"

definition multivector_bytes :: "multivector \<Rightarrow> bytes" where
  "multivector_bytes mv = put_u32 (vl_word (mv_size mv)) @ put_u32 (word_of_int (mv_dim mv)) @ put_u32 (word_of_int (mv_count mv)) @
     put_u32 (mv_flags mv) @ put_u32s (mv_words mv)"

definition read_multivector :: "bytes \<Rightarrow> multivector" where
  "read_multivector bs = (let size = vl_size (u32_at bs 0) in
     \<lparr>mv_size = size, mv_dim = sint (u32_at bs 4), mv_count = sint (u32_at bs 8), mv_flags = u32_at bs 12,
      mv_words = u32s (take (size - 16) (drop 16 bs))\<rparr>)"

definition bool_byte :: "bool \<Rightarrow> u8" where "bool_byte b = (if b then 1 else 0)"

section \<open>Sizes and offsets\<close>

definition too_large :: "'a res" where
  "too_large = Inl (Ereport ERRCODE_PROGRAM_LIMIT_EXCEEDED ''turbohybrid_query payload is too large'')"

definition size_minus :: "nat \<Rightarrow> nat \<Rightarrow> nat" where
  \<comment> \<open>subtraction of two \<open>Size\<close> values, which wraps\<close>
  "size_minus a b = (if b \<le> a then a - b else 2 ^ 64 + a - b)"

definition PgturbohybridQueryAlignedSize :: "nat \<Rightarrow> nat res" where
  "PgturbohybridQueryAlignedSize v = (if v > MaxAllocSize - 7 then too_large else Inr (MAXALIGN v))"

definition PgturbohybridQuerySizeAdd :: "nat \<Rightarrow> nat \<Rightarrow> nat res" where
  "PgturbohybridQuerySizeAdd a b = (if a > size_minus MaxAllocSize b then too_large else Inr (a + b))"

definition add_aligned :: "nat \<Rightarrow> nat \<Rightarrow> nat res" where
  "add_aligned off v = bindE (PgturbohybridQueryAlignedSize v) (\<lambda>a. PgturbohybridQuerySizeAdd off a)"

definition PgturbohybridQueryVectorOffset :: nat where
  "PgturbohybridQueryVectorOffset = MAXALIGN sizeof_header"

definition PgturbohybridQueryTokenWeightsBytes :: "query \<Rightarrow> nat" where
  "PgturbohybridQueryTokenWeightsBytes q = (if \<not> has_flag q HAS_TOKEN_WEIGHTS then 0 else nat (q_multivectorCount q) * 4)"

definition PgturbohybridQueryTokenMaskBytes :: "query \<Rightarrow> nat" where
  "PgturbohybridQueryTokenMaskBytes q = (if \<not> has_flag q HAS_TOKEN_MASK then 0 else nat (q_multivectorCount q))"

definition PgturbohybridQueryMultiVectorOffset :: "query \<Rightarrow> nat res" where
  "PgturbohybridQueryMultiVectorOffset q = add_aligned PgturbohybridQueryVectorOffset (nat (q_vectorBytes q))"

definition PgturbohybridQueryTsQueryOffset :: "query \<Rightarrow> nat res" where
  "PgturbohybridQueryTsQueryOffset q =
     bindE (PgturbohybridQueryMultiVectorOffset q) (\<lambda>off. add_aligned off (nat (q_multivectorBytes q)))"

definition PgturbohybridQueryTokenWeightsOffset :: "query \<Rightarrow> nat res" where
  "PgturbohybridQueryTokenWeightsOffset q =
     bindE (PgturbohybridQueryTsQueryOffset q) (\<lambda>off. add_aligned off (nat (q_tsqueryBytes q)))"

definition PgturbohybridQueryTokenMaskOffset :: "query \<Rightarrow> nat res" where
  "PgturbohybridQueryTokenMaskOffset q =
     bindE (PgturbohybridQueryTokenWeightsOffset q) (\<lambda>off. add_aligned off (PgturbohybridQueryTokenWeightsBytes q))"

definition at_offset :: "query_value \<Rightarrow> nat \<Rightarrow> bytes" where
  "at_offset q off = drop (off - 112) (qv_payload q)"

section \<open>Validation\<close>

definition dense_inconsistent :: "'a res" where
  "dense_inconsistent = Inl (Ereport ERRCODE_DATA_EXCEPTION ''turbohybrid_query dense payload is inconsistent'')"

definition weight_ok :: "cdouble \<Rightarrow> bool" where
  "weight_ok w \<longleftrightarrow> \<not> (dless w (Fin 0) \<or> \<not> dfinite w)"

definition validate_header :: "query \<Rightarrow> unit res" where
  "validate_header q =
     bindE (ensure (q_version q = QUERY_VERSION) ERRCODE_DATA_EXCEPTION ''unsupported turbohybrid_query version'') (\<lambda>_.
     bindE (ensure (q_fusion q \<in> {FUSION_RRF, FUSION_WEIGHTED, FUSION_FAST_WEIGHTED, FUSION_CALIBRATED, FUSION_DBSF})
              ERRCODE_DATA_EXCEPTION ''invalid turbohybrid_query fusion mode'') (\<lambda>_.
     bindE (ensure (weight_ok (q_denseWeight q) \<and> weight_ok (q_bm25Weight q) \<and> weight_ok (q_multivectorWeight q))
              ERRCODE_DATA_EXCEPTION ''turbohybrid_query weights must be finite non-negative values'') (\<lambda>_.
     bindE (ensure (q_denseKind q \<in> {DENSE_QUERY_NONE, DENSE_QUERY_VECTOR, DENSE_QUERY_MULTIVECTOR})
              ERRCODE_DATA_EXCEPTION ''invalid turbohybrid_query dense kind'') (\<lambda>_.
     bindE (ensure (\<not> (q_vectorBytes q < 0 \<or> q_multivectorBytes q < 0 \<or> q_tsqueryBytes q < 0))
              ERRCODE_DATA_EXCEPTION ''invalid turbohybrid_query payload size'') (\<lambda>_.
     bindE (ensure (\<not> (q_rrfK q \<le> 0 \<or> q_denseK q < 0 \<or> q_multivectorK q < 0 \<or> q_bm25K q < 0 \<or>
                (has_flag q FINAL_K_IS_SET \<and> q_finalK q \<le> 0)))
              ERRCODE_DATA_EXCEPTION ''turbohybrid_query rank budgets are inconsistent'') (\<lambda>_.
     if \<not> has_flag q HAS_DENSE \<and> q_denseKind q \<noteq> DENSE_QUERY_NONE then dense_inconsistent
     else if has_flag q HAS_DENSE \<and> (q_denseKind q = DENSE_QUERY_NONE \<or> q_flags q AND (HAS_VECTOR OR HAS_MULTIVECTOR) = 0)
     then dense_inconsistent
     else Inr ()))))))"

definition vector_inconsistent :: "'a res" where
  "vector_inconsistent = Inl (Ereport ERRCODE_DATA_EXCEPTION ''turbohybrid_query vector payload is inconsistent'')"
definition multivector_inconsistent :: "'a res" where
  "multivector_inconsistent = Inl (Ereport ERRCODE_DATA_EXCEPTION ''turbohybrid_query multivector payload is inconsistent'')"
definition truncated :: "'a res" where
  "truncated = Inl (Ereport ERRCODE_DATA_EXCEPTION ''truncated turbohybrid_query payload'')"

definition validate_vector :: "query_value \<Rightarrow> bool \<Rightarrow> unit res" where
  "validate_vector qv strict = (let q = qv_hdr qv in
     if \<not> has_flag q HAS_VECTOR
     then (if q_vectorBytes q \<noteq> 0 then vector_inconsistent else Inr ())
     else if \<not> has_flag q HAS_DENSE then vector_inconsistent
     else bindE (PgturbohybridQuerySizeAdd PgturbohybridQueryVectorOffset (nat (q_vectorBytes q))) (\<lambda>stop.
          if stop > qv_size qv then truncated
          else let vector = read_vector (at_offset qv PgturbohybridQueryVectorOffset) in
               bindE (PgturbohybridCheckVectorInternal (Some vector) strict) (\<lambda>_.
                 if nat (q_vectorBytes q) \<noteq> VECTOR_SIZE (sint (v_dim vector)) then vector_inconsistent else Inr ())))"

definition validate_multivector :: "query_value \<Rightarrow> unit res" where
  "validate_multivector qv = (let q = qv_hdr qv in
     bindE (if \<not> has_flag q HAS_MULTIVECTOR \<and> q_multivectorBytes q \<noteq> 0 then multivector_inconsistent else Inr ()) (\<lambda>_.
     bindE (PgturbohybridQueryMultiVectorOffset q) (\<lambda>off.
     if has_flag q HAS_MULTIVECTOR
     then (if \<not> has_flag q HAS_DENSE then multivector_inconsistent
           else bindE (PgturbohybridQuerySizeAdd off (nat (q_multivectorBytes q))) (\<lambda>stop.
                if stop > qv_size qv then truncated
                else let mv = read_multivector (at_offset qv off) in
                     bindE (PgturbohybridCheckMultiVector (Some mv)) (\<lambda>_.
                       if nat (q_multivectorBytes q) \<noteq> mv_size mv \<or> q_multivectorDim q \<noteq> mv_dim mv \<or> q_multivectorCount q \<noteq> mv_count mv
                       then multivector_inconsistent else Inr ())))
     else if q_multivectorDim q \<noteq> 0 \<or> q_multivectorCount q \<noteq> 0 then multivector_inconsistent
     else Inr ())))"

definition weight_bits_ok :: "u32 \<Rightarrow> bool" where
  "weight_bits_ok w \<longleftrightarrow> isfinite_bits w \<and> \<not> dless (float4_of_bits w) (Fin 0)"

definition stored_weights :: "query_value \<Rightarrow> nat \<Rightarrow> u32 list" where
  "stored_weights qv off = u32s (take (nat (q_multivectorCount (qv_hdr qv)) * 4) (at_offset qv off))"

definition validate_rest :: "query_value \<Rightarrow> unit res" where
  "validate_rest qv = (let q = qv_hdr qv in
     bindE (ensure (\<not> ((has_flag q HAS_TOKEN_WEIGHTS \<or> has_flag q HAS_TOKEN_MASK) \<and> \<not> PgturbohybridQueryHasMultiVector q))
              ERRCODE_DATA_EXCEPTION ''turbohybrid_query token metadata requires multivector_query'') (\<lambda>_.
     bindE (ensure (\<not> (\<not> has_flag q HAS_TSQUERY \<and> q_tsqueryBytes q \<noteq> 0))
              ERRCODE_DATA_EXCEPTION ''turbohybrid_query tsquery payload is inconsistent'') (\<lambda>_.
     bindE (PgturbohybridQueryTsQueryOffset q) (\<lambda>tsqueryOffset.
     bindE (PgturbohybridQuerySizeAdd tsqueryOffset (nat (q_tsqueryBytes q))) (\<lambda>stop.
     if stop > qv_size qv then truncated
     else bindE (PgturbohybridQueryTokenWeightsOffset q) (\<lambda>tokenWeightsOffset.
     bindE (PgturbohybridQuerySizeAdd tokenWeightsOffset (PgturbohybridQueryTokenWeightsBytes q)) (\<lambda>stop.
     if stop > qv_size qv then truncated
     else bindE (ensure (has_flag q HAS_TOKEN_WEIGHTS \<longrightarrow> list_all weight_bits_ok (stored_weights qv tokenWeightsOffset))
                   ERRCODE_DATA_EXCEPTION ''turbohybrid_query token weights must be finite non-negative values'') (\<lambda>_.
     bindE (PgturbohybridQueryTokenMaskOffset q) (\<lambda>tokenMaskOffset.
     bindE (PgturbohybridQuerySizeAdd tokenMaskOffset (PgturbohybridQueryTokenMaskBytes q)) (\<lambda>stop.
     if stop > qv_size qv then truncated
     else bindE (ensure (\<not> (has_flag q UNSUPPORTED_MASK \<or> q_reservedBytes q \<noteq> 0))
                   ERRCODE_FEATURE_NOT_SUPPORTED ''unsupported turbohybrid_query feature flags'') (\<lambda>_.
     bindE (add_aligned tokenMaskOffset (PgturbohybridQueryTokenMaskBytes q)) (\<lambda>expected.
       ensure (qv_size qv = expected) ERRCODE_DATA_EXCEPTION ''malformed turbohybrid_query payload''))))))))))))"

definition PgturbohybridQueryValidateInternal :: "query_value option \<Rightarrow> bool \<Rightarrow> unit res" where
  "PgturbohybridQueryValidateInternal p strict = (case p of
       None \<Rightarrow> Inl (Ereport ERRCODE_DATA_EXCEPTION ''turbohybrid_query cannot be null'')
     | Some qv \<Rightarrow>
         if qv_size qv < PgturbohybridQueryVectorOffset then truncated
         else bindE (validate_header (qv_hdr qv)) (\<lambda>_.
              bindE (validate_vector qv strict) (\<lambda>_.
              bindE (validate_multivector qv) (\<lambda>_. validate_rest qv))))"

definition PgturbohybridQueryValidate :: "query_value \<Rightarrow> unit res" where
  "PgturbohybridQueryValidate qv = PgturbohybridQueryValidateInternal (Some qv) True"

definition PgturbohybridQueryValidateFast :: "query_value \<Rightarrow> unit res" where
  "PgturbohybridQueryValidateFast qv = PgturbohybridQueryValidateInternal (Some qv) False"

section \<open>Getters\<close>

definition PgturbohybridQueryGetVector :: "query_value \<Rightarrow> Vector option res" where
  "PgturbohybridQueryGetVector qv =
     bindE (PgturbohybridQueryValidateFast qv) (\<lambda>_.
       if \<not> PgturbohybridQueryHasVector (qv_hdr qv) then Inr None
       else Inr (Some (read_vector (at_offset qv PgturbohybridQueryVectorOffset))))"

definition PgturbohybridQueryGetMultiVector :: "query_value \<Rightarrow> multivector option res" where
  "PgturbohybridQueryGetMultiVector qv =
     bindE (PgturbohybridQueryValidateFast qv) (\<lambda>_.
       if \<not> PgturbohybridQueryHasMultiVector (qv_hdr qv) then Inr None
       else bindE (PgturbohybridQueryMultiVectorOffset (qv_hdr qv)) (\<lambda>off. Inr (Some (read_multivector (at_offset qv off)))))"

definition PgturbohybridQueryGetTsQuery :: "query_value \<Rightarrow> bytes option res" where
  "PgturbohybridQueryGetTsQuery qv =
     bindE (PgturbohybridQueryValidateFast qv) (\<lambda>_.
       if \<not> PgturbohybridQueryHasText (qv_hdr qv) then Inr None
       else bindE (PgturbohybridQueryTsQueryOffset (qv_hdr qv)) (\<lambda>off.
              Inr (Some (take (nat (q_tsqueryBytes (qv_hdr qv))) (at_offset qv off)))))"

definition PgturbohybridQueryGetTokenWeights :: "query_value \<Rightarrow> u32 list option res" where
  "PgturbohybridQueryGetTokenWeights qv =
     bindE (PgturbohybridQueryValidateFast qv) (\<lambda>_.
       if \<not> has_flag (qv_hdr qv) HAS_TOKEN_WEIGHTS then Inr None
       else bindE (PgturbohybridQueryTokenWeightsOffset (qv_hdr qv)) (\<lambda>off. Inr (Some (stored_weights qv off))))"

definition PgturbohybridQueryGetTokenMask :: "query_value \<Rightarrow> bool list option res" where
  "PgturbohybridQueryGetTokenMask qv =
     bindE (PgturbohybridQueryValidateFast qv) (\<lambda>_.
       if \<not> has_flag (qv_hdr qv) HAS_TOKEN_MASK then Inr None
       else bindE (PgturbohybridQueryTokenMaskOffset (qv_hdr qv)) (\<lambda>off.
              Inr (Some (map (\<lambda>b. b \<noteq> 0) (take (nat (q_multivectorCount (qv_hdr qv))) (at_offset qv off))))))"

definition PgturbohybridQueryMultiVectorWeightSum :: "fpu \<Rightarrow> query_value \<Rightarrow> cdouble res" where
  "PgturbohybridQueryMultiVectorWeightSum f qv =
     bindE (PgturbohybridQueryValidateFast qv) (\<lambda>_.
     if \<not> PgturbohybridQueryHasMultiVector (qv_hdr qv) \<or> q_multivectorCount (qv_hdr qv) \<le> 0 then Inr (Fin 0)
     else bindE (PgturbohybridQueryGetTokenWeights qv) (\<lambda>weights.
          bindE (PgturbohybridQueryGetTokenMask qv) (\<lambda>msk.
            Inr (foldl (\<lambda>total i.
                   if (case msk of None \<Rightarrow> False | Some m \<Rightarrow> m ! i) then total
                   else f_add f total (case weights of None \<Rightarrow> Fin 1 | Some ws \<Rightarrow> float4_of_bits (ws ! i)))
                 (Fin 0) [0..<nat (q_multivectorCount (qv_hdr qv))]))))"

section \<open>The constructor\<close>

text \<open>The arguments of the SQL function; \<open>None\<close> is a null, or an argument the call does not have.\<close>

record query_args =
  a_vector :: "Vector option"
  a_tsquery :: "bytes option"
  a_fusion :: "string option"
  a_denseWeight :: "cdouble option"
  a_bm25Weight :: "cdouble option"
  a_alpha :: "cdouble option"
  a_rrfK :: "int option"
  a_denseK :: "int option"
  a_bm25K :: "int option"
  a_finalK :: "int option"
  a_requireBm25Match :: "bool option"
  a_multivector :: "multivector option"
  a_tokenWeights :: "u32 pg_array option"
  a_tokenMask :: "bool pg_array option"
  a_multivectorWeight :: "cdouble option"
  a_multivectorK :: "int option"

record query_defaults =
  default_rrf_k :: int
  default_dense_k :: int
  default_bm25_k :: int

definition pg_tolower :: "char \<Rightarrow> char" where
  "pg_tolower c = (if 65 \<le> (of_char c :: nat) \<and> (of_char c :: nat) \<le> 90 then char_of (of_char c + 32 :: nat) else c)"

definition pg_strcasecmp :: "string \<Rightarrow> string \<Rightarrow> bool" where
  \<comment> \<open>the result 0 of the C function, for names of the fusion modes, which are ASCII\<close>
  "pg_strcasecmp a b = (map pg_tolower a = map pg_tolower b)"

definition PgturbohybridQueryParseFusion :: "string option \<Rightarrow> u16 res" where
  "PgturbohybridQueryParseFusion fusion = (case fusion of
       None \<Rightarrow> Inr FUSION_RRF
     | Some nm \<Rightarrow>
         if pg_strcasecmp nm ''rrf'' then Inr FUSION_RRF
         else if pg_strcasecmp nm ''weighted'' then Inr FUSION_WEIGHTED
         else if pg_strcasecmp nm ''fast_weighted'' then Inr FUSION_FAST_WEIGHTED
         else if pg_strcasecmp nm ''calibrated'' then Inr FUSION_CALIBRATED
         else if pg_strcasecmp nm ''dbsf'' then Inr FUSION_DBSF
         else Inl (Ereport ERRCODE_INVALID_PARAMETER_VALUE ''invalid hybrid fusion mode''))"

definition PgturbohybridQueryFusionName :: "u16 \<Rightarrow> string" where
  "PgturbohybridQueryFusionName fusion =
     (if fusion = FUSION_RRF then ''rrf'' else if fusion = FUSION_WEIGHTED then ''weighted''
      else if fusion = FUSION_FAST_WEIGHTED then ''fast_weighted'' else if fusion = FUSION_CALIBRATED then ''calibrated''
      else if fusion = FUSION_DBSF then ''dbsf'' else ''unknown'')"

definition PgturbohybridQueryCheckPositiveInt :: "int \<Rightarrow> unit res" where
  "PgturbohybridQueryCheckPositiveInt v = ensure (0 < v) ERRCODE_INVALID_PARAMETER_VALUE ''must be greater than zero''"

definition PgturbohybridQueryCheckNonNegativeInt :: "int \<Rightarrow> unit res" where
  "PgturbohybridQueryCheckNonNegativeInt v = ensure (0 \<le> v) ERRCODE_INVALID_PARAMETER_VALUE ''must be greater than or equal to zero''"

definition invalid_arg :: "string \<Rightarrow> 'a res" where
  "invalid_arg msg = Inl (Ereport ERRCODE_INVALID_PARAMETER_VALUE msg)"

text \<open>The payload arguments: their bytes and the flags they set.\<close>

record payload_args =
  pa_vector :: bytes
  pa_tsquery :: bytes
  pa_multivector :: bytes
  pa_dim :: int
  pa_count :: int
  pa_weights :: bytes
  pa_mask :: bytes
  pa_flags :: u16
  pa_denseKind :: u16

definition PG_INT32_MAX :: nat where "PG_INT32_MAX = 2147483647"

definition arg_vector :: "query_args \<Rightarrow> payload_args \<Rightarrow> payload_args res" where
  "arg_vector a pa = (case a_vector a of None \<Rightarrow> Inr pa
     | Some v \<Rightarrow>
         bindE (ensure (v_size v \<le> PG_INT32_MAX) ERRCODE_PROGRAM_LIMIT_EXCEEDED ''turbohybrid_query vector payload is too large'') (\<lambda>_.
           Inr (pa\<lparr>pa_vector := take (v_size v) (vector_bytes v), pa_flags := pa_flags pa OR (HAS_VECTOR OR HAS_DENSE),
                   pa_denseKind := DENSE_QUERY_VECTOR\<rparr>)))"

definition arg_tsquery :: "query_args \<Rightarrow> payload_args \<Rightarrow> payload_args res" where
  "arg_tsquery a pa = (case a_tsquery a of None \<Rightarrow> Inr pa
     | Some ts \<Rightarrow>
         bindE (ensure (length ts \<le> PG_INT32_MAX) ERRCODE_PROGRAM_LIMIT_EXCEEDED ''turbohybrid_query tsquery payload is too large'') (\<lambda>_.
           Inr (pa\<lparr>pa_tsquery := ts, pa_flags := pa_flags pa OR HAS_TSQUERY\<rparr>)))"

definition arg_multivector :: "query_args \<Rightarrow> payload_args \<Rightarrow> payload_args res" where
  "arg_multivector a pa = (case a_multivector a of None \<Rightarrow> Inr pa
     | Some mv \<Rightarrow>
         bindE (PgturbohybridCheckMultiVector (Some mv)) (\<lambda>_.
         bindE (ensure (mv_size mv \<le> PG_INT32_MAX) ERRCODE_PROGRAM_LIMIT_EXCEEDED ''turbohybrid_query multivector payload is too large'') (\<lambda>_.
           Inr (pa\<lparr>pa_multivector := take (mv_size mv) (multivector_bytes mv), pa_dim := mv_dim mv, pa_count := mv_count mv,
                   pa_flags := pa_flags pa OR (HAS_MULTIVECTOR OR HAS_DENSE),
                   pa_denseKind := (if pa_denseKind pa = DENSE_QUERY_NONE then DENSE_QUERY_MULTIVECTOR else pa_denseKind pa)\<rparr>))))"

definition token_weight :: "u32 option \<Rightarrow> u32 res" where
  "token_weight x =
     bindE (not_null ERRCODE_NULL_VALUE_NOT_ALLOWED ''query_token_weights cannot contain nulls'' x) (\<lambda>w.
     bindE (ensure (weight_bits_ok w) ERRCODE_INVALID_PARAMETER_VALUE ''query_token_weights must contain finite non-negative values'') (\<lambda>_. Inr w))"

definition arg_weights :: "query_args \<Rightarrow> payload_args \<Rightarrow> payload_args res" where
  "arg_weights a pa = (case a_tokenWeights a of None \<Rightarrow> Inr pa
     | Some arr \<Rightarrow>
         if pa_count pa \<le> 0 then invalid_arg ''query_token_weights requires multivector_query''
         else if arr_ndim arr > 1 then invalid_arg ''query_token_weights must be a one-dimensional real array''
         else if int (length (arr_elements arr)) \<noteq> pa_count pa then invalid_arg ''query_token_weights length does not match''
         else bindE (mapE token_weight (arr_elements arr)) (\<lambda>ws.
              Inr (pa\<lparr>pa_weights := put_u32s ws, pa_flags := pa_flags pa OR HAS_TOKEN_WEIGHTS\<rparr>)))"

definition arg_mask :: "query_args \<Rightarrow> payload_args \<Rightarrow> payload_args res" where
  "arg_mask a pa = (case a_tokenMask a of None \<Rightarrow> Inr pa
     | Some arr \<Rightarrow>
         if pa_count pa \<le> 0 then invalid_arg ''query_token_mask requires multivector_query''
         else if arr_ndim arr > 1 then invalid_arg ''query_token_mask must be a one-dimensional boolean array''
         else if int (length (arr_elements arr)) \<noteq> pa_count pa then invalid_arg ''query_token_mask length does not match''
         else bindE (mapE (not_null ERRCODE_NULL_VALUE_NOT_ALLOWED ''query_token_mask cannot contain nulls'') (arr_elements arr)) (\<lambda>bs.
              Inr (pa\<lparr>pa_mask := map bool_byte bs, pa_flags := pa_flags pa OR HAS_TOKEN_MASK\<rparr>)))"

definition no_payload :: payload_args where
  "no_payload = \<lparr>pa_vector = [], pa_tsquery = [], pa_multivector = [], pa_dim = 0, pa_count = 0, pa_weights = [], pa_mask = [],
     pa_flags = 0, pa_denseKind = DENSE_QUERY_NONE\<rparr>"

definition read_payload :: "query_args \<Rightarrow> payload_args res" where
  "read_payload a =
     bindE (arg_vector a no_payload) (\<lambda>pa. bindE (arg_tsquery a pa) (\<lambda>pa. bindE (arg_multivector a pa) (\<lambda>pa.
     bindE (arg_weights a pa) (\<lambda>pa. arg_mask a pa))))"

definition arg_weight :: "cdouble option \<Rightarrow> string \<Rightarrow> cdouble res" where
  "arg_weight x msg =
     bindE (not_null ERRCODE_INVALID_PARAMETER_VALUE msg x) (\<lambda>w.
     bindE (ensure (weight_ok w) ERRCODE_INVALID_PARAMETER_VALUE msg) (\<lambda>_. Inr w))"

text \<open>The scalar arguments, as the header of the result without its payload sizes.\<close>

definition read_scalars :: "query_defaults \<Rightarrow> query_args \<Rightarrow> u16 \<Rightarrow> u16 \<Rightarrow> query res" where
  "read_scalars g a flags denseKind =
     bindE (PgturbohybridQueryParseFusion (a_fusion a)) (\<lambda>fusion.
     bindE (arg_weight (a_denseWeight a) ''dense_weight must be a finite non-negative value'') (\<lambda>denseWeight.
     bindE (arg_weight (a_bm25Weight a) ''bm25_weight must be a finite non-negative value'') (\<lambda>bm25Weight.
     let multivectorWeight = (case a_multivectorWeight a of None \<Rightarrow> Fin 1 | Some w \<Rightarrow> w) in
     bindE (ensure (weight_ok multivectorWeight) ERRCODE_INVALID_PARAMETER_VALUE
              ''multivector_weight must be a finite non-negative value'') (\<lambda>_.
     let alpha = (case a_alpha a of None \<Rightarrow> Fin 0 | Some x \<Rightarrow> x) in
     bindE (ensure (a_alpha a \<noteq> None \<longrightarrow> \<not> (dless alpha (Fin 0) \<or> dless (Fin 1) alpha \<or> \<not> dfinite alpha))
              ERRCODE_INVALID_PARAMETER_VALUE ''alpha must be between 0 and 1'') (\<lambda>_.
     let rrfK = (case a_rrfK a of None \<Rightarrow> default_rrf_k g | Some k \<Rightarrow> k) in
     bindE (PgturbohybridQueryCheckPositiveInt rrfK) (\<lambda>_.
     let denseK = (case a_denseK a of None \<Rightarrow> default_dense_k g | Some k \<Rightarrow> k) in
     bindE (PgturbohybridQueryCheckNonNegativeInt denseK) (\<lambda>_.
     let multivectorK = (case a_multivectorK a of None \<Rightarrow> denseK | Some k \<Rightarrow> k) in
     bindE (PgturbohybridQueryCheckNonNegativeInt multivectorK) (\<lambda>_.
     let bm25K = (case a_bm25K a of None \<Rightarrow> default_bm25_k g | Some k \<Rightarrow> k) in
     bindE (PgturbohybridQueryCheckNonNegativeInt bm25K) (\<lambda>_.
     bindE (case a_finalK a of None \<Rightarrow> Inr () | Some k \<Rightarrow> PgturbohybridQueryCheckPositiveInt k) (\<lambda>_.
     bindE (not_null ERRCODE_INVALID_PARAMETER_VALUE ''require_bm25_match cannot be null'' (a_requireBm25Match a)) (\<lambda>requireBm25Match.
     let flags = flags OR (if a_alpha a \<noteq> None then ALPHA_IS_SET else 0) OR
           (if a_rrfK a = None then RRF_K_DEFAULTED else 0) OR (if a_denseK a = None then DENSE_K_DEFAULTED else 0) OR
           (if a_bm25K a = None then BM25_K_DEFAULTED else 0) OR (if a_finalK a \<noteq> None then FINAL_K_IS_SET else 0) OR
           (if requireBm25Match then REQUIRE_BM25_MATCH else 0) in
     bindE (ensure (flags AND (HAS_DENSE OR HAS_TSQUERY) \<noteq> 0) ERRCODE_INVALID_PARAMETER_VALUE
              ''turbohybrid_query requires a vector_query, multivector_query, or text_query'') (\<lambda>_.
       Inr \<lparr>q_version = QUERY_VERSION, q_flags = flags, q_fusion = fusion, q_denseWeight = denseWeight, q_bm25Weight = bm25Weight,
            q_multivectorWeight = multivectorWeight, q_alpha = alpha, q_rrfK = rrfK, q_denseK = denseK, q_multivectorK = multivectorK,
            q_bm25K = bm25K, q_finalK = (case a_finalK a of None \<Rightarrow> 0 | Some k \<Rightarrow> k), q_denseKind = denseKind,
            q_vectorBytes = 0, q_multivectorBytes = 0, q_tsqueryBytes = 0, q_multivectorDim = 0, q_multivectorCount = 0,
            q_reservedBytes = 0\<rparr>))))))))))))"

definition memcpy :: "nat \<Rightarrow> bytes \<Rightarrow> bytes \<Rightarrow> bytes" where
  "memcpy off src mem = take off mem @ src @ drop (off + length src) mem"

definition copy_at :: "nat res \<Rightarrow> bytes \<Rightarrow> bytes \<Rightarrow> bytes res" where
  "copy_at offset src mem = bindE offset (\<lambda>off. Inr (memcpy (off - 112) src mem))"

definition copy_if :: "bool \<Rightarrow> nat res \<Rightarrow> bytes \<Rightarrow> bytes \<Rightarrow> bytes res" where
  "copy_if present offset src mem = (if present then copy_at offset src mem else Inr mem)"

definition construct_query :: "query_defaults \<Rightarrow> query_args \<Rightarrow> query_value res" where
  "construct_query g a =
     bindE (read_payload a) (\<lambda>pa.
     bindE (read_scalars g a (pa_flags pa) (pa_denseKind pa)) (\<lambda>hdr0.
     bindE (add_aligned PgturbohybridQueryVectorOffset (length (pa_vector pa))) (\<lambda>t.
     bindE (add_aligned t (length (pa_multivector pa))) (\<lambda>t.
     bindE (add_aligned t (length (pa_tsquery pa))) (\<lambda>t.
     bindE (add_aligned t (length (pa_weights pa))) (\<lambda>t.
     bindE (add_aligned t (length (pa_mask pa))) (\<lambda>totalSize.
     let hdr = hdr0\<lparr>q_vectorBytes := int (length (pa_vector pa)), q_multivectorBytes := int (length (pa_multivector pa)),
                    q_tsqueryBytes := int (length (pa_tsquery pa)), q_multivectorDim := pa_dim pa, q_multivectorCount := pa_count pa\<rparr> in
     bindE (copy_if (a_vector a \<noteq> None) (Inr PgturbohybridQueryVectorOffset) (pa_vector pa) (replicate (totalSize - 112) 0)) (\<lambda>m.
     bindE (copy_if (a_multivector a \<noteq> None) (PgturbohybridQueryMultiVectorOffset hdr) (pa_multivector pa) m) (\<lambda>m.
     bindE (copy_if (a_tsquery a \<noteq> None) (PgturbohybridQueryTsQueryOffset hdr) (pa_tsquery pa) m) (\<lambda>m.
     bindE (copy_if (a_tokenWeights a \<noteq> None) (PgturbohybridQueryTokenWeightsOffset hdr) (pa_weights pa) m) (\<lambda>m.
     bindE (copy_if (a_tokenMask a \<noteq> None) (PgturbohybridQueryTokenMaskOffset hdr) (pa_mask pa) m) (\<lambda>m.
     let result = \<lparr>qv_size = totalSize, qv_hdr = hdr, qv_payload = m\<rparr> in
     bindE (PgturbohybridQueryValidate result) (\<lambda>_. Inr result)))))))))))))"

end
