(* ===== verification/Query_Layout.thy ===== *)
theory Query_Layout
  imports Query_Value
begin

text \<open>
  What a \<open>turbohybrid_query\<close> holds: the value the constructor builds is its payload arguments,
  each padded to 8 bytes, behind the header, and the getters read them back unchanged.
\<close>

section \<open>The layout of a value\<close>

definition pad :: "bytes \<Rightarrow> bytes" where
  "pad bs = bs @ replicate (MAXALIGN (length bs) - length bs) 0"

lemma length_pad [simp]: "length (pad bs) = MAXALIGN (length bs)"
  using MAXALIGN_ge [of "length bs"] by (simp add: pad_def)

lemma pad_Nil [simp]: "pad [] = []"
  by (simp add: pad_def MAXALIGN_def)

lemma take_pad [simp]: "take (length bs) (pad bs @ cs) = bs"
  by (simp add: pad_def)

definition header_of :: "query \<Rightarrow> payload_args \<Rightarrow> query" where
  "header_of hdr0 pa = hdr0\<lparr>q_vectorBytes := int (length (pa_vector pa)), q_multivectorBytes := int (length (pa_multivector pa)),
     q_tsqueryBytes := int (length (pa_tsquery pa)), q_multivectorDim := pa_dim pa, q_multivectorCount := pa_count pa\<rparr>"

definition payload_size :: "payload_args \<Rightarrow> nat" where
  "payload_size pa = 112 + MAXALIGN (length (pa_vector pa)) + MAXALIGN (length (pa_multivector pa)) + MAXALIGN (length (pa_tsquery pa)) +
     MAXALIGN (length (pa_weights pa)) + MAXALIGN (length (pa_mask pa))"

definition layout_of :: "query \<Rightarrow> payload_args \<Rightarrow> query_value" where
  "layout_of hdr0 pa = \<lparr>qv_size = payload_size pa, qv_hdr = header_of hdr0 pa,
     qv_payload = pad (pa_vector pa) @ pad (pa_multivector pa) @ pad (pa_tsquery pa) @ pad (pa_weights pa) @ pad (pa_mask pa)\<rparr>"

lemma header_offset [simp]: "PgturbohybridQueryVectorOffset = 112"
  by (simp add: PgturbohybridQueryVectorOffset_def sizeof_header_def MAXALIGN_def)

lemma size_add_iff: "b \<le> MaxAllocSize \<Longrightarrow> PgturbohybridQuerySizeAdd a b = Inr t \<longleftrightarrow> a + b \<le> MaxAllocSize \<and> t = a + b"
  by (auto simp: PgturbohybridQuerySizeAdd_def size_minus_def too_large_def)

lemma add_aligned_iff: "add_aligned off v = Inr t \<longleftrightarrow> off + MAXALIGN v \<le> MaxAllocSize \<and> t = off + MAXALIGN v"
proof -
  have "MAXALIGN v \<le> MaxAllocSize \<longleftrightarrow> v \<le> MaxAllocSize - 7"
    unfolding MAXALIGN_def MaxAllocSize_def by presburger
  then show ?thesis
    by (auto simp: add_aligned_def PgturbohybridQueryAlignedSize_def bindE_Inr_iff size_add_iff too_large_def)
qed

lemma MAXALIGN_0 [simp]: "MAXALIGN 0 = 0"
  by (simp add: MAXALIGN_def)

lemma memcpy_next:
  "memcpy (length A) src (A @ replicate (MAXALIGN (length src) + n) 0) = A @ pad src @ replicate n 0"
  using MAXALIGN_ge [of "length src"] by (simp add: memcpy_def pad_def replicate_add [symmetric])

lemma copy_next:
  assumes "\<not> present \<Longrightarrow> src = []" "present \<Longrightarrow> off = Inr (112 + length A)"
  shows "copy_if present off src (A @ replicate (MAXALIGN (length src) + n) 0) = Inr (A @ pad src @ replicate n 0)"
  using assms by (cases present) (simp_all add: copy_if_def copy_at_def memcpy_next)

text \<open>The payload sizes the arguments give.\<close>

definition payload_typed :: "query_args \<Rightarrow> payload_args \<Rightarrow> bool" where
  "payload_typed a pa \<longleftrightarrow> (a_vector a = None \<longrightarrow> pa_vector pa = []) \<and> (a_multivector a = None \<longrightarrow> pa_multivector pa = []) \<and>
     (a_tsquery a = None \<longrightarrow> pa_tsquery pa = []) \<and>
     length (pa_weights pa) = (if a_tokenWeights a = None then 0 else nat (pa_count pa) * 4) \<and>
     length (pa_mask pa) = (if a_tokenMask a = None then 0 else nat (pa_count pa))"

lemma offsets_of:
  assumes "payload_size pa \<le> MaxAllocSize"
    and "length (pa_weights pa) = PgturbohybridQueryTokenWeightsBytes (header_of hdr0 pa)"
  shows "PgturbohybridQueryMultiVectorOffset (header_of hdr0 pa) = Inr (112 + MAXALIGN (length (pa_vector pa)))"
    "PgturbohybridQueryTsQueryOffset (header_of hdr0 pa) = Inr (112 + MAXALIGN (length (pa_vector pa)) + MAXALIGN (length (pa_multivector pa)))"
    "PgturbohybridQueryTokenWeightsOffset (header_of hdr0 pa) = Inr (112 + MAXALIGN (length (pa_vector pa)) +
       MAXALIGN (length (pa_multivector pa)) + MAXALIGN (length (pa_tsquery pa)))"
    "PgturbohybridQueryTokenMaskOffset (header_of hdr0 pa) = Inr (112 + MAXALIGN (length (pa_vector pa)) +
       MAXALIGN (length (pa_multivector pa)) + MAXALIGN (length (pa_tsquery pa)) + MAXALIGN (length (pa_weights pa)))"
proof -
  have h: "nat (q_vectorBytes (header_of hdr0 pa)) = length (pa_vector pa)" "nat (q_multivectorBytes (header_of hdr0 pa)) = length (pa_multivector pa)"
    "nat (q_tsqueryBytes (header_of hdr0 pa)) = length (pa_tsquery pa)" by (simp_all add: header_of_def)
  have s: "add_aligned off v = Inr (off + MAXALIGN v)" if "off + MAXALIGN v \<le> MaxAllocSize" for off v
    using that by (simp add: add_aligned_iff)
  note ps = assms(1) [unfolded payload_size_def]
  show m: "PgturbohybridQueryMultiVectorOffset (header_of hdr0 pa) = Inr (112 + MAXALIGN (length (pa_vector pa)))"
    unfolding PgturbohybridQueryMultiVectorOffset_def h header_offset using ps by (intro s) simp
  show t: "PgturbohybridQueryTsQueryOffset (header_of hdr0 pa) = Inr (112 + MAXALIGN (length (pa_vector pa)) + MAXALIGN (length (pa_multivector pa)))"
    unfolding PgturbohybridQueryTsQueryOffset_def m bindE_simps h using ps by (intro s) simp
  show w: "PgturbohybridQueryTokenWeightsOffset (header_of hdr0 pa) = Inr (112 + MAXALIGN (length (pa_vector pa)) +
       MAXALIGN (length (pa_multivector pa)) + MAXALIGN (length (pa_tsquery pa)))"
    unfolding PgturbohybridQueryTokenWeightsOffset_def t bindE_simps h using ps by (intro s) simp
  show "PgturbohybridQueryTokenMaskOffset (header_of hdr0 pa) = Inr (112 + MAXALIGN (length (pa_vector pa)) +
       MAXALIGN (length (pa_multivector pa)) + MAXALIGN (length (pa_tsquery pa)) + MAXALIGN (length (pa_weights pa)))"
    unfolding PgturbohybridQueryTokenMaskOffset_def w bindE_simps assms(2) [symmetric] using ps by (intro s) simp
qed

subsection \<open>Reading back\<close>

lemma length_put_u32s [simp]: "length (put_u32s ws) = 4 * length ws"
  by (induction ws) (simp_all add: put_u32s_def)

lemma u32s_put [codec_simps]: "u32s (put_u32s ws) = ws"
  by (induction ws) (simp_all add: put_u32s_def put_u32_def get_put_u32)

lemma u32_at_here: "u32_at (put_u32 w @ bs) 0 = w"
  using u32_at_put [of 0 "[]" w bs] by simp

lemma u32_at_skip: "length pre \<le> i \<Longrightarrow> u32_at (pre @ bs) i = u32_at bs (i - length pre)"
  by (simp add: u32_at_def nth_append Suc_diff_le)

lemma u16_at_skip: "length pre \<le> i \<Longrightarrow> u16_at (pre @ bs) i = u16_at bs (i - length pre)"
  by (simp add: u16_at_def nth_append Suc_diff_le)

lemma u16_at_here: "u16_at (put_u16 w @ bs) 0 = w"
  using u16_at_put [of 0 "[]" w bs] by simp

lemma vl_roundtrip: "n \<le> MaxAllocSize \<Longrightarrow> vl_size (vl_word n) = n"
proof -
  assume "n \<le> MaxAllocSize"
  then have "4 * n < 2 ^ LENGTH(32)" by (simp add: MaxAllocSize_def)
  then have "unat (word_of_nat (4 * n) :: u32) = 4 * n" by (simp only: unat_of_nat mod_less)
  then show ?thesis by (simp only: vl_size_def vl_word_def)
qed

lemma length_vector_bytes [simp]: "length (vector_bytes v) = 8 + 4 * length (v_x v)"
  by (simp add: vector_bytes_def)

lemma length_multivector_bytes [simp]: "length (multivector_bytes mv) = 16 + 4 * length (mv_words mv)"
  by (simp add: multivector_bytes_def)

lemma read_vector_bytes:
  assumes "v_size v = length (vector_bytes v)" "v_size v \<le> MaxAllocSize"
  shows "read_vector (vector_bytes v @ bs) = v"
proof -
  have sz: "u32_at (vector_bytes v @ bs) 0 = vl_word (v_size v)" by (simp add: vector_bytes_def u32_at_here)
  have dm: "u16_at (vector_bytes v @ bs) 4 = v_dim v" by (simp add: vector_bytes_def u16_at_skip u16_at_here)
  have un: "u16_at (vector_bytes v @ bs) 6 = v_unused v" by (simp add: vector_bytes_def u16_at_skip u16_at_here)
  have "drop 8 (vector_bytes v @ bs) = put_u32s (v_x v) @ bs" by (simp add: vector_bytes_def)
  then have x: "u32s (take (v_size v - 8) (drop 8 (vector_bytes v @ bs))) = v_x v" using assms(1) by (simp add: u32s_put)
  show ?thesis unfolding read_vector_def sz dm un Let_def vl_roundtrip [OF assms(2)] x by simp
qed

lemma read_multivector_bytes:
  assumes mem: "mv_memory mv" and sz: "mv_size mv = length (multivector_bytes mv)" "mv_size mv \<le> MaxAllocSize"
  shows "read_multivector (multivector_bytes mv @ bs) = mv"
proof -
  have s: "u32_at (multivector_bytes mv @ bs) 0 = vl_word (mv_size mv)" by (simp add: multivector_bytes_def u32_at_here)
  have dm: "u32_at (multivector_bytes mv @ bs) 4 = word_of_int (mv_dim mv)" by (simp add: multivector_bytes_def u32_at_skip u32_at_here)
  have cn: "u32_at (multivector_bytes mv @ bs) 8 = word_of_int (mv_count mv)" by (simp add: multivector_bytes_def u32_at_skip u32_at_here)
  have fl: "u32_at (multivector_bytes mv @ bs) 12 = mv_flags mv" by (simp add: multivector_bytes_def u32_at_skip u32_at_here)
  have "drop 16 (multivector_bytes mv @ bs) = put_u32s (mv_words mv) @ bs" by (simp add: multivector_bytes_def)
  then have x: "u32s (take (mv_size mv - 16) (drop 16 (multivector_bytes mv @ bs))) = mv_words mv" using sz(1) by (simp add: u32s_put)
  have i: "sint (word_of_int (mv_dim mv) :: u32) = mv_dim mv" "sint (word_of_int (mv_count mv) :: u32) = mv_count mv"
    using mem by (auto intro!: int32_roundtrip simp: mv_memory_def)
  show ?thesis unfolding read_multivector_def s dm cn fl Let_def vl_roundtrip [OF sz(2)] x i by simp
qed

subsection \<open>What the constructor computes\<close>

text \<open>The flags and the payload of the arguments.\<close>

definition payload_flags :: "query_args \<Rightarrow> u16" where
  "payload_flags a = (if a_vector a \<noteq> None then HAS_VECTOR OR HAS_DENSE else 0) OR (if a_tsquery a \<noteq> None then HAS_TSQUERY else 0) OR
     (if a_multivector a \<noteq> None then HAS_MULTIVECTOR OR HAS_DENSE else 0) OR (if a_tokenWeights a \<noteq> None then HAS_TOKEN_WEIGHTS else 0) OR
     (if a_tokenMask a \<noteq> None then HAS_TOKEN_MASK else 0)"

definition args_memory :: "query_args \<Rightarrow> bool" where
  \<comment> \<open>each varlena argument is as long as its length word says\<close>
  "args_memory a \<longleftrightarrow> (\<forall>v. a_vector a = Some v \<longrightarrow> v_size v = length (vector_bytes v)) \<and>
     (\<forall>mv. a_multivector a = Some mv \<longrightarrow> mv_memory mv)"

lemma checked_size:
  "mv_memory mv \<Longrightarrow> PgturbohybridCheckMultiVector (Some mv) = Inr () \<Longrightarrow> mv_size mv = length (multivector_bytes mv)"
proof -
  assume "mv_memory mv" "PgturbohybridCheckMultiVector (Some mv) = Inr ()"
  then obtain floats ctx where mv: "mv = build_mv (mv_count mv) (mv_dim mv) floats ctx" using check_gives_contents by blast
  have "mv_size m = length (multivector_bytes m)" if "m = build_mv c d floats ctx" for m c d
    unfolding that by (simp add: build_mv_unfold)
  then show ?thesis using mv by blast
qed

lemma token_weights_iff: "mapE token_weight xs = Inr ws \<longleftrightarrow> xs = map Some ws \<and> (\<forall>w \<in> set ws. weight_bits_ok w)"
proof -
  have "list_all2 (\<lambda>x y. x = Some y \<and> weight_bits_ok y) xs ws \<longleftrightarrow> xs = map Some ws \<and> (\<forall>w \<in> set ws. weight_bits_ok w)"
    by (induction xs arbitrary: ws) (auto simp: list_all2_Cons1 Cons_eq_map_conv)
  moreover have "token_weight x = Inr y \<longleftrightarrow> x = Some y \<and> weight_bits_ok y" for x y
    by (auto simp: token_weight_def bindE_Inr_iff)
  ultimately show ?thesis by (simp add: mapE_iff)
qed

lemma not_nulls_iff: "mapE (not_null code msg) xs = Inr ys \<longleftrightarrow> xs = map Some ys"
proof -
  have "list_all2 (\<lambda>x y. x = Some y) xs ys \<longleftrightarrow> xs = map Some ys"
    by (induction xs arbitrary: ys) (auto simp: list_all2_Cons1 Cons_eq_map_conv)
  then show ?thesis by (simp add: mapE_iff)
qed

definition payload_of :: "query_args \<Rightarrow> payload_args \<Rightarrow> bool" where
  "payload_of a pa \<longleftrightarrow>
     pa_vector pa = (case a_vector a of None \<Rightarrow> [] | Some v \<Rightarrow> vector_bytes v) \<and>
     pa_tsquery pa = (case a_tsquery a of None \<Rightarrow> [] | Some ts \<Rightarrow> ts) \<and>
     (case a_multivector a of None \<Rightarrow> pa_multivector pa = [] \<and> pa_dim pa = 0 \<and> pa_count pa = 0
      | Some mv \<Rightarrow> PgturbohybridCheckMultiVector (Some mv) = Inr () \<and> pa_multivector pa = multivector_bytes mv \<and>
          pa_dim pa = mv_dim mv \<and> pa_count pa = mv_count mv) \<and>
     (case a_tokenWeights a of None \<Rightarrow> pa_weights pa = []
      | Some arr \<Rightarrow> (\<exists>ws. arr_elements arr = map Some ws \<and> (\<forall>w \<in> set ws. weight_bits_ok w) \<and> pa_weights pa = put_u32s ws \<and>
          int (length ws) = pa_count pa \<and> 0 < pa_count pa)) \<and>
     (case a_tokenMask a of None \<Rightarrow> pa_mask pa = []
      | Some arr \<Rightarrow> (\<exists>bs. arr_elements arr = map Some bs \<and> pa_mask pa = map bool_byte bs \<and>
          int (length bs) = pa_count pa \<and> 0 < pa_count pa)) \<and>
     pa_flags pa = payload_flags a \<and>
     pa_denseKind pa = (if a_vector a \<noteq> None then DENSE_QUERY_VECTOR else if a_multivector a \<noteq> None then DENSE_QUERY_MULTIVECTOR
       else DENSE_QUERY_NONE)"

lemma read_payload_of:
  assumes mem: "args_memory a" and r: "read_payload a = Inr pa"
  shows "payload_of a pa"
proof -
  obtain p1 p2 p3 p4 where p: "arg_vector a no_payload = Inr p1" "arg_tsquery a p1 = Inr p2" "arg_multivector a p2 = Inr p3"
    "arg_weights a p3 = Inr p4" "arg_mask a p4 = Inr pa"
    using r by (auto simp: read_payload_def bindE_Inr_iff)
  have 1: "pa_vector p1 = (case a_vector a of None \<Rightarrow> [] | Some v \<Rightarrow> vector_bytes v)" "pa_tsquery p1 = []" "pa_multivector p1 = []"
    "pa_weights p1 = []" "pa_mask p1 = []" "pa_dim p1 = 0" "pa_count p1 = 0"
    "pa_flags p1 = (if a_vector a \<noteq> None then HAS_VECTOR OR HAS_DENSE else 0)"
    "pa_denseKind p1 = (if a_vector a \<noteq> None then DENSE_QUERY_VECTOR else DENSE_QUERY_NONE)"
    using p(1) mem by (atomize (full), cases "a_vector a")
      (auto simp: arg_vector_def bindE_Inr_iff args_memory_def no_payload_def simp del: length_vector_bytes)
  have 2: "pa_vector p2 = pa_vector p1" "pa_tsquery p2 = (case a_tsquery a of None \<Rightarrow> [] | Some ts \<Rightarrow> ts)" "pa_multivector p2 = []"
    "pa_weights p2 = []" "pa_mask p2 = []" "pa_dim p2 = 0" "pa_count p2 = 0"
    "pa_flags p2 = pa_flags p1 OR (if a_tsquery a \<noteq> None then HAS_TSQUERY else 0)" "pa_denseKind p2 = pa_denseKind p1"
    using p(2) 1 by (atomize (full), cases "a_tsquery a") (auto simp: arg_tsquery_def bindE_Inr_iff)
  have 3: "pa_vector p3 = pa_vector p2" "pa_tsquery p3 = pa_tsquery p2"
    "case a_multivector a of None \<Rightarrow> pa_multivector p3 = [] \<and> pa_dim p3 = 0 \<and> pa_count p3 = 0
      | Some mv \<Rightarrow> PgturbohybridCheckMultiVector (Some mv) = Inr () \<and> pa_multivector p3 = multivector_bytes mv \<and>
          pa_dim p3 = mv_dim mv \<and> pa_count p3 = mv_count mv"
    "pa_weights p3 = []" "pa_mask p3 = []"
    "pa_flags p3 = pa_flags p2 OR (if a_multivector a \<noteq> None then HAS_MULTIVECTOR OR HAS_DENSE else 0)"
    "pa_denseKind p3 = (if a_multivector a \<noteq> None \<and> pa_denseKind p2 = DENSE_QUERY_NONE then DENSE_QUERY_MULTIVECTOR else pa_denseKind p2)"
    using p(3) mem checked_size 2(3-7) by (atomize (full), cases "a_multivector a")
      (auto simp: arg_multivector_def bindE_Inr_iff args_memory_def simp del: length_multivector_bytes)
  have 4: "pa_vector p4 = pa_vector p3" "pa_tsquery p4 = pa_tsquery p3" "pa_multivector p4 = pa_multivector p3" "pa_dim p4 = pa_dim p3"
    "pa_count p4 = pa_count p3" "pa_mask p4 = []" "pa_denseKind p4 = pa_denseKind p3"
    "case a_tokenWeights a of None \<Rightarrow> pa_weights p4 = []
      | Some arr \<Rightarrow> (\<exists>ws. arr_elements arr = map Some ws \<and> (\<forall>w \<in> set ws. weight_bits_ok w) \<and> pa_weights p4 = put_u32s ws \<and>
          int (length ws) = pa_count p3 \<and> 0 < pa_count p3)"
    "pa_flags p4 = pa_flags p3 OR (if a_tokenWeights a \<noteq> None then HAS_TOKEN_WEIGHTS else 0)"
    using p(4) 3(4,5) by (atomize (full), cases "a_tokenWeights a")
      (auto simp: arg_weights_def bindE_Inr_iff invalid_arg_def token_weights_iff split: if_splits)
  have 5: "pa_vector pa = pa_vector p4" "pa_tsquery pa = pa_tsquery p4" "pa_multivector pa = pa_multivector p4" "pa_dim pa = pa_dim p4"
    "pa_count pa = pa_count p4" "pa_weights pa = pa_weights p4" "pa_denseKind pa = pa_denseKind p4"
    "case a_tokenMask a of None \<Rightarrow> pa_mask pa = []
      | Some arr \<Rightarrow> (\<exists>bs. arr_elements arr = map Some bs \<and> pa_mask pa = map bool_byte bs \<and>
          int (length bs) = pa_count p4 \<and> 0 < pa_count p4)"
    "pa_flags pa = pa_flags p4 OR (if a_tokenMask a \<noteq> None then HAS_TOKEN_MASK else 0)"
    using p(5) 4(6) by (atomize (full), cases "a_tokenMask a")
      (auto simp: arg_mask_def bindE_Inr_iff invalid_arg_def not_nulls_iff split: if_splits)
  have k: "pa_denseKind pa = (if a_vector a \<noteq> None then DENSE_QUERY_VECTOR else if a_multivector a \<noteq> None then DENSE_QUERY_MULTIVECTOR
       else DENSE_QUERY_NONE)"
    unfolding 5(7) 4(7) 3(7) 2(9) 1(9) by (simp add: DENSE_QUERY_NONE_def DENSE_QUERY_VECTOR_def)
  have f: "pa_flags pa = payload_flags a" unfolding 5(9) 4(9) 3(6) 2(8) 1(8) payload_flags_def by (simp only: or.assoc)
  show ?thesis unfolding payload_of_def using f k 1(1) 2(1,2) 3(1-3) 4(1-5,8) 5(1-6,8) by (simp only: simp_thms)
qed

definition scalar_flags :: "query_args \<Rightarrow> u16" where
  "scalar_flags a = (if a_alpha a \<noteq> None then ALPHA_IS_SET else 0) OR
     (if a_rrfK a = None then RRF_K_DEFAULTED else 0) OR (if a_denseK a = None then DENSE_K_DEFAULTED else 0) OR
     (if a_bm25K a = None then BM25_K_DEFAULTED else 0) OR (if a_finalK a \<noteq> None then FINAL_K_IS_SET else 0) OR
     (if the (a_requireBm25Match a) then REQUIRE_BM25_MATCH else 0)"

lemma parse_fusion_valid:
  "PgturbohybridQueryParseFusion nm = Inr fusion \<Longrightarrow> fusion \<in> {FUSION_RRF, FUSION_WEIGHTED, FUSION_FAST_WEIGHTED, FUSION_CALIBRATED, FUSION_DBSF}"
  by (auto simp: PgturbohybridQueryParseFusion_def split: option.splits if_splits)

lemma read_scalars_header:
  assumes "read_scalars g a flags denseKind = Inr h"
  shows "q_version h = QUERY_VERSION" "q_flags h = flags OR scalar_flags a" "PgturbohybridQueryParseFusion (a_fusion a) = Inr (q_fusion h)"
    "a_denseWeight a = Some (q_denseWeight h)" "a_bm25Weight a = Some (q_bm25Weight h)"
    "weight_ok (q_denseWeight h)" "weight_ok (q_bm25Weight h)" "weight_ok (q_multivectorWeight h)"
    "0 < q_rrfK h" "0 \<le> q_denseK h" "0 \<le> q_multivectorK h" "0 \<le> q_bm25K h" "\<And>k. a_finalK a = Some k \<Longrightarrow> q_finalK h = k \<and> 0 < k"
    "q_denseKind h = denseKind" "q_reservedBytes h = 0" "q_flags h AND (HAS_DENSE OR HAS_TSQUERY) \<noteq> 0"
proof -
  obtain fusion dw bw r where e: "PgturbohybridQueryParseFusion (a_fusion a) = Inr fusion"
    "arg_weight (a_denseWeight a) ''dense_weight must be a finite non-negative value'' = Inr dw"
    "arg_weight (a_bm25Weight a) ''bm25_weight must be a finite non-negative value'' = Inr bw"
    "weight_ok (case a_multivectorWeight a of None \<Rightarrow> Fin 1 | Some w \<Rightarrow> w)"
    "0 < (case a_rrfK a of None \<Rightarrow> default_rrf_k g | Some k \<Rightarrow> k)"
    "0 \<le> (case a_denseK a of None \<Rightarrow> default_dense_k g | Some k \<Rightarrow> k)"
    "0 \<le> (case a_multivectorK a of None \<Rightarrow> (case a_denseK a of None \<Rightarrow> default_dense_k g | Some k \<Rightarrow> k) | Some k \<Rightarrow> k)"
    "0 \<le> (case a_bm25K a of None \<Rightarrow> default_bm25_k g | Some k \<Rightarrow> k)"
    "(case a_finalK a of None \<Rightarrow> Inr () | Some k \<Rightarrow> PgturbohybridQueryCheckPositiveInt k) = Inr ()"
    "a_requireBm25Match a = Some r" "(flags OR scalar_flags a) AND (HAS_DENSE OR HAS_TSQUERY) \<noteq> 0"
    and h: "h = \<lparr>q_version = QUERY_VERSION, q_flags = flags OR scalar_flags a, q_fusion = fusion, q_denseWeight = dw, q_bm25Weight = bw,
       q_multivectorWeight = (case a_multivectorWeight a of None \<Rightarrow> Fin 1 | Some w \<Rightarrow> w),
       q_alpha = (case a_alpha a of None \<Rightarrow> Fin 0 | Some x \<Rightarrow> x),
       q_rrfK = (case a_rrfK a of None \<Rightarrow> default_rrf_k g | Some k \<Rightarrow> k),
       q_denseK = (case a_denseK a of None \<Rightarrow> default_dense_k g | Some k \<Rightarrow> k),
       q_multivectorK = (case a_multivectorK a of None \<Rightarrow> (case a_denseK a of None \<Rightarrow> default_dense_k g | Some k \<Rightarrow> k) | Some k \<Rightarrow> k),
       q_bm25K = (case a_bm25K a of None \<Rightarrow> default_bm25_k g | Some k \<Rightarrow> k), q_finalK = (case a_finalK a of None \<Rightarrow> 0 | Some k \<Rightarrow> k),
       q_denseKind = denseKind, q_vectorBytes = 0, q_multivectorBytes = 0, q_tsqueryBytes = 0, q_multivectorDim = 0,
       q_multivectorCount = 0, q_reservedBytes = 0\<rparr>"
    using assms unfolding read_scalars_def Let_def bindE_Inr_iff PgturbohybridQueryCheckPositiveInt_def
      PgturbohybridQueryCheckNonNegativeInt_def ensure_ok not_null_iff
    by (elim exE conjE) (simp add: scalar_flags_def or.assoc)
  show "q_version h = QUERY_VERSION" "q_flags h = flags OR scalar_flags a" "PgturbohybridQueryParseFusion (a_fusion a) = Inr (q_fusion h)"
    "weight_ok (q_multivectorWeight h)" "0 < q_rrfK h" "0 \<le> q_denseK h" "0 \<le> q_multivectorK h" "0 \<le> q_bm25K h"
    "q_denseKind h = denseKind" "q_reservedBytes h = 0" "q_flags h AND (HAS_DENSE OR HAS_TSQUERY) \<noteq> 0"
    using e h by simp_all
  show "a_denseWeight a = Some (q_denseWeight h)" "a_bm25Weight a = Some (q_bm25Weight h)" "weight_ok (q_denseWeight h)" "weight_ok (q_bm25Weight h)"
    using e(2,3) h by (auto simp: arg_weight_def bindE_Inr_iff)
  show "\<And>k. a_finalK a = Some k \<Longrightarrow> q_finalK h = k \<and> 0 < k"
    using e(9) h by (simp add: PgturbohybridQueryCheckPositiveInt_def)
qed

lemma flag_or: "(x OR y) AND m \<noteq> 0 \<longleftrightarrow> x AND m \<noteq> 0 \<or> y AND m \<noteq> 0" for x y m :: u16
  by (simp add: bit.conj_disj_distrib2 or_eq_0_iff)

text \<open>The payload flags say which arguments are present.\<close>

lemma payload_flag_bits:
  assumes "q_flags h = payload_flags a OR scalar_flags a"
  shows "has_flag h HAS_VECTOR \<longleftrightarrow> a_vector a \<noteq> None" "has_flag h HAS_TSQUERY \<longleftrightarrow> a_tsquery a \<noteq> None"
    "has_flag h HAS_MULTIVECTOR \<longleftrightarrow> a_multivector a \<noteq> None" "has_flag h HAS_TOKEN_WEIGHTS \<longleftrightarrow> a_tokenWeights a \<noteq> None"
    "has_flag h HAS_TOKEN_MASK \<longleftrightarrow> a_tokenMask a \<noteq> None" "has_flag h HAS_DENSE \<longleftrightarrow> a_vector a \<noteq> None \<or> a_multivector a \<noteq> None"
    "has_flag h FINAL_K_IS_SET \<longleftrightarrow> a_finalK a \<noteq> None" "\<not> has_flag h UNSUPPORTED_MASK"
  unfolding has_flag_def assms payload_flags_def scalar_flags_def flag_or
  by (simp_all add: flag_defs)

lemma token_bytes:
  assumes p: "payload_of a pa" and fl: "q_flags h = payload_flags a OR scalar_flags a"
  shows "length (pa_weights pa) = PgturbohybridQueryTokenWeightsBytes (header_of h pa)"
    "length (pa_mask pa) = PgturbohybridQueryTokenMaskBytes (header_of h pa)"
proof -
  have f: "has_flag (header_of h pa) m = has_flag h m" for m by (simp add: has_flag_def header_of_def)
  have c: "q_multivectorCount (header_of h pa) = pa_count pa" by (simp add: header_of_def)
  show "length (pa_weights pa) = PgturbohybridQueryTokenWeightsBytes (header_of h pa)"
    unfolding PgturbohybridQueryTokenWeightsBytes_def f c payload_flag_bits(4) [OF fl]
    using p by (cases "a_tokenWeights a") (auto simp: payload_of_def)
  show "length (pa_mask pa) = PgturbohybridQueryTokenMaskBytes (header_of h pa)"
    unfolding PgturbohybridQueryTokenMaskBytes_def f c payload_flag_bits(5) [OF fl]
    using p by (cases "a_tokenMask a") (auto simp: payload_of_def)
qed

lemma construct_layout:
  assumes mem: "args_memory a" and p: "read_payload a = Inr pa" and h: "read_scalars g a (pa_flags pa) (pa_denseKind pa) = Inr h"
    and sz: "payload_size pa \<le> MaxAllocSize"
  shows "construct_query g a = bindE (PgturbohybridQueryValidate (layout_of h pa)) (\<lambda>_. Inr (layout_of h pa))"
proof -
  note po = read_payload_of [OF mem p]
  have fl: "q_flags h = payload_flags a OR scalar_flags a" using read_scalars_header(2) [OF h] po by (simp add: payload_of_def)
  note off = offsets_of [OF sz token_bytes(1) [OF po fl]]
  let ?V = "pa_vector pa" and ?M = "pa_multivector pa" and ?T = "pa_tsquery pa" and ?W = "pa_weights pa" and ?K = "pa_mask pa"
  let ?al = "\<lambda>bs :: bytes. MAXALIGN (length bs)"
  have t: "add_aligned 112 (length ?V) = Inr (112 + ?al ?V)" "add_aligned (112 + ?al ?V) (length ?M) = Inr (112 + ?al ?V + ?al ?M)"
    "add_aligned (112 + ?al ?V + ?al ?M) (length ?T) = Inr (112 + ?al ?V + ?al ?M + ?al ?T)"
    "add_aligned (112 + ?al ?V + ?al ?M + ?al ?T) (length ?W) = Inr (112 + ?al ?V + ?al ?M + ?al ?T + ?al ?W)"
    "add_aligned (112 + ?al ?V + ?al ?M + ?al ?T + ?al ?W) (length ?K) = Inr (payload_size pa)"
    using sz by (simp_all add: add_aligned_iff payload_size_def)
  have none: "a_vector a = None \<Longrightarrow> ?V = []" "a_multivector a = None \<Longrightarrow> ?M = []" "a_tsquery a = None \<Longrightarrow> ?T = []"
    "a_tokenWeights a = None \<Longrightarrow> ?W = []" "a_tokenMask a = None \<Longrightarrow> ?K = []"
    using po by (auto simp: payload_of_def)
  have c1: "copy_if (a_vector a \<noteq> None) (Inr 112) ?V (replicate (payload_size pa - 112) 0) =
      Inr (pad ?V @ replicate (?al ?M + (?al ?T + (?al ?W + ?al ?K))) 0)"
    using copy_next [of "a_vector a \<noteq> None" ?V "Inr 112" "[]" "?al ?M + (?al ?T + (?al ?W + ?al ?K))"] none(1)
    by (simp add: payload_size_def add.assoc)
  have c2: "copy_if (a_multivector a \<noteq> None) (PgturbohybridQueryMultiVectorOffset (header_of h pa)) ?M
      (pad ?V @ replicate (?al ?M + (?al ?T + (?al ?W + ?al ?K))) 0) = Inr ((pad ?V @ pad ?M) @ replicate (?al ?T + (?al ?W + ?al ?K)) 0)"
    unfolding off append_assoc by (rule copy_next) (use none(2) in simp_all)
  have c3: "copy_if (a_tsquery a \<noteq> None) (PgturbohybridQueryTsQueryOffset (header_of h pa)) ?T
      ((pad ?V @ pad ?M) @ replicate (?al ?T + (?al ?W + ?al ?K)) 0) = Inr ((pad ?V @ pad ?M @ pad ?T) @ replicate (?al ?W + ?al ?K) 0)"
    unfolding off using copy_next [of "a_tsquery a \<noteq> None" ?T _ "pad ?V @ pad ?M"] none(3) by simp
  have c4: "copy_if (a_tokenWeights a \<noteq> None) (PgturbohybridQueryTokenWeightsOffset (header_of h pa)) ?W
      ((pad ?V @ pad ?M @ pad ?T) @ replicate (?al ?W + ?al ?K) 0) = Inr ((pad ?V @ pad ?M @ pad ?T @ pad ?W) @ replicate (?al ?K + 0) 0)"
    unfolding off using copy_next [of "a_tokenWeights a \<noteq> None" ?W _ "pad ?V @ pad ?M @ pad ?T"] none(4) by (simp add: add.assoc)
  have c5: "copy_if (a_tokenMask a \<noteq> None) (PgturbohybridQueryTokenMaskOffset (header_of h pa)) ?K
      ((pad ?V @ pad ?M @ pad ?T @ pad ?W) @ replicate (?al ?K + 0) 0) = Inr (qv_payload (layout_of h pa))"
    unfolding off using copy_next [of "a_tokenMask a \<noteq> None" ?K _ "pad ?V @ pad ?M @ pad ?T @ pad ?W" 0] none(5)
    by (simp add: add.assoc layout_of_def)
  show ?thesis unfolding construct_query_def p h bindE_simps header_offset t Let_def header_of_def [symmetric] c1 c2 c3 c4 c5
    by (simp add: layout_of_def)
qed

lemma construct_too_large:
  assumes "read_payload a = Inr pa" "read_scalars g a (pa_flags pa) (pa_denseKind pa) = Inr h" "\<not> payload_size pa \<le> MaxAllocSize"
  shows "construct_query g a \<noteq> Inr q"
  using assms(3) unfolding construct_query_def assms(1,2) bindE_simps
  by (auto simp: bindE_Inr_iff add_aligned_iff payload_size_def)

text \<open>The segments of a value.\<close>

lemma segments:
  "at_offset (layout_of h pa) 112 = pad (pa_vector pa) @ pad (pa_multivector pa) @ pad (pa_tsquery pa) @ pad (pa_weights pa) @ pad (pa_mask pa)"
  "at_offset (layout_of h pa) (112 + MAXALIGN (length (pa_vector pa))) =
     pad (pa_multivector pa) @ pad (pa_tsquery pa) @ pad (pa_weights pa) @ pad (pa_mask pa)"
  "at_offset (layout_of h pa) (112 + MAXALIGN (length (pa_vector pa)) + MAXALIGN (length (pa_multivector pa))) =
     pad (pa_tsquery pa) @ pad (pa_weights pa) @ pad (pa_mask pa)"
  "at_offset (layout_of h pa) (112 + MAXALIGN (length (pa_vector pa)) + MAXALIGN (length (pa_multivector pa)) + MAXALIGN (length (pa_tsquery pa))) =
     pad (pa_weights pa) @ pad (pa_mask pa)"
  "at_offset (layout_of h pa) (112 + MAXALIGN (length (pa_vector pa)) + MAXALIGN (length (pa_multivector pa)) + MAXALIGN (length (pa_tsquery pa)) +
     MAXALIGN (length (pa_weights pa))) = pad (pa_mask pa)"
  by (simp_all add: at_offset_def layout_of_def)

subsection \<open>Validation of a value that was built\<close>

text \<open>A value built from the arguments \<open>a\<close>, whose memory is what their length words say.\<close>

definition built :: "query_args \<Rightarrow> query_defaults \<Rightarrow> payload_args \<Rightarrow> query \<Rightarrow> bool" where
  "built a g pa h \<longleftrightarrow> args_memory a \<and> read_payload a = Inr pa \<and> read_scalars g a (pa_flags pa) (pa_denseKind pa) = Inr h \<and>
     payload_size pa \<le> MaxAllocSize"

lemma builtD:
  assumes "built a g pa h"
  shows "payload_of a pa" "q_flags h = payload_flags a OR scalar_flags a" "payload_size pa \<le> MaxAllocSize"
    "has_flag (header_of h pa) m = has_flag h m"
proof -
  show p: "payload_of a pa" using assms read_payload_of by (simp add: built_def)
  have f: "pa_flags pa = payload_flags a" using p by (simp add: payload_of_def)
  have r: "read_scalars g a (pa_flags pa) (pa_denseKind pa) = Inr h" using assms by (simp add: built_def)
  show "q_flags h = payload_flags a OR scalar_flags a" using read_scalars_header(2) [OF r] f by simp
  show "payload_size pa \<le> MaxAllocSize" using assms by (simp add: built_def)
  show "has_flag (header_of h pa) m = has_flag h m" by (simp add: has_flag_def header_of_def)
qed

lemma validate_header_built:
  assumes b: "built a g pa h"
  shows "validate_header (header_of h pa) = Inr ()"
proof -
  note bd = builtD [OF b]
  note f = payload_flag_bits [OF bd(2)]
  have r: "read_scalars g a (pa_flags pa) (pa_denseKind pa) = Inr h" using b by (simp add: built_def)
  note s = read_scalars_header [OF r]
  have k: "q_denseKind h = (if a_vector a \<noteq> None then DENSE_QUERY_VECTOR else if a_multivector a \<noteq> None then DENSE_QUERY_MULTIVECTOR
       else DENSE_QUERY_NONE)" using s(14) bd(1) by (simp add: payload_of_def)
  have "q_flags h AND (HAS_VECTOR OR HAS_MULTIVECTOR) = 0 \<longleftrightarrow> \<not> has_flag h HAS_VECTOR \<and> \<not> has_flag h HAS_MULTIVECTOR"
    by (simp add: has_flag_def bit.conj_disj_distrib or_eq_0_iff)
  then have dense: "has_flag h HAS_DENSE \<longrightarrow> \<not> (q_denseKind h = DENSE_QUERY_NONE \<or> q_flags h AND (HAS_VECTOR OR HAS_MULTIVECTOR) = 0)"
    "\<not> has_flag h HAS_DENSE \<longrightarrow> q_denseKind h = DENSE_QUERY_NONE"
    unfolding f k by (auto simp: DENSE_QUERY_NONE_def DENSE_QUERY_VECTOR_def DENSE_QUERY_MULTIVECTOR_def)
  have fin: "has_flag h FINAL_K_IS_SET \<longrightarrow> 0 < q_finalK h" unfolding f(7) using s(13) by auto
  have q: "q_version (header_of h pa) = q_version h" "q_fusion (header_of h pa) = q_fusion h" "q_denseWeight (header_of h pa) = q_denseWeight h"
    "q_bm25Weight (header_of h pa) = q_bm25Weight h" "q_multivectorWeight (header_of h pa) = q_multivectorWeight h"
    "q_denseKind (header_of h pa) = q_denseKind h" "q_rrfK (header_of h pa) = q_rrfK h" "q_denseK (header_of h pa) = q_denseK h"
    "q_multivectorK (header_of h pa) = q_multivectorK h" "q_bm25K (header_of h pa) = q_bm25K h" "q_finalK (header_of h pa) = q_finalK h"
    "q_flags (header_of h pa) = q_flags h" "\<not> q_vectorBytes (header_of h pa) < 0" "\<not> q_multivectorBytes (header_of h pa) < 0"
    "\<not> q_tsqueryBytes (header_of h pa) < 0" by (simp_all add: header_of_def)
  have kinds: "q_denseKind h \<in> {DENSE_QUERY_NONE, DENSE_QUERY_VECTOR, DENSE_QUERY_MULTIVECTOR}" unfolding k by simp
  have c: "(weight_ok (q_denseWeight h) \<and> weight_ok (q_bm25Weight h) \<and> weight_ok (q_multivectorWeight h)) = True"
    "(\<not> (q_rrfK h \<le> 0 \<or> q_denseK h < 0 \<or> q_multivectorK h < 0 \<or> q_bm25K h < 0 \<or> (has_flag h FINAL_K_IS_SET \<and> q_finalK h \<le> 0))) = True"
    "(\<not> has_flag h HAS_DENSE \<and> q_denseKind h \<noteq> DENSE_QUERY_NONE) = False"
    "(has_flag h HAS_DENSE \<and> (q_denseKind h = DENSE_QUERY_NONE \<or> q_flags h AND (HAS_VECTOR OR HAS_MULTIVECTOR) = 0)) = False"
    using s(6-12) fin dense by (simp_all add: not_le not_less, blast+)
  show ?thesis
    unfolding validate_header_def q bd(4) s(1) c eqTrueI [OF parse_fusion_valid [OF s(3)]] eqTrueI [OF kinds]
    by (simp only: ensure_True bindE_simps if_False simp_thms q)
qed

lemma check_vector_size:
  "PgturbohybridCheckVectorInternal (Some v) strict = Inr d \<Longrightarrow> v_size v = VECTOR_SIZE (sint (v_dim v))"
  by (auto simp: PgturbohybridCheckVectorInternal_def Let_def malformed_vector_def bindE_Inr_iff split: if_splits)

lemma read_built_vector:
  assumes b: "built a g pa h" and v: "a_vector a = Some v"
  shows "read_vector (at_offset (layout_of h pa) 112) = v" "length (pa_vector pa) = v_size v"
proof -
  have p: "pa_vector pa = vector_bytes v" and m: "v_size v = length (vector_bytes v)" and sz: "payload_size pa \<le> MaxAllocSize"
    using builtD(1,3) [OF b] b v by (simp_all add: payload_of_def built_def args_memory_def)
  have "v_size v \<le> MaxAllocSize" using sz MAXALIGN_ge [of "length (pa_vector pa)"] p m by (simp add: payload_size_def)
  then show "read_vector (at_offset (layout_of h pa) 112) = v"
    unfolding segments p pad_def append_assoc by (rule read_vector_bytes [OF m])
  show "length (pa_vector pa) = v_size v" using p m by simp
qed

lemma validate_vector_built:
  assumes b: "built a g pa h"
  shows "validate_vector (layout_of h pa) strict = (case a_vector a of None \<Rightarrow> Inr ()
    | Some v \<Rightarrow> bindE (PgturbohybridCheckVectorInternal (Some v) strict) (\<lambda>_. Inr ()))"
proof -
  note bd = builtD [OF b]
  note f = payload_flag_bits [OF bd(2)]
  have q: "qv_hdr (layout_of h pa) = header_of h pa" "qv_size (layout_of h pa) = payload_size pa" by (simp_all add: layout_of_def)
  show ?thesis
  proof (cases "a_vector a")
    case None
    then have "q_vectorBytes (header_of h pa) = 0" using bd(1) by (simp add: header_of_def payload_of_def)
    then show ?thesis using None f(1) by (simp add: validate_vector_def q bd(4))
  next
    case (Some v)
    note rv = read_built_vector [OF b Some]
    have n: "nat (q_vectorBytes (header_of h pa)) = v_size v" using rv(2) by (simp add: header_of_def)
    have "112 + v_size v \<le> payload_size pa" using MAXALIGN_ge [of "length (pa_vector pa)"] rv(2) by (simp add: payload_size_def)
    moreover have "PgturbohybridQuerySizeAdd 112 (v_size v) = Inr (112 + v_size v)"
      using calculation bd(3) by (subst size_add_iff) simp_all
    moreover have "bindE (PgturbohybridCheckVectorInternal (Some v) strict)
        (\<lambda>_. if v_size v \<noteq> VECTOR_SIZE (sint (v_dim v)) then vector_inconsistent else Inr ()) =
        bindE (PgturbohybridCheckVectorInternal (Some v) strict) (\<lambda>_. Inr ())"
      using check_vector_size [of v strict] by (cases "PgturbohybridCheckVectorInternal (Some v) strict") simp_all
    ultimately show ?thesis using f(1,6) Some
      by (simp add: validate_vector_def q bd(4) n rv(1))
  qed
qed

lemma read_built_multivector:
  assumes b: "built a g pa h" and mv: "a_multivector a = Some mv"
  shows "read_multivector (at_offset (layout_of h pa) (112 + MAXALIGN (length (pa_vector pa)))) = mv"
    "length (pa_multivector pa) = mv_size mv" "PgturbohybridCheckMultiVector (Some mv) = Inr ()"
proof -
  have p: "pa_multivector pa = multivector_bytes mv" "PgturbohybridCheckMultiVector (Some mv) = Inr ()" and m: "mv_memory mv"
    and sz: "payload_size pa \<le> MaxAllocSize"
    using builtD(1,3) [OF b] b mv by (simp_all add: payload_of_def built_def args_memory_def)
  note sm = checked_size [OF m p(2)]
  have "mv_size mv \<le> MaxAllocSize" using sz MAXALIGN_ge [of "length (pa_multivector pa)"] p sm by (simp add: payload_size_def)
  then show "read_multivector (at_offset (layout_of h pa) (112 + MAXALIGN (length (pa_vector pa)))) = mv"
    unfolding segments p pad_def append_assoc by (rule read_multivector_bytes [OF m sm])
  show "length (pa_multivector pa) = mv_size mv" "PgturbohybridCheckMultiVector (Some mv) = Inr ()" using p sm by simp_all
qed

lemma validate_multivector_built:
  assumes b: "built a g pa h"
  shows "validate_multivector (layout_of h pa) = Inr ()"
proof -
  note bd = builtD [OF b]
  note f = payload_flag_bits [OF bd(2)]
  note off = offsets_of [OF bd(3) token_bytes(1) [OF bd(1,2)]]
  have q: "qv_hdr (layout_of h pa) = header_of h pa" "qv_size (layout_of h pa) = payload_size pa" by (simp_all add: layout_of_def)
  show ?thesis
  proof (cases "a_multivector a")
    case None
    then have "q_multivectorBytes (header_of h pa) = 0" "q_multivectorDim (header_of h pa) = 0" "q_multivectorCount (header_of h pa) = 0"
      using bd(1) by (simp_all add: header_of_def payload_of_def)
    then show ?thesis using None f(3) by (simp add: validate_multivector_def q bd(4) off)
  next
    case (Some mv)
    note rm = read_built_multivector [OF b Some]
    have n: "nat (q_multivectorBytes (header_of h pa)) = mv_size mv" "q_multivectorDim (header_of h pa) = mv_dim mv"
      "q_multivectorCount (header_of h pa) = mv_count mv"
      using rm(2) bd(1) Some by (simp_all add: header_of_def payload_of_def)
    let ?o = "112 + MAXALIGN (length (pa_vector pa))"
    have "?o + mv_size mv \<le> payload_size pa" using MAXALIGN_ge [of "length (pa_multivector pa)"] rm(2) by (simp add: payload_size_def)
    moreover have "PgturbohybridQuerySizeAdd ?o (mv_size mv) = Inr (?o + mv_size mv)"
      using calculation bd(3) by (subst size_add_iff) simp_all
    ultimately show ?thesis using f(3,6) Some rm(1,3)
      by (simp add: validate_multivector_def q bd(4) n off)
  qed
qed

lemma stored_weights_built:
  assumes b: "built a g pa h" and w: "a_tokenWeights a = Some arr"
  shows "\<exists>ws. arr_elements arr = map Some ws \<and> list_all weight_bits_ok ws \<and>
    stored_weights (layout_of h pa) (112 + MAXALIGN (length (pa_vector pa)) + MAXALIGN (length (pa_multivector pa)) +
      MAXALIGN (length (pa_tsquery pa))) = ws"
proof -
  obtain ws where ws: "arr_elements arr = map Some ws" "\<forall>w \<in> set ws. weight_bits_ok w" "pa_weights pa = put_u32s ws"
    "int (length ws) = pa_count pa" using builtD(1) [OF b] w by (auto simp: payload_of_def)
  have n: "nat (q_multivectorCount (qv_hdr (layout_of h pa))) * 4 = length (pa_weights pa)"
    using ws(3,4) by (simp add: layout_of_def header_of_def)
  have "stored_weights (layout_of h pa) (112 + MAXALIGN (length (pa_vector pa)) + MAXALIGN (length (pa_multivector pa)) +
      MAXALIGN (length (pa_tsquery pa))) = ws"
    unfolding stored_weights_def n segments take_pad ws(3) by (rule u32s_put)
  then show ?thesis using ws by (auto simp: list_all_iff)
qed

lemma stored_mask_built:
  assumes b: "built a g pa h" and m: "a_tokenMask a = Some arr"
  shows "\<exists>bs. arr_elements arr = map Some bs \<and>
    map (\<lambda>b. b \<noteq> 0) (take (nat (q_multivectorCount (header_of h pa))) (pad (pa_mask pa))) = bs"
proof -
  obtain bs where bs: "arr_elements arr = map Some bs" "pa_mask pa = map bool_byte bs" "int (length bs) = pa_count pa"
    using builtD(1) [OF b] m by (auto simp: payload_of_def)
  have n: "nat (q_multivectorCount (header_of h pa)) = length (pa_mask pa)" using bs by (simp add: header_of_def)
  have "take (length (pa_mask pa)) (pad (pa_mask pa)) = pa_mask pa" using take_pad [of "pa_mask pa" "[]"] by simp
  then have "map (\<lambda>b. b \<noteq> 0) (take (nat (q_multivectorCount (header_of h pa))) (pad (pa_mask pa))) = bs"
    unfolding n bs(2) by (simp add: comp_def bool_byte_def)
  then show ?thesis using bs(1) by blast
qed

lemma validate_rest_built:
  assumes b: "built a g pa h"
  shows "validate_rest (layout_of h pa) = Inr ()"
proof -
  note bd = builtD [OF b]
  note f = payload_flag_bits [OF bd(2)]
  note tb = token_bytes [OF bd(1,2)]
  note off = offsets_of [OF bd(3) tb(1)]
  have q: "qv_hdr (layout_of h pa) = header_of h pa" "qv_size (layout_of h pa) = payload_size pa" by (simp_all add: layout_of_def)
  let ?V = "pa_vector pa" and ?M = "pa_multivector pa" and ?T = "pa_tsquery pa" and ?W = "pa_weights pa" and ?K = "pa_mask pa"
  let ?al = "\<lambda>bs :: bytes. MAXALIGN (length bs)"
  have tsz: "nat (q_tsqueryBytes (header_of h pa)) = length ?T" "q_tsqueryBytes (header_of h pa) = int (length ?T)" by (simp_all add: header_of_def)
  have add: "PgturbohybridQuerySizeAdd o' (length bs) = Inr (o' + length bs) \<and> o' + length bs \<le> payload_size pa"
    if "o' + ?al bs \<le> payload_size pa" for o' and bs :: bytes
    using that bd(3) MAXALIGN_ge [of "length bs"] by (simp add: size_add_iff)
  have t1: "PgturbohybridQuerySizeAdd (112 + ?al ?V + ?al ?M) (length ?T) = Inr (112 + ?al ?V + ?al ?M + length ?T)"
      "\<not> 112 + ?al ?V + ?al ?M + length ?T > payload_size pa"
    using add [of "112 + ?al ?V + ?al ?M" ?T] by (simp_all add: payload_size_def)
  have t2: "PgturbohybridQuerySizeAdd (112 + ?al ?V + ?al ?M + ?al ?T) (length ?W) = Inr (112 + ?al ?V + ?al ?M + ?al ?T + length ?W)"
      "\<not> 112 + ?al ?V + ?al ?M + ?al ?T + length ?W > payload_size pa"
    using add [of "112 + ?al ?V + ?al ?M + ?al ?T" ?W] by (simp_all add: payload_size_def)
  have t3: "PgturbohybridQuerySizeAdd (112 + ?al ?V + ?al ?M + ?al ?T + ?al ?W) (length ?K) = Inr (112 + ?al ?V + ?al ?M + ?al ?T + ?al ?W + length ?K)"
      "\<not> 112 + ?al ?V + ?al ?M + ?al ?T + ?al ?W + length ?K > payload_size pa"
    using add [of "112 + ?al ?V + ?al ?M + ?al ?T + ?al ?W" ?K] by (simp_all add: payload_size_def)
  have e: "add_aligned (112 + ?al ?V + ?al ?M + ?al ?T + ?al ?W) (length ?K) = Inr (payload_size pa)"
    using bd(3) by (simp add: add_aligned_iff payload_size_def)
  have w: "a_tokenWeights a \<noteq> None \<longrightarrow> list_all weight_bits_ok (stored_weights (layout_of h pa) (112 + ?al ?V + ?al ?M + ?al ?T))"
    using stored_weights_built [OF b] by auto
  have tokens: "\<not> ((a_tokenWeights a \<noteq> None \<or> a_tokenMask a \<noteq> None) \<and> \<not> PgturbohybridQueryHasMultiVector (header_of h pa))"
    using bd(1) by (auto simp: PgturbohybridQueryHasMultiVector_def bd(4) f payload_of_def split: option.splits)
  have ts: "\<not> (\<not> a_tsquery a \<noteq> None \<and> q_tsqueryBytes (header_of h pa) \<noteq> 0)"
    using bd(1) by (cases "a_tsquery a") (auto simp: tsz payload_of_def)
  have rb: "\<not> (has_flag h UNSUPPORTED_MASK \<or> q_reservedBytes (header_of h pa) \<noteq> 0)"
  proof -
    have r: "read_scalars g a (pa_flags pa) (pa_denseKind pa) = Inr h" using b by (simp add: built_def)
    show ?thesis using f(8) read_scalars_header(15) [OF r] by (simp add: header_of_def)
  qed
  show ?thesis
    unfolding validate_rest_def q bd(4) f(2,4,5) off bindE_simps tsz(1) t1(1) tb [symmetric] t2(1) t3(1) e Let_def
    by (simp only: eqTrueI [OF tokens] eqTrueI [OF ts] eqTrueI [OF rb] eqTrueI [OF w] t1(2) t2(2) t3(2)
        ensure_True bindE_simps if_False) simp
qed

lemma validate_built:
  assumes "built a g pa h"
  shows "PgturbohybridQueryValidateInternal (Some (layout_of h pa)) strict = (case a_vector a of None \<Rightarrow> Inr ()
    | Some v \<Rightarrow> bindE (PgturbohybridCheckVectorInternal (Some v) strict) (\<lambda>_. Inr ()))"
proof -
  have "\<not> qv_size (layout_of h pa) < 112" "qv_hdr (layout_of h pa) = header_of h pa" by (simp_all add: layout_of_def payload_size_def)
  then show ?thesis
    by (simp add: PgturbohybridQueryValidateInternal_def validate_header_built [OF assms] validate_vector_built [OF assms]
        validate_multivector_built [OF assms] validate_rest_built [OF assms] split: option.split)
      (simp add: bindE_def split: sum.split)
qed

lemma construct_accepts:
  assumes mem: "args_memory a"
  shows "(\<exists>q. construct_query g a = Inr q) \<longleftrightarrow>
    (\<exists>pa h. read_payload a = Inr pa \<and> read_scalars g a (pa_flags pa) (pa_denseKind pa) = Inr h \<and> payload_size pa \<le> MaxAllocSize) \<and>
    (\<forall>v. a_vector a = Some v \<longrightarrow> PgturbohybridCheckVector v = Inr ())"
proof (cases "\<exists>pa h. read_payload a = Inr pa \<and> read_scalars g a (pa_flags pa) (pa_denseKind pa) = Inr h")
  case True
  then obtain pa h where p: "read_payload a = Inr pa" "read_scalars g a (pa_flags pa) (pa_denseKind pa) = Inr h" by blast
  show ?thesis
  proof (cases "payload_size pa \<le> MaxAllocSize")
    case True
    then have b: "built a g pa h" using mem p by (simp add: built_def)
    have "PgturbohybridQueryValidate (layout_of h pa) = (case a_vector a of None \<Rightarrow> Inr () | Some v \<Rightarrow> PgturbohybridCheckVector v)"
      using validate_built [OF b, of True]
      by (cases "a_vector a") (simp_all add: PgturbohybridQueryValidate_def PgturbohybridCheckVector_def)
    then show ?thesis unfolding construct_layout [OF mem p True] using p True
      by (cases "a_vector a") (auto simp: bindE_Inr_iff)
  next
    case False
    then show ?thesis using construct_too_large [OF p False] p by simp
  qed
next
  case False
  then show ?thesis by (auto simp: construct_query_def bindE_Inr_iff)
qed

section \<open>Properties\<close>

text \<open>
  C20. The constructor of a query fails only for a reason an argument gives: it builds a value
  exactly when the payload and the scalar arguments are accepted, the value fits the allocation
  limit, and the vector is well formed. The validation of the finished value never adds a failure.
\<close>

theorem query_constructor_accepts:
  assumes mem: "args_memory a"
  shows "(\<exists>q. construct_query g a = Inr q) \<longleftrightarrow>
    (\<exists>pa h. read_payload a = Inr pa \<and> read_scalars g a (pa_flags pa) (pa_denseKind pa) = Inr h \<and> payload_size pa \<le> MaxAllocSize) \<and>
    (\<forall>v. a_vector a = Some v \<longrightarrow> PgturbohybridCheckVector v = Inr ())"
  using mem by (rule construct_accepts)

text \<open>
  C21. What goes in comes out: the getters of a query return the vector, the multivector, the
  text query, the token weights and the token mask that the constructor was given, bit for bit,
  and nothing for an argument that was not given.
\<close>

theorem query_getters_roundtrip:
  assumes mem: "args_memory a" and q: "construct_query g a = Inr q"
  shows "PgturbohybridQueryGetVector q = Inr (a_vector a) \<and>
    PgturbohybridQueryGetMultiVector q = Inr (a_multivector a) \<and>
    PgturbohybridQueryGetTsQuery q = Inr (a_tsquery a) \<and>
    PgturbohybridQueryGetTokenWeights q = Inr (map_option (map the \<circ> arr_elements) (a_tokenWeights a)) \<and>
    PgturbohybridQueryGetTokenMask q = Inr (map_option (map the \<circ> arr_elements) (a_tokenMask a))"
proof -
  obtain pa h where p: "read_payload a = Inr pa" "read_scalars g a (pa_flags pa) (pa_denseKind pa) = Inr h" "payload_size pa \<le> MaxAllocSize"
    and vec: "\<forall>v. a_vector a = Some v \<longrightarrow> PgturbohybridCheckVector v = Inr ()"
    using q construct_accepts [OF mem] by blast
  have b: "built a g pa h" using mem p by (simp add: built_def)
  have l: "q = layout_of h pa" using q construct_layout [OF mem p] by (auto simp: bindE_Inr_iff)
  note bd = builtD [OF b]
  note f = payload_flag_bits [OF bd(2)]
  note off = offsets_of [OF bd(3) token_bytes(1) [OF bd(1,2)]]
  have fast: "PgturbohybridQueryValidateFast q = Inr ()"
  proof (cases "a_vector a")
    case (Some v)
    then obtain d where "PgturbohybridCheckVectorInternal (Some v) True = Inr d" using vec by (auto simp: PgturbohybridCheckVector_def bindE_Inr_iff)
    then have "PgturbohybridCheckVectorInternal (Some v) False = Inr d"
      by (auto simp: PgturbohybridCheckVectorInternal_def Let_def malformed_vector_def bindE_Inr_iff split: if_splits)
    then show ?thesis using validate_built [OF b, of False] Some by (simp add: PgturbohybridQueryValidateFast_def l)
  qed (use validate_built [OF b, of False] in \<open>simp add: PgturbohybridQueryValidateFast_def l\<close>)
  have hdr: "qv_hdr q = header_of h pa" by (simp add: l layout_of_def)
  have has: "PgturbohybridQueryHasVector (qv_hdr q) = (a_vector a \<noteq> None)" "PgturbohybridQueryHasMultiVector (qv_hdr q) = (a_multivector a \<noteq> None)"
    "PgturbohybridQueryHasText (qv_hdr q) = (a_tsquery a \<noteq> None)"
    using f by (auto simp: PgturbohybridQueryHasVector_def PgturbohybridQueryHasMultiVector_def PgturbohybridQueryHasText_def hdr bd(4))
  have "PgturbohybridQueryGetVector q = Inr (a_vector a)"
    using read_built_vector(1) [OF b] by (cases "a_vector a") (simp_all add: PgturbohybridQueryGetVector_def fast has l [symmetric])
  moreover have "PgturbohybridQueryGetMultiVector q = Inr (a_multivector a)"
    using read_built_multivector(1) [OF b] off(1)
    by (cases "a_multivector a") (simp_all add: PgturbohybridQueryGetMultiVector_def fast has hdr [symmetric] l [symmetric])
  moreover have "PgturbohybridQueryGetTsQuery q = Inr (a_tsquery a)"
  proof (cases "a_tsquery a")
    case (Some ts)
    then have ts: "pa_tsquery pa = ts" "nat (q_tsqueryBytes (qv_hdr q)) = length (pa_tsquery pa)"
      using bd(1) by (simp_all add: payload_of_def hdr header_of_def)
    have "take (length (pa_tsquery pa)) (at_offset q (112 + MAXALIGN (length (pa_vector pa)) + MAXALIGN (length (pa_multivector pa)))) = pa_tsquery pa"
      unfolding l segments by (rule take_pad)
    then show ?thesis using Some off(2) ts has(3) fast by (simp add: PgturbohybridQueryGetTsQuery_def hdr)
  qed (simp add: PgturbohybridQueryGetTsQuery_def fast has)
  moreover have "PgturbohybridQueryGetTokenWeights q = Inr (map_option (map the \<circ> arr_elements) (a_tokenWeights a))"
  proof (cases "a_tokenWeights a")
    case (Some arr)
    show ?thesis using stored_weights_built [OF b Some, folded l] Some off(3) f(4)
      by (auto simp: PgturbohybridQueryGetTokenWeights_def fast hdr bd(4) comp_def)
  qed (simp add: PgturbohybridQueryGetTokenWeights_def fast hdr bd(4) f(4))
  moreover have "PgturbohybridQueryGetTokenMask q = Inr (map_option (map the \<circ> arr_elements) (a_tokenMask a))"
  proof (cases "a_tokenMask a")
    case (Some arr)
    show ?thesis using stored_mask_built [OF b Some] Some off(4) f(5) segments(5) [of h pa, folded l]
      by (auto simp: PgturbohybridQueryGetTokenMask_def fast hdr bd(4) comp_def)
  qed (simp add: PgturbohybridQueryGetTokenMask_def fast hdr bd(4) f(5))
  ultimately show ?thesis by blast
qed

text \<open>A call with a vector, a text query, and a multivector with token weights and a mask.\<close>

definition demo_args :: query_args where
  "demo_args = \<lparr>a_vector = Some (build_vector [0x3F800000, 0x40000000]), a_tsquery = Some [7, 8, 9], a_fusion = Some ''Fast_Weighted'',
     a_denseWeight = Some (Fin 1), a_bm25Weight = Some (Fin 1), a_alpha = None, a_rrfK = None, a_denseK = Some 50, a_bm25K = None,
     a_finalK = Some 5, a_requireBm25Match = Some False, a_multivector = Some demo_multivector,
     a_tokenWeights = Some \<lparr>arr_ndim = 1, arr_typed = True, arr_elements = [Some 0x3F800000, Some 0]\<rparr>,
     a_tokenMask = Some \<lparr>arr_ndim = 1, arr_typed = True, arr_elements = [Some False, Some True]\<rparr>,
     a_multivectorWeight = None, a_multivectorK = None\<rparr>"

definition demo_defaults :: query_defaults where
  "demo_defaults = \<lparr>default_rrf_k = 60, default_dense_k = 100, default_bm25_k = 100\<rparr>"

lemma demo_args_memory: "args_memory demo_args"
  using demo_multivector_ok(1) by (simp add: args_memory_def demo_args_def)

lemma demo_weights: "weight_bits_ok 0x3F800000" "weight_bits_ok 0"
  by (simp_all add: weight_bits_ok_def isfinite_bits_def float4_of_bits_def Let_def)

lemma demo_payload:
  "\<exists>pa. read_payload demo_args = Inr pa \<and> payload_size pa \<le> MaxAllocSize \<and>
     pa_flags pa = ((((HAS_VECTOR OR HAS_DENSE) OR HAS_TSQUERY) OR (HAS_MULTIVECTOR OR HAS_DENSE)) OR HAS_TOKEN_WEIGHTS) OR HAS_TOKEN_MASK"
  using demo_multivector_ok(2) demo_weights
  by (simp add: read_payload_def arg_vector_def arg_tsquery_def arg_multivector_def arg_weights_def arg_mask_def demo_args_def
      no_payload_def PG_INT32_MAX_def demo_multivector_def token_weight_def not_null_def payload_size_def MAXALIGN_def MaxAllocSize_def)

lemma demo_scalars: "flags AND (HAS_DENSE OR HAS_TSQUERY) \<noteq> 0 \<Longrightarrow> \<exists>h. read_scalars demo_defaults demo_args flags k = Inr h"
  by (simp add: read_scalars_def demo_args_def demo_defaults_def PgturbohybridQueryParseFusion_def pg_strcasecmp_def pg_tolower_def
      arg_weight_def not_null_def weight_ok_def dfinite_def PgturbohybridQueryCheckPositiveInt_def PgturbohybridQueryCheckNonNegativeInt_def
      ensure_def flag_or char_of_def bit_0)

lemma demo_accepted:
  "(\<exists>pa h. read_payload demo_args = Inr pa \<and> read_scalars demo_defaults demo_args (pa_flags pa) (pa_denseKind pa) = Inr h \<and>
     payload_size pa \<le> MaxAllocSize) \<and> (\<forall>v. a_vector demo_args = Some v \<longrightarrow> PgturbohybridCheckVector v = Inr ())"
proof -
  obtain pa where pa: "read_payload demo_args = Inr pa" "payload_size pa \<le> MaxAllocSize"
    "pa_flags pa = ((((HAS_VECTOR OR HAS_DENSE) OR HAS_TSQUERY) OR (HAS_MULTIVECTOR OR HAS_DENSE)) OR HAS_TOKEN_WEIGHTS) OR HAS_TOKEN_MASK"
    using demo_payload by blast
  have "pa_flags pa AND (HAS_DENSE OR HAS_TSQUERY) \<noteq> 0" unfolding pa(3) by (simp add: flag_defs)
  then have "\<exists>h. read_scalars demo_defaults demo_args (pa_flags pa) (pa_denseKind pa) = Inr h" by (rule demo_scalars)
  moreover have "PgturbohybridCheckVector (build_vector [0x3F800000, 0x40000000]) = Inr ()"
    by (intro check_build) (simp add: vector_ok_def isfinite_bits_def)
  ultimately show ?thesis using pa(1,2) by (auto simp: demo_args_def)
qed

lemma demo_constructed: "\<exists>q. construct_query demo_defaults demo_args = Inr q"
proof -
  obtain pa h where p: "read_payload demo_args = Inr pa" "read_scalars demo_defaults demo_args (pa_flags pa) (pa_denseKind pa) = Inr h"
    "payload_size pa \<le> MaxAllocSize" using demo_accepted by blast
  then have b: "built demo_args demo_defaults pa h" using demo_args_memory by (simp add: built_def)
  have "PgturbohybridQueryValidate (layout_of h pa) = Inr ()"
    using validate_built [OF b, of True] demo_accepted
    by (auto simp: PgturbohybridQueryValidate_def demo_args_def PgturbohybridCheckVector_def bindE_Inr_iff)
  then show ?thesis using construct_layout [OF demo_args_memory p] by auto
qed

theorem query_constructor_accepts_witness: "\<exists>q. construct_query demo_defaults demo_args = Inr q"
  using query_constructor_accepts [OF demo_args_memory] demo_accepted by blast

theorem query_getters_roundtrip_witness:
  "\<exists>q. construct_query demo_defaults demo_args = Inr q \<and>
     PgturbohybridQueryGetVector q = Inr (Some (build_vector [0x3F800000, 0x40000000])) \<and>
     PgturbohybridQueryGetTokenMask q = Inr (Some [False, True])"
  using query_getters_roundtrip [OF demo_args_memory] demo_constructed by (auto simp: demo_args_def)

end
