(* ===== verification/Query_Cache.thy ===== *)
theory Query_Cache
  imports Query_Layout
begin

text \<open>
  The caches a call site of the query functions keeps in \<open>fn_extra\<close>, and the context test
  of the distance functions (\<open>pgturbohybrid_query.c\<close>). The constructor caches its result when
  all its arguments are constants, and reuses it until a setting changes; the distance
  functions cache whether their call is only an ordering term of an index scan.

  Expression and plan nodes are what the code inspects of them; node addresses are numbers.
\<close>

section \<open>The constructor's cache\<close>

datatype arg_node = Const | NamedArgExpr arg_node | OtherNode

datatype expr = FuncExpr nat "arg_node option list" | OtherExpr nat

text \<open>The address of an expression node.\<close>

fun expr_id :: "expr \<Rightarrow> nat" where
  "expr_id (FuncExpr i _) = i"
| "expr_id (OtherExpr i) = i"

record constructor_cache =
  cc_expr :: nat
  cc_gucGeneration :: u64
  cc_query :: "query_value option"

record fmgr_info =
  fn_expr :: "expr option"
  fn_extra :: "constructor_cache option"

record guc_state =
  guc_defaults :: query_defaults
  guc_generation :: u64

definition PgturbohybridQueryConstructorConstArg :: "arg_node option \<Rightarrow> bool" where
  "PgturbohybridQueryConstructorConstArg node = (case node of None \<Rightarrow> False
     | Some (NamedArgExpr arg) \<Rightarrow> arg = Const
     | Some arg \<Rightarrow> arg = Const)"

definition PgturbohybridQueryConstructorCacheable :: "fmgr_info option \<Rightarrow> bool" where
  "PgturbohybridQueryConstructorCacheable flinfo = (case flinfo of
       Some fi \<Rightarrow> (case fn_expr fi of
           Some (FuncExpr _ args) \<Rightarrow> list_all PgturbohybridQueryConstructorConstArg args
         | _ \<Rightarrow> False)
     | None \<Rightarrow> False)"

definition PgturbohybridQueryConstructorCached :: "guc_state \<Rightarrow> fmgr_info option \<Rightarrow> query_value option" where
  "PgturbohybridQueryConstructorCached g flinfo =
     (if \<not> PgturbohybridQueryConstructorCacheable flinfo then None
      else case fn_extra (the flinfo) of None \<Rightarrow> None
      | Some cache \<Rightarrow>
          if cc_expr cache \<noteq> expr_id (the (fn_expr (the flinfo))) \<or> cc_gucGeneration cache \<noteq> guc_generation g \<or> cc_query cache = None
          then None else cc_query cache)"

definition PgturbohybridQueryConstructorStoreCache :: "guc_state \<Rightarrow> fmgr_info option \<Rightarrow> query_value \<Rightarrow> fmgr_info option" where
  "PgturbohybridQueryConstructorStoreCache g flinfo query =
     (if \<not> PgturbohybridQueryConstructorCacheable flinfo then flinfo
      else map_option (\<lambda>fi. fi\<lparr>fn_extra := Some \<lparr>cc_expr = expr_id (the (fn_expr fi)), cc_gucGeneration = guc_generation g,
             cc_query = Some query\<rparr>\<rparr>) flinfo)"

definition pgturbohybrid_query_constructor ::
    "guc_state \<Rightarrow> fmgr_info option \<Rightarrow> query_args \<Rightarrow> query_value res \<times> fmgr_info option" where
  "pgturbohybrid_query_constructor g flinfo a =
     (case PgturbohybridQueryConstructorCached g flinfo of
        Some cached \<Rightarrow> (Inr cached, flinfo)
      | None \<Rightarrow>
          (case construct_query (guc_defaults g) a of
             Inl e \<Rightarrow> (Inl e, flinfo)
           | Inr q \<Rightarrow> (Inr q, PgturbohybridQueryConstructorStoreCache g flinfo q)))"

definition PgturbohybridAssignQuerySetting :: "query_defaults \<Rightarrow> guc_state \<Rightarrow> guc_state" where
  \<comment> \<open>the hook, then the assignment of the new value\<close>
  "PgturbohybridAssignQuerySetting d g =
     (let gen = guc_generation g + 1 in \<lparr>guc_defaults = d, guc_generation = (if gen = 0 then 1 else gen)\<rparr>)"

text \<open>
  One call site over its life: it is called, with the values its argument expressions have,
  and settings change in between. Constant arguments have the same values in every call.
\<close>

datatype site_event = CallSite query_args | SetDefaults query_defaults

record site =
  s_guc :: guc_state
  s_flinfo :: "fmgr_info option"
  s_changes :: nat  \<comment> \<open>number of settings changed so far\<close>

inductive site_step :: "query_args \<Rightarrow> site \<Rightarrow> site_event \<Rightarrow> query_value res option \<Rightarrow> site \<Rightarrow> bool" for cargs where
  call: "(PgturbohybridQueryConstructorCacheable (s_flinfo s) \<Longrightarrow> a = cargs) \<Longrightarrow>
    pgturbohybrid_query_constructor (s_guc s) (s_flinfo s) a = (r, flinfo') \<Longrightarrow>
    site_step cargs s (CallSite a) (Some r) (s\<lparr>s_flinfo := flinfo'\<rparr>)"
| set: "site_step cargs s (SetDefaults d) None
    (s\<lparr>s_guc := PgturbohybridAssignQuerySetting d (s_guc s), s_changes := s_changes s + 1\<rparr>)"

inductive_cases site_stepE: "site_step cargs s ev r s'"

inductive site_reachable :: "query_args \<Rightarrow> site \<Rightarrow> site \<Rightarrow> bool" for cargs start where
  start: "site_reachable cargs start start"
| step: "site_reachable cargs start s \<Longrightarrow> site_step cargs s ev r s' \<Longrightarrow> site_reachable cargs start s'"

definition site_start :: "query_defaults \<Rightarrow> fmgr_info option \<Rightarrow> site" where
  "site_start d flinfo = \<lparr>s_guc = \<lparr>guc_defaults = d, guc_generation = 1\<rparr>, s_flinfo = flinfo, s_changes = 0\<rparr>"

text \<open>
  The invariant: what is cached for the current generation is what the constructor computes
  now. Generations do not repeat as long as fewer than \<open>2 ^ 64 - 1\<close> settings change.
\<close>

definition site_inv :: "query_args \<Rightarrow> site \<Rightarrow> bool" where
  "site_inv cargs s \<longleftrightarrow>
     (s_changes s < 2 ^ 64 - 1 \<longrightarrow> unat (guc_generation (s_guc s)) = s_changes s + 1 \<and>
       (case s_flinfo s of None \<Rightarrow> True | Some fi \<Rightarrow>
          (case fn_extra fi of None \<Rightarrow> True | Some c \<Rightarrow>
             unat (cc_gucGeneration c) \<le> s_changes s + 1 \<and>
             (PgturbohybridQueryConstructorCacheable (s_flinfo s) \<and> cc_gucGeneration c = guc_generation (s_guc s) \<longrightarrow>
                (\<exists>q. cc_query c = Some q \<and> construct_query (guc_defaults (s_guc s)) cargs = Inr q)))))"

lemma generation_step:
  assumes "unat (gen :: u64) = n + 1" "n + 1 < 2 ^ 64 - 1"
  shows "unat (if gen + 1 = 0 then 1 else gen + 1) = n + 2" "gen + 1 \<noteq> 0"
proof -
  have "unat (gen + 1) = (unat gen + 1) mod 2 ^ 64" by (simp add: unat_word_ariths)
  then have u: "unat (gen + 1) = n + 2" using assms by simp
  then show "gen + 1 \<noteq> 0" by (metis add_2_eq_Suc' nat.distinct(1) unat_0)
  then show "unat (if gen + 1 = 0 then 1 else gen + 1) = n + 2" using u by simp
qed

lemma cached_is_current:
  assumes inv: "site_inv cargs s" and few: "s_changes s < 2 ^ 64 - 1"
    and hit: "PgturbohybridQueryConstructorCached (s_guc s) (s_flinfo s) = Some q"
  shows "construct_query (guc_defaults (s_guc s)) cargs = Inr q \<and> PgturbohybridQueryConstructorCacheable (s_flinfo s)"
proof -
  obtain fi c where fi: "s_flinfo s = Some fi" "fn_extra fi = Some c" "cc_gucGeneration c = guc_generation (s_guc s)" "cc_query c = Some q"
    and ca: "PgturbohybridQueryConstructorCacheable (s_flinfo s)"
    using hit by (auto simp: PgturbohybridQueryConstructorCached_def PgturbohybridQueryConstructorCacheable_def split: option.splits if_splits)
  then show ?thesis using inv few by (auto simp: site_inv_def)
qed

text \<open>Whatever is in the cache, a call returns what the constructor computes from its arguments.\<close>

lemma constructor_transparent:
  assumes inv: "site_inv cargs s" and few: "s_changes s < 2 ^ 64 - 1"
    and const: "PgturbohybridQueryConstructorCacheable (s_flinfo s) \<Longrightarrow> a = cargs"
  shows "fst (pgturbohybrid_query_constructor (s_guc s) (s_flinfo s) a) = construct_query (guc_defaults (s_guc s)) a"
  using cached_is_current [OF inv few] const
  by (auto simp: pgturbohybrid_query_constructor_def split: option.split sum.split)

lemma store_cacheable: "PgturbohybridQueryConstructorCacheable (PgturbohybridQueryConstructorStoreCache g flinfo q) =
    PgturbohybridQueryConstructorCacheable flinfo"
  by (auto simp: PgturbohybridQueryConstructorStoreCache_def PgturbohybridQueryConstructorCacheable_def split: option.splits)

lemma site_inv_step:
  assumes inv: "site_inv cargs s" and step: "site_step cargs s ev r s'"
  shows "site_inv cargs s'"
  using step
proof cases
  case (call a r' flinfo')
  show ?thesis
  proof (cases "s_changes s < 2 ^ 64 - 1")
    case few: True
    show ?thesis
    proof (cases "\<exists>q. PgturbohybridQueryConstructorCached (s_guc s) (s_flinfo s) = None \<and> construct_query (guc_defaults (s_guc s)) a = Inr q \<and>
        PgturbohybridQueryConstructorCacheable (s_flinfo s)")
      case True
      then obtain q where q: "PgturbohybridQueryConstructorCached (s_guc s) (s_flinfo s) = None"
        "construct_query (guc_defaults (s_guc s)) a = Inr q" "PgturbohybridQueryConstructorCacheable (s_flinfo s)" by blast
      obtain fi where fi: "s_flinfo s = Some fi" using q(3) by (auto simp: PgturbohybridQueryConstructorCacheable_def split: option.splits)
      have f: "flinfo' = Some (fi\<lparr>fn_extra := Some \<lparr>cc_expr = expr_id (the (fn_expr fi)), cc_gucGeneration = guc_generation (s_guc s),
          cc_query = Some q\<rparr>\<rparr>)"
        using call(5) q fi by (auto simp: pgturbohybrid_query_constructor_def PgturbohybridQueryConstructorStoreCache_def)
      have "a = cargs" using call(4) q(3) .
      then show ?thesis using inv few q(2) call(3) f by (simp add: site_inv_def)
    next
      case False
      then have "flinfo' = s_flinfo s" using call(5)
        by (auto simp: pgturbohybrid_query_constructor_def PgturbohybridQueryConstructorStoreCache_def split: option.splits sum.splits)
      then show ?thesis using inv call(3) by (simp add: site_inv_def)
    qed
  qed (use call(3) in \<open>simp add: site_inv_def\<close>)
next
  case (set d)
  show ?thesis
  proof (cases "s_changes s + 1 < 2 ^ 64 - 1")
    case few: True
    have g: "unat (guc_generation (s_guc s)) = s_changes s + 1" using inv few by (simp add: site_inv_def)
    note gs = generation_step [OF g few]
    have g': "unat (guc_generation (PgturbohybridAssignQuerySetting d (s_guc s))) = s_changes s + 2"
      using gs(1) by (simp add: PgturbohybridAssignQuerySetting_def Let_def)
    have old: "unat (cc_gucGeneration c) \<le> s_changes s + 1" if "s_flinfo s = Some fi" "fn_extra fi = Some c" for fi c
      using inv few that by (simp add: site_inv_def)
    have "cc_gucGeneration c \<noteq> guc_generation (PgturbohybridAssignQuerySetting d (s_guc s))"
      if c: "s_flinfo s = Some fi" "fn_extra fi = Some c" for fi c
      using old [OF c] g' by auto
    then show ?thesis using set g' old by (auto simp: site_inv_def split: option.split intro: le_SucI)
  qed (use set in \<open>simp add: site_inv_def\<close>)
qed

lemma site_inv_start: "(\<And>fi. flinfo = Some fi \<Longrightarrow> fn_extra fi = None) \<Longrightarrow> site_inv cargs (site_start d flinfo)"
  by (auto simp: site_inv_def site_start_def split: option.split)

lemma site_reachable_inv:
  "site_reachable cargs start s \<Longrightarrow> site_inv cargs start \<Longrightarrow> site_inv cargs s"
  by (induction rule: site_reachable.induct) (auto intro: site_inv_step)

text \<open>
  C40. The cache of a call site is invisible: in every state a call site can reach, by calls and
  by changes of the defaults in any order, a call returns what the constructor computes from its
  arguments under the current defaults.
\<close>

theorem constructor_cache_transparent:
  assumes "site_reachable cargs (site_start d flinfo) s" "\<And>fi. flinfo = Some fi \<Longrightarrow> fn_extra fi = None"
    and "site_step cargs s (CallSite a) (Some r) s'" and "s_changes s < 2 ^ 64 - 1"
  shows "r = construct_query (guc_defaults (s_guc s)) a"
proof -
  have inv: "site_inv cargs s" using site_reachable_inv [OF assms(1) site_inv_start [OF assms(2)]] .
  show ?thesis using assms(3)
  proof cases
    case (call flinfo')
    then show ?thesis using constructor_transparent [OF inv assms(4), of a] by simp
  qed
qed

definition demo_site :: "fmgr_info option" where
  "demo_site = Some \<lparr>fn_expr = Some (FuncExpr 1 [Some Const, Some (NamedArgExpr Const)]), fn_extra = None\<rparr>"

theorem constructor_cache_transparent_witness:
  "\<exists>s q. site_reachable demo_args (site_start demo_defaults demo_site) s \<and>
     PgturbohybridQueryConstructorCached (s_guc s) (s_flinfo s) = Some q \<and>
     Inr q = construct_query demo_defaults demo_args"
proof -
  let ?s0 = "site_start demo_defaults demo_site"
  obtain q where q: "construct_query demo_defaults demo_args = Inr q" using demo_constructed by blast
  have s0: "s_guc ?s0 = \<lparr>guc_defaults = demo_defaults, guc_generation = 1\<rparr>" "s_flinfo ?s0 = demo_site" by (simp_all add: site_start_def)
  have c: "PgturbohybridQueryConstructorCacheable demo_site"
    by (simp add: demo_site_def PgturbohybridQueryConstructorCacheable_def PgturbohybridQueryConstructorConstArg_def)
  have "PgturbohybridQueryConstructorCached (s_guc ?s0) demo_site = None"
    using c by (simp add: PgturbohybridQueryConstructorCached_def) (simp add: demo_site_def)
  then have call: "pgturbohybrid_query_constructor (s_guc ?s0) demo_site demo_args =
      (Inr q, PgturbohybridQueryConstructorStoreCache (s_guc ?s0) demo_site q)"
    using q by (simp add: pgturbohybrid_query_constructor_def s0)
  define s1 where "s1 = ?s0\<lparr>s_flinfo := PgturbohybridQueryConstructorStoreCache (s_guc ?s0) demo_site q\<rparr>"
  have st: "site_step demo_args ?s0 (CallSite demo_args) (Some (Inr q)) s1"
    unfolding s1_def using call by (intro site_step.call) (simp_all add: s0)
  have r: "site_reachable demo_args ?s0 s1" using site_reachable.step [OF site_reachable.start st] .
  have g: "s_guc s1 = s_guc ?s0" "s_changes s1 = 0" by (simp_all add: s1_def site_start_def)
  have hit: "PgturbohybridQueryConstructorCached (s_guc s1) (s_flinfo s1) = Some q"
    using c by (simp add: s1_def PgturbohybridQueryConstructorCached_def store_cacheable)
      (simp add: PgturbohybridQueryConstructorStoreCache_def demo_site_def s0)
  then have call2: "pgturbohybrid_query_constructor (s_guc s1) (s_flinfo s1) demo_args = (Inr q, s_flinfo s1)"
    by (simp add: pgturbohybrid_query_constructor_def)
  have "site_step demo_args s1 (CallSite demo_args) (Some (Inr q)) (s1\<lparr>s_flinfo := s_flinfo s1\<rparr>)"
    using call2 by (intro site_step.call) simp_all
  then have "Inr q = construct_query (guc_defaults (s_guc s1)) demo_args"
    using r g by (intro constructor_cache_transparent [where flinfo = demo_site and d = demo_defaults]) (auto simp: demo_site_def)
  then show ?thesis using r hit g s0 by auto
qed

section \<open>Ordering context of the distance functions\<close>

text \<open>
  What the code reads of a plan: whether a node is an index scan with order-by expressions, the
  target list entries (their expression and whether they are junk), and the two subtrees.
  Whether an entry's expression matches the call is decided by \<open>equal\<close> of the server and is
  part of the entry here.
\<close>

record target_entry =
  te_valid :: bool  \<comment> \<open>not null and a \<open>TargetEntry\<close>\<close>
  te_expr :: nat
  te_resjunk :: bool

datatype plan = NoPlan | Plan (is_index_scan: bool) (has_orderby: bool) (targetlist: "target_entry list") (lefttree: plan) (righttree: plan)

record plan_check =
  hasUserVisibleExpr :: bool
  hasIndexOrderByResjunkExpr :: bool

fun PgturbohybridQueryPlanHasIndexOrderBy :: "plan \<Rightarrow> bool" where
  "PgturbohybridQueryPlanHasIndexOrderBy NoPlan = False"
| "PgturbohybridQueryPlanHasIndexOrderBy (Plan idx ord tles l r) =
     (if idx \<and> ord then True
      else PgturbohybridQueryPlanHasIndexOrderBy l \<or> PgturbohybridQueryPlanHasIndexOrderBy r)"

definition inspect_entry :: "(nat \<Rightarrow> bool) \<Rightarrow> plan \<Rightarrow> bool \<Rightarrow> target_entry \<Rightarrow> plan_check \<Rightarrow> plan_check" where
  \<comment> \<open>\<open>is_call e\<close>: \<open>PgturbohybridQueryDistanceCallMatches\<close> of the expression\<close>
  "inspect_entry is_call pl topLevel tle check =
     (if \<not> te_valid tle \<or> \<not> is_call (te_expr tle) then check
      else if \<not> te_resjunk tle \<and> topLevel then check\<lparr>hasUserVisibleExpr := True\<rparr>
      else if PgturbohybridQueryPlanHasIndexOrderBy pl then check\<lparr>hasIndexOrderByResjunkExpr := True\<rparr>
      else check)"

fun PgturbohybridQueryInspectPlan :: "(nat \<Rightarrow> bool) \<Rightarrow> plan \<Rightarrow> plan_check \<Rightarrow> bool \<Rightarrow> plan_check" where
  "PgturbohybridQueryInspectPlan is_call NoPlan check topLevel = check"
| "PgturbohybridQueryInspectPlan is_call (Plan idx ord tles l r) check topLevel =
     (let check1 = fold (inspect_entry is_call (Plan idx ord tles l r) topLevel) tles check;
          check2 = PgturbohybridQueryInspectPlan is_call l check1 False
      in PgturbohybridQueryInspectPlan is_call r check2 False)"

definition order_by_context :: "(nat \<Rightarrow> bool) \<Rightarrow> plan \<Rightarrow> bool" where
  "order_by_context is_call planTree =
     (let check = PgturbohybridQueryInspectPlan is_call planTree \<lparr>hasUserVisibleExpr = False, hasIndexOrderByResjunkExpr = False\<rparr> True;
          idx = (if \<not> hasIndexOrderByResjunkExpr check then PgturbohybridQueryPlanHasIndexOrderBy planTree
                 else hasIndexOrderByResjunkExpr check)
      in idx \<and> \<not> hasUserVisibleExpr check)"

record plan_cache =
  pc_plannedstmt :: nat
  pc_expr :: nat
  pc_fnOid :: nat
  pc_result :: bool

record call_info =
  ci_expr :: "nat option"  \<comment> \<open>\<open>fn_expr\<close>\<close>
  ci_fnOid :: nat
  ci_cache :: "plan_cache option"

text \<open>\<open>stmt\<close>: the current planned statement, its address and plan tree.\<close>

definition PgturbohybridQueryTextIndexOrderByContext ::
    "(nat \<Rightarrow> nat \<Rightarrow> nat \<Rightarrow> bool) \<Rightarrow> (nat \<times> plan) option \<Rightarrow> call_info option \<Rightarrow> bool \<times> call_info option" where
  "PgturbohybridQueryTextIndexOrderByContext is_call stmt flinfo = (case flinfo of
       None \<Rightarrow> (False, flinfo)
     | Some ci \<Rightarrow>
         (case (ci_expr ci, stmt) of
            (Some e, Some (sid, planTree)) \<Rightarrow>
              if planTree = NoPlan then (False, flinfo)
              else (case ci_cache ci of
                Some c \<Rightarrow>
                  if pc_plannedstmt c = sid \<and> pc_expr c = e \<and> pc_fnOid c = ci_fnOid ci then (pc_result c, flinfo)
                  else let res = order_by_context (is_call e (ci_fnOid ci)) planTree
                       in (res, Some (ci\<lparr>ci_cache := Some \<lparr>pc_plannedstmt = sid, pc_expr = e, pc_fnOid = ci_fnOid ci, pc_result = res\<rparr>\<rparr>))
              | None \<Rightarrow>
                  let res = order_by_context (is_call e (ci_fnOid ci)) planTree
                  in (res, Some (ci\<lparr>ci_cache := Some \<lparr>pc_plannedstmt = sid, pc_expr = e, pc_fnOid = ci_fnOid ci, pc_result = res\<rparr>\<rparr>)))
          | _ \<Rightarrow> (False, flinfo)))"

text \<open>
  The walk over the plan collects more than the answer needs: the call is an ordering context
  exactly when some node of the plan is an index scan with order-by expressions and no visible
  column of the top node is the call.
\<close>

definition visible_call :: "(nat \<Rightarrow> bool) \<Rightarrow> plan \<Rightarrow> bool" where
  "visible_call is_call pl = (case pl of NoPlan \<Rightarrow> False
     | Plan _ _ tles _ _ \<Rightarrow> \<exists>tle \<in> set tles. te_valid tle \<and> is_call (te_expr tle) \<and> \<not> te_resjunk tle)"

lemma inspect_entries_visible:
  "hasUserVisibleExpr (fold (inspect_entry is_call pl isTop) tles check) \<longleftrightarrow> hasUserVisibleExpr check \<or>
     (isTop \<and> (\<exists>tle \<in> set tles. te_valid tle \<and> is_call (te_expr tle) \<and> \<not> te_resjunk tle))"
  by (induction tles arbitrary: check) (auto simp: inspect_entry_def)

lemma inspect_entries_index:
  "hasIndexOrderByResjunkExpr (fold (inspect_entry is_call pl isTop) tles check) \<Longrightarrow>
     hasIndexOrderByResjunkExpr check \<or> PgturbohybridQueryPlanHasIndexOrderBy pl"
proof (induction tles arbitrary: check)
  case (Cons tle tles)
  show ?case using Cons.IH [of "inspect_entry is_call pl isTop tle check"] Cons.prems
    by (auto simp: inspect_entry_def split: if_splits)
qed simp

lemma inspect_plan_visible:
  "hasUserVisibleExpr (PgturbohybridQueryInspectPlan is_call pl check isTop) \<longleftrightarrow> hasUserVisibleExpr check \<or> (isTop \<and> visible_call is_call pl)"
  by (induction pl arbitrary: check isTop) (simp_all add: Let_def inspect_entries_visible visible_call_def)

lemma inspect_plan_index:
  "hasIndexOrderByResjunkExpr (PgturbohybridQueryInspectPlan is_call pl check isTop) \<Longrightarrow>
     hasIndexOrderByResjunkExpr check \<or> PgturbohybridQueryPlanHasIndexOrderBy pl"
proof (induction pl arbitrary: check isTop)
  case (Plan idx ord tles l r)
  let ?c1 = "fold (inspect_entry is_call (Plan idx ord tles l r) isTop) tles check"
  have "hasIndexOrderByResjunkExpr (PgturbohybridQueryInspectPlan is_call r (PgturbohybridQueryInspectPlan is_call l ?c1 False) False)"
    using Plan.prems by (simp add: Let_def)
  then have "hasIndexOrderByResjunkExpr ?c1 \<or> PgturbohybridQueryPlanHasIndexOrderBy l \<or> PgturbohybridQueryPlanHasIndexOrderBy r"
    using Plan.IH by blast
  then show ?case using inspect_entries_index [of is_call "Plan idx ord tles l r" isTop tles check] by auto
qed simp

theorem order_by_context_characterised:
  "order_by_context is_call planTree \<longleftrightarrow> PgturbohybridQueryPlanHasIndexOrderBy planTree \<and> \<not> visible_call is_call planTree"
  using inspect_plan_visible [of is_call planTree "\<lparr>hasUserVisibleExpr = False, hasIndexOrderByResjunkExpr = False\<rparr>" True]
    inspect_plan_index [of is_call planTree "\<lparr>hasUserVisibleExpr = False, hasIndexOrderByResjunkExpr = False\<rparr>" True]
  by (auto simp: order_by_context_def Let_def)

section \<open>Distances\<close>

definition PgturbohybridL2SquaredDistance :: "fpu \<Rightarrow> Vector \<Rightarrow> Vector \<Rightarrow> cdouble res" where
  "PgturbohybridL2SquaredDistance f a b =
     bindE (PgturbohybridCheckSameDimsFast a b) (\<lambda>_.
       Inr (foldl (\<lambda>distance i.
              let diff = f_sub f (float4_of_bits (v_x a ! i)) (float4_of_bits (v_x b ! i)) in f_add f distance (f_mul f diff diff))
            (Fin 0) [0..<nat (sint (v_dim a))]))"

text \<open>The square root of \<open>math.h\<close> is the parameter \<open>msqrt\<close>.\<close>

definition PgturbohybridL2Distance :: "fpu \<Rightarrow> (cdouble \<Rightarrow> cdouble) \<Rightarrow> Vector \<Rightarrow> Vector \<Rightarrow> cdouble res" where
  "PgturbohybridL2Distance f msqrt a b = bindE (PgturbohybridL2SquaredDistance f a b) (\<lambda>d. Inr (msqrt d))"

definition PgturbohybridNegativeInnerProduct :: "fpu \<Rightarrow> Vector \<Rightarrow> Vector \<Rightarrow> cdouble res" where
  "PgturbohybridNegativeInnerProduct f a b =
     bindE (PgturbohybridCheckSameDimsFast a b) (\<lambda>_.
       Inr (foldl (\<lambda>distance i. f_sub f distance (f_mul f (float4_of_bits (v_x a ! i)) (float4_of_bits (v_x b ! i))))
            (Fin 0) [0..<nat (sint (v_dim a))]))"

definition clamp_similarity :: "cdouble \<Rightarrow> cdouble" where
  "clamp_similarity s = (if dless (Fin 1) s then Fin 1 else if dless s (Fin (-1)) then Fin (-1) else s)"

definition PgturbohybridCosineDistance :: "fpu \<Rightarrow> (cdouble \<Rightarrow> cdouble) \<Rightarrow> Vector \<Rightarrow> Vector \<Rightarrow> cdouble res" where
  "PgturbohybridCosineDistance f msqrt a b =
     bindE (PgturbohybridCheckSameDimsFast a b) (\<lambda>_.
     let (similarity, norma, normb) = foldl (\<lambda>(s, na, nb) i.
           let x = float4_of_bits (v_x a ! i); y = float4_of_bits (v_x b ! i)
           in (f_add f s (f_mul f x y), f_add f na (f_mul f x x), f_add f nb (f_mul f y y)))
         (Fin 0, Fin 0, Fin 0) [0..<nat (sint (v_dim a))]
     in Inr (if norma = Fin 0 \<or> normb = Fin 0 then Fin 1
             else f_sub f (Fin 1) (clamp_similarity (f_div f similarity (msqrt (f_mul f norma normb))))))"

text \<open>
  The SQL distance operators: \<open>metric\<close> is one of the three distances, and \<open>context\<close> the answer
  of the ordering test at this call site.
\<close>

definition reject_text_fallback :: "'a res" where
  "reject_text_fallback = Inl (Ereport ERRCODE_FEATURE_NOT_SUPPORTED ''hybrid text queries require a turbohybrid index scan'')"

definition pgturbohybrid_query_distance ::
    "(Vector \<Rightarrow> Vector \<Rightarrow> cdouble res) \<Rightarrow> bool \<Rightarrow> Vector \<Rightarrow> query_value \<Rightarrow> cdouble res" where
  "pgturbohybrid_query_distance metric order_context v query =
     (if order_context
      then bindE (PgturbohybridQueryValidateFast query) (\<lambda>_.
           bindE (PgturbohybridQueryGetTsQuery query) (\<lambda>ts.
           if ts \<noteq> None then Inr (Fin 0)
           else bindE (PgturbohybridQueryGetVector query) (\<lambda>vectorQuery.
                case vectorQuery of None \<Rightarrow> Inr (Fin 0)
                | Some w \<Rightarrow> bindE (PgturbohybridCheckVectorInternal (Some v) False) (\<lambda>_. metric v w))))
      else bindE (PgturbohybridDatumGetVector v) (\<lambda>value.
           bindE (PgturbohybridQueryValidate query) (\<lambda>_.
           bindE (PgturbohybridQueryGetTsQuery query) (\<lambda>ts.
           if ts \<noteq> None then reject_text_fallback
           else bindE (PgturbohybridQueryGetVector query) (\<lambda>vectorQuery.
                case vectorQuery of None \<Rightarrow> Inr (Fin 0) | Some w \<Rightarrow> metric value w)))))"

text \<open>The cosine distance lies between the distances of the clamped similarities.\<close>

lemma clamp_similarity_range: "s \<noteq> NaN \<Longrightarrow> \<exists>q. clamp_similarity s = Fin q \<and> - 1 \<le> q \<and> q \<le> 1"
  by (cases s) (auto simp: clamp_similarity_def)

end
