(* ===== verification/Executor_Hooks.thy ===== *)
theory Executor_Hooks
  imports Bm25_Scan
begin

text \<open>
  The executor hooks of the extension (\<open>pgturbohybrid.c\<close>, and the statement stack of
  \<open>pgturbohybrid_am.c\<close>): the stack of planned statements that the planner-dependent parts of a
  scan consult, the wrapping of the extension's index scans below a \<open>LIMIT\<close>, the frames that own
  the wrappers of one statement, the controller that publishes the row target of the enclosing
  \<open>LIMIT\<close> while the wrapped scan runs, and the search for a constant \<open>LIMIT\<close> in a plan.
\<close>

section \<open>Plan states\<close>

text \<open>
  What the wrapping reads of a tree of plan states: the address of a \<open>LimitState\<close>, the address of
  an index scan and whether its index belongs to the extension, and for a result or subquery node
  whether its \<open>qual\<close> is null. A \<open>Gather\<close> and a \<open>GatherMerge\<close> are treated alike. Every other node
  is an \<open>OtherState\<close> with its outer and inner subtree.
\<close>

datatype planstate =
    NoState
  | LimitState nat planstate
  | IndexScanState nat bool
  | AppendState "planstate list"
  | MergeAppendState "planstate list"
  | ResultState bool planstate
  | SubqueryScanState bool planstate
  | GatherState planstate
  | OtherState planstate planstate

datatype exec_fn = RealFn nat | Controller

record wrapper =
  w_addr :: nat
  w_planstate :: nat
  w_original :: exec_fn
  w_limit :: "nat option"

text \<open>The globals that a running scan reads.\<close>

record active =
  limit_tuple_target :: int
  estimated_filter_selectivity :: cdouble
  payload_filter_valid :: bool
  payload_filter_attno :: int
  payload_filter_value :: int

text \<open>
  The state of a session. A planned statement is its address, a frame the list of the wrappers it
  owns; the newest frame is the last one. \<open>es_next\<close> is the next free address for a wrapper, and
  \<open>es_proc\<close> the function that executes a plan state.
\<close>

record exec_state =
  es_stmt :: "nat option"
  es_stmt_stack :: "nat option list"
  es_wrappers :: "wrapper list"
  es_frames :: "wrapper list list"
  es_proc :: "nat \<Rightarrow> exec_fn"
  es_next :: nat
  es_disable :: bool
  es_active :: active

section \<open>The statement stack\<close>

definition PgturbohybridPushPlannedStmt :: "nat \<Rightarrow> exec_state \<Rightarrow> exec_state" where
  "PgturbohybridPushPlannedStmt stmt es = es\<lparr>es_stmt_stack := es_stmt es # es_stmt_stack es, es_stmt := Some stmt\<rparr>"

definition PgturbohybridPopPlannedStmt :: "exec_state \<Rightarrow> exec_state" where
  "PgturbohybridPopPlannedStmt es = (case es_stmt_stack es of
       [] \<Rightarrow> es\<lparr>es_stmt := None\<rparr>
     | s # stack \<Rightarrow> es\<lparr>es_stmt := s, es_stmt_stack := stack\<rparr>)"

definition PgturbohybridClearPlannedStmtStack :: "exec_state \<Rightarrow> exec_state" where
  "PgturbohybridClearPlannedStmtStack es = es\<lparr>es_stmt_stack := [], es_stmt := None\<rparr>"

definition PgturbohybridAmExecutorStart :: "nat \<Rightarrow> exec_state \<Rightarrow> exec_state" where
  "PgturbohybridAmExecutorStart stmt es = PgturbohybridPushPlannedStmt stmt es"

definition PgturbohybridAmExecutorEnd :: "exec_state \<Rightarrow> exec_state" where
  "PgturbohybridAmExecutorEnd es = PgturbohybridPopPlannedStmt es"

definition PgturbohybridAmExecutorAbort :: "exec_state \<Rightarrow> exec_state" where
  "PgturbohybridAmExecutorAbort es = PgturbohybridClearPlannedStmtStack es"

datatype xact_event = XACT_EVENT_ABORT | XACT_EVENT_PARALLEL_ABORT | XACT_EVENT_OTHER
datatype subxact_event = SUBXACT_EVENT_ABORT_SUB | SUBXACT_EVENT_OTHER

definition PgturbohybridXactCallback :: "xact_event \<Rightarrow> exec_state \<Rightarrow> exec_state" where
  "PgturbohybridXactCallback ev es =
     (if ev = XACT_EVENT_ABORT \<or> ev = XACT_EVENT_PARALLEL_ABORT then PgturbohybridClearPlannedStmtStack es else es)"

definition PgturbohybridSubXactCallback :: "subxact_event \<Rightarrow> exec_state \<Rightarrow> exec_state" where
  "PgturbohybridSubXactCallback ev es =
     (if ev = SUBXACT_EVENT_ABORT_SUB then PgturbohybridClearPlannedStmtStack es else es)"

section \<open>Wrapping index scans\<close>

definition last_frame_add :: "wrapper \<Rightarrow> wrapper list list \<Rightarrow> wrapper list list" where
  "last_frame_add w frames = (if frames \<noteq> [] then butlast frames @ [last frames @ [w]] else frames)"

definition add_wrapper :: "nat \<Rightarrow> nat option \<Rightarrow> exec_state \<Rightarrow> exec_state" where
  "add_wrapper n limitstate es =
     (let w = \<lparr>w_addr = es_next es, w_planstate = n, w_original = es_proc es n, w_limit = limitstate\<rparr>
      in es\<lparr>es_next := es_next es + 1, es_wrappers := es_wrappers es @ [w], es_frames := last_frame_add w (es_frames es),
            es_proc := (es_proc es)(n := Controller)\<rparr>)"

fun PgturbohybridGraphWrapControlledIndexScans :: "planstate \<Rightarrow> nat option \<Rightarrow> exec_state \<Rightarrow> exec_state" where
  "PgturbohybridGraphWrapControlledIndexScans NoState limitstate es = es"
| "PgturbohybridGraphWrapControlledIndexScans (LimitState a p) limitstate es =
     PgturbohybridGraphWrapControlledIndexScans p (Some a) es"
| "PgturbohybridGraphWrapControlledIndexScans (IndexScanState n uses) limitstate es =
     (if uses then add_wrapper n limitstate es else es)"
| "PgturbohybridGraphWrapControlledIndexScans (AppendState ps) limitstate es =
     fold (\<lambda>p. PgturbohybridGraphWrapControlledIndexScans p limitstate) ps es"
| "PgturbohybridGraphWrapControlledIndexScans (MergeAppendState ps) limitstate es =
     fold (\<lambda>p. PgturbohybridGraphWrapControlledIndexScans p limitstate) ps es"
| "PgturbohybridGraphWrapControlledIndexScans (ResultState noqual p) limitstate es =
     PgturbohybridGraphWrapControlledIndexScans p (if noqual then limitstate else None) es"
| "PgturbohybridGraphWrapControlledIndexScans (SubqueryScanState noqual p) limitstate es =
     PgturbohybridGraphWrapControlledIndexScans p (if noqual then limitstate else None) es"
| "PgturbohybridGraphWrapControlledIndexScans (GatherState p) limitstate es =
     PgturbohybridGraphWrapControlledIndexScans p limitstate es"
| "PgturbohybridGraphWrapControlledIndexScans (OtherState l r) limitstate es =
     PgturbohybridGraphWrapControlledIndexScans r None (PgturbohybridGraphWrapControlledIndexScans l None es)"

definition PgturbohybridGraphFindWrapperState :: "exec_state \<Rightarrow> nat \<Rightarrow> wrapper res" where
  "PgturbohybridGraphFindWrapperState es n = (case find (\<lambda>w. w_planstate w = n) (es_wrappers es) of
       None \<Rightarrow> elog ''missing pgturbohybrid graph scan wrapper state''
     | Some w \<Rightarrow> Inr w)"

section \<open>The hooks\<close>

definition list_delete_ptr :: "wrapper list \<Rightarrow> wrapper \<Rightarrow> wrapper list" where
  "list_delete_ptr ws w =
     takeWhile (\<lambda>v. w_addr v \<noteq> w_addr w) ws @ drop 1 (dropWhile (\<lambda>v. w_addr v \<noteq> w_addr w) ws)"

definition PgturbohybridGraphExecutorRestorePrevious :: "exec_state \<Rightarrow> exec_state" where
  "PgturbohybridGraphExecutorRestorePrevious es =
     (if es_frames es = [] then es\<lparr>es_wrappers := []\<rparr>
      else es\<lparr>es_wrappers := foldl list_delete_ptr (es_wrappers es) (last (es_frames es)), es_frames := butlast (es_frames es)\<rparr>)"

definition PgturbohybridGraphExecutorStart :: "planstate \<Rightarrow> exec_state \<Rightarrow> exec_state" where
  "PgturbohybridGraphExecutorStart p es =
     (if es_disable es then es
      else PgturbohybridGraphWrapControlledIndexScans p None (es\<lparr>es_frames := es_frames es @ [[]]\<rparr>))"

definition PgturbohybridGraphExecutorEnd :: "exec_state \<Rightarrow> exec_state" where
  "PgturbohybridGraphExecutorEnd es = PgturbohybridGraphExecutorRestorePrevious es"

text \<open>
  The hooks around the server's own functions. \<open>standard\<close> is what \<open>standard_ExecutorStart\<close> gave, a
  tree of plan states or an error; of a run, whether it ended with an error.
\<close>

definition PgturbohybridExecutorStartHook :: "nat \<Rightarrow> planstate res \<Rightarrow> exec_state \<Rightarrow> unit res \<times> exec_state" where
  "PgturbohybridExecutorStartHook stmt standard es =
     (let es1 = PgturbohybridAmExecutorStart stmt es in
      case standard of
        Inl e \<Rightarrow> (Inl e, PgturbohybridAmExecutorEnd es1)
      | Inr p \<Rightarrow> (Inr (), PgturbohybridGraphExecutorStart p es1))"

definition PgturbohybridExecutorRunHook :: "unit res \<Rightarrow> exec_state \<Rightarrow> unit res \<times> exec_state" where
  "PgturbohybridExecutorRunHook standard es = (case standard of
       Inl e \<Rightarrow> (Inl e, PgturbohybridAmExecutorAbort (PgturbohybridGraphExecutorRestorePrevious es))
     | Inr u \<Rightarrow> (Inr u, es))"

text \<open>Ending a statement is told which one ends, and does not read it.\<close>

definition PgturbohybridExecutorEndHook :: "nat \<Rightarrow> exec_state \<Rightarrow> exec_state" where
  "PgturbohybridExecutorEndHook stmt es = PgturbohybridAmExecutorEnd (PgturbohybridGraphExecutorEnd es)"


section \<open>Which scans are wrapped\<close>

text \<open>The scans the wrapping reaches, in order, each with the limit it is given.\<close>

fun controlled_scans :: "planstate \<Rightarrow> nat option \<Rightarrow> (nat \<times> nat option) list" where
  "controlled_scans NoState L = []"
| "controlled_scans (LimitState a p) L = controlled_scans p (Some a)"
| "controlled_scans (IndexScanState n uses) L = (if uses then [(n, L)] else [])"
| "controlled_scans (AppendState ps) L = concat (map (\<lambda>p. controlled_scans p L) ps)"
| "controlled_scans (MergeAppendState ps) L = concat (map (\<lambda>p. controlled_scans p L) ps)"
| "controlled_scans (ResultState noqual p) L = controlled_scans p (if noqual then L else None)"
| "controlled_scans (SubqueryScanState noqual p) L = controlled_scans p (if noqual then L else None)"
| "controlled_scans (GatherState p) L = controlled_scans p L"
| "controlled_scans (OtherState l r) L = controlled_scans l None @ controlled_scans r None"

definition scan_addrs :: "planstate \<Rightarrow> nat list" where
  "scan_addrs p = map fst (controlled_scans p None)"

lemma scans_any_limit: "map fst (controlled_scans p L) = map fst (controlled_scans p L')"
proof (induction p L arbitrary: L' rule: controlled_scans.induct)
  case (4 ps L)
  then show ?case by (simp add: map_concat comp_def) (metis (mono_tags, lifting) map_eq_conv)
next
  case (5 ps L)
  then show ?case by (simp add: map_concat comp_def) (metis (mono_tags, lifting) map_eq_conv)
qed auto

text \<open>Wrapping is one call of \<open>add_wrapper\<close> per controlled scan.\<close>

lemma wrap_is_fold:
  "PgturbohybridGraphWrapControlledIndexScans p L es = fold (\<lambda>(n, L). add_wrapper n L) (controlled_scans p L) es"
proof (induction p L es rule: PgturbohybridGraphWrapControlledIndexScans.induct)
  case (4 ps L es)
  then show ?case by (induction ps arbitrary: es) auto
next
  case (5 ps L es)
  then show ?case by (induction ps arbitrary: es) auto
qed auto


text \<open>The wrappers made for a list of scans, the first at address \<open>next\<close>.\<close>

fun new_wrappers :: "nat \<Rightarrow> (nat \<Rightarrow> exec_fn) \<Rightarrow> (nat \<times> nat option) list \<Rightarrow> wrapper list" where
  "new_wrappers a proc [] = []"
| "new_wrappers a proc ((n, L) # scs) =
     \<lparr>w_addr = a, w_planstate = n, w_original = proc n, w_limit = L\<rparr> # new_wrappers (a + 1) (proc(n := Controller)) scs"

lemma new_wrappers_columns [simp]:
  "map w_planstate (new_wrappers a proc scs) = map fst scs"
  "map w_limit (new_wrappers a proc scs) = map snd scs"
  "map w_addr (new_wrappers a proc scs) = [a..<a + length scs]"
  "length (new_wrappers a proc scs) = length scs"
proof (induction scs arbitrary: a proc)
  case (Cons sc scs)
  {
    case 3
    then show ?case using Cons.IH(3) by (cases sc) (simp add: upt_conv_Cons del: upt_Suc)
  }
qed (auto split: prod.splits)

lemma new_wrappers_original:
  "distinct (map fst scs) \<Longrightarrow> w \<in> set (new_wrappers a proc scs) \<Longrightarrow> w_original w = proc (w_planstate w)"
proof (induction scs arbitrary: a proc)
  case (Cons sc scs)
  obtain n L where sc: "sc = (n, L)" by (cases sc)
  have "w_planstate w \<noteq> n" if w: "w \<in> set (new_wrappers (a + 1) (proc(n := Controller)) scs)"
  proof -
    have "w_planstate w \<in> set (map fst scs)" using w new_wrappers_columns(1) by (metis image_eqI list.set_map)
    then show ?thesis using Cons.prems(1) sc by auto
  qed
  moreover have "w_original w = (proc(n := Controller)) (w_planstate w)" if w: "w \<in> set (new_wrappers (a + 1) (proc(n := Controller)) scs)"
    by (rule Cons.IH [OF _ w]) (use Cons.prems(1) in simp)
  ultimately show ?case using Cons.prems(2) sc by (auto simp del: fun_upd_apply simp: fun_upd_other)
qed simp

lemma add_wrappers:
  "fold (\<lambda>(n, L). add_wrapper n L) scs es =
     es\<lparr>es_next := es_next es + length scs, es_wrappers := es_wrappers es @ new_wrappers (es_next es) (es_proc es) scs,
        es_frames := (if es_frames es = [] then []
          else butlast (es_frames es) @ [last (es_frames es) @ new_wrappers (es_next es) (es_proc es) scs]),
        es_proc := (\<lambda>m. if m \<in> fst ` set scs then Controller else es_proc es m)\<rparr>"
proof (induction scs arbitrary: es)
  case Nil
  then show ?case by simp
next
  case (Cons sc scs)
  obtain n L where sc: "sc = (n, L)" by (cases sc)
  have step: "fold (\<lambda>(n, L). add_wrapper n L) (sc # scs) es = fold (\<lambda>(n, L). add_wrapper n L) scs (add_wrapper n L es)"
    by (simp add: sc)
  show ?case unfolding step Cons.IH by (simp add: sc add_wrapper_def last_frame_add_def Let_def fun_eq_iff)
qed

section \<open>Limits\<close>

datatype limit_option = LIMIT_OPTION_COUNT | LIMIT_OPTION_WITH_TIES

record limit_state =
  ls_option :: limit_option
  ls_noCount :: bool
  ls_count :: int
  ls_offset :: int

text \<open>
  The row target; the sum is that of two \<open>int64\<close> values, which wraps. The code does not read the
  option of the limit, so \<open>WITH TIES\<close> has the target of a plain count. No scan stops at its target:
  the target is published to the scan, which sizes its budgets by it.
\<close>

definition PgturbohybridGraphGetLimitTupleTarget :: "(nat \<Rightarrow> limit_state) \<Rightarrow> nat option \<Rightarrow> int" where
  "PgturbohybridGraphGetLimitTupleTarget limits limitstate = (case limitstate of
       None \<Rightarrow> - 1
     | Some a \<Rightarrow>
         if ls_noCount (limits a) \<or> ls_count (limits a) < 0 then - 1
         else if ls_offset (limits a) > 0
         then sint (word_of_int (ls_count (limits a)) + word_of_int (ls_offset (limits a)) :: 64 word)
         else ls_count (limits a))"

definition limit_ok :: "limit_state \<Rightarrow> bool" where
  \<comment> \<open>the values \<open>recompute_limits\<close> of the server leaves, when their sum is an \<open>int64\<close>\<close>
  "limit_ok ls \<longleftrightarrow> 0 \<le> ls_count ls \<and> 0 \<le> ls_offset ls \<and> ls_count ls + ls_offset ls < 2 ^ 63"

lemma target_exact:
  assumes "limit_ok (limits a)"
  shows "PgturbohybridGraphGetLimitTupleTarget limits (Some a) =
    (if ls_noCount (limits a) then - 1 else ls_count (limits a) + ls_offset (limits a))"
proof -
  have sum: "sint (word_of_int c + word_of_int d :: 64 word) = c + d" if "0 \<le> c" "0 \<le> d" "c + d < 2 ^ 63" for c d :: int
    unfolding wi_hom_add using that by (simp add: signed_of_int signed_take_bit_int_eq_self del: of_int_add)
  show ?thesis using assms sum [of "ls_count (limits a)" "ls_offset (limits a)"]
    unfolding limit_ok_def PgturbohybridGraphGetLimitTupleTarget_def by auto
qed

section \<open>The limit of a scan\<close>

text \<open>All index scans of a tree, wrapped or not.\<close>

fun tree_scans :: "planstate \<Rightarrow> (nat \<times> bool) list" where
  "tree_scans NoState = []"
| "tree_scans (LimitState a p) = tree_scans p"
| "tree_scans (IndexScanState n uses) = [(n, uses)]"
| "tree_scans (AppendState ps) = concat (map tree_scans ps)"
| "tree_scans (MergeAppendState ps) = concat (map tree_scans ps)"
| "tree_scans (ResultState noqual p) = tree_scans p"
| "tree_scans (SubqueryScanState noqual p) = tree_scans p"
| "tree_scans (GatherState p) = tree_scans p"
| "tree_scans (OtherState l r) = tree_scans l @ tree_scans r"

lemma scan_addrs_tree: "map fst (controlled_scans p L) = map fst (filter snd (tree_scans p))"
proof (induction p L rule: controlled_scans.induct)
  case (4 ps L)
  then have eq: "map (\<lambda>p. map fst (controlled_scans p L)) ps = map (\<lambda>p. map fst (filter snd (tree_scans p))) ps" by simp
  show ?case unfolding controlled_scans.simps tree_scans.simps map_concat filter_concat map_map comp_def eq by (rule refl)
next
  case (5 ps L)
  then have eq: "map (\<lambda>p. map fst (controlled_scans p L)) ps = map (\<lambda>p. map fst (filter snd (tree_scans p))) ps" by simp
  show ?case unfolding controlled_scans.simps tree_scans.simps map_concat filter_concat map_map comp_def eq by (rule refl)
qed auto

lemma find_new_wrapper:
  "(n, L) \<in> set scs \<Longrightarrow> distinct (map fst scs) \<Longrightarrow>
   \<exists>w. find (\<lambda>w. w_planstate w = n) (new_wrappers a proc scs) = Some w \<and> w_limit w = L \<and> w_original w = proc n"
proof (induction scs arbitrary: a proc)
  case (Cons sc scs)
  obtain m L' where sc: "sc = (m, L')" by (cases sc)
  show ?case
  proof (cases "m = n")
    case True
    then have "L' = L" using Cons.prems sc by force
    then show ?thesis using True sc by simp
  next
    case False
    then have "(n, L) \<in> set scs" "distinct (map fst scs)" using Cons.prems sc by auto
    from Cons.IH [OF this, of "a + 1" "proc(m := Controller)"] show ?thesis using False sc by (auto simp del: fun_upd_apply simp: fun_upd_other)
  qed
qed simp

lemma find_append: "find P (xs @ ys) = (case find P xs of None \<Rightarrow> find P ys | Some x \<Rightarrow> Some x)"
  by (induction xs) auto

lemma find_started:
  assumes "(n, L) \<in> set (controlled_scans p None)" "distinct (scan_addrs p)" "n \<notin> w_planstate ` set (es_wrappers es)" "\<not> es_disable es"
  shows "\<exists>w. PgturbohybridGraphFindWrapperState (PgturbohybridGraphExecutorStart p es) n = Inr w \<and> w_limit w = L \<and> w_original w = es_proc es n"
proof -
  have "find (\<lambda>w. w_planstate w = n) (es_wrappers es) = None" using assms(3) by (auto simp: find_None_iff)
  then show ?thesis
    using find_new_wrapper [OF assms(1), of "es_next es" "es_proc es"] assms(2,4)
    by (auto simp: PgturbohybridGraphExecutorStart_def PgturbohybridGraphFindWrapperState_def wrap_is_fold add_wrappers find_append scan_addrs_def)
qed

lemma find_not_started:
  assumes "n \<notin> set (scan_addrs p)" "n \<notin> w_planstate ` set (es_wrappers es)"
  shows "\<exists>e. PgturbohybridGraphFindWrapperState (PgturbohybridGraphExecutorStart p es) n = Inl e"
proof -
  have "w_planstate ` set (new_wrappers a proc (controlled_scans p None)) = set (scan_addrs p)" for a proc
    by (metis list.set_map new_wrappers_columns(1) scan_addrs_def)
  then have "find (\<lambda>w. w_planstate w = n) (es_wrappers (PgturbohybridGraphExecutorStart p es)) = None"
    using assms by (auto simp: find_None_iff PgturbohybridGraphExecutorStart_def wrap_is_fold add_wrappers)
  then show ?thesis by (simp add: PgturbohybridGraphFindWrapperState_def)
qed

text \<open>
  The direct subplans of a plan state, and the nodes that hand the rows of a subplan on: every row
  of the subplan is one row of the node, so that of the first rows of the node none needs more rows
  of the subplan.
\<close>

inductive child :: "planstate \<Rightarrow> planstate \<Rightarrow> bool" where
  "child (LimitState a p) p"
| "p \<in> set ps \<Longrightarrow> child (AppendState ps) p"
| "p \<in> set ps \<Longrightarrow> child (MergeAppendState ps) p"
| "child (ResultState noqual p) p"
| "child (SubqueryScanState noqual p) p"
| "child (GatherState p) p"
| "child (OtherState l r) l"
| "child (OtherState l r) r"

inductive hands_on :: "planstate \<Rightarrow> planstate \<Rightarrow> bool" where
  "p \<in> set ps \<Longrightarrow> hands_on (AppendState ps) p"
| "p \<in> set ps \<Longrightarrow> hands_on (MergeAppendState ps) p"
| "hands_on (ResultState True p) p"
| "hands_on (SubqueryScanState True p) p"
| "hands_on (GatherState p) p"

inductive_simps child_simps [simp]:
  "child NoState q" "child (LimitState a p) q" "child (IndexScanState n uses) q" "child (AppendState ps) q"
  "child (MergeAppendState ps) q" "child (ResultState noqual p) q" "child (SubqueryScanState noqual p) q"
  "child (GatherState p) q" "child (OtherState l r) q"

inductive_simps hands_on_simps [simp]:
  "hands_on NoState q" "hands_on (LimitState a p) q" "hands_on (IndexScanState n uses) q" "hands_on (AppendState ps) q"
  "hands_on (MergeAppendState ps) q" "hands_on (ResultState noqual p) q" "hands_on (SubqueryScanState noqual p) q"
  "hands_on (GatherState p) q" "hands_on (OtherState l r) q"

text \<open>The limit of an index scan: its rows reach the limit through nodes that hand them on.\<close>

definition under_limit_node :: "planstate \<Rightarrow> nat \<Rightarrow> nat \<Rightarrow> bool" where
  "under_limit_node p a n \<longleftrightarrow>
     (\<exists>q. child\<^sup>*\<^sup>* p (LimitState a q) \<and> hands_on\<^sup>*\<^sup>* q (IndexScanState n True))"

lemma rtranclp_unfold: "R\<^sup>*\<^sup>* x y \<longleftrightarrow> x = y \<or> (\<exists>z. R x z \<and> R\<^sup>*\<^sup>* z y)"
  by (metis converse_rtranclpE converse_rtranclp_into_rtranclp rtranclp.rtrancl_refl)

lemma under_limit_node_step:
  "under_limit_node p a n \<longleftrightarrow>
     (\<exists>q. p = LimitState a q \<and> hands_on\<^sup>*\<^sup>* q (IndexScanState n True)) \<or> (\<exists>q. child p q \<and> under_limit_node q a n)"
  unfolding under_limit_node_def by (subst rtranclp_unfold) blast

lemma under_limit_node_simps [simp]:
  "\<not> under_limit_node NoState a n"
  "under_limit_node (LimitState b p) a n \<longleftrightarrow> (b = a \<and> hands_on\<^sup>*\<^sup>* p (IndexScanState n True)) \<or> under_limit_node p a n"
  "\<not> under_limit_node (IndexScanState m uses) a n"
  "under_limit_node (AppendState ps) a n \<longleftrightarrow> (\<exists>p \<in> set ps. under_limit_node p a n)"
  "under_limit_node (MergeAppendState ps) a n \<longleftrightarrow> (\<exists>p \<in> set ps. under_limit_node p a n)"
  "under_limit_node (ResultState noqual p) a n \<longleftrightarrow> under_limit_node p a n"
  "under_limit_node (SubqueryScanState noqual p) a n \<longleftrightarrow> under_limit_node p a n"
  "under_limit_node (GatherState p) a n \<longleftrightarrow> under_limit_node p a n"
  "under_limit_node (OtherState l r) a n \<longleftrightarrow> under_limit_node l a n \<or> under_limit_node r a n"
  by (subst under_limit_node_step, force)+

lemma hands_on_scan_simps [simp]:
  "\<not> hands_on\<^sup>*\<^sup>* NoState (IndexScanState n u)"
  "\<not> hands_on\<^sup>*\<^sup>* (LimitState b p) (IndexScanState n u)"
  "hands_on\<^sup>*\<^sup>* (IndexScanState m v) (IndexScanState n u) \<longleftrightarrow> m = n \<and> v = u"
  "hands_on\<^sup>*\<^sup>* (AppendState ps) (IndexScanState n u) \<longleftrightarrow> (\<exists>p \<in> set ps. hands_on\<^sup>*\<^sup>* p (IndexScanState n u))"
  "hands_on\<^sup>*\<^sup>* (MergeAppendState ps) (IndexScanState n u) \<longleftrightarrow> (\<exists>p \<in> set ps. hands_on\<^sup>*\<^sup>* p (IndexScanState n u))"
  "hands_on\<^sup>*\<^sup>* (ResultState noqual p) (IndexScanState n u) \<longleftrightarrow> noqual \<and> hands_on\<^sup>*\<^sup>* p (IndexScanState n u)"
  "hands_on\<^sup>*\<^sup>* (SubqueryScanState noqual p) (IndexScanState n u) \<longleftrightarrow> noqual \<and> hands_on\<^sup>*\<^sup>* p (IndexScanState n u)"
  "hands_on\<^sup>*\<^sup>* (GatherState p) (IndexScanState n u) \<longleftrightarrow> hands_on\<^sup>*\<^sup>* p (IndexScanState n u)"
  "\<not> hands_on\<^sup>*\<^sup>* (OtherState l r) (IndexScanState n u)"
  by (subst rtranclp_unfold, force)+

lemma controlled_limit:
  "(n, Some a) \<in> set (controlled_scans p L) \<longleftrightarrow>
     (L = Some a \<and> hands_on\<^sup>*\<^sup>* p (IndexScanState n True)) \<or> under_limit_node p a n"
  by (induction p L rule: controlled_scans.induct) auto

lemma tree_scan_child: "(n, uses) \<in> set (tree_scans p) \<longleftrightarrow> child\<^sup>*\<^sup>* p (IndexScanState n uses)"
  by (induction p) (subst rtranclp_unfold, force)+

lemma start_hook_wrappers:
  "snd (PgturbohybridExecutorStartHook stmt (Inr p) es) = PgturbohybridGraphExecutorStart p (PgturbohybridAmExecutorStart stmt es)"
  by (simp add: PgturbohybridExecutorStartHook_def Let_def)

lemma am_start_simps [simp]:
  "es_wrappers (PgturbohybridAmExecutorStart stmt es) = es_wrappers es"
  "es_disable (PgturbohybridAmExecutorStart stmt es) = es_disable es"
  "es_proc (PgturbohybridAmExecutorStart stmt es) = es_proc es"
  by (simp_all add: PgturbohybridAmExecutorStart_def PgturbohybridPushPlannedStmt_def)

lemma start_proc:
  "\<not> es_disable es \<Longrightarrow>
   es_proc (PgturbohybridGraphExecutorStart p es) n = (if n \<in> set (scan_addrs p) then Controller else es_proc es n)"
  by (simp add: PgturbohybridGraphExecutorStart_def wrap_is_fold add_wrappers scan_addrs_def)



section \<open>Properly nested sessions\<close>

text \<open>
  The statements of a session that are started and not ended, the innermost first. The server
  ends statements in this order unless cursors are closed otherwise, an error that nothing catches
  passes through the run of every one of them and then aborts the transaction, and a plan state is
  created, possibly at an address used before, with its own function. The developer switch stays off.
\<close>

type_synonym open_stmts = "(nat \<times> planstate) list"

definition run_fails :: "pg_error \<Rightarrow> exec_state \<Rightarrow> exec_state" where
  "run_fails e es = snd (PgturbohybridExecutorRunHook (Inl e) es)"

inductive session_step :: "open_stmts \<times> exec_state \<Rightarrow> open_stmts \<times> exec_state \<Rightarrow> bool" where
  new_planstate: "n \<notin> w_planstate ` set (es_wrappers es) \<Longrightarrow>
    session_step (stmts, es) (stmts, es\<lparr>es_proc := (es_proc es)(n := RealFn k)\<rparr>)"
| start: "distinct (scan_addrs p) \<Longrightarrow> set (scan_addrs p) \<inter> w_planstate ` set (es_wrappers es) = {} \<Longrightarrow>
    (\<And>n. n \<in> set (scan_addrs p) \<Longrightarrow> es_proc es n \<noteq> Controller) \<Longrightarrow>
    session_step (stmts, es) ((stmt, p) # stmts, snd (PgturbohybridExecutorStartHook stmt (Inr p) es))"
| start_fails: "session_step (stmts, es) (stmts, snd (PgturbohybridExecutorStartHook stmt (Inl e) es))"
| run: "session_step (stmts, es) (stmts, snd (PgturbohybridExecutorRunHook (Inr ()) es))"
| finish: "session_step (st # stmts, es) (stmts, PgturbohybridExecutorEndHook (fst st) es)"
| run_aborts: "session_step (stmts, es) ([], PgturbohybridXactCallback XACT_EVENT_ABORT ((run_fails e ^^ length stmts) es))"

definition idle :: "exec_state \<Rightarrow> bool" where
  "idle es \<longleftrightarrow> es_stmt es = None \<and> es_stmt_stack es = [] \<and> es_wrappers es = [] \<and> es_frames es = [] \<and> \<not> es_disable es"

text \<open>One frame per started statement, which owns exactly the wrappers of its scans.\<close>

definition frame_of :: "nat \<times> planstate \<Rightarrow> wrapper list \<Rightarrow> bool" where
  "frame_of st ws \<longleftrightarrow> map (\<lambda>w. (w_planstate w, w_limit w)) ws = controlled_scans (snd st) None"

definition session_inv :: "open_stmts \<Rightarrow> exec_state \<Rightarrow> bool" where
  "session_inv stmts es \<longleftrightarrow>
     es_stmt es # es_stmt_stack es = map (\<lambda>st. Some (fst st)) stmts @ [None] \<and> \<not> es_disable es \<and>
     es_wrappers es = concat (es_frames es) \<and> list_all2 frame_of (rev stmts) (es_frames es) \<and>
     distinct (map w_addr (es_wrappers es)) \<and> (\<forall>w \<in> set (es_wrappers es). w_addr w < es_next es) \<and>
     distinct (map w_planstate (es_wrappers es)) \<and> (\<forall>w \<in> set (es_wrappers es). w_original w \<noteq> Controller)"

lemma session_inv_proc [simp]: "session_inv stmts (es\<lparr>es_proc := g\<rparr>) = session_inv stmts es"
  by (simp add: session_inv_def)

lemma idle_inv: "idle es \<longleftrightarrow> session_inv [] es"
  by (auto simp: idle_def session_inv_def)

lemma delete_ptr_mid: "w_addr w \<notin> w_addr ` set xs \<Longrightarrow> list_delete_ptr (xs @ w # ws) w = xs @ ws"
proof -
  assume "w_addr w \<notin> w_addr ` set xs"
  then have "\<forall>v \<in> set xs. w_addr v \<noteq> w_addr w" by (metis image_eqI)
  then show ?thesis by (simp add: list_delete_ptr_def takeWhile_append2 dropWhile_append2)
qed

lemma delete_owned: "distinct (map w_addr (xs @ ws)) \<Longrightarrow> foldl list_delete_ptr (xs @ ws) ws = xs"
proof (induction ws)
  case (Cons w ws)
  then have "w_addr w \<notin> w_addr ` set xs" by auto
  from delete_ptr_mid [OF this] show ?case using Cons by simp
qed simp

text \<open>Restoring drops the newest frame with its wrappers.\<close>

lemma restore_inv:
  assumes "es_wrappers es = concat fs @ ws" "es_frames es = fs @ [ws]" "distinct (map w_addr (es_wrappers es))"
  shows "PgturbohybridGraphExecutorRestorePrevious es = es\<lparr>es_wrappers := concat fs, es_frames := fs\<rparr>"
  using assms delete_owned [of "concat fs" ws] by (simp add: PgturbohybridGraphExecutorRestorePrevious_def)

lemma inv_last_frame:
  assumes "session_inv (st # stmts) es"
  obtains fs ws where "es_frames es = fs @ [ws]" "es_wrappers es = concat fs @ ws" "list_all2 frame_of (rev stmts) fs"
    "frame_of st ws" "distinct (map w_addr (es_wrappers es))"
proof -
  have "list_all2 frame_of (rev stmts @ [st]) (es_frames es)" using assms by (simp add: session_inv_def)
  then obtain fs ws where "es_frames es = fs @ [ws]" "list_all2 frame_of (rev stmts) fs" "frame_of st ws"
    unfolding list_all2_append1 by (auto simp: list_all2_Cons1)
  then show ?thesis using that assms by (auto simp: session_inv_def)
qed

lemma restored_session:
  assumes "session_inv (st # stmts) es"
  shows "session_inv stmts (PgturbohybridAmExecutorEnd (PgturbohybridGraphExecutorRestorePrevious es))"
proof -
  obtain fs ws where f: "es_frames es = fs @ [ws]" "es_wrappers es = concat fs @ ws" "list_all2 frame_of (rev stmts) fs"
    "distinct (map w_addr (es_wrappers es))" using inv_last_frame [OF assms] by blast
  have r: "PgturbohybridGraphExecutorRestorePrevious es = es\<lparr>es_wrappers := concat fs, es_frames := fs\<rparr>"
    by (rule restore_inv [OF f(2,1,4)])
  show ?thesis using assms f unfolding r
    by (cases stmts)
      (auto simp: session_inv_def PgturbohybridAmExecutorEnd_def PgturbohybridPopPlannedStmt_def)
qed

lemma end_inv: "session_inv (st # stmts) es \<Longrightarrow> session_inv stmts (PgturbohybridExecutorEndHook stmt es)"
  using restored_session by (simp add: PgturbohybridExecutorEndHook_def PgturbohybridGraphExecutorEnd_def)

text \<open>The part of the invariant that an aborted run keeps: the frames without the statement stack.\<close>

definition frames_inv :: "open_stmts \<Rightarrow> exec_state \<Rightarrow> bool" where
  "frames_inv stmts es \<longleftrightarrow> \<not> es_disable es \<and> es_wrappers es = concat (es_frames es) \<and>
     list_all2 frame_of (rev stmts) (es_frames es) \<and> distinct (map w_addr (es_wrappers es))"

lemma run_fails_frames:
  assumes "frames_inv (st # stmts) es"
  shows "frames_inv stmts (run_fails e es)"
proof -
  have "list_all2 frame_of (rev stmts @ [st]) (es_frames es)" using assms by (simp add: frames_inv_def)
  then obtain fs ws where f: "es_frames es = fs @ [ws]" "list_all2 frame_of (rev stmts) fs"
    unfolding list_all2_append1 by (auto simp: list_all2_Cons1)
  have w: "es_wrappers es = concat fs @ ws" using assms f(1) by (simp add: frames_inv_def)
  have d: "distinct (map w_addr (es_wrappers es))" using assms unfolding frames_inv_def by blast
  have r: "PgturbohybridGraphExecutorRestorePrevious es = es\<lparr>es_wrappers := concat fs, es_frames := fs\<rparr>"
    by (rule restore_inv [OF w f(1) d])
  have "distinct (map w_addr (concat fs))" using w d by simp
  then show ?thesis using assms f unfolding frames_inv_def run_fails_def
    by (simp add: PgturbohybridExecutorRunHook_def r PgturbohybridAmExecutorAbort_def PgturbohybridClearPlannedStmtStack_def)
qed

lemma run_fails_all: "frames_inv stmts es \<Longrightarrow> frames_inv [] ((run_fails e ^^ length stmts) es)"
proof (induction stmts arbitrary: es)
  case (Cons st stmts)
  from Cons.IH [OF run_fails_frames [OF Cons.prems]] show ?case by (simp add: funpow_swap1)
qed simp

lemma start_inv:
  assumes "session_inv stmts es" "distinct (scan_addrs p)" "set (scan_addrs p) \<inter> w_planstate ` set (es_wrappers es) = {}"
    and "\<And>n. n \<in> set (scan_addrs p) \<Longrightarrow> es_proc es n \<noteq> Controller"
  shows "session_inv ((stmt, p) # stmts) (snd (PgturbohybridExecutorStartHook stmt (Inr p) es))"
proof -
  let ?ws = "new_wrappers (es_next es) (es_proc es) (controlled_scans p None)"
  let ?es = "snd (PgturbohybridExecutorStartHook stmt (Inr p) es)"
  have on: "\<not> es_disable es" using assms(1) by (simp add: session_inv_def)
  have f: "es_wrappers ?es = es_wrappers es @ ?ws" "es_frames ?es = es_frames es @ [?ws]"
    "es_next ?es = es_next es + length (controlled_scans p None)" "es_stmt ?es = Some stmt"
    "es_stmt_stack ?es = es_stmt es # es_stmt_stack es" "es_disable ?es = es_disable es"
    using on by (simp_all add: Let_def PgturbohybridExecutorStartHook_def PgturbohybridAmExecutorStart_def
        PgturbohybridPushPlannedStmt_def PgturbohybridGraphExecutorStart_def wrap_is_fold add_wrappers)
  have pl: "w_planstate ` set ?ws = set (scan_addrs p)" by (metis list.set_map new_wrappers_columns(1) scan_addrs_def)
  have ad: "w_addr ` set ?ws = {es_next es..<es_next es + length (controlled_scans p None)}"
    by (metis atLeastLessThan_upt list.set_map new_wrappers_columns(3))
  have new: "w_addr w \<ge> es_next es \<and> w_addr w < es_next es + length (controlled_scans p None)" if "w \<in> set ?ws" for w
    using that ad by (metis atLeastLessThan_iff image_eqI)
  have orig: "w_original w \<noteq> Controller" if "w \<in> set ?ws" for w
  proof -
    have "w_original w = es_proc es (w_planstate w)"
      by (rule new_wrappers_original [OF _ that]) (use assms(2) in \<open>simp add: scan_addrs_def\<close>)
    moreover have "w_planstate w \<in> set (scan_addrs p)" using that pl by blast
    ultimately show ?thesis using assms(4) by simp
  qed
  have frame: "frame_of (stmt, p) ?ws"
  proof -
    have "map (\<lambda>w. (w_planstate w, w_limit w)) ws = zip (map w_planstate ws) (map w_limit ws)" for ws
      by (induction ws) auto
    from this [of ?ws] show ?thesis by (simp only: frame_of_def snd_conv new_wrappers_columns zip_map_fst_snd)
  qed
  have disj: "w_addr ` set (es_wrappers es) \<inter> {es_next es..<es_next es + length (controlled_scans p None)} = {}"
    using assms(1) unfolding session_inv_def by fastforce
  show ?thesis unfolding session_inv_def f
  proof (intro conjI ballI)
    show "Some stmt # es_stmt es # es_stmt_stack es = map (\<lambda>st. Some (fst st)) ((stmt, p) # stmts) @ [None]"
      using assms(1) by (simp add: session_inv_def)
    show "list_all2 frame_of (rev ((stmt, p) # stmts)) (es_frames es @ [?ws])"
      using assms(1) frame by (simp add: session_inv_def list_all2_appendI)
    have d: "distinct (map w_addr (es_wrappers es))" "distinct (map w_planstate (es_wrappers es))"
      using assms(1) unfolding session_inv_def by blast+
    show "distinct (map w_addr (es_wrappers es @ ?ws))" using d(1) disj by simp
    show "distinct (map w_planstate (es_wrappers es @ ?ws))"
      using d(2) assms(2,3) pl unfolding scan_addrs_def by auto
    fix w assume "w \<in> set (es_wrappers es @ ?ws)"
    moreover have "w \<in> set (es_wrappers es) \<Longrightarrow> w_addr w < es_next es \<and> w_original w \<noteq> Controller"
      using assms(1) unfolding session_inv_def by blast
    ultimately show "w_addr w < es_next es + length (controlled_scans p None)" "w_original w \<noteq> Controller"
      using new [of w] orig [of w] by auto
  qed (use assms(1) in \<open>auto simp: session_inv_def\<close>)
qed

lemma start_fails_unchanged: "snd (PgturbohybridExecutorStartHook stmt (Inl e) es) = es"
  by (simp add: Let_def PgturbohybridExecutorStartHook_def PgturbohybridAmExecutorStart_def
      PgturbohybridPushPlannedStmt_def PgturbohybridAmExecutorEnd_def PgturbohybridPopPlannedStmt_def)

lemma session_step_inv: "session_step s s' \<Longrightarrow> session_inv (fst s) (snd s) \<Longrightarrow> session_inv (fst s') (snd s')"
proof (induction rule: session_step.induct)
  case (new_planstate n es stmts k)
  then show ?case by simp
next
  case (start p es stmts stmt)
  then show ?case using start_inv by simp
next
  case (start_fails stmts es stmt e)
  then show ?case by (simp add: start_fails_unchanged)
next
  case (run stmts es)
  then show ?case by (simp add: PgturbohybridExecutorRunHook_def)
next
  case (finish st stmts es)
  then show ?case using end_inv by simp
next
  case (run_aborts stmts es e)
  then have "frames_inv stmts es" unfolding session_inv_def frames_inv_def fst_conv snd_conv by blast
  from run_fails_all [OF this, of e] show ?case
    by (simp add: session_inv_def frames_inv_def PgturbohybridXactCallback_def PgturbohybridClearPlannedStmtStack_def)
qed

lemma session_reachable_inv:
  assumes "session_step\<^sup>*\<^sup>* ([], es0) (stmts, es)" "idle es0"
  shows "session_inv stmts es"
proof -
  have "session_step\<^sup>*\<^sup>* s s' \<Longrightarrow> session_inv (fst s) (snd s) \<Longrightarrow> session_inv (fst s') (snd s')" for s s'
    by (induction rule: rtranclp_induct) (auto intro: session_step_inv)
  from this [OF assms(1)] show ?thesis using assms(2) by (simp add: idle_inv)
qed

lemma end_all: "session_inv stmts es \<Longrightarrow> session_inv [] (foldl (\<lambda>es st. PgturbohybridExecutorEndHook (fst st) es) es stmts)"
proof (induction stmts arbitrary: es)
  case (Cons st stmts)
  from Cons.IH [OF end_inv [OF Cons.prems]] show ?case by simp
qed simp

lemma open_scan_found:
  assumes "session_inv stmts es" "(stmt, p) \<in> set stmts" "(n, L) \<in> set (controlled_scans p None)"
  shows "\<exists>w. PgturbohybridGraphFindWrapperState es n = Inr w \<and> w_limit w = L \<and> w_original w \<noteq> Controller"
proof -
  have "(stmt, p) \<in> set (rev stmts)" using assms(2) by simp
  then obtain ws where ws: "ws \<in> set (es_frames es)" "frame_of (stmt, p) ws"
    using assms(1) unfolding session_inv_def list_all2_conv_all_nth by (metis in_set_conv_nth)
  have "(n, L) \<in> set (map (\<lambda>w. (w_planstate w, w_limit w)) ws)" using ws(2) assms(3) by (simp add: frame_of_def)
  then obtain w where w: "w \<in> set ws" "w_planstate w = n" "w_limit w = L" by auto
  have in_es: "w \<in> set (es_wrappers es)" using w(1) ws(1) assms(1) by (auto simp: session_inv_def)
  then obtain v where v: "find (\<lambda>w. w_planstate w = n) (es_wrappers es) = Some v"
    using w(2) by (cases "find (\<lambda>w. w_planstate w = n) (es_wrappers es)") (auto simp: find_None_iff)
  then have "v \<in> set (es_wrappers es)" "w_planstate v = n" by (auto simp: find_Some_iff)
  moreover have "inj_on w_planstate (set (es_wrappers es))" using assms(1) unfolding session_inv_def distinct_map by blast
  ultimately have "v = w" using in_es w(2) by (auto dest: inj_onD)
  then show ?thesis using v w(3) in_es assms(1) by (auto simp: PgturbohybridGraphFindWrapperState_def session_inv_def)
qed


text \<open>
  C16. In every state a properly nested session reaches from an idle one, the current statement is
  the innermost open one, and every index scan of the extension in an open statement finds the
  wrapper made for it, with the limit above it and a function of its own to call. Ending the open
  statements, however many there are, always brings the session back to idle.
\<close>

theorem nested_sessions_return_to_idle:
  assumes "session_step\<^sup>*\<^sup>* ([], es0) (stmts, es)" "idle es0"
  shows "es_stmt es = (case stmts of [] \<Rightarrow> None | st # _ \<Rightarrow> Some (fst st)) \<and>
    (\<forall>stmt p n L. (stmt, p) \<in> set stmts \<and> (n, L) \<in> set (controlled_scans p None) \<longrightarrow>
       (\<exists>w. PgturbohybridGraphFindWrapperState es n = Inr w \<and> w_limit w = L \<and> w_original w \<noteq> Controller)) \<and>
    idle (foldl (\<lambda>es st. PgturbohybridExecutorEndHook (fst st) es) es stmts)"
proof (intro conjI)
  have inv: "session_inv stmts es" by (rule session_reachable_inv [OF assms])
  then have "es_stmt es # es_stmt_stack es = map (\<lambda>st. Some (fst st)) stmts @ [None]" unfolding session_inv_def by blast
  then show "es_stmt es = (case stmts of [] \<Rightarrow> None | st # _ \<Rightarrow> Some (fst st))" by (cases stmts) auto
  show "idle (foldl (\<lambda>es st. PgturbohybridExecutorEndHook (fst st) es) es stmts)" unfolding idle_inv by (rule end_all [OF inv])
  show "\<forall>stmt p n L. (stmt, p) \<in> set stmts \<and> (n, L) \<in> set (controlled_scans p None) \<longrightarrow>
     (\<exists>w. PgturbohybridGraphFindWrapperState es n = Inr w \<and> w_limit w = L \<and> w_original w \<noteq> Controller)"
    using open_scan_found [OF inv] by blast
qed

section \<open>The controller\<close>

text \<open>
  What a qualifier of a scan looks like to the payload filter, a Var by attribute number and type,
  a Const by type, whether it is null and its value. \<open>get_opcode\<close> of the server is a parameter.
\<close>

datatype qual_arg = VarArg int nat | ConstArg nat bool int | OtherArg
datatype qual = OpExpr nat nat "qual_arg list" | OtherQual

definition F_INT4EQ :: nat where "F_INT4EQ = 65"
definition INT4OID :: nat where "INT4OID = 23"

definition var_const :: "qual_arg \<Rightarrow> qual_arg \<Rightarrow> (int \<times> int) option" where
  "var_const v c = (case (v, c) of
       (VarArg attno vartype, ConstArg consttype isnull value) \<Rightarrow>
         if attno \<le> 0 \<or> vartype \<noteq> INT4OID \<or> consttype \<noteq> INT4OID \<or> isnull then None else Some (attno, value)
     | _ \<Rightarrow> None)"

definition PgturbohybridGraphExtractPayloadInt4FilterExpr :: "(nat \<Rightarrow> nat) \<Rightarrow> qual \<Rightarrow> (int \<times> int) option" where
  "PgturbohybridGraphExtractPayloadInt4FilterExpr get_opcode q = (case q of
       OpExpr opno opfuncid [l, r] \<Rightarrow>
         if (if opfuncid \<noteq> 0 then opfuncid else get_opcode opno) \<noteq> F_INT4EQ then None
         else (case (l, r) of
             (VarArg _ _, ConstArg _ _ _) \<Rightarrow> var_const l r
           | (ConstArg _ _ _, VarArg _ _) \<Rightarrow> var_const r l
           | _ \<Rightarrow> None)
     | _ \<Rightarrow> None)"

fun first_some :: "('a \<Rightarrow> 'b option) \<Rightarrow> 'a list \<Rightarrow> 'b option" where
  "first_some g [] = None"
| "first_some g (x # xs) = (case g x of None \<Rightarrow> first_some g xs | Some y \<Rightarrow> Some y)"

text \<open>The scan state the extension keeps for an index scan, as far as the controller touches it.\<close>

record scan_opaque =
  hasTupleTargetRows :: bool
  tupleTargetRows :: int
  hasEstimatedFilterSelectivity :: bool
  so_estimatedFilterSelectivity :: cdouble
  hasInitialEffectiveEfSearch :: bool
  initialEffectiveEfSearch :: int
  efSearch :: int
  returnedRows :: int

text \<open>
  An index scan: its qualifiers, the number of rows the heap relation is known to have (None when
  there is no relation to ask), the rows the planner expects, and the scan descriptor if one is open.
\<close>

record index_scan =
  is_quals :: "qual list"
  is_reltuples :: "cdouble option"
  is_plan_rows :: cdouble
  is_opaque :: "scan_opaque option"

definition PgturbohybridGraphExtractPayloadInt4Filter :: "(nat \<Rightarrow> nat) \<Rightarrow> index_scan \<Rightarrow> (int \<times> int) option" where
  "PgturbohybridGraphExtractPayloadInt4Filter get_opcode isc =
     first_some (PgturbohybridGraphExtractPayloadInt4FilterExpr get_opcode) (is_quals isc)"

definition PgturbohybridGraphEstimateFilterSelectivity :: "fpu \<Rightarrow> index_scan \<Rightarrow> cdouble" where
  "PgturbohybridGraphEstimateFilterSelectivity f isc = (case is_reltuples isc of
       None \<Rightarrow> Fin (- 1)
     | Some reltuples \<Rightarrow>
         if \<not> dless (Fin 0) reltuples then Fin (- 1)
         else if dless (is_plan_rows isc) (Fin 0) then Fin (- 1)
         else dmax (dmin (f_div f (is_plan_rows isc) reltuples) (Fin 1)) (Fin 0))"

definition PgturbohybridGraphClampEstimatedFilterSelectivity :: "fpu \<Rightarrow> int \<Rightarrow> cdouble \<Rightarrow> cdouble" where
  "PgturbohybridGraphClampEstimatedFilterSelectivity f max_scan_tuples sel =
     (if \<not> dless (Fin 0) sel then Fin 1
      else dmax (dmin sel (Fin 1)) (f_div f (Fin 1) (Fin (of_int (max max_scan_tuples 1)))))"

definition PgturbohybridGraphSeedScanContext :: "fpu \<Rightarrow> int \<Rightarrow> int \<Rightarrow> cdouble \<Rightarrow> scan_opaque \<Rightarrow> scan_opaque" where
  "PgturbohybridGraphSeedScanContext f max_scan_tuples tuple_target sel so =
     (let so1 = (if \<not> hasTupleTargetRows so \<and> 0 \<le> tuple_target
                 then so\<lparr>hasTupleTargetRows := True, tupleTargetRows := tuple_target\<rparr> else so);
          so2 = (if \<not> hasEstimatedFilterSelectivity so1 \<and> \<not> dless sel (Fin 0) \<and> sel \<noteq> NaN
                 then so1\<lparr>so_estimatedFilterSelectivity := PgturbohybridGraphClampEstimatedFilterSelectivity f max_scan_tuples sel,
                          hasEstimatedFilterSelectivity := True\<rparr> else so1)
      in if \<not> hasInitialEffectiveEfSearch so2
         then so2\<lparr>initialEffectiveEfSearch := efSearch so2, hasInitialEffectiveEfSearch := True\<rparr> else so2)"

text \<open>
  One call of the controller for the plan state at address \<open>n\<close>: \<open>orig\<close> is the function the wrapper
  saved, which returns whether it has a row, or an error, and may change the state in any way, also
  by running other statements.
\<close>

type_synonym exec_world = "exec_state \<times> (nat \<Rightarrow> index_scan)"

definition PgturbohybridGraphExecIndexScanWithController ::
    "fpu \<Rightarrow> int \<Rightarrow> (nat \<Rightarrow> nat) \<Rightarrow> (nat \<Rightarrow> limit_state) \<Rightarrow> (exec_fn \<Rightarrow> nat \<Rightarrow> exec_world \<Rightarrow> bool res \<times> exec_world) \<Rightarrow>
     nat \<Rightarrow> exec_world \<Rightarrow> bool res \<times> exec_world" where
  "PgturbohybridGraphExecIndexScanWithController f max_scan_tuples get_opcode limits orig n world =
     (case PgturbohybridGraphFindWrapperState (fst world) n of
        Inl e \<Rightarrow> (Inl e, world)
      | Inr w \<Rightarrow>
          let prev = es_active (fst world);
              tuple_target = PgturbohybridGraphGetLimitTupleTarget limits (w_limit w);
              sel = PgturbohybridGraphEstimateFilterSelectivity f (snd world n);
              filt = PgturbohybridGraphExtractPayloadInt4Filter get_opcode (snd world n);
              act = \<lparr>limit_tuple_target = tuple_target, estimated_filter_selectivity = sel,
                     payload_filter_valid = (filt \<noteq> None),
                     payload_filter_attno = (case filt of None \<Rightarrow> 0 | Some (a, v) \<Rightarrow> a),
                     payload_filter_value = (case filt of None \<Rightarrow> 0 | Some (a, v) \<Rightarrow> v)\<rparr>;
              (slot, es1, scans1) = orig (w_original w) n ((fst world)\<lparr>es_active := act\<rparr>, snd world);
              es2 = es1\<lparr>es_active := prev\<rparr>
          in (case slot of
                Inl e \<Rightarrow> (Inl e, es2, scans1)
              | Inr got \<Rightarrow> (case is_opaque (scans1 n) of
                  None \<Rightarrow> (Inr got, es2, scans1)
                | Some so \<Rightarrow>
                    let so1 = PgturbohybridGraphSeedScanContext f max_scan_tuples tuple_target sel so;
                        so2 = (if got then so1\<lparr>returnedRows := returnedRows so1 + 1\<rparr> else so1)
                    in (Inr got, es2, scans1(n := (scans1 n)\<lparr>is_opaque := Some so2\<rparr>)))))"

text \<open>The row target of a scan is the one of its first controlled call.\<close>

lemma seed_keeps_target:
  "tupleTargetRows (PgturbohybridGraphSeedScanContext f m t sel so) =
     (if \<not> hasTupleTargetRows so \<and> 0 \<le> t then t else tupleTargetRows so)"
  "hasTupleTargetRows (PgturbohybridGraphSeedScanContext f m t sel so) = (hasTupleTargetRows so \<or> 0 \<le> t)"
  "returnedRows (PgturbohybridGraphSeedScanContext f m t sel so) = returnedRows so"
  by (auto simp: PgturbohybridGraphSeedScanContext_def Let_def)

text \<open>
  A call of the controller runs the function the wrapper saved with the row target of the limit
  the scan was wrapped with in the globals. Whatever that function does, also when it reports an
  error or runs other statements, the globals are afterwards what they were before the call, its
  result is returned, and a returned row is counted in the scan.
\<close>

theorem controller_scopes_globals:
  assumes "PgturbohybridGraphFindWrapperState es n = Inr w"
    and "PgturbohybridGraphExecIndexScanWithController f max_scan_tuples get_opcode limits orig n (es, scans) = (r, es', scans')"
  shows "\<exists>act es1 scans1.
    limit_tuple_target act = PgturbohybridGraphGetLimitTupleTarget limits (w_limit w) \<and>
    orig (w_original w) n (es\<lparr>es_active := act\<rparr>, scans) = (r, es1, scans1) \<and>
    es' = es1\<lparr>es_active := es_active es\<rparr> \<and>
    (\<forall>so. r = Inr True \<and> is_opaque (scans1 n) = Some so \<longrightarrow>
       (\<exists>so'. is_opaque (scans' n) = Some so' \<and> returnedRows so' = returnedRows so + 1))"
proof -
  define act where "act = (let filt = PgturbohybridGraphExtractPayloadInt4Filter get_opcode (scans n) in
    \<lparr>limit_tuple_target = PgturbohybridGraphGetLimitTupleTarget limits (w_limit w),
     estimated_filter_selectivity = PgturbohybridGraphEstimateFilterSelectivity f (scans n),
     payload_filter_valid = (filt \<noteq> None), payload_filter_attno = (case filt of None \<Rightarrow> 0 | Some (a, v) \<Rightarrow> a),
     payload_filter_value = (case filt of None \<Rightarrow> 0 | Some (a, v) \<Rightarrow> v)\<rparr>)"
  obtain slot es1 scans1 where o: "orig (w_original w) n (es\<lparr>es_active := act\<rparr>, scans) = (slot, es1, scans1)"
    by (metis prod_cases3)
  have t: "limit_tuple_target act = PgturbohybridGraphGetLimitTupleTarget limits (w_limit w)" by (simp add: act_def Let_def)
  have c: "PgturbohybridGraphExecIndexScanWithController f max_scan_tuples get_opcode limits orig n (es, scans) =
    (let es2 = es1\<lparr>es_active := es_active es\<rparr> in
     (case slot of
        Inl e \<Rightarrow> (Inl e, es2, scans1)
      | Inr got \<Rightarrow> (case is_opaque (scans1 n) of
          None \<Rightarrow> (Inr got, es2, scans1)
        | Some so \<Rightarrow>
            let so1 = PgturbohybridGraphSeedScanContext f max_scan_tuples (PgturbohybridGraphGetLimitTupleTarget limits (w_limit w))
                        (PgturbohybridGraphEstimateFilterSelectivity f (scans n)) so;
                so2 = (if got then so1\<lparr>returnedRows := returnedRows so1 + 1\<rparr> else so1)
            in (Inr got, es2, scans1(n := (scans1 n)\<lparr>is_opaque := Some so2\<rparr>)))))"
    using o by (simp add: PgturbohybridGraphExecIndexScanWithController_def assms(1) act_def Let_def)
  have "r = slot \<and> es' = es1\<lparr>es_active := es_active es\<rparr> \<and>
    (\<forall>so. r = Inr True \<and> is_opaque (scans1 n) = Some so \<longrightarrow>
       (\<exists>so'. is_opaque (scans' n) = Some so' \<and> returnedRows so' = returnedRows so + 1))"
    using assms(2) unfolding c
    by (auto simp: Let_def seed_keeps_target split: sum.splits option.splits if_splits)
  then show ?thesis using t o by blast
qed


section \<open>The limit of the current statement\<close>

text \<open>
  What the search for a constant limit reads of a plan: whether a node is a \<open>Limit\<close> and its count,
  absent, not constant, or a constant by type, nullness and value.
\<close>

datatype limit_count = NoCount | NotConst | ConstCount nat bool int

datatype limit_plan = NoLimitPlan | LimitPlan "limit_count option" limit_plan limit_plan

definition INT2OID :: nat where "INT2OID = 21"
definition INT8OID :: nat where "INT8OID = 20"

definition PgturbohybridConstLimitValue :: "limit_count \<Rightarrow> int" where
  "PgturbohybridConstLimitValue limitCount = (case limitCount of
       ConstCount consttype isnull value \<Rightarrow>
         if isnull then 0
         else if consttype \<notin> {INT2OID, INT4OID, INT8OID} then 0
         else if value \<le> 0 then 0
         else if value > 2147483647 then 2147483647 else value
     | _ \<Rightarrow> 0)"

fun PgturbohybridFindLimitInPlan :: "limit_plan \<Rightarrow> int" where
  "PgturbohybridFindLimitInPlan NoLimitPlan = 0"
| "PgturbohybridFindLimitInPlan (LimitPlan node l r) =
     (let here = (case node of None \<Rightarrow> 0 | Some c \<Rightarrow> PgturbohybridConstLimitValue c)
      in if here > 0 then here
         else let left = PgturbohybridFindLimitInPlan l
              in if left > 0 then left else PgturbohybridFindLimitInPlan r)"

definition PgturbohybridCurrentLimit :: "(nat \<Rightarrow> limit_plan) \<Rightarrow> exec_state \<Rightarrow> int" where
  "PgturbohybridCurrentLimit plan_of es = (case es_stmt es of
       None \<Rightarrow> 0
     | Some stmt \<Rightarrow> PgturbohybridFindLimitInPlan (plan_of stmt))"

fun plan_limits :: "limit_plan \<Rightarrow> int list" where
  "plan_limits NoLimitPlan = []"
| "plan_limits (LimitPlan node l r) =
     (case node of None \<Rightarrow> [] | Some c \<Rightarrow> [PgturbohybridConstLimitValue c]) @ plan_limits l @ plan_limits r"

text \<open>The search finds the first positive limit in preorder, wherever in the plan it is.\<close>

lemma find_limit_first:
  "PgturbohybridFindLimitInPlan p = (case find (\<lambda>v. v > 0) (plan_limits p) of None \<Rightarrow> 0 | Some v \<Rightarrow> v)"
proof (induction p)
  case (LimitPlan node l r)
  have pos: "find (\<lambda>v. v > 0) vs = Some v \<Longrightarrow> v > 0" for vs :: "int list" and v by (auto simp: find_Some_iff)
  show ?case unfolding PgturbohybridFindLimitInPlan.simps LimitPlan.IH plan_limits.simps find_append
    by (auto simp: Let_def dest: pos split: option.splits)
qed simp

lemma find_limit_range: "0 \<le> PgturbohybridFindLimitInPlan p \<and> PgturbohybridFindLimitInPlan p \<le> 2147483647"
proof (induction p)
  case (LimitPlan node l r)
  have "0 \<le> PgturbohybridConstLimitValue c \<and> PgturbohybridConstLimitValue c \<le> 2147483647" for c
    by (auto simp: PgturbohybridConstLimitValue_def split: limit_count.splits)
  then show ?case using LimitPlan.IH by (auto simp: Let_def split: option.splits)
qed simp

section \<open>Sessions that are not properly nested\<close>

definition demo_exec :: exec_state where
  "demo_exec = \<lparr>es_stmt = None, es_stmt_stack = [], es_wrappers = [], es_frames = [], es_proc = RealFn, es_next = 0,
     es_disable = False,
     es_active = \<lparr>limit_tuple_target = - 1, estimated_filter_selectivity = Fin (- 1), payload_filter_valid = False,
                  payload_filter_attno = 0, payload_filter_value = 0\<rparr>\<rparr>"

definition demo_started :: "nat \<Rightarrow> nat \<Rightarrow> exec_state \<Rightarrow> exec_state" where
  "demo_started stmt n es = snd (PgturbohybridExecutorStartHook stmt (Inr (LimitState 0 (IndexScanState n True))) es)"

lemmas exec_defs = demo_exec_def demo_started_def Let_def PgturbohybridExecutorStartHook_def PgturbohybridExecutorRunHook_def
  PgturbohybridExecutorEndHook_def PgturbohybridGraphExecutorStart_def PgturbohybridGraphExecutorEnd_def
  PgturbohybridGraphExecutorRestorePrevious_def PgturbohybridAmExecutorStart_def PgturbohybridAmExecutorEnd_def
  PgturbohybridAmExecutorAbort_def PgturbohybridPushPlannedStmt_def PgturbohybridPopPlannedStmt_def
  PgturbohybridClearPlannedStmtStack_def PgturbohybridXactCallback_def PgturbohybridSubXactCallback_def
  PgturbohybridGraphFindWrapperState_def run_fails_def add_wrapper_def last_frame_add_def list_delete_ptr_def

text \<open>
  A statement that starts inside an open one, with the developer switch off: it gets the newest frame.
\<close>

lemma restored_start:
  assumes "session_inv stmts es" "distinct (scan_addrs p)" "set (scan_addrs p) \<inter> w_planstate ` set (es_wrappers es) = {}"
    and "\<And>n. n \<in> set (scan_addrs p) \<Longrightarrow> es_proc es n \<noteq> Controller"
  shows "PgturbohybridExecutorEndHook s (snd (PgturbohybridExecutorStartHook stmt (Inr p) es)) =
    es\<lparr>es_next := es_next es + length (controlled_scans p None),
       es_proc := (\<lambda>m. if m \<in> fst ` set (controlled_scans p None) then Controller else es_proc es m)\<rparr>"
proof -
  let ?ws = "new_wrappers (es_next es) (es_proc es) (controlled_scans p None)"
  let ?es = "snd (PgturbohybridExecutorStartHook stmt (Inr p) es)"
  have on: "\<not> es_disable es" using assms(1) by (simp add: session_inv_def)
  have start: "?es = es\<lparr>es_stmt := Some stmt, es_stmt_stack := es_stmt es # es_stmt_stack es,
      es_next := es_next es + length (controlled_scans p None), es_wrappers := es_wrappers es @ ?ws,
      es_frames := es_frames es @ [?ws], es_proc := (\<lambda>m. if m \<in> fst ` set (controlled_scans p None) then Controller else es_proc es m)\<rparr>"
    using on by (simp add: PgturbohybridExecutorStartHook_def PgturbohybridAmExecutorStart_def Let_def
        PgturbohybridPushPlannedStmt_def PgturbohybridGraphExecutorStart_def wrap_is_fold add_wrappers cong: if_cong)
  have w: "es_wrappers es = concat (es_frames es)" using assms(1) unfolding session_inv_def by blast
  have "distinct (map w_addr (es_wrappers ?es))"
    using start_inv [OF assms, of stmt] unfolding session_inv_def by blast
  then have r: "PgturbohybridGraphExecutorRestorePrevious ?es = ?es\<lparr>es_wrappers := concat (es_frames es), es_frames := es_frames es\<rparr>"
    by (intro restore_inv [where ws = ?ws]) (simp_all add: start w)
  show ?thesis unfolding PgturbohybridExecutorEndHook_def PgturbohybridGraphExecutorEnd_def r unfolding start
    by (simp add: PgturbohybridAmExecutorEnd_def PgturbohybridPopPlannedStmt_def w [symmetric])
qed

lemma disabled_start:
  "es_disable es \<Longrightarrow> PgturbohybridExecutorEndHook s (snd (PgturbohybridExecutorStartHook stmt (Inr p) es)) =
     PgturbohybridGraphExecutorRestorePrevious es"
  by (simp add: PgturbohybridExecutorStartHook_def PgturbohybridAmExecutorStart_def Let_def PgturbohybridPushPlannedStmt_def
      PgturbohybridGraphExecutorStart_def PgturbohybridExecutorEndHook_def PgturbohybridGraphExecutorEnd_def
      PgturbohybridGraphExecutorRestorePrevious_def PgturbohybridAmExecutorEnd_def PgturbohybridPopPlannedStmt_def)

lemma not_found: "n \<notin> w_planstate ` set (es_wrappers es) \<Longrightarrow> \<not> is_ok (PgturbohybridGraphFindWrapperState es n)"
proof -
  assume "n \<notin> w_planstate ` set (es_wrappers es)"
  then have "find (\<lambda>w. w_planstate w = n) (es_wrappers es) = None" by (auto simp: find_None_iff)
  then show ?thesis by (simp add: PgturbohybridGraphFindWrapperState_def is_ok_def)
qed

lemma newest_frame_lost:
  assumes "session_inv ((s, p) # outer) es" "n \<in> set (scan_addrs p)"
  shows "\<not> is_ok (PgturbohybridGraphFindWrapperState (PgturbohybridGraphExecutorRestorePrevious (es\<lparr>es_disable := d\<rparr>)) n)"
proof -
  obtain fs ws where f: "es_frames es = fs @ [ws]" "es_wrappers es = concat fs @ ws" "frame_of (s, p) ws"
    "distinct (map w_addr (es_wrappers es))" using inv_last_frame [OF assms(1)] by blast
  have r: "PgturbohybridGraphExecutorRestorePrevious (es\<lparr>es_disable := d\<rparr>) = es\<lparr>es_disable := d, es_wrappers := concat fs, es_frames := fs\<rparr>"
    by (subst restore_inv [where fs = fs and ws = ws]) (use f in simp_all)
  have "map fst (map (\<lambda>w. (w_planstate w, w_limit w)) ws) = map fst (controlled_scans p None)"
    using f(3) unfolding frame_of_def by simp
  then have "map w_planstate ws = scan_addrs p" unfolding scan_addrs_def by (simp add: comp_def)
  moreover have "distinct (map w_planstate (concat fs @ ws))" using assms(1) f(2) unfolding session_inv_def by metis
  ultimately have "n \<notin> w_planstate ` set (concat fs)" using assms(2) by (metis IntI distinct_append empty_iff image_set map_append)
  then show ?thesis unfolding r by (intro not_found) simp
qed

text \<open>
  C17. Four ways out of proper nesting, from every state that a properly nested session reaches and
  in which statement \<open>s\<close> is the innermost open one. First, when a subtransaction aborts, \<open>s\<close>, which
  goes on, is no longer the current statement; so it is when statement \<open>t\<close>, started inside it, fails in
  its run. Second, when the transaction aborts without a run failing, in the triggers of the end of a
  statement for instance, the frames of all open statements stay. Third, when \<open>s\<close>, a cursor, ends
  before \<open>t\<close>, the current statement is \<open>s\<close>, which has ended, and every scan of \<open>t\<close>, which is open and
  still runs the controller, fails for lack of its wrapper. Fourth, when the developer switch is set
  before \<open>t\<close> starts, the end of \<open>t\<close> takes the wrappers of all scans of \<open>s\<close>.
\<close>

theorem unnested_sessions_go_wrong:
  assumes "session_step\<^sup>*\<^sup>* ([], es0) ((s, p) # outer, es)" "idle es0"
    and "distinct (scan_addrs q)" "set (scan_addrs q) \<inter> w_planstate ` set (es_wrappers es) = {}"
    and "\<And>n. n \<in> set (scan_addrs q) \<Longrightarrow> es_proc es n \<noteq> Controller"
    and "both = snd (PgturbohybridExecutorStartHook t (Inr q) es)"
  shows "es_stmt es = Some s \<and> es_stmt (PgturbohybridSubXactCallback SUBXACT_EVENT_ABORT_SUB es) = None \<and>
    es_stmt both = Some t \<and> es_stmt (snd (PgturbohybridExecutorRunHook (Inl e) both)) = None \<and>
    length (es_frames (PgturbohybridXactCallback XACT_EVENT_ABORT es)) = length outer + 1 \<and>
    es_stmt (PgturbohybridExecutorEndHook s both) = Some s \<and>
    (\<forall>n \<in> set (scan_addrs q). is_ok (PgturbohybridGraphFindWrapperState both n) \<and>
       es_proc (PgturbohybridExecutorEndHook s both) n = Controller \<and>
       \<not> is_ok (PgturbohybridGraphFindWrapperState (PgturbohybridExecutorEndHook s both) n)) \<and>
    (\<forall>n \<in> set (scan_addrs p). is_ok (PgturbohybridGraphFindWrapperState es n) \<and>
       \<not> is_ok (PgturbohybridGraphFindWrapperState (PgturbohybridExecutorEndHook t
           (snd (PgturbohybridExecutorStartHook t (Inr q) (es\<lparr>es_disable := True\<rparr>)))) n))"
proof -
  have inv: "session_inv ((s, p) # outer) es" by (rule session_reachable_inv [OF assms(1,2)])
  have cur: "es_stmt es = Some s" using inv by (simp add: session_inv_def)
  have inv2: "session_inv ((t, q) # (s, p) # outer) both" unfolding assms(6) by (rule start_inv [OF inv assms(3,4,5)])
  have ended: "PgturbohybridExecutorEndHook s both =
      es\<lparr>es_next := es_next es + length (controlled_scans q None),
         es_proc := (\<lambda>m. if m \<in> set (scan_addrs q) then Controller else es_proc es m)\<rparr>"
    unfolding assms(6) scan_addrs_def set_map by (rule restored_start [OF inv assms(3,4,5)])
  have found: "is_ok (PgturbohybridGraphFindWrapperState es' n)"
    if "session_inv ((u, r) # sts) es'" "n \<in> set (scan_addrs r)" for u r sts es' n
    using open_scan_found [OF that(1), of u r n] that(2) by (force simp: scan_addrs_def is_ok_def)
  have "length (es_frames es) = length outer + 1"
    using inv by (auto simp: session_inv_def dest: list_all2_lengthD)
  moreover have "\<not> is_ok (PgturbohybridGraphFindWrapperState (PgturbohybridExecutorEndHook s both) n)" if "n \<in> set (scan_addrs q)" for n
    using that assms(4) by (intro not_found) (auto simp: ended)
  moreover have "\<not> is_ok (PgturbohybridGraphFindWrapperState (PgturbohybridExecutorEndHook t
      (snd (PgturbohybridExecutorStartHook t (Inr q) (es\<lparr>es_disable := True\<rparr>)))) n)" if "n \<in> set (scan_addrs p)" for n
    using newest_frame_lost [OF inv that, of True] by (simp add: disabled_start)
  moreover have "es_stmt both = Some t" using inv2 by (simp add: session_inv_def)
  ultimately show ?thesis using found [OF inv] found [OF inv2] cur ended
    by (simp add: PgturbohybridSubXactCallback_def PgturbohybridXactCallback_def PgturbohybridClearPlannedStmtStack_def
        PgturbohybridExecutorRunHook_def PgturbohybridAmExecutorAbort_def)
qed

section \<open>Witnesses\<close>

definition demo_append :: planstate where
  "demo_append = LimitState 0 (AppendState [IndexScanState 10 True, ResultState True (IndexScanState 20 True), ResultState False (IndexScanState 30 True)])"

definition demo_limits :: "nat \<Rightarrow> limit_state" where
  "demo_limits = (\<lambda>_. \<lparr>ls_option = LIMIT_OPTION_COUNT, ls_noCount = False, ls_count = 4, ls_offset = 1\<rparr>)"


theorem nested_sessions_return_to_idle_witness:
  "es_stmt (demo_started 1 10 demo_exec) = Some 1 \<and> idle (PgturbohybridExecutorEndHook 1 (demo_started 1 10 demo_exec))"
proof -
  have start: "session_step\<^sup>*\<^sup>* ([], demo_exec) ([(1, LimitState 0 (IndexScanState 10 True))], demo_started 1 10 demo_exec)"
    unfolding demo_started_def
    by (rule r_into_rtranclp, rule session_step.start) (simp_all add: scan_addrs_def demo_exec_def)
  have "idle demo_exec" by (simp add: idle_def demo_exec_def)
  from nested_sessions_return_to_idle [OF start this] show ?thesis by simp
qed

theorem unnested_sessions_go_wrong_witness:
  "let outer = demo_started 1 10 demo_exec; both = demo_started 2 20 outer in
   es_stmt (PgturbohybridExecutorEndHook 1 both) = Some 1 \<and>
   \<not> is_ok (PgturbohybridGraphFindWrapperState (PgturbohybridExecutorEndHook 1 both) 20) \<and>
   length (es_frames (PgturbohybridXactCallback XACT_EVENT_ABORT outer)) = 1"
proof -
  let ?outer = "demo_started 1 10 demo_exec" and ?q = "LimitState 0 (IndexScanState 20 True)"
  have start: "session_step\<^sup>*\<^sup>* ([], demo_exec) ([(1, LimitState 0 (IndexScanState 10 True))], ?outer)"
    unfolding demo_started_def
    by (rule r_into_rtranclp, rule session_step.start) (simp_all add: scan_addrs_def demo_exec_def)
  have i: "idle demo_exec" by (simp add: idle_def demo_exec_def)
  have q: "distinct (scan_addrs ?q)" "set (scan_addrs ?q) \<inter> w_planstate ` set (es_wrappers ?outer) = {}"
    "\<And>n. n \<in> set (scan_addrs ?q) \<Longrightarrow> es_proc ?outer n \<noteq> Controller"
    by (simp_all add: scan_addrs_def exec_defs)
  from unnested_sessions_go_wrong [OF start i q refl, of 2] show ?thesis
    by (simp add: Let_def demo_started_def [of 2] scan_addrs_def)
qed

definition demo_orig :: "exec_fn \<Rightarrow> nat \<Rightarrow> exec_world \<Rightarrow> bool res \<times> exec_world" where
  \<comment> \<open>an error after other statements changed the row target\<close>
  "demo_orig fn n world = (elog ''canceled'', (fst world)\<lparr>es_active := (es_active (fst world))\<lparr>limit_tuple_target := 77\<rparr>\<rparr>, snd world)"

theorem controller_scopes_globals_witness:
  "\<exists>scans'. PgturbohybridGraphExecIndexScanWithController demo_fpu 0 id demo_limits demo_orig 10
       (demo_started 1 10 demo_exec, \<lambda>n. \<lparr>is_quals = [], is_reltuples = None, is_plan_rows = Fin 1, is_opaque = None\<rparr>)
     = (elog ''canceled'', demo_started 1 10 demo_exec, scans')"
proof -
  let ?es = "demo_started 1 10 demo_exec"
  let ?scans = "\<lambda>n. \<lparr>is_quals = [], is_reltuples = None, is_plan_rows = Fin 1, is_opaque = None\<rparr>"
  have find: "PgturbohybridGraphFindWrapperState ?es 10 = Inr \<lparr>w_addr = 0, w_planstate = 10, w_original = RealFn 10, w_limit = Some 0\<rparr>"
    by (simp add: exec_defs)
  obtain r es' scans' where c: "PgturbohybridGraphExecIndexScanWithController demo_fpu 0 id demo_limits demo_orig 10 (?es, ?scans) = (r, es', scans')"
    by (metis prod_cases3)
  from controller_scopes_globals [OF find c] have "r = elog ''canceled''" "es' = ?es" by (auto simp: demo_orig_def)
  then show ?thesis using c by simp
qed

end
