(* ===== verification/Graph_Build.thy ===== *)
theory Graph_Build
  imports Graph_Heaps Qsort
begin

text \<open>
  Building the graph in memory, the edge lists (\<open>pgturbohybrid_quant.c\<close>): the choice of neighbors,
  pruning, adding an edge, and the backbone that links neighboring node ids on level 0. The arrays
  \<open>neighbors\<close> and \<open>neighborDistances\<close> of a node and level are one list of slots up to the live count.
\<close>

record neighbor =
  nb_id :: u32
  nb_distance :: cdouble

record build_node =
  bn_level :: nat
  bn_hasDistances :: bool  \<comment> \<open>\<open>neighborDistances != NULL\<close>\<close>
  bn_neighbors :: "neighbor list list"

record build_state =
  bs_nodes :: "build_node list"
  bs_m :: nat
  bs_efConstruction :: nat
  bs_fastEdges :: bool
  bs_visited :: "u32 \<Rightarrow> u32"
  bs_visitGeneration :: u32
  bs_entryNodeId :: u32
  bs_maxLevel :: int
  bs_segmentCount :: nat

definition DBL_MAX :: cdouble where "DBL_MAX = Fin (2 ^ 1024 - 2 ^ 971)"
definition minus_DBL_MAX :: cdouble where "minus_DBL_MAX = Fin (2 ^ 971 - 2 ^ 1024)"

definition PgturbohybridGraphLevelM :: "nat \<Rightarrow> nat \<Rightarrow> nat" where
  "PgturbohybridGraphLevelM m level = (if level = 0 then m * 2 else m)"

definition bs_nodeCount :: "build_state \<Rightarrow> nat" where
  "bs_nodeCount st = length (bs_nodes st)"

definition node_at :: "build_state \<Rightarrow> u32 \<Rightarrow> build_node" where
  "node_at st n = bs_nodes st ! unat n"

definition neighbors :: "build_state \<Rightarrow> u32 \<Rightarrow> nat \<Rightarrow> neighbor list" where
  "neighbors st n level = bn_neighbors (node_at st n) ! level"

definition set_neighbors :: "build_state \<Rightarrow> u32 \<Rightarrow> nat \<Rightarrow> neighbor list \<Rightarrow> build_state" where
  "set_neighbors st n level ns =
     st\<lparr>bs_nodes := (bs_nodes st)[unat n := (node_at st n)\<lparr>bn_neighbors := (bn_neighbors (node_at st n))[level := ns]\<rparr>]\<rparr>"

text \<open>
  The distance of two nodes while edges are built; \<open>dst\<close> stands for the codes, vectors or documents
  it is computed from.
\<close>

definition PgturbohybridGraphBuildDistance :: "(u32 \<Rightarrow> u32 \<Rightarrow> cdouble) \<Rightarrow> build_state \<Rightarrow> u32 \<Rightarrow> u32 \<Rightarrow> cdouble" where
  "PgturbohybridGraphBuildDistance dst st a b =
     (if bs_nodeCount st \<le> unat a \<or> bs_nodeCount st \<le> unat b then DBL_MAX else dst a b)"

definition PgturbohybridGraphBuildNodeHasLevel :: "build_state \<Rightarrow> u32 \<Rightarrow> nat \<Rightarrow> bool" where
  "PgturbohybridGraphBuildNodeHasLevel st n level \<longleftrightarrow> unat n < bs_nodeCount st \<and> level \<le> bn_level (node_at st n)"

definition PgturbohybridGraphHasNeighbor :: "build_state \<Rightarrow> u32 \<Rightarrow> u32 \<Rightarrow> nat \<Rightarrow> bool" where
  "PgturbohybridGraphHasNeighbor st src dst level \<longleftrightarrow>
     PgturbohybridGraphBuildNodeHasLevel st src level \<and> dst \<in> set (map nb_id (neighbors st src level))"

section \<open>Choosing neighbors\<close>

fun select_unseen :: "nat \<Rightarrow> u32 \<Rightarrow> frontier_item list \<Rightarrow> u32 list \<Rightarrow> u32 list" where
  "select_unseen maxNeighbors src [] selected = selected"
| "select_unseen maxNeighbors src (c # cs) selected =
     (if maxNeighbors \<le> length selected then selected
      else if nodeId c = src \<or> nodeId c \<in> set selected then select_unseen maxNeighbors src cs selected
      else select_unseen maxNeighbors src cs (selected @ [nodeId c]))"

definition PgturbohybridGraphSelectNeighborsSimple ::
    "build_state \<Rightarrow> u32 \<Rightarrow> frontier_item list \<Rightarrow> nat \<Rightarrow> frontier_item list \<times> u32 list" where
  \<comment> \<open>the candidates, which are sorted in place, and the selected nodes\<close>
  "PgturbohybridGraphSelectNeighborsSimple st src candidates level =
     (let cs = qsort_by PgturbohybridGraphFrontierLess candidates
      in (cs, select_unseen (PgturbohybridGraphLevelM (bs_m st) level) src cs []))"

definition occludes :: "(u32 \<Rightarrow> u32 \<Rightarrow> cdouble) \<Rightarrow> build_state \<Rightarrow> frontier_item \<Rightarrow> u32 \<Rightarrow> bool" where
  "occludes dst st c s \<longleftrightarrow> dless (PgturbohybridGraphBuildDistance dst st (nodeId c) s) (distance c)"

fun select_diverse :: "(u32 \<Rightarrow> u32 \<Rightarrow> cdouble) \<Rightarrow> build_state \<Rightarrow> nat \<Rightarrow> u32 \<Rightarrow> frontier_item list \<Rightarrow> u32 list \<Rightarrow> u32 list" where
  "select_diverse dst st maxNeighbors src [] selected = selected"
| "select_diverse dst st maxNeighbors src (c # cs) selected =
     (if maxNeighbors \<le> length selected then selected
      else if nodeId c = src \<or> list_ex (occludes dst st c) selected then select_diverse dst st maxNeighbors src cs selected
      else select_diverse dst st maxNeighbors src cs (selected @ [nodeId c]))"

definition PgturbohybridGraphSelectNeighbors ::
    "(u32 \<Rightarrow> u32 \<Rightarrow> cdouble) \<Rightarrow> build_state \<Rightarrow> u32 \<Rightarrow> frontier_item list \<Rightarrow> nat \<Rightarrow> frontier_item list \<times> u32 list" where
  "PgturbohybridGraphSelectNeighbors dst st src candidates level =
     (if bs_fastEdges st then PgturbohybridGraphSelectNeighborsSimple st src candidates level
      else let maxNeighbors = PgturbohybridGraphLevelM (bs_m st) level;
               cs = qsort_by PgturbohybridGraphFrontierLess candidates
           in (cs, select_unseen maxNeighbors src cs (select_diverse dst st maxNeighbors src cs [])))"

definition PgturbohybridGraphCandidateDistance :: "frontier_item list \<Rightarrow> u32 \<Rightarrow> cdouble" where
  "PgturbohybridGraphCandidateDistance candidates n = (case find (\<lambda>c. nodeId c = n) candidates of
       None \<Rightarrow> DBL_MAX | Some c \<Rightarrow> distance c)"

definition with_distances :: "frontier_item list \<Rightarrow> u32 list \<Rightarrow> neighbor list" where
  "with_distances candidates selected = map (\<lambda>s. \<lparr>nb_id = s, nb_distance = PgturbohybridGraphCandidateDistance candidates s\<rparr>) selected"

definition slot_distance :: "(u32 \<Rightarrow> u32 \<Rightarrow> cdouble) \<Rightarrow> build_state \<Rightarrow> u32 \<Rightarrow> neighbor \<Rightarrow> cdouble" where
  "slot_distance dst st src n =
     (if bn_hasDistances (node_at st src) then nb_distance n else PgturbohybridGraphBuildDistance dst st src (nb_id n))"

definition PgturbohybridGraphPruneNeighbors :: "(u32 \<Rightarrow> u32 \<Rightarrow> cdouble) \<Rightarrow> build_state \<Rightarrow> u32 \<Rightarrow> nat \<Rightarrow> build_state" where
  "PgturbohybridGraphPruneNeighbors dst st src level =
     (if \<not> PgturbohybridGraphBuildNodeHasLevel st src level then st
      else if length (neighbors st src level) \<le> PgturbohybridGraphLevelM (bs_m st) level then st
      else let candidates = map (\<lambda>n. \<lparr>nodeId = nb_id n, distance = slot_distance dst st src n\<rparr>) (neighbors st src level);
               (cs, selected) = PgturbohybridGraphSelectNeighbors dst st src candidates level
           in set_neighbors st src level (with_distances cs selected))"

section \<open>Adding an edge\<close>

text \<open>An edge is added only between two nodes of the level, and only once.\<close>

definition edge_addable :: "build_state \<Rightarrow> u32 \<Rightarrow> u32 \<Rightarrow> nat \<Rightarrow> bool" where
  "edge_addable st src dst level \<longleftrightarrow>
     \<not> (src = dst \<or> \<not> PgturbohybridGraphBuildNodeHasLevel st src level \<or>
        \<not> PgturbohybridGraphBuildNodeHasLevel st dst level \<or> PgturbohybridGraphHasNeighbor st src dst level)"

definition worst_slot :: "neighbor list \<Rightarrow> nat" where
  "worst_slot ns = fold (\<lambda>i w. if dless (nb_distance (ns ! w)) (nb_distance (ns ! i)) then i else w) [1..<length ns] 0"

definition PgturbohybridGraphAddNeighbor ::
    "(u32 \<Rightarrow> u32 \<Rightarrow> cdouble) \<Rightarrow> build_state \<Rightarrow> u32 \<Rightarrow> u32 \<Rightarrow> nat \<Rightarrow> cdouble \<Rightarrow> build_state" where
  "PgturbohybridGraphAddNeighbor d st src dst level dval =
     (let ns = neighbors st src level; new = \<lparr>nb_id = dst, nb_distance = dval\<rparr> in
      if \<not> edge_addable st src dst level then st
      else if length ns < PgturbohybridGraphLevelM (bs_m st) level then set_neighbors st src level (ns @ [new])
      else if bs_fastEdges st \<and> bn_hasDistances (node_at st src)
      then (if dless dval (nb_distance (ns ! worst_slot ns)) then set_neighbors st src level (ns[worst_slot ns := new]) else st)
      else PgturbohybridGraphPruneNeighbors d (set_neighbors st src level (ns @ [new])) src level)"

definition PgturbohybridGraphAddNeighborIfRoom :: "build_state \<Rightarrow> u32 \<Rightarrow> u32 \<Rightarrow> nat \<Rightarrow> cdouble \<Rightarrow> build_state" where
  "PgturbohybridGraphAddNeighborIfRoom st src dst level dval =
     (if \<not> edge_addable st src dst level \<or> PgturbohybridGraphLevelM (bs_m st) level \<le> length (neighbors st src level) then st
      else set_neighbors st src level (neighbors st src level @ [\<lparr>nb_id = dst, nb_distance = dval\<rparr>]))"

section \<open>The backbone\<close>

definition PgturbohybridGraphIsBackboneNeighbor :: "build_state \<Rightarrow> u32 \<Rightarrow> u32 \<Rightarrow> bool" where
  "PgturbohybridGraphIsBackboneNeighbor st src nb \<longleftrightarrow>
     (src > 0 \<and> nb = src - 1) \<or> (unat (src + 1) < bs_nodeCount st \<and> nb = src + 1)"

definition worst_unforced :: "(u32 \<Rightarrow> u32 \<Rightarrow> cdouble) \<Rightarrow> build_state \<Rightarrow> u32 \<Rightarrow> neighbor list \<Rightarrow> nat" where
  "worst_unforced d st src ns =
     (case fst (foldl (\<lambda>(worst, worstDistance) i.
          if PgturbohybridGraphIsBackboneNeighbor st src (nb_id (ns ! i)) then (worst, worstDistance)
          else let dist = slot_distance d st src (ns ! i)
               in if worst = None \<or> dless worstDistance dist then (Some i, dist) else (worst, worstDistance))
        (None, minus_DBL_MAX) [0..<length ns]) of
        None \<Rightarrow> 0 | Some i \<Rightarrow> i)"

definition PgturbohybridGraphForceNeighbor :: "(u32 \<Rightarrow> u32 \<Rightarrow> cdouble) \<Rightarrow> build_state \<Rightarrow> u32 \<Rightarrow> u32 \<Rightarrow> nat \<Rightarrow> build_state" where
  "PgturbohybridGraphForceNeighbor d st src dst level =
     (let ns = neighbors st src level; new = \<lparr>nb_id = dst, nb_distance = DBL_MAX\<rparr> in
      if \<not> edge_addable st src dst level then st
      else if length ns < PgturbohybridGraphLevelM (bs_m st) level then set_neighbors st src level (ns @ [new])
      else set_neighbors st src level (ns[worst_unforced d st src ns := new]))"

definition force_pair :: "(u32 \<Rightarrow> u32 \<Rightarrow> cdouble) \<Rightarrow> nat \<Rightarrow> build_state \<Rightarrow> build_state" where
  "force_pair d n st =
     PgturbohybridGraphForceNeighbor d (PgturbohybridGraphForceNeighbor d st (of_nat (n - 1)) (of_nat n) 0) (of_nat n) (of_nat (n - 1)) 0"

definition PgturbohybridGraphEnsureLevel0Backbone :: "(u32 \<Rightarrow> u32 \<Rightarrow> cdouble) \<Rightarrow> build_state \<Rightarrow> build_state" where
  "PgturbohybridGraphEnsureLevel0Backbone d st =
     (if bs_nodeCount st < 2 then st else fold (force_pair d) [1..<bs_nodeCount st] st)"

definition PgturbohybridGraphLinkAdjacentBuildNode :: "(u32 \<Rightarrow> u32 \<Rightarrow> cdouble) \<Rightarrow> build_state \<Rightarrow> u32 \<Rightarrow> u32 \<Rightarrow> build_state" where
  "PgturbohybridGraphLinkAdjacentBuildNode d st n prev =
     (if \<not> PgturbohybridGraphBuildNodeHasLevel st n 0 \<or> \<not> PgturbohybridGraphBuildNodeHasLevel st prev 0 then st
      else PgturbohybridGraphAddNeighborIfRoom
             (set_neighbors st n 0 [\<lparr>nb_id = prev, nb_distance = PgturbohybridGraphBuildDistance d st n prev\<rparr>])
             prev n 0 (PgturbohybridGraphBuildDistance d st prev n))"


section \<open>Well-formed edge lists\<close>

text \<open>
  Every list holds distinct nodes of its level other than the node itself, no more than the level
  allows. There are fewer than \<open>2\<^sup>3\<^sup>2\<close> nodes, and every node has a list per level.
\<close>

definition list_ok :: "build_state \<Rightarrow> u32 \<Rightarrow> nat \<Rightarrow> neighbor list \<Rightarrow> bool" where
  "list_ok st n level ns \<longleftrightarrow> distinct (map nb_id ns) \<and> length ns \<le> PgturbohybridGraphLevelM (bs_m st) level \<and>
     (\<forall>i \<in> nb_id ` set ns. i \<noteq> n \<and> PgturbohybridGraphBuildNodeHasLevel st i level)"

definition graph_ok :: "build_state \<Rightarrow> bool" where
  "graph_ok st \<longleftrightarrow> bs_nodeCount st < 2 ^ 32 \<and>
     (\<forall>n. unat n < bs_nodeCount st \<longrightarrow> length (bn_neighbors (node_at st n)) = Suc (bn_level (node_at st n))) \<and>
     (\<forall>n level. PgturbohybridGraphBuildNodeHasLevel st n level \<longrightarrow> list_ok st n level (neighbors st n level))"

lemma set_neighbors_frame [simp]:
  "bs_nodeCount (set_neighbors st n l ns) = bs_nodeCount st"
  "bs_m (set_neighbors st n l ns) = bs_m st"
  "bs_fastEdges (set_neighbors st n l ns) = bs_fastEdges st"
  "bs_visited (set_neighbors st n l ns) = bs_visited st"
  by (simp_all add: set_neighbors_def bs_nodeCount_def)

lemma node_at_set: "unat n < bs_nodeCount st \<Longrightarrow> node_at (set_neighbors st n l ns) k =
    (if k = n then (node_at st n)\<lparr>bn_neighbors := (bn_neighbors (node_at st n))[l := ns]\<rparr> else node_at st k)"
  by (auto simp: node_at_def set_neighbors_def bs_nodeCount_def nth_list_update dest: word_unat_eq_iff [THEN iffD2])

lemma has_level_set [simp]:
  "PgturbohybridGraphBuildNodeHasLevel (set_neighbors st n l ns) k lv = PgturbohybridGraphBuildNodeHasLevel st k lv"
proof (cases "unat n < bs_nodeCount st")
  case True
  then show ?thesis by (simp add: PgturbohybridGraphBuildNodeHasLevel_def node_at_set)
next
  case False
  then have "set_neighbors st n l ns = st" by (simp add: set_neighbors_def bs_nodeCount_def list_update_beyond)
  then show ?thesis by simp
qed

lemma neighbors_set:
  assumes "graph_ok st" "PgturbohybridGraphBuildNodeHasLevel st n l"
  shows "neighbors (set_neighbors st n l ns) k lv = (if k = n \<and> lv = l then ns else neighbors st k lv)"
  using assms by (auto simp: neighbors_def node_at_set graph_ok_def PgturbohybridGraphBuildNodeHasLevel_def nth_list_update)

lemma list_ok_set [simp]: "list_ok (set_neighbors st n l ns) = list_ok st"
  by (simp add: list_ok_def fun_eq_iff)

lemma graph_ok_set:
  assumes "graph_ok st" "PgturbohybridGraphBuildNodeHasLevel st n l" "list_ok st n l ns"
  shows "graph_ok (set_neighbors st n l ns)"
  unfolding graph_ok_def list_ok_set neighbors_set [OF assms(1,2)]
proof (intro conjI allI impI)
  show "bs_nodeCount (set_neighbors st n l ns) < 2 ^ 32" using assms(1) by (simp add: graph_ok_def)
  fix k :: u32 assume "unat k < bs_nodeCount (set_neighbors st n l ns)"
  then show "length (bn_neighbors (node_at (set_neighbors st n l ns) k)) = Suc (bn_level (node_at (set_neighbors st n l ns) k))"
    using assms(1,2) by (simp add: node_at_set graph_ok_def PgturbohybridGraphBuildNodeHasLevel_def)
next
  fix k lv assume "PgturbohybridGraphBuildNodeHasLevel (set_neighbors st n l ns) k lv"
  then show "list_ok st k lv (if k = n \<and> lv = l then ns else neighbors st k lv)"
    using assms by (auto simp: graph_ok_def)
qed

section \<open>The chosen neighbors\<close>

lemma select_unseen_facts:
  assumes "distinct sel" "src \<notin> set sel" "length sel \<le> M" "r = select_unseen M src cs sel"
  shows "distinct r \<and> src \<notin> set r \<and> length r \<le> M \<and> (\<exists>more_sel. r = sel @ more_sel) \<and>
    set r \<subseteq> set sel \<union> nodeId ` set cs \<and> (length r < M \<longrightarrow> nodeId ` set cs - {src} \<subseteq> set r)"
  using assms
proof (induction cs arbitrary: sel)
  case Nil
  then show ?case by simp
next
  case (Cons c cs)
  consider "M \<le> length sel" | "length sel < M" "nodeId c = src \<or> nodeId c \<in> set sel" | "length sel < M" "nodeId c \<noteq> src" "nodeId c \<notin> set sel"
    by linarith
  then show ?case
  proof cases
    case 1
    then show ?thesis using Cons.prems by auto
  next
    case 2
    have "distinct r \<and> src \<notin> set r \<and> length r \<le> M \<and> (\<exists>more_sel. r = sel @ more_sel) \<and>
      set r \<subseteq> set sel \<union> nodeId ` set cs \<and> (length r < M \<longrightarrow> nodeId ` set cs - {src} \<subseteq> set r)"
      by (rule Cons.IH) (use Cons.prems 2 in auto)
    then show ?thesis using 2 by auto
  next
    case 3
    have "distinct r \<and> src \<notin> set r \<and> length r \<le> M \<and> (\<exists>more_sel. r = (sel @ [nodeId c]) @ more_sel) \<and>
      set r \<subseteq> set (sel @ [nodeId c]) \<union> nodeId ` set cs \<and> (length r < M \<longrightarrow> nodeId ` set cs - {src} \<subseteq> set r)"
      by (rule Cons.IH) (use Cons.prems 3 in auto)
    then show ?thesis by auto
  qed
qed

lemma select_diverse_facts:
  assumes "distinct (map nodeId cs)" "distinct sel" "src \<notin> set sel" "length sel \<le> M" "set sel \<inter> nodeId ` set cs = {}"
    and "r = select_diverse d st M src cs sel"
  shows "distinct r \<and> src \<notin> set r \<and> length r \<le> M \<and> (\<exists>more_sel. r = sel @ more_sel) \<and> set r \<subseteq> set sel \<union> nodeId ` set cs \<and>
    (\<forall>c \<in> set cs. \<forall>i < length r. nodeId c = r ! i \<longrightarrow> (\<forall>j < i. \<not> occludes d st c (r ! j))) \<and>
    (length r < M \<longrightarrow> (\<forall>c \<in> set cs. nodeId c \<noteq> src \<longrightarrow> nodeId c \<in> set r \<or> list_ex (occludes d st c) r))"
  using assms
proof (induction cs arbitrary: sel)
  case Nil
  then show ?case by simp
next
  case (Cons c cs)
  let ?P = "\<lambda>sel. distinct r \<and> src \<notin> set r \<and> length r \<le> M \<and> (\<exists>more_sel. r = sel @ more_sel) \<and> set r \<subseteq> set sel \<union> nodeId ` set cs \<and>
    (\<forall>c \<in> set cs. \<forall>i < length r. nodeId c = r ! i \<longrightarrow> (\<forall>j < i. \<not> occludes d st c (r ! j))) \<and>
    (length r < M \<longrightarrow> (\<forall>c \<in> set cs. nodeId c \<noteq> src \<longrightarrow> nodeId c \<in> set r \<or> list_ex (occludes d st c) r))"
  have c_new: "nodeId c \<notin> nodeId ` set cs" using Cons.prems(1) by simp
  consider "M \<le> length sel" | "length sel < M" "nodeId c = src \<or> list_ex (occludes d st c) sel" | "length sel < M" "nodeId c \<noteq> src" "\<not> list_ex (occludes d st c) sel"
    by linarith
  then show ?case
  proof cases
    case 1
    then have r: "r = sel" using Cons.prems(6) by simp
    have "nodeId c' \<noteq> r ! i" if "c' \<in> set (c # cs)" "i < length r" for c' i
    proof -
      have "r ! i \<in> set sel" using that(2) r by simp
      moreover have "nodeId c' \<in> nodeId ` set (c # cs)" using that(1) by blast
      ultimately show ?thesis using Cons.prems(5) by (metis disjoint_iff)
    qed
    then show ?thesis using 1 Cons.prems r by auto
  next
    case 2
    have p: "?P sel" by (rule Cons.IH) (use Cons.prems 2 in auto)
    then obtain xs where r: "r = sel @ xs" by blast
    have "nodeId c \<notin> set r" using p c_new Cons.prems(5) by auto
    then have "\<forall>i < length r. nodeId c \<noteq> r ! i" by (metis nth_mem)
    moreover have "nodeId c \<noteq> src \<longrightarrow> list_ex (occludes d st c) r" using 2 r by auto
    moreover have "set r \<subseteq> set sel \<union> nodeId ` set (c # cs)" using p by auto
    ultimately show ?thesis using p by (simp only: list.set ball_simps) blast
  next
    case 3
    have p: "?P (sel @ [nodeId c])" by (rule Cons.IH) (use Cons.prems c_new 3 in auto)
    then obtain xs where r: "r = sel @ [nodeId c] @ xs" by auto
    have at: "i = length sel" if "i < length r" "nodeId c = r ! i" for i
    proof -
      have "r ! length sel = nodeId c" "length sel < length r" using r by simp_all
      moreover have "distinct r" using p by blast
      ultimately show ?thesis using that nth_eq_iff_index_eq by metis
    qed
    have "\<forall>i < length r. nodeId c = r ! i \<longrightarrow> (\<forall>j < i. \<not> occludes d st c (r ! j))"
    proof (intro allI impI)
      fix i j assume "i < length r" "nodeId c = r ! i" "j < i"
      then have "j < length sel" using at by simp
      then have "r ! j \<in> set sel" using r by (simp add: nth_append)
      then show "\<not> occludes d st c (r ! j)" using 3(3) by (auto simp: list_ex_iff)
    qed
    moreover have "nodeId c \<in> set r" "\<exists>ys. r = sel @ ys" using r by auto
    moreover have "set r \<subseteq> set sel \<union> nodeId ` set (c # cs)" using p by auto
    ultimately show ?thesis using p by (simp only: list.set ball_simps) blast
  qed
qed

lemma full_selection:
  assumes "distinct r" "length r \<le> M" "set r \<subseteq> A" "finite A" "length r < M \<longrightarrow> A \<subseteq> set r"
  shows "length r = min M (card A)"
proof (cases "length r < M")
  case True
  then have "set r = A" using assms by blast
  then show ?thesis using True distinct_card [OF assms(1)] by simp
next
  case False
  then show ?thesis using assms distinct_card [OF assms(1)] card_mono [OF assms(4,3)] by simp
qed

text \<open>What the choice guarantees of any candidates with distinct nodes.\<close>

lemma select_neighbors_facts:
  assumes "distinct (map nodeId candidates)" "PgturbohybridGraphSelectNeighbors d st src candidates level = (cs, selected)"
  shows "mset cs = mset candidates" "distinct selected" "src \<notin> set selected"
    "length selected = min (PgturbohybridGraphLevelM (bs_m st) level) (card (nodeId ` set candidates - {src}))"
    "set selected \<subseteq> nodeId ` set candidates - {src}"
    "\<not> bs_fastEdges st \<Longrightarrow> \<exists>diverse filler. selected = diverse @ filler \<and>
      (\<forall>c \<in> set candidates. \<forall>i < length diverse. nodeId c = diverse ! i \<longrightarrow> (\<forall>j < i. \<not> occludes d st c (diverse ! j))) \<and>
      (filler \<noteq> [] \<longrightarrow> (\<forall>c \<in> set candidates. nodeId c \<noteq> src \<longrightarrow> nodeId c \<in> set diverse \<or> list_ex (occludes d st c) diverse))"
proof -
  define M where "M = PgturbohybridGraphLevelM (bs_m st) level"
  have cs: "cs = qsort_by PgturbohybridGraphFrontierLess candidates"
    using assms(2) by (auto simp: PgturbohybridGraphSelectNeighbors_def PgturbohybridGraphSelectNeighborsSimple_def Let_def split: if_splits)
  show "mset cs = mset candidates" by (simp add: cs)
  then have sets: "set cs = set candidates" by (metis set_mset_mset)
  have dcs: "distinct (map nodeId cs)"
    using assms(1) \<open>mset cs = mset candidates\<close> by (metis mset_map mset_eq_imp_distinct_iff)
  define dv where "dv = (if bs_fastEdges st then [] else select_diverse d st M src cs [])"
  have sel: "selected = select_unseen M src cs dv"
    using assms(2) cs by (auto simp: PgturbohybridGraphSelectNeighbors_def PgturbohybridGraphSelectNeighborsSimple_def Let_def M_def dv_def)
  have dv: "distinct dv" "src \<notin> set dv" "length dv \<le> M" "set dv \<subseteq> nodeId ` set cs"
    using select_diverse_facts [OF dcs, of "[]" src M "select_diverse d st M src cs []" d st] by (simp_all add: dv_def)
  have divs: "\<forall>c \<in> set cs. \<forall>i < length dv. nodeId c = dv ! i \<longrightarrow> (\<forall>j < i. \<not> occludes d st c (dv ! j))"
      "length dv < M \<longrightarrow> (\<forall>c \<in> set cs. nodeId c \<noteq> src \<longrightarrow> nodeId c \<in> set dv \<or> list_ex (occludes d st c) dv)"
    if "\<not> bs_fastEdges st"
    using select_diverse_facts [OF dcs, of "[]" src M dv d st] that by (simp_all add: dv_def)
  note u = select_unseen_facts [OF dv(1-3) sel]
  show "distinct selected" "src \<notin> set selected" using u by blast+
  have sub: "set selected \<subseteq> nodeId ` set cs - {src}" using u dv(4) by blast
  then show "set selected \<subseteq> nodeId ` set candidates - {src}" by (simp add: sets)
  show "length selected = min (PgturbohybridGraphLevelM (bs_m st) level) (card (nodeId ` set candidates - {src}))"
    using full_selection [of selected M "nodeId ` set cs - {src}"] sub u by (simp add: sets M_def)
  show "\<exists>diverse filler. selected = diverse @ filler \<and>
      (\<forall>c \<in> set candidates. \<forall>i < length diverse. nodeId c = diverse ! i \<longrightarrow> (\<forall>j < i. \<not> occludes d st c (diverse ! j))) \<and>
      (filler \<noteq> [] \<longrightarrow> (\<forall>c \<in> set candidates. nodeId c \<noteq> src \<longrightarrow> nodeId c \<in> set diverse \<or> list_ex (occludes d st c) diverse))"
    if "\<not> bs_fastEdges st"
  proof -
    obtain filler where f: "selected = dv @ filler" using u by blast
    have "length dv < M" if "filler \<noteq> []" using that u f by (cases filler) auto
    then show ?thesis using f divs [OF that] sets by (intro exI [of _ dv] exI [of _ filler]) blast
  qed
qed

lemma ids_with_distances [simp]: "map nb_id (with_distances cs selected) = selected"
  by (simp add: with_distances_def o_def)

section \<open>The operations keep the edge lists well-formed\<close>

lemma graph_okD:
  assumes "graph_ok st"
  shows "bs_nodeCount st < 2 ^ 32"
    "PgturbohybridGraphBuildNodeHasLevel st n level \<Longrightarrow> list_ok st n level (neighbors st n level)"
  using assms by (auto simp: graph_ok_def)

lemma addableD:
  assumes "edge_addable st src dst level"
  shows "src \<noteq> dst" "PgturbohybridGraphBuildNodeHasLevel st src level" "PgturbohybridGraphBuildNodeHasLevel st dst level"
    "dst \<notin> nb_id ` set (neighbors st src level)"
  using assms by (auto simp: edge_addable_def PgturbohybridGraphHasNeighbor_def)

lemma list_ok_snoc:
  assumes "graph_ok st" "edge_addable st src dst level" "length (neighbors st src level) < PgturbohybridGraphLevelM (bs_m st) level"
  shows "list_ok st src level (neighbors st src level @ [\<lparr>nb_id = dst, nb_distance = x\<rparr>])"
  using graph_okD(2) [OF assms(1)] addableD [OF assms(2)] assms(3) by (auto simp: list_ok_def)

lemma list_ok_replace:
  assumes "graph_ok st" "edge_addable st src dst level"
  shows "list_ok st src level ((neighbors st src level)[i := \<lparr>nb_id = dst, nb_distance = x\<rparr>])"
proof -
  let ?ns = "neighbors st src level"
  have ok: "list_ok st src level ?ns" using graph_okD(2) [OF assms(1)] addableD [OF assms(2)] by blast
  have "distinct ((map nb_id ?ns)[i := dst])"
    using ok addableD(4) [OF assms(2)] by (intro distinct_list_update) (auto simp: list_ok_def)
  moreover have "nb_id ` set (?ns[i := \<lparr>nb_id = dst, nb_distance = x\<rparr>]) \<subseteq> insert dst (nb_id ` set ?ns)"
    using set_update_subset_insert [of ?ns i] by fastforce
  moreover have "\<forall>k \<in> insert dst (nb_id ` set ?ns). k \<noteq> src \<and> PgturbohybridGraphBuildNodeHasLevel st k level"
    using ok addableD [OF assms(2)] by (auto simp: list_ok_def)
  moreover have "length ?ns \<le> PgturbohybridGraphLevelM (bs_m st) level" using ok by (simp add: list_ok_def)
  ultimately have "\<forall>k \<in> nb_id ` set (?ns[i := \<lparr>nb_id = dst, nb_distance = x\<rparr>]). k \<noteq> src \<and> PgturbohybridGraphBuildNodeHasLevel st k level"
    and "distinct (map nb_id (?ns[i := \<lparr>nb_id = dst, nb_distance = x\<rparr>]))" "length ?ns \<le> PgturbohybridGraphLevelM (bs_m st) level"
    by (blast, simp_all add: map_update)
  then show ?thesis unfolding list_ok_def by simp
qed

text \<open>Pruning and adding an edge change one list, to one that is well-formed again.\<close>

lemma prune_neighbors_list:
  assumes "graph_ok st" "distinct (map nb_id ns)" "\<forall>i \<in> nb_id ` set ns. i \<noteq> src \<and> PgturbohybridGraphBuildNodeHasLevel st i level"
    and "PgturbohybridGraphBuildNodeHasLevel st src level"
  shows "\<exists>ns'. PgturbohybridGraphPruneNeighbors d (set_neighbors st src level ns) src level = set_neighbors st src level ns' \<and>
    list_ok st src level ns' \<and> nb_id ` set ns' \<subseteq> nb_id ` set ns"
proof -
  let ?st = "set_neighbors st src level ns" and ?M = "PgturbohybridGraphLevelM (bs_m st) level"
  have ns: "neighbors ?st src level = ns" by (simp add: neighbors_set [OF assms(1,4)])
  show ?thesis
  proof (cases "length ns \<le> ?M")
    case True
    have "list_ok st src level ns" using assms True by (simp add: list_ok_def)
    then show ?thesis using True assms(4) ns by (intro exI [of _ ns]) (simp add: PgturbohybridGraphPruneNeighbors_def)
  next
    case False
    define candidates where "candidates = map (\<lambda>n. \<lparr>nodeId = nb_id n, distance = slot_distance d ?st src n\<rparr>) ns"
    obtain cs selected where sel: "PgturbohybridGraphSelectNeighbors d ?st src candidates level = (cs, selected)"
      by (cases "PgturbohybridGraphSelectNeighbors d ?st src candidates level")
    have ids: "map nodeId candidates = map nb_id ns" by (simp add: candidates_def)
    then have dc: "distinct (map nodeId candidates)" and ic: "nodeId ` set candidates = nb_id ` set ns"
      using assms(2) by (simp, metis list.set_map)
    note f = select_neighbors_facts [OF dc sel]
    have set_sel: "nb_id ` set (with_distances cs selected) = set selected" using ids_with_distances by (metis list.set_map)
    have ok: "list_ok st src level (with_distances cs selected)"
      unfolding list_ok_def ids_with_distances set_sel using f(2-5) ic assms(3) by (auto simp: with_distances_def)
    have "PgturbohybridGraphPruneNeighbors d ?st src level = set_neighbors ?st src level (with_distances cs selected)"
      using False sel ns assms(4) by (simp add: PgturbohybridGraphPruneNeighbors_def Let_def candidates_def [symmetric])
    moreover have "set_neighbors ?st src level (with_distances cs selected) = set_neighbors st src level (with_distances cs selected)"
      using assms(4) by (simp add: set_neighbors_def node_at_def PgturbohybridGraphBuildNodeHasLevel_def bs_nodeCount_def)
    moreover have "nb_id ` set (with_distances cs selected) \<subseteq> nb_id ` set ns" using set_sel f(5) ic by blast
    ultimately show ?thesis using ok by (intro exI [of _ "with_distances cs selected"]) simp
  qed
qed

lemma add_neighbor_list:
  assumes g: "graph_ok st"
  shows "PgturbohybridGraphAddNeighbor d st src dst level dval = st \<or>
    (\<exists>ns'. PgturbohybridGraphAddNeighbor d st src dst level dval = set_neighbors st src level ns' \<and>
      PgturbohybridGraphBuildNodeHasLevel st src level \<and> list_ok st src level ns' \<and>
      nb_id ` set ns' \<subseteq> insert dst (nb_id ` set (neighbors st src level)))"
proof (cases "edge_addable st src dst level")
  case True
  let ?ns = "neighbors st src level" and ?new = "\<lparr>nb_id = dst, nb_distance = dval\<rparr>"
  note a = addableD [OF True]
  have ok: "list_ok st src level ?ns" using graph_okD(2) [OF g a(2)] .
  have "distinct (map nb_id (?ns @ [?new]))" "\<forall>i \<in> nb_id ` set (?ns @ [?new]). i \<noteq> src \<and> PgturbohybridGraphBuildNodeHasLevel st i level"
    using a ok by (auto simp: list_ok_def)
  from prune_neighbors_list [OF g this a(2)]
  obtain ns' where p: "PgturbohybridGraphPruneNeighbors d (set_neighbors st src level (?ns @ [?new])) src level = set_neighbors st src level ns'"
    "list_ok st src level ns'" "nb_id ` set ns' \<subseteq> nb_id ` set (?ns @ [?new])" by blast
  then have "nb_id ` set ns' \<subseteq> insert dst (nb_id ` set ?ns)" by auto
  moreover have "nb_id ` set (?ns @ [?new]) \<subseteq> insert dst (nb_id ` set ?ns)" by auto
  moreover have "nb_id ` set (?ns[i := ?new]) \<subseteq> insert dst (nb_id ` set ?ns)" for i
    using set_update_subset_insert [of ?ns i] by fastforce
  ultimately have subs: "nb_id ` set ns' \<subseteq> insert dst (nb_id ` set ?ns)" "nb_id ` set (?ns @ [?new]) \<subseteq> insert dst (nb_id ` set ?ns)"
    "\<And>i. nb_id ` set (?ns[i := ?new]) \<subseteq> insert dst (nb_id ` set ?ns)" by blast+
  let ?r = "PgturbohybridGraphAddNeighbor d st src dst level dval"
  have one: ?thesis if "?r = set_neighbors st src level xs" "list_ok st src level xs" "nb_id ` set xs \<subseteq> insert dst (nb_id ` set ?ns)" for xs
    using that a(2) by blast
  let ?full = "\<not> length ?ns < PgturbohybridGraphLevelM (bs_m st) level" and ?fast = "bs_fastEdges st \<and> bn_hasDistances (node_at st src)"
    and ?nearer = "dless dval (nb_distance (?ns ! worst_slot ?ns))"
  note r = PgturbohybridGraphAddNeighbor_def [of d st src dst level dval, unfolded Let_def if_not_P [OF not_not [THEN iffD2, OF True]]]
  consider "\<not> ?full" | ?full ?fast ?nearer | ?full ?fast "\<not> ?nearer" | ?full "\<not> ?fast" by blast
  then show ?thesis
  proof cases
    case 1
    then have "?r = set_neighbors st src level (?ns @ [?new])" by (simp add: r)
    then show ?thesis using one list_ok_snoc [OF g True] 1 subs(2) by blast
  next
    case 2
    then have "?r = set_neighbors st src level (?ns[worst_slot ?ns := ?new])" by (simp add: r)
    then show ?thesis using one list_ok_replace [OF g True] subs(3) by blast
  next
    case 3
    then show ?thesis by (simp add: r)
  next
    case 4
    have "?r = set_neighbors st src level ns'" unfolding r if_not_P [OF 4(1)] if_not_P [OF 4(2)] by (rule p(1))
    then show ?thesis using one p(2) subs(1) by blast
  qed
qed (simp add: PgturbohybridGraphAddNeighbor_def)

lemma add_neighbor_ok: "graph_ok st \<Longrightarrow> graph_ok (PgturbohybridGraphAddNeighbor d st src dst level dval)"
  using add_neighbor_list [of st d src dst level dval] graph_ok_set by metis

lemma add_if_room_ok: "graph_ok st \<Longrightarrow> graph_ok (PgturbohybridGraphAddNeighborIfRoom st src dst level dval)"
  using graph_ok_set [OF _ addableD(2) list_ok_snoc]
  by (auto simp: PgturbohybridGraphAddNeighborIfRoom_def not_le)

lemma force_neighbor_ok: "graph_ok st \<Longrightarrow> graph_ok (PgturbohybridGraphForceNeighbor d st src dst level)"
  using graph_ok_set [OF _ addableD(2) list_ok_snoc] graph_ok_set [OF _ addableD(2) list_ok_replace]
  by (simp add: PgturbohybridGraphForceNeighbor_def Let_def)

lemma link_adjacent_ok:
  assumes "graph_ok st" "n \<noteq> prev" "0 < bs_m st"
  shows "graph_ok (PgturbohybridGraphLinkAdjacentBuildNode d st n prev)"
proof (cases "PgturbohybridGraphBuildNodeHasLevel st n 0 \<and> PgturbohybridGraphBuildNodeHasLevel st prev 0")
  case True
  then have "list_ok st n 0 [\<lparr>nb_id = prev, nb_distance = PgturbohybridGraphBuildDistance d st n prev\<rparr>]"
    using assms by (simp add: list_ok_def PgturbohybridGraphLevelM_def)
  then show ?thesis using True add_if_room_ok graph_ok_set [OF assms(1)]
    by (simp add: PgturbohybridGraphLinkAdjacentBuildNode_def)
qed (use assms in \<open>simp add: PgturbohybridGraphLinkAdjacentBuildNode_def\<close>)

section \<open>The backbone\<close>

lemma neighbor_id_less:
  assumes "graph_ok st" "i \<in> nb_id ` set (neighbors st n level)" "PgturbohybridGraphBuildNodeHasLevel st n level"
  shows "PgturbohybridGraphBuildNodeHasLevel st i level"
  using graph_okD(2) [OF assms(1,3)] assms(2) by (auto simp: list_ok_def)

lemma backbone_two:
  assumes "PgturbohybridGraphIsBackboneNeighbor st src dst"
  shows "\<exists>other. \<forall>i. PgturbohybridGraphIsBackboneNeighbor st src i \<longrightarrow> i = dst \<or> i = other"
  using assms by (auto simp: PgturbohybridGraphIsBackboneNeighbor_def)

text \<open>A full list without \<open>dst\<close>, one of at most two backbone neighbors, has a slot to give away.\<close>

lemma spare_slot:
  assumes "distinct (map nb_id ns)" "2 \<le> length ns" "PgturbohybridGraphIsBackboneNeighbor st src dst" "dst \<notin> nb_id ` set ns"
  shows "\<exists>i < length ns. \<not> PgturbohybridGraphIsBackboneNeighbor st src (nb_id (ns ! i))"
proof (rule ccontr)
  assume none: "\<not> (\<exists>i < length ns. \<not> PgturbohybridGraphIsBackboneNeighbor st src (nb_id (ns ! i)))"
  obtain other where o: "\<And>i. PgturbohybridGraphIsBackboneNeighbor st src i \<Longrightarrow> i = dst \<or> i = other"
    using backbone_two [OF assms(3)] by blast
  have "nb_id (ns ! i) = other" if "i < length ns" for i using none o [of "nb_id (ns ! i)"] assms(4) that by auto
  moreover have len: "0 < length ns" "1 < length ns" using assms(2) by linarith+
  ultimately have "nb_id (ns ! 0) = nb_id (ns ! 1)" by presburger
  then have "map nb_id ns ! 0 = map nb_id ns ! 1" using len by simp
  then show False using nth_eq_iff_index_eq [OF assms(1), of 0 1] len by (simp del: nth_map)
qed

lemma worst_unforced_spec:
  assumes "\<exists>i < length ns. \<not> PgturbohybridGraphIsBackboneNeighbor st src (nb_id (ns ! i))"
  shows "worst_unforced d st src ns < length ns \<and>
    \<not> PgturbohybridGraphIsBackboneNeighbor st src (nb_id (ns ! worst_unforced d st src ns))"
proof -
  define step where "step = (\<lambda>(worst, worstDistance) i.
      if PgturbohybridGraphIsBackboneNeighbor st src (nb_id (ns ! i)) then (worst, worstDistance)
      else let dist = slot_distance d st src (ns ! i)
           in if worst = None \<or> dless worstDistance dist then (Some i, dist) else (worst, worstDistance))"
  define good where "good = (\<lambda>n w. case w of None \<Rightarrow> \<forall>i < n. PgturbohybridGraphIsBackboneNeighbor st src (nb_id (ns ! i))
      | Some i \<Rightarrow> i < n \<and> \<not> PgturbohybridGraphIsBackboneNeighbor st src (nb_id (ns ! i)))"
  have "good n (fst (foldl step (None, minus_DBL_MAX) [0..<n]))" for n
  proof (induction n)
    case (Suc n)
    obtain w x where w: "foldl step (None, minus_DBL_MAX) [0..<n] = (w, x)" by (cases "foldl step (None, minus_DBL_MAX) [0..<n]")
    have "good (Suc n) (fst (step (w, x) n))"
      using Suc w by (auto simp: good_def step_def Let_def less_Suc_eq split: option.splits)
    then show ?case by (simp add: w)
  qed (simp add: good_def)
  from this [of "length ns"] show ?thesis
    using assms by (auto simp: worst_unforced_def step_def [symmetric] good_def split: option.splits)
qed

lemma has_neighbor_set:
  assumes "graph_ok st" "PgturbohybridGraphBuildNodeHasLevel st n l"
  shows "PgturbohybridGraphHasNeighbor (set_neighbors st n l ns) a b lv \<longleftrightarrow>
    PgturbohybridGraphBuildNodeHasLevel st a lv \<and> b \<in> nb_id ` set (if a = n \<and> lv = l then ns else neighbors st a lv)"
  by (simp add: PgturbohybridGraphHasNeighbor_def neighbors_set [OF assms])

lemma force_adds:
  assumes g: "graph_ok st" "0 < bs_m st" and b: "PgturbohybridGraphIsBackboneNeighbor st src dst"
    and l: "PgturbohybridGraphBuildNodeHasLevel st src 0" "PgturbohybridGraphBuildNodeHasLevel st dst 0" "src \<noteq> dst"
  shows "PgturbohybridGraphHasNeighbor (PgturbohybridGraphForceNeighbor d st src dst 0) src dst 0"
proof (cases "edge_addable st src dst 0")
  case True
  let ?ns = "neighbors st src 0"
  have ok: "list_ok st src 0 ?ns" using graph_okD(2) [OF g(1) l(1)] .
  note h = has_neighbor_set [OF g(1) l(1)]
  show ?thesis
  proof (cases "length ?ns < PgturbohybridGraphLevelM (bs_m st) 0")
    case False
    have len: "2 \<le> length ?ns" using False g(2) by (simp add: PgturbohybridGraphLevelM_def)
    have "worst_unforced d st src ?ns < length ?ns"
      using worst_unforced_spec [OF spare_slot [OF _ len b addableD(4) [OF True]]] ok by (simp add: list_ok_def)
    then have "dst \<in> nb_id ` set (?ns[worst_unforced d st src ?ns := \<lparr>nb_id = dst, nb_distance = DBL_MAX\<rparr>])"
      by (metis (no_types, lifting) image_eqI neighbor.select_convs(1) set_update_memI)
    then show ?thesis using False True l h by (simp add: PgturbohybridGraphForceNeighbor_def Let_def)
  qed (use True l h in \<open>simp add: PgturbohybridGraphForceNeighbor_def Let_def\<close>)
qed (use l in \<open>simp add: PgturbohybridGraphForceNeighbor_def edge_addable_def\<close>)

lemma force_keeps:
  assumes g: "graph_ok st" "0 < bs_m st" and b: "PgturbohybridGraphIsBackboneNeighbor st src dst"
    and old: "PgturbohybridGraphHasNeighbor st x y 0" "PgturbohybridGraphIsBackboneNeighbor st x y"
  shows "PgturbohybridGraphHasNeighbor (PgturbohybridGraphForceNeighbor d st src dst 0) x y 0"
proof (cases "edge_addable st src dst 0")
  case True
  let ?ns = "neighbors st src 0"
  note a = addableD [OF True]
  have ok: "list_ok st src 0 ?ns" using graph_okD(2) [OF g(1) a(2)] .
  note h = has_neighbor_set [OF g(1) a(2)]
  have y: "y \<in> nb_id ` set (neighbors st x 0)" "PgturbohybridGraphBuildNodeHasLevel st x 0"
    using old(1) by (auto simp: PgturbohybridGraphHasNeighbor_def)
  show ?thesis
  proof (cases "length ?ns < PgturbohybridGraphLevelM (bs_m st) 0")
    case False
    have len: "2 \<le> length ?ns" using False g(2) by (simp add: PgturbohybridGraphLevelM_def)
    let ?w = "worst_unforced d st src ?ns"
    have w: "?w < length ?ns" "\<not> PgturbohybridGraphIsBackboneNeighbor st src (nb_id (?ns ! ?w))"
      using worst_unforced_spec [OF spare_slot [OF _ len b a(4)]] ok by (simp_all add: list_ok_def)
    have "y \<in> nb_id ` set (?ns[?w := \<lparr>nb_id = dst, nb_distance = DBL_MAX\<rparr>])" if x: "x = src"
    proof -
      obtain i where i: "i < length ?ns" "nb_id (?ns ! i) = y" using y x by (auto simp: in_set_conv_nth)
      then have "i \<noteq> ?w" using w(2) old(2) x by auto
      then have "?ns[?w := \<lparr>nb_id = dst, nb_distance = DBL_MAX\<rparr>] ! i = ?ns ! i" by simp
      then show ?thesis using i by (metis image_eqI length_list_update nth_mem)
    qed
    then show ?thesis using False True y h by (simp add: PgturbohybridGraphForceNeighbor_def Let_def del: list.set_map)
  qed (use True y h in \<open>auto simp: PgturbohybridGraphForceNeighbor_def Let_def\<close>)
qed (use old in \<open>simp add: PgturbohybridGraphForceNeighbor_def\<close>)

lemma force_frame [simp]:
  "bs_nodeCount (PgturbohybridGraphForceNeighbor d st src dst lv) = bs_nodeCount st"
  "bs_m (PgturbohybridGraphForceNeighbor d st src dst lv) = bs_m st"
  "PgturbohybridGraphBuildNodeHasLevel (PgturbohybridGraphForceNeighbor d st src dst lv) = PgturbohybridGraphBuildNodeHasLevel st"
  by (simp_all add: PgturbohybridGraphForceNeighbor_def Let_def fun_eq_iff)

lemma backbone_frame [simp]:
  "PgturbohybridGraphIsBackboneNeighbor (PgturbohybridGraphForceNeighbor d st src dst lv) = PgturbohybridGraphIsBackboneNeighbor st"
  by (simp add: PgturbohybridGraphIsBackboneNeighbor_def fun_eq_iff)

lemma level_0 [simp]: "PgturbohybridGraphBuildNodeHasLevel st n 0 \<longleftrightarrow> unat n < bs_nodeCount st"
  by (simp add: PgturbohybridGraphBuildNodeHasLevel_def)

lemma node_id_ok: "graph_ok st \<Longrightarrow> n < bs_nodeCount st \<Longrightarrow> unat (of_nat n :: u32) = n"
  using graph_okD(1) [of st] by (simp add: unat_of_nat take_bit_nat_eq_self)

lemma adjacent_backbone:
  assumes "graph_ok st" "0 < n" "n < bs_nodeCount st"
  shows "PgturbohybridGraphIsBackboneNeighbor st (of_nat n) (of_nat (n - 1))"
    "PgturbohybridGraphIsBackboneNeighbor st (of_nat (n - 1)) (of_nat n)"
    "(of_nat n :: u32) \<noteq> of_nat (n - 1)"
proof -
  have u: "unat (of_nat n :: u32) = n" "unat (of_nat (n - 1) :: u32) = n - 1"
    using node_id_ok [OF assms(1)] assms(3) by (auto intro: node_id_ok)
  have eq: "(of_nat (n - 1) :: u32) + 1 = of_nat n" "(of_nat n :: u32) - 1 = of_nat (n - 1)" using assms(2) by (simp_all add: of_nat_diff)
  have pos: "(of_nat n :: u32) > 0" using u assms(2) by (simp add: word_less_nat_alt)
  show "PgturbohybridGraphIsBackboneNeighbor st (of_nat n) (of_nat (n - 1))" using pos eq by (simp add: PgturbohybridGraphIsBackboneNeighbor_def)
  show "PgturbohybridGraphIsBackboneNeighbor st (of_nat (n - 1)) (of_nat n)"
    using eq u assms(3) by (simp add: PgturbohybridGraphIsBackboneNeighbor_def)
  show "(of_nat n :: u32) \<noteq> of_nat (n - 1)" using u assms(2) by (metis diff_less less_numeral_extra(1) less_irrefl)
qed

lemma force_pair_spec:
  assumes "graph_ok st" "0 < bs_m st" "0 < n" "n < bs_nodeCount st" "st' = force_pair d n st"
  shows "graph_ok st' \<and> bs_m st' = bs_m st \<and> bs_nodeCount st' = bs_nodeCount st \<and>
    PgturbohybridGraphHasNeighbor st' (of_nat (n - 1)) (of_nat n) 0 \<and> PgturbohybridGraphHasNeighbor st' (of_nat n) (of_nat (n - 1)) 0 \<and>
    (\<forall>x y. PgturbohybridGraphHasNeighbor st x y 0 \<and> PgturbohybridGraphIsBackboneNeighbor st x y \<longrightarrow> PgturbohybridGraphHasNeighbor st' x y 0)"
proof -
  let ?st1 = "PgturbohybridGraphForceNeighbor d st (of_nat (n - 1)) (of_nat n) 0"
  have st': "st' = PgturbohybridGraphForceNeighbor d ?st1 (of_nat n) (of_nat (n - 1)) 0"
    using assms(5) by (simp add: force_pair_def)
  note a = adjacent_backbone [OF assms(1,3,4)]
  have l: "PgturbohybridGraphBuildNodeHasLevel st (of_nat n) 0" "PgturbohybridGraphBuildNodeHasLevel st (of_nat (n - 1)) 0"
    using node_id_ok [OF assms(1)] assms(4) by simp_all
  have g1: "graph_ok ?st1" "0 < bs_m ?st1" using force_neighbor_ok assms(1,2) by simp_all
  have b1: "PgturbohybridGraphIsBackboneNeighbor ?st1 (of_nat n) (of_nat (n - 1))" using a by simp
  have e1: "PgturbohybridGraphHasNeighbor ?st1 (of_nat (n - 1)) (of_nat n) 0"
    by (rule force_adds [OF assms(1,2) a(2) l(2,1)]) (use a(3) in metis)
  have "PgturbohybridGraphHasNeighbor st' (of_nat n) (of_nat (n - 1)) 0"
    unfolding st' using l a(3) by (intro force_adds [OF g1 b1]) simp_all
  moreover have "PgturbohybridGraphHasNeighbor st' (of_nat (n - 1)) (of_nat n) 0"
    unfolding st' by (rule force_keeps [OF g1 b1 e1]) (use a(2) in simp)
  moreover have "PgturbohybridGraphHasNeighbor st' x y 0"
    if "PgturbohybridGraphHasNeighbor st x y 0" "PgturbohybridGraphIsBackboneNeighbor st x y" for x y
    unfolding st' by (rule force_keeps [OF g1 b1 force_keeps [OF assms(1,2) a(2) that]]) (simp add: that)
  moreover have "graph_ok st'" unfolding st' by (rule force_neighbor_ok [OF g1(1)])
  ultimately show ?thesis by (simp add: st')
qed

lemma backbone_upto:
  assumes "graph_ok st" "0 < bs_m st" "n \<le> bs_nodeCount st" "st' = fold (force_pair d) [1..<n] st"
  shows "graph_ok st' \<and> bs_m st' = bs_m st \<and> bs_nodeCount st' = bs_nodeCount st \<and>
    (\<forall>k. 0 < k \<and> k < n \<longrightarrow> PgturbohybridGraphHasNeighbor st' (of_nat (k - 1)) (of_nat k) 0 \<and>
       PgturbohybridGraphHasNeighbor st' (of_nat k) (of_nat (k - 1)) 0)"
  using assms(3,4)
proof (induction n arbitrary: st')
  case 0
  then show ?case using assms by simp
next
  case (Suc n)
  show ?case
  proof (cases "n = 0")
    case True
    then show ?thesis using Suc.prems assms by simp
  next
    case False
    let ?st = "fold (force_pair d) [1..<n] st"
    have ih: "graph_ok ?st \<and> bs_m ?st = bs_m st \<and> bs_nodeCount ?st = bs_nodeCount st \<and>
      (\<forall>k. 0 < k \<and> k < n \<longrightarrow> PgturbohybridGraphHasNeighbor ?st (of_nat (k - 1)) (of_nat k) 0 \<and>
         PgturbohybridGraphHasNeighbor ?st (of_nat k) (of_nat (k - 1)) 0)"
      using Suc.IH [OF _ refl] Suc.prems(1) by simp
    have st': "st' = force_pair d n ?st" using Suc.prems(2) False by simp
    have p: "graph_ok st' \<and> bs_m st' = bs_m ?st \<and> bs_nodeCount st' = bs_nodeCount ?st \<and>
      PgturbohybridGraphHasNeighbor st' (of_nat (n - 1)) (of_nat n) 0 \<and> PgturbohybridGraphHasNeighbor st' (of_nat n) (of_nat (n - 1)) 0 \<and>
      (\<forall>x y. PgturbohybridGraphHasNeighbor ?st x y 0 \<and> PgturbohybridGraphIsBackboneNeighbor ?st x y \<longrightarrow> PgturbohybridGraphHasNeighbor st' x y 0)"
      by (rule force_pair_spec [OF _ _ _ _ st']) (use ih assms(2) False Suc.prems(1) in auto)
    have "PgturbohybridGraphHasNeighbor st' (of_nat (k - 1)) (of_nat k) 0 \<and> PgturbohybridGraphHasNeighbor st' (of_nat k) (of_nat (k - 1)) 0"
      if k: "0 < k" "k < Suc n" for k
    proof (cases "k = n")
      case False
      have b: "PgturbohybridGraphIsBackboneNeighbor ?st (of_nat k) (of_nat (k - 1))" "PgturbohybridGraphIsBackboneNeighbor ?st (of_nat (k - 1)) (of_nat k)"
        using adjacent_backbone [of ?st k] ih k Suc.prems(1) by auto
      show ?thesis using p ih b k False by (meson less_SucE)
    qed (use p in simp)
    then show ?thesis using p ih by simp
  qed
qed

lemma chain_connects:
  assumes step: "\<And>k. 0 < k \<Longrightarrow> k < n \<Longrightarrow> (f (k - 1), f k) \<in> r \<and> (f k, f (k - 1)) \<in> r"
    and "i < n" "j < (n :: nat)"
  shows "(f i, f j) \<in> r\<^sup>*"
proof -
  have up: "(f i, f (i + m)) \<in> r\<^sup>* \<and> (f (i + m), f i) \<in> r\<^sup>*" if "i + m < n" for i m
    using that
  proof (induction m)
    case (Suc m)
    have "(f (i + m), f (i + Suc m)) \<in> r \<and> (f (i + Suc m), f (i + m)) \<in> r"
      using step [of "i + Suc m"] Suc.prems by simp
    moreover have "(f i, f (i + m)) \<in> r\<^sup>* \<and> (f (i + m), f i) \<in> r\<^sup>*" using Suc by simp
    ultimately show ?case by (meson converse_rtrancl_into_rtrancl rtrancl.rtrancl_into_rtrancl)
  qed simp
  show ?thesis
    using up [of i "j - i"] up [of j "i - j"] assms(2,3) by (cases "i \<le> j") simp_all
qed

definition level_edges :: "build_state \<Rightarrow> nat \<Rightarrow> (u32 \<times> u32) set" where
  "level_edges st level = {(a, b). PgturbohybridGraphHasNeighbor st a b level}"

text \<open>Fresh nodes, all on level 0.\<close>

definition fresh_graph :: "nat \<Rightarrow> nat \<Rightarrow> build_state" where
  "fresh_graph k m = \<lparr>bs_nodes = replicate k \<lparr>bn_level = 0, bn_hasDistances = True, bn_neighbors = [[]]\<rparr>, bs_m = m,
     bs_efConstruction = 4, bs_fastEdges = False, bs_visited = (\<lambda>_. 0), bs_visitGeneration = 0, bs_entryNodeId = 0,
     bs_maxLevel = -1, bs_segmentCount = 0\<rparr>"

lemma fresh_graph_ok:
  assumes "k < 2 ^ 32"
  shows "graph_ok (fresh_graph k m)" "\<forall>n l. PgturbohybridGraphBuildNodeHasLevel (fresh_graph k m) n l \<longrightarrow> neighbors (fresh_graph k m) n l = []"
    "bs_nodeCount (fresh_graph k m) = k"
proof -
  show n: "bs_nodeCount (fresh_graph k m) = k" by (simp add: fresh_graph_def bs_nodeCount_def)
  have at: "node_at (fresh_graph k m) n = \<lparr>bn_level = 0, bn_hasDistances = True, bn_neighbors = [[]]\<rparr>" if "unat n < k" for n
    using that by (simp add: fresh_graph_def node_at_def)
  show e: "\<forall>n l. PgturbohybridGraphBuildNodeHasLevel (fresh_graph k m) n l \<longrightarrow> neighbors (fresh_graph k m) n l = []"
    using at n by (auto simp: PgturbohybridGraphBuildNodeHasLevel_def neighbors_def)
  show "graph_ok (fresh_graph k m)" using assms at n e by (simp add: graph_ok_def list_ok_def)
qed

text \<open>A chain of three nodes on level 0.\<close>

definition chain_graph :: build_state where
  "chain_graph = (fresh_graph 3 2)\<lparr>bs_nodes := map (\<lambda>ns. \<lparr>bn_level = 0, bn_hasDistances = True, bn_neighbors = [map (\<lambda>n. \<lparr>nb_id = n, nb_distance = Fin 1\<rparr>) ns]\<rparr>)
     [[1], [0, 2], [1]]\<rparr>"

definition chain_distance :: "u32 \<Rightarrow> u32 \<Rightarrow> cdouble" where
  "chain_distance a b = (if b = 0 then Fin 3 else if b = 1 then Fin 2 else Fin 1)"

section \<open>Properties\<close>

text \<open>
  C10. The choice of neighbors, from candidates with distinct nodes: the selected nodes are distinct
  candidates other than the node itself, and as many as the level allows or the candidates offer.
  Unless the fast edges are on, they start with a diverse part, in which no node is nearer to an
  earlier one than to the node the list is for; what follows only fills up, after every other
  candidate was found nearer to one of the diverse part.
\<close>

theorem select_neighbors_correct:
  assumes "distinct (map nodeId candidates)" "PgturbohybridGraphSelectNeighbors d st src candidates level = (cs, selected)"
  shows "mset cs = mset candidates \<and> distinct selected \<and> set selected \<subseteq> nodeId ` set candidates - {src} \<and>
    length selected = min (PgturbohybridGraphLevelM (bs_m st) level) (card (nodeId ` set candidates - {src})) \<and>
    (\<not> bs_fastEdges st \<longrightarrow> (\<exists>diverse filler. selected = diverse @ filler \<and>
      (\<forall>c \<in> set candidates. \<forall>i < length diverse. nodeId c = diverse ! i \<longrightarrow> (\<forall>j < i. \<not> occludes d st c (diverse ! j))) \<and>
      (filler \<noteq> [] \<longrightarrow> (\<forall>c \<in> set candidates. nodeId c \<noteq> src \<longrightarrow> nodeId c \<in> set diverse \<or> list_ex (occludes d st c) diverse))))"
  using select_neighbors_facts [OF assms] by metis

text \<open>
  C3. The backbone: on a well-formed graph of degree at least one, the pass over the node ids leaves
  the graph well-formed (no list longer than the level allows, no repeated or dangling neighbor) and
  links every node with its successor in both directions, so that on level 0 every node is reachable
  from every other one. A full list gives up a slot that is not part of the backbone.
\<close>

theorem backbone_connects:
  assumes "graph_ok st" "0 < bs_m st" "st' = PgturbohybridGraphEnsureLevel0Backbone d st"
    and "unat a < bs_nodeCount st" "unat b < bs_nodeCount st"
  shows "graph_ok st' \<and> (a, b) \<in> (level_edges st' 0)\<^sup>*"
proof (cases "bs_nodeCount st < 2")
  case True
  then have "unat a = unat b" using assms(4,5) by linarith
  then have "a = b" by (simp add: word_unat_eq_iff)
  then show ?thesis using True assms(1,3) by (simp add: PgturbohybridGraphEnsureLevel0Backbone_def)
next
  case False
  have st': "st' = fold (force_pair d) [1..<bs_nodeCount st] st" using False assms(3) by (simp add: PgturbohybridGraphEnsureLevel0Backbone_def)
  note u = backbone_upto [OF assms(1,2) le_refl st']
  have "(of_nat (unat a), of_nat (unat b)) \<in> (level_edges st' 0)\<^sup>*"
    by (rule chain_connects [where f = of_nat and n = "bs_nodeCount st"])
      (use u assms(4,5) in \<open>simp_all add: level_edges_def\<close>)
  then show ?thesis using u by simp
qed

theorem select_neighbors_correct_witness:
  "\<exists>cs selected. PgturbohybridGraphSelectNeighbors chain_distance chain_graph 0 [\<lparr>nodeId = 1, distance = Fin 2\<rparr>, \<lparr>nodeId = 2, distance = Fin 1\<rparr>] 0 = (cs, selected) \<and>
    length selected = 2 \<and> set selected \<subseteq> {1, 2}"
proof -
  let ?c = "[\<lparr>nodeId = 1, distance = Fin 2\<rparr>, \<lparr>nodeId = 2, distance = Fin 1\<rparr>] :: frontier_item list"
  obtain cs selected where s: "PgturbohybridGraphSelectNeighbors chain_distance chain_graph 0 ?c 0 = (cs, selected)"
    by (cases "PgturbohybridGraphSelectNeighbors chain_distance chain_graph 0 ?c 0")
  have "distinct (map nodeId ?c)" by simp
  from select_neighbors_correct [OF this s] show ?thesis
    using s by (intro exI [of _ cs] exI [of _ selected]) (auto simp: PgturbohybridGraphLevelM_def chain_graph_def fresh_graph_def card_insert_if)
qed

theorem backbone_connects_witness:
  "graph_ok (PgturbohybridGraphEnsureLevel0Backbone (\<lambda>a b. Fin 1) (fresh_graph 5 2)) \<and>
   (0, 4) \<in> (level_edges (PgturbohybridGraphEnsureLevel0Backbone (\<lambda>a b. Fin 1) (fresh_graph 5 2)) 0)\<^sup>*"
proof -
  have m: "0 < bs_m (fresh_graph 5 2)" by (simp add: fresh_graph_def)
  show ?thesis
    using backbone_connects [OF fresh_graph_ok(1) m refl, of 0 4 "\<lambda>a b. Fin 1"] by (simp add: fresh_graph_ok)
qed

end
