(* ===== verification/Graph_Build_Search.thy ===== *)
theory Graph_Build_Search
  imports Graph_Build
begin

text \<open>
  Building the graph in memory, the searches (\<open>pgturbohybrid_quant.c\<close>): the greedy descent on the
  upper levels and the best-first search of one level, whose visited nodes are marked by a
  generation number. The arrays indexed by node id, \<open>inserted\<close> and \<open>buildVisitedGeneration\<close>, are
  functions; the counters the build only reports are left out. Both searches use only nodes that
  are on the level, so that they end for every state.
\<close>

section \<open>Greedy search\<close>

definition greedy_visit :: "(u32 \<Rightarrow> u32 \<Rightarrow> cdouble) \<Rightarrow> build_state \<Rightarrow> u32 \<Rightarrow> nat \<Rightarrow> (u32 \<Rightarrow> bool) \<Rightarrow>
    u32 \<Rightarrow> frontier_item \<times> bool \<Rightarrow> frontier_item \<times> bool" where
  "greedy_visit dst st q level inserted nb = (\<lambda>(current, changed).
     if \<not> inserted nb \<or> \<not> PgturbohybridGraphBuildNodeHasLevel st nb level then (current, changed)
     else let x = PgturbohybridGraphBuildDistance dst st q nb
          in if dless x (distance current) then (\<lparr>nodeId = nb, distance = x\<rparr>, True) else (current, changed))"

definition greedy_round :: "(u32 \<Rightarrow> u32 \<Rightarrow> cdouble) \<Rightarrow> build_state \<Rightarrow> u32 \<Rightarrow> nat \<Rightarrow> (u32 \<Rightarrow> bool) \<Rightarrow>
    frontier_item \<Rightarrow> frontier_item \<times> bool" where
  "greedy_round dst st q level inserted current =
     fold (greedy_visit dst st q level inserted) (map nb_id (neighbors st (nodeId current) level)) (current, False)"

text \<open>The nodes nearer than a distance: there are fewer after every round that changes the current node.\<close>

definition nearer :: "(u32 \<Rightarrow> u32 \<Rightarrow> cdouble) \<Rightarrow> build_state \<Rightarrow> u32 \<Rightarrow> cdouble \<Rightarrow> u32 set" where
  "nearer dst st q x = {n. unat n < bs_nodeCount st \<and> dless (PgturbohybridGraphBuildDistance dst st q n) x}"

lemma greedy_round_spec:
  assumes "greedy_round dst st q level inserted current = (r, changed)"
  shows "(changed \<longrightarrow> nodeId r \<in> nb_id ` set (neighbors st (nodeId current) level) \<and> inserted (nodeId r) \<and>
      PgturbohybridGraphBuildNodeHasLevel st (nodeId r) level \<and> distance r = PgturbohybridGraphBuildDistance dst st q (nodeId r) \<and>
      dless (distance r) (distance current)) \<and>
    (\<not> changed \<longrightarrow> r = current \<and> (\<forall>n \<in> nb_id ` set (neighbors st (nodeId current) level).
      inserted n \<and> PgturbohybridGraphBuildNodeHasLevel st n level \<longrightarrow>
      \<not> dless (PgturbohybridGraphBuildDistance dst st q n) (distance current)))"
proof -
  let ?good = "\<lambda>ns (r, changed). (changed \<longrightarrow> nodeId r \<in> set ns \<and> inserted (nodeId r) \<and>
      PgturbohybridGraphBuildNodeHasLevel st (nodeId r) level \<and> distance r = PgturbohybridGraphBuildDistance dst st q (nodeId r) \<and>
      dless (distance r) (distance current)) \<and>
    (\<not> changed \<longrightarrow> r = current \<and> (\<forall>n \<in> set ns. inserted n \<and> PgturbohybridGraphBuildNodeHasLevel st n level \<longrightarrow>
      \<not> dless (PgturbohybridGraphBuildDistance dst st q n) (distance current)))"
  have "?good ns (fold (greedy_visit dst st q level inserted) ns (current, False))" for ns
  proof (induction ns rule: rev_induct)
    case (snoc n ns)
    obtain r c where f: "fold (greedy_visit dst st q level inserted) ns (current, False) = (r, c)"
      by (cases "fold (greedy_visit dst st q level inserted) ns (current, False)")
    let ?x = "PgturbohybridGraphBuildDistance dst st q n"
    consider "\<not> inserted n \<or> \<not> PgturbohybridGraphBuildNodeHasLevel st n level"
      | "inserted n" "PgturbohybridGraphBuildNodeHasLevel st n level" "\<not> dless ?x (distance r)"
      | "inserted n" "PgturbohybridGraphBuildNodeHasLevel st n level" "dless ?x (distance r)" by blast
    note cases_n = this
    have g: "?good ns (r, c)" using snoc unfolding f .
    have same: ?case if v: "greedy_visit dst st q level inserted n (r, c) = (r, c)"
      and no: "\<not> (inserted n \<and> PgturbohybridGraphBuildNodeHasLevel st n level \<and> dless ?x (distance r))"
    proof -
      have eq: "fold (greedy_visit dst st q level inserted) (ns @ [n]) (current, False) = (r, c)" using v f by simp
      show ?thesis unfolding eq prod.case using g no unfolding prod.case by (simp only: set_append list.set Un_iff insert_iff ball_Un) blast
    qed
    show ?case
      using cases_n
    proof cases
      case 1
      show ?thesis by (rule same) (use 1 in \<open>auto simp: greedy_visit_def\<close>)
    next
      case 2
      show ?thesis by (rule same) (use 2 in \<open>auto simp: greedy_visit_def\<close>)
    next
      case 3
      have "distance r = distance current \<or> dless (distance r) (distance current)"
        using g unfolding prod.case by blast
      then have "dless ?x (distance current)" using 3 dless_trans [of ?x "distance r" "distance current"] by auto
      moreover have "greedy_visit dst st q level inserted n (r, c) = (\<lparr>nodeId = n, distance = ?x\<rparr>, True)"
        using 3 by (simp add: greedy_visit_def)
      ultimately show ?thesis using 3 f by simp
    qed
  qed simp
  from this [of "map nb_id (neighbors st (nodeId current) level)"] show ?thesis
    unfolding assms [unfolded greedy_round_def] prod.case list.set_map .
qed

lemma nearer_less:
  assumes "dless x y" "unat n < bs_nodeCount st" "x = PgturbohybridGraphBuildDistance dst st q n"
  shows "card (nearer dst st q x) < card (nearer dst st q y)"
proof (rule psubset_card_mono)
  show "nearer dst st q x \<subset> nearer dst st q y"
    using assms dless_trans by (force simp: nearer_def)
qed simp

function greedy_loop :: "(u32 \<Rightarrow> u32 \<Rightarrow> cdouble) \<Rightarrow> build_state \<Rightarrow> u32 \<Rightarrow> nat \<Rightarrow> (u32 \<Rightarrow> bool) \<Rightarrow>
    frontier_item \<Rightarrow> frontier_item" where
  "greedy_loop dst st q level inserted current =
     (if \<not> PgturbohybridGraphBuildNodeHasLevel st (nodeId current) level then current
      else case greedy_round dst st q level inserted current of
        (next_item, changed) \<Rightarrow> if changed then greedy_loop dst st q level inserted next_item else next_item)"
  by pat_completeness auto

termination
proof (relation "measure (\<lambda>(dst, st, q, level, inserted, current). card (nearer dst st q (distance current)))")
  fix dst st q level inserted current next_item changed
  assume "\<not> \<not> PgturbohybridGraphBuildNodeHasLevel st (nodeId current) level"
    "(next_item, changed) = greedy_round dst st q level inserted current" changed
  then have "dless (distance next_item) (distance current)" "unat (nodeId next_item) < bs_nodeCount st"
    "distance next_item = PgturbohybridGraphBuildDistance dst st q (nodeId next_item)"
    using greedy_round_spec [of dst st q level inserted current next_item changed]
    by (auto simp: PgturbohybridGraphBuildNodeHasLevel_def)
  then show "((dst, st, q, level, inserted, next_item), dst, st, q, level, inserted, current)
      \<in> measure (\<lambda>(dst, st, q, level, inserted, current). card (nearer dst st q (distance current)))"
    using nearer_less by simp
qed simp

declare greedy_loop.simps [simp del]

definition PgturbohybridGraphBuildGreedySearch :: "(u32 \<Rightarrow> u32 \<Rightarrow> cdouble) \<Rightarrow> build_state \<Rightarrow> u32 \<Rightarrow> u32 \<Rightarrow> nat \<Rightarrow>
    (u32 \<Rightarrow> bool) \<Rightarrow> frontier_item" where
  "PgturbohybridGraphBuildGreedySearch dst st q entry level inserted =
     greedy_loop dst st q level inserted \<lparr>nodeId = entry, distance = PgturbohybridGraphBuildDistance dst st q entry\<rparr>"

lemma greedy_loop_spec:
  assumes "PgturbohybridGraphBuildNodeHasLevel st (nodeId current) level"
    "distance current = PgturbohybridGraphBuildDistance dst st q (nodeId current)" "r = greedy_loop dst st q level inserted current"
  shows "(nodeId current, nodeId r) \<in> (level_edges st level)\<^sup>* \<and> (nodeId r = nodeId current \<or> inserted (nodeId r)) \<and>
    PgturbohybridGraphBuildNodeHasLevel st (nodeId r) level \<and> distance r = PgturbohybridGraphBuildDistance dst st q (nodeId r) \<and>
    \<not> dless (distance current) (distance r) \<and>
    (\<forall>n. PgturbohybridGraphHasNeighbor st (nodeId r) n level \<and> inserted n \<and> PgturbohybridGraphBuildNodeHasLevel st n level \<longrightarrow>
      \<not> dless (PgturbohybridGraphBuildDistance dst st q n) (distance r))"
  using assms
proof (induction dst st q level inserted current rule: greedy_loop.induct)
  case (1 dst st q level inserted current)
  obtain x changed where x: "greedy_round dst st q level inserted current = (x, changed)"
    by (cases "greedy_round dst st q level inserted current")
  note s = greedy_round_spec [OF x]
  show ?case
  proof (cases changed)
    case True
    have r: "r = greedy_loop dst st q level inserted x" using True x "1.prems"
      by (simp add: greedy_loop.simps [of dst st q level inserted current])
    have edge: "(nodeId current, nodeId x) \<in> level_edges st level"
      using s True "1.prems"(1) by (simp add: level_edges_def PgturbohybridGraphHasNeighbor_def)
    have ih: "(nodeId x, nodeId r) \<in> (level_edges st level)\<^sup>* \<and> (nodeId r = nodeId x \<or> inserted (nodeId r)) \<and>
      PgturbohybridGraphBuildNodeHasLevel st (nodeId r) level \<and> distance r = PgturbohybridGraphBuildDistance dst st q (nodeId r) \<and>
      \<not> dless (distance x) (distance r) \<and>
      (\<forall>n. PgturbohybridGraphHasNeighbor st (nodeId r) n level \<and> inserted n \<and> PgturbohybridGraphBuildNodeHasLevel st n level \<longrightarrow>
        \<not> dless (PgturbohybridGraphBuildDistance dst st q n) (distance r))"
      by (rule "1.IH" [OF _ x [symmetric]]) (use s True "1.prems" r in auto)
    moreover have "(nodeId current, nodeId r) \<in> (level_edges st level)\<^sup>*"
      using edge ih by (meson converse_rtrancl_into_rtrancl)
    moreover have "\<not> dless (distance current) (distance r)" using ih s True dless_trans by blast
    moreover have "nodeId r = nodeId x \<longrightarrow> inserted (nodeId r)" using s True by simp
    ultimately show ?thesis by blast
  next
    case False
    have "r = current" using False x s "1.prems" by (simp add: greedy_loop.simps [of dst st q level inserted current])
    then show ?thesis using s False "1.prems" by (auto simp: PgturbohybridGraphHasNeighbor_def)
  qed
qed


section \<open>Searching a level\<close>

record layer_state =
  ls_frontier :: "frontier_item list"
  ls_frontierCount :: nat
  ls_frontierCapacity :: nat
  ls_nearest :: "frontier_item list"
  ls_nearestCount :: nat
  ls_visited :: "u32 \<Rightarrow> u32"

text \<open>The generation of a search; when the counter wraps around, the marks are cleared.\<close>

definition next_visit_generation :: "build_state \<Rightarrow> u32 \<times> build_state" where
  "next_visit_generation st =
     (let g = bs_visitGeneration st + 1
      in if g = 0 then (1, st\<lparr>bs_visited := (\<lambda>_. 0), bs_visitGeneration := 1\<rparr>) else (g, st\<lparr>bs_visitGeneration := g\<rparr>))"

definition push_frontier :: "frontier_item \<Rightarrow> nat \<Rightarrow> frontier_item \<Rightarrow> layer_state \<Rightarrow> layer_state res" where
  "push_frontier junk maxCapacity item ls =
     bindE (PgturbohybridGraphFrontierHeapPushGrowing junk (ls_frontier ls) (ls_frontierCount ls) (ls_frontierCapacity ls) maxCapacity item True)
       (\<lambda>(h, n, c). Inr (ls\<lparr>ls_frontier := h, ls_frontierCount := n, ls_frontierCapacity := c\<rparr>))"

definition offer_layer :: "nat \<Rightarrow> frontier_item \<Rightarrow> layer_state \<Rightarrow> bool \<times> layer_state" where
  "offer_layer ef item ls =
     (let (accepted, h, n) = PgturbohybridGraphOfferNearest (ls_nearest ls) ef (ls_nearestCount ls) (nodeId item) (distance item)
      in (accepted, ls\<lparr>ls_nearest := h, ls_nearestCount := n\<rparr>))"

definition visit_neighbor :: "frontier_item \<Rightarrow> (u32 \<Rightarrow> u32 \<Rightarrow> cdouble) \<Rightarrow> build_state \<Rightarrow> u32 \<Rightarrow> nat \<Rightarrow> nat \<Rightarrow>
    (u32 \<Rightarrow> bool) \<Rightarrow> u32 \<Rightarrow> u32 \<Rightarrow> layer_state \<Rightarrow> layer_state res" where
  "visit_neighbor junk dst st q level ef inserted g nb ls =
     (if \<not> inserted nb \<or> ls_visited ls nb = g \<or> \<not> PgturbohybridGraphBuildNodeHasLevel st nb level then Inr ls
      else let item = \<lparr>nodeId = nb, distance = PgturbohybridGraphBuildDistance dst st q nb\<rparr>;
               (accepted, ls) = offer_layer ef item (ls\<lparr>ls_visited := (ls_visited ls)(nb := g)\<rparr>)
           in if accepted then push_frontier junk (bs_nodeCount st) item ls else Inr ls)"

definition pop_frontier :: "layer_state \<Rightarrow> frontier_item \<times> layer_state" where
  "pop_frontier ls =
     (let (item, h, n) = PgturbohybridGraphFrontierHeapPop (ls_frontier ls) (ls_frontierCount ls) True
      in (item, ls\<lparr>ls_frontier := h, ls_frontierCount := n\<rparr>))"

text \<open>Every push marks a node of the graph, so that the loop ends.\<close>

definition unvisited :: "build_state \<Rightarrow> u32 \<Rightarrow> layer_state \<Rightarrow> u32 set" where
  "unvisited st g ls = {n. unat n < bs_nodeCount st \<and> ls_visited ls n \<noteq> g}"

lemma push_frontier_count:
  "push_frontier junk mc item ls = Inr ls' \<Longrightarrow> ls_frontierCount ls' = Suc (ls_frontierCount ls) \<and> ls_visited ls' = ls_visited ls"
  by (auto simp: push_frontier_def bindE_Inr_iff PgturbohybridGraphFrontierHeapPushGrowing_def
      PgturbohybridGraphFrontierHeapPush_def Let_def split_beta)

lemma visit_neighbor_work:
  assumes "visit_neighbor junk dst st q level ef inserted g nb ls = Inr ls'"
  shows "card (unvisited st g ls') + ls_frontierCount ls' \<le> card (unvisited st g ls) + ls_frontierCount ls"
proof (cases "\<not> inserted nb \<or> ls_visited ls nb = g \<or> \<not> PgturbohybridGraphBuildNodeHasLevel st nb level")
  case False
  obtain acc ls1 where o: "offer_layer ef \<lparr>nodeId = nb, distance = PgturbohybridGraphBuildDistance dst st q nb\<rparr>
      (ls\<lparr>ls_visited := (ls_visited ls)(nb := g)\<rparr>) = (acc, ls1)" by fastforce
  then have ls1: "ls_visited ls1 = (ls_visited ls)(nb := g)" "ls_frontierCount ls1 = ls_frontierCount ls"
    by (auto simp: offer_layer_def Let_def split_beta)
  have "ls_visited ls' = ls_visited ls1 \<and> ls_frontierCount ls' \<le> Suc (ls_frontierCount ls)"
    using assms False o ls1 by (auto simp: visit_neighbor_def Let_def split: if_splits dest: push_frontier_count)
  moreover have "unvisited st g ls = insert nb (unvisited st g ls')" "nb \<notin> unvisited st g ls'"
    using calculation ls1 False by (auto simp: unvisited_def PgturbohybridGraphBuildNodeHasLevel_def)
  moreover have "card (insert nb (unvisited st g ls')) = Suc (card (unvisited st g ls'))"
    using calculation(3) by simp
  ultimately show ?thesis by simp
qed (use assms in \<open>auto simp: visit_neighbor_def\<close>)

lemma visit_all_work:
  "foldE (visit_neighbor junk dst st q level ef inserted g) ns ls = Inr ls' \<Longrightarrow>
   card (unvisited st g ls') + ls_frontierCount ls' \<le> card (unvisited st g ls) + ls_frontierCount ls"
proof (induction ns arbitrary: ls)
  case (Cons n ns)
  then show ?case using visit_neighbor_work by (fastforce simp: bindE_Inr_iff)
qed simp

lemma pop_frontier_work:
  assumes "pop_frontier ls = (item, ls')"
  shows "ls_frontierCount ls' = ls_frontierCount ls - 1 \<and> ls_visited ls' = ls_visited ls"
  using assms by (auto simp: pop_frontier_def PgturbohybridGraphFrontierHeapPop_def Let_def)

function layer_loop :: "frontier_item \<Rightarrow> (u32 \<Rightarrow> u32 \<Rightarrow> cdouble) \<Rightarrow> build_state \<Rightarrow> u32 \<Rightarrow> nat \<Rightarrow> nat \<Rightarrow>
    (u32 \<Rightarrow> bool) \<Rightarrow> u32 \<Rightarrow> layer_state \<Rightarrow> layer_state res" where
  "layer_loop junk dst st q level ef inserted g ls =
     (if ls_frontierCount ls = 0 then Inr ls
      else case pop_frontier ls of (item, ls) \<Rightarrow>
        if ef \<le> ls_nearestCount ls \<and> PgturbohybridGraphFrontierGreater item (ls_nearest ls ! 0) then Inr ls
        else if \<not> PgturbohybridGraphBuildNodeHasLevel st (nodeId item) level
        then layer_loop junk dst st q level ef inserted g ls
        else case foldE (visit_neighbor junk dst st q level ef inserted g) (map nb_id (neighbors st (nodeId item) level)) ls of
            Inl e \<Rightarrow> Inl e
          | Inr ls \<Rightarrow> layer_loop junk dst st q level ef inserted g ls)"
  by pat_completeness auto

termination
  by (relation "measure (\<lambda>(junk, dst, st, q, level, ef, inserted, g, ls). card (unvisited st g ls) + ls_frontierCount ls)")
    (auto simp: unvisited_def [of _ _ "_ :: layer_state"] dest!: pop_frontier_work [OF sym] visit_all_work)

declare layer_loop.simps [simp del]

definition PgturbohybridGraphBuildSearchLayer :: "frontier_item \<Rightarrow> (u32 \<Rightarrow> u32 \<Rightarrow> cdouble) \<Rightarrow> build_state \<Rightarrow> u32 \<Rightarrow>
    frontier_item \<Rightarrow> nat \<Rightarrow> nat \<Rightarrow> frontier_item list \<Rightarrow> (u32 \<Rightarrow> bool) \<Rightarrow> (frontier_item list \<times> nat \<times> build_state) res" where
  "PgturbohybridGraphBuildSearchLayer junk dst st q entry level ef nearest inserted =
     (let capacity = nat (PgturbohybridGraphInitialFrontierCapacity (bs_nodeCount st) (int ef) 1 (int (PgturbohybridGraphLevelM (bs_m st) level)));
          (g, st) = next_visit_generation st;
          ls = \<lparr>ls_frontier = replicate capacity junk, ls_frontierCount = 0, ls_frontierCapacity = capacity,
                ls_nearest = nearest, ls_nearestCount = 0, ls_visited = (bs_visited st)(nodeId entry := g)\<rparr>;
          (_, ls) = offer_layer ef entry ls
      in bindE (push_frontier junk (bs_nodeCount st) entry ls) (\<lambda>ls.
         bindE (layer_loop junk dst st q level ef inserted g ls) (\<lambda>ls.
         Inr (ls_nearest ls, ls_nearestCount ls, st\<lparr>bs_visited := ls_visited ls\<rparr>))))"


subsection \<open>What the search maintains\<close>

abbreviation item_of :: "(u32 \<Rightarrow> u32 \<Rightarrow> cdouble) \<Rightarrow> build_state \<Rightarrow> u32 \<Rightarrow> u32 \<Rightarrow> frontier_item" where
  "item_of dst st q n \<equiv> \<lparr>nodeId = n, distance = PgturbohybridGraphBuildDistance dst st q n\<rparr>"

definition visited_nodes :: "u32 \<Rightarrow> layer_state \<Rightarrow> u32 set" where
  "visited_nodes g ls = {n. ls_visited ls n = g}"

definition eligible :: "build_state \<Rightarrow> (u32 \<Rightarrow> bool) \<Rightarrow> nat \<Rightarrow> u32 \<Rightarrow> u32 set" where
  "eligible st inserted level n = {y. PgturbohybridGraphHasNeighbor st n y level \<and> inserted y \<and> PgturbohybridGraphBuildNodeHasLevel st y level}"

text \<open>
  The nearest set holds the best of the visited nodes. The frontier is a heap of visited nodes, each
  once, that fits its array. A kept node whose neighbors have not all been visited is still in the
  frontier; \<open>x\<close> is the node being expanded.
\<close>

definition nearest_ok :: "(u32 \<Rightarrow> u32 \<Rightarrow> cdouble) \<Rightarrow> build_state \<Rightarrow> u32 \<Rightarrow> nat \<Rightarrow> u32 \<Rightarrow> layer_state \<Rightarrow> bool" where
  "nearest_ok dst st q ef g ls \<longleftrightarrow>
     topk PgturbohybridGraphFrontierGreater ef (image_mset (item_of dst st q) (mset_set (visited_nodes g ls))) (ls_nearest ls) (ls_nearestCount ls)"

definition frontier_ok :: "(u32 \<Rightarrow> u32 \<Rightarrow> cdouble) \<Rightarrow> build_state \<Rightarrow> u32 \<Rightarrow> u32 set \<Rightarrow> layer_state \<Rightarrow> bool" where
  "frontier_ok dst st q V ls \<longleftrightarrow>
     heap_inv (frontier_before True) (ls_frontier ls) (ls_frontierCount ls) \<and>
     mset (take (ls_frontierCount ls) (ls_frontier ls)) \<subseteq># image_mset (item_of dst st q) (mset_set V) \<and>
     length (ls_frontier ls) = ls_frontierCapacity ls \<and> ls_frontierCapacity ls \<le> bs_nodeCount st"

definition expanded_ok :: "(u32 \<Rightarrow> u32 \<Rightarrow> cdouble) \<Rightarrow> build_state \<Rightarrow> u32 \<Rightarrow> nat \<Rightarrow> (u32 \<Rightarrow> bool) \<Rightarrow> u32 \<Rightarrow> u32 set \<Rightarrow> layer_state \<Rightarrow> bool" where
  "expanded_ok dst st q level inserted g X ls \<longleftrightarrow>
     (\<forall>n. item_of dst st q n \<in> set (take (ls_nearestCount ls) (ls_nearest ls)) \<longrightarrow>
        n \<in> X \<or> item_of dst st q n \<in> set (take (ls_frontierCount ls) (ls_frontier ls)) \<or>
        eligible st inserted level n \<subseteq> visited_nodes g ls)"

definition visited_ok :: "build_state \<Rightarrow> (u32 \<Rightarrow> bool) \<Rightarrow> nat \<Rightarrow> u32 \<Rightarrow> u32 \<Rightarrow> layer_state \<Rightarrow> bool" where
  "visited_ok st inserted level start g ls \<longleftrightarrow>
     (\<forall>n \<in> visited_nodes g ls. PgturbohybridGraphBuildNodeHasLevel st n level \<and> (n = start \<or> inserted n) \<and>
        (start, n) \<in> (level_edges st level)\<^sup>*) \<and> start \<in> visited_nodes g ls \<and> (\<forall>n. ls_visited ls n \<le> g)"

definition layer_inv :: "(u32 \<Rightarrow> u32 \<Rightarrow> cdouble) \<Rightarrow> build_state \<Rightarrow> u32 \<Rightarrow> nat \<Rightarrow> nat \<Rightarrow> (u32 \<Rightarrow> bool) \<Rightarrow> u32 \<Rightarrow> u32 \<Rightarrow> u32 set \<Rightarrow> layer_state \<Rightarrow> bool" where
  "layer_inv dst st q level ef inserted start g X ls \<longleftrightarrow>
     nearest_ok dst st q ef g ls \<and> frontier_ok dst st q (visited_nodes g ls) ls \<and>
     expanded_ok dst st q level inserted g X ls \<and> visited_ok st inserted level start g ls"

definition search_ok :: "(u32 \<Rightarrow> u32 \<Rightarrow> cdouble) \<Rightarrow> build_state \<Rightarrow> bool" where
  "search_ok dst st \<longleftrightarrow> (\<forall>a b. dst a b \<noteq> NaN) \<and> bs_nodeCount st * sizeof_FrontierItem \<le> MaxAllocSize"

lemma build_distance_ok: "search_ok dst st \<Longrightarrow> PgturbohybridGraphBuildDistance dst st a b \<noteq> NaN"
  by (simp add: search_ok_def PgturbohybridGraphBuildDistance_def DBL_MAX_def)

lemma count_visited:
  assumes "visited_ok st inserted level start g ls"
  shows "card (visited_nodes g ls) \<le> bs_nodeCount st"
proof -
  have "unat ` visited_nodes g ls \<subseteq> {..<bs_nodeCount st}"
    using assms by (auto simp: visited_ok_def PgturbohybridGraphBuildNodeHasLevel_def)
  then have "card (unat ` visited_nodes g ls) \<le> bs_nodeCount st" by (metis card_lessThan card_mono finite_lessThan)
  then show ?thesis by (simp add: card_image inj_on_def word_unat_eq_iff)
qed

lemma heap_ok_items:
  assumes "search_ok dst st" "mset xs \<subseteq># image_mset (item_of dst st q) (mset_set V)"
  shows "\<forall>x \<in> set xs. distance x \<noteq> NaN" "\<forall>x \<in> set xs. x = item_of dst st q (nodeId x) \<and> nodeId x \<in> V" "length xs \<le> card V"
proof -
  have "x \<in># image_mset (item_of dst st q) (mset_set V)" if "x \<in> set xs" for x
    using mset_subset_eqD [OF assms(2)] that by simp
  then show "\<forall>x \<in> set xs. x = item_of dst st q (nodeId x) \<and> nodeId x \<in> V" by fastforce
  then show "\<forall>x \<in> set xs. distance x \<noteq> NaN" using build_distance_ok [OF assms(1)] by (metis PgturbohybridGraphFrontierItem.select_convs(2))
  show "length xs \<le> card V" using size_mset_mono [OF assms(2)] by simp
qed

text \<open>An offer only ever adds its own item to the kept ones.\<close>

lemma offer_nearest_set:
  assumes "PgturbohybridGraphOfferNearest h cap n nid d = (b, h', n')" "n \<le> cap" "cap \<le> length h"
  shows "set (take n' h') \<subseteq> insert \<lparr>nodeId = nid, distance = d\<rparr> (set (take n h)) \<and> (\<not> b \<longrightarrow> h' = h \<and> n' = n)"
proof -
  let ?x = "\<lparr>nodeId = nid, distance = d\<rparr>"
  have "set (take (Suc n) (fst (heap_push (frontier_before False) h n ?x))) \<subseteq> insert ?x (set (take n h))" if "n < length h"
    using arg_cong [OF heap_push_mset [OF that, of "frontier_before False" ?x], of set_mset] by simp
  moreover have "set (take n (heap_replace_root (frontier_before False) h n ?x)) \<subseteq> insert ?x (set (take n h))" if "0 < n" "n \<le> length h"
    using arg_cong [OF heap_replace_root_mset [OF that, of "frontier_before False" ?x], of set_mset]
    by (auto dest: in_diffD)
  ultimately show ?thesis using assms
    by (auto simp: PgturbohybridGraphOfferNearest_def frontier_push_heap_push frontier_replace_heap_replace heap_push_def Let_def split: if_splits)
qed


lemma offer_layer_spec:
  assumes "search_ok dst st" "0 < ef" and ok: "topk PgturbohybridGraphFrontierGreater ef (image_mset (item_of dst st q) (mset_set V)) (ls_nearest ls) (ls_nearestCount ls)"
    and "n \<notin> V" "offer_layer ef (item_of dst st q n) ls = (acc, ls')"
  shows "topk PgturbohybridGraphFrontierGreater ef (image_mset (item_of dst st q) (mset_set (insert n V))) (ls_nearest ls') (ls_nearestCount ls') \<and>
    set (take (ls_nearestCount ls') (ls_nearest ls')) \<subseteq> insert (item_of dst st q n) (set (take (ls_nearestCount ls) (ls_nearest ls))) \<and>
    (\<not> acc \<longrightarrow> ls_nearest ls' = ls_nearest ls \<and> ls_nearestCount ls' = ls_nearestCount ls) \<and>
    ls_frontier ls' = ls_frontier ls \<and> ls_frontierCount ls' = ls_frontierCount ls \<and>
    ls_frontierCapacity ls' = ls_frontierCapacity ls \<and> ls_visited ls' = ls_visited ls"
proof -
  obtain h k where o: "PgturbohybridGraphOfferNearest (ls_nearest ls) ef (ls_nearestCount ls) n (PgturbohybridGraphBuildDistance dst st q n) = (acc, h, k)"
    and ls': "ls' = ls\<lparr>ls_nearest := h, ls_nearestCount := k\<rparr>"
    using assms(5) by (auto simp: offer_layer_def Let_def split: prod.splits)
  have "topk PgturbohybridGraphFrontierGreater ef (add_mset (mk_item (n, PgturbohybridGraphBuildDistance dst st q n)) (image_mset (item_of dst st q) (mset_set V))) h k"
    by (rule offer_nearest_topk [OF ok assms(2) _ build_distance_ok [OF assms(1)] o]) (simp add: build_distance_ok [OF assms(1)])
  moreover have "ls_nearestCount ls \<le> ef" "ef \<le> length (ls_nearest ls)" using ok by (simp_all add: topk_def)
  ultimately show ?thesis using offer_nearest_set [OF o] assms(4) ls' by (simp add: mk_item_def)
qed

lemma push_frontier_spec:
  assumes "search_ok dst st" "frontier_ok dst st q V ls" "n \<notin> V" "card (insert n V) \<le> bs_nodeCount st"
  shows "\<exists>ls'. push_frontier junk (bs_nodeCount st) (item_of dst st q n) ls = Inr ls' \<and> frontier_ok dst st q (insert n V) ls' \<and>
    set (take (ls_frontierCount ls') (ls_frontier ls')) = insert (item_of dst st q n) (set (take (ls_frontierCount ls) (ls_frontier ls))) \<and>
    ls_nearest ls' = ls_nearest ls \<and> ls_nearestCount ls' = ls_nearestCount ls \<and> ls_visited ls' = ls_visited ls"
proof -
  have f: "heap_inv (frontier_before True) (ls_frontier ls) (ls_frontierCount ls)"
    "mset (take (ls_frontierCount ls) (ls_frontier ls)) \<subseteq># image_mset (item_of dst st q) (mset_set V)"
    "length (ls_frontier ls) = ls_frontierCapacity ls" "ls_frontierCapacity ls \<le> bs_nodeCount st"
    using assms(2) by (auto simp: frontier_ok_def)
  have len: "length (take (ls_frontierCount ls) (ls_frontier ls)) = ls_frontierCount ls" using f(1) by (simp add: heap_inv_def)
  have small: "ls_frontierCount ls < bs_nodeCount st" using heap_ok_items(3) [OF assms(1) f(2)] len assms(3,4) by simp
  define r where "r = PgturbohybridGraphFrontierHeapPushGrowing junk (ls_frontier ls) (ls_frontierCount ls) (ls_frontierCapacity ls)
      (bs_nodeCount st) (item_of dst st q n) True"
  have item: "distance (item_of dst st q n) \<noteq> NaN" using build_distance_ok [OF assms(1)] by simp
  note p = push_growing_safe [OF f(1) heap_ok_items(1) [OF assms(1) f(2)] f(3,4) item r_def [symmetric]]
  have "\<not> bs_nodeCount st * sizeof_FrontierItem > MaxAllocSize" using assms(1) by (simp add: search_ok_def)
  then obtain h k c where r: "r = Inr (h, k, c)" using p small by (cases r) auto
  then have p': "k = Suc (ls_frontierCount ls)" "length h = c" "c \<le> bs_nodeCount st"
      "mset (take k h) = add_mset (item_of dst st q n) (mset (take (ls_frontierCount ls) (ls_frontier ls)))"
      "heap_inv (frontier_before True) h k"
    using p unfolding r sum.case prod.case by blast+
  let ?ls = "ls\<lparr>ls_frontier := h, ls_frontierCount := k, ls_frontierCapacity := c\<rparr>"
  have "push_frontier junk (bs_nodeCount st) (item_of dst st q n) ls = Inr ?ls"
    using r by (simp add: push_frontier_def r_def)
  moreover have "frontier_ok dst st q (insert n V) ?ls" using p' f(2) assms(3) by (simp add: frontier_ok_def)
  moreover have "set (take k h) = insert (item_of dst st q n) (set (take (ls_frontierCount ls) (ls_frontier ls)))"
    using arg_cong [OF p'(4), of set_mset] by simp
  ultimately show ?thesis by auto
qed

lemma frontier_ok_mono:
  assumes "frontier_ok dst st q V ls" "V \<subseteq> V'"
  shows "frontier_ok dst st q V' ls"
proof -
  have "mset_set V \<subseteq># mset_set V'" using assms(2) by simp
  then have "image_mset (item_of dst st q) (mset_set V) \<subseteq># image_mset (item_of dst st q) (mset_set V')"
    by (rule image_mset_subseteq_mono)
  then show ?thesis using assms(1) unfolding frontier_ok_def by (blast intro: subset_mset.order_trans)
qed

lemma visit_step:
  assumes "search_ok dst st" "0 < ef" and inv: "layer_inv dst st q level ef inserted start g X ls"
    and reach: "(start, n) \<in> (level_edges st level)\<^sup>*"
  shows "\<exists>ls'. visit_neighbor junk dst st q level ef inserted g n ls = Inr ls' \<and> layer_inv dst st q level ef inserted start g X ls' \<and>
    visited_nodes g ls \<subseteq> visited_nodes g ls' \<and>
    (inserted n \<and> PgturbohybridGraphBuildNodeHasLevel st n level \<longrightarrow> n \<in> visited_nodes g ls')"
proof (cases "\<not> inserted n \<or> ls_visited ls n = g \<or> \<not> PgturbohybridGraphBuildNodeHasLevel st n level")
  case True
  then show ?thesis using inv by (auto simp: visit_neighbor_def visited_nodes_def)
next
  case False
  let ?V = "visited_nodes g ls" and ?ls = "ls\<lparr>ls_visited := (ls_visited ls)(n := g)\<rparr>"
  have new: "n \<notin> ?V" using False by (simp add: visited_nodes_def)
  obtain acc ls1 where o: "offer_layer ef (item_of dst st q n) ?ls = (acc, ls1)" by fastforce
  have V1: "visited_nodes g ls1 = insert n ?V" if "ls_visited ls1 = (ls_visited ls)(n := g)" for ls1
    using that by (auto simp: visited_nodes_def)
  have t: "topk PgturbohybridGraphFrontierGreater ef (image_mset (item_of dst st q) (mset_set ?V)) (ls_nearest ?ls) (ls_nearestCount ?ls)"
    using inv by (simp add: layer_inv_def nearest_ok_def)
  note s = offer_layer_spec [OF assms(1,2) t new o]
  have v: "visited_ok st inserted level start g ls1" if "ls_visited ls1 = (ls_visited ls)(n := g)" for ls1
    using inv False reach that V1 [OF that] by (auto simp: layer_inv_def visited_ok_def)
  have cn: "card (insert n ?V) \<le> bs_nodeCount st" using count_visited [OF v [of ls1]] V1 [of ls1] s by simp
  have fr: "frontier_ok dst st q ?V ls1" using inv s by (simp add: layer_inv_def frontier_ok_def)
  have old: "n' \<in> X \<or> item_of dst st q n' \<in> set (take (ls_frontierCount ls) (ls_frontier ls)) \<or> eligible st inserted level n' \<subseteq> ?V"
    if "item_of dst st q n' \<in> set (take (ls_nearestCount ls) (ls_nearest ls))" for n'
    using inv that by (simp add: layer_inv_def expanded_ok_def)
  show ?thesis
  proof (cases acc)
    case True
    obtain ls' where p: "push_frontier junk (bs_nodeCount st) (item_of dst st q n) ls1 = Inr ls'" "frontier_ok dst st q (insert n ?V) ls'"
      "set (take (ls_frontierCount ls') (ls_frontier ls')) = insert (item_of dst st q n) (set (take (ls_frontierCount ls1) (ls_frontier ls1)))"
      "ls_nearest ls' = ls_nearest ls1" "ls_nearestCount ls' = ls_nearestCount ls1" "ls_visited ls' = ls_visited ls1"
      using push_frontier_spec [OF assms(1) fr new cn] by blast
    have vis: "ls_visited ls' = (ls_visited ls)(n := g)" using p s by simp
    have "expanded_ok dst st q level inserted g X ls'"
      unfolding expanded_ok_def
    proof (intro allI impI)
      fix n' assume "item_of dst st q n' \<in> set (take (ls_nearestCount ls') (ls_nearest ls'))"
      then have "item_of dst st q n' \<in> insert (item_of dst st q n) (set (take (ls_nearestCount ls) (ls_nearest ls)))"
        using s p by auto
      then show "n' \<in> X \<or> item_of dst st q n' \<in> set (take (ls_frontierCount ls') (ls_frontier ls')) \<or>
          eligible st inserted level n' \<subseteq> visited_nodes g ls'"
        using old [of n'] p(3) s V1 [OF vis] by auto
    qed
    moreover have "nearest_ok dst st q ef g ls'" using s p V1 [OF vis] by (simp add: nearest_ok_def)
    moreover have "frontier_ok dst st q (visited_nodes g ls') ls'" using p(2) V1 [OF vis] by simp
    moreover have "visit_neighbor junk dst st q level ef inserted g n ls = Inr ls'"
      using False True o p(1) by (simp add: visit_neighbor_def)
    ultimately show ?thesis using v [OF vis] V1 [OF vis] by (auto simp: layer_inv_def)
  next
    case rejected: False
    have vis: "ls_visited ls1 = (ls_visited ls)(n := g)" using s by simp
    have "expanded_ok dst st q level inserted g X ls1"
      using old s rejected V1 [OF vis] unfolding expanded_ok_def by fastforce
    moreover have "nearest_ok dst st q ef g ls1" using s V1 [OF vis] by (simp add: nearest_ok_def)
    moreover have "frontier_ok dst st q (visited_nodes g ls1) ls1"
      by (rule frontier_ok_mono [OF fr]) (simp add: V1 [OF vis] subset_insertI)
    moreover have "visit_neighbor junk dst st q level ef inserted g n ls = Inr ls1"
      using False rejected o by (simp add: visit_neighbor_def)
    ultimately show ?thesis using v [OF vis] V1 [OF vis] by (auto simp: layer_inv_def)
  qed
qed

lemma visit_all:
  assumes "search_ok dst st" "0 < ef" "layer_inv dst st q level ef inserted start g X ls"
    and "\<forall>n \<in> set ns. (start, n) \<in> (level_edges st level)\<^sup>*"
  shows "\<exists>ls'. foldE (visit_neighbor junk dst st q level ef inserted g) ns ls = Inr ls' \<and> layer_inv dst st q level ef inserted start g X ls' \<and>
    visited_nodes g ls \<subseteq> visited_nodes g ls' \<and>
    (\<forall>n \<in> set ns. inserted n \<and> PgturbohybridGraphBuildNodeHasLevel st n level \<longrightarrow> n \<in> visited_nodes g ls')"
  using assms(3,4)
proof (induction ns arbitrary: ls)
  case (Cons n ns)
  obtain ls1 where 1: "visit_neighbor junk dst st q level ef inserted g n ls = Inr ls1" "layer_inv dst st q level ef inserted start g X ls1"
    "visited_nodes g ls \<subseteq> visited_nodes g ls1" "inserted n \<and> PgturbohybridGraphBuildNodeHasLevel st n level \<longrightarrow> n \<in> visited_nodes g ls1"
    using visit_step [OF assms(1,2) Cons.prems(1)] Cons.prems(2) by (metis list.set_intros(1))
  obtain ls2 where 2: "foldE (visit_neighbor junk dst st q level ef inserted g) ns ls1 = Inr ls2" "layer_inv dst st q level ef inserted start g X ls2"
    "visited_nodes g ls1 \<subseteq> visited_nodes g ls2"
    "\<forall>n \<in> set ns. inserted n \<and> PgturbohybridGraphBuildNodeHasLevel st n level \<longrightarrow> n \<in> visited_nodes g ls2"
    using Cons.IH [OF 1(2)] Cons.prems(2) by (meson list.set_intros(2))
  have "foldE (visit_neighbor junk dst st q level ef inserted g) (n # ns) ls = Inr ls2" using 1(1) 2(1) by simp
  moreover have "\<forall>n \<in> set (n # ns). inserted n \<and> PgturbohybridGraphBuildNodeHasLevel st n level \<longrightarrow> n \<in> visited_nodes g ls2"
    using 1(4) 2(3,4) by auto
  ultimately show ?case using 1(3) 2(2,3) by blast
qed simp


lemma pop_step:
  assumes ok: "search_ok dst st" and inv: "layer_inv dst st q level ef inserted start g {} ls"
    and pos: "0 < ls_frontierCount ls" and pop: "pop_frontier ls = (item, ls')"
  shows "layer_inv dst st q level ef inserted start g {nodeId item} ls' \<and> item = item_of dst st q (nodeId item) \<and>
    ls_nearest ls' = ls_nearest ls \<and> ls_nearestCount ls' = ls_nearestCount ls \<and> ls_visited ls' = ls_visited ls \<and>
    (\<forall>x \<in> set (take (ls_frontierCount ls') (ls_frontier ls')). \<not> PgturbohybridGraphFrontierLess x item) \<and>
    (start, nodeId item) \<in> (level_edges st level)\<^sup>*"
proof -
  let ?h = "ls_frontier ls" and ?n = "ls_frontierCount ls" and ?V = "visited_nodes g ls"
  have f: "heap_inv (frontier_before True) ?h ?n" "mset (take ?n ?h) \<subseteq># image_mset (item_of dst st q) (mset_set ?V)"
    using inv by (auto simp: layer_inv_def frontier_ok_def)
  note items = heap_ok_items [OF ok f(2)]
  have snd_pop: "snd (snd (heap_pop (frontier_before True) ?h ?n)) = ?n - 1" by (simp add: heap_pop_def Let_def)
  have p: "item = fst (heap_pop (frontier_before True) ?h ?n)"
      "ls' = ls\<lparr>ls_frontier := fst (snd (heap_pop (frontier_before True) ?h ?n)), ls_frontierCount := ?n - 1\<rparr>"
    using pop snd_pop by (auto simp: pop_frontier_def frontier_pop_heap_pop split_beta Let_def)
  have n: "?n \<le> length ?h" using f(1) by (simp add: heap_inv_def)
  let ?h' = "ls_frontier ls'" and ?n' = "ls_frontierCount ls'"
  have m: "add_mset item (mset (take ?n' ?h')) = mset (take ?n ?h)" using heap_pop_mset [OF pos n, of "frontier_before True"] p by simp
  then have set_h: "set (take ?n ?h) = insert item (set (take ?n' ?h'))" by (metis set_mset_add_mset_insert set_mset_mset)
  have "heap_inv (frontier_before True) ?h' ?n'" using fr.pop_heap [OF f(1) items(1) pos] p by simp
  moreover have "mset (take ?n' ?h') \<subseteq># image_mset (item_of dst st q) (mset_set ?V)"
    using m f(2) by (metis mset_subset_eq_add_right add_mset_add_single subset_mset.order_trans mset_subset_eq_add_left)
  moreover have "length ?h' = length ?h" using p n by (simp add: heap_pop_def Let_def)
  ultimately have fo: "frontier_ok dst st q ?V ls'" using inv p by (simp add: layer_inv_def frontier_ok_def)
  have it: "item = item_of dst st q (nodeId item)" using items(2) set_h by blast
  have vis: "visited_nodes g ls' = ?V" using p by (simp add: visited_nodes_def)
  have "expanded_ok dst st q level inserted g {nodeId item} ls'"
    unfolding expanded_ok_def vis
  proof (intro allI impI)
    fix k assume "item_of dst st q k \<in> set (take (ls_nearestCount ls') (ls_nearest ls'))"
    then have "item_of dst st q k \<in> set (take ?n ?h) \<or> eligible st inserted level k \<subseteq> ?V"
      using inv p by (simp add: layer_inv_def expanded_ok_def)
    moreover have "k = nodeId item" if "item_of dst st q k = item" using that by auto
    ultimately show "k \<in> {nodeId item} \<or> item_of dst st q k \<in> set (take ?n' ?h') \<or> eligible st inserted level k \<subseteq> ?V"
      unfolding set_h by blast
  qed
  then have "layer_inv dst st q level ef inserted start g {nodeId item} ls'"
    using inv fo p vis by (simp add: layer_inv_def nearest_ok_def visited_ok_def)
  moreover have "\<forall>x \<in> set (take ?n' ?h'). \<not> PgturbohybridGraphFrontierLess x item"
    using fr.pop_first [OF f(1) items(1)] set_h p(1) by (simp add: frontier_before_True)
  moreover have "(start, nodeId item) \<in> (level_edges st level)\<^sup>*"
    using items(2) set_h inv by (auto simp: layer_inv_def visited_ok_def)
  ultimately show ?thesis using it p by simp
qed

lemma layer_inv_done:
  assumes "layer_inv dst st q level ef inserted start g {n} ls" "eligible st inserted level n \<subseteq> visited_nodes g ls"
  shows "layer_inv dst st q level ef inserted start g {} ls"
  using assms by (auto simp: layer_inv_def expanded_ok_def)

definition layer_result :: "(u32 \<Rightarrow> u32 \<Rightarrow> cdouble) \<Rightarrow> build_state \<Rightarrow> u32 \<Rightarrow> nat \<Rightarrow> nat \<Rightarrow> (u32 \<Rightarrow> bool) \<Rightarrow> u32 \<Rightarrow> u32 \<Rightarrow> layer_state \<Rightarrow> bool" where
  "layer_result dst st q level ef inserted start g ls \<longleftrightarrow>
     nearest_ok dst st q ef g ls \<and> visited_ok st inserted level start g ls \<and>
     (\<forall>n. item_of dst st q n \<in> set (take (ls_nearestCount ls) (ls_nearest ls)) \<longrightarrow> eligible st inserted level n \<subseteq> visited_nodes g ls)"

lemma layer_stops:
  assumes ok: "search_ok dst st" "0 < ef" and inv: "layer_inv dst st q level ef inserted start g {nodeId item} ls"
    and item: "item = item_of dst st q (nodeId item)"
    and least: "\<forall>x \<in> set (take (ls_frontierCount ls) (ls_frontier ls)). \<not> PgturbohybridGraphFrontierLess x item"
    and stop: "ef \<le> ls_nearestCount ls" "PgturbohybridGraphFrontierGreater item (ls_nearest ls ! 0)"
  shows "layer_result dst st q level ef inserted start g ls"
proof -
  let ?near = "set (take (ls_nearestCount ls) (ls_nearest ls))" and ?root = "ls_nearest ls ! 0"
  have t: "topk PgturbohybridGraphFrontierGreater ef (image_mset (item_of dst st q) (mset_set (visited_nodes g ls))) (ls_nearest ls) (ls_nearestCount ls)"
    using inv by (simp add: layer_inv_def nearest_ok_def)
  have sub: "mset (take (ls_nearestCount ls) (ls_nearest ls)) \<subseteq># image_mset (item_of dst st q) (mset_set (visited_nodes g ls))"
    using t by (auto simp: topk_def)
  note near = heap_ok_items [OF ok(1) sub]
  have hi: "heap_inv (frontier_before False) (ls_nearest ls) (ls_nearestCount ls)" using t by (simp add: topk_def frontier_before_False)
  have worst: "\<not> PgturbohybridGraphFrontierLess ?root x" if "x \<in> ?near" for x
    using fr.root_first_set [OF hi near(1) that] by (simp add: frontier_before_False frontier_greater_less)
  have rootin: "?root \<in> ?near" using t stop(1) ok(2) by (intro set_take_nth) (auto simp: topk_def)
  have far: "PgturbohybridGraphFrontierLess ?root item" using stop(2) by (simp add: frontier_greater_less)
  have itemok: "distance item \<noteq> NaN" using item build_distance_ok [OF ok(1)] by (metis PgturbohybridGraphFrontierItem.select_convs(2))
  have "item_of dst st q n \<notin> set (take (ls_frontierCount ls) (ls_frontier ls))" if "item_of dst st q n \<in> ?near" for n
  proof
    let ?x = "item_of dst st q n"
    assume "?x \<in> set (take (ls_frontierCount ls) (ls_frontier ls))"
    then have "\<not> frontier_before True ?x item" using least by (simp add: frontier_before_True)
    moreover have "\<not> frontier_before True ?root ?x" using worst [OF that] by (simp add: frontier_before_True)
    moreover have "distance ?root \<noteq> NaN" "distance ?x \<noteq> NaN" using near(1) rootin that by blast+
    ultimately have "\<not> frontier_before True ?root item" using fr.before_negtrans itemok by blast
    then show False using far by (simp add: frontier_before_True)
  qed
  moreover have "n \<noteq> nodeId item" if "item_of dst st q n \<in> ?near" for n
    using worst [OF that] far item by auto
  ultimately have "\<forall>n. item_of dst st q n \<in> ?near \<longrightarrow> eligible st inserted level n \<subseteq> visited_nodes g ls"
    using inv unfolding layer_inv_def expanded_ok_def by blast
  then show ?thesis using inv by (simp add: layer_result_def layer_inv_def)
qed

lemma layer_loop_spec:
  assumes "search_ok dst st" "0 < ef" "layer_inv dst st q level ef inserted start g {} ls"
  shows "\<exists>ls'. layer_loop junk dst st q level ef inserted g ls = Inr ls' \<and> layer_result dst st q level ef inserted start g ls'"
  using assms
proof (induction junk dst st q level ef inserted g ls rule: layer_loop.induct)
  case (1 junk dst st q level ef inserted g ls)
  show ?case
  proof (cases "ls_frontierCount ls = 0")
    case True
    then have "layer_loop junk dst st q level ef inserted g ls = Inr ls" by (simp add: layer_loop.simps)
    moreover have "layer_result dst st q level ef inserted start g ls"
      using "1.prems"(3) True unfolding layer_inv_def expanded_ok_def layer_result_def by simp
    ultimately show ?thesis by blast
  next
    case False
    obtain item ls1 where p: "pop_frontier ls = (item, ls1)" by (cases "pop_frontier ls")
    have s: "layer_inv dst st q level ef inserted start g {nodeId item} ls1" "item = item_of dst st q (nodeId item)"
      "\<forall>x \<in> set (take (ls_frontierCount ls1) (ls_frontier ls1)). \<not> PgturbohybridGraphFrontierLess x item"
      and reach: "(start, nodeId item) \<in> (level_edges st level)\<^sup>*"
      using pop_step [OF "1.prems"(1,3) _ p] False by auto
    let ?stop = "ef \<le> ls_nearestCount ls1 \<and> PgturbohybridGraphFrontierGreater item (ls_nearest ls1 ! 0)"
    note unfold_loop = layer_loop.simps [of junk dst st q level ef inserted g ls]
    consider ?stop | "\<not> ?stop" "\<not> PgturbohybridGraphBuildNodeHasLevel st (nodeId item) level"
      | "\<not> ?stop" "PgturbohybridGraphBuildNodeHasLevel st (nodeId item) level" by blast
    then show ?thesis
    proof cases
      case 1
      then have "layer_loop junk dst st q level ef inserted g ls = Inr ls1" using False p unfold_loop by simp
      then show ?thesis using layer_stops [OF "1.prems"(1,2) s] 1 by blast
    next
      case 2
      have "eligible st inserted level (nodeId item) = {}" using 2(2) by (auto simp: eligible_def PgturbohybridGraphHasNeighbor_def)
      then have "layer_inv dst st q level ef inserted start g {} ls1" using layer_inv_done [OF s(1)] by simp
      then have "\<exists>ls'. layer_loop junk dst st q level ef inserted g ls1 = Inr ls' \<and> layer_result dst st q level ef inserted start g ls'"
        by (intro "1.IH"(1) [OF False p [symmetric] 2(1) 2(2) "1.prems"(1,2)])
      moreover have "layer_loop junk dst st q level ef inserted g ls = layer_loop junk dst st q level ef inserted g ls1"
        by (subst unfold_loop) (simp only: p prod.case if_not_P [OF False] if_not_P [OF 2(1)] if_P [OF 2(2)])
      ultimately show ?thesis by simp
    next
      case 3
      have "\<forall>n \<in> set (map nb_id (neighbors st (nodeId item) level)). (start, n) \<in> (level_edges st level)\<^sup>*"
        using reach 3(2) by (auto simp: level_edges_def PgturbohybridGraphHasNeighbor_def intro!: rtrancl_into_rtrancl [of start "nodeId item"])
      then obtain ls2 where v: "foldE (visit_neighbor junk dst st q level ef inserted g) (map nb_id (neighbors st (nodeId item) level)) ls1 = Inr ls2"
        "layer_inv dst st q level ef inserted start g {nodeId item} ls2"
        "\<forall>n \<in> set (map nb_id (neighbors st (nodeId item) level)). inserted n \<and> PgturbohybridGraphBuildNodeHasLevel st n level \<longrightarrow> n \<in> visited_nodes g ls2"
        using visit_all [OF "1.prems"(1,2) s(1)] by blast
      have "eligible st inserted level (nodeId item) \<subseteq> visited_nodes g ls2"
        using v(3) by (auto simp: eligible_def PgturbohybridGraphHasNeighbor_def)
      then have "layer_inv dst st q level ef inserted start g {} ls2" using layer_inv_done [OF v(2)] by simp
      then have "\<exists>ls'. layer_loop junk dst st q level ef inserted g ls2 = Inr ls' \<and> layer_result dst st q level ef inserted start g ls'"
        using 3 by (intro "1.IH"(2) [OF False p [symmetric] _ _ v(1) "1.prems"(1,2)]) simp_all
      moreover have "layer_loop junk dst st q level ef inserted g ls = layer_loop junk dst st q level ef inserted g ls2"
        by (subst unfold_loop) (simp only: p prod.case if_not_P [OF False] if_not_P [OF 3(1)] 3(2) v(1) sum.case not_True_eq_False if_False)
      ultimately show ?thesis by simp
    qed
  qed
qed


lemma count_mset_set_le_one: "count (mset_set A) a \<le> 1"
  by (cases "finite A \<and> a \<in> A") (auto simp: count_mset_set')

text \<open>No mark is ahead of the generation counter.\<close>

definition marks_ok :: "build_state \<Rightarrow> bool" where
  "marks_ok st \<longleftrightarrow> (\<forall>n. bs_visited st n \<le> bs_visitGeneration st)"

definition same_graph :: "build_state \<Rightarrow> build_state \<Rightarrow> bool" where
  "same_graph st st' \<longleftrightarrow> st'\<lparr>bs_visited := bs_visited st, bs_visitGeneration := bs_visitGeneration st\<rparr> = st"

lemma same_graph_simps:
  assumes "same_graph st st'"
  shows "bs_nodeCount st' = bs_nodeCount st" "bs_m st' = bs_m st" "bs_nodes st' = bs_nodes st" "bs_fastEdges st' = bs_fastEdges st"
proof -
  have "bs_nodes (st'\<lparr>bs_visited := bs_visited st, bs_visitGeneration := bs_visitGeneration st\<rparr>) = bs_nodes st"
    "bs_m (st'\<lparr>bs_visited := bs_visited st, bs_visitGeneration := bs_visitGeneration st\<rparr>) = bs_m st"
    "bs_fastEdges (st'\<lparr>bs_visited := bs_visited st, bs_visitGeneration := bs_visitGeneration st\<rparr>) = bs_fastEdges st"
    using assms by (simp_all add: same_graph_def)
  then show "bs_nodeCount st' = bs_nodeCount st" "bs_m st' = bs_m st" "bs_nodes st' = bs_nodes st" "bs_fastEdges st' = bs_fastEdges st"
    by (simp_all add: bs_nodeCount_def)
qed

lemma same_graph_defs:
  assumes "same_graph st st'"
  shows "PgturbohybridGraphBuildNodeHasLevel st' = PgturbohybridGraphBuildNodeHasLevel st"
    "neighbors st' = neighbors st" "PgturbohybridGraphHasNeighbor st' = PgturbohybridGraphHasNeighbor st"
    "PgturbohybridGraphBuildDistance d st' = PgturbohybridGraphBuildDistance d st"
    "level_edges st' = level_edges st" "eligible st' = eligible st" "graph_ok st' = graph_ok st" "search_ok d st' = search_ok d st"
proof -
  note s = same_graph_simps [OF assms]
  show 1: "PgturbohybridGraphBuildNodeHasLevel st' = PgturbohybridGraphBuildNodeHasLevel st"
    "neighbors st' = neighbors st" by (simp_all add: fun_eq_iff PgturbohybridGraphBuildNodeHasLevel_def neighbors_def node_at_def s)
  then show 2: "PgturbohybridGraphHasNeighbor st' = PgturbohybridGraphHasNeighbor st"
    by (simp add: fun_eq_iff PgturbohybridGraphHasNeighbor_def)
  show "PgturbohybridGraphBuildDistance d st' = PgturbohybridGraphBuildDistance d st"
    by (simp add: fun_eq_iff PgturbohybridGraphBuildDistance_def s)
  show "level_edges st' = level_edges st" "eligible st' = eligible st" using 1 2 by (simp_all add: fun_eq_iff level_edges_def eligible_def)
  show "graph_ok st' = graph_ok st" using 1 by (simp add: graph_ok_def list_ok_def s node_at_def)
  show "search_ok d st' = search_ok d st" by (simp add: search_ok_def s)
qed

lemma fresh_generation:
  assumes "marks_ok st" "next_visit_generation st = (g, st')"
  shows "same_graph st st'" "\<forall>n. bs_visited st' n \<noteq> g" "\<forall>n. bs_visited st' n \<le> g" "bs_visitGeneration st' = g"
proof -
  have less: "bs_visited st n < bs_visitGeneration st + 1" if "bs_visitGeneration st + 1 \<noteq> 0" for n
  proof -
    have "bs_visitGeneration st \<noteq> 0xFFFFFFFF" using that by auto
    then show ?thesis using assms(1) word_less_succ le_less_trans unfolding marks_ok_def by blast
  qed
  show "same_graph st st'" "bs_visitGeneration st' = g" using assms(2) by (auto simp: next_visit_generation_def Let_def same_graph_def split: if_splits)
  show "\<forall>n. bs_visited st' n \<noteq> g" "\<forall>n. bs_visited st' n \<le> g"
    using assms(2) less less_imp_neq [OF less] by (auto simp: next_visit_generation_def Let_def less_imp_le split: if_splits)
qed

lemma initial_capacity: "PgturbohybridGraphInitialFrontierCapacity n ef k m \<le> int n"
  by (simp add: PgturbohybridGraphInitialFrontierCapacity_def Let_def not_less)

text \<open>What a search of a level returns.\<close>

definition layer_answer :: "(u32 \<Rightarrow> u32 \<Rightarrow> cdouble) \<Rightarrow> build_state \<Rightarrow> u32 \<Rightarrow> nat \<Rightarrow> nat \<Rightarrow> (u32 \<Rightarrow> bool) \<Rightarrow> u32 \<Rightarrow> u32 set \<Rightarrow> frontier_item list \<Rightarrow> bool" where
  "layer_answer dst st q level ef inserted start V found \<longleftrightarrow>
     start \<in> V \<and> length found = min ef (card V) \<and> distinct (map nodeId found) \<and>
     (\<forall>n \<in> V. PgturbohybridGraphBuildNodeHasLevel st n level \<and> (n = start \<or> inserted n) \<and> (start, n) \<in> (level_edges st level)\<^sup>*) \<and>
     (\<forall>x \<in> set found. x = item_of dst st q (nodeId x) \<and> nodeId x \<in> V \<and> eligible st inserted level (nodeId x) \<subseteq> V) \<and>
     (\<forall>n \<in> V. n \<in> nodeId ` set found \<or> (\<forall>x \<in> set found. \<not> PgturbohybridGraphFrontierLess (item_of dst st q n) x))"

lemma layer_result_answer:
  assumes ok: "search_ok dst st" and r: "layer_result dst st q level ef inserted start g ls"
  shows "layer_answer dst st q level ef inserted start (visited_nodes g ls) (take (ls_nearestCount ls) (ls_nearest ls))"
proof -
  let ?V = "visited_nodes g ls" and ?found = "take (ls_nearestCount ls) (ls_nearest ls)"
  have t: "topk PgturbohybridGraphFrontierGreater ef (image_mset (item_of dst st q) (mset_set ?V)) (ls_nearest ls) (ls_nearestCount ls)"
    using r by (simp add: layer_result_def nearest_ok_def)
  then obtain D where D: "image_mset (item_of dst st q) (mset_set ?V) = mset ?found + D"
    "\<forall>d \<in># D. \<forall>x \<in> set ?found. \<not> PgturbohybridGraphFrontierGreater x d" by (auto simp: topk_def)
  have len: "length ?found = min ef (card ?V)" using topk_size [OF t] t by (simp add: topk_def min_def)
  have sub: "mset ?found \<subseteq># image_mset (item_of dst st q) (mset_set ?V)" using D(1) by simp
  note items = heap_ok_items [OF ok sub]
  have "mset (map nodeId ?found) \<subseteq># mset_set ?V"
    using image_mset_subseteq_mono [OF sub, of nodeId] by (simp add: image_mset.compositionality o_def)
  then have once: "count (mset (map nodeId ?found)) a \<le> 1" for a
    by (meson count_mset_set_le_one mset_subset_eq_count le_trans)
  have dist: "distinct (map nodeId ?found)"
    unfolding distinct_count_atmost_1
  proof
    fix a show "count (mset (map nodeId ?found)) a = (if a \<in> set (map nodeId ?found) then 1 else 0)"
    proof (cases "a \<in> set (map nodeId ?found)")
      case True
      then have "0 < count (mset (map nodeId ?found)) a" unfolding count_greater_zero_iff set_mset_mset .
      then have "count (mset (map nodeId ?found)) a = 1" using once [of a] by linarith
      then show ?thesis unfolding if_P [OF True] .
    next
      case False
      then show ?thesis unfolding if_not_P [OF False] count_mset_0_iff .
    qed
  qed
  have best: "n \<in> nodeId ` set ?found \<or> (\<forall>x \<in> set ?found. \<not> PgturbohybridGraphFrontierLess (item_of dst st q n) x)" if "n \<in> ?V" for n
  proof -
    have "item_of dst st q n \<in># mset ?found + D" unfolding D(1) [symmetric] using that by simp
    then consider "item_of dst st q n \<in> set ?found" | "item_of dst st q n \<in># D" by auto
    then show ?thesis
    proof cases
      case 1
      then have "n \<in> nodeId ` set ?found" by (metis image_eqI PgturbohybridGraphFrontierItem.select_convs(1))
      then show ?thesis by blast
    next
      case 2
      then show ?thesis using D(2) by (simp add: frontier_greater_less)
    qed
  qed
  have exp: "\<forall>x \<in> set ?found. eligible st inserted level (nodeId x) \<subseteq> ?V"
    using r items(2) unfolding layer_result_def by metis
  show ?thesis using len dist best items(2) exp r unfolding layer_answer_def layer_result_def visited_ok_def by blast
qed

lemma search_layer_spec:
  assumes ok: "search_ok dst st" "marks_ok st" "0 < ef" "ef \<le> length nearest"
    and entry: "PgturbohybridGraphBuildNodeHasLevel st (nodeId entry) level" "entry = item_of dst st q (nodeId entry)"
  shows "\<exists>nearest' k st' V. PgturbohybridGraphBuildSearchLayer junk dst st q entry level ef nearest inserted = Inr (nearest', k, st') \<and>
    k \<le> length nearest' \<and> ef \<le> length nearest' \<and> same_graph st st' \<and> marks_ok st' \<and>
    layer_answer dst st q level ef inserted (nodeId entry) V (take k nearest')"
proof -
  obtain g st1 where g: "next_visit_generation st = (g, st1)" by (cases "next_visit_generation st")
  note fresh = fresh_generation [OF ok(2) g]
  note sd = same_graph_defs [OF fresh(1)] and ss = same_graph_simps [OF fresh(1)]
  define capacity where "capacity = nat (PgturbohybridGraphInitialFrontierCapacity (bs_nodeCount st) (int ef) 1 (int (PgturbohybridGraphLevelM (bs_m st) level)))"
  define ls0 where "ls0 = \<lparr>ls_frontier = replicate capacity junk, ls_frontierCount = 0, ls_frontierCapacity = capacity,
      ls_nearest = nearest, ls_nearestCount = 0, ls_visited = (bs_visited st1)(nodeId entry := g)\<rparr>"
  obtain acc ls1 where o: "offer_layer ef entry ls0 = (acc, ls1)" by (cases "offer_layer ef entry ls0")
  have V0: "visited_nodes g ls0 = {nodeId entry}" using fresh(2) by (auto simp: visited_nodes_def ls0_def)
  have ok1: "search_ok dst st1" using ok(1) sd by simp
  have entry1: "entry = item_of dst st1 q (nodeId entry)" using entry(2) sd by simp
  have cap: "capacity \<le> bs_nodeCount st1" using initial_capacity ss by (simp add: capacity_def nat_le_iff)
  have "topk (frontier_before False) ef {#} nearest 0" using fr.topk_empty [OF ok(4)] .
  then have t0: "topk PgturbohybridGraphFrontierGreater ef (image_mset (item_of dst st1 q) (mset_set {})) (ls_nearest ls0) (ls_nearestCount ls0)"
    by (simp add: ls0_def frontier_before_False)
  have o': "offer_layer ef (item_of dst st1 q (nodeId entry)) ls0 = (acc, ls1)" using o entry1 by metis
  have "nodeId entry \<notin> {}" by simp
  note s = offer_layer_spec [OF ok1 ok(3) t0 this o']
  have t1: "nearest_ok dst st1 q ef g ls1" using s V0 by (simp add: nearest_ok_def visited_nodes_def)
  have "frontier_ok dst st1 q {} ls1" using s cap by (simp add: frontier_ok_def ls0_def heap_inv_def)
  moreover have "card (insert (nodeId entry) {}) \<le> bs_nodeCount st1"
    using entry(1) ss by (simp add: PgturbohybridGraphBuildNodeHasLevel_def)
  ultimately obtain ls2 where p: "push_frontier junk (bs_nodeCount st1) (item_of dst st1 q (nodeId entry)) ls1 = Inr ls2"
    "frontier_ok dst st1 q {nodeId entry} ls2"
    "set (take (ls_frontierCount ls2) (ls_frontier ls2)) = insert (item_of dst st1 q (nodeId entry)) (set (take (ls_frontierCount ls1) (ls_frontier ls1)))"
    "ls_nearest ls2 = ls_nearest ls1" "ls_nearestCount ls2 = ls_nearestCount ls1" "ls_visited ls2 = ls_visited ls1"
    using push_frontier_spec [OF ok1, of q "{}" ls1 "nodeId entry" junk] by auto
  have V2: "visited_nodes g ls2 = {nodeId entry}" using p s V0 by (simp add: visited_nodes_def)
  have "visited_ok st1 inserted level (nodeId entry) g ls2"
    using V2 entry(1) sd fresh(3) p(6) s by (simp add: visited_ok_def ls0_def)
  moreover have "nearest_ok dst st1 q ef g ls2" using t1 p V2 by (simp add: nearest_ok_def visited_nodes_def)
  moreover have "expanded_ok dst st1 q level inserted g {} ls2"
    using p s by (auto simp: expanded_ok_def ls0_def)
  ultimately have "layer_inv dst st1 q level ef inserted (nodeId entry) g {} ls2"
    using p(2) V2 by (simp add: layer_inv_def)
  from layer_loop_spec [OF ok1 ok(3) this]
  obtain ls3 where r: "layer_loop junk dst st1 q level ef inserted g ls2 = Inr ls3"
    "layer_result dst st1 q level ef inserted (nodeId entry) g ls3" by blast
  let ?st = "st1\<lparr>bs_visited := ls_visited ls3\<rparr>"
  have "PgturbohybridGraphBuildSearchLayer junk dst st q entry level ef nearest inserted =
      (case offer_layer ef entry ls0 of (_, ls) \<Rightarrow> bindE (push_frontier junk (bs_nodeCount st1) entry ls) (\<lambda>ls.
         bindE (layer_loop junk dst st1 q level ef inserted g ls) (\<lambda>ls. Inr (ls_nearest ls, ls_nearestCount ls, st1\<lparr>bs_visited := ls_visited ls\<rparr>))))"
    by (simp add: PgturbohybridGraphBuildSearchLayer_def g ls0_def capacity_def Let_def)
  also have "\<dots> = Inr (ls_nearest ls3, ls_nearestCount ls3, ?st)"
    using p(1) r(1) unfolding o entry1 [symmetric] by simp
  finally have run: "PgturbohybridGraphBuildSearchLayer junk dst st q entry level ef nearest inserted = Inr (ls_nearest ls3, ls_nearestCount ls3, ?st)" .
  have "layer_answer dst st1 q level ef inserted (nodeId entry) (visited_nodes g ls3) (take (ls_nearestCount ls3) (ls_nearest ls3))"
    using layer_result_answer [OF ok1 r(2)] .
  then have ans: "layer_answer dst st q level ef inserted (nodeId entry) (visited_nodes g ls3) (take (ls_nearestCount ls3) (ls_nearest ls3))"
    by (simp add: layer_answer_def sd)
  have "same_graph st ?st" using fresh(1) by (simp add: same_graph_def)
  moreover have "marks_ok ?st" using r(2) fresh(4) by (simp add: marks_ok_def layer_result_def visited_ok_def)
  moreover have "ls_nearestCount ls3 \<le> length (ls_nearest ls3)" "ef \<le> length (ls_nearest ls3)"
    using r(2) by (auto simp: layer_result_def nearest_ok_def topk_def)
  ultimately show ?thesis using run ans by blast
qed

section \<open>Properties\<close>

text \<open>
  C11. The greedy descent ends, for any distances: from a node of the level it follows edges of the
  level to a node at least as near to the query, the entry itself or an inserted one, none of whose
  inserted neighbors on the level is nearer.
\<close>

theorem greedy_search_local_minimum:
  assumes "PgturbohybridGraphBuildNodeHasLevel st entry level" "r = PgturbohybridGraphBuildGreedySearch dst st q entry level inserted"
  shows "(entry, nodeId r) \<in> (level_edges st level)\<^sup>* \<and> (nodeId r = entry \<or> inserted (nodeId r)) \<and>
    distance r = PgturbohybridGraphBuildDistance dst st q (nodeId r) \<and>
    \<not> dless (PgturbohybridGraphBuildDistance dst st q entry) (distance r) \<and>
    (\<forall>n. PgturbohybridGraphHasNeighbor st (nodeId r) n level \<and> inserted n \<and> PgturbohybridGraphBuildNodeHasLevel st n level \<longrightarrow>
      \<not> dless (PgturbohybridGraphBuildDistance dst st q n) (distance r))"
proof -
  let ?e = "\<lparr>nodeId = entry, distance = PgturbohybridGraphBuildDistance dst st q entry\<rparr>"
  have "PgturbohybridGraphBuildNodeHasLevel st (nodeId ?e) level" "distance ?e = PgturbohybridGraphBuildDistance dst st q (nodeId ?e)"
    "r = greedy_loop dst st q level inserted ?e" using assms by (simp_all add: PgturbohybridGraphBuildGreedySearch_def)
  from greedy_loop_spec [OF this] show ?thesis unfolding PgturbohybridGraphFrontierItem.select_convs by blast
qed

lemma chain_level: "PgturbohybridGraphBuildNodeHasLevel chain_graph 0 0"
  by (simp add: chain_graph_def bs_nodeCount_def)

theorem greedy_search_local_minimum_witness:
  "nodeId (PgturbohybridGraphBuildGreedySearch chain_distance chain_graph 0 0 0 (\<lambda>n. True)) = 2 \<and>
   (0, 2) \<in> (level_edges chain_graph 0)\<^sup>*"
proof -
  have r: "nodeId (PgturbohybridGraphBuildGreedySearch chain_distance chain_graph 0 0 0 (\<lambda>n. True)) = 2" by code_simp
  then show ?thesis using greedy_search_local_minimum [OF chain_level refl, of chain_distance 0 "\<lambda>n. True"] by simp
qed

text \<open>
  C2. The search of one level ends without an error, whatever the edges of the graph, as long as no distance is a NaN
  and a frontier of all its nodes can be allocated. There is a set \<open>V\<close> of visited nodes, all of them reached from the entry along edges
  of the level through inserted nodes, and the result is its \<open>ef\<close> nearest nodes, each once and with
  its distance. The result cannot be improved locally: every inserted neighbor of a returned node was visited, and so is
  returned as well or not nearer than any returned node. Only the visit marks of the build state change,
  and they are good for the next search.
\<close>

theorem search_layer_correct:
  assumes "search_ok dst st" "marks_ok st" "0 < ef" "ef \<le> length nearest" "PgturbohybridGraphBuildNodeHasLevel st (nodeId entry) level"
    and "distance entry = PgturbohybridGraphBuildDistance dst st q (nodeId entry)"
  shows "\<exists>nearest' k st' V. PgturbohybridGraphBuildSearchLayer junk dst st q entry level ef nearest inserted = Inr (nearest', k, st') \<and>
    nodeId entry \<in> V \<and> k = min ef (card V) \<and> k \<le> length nearest' \<and> distinct (map nodeId (take k nearest')) \<and>
    (\<forall>n \<in> V. PgturbohybridGraphBuildNodeHasLevel st n level \<and> (n = nodeId entry \<or> inserted n) \<and> (nodeId entry, n) \<in> (level_edges st level)\<^sup>*) \<and>
    (\<forall>x \<in> set (take k nearest'). nodeId x \<in> V \<and> distance x = PgturbohybridGraphBuildDistance dst st q (nodeId x) \<and>
      (\<forall>y. PgturbohybridGraphHasNeighbor st (nodeId x) y level \<and> inserted y \<and> PgturbohybridGraphBuildNodeHasLevel st y level \<longrightarrow> y \<in> V)) \<and>
    (\<forall>n \<in> V. n \<in> nodeId ` set (take k nearest') \<or> (\<forall>x \<in> set (take k nearest').
      \<not> PgturbohybridGraphFrontierLess \<lparr>nodeId = n, distance = PgturbohybridGraphBuildDistance dst st q n\<rparr> x)) \<and>
    same_graph st st' \<and> marks_ok st'"
proof -
  have e: "entry = item_of dst st q (nodeId entry)" using assms(6) by simp
  obtain nearest' k st' V where r: "PgturbohybridGraphBuildSearchLayer junk dst st q entry level ef nearest inserted = Inr (nearest', k, st')"
    "k \<le> length nearest'" "same_graph st st'" "marks_ok st'" and ans: "layer_answer dst st q level ef inserted (nodeId entry) V (take k nearest')"
    using search_layer_spec [OF assms(1-5) e] by blast
  have items: "nodeId x \<in> V \<and> distance x = PgturbohybridGraphBuildDistance dst st q (nodeId x) \<and>
      (\<forall>y. PgturbohybridGraphHasNeighbor st (nodeId x) y level \<and> inserted y \<and> PgturbohybridGraphBuildNodeHasLevel st y level \<longrightarrow> y \<in> V)"
    if x: "x \<in> set (take k nearest')" for x
  proof -
    have "x = item_of dst st q (nodeId x)" "nodeId x \<in> V" "eligible st inserted level (nodeId x) \<subseteq> V"
      using ans x unfolding layer_answer_def by blast+
    moreover from this(1) have "distance x = PgturbohybridGraphBuildDistance dst st q (nodeId x)"
      by (metis PgturbohybridGraphFrontierItem.select_convs(2))
    ultimately show ?thesis unfolding eligible_def by blast
  qed
  moreover have "k = min ef (card V)" using ans r(2) by (simp add: layer_answer_def)
  moreover note ans [unfolded layer_answer_def]
  ultimately show ?thesis
    by (intro exI [of _ nearest'] exI [of _ k] exI [of _ st'] exI [of _ V] conjI ballI r) blast+
qed

theorem search_layer_correct_witness:
  "\<exists>nearest' st' V. PgturbohybridGraphBuildSearchLayer \<lparr>nodeId = 0, distance = NaN\<rparr> chain_distance chain_graph 0 \<lparr>nodeId = 0, distance = Fin 3\<rparr> 0 2
     (replicate 2 \<lparr>nodeId = 0, distance = NaN\<rparr>) (\<lambda>n. True) = Inr (nearest', 2, st') \<and> nodeId ` set nearest' = {1, 2}"
proof -
  let ?e = "\<lparr>nodeId = 0, distance = Fin 3\<rparr> :: frontier_item" and ?j = "\<lparr>nodeId = 0, distance = NaN\<rparr> :: frontier_item"
  have s: "search_ok chain_distance chain_graph" "marks_ok chain_graph"
    by (simp_all add: search_ok_def chain_distance_def chain_graph_def fresh_graph_def bs_nodeCount_def sizeof_FrontierItem_def MaxAllocSize_def marks_ok_def)
  have d: "distance ?e = PgturbohybridGraphBuildDistance chain_distance chain_graph 0 (nodeId ?e)"
    by (simp add: PgturbohybridGraphBuildDistance_def chain_graph_def bs_nodeCount_def chain_distance_def)
  have l: "PgturbohybridGraphBuildNodeHasLevel chain_graph (nodeId ?e) 0" using chain_level by simp
  have n: "2 \<le> length (replicate 2 ?j)" by simp
  obtain nearest' k st' V where r: "PgturbohybridGraphBuildSearchLayer ?j chain_distance chain_graph 0 ?e 0 2 (replicate 2 ?j) (\<lambda>n. True) = Inr (nearest', k, st')"
    using search_layer_correct [OF s zero_less_numeral n l d, of ?j "\<lambda>n. True"] by (elim exE conjE) (rule that)
  have ev: "(case PgturbohybridGraphBuildSearchLayer ?j chain_distance chain_graph 0 ?e 0 2 (replicate 2 ?j) (\<lambda>n. True) of
      Inl _ \<Rightarrow> None | Inr (h, k, _) \<Rightarrow> Some (map nodeId h, k)) = Some ([1, 2], 2)"
    by code_simp
  then have h: "map nodeId nearest' = [1, 2]" "k = 2" using r by simp_all
  have "nodeId ` set nearest' = {1, 2}" using arg_cong [OF h(1), of set] by simp
  then show ?thesis using r h(2) by blast
qed

end
