(* ===== verification/Graph_Build_Edges.thy ===== *)
theory Graph_Build_Edges
  imports Graph_Build_Search
begin

text \<open>
  Building the graph in memory, the driver (\<open>pgturbohybrid_quant.c\<close>): the nodes of a segment are
  inserted in a mixed order, each linked on its levels to the neighbors chosen from a search, and
  the segments cover the nodes one after the other. Whether the vectors of two nodes are equal is the
  parameter \<open>equal_vectors\<close>. The arrays \<open>nearest\<close> and \<open>selected\<close> are allocated per range.
\<close>

lemma foldE_append: "foldE g (xs @ ys) s = bindE (foldE g xs s) (foldE g ys)"
proof (induction xs arbitrary: s)
  case (Cons x xs)
  then show ?case by (cases "g x s") simp_all
qed simp

section \<open>The order of insertion\<close>

record build_order_item =
  bo_nodeId :: u32
  bo_key :: u64

definition PgturbohybridGraphMix64 :: "u64 \<Rightarrow> u64" where
  "PgturbohybridGraphMix64 x =
     (let x = x + 0x9e3779b97f4a7c15;
          x = (x XOR drop_bit 30 x) * 0xbf58476d1ce4e5b9;
          x = (x XOR drop_bit 27 x) * 0x94d049bb133111eb
      in x XOR drop_bit 31 x)"

definition PgturbohybridGraphBuildOrderCompare :: "build_order_item \<Rightarrow> build_order_item \<Rightarrow> int" where
  "PgturbohybridGraphBuildOrderCompare a b =
     (if bo_key a < bo_key b then -1 else if bo_key b < bo_key a then 1
      else of_bool (bo_nodeId b < bo_nodeId a) - of_bool (bo_nodeId a < bo_nodeId b))"

definition PgturbohybridGraphAdjacentDuplicateCountRange :: "(u32 \<Rightarrow> u32 \<Rightarrow> bool) \<Rightarrow> nat \<Rightarrow> nat \<Rightarrow> nat" where
  "PgturbohybridGraphAdjacentDuplicateCountRange equal_vectors start stop =
     fold (\<lambda>i n. if equal_vectors (of_nat (i - 1)) (of_nat i) then n + 1 else n) [start + 1..<stop] 0"

definition build_order :: "bool \<Rightarrow> nat \<Rightarrow> nat \<Rightarrow> u32 list" where
  "build_order preserveScanOrder start stop =
     (let order = map (\<lambda>n. \<lparr>bo_nodeId = of_nat n, bo_key = PgturbohybridGraphMix64 (of_nat n)\<rparr>) [start..<stop]
      in map bo_nodeId (if preserveScanOrder then order
                        else qsort_by (\<lambda>a b. PgturbohybridGraphBuildOrderCompare a b < 0) order))"

section \<open>Inserting a node\<close>

record edges_state =
  es_build :: build_state
  es_nearest :: "frontier_item list"
  es_entryNodeId :: u32
  es_entryLevel :: nat
  es_inserted :: "u32 \<Rightarrow> bool"

definition descend_level :: "(u32 \<Rightarrow> u32 \<Rightarrow> cdouble) \<Rightarrow> build_state \<Rightarrow> u32 \<Rightarrow> (u32 \<Rightarrow> bool) \<Rightarrow> nat \<Rightarrow> frontier_item \<Rightarrow> frontier_item" where
  "descend_level d st i inserted level levelEntry =
     (if PgturbohybridGraphBuildNodeHasLevel st (nodeId levelEntry) level
      then PgturbohybridGraphBuildGreedySearch d st i (nodeId levelEntry) level inserted else levelEntry)"

definition link_selected :: "(u32 \<Rightarrow> u32 \<Rightarrow> cdouble) \<Rightarrow> u32 \<Rightarrow> nat \<Rightarrow> frontier_item list \<Rightarrow> u32 list \<Rightarrow> build_state \<Rightarrow> build_state" where
  "link_selected d i level cs selected st =
     fold (\<lambda>s st. PgturbohybridGraphAddNeighbor d st s i level (PgturbohybridGraphCandidateDistance cs s)) selected
       (set_neighbors st i level (with_distances cs selected))"

definition link_level :: "frontier_item \<Rightarrow> (u32 \<Rightarrow> u32 \<Rightarrow> cdouble) \<Rightarrow> nat \<Rightarrow> u32 \<Rightarrow> (u32 \<Rightarrow> bool) \<Rightarrow> nat \<Rightarrow>
    build_state \<times> frontier_item list \<times> frontier_item \<Rightarrow> (build_state \<times> frontier_item list \<times> frontier_item) res" where
  "link_level junk d ef i inserted level = (\<lambda>(st, nearest, levelEntry).
     if \<not> PgturbohybridGraphBuildNodeHasLevel st (nodeId levelEntry) level then Inr (st, nearest, levelEntry)
     else bindE (PgturbohybridGraphBuildSearchLayer junk d st i levelEntry level ef nearest inserted) (\<lambda>(nearest, k, st).
       let (cs, selected) = PgturbohybridGraphSelectNeighbors d st i (take k nearest) level;
           st = link_selected d i level cs selected st;
           sorted = (if k > 0 then qsort_by PgturbohybridGraphFrontierLess cs else cs);
           levelEntry = (if k > 0 then sorted ! 0 else levelEntry)
       in Inr (st, sorted @ drop k nearest, levelEntry)))"

definition insert_node :: "frontier_item \<Rightarrow> (u32 \<Rightarrow> u32 \<Rightarrow> cdouble) \<Rightarrow> nat \<Rightarrow> nat \<Rightarrow> bool \<Rightarrow> u32 \<Rightarrow> edges_state \<Rightarrow> edges_state res" where
  "insert_node junk d ef start preserveScanOrder i es =
     (let st = es_build es; nodeLevel = bn_level (node_at st i); entryLevel = es_entryLevel es;
          linkingLevel = min nodeLevel entryLevel;
          finish = (\<lambda>st nearest. es\<lparr>es_build := st, es_nearest := nearest,
             es_entryNodeId := (if nodeLevel > entryLevel then i else es_entryNodeId es),
             es_entryLevel := (if nodeLevel > entryLevel then nodeLevel else entryLevel),
             es_inserted := (es_inserted es)(i := True)\<rparr>)
      in if preserveScanOrder \<and> unat i > start \<and> es_inserted es (i - 1)
         then Inr (finish (PgturbohybridGraphLinkAdjacentBuildNode d st i (i - 1)) (es_nearest es))
         else
           let levelEntry = \<lparr>nodeId = es_entryNodeId es, distance = PgturbohybridGraphBuildDistance d st i (es_entryNodeId es)\<rparr>;
               levelEntry = fold (descend_level d st i (es_inserted es)) (rev [nodeLevel + 1..<entryLevel + 1]) levelEntry
           in bindE (foldE (link_level junk d ef i (es_inserted es)) (rev [0..<linkingLevel + 1]) (st, es_nearest es, levelEntry))
                (\<lambda>(st, nearest, _). Inr (finish st nearest)))"

section \<open>A segment\<close>

record segment_meta =
  sg_startNodeId :: nat
  sg_nodeCount :: nat
  sg_entryNodeId :: u32
  sg_entryLevel :: nat

text \<open>The range \<open>start\<close> to \<open>stop\<close>; what it writes to its segment is returned beside the state.\<close>

definition PgturbohybridGraphBuildEdgesRange :: "frontier_item \<Rightarrow> (u32 \<Rightarrow> u32 \<Rightarrow> cdouble) \<Rightarrow> (u32 \<Rightarrow> u32 \<Rightarrow> bool) \<Rightarrow>
    nat \<Rightarrow> nat \<Rightarrow> build_state \<Rightarrow> (segment_meta option \<times> build_state) res" where
  "PgturbohybridGraphBuildEdgesRange junk d equal_vectors start stop st =
     (let ef = max (bs_efConstruction st) (PgturbohybridGraphLevelM (bs_m st) 0); rangeNodeCount = stop - start in
      if rangeNodeCount = 0 then Inr (None, st)
      else
        let preserveScanOrder = (PgturbohybridGraphAdjacentDuplicateCountRange equal_vectors start stop > rangeNodeCount div 2);
            order = build_order preserveScanOrder start stop;
            entry = order ! 0;
            es = \<lparr>es_build = st\<lparr>bs_visited := (\<lambda>_. 0), bs_visitGeneration := 0\<rparr>, es_nearest = replicate ef junk,
                  es_entryNodeId = entry, es_entryLevel = bn_level (node_at st entry), es_inserted = (\<lambda>n. n = entry)\<rparr>
        in bindE (foldE (insert_node junk d ef start preserveScanOrder) (drop 1 order) es) (\<lambda>es.
           let st = es_build es
           in Inr (Some \<lparr>sg_startNodeId = start, sg_nodeCount = rangeNodeCount, sg_entryNodeId = es_entryNodeId es, sg_entryLevel = es_entryLevel es\<rparr>,
                if bs_segmentCount st \<le> 1 \<or> int (es_entryLevel es) > bs_maxLevel st
                then st\<lparr>bs_entryNodeId := es_entryNodeId es, bs_maxLevel := int (es_entryLevel es)\<rparr> else st)))"

section \<open>All segments\<close>

definition PGTURBOHYBRID_GRAPH_MAX_NATIVE_SEGMENTS :: int where "PGTURBOHYBRID_GRAPH_MAX_NATIVE_SEGMENTS = 16"

text \<open>
  \<open>nativeSegments\<close> is the index option, \<open>None\<close> without options; \<open>qualitySensitive\<close> stands for the
  test of the profile and of the build distance settings.
\<close>

definition PgturbohybridGraphGetNativeSegments :: "bool \<Rightarrow> int option \<Rightarrow> bool \<Rightarrow> int \<Rightarrow> int" where
  "PgturbohybridGraphGetNativeSegments isIndex nativeSegments qualitySensitive max_parallel_maintenance_workers =
     (if \<not> isIndex then 1
      else let segments = (case nativeSegments of Some n \<Rightarrow> n | None \<Rightarrow> 1) in
        if segments = 0 \<and> qualitySensitive then 1
        else let segments = (if segments = 0 then max 1 max_parallel_maintenance_workers else segments)
             in max 1 (min segments PGTURBOHYBRID_GRAPH_MAX_NATIVE_SEGMENTS))"

definition segment_size :: "nat \<Rightarrow> nat \<Rightarrow> nat \<Rightarrow> nat" where
  "segment_size nodeCount segmentCount idx =
     nodeCount div segmentCount + (if idx < nodeCount mod segmentCount then 1 else 0)"

definition PgturbohybridGraphBuildEdges :: "frontier_item \<Rightarrow> (u32 \<Rightarrow> u32 \<Rightarrow> cdouble) \<Rightarrow> (u32 \<Rightarrow> u32 \<Rightarrow> bool) \<Rightarrow>
    int \<Rightarrow> build_state \<Rightarrow> (segment_meta list \<times> build_state) res" where
  "PgturbohybridGraphBuildEdges junk d equal_vectors requestedSegments st =
     (if bs_nodeCount st = 0 then Inr ([], st)
      else let segmentCount = max (unat (ucast (min (of_int requestedSegments :: u32) (of_nat (bs_nodeCount st))) :: u16)) 1;
               st = st\<lparr>bs_segmentCount := segmentCount, bs_entryNodeId := 0, bs_maxLevel := -1\<rparr>
           in bindE (foldE (\<lambda>idx (start, segments, st).
                let stop = start + segment_size (bs_nodeCount st) segmentCount idx
                in bindE (PgturbohybridGraphBuildEdgesRange junk d equal_vectors start stop st) (\<lambda>(segment, st).
                   Inr (stop, segments @ (case segment of None \<Rightarrow> [] | Some s \<Rightarrow> [s]), st)))
              [0..<segmentCount] (0, [], st)) (\<lambda>(_, segments, st). Inr (segments, st)))"


section \<open>What a step of the build may change\<close>

text \<open>
  The shape of the graph stays. Only the lists of the nodes of \<open>A\<close> change, and what they gain is in \<open>A\<close>.
\<close>

definition grows :: "u32 set \<Rightarrow> build_state \<Rightarrow> build_state \<Rightarrow> bool" where
  "grows A st st' \<longleftrightarrow> bs_nodeCount st' = bs_nodeCount st \<and> bs_m st' = bs_m st \<and> bs_efConstruction st' = bs_efConstruction st \<and>
     (\<forall>n. bn_level (node_at st' n) = bn_level (node_at st n)) \<and>
     (\<forall>n l. PgturbohybridGraphBuildNodeHasLevel st n l \<longrightarrow> (n \<notin> A \<longrightarrow> neighbors st' n l = neighbors st n l) \<and>
        nb_id ` set (neighbors st' n l) \<subseteq> nb_id ` set (neighbors st n l) \<union> A)"

definition step_ok :: "u32 set \<Rightarrow> build_state \<Rightarrow> build_state \<Rightarrow> bool" where
  "step_ok A st st' \<longleftrightarrow> graph_ok st' \<and> marks_ok st' \<and> grows A st st' \<and> bs_segmentCount st' = bs_segmentCount st \<and>
     bs_maxLevel st' = bs_maxLevel st \<and> bs_entryNodeId st' = bs_entryNodeId st"

lemma grows_has_level:
  "grows A st st' \<Longrightarrow> PgturbohybridGraphBuildNodeHasLevel st' = PgturbohybridGraphBuildNodeHasLevel st"
  by (simp add: grows_def fun_eq_iff PgturbohybridGraphBuildNodeHasLevel_def)

lemma grows_distance:
  "grows A st st' \<Longrightarrow> PgturbohybridGraphBuildDistance d st' = PgturbohybridGraphBuildDistance d st \<and> search_ok d st' = search_ok d st"
  by (simp add: grows_def fun_eq_iff PgturbohybridGraphBuildDistance_def search_ok_def)

lemma grows_trans:
  assumes "grows A st st'" "grows A st' st''"
  shows "grows A st st''"
proof -
  have "(n \<notin> A \<longrightarrow> neighbors st'' n l = neighbors st n l) \<and> nb_id ` set (neighbors st'' n l) \<subseteq> nb_id ` set (neighbors st n l) \<union> A"
    if "PgturbohybridGraphBuildNodeHasLevel st n l" for n l
  proof -
    have "PgturbohybridGraphBuildNodeHasLevel st' n l" using that grows_has_level [OF assms(1)] by simp
    then have "(n \<notin> A \<longrightarrow> neighbors st'' n l = neighbors st' n l) \<and> nb_id ` set (neighbors st'' n l) \<subseteq> nb_id ` set (neighbors st' n l) \<union> A"
      using assms(2) by (simp add: grows_def)
    moreover have "(n \<notin> A \<longrightarrow> neighbors st' n l = neighbors st n l) \<and> nb_id ` set (neighbors st' n l) \<subseteq> nb_id ` set (neighbors st n l) \<union> A"
      using that assms(1) by (simp add: grows_def)
    ultimately have e: "n \<notin> A \<longrightarrow> neighbors st'' n l = neighbors st n l" and
      s: "nb_id ` set (neighbors st'' n l) \<subseteq> nb_id ` set (neighbors st' n l) \<union> A"
      "nb_id ` set (neighbors st' n l) \<subseteq> nb_id ` set (neighbors st n l) \<union> A" by simp_all
    from s(2) have "nb_id ` set (neighbors st' n l) \<union> A \<subseteq> nb_id ` set (neighbors st n l) \<union> A" by simp
    with s(1) show ?thesis using e by (meson subset_trans)
  qed
  then show ?thesis using assms by (simp add: grows_def)
qed

lemma step_refl: "graph_ok st \<Longrightarrow> marks_ok st \<Longrightarrow> step_ok A st st"
  by (simp add: step_ok_def grows_def)

lemma step_trans:
  assumes "step_ok A st st'" "step_ok A st' st''"
  shows "step_ok A st st''"
proof -
  have "grows A st st'" "grows A st' st''" using assms by (simp_all add: step_ok_def)
  then have "grows A st st''" by (rule grows_trans)
  then show ?thesis using assms by (simp add: step_ok_def)
qed

lemma set_step:
  assumes "graph_ok st" "marks_ok st" "PgturbohybridGraphBuildNodeHasLevel st n l" "n \<in> A" "list_ok st n l ns"
    and "nb_id ` set ns \<subseteq> nb_id ` set (neighbors st n l) \<union> A"
  shows "step_ok A st (set_neighbors st n l ns)"
proof -
  have "bn_level (node_at (set_neighbors st n l ns) k) = bn_level (node_at st k)" for k
    using assms(3) by (simp add: node_at_set PgturbohybridGraphBuildNodeHasLevel_def)
  moreover have "(k \<notin> A \<longrightarrow> neighbors (set_neighbors st n l ns) k lv = neighbors st k lv) \<and>
      nb_id ` set (neighbors (set_neighbors st n l ns) k lv) \<subseteq> nb_id ` set (neighbors st k lv) \<union> A" for k lv
    using assms(4,6) neighbors_set [OF assms(1,3), of ns k lv] by (cases "k = n \<and> lv = l") auto
  ultimately have "grows A st (set_neighbors st n l ns)" by (simp add: grows_def) (simp add: set_neighbors_def)
  moreover have "marks_ok (set_neighbors st n l ns)" using assms(2) by (simp add: marks_ok_def set_neighbors_def)
  ultimately show ?thesis using graph_ok_set [OF assms(1,3,5)] by (simp add: step_ok_def) (simp add: set_neighbors_def)
qed

lemma add_step:
  assumes "graph_ok st" "marks_ok st" "src \<in> A" "dst \<in> A"
  shows "step_ok A st (PgturbohybridGraphAddNeighbor d st src dst level x)"
  using add_neighbor_list [OF assms(1), of d src dst level x]
proof
  assume "\<exists>ns'. PgturbohybridGraphAddNeighbor d st src dst level x = set_neighbors st src level ns' \<and>
      PgturbohybridGraphBuildNodeHasLevel st src level \<and> list_ok st src level ns' \<and>
      nb_id ` set ns' \<subseteq> insert dst (nb_id ` set (neighbors st src level))"
  then obtain ns' where n: "PgturbohybridGraphAddNeighbor d st src dst level x = set_neighbors st src level ns'"
    "PgturbohybridGraphBuildNodeHasLevel st src level" "list_ok st src level ns'"
    "nb_id ` set ns' \<subseteq> insert dst (nb_id ` set (neighbors st src level))" by blast
  have "nb_id ` set ns' \<subseteq> nb_id ` set (neighbors st src level) \<union> A" using n(4) assms(4) by blast
  then show ?thesis using set_step [OF assms(1,2) n(2) assms(3) n(3)] n(1) by simp
qed (simp add: step_refl assms)

lemma add_if_room_step:
  assumes "graph_ok st" "marks_ok st" "src \<in> A" "dst \<in> A"
  shows "step_ok A st (PgturbohybridGraphAddNeighborIfRoom st src dst level x)"
proof (cases "edge_addable st src dst level \<and> length (neighbors st src level) < PgturbohybridGraphLevelM (bs_m st) level")
  case True
  let ?ns = "neighbors st src level @ [\<lparr>nb_id = dst, nb_distance = x\<rparr>]"
  have "nb_id ` set ?ns \<subseteq> nb_id ` set (neighbors st src level) \<union> A" using assms(4) by auto
  from True have t: "edge_addable st src dst level" "length (neighbors st src level) < PgturbohybridGraphLevelM (bs_m st) level" by blast+
  have "step_ok A st (set_neighbors st src level ?ns)"
    by (rule set_step [OF assms(1,2) addableD(2) [OF t(1)] assms(3) list_ok_snoc [OF assms(1) t] \<open>nb_id ` set ?ns \<subseteq> _\<close>])
  then show ?thesis using t by (simp add: PgturbohybridGraphAddNeighborIfRoom_def)
qed (auto simp: PgturbohybridGraphAddNeighborIfRoom_def not_less step_refl assms)

lemma link_adjacent_step:
  assumes "graph_ok st" "marks_ok st" "n \<in> A" "prev \<in> A" "n \<noteq> prev" "0 < bs_m st"
  shows "step_ok A st (PgturbohybridGraphLinkAdjacentBuildNode d st n prev)"
proof (cases "PgturbohybridGraphBuildNodeHasLevel st n 0 \<and> PgturbohybridGraphBuildNodeHasLevel st prev 0")
  case True
  let ?ns = "[\<lparr>nb_id = prev, nb_distance = PgturbohybridGraphBuildDistance d st n prev\<rparr>]"
  have "list_ok st n 0 ?ns" using True assms by (simp add: list_ok_def PgturbohybridGraphLevelM_def)
  then have s: "step_ok A st (set_neighbors st n 0 ?ns)" using True assms by (intro set_step) auto
  then have "step_ok A (set_neighbors st n 0 ?ns) (PgturbohybridGraphAddNeighborIfRoom (set_neighbors st n 0 ?ns) prev n 0
      (PgturbohybridGraphBuildDistance d st prev n))"
    by (intro add_if_room_step assms(3,4)) (simp_all add: step_ok_def)
  then show ?thesis using step_trans [OF s] True by (simp add: PgturbohybridGraphLinkAdjacentBuildNode_def)
qed (auto simp: PgturbohybridGraphLinkAdjacentBuildNode_def step_refl assms)

lemma search_step:
  assumes "graph_ok st" "same_graph st st'" "marks_ok st'"
  shows "step_ok A st st'"
proof -
  let ?st = "st'\<lparr>bs_visited := bs_visited st, bs_visitGeneration := bs_visitGeneration st\<rparr>"
  have "?st = st" using assms(2) by (simp add: same_graph_def)
  then have "bs_efConstruction ?st = bs_efConstruction st" "bs_segmentCount ?st = bs_segmentCount st"
    "bs_maxLevel ?st = bs_maxLevel st" "bs_entryNodeId ?st = bs_entryNodeId st" by simp_all
  then show ?thesis
    using assms same_graph_simps [OF assms(2)] same_graph_defs [OF assms(2)] by (simp add: step_ok_def grows_def node_at_def)
qed

lemma link_selected_step:
  assumes "graph_ok st" "marks_ok st" "PgturbohybridGraphBuildNodeHasLevel st i level" "i \<in> A" "set selected \<subseteq> A"
    and "list_ok st i level (with_distances cs selected)"
  shows "step_ok A st (link_selected d i level cs selected st)"
proof -
  have "nb_id ` set (with_distances cs selected) = set selected" by (metis ids_with_distances list.set_map)
  then have s: "step_ok A st (set_neighbors st i level (with_distances cs selected))" (is "step_ok A st ?st")
    using assms by (intro set_step) auto
  have "step_ok A st' (fold (\<lambda>s st. PgturbohybridGraphAddNeighbor d st s i level (PgturbohybridGraphCandidateDistance cs s)) xs st')"
    if "set xs \<subseteq> A" "graph_ok st'" "marks_ok st'" for xs st'
    using that
  proof (induction xs arbitrary: st')
    case (Cons x xs)
    have a: "step_ok A st' (PgturbohybridGraphAddNeighbor d st' x i level (PgturbohybridGraphCandidateDistance cs x))"
      using Cons.prems assms(4) by (intro add_step) auto
    show ?case using step_trans [OF a Cons.IH] a Cons.prems(1) by (simp add: step_ok_def)
  qed (simp add: step_refl)
  from step_trans [OF s this [OF assms(5)]] s show ?thesis by (simp add: link_selected_def step_ok_def)
qed

section \<open>Inserting a node keeps the graph well-formed\<close>

lemma link_level_step:
  assumes ok: "graph_ok st" "marks_ok st" "search_ok d st" "0 < ef" "ef \<le> length nearest"
    and i: "PgturbohybridGraphBuildNodeHasLevel st i level" "i \<in> A" and A: "nodeId e \<in> A" "{n. inserted n} \<subseteq> A"
    and e: "e = item_of d st i (nodeId e)"
  shows "\<exists>st' nearest' e'. link_level junk d ef i inserted level (st, nearest, e) = Inr (st', nearest', e') \<and>
    step_ok A st st' \<and> ef \<le> length nearest' \<and> e' = item_of d st i (nodeId e') \<and> nodeId e' \<in> A"
proof (cases "PgturbohybridGraphBuildNodeHasLevel st (nodeId e) level")
  case False
  then show ?thesis using ok A(1) e by (auto simp: link_level_def step_refl)
next
  case True
  obtain near k st1 V where r: "PgturbohybridGraphBuildSearchLayer junk d st i e level ef nearest inserted = Inr (near, k, st1)"
    "k \<le> length near" "ef \<le> length near" "same_graph st st1" "marks_ok st1"
    and ans: "layer_answer d st i level ef inserted (nodeId e) V (take k near)"
    using search_layer_spec [OF ok(3,2,4,5) True e] by blast
  let ?found = "take k near"
  have "\<forall>n \<in> V. n = nodeId e \<or> inserted n" using ans unfolding layer_answer_def by blast
  then have VA: "V \<subseteq> A" using A by auto
  have found: "distinct (map nodeId ?found)" "\<forall>x \<in> set ?found. x = item_of d st i (nodeId x) \<and> nodeId x \<in> V"
    using ans unfolding layer_answer_def by blast+
  obtain cs selected where sel: "PgturbohybridGraphSelectNeighbors d st1 i ?found level = (cs, selected)"
    by (cases "PgturbohybridGraphSelectNeighbors d st1 i ?found level")
  note f = select_neighbors_facts [OF found(1) sel]
  have sub: "set selected \<subseteq> V - {i}" using f(5) found(2) by auto
  have lev: "PgturbohybridGraphBuildNodeHasLevel st n level" if "n \<in> V" for n using ans that by (simp add: layer_answer_def)
  have set_sel: "nb_id ` set (with_distances cs selected) = set selected" by (metis ids_with_distances list.set_map)
  have lo: "list_ok st1 i level (with_distances cs selected)"
    unfolding list_ok_def ids_with_distances set_sel using f(2,4) sub lev same_graph_simps [OF r(4)] same_graph_defs [OF r(4)]
    by (auto simp: with_distances_def)
  have s1: "step_ok A st st1" by (rule search_step [OF ok(1) r(4,5)])
  have "step_ok A st1 (link_selected d i level cs selected st1)"
    using s1 i sub VA lo same_graph_defs [OF r(4)] by (intro link_selected_step) (auto simp: step_ok_def)
  then have s2: "step_ok A st (link_selected d i level cs selected st1)" by (rule step_trans [OF s1])
  define sorted where "sorted = (if k > 0 then qsort_by PgturbohybridGraphFrontierLess cs else cs)"
  define e' where "e' = (if k > 0 then sorted ! 0 else e)"
  have "mset sorted = mset ?found" using f(1) by (simp add: sorted_def)
  then have ls: "length sorted = k" "set sorted = set ?found" using r(2) mset_eq_length mset_eq_setD by (fastforce, blast)
  have "e' = item_of d st i (nodeId e') \<and> nodeId e' \<in> A"
  proof (cases "k > 0")
    case True
    then have "sorted ! 0 \<in> set ?found" using ls by (metis nth_mem)
    then show ?thesis using found(2) VA True unfolding e'_def by auto
  qed (use e A in \<open>auto simp: e'_def\<close>)
  moreover have "link_level junk d ef i inserted level (st, nearest, e) =
      Inr (link_selected d i level cs selected st1, sorted @ drop k near, e')"
    using True r(1) sel by (simp add: link_level_def sorted_def e'_def Let_def)
  moreover have "ef \<le> length (sorted @ drop k near)" using r(2,3) ls by simp
  ultimately show ?thesis using s2 by blast
qed

lemma descend_ok:
  assumes "e = item_of d st i (nodeId e)" "nodeId e \<in> A" "{n. inserted n} \<subseteq> A"
  shows "fold (descend_level d st i inserted) levels e = item_of d st i (nodeId (fold (descend_level d st i inserted) levels e)) \<and>
    nodeId (fold (descend_level d st i inserted) levels e) \<in> A"
  using assms(1,2)
proof (induction levels arbitrary: e)
  case (Cons l levels)
  let ?e = "descend_level d st i inserted l e"
  have "?e = item_of d st i (nodeId ?e) \<and> nodeId ?e \<in> A"
  proof (cases "PgturbohybridGraphBuildNodeHasLevel st (nodeId e) l")
    case True
    have "?e = greedy_loop d st i l inserted e" using True Cons.prems(1) by (simp add: descend_level_def PgturbohybridGraphBuildGreedySearch_def)
    moreover have "distance e = PgturbohybridGraphBuildDistance d st i (nodeId e)"
      using Cons.prems(1) by (metis PgturbohybridGraphFrontierItem.select_convs(2))
    ultimately have "distance ?e = PgturbohybridGraphBuildDistance d st i (nodeId ?e)" "nodeId ?e = nodeId e \<or> inserted (nodeId ?e)"
      using greedy_loop_spec [OF True] by blast+
    then show ?thesis using Cons.prems(2) assms(3) by auto
  qed (use Cons.prems in \<open>simp add: descend_level_def\<close>)
  then show ?case using Cons.IH by simp
qed simp


lemma levels_ok:
  assumes "\<forall>l \<in> set levels. PgturbohybridGraphBuildNodeHasLevel st i l"
    and ok: "graph_ok st" "marks_ok st" "search_ok d st" "0 < ef" "ef \<le> length nearest"
    and i: "i \<in> A" and A: "nodeId e \<in> A" "{n. inserted n} \<subseteq> A" and e: "e = item_of d st i (nodeId e)"
  shows "\<exists>st' nearest' e'. foldE (link_level junk d ef i inserted) levels (st, nearest, e) = Inr (st', nearest', e') \<and>
    step_ok A st st' \<and> ef \<le> length nearest'"
proof -
  let ?I = "\<lambda>(st', nearest' :: frontier_item list, e'). step_ok A st st' \<and> ef \<le> length nearest' \<and> e' = item_of d st i (nodeId e') \<and> nodeId e' \<in> A"
  have "\<exists>s'. foldE (link_level junk d ef i inserted) levels (st, nearest, e) = Inr s' \<and> ?I s'"
  proof (rule foldE_invariant)
    show "?I (st, nearest, e)" using ok A e step_refl by (simp del: PgturbohybridGraphFrontierItem.equality)
  next
    fix l s assume l: "l \<in> set levels" and I: "?I s"
    obtain st1 near1 e1 where s: "s = (st1, near1, e1)" by (cases s)
    have st1: "step_ok A st st1" "ef \<le> length near1" "e1 = item_of d st i (nodeId e1)" "nodeId e1 \<in> A"
      using I unfolding s prod.case by blast+
    have g: "grows A st st1" using st1(1) by (simp add: step_ok_def)
    have "graph_ok st1" "marks_ok st1" "search_ok d st1" "PgturbohybridGraphBuildNodeHasLevel st1 i l" "e1 = item_of d st1 i (nodeId e1)"
      using st1 ok(3) assms(1) l grows_distance [OF g, of d] grows_has_level [OF g] by (simp_all add: step_ok_def)
    from link_level_step [OF this(1-3) ok(4) st1(2) this(4) i st1(4) A(2) this(5)]
    obtain st2 near2 e2 where r: "link_level junk d ef i inserted l (st1, near1, e1) = Inr (st2, near2, e2)"
      "step_ok A st1 st2" "ef \<le> length near2" "e2 = item_of d st1 i (nodeId e2)" "nodeId e2 \<in> A" by blast
    have "e2 = item_of d st i (nodeId e2)" using r(4) grows_distance [OF g, of d] by metis
    then have "?I (st2, near2, e2)" using step_trans [OF st1(1) r(2)] r(3,5) by blast
    then show "\<exists>s'. link_level junk d ef i inserted l s = Inr s' \<and> ?I s'" unfolding s using r(1) by blast
  qed
  then show ?thesis by auto
qed

text \<open>
  The entry node is an inserted node of the highest level among the inserted ones.
\<close>

definition edges_inv :: "u32 set \<Rightarrow> nat \<Rightarrow> build_state \<Rightarrow> u32 set \<Rightarrow> edges_state \<Rightarrow> bool" where
  "edges_inv A ef st done_nodes es \<longleftrightarrow> step_ok A st (es_build es) \<and> ef \<le> length (es_nearest es) \<and>
     {n. es_inserted es n} = done_nodes \<and> done_nodes \<subseteq> A \<and> es_entryNodeId es \<in> done_nodes \<and>
     es_entryLevel es = bn_level (node_at st (es_entryNodeId es)) \<and>
     (\<forall>n \<in> done_nodes. bn_level (node_at st n) \<le> es_entryLevel es)"

lemma insert_node_ok:
  assumes st: "search_ok d st" "0 < bs_m st" "0 < ef" and A: "\<forall>n \<in> A. unat n < bs_nodeCount st" and i: "i \<in> A"
    and inv: "edges_inv A ef st done_nodes es"
  shows "\<exists>es'. insert_node junk d ef start preserve i es = Inr es' \<and> edges_inv A ef st (insert i done_nodes) es'"
proof -
  let ?st = "es_build es" and ?nodeLevel = "bn_level (node_at (es_build es) i)" and ?entryLevel = "es_entryLevel es"
  have e: "step_ok A st ?st" "ef \<le> length (es_nearest es)" "{n. es_inserted es n} = done_nodes" "done_nodes \<subseteq> A"
    "es_entryNodeId es \<in> done_nodes" "?entryLevel = bn_level (node_at st (es_entryNodeId es))"
    "\<forall>n \<in> done_nodes. bn_level (node_at st n) \<le> ?entryLevel"
    using inv unfolding edges_inv_def by blast+
  have g: "grows A st ?st" and ok: "graph_ok ?st" "marks_ok ?st" using e(1) by (simp_all add: step_ok_def)
  have lev: "?nodeLevel = bn_level (node_at st i)" using g by (simp add: grows_def)
  define finish where "finish = (\<lambda>st nearest. es\<lparr>es_build := st, es_nearest := nearest,
      es_entryNodeId := (if ?nodeLevel > ?entryLevel then i else es_entryNodeId es),
      es_entryLevel := (if ?nodeLevel > ?entryLevel then ?nodeLevel else ?entryLevel),
      es_inserted := (es_inserted es)(i := True)\<rparr>)"
  have fin: "edges_inv A ef st (insert i done_nodes) (finish st2 nearest)" if s2: "step_ok A ?st st2" and n: "ef \<le> length nearest" for st2 nearest
  proof -
    have s: "step_ok A st st2" using step_trans [OF e(1) s2] .
    have ins: "{k. ((es_inserted es)(i := True)) k} = insert i done_nodes" using e(3) by auto
    show ?thesis using s n ins e(4-7) i lev by (auto simp: edges_inv_def finish_def)
  qed
  show ?thesis
  proof (cases "preserve \<and> unat i > start \<and> es_inserted es (i - 1)")
    case True
    have "i \<noteq> i - 1" by simp
    moreover have "i - 1 \<in> A" using True e(3,4) by blast
    ultimately have "step_ok A ?st (PgturbohybridGraphLinkAdjacentBuildNode d ?st i (i - 1))"
      using ok i st(2) g by (intro link_adjacent_step) (simp_all add: grows_def)
    from fin [OF this e(2)] show ?thesis using True by (simp add: insert_node_def Let_def finish_def)
  next
    case False
    define e0 where "e0 = \<lparr>nodeId = es_entryNodeId es, distance = PgturbohybridGraphBuildDistance d ?st i (es_entryNodeId es)\<rparr>"
    define e1 where "e1 = fold (descend_level d ?st i (es_inserted es)) (rev [?nodeLevel + 1..<?entryLevel + 1]) e0"
    have A2: "{n. es_inserted es n} \<subseteq> A" using e(3,4) by simp
    have "e0 = item_of d ?st i (nodeId e0)" "nodeId e0 \<in> A" using e(4,5) by (auto simp: e0_def)
    from descend_ok [OF this A2] have e1: "e1 = item_of d ?st i (nodeId e1)" "nodeId e1 \<in> A" unfolding e1_def by blast+
    have "PgturbohybridGraphBuildNodeHasLevel ?st i l" if "l \<in> set (rev [0..<min ?nodeLevel ?entryLevel + 1])" for l
      using that A i g by (auto simp: PgturbohybridGraphBuildNodeHasLevel_def grows_def)
    then have "\<forall>l \<in> set (rev [0..<min ?nodeLevel ?entryLevel + 1]). PgturbohybridGraphBuildNodeHasLevel ?st i l" by blast
    moreover have "search_ok d ?st" using grows_distance [OF g, of d] st(1) by simp
    ultimately obtain st2 near2 e2 where r: "foldE (link_level junk d ef i (es_inserted es)) (rev [0..<min ?nodeLevel ?entryLevel + 1]) (?st, es_nearest es, e1) = Inr (st2, near2, e2)"
      "step_ok A ?st st2" "ef \<le> length near2"
      using levels_ok [OF _ ok _ st(3) e(2) i e1(2) A2 e1(1)] by blast
    have "insert_node junk d ef start preserve i es = Inr (finish st2 near2)"
      unfolding insert_node_def Let_def if_not_P [OF False] e0_def [symmetric] e1_def [symmetric] r(1) by (simp add: finish_def)
    then show ?thesis using fin [OF r(2,3)] by blast
  qed
qed

lemma insert_nodes_ok:
  assumes "search_ok d st" "0 < bs_m st" "0 < ef" "\<forall>n \<in> A. unat n < bs_nodeCount st" "set ns \<subseteq> A" "edges_inv A ef st done_nodes es"
  shows "\<exists>es'. foldE (insert_node junk d ef start preserve) ns es = Inr es' \<and> edges_inv A ef st (set ns \<union> done_nodes) es'"
  using assms(5,6)
proof (induction ns arbitrary: es done_nodes)
  case (Cons n ns)
  have "n \<in> A" using Cons.prems(1) by simp
  from insert_node_ok [OF assms(1-4) this Cons.prems(2)]
  obtain es1 where 1: "insert_node junk d ef start preserve n es = Inr es1" "edges_inv A ef st (insert n done_nodes) es1" by blast
  obtain es2 where 2: "foldE (insert_node junk d ef start preserve) ns es1 = Inr es2" "edges_inv A ef st (set ns \<union> insert n done_nodes) es2"
    using Cons.IH [OF _ 1(2)] Cons.prems(1) by auto
  have "set ns \<union> insert n done_nodes = set (n # ns) \<union> done_nodes" by auto
  then show ?case using 1(1) 2 by simp
qed simp


section \<open>A segment\<close>

definition range_nodes :: "nat \<Rightarrow> nat \<Rightarrow> u32 set" where
  "range_nodes start stop = of_nat ` {start..<stop}"

lemma build_order_set: "set (build_order p start stop) = range_nodes start stop"
  by (auto simp: build_order_def range_nodes_def Let_def image_image)

lemma build_order_length: "length (build_order p start stop) = stop - start"
  by (simp add: build_order_def Let_def)

lemma range_bound:
  assumes "stop \<le> bs_nodeCount st" "bs_nodeCount st < 2 ^ 32" "n \<in> range_nodes start stop"
  shows "start \<le> unat n \<and> unat n < stop"
proof -
  obtain k where k: "n = of_nat k" "start \<le> k" "k < stop" using assms(3) by (auto simp: range_nodes_def)
  have "k < 2 ^ 32" using k assms by linarith
  then have "unat n = k" using k by (simp add: unat_of_nat take_bit_nat_eq_self)
  then show ?thesis using k by simp
qed

lemma build_edges_range_ok:
  assumes ok: "graph_ok st" "search_ok d st" "0 < bs_m st" and range: "start < stop" "stop \<le> bs_nodeCount st"
  shows "\<exists>s st1 st'. PgturbohybridGraphBuildEdgesRange junk d eqv start stop st = Inr (Some s, st') \<and>
    sg_startNodeId s = start \<and> sg_nodeCount s = stop - start \<and> sg_entryNodeId s \<in> range_nodes start stop \<and>
    sg_entryLevel s = bn_level (node_at st (sg_entryNodeId s)) \<and>
    (\<forall>n \<in> range_nodes start stop. bn_level (node_at st n) \<le> sg_entryLevel s) \<and>
    step_ok (range_nodes start stop) st st1 \<and>
    st' = (if bs_segmentCount st \<le> 1 \<or> int (sg_entryLevel s) > bs_maxLevel st
      then st1\<lparr>bs_entryNodeId := sg_entryNodeId s, bs_maxLevel := int (sg_entryLevel s)\<rparr> else st1)"
proof -
  let ?A = "range_nodes start stop"
  define preserve where "preserve = (PgturbohybridGraphAdjacentDuplicateCountRange eqv start stop > (stop - start) div 2)"
  define order where "order = build_order preserve start stop"
  define ef where "ef = max (bs_efConstruction st) (PgturbohybridGraphLevelM (bs_m st) 0)"
  define st0 where "st0 = st\<lparr>bs_visited := (\<lambda>_. 0), bs_visitGeneration := 0\<rparr>"
  define es where "es = \<lparr>es_build = st0, es_nearest = replicate ef junk, es_entryNodeId = order ! 0,
      es_entryLevel = bn_level (node_at st (order ! 0)), es_inserted = (\<lambda>n. n = order ! 0)\<rparr>"
  have ne: "order \<noteq> []" using build_order_length [of preserve start stop] range(1) unfolding order_def by force
  have order: "set (drop 1 order) \<union> {order ! 0} = set order" using ne by (cases order) auto
  have set_order: "set order = ?A" by (simp add: order_def build_order_set)
  have first: "order ! 0 \<in> ?A" using order set_order by blast
  have A: "\<forall>n \<in> ?A. unat n < bs_nodeCount st" using range_bound [OF range(2) graph_okD(1) [OF ok(1)]] range(2) by force
  have "same_graph st st0" "marks_ok st0" by (simp_all add: same_graph_def st0_def marks_ok_def)
  then have s0: "step_ok ?A st st0" by (rule search_step [OF ok(1)])
  have "edges_inv ?A ef st {order ! 0} es" using s0 first by (auto simp: edges_inv_def es_def)
  moreover have "set (drop 1 order) \<subseteq> ?A" using set_order set_drop_subset [of 1 order] by simp
  moreover have "0 < ef" using ok(3) by (simp add: ef_def PgturbohybridGraphLevelM_def)
  ultimately obtain es' where r: "foldE (insert_node junk d ef start preserve) (drop 1 order) es = Inr es'"
    "edges_inv ?A ef st (set (drop 1 order) \<union> {order ! 0}) es'"
    using insert_nodes_ok [OF ok(2,3) _ A] by blast
  have inv: "edges_inv ?A ef st ?A es'" using r(2) order set_order by simp
  then have step: "step_ok ?A st (es_build es')" by (simp add: edges_inv_def)
  then have same: "bs_segmentCount (es_build es') = bs_segmentCount st" "bs_maxLevel (es_build es') = bs_maxLevel st" by (simp_all add: step_ok_def)
  let ?s = "\<lparr>sg_startNodeId = start, sg_nodeCount = stop - start, sg_entryNodeId = es_entryNodeId es', sg_entryLevel = es_entryLevel es'\<rparr>"
  have nonempty: "\<not> stop \<le> start" using range(1) by simp
  have "PgturbohybridGraphBuildEdgesRange junk d eqv start stop st =
      bindE (foldE (insert_node junk d ef start preserve) (drop 1 order) es) (\<lambda>es. Inr (Some \<lparr>sg_startNodeId = start, sg_nodeCount = stop - start, sg_entryNodeId = es_entryNodeId es, sg_entryLevel = es_entryLevel es\<rparr>,
        if bs_segmentCount (es_build es) \<le> 1 \<or> int (es_entryLevel es) > bs_maxLevel (es_build es)
        then (es_build es)\<lparr>bs_entryNodeId := es_entryNodeId es, bs_maxLevel := int (es_entryLevel es)\<rparr> else es_build es))"
    by (simp add: PgturbohybridGraphBuildEdgesRange_def Let_def es_def order_def preserve_def ef_def st0_def nonempty)
  then have run: "PgturbohybridGraphBuildEdgesRange junk d eqv start stop st = Inr (Some ?s,
      if bs_segmentCount st \<le> 1 \<or> int (sg_entryLevel ?s) > bs_maxLevel st
      then (es_build es')\<lparr>bs_entryNodeId := sg_entryNodeId ?s, bs_maxLevel := int (sg_entryLevel ?s)\<rparr> else es_build es')"
    using r(1) same by simp
  have e: "es_entryNodeId es' \<in> ?A" "es_entryLevel es' = bn_level (node_at st (es_entryNodeId es'))" "\<forall>n \<in> ?A. bn_level (node_at st n) \<le> es_entryLevel es'"
    using inv unfolding edges_inv_def by blast+
  show ?thesis
    by (rule exI [of _ ?s], rule exI [of _ "es_build es'"], rule exI, intro conjI, rule run) (use e step in simp_all)
qed


section \<open>All segments\<close>

lemma segment_sizes:
  assumes "0 < c"
  shows "idx * (n div c) + min idx (n mod c) + segment_size n c idx = Suc idx * (n div c) + min (Suc idx) (n mod c)"
    and "c * (n div c) + min c (n mod c) = n"
proof -
  show "idx * (n div c) + min idx (n mod c) + segment_size n c idx = Suc idx * (n div c) + min (Suc idx) (n mod c)"
    by (auto simp: segment_size_def)
  have "min c (n mod c) = n mod c" using mod_less_divisor [OF assms, of n] by simp
  then show "c * (n div c) + min c (n mod c) = n" by simp
qed

lemma requested_segments:
  assumes "1 \<le> requested" "requested \<le> 16" "0 < n" "n < 2 ^ 32"
  shows "max (unat (ucast (min (of_int requested :: u32) (of_nat n)) :: u16)) 1 = min (nat requested) n"
proof -
  have r: "unat (of_int requested :: u32) = nat requested" using assms(1,2) by (simp add: unsigned_of_int take_bit_int_eq_self)
  have n: "unat (of_nat n :: u32) = n" using assms(4) by (simp add: unat_of_nat take_bit_nat_eq_self)
  have m: "unat (min (of_int requested :: u32) (of_nat n)) = min (nat requested) n"
    using r n by (simp add: min_def word_le_nat_alt)
  then have "unat (ucast (min (of_int requested :: u32) (of_nat n)) :: u16) = min (nat requested) n"
    using assms(1,2) by (simp add: unsigned_ucast_eq take_bit_nat_eq_self min_def)
  then show ?thesis using assms(1,3) by simp
qed

lemma native_segments_range: "1 \<le> PgturbohybridGraphGetNativeSegments i s q w" "PgturbohybridGraphGetNativeSegments i s q w \<le> 16"
  by (simp_all add: PgturbohybridGraphGetNativeSegments_def PGTURBOHYBRID_GRAPH_MAX_NATIVE_SEGMENTS_def Let_def)

definition segment_nodes :: "segment_meta \<Rightarrow> u32 set" where
  "segment_nodes s = range_nodes (sg_startNodeId s) (sg_startNodeId s + sg_nodeCount s)"

text \<open>
  What the segments built so far guarantee, for the first \<open>start\<close> nodes; \<open>st0\<close> is the graph before.
\<close>

definition segment_ok :: "build_state \<Rightarrow> build_state \<Rightarrow> segment_meta \<Rightarrow> bool" where
  "segment_ok st0 st s \<longleftrightarrow> sg_entryNodeId s \<in> segment_nodes s \<and> sg_entryLevel s = bn_level (node_at st0 (sg_entryNodeId s)) \<and>
     (\<forall>n \<in> segment_nodes s. bn_level (node_at st0 n) \<le> sg_entryLevel s) \<and>
     (\<forall>n \<in> segment_nodes s. \<forall>l \<le> bn_level (node_at st0 n). nb_id ` set (neighbors st n l) \<subseteq> segment_nodes s)"

definition entry_ok :: "build_state \<Rightarrow> nat \<Rightarrow> build_state \<Rightarrow> bool" where
  "entry_ok st0 start st \<longleftrightarrow> (if start = 0 then bs_maxLevel st = -1
     else bs_entryNodeId st \<in> range_nodes 0 start \<and> bs_maxLevel st = int (bn_level (node_at st0 (bs_entryNodeId st))) \<and>
       (\<forall>n \<in> range_nodes 0 start. int (bn_level (node_at st0 n)) \<le> bs_maxLevel st))"

definition segments_inv :: "build_state \<Rightarrow> nat \<Rightarrow> nat \<times> segment_meta list \<times> build_state \<Rightarrow> bool" where
  "segments_inv st0 c = (\<lambda>(start, segments, st). graph_ok st \<and> bs_nodeCount st = bs_nodeCount st0 \<and> bs_m st = bs_m st0 \<and>
     bs_segmentCount st = c \<and> (\<forall>n. bn_level (node_at st n) = bn_level (node_at st0 n)) \<and>
     concat (map (\<lambda>s. [sg_startNodeId s..<sg_startNodeId s + sg_nodeCount s]) segments) = [0..<start] \<and>
     (\<forall>s \<in> set segments. segment_ok st0 st s) \<and> entry_ok st0 start st \<and>
     (\<forall>n l. start \<le> unat n \<and> PgturbohybridGraphBuildNodeHasLevel st0 n l \<longrightarrow> neighbors st n l = []))"


lemma entry_okD:
  assumes "entry_ok st0 start st" "start \<noteq> 0"
  shows "bs_entryNodeId st \<in> range_nodes 0 start" "bs_maxLevel st = int (bn_level (node_at st0 (bs_entryNodeId st)))"
    "\<forall>n \<in> range_nodes 0 start. int (bn_level (node_at st0 n)) \<le> bs_maxLevel st"
  using assms(1) unfolding entry_ok_def if_not_P [OF assms(2)] by blast+

lemma range_nodes_split: "range_nodes 0 stop = range_nodes 0 start \<union> range_nodes start stop" if "start \<le> stop"
  unfolding range_nodes_def image_Un [symmetric] using that by (simp add: ivl_disj_un_two(3))

lemma segments_step:
  assumes inv: "segments_inv st0 c (start, segments, st)" and ok: "search_ok d st0" "0 < bs_m st0" "graph_ok st0"
    and range: "start < stop" "stop \<le> bs_nodeCount st0" and single: "c \<le> 1 \<Longrightarrow> start = 0"
  shows "\<exists>s st'. PgturbohybridGraphBuildEdgesRange junk d eqv start stop st = Inr (Some s, st') \<and>
    segments_inv st0 c (stop, segments @ [s], st')"
proof -
  let ?A = "range_nodes start stop"
  have i: "graph_ok st" "bs_nodeCount st = bs_nodeCount st0" "bs_m st = bs_m st0" "bs_segmentCount st = c"
    "\<forall>n. bn_level (node_at st n) = bn_level (node_at st0 n)"
    "concat (map (\<lambda>s. [sg_startNodeId s..<sg_startNodeId s + sg_nodeCount s]) segments) = [0..<start]"
    "\<forall>s \<in> set segments. segment_ok st0 st s" "entry_ok st0 start st"
    "\<forall>n l. start \<le> unat n \<and> PgturbohybridGraphBuildNodeHasLevel st0 n l \<longrightarrow> neighbors st n l = []"
    using inv unfolding segments_inv_def prod.case by blast+
  have so: "search_ok d st" using ok(1) i(2) by (simp add: search_ok_def)
  obtain s st1 st' where r: "PgturbohybridGraphBuildEdgesRange junk d eqv start stop st = Inr (Some s, st')"
    "sg_startNodeId s = start" "sg_nodeCount s = stop - start" "sg_entryNodeId s \<in> ?A"
    "sg_entryLevel s = bn_level (node_at st (sg_entryNodeId s))"
    "\<forall>n \<in> ?A. bn_level (node_at st n) \<le> sg_entryLevel s" "step_ok ?A st st1"
    and st': "st' = (if bs_segmentCount st \<le> 1 \<or> int (sg_entryLevel s) > bs_maxLevel st
      then st1\<lparr>bs_entryNodeId := sg_entryNodeId s, bs_maxLevel := int (sg_entryLevel s)\<rparr> else st1)"
    using build_edges_range_ok [OF i(1) so _ range(1), of junk eqv] i(2,3) ok(2) range(2) by auto
  have g: "grows ?A st st1" using r(7) by (simp add: step_ok_def)
  have frame: "bs_nodes st' = bs_nodes st1" "bs_nodeCount st' = bs_nodeCount st1" "bs_m st' = bs_m st1" "bs_segmentCount st' = bs_segmentCount st1"
    by (simp_all add: st' bs_nodeCount_def)
  then have at: "node_at st' = node_at st1" "neighbors st' = neighbors st1" "PgturbohybridGraphBuildNodeHasLevel st' = PgturbohybridGraphBuildNodeHasLevel st1"
    by (simp_all add: fun_eq_iff node_at_def neighbors_def PgturbohybridGraphBuildNodeHasLevel_def)
  have "graph_ok st1" using r(7) by (simp add: step_ok_def)
  then have g': "graph_ok st'" using at frame by (simp add: graph_ok_def list_ok_def)
  have lev: "\<forall>n. bn_level (node_at st' n) = bn_level (node_at st0 n)" using g i(5) at by (simp add: grows_def)
  have has: "PgturbohybridGraphBuildNodeHasLevel st = PgturbohybridGraphBuildNodeHasLevel st0"
    using i(2,5) by (simp add: fun_eq_iff PgturbohybridGraphBuildNodeHasLevel_def)
  have change: "n \<notin> ?A \<Longrightarrow> neighbors st' n l = neighbors st n l"
    "nb_id ` set (neighbors st' n l) \<subseteq> nb_id ` set (neighbors st n l) \<union> ?A" if "PgturbohybridGraphBuildNodeHasLevel st0 n l" for n l
    using g that has at by (simp_all add: grows_def)
  have small: "bs_nodeCount st0 < 2 ^ 32" using graph_okD(1) [OF ok(3)] .
  have inA: "start \<le> unat n \<and> unat n < stop" if "n \<in> ?A" for n using range_bound [OF range(2) small that] .
  have seg: "segment_nodes s = ?A" using r(2,3) range(1) by (simp add: segment_nodes_def)
  have new: "segment_ok st0 st' s"
    unfolding segment_ok_def seg
  proof (intro conjI ballI allI impI)
    fix n l assume n: "n \<in> ?A" "l \<le> bn_level (node_at st0 n)"
    then have h: "PgturbohybridGraphBuildNodeHasLevel st0 n l" using inA [OF n(1)] range(2) by (simp add: PgturbohybridGraphBuildNodeHasLevel_def)
    have "neighbors st n l = []" using i(9) inA [OF n(1)] h by blast
    then show "nb_id ` set (neighbors st' n l) \<subseteq> ?A" using change(2) [OF h] by simp
  qed (use r i(5) in simp_all)
  have old: "segment_ok st0 st' k" if k: "k \<in> set segments" for k
  proof -
    have sub: "set [sg_startNodeId k..<sg_startNodeId k + sg_nodeCount k] \<subseteq> set [0..<start]"
      unfolding i(6) [symmetric] using k by auto
    have "n \<notin> ?A \<and> unat n < bs_nodeCount st0" if nk: "n \<in> segment_nodes k" for n
    proof -
      obtain j where j: "n = of_nat j" "j \<in> set [sg_startNodeId k..<sg_startNodeId k + sg_nodeCount k]"
        using nk by (auto simp: segment_nodes_def range_nodes_def)
      have "j < start" using subsetD [OF sub j(2)] by simp
      with j(1) have "unat n < start" using small range by (simp add: unat_of_nat take_bit_nat_eq_self)
      then show ?thesis using inA [of n] range by force
    qed
    then have "neighbors st' n l = neighbors st n l" if "n \<in> segment_nodes k" "l \<le> bn_level (node_at st0 n)" for n l
      using that change(1) by (simp add: PgturbohybridGraphBuildNodeHasLevel_def)
    then show ?thesis using i(7) k unfolding segment_ok_def by (metis (no_types, lifting))
  qed
  have split: "range_nodes 0 stop = range_nodes 0 start \<union> ?A" by (rule range_nodes_split) (use range in simp)
  have entry: "entry_ok st0 stop st'"
  proof (cases "bs_segmentCount st \<le> 1 \<or> int (sg_entryLevel s) > bs_maxLevel st")
    case True
    have all: "int (bn_level (node_at st0 n)) \<le> int (sg_entryLevel s)" if "n \<in> range_nodes 0 stop" for n
    proof (cases "n \<in> ?A")
      case False
      then have n: "n \<in> range_nodes 0 start" using that split by blast
      then have "start \<noteq> 0" by (auto simp: range_nodes_def)
      then have "int (bn_level (node_at st0 n)) \<le> bs_maxLevel st" "bs_maxLevel st < int (sg_entryLevel s)"
        using entry_okD(3) [OF i(8)] n True single i(4) by auto
      then show ?thesis by linarith
    qed (use r(6) i(5) in simp)
    have "bs_entryNodeId st' = sg_entryNodeId s" "bs_maxLevel st' = int (sg_entryLevel s)" using True st' by simp_all
    then show ?thesis using all r(4,5) i(5) split range by (simp add: entry_ok_def)
  next
    case False
    have e: "bs_entryNodeId st' = bs_entryNodeId st" "bs_maxLevel st' = bs_maxLevel st"
      using False st' r(7) by (simp_all add: step_ok_def)
    have le: "int (sg_entryLevel s) \<le> bs_maxLevel st" using False by simp
    have "start \<noteq> 0"
    proof
      assume "start = 0"
      then have "bs_maxLevel st = -1" using i(8) by (simp add: entry_ok_def)
      then show False using le by simp
    qed
    note m = entry_okD [OF i(8) this]
    have "int (bn_level (node_at st0 n)) \<le> bs_maxLevel st" if "n \<in> ?A" for n
    proof -
      have "int (bn_level (node_at st0 n)) \<le> int (sg_entryLevel s)" using r(6) i(5) that by simp
      then show ?thesis using le by (rule order_trans)
    qed
    then show ?thesis using e m split range by (auto simp: entry_ok_def)
  qed
  have rest_empty: "\<forall>n l. stop \<le> unat n \<and> PgturbohybridGraphBuildNodeHasLevel st0 n l \<longrightarrow> neighbors st' n l = []"
  proof (intro allI impI)
    fix n l assume n: "stop \<le> unat n \<and> PgturbohybridGraphBuildNodeHasLevel st0 n l"
    then have "n \<notin> ?A" using inA by force
    then show "neighbors st' n l = []" using change(1) i(9) n range(1) by (metis le_trans less_imp_le)
  qed
  have cover: "concat (map (\<lambda>s. [sg_startNodeId s..<sg_startNodeId s + sg_nodeCount s]) (segments @ [s])) = [0..<stop]"
    using i(6) r(2,3) range(1) upt_add_eq_append [of 0 start "stop - start"] by simp
  show ?thesis
    using r(1) g' frame g i lev cover new old entry rest_empty
    by (intro exI [of _ s] exI [of _ st']) (simp add: segments_inv_def grows_def r(7) [unfolded step_ok_def])
qed


lemma segments_loop:
  assumes ok: "search_ok d st0" "0 < bs_m st0" "graph_ok st0" and c: "0 < c" "c \<le> bs_nodeCount st0"
    and inv: "segments_inv st0 c (0, [], st)" and idx: "idx \<le> c"
  shows "\<exists>segments st'. foldE (\<lambda>idx (start, segments, st).
      let stop = start + segment_size (bs_nodeCount st) c idx
      in bindE (PgturbohybridGraphBuildEdgesRange junk d eqv start stop st) (\<lambda>(segment, st).
         Inr (stop, segments @ (case segment of None \<Rightarrow> [] | Some s \<Rightarrow> [s]), st))) [0..<idx] (0, [], st) =
      Inr (idx * (bs_nodeCount st0 div c) + min idx (bs_nodeCount st0 mod c), segments, st') \<and>
    segments_inv st0 c (idx * (bs_nodeCount st0 div c) + min idx (bs_nodeCount st0 mod c), segments, st') \<and> length segments = idx"
    (is "\<exists>segments st'. foldE ?f _ _ = _ \<and> _")
  using idx
proof (induction idx)
  case 0
  then show ?case using inv by simp
next
  case (Suc idx)
  let ?n = "bs_nodeCount st0"
  let ?at = "\<lambda>idx. idx * (?n div c) + min idx (?n mod c)"
  obtain segments st1 where ih: "foldE ?f [0..<idx] (0, [], st) = Inr (?at idx, segments, st1)"
    "segments_inv st0 c (?at idx, segments, st1)" "length segments = idx"
    using Suc by auto
  have q: "0 < ?n div c" using c by (simp add: div_greater_zero_iff)
  have size: "?at idx + segment_size ?n c idx = ?at (Suc idx)" using segment_sizes(1) [OF c(1)] .
  have "?at (Suc idx) \<le> ?at c" using Suc.prems by (intro add_mono mult_right_mono) (simp_all add: min_def)
  then have le: "?at (Suc idx) \<le> ?n" using segment_sizes(2) [OF c(1), of ?n] by linarith
  have lt: "?at idx < ?at (Suc idx)" using q by (simp add: min_def)
  have "c \<le> 1 \<Longrightarrow> ?at idx = 0" using Suc.prems c by simp
  from segments_step [OF ih(2) ok lt le this]
  obtain s st2 where r: "PgturbohybridGraphBuildEdgesRange junk d eqv (?at idx) (?at (Suc idx)) st1 = Inr (Some s, st2)"
    "segments_inv st0 c (?at (Suc idx), segments @ [s], st2)" by blast
  have n: "bs_nodeCount st1 = ?n" using ih(2) by (simp add: segments_inv_def)
  have "?f idx (?at idx, segments, st1) = Inr (?at (Suc idx), segments @ [s], st2)"
    unfolding prod.case n Let_def size r(1) by simp
  then have "foldE ?f [0..<Suc idx] (0, [], st) = Inr (?at (Suc idx), segments @ [s], st2)"
    using ih(1) by (simp add: foldE_append)
  then show ?case using r(2) ih(3) by (intro exI [of _ "segments @ [s]"] exI [of _ st2]) simp
qed


section \<open>Properties\<close>

text \<open>
  C1. Building the edges of a graph of fresh nodes: for any number of segments the index options can
  ask for, the build succeeds. The segments cover the node ids one after the other without gap or overlap, each
  with an entry node of its own whose level is the highest of the segment. Every list is well-formed (within the level's
  bound, no repeated neighbor, no self-loop, only nodes of the level), and the edges of a segment stay in it. The entry node of the
  graph is a node of the highest level, and \<open>maxLevel\<close> is that level.
\<close>

theorem build_edges_correct:
  assumes "graph_ok st" "search_ok d st" "0 < bs_m st" "0 < bs_nodeCount st"
    and "\<forall>n l. PgturbohybridGraphBuildNodeHasLevel st n l \<longrightarrow> neighbors st n l = []"
    and "requested = PgturbohybridGraphGetNativeSegments isIndex nativeSegments qualitySensitive workers"
  shows "\<exists>segments st'. PgturbohybridGraphBuildEdges junk d eqv requested st = Inr (segments, st') \<and> graph_ok st' \<and> bs_m st' = bs_m st \<and>
    bs_nodeCount st' = bs_nodeCount st \<and> length segments = min (nat requested) (bs_nodeCount st) \<and>
    concat (map (\<lambda>s. [sg_startNodeId s..<sg_startNodeId s + sg_nodeCount s]) segments) = [0..<bs_nodeCount st] \<and>
    (\<forall>s \<in> set segments. segment_ok st st' s) \<and> unat (bs_entryNodeId st') < bs_nodeCount st \<and>
    bs_maxLevel st' = int (bn_level (node_at st (bs_entryNodeId st'))) \<and>
    (\<forall>n. unat n < bs_nodeCount st \<longrightarrow> int (bn_level (node_at st n)) \<le> bs_maxLevel st')"
proof -
  let ?n = "bs_nodeCount st"
  define c where "c = min (nat requested) ?n"
  have rq: "1 \<le> requested" "requested \<le> 16" using native_segments_range assms(6) by simp_all
  have small: "?n < 2 ^ 32" by (rule graph_okD(1) [OF assms(1)])
  have count: "max (unat (ucast (min (of_int requested :: u32) (of_nat ?n)) :: u16)) 1 = c"
    using requested_segments [OF rq assms(4) small] by (simp add: c_def)
  have c: "0 < c" "c \<le> ?n" using rq assms(4) by (simp_all add: c_def)
  let ?st = "st\<lparr>bs_segmentCount := c, bs_entryNodeId := 0, bs_maxLevel := -1\<rparr>"
  have n: "bs_nodeCount ?st = ?n" "bs_nodes ?st = bs_nodes st" "bs_m ?st = bs_m st" by (simp_all add: bs_nodeCount_def)
  have same: "node_at ?st = node_at st" "neighbors ?st = neighbors st" "PgturbohybridGraphBuildNodeHasLevel ?st = PgturbohybridGraphBuildNodeHasLevel st"
    by (simp_all add: fun_eq_iff node_at_def neighbors_def PgturbohybridGraphBuildNodeHasLevel_def bs_nodeCount_def)
  have "graph_ok ?st" using assms(1) same n by (simp add: graph_ok_def list_ok_def)
  then have "segments_inv st c (0, [], ?st)"
    using same n assms(5) by (simp add: segments_inv_def entry_ok_def)
  from segments_loop [OF assms(2,3,1) c this le_refl]
  obtain segments st' where r: "foldE (\<lambda>idx (start, segments, st).
      let stop = start + segment_size (bs_nodeCount st) c idx
      in bindE (PgturbohybridGraphBuildEdgesRange junk d eqv start stop st) (\<lambda>(segment, st).
         Inr (stop, segments @ (case segment of None \<Rightarrow> [] | Some s \<Rightarrow> [s]), st))) [0..<c] (0, [], ?st) =
      Inr (c * (?n div c) + min c (?n mod c), segments, st')"
    "segments_inv st c (c * (?n div c) + min c (?n mod c), segments, st')" "length segments = c" by blast
  note inv = r(2) [unfolded segment_sizes(2) [OF c(1)] segments_inv_def prod.case]
  have "PgturbohybridGraphBuildEdges junk d eqv requested st = Inr (segments, st')"
    using assms(4) r(1) unfolding PgturbohybridGraphBuildEdges_def count Let_def by simp
  moreover have "bs_entryNodeId st' \<in> range_nodes 0 ?n" "bs_maxLevel st' = int (bn_level (node_at st (bs_entryNodeId st')))"
    "\<forall>n \<in> range_nodes 0 ?n. int (bn_level (node_at st n)) \<le> bs_maxLevel st'"
    using inv entry_okD [of st ?n st'] assms(4) by blast+
  moreover have "n \<in> range_nodes 0 ?n" if "unat n < ?n" for n :: u32
    using that unfolding range_nodes_def by (intro image_eqI [of _ _ "unat n"]) simp_all
  ultimately show ?thesis
    using inv r(3) range_bound [OF le_refl small] by (intro exI [of _ segments] exI [of _ st']) (simp add: c_def)
qed

theorem build_edges_correct_witness:
  "\<exists>segments st'. PgturbohybridGraphBuildEdges \<lparr>nodeId = 0, distance = NaN\<rparr> (\<lambda>a b. Fin 1) (\<lambda>a b. False) 2 (fresh_graph 5 2) = Inr (segments, st') \<and>
    length segments = 2 \<and> graph_ok st'"
proof -
  have s: "search_ok (\<lambda>a b. Fin 1) (fresh_graph 5 2)"
    by (simp add: search_ok_def fresh_graph_ok sizeof_FrontierItem_def MaxAllocSize_def)
  have q: "2 = PgturbohybridGraphGetNativeSegments True (Some 2) False 0"
    by (simp add: PgturbohybridGraphGetNativeSegments_def PGTURBOHYBRID_GRAPH_MAX_NATIVE_SEGMENTS_def)
  have m: "0 < bs_m (fresh_graph 5 2)" "0 < bs_nodeCount (fresh_graph 5 2)" by (simp_all add: fresh_graph_ok) (simp add: fresh_graph_def)
  show ?thesis
    using build_edges_correct [OF fresh_graph_ok(1) s m fresh_graph_ok(2) q] by (simp add: fresh_graph_ok) blast
qed

end
