(* ===== verification/Quantile_Fit.thy ===== *)
theory Quantile_Fit
  imports Fusion_Score
begin

text \<open>
  The streaming estimate of a quantile (\<open>pgturbohybrid_quant_psquare.c\<close>). The arithmetic of the doubles is a
  parameter, the record \<open>fpu\<close>; decimal literals stand for their decimal values. What needs a law of the
  arithmetic says which: \<open>ieee_fpu\<close>, rounding that is monotone and exact on the halves of whole numbers up to
  \<open>2 ^ 53\<close>, which every IEEE 754 double arithmetic satisfies, or \<open>exact_fpu\<close>, no rounding at all. Arrays of
  five markers are functions.
\<close>

section \<open>The streaming quantile\<close>

definition PSQUARE_N :: nat where "PSQUARE_N = 5"

record psquare =
  ps_count :: nat
  ps_target :: cdouble
  ps_heights :: "nat \<Rightarrow> cdouble"
  ps_positions :: "nat \<Rightarrow> cdouble"

type_synonym markers = "(nat \<Rightarrow> cdouble) \<times> (nat \<Rightarrow> cdouble)"

definition TqPSquareInit :: "cdouble \<Rightarrow> psquare" where
  "TqPSquareInit quantile = \<lparr>ps_count = 0, ps_target = quantile, ps_heights = (\<lambda>_. Fin 0), ps_positions = (\<lambda>_. Fin 0)\<rparr>"

definition dle :: "cdouble \<Rightarrow> cdouble \<Rightarrow> bool" where
  \<comment> \<open>\<open>x <= y\<close>: false where one is a NaN\<close>
  "dle x y \<longleftrightarrow> dless x y \<or> x = y \<and> x \<noteq> NaN"

definition TqPSquareAdjustStep :: "fpu \<Rightarrow> nat \<Rightarrow> cdouble \<Rightarrow> markers \<Rightarrow> markers" where
  "TqPSquareAdjustStep f i dsign = (\<lambda>(h, n).
     let prev_h = h (i - 1); next_h = h (i + 1); prev_n = n (i - 1); next_n = n (i + 1); cur_h = h i; cur_n = n i;
         denom = f_sub f next_n prev_n;
         h_par = (if dneq denom (Fin 0)
                  then let a = f_mul f (f_div f (f_add f (f_sub f cur_n prev_n) dsign) (f_sub f next_n cur_n)) (f_sub f next_h cur_h);
                           b = f_mul f (f_div f (f_sub f (f_sub f next_n cur_n) dsign) (f_sub f cur_n prev_n)) (f_sub f cur_h prev_h)
                       in f_add f cur_h (f_div f (f_mul f (f_add f a b) dsign) denom)
                  else cur_h);
         new_h = (if dless prev_h h_par \<and> dless h_par next_h \<and> \<not> not_finite h_par then h_par
                  else if dless (Fin 0) dsign then f_add f cur_h (f_div f (f_sub f next_h cur_h) (f_sub f next_n cur_n))
                  else f_add f cur_h (f_div f (f_sub f prev_h cur_h) (f_sub f prev_n cur_n)))
     in (h(i := new_h), n(i := f_add f cur_n dsign)))"

text \<open>The loop of one marker; \<open>None\<close> is a loop that never ends.\<close>

partial_function (option) TqPSquareAdjustMarker :: "fpu \<Rightarrow> nat \<Rightarrow> (nat \<Rightarrow> cdouble) \<Rightarrow> markers \<Rightarrow> markers option" where
  "TqPSquareAdjustMarker f i desired hn =
     (let n = snd hn; di = f_sub f (desired i) (n i) in
      if dle (Fin 1) di \<and> dless (Fin 1) (f_sub f (n (i + 1)) (n i))
      then TqPSquareAdjustMarker f i desired (TqPSquareAdjustStep f i (Fin 1) hn)
      else if dle di (Fin (-1)) \<and> dless (f_sub f (n (i - 1)) (n i)) (Fin (-1))
      then TqPSquareAdjustMarker f i desired (TqPSquareAdjustStep f i (Fin (-1)) hn)
      else Some hn)"

declare TqPSquareAdjustMarker.simps [code]

fun adjust_markers :: "fpu \<Rightarrow> (nat \<Rightarrow> cdouble) \<Rightarrow> nat list \<Rightarrow> markers \<Rightarrow> markers option" where
  "adjust_markers f desired [] hn = Some hn"
| "adjust_markers f desired (i # is) hn =
     (case TqPSquareAdjustMarker f i desired hn of None \<Rightarrow> None | Some hn \<Rightarrow> adjust_markers f desired is hn)"

text \<open>The exchange sort of the first \<open>m\<close> heights under the comparison \<open>lt\<close>.\<close>

definition exchange_pass :: "('a \<Rightarrow> 'a \<Rightarrow> bool) \<Rightarrow> nat \<Rightarrow> nat \<Rightarrow> (nat \<Rightarrow> 'a) \<Rightarrow> nat \<Rightarrow> 'a" where
  "exchange_pass lt m i h = fold (\<lambda>j h. if lt (h j) (h i) then h(i := h j, j := h i) else h) [i + 1..<m] h"

definition exchange_sort :: "('a \<Rightarrow> 'a \<Rightarrow> bool) \<Rightarrow> nat \<Rightarrow> (nat \<Rightarrow> 'a) \<Rightarrow> nat \<Rightarrow> 'a" where
  "exchange_sort lt m h = fold (exchange_pass lt m) [0..<m - 1] h"

definition psquare_cell :: "(nat \<Rightarrow> cdouble) \<Rightarrow> cdouble \<Rightarrow> (nat \<Rightarrow> cdouble) \<times> nat" where
  "psquare_cell h x =
     (if dless x (h 0) then (h(0 := x), 0)
      else if dless (h (PSQUARE_N - 1)) x then (h(PSQUARE_N - 1 := x), PSQUARE_N - 1)
      else let k = (case find (\<lambda>i. dless x (h i)) [1..<PSQUARE_N] of Some i \<Rightarrow> i - 1 | None \<Rightarrow> PSQUARE_N - 1)
           in (h, if PSQUARE_N - 1 \<le> k then PSQUARE_N - 2 else k))"

definition target_probabilities :: "fpu \<Rightarrow> cdouble \<Rightarrow> cdouble list" where
  "target_probabilities f q = [Fin 0, f_mul f q (Fin (1 / 2)), q, f_mul f (Fin (1 / 2)) (f_add f (Fin 1) q), Fin 1]"

definition n_desired :: "fpu \<Rightarrow> cdouble \<Rightarrow> nat \<Rightarrow> nat \<Rightarrow> cdouble" where
  "n_desired f q count_minus_one i = f_add f (Fin 1) (f_mul f (target_probabilities f q ! i) (f_of_u64 f (of_nat count_minus_one)))"

definition raise_positions :: "fpu \<Rightarrow> nat \<Rightarrow> (nat \<Rightarrow> cdouble) \<Rightarrow> nat \<Rightarrow> cdouble" where
  "raise_positions f k n = (\<lambda>i. if k < i \<and> i < PSQUARE_N then f_add f (n i) (Fin 1) else n i)"

definition TqPSquarePush :: "fpu \<Rightarrow> psquare \<Rightarrow> cdouble \<Rightarrow> psquare option" where
  "TqPSquarePush f p x =
     (if not_finite x then Some p
      else if ps_count p < PSQUARE_N
      then let p = p\<lparr>ps_heights := (ps_heights p)(ps_count p := x), ps_count := ps_count p + 1\<rparr>
           in Some (if ps_count p = PSQUARE_N
             then p\<lparr>ps_heights := exchange_sort dless PSQUARE_N (ps_heights p), ps_positions := (\<lambda>i. Fin (of_nat (i + 1)))\<rparr>
             else p)
      else let count = ps_count p + 1; (h, k) = psquare_cell (ps_heights p) x; n = raise_positions f k (ps_positions p)
           in (case adjust_markers f (n_desired f (ps_target p) (count - 1)) [1..<PSQUARE_N - 1] (h, n) of
                 None \<Rightarrow> None
               | Some (h, n) \<Rightarrow> Some (p\<lparr>ps_count := count, ps_heights := h, ps_positions := n\<rparr>)))"

fun psquare_pushes :: "fpu \<Rightarrow> psquare \<Rightarrow> cdouble list \<Rightarrow> psquare option" where
  "psquare_pushes f p [] = Some p"
| "psquare_pushes f p (v # vs) = (case TqPSquarePush f p v of None \<Rightarrow> None | Some p \<Rightarrow> psquare_pushes f p vs)"

definition TqPSquareEstimate :: "psquare \<Rightarrow> cdouble" where
  "TqPSquareEstimate p =
     (if ps_count p = 0 then Fin 0
      else if ps_count p < PSQUARE_N then exchange_sort dless (ps_count p) (ps_heights p) (ps_count p div 2)
      else ps_heights p (PSQUARE_N div 2))"

section \<open>Laws of the arithmetic\<close>

definition rounding :: "(rat \<Rightarrow> cdouble) \<Rightarrow> bool" where
  "rounding rd \<longleftrightarrow> (\<forall>a. rd a \<noteq> NaN) \<and> (\<forall>a b. a \<le> b \<longrightarrow> \<not> dless (rd b) (rd a)) \<and>
     (\<forall>k :: int. \<bar>k\<bar> \<le> 2 ^ 53 \<longrightarrow> rd (of_int k / 2) = Fin (of_int k / 2))"

text \<open>
  What the loop needs of IEEE 754: sums and differences of finite values are the rounded exact ones, and
  a value that is not finite stays what it is when a finite one is subtracted.
\<close>

definition ieee_fpu :: "fpu \<Rightarrow> bool" where
  "ieee_fpu f \<longleftrightarrow>
     (\<exists>rd. rounding rd \<and> (\<forall>a b. f_add f (Fin a) (Fin b) = rd (a + b) \<and> f_sub f (Fin a) (Fin b) = rd (a - b))) \<and>
     (\<forall>b. f_sub f NaN (Fin b) = NaN \<and> f_sub f PosInf (Fin b) = PosInf \<and> f_sub f NegInf (Fin b) = NegInf)"

lemma rounding_whole: "rounding rd \<Longrightarrow> \<bar>k\<bar> \<le> 2 ^ 52 \<Longrightarrow> rd (of_int k) = of_i k"
proof -
  assume r: "rounding rd" "\<bar>k\<bar> \<le> 2 ^ 52"
  have "\<bar>2 * k\<bar> \<le> 2 ^ 53" using r(2) by simp
  then have "rd (of_int (2 * k) / 2) = Fin (of_int (2 * k) / 2)" using r(1) unfolding rounding_def by blast
  then show ?thesis by simp
qed

lemma rounding_half: "rounding rd \<Longrightarrow> rd (1 / 2) = Fin (1 / 2) \<and> rd (- (1 / 2)) = Fin (- (1 / 2))"
proof -
  assume "rounding rd"
  then have "rd (of_int k / 2) = Fin (of_int k / 2)" if "\<bar>k\<bar> \<le> 2 ^ 53" for k :: int using that unfolding rounding_def by blast
  from this [of 1] this [of "-1"] show ?thesis by simp
qed

lemma ieee_add: "ieee_fpu f \<Longrightarrow> \<bar>a + b\<bar> \<le> 2 ^ 52 \<Longrightarrow> f_add f (of_i a) (of_i b) = of_i (a + b)"
  unfolding ieee_fpu_def using rounding_whole [of _ "a + b"] by auto

lemma ieee_sub: "ieee_fpu f \<Longrightarrow> \<bar>a - b\<bar> \<le> 2 ^ 52 \<Longrightarrow> f_sub f (of_i a) (of_i b) = of_i (a - b)"
  unfolding ieee_fpu_def using rounding_whole [of _ "a - b"] by auto

text \<open>A marker that has moved towards its position is not sent back.\<close>

lemma rounding_no_turn: "rounding rd \<Longrightarrow> \<not> (dle (Fin 1) (rd a) \<and> dle (rd (a - 1)) (Fin (-1)))"
proof
  assume r: "rounding rd" and t: "dle (Fin 1) (rd a) \<and> dle (rd (a - 1)) (Fin (-1))"
  note h = rounding_half [OF r]
  have mono: "\<not> dless (rd y) (rd x)" if "x \<le> y" for x y using r that by (simp add: rounding_def)
  have "1 / 2 < a"
  proof (rule ccontr)
    assume "\<not> 1 / 2 < a"
    then have "\<not> dless (Fin (1 / 2)) (rd a)" using mono [of a "1 / 2"] h by simp
    then show False using t by (cases "rd a") (auto simp: dle_def)
  qed
  then have "\<not> dless (rd (a - 1)) (Fin (- (1 / 2)))" using mono [of "- (1 / 2)" "a - 1"] h by simp
  then show False using t by (cases "rd (a - 1)") (auto simp: dle_def)
qed

lemma no_turn:
  assumes "ieee_fpu f"
  shows "\<not> (dle (Fin 1) (f_sub f d (Fin b)) \<and> dle (f_sub f d (Fin (b + 1))) (Fin (-1)))"
proof (cases d)
  case (Fin a)
  obtain rd where r: "rounding rd" "\<And>x y. f_sub f (Fin x) (Fin y) = rd (x - y)" using assms unfolding ieee_fpu_def by blast
  show ?thesis using rounding_no_turn [OF r(1), of "a - b"] by (simp add: Fin r(2) diff_diff_eq)
qed (use assms in \<open>simp_all add: ieee_fpu_def dle_def\<close>)
section \<open>The sort\<close>

lemma swap_mset:
  assumes "i < j" "j < m" "a \<le> i"
  shows "mset (map (h(i := h j, j := h i)) [a..<m]) = mset (map h [a..<m])"
proof -
  define t where "t = id(i := j, j := i)"
  have "inj_on t {a..<m}" "t ` {a..<m} = {a..<m}" using assms by (auto simp: t_def inj_on_def image_iff)
  then have "image_mset t (mset_set {a..<m}) = mset_set {a..<m}" by (simp add: image_mset_mset_set)
  moreover have "h(i := h j, j := h i) = h \<circ> t" by (auto simp: t_def)
  ultimately have "image_mset (h(i := h j, j := h i)) (mset_set {a..<m}) = image_mset h (mset_set {a..<m})"
    by (metis multiset.map_comp)
  then show ?thesis by (simp add: mset_map del: fun_upd_apply)
qed

lemma exchange_pass_spec:
  fixes h :: "nat \<Rightarrow> rat"
  assumes "i < m"
  shows "mset (map (exchange_pass (<) m i h) [i..<m]) = mset (map h [i..<m]) \<and>
    (\<forall>k. k < i \<or> m \<le> k \<longrightarrow> exchange_pass (<) m i h k = h k) \<and> (\<forall>k \<in> {i..<m}. exchange_pass (<) m i h i \<le> exchange_pass (<) m i h k)"
  using assms
proof (induction m)
  case (Suc m)
  show ?case
  proof (cases "i = m")
    case True
    then show ?thesis by (simp add: exchange_pass_def)
  next
    case False
    then have im: "i < m" using Suc.prems by simp
    let ?h = "exchange_pass (<) m i h"
    have ih: "mset (map ?h [i..<m]) = mset (map h [i..<m])" "\<forall>k. k < i \<or> m \<le> k \<longrightarrow> ?h k = h k" "\<forall>k \<in> {i..<m}. ?h i \<le> ?h k"
      using Suc.IH im by blast+
    have step: "exchange_pass (<) (Suc m) i h = (if ?h m < ?h i then ?h(i := ?h m, m := ?h i) else ?h)"
      using im by (simp add: exchange_pass_def)
    have all: "mset (map ?h [i..<Suc m]) = mset (map h [i..<Suc m])" using ih im by simp
    show ?thesis
    proof (cases "?h m < ?h i")
      case True
      have "mset (map (?h(i := ?h m, m := ?h i)) [i..<Suc m]) = mset (map ?h [i..<Suc m])"
        by (rule swap_mset) (use im in simp_all)
      moreover have "\<forall>k \<in> {i..<Suc m}. (?h(i := ?h m, m := ?h i)) i \<le> (?h(i := ?h m, m := ?h i)) k"
      proof
        fix k assume k: "k \<in> {i..<Suc m}"
        have "?h m \<le> ?h k" if "k < m" using ih(3) True k that by (meson atLeastLessThan_iff less_le_trans less_imp_le)
        then show "(?h(i := ?h m, m := ?h i)) i \<le> (?h(i := ?h m, m := ?h i)) k" using k True im by (auto simp: less_Suc_eq)
      qed
      moreover have "\<forall>k. k < i \<or> Suc m \<le> k \<longrightarrow> (?h(i := ?h m, m := ?h i)) k = h k" using ih(2) im by simp
      ultimately show ?thesis unfolding step if_P [OF True] all by (intro conjI)
    next
      case False
      have "\<forall>k \<in> {i..<Suc m}. ?h i \<le> ?h k" using ih(3) False by (auto simp: less_Suc_eq not_less)
      then show ?thesis using all ih(2) False unfolding step by auto
    qed
  qed
qed simp

lemma exchange_sort_upto:
  fixes h :: "nat \<Rightarrow> rat"
  assumes "t \<le> m"
  shows "mset (map (fold (exchange_pass (<) m) [0..<t] h) [0..<m]) = mset (map h [0..<m]) \<and>
    (\<forall>a b. a < t \<and> a \<le> b \<and> b < m \<longrightarrow> fold (exchange_pass (<) m) [0..<t] h a \<le> fold (exchange_pass (<) m) [0..<t] h b)"
  using assms
proof (induction t)
  case (Suc t)
  let ?h = "fold (exchange_pass (<) m) [0..<t] h" and ?g = "exchange_pass (<) m t (fold (exchange_pass (<) m) [0..<t] h)"
  have ih: "mset (map ?h [0..<m]) = mset (map h [0..<m])" "\<forall>a b. a < t \<and> a \<le> b \<and> b < m \<longrightarrow> ?h a \<le> ?h b" using Suc by simp_all
  have "t < m" using Suc.prems by simp
  note p = exchange_pass_spec [OF this, of ?h]
  have split: "[0..<m] = [0..<t] @ [t..<m]" using Suc.prems by (metis Suc_leD le0 upt_add_eq_append le_add_diff_inverse)
  have low: "map ?g [0..<t] = map ?h [0..<t]" using p by simp
  have "mset (map ?g [0..<m]) = mset (map ?h [0..<m])" unfolding split map_append mset_append low using p by simp
  moreover have "?g a \<le> ?g b" if "a < Suc t" "a \<le> b" "b < m" for a b
  proof (cases "a = t")
    case True
    then show ?thesis using p that by simp
  next
    case False
    then have a: "a < t" using that by simp
    have ga: "?g a = ?h a" using p a by blast
    show ?thesis
    proof (cases "b < t")
      case True
      then show ?thesis using p ga ih(2) a that by simp
    next
      case False
      have "set (map ?g [t..<m]) = set (map ?h [t..<m])" using p by (metis set_mset_mset)
      moreover have "?g b \<in> set (map ?g [t..<m])" using that False by simp
      ultimately obtain c where "c \<in> {t..<m}" "?g b = ?h c" by auto
      then show ?thesis using ga ih(2) a by simp
    qed
  qed
  ultimately show ?case using ih(1) by simp
qed simp

lemma exchange_sort_sorts: "map (exchange_sort (<) m h) [0..<m] = sort (map h [0..<m])" for h :: "nat \<Rightarrow> rat"
proof (cases "m = 0")
  case False
  note s = exchange_sort_upto [of "m - 1" m h]
  have "sorted (map (exchange_sort (<) m h) [0..<m])"
    unfolding sorted_iff_nth_mono_less
  proof (intro allI impI)
    fix a b assume "a < b" "b < length (map (exchange_sort (<) m h) [0..<m])"
    then show "map (exchange_sort (<) m h) [0..<m] ! a \<le> map (exchange_sort (<) m h) [0..<m] ! b"
      using s by (simp add: exchange_sort_def)
  qed
  moreover have "mset (map (exchange_sort (<) m h) [0..<m]) = mset (map h [0..<m])" using s by (simp add: exchange_sort_def)
  ultimately show ?thesis by (metis properties_for_sort)
qed simp

text \<open>On finite doubles the sort is the one of their values.\<close>

lemma exchange_pass_finite: "exchange_pass dless m i (Fin \<circ> g) = Fin \<circ> exchange_pass (<) m i g"
proof -
  have swap: "(Fin \<circ> g)(i := x, j := y) = Fin \<circ> g(i := a, j := b)" if "x = Fin a" "y = Fin b" for g :: "nat \<Rightarrow> rat" and i j x y a b
    using that by (auto simp: fun_eq_iff)
  have "fold (\<lambda>j h. if dless (h j) (h i) then h(i := h j, j := h i) else h) l (Fin \<circ> g) =
    Fin \<circ> fold (\<lambda>j h. if h j < h i then h(i := h j, j := h i) else h) l g" for l
    by (induction l arbitrary: g) (simp_all add: swap del: fun_upd_apply)
  then show ?thesis by (simp add: exchange_pass_def)
qed

lemma exchange_sort_finite: "exchange_sort dless m (Fin \<circ> g) = Fin \<circ> exchange_sort (<) m g"
proof -
  have "fold (exchange_pass dless m) l (Fin \<circ> g) = Fin \<circ> fold (exchange_pass (<) m) l g" for l
    by (induction l arbitrary: g) (simp_all add: exchange_pass_finite)
  then show ?thesis by (simp add: exchange_sort_def)
qed

section \<open>One step in exact arithmetic\<close>

text \<open>The parabola through three markers, evaluated one position up or down, and the step on rationals.\<close>

definition parabola :: "(nat \<Rightarrow> rat) \<Rightarrow> (nat \<Rightarrow> rat) \<Rightarrow> nat \<Rightarrow> rat \<Rightarrow> rat" where
  "parabola h n i dsign = h i + ((n i - n (i - 1) + dsign) / (n (i + 1) - n i) * (h (i + 1) - h i) +
     (n (i + 1) - n i - dsign) / (n i - n (i - 1)) * (h i - h (i - 1))) * dsign / (n (i + 1) - n (i - 1))"

definition exact_height :: "(nat \<Rightarrow> rat) \<Rightarrow> (nat \<Rightarrow> rat) \<Rightarrow> nat \<Rightarrow> rat \<Rightarrow> rat" where
  "exact_height h n i dsign =
     (if h (i - 1) < parabola h n i dsign \<and> parabola h n i dsign < h (i + 1) then parabola h n i dsign
      else if 0 < dsign then h i + (h (i + 1) - h i) / (n (i + 1) - n i)
      else h i + (h (i - 1) - h i) / (n (i - 1) - n i))"

lemma step_exact:
  assumes f: "exact_fpu f" and h: "\<forall>j \<in> {i - 1, i, i + 1}. h j = Fin (g j) \<and> n j = Fin (q j)"
    and ne: "q (i + 1) \<noteq> q i" "q i \<noteq> q (i - 1)" "q (i + 1) \<noteq> q (i - 1)"
  shows "TqPSquareAdjustStep f i (Fin s) (h, n) = (h(i := Fin (exact_height g q i s)), n(i := Fin (q i + s)))"
proof -
  note ops = f [unfolded exact_fpu_def]
  have add: "f_add f (Fin a) (Fin b) = Fin (a + b)" and sub: "f_sub f (Fin a) (Fin b) = Fin (a - b)"
    and mul: "f_mul f (Fin a) (Fin b) = Fin (a * b)" and div: "b \<noteq> 0 \<Longrightarrow> f_div f (Fin a) (Fin b) = Fin (a / b)" for a b
    using ops by blast+
  have m: "h (i - 1) = Fin (g (i - 1))" "h i = Fin (g i)" "h (i + 1) = Fin (g (i + 1))"
    "n (i - 1) = Fin (q (i - 1))" "n i = Fin (q i)" "n (i + 1) = Fin (q (i + 1))" using h by simp_all
  have ne': "q (i + 1) - q i \<noteq> 0" "q i - q (i - 1) \<noteq> 0" "q (i - 1) - q i \<noteq> 0" "q (i + 1) - q (i - 1) \<noteq> 0" using ne by simp_all
  have dn: "dneq (Fin (q (i + 1) - q (i - 1))) (Fin 0)" using ne' by simp
  show ?thesis
    unfolding TqPSquareAdjustStep_def prod.case Let_def m sub mul add div [OF ne'(1)] div [OF ne'(2)] div [OF ne'(3)] div [OF ne'(4)]
      if_P [OF dn] dless.simps
    by (simp add: exact_height_def parabola_def not_finite_def)
qed

text \<open>
  Where the positions are whole numbers that ascend by at least one and the heights ascend, the new height lies
  between its neighbors: the parabola is used only then, and the line does not leave them.
\<close>

definition markers_ok :: "(nat \<Rightarrow> rat) \<Rightarrow> (nat \<Rightarrow> int) \<Rightarrow> bool" where
  "markers_ok g m \<longleftrightarrow> (\<forall>i < 4. g i \<le> g (i + 1) \<and> m i + 1 \<le> m (i + 1))"

lemma line_up:
  fixes u v :: rat
  assumes "0 \<le> v" "2 \<le> g"
  shows "0 \<le> v / g" "v / g \<le> v"
proof -
  have "1 * v \<le> g * v" using assms by (intro mult_right_mono) simp_all
  then show "0 \<le> v / g" "v / g \<le> v" using assms by (simp_all add: divide_le_eq mult.commute)
qed

lemma line_down:
  fixes u v g1 g2 :: rat
  assumes "0 \<le> u" "0 \<le> v" "2 \<le> g1" "1 \<le> g2"
    and out: "u \<le> ((g1 - 1) / g2 * v + (g2 + 1) / g1 * u) / (g1 + g2)"
  shows "u / g1 \<le> v"
proof -
  have pos: "0 < g1" "0 < g2" "0 < g1 - 1" "0 < g1 + g2" using assms by simp_all
  have "u * (g1 + g2) \<le> (g1 - 1) / g2 * v + (g2 + 1) / g1 * u" using out pos by (simp add: pos_le_divide_eq)
  then have "u * (g1 + g2) * (g1 * g2) \<le> ((g1 - 1) / g2 * v + (g2 + 1) / g1 * u) * (g1 * g2)"
    using pos by (intro mult_right_mono) simp_all
  also have "\<dots> = (g1 - 1) * g1 * v + (g2 + 1) * g2 * u" using pos by (simp add: field_simps)
  finally have "(g1 - 1) * (g2 * (g1 + g2 + 1) * u) \<le> (g1 - 1) * (g1 * v)" by (simp add: algebra_simps)
  then have le: "g2 * (g1 + g2 + 1) * u \<le> g1 * v" using pos(3) by (simp only: mult_le_cancel_left_pos)
  have "1 * 1 \<le> g2 * (g1 + g2 + 1)" using assms by (intro mult_mono) simp_all
  then have "1 * u \<le> g2 * (g1 + g2 + 1) * u" using assms(1) by (intro mult_right_mono) simp_all
  then have "u \<le> g1 * v" using le by simp
  then show ?thesis using pos(1) by (simp add: pos_divide_le_eq mult.commute)
qed

lemma exact_height_between:
  assumes ok: "markers_ok g m" and i: "0 < i" "i < 4"
    and move: "(dsign = 1 \<and> 1 < m (i + 1) - m i) \<or> (dsign = -1 \<and> m (i - 1) - m i < -1)"
  shows "g (i - 1) \<le> exact_height g (of_int \<circ> m) i dsign \<and> exact_height g (of_int \<circ> m) i dsign \<le> g (i + 1)"
proof -
  define u where "u = g i - g (i - 1)"
  define v where "v = g (i + 1) - g i"
  define g1 :: rat where "g1 = of_int (m i) - of_int (m (i - 1))"
  define g2 :: rat where "g2 = of_int (m (i + 1)) - of_int (m i)"
  have o: "\<And>k. k < 4 \<Longrightarrow> g k \<le> g (k + 1) \<and> m k + 1 \<le> m (k + 1)" using ok by (simp add: markers_ok_def)
  have i': "Suc (i - 1) = i" using i by simp
  have gap: "1 \<le> m i - m (i - 1)" "1 \<le> m (i + 1) - m i" using o [of "i - 1"] o [of i] i i' by simp_all
  have lift: "of_int k \<le> (of_int b - of_int a :: rat)" if "k \<le> b - a" for k a b :: int
    using that by (simp only: of_int_diff [symmetric] of_int_le_iff)
  have uv: "0 \<le> u" "0 \<le> v" "1 \<le> g1" "1 \<le> g2"
    using o [of "i - 1"] o [of i] i i' lift [OF gap(1)] lift [OF gap(2)] by (simp_all add: u_def v_def g1_def g2_def)
  define w where "w = ((g1 - 1) / g2 * v + (g2 + 1) / g1 * u) / (g1 + g2)"
  have ne: "g1 + g2 \<noteq> 0" using uv by simp
  have at: "g (i - 1) = g i - u" "g (i + 1) = g i + v" by (simp_all add: u_def v_def)
  have den: "(of_int (m (i + 1)) :: rat) - of_int (m (i - 1)) = g1 + g2" by (simp add: g1_def g2_def)
  let ?n = "of_int \<circ> m :: nat \<Rightarrow> rat"
  show ?thesis
  proof (cases "g (i - 1) < parabola g ?n i dsign \<and> parabola g ?n i dsign < g (i + 1)")
    case True
    then show ?thesis by (simp add: exact_height_def)
  next
    case out: False
    show ?thesis
    proof (cases "dsign = 1")
      case True
      have "2 \<le> g2" using move True lift [of 2 "m (i + 1)" "m i"] by (simp add: g2_def)
      then have "0 \<le> v / g2" "v / g2 \<le> v" using line_up uv(2) by blast+
      moreover have "exact_height g ?n i dsign = g i + v / g2" unfolding exact_height_def if_not_P [OF out] using True by (simp add: v_def g2_def)
      ultimately show ?thesis using at uv(1) by linarith
    next
      case False
      then have d: "dsign = -1" using move by simp
      have g1: "2 \<le> g1" using move d lift [of 2 "m i" "m (i - 1)"] by (simp add: g1_def)
      have hp: "parabola g ?n i dsign = g i - w"
      proof -
        have "parabola g ?n i dsign = g i + ((g1 + dsign) / g2 * v + (g2 - dsign) / g1 * u) * dsign / (g1 + g2)"
          unfolding parabola_def o_def den by (simp add: u_def v_def g1_def g2_def)
        also have "(g1 + dsign) / g2 * v + (g2 - dsign) / g1 * u = (g1 - 1) / g2 * v + (g2 + 1) / g1 * u" using d by simp
        finally show ?thesis using d unfolding w_def by (simp only: mult_minus1_right)
      qed
      have q: "0 \<le> w" using uv g1 by (simp add: w_def)
      have "u / g1 \<le> v"
      proof (cases "parabola g ?n i dsign \<le> g (i - 1)")
        case True
        then have "u \<le> w" using hp at by simp
        then show ?thesis by (intro line_down [OF uv(1,2) g1 uv(4)]) (simp only: w_def)
      next
        case above: False
        then have "v \<le> - w" using out hp at by simp
        then have w0: "w = 0" and v0: "v = 0" using q uv(2) by linarith+
        have "(g2 + 1) / g1 * u = 0" using w0 v0 ne unfolding w_def by simp
        then have "u = 0" using uv(3,4) by (simp add: add_nonneg_eq_0_iff)
        then show ?thesis using uv by simp
      qed
      moreover have "0 \<le> u / g1" using uv by simp
      moreover have "exact_height g ?n i dsign = g i + u / g1"
      proof -
        have "exact_height g ?n i dsign = g i + (- u) / (- g1)" unfolding exact_height_def if_not_P [OF out] using d by (simp add: u_def g1_def)
        then show ?thesis by simp
      qed
      ultimately show ?thesis using at uv(1) by linarith
    qed
  qed
qed

section \<open>What the markers maintain\<close>

text \<open>The positions are whole numbers from 1 on that ascend by at least one.\<close>

definition whole_positions :: "int \<Rightarrow> (nat \<Rightarrow> int) \<Rightarrow> (nat \<Rightarrow> cdouble) \<Rightarrow> bool" where
  "whole_positions c m n \<longleftrightarrow> (\<forall>i < 5. n i = of_i (m i)) \<and> 1 \<le> m 0 \<and> (\<forall>i < 4. m i + 1 \<le> m (i + 1)) \<and> m 4 \<le> c"

definition ascending :: "(nat \<Rightarrow> cdouble) \<Rightarrow> bool" where
  "ascending h \<longleftrightarrow> (\<exists>g. (\<forall>i < 5. h i = Fin (g i)) \<and> (\<forall>i < 4. g i \<le> g (i + 1)))"

definition kept :: "fpu \<Rightarrow> (nat \<Rightarrow> cdouble) \<Rightarrow> (nat \<Rightarrow> cdouble) \<Rightarrow> bool" where
  "kept f h h' \<longleftrightarrow> h' 0 = h 0 \<and> h' 4 = h 4 \<and> (exact_fpu f \<longrightarrow> ascending h \<longrightarrow> ascending h')"

lemma kept_refl [simp]: "kept f h h"
  by (simp add: kept_def)

lemma kept_trans: "kept f h h' \<Longrightarrow> kept f h' h'' \<Longrightarrow> kept f h h''"
  by (simp add: kept_def)

lemma positions_range:
  assumes "whole_positions c m n" "i < 5"
  shows "1 \<le> m i \<and> m i \<le> c"
proof -
  have up: "\<And>k. k < 4 \<Longrightarrow> m k + 1 \<le> m (k + 1)" and e: "1 \<le> m 0" "m 4 \<le> c" using assms(1) by (simp_all add: whole_positions_def)
  have "m 0 + 1 \<le> m 1" "m 1 + 1 \<le> m 2" "m 2 + 1 \<le> m 3" "m 3 + 1 \<le> m 4"
    using up [of 0] up [of 1] up [of 2] up [of 3] by (simp_all add: numeral_2_eq_2 [symmetric])
  moreover have "i = 0 \<or> i = 1 \<or> i = 2 \<or> i = 3 \<or> i = 4" using assms(2) by linarith
  ultimately show ?thesis using e by auto
qed

lemma step_ok:
  assumes f: "ieee_fpu f" and w: "whole_positions c m n" "c \<le> 2 ^ 52" and i: "0 < i" "i < 4"
    and move: "(s = 1 \<and> 1 < m (i + 1) - m i) \<or> (s = -1 \<and> m (i - 1) - m i < -1)"
  shows "\<exists>h'. TqPSquareAdjustStep f i (of_i s) (h, n) = (h', n(i := of_i (m i + s))) \<and>
    whole_positions c (m(i := m i + s)) (n(i := of_i (m i + s))) \<and> kept f h h'"
proof -
  have at: "\<And>k. k < 5 \<Longrightarrow> n k = of_i (m k)" and up: "\<And>k. k < 4 \<Longrightarrow> m k + 1 \<le> m (k + 1)"
    and e: "1 \<le> m 0" "m 4 \<le> c" using w(1) by (simp_all add: whole_positions_def)
  have i': "Suc (i - 1) = i" using i by simp
  have gap: "1 \<le> m i - m (i - 1)" "1 \<le> m (i + 1) - m i" using up [of "i - 1"] up [of i] i i' by simp_all
  have "1 \<le> m i" "m (i + 1) \<le> c" using positions_range [OF w(1), of i] positions_range [OF w(1), of "i + 1"] i by simp_all
  then have "\<bar>m i + s\<bar> \<le> 2 ^ 52" using gap w(2) move by auto
  then have add: "f_add f (n i) (of_i s) = of_i (m i + s)" using ieee_add [OF f, of "m i" s] at [of i] i by simp
  define h' where "h' = fst (TqPSquareAdjustStep f i (of_i s) (h, n))"
  have r: "TqPSquareAdjustStep f i (of_i s) (h, n) = (h', n(i := of_i (m i + s)))"
    unfolding h'_def by (simp add: TqPSquareAdjustStep_def Let_def add)
  have only: "h' k = h k" if "k \<noteq> i" for k unfolding h'_def using that by (simp add: TqPSquareAdjustStep_def Let_def)
  have whole: "whole_positions c (m(i := m i + s)) (n(i := of_i (m i + s)))"
    unfolding whole_positions_def
  proof (intro conjI allI impI)
    fix k :: nat assume k: "k < 4"
    consider "k = i" | "k + 1 = i" | "k \<noteq> i" "k + 1 \<noteq> i" by blast
    then show "(m(i := m i + s)) k + 1 \<le> (m(i := m i + s)) (k + 1)" by (cases; use move up [OF k] in auto)
  qed (use e i at in auto)
  have "ascending h'" if x: "exact_fpu f" "ascending h"
  proof -
    obtain g where g: "\<And>k. k < 5 \<Longrightarrow> h k = Fin (g k)" "\<And>k. k < 4 \<Longrightarrow> g k \<le> g (k + 1)" using x(2) unfolding ascending_def by blast
    have ok: "markers_ok g m" using g(2) up by (simp add: markers_ok_def)
    let ?e = "exact_height g (of_int \<circ> m) i (of_int s)"
    have rd: "(rat_of_int s = 1 \<and> 1 < m (i + 1) - m i) \<or> (rat_of_int s = -1 \<and> m (i - 1) - m i < -1)" using move by auto
    have b: "g (i - 1) \<le> ?e" "?e \<le> g (i + 1)" using exact_height_between [OF ok i rd] by blast+
    have "TqPSquareAdjustStep f i (of_i s) (h, n) = (h(i := Fin ?e), n(i := Fin ((of_int \<circ> m) i + of_int s)))"
      by (rule step_exact [OF x(1)]) (use g(1) at gap i in auto)
    then have h': "h' = h(i := Fin ?e)" by (simp add: h'_def)
    have "\<forall>k < 5. h' k = Fin ((g(i := ?e)) k)" using g(1) by (simp add: h')
    moreover have "(g(i := ?e)) k \<le> (g(i := ?e)) (k + 1)" if k: "k < 4" for k
    proof -
      consider "k = i" | "k + 1 = i" | "k \<noteq> i" "k + 1 \<noteq> i" by blast
      then show ?thesis by (cases; use b g(2) [OF k] in auto)
    qed
    ultimately show ?thesis unfolding ascending_def by blast
  qed
  then have "kept f h h'" using only i by (simp add: kept_def)
  then show ?thesis using r whole by blast
qed

text \<open>The two conditions of the loop on whole positions, and that the direction never changes.\<close>

lemma gap_up: "ieee_fpu f \<Longrightarrow> whole_positions c m n \<Longrightarrow> c \<le> 2 ^ 52 \<Longrightarrow> i < 4 \<Longrightarrow>
    dless (Fin 1) (f_sub f (n (i + 1)) (n i)) \<longleftrightarrow> 1 < m (i + 1) - m i"
proof -
  assume a: "ieee_fpu f" "whole_positions c m n" "c \<le> 2 ^ 52" "i < 4"
  have at: "n i = of_i (m i)" "n (i + 1) = of_i (m (i + 1))" using a(2,4) by (simp_all add: whole_positions_def)
  have "f_sub f (n (i + 1)) (n i) = of_i (m (i + 1) - m i)" unfolding at
    by (rule ieee_sub [OF a(1)]) (use positions_range [OF a(2), of i] positions_range [OF a(2), of "i + 1"] a(3,4) in auto)
  moreover have "(1 :: rat) < of_int (m (i + 1) - m i) \<longleftrightarrow> 1 < m (i + 1) - m i" by (simp only: of_int_1_less_iff)
  ultimately show ?thesis by simp
qed

lemma gap_down: "ieee_fpu f \<Longrightarrow> whole_positions c m n \<Longrightarrow> c \<le> 2 ^ 52 \<Longrightarrow> 0 < i \<Longrightarrow> i < 4 \<Longrightarrow>
    dless (f_sub f (n (i - 1)) (n i)) (Fin (-1)) \<longleftrightarrow> m (i - 1) - m i < -1"
proof -
  assume a: "ieee_fpu f" "whole_positions c m n" "c \<le> 2 ^ 52" "0 < i" "i < 4"
  have at: "n i = of_i (m i)" "n (i - 1) = of_i (m (i - 1))" using a(2,5) by (simp_all add: whole_positions_def)
  have "f_sub f (n (i - 1)) (n i) = of_i (m (i - 1) - m i)" unfolding at
  proof (rule ieee_sub [OF a(1)])
    have "i - 1 < 5" "i < 5" using a(5) by simp_all
    note r = this [THEN positions_range [OF a(2)]]
    show "\<bar>m (i - 1) - m i\<bar> \<le> 2 ^ 52" using r a(3) by linarith
  qed
  moreover have "(of_int (m (i - 1) - m i) :: rat) < -1 \<longleftrightarrow> m (i - 1) - m i < -1"
    using of_int_less_iff [of "m (i - 1) - m i" "-1", where ?'a = rat] by simp
  ultimately show ?thesis by simp
qed

definition marker_done :: "fpu \<Rightarrow> int \<Rightarrow> (nat \<Rightarrow> cdouble) \<Rightarrow> markers option \<Rightarrow> bool" where
  "marker_done f c h r \<longleftrightarrow> (\<exists>h' m' n'. r = Some (h', n') \<and> whole_positions c m' n' \<and> kept f h h')"

lemma marker_done_kept: "kept f h h' \<Longrightarrow> marker_done f c h' r \<Longrightarrow> marker_done f c h r"
  unfolding marker_done_def using kept_trans by blast

lemma marker_up:
  assumes f: "ieee_fpu f" "c \<le> 2 ^ 52" "0 < i" "i < 4"
    and "whole_positions c m n" "\<not> dle (f_sub f (d i) (n i)) (Fin (-1))"
  shows "marker_done f c h (TqPSquareAdjustMarker f i d (h, n))"
  using assms(5,6)
proof (induction "nat (m (i + 1) - m i)" arbitrary: h m n rule: less_induct)
  case less
  have at: "n i = of_i (m i)" using less.prems(1) f(4) by (simp add: whole_positions_def)
  show ?case
  proof (cases "dle (Fin 1) (f_sub f (d i) (n i)) \<and> dless (Fin 1) (f_sub f (n (i + 1)) (n i))")
    case True
    then have big: "1 < m (i + 1) - m i" using gap_up [OF f(1) less.prems(1) f(2,4)] by blast
    obtain h' where s: "TqPSquareAdjustStep f i (of_i 1) (h, n) = (h', n(i := of_i (m i + 1)))"
      "whole_positions c (m(i := m i + 1)) (n(i := of_i (m i + 1)))" "kept f h h'"
      using step_ok [OF f(1) less.prems(1) f(2,3,4), of 1 h] big by blast
    have "\<not> dle (f_sub f (d i) ((n(i := of_i (m i + 1))) i)) (Fin (-1))"
      using no_turn [OF f(1), of "d i" "of_int (m i)"] True at by simp
    then have "marker_done f c h' (TqPSquareAdjustMarker f i d (h', n(i := of_i (m i + 1))))"
      by (intro less.hyps [OF _ s(2)]) (use big in simp_all)
    moreover have "TqPSquareAdjustMarker f i d (h, n) = TqPSquareAdjustMarker f i d (h', n(i := of_i (m i + 1)))"
      using True s(1) by (subst TqPSquareAdjustMarker.simps) (simp add: Let_def)
    ultimately show ?thesis using marker_done_kept [OF s(3)] by simp
  next
    case False
    then have "TqPSquareAdjustMarker f i d (h, n) = Some (h, n)"
      using less.prems(2) by (subst TqPSquareAdjustMarker.simps) (auto simp: Let_def)
    then show ?thesis using less.prems(1) by (auto simp: marker_done_def)
  qed
qed

lemma marker_down:
  assumes f: "ieee_fpu f" "c \<le> 2 ^ 52" "0 < i" "i < 4"
    and "whole_positions c m n" "\<not> dle (Fin 1) (f_sub f (d i) (n i))"
  shows "marker_done f c h (TqPSquareAdjustMarker f i d (h, n))"
  using assms(5,6)
proof (induction "nat (m i - m (i - 1))" arbitrary: h m n rule: less_induct)
  case less
  have at: "n i = of_i (m i)" using less.prems(1) f(4) by (simp add: whole_positions_def)
  show ?case
  proof (cases "dle (f_sub f (d i) (n i)) (Fin (-1)) \<and> dless (f_sub f (n (i - 1)) (n i)) (Fin (-1))")
    case True
    then have big: "m (i - 1) - m i < -1" using gap_down [OF f(1) less.prems(1) f(2,3,4)] by blast
    obtain h' where s: "TqPSquareAdjustStep f i (of_i (-1)) (h, n) = (h', n(i := of_i (m i + -1)))"
      "whole_positions c (m(i := m i + -1)) (n(i := of_i (m i + -1)))" "kept f h h'"
      using step_ok [OF f(1) less.prems(1) f(2,3,4), of "-1" h] big by blast
    have "\<not> dle (Fin 1) (f_sub f (d i) ((n(i := of_i (m i + -1))) i))"
      using no_turn [OF f(1), of "d i" "of_int (m i + -1)"] True at by simp
    then have "marker_done f c h' (TqPSquareAdjustMarker f i d (h', n(i := of_i (m i + -1))))"
      by (intro less.hyps [OF _ s(2)]) (use big f(3) in simp_all)
    moreover have "TqPSquareAdjustMarker f i d (h, n) = TqPSquareAdjustMarker f i d (h', n(i := of_i (m i + -1)))"
      using True s(1) less.prems(2) by (subst TqPSquareAdjustMarker.simps) (simp add: Let_def)
    ultimately show ?thesis using marker_done_kept [OF s(3)] by simp
  next
    case False
    then have "TqPSquareAdjustMarker f i d (h, n) = Some (h, n)"
      using less.prems(2) by (subst TqPSquareAdjustMarker.simps) (auto simp: Let_def)
    then show ?thesis using less.prems(1) by (auto simp: marker_done_def)
  qed
qed

lemma marker_ends:
  assumes "ieee_fpu f" "c \<le> 2 ^ 52" "0 < i" "i < 4" "whole_positions c m n"
  shows "marker_done f c h (TqPSquareAdjustMarker f i d (h, n))"
proof (cases "dle (Fin 1) (f_sub f (d i) (n i))")
  case True
  then have "\<not> dle (f_sub f (d i) (n i)) (Fin (-1))" by (cases "f_sub f (d i) (n i)") (auto simp: dle_def)
  then show ?thesis by (rule marker_up [OF assms])
qed (rule marker_down [OF assms])

lemma adjust_all_ends:
  assumes "ieee_fpu f" "c \<le> 2 ^ 52" "whole_positions c m n" "set is \<subseteq> {1, 2, 3}"
  shows "marker_done f c h (adjust_markers f d is (h, n))"
  using assms(3,4)
proof (induction "is" arbitrary: h m n)
  case (Cons i "is")
  have i: "0 < i" "i < 4" using Cons.prems(2) by auto
  obtain h' m' n' where s: "TqPSquareAdjustMarker f i d (h, n) = Some (h', n')" "whole_positions c m' n'" "kept f h h'"
    using marker_ends [OF assms(1,2) i Cons.prems(1), of h d] unfolding marker_done_def by blast
  have "marker_done f c h' (adjust_markers f d is (h', n'))" by (rule Cons.IH [OF s(2)]) (use Cons.prems(2) in simp)
  then show ?case using s(1) marker_done_kept [OF s(3)] by simp
qed (auto simp: marker_done_def)

section \<open>Properties of the streaming quantile\<close>

definition psq_inv :: "fpu \<Rightarrow> rat list \<Rightarrow> psquare \<Rightarrow> bool" where
  "psq_inv f xs p \<longleftrightarrow> ps_count p = length xs \<and>
     (if length xs < 5 then \<exists>g. ps_heights p = Fin \<circ> g \<and> map g [0..<length xs] = xs
      else (\<exists>m. whole_positions (int (length xs)) m (ps_positions p)) \<and>
        ps_heights p 0 = Fin (Min (set xs)) \<and> ps_heights p 4 = Fin (Max (set xs)) \<and> (exact_fpu f \<longrightarrow> ascending (ps_heights p)))"

lemma sort_ends:
  assumes "xs \<noteq> []"
  shows "sort xs ! 0 = Min (set xs)" "sort xs ! (length xs - 1) = Max (set xs)"
proof -
  have nth: "sort xs ! 0 \<in> set xs" "sort xs ! (length xs - 1) \<in> set xs" using assms by (metis length_greater_0_conv length_sort nth_mem set_sort diff_less zero_less_one)+
  have "sort xs ! 0 \<le> x \<and> x \<le> sort xs ! (length xs - 1)" if x: "x \<in> set xs" for x
  proof -
    obtain k where k: "k < length xs" "x = sort xs ! k" using x by (metis in_set_conv_nth length_sort set_sort)
    show ?thesis unfolding k(2) using sorted_nth_mono [OF sorted_sort, of 0 k xs] sorted_nth_mono [OF sorted_sort, of k "length xs - 1" xs] k(1) by simp
  qed
  then show "sort xs ! 0 = Min (set xs)" "sort xs ! (length xs - 1) = Max (set xs)"
    using nth by (intro Min_eqI [symmetric] Max_eqI [symmetric]; simp)+
qed

lemma map_upd_above: "map (h(n := x)) [0..<n] = map h [0..<n]"
  by (rule map_cong) simp_all

lemma Fin_upd: "(Fin \<circ> g)(i := Fin x) = Fin \<circ> g(i := x)"
  by (simp add: fun_eq_iff)

text \<open>The cell of a value: the ends become the smaller and the larger one, and ascending heights stay so.\<close>

lemma cell_ok:
  assumes "psquare_cell h (Fin x) = (h', k)" "h 0 = Fin a" "h 4 = Fin b" "a \<le> b"
  shows "h' 0 = Fin (min a x)" "h' 4 = Fin (max b x)" "ascending h \<Longrightarrow> ascending h'"
proof -
  have h': "h' = (if x < a then h(0 := Fin x) else if b < x then h(4 := Fin x) else h)"
    using assms(1-3) by (auto simp: psquare_cell_def PSQUARE_N_def Let_def split: if_splits)
  show "h' 0 = Fin (min a x)" "h' 4 = Fin (max b x)" using assms(2-4) unfolding h' by (auto simp: min_def max_def)
  assume "ascending h"
  then obtain g where g: "\<And>i. i < 5 \<Longrightarrow> h i = Fin (g i)" "\<And>i. i < 4 \<Longrightarrow> g i \<le> g (i + 1)" unfolding ascending_def by blast
  have e: "g 0 = a" "g 4 = b" using g(1) [of 0] g(1) [of 4] assms(2,3) by simp_all
  define g' where "g' = (if x < a then g(0 := x) else if b < x then g(4 := x) else g)"
  have "\<forall>i < 5. h' i = Fin (g' i)" using g(1) by (simp add: h' g'_def)
  moreover have "g' i \<le> g' (i + 1)" if i: "i < 4" for i
    using g(2) [OF i] e i by (cases "i = 0"; cases "i = 3") (auto simp: g'_def eval_nat_numeral)
  ultimately show "ascending h'" unfolding ascending_def by blast
qed

lemma raise_ok:
  assumes f: "ieee_fpu f" and w: "whole_positions c m n" "c + 1 \<le> 2 ^ 52"
  shows "\<exists>m'. whole_positions (c + 1) m' (raise_positions f k n)"
proof -
  have at: "\<And>i. i < 5 \<Longrightarrow> n i = of_i (m i)" and up: "\<And>i. i < 4 \<Longrightarrow> m i + 1 \<le> m (i + 1)" and e: "1 \<le> m 0" "m 4 \<le> c"
    using w(1) by (simp_all add: whole_positions_def)
  define m' where "m' = (\<lambda>i. if k < i \<and> i < 5 then m i + 1 else m i)"
  have "raise_positions f k n i = of_i (m' i)" if i: "i < 5" for i
  proof -
    have "\<bar>m i + 1\<bar> \<le> 2 ^ 52" using positions_range [OF w(1) i] w(2) by linarith
    then show ?thesis using ieee_add [OF f, of "m i" 1] at [OF i] by (simp add: raise_positions_def m'_def PSQUARE_N_def)
  qed
  moreover have "m' i + 1 \<le> m' (i + 1)" if "i < 4" for i using up [OF that] that by (simp add: m'_def)
  moreover have "1 \<le> m' 0" "m' 4 \<le> c + 1" using e by (simp_all add: m'_def)
  ultimately show ?thesis unfolding whole_positions_def by blast
qed

lemma push_ok:
  assumes f: "ieee_fpu f" and inv: "psq_inv f xs p" and n: "length xs < 2 ^ 52"
  shows "\<exists>p'. TqPSquarePush f p (Fin x) = Some p' \<and> psq_inv f (xs @ [x]) p'"
proof -
  have c: "ps_count p = length xs" using inv by (simp add: psq_inv_def)
  consider "length xs < 4" | "length xs = 4" | "5 \<le> length xs" by linarith
  then show ?thesis
  proof cases
    case 1
    then obtain g where g: "ps_heights p = Fin \<circ> g" "map g [0..<length xs] = xs" using inv by (auto simp: psq_inv_def)
    have "map (g(length xs := x)) [0..<length (xs @ [x])] = xs @ [x]" using g(2) by (simp add: map_upd_above del: fun_upd_apply) simp
    then show ?thesis using 1 c g(1)
      by (auto simp: psq_inv_def TqPSquarePush_def PSQUARE_N_def Let_def not_finite_def Fin_upd intro!: exI [of _ "g(length xs := x)"] simp del: fun_upd_apply)
  next
    case 2
    then obtain g where g: "ps_heights p = Fin \<circ> g" "map g [0..<4] = xs" using inv by (auto simp: psq_inv_def)
    define k where "k = exchange_sort (<) 5 (g(4 := x))"
    have m: "map (g(4 := x)) [0..<5] = xs @ [x]"
    proof -
      have "map (g(4 := x)) [0..<4] = xs" using g(2) by (simp add: map_upd_above del: fun_upd_apply)
      moreover have "[0..<5] = [0..<4] @ [4 :: nat]" by (simp add: upt_rec)
      ultimately show ?thesis by simp
    qed
    have s: "map k [0..<5] = sort (xs @ [x])" using exchange_sort_sorts [of 5 "g(4 := x)"] m by (simp add: k_def)
    have at: "k i = sort (xs @ [x]) ! i" if "i < 5" for i using arg_cong [OF s, of "\<lambda>l. l ! i"] that by simp
    have ascends: "k i \<le> k (i + 1)" if "i < 4" for i
      using at [of i] at [of "i + 1"] that 2 sorted_nth_mono [OF sorted_sort, of i "i + 1" "xs @ [x]"] by simp
    have e: "k 0 = Min (set (xs @ [x]))" "k 4 = Max (set (xs @ [x]))"
      using at [of 0] at [of 4] sort_ends [of "xs @ [x]"] 2 by simp_all
    have "TqPSquarePush f p (Fin x) = Some (p\<lparr>ps_count := 5, ps_heights := Fin \<circ> k, ps_positions := (\<lambda>i. Fin (of_nat (i + 1)))\<rparr>)"
      using c 2 g(1) by (simp add: TqPSquarePush_def PSQUARE_N_def not_finite_def Fin_upd exchange_sort_finite k_def del: fun_upd_apply)
    moreover have "whole_positions 5 (\<lambda>i. int i + 1) (\<lambda>i. Fin (of_nat (i + 1)))" by (simp add: whole_positions_def)
    moreover have "ascending (Fin \<circ> k)" using ascends by (auto simp: ascending_def)
    ultimately show ?thesis using 2 e by (auto simp: psq_inv_def)
  next
    case 3
    then obtain m where i: "whole_positions (int (length xs)) m (ps_positions p)" "ps_heights p 0 = Fin (Min (set xs))"
      "ps_heights p 4 = Fin (Max (set xs))" "exact_fpu f \<Longrightarrow> ascending (ps_heights p)"
      using inv by (auto simp: psq_inv_def)
    have ne: "xs \<noteq> []" using 3 by auto
    obtain h k where k: "psquare_cell (ps_heights p) (Fin x) = (h, k)" by (cases "psquare_cell (ps_heights p) (Fin x)")
    have "Min (set xs) \<le> Max (set xs)" using ne by simp
    note ck = cell_ok [OF k i(2,3) this]
    have len: "int (length xs) + 1 \<le> 2 ^ 52" using n [simplified] by simp
    obtain m1 where w: "whole_positions (int (length xs) + 1) m1 (raise_positions f k (ps_positions p))" using raise_ok [OF f i(1) len] by blast
    have "set [1..<PSQUARE_N - 1] \<subseteq> {1, 2, 3}" by (auto simp: PSQUARE_N_def)
    from adjust_all_ends [OF f len w this, of h "n_desired f (ps_target p) (length xs)"]
    obtain h' m' n' where a: "adjust_markers f (n_desired f (ps_target p) (length xs)) [1..<PSQUARE_N - 1] (h, raise_positions f k (ps_positions p)) = Some (h', n')"
      "whole_positions (int (length xs) + 1) m' n'" "kept f h h'"
      unfolding marker_done_def by blast
    have later: "\<not> length xs < PSQUARE_N" "\<not> not_finite (Fin x)" using 3 by (simp_all add: PSQUARE_N_def not_finite_def)
    have "TqPSquarePush f p (Fin x) = Some (p\<lparr>ps_count := length xs + 1, ps_heights := h', ps_positions := n'\<rparr>)"
      unfolding TqPSquarePush_def c if_not_P [OF later(1)] if_not_P [OF later(2)] Let_def k prod.case add_diff_cancel_right' a(1) option.case by (rule refl)
    moreover have "Min (set (xs @ [x])) = min (Min (set xs)) x" "Max (set (xs @ [x])) = max (Max (set xs)) x"
      using Min_insert [of "set xs" x] Max_insert [of "set xs" x] ne by (simp_all add: min.commute [of x] max.commute [of x])
    ultimately show ?thesis using 3 a(2,3) ck i(4) by (auto simp: psq_inv_def kept_def add.commute)
  qed
qed

definition finite_values :: "cdouble list \<Rightarrow> rat list" where
  "finite_values vs = concat (map (\<lambda>v. case v of Fin x \<Rightarrow> [x] | _ \<Rightarrow> []) vs)"

lemma finite_values_simps [simp]:
  "finite_values [] = []" "finite_values (Fin x # vs) = x # finite_values vs"
  "not_finite v \<Longrightarrow> finite_values (v # vs) = finite_values vs" "finite_values (map Fin xs) = xs"
  by (induction xs) (auto simp: finite_values_def not_finite_def split: cdouble.splits)

lemma push_all_ok:
  assumes "ieee_fpu f" "psq_inv f xs p" "length xs + length (finite_values vs) \<le> 2 ^ 52"
  shows "\<exists>p'. psquare_pushes f p vs = Some p' \<and> psq_inv f (xs @ finite_values vs) p'"
  using assms(2,3)
proof (induction vs arbitrary: xs p)
  case (Cons v vs)
  show ?case
  proof (cases "not_finite v")
    case True
    then show ?thesis using Cons by (simp add: TqPSquarePush_def)
  next
    case False
    then obtain x where v: "v = Fin x" by (cases v) (auto simp: not_finite_def)
    obtain p1 where p1: "TqPSquarePush f p (Fin x) = Some p1" "psq_inv f (xs @ [x]) p1"
      using push_ok [OF assms(1) Cons.prems(1), of x] Cons.prems(2) v by auto
    show ?thesis using Cons.IH [OF p1(2)] p1(1) Cons.prems(2) v by simp
  qed
qed simp

lemma init_inv: "psq_inv f [] (TqPSquareInit q)"
  by (auto simp: psq_inv_def TqPSquareInit_def intro!: exI [of _ "\<lambda>_. 0"])

text \<open>
  C13. The estimate of a quantile from a stream, for every arithmetic with IEEE 754 sums and differences and
  every stream of at most \<open>2 ^ 52\<close> finite values: the pushes end (no marker is ever sent back and forth), the
  values that are not finite are ignored and the others counted; up to four values the estimate is their median
  (the upper one); from the fifth on the outer markers are the smallest and the largest value seen and the
  positions are whole numbers that ascend from one to at most the count. In exact arithmetic (only there: with
  rounding or overflow a marker can leave its neighbors) the five heights ascend, so that the estimate always
  lies between the smallest and the largest value.
\<close>

theorem psquare_brackets:
  assumes "ieee_fpu f" "xs = finite_values vs" "xs \<noteq> []" "length xs \<le> 2 ^ 52"
  shows "\<exists>p. psquare_pushes f (TqPSquareInit q) vs = Some p \<and> ps_count p = length xs \<and>
    (length xs < 5 \<longrightarrow> TqPSquareEstimate p = Fin (sort xs ! (length xs div 2))) \<and>
    (5 \<le> length xs \<longrightarrow> ps_heights p 0 = Fin (Min (set xs)) \<and> ps_heights p 4 = Fin (Max (set xs)) \<and>
       (\<exists>m. whole_positions (int (length xs)) m (ps_positions p))) \<and>
    (exact_fpu f \<longrightarrow> (5 \<le> length xs \<longrightarrow> ascending (ps_heights p)) \<and>
       (\<exists>e. TqPSquareEstimate p = Fin e \<and> Min (set xs) \<le> e \<and> e \<le> Max (set xs)))"
proof -
  obtain p where p: "psquare_pushes f (TqPSquareInit q) vs = Some p" "psq_inv f xs p"
    using push_all_ok [OF assms(1) init_inv, of vs q] assms(2,4) by auto
  then have c: "ps_count p = length xs" by (simp add: psq_inv_def)
  show ?thesis
  proof (cases "length xs < 5")
    case True
    then obtain g where g: "ps_heights p = Fin \<circ> g" "map g [0..<length xs] = xs" using p(2) by (auto simp: psq_inv_def)
    have half: "length xs div 2 < length xs" using assms(3) by simp
    have "exchange_sort (<) (length xs) g (length xs div 2) = sort xs ! (length xs div 2)"
      using arg_cong [OF exchange_sort_sorts [of "length xs" g], of "\<lambda>l. l ! (length xs div 2)"] half g(2) by simp
    then have e: "TqPSquareEstimate p = Fin (sort xs ! (length xs div 2))"
      using c True assms(3) g(1) by (simp add: TqPSquareEstimate_def PSQUARE_N_def exchange_sort_finite)
    have "sort xs ! (length xs div 2) \<in> set xs" using half by (metis length_sort nth_mem set_sort)
    then show ?thesis using p(1) c True e by auto
  next
    case False
    then have i: "\<exists>m. whole_positions (int (length xs)) m (ps_positions p)" "ps_heights p 0 = Fin (Min (set xs))" "ps_heights p 4 = Fin (Max (set xs))"
      "exact_fpu f \<longrightarrow> ascending (ps_heights p)"
      using p(2) by (simp_all add: psq_inv_def)
    have est: "TqPSquareEstimate p = ps_heights p 2" using c False assms(3) by (simp add: TqPSquareEstimate_def PSQUARE_N_def)
    have "\<exists>e. ps_heights p 2 = Fin e \<and> Min (set xs) \<le> e \<and> e \<le> Max (set xs)" if x: "exact_fpu f"
    proof -
      obtain g where g: "\<And>k. k < 5 \<Longrightarrow> ps_heights p k = Fin (g k)" "\<And>k. k < 4 \<Longrightarrow> g k \<le> g (k + 1)"
        using i(4) x unfolding ascending_def by blast
      have "g 0 \<le> g 1" "g 1 \<le> g 2" "g 2 \<le> g 3" "g 3 \<le> g 4"
        using g(2) [of 0] g(2) [of 1] g(2) [of 2] g(2) [of 3] by (simp_all add: numeral_2_eq_2 [symmetric])
      moreover have "g 0 = Min (set xs)" "g 4 = Max (set xs)" using g(1) [of 0] g(1) [of 4] i(2,3) by simp_all
      ultimately show ?thesis using g(1) [of 2] by simp
    qed
    then show ?thesis using p(1) c False i est by simp
  qed
qed

text \<open>A stream in which every value is larger than the one before leaves the positions at one to five.\<close>

definition positions_1_to_5 :: "psquare \<Rightarrow> bool" where
  "positions_1_to_5 p \<longleftrightarrow> (\<forall>i < 5. ps_positions p i = of_i (int i + 1))"

lemma adjust_packed:
  "f_sub f (n (i + 1)) (n i) = Fin 1 \<Longrightarrow> f_sub f (n (i - 1)) (n i) = Fin (-1) \<Longrightarrow> TqPSquareAdjustMarker f i desired (h, n) = Some (h, n)"
  by (subst TqPSquareAdjustMarker.simps) (simp add: Let_def)

lemma push_above:
  assumes f: "ieee_fpu f" and p: "positions_1_to_5 p" "5 \<le> ps_count p" "ps_heights p 0 = Fin a" "ps_heights p 4 = Fin b" "b < x" "a \<le> x"
  shows "TqPSquarePush f p (Fin x) = Some (p\<lparr>ps_count := ps_count p + 1, ps_heights := (ps_heights p)(4 := Fin x)\<rparr>)"
proof -
  let ?h = "(ps_heights p)(4 := Fin x)" and ?n = "ps_positions p" and ?d = "n_desired f (ps_target p) (ps_count p)"
  have cell: "psquare_cell (ps_heights p) (Fin x) = (?h, 4)" using p by (simp add: psquare_cell_def PSQUARE_N_def)
  have n: "?n 0 = of_i 1" "?n 1 = of_i 2" "?n 2 = of_i 3" "?n 3 = of_i 4" "?n 4 = of_i 5"
    using p(1) by (simp_all add: positions_1_to_5_def)
  have same: "raise_positions f 4 ?n = ?n" by (rule ext) (auto simp: raise_positions_def PSQUARE_N_def)
  have s: "f_sub f (of_i (k + 1)) (of_i k) = Fin 1" "f_sub f (of_i k) (of_i (k + 1)) = Fin (-1)" for k
    using ieee_sub [OF f, of "k + 1" k] ieee_sub [OF f, of k "k + 1"] by simp_all
  note s5 = s [of 1, simplified] s [of 2, simplified] s [of 3, simplified] s [of 4, simplified]
  have "TqPSquareAdjustMarker f 1 ?d (?h, ?n) = Some (?h, ?n)" "TqPSquareAdjustMarker f 2 ?d (?h, ?n) = Some (?h, ?n)"
    "TqPSquareAdjustMarker f 3 ?d (?h, ?n) = Some (?h, ?n)"
    by (rule adjust_packed; use n s5 in \<open>simp add: numeral_2_eq_2 [symmetric]\<close>)+
  moreover have l: "[1..<PSQUARE_N - 1] = [1, 2, 3]" by (simp add: PSQUARE_N_def upt_conv_Cons)
  ultimately have a: "adjust_markers f ?d [1..<PSQUARE_N - 1] (?h, raise_positions f 4 ?n) = Some (?h, ?n)" by (simp add: same)
  have later: "\<not> ps_count p < PSQUARE_N" "\<not> not_finite (Fin x)" using p(2) by (simp_all add: PSQUARE_N_def not_finite_def)
  show ?thesis
    unfolding TqPSquarePush_def if_not_P [OF later(1)] if_not_P [OF later(2)] Let_def cell prod.case add_diff_cancel_right' a option.case by simp
qed

lemma pushes_append:
  "psquare_pushes f p (us @ vs) = (case psquare_pushes f p us of None \<Rightarrow> None | Some p \<Rightarrow> psquare_pushes f p vs)"
  by (induction us arbitrary: p) (simp_all split: option.splits)

lemma increasing_frozen:
  assumes f: "ieee_fpu f" and "sorted_wrt (<) xs" "5 \<le> length xs"
  shows "\<exists>p. psquare_pushes f (TqPSquareInit q) (map Fin xs) = Some p \<and> positions_1_to_5 p \<and> ps_count p = length xs \<and>
    ps_heights p 0 = Fin (xs ! 0) \<and> ps_heights p 2 = Fin (xs ! 2) \<and> ps_heights p 4 = Fin (last xs)"
  using assms(2,3)
proof (induction xs rule: rev_induct)
  case (snoc x xs)
  show ?case
  proof (cases "5 \<le> length xs")
    case True
    obtain p0 where p0: "psquare_pushes f (TqPSquareInit q) (map Fin xs) = Some p0" "positions_1_to_5 p0" "ps_count p0 = length xs"
      "ps_heights p0 0 = Fin (xs ! 0)" "ps_heights p0 2 = Fin (xs ! 2)" "ps_heights p0 4 = Fin (last xs)"
      using snoc.IH [OF _ True] snoc.prems(1) by (auto simp: sorted_wrt_append)
    have "xs ! 0 \<in> set xs" "last xs \<in> set xs" using True by (auto intro: nth_mem last_in_set)
    then have "xs ! 0 < x" "last xs < x" using snoc.prems(1) by (auto simp: sorted_wrt_append)
    then have "TqPSquarePush f p0 (Fin x) = Some (p0\<lparr>ps_count := ps_count p0 + 1, ps_heights := (ps_heights p0)(4 := Fin x)\<rparr>)"
      using p0 True by (intro push_above [OF f, where a = "xs ! 0" and b = "last xs"]) simp_all
    moreover have "xs \<noteq> []" using True by auto
    ultimately show ?thesis using p0 True by (auto simp: pushes_append positions_1_to_5_def nth_append)
  next
    case False
    then have l: "length xs = 4" using snoc.prems(2) by simp
    obtain p0 where p0: "psquare_pushes f (TqPSquareInit q) (map Fin xs) = Some p0" "psq_inv f xs p0"
      using push_all_ok [OF f init_inv, of "map Fin xs" q] l by auto
    then obtain g where g: "ps_heights p0 = Fin \<circ> g" "map g [0..<4] = xs" using l by (auto simp: psq_inv_def)
    have "map (g(4 := x)) [0..<5] = xs @ [x]"
    proof -
      have "map (g(4 := x)) [0..<4] = xs" using g(2) by (simp add: map_upd_above del: fun_upd_apply)
      moreover have "[0..<5] = [0..<4] @ [4 :: nat]" by (simp add: upt_rec)
      ultimately show ?thesis by simp
    qed
    moreover have "sort (xs @ [x]) = xs @ [x]"
      using snoc.prems(1) strict_sorted_imp_sorted sorted_sort_id by blast
    ultimately have s: "map (exchange_sort (<) 5 (g(4 := x))) [0..<5] = xs @ [x]" using exchange_sort_sorts [of 5 "g(4 := x)"] by simp
    have at: "exchange_sort (<) 5 (g(4 := x)) i = (xs @ [x]) ! i" if "i < 5" for i using arg_cong [OF s, of "\<lambda>l. l ! i"] that by simp
    have "ps_count p0 = 4" using p0(2) l by (simp add: psq_inv_def)
    then have "TqPSquarePush f p0 (Fin x) = Some (p0\<lparr>ps_count := 5, ps_heights := Fin \<circ> exchange_sort (<) 5 (g(4 := x)), ps_positions := (\<lambda>i. Fin (of_nat (i + 1)))\<rparr>)"
      using g(1) by (simp add: TqPSquarePush_def PSQUARE_N_def not_finite_def Fin_upd exchange_sort_finite del: fun_upd_apply)
    then show ?thesis using p0(1) at [of 0] at [of 2] at [of 4] l by (simp add: pushes_append positions_1_to_5_def nth_append)
  qed
qed simp

text \<open>
  C14. Two defects of the estimate. A value above the largest so far takes the cell past the last marker, so no
  marker's position is raised: in every IEEE 754 arithmetic, on an increasing stream the estimate of every
  quantile stays the third value. And where a marker moves down by the line (the parabola does not lie
  strictly between its neighbors), the step has the wrong sign: in exact arithmetic, from all ascending heights and
  positions, the position falls by one and the height rises, above it by exactly as much as the line to the
  lower neighbor would have had it fall. The stream 1000, 1, 3, 0, 1000, 1 reaches such a step: its last value,
  below the estimate 3, raises it to 4.
\<close>

theorem psquare_estimates_go_wrong:
  "(ieee_fpu f \<and> sorted_wrt (<) xs \<and> 5 \<le> length xs \<longrightarrow>
      (\<exists>p. psquare_pushes f (TqPSquareInit q) (map Fin xs) = Some p \<and> TqPSquareEstimate p = Fin (xs ! 2))) \<and>
   (exact_fpu f \<and> markers_ok g m \<and> 0 < i \<and> i < 4 \<and> m (i - 1) - m i < -1 \<and> (\<forall>j < 5. h j = Fin (g j) \<and> n j = of_i (m j)) \<and>
      \<not> (g (i - 1) < parabola g (of_int \<circ> m) i (-1) \<and> parabola g (of_int \<circ> m) i (-1) < g (i + 1)) \<longrightarrow>
      (let slope = (g i - g (i - 1)) / of_int (m i - m (i - 1)); (h', n') = TqPSquareAdjustStep f i (Fin (-1)) (h, n)
       in n' i = of_i (m i - 1) \<and> h' i = Fin (g i + slope) \<and> 0 \<le> slope \<and> (g (i - 1) < g i \<longrightarrow> 0 < slope) \<and>
          g (i - 1) + slope * (of_int (m i - 1) - of_int (m (i - 1))) = g i - slope)) \<and>
   (\<exists>p p'. psquare_pushes demo_fpu (TqPSquareInit (Fin (1 / 10))) (map Fin [1000, 1, 3, 0, 1000]) = Some p \<and>
      TqPSquarePush demo_fpu p (Fin 1) = Some p' \<and> TqPSquareEstimate p = Fin 3 \<and> TqPSquareEstimate p' = Fin 4)"
  (is "?A \<and> ?B \<and> ?C")
proof (intro conjI)
  show ?A
  proof
    assume xs: "ieee_fpu f \<and> sorted_wrt (<) xs \<and> 5 \<le> length xs"
    then obtain p where p: "psquare_pushes f (TqPSquareInit q) (map Fin xs) = Some p" "ps_count p = length xs" "ps_heights p 2 = Fin (xs ! 2)"
      using increasing_frozen [of f xs q] by blast
    moreover have "TqPSquareEstimate p = Fin (xs ! 2)" using p xs by (cases "xs = []") (simp_all add: TqPSquareEstimate_def PSQUARE_N_def)
    ultimately show "\<exists>p. psquare_pushes f (TqPSquareInit q) (map Fin xs) = Some p \<and> TqPSquareEstimate p = Fin (xs ! 2)" by blast
  qed
  show ?B
  proof
    assume a: "exact_fpu f \<and> markers_ok g m \<and> 0 < i \<and> i < 4 \<and> m (i - 1) - m i < -1 \<and> (\<forall>j < 5. h j = Fin (g j) \<and> n j = of_i (m j)) \<and>
      \<not> (g (i - 1) < parabola g (of_int \<circ> m) i (-1) \<and> parabola g (of_int \<circ> m) i (-1) < g (i + 1))"
    define slope where "slope = (g i - g (i - 1)) / of_int (m i - m (i - 1))"
    have o: "\<And>k. k < 4 \<Longrightarrow> g k \<le> g (k + 1) \<and> m k + 1 \<le> m (k + 1)" using a by (simp add: markers_ok_def)
    have "i - 1 < 4" "Suc (i - 1) = i" using a by (simp_all add: less_imp_diff_less)
    then have up: "g (i - 1) \<le> g i" "m i + 1 \<le> m (i + 1)" using o [of "i - 1"] o [of i] a by simp_all
    have gap: "0 < (of_int (m i - m (i - 1)) :: rat)" using a by (simp only: of_int_0_less_iff) simp
    have e: "exact_height g (of_int \<circ> m) i (-1) = g i + slope"
    proof -
      have out: "\<not> (g (i - 1) < parabola g (of_int \<circ> m) i (-1) \<and> parabola g (of_int \<circ> m) i (-1) < g (i + 1))" using a by blast
      have "exact_height g (of_int \<circ> m) i (-1) = g i + (- (g i - g (i - 1))) / (- of_int (m i - m (i - 1)))"
        unfolding exact_height_def if_not_P [OF out] by simp
      then show ?thesis by (simp only: slope_def minus_divide_divide)
    qed
    have s: "TqPSquareAdjustStep f i (Fin (-1)) (h, n) = (h(i := Fin (exact_height g (of_int \<circ> m) i (-1))), n(i := Fin ((of_int \<circ> m) i + -1)))"
      by (rule step_exact) (use a up in auto)
    have slope: "0 \<le> slope \<and> (g (i - 1) < g i \<longrightarrow> 0 < slope)" using up(1) gap by (simp add: slope_def)
    have line: "g (i - 1) + slope * (of_int (m i - 1) - of_int (m (i - 1))) = g i - slope"
    proof -
      have "slope * of_int (m i - m (i - 1)) = g i - g (i - 1)" using gap by (simp add: slope_def del: of_int_diff)
      then show ?thesis by (simp add: algebra_simps)
    qed
    show "let slope = (g i - g (i - 1)) / of_int (m i - m (i - 1)); (h', n') = TqPSquareAdjustStep f i (Fin (-1)) (h, n)
       in n' i = of_i (m i - 1) \<and> h' i = Fin (g i + slope) \<and> 0 \<le> slope \<and> (g (i - 1) < g i \<longrightarrow> 0 < slope) \<and>
          g (i - 1) + slope * (of_int (m i - 1) - of_int (m (i - 1))) = g i - slope"
      unfolding slope_def [symmetric] Let_def s prod.case e using slope line by simp
  qed
  have "TqPSquareEstimate (the (psquare_pushes demo_fpu (TqPSquareInit (Fin (1 / 10))) (map Fin [1000, 1, 3, 0, 1000]))) = Fin 3 \<and>
      psquare_pushes demo_fpu (TqPSquareInit (Fin (1 / 10))) (map Fin [1000, 1, 3, 0, 1000]) \<noteq> None" by code_simp
  moreover have "(case TqPSquarePush demo_fpu (the (psquare_pushes demo_fpu (TqPSquareInit (Fin (1 / 10))) (map Fin [1000, 1, 3, 0, 1000]))) (Fin 1) of
      None \<Rightarrow> False | Some p' \<Rightarrow> TqPSquareEstimate p' = Fin 4)" by code_simp
  ultimately show ?C by (auto split: option.splits)
qed

lemma demo_ieee: "ieee_fpu demo_fpu" and demo_exact: "exact_fpu demo_fpu"
proof -
  have "rounding Fin" by (simp add: rounding_def)
  then show "ieee_fpu demo_fpu" by (auto simp: ieee_fpu_def demo_fpu_def intro!: exI [of _ Fin])
  show "exact_fpu demo_fpu" by (simp add: exact_fpu_def demo_fpu_def)
qed

theorem psquare_estimates_go_wrong_witness:
  "\<exists>p. psquare_pushes demo_fpu (TqPSquareInit (Fin (9 / 10))) (map Fin [1, 2, 3, 4, 5, 6, 7]) = Some p \<and> TqPSquareEstimate p = Fin 3"
  using psquare_estimates_go_wrong [of demo_fpu "[1, 2, 3, 4, 5, 6, 7]" "Fin (9 / 10)"] demo_ieee by simp

theorem psquare_brackets_witness:
  "\<exists>p. psquare_pushes demo_fpu (TqPSquareInit (Fin (1 / 2))) [Fin 4, NaN, Fin 1, Fin 9] = Some p \<and> ps_count p = 3 \<and> TqPSquareEstimate p = Fin 4"
  using psquare_brackets [OF demo_ieee refl, of "[Fin 4, NaN, Fin 1, Fin 9]" "Fin (1 / 2)"]
  by (auto simp: finite_values_def insort_key_def)

end
