(* ===== verification/Correction_Fit.thy ===== *)
theory Correction_Fit
  imports Quantile_Fit
begin

text \<open>
  The per-dimension shift and scale of the quantizer and the weights derived from them
  (\<open>pgturbohybrid_quant.c\<close>): the fit that accompanies the heap scan, one vector at a time, and the fit over the
  collected nodes, a run of equal vectors at a time. Parameters are the arithmetic of the doubles \<open>f\<close>, the
  functions of the C library (\<open>lm\<close> with the square root, \<open>erf_of\<close>), the conversion \<open>fl\<close> from \<open>double\<close> to
  \<open>float\<close>, and \<open>prep\<close>, the preprocessing of a vector (\<open>TqPreprocessVector\<close>, value by dimension). A vector is the
  list of the bit patterns of its components; counts are converted to doubles as they are (exact below \<open>2 ^ 53\<close>).
  A theorem that holds only without rounding assumes \<open>exact_fpu\<close>. A result \<open>None\<close> is a loop that never
  ends, a reported error is an \<open>Inl\<close>.
\<close>

section \<open>The state of the fit\<close>

datatype score_mode = SCORE_L2 | SCORE_IP | SCORE_COSINE | SCORE_L1

type_synonym vec = "u32 list"

type_synonym prep_fun = "vec \<Rightarrow> nat \<Rightarrow> cdouble"

record fit_state =
  fs_dimensions :: nat
  fs_scoreMode :: score_mode
  fs_tqBits :: nat
  fs_tqQuantileFit :: bool
  fs_tqWeighted :: bool
  fs_fitBuffer :: bool
  fs_fitCOuter :: cdouble
  fs_fitMinQuantileWidth :: cdouble
  fs_fitQLo :: "psquare list"
  fs_fitQHi :: "psquare list"
  fs_fitMean :: "cdouble list"
  fs_fitM2 :: "cdouble list"
  fs_fitCount :: nat
  fs_ecShift :: "cdouble list"
  fs_ecScale :: "cdouble list"
  fs_mmConst :: cdouble
  fs_weightScale :: cdouble
  fs_dPrimeSqI16 :: "int list"

definition PgturbohybridGraphCodebookOuter :: "nat \<Rightarrow> cdouble" where
  "PgturbohybridGraphCodebookOuter bits = Fin (if bits = 2 then 1510 / 1000 else if bits = 1 then 1 else 2733 / 1000)"

definition PgturbohybridGraphPhi :: "fpu \<Rightarrow> (cdouble \<Rightarrow> cdouble) \<Rightarrow> cdouble \<Rightarrow> cdouble" where
  "PgturbohybridGraphPhi f erf_of x =
     f_mul f (Fin (1 / 2)) (f_add f (Fin 1) (erf_of (f_div f x (Fin (141421356237309504880 / 10 ^ 20)))))"

definition FLT_EPSILON :: rat where "FLT_EPSILON = 1 / 2 ^ 23"

definition fitted_mode :: "score_mode \<Rightarrow> bool" where
  "fitted_mode m \<longleftrightarrow> m = SCORE_COSINE \<or> m = SCORE_IP"

definition PgturbohybridGraphEnsureStreamingFit :: "fpu \<Rightarrow> (cdouble \<Rightarrow> cdouble) \<Rightarrow> fit_state \<Rightarrow> vec \<Rightarrow> fit_state res" where
  "PgturbohybridGraphEnsureStreamingFit f erf_of s v =
     (if fs_dimensions s \<noteq> 0 \<and> fs_dimensions s \<noteq> length v
      then Inl (Ereport ERRCODE_DATA_EXCEPTION ''different vector dimensions are not supported in the same pgturbohybrid graph'')
      else let s = (if fs_dimensions s = 0 then s\<lparr>fs_dimensions := length v\<rparr> else s); dims = fs_dimensions s in
        if fs_fitBuffer s then Inr s
        else if fs_tqQuantileFit s
        then let c = PgturbohybridGraphCodebookOuter (fs_tqBits s); pOuter = PgturbohybridGraphPhi f erf_of c
             in Inr (s\<lparr>fs_fitBuffer := True, fs_fitCOuter := c, fs_fitMinQuantileWidth := Fin (1 / 1000),
                       fs_fitQLo := map (\<lambda>_. TqPSquareInit (f_sub f (Fin 1) pOuter)) [0..<dims],
                       fs_fitQHi := map (\<lambda>_. TqPSquareInit pOuter) [0..<dims]\<rparr>)
        else Inr (s\<lparr>fs_fitBuffer := True, fs_fitMean := map (\<lambda>_. Fin 0) [0..<dims], fs_fitM2 := map (\<lambda>_. Fin 0) [0..<dims]\<rparr>))"

definition psquare_push_all :: "fpu \<Rightarrow> psquare list \<Rightarrow> (nat \<Rightarrow> cdouble) \<Rightarrow> psquare list option" where
  "psquare_push_all f ps buffer = those (map (\<lambda>d. TqPSquarePush f (ps ! d) (buffer d)) [0..<length ps])"

definition psquare_push_both :: "fpu \<Rightarrow> psquare list \<times> psquare list \<Rightarrow> (nat \<Rightarrow> cdouble) \<Rightarrow> (psquare list \<times> psquare list) option" where
  "psquare_push_both f qs buffer = (case psquare_push_all f (fst qs) buffer of None \<Rightarrow> None | Some lo \<Rightarrow>
     (case psquare_push_all f (snd qs) buffer of None \<Rightarrow> None | Some hi \<Rightarrow> Some (lo, hi)))"

definition PgturbohybridGraphStreamFitVector ::
  "fpu \<Rightarrow> (cdouble \<Rightarrow> cdouble) \<Rightarrow> prep_fun \<Rightarrow> fit_state \<Rightarrow> vec option \<Rightarrow> fit_state res option" where
  "PgturbohybridGraphStreamFitVector f erf_of prep s vo = (case vo of None \<Rightarrow> Some (Inr s) | Some v \<Rightarrow>
     if \<not> fitted_mode (fs_scoreMode s) then Some (Inr s)
     else (case PgturbohybridGraphEnsureStreamingFit f erf_of s v of Inl e \<Rightarrow> Some (Inl e) | Inr s \<Rightarrow>
       let buffer = prep v in
       if fs_tqQuantileFit s
       then (case psquare_push_both f (fs_fitQLo s, fs_fitQHi s) buffer of None \<Rightarrow> None
             | Some (lo, hi) \<Rightarrow> Some (Inr (s\<lparr>fs_fitQLo := lo, fs_fitQHi := hi, fs_fitCount := fs_fitCount s + 1\<rparr>)))
       else let newN = f_add f (of_i (int (fs_fitCount s))) (Fin 1);
                delta = (\<lambda>d. f_sub f (buffer d) (fs_fitMean s ! d));
                mean = map (\<lambda>d. f_add f (fs_fitMean s ! d) (f_div f (delta d) newN)) [0..<fs_dimensions s];
                m2 = map (\<lambda>d. f_add f (fs_fitM2 s ! d) (f_mul f (delta d) (f_sub f (buffer d) (mean ! d)))) [0..<fs_dimensions s]
            in Some (Inr (s\<lparr>fs_fitMean := mean, fs_fitM2 := m2, fs_fitCount := fs_fitCount s + 1\<rparr>))))"

fun stream_fit :: "fpu \<Rightarrow> (cdouble \<Rightarrow> cdouble) \<Rightarrow> prep_fun \<Rightarrow> fit_state \<Rightarrow> vec list \<Rightarrow> fit_state res option" where
  "stream_fit f erf_of prep s [] = Some (Inr s)"
| "stream_fit f erf_of prep s (v # vs) = (case PgturbohybridGraphStreamFitVector f erf_of prep s (Some v) of
     None \<Rightarrow> None | Some (Inl e) \<Rightarrow> Some (Inl e) | Some (Inr s) \<Rightarrow> stream_fit f erf_of prep s vs)"

section \<open>Finishing the fit\<close>

definition PgturbohybridGraphMmConstScalar :: "fpu \<Rightarrow> cdouble list \<Rightarrow> cdouble" where
  "PgturbohybridGraphMmConstScalar f ecShift = foldl (\<lambda>acc x. f_add f acc (f_mul f x x)) (Fin 0) ecShift"

definition scale_weight :: "fpu \<Rightarrow> cdouble \<Rightarrow> cdouble" where
  "scale_weight f s = (if dless (Fin FLT_EPSILON) (dabs s) then f_div f (Fin 1) (f_mul f s s) else Fin 0)"

definition dPrimeSq_max :: "fpu \<Rightarrow> cdouble list \<Rightarrow> cdouble" where
  "dPrimeSq_max f ecScale = foldl (\<lambda>m s. if dless (Fin FLT_EPSILON) (dabs s)
     then let w = f_div f (Fin 1) (f_mul f s s) in (if dless m w then w else m) else m) (Fin 0) ecScale"

definition c_round :: "cdouble \<Rightarrow> cdouble" where
  \<comment> \<open>\<open>round\<close> of the C library: to the nearest whole number, halves away from zero\<close>
  "c_round x = (case x of Fin x \<Rightarrow> of_i (if x < 0 then - \<lfloor>- x + 1 / 2\<rfloor> else \<lfloor>x + 1 / 2\<rfloor>) | y \<Rightarrow> y)"

definition c_int16 :: "cdouble \<Rightarrow> int" where
  \<comment> \<open>the conversion to \<open>int16\<close> of a value between 0 and 32766; a NaN, undefined in C, would give 0\<close>
  "c_int16 x = (case x of Fin x \<Rightarrow> \<lfloor>x\<rfloor> | _ \<Rightarrow> 0)"

definition quantized_weight :: "fpu \<Rightarrow> cdouble \<Rightarrow> cdouble \<Rightarrow> int" where
  "quantized_weight f weightScale s =
     (let q = c_round (f_mul f (scale_weight f s) weightScale); q = (if dless q (Fin 0) then Fin 0 else q)
      in c_int16 (if dless (Fin 32766) q then Fin 32766 else q))"

definition PgturbohybridGraphFinishCorrectionFit :: "fpu \<Rightarrow> (cdouble \<Rightarrow> cdouble) \<Rightarrow> fit_state \<Rightarrow> fit_state" where
  "PgturbohybridGraphFinishCorrectionFit f fl s =
     (let s = s\<lparr>fs_mmConst := PgturbohybridGraphMmConstScalar f (fs_ecShift s)\<rparr> in
      if fs_tqWeighted s
      then let m = dPrimeSq_max f (fs_ecScale s);
               weightScale = (if dless (Fin FLT_EPSILON) m then f_div f (f_sub f (Fin 32767) (Fin 1)) m else Fin 1)
           in s\<lparr>fs_weightScale := fl weightScale, fs_dPrimeSqI16 := map (quantized_weight f weightScale) (fs_ecScale s)\<rparr>
      else s)"

definition quantile_correction :: "fpu \<Rightarrow> (cdouble \<Rightarrow> cdouble) \<Rightarrow> cdouble \<Rightarrow> cdouble \<Rightarrow> psquare \<Rightarrow> psquare \<Rightarrow> cdouble \<times> cdouble" where
  "quantile_correction f fl cOuter minWidth lo hi =
     (let qLo = TqPSquareEstimate lo; qHi = TqPSquareEstimate hi; denom = f_sub f qHi qLo
      in (fl (f_mul f (Fin (- (1 / 2))) (f_add f qLo qHi)),
          if dless minWidth denom then fl (f_div f (f_mul f (Fin 2) cOuter) denom) else Fin 1))"

definition moment_correction :: "fpu \<Rightarrow> libm \<Rightarrow> (cdouble \<Rightarrow> cdouble) \<Rightarrow> nat \<Rightarrow> cdouble \<Rightarrow> cdouble \<Rightarrow> cdouble \<times> cdouble" where
  "moment_correction f lm fl n mean m2 =
     (let variance = (if 1 < n then f_div f m2 (f_sub f (of_i (int n)) (Fin 1)) else Fin 0);
          stddev = (if dless (Fin 0) variance then lm_sqrt lm variance else Fin 0)
      in (fl (dneg mean), if dless (Fin FLT_EPSILON) stddev then fl (f_div f (Fin 1) stddev) else Fin 1))"

definition set_corrections :: "(nat \<Rightarrow> cdouble \<times> cdouble) \<Rightarrow> fit_state \<Rightarrow> fit_state" where
  "set_corrections corr s =
     s\<lparr>fs_ecShift := map (\<lambda>d. fst (corr d)) [0..<fs_dimensions s], fs_ecScale := map (\<lambda>d. snd (corr d)) [0..<fs_dimensions s]\<rparr>"

definition PgturbohybridGraphFinishStreamingFit :: "fpu \<Rightarrow> libm \<Rightarrow> (cdouble \<Rightarrow> cdouble) \<Rightarrow> fit_state \<Rightarrow> fit_state" where
  "PgturbohybridGraphFinishStreamingFit f lm fl s =
     (if fs_fitCount s = 0 \<or> fs_dimensions s = 0 \<or> \<not> fitted_mode (fs_scoreMode s) then s
      else PgturbohybridGraphFinishCorrectionFit f fl (set_corrections (\<lambda>d. if fs_tqQuantileFit s
             then quantile_correction f fl (fs_fitCOuter s) (fs_fitMinQuantileWidth s) (fs_fitQLo s ! d) (fs_fitQHi s ! d)
             else moment_correction f lm fl (fs_fitCount s) (fs_fitMean s ! d) (fs_fitM2 s ! d)) s))"

section \<open>The fit over the collected nodes\<close>

text \<open>
  A node is its vector with the hash stored for it; the hash decides first whether two vectors are equal. Every
  node has its vector here (the fit reads it; nodes whose vector was released are compared by their codes, elsewhere).
\<close>

type_synonym fit_node = "nat \<times> vec"

fun quantile_pushes :: "fpu \<Rightarrow> prep_fun \<Rightarrow> psquare list \<times> psquare list \<Rightarrow> vec list \<Rightarrow> (psquare list \<times> psquare list) option" where
  "quantile_pushes f prep qs [] = Some qs"
| "quantile_pushes f prep qs (v # vs) = (case psquare_push_both f qs (prep v) of None \<Rightarrow> None | Some qs \<Rightarrow> quantile_pushes f prep qs vs)"

definition quantile_start :: "fpu \<Rightarrow> (cdouble \<Rightarrow> cdouble) \<Rightarrow> nat \<Rightarrow> nat \<Rightarrow> psquare list \<times> psquare list" where
  "quantile_start f erf_of bits dims =
     (let p_outer = PgturbohybridGraphPhi f erf_of (PgturbohybridGraphCodebookOuter bits)
      in (map (\<lambda>_. TqPSquareInit (f_sub f (Fin 1) p_outer)) [0..<dims], map (\<lambda>_. TqPSquareInit p_outer) [0..<dims]))"

definition PgturbohybridGraphFitCorrectionQuantile ::
  "fpu \<Rightarrow> (cdouble \<Rightarrow> cdouble) \<Rightarrow> (cdouble \<Rightarrow> cdouble) \<Rightarrow> prep_fun \<Rightarrow> fit_state \<Rightarrow> fit_node list \<Rightarrow> fit_state option" where
  "PgturbohybridGraphFitCorrectionQuantile f erf_of fl prep s nodes =
     (case quantile_pushes f prep (quantile_start f erf_of (fs_tqBits s) (fs_dimensions s)) (map snd nodes) of None \<Rightarrow> None
      | Some (qLo, qHi) \<Rightarrow> Some (set_corrections (\<lambda>d. quantile_correction f fl
            (PgturbohybridGraphCodebookOuter (fs_tqBits s)) (Fin (1 / 1000)) (qLo ! d) (qHi ! d)) s))"

definition build_vectors_equal :: "fit_node list \<Rightarrow> nat \<Rightarrow> nat \<Rightarrow> bool" where
  "build_vectors_equal nodes l r \<longleftrightarrow> fst (nodes ! l) = fst (nodes ! r) \<and> snd (nodes ! l) = snd (nodes ! r)"

definition run_end :: "fit_node list \<Rightarrow> nat \<Rightarrow> nat" where
  "run_end nodes row = row + 1 + length (takeWhile (build_vectors_equal nodes row) [row + 1..<length nodes])"

function moment_runs :: "fpu \<Rightarrow> prep_fun \<Rightarrow> fit_node list \<Rightarrow> nat \<Rightarrow> cdouble list \<times> cdouble list \<Rightarrow> cdouble list \<times> cdouble list" where
  "moment_runs f prep nodes row mm =
     (if row < length nodes
      then let runEnd = run_end nodes row; buffer = prep (snd (nodes ! row)); priorN = of_i (int row); runN = of_i (int (runEnd - row));
               newN = f_add f priorN runN; (mean, m2) = mm; delta = (\<lambda>d. f_sub f (buffer d) (mean ! d))
           in moment_runs f prep nodes runEnd
                (map (\<lambda>d. f_add f (mean ! d) (f_div f (f_mul f (delta d) runN) newN)) [0..<length mean],
                 map (\<lambda>d. f_add f (m2 ! d) (f_div f (f_mul f (f_mul f (f_mul f (delta d) (delta d)) priorN) runN) newN)) [0..<length m2])
      else mm)"
  by pat_completeness auto
termination by (relation "measure (\<lambda>(f, prep, nodes, row, mm). length nodes - row)") (auto simp: run_end_def)

declare moment_runs.simps [simp del]

definition PgturbohybridGraphFitCorrection ::
  "fpu \<Rightarrow> libm \<Rightarrow> (cdouble \<Rightarrow> cdouble) \<Rightarrow> (cdouble \<Rightarrow> cdouble) \<Rightarrow> prep_fun \<Rightarrow> fit_state \<Rightarrow> fit_node list \<Rightarrow> fit_state option" where
  "PgturbohybridGraphFitCorrection f lm erf_of fl prep s nodes =
     (if nodes = [] \<or> fs_dimensions s = 0 \<or> \<not> fitted_mode (fs_scoreMode s) then Some s
      else map_option (PgturbohybridGraphFinishCorrectionFit f fl)
        (if fs_tqQuantileFit s then PgturbohybridGraphFitCorrectionQuantile f erf_of fl prep s nodes
         else let dims = fs_dimensions s; (mean, m2) = moment_runs f prep nodes 0 (map (\<lambda>_. Fin 0) [0..<dims], map (\<lambda>_. Fin 0) [0..<dims])
              in Some (set_corrections (\<lambda>d. moment_correction f lm fl (length nodes) (mean ! d) (m2 ! d)) s)))"

section \<open>Mean and sum of squared deviations\<close>

definition mean_of :: "(vec \<Rightarrow> nat \<Rightarrow> rat) \<Rightarrow> vec list \<Rightarrow> nat \<Rightarrow> rat" where
  "mean_of pr vs d = (\<Sum>v\<leftarrow>vs. pr v d) / of_nat (length vs)"

definition m2_of :: "(vec \<Rightarrow> nat \<Rightarrow> rat) \<Rightarrow> vec list \<Rightarrow> nat \<Rightarrow> rat" where
  "m2_of pr vs d = (\<Sum>v\<leftarrow>vs. (pr v d - mean_of pr vs d)\<^sup>2)"

lemma sum_squared_deviations:
  "(\<Sum>x\<leftarrow>xs. (x - a)\<^sup>2) = (\<Sum>x\<leftarrow>xs. x\<^sup>2) - 2 * a * sum_list xs + of_nat (length xs) * a\<^sup>2" for a :: rat
  by (induction xs) (simp_all add: power2_diff algebra_simps)

lemma sum_of_mean: "(\<Sum>v\<leftarrow>vs. pr v d) = of_nat (length vs) * mean_of pr vs d"
  by (cases "vs = []") (simp_all add: mean_of_def)

lemma m2_closed: "m2_of pr vs d = (\<Sum>v\<leftarrow>vs. (pr v d)\<^sup>2) - of_nat (length vs) * (mean_of pr vs d)\<^sup>2"
  using sum_squared_deviations [where xs = "map (\<lambda>v. pr v d) vs" and a = "mean_of pr vs d"] sum_of_mean [of pr d vs]
  by (simp add: m2_of_def comp_def power2_eq_square)

lemma run_mean:
  assumes "0 < r"
  shows "mean_of pr (vs @ replicate r v) d =
    mean_of pr vs d + (pr v d - mean_of pr vs d) * of_nat r / (of_nat (length vs) + of_nat r)"
proof -
  have pos: "(of_nat (length vs) + of_nat r :: rat) \<noteq> 0" using assms by (metis add_pos_nonneg of_nat_0_le_iff of_nat_0_less_iff add.commute less_irrefl)
  have "mean_of pr (vs @ replicate r v) d = (of_nat (length vs) * mean_of pr vs d + of_nat r * pr v d) / (of_nat (length vs) + of_nat r)"
    unfolding mean_of_def [of pr "vs @ _"] by (simp add: sum_of_mean sum_list_replicate)
  then show ?thesis using pos by (simp add: field_simps)
qed

lemma run_m2:
  assumes "0 < r"
  shows "m2_of pr (vs @ replicate r v) d =
    m2_of pr vs d + (pr v d - mean_of pr vs d) * (pr v d - mean_of pr vs d) * of_nat (length vs) * of_nat r / (of_nat (length vs) + of_nat r)"
proof -
  define n k m x where "n = (of_nat (length vs) :: rat)" and "k = (of_nat r :: rat)" and "m = mean_of pr vs d" and "x = pr v d"
  have pos: "n + k \<noteq> 0" using assms unfolding n_def k_def by (metis add_pos_nonneg of_nat_0_le_iff of_nat_0_less_iff add.commute less_irrefl)
  have M: "mean_of pr (vs @ replicate r v) d = m + (x - m) * k / (n + k)"
    using run_mean [OF assms, of pr vs v d] by (simp add: n_def k_def m_def x_def)
  have e: "n * m\<^sup>2 + k * x\<^sup>2 - (n + k) * (m + (x - m) * k / (n + k))\<^sup>2 = (x - m) * (x - m) * n * k / (n + k)"
  proof -
    define t where "t = k / (n + k)"
    have t: "(n + k) * t = k" using pos by (simp add: t_def)
    have "(n + k) * (m + (x - m) * t)\<^sup>2 = (n + k) * m\<^sup>2 + 2 * m * (x - m) * ((n + k) * t) + (x - m)\<^sup>2 * t * ((n + k) * t)"
      by (simp add: power2_eq_square algebra_simps)
    also have "\<dots> = (n + k) * m\<^sup>2 + 2 * m * (x - m) * k + (x - m)\<^sup>2 * t * k" by (simp only: t)
    finally have "n * m\<^sup>2 + k * x\<^sup>2 - (n + k) * (m + (x - m) * t)\<^sup>2 = (x - m)\<^sup>2 * (k - t * k)"
      by (simp add: power2_eq_square algebra_simps)
    also have "k - t * k = n * t" using t by (simp add: algebra_simps)
    finally show ?thesis by (simp add: t_def power2_eq_square mult.assoc)
  qed
  then show ?thesis unfolding m2_closed M using e by (simp add: sum_list_replicate n_def k_def m_def x_def algebra_simps)
qed

section \<open>The fit over the nodes\<close>

lemma run_end_spec:
  assumes "row < length nodes"
  shows "row < run_end nodes row" "run_end nodes row \<le> length nodes"
    and "map snd (take (run_end nodes row) nodes) = map snd (take row nodes) @ replicate (run_end nodes row - row) (snd (nodes ! row))"
proof -
  let ?l = "takeWhile (build_vectors_equal nodes row) [row + 1..<length nodes]"
  have le: "length ?l \<le> length nodes - (row + 1)" using length_takeWhile_le [of _ "[row + 1..<length nodes]"] by simp
  show b: "row < run_end nodes row" "run_end nodes row \<le> length nodes" using assms le by (simp_all add: run_end_def)
  have same: "snd (nodes ! k) = snd (nodes ! row)" if "row \<le> k" "k < run_end nodes row" for k
  proof (cases "k = row")
    case False
    define j where "j = k - (row + 1)"
    have j: "j < length ?l" "k = row + 1 + j" using that False by (auto simp: run_end_def j_def)
    then have "?l ! j = k" using le by (simp add: takeWhile_nth)
    then have "k \<in> set ?l" using j(1) nth_mem by metis
    then show ?thesis by (auto dest: set_takeWhileD simp: build_vectors_equal_def)
  qed simp
  show "map snd (take (run_end nodes row) nodes) = map snd (take row nodes) @ replicate (run_end nodes row - row) (snd (nodes ! row))"
  proof (rule nth_equalityI)
    fix k assume k: "k < length (map snd (take (run_end nodes row) nodes))"
    show "map snd (take (run_end nodes row) nodes) ! k =
      (map snd (take row nodes) @ replicate (run_end nodes row - row) (snd (nodes ! row))) ! k"
      using k b assms same [of k] by (cases "k < row") (simp_all add: nth_append)
  qed (use assms b in simp)
qed

text \<open>The operations in exact arithmetic on finite values.\<close>

lemma exact_ops:
  assumes "exact_fpu f"
  shows "f_add f (Fin a) (Fin b) = Fin (a + b)" "f_sub f (Fin a) (Fin b) = Fin (a - b)" "f_mul f (Fin a) (Fin b) = Fin (a * b)"
    "b \<noteq> 0 \<Longrightarrow> f_div f (Fin a) (Fin b) = Fin (a / b)"
  using assms unfolding exact_fpu_def by blast+

abbreviation moments :: "(vec \<Rightarrow> nat \<Rightarrow> rat) \<Rightarrow> nat \<Rightarrow> vec list \<Rightarrow> cdouble list \<times> cdouble list" where
  "moments pr D vs \<equiv> (map (\<lambda>d. Fin (mean_of pr vs d)) [0..<D], map (\<lambda>d. Fin (m2_of pr vs d)) [0..<D])"

lemma moment_runs_stats:
  assumes f: "exact_fpu f" and prep: "\<And>v d. prep v d = Fin (pr v d)"
    and "row \<le> length nodes" "mm = moments pr D (map snd (take row nodes))"
  shows "moment_runs f prep nodes row mm = moments pr D (map snd nodes)"
  using assms(3,4)
proof (induction "length nodes - row" arbitrary: row mm rule: less_induct)
  case less
  show ?case
  proof (cases "row < length nodes")
    case True
    note re = run_end_spec [OF True]
    define us where "us = map snd (take row nodes)"
    define r where "r = run_end nodes row - row"
    define v where "v = snd (nodes ! row)"
    have r: "0 < r" using re(1) by (simp add: r_def)
    have us: "map snd (take (run_end nodes row) nodes) = us @ replicate r v" "length us = row"
      using re(3) True by (simp_all add: us_def r_def v_def)
    have n: "f_add f (of_i (int row)) (of_i (int r)) = Fin (of_nat row + of_nat r)" by (simp add: exact_ops [OF f])
    have ne: "(of_nat row + of_nat r :: rat) \<noteq> 0" using r by (metis add_pos_nonneg of_nat_0_le_iff of_nat_0_less_iff add.commute less_irrefl)
    have mm: "(map (\<lambda>d. f_add f (fst mm ! d) (f_div f (f_mul f (f_sub f (prep v d) (fst mm ! d)) (of_i (int r))) (Fin (of_nat row + of_nat r)))) [0..<length (fst mm)],
      map (\<lambda>d. f_add f (snd mm ! d) (f_div f (f_mul f (f_mul f (f_mul f (f_sub f (prep v d) (fst mm ! d)) (f_sub f (prep v d) (fst mm ! d))) (of_i (int row))) (of_i (int r)))
        (Fin (of_nat row + of_nat r)))) [0..<length (snd mm)]) = moments pr D (us @ replicate r v)"
      using run_mean [OF r, of pr us v] run_m2 [OF r, of pr us v] us(2) ne less.prems(2)
      by (simp add: us_def [symmetric] prep exact_ops [OF f])
    have "moment_runs f prep nodes row mm = moment_runs f prep nodes (run_end nodes row) (moments pr D (us @ replicate r v))"
      unfolding moment_runs.simps [of f prep nodes row] if_P [OF True] Let_def split_beta r_def [symmetric] v_def [symmetric] n mm by (rule refl)
    also have "\<dots> = moments pr D (map snd nodes)"
      by (rule less.hyps) (use re us(1) True in simp_all)
    finally show ?thesis .
  next
    case False
    then have "row = length nodes" using less.prems(1) by simp
    then show ?thesis using less.prems(2) by (subst moment_runs.simps) simp
  qed
qed

lemma moments_nil: "moments pr D [] = (map (\<lambda>_. Fin 0) [0..<D], map (\<lambda>_. Fin 0) [0..<D])"
  by (simp add: mean_of_def m2_of_def)

lemma moment_runs_correct:
  "exact_fpu f \<Longrightarrow> (\<And>v d. prep v d = Fin (pr v d)) \<Longrightarrow>
    moment_runs f prep nodes 0 (map (\<lambda>_. Fin 0) [0..<D], map (\<lambda>_. Fin 0) [0..<D]) = moments pr D (map snd nodes)"
  by (rule moment_runs_stats) (simp_all add: mean_of_def m2_of_def)

section \<open>The streaming fit\<close>

text \<open>The states of the streaming fit after \<open>k\<close> vectors: with the estimators \<open>qs\<close>, or with the moments of \<open>us\<close>.\<close>

definition with_estimators :: "fit_state \<Rightarrow> nat \<Rightarrow> nat \<Rightarrow> psquare list \<times> psquare list \<Rightarrow> fit_state" where
  "with_estimators s D k qs = s\<lparr>fs_dimensions := D, fs_fitBuffer := True, fs_fitCOuter := PgturbohybridGraphCodebookOuter (fs_tqBits s),
     fs_fitMinQuantileWidth := Fin (1 / 1000), fs_fitQLo := fst qs, fs_fitQHi := snd qs, fs_fitCount := k\<rparr>"

definition with_moments :: "(vec \<Rightarrow> nat \<Rightarrow> rat) \<Rightarrow> fit_state \<Rightarrow> nat \<Rightarrow> vec list \<Rightarrow> fit_state" where
  "with_moments pr s D us = s\<lparr>fs_dimensions := D, fs_fitBuffer := True, fs_fitMean := fst (moments pr D us),
     fs_fitM2 := snd (moments pr D us), fs_fitCount := length us\<rparr>"

lemma stream_quantiles:
  assumes "fs_tqQuantileFit s" "fitted_mode (fs_scoreMode s)" "0 < D" "\<forall>v \<in> set vs. length v = D"
  shows "stream_fit f erf_of prep (with_estimators s D k qs) vs =
    (case quantile_pushes f prep qs vs of None \<Rightarrow> None | Some qs' \<Rightarrow> Some (Inr (with_estimators s D (k + length vs) qs')))"
  using assms(4)
proof (induction vs arbitrary: k qs)
  case (Cons v vs)
  have "PgturbohybridGraphStreamFitVector f erf_of prep (with_estimators s D k qs) (Some v) =
    (case psquare_push_both f qs (prep v) of None \<Rightarrow> None | Some qs' \<Rightarrow> Some (Inr (with_estimators s D (k + 1) qs')))"
    using assms(1-3) Cons.prems
    by (simp add: PgturbohybridGraphStreamFitVector_def PgturbohybridGraphEnsureStreamingFit_def with_estimators_def split: option.splits)
  then show ?case using Cons by (simp split: option.splits)
qed simp

lemma stream_moments:
  assumes f: "exact_fpu f" and prep: "\<And>v d. prep v d = Fin (pr v d)"
    and s: "\<not> fs_tqQuantileFit s" "fitted_mode (fs_scoreMode s)" "0 < D" and "\<forall>v \<in> set vs. length v = D"
  shows "stream_fit f erf_of prep (with_moments pr s D us) vs = Some (Inr (with_moments pr s D (us @ vs)))"
  using assms(6)
proof (induction vs arbitrary: us)
  case (Cons v vs)
  let ?n = "of_nat (length us) :: rat"
  have n: "?n + 1 \<noteq> 0" by (metis of_nat_1 of_nat_add of_nat_eq_0_iff add_is_0 one_neq_zero)
  have mean: "mean_of pr (us @ [v]) d = mean_of pr us d + (pr v d - mean_of pr us d) / (?n + 1)" for d
    using run_mean [of 1 pr us v d] by simp
  have m2: "m2_of pr (us @ [v]) d = m2_of pr us d + (pr v d - mean_of pr us d) * (pr v d - mean_of pr (us @ [v]) d)" for d
  proof -
    have "pr v d - mean_of pr (us @ [v]) d = (pr v d - mean_of pr us d) * ?n / (?n + 1)"
      unfolding mean using n by (simp add: field_simps)
    then show ?thesis using run_m2 [of 1 pr us v d] by (simp add: mult.assoc)
  qed
  have "PgturbohybridGraphStreamFitVector f erf_of prep (with_moments pr s D us) (Some v) = Some (Inr (with_moments pr s D (us @ [v])))"
    using s Cons.prems n mean m2
    by (simp add: PgturbohybridGraphStreamFitVector_def PgturbohybridGraphEnsureStreamingFit_def with_moments_def prep Let_def exact_ops [OF f])
  then show ?case using Cons by simp
qed simp

text \<open>The first vector sets the fit up.\<close>

lemma first_quantiles:
  assumes "fs_dimensions s = 0" "\<not> fs_fitBuffer s" "fs_fitCount s = 0" "fs_tqQuantileFit s" "fitted_mode (fs_scoreMode s)" "0 < length v"
  shows "stream_fit f erf_of prep s (v # vs) = stream_fit f erf_of prep (with_estimators s (length v) 0 (quantile_start f erf_of (fs_tqBits s) (length v))) (v # vs)"
proof -
  let ?t = "with_estimators s (length v) 0 (quantile_start f erf_of (fs_tqBits s) (length v))"
  have "PgturbohybridGraphEnsureStreamingFit f erf_of s v = Inr ?t"
    using assms by (cases s) (auto simp: PgturbohybridGraphEnsureStreamingFit_def with_estimators_def quantile_start_def Let_def)
  moreover have "PgturbohybridGraphEnsureStreamingFit f erf_of ?t v = Inr ?t"
    using assms by (simp add: PgturbohybridGraphEnsureStreamingFit_def with_estimators_def)
  moreover have "fs_scoreMode ?t = fs_scoreMode s" by (simp add: with_estimators_def)
  ultimately show ?thesis using assms(5) by (simp add: PgturbohybridGraphStreamFitVector_def)
qed

lemma first_moments:
  assumes "fs_dimensions s = 0" "\<not> fs_fitBuffer s" "fs_fitCount s = 0" "\<not> fs_tqQuantileFit s" "fitted_mode (fs_scoreMode s)" "0 < length v"
  shows "stream_fit f erf_of prep s (v # vs) = stream_fit f erf_of prep (with_moments pr s (length v) []) (v # vs)"
proof -
  let ?t = "with_moments pr s (length v) []"
  have "PgturbohybridGraphEnsureStreamingFit f erf_of s v = Inr ?t"
    using assms moments_nil [of pr "length v"] by (cases s) (auto simp: PgturbohybridGraphEnsureStreamingFit_def with_moments_def Let_def)
  moreover have "PgturbohybridGraphEnsureStreamingFit f erf_of ?t v = Inr ?t"
    using assms by (simp add: PgturbohybridGraphEnsureStreamingFit_def with_moments_def)
  moreover have "fs_scoreMode ?t = fs_scoreMode s" by (simp add: with_moments_def)
  ultimately show ?thesis using assms(5) by (simp add: PgturbohybridGraphStreamFitVector_def)
qed

text \<open>In an IEEE 754 arithmetic the estimators take all vectors.\<close>

definition estimators_ok :: "fpu \<Rightarrow> nat \<Rightarrow> psquare list \<Rightarrow> bool" where
  "estimators_ok f k ps \<longleftrightarrow> (\<forall>p \<in> set ps. \<exists>xs. psq_inv f xs p \<and> length xs \<le> k)"

lemma those_all: "(\<forall>x \<in> set xs. \<exists>y. g x = Some y \<and> P y) \<Longrightarrow> \<exists>ys. those (map g xs) = Some ys \<and> (\<forall>y \<in> set ys. P y)"
  by (induction xs) auto

lemma push_all_estimators:
  assumes "ieee_fpu f" "estimators_ok f k ps" "k < 2 ^ 52"
  shows "\<exists>ps'. psquare_push_all f ps buffer = Some ps' \<and> estimators_ok f (k + 1) ps'"
  unfolding psquare_push_all_def estimators_ok_def
proof (rule those_all, rule ballI)
  fix d assume "d \<in> set [0..<length ps]"
  then obtain xs where xs: "psq_inv f xs (ps ! d)" "length xs \<le> k" using assms(2) unfolding estimators_ok_def by (auto dest: nth_mem)
  show "\<exists>p. TqPSquarePush f (ps ! d) (buffer d) = Some p \<and> (\<exists>xs. psq_inv f xs p \<and> length xs \<le> k + 1)"
  proof (cases "not_finite (buffer d)")
    case True
    then show ?thesis using xs by (auto simp: TqPSquarePush_def intro!: exI [of _ xs])
  next
    case False
    then obtain x where "buffer d = Fin x" by (cases "buffer d") (auto simp: not_finite_def)
    moreover obtain p where "TqPSquarePush f (ps ! d) (Fin x) = Some p" "psq_inv f (xs @ [x]) p"
      using push_ok [OF assms(1) xs(1), of x] xs(2) assms(3) by auto
    ultimately show ?thesis using xs(2) by (auto intro!: exI [of _ "xs @ [x]"])
  qed
qed

lemma quantile_pushes_end:
  assumes "ieee_fpu f" "k + length vs \<le> 2 ^ 52" "estimators_ok f k (fst qs)" "estimators_ok f k (snd qs)"
  shows "\<exists>qs'. quantile_pushes f prep qs vs = Some qs'"
  using assms(2-4)
proof (induction vs arbitrary: k qs)
  case (Cons v vs)
  have k: "k < 2 ^ 52" using Cons.prems(1) by simp
  obtain lo where "psquare_push_all f (fst qs) (prep v) = Some lo" "estimators_ok f (k + 1) lo"
    using push_all_estimators [OF assms(1) Cons.prems(2) k] by blast
  moreover obtain hi where "psquare_push_all f (snd qs) (prep v) = Some hi" "estimators_ok f (k + 1) hi"
    using push_all_estimators [OF assms(1) Cons.prems(3) k] by blast
  ultimately show ?case using Cons.IH [of "k + 1" "(lo, hi)"] Cons.prems(1) by (simp add: psquare_push_both_def)
qed simp

lemma start_estimators: "estimators_ok f 0 (fst (quantile_start f erf_of bits D)) \<and> estimators_ok f 0 (snd (quantile_start f erf_of bits D))"
  using init_inv by (fastforce simp: estimators_ok_def quantile_start_def Let_def)

section \<open>Properties of the fit\<close>

definition fit_result :: "fit_state \<Rightarrow> cdouble list \<times> cdouble list \<times> cdouble \<times> cdouble \<times> int list" where
  "fit_result s = (fs_ecShift s, fs_ecScale s, fs_mmConst s, fs_weightScale s, fs_dPrimeSqI16 s)"

lemma finish_result:
  assumes "fs_ecShift s = fs_ecShift t" "fs_ecScale s = fs_ecScale t" "fs_tqWeighted s = fs_tqWeighted t"
    and "fs_weightScale s = fs_weightScale t" "fs_dPrimeSqI16 s = fs_dPrimeSqI16 t"
  shows "fit_result (PgturbohybridGraphFinishCorrectionFit f fl s) = fit_result (PgturbohybridGraphFinishCorrectionFit f fl t)"
  using assms by (simp add: fit_result_def PgturbohybridGraphFinishCorrectionFit_def Let_def)

text \<open>
  C12. The fit that accompanies the scan and the fit over the collected nodes compute the same: for every
  nonempty sequence of vectors of one dimension, whatever runs of equal vectors it has, whatever hashes
  are stored and however values are converted to \<open>float\<close>, both end without an error and the shift, the scale,
  the constant of the score and the weights are equal. In the mode of quantiles this holds in every IEEE 754
  arithmetic (and for at most \<open>2 ^ 52\<close> vectors, also with values that are not finite). In the mode of moments it
  is stated for exact arithmetic and finite values: the two formulas for the mean and the sum of squared
  deviations are equal as formulas, and round differently.
\<close>

theorem correction_fits_agree:
  assumes "fs_dimensions s = 0" "\<not> fs_fitBuffer s" "fs_fitCount s = 0" "fitted_mode (fs_scoreMode s)"
    and "0 < D" "\<forall>v \<in> set (map snd nodes). length v = D" "nodes \<noteq> []"
    and "if fs_tqQuantileFit s then ieee_fpu f \<and> length nodes \<le> 2 ^ 52 else exact_fpu f \<and> (\<forall>v d. prep v d = Fin (pr v d))"
  shows "\<exists>t u. stream_fit f erf_of prep s (map snd nodes) = Some (Inr t) \<and>
    PgturbohybridGraphFitCorrection f lm erf_of fl prep (s\<lparr>fs_dimensions := D\<rparr>) nodes = Some u \<and>
    fit_result (PgturbohybridGraphFinishStreamingFit f lm fl t) = fit_result u"
proof -
  obtain v vs where vs: "map snd nodes = v # vs" "length v = D" using assms(6,7) by (cases nodes) auto
  show ?thesis
  proof (cases "fs_tqQuantileFit s")
    case True
    let ?start = "quantile_start f erf_of (fs_tqBits s) D"
    have "length (map snd nodes) \<le> 2 ^ 52" "ieee_fpu f" using assms(8) True by simp_all
    then obtain qs where qs: "quantile_pushes f prep ?start (map snd nodes) = Some qs"
      using quantile_pushes_end [of f 0 "map snd nodes" ?start prep] start_estimators [of f erf_of "fs_tqBits s" D] by auto
    have "stream_fit f erf_of prep s (map snd nodes) = stream_fit f erf_of prep (with_estimators s D 0 ?start) (map snd nodes)"
      unfolding vs(1) vs(2) [symmetric] by (rule first_quantiles) (use assms True vs in simp_all)
    then have "stream_fit f erf_of prep s (map snd nodes) = Some (Inr (with_estimators s D (length nodes) qs))"
      using stream_quantiles [OF True assms(4,5,6), of f erf_of prep 0] qs by simp
    moreover have "PgturbohybridGraphFitCorrection f lm erf_of fl prep (s\<lparr>fs_dimensions := D\<rparr>) nodes =
      Some (PgturbohybridGraphFinishCorrectionFit f fl (set_corrections (\<lambda>d. quantile_correction f fl
        (PgturbohybridGraphCodebookOuter (fs_tqBits s)) (Fin (1 / 1000)) (fst qs ! d) (snd qs ! d)) (s\<lparr>fs_dimensions := D\<rparr>)))"
      using assms(4,5,7) True qs by (simp add: PgturbohybridGraphFitCorrection_def PgturbohybridGraphFitCorrectionQuantile_def split_beta)
    moreover have "fit_result (PgturbohybridGraphFinishStreamingFit f lm fl (with_estimators s D (length nodes) qs)) =
      fit_result (PgturbohybridGraphFinishCorrectionFit f fl (set_corrections (\<lambda>d. quantile_correction f fl
        (PgturbohybridGraphCodebookOuter (fs_tqBits s)) (Fin (1 / 1000)) (fst qs ! d) (snd qs ! d)) (s\<lparr>fs_dimensions := D\<rparr>)))"
      using assms(4,5,7) True
      by (simp add: PgturbohybridGraphFinishStreamingFit_def with_estimators_def)
        (rule finish_result; simp add: set_corrections_def)
    ultimately show ?thesis by blast
  next
    case False
    then have f: "exact_fpu f" and prep: "\<And>v d. prep v d = Fin (pr v d)" using assms(8) by simp_all
    have "stream_fit f erf_of prep s (map snd nodes) = stream_fit f erf_of prep (with_moments pr s D []) (map snd nodes)"
      unfolding vs(1) vs(2) [symmetric] by (rule first_moments) (use assms False vs in simp_all)
    then have "stream_fit f erf_of prep s (map snd nodes) = Some (Inr (with_moments pr s D (map snd nodes)))"
      using stream_moments [where pr = pr and us = "[]", OF f prep False assms(4,5,6)] by simp
    moreover have "PgturbohybridGraphFitCorrection f lm erf_of fl prep (s\<lparr>fs_dimensions := D\<rparr>) nodes =
      Some (PgturbohybridGraphFinishCorrectionFit f fl (set_corrections (\<lambda>d. moment_correction f lm fl (length nodes)
        (fst (moments pr D (map snd nodes)) ! d) (snd (moments pr D (map snd nodes)) ! d)) (s\<lparr>fs_dimensions := D\<rparr>)))"
      using assms(4,5,7) False by (simp add: PgturbohybridGraphFitCorrection_def moment_runs_correct [of f prep pr, OF f prep] Let_def)
    moreover have "fit_result (PgturbohybridGraphFinishStreamingFit f lm fl (with_moments pr s D (map snd nodes))) =
      fit_result (PgturbohybridGraphFinishCorrectionFit f fl (set_corrections (\<lambda>d. moment_correction f lm fl (length nodes)
        (fst (moments pr D (map snd nodes)) ! d) (snd (moments pr D (map snd nodes)) ! d)) (s\<lparr>fs_dimensions := D\<rparr>)))"
      using assms(4,5,7) False
      by (simp add: PgturbohybridGraphFinishStreamingFit_def with_moments_def) (rule finish_result; simp add: set_corrections_def)
    ultimately show ?thesis by blast
  qed
qed

text \<open>The weight of a scale, and the largest one.\<close>

definition exact_weight :: "rat \<Rightarrow> rat" where
  "exact_weight s = (if FLT_EPSILON < \<bar>s\<bar> then 1 / (s * s) else 0)"

definition max_weight :: "rat list \<Rightarrow> rat" where
  "max_weight l = Max (insert 0 (exact_weight ` set l))"

lemma epsilon: "0 < FLT_EPSILON" "FLT_EPSILON \<le> 1"
  by (simp_all add: FLT_EPSILON_def)

lemma scale_weight_exact: "exact_fpu f \<Longrightarrow> scale_weight f (Fin s) = Fin (exact_weight s)"
  using epsilon by (auto simp: scale_weight_def exact_weight_def dabs_def exact_ops)

lemma max_weight_snoc: "max_weight (l @ [s]) = max (max_weight l) (exact_weight s)"
proof -
  have "insert 0 (exact_weight ` set (l @ [s])) = insert (exact_weight s) (insert 0 (exact_weight ` set l))" by auto
  then show ?thesis unfolding max_weight_def by (simp only:) (subst Max_insert, simp_all add: max.commute)
qed

lemma exact_weight_nonneg: "0 \<le> exact_weight s"
  by (simp add: exact_weight_def)

lemma max_weight_ge: "0 \<le> max_weight l" "x \<in> set l \<Longrightarrow> exact_weight x \<le> max_weight l"
  by (simp_all add: max_weight_def)

lemma max_weight_reached: "0 < max_weight l \<Longrightarrow> \<exists>x \<in> set l. exact_weight x = max_weight l"
proof -
  assume "0 < max_weight l"
  moreover have "max_weight l \<in> insert 0 (exact_weight ` set l)" unfolding max_weight_def by (rule Max_in) simp_all
  ultimately show ?thesis by auto
qed

lemma dPrimeSq_max_exact: "exact_fpu f \<Longrightarrow> dPrimeSq_max f (map Fin l) = Fin (max_weight l)"
proof (induction l rule: rev_induct)
  case (snoc s l)
  have sq: "0 < s * s" if "s \<noteq> 0" using that by (cases "0 < s") (simp_all add: zero_less_mult_iff)
  have "max (max_weight l) (exact_weight s) = (if FLT_EPSILON < \<bar>s\<bar> then if max_weight l < 1 / (s * s) then 1 / (s * s) else max_weight l else max_weight l)"
    using max_weight_ge(1) [of l] sq by (auto simp: exact_weight_def max_def)
  moreover have "FLT_EPSILON < \<bar>s\<bar> \<Longrightarrow> f_div f (Fin 1) (f_mul f (Fin s) (Fin s)) = Fin (1 / (s * s))"
    using epsilon by (auto simp: exact_ops [OF snoc.prems])
  ultimately show ?case using snoc by (simp add: dPrimeSq_max_def max_weight_snoc dabs_def Let_def)
qed (simp add: dPrimeSq_max_def max_weight_def)

lemma quantized_near:
  assumes f: "exact_fpu f" and w: "0 \<le> w" "exact_weight x * w \<le> 32766"
  shows "0 \<le> quantized_weight f (Fin w) (Fin x) \<and> quantized_weight f (Fin w) (Fin x) \<le> 32766 \<and>
    \<bar>of_int (quantized_weight f (Fin w) (Fin x)) - exact_weight x * w\<bar> \<le> 1 / 2 \<and>
    (exact_weight x * w = 32766 \<longrightarrow> quantized_weight f (Fin w) (Fin x) = 32766)"
proof -
  let ?y = "exact_weight x * w"
  have y: "0 \<le> ?y" using w(1) exact_weight_nonneg [of x] by simp
  have n: "0 \<le> \<lfloor>?y + 1 / 2\<rfloor>" "\<lfloor>?y + 1 / 2\<rfloor> \<le> 32766" using y w(2) by (simp, linarith)
  then have "(of_int \<lfloor>?y + 1 / 2\<rfloor> :: rat) \<le> of_int 32766" by (simp only: of_int_le_iff)
  then have q: "quantized_weight f (Fin w) (Fin x) = \<lfloor>?y + 1 / 2\<rfloor>"
    using y n by (simp add: quantized_weight_def scale_weight_exact [OF f] exact_ops [OF f] c_round_def c_int16_def Let_def not_less)
  have "\<bar>of_int \<lfloor>?y + 1 / 2\<rfloor> - ?y\<bar> \<le> 1 / 2" by (rule abs_leI; use floor_correct [of "?y + 1 / 2"] in linarith)
  moreover have "?y = 32766 \<longrightarrow> \<lfloor>?y + 1 / 2\<rfloor> = 32766" by (auto simp: floor_eq_iff)
  ultimately show ?thesis using n unfolding q by blast
qed

lemma mm_const_exact: "exact_fpu f \<Longrightarrow> PgturbohybridGraphMmConstScalar f (map Fin l) = Fin (\<Sum>x\<leftarrow>l. x\<^sup>2)"
  by (induction l rule: rev_induct) (simp_all add: PgturbohybridGraphMmConstScalar_def power2_eq_square exact_ops)

text \<open>The scale the weights are multiplied with before it is stored.\<close>

definition exact_weight_scale :: "rat list \<Rightarrow> rat" where
  "exact_weight_scale l = (if FLT_EPSILON < max_weight l then 32766 / max_weight l else 1)"

lemma weights_quantized:
  assumes f: "exact_fpu f" and s: "fs_tqWeighted s" "fs_ecScale s = map Fin l"
    and r: "r = PgturbohybridGraphFinishCorrectionFit f fl s"
  shows "fs_weightScale r = fl (Fin (exact_weight_scale l)) \<and>
    list_all2 (\<lambda>q x. 0 \<le> q \<and> q \<le> 32766 \<and> \<bar>of_int q - exact_weight x * exact_weight_scale l\<bar> \<le> 1 / 2) (fs_dPrimeSqI16 r) l \<and>
    (FLT_EPSILON < max_weight l \<longrightarrow> 32766 \<in> set (fs_dPrimeSqI16 r))"
proof -
  let ?w = "exact_weight_scale l"
  have e: "max_weight l \<noteq> 0" if "FLT_EPSILON < max_weight l" using that epsilon by auto
  have w: "(if dless (Fin FLT_EPSILON) (dPrimeSq_max f (map Fin l)) then f_div f (f_sub f (Fin 32767) (Fin 1)) (dPrimeSq_max f (map Fin l)) else Fin 1) = Fin ?w"
    using e by (simp add: dPrimeSq_max_exact [OF f] exact_weight_scale_def exact_ops [OF f])
  have r': "fs_weightScale r = fl (Fin ?w)" "fs_dPrimeSqI16 r = map (\<lambda>x. quantized_weight f (Fin ?w) (Fin x)) l"
    using s w by (simp_all add: r PgturbohybridGraphFinishCorrectionFit_def Let_def)
  have pos: "0 \<le> ?w" using max_weight_ge(1) [of l] by (simp add: exact_weight_scale_def)
  have top: "exact_weight x * ?w \<le> 32766" if "x \<in> set l" for x
  proof (cases "FLT_EPSILON < max_weight l")
    case True
    have "exact_weight x * ?w \<le> max_weight l * ?w" using max_weight_ge(2) [OF that] pos by (intro mult_right_mono) auto
    then show ?thesis using True e by (simp add: exact_weight_scale_def)
  next
    case False
    then show ?thesis using max_weight_ge(2) [OF that] epsilon by (simp add: exact_weight_scale_def)
  qed
  note near = quantized_near [OF f pos top]
  have "32766 \<in> set (fs_dPrimeSqI16 r)" if big: "FLT_EPSILON < max_weight l"
  proof -
    obtain x where x: "x \<in> set l" "exact_weight x = max_weight l" using max_weight_reached [of l] big epsilon by auto
    have "exact_weight x * ?w = 32766" using x(2) big e by (simp add: exact_weight_scale_def)
    then show ?thesis using near [OF x(1)] x(1) by (force simp: r')
  qed
  moreover have "list_all2 (\<lambda>q x. 0 \<le> q \<and> q \<le> 32766 \<and> \<bar>of_int q - exact_weight x * ?w\<bar> \<le> 1 / 2) (fs_dPrimeSqI16 r) l"
    using near by (simp add: r' list_all2_conv_all_nth)
  ultimately show ?thesis using r'(1) by blast
qed

text \<open>
  C15. What the fit by moments computes in exact arithmetic, with any conversion \<open>rd\<close> of finite values to \<open>float\<close>,
  for every collection of nodes: the stored shift is the conversion of minus the mean of the dimension; the stored
  scale that of one over the standard deviation (of the sample), or one where that is not above the epsilon; the
  constant of the score is the sum of the squares of the stored shifts. The weights, where they are asked for,
  fit in 16 bits and are each within one half of the exact weight times 32766 over the largest weight (times
  one, when no weight is above the epsilon; otherwise 32766 is reached); the factor is stored converted.
\<close>

theorem correction_fit_values:
  assumes "exact_fpu f" "\<And>v d. prep v d = Fin (pr v d)" "\<And>x. fl (Fin x) = Fin (rd x)" "\<And>x. 0 < x \<Longrightarrow> lm_sqrt lm (Fin x) = Fin (root_of x)"
    and "nodes \<noteq> []" "fs_dimensions s \<noteq> 0" "fitted_mode (fs_scoreMode s)" "\<not> fs_tqQuantileFit s"
  shows "\<exists>r shift scale. PgturbohybridGraphFitCorrection f lm erf_of fl prep s nodes = Some r \<and>
    fs_ecShift r = map Fin shift \<and> fs_ecScale r = map Fin scale \<and> length shift = fs_dimensions s \<and> length scale = fs_dimensions s \<and>
    (\<forall>d < fs_dimensions s.
      let xs = map (\<lambda>node. pr (snd node) d) nodes; n = of_nat (length xs); mean = sum_list xs / n;
          variance = (\<Sum>x\<leftarrow>xs. (x - mean)\<^sup>2) / (n - 1);
          dev = (if 1 < length xs \<and> 0 < variance then root_of variance else 0)
      in shift ! d = rd (- mean) \<and> scale ! d = (if FLT_EPSILON < dev then rd (1 / dev) else 1)) \<and>
    fs_mmConst r = Fin (\<Sum>x\<leftarrow>shift. x\<^sup>2) \<and>
    (fs_tqWeighted s \<longrightarrow>
      (let factor = (if FLT_EPSILON < max_weight scale then 32766 / max_weight scale else 1)
       in fs_weightScale r = Fin (rd factor) \<and>
          list_all2 (\<lambda>q x. 0 \<le> q \<and> q \<le> 32766 \<and> \<bar>of_int q - exact_weight x * factor\<bar> \<le> 1 / 2) (fs_dPrimeSqI16 r) scale \<and>
          (FLT_EPSILON < max_weight scale \<longrightarrow> 32766 \<in> set (fs_dPrimeSqI16 r))))"
proof -
  note f = assms(1) and prep = assms(2)
  let ?vs = "map snd nodes" and ?D = "fs_dimensions s"
  define dev where "dev = (\<lambda>d. let variance = m2_of pr ?vs d / (of_nat (length nodes) - 1)
    in if 1 < length nodes \<and> 0 < variance then root_of variance else 0)"
  define shift where "shift = map (\<lambda>d. rd (- mean_of pr ?vs d)) [0..<?D]"
  define scale where "scale = map (\<lambda>d. if FLT_EPSILON < dev d then rd (1 / dev d) else 1) [0..<?D]"
  define t where "t = set_corrections (\<lambda>d. moment_correction f lm fl (length nodes)
    (fst (moments pr ?D ?vs) ! d) (snd (moments pr ?D ?vs) ! d)) s"
  define r where "r = PgturbohybridGraphFinishCorrectionFit f fl t"
  have run: "PgturbohybridGraphFitCorrection f lm erf_of fl prep s nodes = Some r"
    using assms(5-8) by (simp add: PgturbohybridGraphFitCorrection_def moment_runs_correct [of f prep pr, OF f prep] Let_def r_def t_def)
  have m: "moment_correction f lm fl (length nodes) (Fin (mean_of pr ?vs d)) (Fin (m2_of pr ?vs d)) =
    (Fin (rd (- mean_of pr ?vs d)), Fin (if FLT_EPSILON < dev d then rd (1 / dev d) else 1))" for d
  proof -
    have "(if 1 < length nodes then f_div f (Fin (m2_of pr ?vs d)) (f_sub f (of_i (int (length nodes))) (Fin 1)) else Fin 0) =
      Fin (if 1 < length nodes then m2_of pr ?vs d / (of_nat (length nodes) - 1) else 0)" by (simp add: exact_ops [OF f])
    then show ?thesis using epsilon
      by (auto simp: moment_correction_def dev_def Let_def assms(3,4) exact_ops [OF f])
  qed
  have t: "fs_ecShift t = map Fin shift" "fs_ecScale t = map Fin scale" "fs_tqWeighted t = fs_tqWeighted s"
    using m by (simp_all add: t_def set_corrections_def shift_def scale_def)
  then have r: "fs_ecShift r = map Fin shift" "fs_ecScale r = map Fin scale" "fs_mmConst r = Fin (\<Sum>x\<leftarrow>shift. x\<^sup>2)"
    by (simp_all add: r_def PgturbohybridGraphFinishCorrectionFit_def Let_def mm_const_exact [OF f])
  have "let xs = map (\<lambda>node. pr (snd node) d) nodes; n = of_nat (length xs); mean = sum_list xs / n;
          variance = (\<Sum>x\<leftarrow>xs. (x - mean)\<^sup>2) / (n - 1);
          dev = (if 1 < length xs \<and> 0 < variance then root_of variance else 0)
      in shift ! d = rd (- mean) \<and> scale ! d = (if FLT_EPSILON < dev then rd (1 / dev) else 1)" if d: "d < ?D" for d
  proof -
    have "mean_of pr ?vs d = sum_list (map (\<lambda>node. pr (snd node) d) nodes) / of_nat (length nodes)" by (simp add: mean_of_def comp_def)
    moreover have "m2_of pr ?vs d = (\<Sum>x\<leftarrow>map (\<lambda>node. pr (snd node) d) nodes. (x - mean_of pr ?vs d)\<^sup>2)" by (simp add: m2_of_def comp_def)
    ultimately show ?thesis using d by (simp add: shift_def scale_def dev_def Let_def comp_def)
  qed
  moreover have "length shift = ?D" "length scale = ?D" by (simp_all add: shift_def scale_def)
  moreover have "fs_tqWeighted s \<longrightarrow> (let factor = (if FLT_EPSILON < max_weight scale then 32766 / max_weight scale else 1)
       in fs_weightScale r = Fin (rd factor) \<and>
          list_all2 (\<lambda>q x. 0 \<le> q \<and> q \<le> 32766 \<and> \<bar>of_int q - exact_weight x * factor\<bar> \<le> 1 / 2) (fs_dPrimeSqI16 r) scale \<and>
          (FLT_EPSILON < max_weight scale \<longrightarrow> 32766 \<in> set (fs_dPrimeSqI16 r)))"
    using weights_quantized [OF f _ t(2) r_def] unfolding Let_def exact_weight_scale_def [symmetric] t(3) assms(3) by blast
  ultimately show ?thesis using run r by blast
qed

section \<open>Witnesses\<close>

definition fit_start :: "bool \<Rightarrow> fit_state" where
  "fit_start quantile = \<lparr>fs_dimensions = 0, fs_scoreMode = SCORE_IP, fs_tqBits = 4, fs_tqQuantileFit = quantile, fs_tqWeighted = True,
     fs_fitBuffer = False, fs_fitCOuter = Fin 0, fs_fitMinQuantileWidth = Fin 0, fs_fitQLo = [], fs_fitQHi = [], fs_fitMean = [], fs_fitM2 = [],
     fs_fitCount = 0, fs_ecShift = [], fs_ecScale = [], fs_mmConst = Fin 0, fs_weightScale = Fin 0, fs_dPrimeSqI16 = []\<rparr>"

definition demo_prep :: "vec \<Rightarrow> nat \<Rightarrow> rat" where
  "demo_prep v d = of_int (uint (v ! d))"

theorem correction_fits_agree_witness:
  "\<exists>t u. stream_fit demo_fpu (\<lambda>x. x) (\<lambda>v d. Fin (demo_prep v d)) (fit_start True) [[1, 2], [1, 2], [3, 0]] = Some (Inr t) \<and>
    PgturbohybridGraphFitCorrection demo_fpu demo_libm (\<lambda>x. x) (\<lambda>x. x) (\<lambda>v d. Fin (demo_prep v d)) ((fit_start True)\<lparr>fs_dimensions := 2\<rparr>)
      [(7, [1, 2]), (7, [1, 2]), (8, [3, 0])] = Some u \<and>
    fit_result (PgturbohybridGraphFinishStreamingFit demo_fpu demo_libm (\<lambda>x. x) t) = fit_result u"
  using correction_fits_agree [of "fit_start True" 2 "[(7, [1, 2]), (7, [1, 2]), (8, [3, 0])]" demo_fpu "\<lambda>v d. Fin (demo_prep v d)" demo_prep
    "\<lambda>x. x" demo_libm "\<lambda>x. x"] demo_ieee
  by (simp add: fit_start_def fitted_mode_def)

theorem correction_fit_values_witness:
  "\<exists>r shift scale. PgturbohybridGraphFitCorrection demo_fpu demo_libm (\<lambda>x. x) (\<lambda>x. x) (\<lambda>v d. Fin (demo_prep v d))
      ((fit_start False)\<lparr>fs_dimensions := 1\<rparr>) [(7, [1]), (8, [3])] = Some r \<and>
    fs_ecShift r = map Fin shift \<and> fs_ecScale r = map Fin scale \<and> shift ! 0 = -2 \<and> scale ! 0 = 1 / 2 \<and> fs_mmConst r = Fin (\<Sum>x\<leftarrow>shift. x\<^sup>2)"
proof -
  let ?s = "(fit_start False)\<lparr>fs_dimensions := 1\<rparr>"
  have p: "[(7, [1]), (8, [3])] \<noteq> ([] :: fit_node list)" "fs_dimensions ?s \<noteq> 0" "fitted_mode (fs_scoreMode ?s)" "\<not> fs_tqQuantileFit ?s" "fs_dimensions ?s = 1"
    by (simp_all add: fit_start_def fitted_mode_def)
  note w = correction_fit_values [where prep = "\<lambda>v d. Fin (demo_prep v d)" and pr = demo_prep and fl = "\<lambda>x. x" and rd = "\<lambda>x. x"
      and lm = demo_libm and root_of = "\<lambda>x. x" and erf_of = "\<lambda>x. x", OF demo_exact refl refl _ p(1-4)]
  have "lm_sqrt demo_libm x = x" for x by (simp add: demo_libm_def)
  from w [OF this, unfolded p(5)] show ?thesis
    by (elim exE conjE) (intro exI conjI, assumption, assumption, assumption, simp_all add: demo_prep_def Let_def FLT_EPSILON_def)
qed

end
